(* ===== verification/Prelude.thy ===== *)
theory Prelude
  imports Main "HOL-Library.Word"
begin

text \<open>
  Shared vocabulary of the development. It fixes how the Rust language features the
  components use are modelled:
  \<^item> \<open>Result<T, E>\<close> is the datatype \<open>('a, 'e) result\<close> with Rust's constructor names, and the
    \<open>?\<close> operator is \<open>res_bind\<close>; \<open>Option::ok_or\<close> is \<open>ok_or\<close>;
  \<^item> unsigned machine integers whose arithmetic the code writes with \<open>checked_*\<close> or
    \<open>saturating_*\<close> are natural numbers, and each of these operations takes the largest value
    of its width as its first argument, so that every overflow branch of the source is a branch
    of the model; integers that the code manipulates bitwise are words;
  \<^item> \<open>usize\<close> has 64 bits, the width of every target the repository ships to;
  \<^item> \<open>format!\<close> of an unsigned integer is \<open>show_nat\<close>.
  The lemmas below are the ones several components share.
\<close>

named_theorems arith_defs \<open>definitions of checked and saturating machine arithmetic\<close>
named_theorems result_simps \<open>inversion of results of fallible operations\<close>

subsection \<open>Results\<close>

datatype ('a, 'e) result = Ok 'a | Err 'e

primrec res_bind :: "('a, 'e) result \<Rightarrow> ('a \<Rightarrow> ('b, 'e) result) \<Rightarrow> ('b, 'e) result" where
  "res_bind (Ok x) f = f x"
| "res_bind (Err e) f = Err e"

primrec is_ok :: "('a, 'e) result \<Rightarrow> bool" where
  "is_ok (Ok x) = True"
| "is_ok (Err e) = False"

definition ok_or :: "'e \<Rightarrow> 'a option \<Rightarrow> ('a, 'e) result" where
  "ok_or e x = (case x of None \<Rightarrow> Err e | Some v \<Rightarrow> Ok v)"

definition require :: "'e \<Rightarrow> bool \<Rightarrow> (unit, 'e) result" where
  "require e b = (if b then Ok () else Err e)"

definition is_some_and :: "('a \<Rightarrow> bool) \<Rightarrow> 'a option \<Rightarrow> bool" where
  "is_some_and P x = (case x of None \<Rightarrow> False | Some v \<Rightarrow> P v)"

lemma is_some_and_simps [simp]: "\<not> is_some_and P None" "is_some_and P (Some v) \<longleftrightarrow> P v"
  by (simp_all add: is_some_and_def)

lemma res_bind_Ok_iff [result_simps]:
  "res_bind m f = Ok y \<longleftrightarrow> (\<exists>x. m = Ok x \<and> f x = Ok y)"
  by (cases m) auto

lemma res_bind_Err_iff [result_simps]:
  "res_bind m f = Err e \<longleftrightarrow> m = Err e \<or> (\<exists>x. m = Ok x \<and> f x = Err e)"
  by (cases m) auto

lemma ok_or_Ok_iff [result_simps]: "ok_or e m = Ok x \<longleftrightarrow> m = Some x"
  by (cases m) (auto simp: ok_or_def)

lemma ok_or_Err_iff [result_simps]: "ok_or e m = Err e' \<longleftrightarrow> m = None \<and> e' = e"
  by (cases m) (auto simp: ok_or_def)

lemma ok_or_simps [simp]: "ok_or e None = Err e" "ok_or e (Some x) = Ok x"
  by (simp_all add: ok_or_def)

lemma require_Ok_iff [result_simps]: "require e b = Ok u \<longleftrightarrow> b"
  by (simp add: require_def)

lemma require_Err_iff [result_simps]: "require e b = Err e' \<longleftrightarrow> \<not> b \<and> e' = e"
  by (auto simp: require_def)

lemma is_ok_iff: "is_ok r \<longleftrightarrow> (\<exists>x. r = Ok x)"
  by (cases r) auto

subsection \<open>Machine integers\<close>

definition U8_MAX :: nat where "U8_MAX = 255"
definition U16_MAX :: nat where "U16_MAX = 65535"
definition U32_MAX :: nat where "U32_MAX = 4294967295"
definition U64_MAX :: nat where "U64_MAX = 18446744073709551615"
definition USIZE_MAX :: nat where "USIZE_MAX = U64_MAX"

definition checked_add :: "nat \<Rightarrow> nat \<Rightarrow> nat \<Rightarrow> nat option" where
  "checked_add m a b = (if a + b \<le> m then Some (a + b) else None)"

definition checked_mul :: "nat \<Rightarrow> nat \<Rightarrow> nat \<Rightarrow> nat option" where
  "checked_mul m a b = (if a * b \<le> m then Some (a * b) else None)"

definition checked_sub :: "nat \<Rightarrow> nat \<Rightarrow> nat option" where
  "checked_sub a b = (if b \<le> a then Some (a - b) else None)"

definition saturating_add :: "nat \<Rightarrow> nat \<Rightarrow> nat \<Rightarrow> nat" where
  "saturating_add m a b = min m (a + b)"

definition saturating_mul :: "nat \<Rightarrow> nat \<Rightarrow> nat \<Rightarrow> nat" where
  "saturating_mul m a b = min m (a * b)"

definition saturating_sub :: "nat \<Rightarrow> nat \<Rightarrow> nat" where
  "saturating_sub a b = a - b"

definition try_from :: "nat \<Rightarrow> nat \<Rightarrow> nat option" where
  "try_from m a = (if a \<le> m then Some a else None)"

definition div_ceil :: "nat \<Rightarrow> nat \<Rightarrow> nat" where
  "div_ceil a b = (if a mod b = 0 then a div b else a div b + 1)"

lemmas [arith_defs] =
  checked_add_def checked_mul_def checked_sub_def saturating_add_def saturating_mul_def
  saturating_sub_def try_from_def

lemma checked_add_Some_iff [result_simps]:
  "checked_add m a b = Some c \<longleftrightarrow> c = a + b \<and> a + b \<le> m"
  by (auto simp: checked_add_def)

lemma checked_mul_Some_iff [result_simps]:
  "checked_mul m a b = Some c \<longleftrightarrow> c = a * b \<and> a * b \<le> m"
  by (auto simp: checked_mul_def)

lemma checked_sub_Some_iff [result_simps]:
  "checked_sub a b = Some c \<longleftrightarrow> b \<le> a \<and> c = a - b"
  by (auto simp: checked_sub_def)

lemma try_from_Some_iff [result_simps]: "try_from m a = Some c \<longleftrightarrow> a \<le> m \<and> c = a"
  by (auto simp: try_from_def)

lemma saturating_add_bound: "saturating_add m a b \<le> m"
  by (simp add: saturating_add_def)

lemma saturating_add_exact: "a + b \<le> m \<Longrightarrow> saturating_add m a b = a + b"
  by (simp add: saturating_add_def)

lemma saturating_mul_bound: "saturating_mul m a b \<le> m"
  by (simp add: saturating_mul_def)

lemma div_ceil_upper: "0 < b \<Longrightarrow> a \<le> div_ceil a b * b"
proof -
  assume b: "0 < b"
  have a: "a = a div b * b + a mod b" by simp
  show ?thesis
  proof (cases "a mod b = 0")
    case True
    with a show ?thesis by (simp add: div_ceil_def)
  next
    case False
    have "a mod b < b" using b by simp
    then have "a \<le> a div b * b + b" using a by linarith
    with False show ?thesis by (simp add: div_ceil_def)
  qed
qed

lemma div_ceil_lower: "0 < b \<Longrightarrow> div_ceil a b * b < a + b"
proof -
  assume b: "0 < b"
  have a: "a = a div b * b + a mod b" by simp
  show ?thesis
  proof (cases "a mod b = 0")
    case True
    with a b show ?thesis by (simp add: div_ceil_def)
  next
    case False
    then have "a div b * b < a" using a by linarith
    with False show ?thesis by (simp add: div_ceil_def)
  qed
qed

subsection \<open>Decimal formatting\<close>

definition digit_char :: "nat \<Rightarrow> char" where
  "digit_char d = char_of (48 + d)"

fun show_nat :: "nat \<Rightarrow> string" where
  "show_nat n = (if n < 10 then [digit_char n] else show_nat (n div 10) @ [digit_char (n mod 10)])"

declare show_nat.simps [simp del]

definition is_digit :: "char \<Rightarrow> bool" where
  "is_digit c \<longleftrightarrow> 48 \<le> (of_char c :: nat) \<and> (of_char c :: nat) \<le> 57"

lemma of_char_digit_char: "d < 10 \<Longrightarrow> (of_char (digit_char d) :: nat) = 48 + d"
  by (simp add: digit_char_def)

lemma digit_char_inj: "a < 10 \<Longrightarrow> b < 10 \<Longrightarrow> digit_char a = digit_char b \<longleftrightarrow> a = b"
  by (metis add_left_cancel of_char_digit_char)

lemma is_digit_digit_char: "d < 10 \<Longrightarrow> is_digit (digit_char d)"
  by (simp add: is_digit_def of_char_digit_char)

lemma show_nat_digits: "c \<in> set (show_nat n) \<Longrightarrow> is_digit c"
proof (induction n rule: show_nat.induct)
  case (1 n)
  then show ?case
    by (cases "n < 10") (auto simp: show_nat.simps [of n] is_digit_digit_char)
qed

lemma show_nat_nonempty: "show_nat n \<noteq> []"
  by (subst show_nat.simps) simp

lemma show_nat_inj: "show_nat a = show_nat b \<Longrightarrow> a = b"
proof (induction a arbitrary: b rule: show_nat.induct)
  case (1 a)
  show ?case
  proof (cases "a < 10")
    case True
    with "1.prems" have "b < 10"
      by (cases "b < 10") (auto simp: show_nat.simps [of a] show_nat.simps [of b] show_nat_nonempty
          show_nat_nonempty [symmetric])
    with True "1.prems" show ?thesis
      by (simp add: show_nat.simps [of a] show_nat.simps [of b] digit_char_inj)
  next
    case False
    with "1.prems" have b: "\<not> b < 10"
      by (cases "b < 10") (auto simp: show_nat.simps [of a] show_nat.simps [of b] show_nat_nonempty
          show_nat_nonempty [symmetric])
    with False "1.prems" have "show_nat (a div 10) = show_nat (b div 10)"
      and m: "a mod 10 = b mod 10"
      by (simp_all add: show_nat.simps [of a] show_nat.simps [of b] digit_char_inj)
    with False "1.IH" have "a div 10 = b div 10" by blast
    with m show ?thesis by (metis div_mult_mod_eq)
  qed
qed

text \<open>A number followed by a separator that is not a digit can be read back.\<close>

lemma takeWhile_show_nat:
  "\<not> is_digit c \<Longrightarrow> takeWhile is_digit (show_nat n @ c # rest) = show_nat n"
proof -
  assume c: "\<not> is_digit c"
  have "takeWhile is_digit (show_nat n @ c # rest) = show_nat n @ takeWhile is_digit (c # rest)"
    by (rule takeWhile_append2) (auto dest: show_nat_digits)
  with c show ?thesis by simp
qed

lemma show_nat_delim_inj:
  assumes "\<not> is_digit c" and "show_nat a @ c # x = show_nat b @ c # y"
  shows "a = b \<and> x = y"
proof -
  have "show_nat a = show_nat b"
    using takeWhile_show_nat [OF assms(1), of a x] takeWhile_show_nat [OF assms(1), of b y] assms(2)
    by simp
  with assms(2) show ?thesis by (auto dest: show_nat_inj)
qed

subsection \<open>Lists used as double-ended queues\<close>

text \<open>Keeping the newest \<open>n\<close> elements: what a bounded history does when it overflows.\<close>

definition newest :: "nat \<Rightarrow> 'a list \<Rightarrow> 'a list" where
  "newest n xs = drop (length xs - n) xs"

lemma length_newest: "length (newest n xs) = min n (length xs)"
  by (simp add: newest_def)

lemma set_newest_subset: "set (newest n xs) \<subseteq> set xs"
  by (simp add: newest_def set_drop_subset)

lemma newest_all: "length xs \<le> n \<Longrightarrow> newest n xs = xs"
  by (simp add: newest_def)

lemma newest_tl: "n < length xs \<Longrightarrow> newest n (tl xs) = newest n xs"
  by (cases xs) (auto simp: newest_def Suc_diff_le)

lemma newest_append: "newest n (newest n xs @ ys) = newest n (xs @ ys)"
proof (cases "length xs \<le> n")
  case True
  then show ?thesis by (simp add: newest_def)
next
  case False
  then have "length ys + (length xs - n) = length xs + length ys - n" by simp
  with False show ?thesis by (simp add: newest_def)
qed

lemma distinct_newest: "distinct xs \<Longrightarrow> distinct (newest n xs)"
  by (simp add: newest_def)

subsection \<open>Counting and summing over an updated list\<close>

definition count_if :: "('a \<Rightarrow> bool) \<Rightarrow> 'a list \<Rightarrow> nat" where
  "count_if P xs = length (filter P xs)"

lemma count_if_update:
  "i < length xs \<Longrightarrow>
   count_if P (xs[i := y]) + (if P (xs ! i) then 1 else 0) = count_if P xs + (if P y then 1 else 0)"
proof (induction xs arbitrary: i)
  case Nil
  then show ?case by simp
next
  case (Cons x xs)
  then show ?case by (cases i) (auto simp: count_if_def)
qed

lemma count_if_pos_iff: "0 < count_if P xs \<longleftrightarrow> (\<exists>x\<in>set xs. P x)"
  by (auto simp: count_if_def filter_empty_conv)

lemma sum_list_map_mono:
  fixes f :: "'a \<Rightarrow> nat"
  shows "(\<And>x. x \<in> set xs \<Longrightarrow> f x \<le> g x) \<Longrightarrow> sum_list (map f xs) \<le> sum_list (map g xs)"
  by (induction xs) (auto intro: add_mono)

lemma sum_list_update_less:
  fixes f g :: "'a \<Rightarrow> nat"
  shows "i < length xs \<Longrightarrow> (\<And>x. x \<in> set xs \<Longrightarrow> g x \<le> f x) \<Longrightarrow> g y < f (xs ! i) \<Longrightarrow>
    sum_list (map g (xs[i := y])) < sum_list (map f xs)"
proof (induction xs arbitrary: i)
  case Nil
  then show ?case by simp
next
  case (Cons x xs)
  show ?case
  proof (cases i)
    case 0
    have "sum_list (map g xs) \<le> sum_list (map f xs)"
      by (rule sum_list_map_mono) (use Cons.prems(2) in simp)
    with 0 Cons.prems(3) show ?thesis by simp
  next
    case (Suc j)
    with Cons.prems Cons.IH [of j] have "sum_list (map g (xs[j := y])) < sum_list (map f xs)" by simp
    moreover have "g x \<le> f x" using Cons.prems(2) by simp
    ultimately show ?thesis using Suc by simp
  qed
qed

subsection \<open>Maximal runs\<close>

text \<open>The maximal runs of elements that satisfy a predicate, in order: the words of a text, the components of a path.\<close>

function maximal_runs :: "('a \<Rightarrow> bool) \<Rightarrow> 'a list \<Rightarrow> 'a list list" where
  "maximal_runs P [] = []"
| "maximal_runs P (x # xs) =
     (if P x then (x # takeWhile P xs) # maximal_runs P (dropWhile P xs) else maximal_runs P xs)"
  by pat_completeness auto
termination
  by (relation "measure (length \<circ> snd)") (auto simp: le_imp_less_Suc length_dropWhile_le)

lemma maximal_runs_in: "r \<in> set (maximal_runs P xs) \<Longrightarrow> r \<noteq> [] \<and> (\<forall>x \<in> set r. P x) \<and> set r \<subseteq> set xs"
proof (induction P xs rule: maximal_runs.induct)
  case (2 P x xs)
  show ?case
  proof (cases "P x \<and> r = x # takeWhile P xs")
    case True
    then show ?thesis by (auto dest: set_takeWhileD)
  next
    case False
    then have "P x \<and> r \<in> set (maximal_runs P (dropWhile P xs)) \<or> \<not> P x \<and> r \<in> set (maximal_runs P xs)"
      using "2.prems" by (auto split: if_splits)
    then show ?thesis using "2.IH" set_dropWhileD [of _ P xs] by (meson list.set_intros(2) subsetD subsetI)
  qed
qed simp

lemma maximal_runs_map: "maximal_runs P (map f xs) = map (map f) (maximal_runs (P \<circ> f) xs)"
  by (induction "P \<circ> f" xs rule: maximal_runs.induct) (simp_all add: takeWhile_map dropWhile_map comp_def)

lemma maximal_runs_none: "(\<And>x. x \<in> set xs \<Longrightarrow> \<not> P x) \<Longrightarrow> maximal_runs P xs = []"
  by (induction xs) simp_all

lemma maximal_runs_dropWhile: "maximal_runs P (dropWhile (\<lambda>x. \<not> P x) xs) = maximal_runs P xs"
  by (induction xs) simp_all

end
