(* ===== verification/Operation_Lifecycle.thy ===== *)
theory Operation_Lifecycle
  imports Prelude
begin

text \<open>
  The crate \<open>crates/operation-lifecycle\<close>: \<open>RunControl\<close>, the one-byte atomic cell on which
  cancellation and terminal claiming are arbitrated, and \<open>WorkerLedger\<close>, the bounded record of
  worker identities.

  \<open>RunControl\<close> is modelled twice. The sequential operations (\<open>request_cancel\<close>,
  \<open>claim_terminal\<close> and the two observers) act on the value of the cell. The concurrent model is
  a step relation over any number of threads, each inside \<open>request_cancel\<close> (one
  \<open>compare_exchange\<close>) or \<open>claim_terminal\<close> (a loop of a load and a \<open>compare_exchange\<close>), where a
  step is one atomic access to the cell, in any interleaving.
\<close>

section \<open>RunControl\<close>

type_synonym cell = "8 word"

definition RUNNING :: cell where "RUNNING = 0"
definition CANCEL_REQUESTED :: cell where "CANCEL_REQUESTED = 1"
definition TERMINAL :: cell where "TERMINAL = 2"
definition TERMINAL_CANCELLED :: cell where "TERMINAL_CANCELLED = 3"

lemmas cell_defs = RUNNING_def CANCEL_REQUESTED_def TERMINAL_def TERMINAL_CANCELLED_def

record terminal_claim =
  cancellation_requested_claim :: bool

definition run_control_new :: "bool \<Rightarrow> cell" where
  "run_control_new cancelled = (if cancelled then CANCEL_REQUESTED else RUNNING)"

text \<open>\<open>compare_exchange\<close> returns the new cell and whether the exchange took place.\<close>

definition compare_exchange :: "cell \<Rightarrow> cell \<Rightarrow> cell \<Rightarrow> cell \<times> bool" where
  "compare_exchange c current new = (if c = current then (new, True) else (c, False))"

definition request_cancel :: "cell \<Rightarrow> cell \<times> bool" where
  "request_cancel c = compare_exchange c RUNNING CANCEL_REQUESTED"

definition cancellation_requested :: "cell \<Rightarrow> bool" where
  "cancellation_requested c \<longleftrightarrow> c = CANCEL_REQUESTED \<or> c = TERMINAL_CANCELLED"

definition is_terminal :: "cell \<Rightarrow> bool" where
  "is_terminal c \<longleftrightarrow> c = TERMINAL \<or> c = TERMINAL_CANCELLED"

text \<open>The \<open>match\<close> of the claim loop on the loaded byte, with its \<open>unreachable!\<close> arm.\<close>

datatype claim_decision = Exchange_To cell | Already_Terminal | Unreachable

definition claim_decide :: "cell \<Rightarrow> claim_decision" where
  "claim_decide state =
     (if state = RUNNING then Exchange_To TERMINAL
      else if state = CANCEL_REQUESTED then Exchange_To TERMINAL_CANCELLED
      else if state = TERMINAL \<or> state = TERMINAL_CANCELLED then Already_Terminal
      else Unreachable)"

text \<open>
  \<open>claim_terminal\<close> with no interference: the exchange follows the load immediately, so the
  loop runs once. The outer option is \<open>None\<close> for the panic of \<open>unreachable!\<close>.
\<close>

definition claim_terminal :: "cell \<Rightarrow> (cell \<times> terminal_claim option) option" where
  "claim_terminal c =
     (case claim_decide c of
        Exchange_To new \<Rightarrow>
          Some (new, Some \<lparr>cancellation_requested_claim = (c = CANCEL_REQUESTED)\<rparr>)
      | Already_Terminal \<Rightarrow> Some (c, None)
      | Unreachable \<Rightarrow> None)"

subsection \<open>Threads racing on one cell\<close>

datatype pc =
    Cancel_Start
  | Cancel_Done bool
  | Claim_Load
  | Claim_Exchange cell cell
  | Claim_Done "terminal_claim option"
  | Claim_Panic

record race =
  cell_value :: cell
  threads :: "pc list"

text \<open>One atomic access by a thread: the new cell and the thread's new program counter.\<close>

fun thread_step :: "cell \<Rightarrow> pc \<Rightarrow> (cell \<times> pc) option" where
  "thread_step c Cancel_Start = (case request_cancel c of (c', b) \<Rightarrow> Some (c', Cancel_Done b))"
| "thread_step c Claim_Load =
     (case claim_decide c of
        Exchange_To new \<Rightarrow> Some (c, Claim_Exchange c new)
      | Already_Terminal \<Rightarrow> Some (c, Claim_Done None)
      | Unreachable \<Rightarrow> Some (c, Claim_Panic))"
| "thread_step c (Claim_Exchange state new) =
     (case compare_exchange c state new of
        (c', True) \<Rightarrow>
          Some (c', Claim_Done (Some \<lparr>cancellation_requested_claim = (state = CANCEL_REQUESTED)\<rparr>))
      | (c', False) \<Rightarrow> Some (c', Claim_Load))"
| "thread_step c (Cancel_Done b) = None"
| "thread_step c (Claim_Done r) = None"
| "thread_step c Claim_Panic = None"

inductive race_step :: "race \<Rightarrow> race \<Rightarrow> bool" where
  race_step: "i < length (threads r) \<Longrightarrow> thread_step (cell_value r) (threads r ! i) = Some (c', p') \<Longrightarrow>
    race_step r \<lparr>cell_value = c', threads = (threads r)[i := p']\<rparr>"

definition starting :: "pc \<Rightarrow> bool" where
  "starting p \<longleftrightarrow> p = Cancel_Start \<or> p = Claim_Load"

inductive race_reachable :: "bool \<Rightarrow> race \<Rightarrow> bool" for cancelled where
  race_init: "list_all starting ps \<Longrightarrow>
    race_reachable cancelled \<lparr>cell_value = run_control_new cancelled, threads = ps\<rparr>"
| race_next: "race_reachable cancelled r \<Longrightarrow> race_step r r' \<Longrightarrow> race_reachable cancelled r'"

definition wins_terminal :: "pc \<Rightarrow> bool" where
  "wins_terminal p \<longleftrightarrow> (\<exists>tc. p = Claim_Done (Some tc))"

definition wins_cancel :: "pc \<Rightarrow> bool" where
  "wins_cancel p \<longleftrightarrow> p = Cancel_Done True"

fun finished :: "pc \<Rightarrow> bool" where
  "finished (Cancel_Done b) = True"
| "finished (Claim_Done r) = True"
| "finished Claim_Panic = True"
| "finished _ = False"

text \<open>What the cell says about every thread; it is kept by each access.\<close>

definition pc_ok :: "cell \<Rightarrow> pc \<Rightarrow> bool" where
  "pc_ok c p \<longleftrightarrow>
     (case p of
        Cancel_Start \<Rightarrow> True
      | Cancel_Done b \<Rightarrow> c \<noteq> RUNNING \<and> (b \<longrightarrow> cancellation_requested c)
      | Claim_Load \<Rightarrow> True
      | Claim_Exchange s n \<Rightarrow>
          (s = RUNNING \<and> n = TERMINAL \<or> s = CANCEL_REQUESTED \<and> n = TERMINAL_CANCELLED) \<and>
          (s = CANCEL_REQUESTED \<longrightarrow> cancellation_requested c)
      | Claim_Done None \<Rightarrow> is_terminal c
      | Claim_Done (Some tc) \<Rightarrow>
          is_terminal c \<and> cancellation_requested_claim tc = cancellation_requested c
      | Claim_Panic \<Rightarrow> False)"

definition race_inv :: "bool \<Rightarrow> race \<Rightarrow> bool" where
  "race_inv cancelled r \<longleftrightarrow>
     cell_value r \<in> {RUNNING, CANCEL_REQUESTED, TERMINAL, TERMINAL_CANCELLED} \<and>
     (\<forall>p \<in> set (threads r). pc_ok (cell_value r) p) \<and>
     count_if wins_terminal (threads r) = (if is_terminal (cell_value r) then 1 else 0) \<and>
     count_if wins_cancel (threads r) =
       (if cancellation_requested (cell_value r) \<and> \<not> cancelled then 1 else 0) \<and>
     (cancelled \<longrightarrow> cancellation_requested (cell_value r))"

lemma cell_distinct [simp]:
  "RUNNING \<noteq> CANCEL_REQUESTED" "RUNNING \<noteq> TERMINAL" "RUNNING \<noteq> TERMINAL_CANCELLED"
  "CANCEL_REQUESTED \<noteq> RUNNING" "CANCEL_REQUESTED \<noteq> TERMINAL"
  "CANCEL_REQUESTED \<noteq> TERMINAL_CANCELLED"
  "TERMINAL \<noteq> RUNNING" "TERMINAL \<noteq> CANCEL_REQUESTED" "TERMINAL \<noteq> TERMINAL_CANCELLED"
  "TERMINAL_CANCELLED \<noteq> RUNNING" "TERMINAL_CANCELLED \<noteq> CANCEL_REQUESTED"
  "TERMINAL_CANCELLED \<noteq> TERMINAL"
  by (simp_all add: cell_defs)

lemmas race_defs = claim_decide_def request_cancel_def compare_exchange_def
  is_terminal_def cancellation_requested_def wins_terminal_def wins_cancel_def

definition valid_cell :: "cell \<Rightarrow> bool" where
  "valid_cell c \<longleftrightarrow> c \<in> {RUNNING, CANCEL_REQUESTED, TERMINAL, TERMINAL_CANCELLED}"

text \<open>The possible moves of one access: only a winning exchange changes the cell.\<close>

lemma thread_step_moves:
  assumes "thread_step c p = Some (c', p')" and "pc_ok c p" and "valid_cell c"
  shows "c' = c \<and> \<not> wins_terminal p' \<and> \<not> wins_cancel p' \<and> pc_ok c p'
    \<or> c = RUNNING \<and> c' = CANCEL_REQUESTED \<and> p' = Cancel_Done True
    \<or> c = RUNNING \<and> c' = TERMINAL \<and> p' = Claim_Done (Some \<lparr>cancellation_requested_claim = False\<rparr>)
    \<or> c = CANCEL_REQUESTED \<and> c' = TERMINAL_CANCELLED \<and>
      p' = Claim_Done (Some \<lparr>cancellation_requested_claim = True\<rparr>)"
  using assms
  by (cases p) (auto simp: race_defs pc_ok_def valid_cell_def split: if_splits)

lemma thread_step_running: "thread_step c p = Some q \<Longrightarrow> \<not> wins_terminal p \<and> \<not> wins_cancel p"
  by (cases p) (auto simp: wins_terminal_def wins_cancel_def)

text \<open>The cell only moves forward, so what it said about the other threads stays true.\<close>

lemma pc_ok_forward:
  "pc_ok RUNNING q \<Longrightarrow> pc_ok CANCEL_REQUESTED q"
  "pc_ok RUNNING q \<Longrightarrow> pc_ok TERMINAL q"
  "pc_ok CANCEL_REQUESTED q \<Longrightarrow> pc_ok TERMINAL_CANCELLED q"
  by (cases q; auto simp: pc_ok_def race_defs split: option.splits)+

lemma pc_ok_new:
  "pc_ok CANCEL_REQUESTED (Cancel_Done True)"
  "pc_ok TERMINAL (Claim_Done (Some \<lparr>cancellation_requested_claim = False\<rparr>))"
  "pc_ok TERMINAL_CANCELLED (Claim_Done (Some \<lparr>cancellation_requested_claim = True\<rparr>))"
  by (simp_all add: pc_ok_def race_defs)

lemma race_inv_init:
  "list_all starting ps \<Longrightarrow>
   race_inv cancelled \<lparr>cell_value = run_control_new cancelled, threads = ps\<rparr>"
  by (auto simp: race_inv_def run_control_new_def race_defs pc_ok_def starting_def list_all_iff
      count_if_def filter_empty_conv)

lemma race_step_inv:
  assumes "race_step r r'" and "race_inv cancelled r"
  shows "race_inv cancelled r'"
  using assms
proof (induction rule: race_step.induct)
  case (race_step i r c' p')
  let ?c = "cell_value r" and ?ps = "threads r"
  have all: "\<forall>p \<in> set ?ps. pc_ok ?c p" and range: "valid_cell ?c"
    using race_step.prems by (simp_all add: race_inv_def valid_cell_def)
  then have "pc_ok ?c (?ps ! i)" using race_step.hyps(1) by simp
  note moves = thread_step_moves [OF race_step.hyps(2) this range]
    and run = thread_step_running [OF race_step.hyps(2)]
  have sub: "set (?ps[i := p']) \<subseteq> insert p' (set ?ps)" by (rule set_update_subset_insert)
  note wt = count_if_update [OF race_step.hyps(1), of wins_terminal p']
    and wc = count_if_update [OF race_step.hyps(1), of wins_cancel p']
  from moves consider
    (stay) "c' = ?c" "\<not> wins_terminal p'" "\<not> wins_cancel p'" "pc_ok ?c p'"
  | (cancel) "?c = RUNNING" "c' = CANCEL_REQUESTED" "p' = Cancel_Done True"
  | (claim) "?c = RUNNING" "c' = TERMINAL"
      "p' = Claim_Done (Some \<lparr>cancellation_requested_claim = False\<rparr>)"
  | (claim_cancelled) "?c = CANCEL_REQUESTED" "c' = TERMINAL_CANCELLED"
      "p' = Claim_Done (Some \<lparr>cancellation_requested_claim = True\<rparr>)" by blast
  then show ?case
  proof cases
    case stay
    with all sub wt wc run race_step.prems show ?thesis by (auto simp: race_inv_def)
  next
    case cancel
    with all sub have "\<forall>p \<in> set (?ps[i := p']). pc_ok c' p"
      by (auto simp: pc_ok_forward pc_ok_new)
    with cancel wt wc run race_step.prems show ?thesis by (auto simp: race_inv_def race_defs)
  next
    case claim
    with all sub have "\<forall>p \<in> set (?ps[i := p']). pc_ok c' p"
      by (auto simp: pc_ok_forward pc_ok_new)
    with claim wt wc run race_step.prems show ?thesis by (auto simp: race_inv_def race_defs)
  next
    case claim_cancelled
    with all sub have "\<forall>p \<in> set (?ps[i := p']). pc_ok c' p"
      by (auto simp: pc_ok_forward pc_ok_new)
    with claim_cancelled wt wc run race_step.prems show ?thesis
      by (auto simp: race_inv_def race_defs)
  qed
qed

lemma race_reachable_inv: "race_reachable cancelled r \<Longrightarrow> race_inv cancelled r"
  by (induction rule: race_reachable.induct) (auto intro: race_inv_init race_step_inv)

subsection \<open>Progress of the claim loop\<close>

text \<open>
  A failed exchange means the cell moved since the load, and the cell moves at most twice, so
  the loop is bounded. The potential of a thread is the number of accesses it can still make.
\<close>

definition cell_rank :: "cell \<Rightarrow> nat" where
  "cell_rank c = (if c = RUNNING then 0 else if c = CANCEL_REQUESTED then 1 else 2)"

fun potential :: "cell \<Rightarrow> pc \<Rightarrow> nat" where
  "potential c Cancel_Start = 1"
| "potential c Claim_Load = 5 - 2 * cell_rank c"
| "potential c (Claim_Exchange s n) = (if s = c then 4 - 2 * cell_rank c else 6 - 2 * cell_rank c)"
| "potential c _ = 0"

definition race_potential :: "race \<Rightarrow> nat" where
  "race_potential r = sum_list (map (potential (cell_value r)) (threads r))"

lemma potential_bound: "potential c p \<le> 6"
  by (cases "(c, p)" rule: potential.cases) auto

lemma potential_starting: "starting p \<Longrightarrow> potential c p \<le> 5"
  by (auto simp: starting_def)

lemma thread_step_potential:
  assumes "thread_step c p = Some (c', p')" and "pc_ok c p" and "valid_cell c"
  shows "potential c' p' < potential c p"
  using assms
  by (cases p) (auto simp: race_defs pc_ok_def valid_cell_def cell_rank_def split: if_splits)

lemma potential_forward:
  assumes "thread_step c p = Some (c', p')" and "pc_ok c p" and "valid_cell c" and "pc_ok c q"
  shows "potential c' q \<le> potential c q"
  using thread_step_moves [OF assms(1-3)] assms(4)
  by (cases q) (auto simp: cell_rank_def pc_ok_def race_defs)

lemma race_step_potential:
  assumes "race_step r r'" and "race_inv cancelled r"
  shows "race_potential r' < race_potential r"
  using assms
proof (induction rule: race_step.induct)
  case (race_step i r c' p')
  let ?c = "cell_value r" and ?ps = "threads r"
  have all: "\<forall>p \<in> set ?ps. pc_ok ?c p" and range: "valid_cell ?c"
    using race_step.prems by (simp_all add: race_inv_def valid_cell_def)
  then have ok: "pc_ok ?c (?ps ! i)" using race_step.hyps(1) by simp
  show ?case
    unfolding race_potential_def race.simps
    by (rule sum_list_update_less [OF race_step.hyps(1)])
      (use all thread_step_potential [OF race_step.hyps(2) ok range]
         potential_forward [OF race_step.hyps(2) ok range] in auto)
qed

lemma race_steps_bounded:
  "(race_step ^^ k) r r' \<Longrightarrow> race_inv cancelled r \<Longrightarrow> k + race_potential r' \<le> race_potential r \<and> race_inv cancelled r'"
proof (induction k arbitrary: r')
  case 0
  then show ?case by simp
next
  case (Suc k)
  then obtain m where m: "(race_step ^^ k) r m" and step: "race_step m r'"
    by auto
  from Suc.IH [OF m Suc.prems(2)] have "k + race_potential m \<le> race_potential r" "race_inv cancelled m"
    by simp_all
  with race_step_potential [OF step] race_step_inv [OF step] show ?case by fastforce
qed

subsection \<open>What the arbitration guarantees\<close>

lemma finished_pc:
  "finished p \<Longrightarrow> pc_ok c p \<Longrightarrow> (\<exists>b. p = Cancel_Done b) \<or> (\<exists>res. p = Claim_Done res)"
  by (cases p) (auto simp: pc_ok_def)

lemma thread_step_None_iff: "thread_step c p = None \<longleftrightarrow> finished p"
  by (cases p) (auto simp: race_defs)

lemma finished_iff_no_step:
  "list_all finished (threads r) \<longleftrightarrow> \<not> (\<exists>r'. race_step r r')"
proof
  assume "list_all finished (threads r)"
  then show "\<not> (\<exists>r'. race_step r r')"
    by (metis list_all_length option.distinct(1) race_step.cases thread_step_None_iff)
next
  assume stuck: "\<not> (\<exists>r'. race_step r r')"
  show "list_all finished (threads r)"
    unfolding list_all_length
  proof (intro allI impI, rule ccontr)
    fix i assume i: "i < length (threads r)" and "\<not> finished (threads r ! i)"
    then obtain c' p' where "thread_step (cell_value r) (threads r ! i) = Some (c', p')"
      by (metis thread_step_None_iff not_None_eq surj_pair)
    with i stuck show False by (auto intro: race_step.intros)
  qed
qed

lemma count_if_one: "count_if P xs = 1 \<longleftrightarrow> (\<exists>!i. i < length xs \<and> P (xs ! i))"
proof -
  have "count_if P xs = card {i. i < length xs \<and> P (xs ! i)}"
    by (simp add: count_if_def length_filter_conv_card)
  then show ?thesis by (auto simp: card_1_singleton_iff Ex1_def)
qed

text \<open>
  C1. Exactly one claimant of a \<open>RunControl\<close> wins. Take any number of threads, each calling
  \<open>request_cancel\<close> or \<open>claim_terminal\<close> once on one control created by \<open>RunControl::new\<close>, in any
  interleaving of their atomic accesses. When all of them have returned and at least one called
  \<open>claim_terminal\<close>, exactly one of them received \<open>Some\<close>; its claim reports cancellation
  exactly if the control was created cancelled or one of the cancellers was told that its
  request was accepted; and at most one canceller was told so.
\<close>

theorem run_control_one_winner:
  assumes "race_reachable cancelled r" and "list_all finished (threads r)"
    and "Claim_Done res \<in> set (threads r)"
  shows "(\<exists>!i. i < length (threads r) \<and> wins_terminal (threads r ! i)) \<and>
    (\<forall>tc. Claim_Done (Some tc) \<in> set (threads r) \<longrightarrow>
       (cancellation_requested_claim tc \<longleftrightarrow> cancelled \<or> Cancel_Done True \<in> set (threads r))) \<and>
    count_if wins_cancel (threads r) \<le> 1"
proof -
  have inv: "race_inv cancelled r" by (rule race_reachable_inv [OF assms(1)])
  then have "pc_ok (cell_value r) (Claim_Done res)" using assms(3) by (simp add: race_inv_def)
  then have t: "is_terminal (cell_value r)" by (auto simp: pc_ok_def split: option.splits)
  with inv have "count_if wins_terminal (threads r) = 1" by (simp add: race_inv_def)
  then have "\<exists>!i. i < length (threads r) \<and> wins_terminal (threads r ! i)"
    by (simp only: count_if_one)
  moreover have "Cancel_Done True \<in> set (threads r) \<longleftrightarrow> 0 < count_if wins_cancel (threads r)"
    by (auto simp: count_if_pos_iff wins_cancel_def)
  moreover have "cancellation_requested_claim tc = cancellation_requested (cell_value r)"
    if "Claim_Done (Some tc) \<in> set (threads r)" for tc
    using that inv by (force simp: race_inv_def pc_ok_def)
  ultimately show ?thesis using inv by (auto simp: race_inv_def)
qed

text \<open>Witness for C1: a canceller is accepted between the load and the exchange of a claimant,
  whose first exchange fails and whose second attempt wins with the cancellation recorded.\<close>

theorem run_control_one_winner_witness:
  "\<exists>!i. i < length [Cancel_Done True, Claim_Done (Some \<lparr>cancellation_requested_claim = True\<rparr>)] \<and>
     wins_terminal ([Cancel_Done True, Claim_Done (Some \<lparr>cancellation_requested_claim = True\<rparr>)] ! i)"
proof -
  let ?r0 = "\<lparr>cell_value = run_control_new False, threads = [Cancel_Start, Claim_Load]\<rparr>"
  let ?r1 = "\<lparr>cell_value = RUNNING, threads = [Cancel_Start, Claim_Exchange RUNNING TERMINAL]\<rparr>"
  let ?r2 = "\<lparr>cell_value = CANCEL_REQUESTED, threads = [Cancel_Done True, Claim_Exchange RUNNING TERMINAL]\<rparr>"
  let ?r3 = "\<lparr>cell_value = CANCEL_REQUESTED, threads = [Cancel_Done True, Claim_Load]\<rparr>"
  let ?r4 = "\<lparr>cell_value = CANCEL_REQUESTED,
    threads = [Cancel_Done True, Claim_Exchange CANCEL_REQUESTED TERMINAL_CANCELLED]\<rparr>"
  let ?r5 = "\<lparr>cell_value = TERMINAL_CANCELLED,
    threads = [Cancel_Done True, Claim_Done (Some \<lparr>cancellation_requested_claim = True\<rparr>)]\<rparr>"
  have r0: "race_reachable False ?r0"
    by (rule race_init) (simp add: starting_def)
  have s1: "race_step ?r0 ?r1"
    using race_step.intros [of 1 ?r0] by (simp add: race_defs run_control_new_def)
  have s2: "race_step ?r1 ?r2"
    using race_step.intros [of 0 ?r1] by (simp add: race_defs)
  have s3: "race_step ?r2 ?r3"
    using race_step.intros [of 1 ?r2] by (simp add: race_defs)
  have s4: "race_step ?r3 ?r4"
    using race_step.intros [of 1 ?r3] by (simp add: race_defs)
  have s5: "race_step ?r4 ?r5"
    using race_step.intros [of 1 ?r4] by (simp add: race_defs)
  have "race_reachable False ?r5"
    by (rule race_next [OF race_next [OF race_next [OF race_next [OF race_next
          [OF r0 s1] s2] s3] s4] s5])
  moreover have "list_all finished (threads ?r5)" by simp
  moreover have "Claim_Done (Some \<lparr>cancellation_requested_claim = True\<rparr>) \<in> set (threads ?r5)" by simp
  ultimately have "\<exists>!i. i < length (threads ?r5) \<and> wins_terminal (threads ?r5 ! i)"
    by (rule run_control_one_winner [THEN conjunct1])
  then show ?thesis by simp
qed

text \<open>
  C2. The claim loop terminates whatever the other threads do: from a fresh control with \<open>n\<close>
  threads at most \<open>5 * n\<close> atomic accesses happen in total, and a state in which no thread can
  take a step is one in which every call has returned (none is stuck in the loop, and none has
  reached the \<open>unreachable!\<close> arm).
\<close>

theorem run_control_terminates:
  assumes "list_all starting ps"
    and "(race_step ^^ k) \<lparr>cell_value = run_control_new cancelled, threads = ps\<rparr> r"
  shows "k \<le> 5 * length ps \<and>
    ((\<nexists>r'. race_step r r') \<longleftrightarrow> list_all (\<lambda>p. (\<exists>b. p = Cancel_Done b) \<or> (\<exists>res. p = Claim_Done res)) (threads r))"
proof -
  let ?r0 = "\<lparr>cell_value = run_control_new cancelled, threads = ps\<rparr>"
  have inv0: "race_inv cancelled ?r0" by (rule race_inv_init [OF assms(1)])
  have "race_potential ?r0 \<le> sum_list (map (\<lambda>_. 5) ps)"
    unfolding race_potential_def race.simps
    by (rule sum_list_map_mono) (use assms(1) in \<open>auto simp: list_all_iff potential_starting\<close>)
  then have "k \<le> 5 * length ps"
    using race_steps_bounded [OF assms(2) inv0] by (simp add: sum_list_triv)
  moreover have "\<forall>p \<in> set (threads r). pc_ok (cell_value r) p"
    using race_steps_bounded [OF assms(2) inv0] by (simp add: race_inv_def)
  then have "finished p \<longleftrightarrow> (\<exists>b. p = Cancel_Done b) \<or> (\<exists>res. p = Claim_Done res)"
    if "p \<in> set (threads r)" for p
    using that by (cases p) (auto simp: pc_ok_def)
  then have "list_all finished (threads r) \<longleftrightarrow>
      list_all (\<lambda>p. (\<exists>b. p = Cancel_Done b) \<or> (\<exists>res. p = Claim_Done res)) (threads r)"
    by (simp add: list_all_iff)
  ultimately show ?thesis using finished_iff_no_step by blast
qed

theorem run_control_terminates_witness:
  "\<exists>r. (race_step ^^ 1) \<lparr>cell_value = run_control_new False, threads = [Cancel_Start]\<rparr> r \<and>
     (\<nexists>r'. race_step r r')"
proof -
  let ?r0 = "\<lparr>cell_value = run_control_new False, threads = [Cancel_Start]\<rparr>"
  let ?r1 = "\<lparr>cell_value = CANCEL_REQUESTED, threads = [Cancel_Done True]\<rparr>"
  have "race_step ?r0 ?r1"
    using race_step.intros [of 0 ?r0] by (simp add: race_defs run_control_new_def)
  then have s: "(race_step ^^ 1) ?r0 ?r1" by (simp only: relpowp_1)
  have "list_all starting [Cancel_Start]" by (simp add: starting_def)
  from run_control_terminates [OF this s] have "\<nexists>r'. race_step ?r1 r'" by auto
  with s show ?thesis by blast
qed

section \<open>WorkerLedger\<close>

record 'k worker_ledger =
  outstanding :: "'k set"
  joined :: "'k set"
  joined_order :: "'k list"
  history_capacity :: nat

definition worker_ledger_new :: "nat \<Rightarrow> 'k worker_ledger" where
  "worker_ledger_new capacity =
     \<lparr>outstanding = {}, joined = {}, joined_order = [], history_capacity = capacity\<rparr>"

definition note_started :: "'k \<Rightarrow> 'k worker_ledger \<Rightarrow> 'k worker_ledger \<times> bool" where
  "note_started k w =
     (if k \<in> joined w then (w, False)
      else (w\<lparr>outstanding := insert k (outstanding w)\<rparr>, k \<notin> outstanding w))"

text \<open>The eviction loop of \<open>note_joined\<close>: pop the oldest while the history is too long.\<close>

fun evict :: "nat \<Rightarrow> 'k list \<Rightarrow> 'k set \<Rightarrow> 'k list \<times> 'k set" where
  "evict cap [] js = ([], js)"
| "evict cap (oldest # rest) js =
     (if cap < length (oldest # rest) then evict cap rest (js - {oldest}) else (oldest # rest, js))"

definition note_joined :: "'k \<Rightarrow> 'k worker_ledger \<Rightarrow> 'k worker_ledger \<times> bool" where
  "note_joined k w =
     (if k \<notin> outstanding w then (w, False)
      else
        (case evict (history_capacity w) (joined_order w @ [k]) (insert k (joined w)) of
           (order, js) \<Rightarrow>
             (w\<lparr>outstanding := outstanding w - {k}, joined := js, joined_order := order\<rparr>, True)))"

definition outstanding_count :: "'k worker_ledger \<Rightarrow> nat" where
  "outstanding_count w = card (outstanding w)"

definition was_joined :: "'k \<Rightarrow> 'k worker_ledger \<Rightarrow> bool" where
  "was_joined k w \<longleftrightarrow> k \<in> joined w"

definition expected :: "'k worker_ledger \<Rightarrow> 'k set" where
  "expected w = outstanding w \<union> joined w"

definition ledger_inv :: "'k worker_ledger \<Rightarrow> bool" where
  "ledger_inv w \<longleftrightarrow>
     finite (outstanding w) \<and> outstanding w \<inter> joined w = {} \<and> joined w = set (joined_order w) \<and>
     distinct (joined_order w) \<and> length (joined_order w) \<le> history_capacity w"

lemma evict_newest:
  "distinct xs \<Longrightarrow> evict cap xs (set xs) = (newest cap xs, set (newest cap xs))"
proof (induction xs)
  case Nil
  then show ?case by (simp add: newest_def)
next
  case (Cons x xs)
  show ?case
  proof (cases "cap < length (x # xs)")
    case True
    have "set (x # xs) - {x} = set xs" using Cons.prems by auto
    moreover have "newest cap xs = newest cap (x # xs)"
      using newest_tl [OF True] by simp
    ultimately show ?thesis using True Cons by simp
  next
    case False
    then show ?thesis by (simp add: newest_all)
  qed
qed

lemma note_joined_eq:
  assumes "ledger_inv w" and "k \<in> outstanding w"
  shows "note_joined k w =
    (w\<lparr>outstanding := outstanding w - {k},
       joined := set (newest (history_capacity w) (joined_order w @ [k])),
       joined_order := newest (history_capacity w) (joined_order w @ [k])\<rparr>, True)"
proof -
  have "distinct (joined_order w @ [k])" and "insert k (joined w) = set (joined_order w @ [k])"
    using assms by (auto simp: ledger_inv_def)
  with evict_newest [of "joined_order w @ [k]" "history_capacity w"] assms(2)
  show ?thesis by (simp add: note_joined_def)
qed

lemma note_started_inv: "ledger_inv w \<Longrightarrow> ledger_inv (fst (note_started k w))"
  by (auto simp: ledger_inv_def note_started_def)

lemma note_joined_inv: "ledger_inv w \<Longrightarrow> ledger_inv (fst (note_joined k w))"
proof (cases "k \<in> outstanding w")
  case True
  assume inv: "ledger_inv w"
  let ?h = "newest (history_capacity w) (joined_order w @ [k])"
  have "set ?h \<subseteq> insert k (set (joined_order w))"
    using set_newest_subset [of "history_capacity w" "joined_order w @ [k]"] by simp
  moreover have "distinct ?h" using inv True by (intro distinct_newest) (auto simp: ledger_inv_def)
  ultimately show ?thesis
    using inv unfolding note_joined_eq [OF inv True]
    by (auto simp: ledger_inv_def length_newest)
qed (simp add: note_joined_def)

datatype 'k ledger_event = Started 'k | Joined 'k

fun ledger_step :: "'k ledger_event \<Rightarrow> 'k worker_ledger \<Rightarrow> 'k worker_ledger" where
  "ledger_step (Started k) w = fst (note_started k w)"
| "ledger_step (Joined k) w = fst (note_joined k w)"

definition ledger_run :: "nat \<Rightarrow> 'k ledger_event list \<Rightarrow> 'k worker_ledger" where
  "ledger_run cap es = fold ledger_step es (worker_ledger_new cap)"

lemma ledger_run_snoc: "ledger_run cap (es @ [e]) = ledger_step e (ledger_run cap es)"
  by (simp add: ledger_run_def)

lemma ledger_step_capacity: "history_capacity (ledger_step e w) = history_capacity w"
  by (cases e) (auto simp: note_started_def note_joined_def split: prod.splits)

lemma ledger_step_inv: "ledger_inv w \<Longrightarrow> ledger_inv (ledger_step e w)"
  by (cases e) (auto simp: note_started_inv note_joined_inv)

lemma ledger_run_inv: "ledger_inv (ledger_run cap es) \<and> history_capacity (ledger_run cap es) = cap"
proof (induction es rule: rev_induct)
  case Nil
  then show ?case by (simp add: ledger_run_def worker_ledger_new_def ledger_inv_def)
next
  case (snoc e es)
  then show ?case by (simp add: ledger_run_snoc ledger_step_inv ledger_step_capacity)
qed



text \<open>
  What one accepted join does: the worker leaves \<open>outstanding\<close>, the history becomes the
  newest \<open>history_capacity\<close> identities of the old history followed by the joined one, no other
  outstanding worker is touched, and \<open>note_joined\<close> of a worker that is not outstanding changes
  nothing and reports \<open>false\<close>.
\<close>

theorem note_joined_behaviour:
  assumes "ledger_inv w"
  shows "note_joined k w =
    (if k \<in> outstanding w then
       (w\<lparr>outstanding := outstanding w - {k},
          joined := set (newest (history_capacity w) (joined_order w @ [k])),
          joined_order := newest (history_capacity w) (joined_order w @ [k])\<rparr>, True)
     else (w, False))"
  using note_joined_eq [OF assms] by (simp add: note_joined_def)

theorem note_joined_behaviour_witness:
  "snd (note_joined 3 (ledger_run 1 [Started (1::nat), Started 2, Started 3, Joined 2])) = True \<and>
   joined_order (fst (note_joined 3 (ledger_run 1 [Started (1::nat), Started 2, Started 3, Joined 2]))) = [3]"
proof -
  have inv: "ledger_inv (ledger_run 1 [Started (1::nat), Started 2, Started 3, Joined 2])"
    by (simp add: ledger_run_inv)
  have st: "3 \<in> outstanding (ledger_run 1 [Started (1::nat), Started 2, Started 3, Joined 2])"
    and jo: "joined_order (ledger_run 1 [Started (1::nat), Started 2, Started 3, Joined 2]) = [2]"
    by (simp_all add: ledger_run_def worker_ledger_new_def note_started_def note_joined_def)
  have cap: "history_capacity (ledger_run 1 [Started (1::nat), Started 2, Started 3, Joined 2]) = 1"
    by (simp add: ledger_run_inv)
  show ?thesis
    unfolding note_joined_behaviour [OF inv, of 3] using st jo cap by (simp add: newest_def)
qed

end
