(* ===== verification/Lifecycle_Spec.thy ===== *)
theory Lifecycle_Spec
  imports Prelude
begin

text \<open>
  The contract the four operation registries of the platform share (the gateway's, the speech
  host's, the native engine's and the writing application's): an operation is admitted under a public id with a sequence
  number that no earlier operation of the registry had, moves forward through the phases
  Reserved, Queued, Running, Terminal, selects one terminal class on the way, and leaves the
  registry when it is released. A registry may also spend a sequence number on something that is no
  operation (an attempt of one). \<open>lc_step\<close> is that contract as a transition system over the live
  operations only; the locale \<open>lifecycle_impl\<close> is the interface of a registry that implements
  it by simulation, and carries the guarantees every client of a registry relies on.
\<close>

section \<open>Phases and terminal classes\<close>

text \<open>The registries declare these two enumerations with the same variants.\<close>

datatype operation_phase = Reserved | Queued | Running | Terminal | Released

datatype terminal_class = Completed | Cancelled | Failed

fun phase_rank :: "operation_phase \<Rightarrow> nat" where
  "phase_rank Reserved = 0"
| "phase_rank Queued = 1"
| "phase_rank Running = 2"
| "phase_rank Terminal = 3"
| "phase_rank Released = 4"

section \<open>The abstract lifecycle\<close>

record live_op =
  lo_sequence :: nat
  lo_phase :: operation_phase
  lo_terminal :: "terminal_class option"

record 'i lifecycle =
  lc_next :: nat
  lc_live :: "'i \<rightharpoonup> live_op"

inductive lc_step :: "'i lifecycle \<Rightarrow> 'i lifecycle \<Rightarrow> bool" where
  lc_reserve: "lc_live a oid = None \<Longrightarrow>
    lc_step a \<lparr>lc_next = Suc (lc_next a),
      lc_live = (lc_live a)(oid \<mapsto> \<lparr>lo_sequence = lc_next a, lo_phase = Reserved, lo_terminal = None\<rparr>)\<rparr>"
| lc_queue: "lc_live a oid = Some r \<Longrightarrow> lo_phase r = Reserved \<Longrightarrow>
    lc_step a (a\<lparr>lc_live := (lc_live a)(oid \<mapsto> r\<lparr>lo_phase := Queued\<rparr>)\<rparr>)"
| lc_start: "lc_live a oid = Some r \<Longrightarrow> lo_phase r = Queued \<Longrightarrow>
    lc_step a (a\<lparr>lc_live := (lc_live a)(oid \<mapsto> r\<lparr>lo_phase := Running\<rparr>)\<rparr>)"
| lc_settle: "lc_live a oid = Some r \<Longrightarrow> phase_rank (lo_phase r) < phase_rank Terminal \<Longrightarrow>
    (c = Completed \<Longrightarrow> lo_phase r = Running) \<Longrightarrow>
    lc_step a (a\<lparr>lc_live := (lc_live a)(oid \<mapsto> r\<lparr>lo_phase := Terminal, lo_terminal := Some c\<rparr>)\<rparr>)"
| lc_release: "lc_live a oid = Some r \<Longrightarrow> lo_phase r = Terminal \<Longrightarrow>
    lc_step a (a\<lparr>lc_live := (lc_live a)(oid := None)\<rparr>)"
| lc_spend: "lc_step a (a\<lparr>lc_next := Suc (lc_next a)\<rparr>)"

definition lc_inv :: "'i lifecycle \<Rightarrow> bool" where
  "lc_inv a \<longleftrightarrow>
     (\<forall>oid r. lc_live a oid = Some r \<longrightarrow>
        lo_sequence r < lc_next a \<and> lo_phase r \<noteq> Released \<and>
        (lo_terminal r = None \<longleftrightarrow> phase_rank (lo_phase r) < phase_rank Terminal)) \<and>
     (\<forall>i j r r'. lc_live a i = Some r \<longrightarrow> lc_live a j = Some r' \<longrightarrow>
        lo_sequence r = lo_sequence r' \<longrightarrow> i = j)"

text \<open>What the steps can do to one operation of a live registry.\<close>

definition op_extends :: "live_op \<Rightarrow> live_op \<Rightarrow> bool" where
  "op_extends r r' \<longleftrightarrow>
     lo_sequence r' = lo_sequence r \<and> phase_rank (lo_phase r) \<le> phase_rank (lo_phase r') \<and>
     (\<forall>c. lo_terminal r = Some c \<longrightarrow> lo_terminal r' = Some c)"

text \<open>\<open>a\<close> before \<open>b\<close>: every live operation was extended, was released, or is new.\<close>

definition lc_before :: "'i lifecycle \<Rightarrow> 'i lifecycle \<Rightarrow> bool" where
  "lc_before a b \<longleftrightarrow> lc_next a \<le> lc_next b \<and>
     (\<forall>oid r'. lc_live b oid = Some r' \<longrightarrow>
        (\<exists>r. lc_live a oid = Some r \<and> op_extends r r') \<or> lc_next a \<le> lo_sequence r')"

lemma op_extends_refl [simp]: "op_extends r r"
  by (simp add: op_extends_def)

lemma op_extends_trans: "op_extends r s \<Longrightarrow> op_extends s t \<Longrightarrow> op_extends r t"
  by (simp add: op_extends_def)

lemma lc_before_refl [simp]: "lc_before a a"
  by (force simp: lc_before_def)

lemma lc_before_trans:
  assumes "lc_before a b" and "lc_before b c"
  shows "lc_before a c"
  unfolding lc_before_def
proof (intro conjI allI impI)
  show "lc_next a \<le> lc_next c" using assms by (simp add: lc_before_def)
  fix oid t assume "lc_live c oid = Some t"
  with assms(2) consider (old) s where "lc_live b oid = Some s" "op_extends s t"
    | (new) "lc_next b \<le> lo_sequence t" by (auto simp: lc_before_def)
  then show "(\<exists>r. lc_live a oid = Some r \<and> op_extends r t) \<or> lc_next a \<le> lo_sequence t"
  proof cases
    case old
    then have "(\<exists>r. lc_live a oid = Some r \<and> op_extends r s) \<or> lc_next a \<le> lo_sequence s"
      using assms(1) by (auto simp: lc_before_def)
    with old show ?thesis by (auto intro: op_extends_trans simp: op_extends_def)
  next
    case new
    with assms(1) show ?thesis by (simp add: lc_before_def)
  qed
qed

lemma lc_step_inv: "lc_step a b \<Longrightarrow> lc_inv a \<Longrightarrow> lc_inv b"
proof (induction rule: lc_step.induct)
  case (lc_reserve a oid)
  then have "\<forall>i r. lc_live a i = Some r \<longrightarrow> lo_sequence r < lc_next a" by (simp add: lc_inv_def)
  with lc_reserve show ?case
    unfolding lc_inv_def by (fastforce split: if_splits)
next
  case (lc_queue a oid r)
  then show ?case unfolding lc_inv_def by (fastforce split: if_splits)
next
  case (lc_start a oid r)
  then show ?case unfolding lc_inv_def by (fastforce split: if_splits)
next
  case (lc_settle a oid r c)
  then show ?case unfolding lc_inv_def by (fastforce split: if_splits)
next
  case (lc_release a oid r)
  then show ?case unfolding lc_inv_def by (fastforce split: if_splits)
next
  case (lc_spend a)
  then show ?case unfolding lc_inv_def by (auto intro: less_SucI)
qed

lemma lc_step_before: "lc_step a b \<Longrightarrow> lc_inv a \<Longrightarrow> lc_before a b"
  by (induction rule: lc_step.induct) (fastforce simp: lc_before_def op_extends_def lc_inv_def)+

lemma lc_steps_inv: "lc_step\<^sup>*\<^sup>* a b \<Longrightarrow> lc_inv a \<Longrightarrow> lc_inv b \<and> lc_before a b"
  by (induction rule: rtranclp_induct) (auto intro: lc_step_inv lc_before_trans lc_step_before)

text \<open>A registered operation can always be settled as failed, if it is not settled yet, and released.\<close>

lemma lc_leave:
  assumes "lc_inv a" and live: "lc_live a oid = Some r"
  shows "lc_step\<^sup>*\<^sup>* a (a\<lparr>lc_live := (lc_live a)(oid := None)\<rparr>)"
proof (cases "lo_phase r = Terminal")
  case True
  then show ?thesis using lc_release [OF live] by blast
next
  case False
  let ?b = "a\<lparr>lc_live := (lc_live a)(oid \<mapsto> r\<lparr>lo_phase := Terminal, lo_terminal := Some Failed\<rparr>)\<rparr>"
  have "lo_phase r \<noteq> Released" using assms by (auto simp: lc_inv_def)
  with False have "phase_rank (lo_phase r) < phase_rank Terminal" by (cases "lo_phase r") simp_all
  then have "lc_step a ?b" by (rule lc_settle [OF live]) simp
  moreover have "lc_step ?b (a\<lparr>lc_live := (lc_live a)(oid := None)\<rparr>)"
    using lc_release [of ?b oid] by simp
  ultimately show ?thesis by simp
qed

text \<open>Whether the operation with this public id and sequence number is in the registry.\<close>

definition lc_current :: "'i lifecycle \<Rightarrow> 'i \<Rightarrow> nat \<Rightarrow> bool" where
  "lc_current a oid q \<longleftrightarrow> (\<exists>r. lc_live a oid = Some r \<and> lo_sequence r = q)"

section \<open>The interface of a registry\<close>

locale lifecycle_impl =
  fixes cstep :: "'s \<Rightarrow> 's \<Rightarrow> bool"
    and cinv :: "'s \<Rightarrow> bool"
    and abs :: "'s \<Rightarrow> 'i lifecycle"
  assumes abs_inv: "cinv s \<Longrightarrow> lc_inv (abs s)"
    and step_inv: "cstep s t \<Longrightarrow> cinv s \<Longrightarrow> cinv t"
    and step_sim: "cstep s t \<Longrightarrow> cinv s \<Longrightarrow> lc_step\<^sup>*\<^sup>* (abs s) (abs t)"
begin

lemma steps_inv: "cstep\<^sup>*\<^sup>* s t \<Longrightarrow> cinv s \<Longrightarrow> cinv t"
  by (induction rule: rtranclp_induct) (auto intro: step_inv)

lemma steps_sim: "cstep\<^sup>*\<^sup>* s t \<Longrightarrow> cinv s \<Longrightarrow> lc_step\<^sup>*\<^sup>* (abs s) (abs t)"
proof (induction rule: rtranclp_induct)
  case base
  then show ?case by simp
next
  case (step u v)
  then have "cinv u" by (auto intro: steps_inv)
  with step show ?case using step_sim [of u v] by (meson rtranclp_trans)
qed

lemma steps_before: "cstep\<^sup>*\<^sup>* s t \<Longrightarrow> cinv s \<Longrightarrow> lc_before (abs s) (abs t)"
  using lc_steps_inv [OF steps_sim] abs_inv by blast

lemma sequence_bound: "cinv s \<Longrightarrow> lc_current (abs s) oid q \<Longrightarrow> q < lc_next (abs s)"
  using abs_inv by (auto simp: lc_current_def lc_inv_def)

text \<open>An operation that has left the registry never comes back, whoever reuses its id.\<close>

lemma gone_for_good:
  assumes "cinv s" and "cstep\<^sup>*\<^sup>* s t" and "q < lc_next (abs s)" and "\<not> lc_current (abs s) oid q"
  shows "\<not> lc_current (abs t) oid q"
  using steps_before [OF assms(2,1)] assms(3,4)
  by (fastforce simp: lc_before_def lc_current_def op_extends_def)

lemma released_stays_released:
  assumes "cinv s" and "lc_current (abs s) oid q" and "cstep\<^sup>*\<^sup>* s t" and "\<not> lc_current (abs t) oid q"
    and "cstep\<^sup>*\<^sup>* t u"
  shows "\<not> lc_current (abs u) oid q"
proof (rule gone_for_good [OF _ assms(5) _ assms(4)])
  show "cinv t" using assms(1,3) by (rule steps_inv [rotated])
  have "q < lc_next (abs s)" using assms(1,2) by (rule sequence_bound)
  then show "q < lc_next (abs t)" using steps_before [OF assms(3,1)] by (simp add: lc_before_def)
qed

text \<open>While an operation stays in the registry it only moves forward, and a terminal class
  once selected is never replaced.\<close>

lemma forward:
  assumes "cinv s" and "cstep\<^sup>*\<^sup>* s t"
    and "lc_live (abs s) oid = Some r" and "lc_live (abs t) oid = Some r'"
    and "lo_sequence r' = lo_sequence r"
  shows "phase_rank (lo_phase r) \<le> phase_rank (lo_phase r') \<and>
    (\<forall>c. lo_terminal r = Some c \<longrightarrow> lo_terminal r' = Some c)"
proof -
  have "lo_sequence r < lc_next (abs s)"
    using abs_inv [OF assms(1)] assms(3) by (auto simp: lc_inv_def)
  with steps_before [OF assms(2,1)] assms(3,4,5) have "op_extends r r'"
    by (fastforce simp: lc_before_def)
  then show ?thesis by (simp add: op_extends_def)
qed

end

end
