(* ===== verification/Gateway_Registry.thy ===== *)
theory Gateway_Registry
  imports Lifecycle_Spec "HOL-Library.List_Lexorder" "HOL-Library.Char_ord"
begin

text \<open>
  The gateway's operation registry, \<open>products/fte/crates/fte-router/src/operation_lifecycle.rs\<close>.

  The state behind \<open>Arc<Mutex<RegistryState>>\<close> is the record \<open>gw_state\<close>. Each operation shares two
  heap objects with its leases, the \<open>released\<close> slot and the cancellation token; both are
  addresses, allocated together by \<open>reserve\<close>. The slots are a store from addresses to
  snapshots, and \<open>gw_cancelled_tokens\<close> records the tokens on which \<open>cancel()\<close> was called (the
  token type is a library's, and only these calls concern the registry). A mutex poisoned by a
  panicking holder is a flag, checked wherever the code maps the lock error. Every method runs
  under the registry mutex, so each is one atomic function of the state.
\<close>

section \<open>State\<close>

record gw_identity =
  gid_operation_id :: string
  gid_sequence :: nat

record gw_snapshot =
  snap_identity :: gw_identity
  snap_phase :: operation_phase
  snap_cancellation_requested :: bool
  snap_terminal :: "terminal_class option"

datatype gw_error = Duplicate | Exhausted | Stale | InvalidTransition | Poisoned

record gw_record =
  rec_identity :: gw_identity
  rec_phase :: operation_phase
  rec_cancellation_requested :: bool
  rec_cancellation :: nat
  rec_terminal :: "terminal_class option"
  rec_released :: nat

record gw_state =
  gw_next_sequence :: nat
  gw_operations :: "string \<rightharpoonup> gw_record"
  gw_poisoned :: bool
  gw_slots :: "nat \<Rightarrow> gw_snapshot option"
  gw_slot_poisoned :: "nat set"
  gw_cancelled_tokens :: "nat set"
  gw_next_alloc :: nat

record gw_lease =
  lease_identity :: gw_identity
  lease_released :: nat
  lease_cancellation :: nat

record gw_guard =
  guard_lease :: gw_lease
  guard_cancel_on_drop :: bool

section \<open>OperationRegistry\<close>

definition gw_new :: "nat \<Rightarrow> gw_state" where
  "gw_new next_sequence =
     \<lparr>gw_next_sequence = next_sequence, gw_operations = Map.empty, gw_poisoned = False,
      gw_slots = (\<lambda>_. None), gw_slot_poisoned = {}, gw_cancelled_tokens = {}, gw_next_alloc = 0\<rparr>"

definition gw_snapshot_of :: "gw_record \<Rightarrow> gw_snapshot" where
  "gw_snapshot_of r =
     \<lparr>snap_identity = rec_identity r, snap_phase = rec_phase r,
      snap_cancellation_requested = rec_cancellation_requested r, snap_terminal = rec_terminal r\<rparr>"

definition gw_reserve :: "string \<Rightarrow> gw_state \<Rightarrow> gw_state \<times> (gw_guard \<times> gw_lease, gw_error) result" where
  "gw_reserve oid s =
     (if gw_poisoned s then (s, Err Poisoned)
      else if gw_operations s oid \<noteq> None then (s, Err Duplicate)
      else
        (case checked_add U64_MAX (gw_next_sequence s) 1 of
           None \<Rightarrow> (s, Err Exhausted)
         | Some next_sequence \<Rightarrow>
             let identity = \<lparr>gid_operation_id = oid, gid_sequence = gw_next_sequence s\<rparr>;
                 addr = gw_next_alloc s;
                 lease = \<lparr>lease_identity = identity, lease_released = addr, lease_cancellation = addr\<rparr>
             in (s\<lparr>gw_next_sequence := next_sequence,
                   gw_next_alloc := Suc addr,
                   gw_operations := (gw_operations s)(oid \<mapsto>
                     \<lparr>rec_identity = identity, rec_phase = Reserved,
                      rec_cancellation_requested = False, rec_cancellation = addr,
                      rec_terminal = None, rec_released = addr\<rparr>)\<rparr>,
                 Ok (\<lparr>guard_lease = lease, guard_cancel_on_drop = True\<rparr>, lease))))"

definition gw_active_count :: "gw_state \<Rightarrow> (nat, gw_error) result" where
  "gw_active_count s = (if gw_poisoned s then Err Poisoned else Ok (card (dom (gw_operations s))))"

definition gw_current :: "string \<Rightarrow> gw_state \<Rightarrow> (gw_snapshot option, gw_error) result" where
  "gw_current oid s =
     (if gw_poisoned s then Err Poisoned
      else Ok (map_option gw_snapshot_of (gw_operations s oid)))"

definition gw_current_lease :: "string \<Rightarrow> gw_state \<Rightarrow> (gw_lease option, gw_error) result" where
  "gw_current_lease oid s =
     (if gw_poisoned s then Err Poisoned
      else Ok (map_option (\<lambda>r. \<lparr>lease_identity = rec_identity r, lease_released = rec_released r,
                                lease_cancellation = rec_cancellation r\<rparr>)
                 (gw_operations s oid)))"

text \<open>\<open>values_mut\<close> with both cancellation writes, used by the two bulk cancellations.\<close>

definition gw_cancel_every :: "gw_state \<Rightarrow> gw_state" where
  "gw_cancel_every s =
     s\<lparr>gw_operations := (\<lambda>oid. map_option (\<lambda>r. r\<lparr>rec_cancellation_requested := True\<rparr>) (gw_operations s oid)),
       gw_cancelled_tokens := gw_cancelled_tokens s \<union> rec_cancellation ` ran (gw_operations s)\<rparr>"

definition gw_keys :: "gw_state \<Rightarrow> string list" where
  "gw_keys s = sorted_list_of_set (dom (gw_operations s))"

definition gw_request_cancel_all :: "gw_state \<Rightarrow> gw_state \<times> (string list, gw_error) result" where
  "gw_request_cancel_all s =
     (if gw_poisoned s then (s, Err Poisoned) else (gw_cancel_every s, Ok (gw_keys s)))"

definition gw_request_cancel_all_for_shutdown :: "gw_state \<Rightarrow> gw_state \<times> string list \<times> gw_error option" where
  "gw_request_cancel_all_for_shutdown s =
     (gw_cancel_every s, gw_keys s, if gw_poisoned s then Some Poisoned else None)"

definition gw_diagnostic_active_count :: "gw_state \<Rightarrow> nat \<times> bool" where
  "gw_diagnostic_active_count s = (card (dom (gw_operations s)), gw_poisoned s)"

definition gw_record_mut :: "gw_state \<Rightarrow> gw_identity \<Rightarrow> (gw_record, gw_error) result" where
  "gw_record_mut s identity =
     (case gw_operations s (gid_operation_id identity) of
        None \<Rightarrow> Err Stale
      | Some r \<Rightarrow> if rec_identity r \<noteq> identity then Err Stale else Ok r)"

section \<open>OperationLease\<close>

definition gw_put :: "gw_record \<Rightarrow> gw_state \<Rightarrow> gw_state" where
  "gw_put r s = s\<lparr>gw_operations := (gw_operations s)(gid_operation_id (rec_identity r) \<mapsto> r)\<rparr>"

definition gw_lease_snapshot :: "gw_lease \<Rightarrow> gw_state \<Rightarrow> (gw_snapshot option, gw_error) result" where
  "gw_lease_snapshot l s =
     (if gw_poisoned s then Err Poisoned
      else
        (case gw_operations s (gid_operation_id (lease_identity l)) of
           Some r \<Rightarrow> Ok (if rec_identity r = lease_identity l then Some (gw_snapshot_of r) else None)
         | None \<Rightarrow>
             if lease_released l \<in> gw_slot_poisoned s then Err Poisoned
             else Ok (gw_slots s (lease_released l))))"

definition gw_is_active :: "gw_lease \<Rightarrow> gw_state \<Rightarrow> (bool, gw_error) result" where
  "gw_is_active l s =
     res_bind (gw_current (gid_operation_id (lease_identity l)) s) (\<lambda>cur.
       Ok (case cur of None \<Rightarrow> False | Some snap \<Rightarrow> snap_identity snap = lease_identity l))"

definition gw_transition ::
  "operation_phase \<Rightarrow> operation_phase \<Rightarrow> gw_lease \<Rightarrow> gw_state \<Rightarrow> gw_state \<times> (unit, gw_error) result" where
  "gw_transition expected next l s =
     (if gw_poisoned s then (s, Err Poisoned)
      else
        (case gw_record_mut s (lease_identity l) of
           Err e \<Rightarrow> (s, Err e)
         | Ok r \<Rightarrow>
             if rec_phase r \<noteq> expected then (s, Err InvalidTransition)
             else (gw_put (r\<lparr>rec_phase := next\<rparr>) s, Ok ())))"

definition gw_queue :: "gw_lease \<Rightarrow> gw_state \<Rightarrow> gw_state \<times> (unit, gw_error) result" where
  "gw_queue = gw_transition Reserved Queued"

definition gw_start :: "gw_lease \<Rightarrow> gw_state \<Rightarrow> gw_state \<times> (unit, gw_error) result" where
  "gw_start = gw_transition Queued Running"

definition gw_terminal :: "terminal_class \<Rightarrow> gw_lease \<Rightarrow> gw_state \<Rightarrow> gw_state \<times> (unit, gw_error) result" where
  "gw_terminal c l s =
     (if gw_poisoned s then (s, Err Poisoned)
      else
        (case gw_record_mut s (lease_identity l) of
           Err e \<Rightarrow> (s, Err e)
         | Ok r \<Rightarrow>
             if rec_phase r \<noteq> Running \<or> rec_terminal r \<noteq> None then (s, Err InvalidTransition)
             else (gw_put (r\<lparr>rec_terminal := Some c, rec_phase := Terminal\<rparr>) s, Ok ())))"

definition gw_terminal_for_publication ::
  "terminal_class \<Rightarrow> gw_lease \<Rightarrow> gw_state \<Rightarrow> gw_state \<times> (unit, gw_error) result" where
  "gw_terminal_for_publication c l s =
     (if gw_poisoned s then (s, Err Poisoned)
      else if lease_released l \<in> gw_slot_poisoned s then (s, Err Poisoned)
      else
        (case gw_record_mut s (lease_identity l) of
           Err e \<Rightarrow> (s, Err e)
         | Ok r \<Rightarrow>
             if rec_phase r \<noteq> Running \<or> rec_terminal r \<noteq> None then (s, Err InvalidTransition)
             else (gw_put (r\<lparr>rec_terminal := Some c, rec_phase := Terminal\<rparr>) s, Ok ())))"

text \<open>Removing a record whose phase is now Released and filling the lease's slot.\<close>

definition gw_remove :: "gw_lease \<Rightarrow> gw_record \<Rightarrow> gw_state \<Rightarrow> gw_state" where
  "gw_remove l r s =
     s\<lparr>gw_operations := (gw_operations s)(gid_operation_id (lease_identity l) := None),
       gw_slots := (gw_slots s)(lease_released l := Some (gw_snapshot_of r))\<rparr>"

definition gw_terminal_and_release ::
  "terminal_class \<Rightarrow> gw_lease \<Rightarrow> gw_state \<Rightarrow> gw_state \<times> (unit, gw_error) result" where
  "gw_terminal_and_release c l s =
     (if gw_poisoned s then (s, Err Poisoned)
      else if lease_released l \<in> gw_slot_poisoned s then (s, Err Poisoned)
      else
        (case gw_record_mut s (lease_identity l) of
           Err e \<Rightarrow> (s, Err e)
         | Ok r \<Rightarrow>
             if \<not> (rec_phase r = Queued \<or> rec_phase r = Running)
                \<or> (rec_phase r = Queued \<and> c = Completed) \<or> rec_terminal r \<noteq> None
             then (s, Err InvalidTransition)
             else (gw_remove l (r\<lparr>rec_terminal := Some c, rec_phase := Released\<rparr>) s, Ok ())))"

definition gw_release :: "gw_lease \<Rightarrow> gw_state \<Rightarrow> gw_state \<times> (unit, gw_error) result" where
  "gw_release l s =
     (if gw_poisoned s then (s, Err Poisoned)
      else if lease_released l \<in> gw_slot_poisoned s then (s, Err Poisoned)
      else
        (case gw_record_mut s (lease_identity l) of
           Err e \<Rightarrow> (s, Err e)
         | Ok r \<Rightarrow>
             if rec_phase r \<noteq> Terminal then (s, Err InvalidTransition)
             else (gw_remove l (r\<lparr>rec_phase := Released\<rparr>) s, Ok ())))"

definition gw_request_cancel :: "gw_lease \<Rightarrow> gw_state \<Rightarrow> gw_state \<times> (unit, gw_error) result" where
  "gw_request_cancel l s =
     (if gw_poisoned s then (s, Err Poisoned)
      else
        (case gw_record_mut s (lease_identity l) of
           Err e \<Rightarrow> (s, Err e)
         | Ok r \<Rightarrow>
             ((gw_put (r\<lparr>rec_cancellation_requested := True\<rparr>) s)
                \<lparr>gw_cancelled_tokens := insert (rec_cancellation r) (gw_cancelled_tokens s)\<rparr>, Ok ())))"

section \<open>ConsumerGuard\<close>

definition gw_guard_cancel :: "gw_guard \<Rightarrow> gw_state \<Rightarrow> gw_state \<times> (unit, gw_error) result" where
  "gw_guard_cancel g = gw_request_cancel (guard_lease g)"

definition gw_guard_drop :: "gw_guard \<Rightarrow> gw_state \<Rightarrow> gw_state" where
  "gw_guard_drop g s = (if guard_cancel_on_drop g then fst (gw_request_cancel (guard_lease g) s) else s)"

text \<open>\<open>disarm\<close> consumes the guard: the flag is cleared and the guard is dropped.\<close>

definition gw_guard_disarm :: "gw_guard \<Rightarrow> gw_state \<Rightarrow> gw_state" where
  "gw_guard_disarm g s = gw_guard_drop (g\<lparr>guard_cancel_on_drop := False\<rparr>) s"

section \<open>Runs of the registry\<close>

text \<open>
  A step is any public call by any holder of a lease or guard, or a panic that poisons one of
  the mutexes. Leases come from \<open>reserve\<close> and \<open>current_lease\<close> only; \<open>gw_lease_ok\<close> is what those
  establish, and the lemmas below show that every later step keeps it.
\<close>

definition gw_lease_ok :: "gw_state \<Rightarrow> gw_lease \<Rightarrow> bool" where
  "gw_lease_ok s l \<longleftrightarrow>
     lease_released l < gw_next_alloc s \<and> lease_cancellation l = lease_released l \<and>
     gid_sequence (lease_identity l) < gw_next_sequence s \<and>
     (\<forall>oid r. gw_operations s oid = Some r \<longrightarrow>
        (rec_released r = lease_released l \<longleftrightarrow> rec_identity r = lease_identity l))"

datatype gw_call =
    GC_Reserve string
  | GC_Queue gw_lease
  | GC_Start gw_lease
  | GC_Terminal terminal_class gw_lease
  | GC_Terminal_For_Publication terminal_class gw_lease
  | GC_Terminal_And_Release terminal_class gw_lease
  | GC_Release gw_lease
  | GC_Request_Cancel gw_lease
  | GC_Guard_Drop gw_guard
  | GC_Request_Cancel_All
  | GC_Request_Cancel_All_For_Shutdown
  | GC_Poison
  | GC_Poison_Slot nat

fun gw_call_ok :: "gw_state \<Rightarrow> gw_call \<Rightarrow> bool" where
  "gw_call_ok s (GC_Queue l) = gw_lease_ok s l"
| "gw_call_ok s (GC_Start l) = gw_lease_ok s l"
| "gw_call_ok s (GC_Terminal c l) = gw_lease_ok s l"
| "gw_call_ok s (GC_Terminal_For_Publication c l) = gw_lease_ok s l"
| "gw_call_ok s (GC_Terminal_And_Release c l) = gw_lease_ok s l"
| "gw_call_ok s (GC_Release l) = gw_lease_ok s l"
| "gw_call_ok s (GC_Request_Cancel l) = gw_lease_ok s l"
| "gw_call_ok s (GC_Guard_Drop g) = gw_lease_ok s (guard_lease g)"
| "gw_call_ok s _ = True"

fun gw_exec :: "gw_call \<Rightarrow> gw_state \<Rightarrow> gw_state" where
  "gw_exec (GC_Reserve oid) s = fst (gw_reserve oid s)"
| "gw_exec (GC_Queue l) s = fst (gw_queue l s)"
| "gw_exec (GC_Start l) s = fst (gw_start l s)"
| "gw_exec (GC_Terminal c l) s = fst (gw_terminal c l s)"
| "gw_exec (GC_Terminal_For_Publication c l) s = fst (gw_terminal_for_publication c l s)"
| "gw_exec (GC_Terminal_And_Release c l) s = fst (gw_terminal_and_release c l s)"
| "gw_exec (GC_Release l) s = fst (gw_release l s)"
| "gw_exec (GC_Request_Cancel l) s = fst (gw_request_cancel l s)"
| "gw_exec (GC_Guard_Drop g) s = gw_guard_drop g s"
| "gw_exec GC_Request_Cancel_All s = fst (gw_request_cancel_all s)"
| "gw_exec GC_Request_Cancel_All_For_Shutdown s = fst (gw_request_cancel_all_for_shutdown s)"
| "gw_exec GC_Poison s = s\<lparr>gw_poisoned := True\<rparr>"
| "gw_exec (GC_Poison_Slot a) s = s\<lparr>gw_slot_poisoned := insert a (gw_slot_poisoned s)\<rparr>"

inductive gw_step :: "gw_state \<Rightarrow> gw_state \<Rightarrow> bool" where
  gw_step: "gw_call_ok s c \<Longrightarrow> gw_step s (gw_exec c s)"

section \<open>Abstraction and invariant\<close>

definition gw_abs_record :: "gw_record \<Rightarrow> live_op" where
  "gw_abs_record r =
     \<lparr>lo_sequence = gid_sequence (rec_identity r), lo_phase = rec_phase r, lo_terminal = rec_terminal r\<rparr>"

definition gw_abs :: "gw_state \<Rightarrow> string lifecycle" where
  "gw_abs s = \<lparr>lc_next = gw_next_sequence s,
     lc_live = (\<lambda>oid. map_option gw_abs_record (gw_operations s oid))\<rparr>"

definition gw_record_wf :: "gw_state \<Rightarrow> string \<Rightarrow> gw_record \<Rightarrow> bool" where
  "gw_record_wf s oid r \<longleftrightarrow>
     gid_operation_id (rec_identity r) = oid \<and> rec_released r < gw_next_alloc s \<and>
     rec_cancellation r = rec_released r \<and> gw_slots s (rec_released r) = None \<and>
     (rec_cancellation_requested r \<longleftrightarrow> rec_cancellation r \<in> gw_cancelled_tokens s)"

definition gw_addr :: "gw_state \<Rightarrow> string \<Rightarrow> nat option" where
  "gw_addr s oid = map_option rec_released (gw_operations s oid)"

definition gw_inv :: "gw_state \<Rightarrow> bool" where
  "gw_inv s \<longleftrightarrow>
     lc_inv (gw_abs s) \<and> finite (dom (gw_operations s)) \<and> gw_next_sequence s \<le> U64_MAX \<and>
     (\<forall>oid r. gw_operations s oid = Some r \<longrightarrow> gw_record_wf s oid r) \<and>
     (\<forall>i j a. gw_addr s i = Some a \<longrightarrow> gw_addr s j = Some a \<longrightarrow> i = j) \<and>
     (\<forall>a. gw_slots s a \<noteq> None \<or> a \<in> gw_cancelled_tokens s \<longrightarrow> a < gw_next_alloc s)"

lemmas gw_op_defs = gw_reserve_def gw_queue_def gw_start_def gw_transition_def gw_terminal_def
  gw_terminal_for_publication_def gw_terminal_and_release_def gw_release_def gw_request_cancel_def
  gw_guard_drop_def gw_request_cancel_all_def gw_request_cancel_all_for_shutdown_def

lemma gw_record_mut_Ok [result_simps]:
  "gw_record_mut s i = Ok r \<longleftrightarrow> gw_operations s (gid_operation_id i) = Some r \<and> rec_identity r = i"
  by (auto simp: gw_record_mut_def split: option.splits)

lemma gw_record_mut_Err [result_simps]:
  "gw_record_mut s i = Err e \<longleftrightarrow>
     e = Stale \<and> (\<forall>r. gw_operations s (gid_operation_id i) = Some r \<longrightarrow> rec_identity r \<noteq> i)"
  by (auto simp: gw_record_mut_def split: option.splits)

lemma gw_abs_live: "lc_live (gw_abs s) oid = map_option gw_abs_record (gw_operations s oid)"
  by (simp add: gw_abs_def)

lemma gw_abs_next: "lc_next (gw_abs s) = gw_next_sequence s"
  by (simp add: gw_abs_def)

lemma gw_abs_put:
  "gw_abs (gw_put r s) =
     (gw_abs s)\<lparr>lc_live := (lc_live (gw_abs s))(gid_operation_id (rec_identity r) \<mapsto> gw_abs_record r)\<rparr>"
  by (auto simp: gw_abs_def gw_put_def)

lemma gw_abs_remove:
  "gw_abs (gw_remove l r s) =
     (gw_abs s)\<lparr>lc_live := (lc_live (gw_abs s))(gid_operation_id (lease_identity l) := None)\<rparr>"
  by (auto simp: gw_abs_def gw_remove_def)

lemma gw_abs_cancel_every: "gw_abs (gw_cancel_every s) = gw_abs s"
  by (simp add: gw_abs_def gw_cancel_every_def gw_abs_record_def [abs_def] option.map_comp comp_def)

section \<open>Simulation of the abstract lifecycle\<close>

lemma gw_put_steps:
  assumes "gw_operations s (gid_operation_id (rec_identity r)) = Some r"
  shows "rec_phase r = Reserved \<Longrightarrow> lc_step (gw_abs s) (gw_abs (gw_put (r\<lparr>rec_phase := Queued\<rparr>) s))"
    and "rec_phase r = Queued \<Longrightarrow> lc_step (gw_abs s) (gw_abs (gw_put (r\<lparr>rec_phase := Running\<rparr>) s))"
    and "rec_phase r = Running \<or> rec_phase r = Queued \<and> c \<noteq> Completed \<Longrightarrow>
      lc_step (gw_abs s) (gw_abs (gw_put (r\<lparr>rec_terminal := Some c, rec_phase := Terminal\<rparr>) s))"
proof -
  let ?oid = "gid_operation_id (rec_identity r)" and ?a = "gw_abs s" and ?r = "gw_abs_record r"
  have live: "lc_live ?a ?oid = Some ?r" using assms by (simp add: gw_abs_live)
  show "lc_step ?a (gw_abs (gw_put (r\<lparr>rec_phase := Queued\<rparr>) s))" if "rec_phase r = Reserved"
    using lc_queue [OF live] that by (simp add: gw_abs_put gw_abs_record_def)
  show "lc_step ?a (gw_abs (gw_put (r\<lparr>rec_phase := Running\<rparr>) s))" if "rec_phase r = Queued"
    using lc_start [OF live] that by (simp add: gw_abs_put gw_abs_record_def)
  show "lc_step ?a (gw_abs (gw_put (r\<lparr>rec_terminal := Some c, rec_phase := Terminal\<rparr>) s))"
    if "rec_phase r = Running \<or> rec_phase r = Queued \<and> c \<noteq> Completed"
    using lc_settle [OF live, of c] that by (auto simp: gw_abs_put gw_abs_record_def)
qed

lemma gw_remove_steps:
  assumes "gw_operations s (gid_operation_id (lease_identity l)) = Some r"
  shows "rec_phase r = Terminal \<Longrightarrow> lc_step (gw_abs s) (gw_abs (gw_remove l r' s))"
    and "rec_phase r = Running \<or> rec_phase r = Queued \<and> c \<noteq> Completed \<Longrightarrow>
      lc_step\<^sup>*\<^sup>* (gw_abs s) (gw_abs (gw_remove l r' s))"
proof -
  let ?oid = "gid_operation_id (lease_identity l)" and ?a = "gw_abs s" and ?r = "gw_abs_record r"
  have live: "lc_live ?a ?oid = Some ?r" using assms by (simp add: gw_abs_live)
  show "lc_step ?a (gw_abs (gw_remove l r' s))" if "rec_phase r = Terminal"
    using lc_release [OF live] that by (simp add: gw_abs_remove gw_abs_record_def)
  assume ph: "rec_phase r = Running \<or> rec_phase r = Queued \<and> c \<noteq> Completed"
  let ?b = "?a\<lparr>lc_live := (lc_live ?a)(?oid \<mapsto> ?r\<lparr>lo_phase := Terminal, lo_terminal := Some c\<rparr>)\<rparr>"
  have "lc_step ?a ?b"
    by (rule lc_settle [OF live]) (use ph in \<open>auto simp: gw_abs_record_def\<close>)
  moreover have "lc_step ?b (gw_abs (gw_remove l r' s))"
    using lc_release [of ?b ?oid] by (simp add: gw_abs_remove)
  ultimately show "lc_step\<^sup>*\<^sup>* ?a (gw_abs (gw_remove l r' s))" by simp
qed

lemma gw_reserve_step:
  assumes "gw_operations s oid = None" and "gw_next_sequence s + 1 \<le> U64_MAX" and "\<not> gw_poisoned s"
  shows "lc_step (gw_abs s) (gw_abs (fst (gw_reserve oid s)))"
proof -
  have "gw_abs (fst (gw_reserve oid s)) =
      \<lparr>lc_next = Suc (lc_next (gw_abs s)), lc_live = (lc_live (gw_abs s))(oid \<mapsto>
        \<lparr>lo_sequence = lc_next (gw_abs s), lo_phase = Reserved, lo_terminal = None\<rparr>)\<rparr>"
    using assms by (auto simp: gw_reserve_def checked_add_def Let_def gw_abs_def gw_abs_record_def)
  with lc_reserve [of "gw_abs s" oid] assms(1) show ?thesis by (simp add: gw_abs_live)
qed

lemma gw_abs_request_cancel: "gw_abs (fst (gw_request_cancel l s)) = gw_abs s"
  by (auto simp: gw_request_cancel_def gw_abs_def gw_put_def gw_abs_record_def result_simps fun_eq_iff
      split: result.split)

lemma gw_exec_sim: "lc_step\<^sup>*\<^sup>* (gw_abs s) (gw_abs (gw_exec c s))"
proof (cases c)
  case (GC_Reserve oid)
  have "gw_abs (fst (gw_reserve oid s)) = gw_abs s \<or> lc_step (gw_abs s) (gw_abs (fst (gw_reserve oid s)))"
    using gw_reserve_step [of s oid]
    by (auto simp: gw_reserve_def checked_add_def Let_def split: if_splits)
  with GC_Reserve show ?thesis by auto
next
  case (GC_Queue l)
  then show ?thesis
    using gw_put_steps(1)
    by (auto simp: gw_op_defs split: result.split) (auto simp: result_simps)
next
  case (GC_Start l)
  then show ?thesis
    using gw_put_steps(2)
    by (auto simp: gw_op_defs split: result.split) (auto simp: result_simps)
next
  case (GC_Terminal d l)
  then show ?thesis
    using gw_put_steps(3)
    by (auto simp: gw_op_defs split: result.split) (auto simp: result_simps)
next
  case (GC_Terminal_For_Publication d l)
  then show ?thesis
    using gw_put_steps(3)
    by (auto simp: gw_op_defs split: result.split) (auto simp: result_simps)
next
  case (GC_Terminal_And_Release d l)
  then show ?thesis
    using gw_remove_steps(2)
    by (auto simp: gw_op_defs split: result.split) (auto simp: result_simps)
next
  case (GC_Release l)
  then show ?thesis
    using gw_remove_steps(1)
    by (auto simp: gw_op_defs split: result.split) (auto simp: result_simps)
next
  case (GC_Request_Cancel l)
  then show ?thesis by (simp add: gw_abs_request_cancel)
next
  case (GC_Guard_Drop g)
  then show ?thesis by (simp add: gw_guard_drop_def gw_abs_request_cancel)
qed (auto simp: gw_op_defs gw_abs_cancel_every, auto simp: gw_abs_def)

section \<open>Preservation of the invariant\<close>

lemma gw_inv_new: "n \<le> U64_MAX \<Longrightarrow> gw_inv (gw_new n)"
  by (simp add: gw_inv_def gw_new_def gw_abs_def lc_inv_def gw_addr_def)

lemma gw_exec_lc_inv: "gw_inv s \<Longrightarrow> lc_inv (gw_abs (gw_exec c s))"
  using lc_steps_inv [OF gw_exec_sim] by (auto simp: gw_inv_def)

text \<open>The part of the invariant about addresses, tokens and slots.\<close>

definition gw_heap_ok :: "gw_state \<Rightarrow> bool" where
  "gw_heap_ok s \<longleftrightarrow>
     finite (dom (gw_operations s)) \<and> gw_next_sequence s \<le> U64_MAX \<and>
     (\<forall>oid r. gw_operations s oid = Some r \<longrightarrow> gw_record_wf s oid r) \<and>
     (\<forall>i j a. gw_addr s i = Some a \<longrightarrow> gw_addr s j = Some a \<longrightarrow> i = j) \<and>
     (\<forall>a. gw_slots s a \<noteq> None \<or> a \<in> gw_cancelled_tokens s \<longrightarrow> a < gw_next_alloc s)"

lemma gw_inv_alt: "gw_inv s \<longleftrightarrow> lc_inv (gw_abs s) \<and> gw_heap_ok s"
  by (auto simp: gw_inv_def gw_heap_ok_def)

lemma gw_heap_okD:
  assumes "gw_heap_ok s"
  shows "finite (dom (gw_operations s))" and "gw_next_sequence s \<le> U64_MAX"
    and "gw_operations s oid = Some r \<Longrightarrow> gw_record_wf s oid r"
    and "gw_addr s i = Some a \<Longrightarrow> gw_addr s j = Some a \<Longrightarrow> i = j"
    and "gw_slots s b \<noteq> None \<Longrightarrow> b < gw_next_alloc s"
    and "b \<in> gw_cancelled_tokens s \<Longrightarrow> b < gw_next_alloc s"
  using assms unfolding gw_heap_ok_def by blast+

text \<open>A record replaced in place, keeping its addresses, with its token cancelled or not.\<close>

lemma gw_heap_update:
  assumes ok: "gw_heap_ok s" and old: "gw_operations s oid = Some r"
    and same: "rec_identity r' = rec_identity r" "rec_released r' = rec_released r"
      "rec_cancellation r' = rec_cancellation r"
    and toks: "toks = gw_cancelled_tokens s \<and> rec_cancellation_requested r' = rec_cancellation_requested r
      \<or> toks = insert (rec_cancellation r) (gw_cancelled_tokens s) \<and> rec_cancellation_requested r'"
  shows "gw_heap_ok (s\<lparr>gw_operations := (gw_operations s)(oid \<mapsto> r'), gw_cancelled_tokens := toks\<rparr>)"
    (is "gw_heap_ok ?t")
proof -
  have addr: "gw_addr ?t = gw_addr s" using old same(2) by (auto simp: gw_addr_def fun_eq_iff)
  have wf: "gw_record_wf s oid r" using gw_heap_okD(3) [OF ok old] .
  have "gw_record_wf ?t i q" if q: "gw_operations ?t i = Some q" for i q
  proof (cases "i = oid")
    case True
    with q wf same toks show ?thesis by (auto simp: gw_record_wf_def)
  next
    case False
    then have q': "gw_operations s i = Some q" using q by simp
    then have "rec_released q \<noteq> rec_released r"
      using gw_heap_okD(4) [OF ok, of i "rec_released r" oid] False old by (auto simp: gw_addr_def)
    with gw_heap_okD(3) [OF ok q'] wf toks show ?thesis by (auto simp: gw_record_wf_def)
  qed
  moreover have "b < gw_next_alloc s" if "b \<in> toks" for b
    using that toks wf gw_heap_okD(6) [OF ok] by (auto simp: gw_record_wf_def)
  ultimately show ?thesis
    using gw_heap_okD [OF ok] unfolding gw_heap_ok_def addr by auto
qed

lemma gw_heap_put:
  assumes "gw_heap_ok s" and "gw_operations s (gid_operation_id (rec_identity r)) = Some r"
  shows "gw_heap_ok (gw_put (r\<lparr>rec_phase := ph\<rparr>) s)"
    and "gw_heap_ok (gw_put (r\<lparr>rec_terminal := t, rec_phase := ph\<rparr>) s)"
    and "gw_heap_ok ((gw_put (r\<lparr>rec_cancellation_requested := True\<rparr>) s)
      \<lparr>gw_cancelled_tokens := insert (rec_cancellation r) (gw_cancelled_tokens s)\<rparr>)"
  using gw_heap_update [OF assms, of "r\<lparr>rec_phase := ph\<rparr>" "gw_cancelled_tokens s"]
    gw_heap_update [OF assms, of "r\<lparr>rec_terminal := t, rec_phase := ph\<rparr>" "gw_cancelled_tokens s"]
    gw_heap_update [OF assms, of "r\<lparr>rec_cancellation_requested := True\<rparr>"
      "insert (rec_cancellation r) (gw_cancelled_tokens s)"]
  by (simp_all add: gw_put_def)

lemma gw_heap_remove:
  assumes ok: "gw_heap_ok s" and lease: "gw_lease_ok s l"
    and old: "gw_operations s (gid_operation_id (lease_identity l)) = Some r"
    and same: "rec_identity r = lease_identity l"
  shows "gw_heap_ok (gw_remove l r' s)" (is "gw_heap_ok ?t")
proof -
  let ?oid = "gid_operation_id (lease_identity l)"
  have rel: "rec_released r = lease_released l" using lease old same by (simp add: gw_lease_ok_def)
  have addr: "gw_addr ?t = (gw_addr s)(?oid := None)"
    by (auto simp: gw_addr_def gw_remove_def fun_eq_iff)
  have "gw_record_wf ?t i q" if q: "gw_operations ?t i = Some q" for i q
  proof -
    have i: "i \<noteq> ?oid" and q': "gw_operations s i = Some q"
      using q by (auto simp: gw_remove_def split: if_splits)
    then have "rec_released q \<noteq> lease_released l"
      using gw_heap_okD(4) [OF ok, of i "lease_released l" ?oid] old rel by (auto simp: gw_addr_def)
    with gw_heap_okD(3) [OF ok q'] show ?thesis by (simp add: gw_record_wf_def gw_remove_def)
  qed
  moreover have "lease_released l < gw_next_alloc s" using lease by (simp add: gw_lease_ok_def)
  ultimately show ?thesis
    using gw_heap_okD [OF ok] unfolding gw_heap_ok_def addr
    by (auto simp: gw_remove_def split: if_splits)
qed

lemma gw_heap_cancel_every:
  assumes ok: "gw_heap_ok s"
  shows "gw_heap_ok (gw_cancel_every s)" (is "gw_heap_ok ?t")
proof -
  have addr: "gw_addr ?t = gw_addr s"
    by (auto simp: gw_addr_def gw_cancel_every_def option.map_comp comp_def fun_eq_iff)
  have dom: "dom (gw_operations ?t) = dom (gw_operations s)" by (auto simp: gw_cancel_every_def)
  have "gw_record_wf ?t i q" if "gw_operations ?t i = Some q" for i q
    using that gw_heap_okD(3) [OF ok, of i]
    by (force simp: gw_cancel_every_def gw_record_wf_def ran_def)
  moreover have "b < gw_next_alloc s" if "b \<in> gw_cancelled_tokens ?t" for b
    using that gw_heap_okD(3,6) [OF ok] by (force simp: gw_cancel_every_def gw_record_wf_def ran_def)
  ultimately show ?thesis
    using gw_heap_okD [OF ok] unfolding gw_heap_ok_def addr dom by (auto simp: gw_cancel_every_def)
qed

lemma gw_heap_reserve:
  assumes ok: "gw_heap_ok s"
  shows "gw_heap_ok (fst (gw_reserve oid s))"
proof (cases "gw_poisoned s \<or> gw_operations s oid \<noteq> None \<or> gw_next_sequence s + 1 > U64_MAX")
  case True
  with ok show ?thesis by (auto simp: gw_reserve_def checked_add_def)
next
  case False
  let ?t = "fst (gw_reserve oid s)" and ?n = "gw_next_alloc s"
  have ops: "gw_operations ?t = (gw_operations s)(oid \<mapsto>
      \<lparr>rec_identity = \<lparr>gid_operation_id = oid, gid_sequence = gw_next_sequence s\<rparr>, rec_phase = Reserved,
       rec_cancellation_requested = False, rec_cancellation = ?n, rec_terminal = None, rec_released = ?n\<rparr>)"
    and rest: "gw_next_sequence ?t = Suc (gw_next_sequence s)" "gw_next_alloc ?t = Suc ?n"
      "gw_slots ?t = gw_slots s" "gw_cancelled_tokens ?t = gw_cancelled_tokens s"
    using False by (auto simp: gw_reserve_def checked_add_def Let_def)
  have bound: "gw_addr s i = Some a \<Longrightarrow> a < ?n" for i a
    using gw_heap_okD(3) [OF ok] by (auto simp: gw_addr_def gw_record_wf_def)
  then have fresh: "gw_addr s i \<noteq> Some ?n" for i by blast
  have addr: "gw_addr ?t = (gw_addr s)(oid \<mapsto> ?n)" by (auto simp: gw_addr_def ops fun_eq_iff)
  have "?n \<notin> gw_cancelled_tokens s" "gw_slots s ?n = None"
    using gw_heap_okD(5,6) [OF ok, of ?n] less_irrefl by blast+
  then have "gw_record_wf ?t i q" if "gw_operations ?t i = Some q" for i q
    using that gw_heap_okD(3) [OF ok, of i]
    by (auto simp: ops rest gw_record_wf_def split: if_splits)
  then show ?thesis
    using gw_heap_okD [OF ok] False unfolding gw_heap_ok_def addr rest
    by (auto simp: ops fresh less_Suc_eq split: if_splits)
qed

lemma gw_exec_heap:
  assumes "gw_heap_ok s" and "gw_call_ok s c"
  shows "gw_heap_ok (gw_exec c s)"
proof (cases c)
  case (GC_Reserve oid)
  then show ?thesis using assms by (simp add: gw_heap_reserve)
next
  case (GC_Terminal_And_Release d l)
  then show ?thesis using assms
    by (auto simp: gw_op_defs result_simps gw_heap_remove split: result.split)
next
  case (GC_Release l)
  then show ?thesis using assms
    by (auto simp: gw_op_defs result_simps gw_heap_remove split: result.split)
next
  case GC_Poison
  then show ?thesis using assms by (simp add: gw_heap_ok_def gw_record_wf_def gw_addr_def)
next
  case (GC_Poison_Slot a)
  then show ?thesis using assms by (simp add: gw_heap_ok_def gw_record_wf_def gw_addr_def)
qed (use assms in \<open>auto simp: gw_op_defs result_simps gw_heap_put gw_heap_cancel_every
    split: result.split\<close>)

lemma gw_step_inv: "gw_step s t \<Longrightarrow> gw_inv s \<Longrightarrow> gw_inv t"
  by (induction rule: gw_step.induct) (simp add: gw_inv_alt gw_exec_heap gw_exec_lc_inv)

lemma gw_step_sim: "gw_step s t \<Longrightarrow> lc_step\<^sup>*\<^sup>* (gw_abs s) (gw_abs t)"
  by (induction rule: gw_step.induct) (rule gw_exec_sim)

interpretation gw: lifecycle_impl gw_step gw_inv gw_abs
  by unfold_locales (auto simp: gw_inv_alt intro: gw_step_inv gw_step_sim
      dest: gw_step_inv [unfolded gw_inv_alt])

section \<open>Effect of a step on records and slots\<close>

text \<open>
  Records keep their identity, slot and selected terminal class; a new record is fresh; a record
  that leaves has its final snapshot in its slot; a filled slot is never written again.
\<close>

definition gw_effect :: "gw_state \<Rightarrow> gw_state \<Rightarrow> bool" where
  "gw_effect s t \<longleftrightarrow>
     gw_next_alloc s \<le> gw_next_alloc t \<and> gw_next_sequence s \<le> gw_next_sequence t \<and>
     (\<forall>i q. gw_operations t i = Some q \<longrightarrow>
        (\<exists>r. gw_operations s i = Some r \<and> rec_identity q = rec_identity r \<and>
             rec_released q = rec_released r \<and> (\<forall>c. rec_terminal r = Some c \<longrightarrow> rec_terminal q = Some c))
        \<or> gw_operations s i = None \<and> rec_released q = gw_next_alloc s \<and>
          gid_sequence (rec_identity q) = gw_next_sequence s) \<and>
     (\<forall>i r. gw_operations s i = Some r \<longrightarrow> gw_operations t i = None \<longrightarrow>
        (\<exists>snap. gw_slots t (rec_released r) = Some snap \<and> snap_identity snap = rec_identity r \<and>
                snap_phase snap = Released \<and> snap_terminal snap \<noteq> None \<and>
                (\<forall>c. rec_terminal r = Some c \<longrightarrow> snap_terminal snap = Some c))) \<and>
     (\<forall>a snap. gw_slots s a = Some snap \<longrightarrow> gw_slots t a = Some snap)"

lemma gw_effect_refl: "gw_effect s s"
  by (auto simp: gw_effect_def)

lemma gw_effect_put:
  assumes "gw_operations s (gid_operation_id (rec_identity r)) = Some r"
    and "rec_identity r' = rec_identity r" and "rec_released r' = rec_released r"
    and "\<forall>c. rec_terminal r = Some c \<longrightarrow> rec_terminal r' = Some c"
  shows "gw_effect s (gw_put r' s)" "gw_effect s ((gw_put r' s)\<lparr>gw_cancelled_tokens := toks\<rparr>)"
  using assms by (auto simp: gw_effect_def gw_put_def split: if_splits)

lemma gw_inv_record:
  assumes "gw_inv s" and "gw_operations s oid = Some r"
  shows "gid_sequence (rec_identity r) < gw_next_sequence s" and "rec_phase r \<noteq> Released"
    and "rec_terminal r = None \<longleftrightarrow> phase_rank (rec_phase r) < phase_rank Terminal"
    and "gw_record_wf s oid r"
proof -
  have "lc_live (gw_abs s) oid = Some (gw_abs_record r)" using assms(2) by (simp add: gw_abs_live)
  then show "gid_sequence (rec_identity r) < gw_next_sequence s" and "rec_phase r \<noteq> Released"
    and "rec_terminal r = None \<longleftrightarrow> phase_rank (rec_phase r) < phase_rank Terminal"
    using assms(1) unfolding gw_inv_def lc_inv_def
    by (fastforce simp: gw_abs_next gw_abs_record_def)+
  show "gw_record_wf s oid r" using assms by (simp add: gw_inv_def)
qed

lemma gw_inv_terminal:
  "gw_inv s \<Longrightarrow> gw_operations s oid = Some r \<Longrightarrow> rec_phase r = Terminal \<Longrightarrow> \<exists>c. rec_terminal r = Some c"
  using gw_inv_record(3) [of s oid r] by simp

lemma gw_effect_remove:
  assumes inv: "gw_inv s" and lease: "gw_lease_ok s l"
    and old: "gw_operations s (gid_operation_id (lease_identity l)) = Some r"
    and same: "rec_identity r = lease_identity l"
    and snap: "snap_identity (gw_snapshot_of r') = rec_identity r" "rec_phase r' = Released"
      "rec_terminal r' \<noteq> None" "\<forall>c. rec_terminal r = Some c \<longrightarrow> rec_terminal r' = Some c"
  shows "gw_effect s (gw_remove l r' s)"
proof -
  have rel: "rec_released r = lease_released l" using lease old same by (simp add: gw_lease_ok_def)
  have "gw_record_wf s (gid_operation_id (lease_identity l)) r" using gw_inv_record(4) [OF inv old] .
  then have "gw_slots s (lease_released l) = None" using rel by (simp add: gw_record_wf_def)
  with rel snap old show ?thesis
    unfolding gw_effect_def gw_remove_def by (auto simp: gw_snapshot_of_def split: if_splits)
qed

lemma gw_effect_terminal_put:
  assumes "gw_operations s (gid_operation_id (rec_identity r)) = Some r" and "rec_terminal r = None"
  shows "gw_effect s (gw_put (r\<lparr>rec_terminal := Some c, rec_phase := Terminal\<rparr>) s)"
  by (rule gw_effect_put [OF assms(1)]) (use assms(2) in auto)

lemma gw_effect_other_put:
  assumes "gw_operations s (gid_operation_id (rec_identity r)) = Some r"
  shows "gw_effect s (gw_put (r\<lparr>rec_phase := ph\<rparr>) s)"
    and "gw_effect s ((gw_put (r\<lparr>rec_cancellation_requested := True\<rparr>) s)\<lparr>gw_cancelled_tokens := toks\<rparr>)"
  using gw_effect_put [OF assms] by simp_all

lemma gw_exec_effect:
  assumes "gw_inv s" and "gw_call_ok s c"
  shows "gw_effect s (gw_exec c s)"
proof (cases c)
  case (GC_Reserve oid)
  show ?thesis
    unfolding GC_Reserve gw_exec.simps gw_reserve_def checked_add_def Let_def
    by (auto simp: gw_effect_refl) (auto simp: gw_effect_def split: if_splits)
next
  case (GC_Terminal_And_Release d l)
  with assms show ?thesis
    by (auto simp: gw_terminal_and_release_def result_simps gw_effect_refl gw_snapshot_of_def
        intro!: gw_effect_remove split: result.split)
next
  case (GC_Release l)
  with assms show ?thesis
    by (auto simp: gw_release_def result_simps gw_effect_refl gw_snapshot_of_def gw_inv_terminal
        intro!: gw_effect_remove split: result.split)
next
  case (GC_Terminal d l)
  then show ?thesis
    by (auto simp: gw_terminal_def result_simps gw_effect_refl gw_effect_terminal_put split: result.split)
next
  case (GC_Terminal_For_Publication d l)
  then show ?thesis
    by (auto simp: gw_terminal_for_publication_def result_simps gw_effect_refl gw_effect_terminal_put
        split: result.split)
next
  case GC_Request_Cancel_All
  then show ?thesis
    by (auto simp: gw_request_cancel_all_def gw_cancel_every_def gw_effect_def)
next
  case GC_Request_Cancel_All_For_Shutdown
  then show ?thesis
    by (auto simp: gw_request_cancel_all_for_shutdown_def gw_cancel_every_def gw_effect_def)
next
  case GC_Poison
  then show ?thesis by (auto simp: gw_effect_def)
next
  case (GC_Poison_Slot a)
  then show ?thesis by (auto simp: gw_effect_def)
qed (auto simp: gw_op_defs result_simps gw_effect_refl gw_effect_other_put split: result.split)

lemma gw_step_effect: "gw_step s t \<Longrightarrow> gw_inv s \<Longrightarrow> gw_effect s t"
  by (induction rule: gw_step.induct) (rule gw_exec_effect)

subsection \<open>Leases\<close>

lemma gw_effect_lease_ok: "gw_effect s t \<Longrightarrow> gw_lease_ok s l \<Longrightarrow> gw_lease_ok t l"
proof -
  assume eff: "gw_effect s t" and ok: "gw_lease_ok s l"
  have "rec_released q = lease_released l \<longleftrightarrow> rec_identity q = lease_identity l"
    if q: "gw_operations t i = Some q" for i q
  proof -
    from eff q consider
      (old) r where "gw_operations s i = Some r" "rec_identity q = rec_identity r"
        "rec_released q = rec_released r"
    | (new) "rec_released q = gw_next_alloc s" "gid_sequence (rec_identity q) = gw_next_sequence s"
      unfolding gw_effect_def by blast
    then show ?thesis
    proof cases
      case old
      with ok show ?thesis by (simp add: gw_lease_ok_def)
    next
      case new
      with ok show ?thesis by (auto simp: gw_lease_ok_def)
    qed
  qed
  with eff ok show ?thesis by (auto simp: gw_lease_ok_def gw_effect_def)
qed

lemma gw_step_lease_ok: "gw_step s t \<Longrightarrow> gw_inv s \<Longrightarrow> gw_lease_ok s l \<Longrightarrow> gw_lease_ok t l"
  by (rule gw_effect_lease_ok [OF gw_step_effect])

lemma gw_steps_lease_ok: "gw_step\<^sup>*\<^sup>* s t \<Longrightarrow> gw_inv s \<Longrightarrow> gw_lease_ok s l \<Longrightarrow> gw_lease_ok t l"
  by (induction rule: rtranclp_induct) (auto intro: gw_step_lease_ok gw.steps_inv)

lemma gw_reserve_lease_ok:
  assumes "gw_inv s" and "gw_reserve oid s = (t, Ok (g, l))"
  shows "gw_lease_ok t l \<and> guard_lease g = l"
proof -
  have "rec_released r < gw_next_alloc s \<and> gid_sequence (rec_identity r) < gw_next_sequence s"
    if "gw_operations s i = Some r" for i r
    using gw_inv_record [OF assms(1) that] by (simp add: gw_record_wf_def)
  then have fresh: "rec_released r \<noteq> gw_next_alloc s \<and>
      rec_identity r \<noteq> \<lparr>gid_operation_id = oid, gid_sequence = gw_next_sequence s\<rparr>"
    if "gw_operations s i = Some r" for i r
    using that by (metis less_irrefl gw_identity.select_convs(2))
  show ?thesis
    using assms(2) unfolding gw_reserve_def checked_add_def Let_def
    by (auto simp: gw_lease_ok_def dest: fresh split: if_splits)
qed

lemma gw_current_lease_ok:
  assumes "gw_inv s" and "gw_current_lease oid s = Ok (Some l)"
  shows "gw_lease_ok s l"
proof -
  obtain r where r: "gw_operations s oid = Some r"
    and l: "l = \<lparr>lease_identity = rec_identity r, lease_released = rec_released r,
      lease_cancellation = rec_cancellation r\<rparr>"
    using assms(2) by (auto simp: gw_current_lease_def split: if_splits)
  have wf: "gw_record_wf s oid r" using assms(1) r by (simp add: gw_inv_def)
  have "rec_released q = rec_released r \<longleftrightarrow> rec_identity q = rec_identity r"
    if q: "gw_operations s i = Some q" for i q
  proof -
    have "gid_operation_id (rec_identity q) = i"
      using gw_inv_record(4) [OF assms(1) q] by (simp add: gw_record_wf_def)
    moreover have "rec_released q = rec_released r \<Longrightarrow> i = oid"
      using gw_heap_okD(4) [of s i "rec_released r" oid] assms(1) q r
      by (simp add: gw_inv_alt gw_addr_def)
    moreover have "rec_identity q = rec_identity r \<Longrightarrow> i = oid"
      using calculation(1) wf by (simp add: gw_record_wf_def)
    ultimately show ?thesis using q r by (metis option.inject)
  qed
  moreover have "gid_sequence (rec_identity r) < gw_next_sequence s"
    by (rule gw_inv_record(1) [OF assms(1) r])
  ultimately show ?thesis using wf by (auto simp: gw_lease_ok_def gw_record_wf_def l)
qed

section \<open>Guarantees\<close>

lemma gw_current_iff:
  assumes "gw_inv s"
  shows "lc_current (gw_abs s) (gid_operation_id i) (gid_sequence i) \<longleftrightarrow>
    (\<exists>r. gw_operations s (gid_operation_id i) = Some r \<and> rec_identity r = i)"
proof
  assume "lc_current (gw_abs s) (gid_operation_id i) (gid_sequence i)"
  then obtain r where r: "gw_operations s (gid_operation_id i) = Some r"
    and q: "gid_sequence (rec_identity r) = gid_sequence i"
    by (auto simp: lc_current_def gw_abs_live gw_abs_record_def)
  have "gid_operation_id (rec_identity r) = gid_operation_id i"
    using gw_inv_record(4) [OF assms r] by (simp add: gw_record_wf_def)
  with q have "rec_identity r = i" by simp
  with r show "\<exists>r. gw_operations s (gid_operation_id i) = Some r \<and> rec_identity r = i" by blast
qed (auto simp: lc_current_def gw_abs_live gw_abs_record_def)

lemma gw_is_active_False:
  "gw_is_active l s = Ok False \<Longrightarrow>
   \<not> (\<exists>r. gw_operations s (gid_operation_id (lease_identity l)) = Some r \<and> rec_identity r = lease_identity l)"
  by (auto simp: gw_is_active_def gw_current_def gw_snapshot_of_def split: if_splits option.splits)

lemma gw_record_mut_stale:
  "\<not> (\<exists>r. gw_operations s (gid_operation_id i) = Some r \<and> rec_identity r = i) \<Longrightarrow>
   gw_record_mut s i = Err Stale"
  by (auto simp: gw_record_mut_def split: option.splits)

text \<open>
  C4. Generation safety of the gateway registry. Take the lease returned by a successful
  \<open>reserve\<close>. Once the operation has been observed to be inactive, then after any further calls by
  any clients (including a new \<open>reserve\<close> of the same public id) every mutating method of that
  lease fails with \<open>Stale\<close> (or \<open>Poisoned\<close>, if a lock was poisoned) and leaves the registry, the
  released slots and the cancellation tokens unchanged: an old lease can never move, finish,
  release or cancel a later operation that reuses its id.
\<close>

theorem gw_stale_lease_is_inert:
  assumes "gw_inv s" and "gw_reserve oid s = (t, Ok (g, l))" and "gw_step\<^sup>*\<^sup>* t u"
    and "gw_is_active l u = Ok False" and "gw_step\<^sup>*\<^sup>* u v"
  shows "\<forall>call \<in> {gw_queue l, gw_start l, gw_terminal c l, gw_terminal_for_publication c l,
      gw_terminal_and_release c l, gw_release l, gw_request_cancel l}.
    fst (call v) = v \<and> snd (call v) \<in> {Err Stale, Err Poisoned}"
proof -
  let ?i = "lease_identity l"
  have "gw_step s t" using gw_step.intros [of s "GC_Reserve oid"] assms(2) by simp
  then have t: "gw_inv t" using assms(1) by (rule gw_step_inv)
  have u: "gw_inv u" using assms(3) t by (rule gw.steps_inv)
  have v: "gw_inv v" using assms(5) u by (rule gw.steps_inv)
  have "gw_lease_ok u l"
    using gw_steps_lease_ok [OF assms(3) t] gw_reserve_lease_ok [OF assms(1,2)] by blast
  then have "gid_sequence ?i < lc_next (gw_abs u)" by (simp add: gw_lease_ok_def gw_abs_next)
  moreover have "\<not> lc_current (gw_abs u) (gid_operation_id ?i) (gid_sequence ?i)"
    using gw_is_active_False [OF assms(4)] by (simp add: gw_current_iff [OF u])
  ultimately have "\<not> lc_current (gw_abs v) (gid_operation_id ?i) (gid_sequence ?i)"
    using gw.gone_for_good [OF u assms(5)] by blast
  then have "gw_record_mut v ?i = Err Stale"
    using gw_record_mut_stale gw_current_iff [OF v] by blast
  then show ?thesis by (simp add: gw_op_defs)
qed

text \<open>The states of the witness runs: one operation reserved, run to its terminal and released.\<close>

abbreviation gw_demo_lease :: gw_lease where
  "gw_demo_lease \<equiv> \<lparr>lease_identity = \<lparr>gid_operation_id = ''a'', gid_sequence = 1\<rparr>,
     lease_released = 0, lease_cancellation = 0\<rparr>"

definition gw_demo_reserved :: gw_state where
  "gw_demo_reserved = gw_exec (GC_Reserve ''a'') (gw_new 1)"

definition gw_demo_terminal :: gw_state where
  "gw_demo_terminal = gw_exec (GC_Terminal Completed gw_demo_lease)
     (gw_exec (GC_Start gw_demo_lease) (gw_exec (GC_Queue gw_demo_lease) gw_demo_reserved))"

definition gw_demo_released :: gw_state where
  "gw_demo_released = gw_exec (GC_Release gw_demo_lease) gw_demo_terminal"

lemmas gw_demo_defs = gw_demo_reserved_def gw_demo_terminal_def gw_demo_released_def gw_op_defs gw_new_def
  gw_record_mut_def gw_put_def gw_remove_def gw_lease_ok_def gw_snapshot_of_def checked_add_def U64_MAX_def Let_def

lemma gw_demo_steps:
  "gw_step\<^sup>*\<^sup>* gw_demo_reserved gw_demo_terminal" "gw_step\<^sup>*\<^sup>* gw_demo_terminal gw_demo_released"
proof -
  let ?q = "gw_exec (GC_Queue gw_demo_lease) gw_demo_reserved"
  let ?r = "gw_exec (GC_Start gw_demo_lease) ?q"
  have "gw_step gw_demo_reserved ?q" by (rule gw_step) (simp add: gw_demo_defs)
  moreover have "gw_step ?q ?r" by (rule gw_step) (simp add: gw_demo_defs)
  moreover have "gw_step ?r gw_demo_terminal"
    unfolding gw_demo_terminal_def by (rule gw_step) (simp add: gw_demo_defs)
  ultimately show "gw_step\<^sup>*\<^sup>* gw_demo_reserved gw_demo_terminal" by simp
  show "gw_step\<^sup>*\<^sup>* gw_demo_terminal gw_demo_released"
    unfolding gw_demo_released_def by (intro r_into_rtranclp gw_step) (simp add: gw_demo_defs)
qed

theorem gw_stale_lease_is_inert_witness:
  "fst (gw_release gw_demo_lease (gw_exec (GC_Reserve ''a'') gw_demo_released))
     = gw_exec (GC_Reserve ''a'') gw_demo_released"
proof -
  have inv: "gw_inv (gw_new 1)" by (rule gw_inv_new) (simp add: U64_MAX_def)
  have res: "gw_reserve ''a'' (gw_new 1) = (gw_demo_reserved,
      Ok (\<lparr>guard_lease = gw_demo_lease, guard_cancel_on_drop = True\<rparr>, gw_demo_lease))"
    by (simp add: gw_demo_defs)
  have run: "gw_step\<^sup>*\<^sup>* gw_demo_reserved gw_demo_released"
    using gw_demo_steps by (rule rtranclp_trans)
  have act: "gw_is_active gw_demo_lease gw_demo_released = Ok False"
    by (simp add: gw_demo_defs gw_is_active_def gw_current_def)
  have "gw_step\<^sup>*\<^sup>* gw_demo_released (gw_exec (GC_Reserve ''a'') gw_demo_released)"
    by (intro r_into_rtranclp gw_step) simp
  from gw_stale_lease_is_inert [OF inv res run act this] show ?thesis by simp
qed

subsection \<open>A selected outcome is final\<close>

text \<open>The terminal class of a lease's operation, in its record or in the released slot; any other
  operation under the same id is a later one.\<close>

definition gw_has_outcome :: "gw_lease \<Rightarrow> terminal_class \<Rightarrow> gw_state \<Rightarrow> bool" where
  "gw_has_outcome l c s \<longleftrightarrow>
     (\<forall>r. gw_operations s (gid_operation_id (lease_identity l)) = Some r \<longrightarrow>
        (if rec_identity r = lease_identity l then rec_terminal r = Some c
         else gid_sequence (lease_identity l) < gid_sequence (rec_identity r))) \<and>
     ((\<exists>r. gw_operations s (gid_operation_id (lease_identity l)) = Some r \<and> rec_identity r = lease_identity l) \<or>
      (\<exists>snap. gw_slots s (lease_released l) = Some snap \<and> snap_identity snap = lease_identity l \<and>
              snap_terminal snap = Some c))"

lemma gw_has_outcome_effect:
  assumes eff: "gw_effect s t" and ok: "gw_lease_ok s l" and out: "gw_has_outcome l c s"
  shows "gw_has_outcome l c t"
proof -
  let ?i = "lease_identity l" and ?oid = "gid_operation_id (lease_identity l)"
  have seq: "gid_sequence ?i < gw_next_sequence s" using ok by (simp add: gw_lease_ok_def)
  have records: "if rec_identity q = ?i then rec_terminal q = Some c
      else gid_sequence ?i < gid_sequence (rec_identity q)" if q: "gw_operations t ?oid = Some q" for q
  proof -
    from eff q consider
      (old) r where "gw_operations s ?oid = Some r" "rec_identity q = rec_identity r"
        "\<forall>d. rec_terminal r = Some d \<longrightarrow> rec_terminal q = Some d"
    | (new) "gid_sequence (rec_identity q) = gw_next_sequence s"
      unfolding gw_effect_def by blast
    then show ?thesis
    proof cases
      case old
      then show ?thesis using out by (auto simp: gw_has_outcome_def split: if_splits)
    next
      case new
      then show ?thesis using seq by auto
    qed
  qed
  have "(\<exists>r. gw_operations t ?oid = Some r \<and> rec_identity r = ?i) \<or>
      (\<exists>snap. gw_slots t (lease_released l) = Some snap \<and> snap_identity snap = ?i \<and> snap_terminal snap = Some c)"
  proof (cases "\<exists>r. gw_operations s ?oid = Some r \<and> rec_identity r = ?i")
    case True
    then obtain r where r: "gw_operations s ?oid = Some r" "rec_identity r = ?i" by blast
    have rel: "rec_released r = lease_released l" and term_r: "rec_terminal r = Some c"
      using ok out r by (auto simp: gw_lease_ok_def gw_has_outcome_def)
    show ?thesis
    proof (cases "gw_operations t ?oid")
      case None
      with eff r(1) have "\<exists>snap. gw_slots t (rec_released r) = Some snap \<and> snap_identity snap = rec_identity r \<and>
          (\<forall>d. rec_terminal r = Some d \<longrightarrow> snap_terminal snap = Some d)"
        unfolding gw_effect_def by blast
      with rel r(2) term_r show ?thesis by auto
    next
      case (Some q)
      with eff r have "rec_identity q = ?i" unfolding gw_effect_def by fastforce
      with Some show ?thesis by blast
    qed
  next
    case False
    then show ?thesis using out eff unfolding gw_has_outcome_def gw_effect_def by blast
  qed
  with records show ?thesis by (auto simp: gw_has_outcome_def)
qed

lemma gw_has_outcome_steps:
  assumes "gw_step\<^sup>*\<^sup>* s t" and "gw_inv s" and "gw_lease_ok s l" and "gw_has_outcome l c s"
  shows "gw_has_outcome l c t"
  using assms
proof (induction rule: rtranclp_induct)
  case (step t u)
  then have "gw_inv t" "gw_lease_ok t l" by (auto intro: gw.steps_inv gw_steps_lease_ok)
  with step show ?case by (blast intro: gw_has_outcome_effect gw_step_effect)
qed

lemma gw_snapshot_has_outcome:
  assumes "gw_lease_snapshot l s = Ok (Some snap)" and "snap_terminal snap = Some c"
    and "snap_identity snap = lease_identity l"
  shows "gw_has_outcome l c s"
  using assms unfolding gw_lease_snapshot_def gw_has_outcome_def
  by (auto simp: gw_snapshot_of_def split: if_splits option.splits)

text \<open>
  One terminal class per operation, for good. When a lease has observed that its operation
  selected terminal class \<open>c\<close>, every later \<open>snapshot()\<close> of that lease, after any calls by any
  clients, still reports \<open>c\<close> for the same operation (whether the operation is still registered
  or already released); the only other answers are the poisoned-lock error, and \<open>None\<close> exactly
  when a later operation now occupies the public id.
\<close>

theorem gw_outcome_is_final:
  assumes "gw_inv s" and "gw_lease_ok s l" and "gw_lease_snapshot l s = Ok (Some snap)"
    and "snap_identity snap = lease_identity l" and "snap_terminal snap = Some c" and "gw_step\<^sup>*\<^sup>* s t"
  shows "gw_lease_snapshot l t = Err Poisoned \<or>
    (\<exists>snap'. gw_lease_snapshot l t = Ok (Some snap') \<and> snap_identity snap' = lease_identity l \<and>
             snap_terminal snap' = Some c) \<or>
    gw_lease_snapshot l t = Ok None \<and>
      (\<exists>r. gw_operations t (gid_operation_id (lease_identity l)) = Some r \<and>
           gid_sequence (lease_identity l) < gid_sequence (rec_identity r))"
proof -
  have "gw_has_outcome l c s" using assms(3,5,4) by (rule gw_snapshot_has_outcome)
  then have "gw_has_outcome l c t" by (rule gw_has_outcome_steps [OF assms(6,1,2)])
  then show ?thesis
    unfolding gw_lease_snapshot_def gw_has_outcome_def
    by (auto simp: gw_snapshot_of_def split: option.splits if_splits)
qed

theorem gw_outcome_is_final_witness:
  "gw_lease_snapshot gw_demo_lease gw_demo_terminal \<noteq> gw_lease_snapshot gw_demo_lease gw_demo_released \<and>
   (\<exists>snap. gw_lease_snapshot gw_demo_lease gw_demo_released = Ok (Some snap) \<and>
           snap_terminal snap = Some Completed)"
proof -
  have "gw_step (gw_new 1) gw_demo_reserved"
    using gw_step.intros [of "gw_new 1" "GC_Reserve ''a''"] by (simp add: gw_demo_reserved_def)
  moreover have "gw_inv (gw_new 1)" by (rule gw_inv_new) (simp add: U64_MAX_def)
  ultimately have inv: "gw_inv gw_demo_terminal"
    using gw.steps_inv gw_step_inv gw_demo_steps(1) by blast
  have ok: "gw_lease_ok gw_demo_terminal gw_demo_lease" by (simp add: gw_demo_defs)
  let ?snap = "\<lparr>snap_identity = \<lparr>gid_operation_id = ''a'', gid_sequence = 1\<rparr>, snap_phase = Terminal,
    snap_cancellation_requested = False, snap_terminal = Some Completed\<rparr>"
  have snap: "gw_lease_snapshot gw_demo_lease gw_demo_terminal = Ok (Some ?snap)"
    by (simp add: gw_demo_defs gw_lease_snapshot_def)
  have "\<not> gw_poisoned gw_demo_released" "gw_operations gw_demo_released ''a'' = None"
    "gw_slot_poisoned gw_demo_released = {}"
    by (simp_all add: gw_demo_defs)
  with gw_outcome_is_final [OF inv ok snap _ _ gw_demo_steps(2), of Completed]
  have "\<exists>snap. gw_lease_snapshot gw_demo_lease gw_demo_released = Ok (Some snap) \<and>
      snap_terminal snap = Some Completed"
    by (auto simp: gw_lease_snapshot_def)
  moreover have "gw_lease_snapshot gw_demo_lease gw_demo_terminal \<noteq> gw_lease_snapshot gw_demo_lease gw_demo_released"
    by (simp add: gw_demo_defs gw_lease_snapshot_def)
  ultimately show ?thesis by blast
qed

subsection \<open>Cancellation\<close>

text \<open>
  Cancellation reaches every live operation and only those. \<open>request_cancel_all\<close> and its
  shutdown variant return the ids of all registered operations in key order, mark every record
  and call \<open>cancel()\<close> on exactly the tokens of those records; afterwards flag and token agree for
  every record, and no phase or terminal class has changed. The shutdown variant does the same
  on a poisoned registry, and reports the poison.
\<close>

theorem gw_cancel_all_exact:
  assumes "gw_inv s"
  shows "(\<not> gw_poisoned s \<longrightarrow> gw_request_cancel_all s =
      (fst (gw_request_cancel_all_for_shutdown s), Ok (fst (snd (gw_request_cancel_all_for_shutdown s))))) \<and>
    (gw_poisoned s \<longrightarrow> gw_request_cancel_all s = (s, Err Poisoned)) \<and>
    (case gw_request_cancel_all_for_shutdown s of (t, ids, e) \<Rightarrow>
       set ids = dom (gw_operations s) \<and> sorted ids \<and> distinct ids \<and>
       e = (if gw_poisoned s then Some Poisoned else None) \<and>
       gw_abs t = gw_abs s \<and> dom (gw_operations t) = dom (gw_operations s) \<and>
       (\<forall>oid r. gw_operations t oid = Some r \<longrightarrow>
          rec_cancellation_requested r \<and> rec_cancellation r \<in> gw_cancelled_tokens t) \<and>
       gw_cancelled_tokens t - gw_cancelled_tokens s \<subseteq> rec_cancellation ` ran (gw_operations s))"
proof -
  have fin: "finite (dom (gw_operations s))" using assms by (simp add: gw_inv_def)
  have "rec_cancellation r \<in> gw_cancelled_tokens (gw_cancel_every s) \<and> rec_cancellation_requested r"
    if "gw_operations (gw_cancel_every s) oid = Some r" for oid r
    using that by (force simp: gw_cancel_every_def ran_def)
  moreover have "dom (gw_operations (gw_cancel_every s)) = dom (gw_operations s)"
    by (auto simp: gw_cancel_every_def)
  ultimately show ?thesis
    using fin gw_abs_cancel_every [of s]
    by (auto simp: gw_request_cancel_all_def gw_request_cancel_all_for_shutdown_def gw_keys_def)
      (auto simp: gw_cancel_every_def)
qed

theorem gw_cancel_all_exact_witness:
  "set (fst (snd (gw_request_cancel_all_for_shutdown gw_demo_reserved))) = {''a''}"
proof -
  have "gw_inv (gw_new 1)" by (rule gw_inv_new) (simp add: U64_MAX_def)
  moreover have "gw_step (gw_new 1) gw_demo_reserved"
    using gw_step.intros [of "gw_new 1" "GC_Reserve ''a''"] by (simp add: gw_demo_reserved_def)
  ultimately have "gw_inv gw_demo_reserved" by (blast intro: gw_step_inv)
  then have "set (fst (snd (gw_request_cancel_all_for_shutdown gw_demo_reserved))) =
      dom (gw_operations gw_demo_reserved)"
    using gw_cancel_all_exact [of gw_demo_reserved] by (simp add: case_prod_beta)
  then show ?thesis by (simp add: gw_demo_defs)
qed

end
