(* ===== verification/Gateway_Quota.thy ===== *)
theory Gateway_Quota
  imports Prelude Complex_Main
begin

text \<open>
  Per-route quota reservations of the gateway, \<open>products/fte/crates/fte-router/src/quota.rs\<close>.

  An \<open>Instant\<close> is a number of nanoseconds, and \<open>saturating_duration_since\<close> is truncated
  subtraction. The ratio of the headroom is computed in \<open>f64\<close>; it is an exact rational here, and
  the only decision the code takes on it is whether it is at most zero, which rounding does not
  affect (a positive 64-bit count converts to a positive float, and so does the quotient of two
  such). A reservation shares the quota with its route; \<open>quota_sys\<close> holds the quota and every
  reservation ever made on it, and its steps are the calls of any number of concurrent requests,
  whose clock readings need not be in order.
\<close>

section \<open>Windows\<close>

record quota_limits =
  requests_per_minute :: "nat option"
  requests_per_day :: "nat option"
  tokens_per_minute :: "nat option"
  tokens_per_day :: "nat option"

record window =
  w_start :: nat
  w_requests :: nat
  w_tokens :: nat
  w_reserved :: nat
  w_unknown :: bool

record quota_state =
  q_limits :: quota_limits
  q_minute :: window
  q_day :: window
  q_poisoned :: bool

definition window_new :: "nat \<Rightarrow> window" where
  "window_new start = \<lparr>w_start = start, w_requests = 0, w_tokens = 0, w_reserved = 0, w_unknown = False\<rparr>"

definition window_roll :: "nat \<Rightarrow> nat \<Rightarrow> window \<Rightarrow> window" where
  "window_roll now duration w = (if duration \<le> saturating_sub now (w_start w) then window_new now else w)"

definition ratio :: "nat \<Rightarrow> nat \<Rightarrow> rat" where
  "ratio limit used = (if limit = 0 then 0 else of_nat (saturating_sub limit used) / of_nat limit)"

text \<open>\<open>match (a, b) { (Some(a), Some(b)) => Some(a.min(b)), (a, b) => a.or(b) }\<close>\<close>

definition min_or :: "rat option \<Rightarrow> rat option \<Rightarrow> rat option" where
  "min_or a b = (case (a, b) of (Some x, Some y) \<Rightarrow> Some (min x y) | (Some x, None) \<Rightarrow> Some x | (None, y) \<Rightarrow> y)"

definition window_headroom :: "nat option \<Rightarrow> nat option \<Rightarrow> window \<Rightarrow> rat option" where
  "window_headroom requests tokens w =
     min_or (map_option (\<lambda>limit. ratio limit (w_requests w)) requests)
       (map_option (\<lambda>limit. if w_unknown w then 0
                            else ratio limit (saturating_add U64_MAX (w_tokens w) (w_reserved w))) tokens)"

definition MINUTE :: nat where "MINUTE = 60 * 10 ^ 9"
definition DAY :: nat where "DAY = 86400 * 10 ^ 9"

definition state_roll :: "nat \<Rightarrow> quota_state \<Rightarrow> quota_state" where
  "state_roll now q = q\<lparr>q_minute := window_roll now MINUTE (q_minute q), q_day := window_roll now DAY (q_day q)\<rparr>"

definition state_headroom :: "quota_state \<Rightarrow> rat option" where
  "state_headroom q =
     min_or (window_headroom (requests_per_minute (q_limits q)) (tokens_per_minute (q_limits q)) (q_minute q))
       (window_headroom (requests_per_day (q_limits q)) (tokens_per_day (q_limits q)) (q_day q))"

section \<open>Quota\<close>

datatype quota_error = Route_Quota_Exhausted string

record reservation =
  rv_starts :: "nat \<times> nat"
  rv_reserved :: nat
  rv_execution_started :: bool
  rv_finished :: bool

definition quota_new :: "quota_limits \<Rightarrow> nat \<Rightarrow> quota_state" where
  "quota_new limits now =
     \<lparr>q_limits = limits, q_minute = window_new now, q_day = window_new now, q_poisoned = False\<rparr>"

definition quota_headroom :: "nat \<Rightarrow> quota_state \<Rightarrow> quota_state \<times> rat option" where
  "quota_headroom now q =
     (if q_poisoned q then (q, Some 0)
      else let q = state_roll now q in (q, state_headroom q))"

text \<open>\<open>[..].into_iter().flatten().min()\<close> over the two remaining token allowances.\<close>

definition remaining_tokens :: "quota_state \<Rightarrow> nat option" where
  "remaining_tokens q =
     (let left = (\<lambda>w limit. saturating_sub limit (saturating_add U64_MAX (w_tokens w) (w_reserved w)));
          m = map_option (left (q_minute q)) (tokens_per_minute (q_limits q));
          d = map_option (left (q_day q)) (tokens_per_day (q_limits q))
      in case (m, d) of
           (Some minute, Some day) \<Rightarrow> Some (min minute day)
         | (Some minute, None) \<Rightarrow> m
         | (None, _) \<Rightarrow> d)"

definition window_admit :: "nat \<Rightarrow> window \<Rightarrow> window" where
  "window_admit reserved w =
     w\<lparr>w_requests := saturating_add U64_MAX (w_requests w) 1,
       w_reserved := saturating_add U64_MAX (w_reserved w) reserved\<rparr>"

definition reserve_at ::
  "string \<Rightarrow> nat option \<Rightarrow> nat \<Rightarrow> quota_state \<Rightarrow> quota_state \<times> (reservation, quota_error) result" where
  "reserve_at rid max_output now q =
     (if q_poisoned q then (q, Err (Route_Quota_Exhausted rid))
      else
        let q = state_roll now q in
        if (case state_headroom q of None \<Rightarrow> False | Some value \<Rightarrow> value \<le> 0)
        then (q, Err (Route_Quota_Exhausted rid))
        else
          let remaining = remaining_tokens q;
              reserved = (case remaining of
                            None \<Rightarrow> 0
                          | Some rest \<Rightarrow> (case max_output of None \<Rightarrow> rest | Some n \<Rightarrow> n))
          in if (case remaining of None \<Rightarrow> False | Some rest \<Rightarrow> rest < reserved)
             then (q, Err (Route_Quota_Exhausted rid))
             else (q\<lparr>q_minute := window_admit reserved (q_minute q), q_day := window_admit reserved (q_day q)\<rparr>,
                   Ok \<lparr>rv_starts = (w_start (q_minute q), w_start (q_day q)), rv_reserved = reserved,
                       rv_execution_started = False, rv_finished = False\<rparr>))"

section \<open>Reservation\<close>

datatype usage_provenance = Exact | Estimated | Unknown

record gateway_usage =
  input_tokens :: "nat option"
  output_tokens :: "nat option"
  provenance :: usage_provenance

definition start_execution :: "reservation \<Rightarrow> reservation" where
  "start_execution rv = rv\<lparr>rv_execution_started := True\<rparr>"

definition window_settle :: "nat option \<Rightarrow> nat \<Rightarrow> nat \<Rightarrow> window \<Rightarrow> window" where
  "window_settle tokens reserved start w =
     (if w_start w \<noteq> start then w
      else
        let w = w\<lparr>w_reserved := saturating_sub (w_reserved w) reserved\<rparr> in
        case tokens of
          Some n \<Rightarrow> w\<lparr>w_tokens := saturating_add U64_MAX (w_tokens w) n\<rparr>
        | None \<Rightarrow> w\<lparr>w_unknown := True\<rparr>)"

definition settle :: "nat option \<Rightarrow> reservation \<Rightarrow> quota_state \<Rightarrow> reservation \<times> quota_state" where
  "settle tokens rv q =
     (if rv_finished rv then (rv, q)
      else (rv\<lparr>rv_finished := True\<rparr>,
            if q_poisoned q then q
            else q\<lparr>q_minute := window_settle tokens (rv_reserved rv) (fst (rv_starts rv)) (q_minute q),
                   q_day := window_settle tokens (rv_reserved rv) (snd (rv_starts rv)) (q_day q)\<rparr>))"

text \<open>The token count \<open>finish\<close> takes from a response: exact input plus output, if both are known
  and their sum fits.\<close>

definition reported_tokens :: "(gateway_usage, 'e) result \<Rightarrow> nat option" where
  "reported_tokens r =
     (case r of
        Err e \<Rightarrow> None
      | Ok u \<Rightarrow>
          if provenance u = Exact then
            (case input_tokens u of
               None \<Rightarrow> None
             | Some i \<Rightarrow> (case output_tokens u of None \<Rightarrow> None | Some out \<Rightarrow> checked_add U64_MAX i out))
          else None)"

definition finish :: "(gateway_usage, 'e) result \<Rightarrow> reservation \<Rightarrow> quota_state \<Rightarrow> reservation \<times> quota_state" where
  "finish r rv q = settle (reported_tokens r) rv q"

definition reservation_drop :: "reservation \<Rightarrow> quota_state \<Rightarrow> reservation \<times> quota_state" where
  "reservation_drop rv q = settle (if rv_execution_started rv then None else Some 0) rv q"

section \<open>A route with concurrent requests\<close>

record quota_sys =
  qs_quota :: quota_state
  qs_rv :: "reservation list"

datatype quota_call =
    Q_Reserve string "nat option" nat
  | Q_Headroom nat
  | Q_Start nat
  | Q_Settle nat "nat option"
  | Q_Drop nat
  | Q_Poison

fun quota_exec :: "quota_call \<Rightarrow> quota_sys \<Rightarrow> quota_sys" where
  "quota_exec (Q_Reserve rid m now) s =
     (case reserve_at rid m now (qs_quota s) of
        (q, Ok rv) \<Rightarrow> \<lparr>qs_quota = q, qs_rv = qs_rv s @ [rv]\<rparr>
      | (q, Err e) \<Rightarrow> s\<lparr>qs_quota := q\<rparr>)"
| "quota_exec (Q_Headroom now) s = s\<lparr>qs_quota := fst (quota_headroom now (qs_quota s))\<rparr>"
| "quota_exec (Q_Start i) s =
     (if i < length (qs_rv s) then s\<lparr>qs_rv := (qs_rv s)[i := start_execution (qs_rv s ! i)]\<rparr> else s)"
| "quota_exec (Q_Settle i tokens) s =
     (if i < length (qs_rv s) then
        (case settle tokens (qs_rv s ! i) (qs_quota s) of
           (rv, q) \<Rightarrow> \<lparr>qs_quota = q, qs_rv = (qs_rv s)[i := rv]\<rparr>)
      else s)"
| "quota_exec (Q_Drop i) s =
     (if i < length (qs_rv s) then
        (case reservation_drop (qs_rv s ! i) (qs_quota s) of
           (rv, q) \<Rightarrow> \<lparr>qs_quota = q, qs_rv = (qs_rv s)[i := rv]\<rparr>)
      else s)"
| "quota_exec Q_Poison s = s\<lparr>qs_quota := (qs_quota s)\<lparr>q_poisoned := True\<rparr>\<rparr>"

definition quota_run :: "quota_limits \<Rightarrow> nat \<Rightarrow> quota_call list \<Rightarrow> quota_sys" where
  "quota_run limits now calls = fold quota_exec calls \<lparr>qs_quota = quota_new limits now, qs_rv = []\<rparr>"

section \<open>The two windows, uniformly\<close>

text \<open>Every statement below holds of the minute window and of the day window alike; \<open>span\<close>
  selects one of them.\<close>

datatype span = Per_Minute | Per_Day

fun win :: "span \<Rightarrow> quota_state \<Rightarrow> window" where
  "win Per_Minute q = q_minute q"
| "win Per_Day q = q_day q"

fun span_start :: "span \<Rightarrow> reservation \<Rightarrow> nat" where
  "span_start Per_Minute rv = fst (rv_starts rv)"
| "span_start Per_Day rv = snd (rv_starts rv)"

fun span_duration :: "span \<Rightarrow> nat" where
  "span_duration Per_Minute = MINUTE"
| "span_duration Per_Day = DAY"

fun token_limit :: "span \<Rightarrow> quota_limits \<Rightarrow> nat option" where
  "token_limit Per_Minute l = tokens_per_minute l"
| "token_limit Per_Day l = tokens_per_day l"

fun request_limit :: "span \<Rightarrow> quota_limits \<Rightarrow> nat option" where
  "request_limit Per_Minute l = requests_per_minute l"
| "request_limit Per_Day l = requests_per_day l"

text \<open>The configured limits are 64-bit values.\<close>

definition limits_fit :: "quota_limits \<Rightarrow> bool" where
  "limits_fit l \<longleftrightarrow>
     (\<forall>x \<in> set_option (requests_per_minute l) \<union> set_option (requests_per_day l) \<union>
            set_option (tokens_per_minute l) \<union> set_option (tokens_per_day l). x \<le> U64_MAX)"

lemma limits_fit_token: "limits_fit l \<Longrightarrow> token_limit k l = Some m \<Longrightarrow> m \<le> U64_MAX"
  by (cases k) (auto simp: limits_fit_def)

lemma limits_fit_request: "limits_fit l \<Longrightarrow> request_limit k l = Some m \<Longrightarrow> m \<le> U64_MAX"
  by (cases k) (auto simp: limits_fit_def)

lemma win_state_roll [simp]: "win k (state_roll now q) = window_roll now (span_duration k) (win k q)"
  by (cases k) (simp_all add: state_roll_def)

lemma state_roll_keeps [simp]:
  "q_limits (state_roll now q) = q_limits q" "q_poisoned (state_roll now q) = q_poisoned q"
  by (simp_all add: state_roll_def)

lemma ratio_le_0_iff: "ratio limit used \<le> 0 \<longleftrightarrow> limit \<le> used"
  by (auto simp: ratio_def saturating_sub_def divide_le_0_iff)

text \<open>The headroom test is the integer comparison of every configured limit with its use.\<close>

definition window_open :: "span \<Rightarrow> quota_state \<Rightarrow> bool" where
  "window_open k q \<longleftrightarrow>
     (\<forall>m. request_limit k (q_limits q) = Some m \<longrightarrow> w_requests (win k q) < m) \<and>
     (\<forall>m. token_limit k (q_limits q) = Some m \<longrightarrow>
        \<not> w_unknown (win k q) \<and> saturating_add U64_MAX (w_tokens (win k q)) (w_reserved (win k q)) < m)"

definition no_headroom :: "rat option \<Rightarrow> bool" where
  "no_headroom h \<longleftrightarrow> (case h of None \<Rightarrow> False | Some value \<Rightarrow> value \<le> 0)"

lemma no_headroom_simps [simp]: "\<not> no_headroom None" "no_headroom (Some x) \<longleftrightarrow> x \<le> 0"
  by (simp_all add: no_headroom_def)

lemma no_headroom_min_or: "no_headroom (min_or a b) \<longleftrightarrow> no_headroom a \<or> no_headroom b"
  by (auto simp: no_headroom_def min_or_def min_le_iff_disj split: option.splits)

lemma no_headroom_window:
  "no_headroom (window_headroom (request_limit k (q_limits q)) (token_limit k (q_limits q)) (win k q))
    \<longleftrightarrow> \<not> window_open k q"
  by (cases "request_limit k (q_limits q)"; cases "token_limit k (q_limits q)")
     (auto simp: window_headroom_def no_headroom_min_or window_open_def ratio_le_0_iff not_less)

lemma no_headroom_state: "no_headroom (state_headroom q) \<longleftrightarrow> (\<exists>k. \<not> window_open k q)"
proof -
  have "no_headroom (state_headroom q) \<longleftrightarrow> \<not> window_open Per_Minute q \<or> \<not> window_open Per_Day q"
    using no_headroom_window [of Per_Minute q] no_headroom_window [of Per_Day q]
    by (simp add: state_headroom_def no_headroom_min_or)
  then show ?thesis by (metis span.exhaust)
qed

lemma remaining_tokens_le:
  assumes "remaining_tokens q = Some rest" and "token_limit k (q_limits q) = Some m"
  shows "rest \<le> m - saturating_add U64_MAX (w_tokens (win k q)) (w_reserved (win k q))"
  using assms by (cases k) (auto simp: remaining_tokens_def Let_def saturating_sub_def split: option.splits)

lemma remaining_tokens_None: "remaining_tokens q = None \<Longrightarrow> token_limit k (q_limits q) = None"
  by (cases k) (auto simp: remaining_tokens_def Let_def split: option.splits)

text \<open>A granted reservation, uniformly in the window.\<close>

lemma reserve_at_Ok:
  assumes "reserve_at rid mo now q = (q', Ok rv)"
  defines "q0 \<equiv> state_roll now q"
  shows "\<not> q_poisoned q" and "\<And>k. window_open k q0"
    and "\<And>k. win k q' = window_admit (rv_reserved rv) (win k q0)"
    and "\<And>k. span_start k rv = w_start (win k q0)"
    and "\<And>k m. token_limit k (q_limits q) = Some m \<Longrightarrow>
           rv_reserved rv \<le> m - saturating_add U64_MAX (w_tokens (win k q0)) (w_reserved (win k q0))"
    and "q_limits q' = q_limits q" and "q_poisoned q' = q_poisoned q"
    and "\<not> rv_finished rv" and "\<not> rv_execution_started rv"
proof -
  define r where "r = rv_reserved rv"
  have np: "\<not> q_poisoned q" and hr: "\<not> no_headroom (state_headroom q0)"
    using assms by (auto simp: reserve_at_def no_headroom_def Let_def split: if_splits)
  then have body: "q' = q0\<lparr>q_minute := window_admit r (q_minute q0), q_day := window_admit r (q_day q0)\<rparr>"
      "rv = \<lparr>rv_starts = (w_start (q_minute q0), w_start (q_day q0)), rv_reserved = r,
             rv_execution_started = False, rv_finished = False\<rparr>"
      "\<forall>rest. remaining_tokens q0 = Some rest \<longrightarrow> r \<le> rest"
    using assms(1)
    by (auto simp: r_def reserve_at_def no_headroom_def Let_def not_less q0_def split: if_splits option.splits)
  show "\<not> q_poisoned q" by (fact np)
  show "window_open k q0" for k using hr no_headroom_state by blast
  show "win k q' = window_admit (rv_reserved rv) (win k q0)" for k
    unfolding r_def [symmetric] by (cases k) (simp_all add: body(1))
  show "span_start k rv = w_start (win k q0)" for k
    by (subst body(2), cases k) simp_all
  show "rv_reserved rv \<le> m - saturating_add U64_MAX (w_tokens (win k q0)) (w_reserved (win k q0))"
    if "token_limit k (q_limits q) = Some m" for k m
  proof -
    have lim: "token_limit k (q_limits q0) = Some m" using that by (simp add: q0_def)
    then obtain rest where "remaining_tokens q0 = Some rest"
      using remaining_tokens_None by (metis not_None_eq option.distinct(1))
    with body(3) lim remaining_tokens_le show ?thesis unfolding r_def by (meson le_trans)
  qed
  show "q_limits q' = q_limits q" "q_poisoned q' = q_poisoned q" by (simp_all add: body(1) q0_def)
  show "\<not> rv_finished rv" "\<not> rv_execution_started rv" by (subst body(2), simp)+
qed

lemma reserve_at_Err:
  assumes "reserve_at rid mo now q = (q', Err e)"
  shows "q' = (if q_poisoned q then q else state_roll now q)" "e = Route_Quota_Exhausted rid"
  using assms by (auto simp: reserve_at_def Let_def split: if_splits option.splits)

lemma settle_win:
  "win k (snd (settle tokens rv q)) =
     (if rv_finished rv \<or> q_poisoned q then win k q
      else window_settle tokens (rv_reserved rv) (span_start k rv) (win k q))"
  by (cases k) (simp_all add: settle_def)

lemma settle_keeps [simp]:
  "q_limits (snd (settle tokens rv q)) = q_limits q" "q_poisoned (snd (settle tokens rv q)) = q_poisoned q"
  "rv_finished (fst (settle tokens rv q))" "rv_reserved (fst (settle tokens rv q)) = rv_reserved rv"
  "span_start k (fst (settle tokens rv q)) = span_start k rv"
  by (cases k; simp add: settle_def)+

section \<open>Conservation of reservations\<close>

text \<open>Tokens held by the unfinished reservations of the window that started at \<open>t\<close>, and the number
  of reservations ever granted in it.\<close>

definition held :: "span \<Rightarrow> nat \<Rightarrow> reservation \<Rightarrow> nat" where
  "held k t rv = (if \<not> rv_finished rv \<and> span_start k rv = t then rv_reserved rv else 0)"

definition outstanding_tokens :: "span \<Rightarrow> nat \<Rightarrow> reservation list \<Rightarrow> nat" where
  "outstanding_tokens k t rvs = sum_list (map (held k t) rvs)"

definition granted :: "span \<Rightarrow> nat \<Rightarrow> reservation list \<Rightarrow> nat" where
  "granted k t rvs = count_if (\<lambda>rv. span_start k rv = t) rvs"

lemma outstanding_update:
  "i < length rvs \<Longrightarrow>
   outstanding_tokens k t (rvs[i := rv]) + held k t (rvs ! i) = outstanding_tokens k t rvs + held k t rv"
proof (induction rvs arbitrary: i)
  case Nil
  then show ?case by simp
next
  case (Cons x xs)
  then show ?case by (cases i) (auto simp: outstanding_tokens_def)
qed

lemma outstanding_append: "outstanding_tokens k t (rvs @ [rv]) = outstanding_tokens k t rvs + held k t rv"
  by (simp add: outstanding_tokens_def)

lemma granted_append: "granted k t (rvs @ [rv]) = granted k t rvs + (if span_start k rv = t then 1 else 0)"
  by (simp add: granted_def count_if_def)

lemma granted_update:
  assumes "i < length rvs" and "span_start k rv = span_start k (rvs ! i)"
  shows "granted k t (rvs[i := rv]) = granted k t rvs"
  using count_if_update [OF assms(1), of "\<lambda>rv. span_start k rv = t" rv] assms(2)
  by (simp add: granted_def)

lemma nothing_held:
  "(\<And>rv. rv \<in> set rvs \<Longrightarrow> span_start k rv < t) \<Longrightarrow> outstanding_tokens k t rvs = 0 \<and> granted k t rvs = 0"
  by (induction rvs) (fastforce simp: outstanding_tokens_def granted_def count_if_def held_def)+

definition token_inv :: "span \<Rightarrow> quota_state \<Rightarrow> reservation list \<Rightarrow> bool" where
  "token_inv k q rvs \<longleftrightarrow>
     (\<forall>m. token_limit k (q_limits q) = Some m \<longrightarrow> \<not> q_poisoned q \<longrightarrow>
        w_reserved (win k q) = outstanding_tokens k (w_start (win k q)) rvs \<and> w_reserved (win k q) \<le> m)"

definition request_inv :: "span \<Rightarrow> quota_state \<Rightarrow> reservation list \<Rightarrow> bool" where
  "request_inv k q rvs \<longleftrightarrow>
     (\<forall>m. request_limit k (q_limits q) = Some m \<longrightarrow>
        w_requests (win k q) = granted k (w_start (win k q)) rvs \<and> (\<forall>t. granted k t rvs \<le> m))"

definition window_inv :: "span \<Rightarrow> quota_state \<Rightarrow> reservation list \<Rightarrow> bool" where
  "window_inv k q rvs \<longleftrightarrow>
     (\<forall>rv \<in> set rvs. span_start k rv \<le> w_start (win k q)) \<and> token_inv k q rvs \<and> request_inv k q rvs"

lemma span_duration_pos: "0 < span_duration k"
  by (cases k) (simp_all add: MINUTE_def DAY_def)

lemma window_roll_cases:
  assumes "0 < d"
  obtains "window_roll now d w = w" | "w_start w + d \<le> now" "window_roll now d w = window_new now"
  using assms by (cases "d \<le> now - w_start w") (auto simp: window_roll_def saturating_sub_def intro: that)

lemma window_inv_roll:
  assumes inv: "window_inv k q rvs"
  shows "window_inv k (state_roll now q) rvs"
proof (cases rule: window_roll_cases [OF span_duration_pos [of k], of now "win k q"])
  case 1
  with inv show ?thesis by (auto simp: window_inv_def token_inv_def request_inv_def)
next
  case 2
  have later: "w_start (win k q) < now" using 2(1) span_duration_pos [of k] by linarith
  then have "\<forall>rv \<in> set rvs. span_start k rv < now" using inv by (auto simp: window_inv_def)
  then have "outstanding_tokens k now rvs = 0 \<and> granted k now rvs = 0" by (intro nothing_held) blast
  with inv 2(2) later show ?thesis
    by (auto simp: window_inv_def token_inv_def request_inv_def window_new_def)
qed

lemma window_inv_admit:
  assumes inv: "window_inv k q rvs" and fit: "limits_fit (q_limits q)"
    and ok: "reserve_at rid mo now q = (q', Ok rv)"
  shows "window_inv k q' (rvs @ [rv])"
proof -
  define q0 where "q0 = state_roll now q"
  have inv0: "window_inv k q0 rvs" unfolding q0_def by (rule window_inv_roll [OF inv])
  note r = reserve_at_Ok [OF ok, folded q0_def]
  have st: "w_start (win k q') = w_start (win k q0)" by (simp add: r(3) window_admit_def)
  have lim: "q_limits q0 = q_limits q" by (simp add: q0_def)
  have "token_inv k q' (rvs @ [rv])"
    unfolding token_inv_def
  proof (intro allI impI)
    fix m assume tl: "token_limit k (q_limits q') = Some m"
    have tl0: "token_limit k (q_limits q0) = Some m" using tl by (simp add: lim r(6))
    have m: "m \<le> U64_MAX" using limits_fit_token [OF fit] tl by (simp add: r(6))
    have res: "w_reserved (win k q0) = outstanding_tokens k (w_start (win k q0)) rvs" "w_reserved (win k q0) \<le> m"
      using inv0 tl0 r(1) by (auto simp: window_inv_def token_inv_def q0_def)
    have "rv_reserved rv \<le> m - saturating_add U64_MAX (w_tokens (win k q0)) (w_reserved (win k q0))"
      using r(5) tl by (simp add: r(6))
    then have "w_reserved (win k q0) + rv_reserved rv \<le> m"
      using res(2) m by (simp add: saturating_add_def min_def split: if_splits)
    with res m show "w_reserved (win k q') = outstanding_tokens k (w_start (win k q')) (rvs @ [rv]) \<and> w_reserved (win k q') \<le> m"
      using r(8) r(4) [of k]
      by (simp add: st outstanding_append held_def) (simp add: r(3) window_admit_def saturating_add_def)
  qed
  moreover have "request_inv k q' (rvs @ [rv])"
    unfolding request_inv_def
  proof (intro allI impI)
    fix m assume rl: "request_limit k (q_limits q') = Some m"
    have rl0: "request_limit k (q_limits q0) = Some m" using rl by (simp add: lim r(6))
    have m: "m \<le> U64_MAX" using limits_fit_request [OF fit] rl by (simp add: r(6))
    have eq: "w_requests (win k q0) = granted k (w_start (win k q0)) rvs" and le: "\<forall>t. granted k t rvs \<le> m"
      using inv0 rl0 by (auto simp: window_inv_def request_inv_def)
    have lt: "w_requests (win k q0) < m" using r(2) [of k] rl0 by (simp add: window_open_def)
    have "w_requests (win k q') = granted k (w_start (win k q')) (rvs @ [rv])"
      using eq lt m r(4) [of k] unfolding st
      by (simp add: granted_append) (simp add: r(3) window_admit_def saturating_add_def)
    moreover have "granted k t (rvs @ [rv]) \<le> m" for t
      using le eq lt r(4) [of k] by (auto simp: granted_append Suc_le_eq)
    ultimately show "w_requests (win k q') = granted k (w_start (win k q')) (rvs @ [rv]) \<and>
        (\<forall>t. granted k t (rvs @ [rv]) \<le> m)" by blast
  qed
  moreover have "\<forall>x \<in> set (rvs @ [rv]). span_start k x \<le> w_start (win k q')"
    using inv0 r(4) [of k] by (simp add: window_inv_def st)
  ultimately show ?thesis by (simp add: window_inv_def)
qed

lemma window_settle_fields [simp]:
  "w_start (window_settle tokens n start w) = w_start w"
  "w_requests (window_settle tokens n start w) = w_requests w"
  "w_reserved (window_settle tokens n start w) = (if w_start w = start then w_reserved w - n else w_reserved w)"
  by (simp_all add: window_settle_def Let_def saturating_sub_def split: option.splits)

lemma settle_win_fields:
  "w_start (win k (snd (settle tokens rv q))) = w_start (win k q)"
  "w_requests (win k (snd (settle tokens rv q))) = w_requests (win k q)"
  by (simp_all add: settle_win)

lemma window_inv_settle:
  assumes inv: "window_inv k q rvs" and i: "i < length rvs"
  shows "window_inv k (snd (settle tokens (rvs ! i) q)) (rvs[i := fst (settle tokens (rvs ! i) q)])"
    (is "window_inv k ?q ?rvs")
proof -
  let ?rv = "rvs ! i"
  have rv: "?rv \<in> set rvs" using i by simp
  have starts: "\<forall>x \<in> set ?rvs. span_start k x \<le> w_start (win k ?q)"
  proof
    fix x assume "x \<in> set ?rvs"
    then have "x = fst (settle tokens ?rv q) \<or> x \<in> set rvs" using set_update_subset_insert by fastforce
    then show "span_start k x \<le> w_start (win k ?q)"
      using inv rv by (auto simp: window_inv_def settle_win_fields)
  qed
  have "request_inv k ?q ?rvs"
    using inv granted_update [OF i, of k "fst (settle tokens ?rv q)"]
    by (simp add: window_inv_def request_inv_def settle_win_fields)
  moreover have "token_inv k ?q ?rvs"
    unfolding token_inv_def
  proof (intro allI impI)
    fix m assume tl: "token_limit k (q_limits ?q) = Some m" and np: "\<not> q_poisoned ?q"
    then have res: "w_reserved (win k q) = outstanding_tokens k (w_start (win k q)) rvs" "w_reserved (win k q) \<le> m"
      using inv by (auto simp: window_inv_def token_inv_def)
    have "outstanding_tokens k (w_start (win k q)) ?rvs + held k (w_start (win k q)) ?rv =
          outstanding_tokens k (w_start (win k q)) rvs"
      using outstanding_update [OF i, of k "w_start (win k q)" "fst (settle tokens ?rv q)"]
      by (simp add: held_def)
    with res np show "w_reserved (win k ?q) = outstanding_tokens k (w_start (win k ?q)) ?rvs \<and> w_reserved (win k ?q) \<le> m"
      by (auto simp: settle_win_fields) (auto simp: settle_win held_def split: if_splits)
  qed
  ultimately show ?thesis using starts by (simp add: window_inv_def)
qed

definition quota_inv :: "quota_limits \<Rightarrow> quota_sys \<Rightarrow> bool" where
  "quota_inv limits s \<longleftrightarrow> q_limits (qs_quota s) = limits \<and> (\<forall>k. window_inv k (qs_quota s) (qs_rv s))"

lemma quota_inv_start:
  assumes "quota_inv limits s" and i: "i < length (qs_rv s)"
  shows "quota_inv limits (s\<lparr>qs_rv := (qs_rv s)[i := start_execution (qs_rv s ! i)]\<rparr>)"
proof -
  let ?rvs = "qs_rv s" and ?rv = "start_execution (qs_rv s ! i)"
  have same: "span_start k ?rv = span_start k (?rvs ! i)" "held k t ?rv = held k t (?rvs ! i)" for k t
    by (cases k; simp add: start_execution_def held_def)+
  have "set (?rvs[i := ?rv]) \<subseteq> insert ?rv (set ?rvs)" by (rule set_update_subset_insert)
  moreover have "?rvs ! i \<in> set ?rvs" using i by simp
  moreover have "outstanding_tokens k t (?rvs[i := ?rv]) = outstanding_tokens k t ?rvs" for k t
    using outstanding_update [OF i, of k t ?rv] same by simp
  moreover have "granted k t (?rvs[i := ?rv]) = granted k t ?rvs" for k t
    by (rule granted_update [OF i same(1)])
  ultimately show ?thesis
    using assms(1) same(1)
    by (simp add: quota_inv_def window_inv_def token_inv_def request_inv_def) (metis (no_types) insertE subsetD)
qed

lemma quota_inv_settle:
  assumes "quota_inv limits s" and "i < length (qs_rv s)"
  shows "quota_inv limits \<lparr>qs_quota = snd (settle tokens (qs_rv s ! i) (qs_quota s)),
           qs_rv = (qs_rv s)[i := fst (settle tokens (qs_rv s ! i) (qs_quota s))]\<rparr>"
  using assms window_inv_settle by (simp add: quota_inv_def)

lemma quota_inv_exec:
  assumes inv: "quota_inv limits s" and fit: "limits_fit limits"
  shows "quota_inv limits (quota_exec c s)"
proof (cases c)
  case (Q_Reserve rid m now)
  obtain q r where eq: "reserve_at rid m now (qs_quota s) = (q, r)" by fastforce
  show ?thesis
  proof (cases r)
    case (Ok rv)
    have "window_inv k q (qs_rv s @ [rv])" for k
      by (rule window_inv_admit [OF _ _ eq [unfolded Ok]]) (use inv fit in \<open>auto simp: quota_inv_def\<close>)
    with eq inv reserve_at_Ok(6) [OF eq [unfolded Ok]] show ?thesis
      by (simp add: Q_Reserve Ok quota_inv_def)
  next
    case (Err e)
    with eq inv window_inv_roll reserve_at_Err(1) [OF eq [unfolded Err]] show ?thesis
      by (simp add: Q_Reserve quota_inv_def)
  qed
next
  case (Q_Headroom now)
  with inv window_inv_roll show ?thesis by (simp add: quota_inv_def quota_headroom_def Let_def)
next
  case (Q_Start i)
  with inv quota_inv_start show ?thesis by simp
next
  case (Q_Settle i tokens)
  with quota_inv_settle [OF inv] show ?thesis using inv by (simp add: case_prod_beta)
next
  case (Q_Drop i)
  with quota_inv_settle [OF inv] show ?thesis using inv by (simp add: case_prod_beta reservation_drop_def)
next
  case Q_Poison
  have "win k (qs_quota s\<lparr>q_poisoned := True\<rparr>) = win k (qs_quota s)" for k by (cases k) simp_all
  with inv Q_Poison show ?thesis
    by (simp add: quota_inv_def window_inv_def token_inv_def request_inv_def)
qed

lemma quota_inv_run:
  assumes fit: "limits_fit limits"
  shows "quota_inv limits (quota_run limits now calls)"
proof -
  have "quota_inv limits (fold quota_exec calls s)" if "quota_inv limits s" for s
    using that by (induction calls arbitrary: s) (simp_all add: quota_inv_exec [OF _ fit])
  moreover have "quota_inv limits \<lparr>qs_quota = quota_new limits now, qs_rv = []\<rparr>"
  proof -
    have "win k (quota_new limits now) = window_new now" for k by (cases k) (simp_all add: quota_new_def)
    then show ?thesis
      by (simp add: quota_inv_def window_inv_def token_inv_def request_inv_def window_new_def
          outstanding_tokens_def granted_def count_if_def quota_new_def)
  qed
  ultimately show ?thesis by (simp add: quota_run_def)
qed

section \<open>Properties\<close>

lemma reserve_at_tokens:
  assumes ok: "reserve_at rid mo now q = (q', Ok rv)" and fit: "limits_fit (q_limits q)"
    and tl: "token_limit k (q_limits q) = Some m"
  shows "w_tokens (win k q') + w_reserved (win k q') \<le> m" and "\<not> w_unknown (win k q')"
proof -
  define q0 where "q0 = state_roll now q"
  note r = reserve_at_Ok [OF ok, folded q0_def]
  have m: "m \<le> U64_MAX" using limits_fit_token [OF fit] tl by simp
  have tl0: "token_limit k (q_limits q0) = Some m" using tl by (simp add: q0_def)
  then have "saturating_add U64_MAX (w_tokens (win k q0)) (w_reserved (win k q0)) < m"
    and u: "\<not> w_unknown (win k q0)"
    using r(2) [of k] by (simp_all add: window_open_def)
  moreover from this m have "saturating_add U64_MAX (w_tokens (win k q0)) (w_reserved (win k q0)) =
      w_tokens (win k q0) + w_reserved (win k q0)"
    by (simp add: saturating_add_def)
  ultimately have "w_tokens (win k q0) + w_reserved (win k q0) + rv_reserved rv \<le> m"
    using r(5) [of k m] tl by linarith
  then show "w_tokens (win k q') + w_reserved (win k q') \<le> m"
    by (simp add: r(3) window_admit_def saturating_add_def)
  show "\<not> w_unknown (win k q')" using u by (simp add: r(3) window_admit_def)
qed

lemma quota_run_limits: "limits_fit limits \<Longrightarrow> q_limits (qs_quota (quota_run limits now calls)) = limits"
  using quota_inv_run by (simp add: quota_inv_def)

text \<open>A closed window stays closed until it rolls.\<close>

lemma closed_window_rejects:
  assumes "\<not> window_open k (state_roll now q)"
  shows "\<exists>q'. reserve_at rid mo now q = (q', Err (Route_Quota_Exhausted rid))"
proof (cases "reserve_at rid mo now q")
  case (Pair q' r)
  then show ?thesis
  proof (cases r)
    case (Ok rv)
    with Pair assms reserve_at_Ok(2) [of rid mo now q q' rv] show ?thesis by simp
  next
    case (Err e)
    with Pair reserve_at_Err(2) show ?thesis by blast
  qed
qed

lemma window_roll_early: "now < w_start w + d \<Longrightarrow> 0 < d \<Longrightarrow> window_roll now d w = w"
  by (auto simp: window_roll_def saturating_sub_def)

lemma unknown_settle_closes:
  assumes "\<not> rv_finished rv" "\<not> q_poisoned q" "w_start (win k q) = span_start k rv"
    and "token_limit k (q_limits q) = Some m" and "now < span_start k rv + span_duration k"
  shows "\<not> window_open k (state_roll now (snd (settle None rv q)))"
proof -
  have "win k (state_roll now (snd (settle None rv q))) = win k (snd (settle None rv q))"
    using assms by (simp add: window_roll_early settle_win_fields span_duration_pos)
  with assms show ?thesis by (simp add: window_open_def settle_win window_settle_def)
qed

definition demo_limits :: quota_limits where
  "demo_limits = \<lparr>requests_per_minute = Some 2, requests_per_day = None,
                  tokens_per_minute = Some 100, tokens_per_day = None\<rparr>"

definition demo_calls :: "quota_call list" where
  "demo_calls = [Q_Reserve ''a'' (Some 20) 5, Q_Reserve ''b'' (Some 30) 7, Q_Start 0, Q_Settle 0 (Some 12)]"

lemmas quota_exec_defs =
  demo_limits_def demo_calls_def quota_run_def quota_new_def reserve_at_def state_roll_def
  window_roll_def window_new_def state_headroom_def window_headroom_def ratio_def min_or_def
  remaining_tokens_def window_admit_def settle_def window_settle_def start_execution_def
  saturating_add_def saturating_sub_def U64_MAX_def MINUTE_def DAY_def Let_def

lemma demo_limits_fit: "limits_fit demo_limits"
  by (simp add: limits_fit_def demo_limits_def U64_MAX_def)

lemma demo_quota:
  "quota_run demo_limits 0 demo_calls =
     \<lparr>qs_quota = \<lparr>q_limits = demo_limits,
        q_minute = \<lparr>w_start = 0, w_requests = 2, w_tokens = 12, w_reserved = 30, w_unknown = False\<rparr>,
        q_day = \<lparr>w_start = 0, w_requests = 2, w_tokens = 12, w_reserved = 30, w_unknown = False\<rparr>,
        q_poisoned = False\<rparr>,
      qs_rv = [\<lparr>rv_starts = (0, 0), rv_reserved = 20, rv_execution_started = True, rv_finished = True\<rparr>,
               \<lparr>rv_starts = (0, 0), rv_reserved = 30, rv_execution_started = False, rv_finished = False\<rparr>]\<rparr>"
  by (simp add: quota_exec_defs)

text \<open>
  C5. A route never over-commits: whatever requests run on it and however their clock readings
  interleave, no minute and no day window ever grants more reservations than its request limit, and
  right after a grant the charged and reserved tokens of every token-limited window together stay
  within its limit, which no unknown charge has closed.
\<close>

theorem quota_never_overcommits:
  fixes limits :: quota_limits and t0 :: nat and calls :: "quota_call list"
  assumes "limits_fit limits"
  defines "s \<equiv> quota_run limits t0 calls"
  shows "(\<forall>k m t. request_limit k limits = Some m \<longrightarrow> granted k t (qs_rv s) \<le> m) \<and>
    (\<forall>rid mo now q rv k m. reserve_at rid mo now (qs_quota s) = (q, Ok rv) \<longrightarrow> token_limit k limits = Some m \<longrightarrow>
       w_tokens (win k q) + w_reserved (win k q) \<le> m \<and> \<not> w_unknown (win k q))"
proof (intro conjI allI impI)
  fix k m t assume "request_limit k limits = Some m"
  then show "granted k t (qs_rv s) \<le> m"
    using quota_inv_run [OF assms(1), of t0 calls]
    by (simp add: s_def quota_inv_def window_inv_def request_inv_def)
next
  fix rid mo now q rv k m
  assume ok: "reserve_at rid mo now (qs_quota s) = (q, Ok rv)" and tl: "token_limit k limits = Some m"
  have "q_limits (qs_quota s) = limits" using quota_run_limits [OF assms(1)] by (simp add: s_def)
  with assms(1) tl reserve_at_tokens [OF ok]
  show "w_tokens (win k q) + w_reserved (win k q) \<le> m" "\<not> w_unknown (win k q)" by simp_all
qed

theorem quota_never_overcommits_witness:
  "granted Per_Minute 0 (qs_rv (quota_run demo_limits 0 demo_calls)) \<le> 2 \<and>
   qs_rv (quota_run demo_limits 0 demo_calls) \<noteq> []"
proof -
  have "request_limit Per_Minute demo_limits = Some 2" by (simp add: demo_limits_def)
  with conjunct1 [OF quota_never_overcommits [OF demo_limits_fit, of 0 demo_calls]]
  show ?thesis by (simp add: demo_quota)
qed

text \<open>
  C6. Reservations are conserved: in every run whose lock is not poisoned, the reserved counter of a
  token-limited window is exactly the sum of the unfinished reservations made in that window; it
  never saturates, never underflows and stays within the limit, and no reservation belongs to a
  window that lies ahead of the current one.
\<close>

theorem quota_reservations_conserved:
  fixes limits :: quota_limits and t0 :: nat and calls :: "quota_call list"
  assumes "limits_fit limits"
  defines "s \<equiv> quota_run limits t0 calls"
  assumes "\<not> q_poisoned (qs_quota s)" and "token_limit k limits = Some m"
  shows "w_reserved (win k (qs_quota s)) = outstanding_tokens k (w_start (win k (qs_quota s))) (qs_rv s) \<and>
    w_reserved (win k (qs_quota s)) \<le> m \<and>
    (\<forall>rv \<in> set (qs_rv s). span_start k rv \<le> w_start (win k (qs_quota s)))"
proof -
  have "window_inv k (qs_quota s) (qs_rv s)" "q_limits (qs_quota s) = limits"
    using quota_inv_run [OF assms(1), of t0 calls] by (simp_all add: quota_inv_def s_def)
  with assms(3,4) show ?thesis unfolding window_inv_def token_inv_def by blast
qed

theorem quota_reservations_conserved_witness:
  "outstanding_tokens Per_Minute 0 (qs_rv (quota_run demo_limits 0 demo_calls)) = 30"
proof -
  have "\<not> q_poisoned (qs_quota (quota_run demo_limits 0 demo_calls))" by (simp add: demo_quota)
  moreover have "token_limit Per_Minute demo_limits = Some 100" by (simp add: demo_limits_def)
  ultimately show ?thesis
    using quota_reservations_conserved [OF demo_limits_fit, of 0 demo_calls Per_Minute 100]
    by (simp add: demo_quota)
qed

text \<open>
  Settlement: a reservation is settled at most once; it leaves a window that has rolled since
  untouched; dropped before execution it returns its tokens and nothing else; and a charge that is
  not known exactly (an error, inexact usage, an overflowing sum, or a drop after execution began)
  closes a token-limited window, so that every further reservation is refused until the window rolls.
\<close>

theorem quota_settlement:
  assumes np: "\<not> q_poisoned q" and nf: "\<not> rv_finished rv"
  shows "settle tokens' (fst (settle tokens rv q)) q' = (fst (settle tokens rv q), q') \<and>
    (w_start (win k q) \<noteq> span_start k rv \<longrightarrow> win k (snd (settle tokens rv q)) = win k q) \<and>
    (w_start (win k q) = span_start k rv \<longrightarrow>
      (\<not> rv_execution_started rv \<longrightarrow> w_tokens (win k q) \<le> U64_MAX \<longrightarrow>
        win k (snd (reservation_drop rv q)) = (win k q)\<lparr>w_reserved := w_reserved (win k q) - rv_reserved rv\<rparr>) \<and>
      (now < span_start k rv + span_duration k \<longrightarrow> token_limit k (q_limits q) = Some m \<longrightarrow>
        (reported_tokens r = None \<longrightarrow>
          (\<exists>q'. reserve_at rid mo now (snd (finish r rv q)) = (q', Err (Route_Quota_Exhausted rid)))) \<and>
        (rv_execution_started rv \<longrightarrow>
          (\<exists>q'. reserve_at rid mo now (snd (reservation_drop rv q)) = (q', Err (Route_Quota_Exhausted rid))))))"
proof (intro conjI impI)
  show "settle tokens' (fst (settle tokens rv q)) q' = (fst (settle tokens rv q), q')"
    by (simp add: settle_def)
next
  assume "w_start (win k q) \<noteq> span_start k rv"
  then show "win k (snd (settle tokens rv q)) = win k q" by (simp add: settle_win window_settle_def)
next
  assume "w_start (win k q) = span_start k rv" "\<not> rv_execution_started rv" "w_tokens (win k q) \<le> U64_MAX"
  then show "win k (snd (reservation_drop rv q)) = (win k q)\<lparr>w_reserved := w_reserved (win k q) - rv_reserved rv\<rparr>"
    using np nf
    by (simp add: reservation_drop_def settle_win window_settle_def Let_def saturating_add_def saturating_sub_def)
next
  assume w: "w_start (win k q) = span_start k rv" "token_limit k (q_limits q) = Some m"
    "now < span_start k rv + span_duration k"
  have closed: "\<exists>q'. reserve_at rid mo now (snd (settle None rv q)) = (q', Err (Route_Quota_Exhausted rid))"
    by (rule closed_window_rejects [OF unknown_settle_closes [OF nf np w]])
  show "\<exists>q'. reserve_at rid mo now (snd (finish r rv q)) = (q', Err (Route_Quota_Exhausted rid))"
    if "reported_tokens r = None" using closed by (simp add: finish_def that)
  show "\<exists>q'. reserve_at rid mo now (snd (reservation_drop rv q)) = (q', Err (Route_Quota_Exhausted rid))"
    if "rv_execution_started rv" using closed by (simp add: reservation_drop_def that)
qed

definition demo_rv :: reservation where
  "demo_rv = \<lparr>rv_starts = (0, 0), rv_reserved = 20, rv_execution_started = True, rv_finished = False\<rparr>"

theorem quota_settlement_witness:
  "\<exists>q'. reserve_at ''c'' (Some 1) 9 (snd (reservation_drop demo_rv (quota_new demo_limits 0))) =
     (q', Err (Route_Quota_Exhausted ''c''))"
proof -
  have "\<not> q_poisoned (quota_new demo_limits 0)" "\<not> rv_finished demo_rv"
    by (simp_all add: quota_new_def demo_rv_def)
  note settlement = quota_settlement [OF this, where k = Per_Minute]
  have "w_start (win Per_Minute (quota_new demo_limits 0)) = span_start Per_Minute demo_rv"
    "(9::nat) < span_start Per_Minute demo_rv + span_duration Per_Minute"
    "token_limit Per_Minute (q_limits (quota_new demo_limits 0)) = Some 100"
    "rv_execution_started demo_rv"
    by (simp_all add: demo_rv_def quota_new_def demo_limits_def window_new_def MINUTE_def)
  with settlement show ?thesis by blast
qed

end
