(* ===== verification/Speech_Registry.thy ===== *)
theory Speech_Registry
  imports Lifecycle_Spec "HOL-Library.List_Lexorder" "HOL-Library.Char_ord"
begin

text \<open>
  The speech host's operation registry,
  \<open>crates/services/speech/crates/speech-native-host/src/operation_lifecycle.rs\<close>.

  Beyond the gateway's registry it owns the backend attempts of an operation, a bounded progress
  history, the arbitration of a terminal against an accepted cancellation, and a sticky fault flag
  that every failed lock raises. The state behind the two mutexes is \<open>sp_state\<close>: the registry, and
  the released slots as a store from addresses to snapshots. Every method holds the registry mutex
  from its first read to its last write, so each is one function of the state; \<open>sp_locked\<close>,
  \<open>sp_slot_locked\<close> and \<open>sp_with_record\<close> are \<open>lock()?\<close>, \<open>released_lock()?\<close> and \<open>record_mut()?\<close>.
\<close>

section \<open>State\<close>

record sp_identity =
  sid_operation_id :: string
  sid_attempt_id :: string
  sid_sequence :: nat

record sp_snapshot =
  ss_identity :: sp_identity
  ss_phase :: operation_phase
  ss_cancellation_requested :: bool
  ss_terminal :: "terminal_class option"
  ss_progress :: "nat list"

datatype sp_error = Sp_Duplicate | Sp_Exhausted | Sp_Stale | Sp_InvalidTransition | Sp_StateUnavailable

record sp_record =
  sr_identity :: sp_identity
  sr_phase :: operation_phase
  sr_cancellation_requested :: bool
  sr_terminal :: "terminal_class option"
  sr_progress :: "nat list"
  sr_progress_capacity :: nat
  sr_next_attempt_sequence :: nat
  sr_attempts :: "nat \<rightharpoonup> sp_identity"
  sr_released :: nat

record sp_state =
  sp_next_sequence :: nat
  sp_operations :: "string \<rightharpoonup> sp_record"
  sp_poisoned :: bool
  sp_faulted :: bool
  sp_progress_capacity :: nat
  sp_slots :: "nat \<Rightarrow> sp_snapshot option"
  sp_slot_poisoned :: "nat set"
  sp_next_alloc :: nat

record sp_lease =
  sl_identity :: sp_identity
  sl_released :: nat

record sp_guard =
  sg_lease :: sp_lease
  sg_cancel_on_drop :: bool

record sp_attempt =
  at_operation :: sp_identity
  at_identity :: sp_identity

type_synonym 'a sp_result = "sp_state \<times> ('a, sp_error) result"

section \<open>OperationRegistry\<close>

definition sp_new :: "nat \<Rightarrow> nat \<Rightarrow> sp_state" where
  "sp_new next_sequence progress_capacity =
     \<lparr>sp_next_sequence = next_sequence, sp_operations = Map.empty, sp_poisoned = False,
      sp_faulted = False, sp_progress_capacity = progress_capacity, sp_slots = (\<lambda>_. None),
      sp_slot_poisoned = {}, sp_next_alloc = 0\<rparr>"

definition sp_default :: sp_state where
  "sp_default = sp_new 1 32"

definition sp_locked :: "sp_state \<Rightarrow> (sp_state \<Rightarrow> 'a sp_result) \<Rightarrow> 'a sp_result" where
  "sp_locked s f = (if sp_poisoned s then (s\<lparr>sp_faulted := True\<rparr>, Err Sp_StateUnavailable) else f s)"

definition sp_slot_locked :: "nat \<Rightarrow> sp_state \<Rightarrow> (sp_state \<Rightarrow> 'a sp_result) \<Rightarrow> 'a sp_result" where
  "sp_slot_locked a s f =
     (if a \<in> sp_slot_poisoned s then (s\<lparr>sp_faulted := True\<rparr>, Err Sp_StateUnavailable) else f s)"

definition sp_record_mut :: "sp_state \<Rightarrow> sp_identity \<Rightarrow> (sp_record, sp_error) result" where
  "sp_record_mut s identity =
     (case sp_operations s (sid_operation_id identity) of
        None \<Rightarrow> Err Sp_Stale
      | Some r \<Rightarrow> if sr_identity r \<noteq> identity then Err Sp_Stale else Ok r)"

definition sp_with_record :: "sp_identity \<Rightarrow> sp_state \<Rightarrow> (sp_record \<Rightarrow> 'a sp_result) \<Rightarrow> 'a sp_result" where
  "sp_with_record identity s f =
     (case sp_record_mut s identity of Err e \<Rightarrow> (s, Err e) | Ok r \<Rightarrow> f r)"

definition sp_snapshot_of :: "sp_record \<Rightarrow> sp_snapshot" where
  "sp_snapshot_of r =
     \<lparr>ss_identity = sr_identity r, ss_phase = sr_phase r,
      ss_cancellation_requested = sr_cancellation_requested r, ss_terminal = sr_terminal r,
      ss_progress = sr_progress r\<rparr>"

definition sp_operation_identity :: "string \<Rightarrow> nat \<Rightarrow> sp_identity" where
  "sp_operation_identity oid sequence =
     \<lparr>sid_operation_id = oid, sid_attempt_id = ''speech-operation-'' @ show_nat sequence,
      sid_sequence = sequence\<rparr>"

definition sp_reserve_with_capacity :: "string \<Rightarrow> nat \<Rightarrow> sp_state \<Rightarrow> (sp_guard \<times> sp_lease) sp_result" where
  "sp_reserve_with_capacity oid capacity s = sp_locked s (\<lambda>s.
     if sp_operations s oid \<noteq> None then (s, Err Sp_Duplicate)
     else
       (case checked_add U64_MAX (sp_next_sequence s) 1 of
          None \<Rightarrow> (s, Err Sp_Exhausted)
        | Some next_sequence \<Rightarrow>
            let identity = sp_operation_identity oid (sp_next_sequence s);
                addr = sp_next_alloc s;
                lease = \<lparr>sl_identity = identity, sl_released = addr\<rparr>
            in (s\<lparr>sp_next_sequence := next_sequence,
                  sp_next_alloc := Suc addr,
                  sp_operations := (sp_operations s)(oid \<mapsto>
                    \<lparr>sr_identity = identity, sr_phase = Reserved, sr_cancellation_requested = False,
                     sr_terminal = None, sr_progress = [], sr_progress_capacity = capacity,
                     sr_next_attempt_sequence = 1, sr_attempts = Map.empty, sr_released = addr\<rparr>)\<rparr>,
                Ok (\<lparr>sg_lease = lease, sg_cancel_on_drop = True\<rparr>, lease))))"

definition sp_reserve :: "string \<Rightarrow> sp_state \<Rightarrow> (sp_guard \<times> sp_lease) sp_result" where
  "sp_reserve oid s = sp_reserve_with_capacity oid (sp_progress_capacity s) s"

definition sp_active_count :: "sp_state \<Rightarrow> nat sp_result" where
  "sp_active_count s = sp_locked s (\<lambda>s. (s, Ok (card (dom (sp_operations s)))))"

definition sp_current :: "string \<Rightarrow> sp_state \<Rightarrow> sp_snapshot option sp_result" where
  "sp_current oid s = sp_locked s (\<lambda>s. (s, Ok (map_option sp_snapshot_of (sp_operations s oid))))"

definition sp_current_lease :: "string \<Rightarrow> sp_state \<Rightarrow> sp_lease option sp_result" where
  "sp_current_lease oid s = sp_locked s (\<lambda>s.
     (s, Ok (map_option (\<lambda>r. \<lparr>sl_identity = sr_identity r, sl_released = sr_released r\<rparr>)
               (sp_operations s oid))))"

definition sp_request_cancel_all :: "sp_state \<Rightarrow> string list sp_result" where
  "sp_request_cancel_all s = sp_locked s (\<lambda>s.
     (s\<lparr>sp_operations := (\<lambda>oid. map_option (\<lambda>r. r\<lparr>sr_cancellation_requested := True\<rparr>) (sp_operations s oid))\<rparr>,
      Ok (sorted_list_of_set (dom (sp_operations s)))))"

section \<open>OperationLease\<close>

definition sp_put :: "sp_record \<Rightarrow> sp_state \<Rightarrow> sp_state" where
  "sp_put r s = s\<lparr>sp_operations := (sp_operations s)(sid_operation_id (sr_identity r) \<mapsto> r)\<rparr>"

text \<open>The record leaves the registry and its final snapshot goes into the lease's slot.\<close>

definition sp_remove :: "sp_lease \<Rightarrow> sp_record \<Rightarrow> sp_state \<Rightarrow> sp_state" where
  "sp_remove l r s =
     s\<lparr>sp_operations := (sp_operations s)(sid_operation_id (sl_identity l) := None),
       sp_slots := (sp_slots s)(sl_released l := Some (sp_snapshot_of r))\<rparr>"

definition sp_lease_snapshot :: "sp_lease \<Rightarrow> sp_state \<Rightarrow> sp_snapshot option sp_result" where
  "sp_lease_snapshot l s = sp_locked s (\<lambda>s.
     case sp_operations s (sid_operation_id (sl_identity l)) of
       Some r \<Rightarrow> (s, Ok (if sr_identity r = sl_identity l then Some (sp_snapshot_of r) else None))
     | None \<Rightarrow> sp_slot_locked (sl_released l) s (\<lambda>s. (s, Ok (sp_slots s (sl_released l)))))"

definition sp_is_active :: "sp_lease \<Rightarrow> sp_state \<Rightarrow> bool sp_result" where
  "sp_is_active l s =
     (case sp_current (sid_operation_id (sl_identity l)) s of
        (s, Err e) \<Rightarrow> (s, Err e)
      | (s, Ok None) \<Rightarrow> (s, Ok False)
      | (s, Ok (Some snap)) \<Rightarrow> (s, Ok (ss_identity snap = sl_identity l)))"

definition sp_transition :: "operation_phase \<Rightarrow> operation_phase \<Rightarrow> sp_lease \<Rightarrow> sp_state \<Rightarrow> unit sp_result" where
  "sp_transition expected next l s = sp_locked s (\<lambda>s. sp_with_record (sl_identity l) s (\<lambda>r.
     if sr_phase r \<noteq> expected then (s, Err Sp_InvalidTransition)
     else (sp_put (r\<lparr>sr_phase := next\<rparr>) s, Ok ())))"

definition sp_queue :: "sp_lease \<Rightarrow> sp_state \<Rightarrow> unit sp_result" where
  "sp_queue = sp_transition Reserved Queued"

definition sp_start :: "sp_lease \<Rightarrow> sp_state \<Rightarrow> unit sp_result" where
  "sp_start = sp_transition Queued Running"

definition sp_terminal :: "terminal_class \<Rightarrow> sp_lease \<Rightarrow> sp_state \<Rightarrow> unit sp_result" where
  "sp_terminal c l s = sp_locked s (\<lambda>s. sp_with_record (sl_identity l) s (\<lambda>r.
     if sr_phase r \<noteq> Running \<or> sr_terminal r \<noteq> None then (s, Err Sp_InvalidTransition)
     else (sp_put (r\<lparr>sr_terminal := Some c, sr_phase := Terminal\<rparr>) s, Ok ())))"

definition sp_release :: "sp_lease \<Rightarrow> sp_state \<Rightarrow> unit sp_result" where
  "sp_release l s = sp_slot_locked (sl_released l) s (\<lambda>s. sp_locked s (\<lambda>s.
     sp_with_record (sl_identity l) s (\<lambda>r.
       if sr_phase r \<noteq> Terminal \<or> sr_attempts r \<noteq> Map.empty then (s, Err Sp_InvalidTransition)
       else (sp_remove l (r\<lparr>sr_phase := Released\<rparr>) s, Ok ()))))"

definition sp_finish_attempt_and_release_inner ::
  "sp_lease \<Rightarrow> sp_attempt \<Rightarrow> terminal_class \<Rightarrow> bool \<Rightarrow> bool \<Rightarrow> sp_state \<Rightarrow> sp_snapshot sp_result" where
  "sp_finish_attempt_and_release_inner l a c cancellation_wins release s =
     (if at_operation a \<noteq> sl_identity l then (s, Err Sp_Stale)
      else sp_slot_locked (sl_released l) s (\<lambda>s. sp_locked s (\<lambda>s. sp_with_record (sl_identity l) s (\<lambda>r.
        if sr_phase r \<noteq> Running \<or> sr_terminal r \<noteq> None \<or> card (dom (sr_attempts r)) \<noteq> 1 \<or>
           sr_attempts r (sid_sequence (at_identity a)) \<noteq> Some (at_identity a)
        then (s, Err Sp_InvalidTransition)
        else
          let r' = r\<lparr>sr_attempts := (sr_attempts r)(sid_sequence (at_identity a) := None),
                     sr_terminal := Some (if cancellation_wins \<and> sr_cancellation_requested r then Cancelled else c),
                     sr_phase := (if release then Released else Terminal)\<rparr>
          in ((if release then sp_remove l r' s else sp_put r' s), Ok (sp_snapshot_of r'))))))"

definition sp_finish_attempt_and_release ::
  "sp_lease \<Rightarrow> sp_attempt \<Rightarrow> terminal_class \<Rightarrow> sp_state \<Rightarrow> sp_snapshot sp_result" where
  "sp_finish_attempt_and_release l a c = sp_finish_attempt_and_release_inner l a c False True"

definition sp_finish_backend_attempt_and_release ::
  "sp_lease \<Rightarrow> sp_attempt \<Rightarrow> terminal_class \<Rightarrow> sp_state \<Rightarrow> sp_snapshot sp_result" where
  "sp_finish_backend_attempt_and_release l a c = sp_finish_attempt_and_release_inner l a c True True"

definition sp_finish_attempt_terminal ::
  "sp_lease \<Rightarrow> sp_attempt \<Rightarrow> terminal_class \<Rightarrow> bool \<Rightarrow> sp_state \<Rightarrow> sp_snapshot sp_result" where
  "sp_finish_attempt_terminal l a c cancellation_wins =
     sp_finish_attempt_and_release_inner l a c cancellation_wins False"

definition sp_finish_setup_and_release :: "terminal_class \<Rightarrow> sp_lease \<Rightarrow> sp_state \<Rightarrow> sp_snapshot sp_result" where
  "sp_finish_setup_and_release c l s = sp_slot_locked (sl_released l) s (\<lambda>s. sp_locked s (\<lambda>s.
     sp_with_record (sl_identity l) s (\<lambda>r.
       if sr_terminal r \<noteq> None \<or> sr_attempts r \<noteq> Map.empty then (s, Err Sp_InvalidTransition)
       else
         let r' = r\<lparr>sr_terminal := Some c, sr_phase := Released\<rparr>
         in (sp_remove l r' s, Ok (sp_snapshot_of r')))))"

definition sp_fail_setup_and_release :: "sp_lease \<Rightarrow> sp_state \<Rightarrow> sp_snapshot sp_result" where
  "sp_fail_setup_and_release = sp_finish_setup_and_release Failed"

definition sp_cancel_setup_and_release :: "sp_lease \<Rightarrow> sp_state \<Rightarrow> sp_snapshot sp_result" where
  "sp_cancel_setup_and_release = sp_finish_setup_and_release Cancelled"

definition sp_request_cancel_once :: "sp_lease \<Rightarrow> sp_state \<Rightarrow> bool sp_result" where
  "sp_request_cancel_once l s = sp_locked s (\<lambda>s. sp_with_record (sl_identity l) s (\<lambda>r.
     (sp_put (r\<lparr>sr_cancellation_requested := True\<rparr>) s, Ok (\<not> sr_cancellation_requested r))))"

definition sp_request_cancel :: "sp_lease \<Rightarrow> sp_state \<Rightarrow> unit sp_result" where
  "sp_request_cancel l s =
     (case sp_request_cancel_once l s of (t, Ok b) \<Rightarrow> (t, Ok ()) | (t, Err e) \<Rightarrow> (t, Err e))"

text \<open>One push into the bounded history: \<open>pop_front\<close> when full, then \<open>push_back\<close>.\<close>

definition sp_push :: "nat \<Rightarrow> nat \<Rightarrow> nat list \<Rightarrow> nat list" where
  "sp_push capacity sequence progress =
     (if capacity \<noteq> 0
      then (if length progress = capacity then tl progress else progress) @ [sequence]
      else progress)"

definition sp_publish_progress :: "nat \<Rightarrow> sp_lease \<Rightarrow> sp_state \<Rightarrow> unit sp_result" where
  "sp_publish_progress sequence l s = sp_locked s (\<lambda>s. sp_with_record (sl_identity l) s (\<lambda>r.
     if sr_phase r \<noteq> Running \<or> sr_terminal r \<noteq> None then (s, Err Sp_InvalidTransition)
     else (sp_put (r\<lparr>sr_progress := sp_push (sr_progress_capacity r) sequence (sr_progress r)\<rparr>) s, Ok ())))"

definition sp_attempt_identity :: "sp_identity \<Rightarrow> nat \<Rightarrow> sp_identity" where
  "sp_attempt_identity i sequence =
     \<lparr>sid_operation_id = sid_operation_id i,
      sid_attempt_id = sid_attempt_id i @ ''-attempt-'' @ show_nat sequence,
      sid_sequence = sequence\<rparr>"

definition sp_start_attempt :: "sp_lease \<Rightarrow> sp_state \<Rightarrow> sp_attempt sp_result" where
  "sp_start_attempt l s = sp_locked s (\<lambda>s. sp_with_record (sl_identity l) s (\<lambda>r.
     if sr_phase r \<noteq> Running then (s, Err Sp_InvalidTransition)
     else
       let sequence = sr_next_attempt_sequence r in
       (case checked_add U64_MAX sequence 1 of
          None \<Rightarrow> (s, Err Sp_Exhausted)
        | Some next_sequence \<Rightarrow>
            let identity = sp_attempt_identity (sl_identity l) sequence in
            (sp_put (r\<lparr>sr_next_attempt_sequence := next_sequence,
                       sr_attempts := (sr_attempts r)(sequence \<mapsto> identity)\<rparr>) s,
             Ok \<lparr>at_operation = sl_identity l, at_identity = identity\<rparr>))))"

definition sp_active_attempts :: "sp_lease \<Rightarrow> sp_state \<Rightarrow> sp_identity list sp_result" where
  "sp_active_attempts l s = sp_locked s (\<lambda>s. sp_with_record (sl_identity l) s (\<lambda>r.
     (s, Ok (map (\<lambda>k. the (sr_attempts r k)) (sorted_list_of_set (dom (sr_attempts r)))))))"

section \<open>ConsumerGuard and AttemptLease\<close>

definition sp_guard_cancel :: "sp_guard \<Rightarrow> sp_state \<Rightarrow> unit sp_result" where
  "sp_guard_cancel g = sp_request_cancel (sg_lease g)"

definition sp_guard_drop :: "sp_guard \<Rightarrow> sp_state \<Rightarrow> sp_state" where
  "sp_guard_drop g s =
     (if sg_cancel_on_drop g then
        (case sp_request_cancel (sg_lease g) s of
           (t, Err Sp_StateUnavailable) \<Rightarrow> t\<lparr>sp_faulted := True\<rparr>
         | (t, _) \<Rightarrow> t)
      else s)"

definition sp_guard_disarm :: "sp_guard \<Rightarrow> sp_state \<Rightarrow> sp_state" where
  "sp_guard_disarm g = sp_guard_drop (g\<lparr>sg_cancel_on_drop := False\<rparr>)"

definition sp_attempt_cancellation_requested :: "sp_attempt \<Rightarrow> sp_state \<Rightarrow> bool sp_result" where
  "sp_attempt_cancellation_requested a s = sp_locked s (\<lambda>s. sp_with_record (at_operation a) s (\<lambda>r.
     (s, Ok (sr_cancellation_requested r))))"

text \<open>The entry is removed before it is compared with the attempt's identity.\<close>

definition sp_attempt_finish :: "sp_attempt \<Rightarrow> sp_state \<Rightarrow> unit sp_result" where
  "sp_attempt_finish a s = sp_locked s (\<lambda>s. sp_with_record (at_operation a) s (\<lambda>r.
     let k = sid_sequence (at_identity a);
         s' = sp_put (r\<lparr>sr_attempts := (sr_attempts r)(k := None)\<rparr>) s
     in (case sr_attempts r k of
           None \<Rightarrow> (s', Err Sp_Stale)
         | Some current \<Rightarrow> if current = at_identity a then (s', Ok ()) else (s', Err Sp_Stale))))"

section \<open>Runs of the registry\<close>

text \<open>A step is any call that can write, by any holder of any handle, or a panic that poisons a
  mutex. The reading calls differ from these only in the fault flag.\<close>

datatype sp_call =
    SC_Reserve string nat
  | SC_Queue sp_lease
  | SC_Start sp_lease
  | SC_Terminal terminal_class sp_lease
  | SC_Release sp_lease
  | SC_Finish_Attempt sp_lease sp_attempt terminal_class bool bool
  | SC_Finish_Setup terminal_class sp_lease
  | SC_Request_Cancel sp_lease
  | SC_Publish nat sp_lease
  | SC_Start_Attempt sp_lease
  | SC_Attempt_Finish sp_attempt
  | SC_Guard_Drop sp_guard
  | SC_Request_Cancel_All
  | SC_Read sp_lease
  | SC_Poison
  | SC_Poison_Slot nat

fun sp_exec :: "sp_call \<Rightarrow> sp_state \<Rightarrow> sp_state" where
  "sp_exec (SC_Reserve oid n) s = fst (sp_reserve_with_capacity oid n s)"
| "sp_exec (SC_Queue l) s = fst (sp_queue l s)"
| "sp_exec (SC_Start l) s = fst (sp_start l s)"
| "sp_exec (SC_Terminal c l) s = fst (sp_terminal c l s)"
| "sp_exec (SC_Release l) s = fst (sp_release l s)"
| "sp_exec (SC_Finish_Attempt l a c w rel) s = fst (sp_finish_attempt_and_release_inner l a c w rel s)"
| "sp_exec (SC_Finish_Setup c l) s = (if c = Completed then s else fst (sp_finish_setup_and_release c l s))"
| "sp_exec (SC_Request_Cancel l) s = fst (sp_request_cancel l s)"
| "sp_exec (SC_Publish n l) s = fst (sp_publish_progress n l s)"
| "sp_exec (SC_Start_Attempt l) s = fst (sp_start_attempt l s)"
| "sp_exec (SC_Attempt_Finish a) s = fst (sp_attempt_finish a s)"
| "sp_exec (SC_Guard_Drop g) s = sp_guard_drop g s"
| "sp_exec SC_Request_Cancel_All s = fst (sp_request_cancel_all s)"
| "sp_exec (SC_Read l) s = fst (sp_lease_snapshot l s)"
| "sp_exec SC_Poison s = s\<lparr>sp_poisoned := True\<rparr>"
| "sp_exec (SC_Poison_Slot a) s = s\<lparr>sp_slot_poisoned := insert a (sp_slot_poisoned s)\<rparr>"

inductive sp_step :: "sp_state \<Rightarrow> sp_state \<Rightarrow> bool" where
  sp_step: "sp_step s (sp_exec c s)"

section \<open>What a step can do to one operation\<close>

text \<open>How a record that stays in the registry can change.\<close>

definition sp_evolves :: "sp_record \<Rightarrow> sp_record \<Rightarrow> bool" where
  "sp_evolves r r' \<longleftrightarrow>
     sr_identity r' = sr_identity r \<and> sr_released r' = sr_released r \<and>
     sr_progress_capacity r' = sr_progress_capacity r \<and>
     (sr_cancellation_requested r \<longrightarrow> sr_cancellation_requested r') \<and>
     (sr_phase r' = sr_phase r \<and> sr_terminal r' = sr_terminal r \<or>
      sr_phase r = Reserved \<and> sr_phase r' = Queued \<and> sr_terminal r' = sr_terminal r \<or>
      sr_phase r = Queued \<and> sr_phase r' = Running \<and> sr_terminal r' = sr_terminal r \<or>
      sr_phase r = Running \<and> sr_terminal r = None \<and> sr_phase r' = Terminal \<and> sr_terminal r' \<noteq> None) \<and>
     (sr_progress r' = sr_progress r \<or>
      (\<exists>n. sr_phase r = Running \<and> sr_progress r' = sp_push (sr_progress_capacity r) n (sr_progress r))) \<and>
     (sr_attempts r' = sr_attempts r \<and> sr_next_attempt_sequence r' = sr_next_attempt_sequence r \<or>
      (\<exists>k. sr_attempts r' = (sr_attempts r)(k := None) \<and> sr_next_attempt_sequence r' = sr_next_attempt_sequence r) \<or>
      sr_phase r = Running \<and> sr_next_attempt_sequence r' = Suc (sr_next_attempt_sequence r) \<and>
      sr_next_attempt_sequence r' \<le> U64_MAX \<and>
      sr_attempts r' = (sr_attempts r)(sr_next_attempt_sequence r \<mapsto>
        sp_attempt_identity (sr_identity r) (sr_next_attempt_sequence r)))"

text \<open>When a record may leave: no attempt is left but the one that is finished in the same step.\<close>

definition sp_leaves :: "sp_record \<Rightarrow> terminal_class \<Rightarrow> bool" where
  "sp_leaves r c \<longleftrightarrow>
     sr_phase r = Terminal \<and> sr_attempts r = Map.empty \<or>
     sr_terminal r = None \<and> sr_attempts r = Map.empty \<and> c \<noteq> Completed \<or>
     sr_phase r = Running \<and> sr_terminal r = None \<and> card (dom (sr_attempts r)) = 1"

inductive sp_move :: "sp_state \<Rightarrow> sp_state \<Rightarrow> bool" where
  mv_stay: "sp_operations t = sp_operations s \<Longrightarrow> sp_next_sequence t = sp_next_sequence s \<Longrightarrow> sp_move s t"
| mv_put: "sp_operations s (sid_operation_id (sr_identity r)) = Some r \<Longrightarrow> sp_evolves r r' \<Longrightarrow>
    sp_operations t = (sp_operations s)(sid_operation_id (sr_identity r) \<mapsto> r') \<Longrightarrow>
    sp_next_sequence t = sp_next_sequence s \<Longrightarrow> sp_move s t"
| mv_mark: "sp_operations t = (\<lambda>oid. map_option (\<lambda>r. r\<lparr>sr_cancellation_requested := True\<rparr>) (sp_operations s oid)) \<Longrightarrow>
    sp_next_sequence t = sp_next_sequence s \<Longrightarrow> sp_move s t"
| mv_leave: "sp_operations s oid = Some r \<Longrightarrow> sp_leaves r c \<Longrightarrow>
    sp_operations t = (sp_operations s)(oid := None) \<Longrightarrow> sp_next_sequence t = sp_next_sequence s \<Longrightarrow> sp_move s t"
| mv_admit: "sp_operations s oid = None \<Longrightarrow> sp_next_sequence s < U64_MAX \<Longrightarrow>
    sr_identity r = sp_operation_identity oid (sp_next_sequence s) \<Longrightarrow> sr_phase r = Reserved \<Longrightarrow>
    sr_terminal r = None \<Longrightarrow> sr_progress r = [] \<Longrightarrow> sr_attempts r = Map.empty \<Longrightarrow> sr_next_attempt_sequence r = 1 \<Longrightarrow>
    sp_operations t = (sp_operations s)(oid \<mapsto> r) \<Longrightarrow> sp_next_sequence t = Suc (sp_next_sequence s) \<Longrightarrow> sp_move s t"

lemma sp_record_mut_Ok [result_simps]:
  "sp_record_mut s i = Ok r \<longleftrightarrow> sp_operations s (sid_operation_id i) = Some r \<and> sr_identity r = i"
  by (auto simp: sp_record_mut_def split: option.splits)

lemma sp_record_mut_Err [result_simps]:
  "sp_record_mut s i = Err e \<longleftrightarrow>
     e = Sp_Stale \<and> (\<forall>r. sp_operations s (sid_operation_id i) = Some r \<longrightarrow> sr_identity r \<noteq> i)"
  by (auto simp: sp_record_mut_def split: option.splits)

lemma sp_locked_Ok [result_simps]: "sp_locked s f = (t, Ok x) \<longleftrightarrow> \<not> sp_poisoned s \<and> f s = (t, Ok x)"
  by (simp add: sp_locked_def)

lemma sp_slot_locked_Ok [result_simps]:
  "sp_slot_locked a s f = (t, Ok x) \<longleftrightarrow> a \<notin> sp_slot_poisoned s \<and> f s = (t, Ok x)"
  by (simp add: sp_slot_locked_def)

lemma sp_with_record_Ok [result_simps]:
  "sp_with_record i s f = (t, Ok x) \<longleftrightarrow>
     (\<exists>r. sp_operations s (sid_operation_id i) = Some r \<and> sr_identity r = i \<and> f r = (t, Ok x))"
  by (auto simp: sp_with_record_def sp_record_mut_def split: option.splits)

text \<open>Locking and looking up a record give a move as soon as the critical section does.\<close>

lemma sp_move_fault [simp]: "sp_move s (s\<lparr>sp_faulted := b\<rparr>)" "sp_move s s"
  by (auto intro: mv_stay)

lemma sp_locked_move: "(\<not> sp_poisoned s \<Longrightarrow> sp_move s (fst (f s))) \<Longrightarrow> sp_move s (fst (sp_locked s f))"
  by (simp add: sp_locked_def)

lemma sp_slot_locked_move: "sp_move s (fst (f s)) \<Longrightarrow> sp_move s (fst (sp_slot_locked a s f))"
  by (simp add: sp_slot_locked_def)

lemma sp_with_record_move:
  "(\<And>r. sp_operations s (sid_operation_id i) = Some r \<Longrightarrow> sr_identity r = i \<Longrightarrow> sp_move s (fst (f r))) \<Longrightarrow>
   sp_move s (fst (sp_with_record i s f))"
  by (auto simp: sp_with_record_def result_simps split: result.split)

lemma sp_if_move:
  "(b \<Longrightarrow> sp_move s (fst x)) \<Longrightarrow> (\<not> b \<Longrightarrow> sp_move s (fst y)) \<Longrightarrow> sp_move s (fst (if b then x else y))"
  by simp

lemma sp_put_move:
  assumes "sp_operations s (sid_operation_id i) = Some r" and "sr_identity r = i" and "sp_evolves r r'"
  shows "sp_move s (sp_put r' s)"
  by (rule mv_put [of s r r']) (use assms in \<open>auto simp: sp_put_def sp_evolves_def\<close>)

lemma sp_evolves_updates:
  "sp_evolves r (r\<lparr>sr_cancellation_requested := True\<rparr>)"
  "sp_evolves r (r\<lparr>sr_attempts := (sr_attempts r)(k := None)\<rparr>)"
  "sr_phase r = Reserved \<Longrightarrow> sp_evolves r (r\<lparr>sr_phase := Queued\<rparr>)"
  "sr_phase r = Queued \<Longrightarrow> sp_evolves r (r\<lparr>sr_phase := Running\<rparr>)"
  "sr_phase r = Running \<Longrightarrow> sr_terminal r = None \<Longrightarrow> sp_evolves r (r\<lparr>sr_terminal := Some c, sr_phase := Terminal\<rparr>)"
  "sr_phase r = Running \<Longrightarrow> sr_terminal r = None \<Longrightarrow>
     sp_evolves r (r\<lparr>sr_attempts := (sr_attempts r)(k := None), sr_terminal := Some c, sr_phase := Terminal\<rparr>)"
  "sr_phase r = Running \<Longrightarrow> sp_evolves r (r\<lparr>sr_progress := sp_push (sr_progress_capacity r) n (sr_progress r)\<rparr>)"
  "sr_phase r = Running \<Longrightarrow> Suc (sr_next_attempt_sequence r) \<le> U64_MAX \<Longrightarrow>
     sp_evolves r (r\<lparr>sr_next_attempt_sequence := Suc (sr_next_attempt_sequence r),
       sr_attempts := (sr_attempts r)(sr_next_attempt_sequence r \<mapsto>
         sp_attempt_identity (sr_identity r) (sr_next_attempt_sequence r))\<rparr>)"
  by (auto simp: sp_evolves_def)

lemma sp_remove_move:
  assumes "sp_operations s (sid_operation_id (sl_identity l)) = Some r" and "sp_leaves r c"
  shows "sp_move s (sp_remove l r' s)"
  by (rule mv_leave [OF assms]) (simp_all add: sp_remove_def)

lemmas sp_move_intros = sp_locked_move sp_slot_locked_move sp_with_record_move

lemma sp_request_cancel_once_move: "sp_move s (fst (sp_request_cancel_once l s))"
  unfolding sp_request_cancel_once_def
  by (intro sp_move_intros) (auto intro: sp_put_move sp_evolves_updates)

lemma sp_request_cancel_fst: "fst (sp_request_cancel l s) = fst (sp_request_cancel_once l s)"
  by (simp add: sp_request_cancel_def split: prod.split result.split)

lemma sp_guard_drop_move: "sp_move s (sp_guard_drop g s)"
proof -
  obtain t r where eq: "sp_request_cancel (sg_lease g) s = (t, r)" by fastforce
  then have t: "sp_move s t"
    using sp_request_cancel_once_move [of s "sg_lease g"] sp_request_cancel_fst [of "sg_lease g" s] by simp
  moreover have "sp_guard_drop g s = t \<or> sp_guard_drop g s = t\<lparr>sp_faulted := True\<rparr> \<or> sp_guard_drop g s = s"
    using eq by (simp add: sp_guard_drop_def split: result.split sp_error.split)
  moreover have "sp_move s (t\<lparr>sp_faulted := True\<rparr>)"
    using t by (cases rule: sp_move.cases) (auto intro: sp_move.intros)
  ultimately show ?thesis by auto
qed

lemma sp_finish_attempt_move: "sp_move s (fst (sp_finish_attempt_and_release_inner l a c w rel s))"
  unfolding sp_finish_attempt_and_release_inner_def
  by (intro sp_if_move sp_move_intros)
     (auto simp: Let_def sp_leaves_def intro: sp_put_move sp_remove_move sp_evolves_updates)

lemma sp_start_attempt_move: "sp_move s (fst (sp_start_attempt l s))"
  unfolding sp_start_attempt_def
proof (intro sp_move_intros)
  fix r assume r: "sp_operations s (sid_operation_id (sl_identity l)) = Some r" "sr_identity r = sl_identity l"
  have "sp_move s (sp_put (r\<lparr>sr_next_attempt_sequence := Suc (sr_next_attempt_sequence r),
       sr_attempts := (sr_attempts r)(sr_next_attempt_sequence r \<mapsto>
         sp_attempt_identity (sl_identity l) (sr_next_attempt_sequence r))\<rparr>) s)"
    if "sr_phase r = Running" "Suc (sr_next_attempt_sequence r) \<le> U64_MAX"
    using sp_put_move [OF r sp_evolves_updates(8) [OF that]] r(2) by simp
  then show "sp_move s (fst (if sr_phase r \<noteq> Running then (s, Err Sp_InvalidTransition)
     else let sequence = sr_next_attempt_sequence r in
       (case checked_add U64_MAX sequence 1 of
          None \<Rightarrow> (s, Err Sp_Exhausted)
        | Some next_sequence \<Rightarrow>
            let identity = sp_attempt_identity (sl_identity l) sequence in
            (sp_put (r\<lparr>sr_next_attempt_sequence := next_sequence,
                       sr_attempts := (sr_attempts r)(sequence \<mapsto> identity)\<rparr>) s,
             Ok \<lparr>at_operation = sl_identity l, at_identity = identity\<rparr>))))"
    by (simp add: Let_def checked_add_def)
qed

lemma sp_reserve_move: "sp_move s (fst (sp_reserve_with_capacity oid n s))"
  unfolding sp_reserve_with_capacity_def
  by (rule sp_locked_move)
     (simp add: Let_def checked_add_def, intro impI mv_admit [where oid = oid], assumption, rule Suc_le_lessD, simp_all)

lemma sp_exec_move: "sp_move s (sp_exec c s)"
proof (cases c)
  case (SC_Reserve oid n)
  then show ?thesis by (simp add: sp_reserve_move)
next
  case (SC_Queue l)
  show ?thesis unfolding SC_Queue sp_exec.simps sp_queue_def sp_transition_def
    by (intro sp_move_intros) (auto intro: sp_put_move sp_evolves_updates)
next
  case (SC_Start l)
  show ?thesis unfolding SC_Start sp_exec.simps sp_start_def sp_transition_def
    by (intro sp_move_intros) (auto intro: sp_put_move sp_evolves_updates)
next
  case (SC_Terminal d l)
  show ?thesis unfolding SC_Terminal sp_exec.simps sp_terminal_def
    by (intro sp_move_intros) (auto intro: sp_put_move sp_evolves_updates)
next
  case (SC_Release l)
  show ?thesis unfolding SC_Release sp_exec.simps sp_release_def
    by (intro sp_move_intros) (auto intro: sp_remove_move simp: sp_leaves_def)
next
  case (SC_Finish_Attempt l a d w rel)
  then show ?thesis by (simp add: sp_finish_attempt_move)
next
  case (SC_Finish_Setup d l)
  have "sp_move s (fst (sp_finish_setup_and_release d l s))" if "d \<noteq> Completed"
    unfolding sp_finish_setup_and_release_def using that
    by (intro sp_move_intros) (auto intro: sp_remove_move [where c = d] simp: sp_leaves_def Let_def)
  with SC_Finish_Setup show ?thesis by simp
next
  case (SC_Request_Cancel l)
  then show ?thesis by (simp add: sp_request_cancel_fst sp_request_cancel_once_move)
next
  case (SC_Publish n l)
  show ?thesis unfolding SC_Publish sp_exec.simps sp_publish_progress_def
    by (intro sp_move_intros) (auto intro: sp_put_move sp_evolves_updates)
next
  case (SC_Start_Attempt l)
  then show ?thesis by (simp add: sp_start_attempt_move)
next
  case (SC_Attempt_Finish a)
  show ?thesis unfolding SC_Attempt_Finish sp_exec.simps sp_attempt_finish_def
    by (intro sp_move_intros) (auto simp: Let_def intro: sp_put_move sp_evolves_updates split: option.split)
next
  case (SC_Guard_Drop g)
  then show ?thesis by (simp add: sp_guard_drop_move)
next
  case SC_Request_Cancel_All
  show ?thesis unfolding SC_Request_Cancel_All sp_exec.simps sp_request_cancel_all_def
    by (intro sp_move_intros) (auto intro: mv_mark)
next
  case (SC_Read l)
  show ?thesis unfolding SC_Read sp_exec.simps sp_lease_snapshot_def
    by (intro sp_move_intros) (auto simp: sp_slot_locked_def split: option.split)
qed (auto intro: mv_stay)

section \<open>Invariant and simulation\<close>

definition sp_abs_record :: "sp_record \<Rightarrow> live_op" where
  "sp_abs_record r =
     \<lparr>lo_sequence = sid_sequence (sr_identity r), lo_phase = sr_phase r, lo_terminal = sr_terminal r\<rparr>"

definition sp_abs :: "sp_state \<Rightarrow> string lifecycle" where
  "sp_abs s = \<lparr>lc_next = sp_next_sequence s,
     lc_live = (\<lambda>oid. map_option sp_abs_record (sp_operations s oid))\<rparr>"

definition sp_record_ok :: "string \<Rightarrow> sp_record \<Rightarrow> bool" where
  "sp_record_ok oid r \<longleftrightarrow>
     sr_identity r = sp_operation_identity oid (sid_sequence (sr_identity r)) \<and>
     length (sr_progress r) \<le> sr_progress_capacity r \<and>
     finite (dom (sr_attempts r)) \<and>
     1 \<le> sr_next_attempt_sequence r \<and> sr_next_attempt_sequence r \<le> U64_MAX \<and>
     (\<forall>k i. sr_attempts r k = Some i \<longrightarrow>
        i = sp_attempt_identity (sr_identity r) k \<and> 1 \<le> k \<and> k < sr_next_attempt_sequence r) \<and>
     (sr_attempts r \<noteq> Map.empty \<longrightarrow> phase_rank Running \<le> phase_rank (sr_phase r))"

definition sp_inv :: "sp_state \<Rightarrow> bool" where
  "sp_inv s \<longleftrightarrow> lc_inv (sp_abs s) \<and> sp_next_sequence s \<le> U64_MAX \<and> finite (dom (sp_operations s)) \<and>
     (\<forall>oid r. sp_operations s oid = Some r \<longrightarrow> sp_record_ok oid r)"

lemma sp_identity_of:
  assumes "sp_record_ok oid r"
  shows "sid_operation_id (sr_identity r) = oid"
proof -
  have "sr_identity r = sp_operation_identity oid (sid_sequence (sr_identity r))"
    using assms unfolding sp_record_ok_def by blast
  then have "sid_operation_id (sr_identity r) =
      sid_operation_id (sp_operation_identity oid (sid_sequence (sr_identity r)))" by (rule arg_cong)
  also have "\<dots> = oid" by (simp add: sp_operation_identity_def)
  finally show ?thesis .
qed

lemma length_sp_push: "length p \<le> cap \<Longrightarrow> length (sp_push cap n p) \<le> cap"
  by (auto simp: sp_push_def)

lemma sp_push_newest: "length p \<le> cap \<Longrightarrow> sp_push cap n p = newest cap (p @ [n])"
  by (cases p) (auto simp: sp_push_def newest_def)

lemma sp_evolves_ok:
  assumes ev: "sp_evolves r r'" and ok: "sp_record_ok oid r"
  shows "sp_record_ok oid r'"
proof -
  have same: "sr_identity r' = sr_identity r" "sr_progress_capacity r' = sr_progress_capacity r"
    using ev by (auto simp: sp_evolves_def)
  have progress: "length (sr_progress r') \<le> sr_progress_capacity r"
    using ev ok length_sp_push by (auto simp: sp_evolves_def sp_record_ok_def)
  have rank: "phase_rank (sr_phase r) \<le> phase_rank (sr_phase r')"
    using ev unfolding sp_evolves_def by (auto simp del: phase_rank.simps) simp_all
  from ev consider
    (same) "sr_attempts r' = sr_attempts r" "sr_next_attempt_sequence r' = sr_next_attempt_sequence r"
  | (less) k where "sr_attempts r' = (sr_attempts r)(k := None)"
      "sr_next_attempt_sequence r' = sr_next_attempt_sequence r"
  | (more) "sr_phase r = Running" "sr_next_attempt_sequence r' = Suc (sr_next_attempt_sequence r)"
      "sr_next_attempt_sequence r' \<le> U64_MAX"
      "sr_attempts r' = (sr_attempts r)(sr_next_attempt_sequence r \<mapsto>
        sp_attempt_identity (sr_identity r) (sr_next_attempt_sequence r))"
    unfolding sp_evolves_def by blast
  then show ?thesis
  proof cases
    case same
    with ok rank progress \<open>sr_identity r' = _\<close> \<open>sr_progress_capacity r' = _\<close> show ?thesis
      by (auto simp: sp_record_ok_def)
  next
    case less
    then have sub: "sr_attempts r' j = Some i \<Longrightarrow> sr_attempts r j = Some i" for j i
      by (auto split: if_splits)
    have "sr_attempts r' \<noteq> Map.empty \<Longrightarrow> sr_attempts r \<noteq> Map.empty" using less(1) by auto
    moreover have "finite (dom (sr_attempts r'))" using ok less(1) by (simp add: sp_record_ok_def)
    ultimately show ?thesis using ok rank progress same less(2) sub
      unfolding sp_record_ok_def by fastforce
  next
    case more
    then show ?thesis using ok rank progress same
      unfolding sp_record_ok_def by (auto simp: less_Suc_eq)
  qed
qed

lemma sp_abs_put:
  assumes "sp_operations t = (sp_operations s)(oid \<mapsto> r)" and "sp_next_sequence t = sp_next_sequence s"
  shows "sp_abs t = (sp_abs s)\<lparr>lc_live := (lc_live (sp_abs s))(oid \<mapsto> sp_abs_record r)\<rparr>"
  using assms by (auto simp: sp_abs_def)

lemma sp_evolves_sim:
  assumes live: "lc_live a oid = Some (sp_abs_record r)" and ev: "sp_evolves r r'"
  shows "lc_step\<^sup>*\<^sup>* a (a\<lparr>lc_live := (lc_live a)(oid \<mapsto> sp_abs_record r')\<rparr>)"
proof -
  have id: "sr_identity r' = sr_identity r" using ev by (simp add: sp_evolves_def)
  from ev consider
    (same) "sr_phase r' = sr_phase r" "sr_terminal r' = sr_terminal r"
  | (queue) "sr_phase r = Reserved" "sr_phase r' = Queued" "sr_terminal r' = sr_terminal r"
  | (start) "sr_phase r = Queued" "sr_phase r' = Running" "sr_terminal r' = sr_terminal r"
  | (settle) c where "sr_phase r = Running" "sr_phase r' = Terminal" "sr_terminal r' = Some c"
    unfolding sp_evolves_def by blast
  then show ?thesis
  proof cases
    case same
    then have "sp_abs_record r' = sp_abs_record r" using id by (simp add: sp_abs_record_def)
    with live have "a\<lparr>lc_live := (lc_live a)(oid \<mapsto> sp_abs_record r')\<rparr> = a" by (simp add: map_upd_triv)
    then show ?thesis by simp
  next
    case queue
    with lc_queue [OF live] id show ?thesis by (simp add: sp_abs_record_def r_into_rtranclp)
  next
    case start
    with lc_start [OF live] id show ?thesis by (simp add: sp_abs_record_def r_into_rtranclp)
  next
    case settle
    with lc_settle [OF live, of c] id show ?thesis by (simp add: sp_abs_record_def r_into_rtranclp)
  qed
qed

lemma sp_move_sim:
  assumes "sp_move s t" and inv: "sp_inv s"
  shows "lc_step\<^sup>*\<^sup>* (sp_abs s) (sp_abs t)"
  using assms(1)
proof (cases rule: sp_move.cases)
  case mv_stay
  then show ?thesis by (simp add: sp_abs_def)
next
  case (mv_put r r')
  then have "lc_live (sp_abs s) (sid_operation_id (sr_identity r)) = Some (sp_abs_record r)"
    by (simp add: sp_abs_def)
  with sp_evolves_sim mv_put(2) sp_abs_put [OF mv_put(3,4)] show ?thesis by simp
next
  case mv_mark
  then have "sp_abs t = sp_abs s"
    by (simp add: sp_abs_def sp_abs_record_def [abs_def] option.map_comp comp_def)
  then show ?thesis by simp
next
  case (mv_leave oid r c)
  then have "sp_abs t = (sp_abs s)\<lparr>lc_live := (lc_live (sp_abs s))(oid := None)\<rparr>"
    by (auto simp: sp_abs_def)
  with lc_leave [of "sp_abs s" oid "sp_abs_record r"] mv_leave inv show ?thesis
    by (simp add: sp_inv_def sp_abs_def)
next
  case (mv_admit oid r)
  then have "sp_abs t = \<lparr>lc_next = Suc (lc_next (sp_abs s)), lc_live = (lc_live (sp_abs s))(oid \<mapsto>
      \<lparr>lo_sequence = lc_next (sp_abs s), lo_phase = Reserved, lo_terminal = None\<rparr>)\<rparr>"
    by (auto simp: sp_abs_def sp_abs_record_def sp_operation_identity_def)
  with lc_reserve [of "sp_abs s" oid] mv_admit show ?thesis by (simp add: sp_abs_def r_into_rtranclp)
qed

lemma sp_move_inv:
  assumes mv: "sp_move s t" and inv: "sp_inv s"
  shows "sp_inv t"
proof -
  have ok: "sp_record_ok oid r" if "sp_operations s oid = Some r" for oid r
    using inv that by (simp add: sp_inv_def)
  have lc: "lc_inv (sp_abs t)"
    using lc_steps_inv [OF sp_move_sim [OF mv inv]] inv by (simp add: sp_inv_def)
  have rest: "sp_next_sequence s \<le> U64_MAX" "finite (dom (sp_operations s))"
    using inv by (simp_all add: sp_inv_def)
  from mv show ?thesis
  proof (cases rule: sp_move.cases)
    case mv_stay
    with lc ok rest show ?thesis by (simp add: sp_inv_def)
  next
    case (mv_put r r')
    with lc ok rest sp_evolves_ok show ?thesis by (simp add: sp_inv_def)
  next
    case mv_mark
    then have "dom (sp_operations t) = dom (sp_operations s)" by auto
    with mv_mark lc ok rest show ?thesis by (auto simp: sp_inv_def sp_record_ok_def)
  next
    case (mv_leave oid r c)
    with lc ok rest show ?thesis by (simp add: sp_inv_def)
  next
    case (mv_admit oid r)
    then have "sp_record_ok oid r" by (simp add: sp_record_ok_def sp_operation_identity_def U64_MAX_def)
    with mv_admit lc ok rest show ?thesis by (simp add: sp_inv_def)
  qed
qed

lemma sp_step_move: "sp_step s t \<Longrightarrow> sp_move s t"
  by (induction rule: sp_step.induct) (rule sp_exec_move)

lemma sp_inv_new: "n \<le> U64_MAX \<Longrightarrow> sp_inv (sp_new n cap)"
  by (simp add: sp_inv_def sp_new_def sp_abs_def lc_inv_def)

interpretation sp: lifecycle_impl sp_step sp_inv sp_abs
  by unfold_locales (auto dest!: sp_step_move intro: sp_move_inv sp_move_sim simp: sp_inv_def
      dest: sp_move_inv [unfolded sp_inv_def])

section \<open>Guarantees\<close>

text \<open>The bounded history holds exactly the newest published values.\<close>

lemma sp_push_many:
  "length p \<le> cap \<Longrightarrow> fold (sp_push cap) ns p = newest cap (p @ ns)"
proof (induction ns arbitrary: p)
  case Nil
  then show ?case by (simp add: newest_all)
next
  case (Cons n ns)
  then show ?case using newest_append [of cap "p @ [n]" ns] by (simp add: sp_push_newest length_newest)
qed

text \<open>A property of the operation with one identity that holds vacuously once it is gone.\<close>

definition sp_while_live :: "sp_identity \<Rightarrow> (sp_record \<Rightarrow> bool) \<Rightarrow> sp_state \<Rightarrow> bool" where
  "sp_while_live i P s \<longleftrightarrow> sid_sequence i < sp_next_sequence s \<and>
     (\<forall>r. sp_operations s (sid_operation_id i) = Some r \<longrightarrow> sr_identity r = i \<longrightarrow> P r)"

lemma sp_while_live_move:
  assumes mv: "sp_move s t" and P: "sp_while_live i P s"
    and stable: "\<And>r r'. sp_evolves r r' \<Longrightarrow> sr_identity r = i \<Longrightarrow> P r \<Longrightarrow> P r'"
  shows "sp_while_live i P t"
  using mv
proof (cases rule: sp_move.cases)
  case mv_stay
  with P show ?thesis by (simp add: sp_while_live_def)
next
  case (mv_put r r')
  have id: "sr_identity r' = sr_identity r" using mv_put(2) by (simp add: sp_evolves_def)
  have "P q" if q: "sp_operations t (sid_operation_id i) = Some q" "sr_identity q = i" for q
  proof (cases "sid_operation_id i = sid_operation_id (sr_identity r)")
    case True
    then have "q = r'" using q(1) by (simp add: mv_put(3))
    then have "sr_identity r = i" using q(2) id by simp
    then have "P r" using P mv_put(1) by (simp add: sp_while_live_def)
    then show ?thesis using stable [OF mv_put(2) \<open>sr_identity r = i\<close>] \<open>q = r'\<close> by simp
  next
    case False
    then show ?thesis using P q by (simp add: mv_put(3) sp_while_live_def)
  qed
  then show ?thesis using P mv_put(4) by (simp add: sp_while_live_def)
next
  case mv_mark
  with P stable [OF sp_evolves_updates(1)] show ?thesis by (auto simp: sp_while_live_def)
next
  case (mv_leave oid r c)
  with P show ?thesis by (simp add: sp_while_live_def)
next
  case (mv_admit oid r)
  then have "sid_sequence (sr_identity r) = sp_next_sequence s" by (simp add: sp_operation_identity_def)
  then have "sr_identity r \<noteq> i" using P by (auto simp: sp_while_live_def)
  with mv_admit(9,10) P show ?thesis by (auto simp: sp_while_live_def)
qed

lemma sp_while_live_steps:
  assumes "sp_step\<^sup>*\<^sup>* s t" and "sp_while_live i P s"
    and "\<And>r r'. sp_evolves r r' \<Longrightarrow> sr_identity r = i \<Longrightarrow> P r \<Longrightarrow> P r'"
  shows "sp_while_live i P t"
  using assms(1)
proof (induction rule: rtranclp_induct)
  case base
  show ?case by (rule assms(2))
next
  case (step t u)
  show ?case by (rule sp_while_live_move [OF sp_step_move [OF step(2)] step(3) assms(3)])
qed

lemma sp_live_sequence:
  assumes "sp_inv s" and "sp_operations s (sid_operation_id i) = Some r" and "sr_identity r = i"
  shows "sid_sequence i < sp_next_sequence s"
proof -
  have "lc_live (sp_abs s) (sid_operation_id i) = Some (sp_abs_record r)" using assms by (simp add: sp_abs_def)
  then have "lo_sequence (sp_abs_record r) < lc_next (sp_abs s)" using assms(1) unfolding sp_inv_def lc_inv_def by blast
  with assms(3) show ?thesis by (simp add: sp_abs_record_def sp_abs_def)
qed

text \<open>A call that does nothing: it fails as stale, or it fails on a poisoned lock and raises the
  fault flag.\<close>

definition sp_inert :: "sp_state \<Rightarrow> 'a sp_result \<Rightarrow> bool" where
  "sp_inert s res \<longleftrightarrow> res = (s, Err Sp_Stale) \<or> res = (s\<lparr>sp_faulted := True\<rparr>, Err Sp_StateUnavailable)"

lemma sp_inert_with_record:
  assumes "sp_while_live i (\<lambda>r. False) s"
  shows "sp_inert s (sp_locked s (\<lambda>s. sp_with_record i s (f s)))"
    and "sp_inert s (sp_slot_locked a s (\<lambda>s. sp_locked s (\<lambda>s. sp_with_record i s (f s))))"
proof -
  have "sp_record_mut s i = Err Sp_Stale"
    using assms by (auto simp: sp_while_live_def sp_record_mut_def split: option.split)
  then show "sp_inert s (sp_locked s (\<lambda>s. sp_with_record i s (f s)))"
    and "sp_inert s (sp_slot_locked a s (\<lambda>s. sp_locked s (\<lambda>s. sp_with_record i s (f s))))"
    by (auto simp: sp_inert_def sp_locked_def sp_slot_locked_def sp_with_record_def)
qed

lemma sp_inert_request_cancel: "sp_inert s (sp_request_cancel_once l s) \<Longrightarrow> sp_inert s (sp_request_cancel l s)"
  by (auto simp: sp_inert_def sp_request_cancel_def)

lemma sp_inactive_gone:
  assumes "sp_is_active l u = (u', Ok False)" and "sid_sequence (sl_identity l) < sp_next_sequence u"
  shows "sp_while_live (sl_identity l) (\<lambda>r. False) u"
  using assms
  by (auto simp: sp_is_active_def sp_current_def sp_locked_def sp_while_live_def sp_snapshot_of_def
      split: option.splits if_splits)

lemma sp_reserve_Ok:
  assumes "sp_reserve_with_capacity oid n s = (t, Ok (g, l))"
  shows "sl_identity l = sp_operation_identity oid (sp_next_sequence s)" "sp_next_sequence t = Suc (sp_next_sequence s)"
  using assms by (auto simp: sp_reserve_with_capacity_def sp_locked_def checked_add_def Let_def split: if_splits)

lemma sp_step_call: "fst (sp_reserve_with_capacity oid n s) = t \<Longrightarrow> sp_step s t"
  using sp_step [of s "SC_Reserve oid n"] by simp

lemma sp_steps_next: "sp_step\<^sup>*\<^sup>* s t \<Longrightarrow> sp_inv s \<Longrightarrow> sp_next_sequence s \<le> sp_next_sequence t"
  using sp.steps_before [of s t] by (simp add: lc_before_def sp_abs_def)

definition sp_demo_id :: sp_identity where
  "sp_demo_id = sp_operation_identity ''a'' 1"

abbreviation sp_demo_lease :: sp_lease where
  "sp_demo_lease \<equiv> \<lparr>sl_identity = sp_demo_id, sl_released = 0\<rparr>"

abbreviation sp_demo_attempt :: sp_attempt where
  "sp_demo_attempt \<equiv> \<lparr>at_operation = sp_demo_id, at_identity = sp_attempt_identity sp_demo_id 1\<rparr>"

definition sp_demo_running :: sp_state where
  "sp_demo_running = sp_exec (SC_Start sp_demo_lease) (sp_exec (SC_Queue sp_demo_lease)
     (sp_exec (SC_Reserve ''a'' 2) (sp_new 1 2)))"

lemmas sp_demo_defs = sp_exec.simps sp_new_def sp_reserve_with_capacity_def sp_queue_def sp_start_def sp_transition_def
  sp_locked_def sp_slot_locked_def sp_with_record_def sp_record_mut_def sp_put_def sp_remove_def
  checked_add_def U64_MAX_def Let_def

lemma sp_demo_running_eq:
  "sp_demo_running = (sp_new 1 2)\<lparr>sp_next_sequence := 2, sp_next_alloc := 1,
     sp_operations := [''a'' \<mapsto> \<lparr>sr_identity = sp_demo_id, sr_phase = Running, sr_cancellation_requested = False,
        sr_terminal = None, sr_progress = [], sr_progress_capacity = 2, sr_next_attempt_sequence = 1,
        sr_attempts = Map.empty, sr_released = 0\<rparr>]\<rparr>"
proof -
  have "sid_operation_id sp_demo_id = ''a''" by (simp add: sp_demo_id_def sp_operation_identity_def)
  moreover have "sp_operation_identity ''a'' (Suc 0) = sp_demo_id" by (simp add: sp_demo_id_def)
  ultimately show ?thesis by (simp add: sp_demo_running_def sp_demo_defs)
qed

lemma sp_exec_steps: "sp_step\<^sup>*\<^sup>* s t \<Longrightarrow> sp_step\<^sup>*\<^sup>* s (sp_exec c t)"
  by (meson rtranclp.rtrancl_into_rtrancl sp_step)

lemma sp_demo_running_inv: "sp_inv sp_demo_running"
  unfolding sp_demo_running_def
  by (rule sp.steps_inv [of "sp_new 1 2"]) (intro sp_exec_steps rtranclp.rtrancl_refl, simp add: sp_inv_new U64_MAX_def)

text \<open>
  Generation safety of the speech registry. Once the operation of a reserved lease has been
  observed to be inactive, then after any further calls by any clients (a new reservation of the
  same public id included) every method of that lease and of its attempt leases that needs the
  operation fails as stale and changes nothing, or fails on a poisoned lock and changes only the
  fault flag.
\<close>

theorem sp_stale_handles_are_inert:
  assumes "sp_inv s" and "sp_reserve_with_capacity oid n s = (t, Ok (g, l))" and "sp_step\<^sup>*\<^sup>* t u"
    and "sp_is_active l u = (u', Ok False)" and "sp_step\<^sup>*\<^sup>* u v" and "at_operation a = sl_identity l"
  shows "(\<forall>res \<in> {sp_queue l v, sp_start l v, sp_terminal c l v, sp_release l v, sp_request_cancel l v,
      sp_publish_progress p l v, sp_attempt_finish a v}. sp_inert v res) \<and>
    sp_inert v (sp_start_attempt l v) \<and> sp_inert v (sp_active_attempts l v) \<and>
    sp_inert v (sp_attempt_cancellation_requested a v) \<and> sp_inert v (sp_finish_setup_and_release c l v) \<and>
    sp_inert v (sp_finish_attempt_and_release_inner l a c w rel v)"
proof -
  have t: "sp_inv t" using assms(1,2) sp.step_inv sp_step_call [of oid n s t] by simp
  have "sid_sequence (sl_identity l) < sp_next_sequence t"
    using sp_reserve_Ok [OF assms(2)] by (simp add: sp_operation_identity_def)
  then have "sid_sequence (sl_identity l) < sp_next_sequence u" using sp_steps_next [OF assms(3) t] by simp
  then have "sp_while_live (sl_identity l) (\<lambda>r. False) u" by (rule sp_inactive_gone [OF assms(4)])
  then have gone: "sp_while_live (sl_identity l) (\<lambda>r. False) v"
    by (rule sp_while_live_steps [OF assms(5)]) simp
  have once: "sp_inert v (sp_request_cancel_once l v)"
    unfolding sp_request_cancel_once_def by (rule sp_inert_with_record [OF gone])
  note inert = sp_inert_with_record [OF gone]
  have "sp_inert v (sp_queue l v)" "sp_inert v (sp_start l v)"
    unfolding sp_queue_def sp_start_def sp_transition_def by (rule inert)+
  moreover have "sp_inert v (sp_terminal c l v)" "sp_inert v (sp_release l v)" "sp_inert v (sp_publish_progress p l v)"
    unfolding sp_terminal_def sp_release_def sp_publish_progress_def by (rule inert)+
  moreover have "sp_inert v (sp_request_cancel l v)" by (rule sp_inert_request_cancel [OF once])
  moreover have "sp_inert v (sp_attempt_finish a v)" "sp_inert v (sp_attempt_cancellation_requested a v)"
    unfolding sp_attempt_finish_def sp_attempt_cancellation_requested_def assms(6) by (rule inert)+
  moreover have "sp_inert v (sp_start_attempt l v)" "sp_inert v (sp_active_attempts l v)"
    unfolding sp_start_attempt_def sp_active_attempts_def by (rule inert)+
  moreover have "sp_inert v (sp_finish_setup_and_release c l v)"
    unfolding sp_finish_setup_and_release_def by (rule inert)
  moreover have "sp_inert v (sp_finish_attempt_and_release_inner l a c w rel v)"
    unfolding sp_finish_attempt_and_release_inner_def assms(6) simp_thms if_False
    by (rule inert)
  ultimately show ?thesis by simp
qed

definition sp_demo_gone :: sp_state where
  "sp_demo_gone = sp_exec (SC_Finish_Setup Failed sp_demo_lease) sp_demo_running"

theorem sp_stale_handles_are_inert_witness:
  "sp_queue sp_demo_lease (sp_exec (SC_Reserve ''a'' 5) sp_demo_gone) =
     (sp_exec (SC_Reserve ''a'' 5) sp_demo_gone, Err Sp_Stale)"
proof -
  have opid: "sid_operation_id sp_demo_id = ''a''" by (simp add: sp_demo_id_def sp_operation_identity_def)
  have ident: "sp_operation_identity ''a'' (Suc 0) = sp_demo_id" by (simp add: sp_demo_id_def)
  have inv: "sp_inv (sp_new 1 2)" by (simp add: sp_inv_new U64_MAX_def)
  have res: "sp_reserve_with_capacity ''a'' 2 (sp_new 1 2) = (sp_exec (SC_Reserve ''a'' 2) (sp_new 1 2),
      Ok (\<lparr>sg_lease = sp_demo_lease, sg_cancel_on_drop = True\<rparr>, sp_demo_lease))"
    by (simp add: sp_demo_defs ident)
  have run: "sp_step\<^sup>*\<^sup>* (sp_exec (SC_Reserve ''a'' 2) (sp_new 1 2)) sp_demo_gone"
    unfolding sp_demo_gone_def sp_demo_running_def by (intro sp_exec_steps rtranclp.rtrancl_refl)
  have gone: "sp_operations sp_demo_gone = Map.empty" "\<not> sp_poisoned sp_demo_gone"
    by (simp_all add: sp_demo_gone_def sp_demo_running_eq sp_demo_defs sp_finish_setup_and_release_def opid)
  then have act: "sp_is_active sp_demo_lease sp_demo_gone = (sp_demo_gone, Ok False)"
    by (simp add: sp_is_active_def sp_current_def sp_locked_def)
  have "sp_step\<^sup>*\<^sup>* sp_demo_gone (sp_exec (SC_Reserve ''a'' 5) sp_demo_gone)"
    by (intro sp_exec_steps rtranclp.rtrancl_refl)
  then have "sp_inert (sp_exec (SC_Reserve ''a'' 5) sp_demo_gone)
      (sp_queue sp_demo_lease (sp_exec (SC_Reserve ''a'' 5) sp_demo_gone))"
    using sp_stale_handles_are_inert [OF inv res run act, of _ sp_demo_attempt] by simp
  moreover have "\<not> sp_poisoned (sp_exec (SC_Reserve ''a'' 5) sp_demo_gone)"
    using gone by (simp add: sp_demo_defs)
  ultimately show ?thesis
    by (auto simp: sp_inert_def sp_queue_def sp_transition_def sp_locked_def sp_with_record_def result_simps
        split: result.splits)
qed

subsection \<open>Attempts\<close>

definition sp_attempt_dead :: "nat \<Rightarrow> sp_record \<Rightarrow> bool" where
  "sp_attempt_dead k r \<longleftrightarrow> sr_attempts r k = None \<and> k < sr_next_attempt_sequence r"

lemma sp_attempt_dead_stable: "sp_evolves r r' \<Longrightarrow> sp_attempt_dead k r \<Longrightarrow> sp_attempt_dead k r'"
  unfolding sp_evolves_def sp_attempt_dead_def by auto

lemma sp_start_attempt_Ok:
  assumes "sp_start_attempt l s = (t, Ok a)"
  obtains r where "sp_operations s (sid_operation_id (sl_identity l)) = Some r" "sr_identity r = sl_identity l"
    "at_operation a = sl_identity l" "at_identity a = sp_attempt_identity (sl_identity l) (sr_next_attempt_sequence r)"
    "sid_sequence (at_identity a) = sr_next_attempt_sequence r"
    "sp_operations t (sid_operation_id (sl_identity l)) = Some (r\<lparr>sr_next_attempt_sequence := Suc (sr_next_attempt_sequence r),
       sr_attempts := (sr_attempts r)(sr_next_attempt_sequence r \<mapsto> at_identity a)\<rparr>)"
    "sp_next_sequence t = sp_next_sequence s"
  using assms
  by (auto simp: sp_start_attempt_def sp_locked_def sp_with_record_def result_simps Let_def checked_add_def
      sp_put_def sp_attempt_identity_def split: if_splits result.splits)

lemma sp_attempt_dead_finish:
  assumes "sp_while_live (at_operation a) (sp_attempt_dead (sid_sequence (at_identity a))) s"
  shows "sp_inert s (sp_attempt_finish a s)"
    and "snd (sp_finish_attempt_and_release_inner l a c w rel s) \<in> {Err Sp_Stale, Err Sp_InvalidTransition, Err Sp_StateUnavailable}"
    and "fst (sp_finish_attempt_and_release_inner l a c w rel s) \<in> {s, s\<lparr>sp_faulted := True\<rparr>}"
proof -
  let ?k = "sid_sequence (at_identity a)"
  have dead: "sr_attempts r ?k = None" if "sp_operations s (sid_operation_id (at_operation a)) = Some r" "sr_identity r = at_operation a" for r
    using assms that by (simp add: sp_while_live_def sp_attempt_dead_def)
  have "sp_put (r\<lparr>sr_attempts := (sr_attempts r)(?k := None)\<rparr>) s = s"
    if r: "sp_operations s (sid_operation_id (at_operation a)) = Some r" "sr_identity r = at_operation a" for r
  proof -
    have "(sr_attempts r)(?k := None) = sr_attempts r" using dead [OF r] by (simp add: fun_upd_idem)
    then have "r\<lparr>sr_attempts := (sr_attempts r)(?k := None)\<rparr> = r" by simp
    then show ?thesis using r by (simp add: sp_put_def map_upd_triv)
  qed
  then show "sp_inert s (sp_attempt_finish a s)"
    using dead
    by (auto simp: sp_inert_def sp_attempt_finish_def sp_locked_def sp_with_record_def result_simps Let_def
        split: result.splits)
  show "snd (sp_finish_attempt_and_release_inner l a c w rel s) \<in> {Err Sp_Stale, Err Sp_InvalidTransition, Err Sp_StateUnavailable}"
    and "fst (sp_finish_attempt_and_release_inner l a c w rel s) \<in> {s, s\<lparr>sp_faulted := True\<rparr>}"
    using dead
    by (auto simp: sp_finish_attempt_and_release_inner_def sp_slot_locked_def sp_locked_def sp_with_record_def
        result_simps split: result.split)
qed

lemma sp_finish_attempt_Ok:
  assumes "sp_finish_attempt_and_release_inner l a c w rel u = (v, Ok snap)"
  obtains r r' where "at_operation a = sl_identity l" "sp_operations u (sid_operation_id (sl_identity l)) = Some r"
    "sr_identity r = sl_identity l" "sl_released l \<notin> sp_slot_poisoned u" "\<not> sp_poisoned u"
    "r' = r\<lparr>sr_attempts := (sr_attempts r)(sid_sequence (at_identity a) := None),
            sr_terminal := Some (if w \<and> sr_cancellation_requested r then Cancelled else c),
            sr_phase := (if rel then Released else Terminal)\<rparr>"
    "v = (if rel then sp_remove l r' u else sp_put r' u)" "snap = sp_snapshot_of r'"
proof (cases "at_operation a = sl_identity l")
  case True
  with assms show thesis
    unfolding sp_finish_attempt_and_release_inner_def Let_def
    by (simp only: simp_thms if_False result_simps) (elim conjE exE, rule that, assumption+, auto split: if_splits)
next
  case False
  with assms show thesis by (simp add: sp_finish_attempt_and_release_inner_def)
qed

lemma sp_attempt_settled_dead:
  assumes inv: "sp_inv u" and live: "sp_while_live (at_operation a) (\<lambda>r. sid_sequence (at_identity a) < sr_next_attempt_sequence r) u"
    and settled: "sp_attempt_finish a u = (v, Ok ()) \<or>
      (\<exists>c w rel snap. sp_finish_attempt_and_release_inner l a c w rel u = (v, Ok snap))"
  shows "sp_while_live (at_operation a) (sp_attempt_dead (sid_sequence (at_identity a))) v"
proof -
  let ?i = "at_operation a" and ?k = "sid_sequence (at_identity a)"
  have next_u: "sid_sequence ?i < sp_next_sequence u"
    and k: "\<And>r. sp_operations u (sid_operation_id ?i) = Some r \<Longrightarrow> sr_identity r = ?i \<Longrightarrow> ?k < sr_next_attempt_sequence r"
    using live by (auto simp: sp_while_live_def)
  from settled show ?thesis
  proof
    assume "sp_attempt_finish a u = (v, Ok ())"
    then obtain r where r: "sp_operations u (sid_operation_id ?i) = Some r" "sr_identity r = ?i"
      and v: "v = sp_put (r\<lparr>sr_attempts := (sr_attempts r)(?k := None)\<rparr>) u"
      by (auto simp: sp_attempt_finish_def sp_locked_def sp_with_record_def result_simps Let_def
          split: if_splits result.splits option.splits)
    with k [OF r] next_u show ?thesis by (simp add: sp_while_live_def sp_attempt_dead_def sp_put_def)
  next
    assume "\<exists>c w rel snap. sp_finish_attempt_and_release_inner l a c w rel u = (v, Ok snap)"
    then obtain c w rel snap where "sp_finish_attempt_and_release_inner l a c w rel u = (v, Ok snap)" by blast
    then show ?thesis
    proof (rule sp_finish_attempt_Ok)
      fix r r' assume r: "at_operation a = sl_identity l" "sp_operations u (sid_operation_id (sl_identity l)) = Some r"
        "sr_identity r = sl_identity l" and v: "v = (if rel then sp_remove l r' u else sp_put r' u)"
        and r': "r' = r\<lparr>sr_attempts := (sr_attempts r)(?k := None),
            sr_terminal := Some (if w \<and> sr_cancellation_requested r then Cancelled else c),
            sr_phase := (if rel then Released else Terminal)\<rparr>"
      have "?k < sr_next_attempt_sequence r" using k r by simp
      then have "sr_identity r' = ?i" "sp_attempt_dead ?k r'" using r by (simp_all add: r' sp_attempt_dead_def)
      with next_u r v show ?thesis by (simp add: sp_while_live_def sp_put_def sp_remove_def)
    qed
  qed
qed

lemma sp_next_attempt_stable:
  "sp_evolves r r' \<Longrightarrow> k < sr_next_attempt_sequence r \<Longrightarrow> k < sr_next_attempt_sequence r'"
  unfolding sp_evolves_def by auto

text \<open>
  C7. A backend attempt is settled at most once. After an attempt started on an operation has been
  finished, by its own lease or by a combined finish of the operation, then whatever happens
  afterwards, finishing it again is stale and changes nothing, and no combined finish with it
  can succeed or change the registry.
\<close>

theorem sp_attempt_settles_once:
  assumes "sp_inv s" and "sp_start_attempt l s = (t, Ok a)" and "sp_step\<^sup>*\<^sup>* t u"
    and "sp_attempt_finish a u = (v, Ok ()) \<or>
      (\<exists>c w rel snap. sp_finish_attempt_and_release_inner l a c w rel u = (v, Ok snap))"
    and "sp_step\<^sup>*\<^sup>* v x"
  shows "sp_inert x (sp_attempt_finish a x) \<and>
    fst (sp_finish_attempt_and_release_inner l' a c w rel x) \<in> {x, x\<lparr>sp_faulted := True\<rparr>} \<and>
    (\<forall>snap. snd (sp_finish_attempt_and_release_inner l' a c w rel x) \<noteq> Ok snap)"
proof -
  let ?k = "sid_sequence (at_identity a)"
  from assms(2) have a: "at_operation a = sl_identity l" by (rule sp_start_attempt_Ok)
  have live: "sp_while_live (at_operation a) (\<lambda>r. ?k < sr_next_attempt_sequence r) t"
    using assms(2)
  proof (rule sp_start_attempt_Ok)
    fix r assume r: "sp_operations s (sid_operation_id (sl_identity l)) = Some r" "sr_identity r = sl_identity l"
      and k: "?k = sr_next_attempt_sequence r" and nx: "sp_next_sequence t = sp_next_sequence s"
      and t: "sp_operations t (sid_operation_id (sl_identity l)) = Some (r\<lparr>sr_next_attempt_sequence := Suc (sr_next_attempt_sequence r),
         sr_attempts := (sr_attempts r)(sr_next_attempt_sequence r \<mapsto> at_identity a)\<rparr>)"
    show ?thesis using sp_live_sequence [OF assms(1) r] a k nx t by (simp add: sp_while_live_def)
  qed
  have "sp_step s t" using sp_step [of s "SC_Start_Attempt l"] assms(2) by simp
  then have u: "sp_inv u" using sp.steps_inv [OF assms(3)] sp.step_inv assms(1) by blast
  have "sp_while_live (at_operation a) (\<lambda>r. ?k < sr_next_attempt_sequence r) u"
    by (rule sp_while_live_steps [OF assms(3) live]) (rule sp_next_attempt_stable)
  then have "sp_while_live (at_operation a) (sp_attempt_dead ?k) v"
    by (rule sp_attempt_settled_dead [OF u _ assms(4)])
  then have "sp_while_live (at_operation a) (sp_attempt_dead ?k) x"
    by (rule sp_while_live_steps [OF assms(5)]) (rule sp_attempt_dead_stable)
  note dead = sp_attempt_dead_finish [OF this]
  show ?thesis using dead(1) dead(2,3) [of l' c w rel] by auto
qed

definition sp_demo_attempted :: sp_state where
  "sp_demo_attempted = sp_exec (SC_Start_Attempt sp_demo_lease) sp_demo_running"

lemma sp_demo_attempt_results:
  "sp_start_attempt sp_demo_lease sp_demo_running = (sp_demo_attempted, Ok sp_demo_attempt)"
  "sp_attempt_finish sp_demo_attempt sp_demo_attempted =
     (sp_exec (SC_Attempt_Finish sp_demo_attempt) sp_demo_attempted, Ok ())"
proof -
  have opid: "sid_operation_id sp_demo_id = ''a''" by (simp add: sp_demo_id_def sp_operation_identity_def)
  have k: "sid_sequence (sp_attempt_identity sp_demo_id k) = k" for k by (simp add: sp_attempt_identity_def)
  show "sp_start_attempt sp_demo_lease sp_demo_running = (sp_demo_attempted, Ok sp_demo_attempt)"
    by (simp add: sp_demo_attempted_def sp_demo_running_eq sp_demo_defs sp_start_attempt_def opid)
  show "sp_attempt_finish sp_demo_attempt sp_demo_attempted =
     (sp_exec (SC_Attempt_Finish sp_demo_attempt) sp_demo_attempted, Ok ())"
    by (simp add: sp_demo_attempted_def sp_demo_running_eq sp_demo_defs sp_start_attempt_def sp_attempt_finish_def opid k)
qed

theorem sp_attempt_settles_once_witness:
  "sp_inert (sp_exec (SC_Attempt_Finish sp_demo_attempt) sp_demo_attempted)
     (sp_attempt_finish sp_demo_attempt (sp_exec (SC_Attempt_Finish sp_demo_attempt) sp_demo_attempted))"
  using sp_attempt_settles_once [OF sp_demo_running_inv sp_demo_attempt_results(1) rtranclp.rtrancl_refl
      disjI1 [OF sp_demo_attempt_results(2)] rtranclp.rtrancl_refl] by blast

subsection \<open>Arbitration of cancellation and completion\<close>

lemma sp_cancel_stable:
  "sp_evolves r r' \<Longrightarrow> sr_cancellation_requested r \<Longrightarrow> sr_cancellation_requested r'"
  by (simp add: sp_evolves_def)

lemma sp_request_cancel_Ok:
  assumes "sp_inv s" and "sp_request_cancel l s = (t, Ok ())"
  shows "sp_while_live (sl_identity l) sr_cancellation_requested t"
proof -
  obtain b where "sp_request_cancel_once l s = (t, Ok b)"
    using assms(2) by (auto simp: sp_request_cancel_def split: prod.splits result.splits)
  then obtain r where r: "sp_operations s (sid_operation_id (sl_identity l)) = Some r" "sr_identity r = sl_identity l"
    and t: "t = sp_put (r\<lparr>sr_cancellation_requested := True\<rparr>) s"
    by (auto simp: sp_request_cancel_once_def result_simps)
  then show ?thesis using sp_live_sequence [OF assms(1) r] by (simp add: sp_while_live_def sp_put_def)
qed

text \<open>
  Cancellation and completion are linearised. If a cancellation of the operation was accepted,
  a later combined finish of the backend attempt, whatever class it asks for, releases the operation
  as Cancelled; the finish, the terminal and the release are one step: the returned snapshot
  is what the lease reports from then on, the public id is free, and a cancellation that comes
  after it is refused as stale.
\<close>

theorem sp_cancellation_wins:
  assumes "sp_inv s" and "sp_request_cancel l s = (t, Ok ())" and "sp_step\<^sup>*\<^sup>* t u"
    and "sp_finish_backend_attempt_and_release l a c u = (v, Ok snap)"
  shows "ss_terminal snap = Some Cancelled \<and> ss_cancellation_requested snap \<and> ss_phase snap = Released \<and>
    ss_identity snap = sl_identity l \<and> sp_operations v (sid_operation_id (sl_identity l)) = None \<and>
    sp_lease_snapshot l v = (v, Ok (Some snap)) \<and> sp_request_cancel l v = (v, Err Sp_Stale)"
  using assms(4) unfolding sp_finish_backend_attempt_and_release_def
proof (rule sp_finish_attempt_Ok)
  fix r r'
  assume r: "sp_operations u (sid_operation_id (sl_identity l)) = Some r" "sr_identity r = sl_identity l"
    and np: "sl_released l \<notin> sp_slot_poisoned u" "\<not> sp_poisoned u"
    and r': "r' = r\<lparr>sr_attempts := (sr_attempts r)(sid_sequence (at_identity a) := None),
        sr_terminal := Some (if True \<and> sr_cancellation_requested r then Cancelled else c),
        sr_phase := (if True then Released else Terminal)\<rparr>"
    and v: "v = (if True then sp_remove l r' u else sp_put r' u)" and snap: "snap = sp_snapshot_of r'"
  have "sp_while_live (sl_identity l) sr_cancellation_requested u"
    by (rule sp_while_live_steps [OF assms(3) sp_request_cancel_Ok [OF assms(1,2)]]) (rule sp_cancel_stable)
  then have "sr_cancellation_requested r" using r by (simp add: sp_while_live_def)
  with r r' snap have fields: "ss_terminal snap = Some Cancelled" "ss_cancellation_requested snap" "ss_phase snap = Released"
    "ss_identity snap = sl_identity l" by (simp_all add: sp_snapshot_of_def)
  have vv: "sp_operations v (sid_operation_id (sl_identity l)) = None" "sp_slots v (sl_released l) = Some snap"
    "\<not> sp_poisoned v" "sl_released l \<notin> sp_slot_poisoned v"
    using v snap np by (simp_all add: sp_remove_def)
  then have "sp_lease_snapshot l v = (v, Ok (Some snap))" "sp_request_cancel l v = (v, Err Sp_Stale)"
    by (simp_all add: sp_lease_snapshot_def sp_request_cancel_def sp_request_cancel_once_def sp_locked_def
        sp_slot_locked_def sp_with_record_def sp_record_mut_def)
  with fields vv show ?thesis by blast
qed

theorem sp_cancellation_wins_witness:
  "\<exists>v snap. sp_finish_backend_attempt_and_release sp_demo_lease sp_demo_attempt Completed
      (sp_exec (SC_Request_Cancel sp_demo_lease) sp_demo_attempted) = (v, Ok snap) \<and> ss_terminal snap = Some Cancelled"
proof -
  let ?t = "sp_exec (SC_Request_Cancel sp_demo_lease) sp_demo_attempted"
  have opid: "sid_operation_id sp_demo_id = ''a''" by (simp add: sp_demo_id_def sp_operation_identity_def)
  have k: "sid_sequence (sp_attempt_identity sp_demo_id k) = k" for k by (simp add: sp_attempt_identity_def)
  have inv: "sp_inv sp_demo_attempted"
    unfolding sp_demo_attempted_def by (rule sp.step_inv [OF sp_step sp_demo_running_inv])
  have cancel: "sp_request_cancel sp_demo_lease sp_demo_attempted = (?t, Ok ())"
    by (simp add: sp_demo_attempted_def sp_demo_running_eq sp_demo_defs sp_start_attempt_def opid
        sp_request_cancel_def sp_request_cancel_once_def)
  have "\<exists>v snap. sp_finish_backend_attempt_and_release sp_demo_lease sp_demo_attempt Completed ?t = (v, Ok snap)"
    by (simp add: sp_demo_attempted_def sp_demo_running_eq sp_demo_defs sp_start_attempt_def opid k
        sp_request_cancel_def sp_request_cancel_once_def sp_finish_backend_attempt_and_release_def
        sp_finish_attempt_and_release_inner_def)
  then obtain v snap where fin:
    "sp_finish_backend_attempt_and_release sp_demo_lease sp_demo_attempt Completed ?t = (v, Ok snap)" by blast
  from sp_cancellation_wins [OF inv cancel rtranclp.rtrancl_refl fin] fin show ?thesis by blast
qed

end
