(* ===== verification/Native_Registry.thy ===== *)
theory Native_Registry
  imports Lifecycle_Spec
begin

text \<open>
  The native engine's request registry,
  \<open>crates/native/crates/llama-native-engine/src/operation_registry.rs\<close>.

  An \<open>Arc<ActiveRequest>\<close> is an address into \<open>nr_entries\<close>, so that \<open>Arc::ptr_eq\<close> is equality of
  addresses, and an \<open>Arc<AtomicBool>\<close> is an address into \<open>nr_flags\<close>; flags may be shared between
  requests. A \<open>RequestLease\<close> is not clonable: \<open>nr_leases\<close> holds the addresses of the entries whose
  lease is alive, its methods borrow it, and dropping it removes it. Because a lease cannot be
  dropped while one of its methods runs, the two locks such a method takes in turn are one atomic
  step. Each \<open>NativeError\<close> the file builds is one constructor of \<open>nr_error\<close>, and \<open>nr_error_code\<close>
  gives its code. Poisoned mutexes are flags; where the code recovers the guard, the flag is not
  consulted.
\<close>

section \<open>Request controls\<close>

datatype request_class =
  Class_Generation | Class_ControlledGeneration | Class_Embedding | Class_ResidualTraining | Class_ResidualEvaluation

datatype request_controls =
    Ctl_Generation "(string \<times> nat) list" "(string \<times> nat) list"
  | Ctl_ControlledGeneration "(string \<times> nat) list"
  | Ctl_Embedding nat
  | Ctl_ResidualTraining nat
  | Ctl_ResidualEvaluation nat

type_synonym flags = "nat \<Rightarrow> bool"

definition set_named :: "(string \<times> nat) list \<Rightarrow> string \<Rightarrow> flags \<Rightarrow> flags \<times> bool" where
  "set_named fs name st =
     (case find (\<lambda>(candidate, flag). candidate = name) fs of
        None \<Rightarrow> (st, False)
      | Some (candidate, flag) \<Rightarrow> (st(flag := True), True))"

definition set_all :: "nat list \<Rightarrow> flags \<Rightarrow> flags \<times> nat" where
  "set_all fs st = (fold (\<lambda>flag st. st(flag := True)) fs st, length fs)"

fun controls_cancel_all :: "request_controls \<Rightarrow> flags \<Rightarrow> flags \<times> nat" where
  "controls_cancel_all (Ctl_Generation cs rs) st = set_all (map snd cs) st"
| "controls_cancel_all (Ctl_ControlledGeneration cs) st = set_all (map snd cs) st"
| "controls_cancel_all (Ctl_Embedding c) st = (st(c := True), 1)"
| "controls_cancel_all (Ctl_ResidualTraining c) st = (st(c := True), 1)"
| "controls_cancel_all (Ctl_ResidualEvaluation c) st = (st(c := True), 1)"

fun controls_cancel_named :: "request_controls \<Rightarrow> string \<Rightarrow> flags \<Rightarrow> flags \<times> bool" where
  "controls_cancel_named (Ctl_Generation cs rs) name st = set_named cs name st"
| "controls_cancel_named (Ctl_ControlledGeneration cs) name st = set_named cs name st"
| "controls_cancel_named _ name st = (st, False)"

fun controls_force_reasoning_exit :: "request_controls \<Rightarrow> string \<Rightarrow> flags \<Rightarrow> flags \<times> bool" where
  "controls_force_reasoning_exit (Ctl_Generation cs rs) name st = set_named rs name st"
| "controls_force_reasoning_exit _ name st = (st, False)"

fun controls_force_all_reasoning_exits :: "request_controls \<Rightarrow> flags \<Rightarrow> flags \<times> nat" where
  "controls_force_all_reasoning_exits (Ctl_Generation cs rs) st = set_all (map snd rs) st"
| "controls_force_all_reasoning_exits _ st = (st, 0)"

fun controls_cancellation_requested :: "request_controls \<Rightarrow> flags \<Rightarrow> bool" where
  "controls_cancellation_requested (Ctl_Generation cs rs) st \<longleftrightarrow> (\<exists>(n, flag) \<in> set cs. st flag)"
| "controls_cancellation_requested (Ctl_ControlledGeneration cs) st \<longleftrightarrow> (\<exists>(n, flag) \<in> set cs. st flag)"
| "controls_cancellation_requested (Ctl_Embedding c) st \<longleftrightarrow> st c"
| "controls_cancellation_requested (Ctl_ResidualTraining c) st \<longleftrightarrow> st c"
| "controls_cancellation_requested (Ctl_ResidualEvaluation c) st \<longleftrightarrow> st c"

section \<open>State\<close>

datatype registry_phase = Reg_Running | Reg_Quiescing | Reg_Closed

record request_identity =
  rid_operation_id :: string
  rid_attempt_id :: string
  rid_sequence :: nat

record request_terminal =
  rt_class :: terminal_class
  rt_sequence :: nat

text \<open>An \<open>ActiveRequest\<close> with its \<open>RequestLifecycle\<close>.\<close>

record active_request =
  ar_request_id :: string
  ar_class :: request_class
  ar_controls :: request_controls
  ar_nonce :: nat
  ar_identity :: request_identity
  ar_phase :: operation_phase
  ar_terminal :: "request_terminal option"
  ar_poisoned :: bool

record shutdown_outcome =
  so_state_poisoned :: bool
  so_active_operations :: nat
  so_retained_tasks :: nat
  so_expected_workers :: nat
  so_joined_workers :: nat
  so_expected_worker_ids :: "string list"
  so_joined_worker_ids :: "string list"

record nr_state =
  nr_phase :: registry_phase
  nr_next_nonce :: nat
  nr_active :: "string \<rightharpoonup> nat"
  nr_expected_worker_ids :: "string list"
  nr_joined_worker_ids :: "string list"
  nr_shutdown :: "shutdown_outcome option"
  nr_poisoned :: bool
  nr_entries :: "active_request list"
  nr_flags :: flags
  nr_leases :: "nat set"

datatype native_error_code = Internal | WorkerStopped | DuplicateActiveRequest | QueueFull

datatype nr_error =
    Registry_Poisoned
  | Admission_Closed
  | Already_Active string
  | Sequence_Overflowed
  | Lifecycle_Poisoned
  | Stale_Lease
  | Invalid_Transition
  | Active_Reservations nat

fun nr_error_code :: "nr_error \<Rightarrow> native_error_code" where
  "nr_error_code Admission_Closed = WorkerStopped"
| "nr_error_code (Already_Active rid) = DuplicateActiveRequest"
| "nr_error_code _ = Internal"

type_synonym 'a nr_result = "nr_state \<times> ('a, nr_error) result"

section \<open>RequestRegistry\<close>

definition nr_new :: "nr_state" where
  "nr_new = \<lparr>nr_phase = Reg_Running, nr_next_nonce = 0, nr_active = Map.empty,
     nr_expected_worker_ids = [], nr_joined_worker_ids = [], nr_shutdown = None, nr_poisoned = False,
     nr_entries = [], nr_flags = (\<lambda>_. False), nr_leases = {}\<rparr>"

definition nr_with_external_worker :: "string \<Rightarrow> nr_state" where
  "nr_with_external_worker w = nr_new\<lparr>nr_expected_worker_ids := nr_expected_worker_ids nr_new @ [w]\<rparr>"

definition nr_new_entry :: "string \<Rightarrow> request_class \<Rightarrow> request_controls \<Rightarrow> nat \<Rightarrow> active_request" where
  "nr_new_entry rid cls controls nonce =
     \<lparr>ar_request_id = rid, ar_class = cls, ar_controls = controls, ar_nonce = nonce,
      ar_identity = \<lparr>rid_operation_id = rid, rid_attempt_id = rid @ ''#attempt-'' @ show_nat nonce,
                     rid_sequence = nonce\<rparr>,
      ar_phase = Reserved, ar_terminal = None, ar_poisoned = False\<rparr>"

definition nr_reserve :: "string \<Rightarrow> request_class \<Rightarrow> request_controls \<Rightarrow> nr_state \<Rightarrow> nat nr_result" where
  "nr_reserve rid cls controls s =
     (if nr_poisoned s then (s, Err Registry_Poisoned)
      else if nr_phase s \<noteq> Reg_Running then (s, Err Admission_Closed)
      else if nr_active s rid \<noteq> None then (s, Err (Already_Active rid))
      else
        (case checked_add U64_MAX (nr_next_nonce s) 1 of
           None \<Rightarrow> (s, Err Sequence_Overflowed)
         | Some next_nonce \<Rightarrow>
             let addr = length (nr_entries s) in
             (s\<lparr>nr_next_nonce := next_nonce,
                nr_entries := nr_entries s @ [nr_new_entry rid cls controls (nr_next_nonce s)],
                nr_active := (nr_active s)(rid \<mapsto> addr),
                nr_leases := insert addr (nr_leases s)\<rparr>, Ok addr)))"

definition nr_lookup :: "string \<Rightarrow> nr_state \<Rightarrow> nat option" where
  "nr_lookup rid s = nr_active s rid"

definition nr_is_current :: "nr_state \<Rightarrow> nat \<Rightarrow> bool" where
  "nr_is_current s a =
     (case nr_active s (ar_request_id (nr_entries s ! a)) of
        None \<Rightarrow> False
      | Some b \<Rightarrow> b = a \<and> ar_nonce (nr_entries s ! b) = ar_nonce (nr_entries s ! a))"

definition nr_require_current :: "nat \<Rightarrow> nr_state \<Rightarrow> (unit, nr_error) result" where
  "nr_require_current a s = (if nr_is_current s a then Ok () else Err Stale_Lease)"

definition nr_put :: "nat \<Rightarrow> active_request \<Rightarrow> nr_state \<Rightarrow> nr_state" where
  "nr_put a e s = s\<lparr>nr_entries := (nr_entries s)[a := e]\<rparr>"

text \<open>\<open>require_current\<close> and the lifecycle lock of one lease.\<close>

definition nr_with_lifecycle :: "nat \<Rightarrow> nr_state \<Rightarrow> (active_request \<Rightarrow> unit nr_result) \<Rightarrow> unit nr_result" where
  "nr_with_lifecycle a s f =
     (case nr_require_current a s of
        Err e \<Rightarrow> (s, Err e)
      | Ok u \<Rightarrow> if ar_poisoned (nr_entries s ! a) then (s, Err Lifecycle_Poisoned) else f (nr_entries s ! a))"

definition nr_transition :: "operation_phase \<Rightarrow> operation_phase \<Rightarrow> nat \<Rightarrow> nr_state \<Rightarrow> unit nr_result" where
  "nr_transition from to a s = nr_with_lifecycle a s (\<lambda>e.
     if ar_phase e \<noteq> from then (s, Err Invalid_Transition)
     else (nr_put a (e\<lparr>ar_phase := to\<rparr>) s, Ok ()))"

definition nr_queue :: "nat \<Rightarrow> nr_state \<Rightarrow> unit nr_result" where
  "nr_queue = nr_transition Reserved Queued"

definition nr_start :: "nat \<Rightarrow> nr_state \<Rightarrow> unit nr_result" where
  "nr_start = nr_transition Queued Running"

definition nr_terminal :: "terminal_class \<Rightarrow> nat \<Rightarrow> nr_state \<Rightarrow> unit nr_result" where
  "nr_terminal cls a s = nr_with_lifecycle a s (\<lambda>e.
     if ar_phase e \<noteq> Running \<or> ar_terminal e \<noteq> None then (s, Err Invalid_Transition)
     else (nr_put a (e\<lparr>ar_terminal := Some \<lparr>rt_class = cls, rt_sequence = ar_nonce e\<rparr>,
                       ar_phase := Terminal\<rparr>) s, Ok ()))"

text \<open>Setting every cancellation flag of an entry, through any handle on it.\<close>

definition nr_cancel_all :: "nat \<Rightarrow> nr_state \<Rightarrow> nr_state \<times> nat" where
  "nr_cancel_all a s =
     (case controls_cancel_all (ar_controls (nr_entries s ! a)) (nr_flags s) of
        (st, n) \<Rightarrow> (s\<lparr>nr_flags := st\<rparr>, n))"

definition nr_cancel_named :: "nat \<Rightarrow> string \<Rightarrow> nr_state \<Rightarrow> nr_state \<times> bool" where
  "nr_cancel_named a name s =
     (case controls_cancel_named (ar_controls (nr_entries s ! a)) name (nr_flags s) of
        (st, b) \<Rightarrow> (s\<lparr>nr_flags := st\<rparr>, b))"

definition nr_force_reasoning_exit :: "nat \<Rightarrow> string \<Rightarrow> nr_state \<Rightarrow> nr_state \<times> bool" where
  "nr_force_reasoning_exit a name s =
     (case controls_force_reasoning_exit (ar_controls (nr_entries s ! a)) name (nr_flags s) of
        (st, b) \<Rightarrow> (s\<lparr>nr_flags := st\<rparr>, b))"

definition nr_force_all_reasoning_exits :: "nat \<Rightarrow> nr_state \<Rightarrow> nr_state \<times> nat" where
  "nr_force_all_reasoning_exits a s =
     (case controls_force_all_reasoning_exits (ar_controls (nr_entries s ! a)) (nr_flags s) of
        (st, n) \<Rightarrow> (s\<lparr>nr_flags := st\<rparr>, n))"

definition nr_is_released :: "nat \<Rightarrow> nr_state \<Rightarrow> bool" where
  "nr_is_released a s \<longleftrightarrow> ar_phase (nr_entries s ! a) = Released"

text \<open>Closing admission under the lock, and cancelling the entries collected there after it.
  The order in which a hash map yields its entries does not matter; addresses are taken in order.\<close>

definition nr_quiesce :: "nr_state \<Rightarrow> nr_state" where
  "nr_quiesce s = (if nr_phase s = Reg_Closed then s else s\<lparr>nr_phase := Reg_Quiescing\<rparr>)"

definition nr_begin_quiesce_and_cancel_all :: "nr_state \<Rightarrow> nr_state" where
  "nr_begin_quiesce_and_cancel_all s =
     (if nr_phase s = Reg_Closed then s
      else fold (\<lambda>a s. fst (nr_cancel_all a s)) (sorted_list_of_set (ran (nr_active s))) (nr_quiesce s))"

definition nr_close :: "nr_state \<Rightarrow> nr_state \<times> shutdown_outcome" where
  "nr_close s =
     (let s = s\<lparr>nr_phase := Reg_Closed\<rparr>;
          outcome = \<lparr>so_state_poisoned = nr_poisoned s, so_active_operations = card (dom (nr_active s)),
                     so_retained_tasks = 0, so_expected_workers = length (nr_expected_worker_ids s),
                     so_joined_workers = length (nr_joined_worker_ids s),
                     so_expected_worker_ids = nr_expected_worker_ids s,
                     so_joined_worker_ids = nr_joined_worker_ids s\<rparr>
      in (s\<lparr>nr_shutdown := Some outcome\<rparr>, outcome))"

text \<open>The part of \<open>shutdown\<close> after the quiesce, at a state where no wait is needed: the recorded
  outcome, or, if no request is active, the closing; \<open>None\<close> is a thread that has to wait for
  another release.\<close>

definition nr_shutdown_try :: "nr_state \<Rightarrow> (nr_state \<times> shutdown_outcome) option" where
  "nr_shutdown_try s =
     (case nr_shutdown s of
        Some outcome \<Rightarrow> Some (s, outcome)
      | None \<Rightarrow> if nr_active s = Map.empty then Some (nr_close s) else None)"

definition nr_record_external_worker_joined :: "string \<Rightarrow> nr_state \<Rightarrow> nr_state" where
  "nr_record_external_worker_joined w s =
     (if w \<in> set (nr_joined_worker_ids s) then s
      else s\<lparr>nr_joined_worker_ids := nr_joined_worker_ids s @ [w]\<rparr>)"

definition nr_mark_closed :: "nr_state \<Rightarrow> unit nr_result" where
  "nr_mark_closed s =
     (if nr_active s \<noteq> Map.empty then (s, Err (Active_Reservations (card (dom (nr_active s)))))
      else (s\<lparr>nr_phase := Reg_Closed\<rparr>, if nr_poisoned s then Err Registry_Poisoned else Ok ()))"

section \<open>RequestLease\<close>

definition nr_abandon_entry :: "flags \<Rightarrow> active_request \<Rightarrow> active_request" where
  "nr_abandon_entry st e =
     e\<lparr>ar_terminal := (case ar_terminal e of
          Some t \<Rightarrow> Some t
        | None \<Rightarrow> Some \<lparr>rt_class = (if controls_cancellation_requested (ar_controls e) st then Cancelled else Failed),
                         rt_sequence = ar_nonce e\<rparr>),
       ar_phase := Released\<rparr>"

definition nr_abandon_if_current :: "nat \<Rightarrow> nr_state \<Rightarrow> nr_state" where
  "nr_abandon_if_current a s =
     (if \<not> nr_is_current s a then s
      else (nr_put a (nr_abandon_entry (nr_flags s) (nr_entries s ! a)) s)
             \<lparr>nr_active := (nr_active s)(ar_request_id (nr_entries s ! a) := None)\<rparr>)"

definition nr_lease_drop :: "nat \<Rightarrow> nr_state \<Rightarrow> nr_state" where
  "nr_lease_drop a s = (nr_abandon_if_current a s)\<lparr>nr_leases := nr_leases s - {a}\<rparr>"

definition nr_completed_or_failed :: "bool \<Rightarrow> nat \<Rightarrow> nr_state \<Rightarrow> unit nr_result" where
  "nr_completed_or_failed succeeded a s =
     nr_terminal (if succeeded then Completed
                  else if controls_cancellation_requested (ar_controls (nr_entries s ! a)) (nr_flags s) then Cancelled
                  else Failed) a s"

definition nr_reject_queued :: "terminal_class \<Rightarrow> nat \<Rightarrow> nr_state \<Rightarrow> unit nr_result" where
  "nr_reject_queued cls a s = nr_with_lifecycle a s (\<lambda>e.
     if ar_phase e \<noteq> Queued \<or> ar_terminal e \<noteq> None \<or> cls = Completed then (s, Err Invalid_Transition)
     else (nr_put a (e\<lparr>ar_terminal := Some \<lparr>rt_class = cls, rt_sequence = ar_nonce e\<rparr>,
                       ar_phase := Terminal\<rparr>) s, Ok ()))"

definition nr_cancel_queued :: "nat \<Rightarrow> nr_state \<Rightarrow> unit nr_result" where
  "nr_cancel_queued = nr_reject_queued Cancelled"

section \<open>Runs\<close>

datatype nr_call =
    NC_Reserve string request_class request_controls
  | NC_Queue nat
  | NC_Start nat
  | NC_Terminal terminal_class nat
  | NC_Reject_Queued terminal_class nat
  | NC_Completed_Or_Failed bool nat
  | NC_Lease_Drop nat
  | NC_Set_Flags flags
  | NC_Quiesce
  | NC_Quiesce_And_Cancel
  | NC_Shutdown
  | NC_Close
  | NC_Worker_Joined string
  | NC_Mark_Closed
  | NC_Poison
  | NC_Poison_Lifecycle nat

text \<open>A lease method needs a live lease. Flags only ever go from clear to set; any handle may
  set any of them at any time, which covers the cancelling and forcing methods. A thread waiting in
  \<open>shutdown\<close> may close the registry again after another thread did.\<close>

fun nr_call_ok :: "nr_state \<Rightarrow> nr_call \<Rightarrow> bool" where
  "nr_call_ok s (NC_Queue a) \<longleftrightarrow> a \<in> nr_leases s"
| "nr_call_ok s (NC_Start a) \<longleftrightarrow> a \<in> nr_leases s"
| "nr_call_ok s (NC_Terminal c a) \<longleftrightarrow> a \<in> nr_leases s"
| "nr_call_ok s (NC_Reject_Queued c a) \<longleftrightarrow> a \<in> nr_leases s"
| "nr_call_ok s (NC_Completed_Or_Failed b a) \<longleftrightarrow> a \<in> nr_leases s"
| "nr_call_ok s (NC_Lease_Drop a) \<longleftrightarrow> a \<in> nr_leases s"
| "nr_call_ok s (NC_Set_Flags st) \<longleftrightarrow> (\<forall>f. nr_flags s f \<longrightarrow> st f)"
| "nr_call_ok s NC_Close \<longleftrightarrow> nr_phase s \<noteq> Reg_Running \<and> nr_active s = Map.empty"
| "nr_call_ok s (NC_Poison_Lifecycle a) \<longleftrightarrow> a < length (nr_entries s)"
| "nr_call_ok s _ \<longleftrightarrow> True"

fun nr_exec :: "nr_call \<Rightarrow> nr_state \<Rightarrow> nr_state" where
  "nr_exec (NC_Reserve rid cls ctl) s = fst (nr_reserve rid cls ctl s)"
| "nr_exec (NC_Queue a) s = fst (nr_queue a s)"
| "nr_exec (NC_Start a) s = fst (nr_start a s)"
| "nr_exec (NC_Terminal c a) s = fst (nr_terminal c a s)"
| "nr_exec (NC_Reject_Queued c a) s = fst (nr_reject_queued c a s)"
| "nr_exec (NC_Completed_Or_Failed b a) s = fst (nr_completed_or_failed b a s)"
| "nr_exec (NC_Lease_Drop a) s = nr_lease_drop a s"
| "nr_exec (NC_Set_Flags st) s = s\<lparr>nr_flags := st\<rparr>"
| "nr_exec NC_Quiesce s = nr_quiesce s"
| "nr_exec NC_Quiesce_And_Cancel s = nr_begin_quiesce_and_cancel_all s"
| "nr_exec NC_Shutdown s =
     (let s = nr_begin_quiesce_and_cancel_all s
      in case nr_shutdown_try s of None \<Rightarrow> s | Some (t, outcome) \<Rightarrow> t)"
| "nr_exec NC_Close s = fst (nr_close s)"
| "nr_exec (NC_Worker_Joined w) s = nr_record_external_worker_joined w s"
| "nr_exec NC_Mark_Closed s = fst (nr_mark_closed s)"
| "nr_exec NC_Poison s = s\<lparr>nr_poisoned := True\<rparr>"
| "nr_exec (NC_Poison_Lifecycle a) s = nr_put a ((nr_entries s ! a)\<lparr>ar_poisoned := True\<rparr>) s"

inductive nr_step :: "nr_state \<Rightarrow> nr_state \<Rightarrow> bool" where
  nr_step: "nr_call_ok s c \<Longrightarrow> nr_step s (nr_exec c s)"

section \<open>What a step can do\<close>

definition ar_static :: "active_request \<Rightarrow> active_request \<Rightarrow> bool" where
  "ar_static e e' \<longleftrightarrow>
     ar_request_id e' = ar_request_id e \<and> ar_class e' = ar_class e \<and> ar_controls e' = ar_controls e \<and>
     ar_nonce e' = ar_nonce e \<and> ar_identity e' = ar_identity e"

text \<open>The changes of an entry that keep its lease.\<close>

definition ar_evolves :: "active_request \<Rightarrow> active_request \<Rightarrow> bool" where
  "ar_evolves e e' \<longleftrightarrow> ar_static e e' \<and>
     (ar_phase e' = ar_phase e \<and> ar_terminal e' = ar_terminal e \<or>
      ar_phase e = Reserved \<and> ar_phase e' = Queued \<and> ar_terminal e' = ar_terminal e \<or>
      ar_phase e = Queued \<and> ar_phase e' = Running \<and> ar_terminal e' = ar_terminal e \<or>
      (\<exists>c. (ar_phase e = Running \<or> ar_phase e = Queued \<and> c \<noteq> Completed) \<and> ar_terminal e = None \<and>
           ar_phase e' = Terminal \<and> ar_terminal e' = Some \<lparr>rt_class = c, rt_sequence = ar_nonce e\<rparr>))"

inductive nr_move :: "nr_state \<Rightarrow> nr_state \<Rightarrow> bool" where
  nm_stay: "nr_entries t = nr_entries s \<Longrightarrow> nr_active t = nr_active s \<Longrightarrow> nr_next_nonce t = nr_next_nonce s \<Longrightarrow>
    nr_leases t = nr_leases s \<Longrightarrow> nr_move s t"
| nm_entry: "a < length (nr_entries s) \<Longrightarrow> ar_evolves (nr_entries s ! a) e \<Longrightarrow>
    nr_entries t = (nr_entries s)[a := e] \<Longrightarrow> nr_active t = nr_active s \<Longrightarrow> nr_next_nonce t = nr_next_nonce s \<Longrightarrow>
    nr_leases t = nr_leases s \<Longrightarrow> nr_move s t"
| nm_drop: "a \<in> nr_leases s \<Longrightarrow> nr_entries t = (nr_entries s)[a := nr_abandon_entry (nr_flags s) (nr_entries s ! a)] \<Longrightarrow>
    nr_active t = (nr_active s)(ar_request_id (nr_entries s ! a) := None) \<Longrightarrow> nr_next_nonce t = nr_next_nonce s \<Longrightarrow>
    nr_leases t = nr_leases s - {a} \<Longrightarrow> nr_move s t"
| nm_admit: "nr_active s rid = None \<Longrightarrow> nr_next_nonce s < U64_MAX \<Longrightarrow> nr_phase s = Reg_Running \<Longrightarrow>
    nr_entries t = nr_entries s @ [nr_new_entry rid cls ctl (nr_next_nonce s)] \<Longrightarrow>
    nr_active t = (nr_active s)(rid \<mapsto> length (nr_entries s)) \<Longrightarrow> nr_next_nonce t = Suc (nr_next_nonce s) \<Longrightarrow>
    nr_leases t = insert (length (nr_entries s)) (nr_leases s) \<Longrightarrow> nr_move s t"

definition ar_ok :: "nat \<Rightarrow> active_request \<Rightarrow> bool" where
  "ar_ok i e \<longleftrightarrow> ar_nonce e = i \<and> rid_sequence (ar_identity e) = i \<and>
     rid_operation_id (ar_identity e) = ar_request_id e \<and>
     rid_attempt_id (ar_identity e) = ar_request_id e @ ''#attempt-'' @ show_nat i \<and>
     (ar_terminal e = None \<longleftrightarrow> phase_rank (ar_phase e) < phase_rank Terminal) \<and>
     (\<forall>t. ar_terminal e = Some t \<longrightarrow> rt_sequence t = i)"

definition nr_inv :: "nr_state \<Rightarrow> bool" where
  "nr_inv s \<longleftrightarrow>
     nr_next_nonce s = length (nr_entries s) \<and> length (nr_entries s) \<le> U64_MAX \<and>
     (\<forall>i < length (nr_entries s). ar_ok i (nr_entries s ! i) \<and>
        (i \<in> nr_leases s \<longleftrightarrow> ar_phase (nr_entries s ! i) \<noteq> Released)) \<and>
     (\<forall>oid a. nr_active s oid = Some a \<longleftrightarrow> a \<in> nr_leases s \<and> ar_request_id (nr_entries s ! a) = oid) \<and>
     nr_leases s \<subseteq> {..< length (nr_entries s)}"

lemma nr_invD:
  assumes "nr_inv s"
  shows "nr_next_nonce s = length (nr_entries s)" "length (nr_entries s) \<le> U64_MAX"
    "i < length (nr_entries s) \<Longrightarrow> ar_ok i (nr_entries s ! i)"
    "i < length (nr_entries s) \<Longrightarrow> i \<in> nr_leases s \<longleftrightarrow> ar_phase (nr_entries s ! i) \<noteq> Released"
    "nr_active s oid = Some a \<longleftrightarrow> a \<in> nr_leases s \<and> ar_request_id (nr_entries s ! a) = oid"
    "a \<in> nr_leases s \<Longrightarrow> a < length (nr_entries s)"
  using assms unfolding nr_inv_def by blast+

lemma nr_lease_current: "nr_inv s \<Longrightarrow> a \<in> nr_leases s \<Longrightarrow> nr_is_current s a"
  by (simp add: nr_is_current_def nr_invD(5) split: option.split)
     (metis nr_invD(5) option.distinct(1) option.inject)

lemma nr_inv_finite: "nr_inv s \<Longrightarrow> finite (dom (nr_active s))"
proof -
  assume inv: "nr_inv s"
  have "dom (nr_active s) \<subseteq> (\<lambda>a. ar_request_id (nr_entries s ! a)) ` nr_leases s"
    using nr_invD(5) [OF inv] by (auto simp: dom_def)
  moreover have "finite (nr_leases s)" using inv by (auto simp: nr_inv_def intro: finite_subset)
  ultimately show ?thesis by (meson finite_imageI finite_subset)
qed

lemma ar_evolves_updates:
  "ar_evolves e (e\<lparr>ar_poisoned := b\<rparr>)"
  "ar_phase e = Reserved \<Longrightarrow> ar_evolves e (e\<lparr>ar_phase := Queued\<rparr>)"
  "ar_phase e = Queued \<Longrightarrow> ar_evolves e (e\<lparr>ar_phase := Running\<rparr>)"
  "ar_phase e = Running \<or> ar_phase e = Queued \<and> c \<noteq> Completed \<Longrightarrow> ar_terminal e = None \<Longrightarrow>
     ar_evolves e (e\<lparr>ar_terminal := Some \<lparr>rt_class = c, rt_sequence = ar_nonce e\<rparr>, ar_phase := Terminal\<rparr>)"
  by (auto simp: ar_evolves_def ar_static_def)

lemma nr_put_move: "a < length (nr_entries s) \<Longrightarrow> ar_evolves (nr_entries s ! a) e \<Longrightarrow> nr_move s (nr_put a e s)"
  by (rule nm_entry) (simp_all add: nr_put_def)

lemma nr_move_refl [simp]: "nr_move s s"
  by (rule nm_stay) simp_all

lemma nr_with_lifecycle_move:
  "nr_move s (fst (f (nr_entries s ! a))) \<Longrightarrow> nr_move s (fst (nr_with_lifecycle a s f))"
  by (simp add: nr_with_lifecycle_def split: result.split)

lemma nr_cancel_fold:
  "nr_entries (fold (\<lambda>a s. fst (nr_cancel_all a s)) xs s) = nr_entries s"
  "nr_active (fold (\<lambda>a s. fst (nr_cancel_all a s)) xs s) = nr_active s"
  "nr_next_nonce (fold (\<lambda>a s. fst (nr_cancel_all a s)) xs s) = nr_next_nonce s"
  "nr_leases (fold (\<lambda>a s. fst (nr_cancel_all a s)) xs s) = nr_leases s"
  "nr_phase (fold (\<lambda>a s. fst (nr_cancel_all a s)) xs s) = nr_phase s"
  "nr_shutdown (fold (\<lambda>a s. fst (nr_cancel_all a s)) xs s) = nr_shutdown s"
  "nr_poisoned (fold (\<lambda>a s. fst (nr_cancel_all a s)) xs s) = nr_poisoned s"
  by (induction xs arbitrary: s) (simp_all add: nr_cancel_all_def split: prod.split)

lemma nr_quiesce_fields [simp]:
  "nr_entries (nr_begin_quiesce_and_cancel_all s) = nr_entries s"
  "nr_active (nr_begin_quiesce_and_cancel_all s) = nr_active s"
  "nr_next_nonce (nr_begin_quiesce_and_cancel_all s) = nr_next_nonce s"
  "nr_leases (nr_begin_quiesce_and_cancel_all s) = nr_leases s"
  "nr_shutdown (nr_begin_quiesce_and_cancel_all s) = nr_shutdown s"
  "nr_poisoned (nr_begin_quiesce_and_cancel_all s) = nr_poisoned s"
  "nr_phase (nr_begin_quiesce_and_cancel_all s) = (if nr_phase s = Reg_Closed then Reg_Closed else Reg_Quiescing)"
  by (simp_all add: nr_begin_quiesce_and_cancel_all_def nr_cancel_fold nr_quiesce_def)

lemma nr_close_fields [simp]:
  "nr_entries (fst (nr_close s)) = nr_entries s" "nr_active (fst (nr_close s)) = nr_active s"
  "nr_next_nonce (fst (nr_close s)) = nr_next_nonce s" "nr_leases (fst (nr_close s)) = nr_leases s"
  "nr_phase (fst (nr_close s)) = Reg_Closed" "nr_shutdown (fst (nr_close s)) = Some (snd (nr_close s))"
  "so_active_operations (snd (nr_close s)) = card (dom (nr_active s))"
  "so_state_poisoned (snd (nr_close s)) = nr_poisoned s"
  by (simp_all add: nr_close_def Let_def)

lemma nr_lease_drop_move:
  assumes inv: "nr_inv s" and a: "a \<in> nr_leases s"
  shows "nr_move s (nr_lease_drop a s)"
  by (rule nm_drop [OF a])
     (simp_all add: nr_lease_drop_def nr_abandon_if_current_def nr_lease_current [OF inv a] nr_put_def)

lemma nr_reserve_move: "nr_move s (fst (nr_reserve rid cls ctl s))"
proof (cases "nr_poisoned s \<or> nr_phase s \<noteq> Reg_Running \<or> nr_active s rid \<noteq> None \<or> U64_MAX < nr_next_nonce s + 1")
  case True
  then show ?thesis by (auto simp: nr_reserve_def checked_add_def)
next
  case False
  show ?thesis
    by (rule nm_admit [of s rid _ cls ctl]) (use False in \<open>auto simp: nr_reserve_def checked_add_def Let_def\<close>)
qed

lemma nr_exec_move:
  assumes inv: "nr_inv s" and ok: "nr_call_ok s c"
  shows "nr_move s (nr_exec c s)"
proof (cases c)
  case (NC_Reserve rid cls ctl)
  then show ?thesis by (simp add: nr_reserve_move)
next
  case (NC_Queue a)
  then show ?thesis using ok nr_invD(6) [OF inv] unfolding NC_Queue nr_exec.simps nr_queue_def nr_transition_def
    by (intro nr_with_lifecycle_move) (auto intro: nr_put_move ar_evolves_updates)
next
  case (NC_Start a)
  then show ?thesis using ok nr_invD(6) [OF inv] unfolding NC_Start nr_exec.simps nr_start_def nr_transition_def
    by (intro nr_with_lifecycle_move) (auto intro: nr_put_move ar_evolves_updates)
next
  case (NC_Terminal d a)
  then show ?thesis using ok nr_invD(6) [OF inv] unfolding NC_Terminal nr_exec.simps nr_terminal_def
    by (intro nr_with_lifecycle_move) (auto intro!: nr_put_move ar_evolves_updates(4))
next
  case (NC_Reject_Queued d a)
  then show ?thesis using ok nr_invD(6) [OF inv] unfolding NC_Reject_Queued nr_exec.simps nr_reject_queued_def
    by (intro nr_with_lifecycle_move) (auto intro!: nr_put_move ar_evolves_updates(4))
next
  case (NC_Completed_Or_Failed b a)
  then show ?thesis using ok nr_invD(6) [OF inv]
    unfolding NC_Completed_Or_Failed nr_exec.simps nr_completed_or_failed_def nr_terminal_def
    by (intro nr_with_lifecycle_move) (auto intro!: nr_put_move ar_evolves_updates(4))
next
  case (NC_Lease_Drop a)
  then show ?thesis using ok nr_lease_drop_move [OF inv] by simp
next
  case (NC_Poison_Lifecycle a)
  then show ?thesis using ok by (auto intro!: nr_put_move ar_evolves_updates)
next
  case NC_Shutdown
  show ?thesis unfolding NC_Shutdown
    by (rule nm_stay) (auto simp: Let_def nr_shutdown_try_def case_prod_beta split: option.splits)
qed (auto intro!: nm_stay simp: nr_quiesce_def nr_record_external_worker_joined_def nr_mark_closed_def)

section \<open>Invariant and simulation\<close>

lemma ar_evolves_ok:
  assumes "ar_evolves e e'" and "ar_ok i e"
  shows "ar_ok i e'" and "ar_phase e' = Released \<longleftrightarrow> ar_phase e = Released" and "ar_request_id e' = ar_request_id e"
proof -
  have static: "ar_static e e'" using assms(1) by (simp add: ar_evolves_def)
  then show "ar_request_id e' = ar_request_id e" by (simp add: ar_static_def)
  from assms(1) consider
    (same) "ar_phase e' = ar_phase e" "ar_terminal e' = ar_terminal e"
  | (queue) "ar_phase e = Reserved" "ar_phase e' = Queued" "ar_terminal e' = ar_terminal e"
  | (start) "ar_phase e = Queued" "ar_phase e' = Running" "ar_terminal e' = ar_terminal e"
  | (settle) c where "ar_phase e = Running \<or> ar_phase e = Queued" "ar_phase e' = Terminal"
      "ar_terminal e' = Some \<lparr>rt_class = c, rt_sequence = ar_nonce e\<rparr>"
    unfolding ar_evolves_def by blast
  note evolved = this
  show "ar_ok i e'"
    using evolved by cases (use assms(2) static in \<open>simp_all add: ar_ok_def ar_static_def\<close>)
  show "ar_phase e' = Released \<longleftrightarrow> ar_phase e = Released"
    using evolved by cases auto
qed

lemma nr_abandon_ok:
  assumes "ar_ok i e" shows "ar_ok i (nr_abandon_entry st e)"
  using assms by (auto simp: ar_ok_def nr_abandon_entry_def split: option.split)

lemma nr_abandon_fields [simp]:
  "ar_request_id (nr_abandon_entry st e) = ar_request_id e" "ar_phase (nr_abandon_entry st e) = Released"
  by (simp_all add: nr_abandon_entry_def)

lemma nr_move_inv:
  assumes mv: "nr_move s t" and inv: "nr_inv s"
  shows "nr_inv t"
  using mv
proof (cases rule: nr_move.cases)
  case nm_stay
  with inv show ?thesis by (simp add: nr_inv_def)
next
  case (nm_entry a e)
  note ev = ar_evolves_ok [OF nm_entry(2) nr_invD(3) [OF inv nm_entry(1)]]
  have req: "ar_request_id (nr_entries t ! b) = ar_request_id (nr_entries s ! b)" for b
    using ev(3) nm_entry(1,3) by (cases "b = a") simp_all
  have "ar_ok i (nr_entries t ! i) \<and> (i \<in> nr_leases t \<longleftrightarrow> ar_phase (nr_entries t ! i) \<noteq> Released)"
    if "i < length (nr_entries t)" for i
    using that ev(1,2) nm_entry nr_invD(3,4) [OF inv, of i] by (cases "i = a") simp_all
  then show ?thesis
    unfolding nr_inv_def req using nm_entry nr_invD [OF inv] inv by (auto simp: nr_inv_def)
next
  case (nm_drop a)
  have a: "a < length (nr_entries s)" using nr_invD(6) [OF inv nm_drop(1)] .
  have req: "ar_request_id (nr_entries t ! b) = ar_request_id (nr_entries s ! b)" for b
    using nm_drop(2) a by (cases "b = a") simp_all
  have "ar_ok i (nr_entries t ! i) \<and> (i \<in> nr_leases t \<longleftrightarrow> ar_phase (nr_entries t ! i) \<noteq> Released)"
    if "i < length (nr_entries t)" for i
    using that nm_drop a nr_invD(3,4) [OF inv, of i] nr_abandon_ok by (cases "i = a") simp_all
  moreover have "nr_active t oid = Some b \<longleftrightarrow> b \<in> nr_leases t \<and> ar_request_id (nr_entries t ! b) = oid" for oid b
    unfolding req nm_drop(3,5)
    using nr_invD(5) [OF inv, of "ar_request_id (nr_entries s ! a)" a] nm_drop(1) nr_invD(5) [OF inv, of oid b]
    by (auto simp: fun_upd_def)
  ultimately show ?thesis
    unfolding nr_inv_def using nm_drop nr_invD [OF inv] by auto
next
  case (nm_admit rid cls ctl)
  let ?n = "length (nr_entries s)"
  have n: "nr_next_nonce s = ?n" by (rule nr_invD(1) [OF inv])
  have new: "ar_ok ?n (nr_new_entry rid cls ctl ?n)" "ar_phase (nr_new_entry rid cls ctl ?n) \<noteq> Released"
    "ar_request_id (nr_new_entry rid cls ctl ?n) = rid"
    by (simp_all add: ar_ok_def nr_new_entry_def)
  have fresh: "?n \<notin> nr_leases s" using nr_invD(6) [OF inv, of ?n] by auto
  have "ar_ok i (nr_entries t ! i) \<and> (i \<in> nr_leases t \<longleftrightarrow> ar_phase (nr_entries t ! i) \<noteq> Released)"
    if "i < length (nr_entries t)" for i
    using that new nm_admit n nr_invD(3,4) [OF inv, of i] fresh
    by (cases "i = ?n") (auto simp: nth_append)
  moreover have "nr_active t oid = Some b \<longleftrightarrow> b \<in> nr_leases t \<and> ar_request_id (nr_entries t ! b) = oid" for oid b
  proof -
    have "b \<in> nr_leases s \<Longrightarrow> b < ?n" by (rule nr_invD(6) [OF inv])
    moreover have "\<not> (b \<in> nr_leases s \<and> ar_request_id (nr_entries s ! b) = rid)"
      using nm_admit(1) nr_invD(5) [OF inv, of rid b] by simp
    ultimately show ?thesis
      using nm_admit n new(3) fresh nr_invD(5) [OF inv, of oid b] by (auto simp: nth_append)
  qed
  ultimately show ?thesis
    unfolding nr_inv_def using nm_admit n nr_invD [OF inv] by (auto simp: less_Suc_eq)
qed

definition nr_abs_entry :: "active_request \<Rightarrow> live_op" where
  "nr_abs_entry e =
     \<lparr>lo_sequence = ar_nonce e, lo_phase = ar_phase e, lo_terminal = map_option rt_class (ar_terminal e)\<rparr>"

definition nr_abs :: "nr_state \<Rightarrow> string lifecycle" where
  "nr_abs s = \<lparr>lc_next = nr_next_nonce s,
     lc_live = (\<lambda>oid. map_option (\<lambda>a. nr_abs_entry (nr_entries s ! a)) (nr_active s oid))\<rparr>"

lemma nr_abs_inv:
  assumes inv: "nr_inv s"
  shows "lc_inv (nr_abs s)"
proof -
  have live: "\<exists>a. a \<in> nr_leases s \<and> a < length (nr_entries s) \<and> ar_request_id (nr_entries s ! a) = oid \<and>
      r = nr_abs_entry (nr_entries s ! a) \<and> lo_sequence r = a"
    if "lc_live (nr_abs s) oid = Some r" for oid r
  proof -
    from that obtain a where a: "nr_active s oid = Some a" and r: "r = nr_abs_entry (nr_entries s ! a)"
      by (auto simp: nr_abs_def)
    then have "a \<in> nr_leases s" "ar_request_id (nr_entries s ! a) = oid" using nr_invD(5) [OF inv] by auto
    moreover from this have "a < length (nr_entries s)" using nr_invD(6) [OF inv] by blast
    moreover from this have "ar_nonce (nr_entries s ! a) = a" using nr_invD(3) [OF inv] by (simp add: ar_ok_def)
    ultimately show ?thesis using r by (auto simp: nr_abs_entry_def)
  qed
  show ?thesis
    unfolding lc_inv_def
  proof (intro conjI allI impI)
    fix oid r assume "lc_live (nr_abs s) oid = Some r"
    from live [OF this] obtain a where a: "a \<in> nr_leases s" "a < length (nr_entries s)"
      "r = nr_abs_entry (nr_entries s ! a)" "lo_sequence r = a" by blast
    note ok = nr_invD(3) [OF inv a(2)] nr_invD(4) [OF inv a(2)]
    show "lo_sequence r < lc_next (nr_abs s)" using a nr_invD(1) [OF inv] by (simp add: nr_abs_def)
    show "lo_phase r \<noteq> Released" using a ok by (simp add: nr_abs_entry_def)
    show "lo_terminal r = None \<longleftrightarrow> phase_rank (lo_phase r) < phase_rank Terminal"
      using a(3) ok(1) by (simp add: nr_abs_entry_def ar_ok_def)
  next
    fix i j r r' assume "lc_live (nr_abs s) i = Some r" "lc_live (nr_abs s) j = Some r'" "lo_sequence r = lo_sequence r'"
    with live show "i = j" by metis
  qed
qed

lemma ar_evolves_sim:
  assumes live: "lc_live a oid = Some (nr_abs_entry e)" and ev: "ar_evolves e e'"
  shows "lc_step\<^sup>*\<^sup>* a (a\<lparr>lc_live := (lc_live a)(oid \<mapsto> nr_abs_entry e')\<rparr>)"
proof -
  have n: "ar_nonce e' = ar_nonce e" using ev by (simp add: ar_evolves_def ar_static_def)
  from ev consider
    (same) "ar_phase e' = ar_phase e" "ar_terminal e' = ar_terminal e"
  | (queue) "ar_phase e = Reserved" "ar_phase e' = Queued" "ar_terminal e' = ar_terminal e"
  | (start) "ar_phase e = Queued" "ar_phase e' = Running" "ar_terminal e' = ar_terminal e"
  | (settle) c where "ar_phase e = Running \<or> ar_phase e = Queued \<and> c \<noteq> Completed" "ar_phase e' = Terminal"
      "ar_terminal e' = Some \<lparr>rt_class = c, rt_sequence = ar_nonce e\<rparr>"
    unfolding ar_evolves_def by blast
  then show ?thesis
  proof cases
    case same
    then have "nr_abs_entry e' = nr_abs_entry e" using n by (simp add: nr_abs_entry_def)
    with live have "a\<lparr>lc_live := (lc_live a)(oid \<mapsto> nr_abs_entry e')\<rparr> = a" by (simp add: map_upd_triv)
    then show ?thesis by simp
  next
    case queue
    with lc_queue [OF live] n show ?thesis by (simp add: nr_abs_entry_def r_into_rtranclp)
  next
    case start
    with lc_start [OF live] n show ?thesis by (simp add: nr_abs_entry_def r_into_rtranclp)
  next
    case settle
    with lc_settle [OF live, of c] n show ?thesis by (auto simp: nr_abs_entry_def intro!: r_into_rtranclp)
  qed
qed

lemma nr_move_sim:
  assumes mv: "nr_move s t" and inv: "nr_inv s"
  shows "lc_step\<^sup>*\<^sup>* (nr_abs s) (nr_abs t)"
  using mv
proof (cases rule: nr_move.cases)
  case nm_stay
  then show ?thesis by (simp add: nr_abs_def)
next
  case (nm_entry a e)
  let ?oid = "ar_request_id (nr_entries s ! a)"
  have act: "nr_active s oid = Some a \<Longrightarrow> oid = ?oid" for oid by (auto simp: nr_invD(5) [OF inv])
  show ?thesis
  proof (cases "a \<in> nr_leases s")
    case True
    then have active: "nr_active s ?oid = Some a" using nr_invD(5) [OF inv] by blast
    have "lc_live (nr_abs t) oid = ((lc_live (nr_abs s))(?oid \<mapsto> nr_abs_entry e)) oid" for oid
    proof (cases "oid = ?oid")
      case True
      with nm_entry active show ?thesis by (simp add: nr_abs_def)
    next
      case False
      with act have "nr_active s oid \<noteq> Some a" by blast
      with False nm_entry show ?thesis by (cases "nr_active s oid") (simp_all add: nr_abs_def)
    qed
    then have "nr_abs t = (nr_abs s)\<lparr>lc_live := (lc_live (nr_abs s))(?oid \<mapsto> nr_abs_entry e)\<rparr>"
      using nm_entry(5) by (simp add: nr_abs_def fun_eq_iff)
    with ar_evolves_sim [of "nr_abs s" ?oid, OF _ nm_entry(2)] active show ?thesis by (simp add: nr_abs_def)
  next
    case False
    then have "nr_active s oid \<noteq> Some a" for oid by (auto simp: nr_invD(5) [OF inv])
    then have "nr_abs t = nr_abs s"
      using nm_entry by (auto simp: nr_abs_def fun_eq_iff nth_list_update intro!: option.map_cong)
    then show ?thesis by simp
  qed
next
  case (nm_drop a)
  let ?oid = "ar_request_id (nr_entries s ! a)"
  have active: "nr_active s ?oid = Some a" using nr_invD(5) [OF inv] nm_drop(1) by blast
  have act: "nr_active s oid = Some a \<Longrightarrow> oid = ?oid" for oid by (auto simp: nr_invD(5) [OF inv])
  have "nr_abs t = (nr_abs s)\<lparr>lc_live := (lc_live (nr_abs s))(?oid := None)\<rparr>"
    using nm_drop act nr_invD(6) [OF inv nm_drop(1)]
    by (auto simp: nr_abs_def fun_eq_iff nth_list_update intro!: option.map_cong)
  with lc_leave [OF nr_abs_inv [OF inv], of ?oid] active show ?thesis by (simp add: nr_abs_def)
next
  case (nm_admit rid cls ctl)
  have "nr_active s oid = Some b \<Longrightarrow> b < length (nr_entries s)" for oid b
    using nr_invD(5,6) [OF inv] by blast
  then have "nr_abs t = \<lparr>lc_next = Suc (lc_next (nr_abs s)), lc_live = (lc_live (nr_abs s))(rid \<mapsto>
      \<lparr>lo_sequence = lc_next (nr_abs s), lo_phase = Reserved, lo_terminal = None\<rparr>)\<rparr>"
    using nm_admit by (auto simp: nr_abs_def fun_eq_iff nth_append nr_abs_entry_def nr_new_entry_def intro!: option.map_cong)
  with lc_reserve [of "nr_abs s" rid] nm_admit(1) show ?thesis by (simp add: nr_abs_def r_into_rtranclp)
qed

lemma nr_step_move: "nr_step s t \<Longrightarrow> nr_inv s \<Longrightarrow> nr_move s t"
  by (induction rule: nr_step.induct) (rule nr_exec_move)

interpretation nr: lifecycle_impl nr_step nr_inv nr_abs
  by unfold_locales (auto intro: nr_abs_inv nr_move_inv nr_move_sim nr_step_move)

lemma nr_inv_new: "nr_inv nr_new"
  by (simp add: nr_inv_def nr_new_def)

section \<open>Guarantees\<close>

subsection \<open>Outcomes\<close>

text \<open>What any number of steps does to an entry.\<close>

definition ar_later :: "active_request \<Rightarrow> active_request \<Rightarrow> bool" where
  "ar_later e e' \<longleftrightarrow> ar_static e e' \<and> phase_rank (ar_phase e) \<le> phase_rank (ar_phase e') \<and>
     (\<forall>t. ar_terminal e = Some t \<longrightarrow> ar_terminal e' = Some t)"

lemma ar_later_refl [simp]: "ar_later e e"
  by (simp add: ar_later_def ar_static_def)

lemma ar_later_trans: "ar_later e f \<Longrightarrow> ar_later f g \<Longrightarrow> ar_later e g"
  by (simp add: ar_later_def ar_static_def)

lemma ar_evolves_later: "ar_evolves e e' \<Longrightarrow> ar_later e e'"
  by (auto simp: ar_evolves_def ar_later_def)

lemma nr_abandon_later: "ar_later e (nr_abandon_entry st e)"
  by (cases "ar_phase e") (simp_all add: ar_later_def ar_static_def nr_abandon_entry_def)

lemma nr_move_later:
  assumes mv: "nr_move s t" and a: "a < length (nr_entries s)"
  shows "a < length (nr_entries t) \<and> ar_later (nr_entries s ! a) (nr_entries t ! a)"
  using mv
proof (cases rule: nr_move.cases)
  case (nm_entry b e)
  with a ar_evolves_later show ?thesis by (cases "b = a") simp_all
next
  case (nm_drop b)
  with a nr_abandon_later show ?thesis by (cases "b = a") simp_all
next
  case (nm_admit rid cls ctl)
  with a show ?thesis by (simp add: nth_append)
qed (use a in simp)

lemma nr_steps_later:
  assumes "nr_step\<^sup>*\<^sup>* s t" and "nr_inv s" and "a < length (nr_entries s)"
  shows "a < length (nr_entries t) \<and> ar_later (nr_entries s ! a) (nr_entries t ! a)"
  using assms
proof (induction rule: rtranclp_induct)
  case base
  then show ?case by simp
next
  case (step t u)
  then have t: "nr_inv t" by (blast intro: nr.steps_inv)
  from step have "a < length (nr_entries t)" "ar_later (nr_entries s ! a) (nr_entries t ! a)" by auto
  with nr_move_later [OF nr_step_move [OF step(2) t]] show ?case by (blast intro: ar_later_trans)
qed

text \<open>A request that has not run and does not run has not completed.\<close>

definition not_run :: "active_request \<Rightarrow> bool" where
  "not_run e \<longleftrightarrow> ar_phase e \<noteq> Running \<and> (\<forall>t. ar_terminal e = Some t \<longrightarrow> rt_class t \<noteq> Completed)"

lemma nr_move_not_run:
  assumes mv: "nr_move s t" and a: "a < length (nr_entries s)" and nr: "not_run (nr_entries s ! a)"
  shows "ar_phase (nr_entries t ! a) = Running \<or> not_run (nr_entries t ! a)"
  using mv
proof (cases rule: nr_move.cases)
  case (nm_entry b e)
  have "ar_phase e = Running \<or> not_run e" if "b = a"
    using nm_entry(2) nr that unfolding ar_evolves_def not_run_def by auto
  with nm_entry nr a show ?thesis by (cases "b = a") simp_all
next
  case (nm_drop b)
  have "not_run (nr_abandon_entry st (nr_entries s ! a))" for st
    using nr by (auto simp: not_run_def nr_abandon_entry_def split: option.splits)
  with nm_drop nr a show ?thesis by (cases "b = a") simp_all
next
  case (nm_admit rid cls ctl)
  with a nr show ?thesis by (simp add: nth_append)
qed (use a nr in simp)

lemma nr_steps_not_run:
  assumes "nr_step\<^sup>*\<^sup>* s t" and "nr_inv s" and "a < length (nr_entries s)" and "not_run (nr_entries s ! a)"
  shows "not_run (nr_entries t ! a) \<or>
    (\<exists>u. nr_step\<^sup>*\<^sup>* s u \<and> nr_step\<^sup>*\<^sup>* u t \<and> ar_phase (nr_entries u ! a) = Running)"
  using assms
proof (induction rule: rtranclp_induct)
  case base
  then show ?case by simp
next
  case (step t u)
  have t: "nr_inv t" and a: "a < length (nr_entries t)"
    using step nr.steps_inv nr_steps_later by blast+
  from step.IH [OF step.prems] show ?case
  proof
    assume "not_run (nr_entries t ! a)"
    with nr_move_not_run [OF nr_step_move [OF step(2) t] a] step(1,2) show ?case
      by (meson rtranclp.rtrancl_into_rtrancl rtranclp.rtrancl_refl)
  next
    assume "\<exists>v. nr_step\<^sup>*\<^sup>* s v \<and> nr_step\<^sup>*\<^sup>* v t \<and> ar_phase (nr_entries v ! a) = Running"
    with step(2) show ?case by (meson rtranclp.rtrancl_into_rtrancl)
  qed
qed

text \<open>
  One outcome per request. In every run of the registry the static data of a request never
  change, its phase never goes back, and a selected terminal is kept for good, also through the
  release when the lease is dropped; it carries the request's own sequence number. A request that
  is reserved or queued can only end as Completed if it was Running in between.
\<close>

theorem nr_outcome_is_final:
  assumes "nr_inv s" and "a < length (nr_entries s)" and "nr_step\<^sup>*\<^sup>* s t"
  defines "e \<equiv> nr_entries s ! a" and "e' \<equiv> nr_entries t ! a"
  shows "ar_static e e' \<and> phase_rank (ar_phase e) \<le> phase_rank (ar_phase e') \<and>
    (\<forall>x. ar_terminal e = Some x \<longrightarrow> ar_terminal e' = Some x) \<and>
    (\<forall>x. ar_terminal e' = Some x \<longrightarrow> rt_sequence x = ar_nonce e) \<and>
    (ar_phase e \<in> {Reserved, Queued} \<longrightarrow> map_option rt_class (ar_terminal e') = Some Completed \<longrightarrow>
      (\<exists>u. nr_step\<^sup>*\<^sup>* s u \<and> nr_step\<^sup>*\<^sup>* u t \<and> ar_phase (nr_entries u ! a) = Running))"
proof -
  have later: "a < length (nr_entries t)" "ar_later e e'"
    using nr_steps_later [OF assms(3,1,2)] by (simp_all add: e_def e'_def)
  have t: "nr_inv t" by (rule nr.steps_inv [OF assms(3,1)])
  have ok: "ar_ok a e" "ar_ok a e'"
    using nr_invD(3) [OF assms(1,2)] nr_invD(3) [OF t later(1)] by (simp_all add: e_def e'_def)
  have "not_run e" if "ar_phase e \<in> {Reserved, Queued}"
    using that ok(1) by (auto simp: not_run_def ar_ok_def)
  then have "ar_phase e \<in> {Reserved, Queued} \<longrightarrow> map_option rt_class (ar_terminal e') = Some Completed \<longrightarrow>
      (\<exists>u. nr_step\<^sup>*\<^sup>* s u \<and> nr_step\<^sup>*\<^sup>* u t \<and> ar_phase (nr_entries u ! a) = Running)"
    using nr_steps_not_run [OF assms(3,1,2)] by (auto simp: e_def e'_def not_run_def)
  moreover have "\<forall>x. ar_terminal e' = Some x \<longrightarrow> rt_sequence x = ar_nonce e"
    using ok by (simp add: ar_ok_def)
  ultimately show ?thesis using later(2) by (simp add: ar_later_def)
qed

definition nr_demo_queued :: nr_state where
  "nr_demo_queued = nr_exec (NC_Queue 0) (nr_exec (NC_Reserve ''r'' Class_Embedding (Ctl_Embedding 7)) nr_new)"

lemma nr_demo_queued_eq:
  "nr_demo_queued = nr_new\<lparr>nr_next_nonce := 1, nr_active := [''r'' \<mapsto> 0], nr_leases := {0},
     nr_entries := [(nr_new_entry ''r'' Class_Embedding (Ctl_Embedding 7) 0)\<lparr>ar_phase := Queued\<rparr>]\<rparr>"
  by (simp add: nr_demo_queued_def nr_new_def nr_reserve_def checked_add_def U64_MAX_def Let_def nr_queue_def
      nr_transition_def nr_with_lifecycle_def nr_require_current_def nr_is_current_def nr_new_entry_def nr_put_def)

lemma nr_demo_queued_inv: "nr_inv nr_demo_queued"
proof -
  let ?r = "nr_exec (NC_Reserve ''r'' Class_Embedding (Ctl_Embedding 7)) nr_new"
  have "nr_step nr_new ?r" by (rule nr_step) simp
  moreover have "nr_step ?r nr_demo_queued"
    unfolding nr_demo_queued_def
    by (rule nr_step) (simp add: nr_reserve_def nr_new_def checked_add_def U64_MAX_def Let_def)
  ultimately show ?thesis using nr.step_inv nr_inv_new by blast
qed

lemma nr_demo_drop: "nr_step nr_demo_queued (nr_lease_drop 0 nr_demo_queued)"
  using nr_step [of nr_demo_queued "NC_Lease_Drop 0"] by (simp add: nr_demo_queued_eq)

theorem nr_outcome_is_final_witness:
  "ar_terminal (nr_entries (nr_lease_drop 0 nr_demo_queued) ! 0) = Some \<lparr>rt_class = Failed, rt_sequence = 0\<rparr> \<and>
   ar_static (nr_entries nr_demo_queued ! 0) (nr_entries (nr_lease_drop 0 nr_demo_queued) ! 0)"
proof
  show "ar_terminal (nr_entries (nr_lease_drop 0 nr_demo_queued) ! 0) = Some \<lparr>rt_class = Failed, rt_sequence = 0\<rparr>"
    by (simp add: nr_demo_queued_eq nr_lease_drop_def nr_abandon_if_current_def nr_is_current_def nr_put_def
        nr_abandon_entry_def nr_new_entry_def nr_new_def)
  have "0 < length (nr_entries nr_demo_queued)" by (simp add: nr_demo_queued_eq)
  then show "ar_static (nr_entries nr_demo_queued ! 0) (nr_entries (nr_lease_drop 0 nr_demo_queued) ! 0)"
    using nr_outcome_is_final [OF nr_demo_queued_inv _ r_into_rtranclp [of nr_step, OF nr_demo_drop], of 0] by blast
qed

subsection \<open>Leases\<close>

lemma nr_active_leases:
  assumes inv: "nr_inv s"
  shows "card (dom (nr_active s)) = card (nr_leases s)"
proof -
  have "bij_betw (\<lambda>a. ar_request_id (nr_entries s ! a)) (nr_leases s) (dom (nr_active s))"
    unfolding bij_betw_def
  proof
    show "inj_on (\<lambda>a. ar_request_id (nr_entries s ! a)) (nr_leases s)"
      using nr_invD(5) [OF inv] by (intro inj_onI) (metis option.inject)
    show "(\<lambda>a. ar_request_id (nr_entries s ! a)) ` nr_leases s = dom (nr_active s)"
      using nr_invD(5) [OF inv] by (auto simp: dom_def)
  qed
  then show ?thesis by (simp add: bij_betw_same_card)
qed

lemma nr_with_lifecycle_live:
  assumes "nr_inv s" and "a \<in> nr_leases s"
  shows "nr_with_lifecycle a s f =
    (if ar_poisoned (nr_entries s ! a) then (s, Err Lifecycle_Poisoned) else f (nr_entries s ! a))"
  using nr_lease_current [OF assms] by (simp add: nr_with_lifecycle_def nr_require_current_def)

text \<open>
  Ownership is exact. In every state of the registry the active requests are those whose lease
  is alive, one per request id; a live lease is current, so its methods never fail as stale: on an
  intact lifecycle they succeed exactly in the phase they start from. Dropping the lease removes
  that request and no other, keeps a selected terminal, and otherwise settles the request as
  Cancelled if one of its cancellation flags is set and as Failed if none is.
\<close>

theorem nr_lease_ownership:
  assumes inv: "nr_inv s" and a: "a \<in> nr_leases s"
  defines "e \<equiv> nr_entries s ! a" and "t \<equiv> nr_lease_drop a s"
  shows "card (dom (nr_active s)) = card (nr_leases s) \<and> nr_active s (ar_request_id e) = Some a \<and>
    nr_require_current a s = Ok () \<and>
    (\<not> ar_poisoned e \<longrightarrow>
      (is_ok (snd (nr_queue a s)) \<longleftrightarrow> ar_phase e = Reserved) \<and>
      (is_ok (snd (nr_start a s)) \<longleftrightarrow> ar_phase e = Queued) \<and>
      (is_ok (snd (nr_terminal c a s)) \<longleftrightarrow> ar_phase e = Running) \<and>
      (is_ok (snd (nr_reject_queued c a s)) \<longleftrightarrow> ar_phase e = Queued \<and> c \<noteq> Completed)) \<and>
    nr_active t = (nr_active s)(ar_request_id e := None) \<and> nr_leases t = nr_leases s - {a} \<and>
    (\<forall>b. b \<noteq> a \<longrightarrow> nr_entries t ! b = nr_entries s ! b) \<and> ar_phase (nr_entries t ! a) = Released \<and>
    map_option rt_class (ar_terminal (nr_entries t ! a)) = Some (case ar_terminal e of
       Some x \<Rightarrow> rt_class x
     | None \<Rightarrow> if controls_cancellation_requested (ar_controls e) (nr_flags s) then Cancelled else Failed)"
proof -
  have len: "a < length (nr_entries s)" using nr_invD(6) [OF inv a] .
  have ok: "ar_ok a e" using nr_invD(3) [OF inv len] by (simp add: e_def)
  have cur: "nr_is_current s a" by (rule nr_lease_current [OF inv a])
  have act: "nr_active s (ar_request_id e) = Some a" using nr_invD(5) [OF inv] a by (simp add: e_def)
  have methods: "(is_ok (snd (nr_queue a s)) \<longleftrightarrow> ar_phase e = Reserved) \<and>
      (is_ok (snd (nr_start a s)) \<longleftrightarrow> ar_phase e = Queued) \<and>
      (is_ok (snd (nr_terminal c a s)) \<longleftrightarrow> ar_phase e = Running) \<and>
      (is_ok (snd (nr_reject_queued c a s)) \<longleftrightarrow> ar_phase e = Queued \<and> c \<noteq> Completed)" if "\<not> ar_poisoned e"
  proof -
    have "ar_terminal e = None" if "ar_phase e \<in> {Running, Queued}"
      using that ok by (auto simp: ar_ok_def)
    with \<open>\<not> ar_poisoned e\<close> show ?thesis
      by (auto simp: nr_queue_def nr_start_def nr_transition_def nr_terminal_def nr_reject_queued_def
          nr_with_lifecycle_live [OF inv a] e_def [symmetric])
  qed
  have "nr_entries t = (nr_entries s)[a := nr_abandon_entry (nr_flags s) e]"
    "nr_active t = (nr_active s)(ar_request_id e := None)" "nr_leases t = nr_leases s - {a}"
    by (simp_all add: t_def nr_lease_drop_def nr_abandon_if_current_def cur nr_put_def e_def)
  moreover have "map_option rt_class (ar_terminal (nr_abandon_entry (nr_flags s) e)) = Some (case ar_terminal e of
       Some x \<Rightarrow> rt_class x
     | None \<Rightarrow> if controls_cancellation_requested (ar_controls e) (nr_flags s) then Cancelled else Failed)"
    by (simp add: nr_abandon_entry_def split: option.split)
  ultimately show ?thesis
    using nr_active_leases [OF inv] act methods cur len by (simp add: nr_require_current_def)
qed

theorem nr_lease_ownership_witness:
  "is_ok (snd (nr_start 0 nr_demo_queued)) \<and> nr_active (nr_lease_drop 0 nr_demo_queued) ''r'' = None"
proof -
  have a: "0 \<in> nr_leases nr_demo_queued" by (simp add: nr_demo_queued_eq)
  have "\<not> ar_poisoned (nr_entries nr_demo_queued ! 0)" "ar_phase (nr_entries nr_demo_queued ! 0) = Queued"
    "ar_request_id (nr_entries nr_demo_queued ! 0) = ''r''"
    by (simp_all add: nr_demo_queued_eq nr_new_entry_def)
  with nr_lease_ownership [OF nr_demo_queued_inv a] show ?thesis by simp
qed

subsection \<open>Shutdown\<close>

fun controls_cancellations :: "request_controls \<Rightarrow> nat list" where
  "controls_cancellations (Ctl_Generation cs rs) = map snd cs"
| "controls_cancellations (Ctl_ControlledGeneration cs) = map snd cs"
| "controls_cancellations (Ctl_Embedding c) = [c]"
| "controls_cancellations (Ctl_ResidualTraining c) = [c]"
| "controls_cancellations (Ctl_ResidualEvaluation c) = [c]"

lemma fold_set_flags: "fold (\<lambda>flag st. st(flag := True)) fs st = (\<lambda>f. f \<in> set fs \<or> st f)"
  by (induction fs arbitrary: st) auto

lemma controls_cancel_all_flags:
  "controls_cancel_all ctl st =
     ((\<lambda>f. f \<in> set (controls_cancellations ctl) \<or> st f), length (controls_cancellations ctl))"
  by (cases ctl) (auto simp: set_all_def fold_set_flags fun_eq_iff)

lemma controls_cancellation_requested_iff:
  "controls_cancellation_requested ctl st \<longleftrightarrow> (\<exists>f \<in> set (controls_cancellations ctl). st f)"
  by (cases ctl) (auto simp: case_prod_beta)

lemma nr_cancel_fold_flags:
  "nr_flags (fold (\<lambda>a s. fst (nr_cancel_all a s)) xs s) f \<longleftrightarrow>
     nr_flags s f \<or> (\<exists>a \<in> set xs. f \<in> set (controls_cancellations (ar_controls (nr_entries s ! a))))"
proof (induction xs arbitrary: s)
  case Nil
  then show ?case by simp
next
  case (Cons x xs)
  show ?case
    by (simp add: Cons.IH) (auto simp: nr_cancel_all_def controls_cancel_all_flags)
qed

lemma nr_quiesce_flags:
  assumes inv: "nr_inv s" and "nr_phase s \<noteq> Reg_Closed" and "a \<in> nr_leases s"
    and "f \<in> set (controls_cancellations (ar_controls (nr_entries s ! a)))"
  shows "nr_flags (nr_begin_quiesce_and_cancel_all s) f"
proof -
  have "finite (ran (nr_active s))" using nr_inv_finite [OF inv] by (simp add: finite_ran)
  moreover have "a \<in> ran (nr_active s)"
    using assms(3) nr_invD(5) [OF inv, of "ar_request_id (nr_entries s ! a)" a] by (auto simp: ran_def)
  ultimately show ?thesis
    using assms(2,4) by (auto simp: nr_begin_quiesce_and_cancel_all_def nr_cancel_fold_flags nr_quiesce_def)
qed

fun reg_rank :: "registry_phase \<Rightarrow> nat" where
  "reg_rank Reg_Running = 0"
| "reg_rank Reg_Quiescing = 1"
| "reg_rank Reg_Closed = 2"

lemma nr_with_lifecycle_phase:
  "(\<And>e. nr_phase (fst (f e)) = nr_phase s) \<Longrightarrow> nr_phase (fst (nr_with_lifecycle a s f)) = nr_phase s"
  by (simp add: nr_with_lifecycle_def split: result.split)

lemma nr_put_phase [simp]: "nr_phase (nr_put a e s) = nr_phase s"
  by (simp add: nr_put_def)

lemma nr_exec_phase: "nr_call_ok s c \<Longrightarrow> reg_rank (nr_phase s) \<le> reg_rank (nr_phase (nr_exec c s))"
proof (cases c)
  case (NC_Reserve rid cls ctl)
  then show ?thesis by (simp add: nr_reserve_def checked_add_def Let_def)
next
  case (NC_Lease_Drop a)
  then show ?thesis by (simp add: nr_lease_drop_def nr_abandon_if_current_def)
next
  case NC_Shutdown
  have "nr_phase (nr_exec NC_Shutdown s) \<in> {nr_phase (nr_begin_quiesce_and_cancel_all s), Reg_Closed}"
    by (simp add: Let_def nr_shutdown_try_def case_prod_beta split: option.split)
  with NC_Shutdown show ?thesis by (cases "nr_phase s") auto
next
  case NC_Quiesce
  then show ?thesis by (cases "nr_phase s") (simp_all add: nr_quiesce_def)
next
  case NC_Quiesce_And_Cancel
  then show ?thesis by (cases "nr_phase s") simp_all
next
  case NC_Close
  then show ?thesis by (cases "nr_phase s") simp_all
next
  case NC_Mark_Closed
  then show ?thesis by (cases "nr_phase s") (simp_all add: nr_mark_closed_def)
qed (simp_all add: nr_queue_def nr_start_def nr_transition_def nr_terminal_def nr_reject_queued_def
    nr_completed_or_failed_def nr_with_lifecycle_phase nr_record_external_worker_joined_def)

lemma nr_step_closing:
  assumes "nr_step s t" and inv: "nr_inv s" and closing: "nr_phase s \<noteq> Reg_Running"
  shows "nr_phase t \<noteq> Reg_Running \<and> nr_leases t \<subseteq> nr_leases s"
proof -
  have "reg_rank (nr_phase s) \<le> reg_rank (nr_phase t)"
    using assms(1) by (cases rule: nr_step.cases) (auto intro: nr_exec_phase)
  then have "nr_phase t \<noteq> Reg_Running" using closing by (cases "nr_phase s"; cases "nr_phase t") simp_all
  moreover have "nr_leases t \<subseteq> nr_leases s"
    using nr_step_move [OF assms(1) inv] by (cases rule: nr_move.cases) (use closing in auto)
  ultimately show ?thesis by blast
qed

lemma nr_steps_closing:
  assumes "nr_step\<^sup>*\<^sup>* s t" and "nr_inv s" and "nr_phase s \<noteq> Reg_Running"
  shows "nr_phase t \<noteq> Reg_Running \<and> nr_leases t \<subseteq> nr_leases s"
  using assms
proof (induction rule: rtranclp_induct)
  case base
  then show ?case by simp
next
  case (step t u)
  then have "nr_inv t" by (blast intro: nr.steps_inv)
  with step nr_step_closing [OF step(2)] show ?case by blast
qed

lemma nr_inv_drained: "nr_inv s \<Longrightarrow> nr_active s = Map.empty \<longleftrightarrow> nr_leases s = {}"
  using nr_invD(5) [of s] by (metis all_not_in_conv not_None_eq)

lemma nr_drop_all:
  assumes "nr_inv s" and "set xs \<subseteq> nr_leases s" and "distinct xs"
  shows "nr_step\<^sup>*\<^sup>* s (fold nr_lease_drop xs s) \<and> nr_leases (fold nr_lease_drop xs s) = nr_leases s - set xs \<and>
    nr_shutdown (fold nr_lease_drop xs s) = nr_shutdown s \<and> nr_poisoned (fold nr_lease_drop xs s) = nr_poisoned s"
  using assms
proof (induction xs arbitrary: s)
  case Nil
  then show ?case by simp
next
  case (Cons x xs)
  let ?t = "nr_lease_drop x s"
  have x: "x \<in> nr_leases s" using Cons.prems by simp
  have st: "nr_step s ?t" using nr_step [of s "NC_Lease_Drop x"] x by simp
  have l: "nr_leases ?t = nr_leases s - {x}" by (simp add: nr_lease_drop_def)
  have rest: "nr_shutdown ?t = nr_shutdown s" "nr_poisoned ?t = nr_poisoned s"
    by (simp_all add: nr_lease_drop_def nr_abandon_if_current_def nr_put_def)
  have "nr_inv ?t" using st Cons.prems(1) by (rule nr.step_inv)
  from Cons.IH [OF this] Cons.prems l rest st show ?case
    by (auto intro: converse_rtranclp_into_rtranclp)
qed

text \<open>
  C8. Shutdown drains and returns. Once admission is closed, no later reservation succeeds, the set
  of live leases only shrinks, and a shutdown without a recorded outcome returns exactly when it
  is empty; from any such state dropping the leases that are left reaches it, and the outcome then
  reports no active operation and whether the registry lock was poisoned. The first quiesce has
  set every cancellation flag of every active request.
\<close>

theorem nr_shutdown_drains:
  assumes inv: "nr_inv s" and run: "nr_step\<^sup>*\<^sup>* (nr_begin_quiesce_and_cancel_all s) t"
  shows "(nr_phase s \<noteq> Reg_Closed \<longrightarrow> (\<forall>a \<in> nr_leases s. \<forall>f \<in> set (controls_cancellations (ar_controls (nr_entries s ! a))).
        nr_flags (nr_begin_quiesce_and_cancel_all s) f)) \<and>
    (\<forall>rid cls ctl. \<not> is_ok (snd (nr_reserve rid cls ctl t))) \<and> nr_leases t \<subseteq> nr_leases s \<and>
    (nr_shutdown t = None \<longrightarrow>
      (nr_shutdown_try t = None \<longleftrightarrow> nr_leases t \<noteq> {}) \<and>
      (\<exists>u v outcome. nr_step\<^sup>*\<^sup>* t u \<and> nr_shutdown_try u = Some (v, outcome) \<and> so_active_operations outcome = 0 \<and>
         so_state_poisoned outcome = nr_poisoned t \<and> nr_shutdown v = Some outcome \<and> nr_phase v = Reg_Closed))"
proof -
  let ?q = "nr_begin_quiesce_and_cancel_all s"
  have "nr_step s ?q" using nr_step [of s NC_Quiesce_And_Cancel] by simp
  then have q: "nr_inv ?q" using inv by (rule nr.step_inv)
  have t: "nr_inv t" using run q by (rule nr.steps_inv)
  have closing: "nr_phase t \<noteq> Reg_Running" "nr_leases t \<subseteq> nr_leases s"
    using nr_steps_closing [OF run q] by simp_all
  then have refused: "\<not> is_ok (snd (nr_reserve rid cls ctl t))" for rid cls ctl by (simp add: nr_reserve_def)
  define u where "u = fold nr_lease_drop (sorted_list_of_set (nr_leases t)) t"
  have fin: "finite (nr_leases t)" using t by (auto simp: nr_inv_def intro: finite_subset)
  then have u: "nr_step\<^sup>*\<^sup>* t u" "nr_leases u = {}" "nr_shutdown u = nr_shutdown t" "nr_poisoned u = nr_poisoned t"
    using nr_drop_all [OF t, of "sorted_list_of_set (nr_leases t)"] by (simp_all add: u_def)
  have "nr_active u = Map.empty" using nr_inv_drained [OF nr.steps_inv [OF u(1) t]] u(2) by simp
  then have "\<exists>u v outcome. nr_step\<^sup>*\<^sup>* t u \<and> nr_shutdown_try u = Some (v, outcome) \<and> so_active_operations outcome = 0 \<and>
       so_state_poisoned outcome = nr_poisoned t \<and> nr_shutdown v = Some outcome \<and> nr_phase v = Reg_Closed"
    if "nr_shutdown t = None"
    using that u
    by (intro exI [of _ u] exI [of _ "fst (nr_close u)"] exI [of _ "snd (nr_close u)"])
      (simp add: nr_shutdown_try_def)
  moreover have "nr_shutdown_try t = None \<longleftrightarrow> nr_leases t \<noteq> {}" if "nr_shutdown t = None"
    using that nr_inv_drained [OF t] by (simp add: nr_shutdown_try_def)
  ultimately show ?thesis using closing refused nr_quiesce_flags [OF inv] by blast
qed

theorem nr_shutdown_drains_witness:
  "nr_flags (nr_begin_quiesce_and_cancel_all nr_demo_queued) 7 \<and>
   nr_shutdown_try (nr_begin_quiesce_and_cancel_all nr_demo_queued) = None"
proof -
  have "nr_phase nr_demo_queued \<noteq> Reg_Closed" "0 \<in> nr_leases nr_demo_queued"
    "7 \<in> set (controls_cancellations (ar_controls (nr_entries nr_demo_queued ! 0)))"
    "nr_shutdown (nr_begin_quiesce_and_cancel_all nr_demo_queued) = None"
    "nr_leases (nr_begin_quiesce_and_cancel_all nr_demo_queued) \<noteq> {}"
    by (simp_all add: nr_demo_queued_eq nr_new_def nr_new_entry_def)
  with nr_shutdown_drains [OF nr_demo_queued_inv rtranclp.rtrancl_refl] show ?thesis by blast
qed

end
