(* ===== verification/Generation_Admission.thy ===== *)
theory Generation_Admission
  imports Native_Registry
begin



record preemption_watch =
  pw_foreground :: nat
  pw_cancelled_at :: nat

record admitted_speculative =
  as_sequence :: nat
  as_control :: nat

record admission_state =
  adm_disabled :: bool
  adm_admitted :: "admitted_speculative option"
  adm_preemption :: "preemption_watch option"



definition retire_released_preemption :: "nr_state \<Rightarrow> admission_state \<Rightarrow> admission_state" where
  "retire_released_preemption nr s =
     (if (case adm_preemption s of None \<Rightarrow> False | Some w \<Rightarrow> nr_is_released (pw_foreground w) nr)
      then s\<lparr>adm_preemption := None\<rparr> else s)"







section \<open>Runs\<close>





lemma retire_fields [simp]:
  "adm_disabled (retire_released_preemption nr s) = adm_disabled s"
  "adm_admitted (retire_released_preemption nr s) = adm_admitted s"
  by (simp_all add: retire_released_preemption_def)


lemma nr_cancel_all_fields [simp]:
  "nr_entries (fst (nr_cancel_all a s)) = nr_entries s" "nr_inv (fst (nr_cancel_all a s)) = nr_inv s"
  by (simp_all add: nr_cancel_all_def nr_inv_def split: prod.split)










section \<open>Guarantees\<close>








end
