(* ===== verification/Task_Supervisor.thy ===== *)
theory Task_Supervisor
  imports Prelude "HOL-Library.List_Lexorder" "HOL-Library.Char_ord"
begin

text \<open>
  The task supervisor of the speech services,
  \<open>crates/services/speech/crates/speech-native-types/src/task_supervisor.rs\<close>.

  The state under the mutex is \<open>task_supervisor_state\<close>, extended by the scope, the fault flag and
  the poisoning of the mutex. A \<open>JoinHandle\<close> is opaque, so the map of join handles is the set of its
  keys. Whether a Tokio runtime is present, and what a joined worker returned, are the runtime's:
  they are arguments. \<open>spawn\<close> and \<open>spawn_blocking\<close> are an \<open>admit\<close>, later a \<open>retain_join_handle\<close>, and
  a reaper task that calls \<open>finish\<close> once, after the retention was signalled or given up; the runs
  below interleave these steps of any number of workers.
\<close>

section \<open>State\<close>

definition COMPLETED_WORKER_ID_CAPACITY :: nat where
  "COMPLETED_WORKER_ID_CAPACITY = 1024"

datatype supervisor_phase = Sup_Running | Sup_Quiescing

datatype failure_kind = Fk_Error | Fk_Panic | Fk_Cancelled

record task_failure =
  tf_label :: string
  tf_kind :: failure_kind
  tf_detail :: string

record failure_summary =
  fs_first :: task_failure
  fs_additional_failures :: nat

record supervisor_snapshot =
  sn_active :: nat
  sn_retained_failures :: nat
  sn_total_failures :: nat
  sn_admitted_tasks :: nat
  sn_completed_tasks :: nat
  sn_expected_worker_ids :: "string list"
  sn_joined_worker_ids :: "string list"

datatype supervisor_error = AdmissionClosed | StateUnavailable | RuntimeUnavailable

record task_supervisor_state =
  ts_scope :: string
  ts_faulted :: bool
  ts_poisoned :: bool
  ts_phase :: supervisor_phase
  ts_active :: nat
  ts_first_failure :: "task_failure option"
  ts_additional_failures :: nat
  ts_admitted_tasks :: nat
  ts_completed_tasks :: nat
  ts_next_worker_sequence :: nat
  ts_active_worker_ids :: "string set"
  ts_joined_worker_ids :: "string list"
  ts_join_handles :: "string set"

section \<open>Operations\<close>

definition ts_with_scope :: "string \<Rightarrow> task_supervisor_state" where
  "ts_with_scope scope =
     \<lparr>ts_scope = scope, ts_faulted = False, ts_poisoned = False, ts_phase = Sup_Running, ts_active = 0,
      ts_first_failure = None, ts_additional_failures = 0, ts_admitted_tasks = 0, ts_completed_tasks = 0,
      ts_next_worker_sequence = 1, ts_active_worker_ids = {}, ts_joined_worker_ids = [], ts_join_handles = {}\<rparr>"

definition ts_default :: task_supervisor_state where
  "ts_default = ts_with_scope ''task-supervisor''"

definition ts_fault :: "task_supervisor_state \<Rightarrow> task_supervisor_state" where
  "ts_fault s = s\<lparr>ts_faulted := True\<rparr>"

definition ts_worker_id :: "string \<Rightarrow> nat \<Rightarrow> string \<Rightarrow> string" where
  "ts_worker_id scope sequence label = scope @ '':task-'' @ show_nat sequence @ '':'' @ label"

definition ts_admit :: "string \<Rightarrow> task_supervisor_state \<Rightarrow> task_supervisor_state \<times> (string, supervisor_error) result" where
  "ts_admit label s =
     (if ts_faulted s then (s, Err StateUnavailable)
      else if ts_poisoned s then (s, Err StateUnavailable)
      else if ts_phase s \<noteq> Sup_Running then (s, Err AdmissionClosed)
      else
        (case checked_add USIZE_MAX (ts_active s) 1 of
           None \<Rightarrow> (s, Err StateUnavailable)
         | Some active \<Rightarrow>
        (case checked_add USIZE_MAX (ts_admitted_tasks s) 1 of
           None \<Rightarrow> (s, Err StateUnavailable)
         | Some admitted_tasks \<Rightarrow>
        (case checked_add U64_MAX (ts_next_worker_sequence s) 1 of
           None \<Rightarrow> (s, Err StateUnavailable)
         | Some next_worker_sequence \<Rightarrow>
             let worker_id = ts_worker_id (ts_scope s) (ts_next_worker_sequence s) label in
             if worker_id \<in> ts_active_worker_ids s then (s, Err StateUnavailable)
             else (s\<lparr>ts_active_worker_ids := insert worker_id (ts_active_worker_ids s), ts_active := active,
                     ts_admitted_tasks := admitted_tasks, ts_next_worker_sequence := next_worker_sequence\<rparr>,
                   Ok worker_id)))))"

definition ts_retain_join_handle ::
  "string \<Rightarrow> task_supervisor_state \<Rightarrow> task_supervisor_state \<times> (unit, supervisor_error) result" where
  "ts_retain_join_handle worker_id s =
     (if ts_poisoned s then (ts_fault s, Err StateUnavailable)
      else
        let s' = s\<lparr>ts_join_handles := insert worker_id (ts_join_handles s)\<rparr>
        in if worker_id \<in> ts_join_handles s then (ts_fault s', Err StateUnavailable) else (s', Ok ()))"

text \<open>Recording a failed outcome: the first is kept, further ones are counted; \<open>None\<close> when the
  counter overflows.\<close>

definition ts_record_outcome ::
  "task_failure option \<Rightarrow> task_supervisor_state \<Rightarrow> task_supervisor_state option" where
  "ts_record_outcome outcome s =
     (case outcome of
        None \<Rightarrow> Some s
      | Some failure \<Rightarrow>
          if ts_first_failure s = None then Some (s\<lparr>ts_first_failure := Some failure\<rparr>)
          else map_option (\<lambda>n. s\<lparr>ts_additional_failures := n\<rparr>)
                 (checked_add USIZE_MAX (ts_additional_failures s) 1))"

text \<open>The tail of \<open>finish\<close>: the worker's identity moves from the active set to the archive, whose
  oldest entry is evicted when it is full.\<close>

definition ts_archive :: "string \<Rightarrow> task_supervisor_state \<Rightarrow> task_supervisor_state" where
  "ts_archive worker_id s =
     (if worker_id \<notin> ts_active_worker_ids s then ts_fault s
      else
        let s = s\<lparr>ts_active_worker_ids := ts_active_worker_ids s - {worker_id},
                  ts_joined_worker_ids := ts_joined_worker_ids s @ [worker_id],
                  ts_join_handles := ts_join_handles s - {worker_id}\<rparr>
        in if COMPLETED_WORKER_ID_CAPACITY < length (ts_joined_worker_ids s) then
             (case ts_joined_worker_ids s of
                [] \<Rightarrow> ts_fault s
              | evicted # rest \<Rightarrow>
                  if evicted = worker_id then ts_fault (s\<lparr>ts_joined_worker_ids := rest\<rparr>)
                  else s\<lparr>ts_joined_worker_ids := rest\<rparr>)
           else s)"

definition ts_finish :: "string \<Rightarrow> task_failure option \<Rightarrow> task_supervisor_state \<Rightarrow> task_supervisor_state" where
  "ts_finish worker_id outcome s =
     (if ts_poisoned s then ts_fault s
      else
        (case checked_add USIZE_MAX (ts_completed_tasks s) 1 of
           None \<Rightarrow> ts_fault s
         | Some completed_tasks \<Rightarrow>
             if ts_active s = 0 \<or> worker_id \<notin> ts_active_worker_ids s \<or>
                worker_id \<in> set (ts_joined_worker_ids s) \<or> worker_id \<notin> ts_join_handles s
             then ts_fault s
             else
               (case ts_record_outcome outcome s of
                  None \<Rightarrow> ts_fault s
                | Some s \<Rightarrow> ts_archive worker_id
                    (s\<lparr>ts_active := ts_active s - 1, ts_completed_tasks := completed_tasks\<rparr>))))"

definition ts_begin_shutdown :: "task_supervisor_state \<Rightarrow> task_supervisor_state \<times> (unit, supervisor_error) result" where
  "ts_begin_shutdown s =
     (if ts_faulted s then (s, Err StateUnavailable)
      else if ts_poisoned s then (s, Err StateUnavailable)
      else (s\<lparr>ts_phase := Sup_Quiescing\<rparr>, Ok ()))"

text \<open>One round of the loop in \<open>wait_for_idle\<close>; \<open>None\<close> is a wait for the next notification.\<close>

definition ts_wait_for_idle_round :: "task_supervisor_state \<Rightarrow> (unit, supervisor_error) result option" where
  "ts_wait_for_idle_round s =
     (if ts_faulted s then Some (Err StateUnavailable)
      else if ts_poisoned s then Some (Err StateUnavailable)
      else if ts_active s = 0 then Some (Ok ())
      else None)"

definition ts_failure_summary :: "task_supervisor_state \<Rightarrow> (failure_summary option, supervisor_error) result" where
  "ts_failure_summary s =
     (if ts_faulted s then Err StateUnavailable
      else if ts_poisoned s then Err StateUnavailable
      else Ok (map_option (\<lambda>first. \<lparr>fs_first = first, fs_additional_failures = ts_additional_failures s\<rparr>)
                 (ts_first_failure s)))"

fun insert_fresh :: "string list \<Rightarrow> string set \<Rightarrow> string set option" where
  "insert_fresh [] ids = Some ids"
| "insert_fresh (x # xs) ids = (if x \<in> ids then None else insert_fresh xs (insert x ids))"

definition ts_consistent :: "task_supervisor_state \<Rightarrow> nat \<Rightarrow> bool" where
  "ts_consistent s accounted_tasks \<longleftrightarrow>
     \<not> ((ts_active s = 0 \<and> ts_join_handles s \<noteq> {})
        \<or> card (ts_active_worker_ids s) \<noteq> ts_active s
        \<or> accounted_tasks \<noteq> ts_admitted_tasks s
        \<or> length (ts_joined_worker_ids s) > COMPLETED_WORKER_ID_CAPACITY
        \<or> card (set (ts_joined_worker_ids s)) \<noteq> length (ts_joined_worker_ids s)
        \<or> (\<exists>worker_id \<in> ts_join_handles s. worker_id \<notin> ts_active_worker_ids s))"

definition ts_snapshot ::
  "task_supervisor_state \<Rightarrow> task_supervisor_state \<times> (supervisor_snapshot, supervisor_error) result" where
  "ts_snapshot s =
     (if ts_faulted s then (s, Err StateUnavailable)
      else if ts_poisoned s then (s, Err StateUnavailable)
      else
        (case checked_add USIZE_MAX (ts_completed_tasks s) (ts_active s) of
           None \<Rightarrow> (s, Err StateUnavailable)
         | Some accounted_tasks \<Rightarrow>
             if \<not> ts_consistent s accounted_tasks then (ts_fault s, Err StateUnavailable)
             else
               let retained_failures = (if ts_first_failure s = None then 0 else 1) in
               (case checked_add USIZE_MAX retained_failures (ts_additional_failures s) of
                  None \<Rightarrow> (s, Err StateUnavailable)
                | Some total_failures \<Rightarrow>
                    (case insert_fresh (ts_joined_worker_ids s) (ts_active_worker_ids s) of
                       None \<Rightarrow> (ts_fault s, Err StateUnavailable)
                     | Some expected_worker_ids \<Rightarrow>
                         (s, Ok \<lparr>sn_active = ts_active s, sn_retained_failures = retained_failures,
                                sn_total_failures = total_failures, sn_admitted_tasks = ts_admitted_tasks s,
                                sn_completed_tasks = ts_completed_tasks s,
                                sn_expected_worker_ids = sorted_list_of_set expected_worker_ids,
                                sn_joined_worker_ids = ts_joined_worker_ids s\<rparr>)))))"

text \<open>The failure a reaper reports for its joined worker: \<open>Ok(Ok(()))\<close> is none, \<open>Ok(Err(detail))\<close> an
  error, and a join error a panic or a cancellation.\<close>

datatype join_outcome = Joined_Ok | Joined_Err string | Join_Failed bool string

fun reaper_outcome :: "string \<Rightarrow> join_outcome \<Rightarrow> task_failure option" where
  "reaper_outcome label Joined_Ok = None"
| "reaper_outcome label (Joined_Err detail) = Some \<lparr>tf_label = label, tf_kind = Fk_Error, tf_detail = detail\<rparr>"
| "reaper_outcome label (Join_Failed is_panic detail) =
     Some \<lparr>tf_label = label, tf_kind = (if is_panic then Fk_Panic else Fk_Cancelled), tf_detail = detail\<rparr>"

section \<open>Runs\<close>

text \<open>
  Besides the supervisor, a run has the workers admitted whose handle is not yet retained, the
  reapers that are free to finish (with their labels), and, as history, the finished workers with
  their outcomes, in order.
\<close>

record ts_sys =
  tg_sup :: task_supervisor_state
  tg_spawning :: "string \<rightharpoonup> string"
  tg_reapers :: "string \<rightharpoonup> string"
  tg_finished :: "(string \<times> task_failure option) list"

inductive ts_step :: "ts_sys \<Rightarrow> ts_sys \<Rightarrow> bool" where
  tt_admit: "ts_admit label (tg_sup x) = (s, Ok w) \<Longrightarrow>
    ts_step x (x\<lparr>tg_sup := s, tg_spawning := (tg_spawning x)(w \<mapsto> label)\<rparr>)"
| tt_admit_Err: "ts_admit label (tg_sup x) = (s, Err e) \<Longrightarrow> ts_step x (x\<lparr>tg_sup := s\<rparr>)"
| tt_retain: "tg_spawning x w = Some label \<Longrightarrow>
    ts_step x (x\<lparr>tg_sup := fst (ts_retain_join_handle w (tg_sup x)), tg_spawning := (tg_spawning x)(w := None),
      tg_reapers := (tg_reapers x)(w \<mapsto> label)\<rparr>)"
| tt_finish: "tg_reapers x w = Some label \<Longrightarrow>
    ts_step x (x\<lparr>tg_sup := ts_finish w (reaper_outcome label j) (tg_sup x),
      tg_reapers := (tg_reapers x)(w := None),
      tg_finished := tg_finished x @ [(w, reaper_outcome label j)]\<rparr>)"
| tt_shutdown: "ts_step x (x\<lparr>tg_sup := fst (ts_begin_shutdown (tg_sup x))\<rparr>)"
| tt_snapshot: "ts_step x (x\<lparr>tg_sup := fst (ts_snapshot (tg_sup x))\<rparr>)"

definition ts_init :: "string \<Rightarrow> ts_sys" where
  "ts_init scope = \<lparr>tg_sup = ts_with_scope scope, tg_spawning = Map.empty, tg_reapers = Map.empty, tg_finished = []\<rparr>"

section \<open>Worker identities\<close>

lemma ts_worker_id_inj: "ts_worker_id scope q l = ts_worker_id scope q' l' \<Longrightarrow> q = q' \<and> l = l'"
  using show_nat_delim_inj [of "CHR '':''" q l q' l'] by (simp add: ts_worker_id_def is_digit_def)

definition issued :: "task_supervisor_state \<Rightarrow> string \<Rightarrow> bool" where
  "issued s w \<longleftrightarrow> (\<exists>q l. q < ts_next_worker_sequence s \<and> w = ts_worker_id (ts_scope s) q l)"

lemma issued_fresh: "\<not> issued s (ts_worker_id (ts_scope s) (ts_next_worker_sequence s) l)"
  by (auto simp: issued_def dest: ts_worker_id_inj)

section \<open>Invariant\<close>

text \<open>The identities of the finished workers, in order.\<close>

definition tg_done :: "ts_sys \<Rightarrow> string list" where
  "tg_done x = map fst (tg_finished x)"

lemma tg_done_simps [simp]:
  "tg_done (x\<lparr>tg_sup := s\<rparr>) = tg_done x" "tg_done (x\<lparr>tg_spawning := sp\<rparr>) = tg_done x"
  "tg_done (x\<lparr>tg_reapers := rs\<rparr>) = tg_done x"
  "tg_done (x\<lparr>tg_finished := xs\<rparr>) = map fst xs" "map fst (tg_finished x) = tg_done x"
  "length (tg_done x) = length (tg_finished x)"
  by (simp_all add: tg_done_def)

definition failures :: "(string \<times> task_failure option) list \<Rightarrow> task_failure list" where
  "failures xs = List.map_filter snd xs"

lemma failures_append: "failures (xs @ [(w, r)]) = failures xs @ (case r of None \<Rightarrow> [] | Some f \<Rightarrow> [f])"
  by (simp add: failures_def map_filter_def split: option.split)

lemma length_failures: "length (failures xs) \<le> length xs"
  by (induction xs) (auto simp: failures_def map_filter_simps split: option.split)

definition ts_counts_ok :: "ts_sys \<Rightarrow> bool" where
  "ts_counts_ok x \<longleftrightarrow>
     (let s = tg_sup x in
      finite (dom (tg_spawning x)) \<and> finite (dom (tg_reapers x)) \<and>
      ts_active s = card (ts_active_worker_ids s) \<and> ts_completed_tasks s = length (tg_finished x) \<and>
      ts_admitted_tasks s = ts_active s + ts_completed_tasks s \<and>
      ts_next_worker_sequence s = Suc (ts_admitted_tasks s) \<and> ts_next_worker_sequence s \<le> U64_MAX)"

definition ts_ids_ok :: "ts_sys \<Rightarrow> bool" where
  "ts_ids_ok x \<longleftrightarrow>
     (let s = tg_sup x in
      ts_active_worker_ids s = dom (tg_spawning x) \<union> dom (tg_reapers x) \<and>
      dom (tg_spawning x) \<inter> dom (tg_reapers x) = {} \<and> ts_join_handles s = dom (tg_reapers x) \<and>
      distinct (tg_done x) \<and> ts_active_worker_ids s \<inter> set (tg_done x) = {} \<and>
      (\<forall>w \<in> ts_active_worker_ids s \<union> set (tg_done x). issued s w) \<and>
      ts_joined_worker_ids s = newest COMPLETED_WORKER_ID_CAPACITY (tg_done x))"

definition ts_failures_ok :: "ts_sys \<Rightarrow> bool" where
  "ts_failures_ok x \<longleftrightarrow>
     (case failures (tg_finished x) of
        [] \<Rightarrow> ts_first_failure (tg_sup x) = None \<and> ts_additional_failures (tg_sup x) = 0
      | f # fs \<Rightarrow> ts_first_failure (tg_sup x) = Some f \<and> ts_additional_failures (tg_sup x) = length fs)"

definition ts_inv :: "ts_sys \<Rightarrow> bool" where
  "ts_inv x \<longleftrightarrow> \<not> ts_faulted (tg_sup x) \<and> \<not> ts_poisoned (tg_sup x) \<and>
     ts_counts_ok x \<and> ts_ids_ok x \<and> ts_failures_ok x"

lemma ts_ids_okD:
  assumes "ts_ids_ok x"
  shows "ts_active_worker_ids (tg_sup x) = dom (tg_spawning x) \<union> dom (tg_reapers x)"
    "dom (tg_spawning x) \<inter> dom (tg_reapers x) = {}" "ts_join_handles (tg_sup x) = dom (tg_reapers x)"
    "distinct (tg_done x)" "ts_active_worker_ids (tg_sup x) \<inter> set (tg_done x) = {}"
    "\<forall>w \<in> ts_active_worker_ids (tg_sup x) \<union> set (tg_done x). issued (tg_sup x) w"
    "ts_joined_worker_ids (tg_sup x) = newest COMPLETED_WORKER_ID_CAPACITY (tg_done x)"
  using assms [unfolded ts_ids_ok_def Let_def] by - (elim conjE, assumption)+

lemma ts_ids_okI:
  assumes "ts_active_worker_ids (tg_sup x) = dom (tg_spawning x) \<union> dom (tg_reapers x)"
    "dom (tg_spawning x) \<inter> dom (tg_reapers x) = {}" "ts_join_handles (tg_sup x) = dom (tg_reapers x)"
    "distinct (tg_done x)" "ts_active_worker_ids (tg_sup x) \<inter> set (tg_done x) = {}"
    "\<And>w. w \<in> ts_active_worker_ids (tg_sup x) \<union> set (tg_done x) \<Longrightarrow> issued (tg_sup x) w"
    "ts_joined_worker_ids (tg_sup x) = newest COMPLETED_WORKER_ID_CAPACITY (tg_done x)"
  shows "ts_ids_ok x"
  unfolding ts_ids_ok_def Let_def by (intro conjI ballI) (fact | rule assms(6), assumption)+

lemma ts_failures_ok_cong:
  "ts_failures_ok x \<Longrightarrow> ts_first_failure (tg_sup y) = ts_first_failure (tg_sup x) \<Longrightarrow>
   ts_additional_failures (tg_sup y) = ts_additional_failures (tg_sup x) \<Longrightarrow> tg_finished y = tg_finished x \<Longrightarrow>
   ts_failures_ok y"
  by (cases "failures (tg_finished x)") (simp_all add: ts_failures_ok_def)

lemma ts_inv_init: "ts_inv (ts_init scope)"
  by (simp add: ts_inv_def ts_init_def ts_with_scope_def ts_counts_ok_def ts_ids_ok_def ts_failures_ok_def
      failures_def map_filter_simps newest_def U64_MAX_def tg_done_def Let_def)

lemma insert_fresh_eq:
  "distinct xs \<Longrightarrow> set xs \<inter> ids = {} \<Longrightarrow> insert_fresh xs ids = Some (set xs \<union> ids)"
  by (induction xs arbitrary: ids) auto

lemma ts_inv_joined:
  assumes "ts_inv x"
  shows "distinct (ts_joined_worker_ids (tg_sup x))"
    "set (ts_joined_worker_ids (tg_sup x)) \<subseteq> set (tg_done x)"
    "length (ts_joined_worker_ids (tg_sup x)) \<le> COMPLETED_WORKER_ID_CAPACITY"
proof -
  have "ts_ids_ok x" using assms by (simp add: ts_inv_def)
  note ids = ts_ids_okD [OF this]
  show "distinct (ts_joined_worker_ids (tg_sup x))" "set (ts_joined_worker_ids (tg_sup x)) \<subseteq> set (tg_done x)"
    "length (ts_joined_worker_ids (tg_sup x)) \<le> COMPLETED_WORKER_ID_CAPACITY"
    unfolding ids(7) by (simp_all add: distinct_newest ids(4) set_newest_subset length_newest)
qed

lemma ts_inv_total:
  assumes "ts_inv x"
  shows "(if ts_first_failure (tg_sup x) = None then 0 else 1) + ts_additional_failures (tg_sup x) =
    length (failures (tg_finished x))" and "length (failures (tg_finished x)) < U64_MAX"
proof -
  show "(if ts_first_failure (tg_sup x) = None then 0 else 1) + ts_additional_failures (tg_sup x) =
    length (failures (tg_finished x))"
    using assms by (auto simp: ts_inv_def ts_failures_ok_def split: list.splits)
  show "length (failures (tg_finished x)) < U64_MAX"
    using assms length_failures [of "tg_finished x"] by (auto simp: ts_inv_def ts_counts_ok_def Let_def)
qed

lemma ts_inv_snapshot:
  assumes inv: "ts_inv x"
  shows "ts_snapshot (tg_sup x) = (tg_sup x, Ok
    \<lparr>sn_active = card (dom (tg_spawning x)) + card (dom (tg_reapers x)),
     sn_retained_failures = (if failures (tg_finished x) = [] then 0 else 1),
     sn_total_failures = length (failures (tg_finished x)),
     sn_admitted_tasks = card (dom (tg_spawning x)) + card (dom (tg_reapers x)) + length (tg_finished x),
     sn_completed_tasks = length (tg_finished x),
     sn_expected_worker_ids = sorted_list_of_set (dom (tg_spawning x) \<union> dom (tg_reapers x) \<union>
        set (newest COMPLETED_WORKER_ID_CAPACITY (tg_done x))),
     sn_joined_worker_ids = newest COMPLETED_WORKER_ID_CAPACITY (tg_done x)\<rparr>)"
proof -
  let ?s = "tg_sup x"
  note j = ts_inv_joined [OF inv] and tot = ts_inv_total [OF inv]
  have "ts_ids_ok x" using inv by (simp add: ts_inv_def)
  note ids = ts_ids_okD [OF this]
  have c: "finite (dom (tg_spawning x))" "finite (dom (tg_reapers x))" "ts_active ?s = card (ts_active_worker_ids ?s)"
    "ts_completed_tasks ?s = length (tg_finished x)" "ts_admitted_tasks ?s = ts_active ?s + ts_completed_tasks ?s"
    "ts_admitted_tasks ?s < U64_MAX"
    using inv by (auto simp: ts_inv_def ts_counts_ok_def Let_def)
  have card: "card (ts_active_worker_ids ?s) = card (dom (tg_spawning x)) + card (dom (tg_reapers x))"
    using ids(1,2) c(1,2) by (simp add: card_Un_disjoint)
  have cons: "ts_consistent ?s (ts_completed_tasks ?s + ts_active ?s)"
    using ids(1,3) c j by (auto simp: ts_consistent_def distinct_card)
  have fresh: "insert_fresh (ts_joined_worker_ids ?s) (ts_active_worker_ids ?s) =
      Some (set (ts_joined_worker_ids ?s) \<union> ts_active_worker_ids ?s)"
    using j(1,2) ids(5) by (intro insert_fresh_eq) auto
  have first: "ts_first_failure ?s = None \<longleftrightarrow> failures (tg_finished x) = []"
    using inv by (auto simp: ts_inv_def ts_failures_ok_def split: list.splits)
  have "\<not> ts_faulted ?s" "\<not> ts_poisoned ?s" using inv by (auto simp: ts_inv_def)
  then show ?thesis
    using cons fresh tot c card first
    by (simp add: ts_snapshot_def checked_add_def USIZE_MAX_def Let_def ids(1,7) Un_commute add.commute)
qed

lemma ts_admit_Ok:
  assumes "ts_admit label s = (s', Ok w)"
  shows "\<not> ts_faulted s" "\<not> ts_poisoned s" "w = ts_worker_id (ts_scope s) (ts_next_worker_sequence s) label"
    "Suc (ts_next_worker_sequence s) \<le> U64_MAX" "w \<notin> ts_active_worker_ids s"
    "s' = s\<lparr>ts_active_worker_ids := insert w (ts_active_worker_ids s), ts_active := Suc (ts_active s),
            ts_admitted_tasks := Suc (ts_admitted_tasks s), ts_next_worker_sequence := Suc (ts_next_worker_sequence s)\<rparr>"
  using assms by (auto simp: ts_admit_def Let_def checked_add_def split: if_splits)

lemma ts_admit_Err: "ts_admit label s = (s', Err e) \<Longrightarrow> s' = s"
  by (auto simp: ts_admit_def Let_def checked_add_def split: if_splits)

lemma issued_mono:
  "issued s w \<Longrightarrow> ts_scope s' = ts_scope s \<Longrightarrow> ts_next_worker_sequence s \<le> ts_next_worker_sequence s' \<Longrightarrow> issued s' w"
  unfolding issued_def by (metis order_less_le_trans)

lemma ts_inv_admit:
  assumes inv: "ts_inv x" and ok: "ts_admit label (tg_sup x) = (s, Ok w)"
  shows "ts_inv (x\<lparr>tg_sup := s, tg_spawning := (tg_spawning x)(w \<mapsto> label)\<rparr>)" (is "ts_inv ?y")
proof -
  note r = ts_admit_Ok [OF ok]
  have ids: "ts_ids_ok x" and cnt: "ts_counts_ok x" and fl: "ts_failures_ok x" using inv by (auto simp: ts_inv_def)
  have new: "\<not> issued (tg_sup x) w" using issued_fresh r(3) by simp
  have old: "issued (tg_sup x) v" if "v \<in> ts_active_worker_ids (tg_sup x) \<union> set (tg_done x)" for v
    using ts_ids_okD(6) [OF ids] that by blast
  have w: "w \<notin> dom (tg_reapers x)" "w \<notin> dom (tg_spawning x)" "w \<notin> set (tg_done x)"
    using new old ts_ids_okD(1) [OF ids] by blast+
  have fin: "finite (ts_active_worker_ids (tg_sup x))"
    using ids cnt by (simp add: ts_ids_ok_def ts_counts_ok_def Let_def)
  have iss: "issued s v" if "v \<in> ts_active_worker_ids s \<union> set (tg_done x)" for v
  proof (cases "v = w")
    case True
    then show ?thesis using r(3,6) by (auto simp: issued_def)
  next
    case False
    then have "issued (tg_sup x) v" using that r(6) by (intro old) auto
    then show ?thesis by (rule issued_mono) (simp_all add: r(6))
  qed
  have "ts_counts_ok ?y"
    using cnt r fin by (simp add: ts_counts_ok_def Let_def)
  moreover have "ts_ids_ok ?y"
  proof (rule ts_ids_okI)
    show "issued (tg_sup ?y) v" if "v \<in> ts_active_worker_ids (tg_sup ?y) \<union> set (tg_done ?y)" for v
      using iss that by simp
  qed (use ts_ids_okD(1-5,7) [OF ids] w in \<open>auto simp: r(6)\<close>)
  moreover have "ts_failures_ok ?y" by (rule ts_failures_ok_cong [OF fl]) (simp_all add: r(6))
  ultimately show ?thesis using inv by (simp add: ts_inv_def r(6))
qed

lemma ts_inv_retain:
  assumes inv: "ts_inv x" and w: "tg_spawning x w = Some label"
  shows "ts_inv (x\<lparr>tg_sup := fst (ts_retain_join_handle w (tg_sup x)), tg_spawning := (tg_spawning x)(w := None),
      tg_reapers := (tg_reapers x)(w \<mapsto> label)\<rparr>)" (is "ts_inv ?y")
proof -
  have ids: "ts_ids_ok x" and cnt: "ts_counts_ok x" and fl: "ts_failures_ok x" and np: "\<not> ts_poisoned (tg_sup x)"
    using inv by (auto simp: ts_inv_def)
  have "w \<notin> ts_join_handles (tg_sup x)" using ts_ids_okD(2,3) [OF ids] w by blast
  then have s: "fst (ts_retain_join_handle w (tg_sup x)) =
      (tg_sup x)\<lparr>ts_join_handles := insert w (ts_join_handles (tg_sup x))\<rparr>"
    using np by (simp add: ts_retain_join_handle_def Let_def)
  have "ts_counts_ok ?y" using cnt by (simp add: ts_counts_ok_def Let_def s)
  moreover have "ts_ids_ok ?y"
  proof (rule ts_ids_okI)
    show "issued (tg_sup ?y) v" if "v \<in> ts_active_worker_ids (tg_sup ?y) \<union> set (tg_done ?y)" for v
      using ts_ids_okD(6) [OF ids] that by (simp add: s issued_def)
  qed (use ts_ids_okD(1-5,7) [OF ids] w in \<open>auto simp: s\<close>)
  moreover have "ts_failures_ok ?y" by (rule ts_failures_ok_cong [OF fl]) (simp_all add: s)
  ultimately show ?thesis using inv by (simp add: ts_inv_def s)
qed

lemma ts_record_outcome_inv:
  assumes "ts_failures_ok x" and "length (failures (tg_finished x)) < U64_MAX"
  obtains s where "ts_record_outcome r (tg_sup x) = Some s"
    "ts_failures_ok (x\<lparr>tg_sup := s, tg_finished := tg_finished x @ [(w, r)]\<rparr>)"
    "\<exists>f n. s = (tg_sup x)\<lparr>ts_first_failure := f, ts_additional_failures := n\<rparr>"
proof -
  have "\<exists>s. ts_record_outcome r (tg_sup x) = Some s \<and>
      ts_failures_ok (x\<lparr>tg_sup := s, tg_finished := tg_finished x @ [(w, r)]\<rparr>) \<and>
      (\<exists>f n. s = (tg_sup x)\<lparr>ts_first_failure := f, ts_additional_failures := n\<rparr>)"
  proof (cases r)
    case None
    then have "ts_record_outcome r (tg_sup x) = Some (tg_sup x)" by (simp add: ts_record_outcome_def)
    moreover have "ts_failures_ok (x\<lparr>tg_sup := tg_sup x, tg_finished := tg_finished x @ [(w, r)]\<rparr>)"
      using assms(1) None by (cases "failures (tg_finished x)") (simp_all add: ts_failures_ok_def failures_append)
    moreover have "tg_sup x = (tg_sup x)\<lparr>ts_first_failure := ts_first_failure (tg_sup x),
        ts_additional_failures := ts_additional_failures (tg_sup x)\<rparr>" by simp
    ultimately show ?thesis by metis
  next
    case (Some f)
    show ?thesis
    proof (cases "failures (tg_finished x)")
      case Nil
      with Some assms show ?thesis
        by (intro exI [of _ "(tg_sup x)\<lparr>ts_first_failure := Some f\<rparr>"])
           (auto simp: ts_record_outcome_def ts_failures_ok_def failures_append
             intro!: exI [of _ "Some f"] exI [of _ "ts_additional_failures (tg_sup x)"])
    next
      case (Cons g gs)
      with Some assms show ?thesis
        by (intro exI [of _ "(tg_sup x)\<lparr>ts_additional_failures := Suc (ts_additional_failures (tg_sup x))\<rparr>"])
           (auto simp: ts_record_outcome_def ts_failures_ok_def failures_append checked_add_def USIZE_MAX_def
             intro!: exI [of _ "ts_first_failure (tg_sup x)"] exI [of _ "Suc (ts_additional_failures (tg_sup x))"])
    qed
  qed
  with that show thesis by blast
qed

text \<open>Archiving a finished worker keeps the newest identities.\<close>

lemma ts_archive_eq:
  assumes w: "w \<in> ts_active_worker_ids s" and joined: "ts_joined_worker_ids s = newest COMPLETED_WORKER_ID_CAPACITY xs"
    and fresh: "w \<notin> set xs"
  shows "ts_archive w s = s\<lparr>ts_active_worker_ids := ts_active_worker_ids s - {w},
     ts_joined_worker_ids := newest COMPLETED_WORKER_ID_CAPACITY (xs @ [w]),
     ts_join_handles := ts_join_handles s - {w}\<rparr>"
proof -
  let ?cap = COMPLETED_WORKER_ID_CAPACITY
  have cap: "0 < ?cap" by (simp add: COMPLETED_WORKER_ID_CAPACITY_def)
  have sub: "set (newest ?cap xs) \<subseteq> set xs" by (rule set_newest_subset)
  show ?thesis
  proof (cases "?cap \<le> length xs")
    case False
    then show ?thesis
      using w joined by (simp add: ts_archive_def Let_def length_newest newest_all)
  next
    case True
    then have len: "length (newest ?cap xs) = ?cap" by (simp add: length_newest)
    then obtain e rest where e: "newest ?cap xs = e # rest" using cap by (cases "newest ?cap xs") auto
    have "e \<noteq> w" using e sub fresh by auto
    moreover have "newest ?cap (xs @ [w]) = rest @ [w]"
    proof -
      have "newest ?cap (xs @ [w]) = newest ?cap (newest ?cap xs @ [w])" by (rule newest_append [symmetric])
      also have "\<dots> = newest ?cap (tl (newest ?cap xs @ [w]))" by (rule newest_tl [symmetric]) (simp add: len)
      also have "\<dots> = rest @ [w]" using len e by (simp add: newest_all)
      finally show ?thesis .
    qed
    ultimately show ?thesis using w joined e len by (simp add: ts_archive_def Let_def)
  qed
qed

lemma ts_inv_finish:
  assumes inv: "ts_inv x" and w: "tg_reapers x w = Some label"
  shows "ts_inv (x\<lparr>tg_sup := ts_finish w r (tg_sup x), tg_reapers := (tg_reapers x)(w := None),
      tg_finished := tg_finished x @ [(w, r)]\<rparr>)" (is "ts_inv ?y")
proof -
  let ?s = "tg_sup x"
  have ids: "ts_ids_ok x" and cnt: "ts_counts_ok x" and fl: "ts_failures_ok x" and np: "\<not> ts_poisoned ?s" "\<not> ts_faulted ?s"
    using inv by (auto simp: ts_inv_def)
  note d = ts_ids_okD [OF ids] and j = ts_inv_joined [OF inv]
  have wa: "w \<in> ts_active_worker_ids ?s" and wh: "w \<in> ts_join_handles ?s" using d(1,3) w by auto
  then have wd: "w \<notin> set (tg_done x)" "w \<notin> dom (tg_spawning x)" using d(2,3,5) by blast+
  then have wj: "w \<notin> set (ts_joined_worker_ids ?s)" using j(2) by blast
  have fin: "finite (ts_active_worker_ids ?s)" using d(1) cnt by (simp add: ts_counts_ok_def Let_def)
  have c: "ts_active ?s = card (ts_active_worker_ids ?s)" "ts_completed_tasks ?s = length (tg_finished x)"
    "ts_admitted_tasks ?s = ts_active ?s + ts_completed_tasks ?s" "ts_admitted_tasks ?s < U64_MAX"
    using cnt by (auto simp: ts_counts_ok_def Let_def)
  have pos: "0 < ts_active ?s" using c(1) wa fin by (auto simp: card_gt_0_iff)
  obtain s f n where s: "ts_record_outcome r ?s = Some s"
    and fl': "ts_failures_ok (x\<lparr>tg_sup := s, tg_finished := tg_finished x @ [(w, r)]\<rparr>)"
    and sf: "s = ?s\<lparr>ts_first_failure := f, ts_additional_failures := n\<rparr>"
    using ts_record_outcome_inv [OF fl ts_inv_total(2) [OF inv], of r w] by blast
  let ?s' = "s\<lparr>ts_active := ts_active ?s - 1, ts_completed_tasks := Suc (ts_completed_tasks ?s)\<rparr>"
  have "ts_finish w r ?s = ts_archive w ?s'"
    using np c pos wa wh wj s sf by (simp add: ts_finish_def checked_add_def USIZE_MAX_def)
  also have "\<dots> = ?s'\<lparr>ts_active_worker_ids := ts_active_worker_ids ?s - {w},
     ts_joined_worker_ids := newest COMPLETED_WORKER_ID_CAPACITY (tg_done x @ [w]),
     ts_join_handles := ts_join_handles ?s - {w}\<rparr>"
    using ts_archive_eq [of w ?s' "tg_done x"] wa wd(1) d(7) by (simp add: sf)
  finally have y: "ts_finish w r ?s = ?s'\<lparr>ts_active_worker_ids := ts_active_worker_ids ?s - {w},
     ts_joined_worker_ids := newest COMPLETED_WORKER_ID_CAPACITY (tg_done x @ [w]),
     ts_join_handles := ts_join_handles ?s - {w}\<rparr>" .
  have "ts_counts_ok ?y"
    using cnt wa fin pos by (simp add: ts_counts_ok_def Let_def y sf)
  moreover have "ts_ids_ok ?y"
  proof (rule ts_ids_okI)
    show "issued (tg_sup ?y) v" if "v \<in> ts_active_worker_ids (tg_sup ?y) \<union> set (tg_done ?y)" for v
    proof -
      have "v \<in> ts_active_worker_ids ?s \<union> set (tg_done x)" using that wa by (auto simp: y)
      then have "issued ?s v" using d(6) by blast
      then show ?thesis by (simp add: y sf issued_def)
    qed
  qed (use d(1-5) wd in \<open>auto simp: y sf\<close>)
  moreover have "ts_failures_ok ?y" by (rule ts_failures_ok_cong [OF fl']) (simp_all add: y)
  ultimately show ?thesis using np by (simp add: ts_inv_def y sf)
qed

lemma ts_step_inv: "ts_step x y \<Longrightarrow> ts_inv x \<Longrightarrow> ts_inv y"
proof (induction rule: ts_step.induct)
  case (tt_admit label x s w)
  then show ?case by (blast intro: ts_inv_admit)
next
  case (tt_admit_Err label x s e)
  then show ?case using ts_admit_Err [OF tt_admit_Err(1)] by simp
next
  case (tt_retain x w label)
  then show ?case by (blast intro: ts_inv_retain)
next
  case (tt_finish x w label j)
  then show ?case by (blast intro: ts_inv_finish)
next
  case (tt_shutdown x)
  then have "fst (ts_begin_shutdown (tg_sup x)) = (tg_sup x)\<lparr>ts_phase := Sup_Quiescing\<rparr>"
    by (simp add: ts_inv_def ts_begin_shutdown_def)
  moreover have "ts_failures_ok (x\<lparr>tg_sup := (tg_sup x)\<lparr>ts_phase := Sup_Quiescing\<rparr>\<rparr>)"
    by (rule ts_failures_ok_cong [of x]) (use tt_shutdown in \<open>simp_all add: ts_inv_def\<close>)
  moreover have "ts_ids_ok (x\<lparr>tg_sup := (tg_sup x)\<lparr>ts_phase := Sup_Quiescing\<rparr>\<rparr>)"
  proof -
    have ids: "ts_ids_ok x" using tt_shutdown by (simp add: ts_inv_def)
    have "issued ((tg_sup x)\<lparr>ts_phase := Sup_Quiescing\<rparr>) = issued (tg_sup x)" by (simp add: issued_def fun_eq_iff)
    then show ?thesis by (intro ts_ids_okI) (use ts_ids_okD [OF ids] in simp_all)
  qed
  ultimately show ?case using tt_shutdown by (simp add: ts_inv_def ts_counts_ok_def Let_def)
next
  case (tt_snapshot x)
  then show ?case using ts_inv_snapshot [OF tt_snapshot] by simp
qed

lemma ts_steps_inv: "ts_step\<^sup>*\<^sup>* x y \<Longrightarrow> ts_inv x \<Longrightarrow> ts_inv y"
  by (induction rule: rtranclp_induct) (auto intro: ts_step_inv)

section \<open>Guarantees\<close>

text \<open>
  C10. The supervisor's accounting is exact and never faults. Under every interleaving of admissions,
  retentions, completions, snapshots and shutdown, without a panic inside a critical section, the
  fault flag stays clear and a snapshot succeeds. It reports the number of workers that are
  spawning or running, the numbers of admitted and completed workers and of failures, exactly the
  newest archived identities in join order, and as expected identities these and the active ones.
  The failure summary holds the first failure and the number of the others.
\<close>

theorem ts_accounting_exact:
  assumes "ts_step\<^sup>*\<^sup>* (ts_init scope) x"
  shows "\<not> ts_faulted (tg_sup x) \<and> dom (tg_spawning x) \<inter> dom (tg_reapers x) = {} \<and>
    ts_snapshot (tg_sup x) = (tg_sup x, Ok
      \<lparr>sn_active = card (dom (tg_spawning x)) + card (dom (tg_reapers x)),
       sn_retained_failures = (if failures (tg_finished x) = [] then 0 else 1),
       sn_total_failures = length (failures (tg_finished x)),
       sn_admitted_tasks = card (dom (tg_spawning x)) + card (dom (tg_reapers x)) + length (tg_finished x),
       sn_completed_tasks = length (tg_finished x),
       sn_expected_worker_ids = sorted_list_of_set (dom (tg_spawning x) \<union> dom (tg_reapers x) \<union>
          set (newest COMPLETED_WORKER_ID_CAPACITY (tg_done x))),
       sn_joined_worker_ids = newest COMPLETED_WORKER_ID_CAPACITY (tg_done x)\<rparr>) \<and>
    ts_failure_summary (tg_sup x) = Ok (case failures (tg_finished x) of
       [] \<Rightarrow> None
     | f # fs \<Rightarrow> Some \<lparr>fs_first = f, fs_additional_failures = length fs\<rparr>)"
proof -
  have inv: "ts_inv x" using assms ts_inv_init by (rule ts_steps_inv)
  then have "ts_failures_ok x" "ts_ids_ok x" "\<not> ts_faulted (tg_sup x)" "\<not> ts_poisoned (tg_sup x)"
    by (auto simp: ts_inv_def)
  moreover from this have "ts_failure_summary (tg_sup x) = Ok (case failures (tg_finished x) of
       [] \<Rightarrow> None | f # fs \<Rightarrow> Some \<lparr>fs_first = f, fs_additional_failures = length fs\<rparr>)"
    by (cases "failures (tg_finished x)") (simp_all add: ts_failure_summary_def ts_failures_ok_def)
  ultimately show ?thesis using ts_inv_snapshot [OF inv] ts_ids_okD(2) by blast
qed

lemma ts_demo_sequence: "show_nat (Suc 0) = ''1''"
  by code_simp

lemma ts_demo_admit:
  "ts_admit ''job'' (ts_with_scope ''s'') =
     ((ts_with_scope ''s'')\<lparr>ts_active_worker_ids := {''s:task-1:job''}, ts_active := 1,
        ts_admitted_tasks := 1, ts_next_worker_sequence := 2\<rparr>, Ok ''s:task-1:job'')"
  by (simp add: ts_admit_def ts_with_scope_def checked_add_def USIZE_MAX_def U64_MAX_def Let_def ts_worker_id_def
      ts_demo_sequence)

theorem ts_accounting_exact_witness:
  "\<exists>x. ts_step\<^sup>*\<^sup>* (ts_init ''s'') x \<and> tg_spawning x ''s:task-1:job'' = Some ''job'' \<and> \<not> ts_faulted (tg_sup x)"
proof -
  from tt_admit [of "''job''" "ts_init ''s''"] ts_demo_admit
  obtain y where y: "ts_step (ts_init ''s'') y" "tg_spawning y ''s:task-1:job'' = Some ''job''"
    by (fastforce simp: ts_init_def)
  then have "ts_step\<^sup>*\<^sup>* (ts_init ''s'') y" by blast
  with ts_accounting_exact [OF this] y(2) show ?thesis by blast
qed

text \<open>
  Worker identities are never reused and waiting for idle is exact. No admission returns an
  identity that any worker of the supervisor, running or finished, ever had; \<open>wait_for_idle\<close>
  returns successfully exactly when no admitted worker is left, and keeps waiting otherwise; a
  finished worker leaves, so that the wait ends once every admitted worker has finished.
\<close>

theorem ts_identities_and_idle:
  assumes run: "ts_step\<^sup>*\<^sup>* (ts_init scope) x"
  shows "(\<forall>label s w. ts_admit label (tg_sup x) = (s, Ok w) \<longrightarrow>
      w \<notin> dom (tg_spawning x) \<union> dom (tg_reapers x) \<union> set (tg_done x)) \<and>
    distinct (tg_done x) \<and> set (tg_done x) \<inter> (dom (tg_spawning x) \<union> dom (tg_reapers x)) = {} \<and>
    ts_wait_for_idle_round (tg_sup x) =
      (if tg_spawning x = Map.empty \<and> tg_reapers x = Map.empty then Some (Ok ()) else None)"
proof -
  have inv: "ts_inv x" using run ts_inv_init by (rule ts_steps_inv)
  then have ids: "ts_ids_ok x" and cnt: "ts_counts_ok x" and np: "\<not> ts_faulted (tg_sup x)" "\<not> ts_poisoned (tg_sup x)"
    by (auto simp: ts_inv_def)
  note d = ts_ids_okD [OF ids]
  have "w \<notin> dom (tg_spawning x) \<union> dom (tg_reapers x) \<union> set (tg_done x)"
    if "ts_admit label (tg_sup x) = (s, Ok w)" for label s w
    using d(1,6) issued_fresh [of "tg_sup x" label] ts_admit_Ok(3) [OF that] by auto
  moreover have "ts_active (tg_sup x) = 0 \<longleftrightarrow> tg_spawning x = Map.empty \<and> tg_reapers x = Map.empty"
    using cnt d(1) by (auto simp: ts_counts_ok_def Let_def)
  ultimately show ?thesis
    using d(1,4,5) np by (auto simp: ts_wait_for_idle_round_def)
qed

theorem ts_identities_and_idle_witness:
  "ts_wait_for_idle_round (tg_sup (ts_init ''s'')) = Some (Ok ()) \<and>
   ''s:task-1:job'' \<notin> set (tg_done (ts_init ''s''))"
proof -
  note h = ts_identities_and_idle [OF rtranclp.rtrancl_refl [of ts_step "ts_init ''s''"]]
  have "ts_admit ''job'' (tg_sup (ts_init ''s'')) =
     ((ts_with_scope ''s'')\<lparr>ts_active_worker_ids := {''s:task-1:job''}, ts_active := 1,
        ts_admitted_tasks := 1, ts_next_worker_sequence := 2\<rparr>, Ok ''s:task-1:job'')"
    using ts_demo_admit by (simp add: ts_init_def)
  with h have "''s:task-1:job'' \<notin> set (tg_done (ts_init ''s''))" by blast
  moreover have "tg_spawning (ts_init ''s'') = Map.empty \<and> tg_reapers (ts_init ''s'') = Map.empty"
    by (simp add: ts_init_def)
  ultimately show ?thesis using h by simp
qed

end
