(* ===== verification/Unicode_Text.thy ===== *)
theory Unicode_Text
  imports Prelude "HOL-Library.Code_Target_Nat"
begin

text \<open>
  Rust strings. A string is the list of its Unicode scalars, as natural numbers; its length and all ranges are in
  bytes of its UTF-8 encoding, and \<open>str_get\<close> is \<open>str::get\<close>, which fails off a character boundary.
  \<open>String::from_utf8_lossy\<close> is modelled in full: it decodes valid sequences and puts one U+FFFD for every maximal
  ill-formed one, and its result is owned exactly if there was one.
\<close>

section \<open>Strings\<close>

type_synonym ustr = "nat list"

definition len_utf8 :: "nat \<Rightarrow> nat" where
  "len_utf8 c = (if c < 0x80 then 1 else if c < 0x800 then 2 else if c < 0x10000 then 3 else 4)"

definition str_len :: "ustr \<Rightarrow> nat" where
  "str_len s = sum_list (map len_utf8 s)"

fun char_index :: "ustr \<Rightarrow> nat \<Rightarrow> nat option" where
  "char_index [] offset = (if offset = 0 then Some 0 else None)"
| "char_index (c # s) offset =
     (if offset = 0 then Some 0
      else if offset < len_utf8 c then None
      else map_option Suc (char_index s (offset - len_utf8 c)))"

definition str_get :: "ustr \<Rightarrow> nat \<Rightarrow> nat \<Rightarrow> ustr option" where
  "str_get s a b =
     (case (char_index s a, char_index s b) of
        (Some i, Some j) \<Rightarrow> if a \<le> b then Some (take (j - i) (drop i s)) else None
      | _ \<Rightarrow> None)"

type_synonym bytes = "nat list"
type_synonym codepoints = "nat list"

definition ascii :: "string \<Rightarrow> codepoints" where
  "ascii s = map of_char s"

text \<open>\<open>char::is_whitespace\<close>, and \<open>s.trim().is_empty()\<close>.\<close>

definition is_whitespace :: "nat \<Rightarrow> bool" where
  "is_whitespace c \<longleftrightarrow>
     9 \<le> c \<and> c \<le> 13 \<or> c = 0x20 \<or> c = 0x85 \<or> c = 0xA0 \<or> c = 0x1680 \<or> 0x2000 \<le> c \<and> c \<le> 0x200A \<or>
     c = 0x2028 \<or> c = 0x2029 \<or> c = 0x202F \<or> c = 0x205F \<or> c = 0x3000"

definition blank :: "ustr \<Rightarrow> bool" where
  "blank s \<longleftrightarrow> list_all is_whitespace s"

section \<open>UTF-8\<close>

definition byte_or_zero :: "bytes \<Rightarrow> nat \<Rightarrow> nat" where
  "byte_or_zero bs i = (if i < length bs then bs ! i else 0)"

definition continuation :: "nat \<Rightarrow> bool" where
  "continuation b \<longleftrightarrow> 128 \<le> b \<and> b \<le> 191"

definition second_of_three :: "nat \<Rightarrow> nat \<Rightarrow> bool" where
  "second_of_three a b \<longleftrightarrow>
     a = 224 \<and> 160 \<le> b \<and> b \<le> 191 \<or> 225 \<le> a \<and> a \<le> 236 \<and> continuation b \<or>
     a = 237 \<and> 128 \<le> b \<and> b \<le> 159 \<or> 238 \<le> a \<and> a \<le> 239 \<and> continuation b"

definition second_of_four :: "nat \<Rightarrow> nat \<Rightarrow> bool" where
  "second_of_four a b \<longleftrightarrow>
     a = 240 \<and> 144 \<le> b \<and> b \<le> 191 \<or> 241 \<le> a \<and> a \<le> 243 \<and> continuation b \<or>
     a = 244 \<and> 128 \<le> b \<and> b \<le> 143"

text \<open>The first code point, or \<open>None\<close> for an ill-formed sequence, and the bytes it takes.\<close>

definition utf8_chunk :: "bytes \<Rightarrow> nat option \<times> nat" where
  "utf8_chunk bs =
     (let a = byte_or_zero bs 0; b = byte_or_zero bs 1; c = byte_or_zero bs 2; d = byte_or_zero bs 3 in
      if a < 128 then (Some a, 1)
      else if 194 \<le> a \<and> a \<le> 223 then
        (if continuation b then (Some ((a - 192) * 64 + (b - 128)), 2) else (None, 1))
      else if 224 \<le> a \<and> a \<le> 239 then
        (if \<not> second_of_three a b then (None, 1)
         else if \<not> continuation c then (None, 2)
         else (Some ((a - 224) * 4096 + (b - 128) * 64 + (c - 128)), 3))
      else if 240 \<le> a \<and> a \<le> 244 then
        (if \<not> second_of_four a b then (None, 1)
         else if \<not> continuation c then (None, 2)
         else if \<not> continuation d then (None, 3)
         else (Some ((a - 240) * 262144 + (b - 128) * 4096 + (c - 128) * 64 + (d - 128)), 4))
      else (None, 1))"

lemma utf8_chunk_progress: "0 < snd (utf8_chunk bs)"
  by (simp add: utf8_chunk_def Let_def)

function utf8_chunks :: "bytes \<Rightarrow> nat option list" where
  "utf8_chunks bs = (if bs = [] then [] else fst (utf8_chunk bs) # utf8_chunks (drop (snd (utf8_chunk bs)) bs))"
  by pat_completeness auto
termination
  by (relation "measure length") (auto simp: utf8_chunk_progress)

declare utf8_chunks.simps [simp del]

definition from_utf8 :: "bytes \<Rightarrow> ustr option" where
  "from_utf8 bs = (if None \<in> set (utf8_chunks bs) then None else Some (map the (utf8_chunks bs)))"

definition from_utf8_lossy :: "bytes \<Rightarrow> codepoints \<times> bool" where
  "from_utf8_lossy bs =
     (let cs = utf8_chunks bs
      in (map (\<lambda>c. case c of None \<Rightarrow> 65533 | Some p \<Rightarrow> p) cs, None \<in> set cs))"

definition encode_char :: "nat \<Rightarrow> bytes" where
  "encode_char p =
     (if p < 128 then [p]
      else if p < 2048 then [192 + p div 64, 128 + p mod 64]
      else if p < 65536 then [224 + p div 4096, 128 + p div 64 mod 64, 128 + p mod 64]
      else [240 + p div 262144, 128 + p div 4096 mod 64, 128 + p div 64 mod 64, 128 + p mod 64])"

definition as_bytes :: "codepoints \<Rightarrow> bytes" where
  "as_bytes t = concat (map encode_char t)"

definition is_control :: "nat \<Rightarrow> bool" where
  "is_control p \<longleftrightarrow> p < 32 \<or> 127 \<le> p \<and> p < 160"

section \<open>Encoding and decoding\<close>

lemma length_encode_char: "length (encode_char c) = len_utf8 c"
  by (simp add: encode_char_def len_utf8_def)

lemma encode_char_head: "\<exists>b bs. encode_char p = b # bs \<and> (p < 128 \<and> b = p \<and> bs = [] \<or> 128 \<le> p \<and> 192 \<le> b)"
  by (auto simp: encode_char_def)

lemma as_bytes_ascii: "(\<forall>b \<in> set (as_bytes t). b < 128) \<Longrightarrow> as_bytes t = t"
proof (induction t)
  case (Cons p t)
  obtain b bs where "encode_char p = b # bs" "p < 128 \<and> b = p \<and> bs = [] \<or> 128 \<le> p \<and> 192 \<le> b" using encode_char_head [of p] by blast
  with Cons show ?case by (auto simp: as_bytes_def)
qed (simp add: as_bytes_def)

lemma ascii_as_bytes: "(\<forall>p \<in> set t. p < 128) \<Longrightarrow> as_bytes t = t"
  by (induction t) (simp_all add: as_bytes_def encode_char_def)

lemma sextets:
  fixes x y z w :: nat
  assumes "y < 64" "z < 64" "w < 64"
  shows "(x * 64 + w) div 64 = x" "(x * 64 + w) mod 64 = w"
    "(x * 4096 + z * 64 + w) div 4096 = x" "(x * 4096 + z * 64 + w) div 64 mod 64 = z" "(x * 4096 + z * 64 + w) mod 64 = w"
    "(x * 262144 + y * 4096 + z * 64 + w) div 262144 = x" "(x * 262144 + y * 4096 + z * 64 + w) div 4096 mod 64 = y"
    "(x * 262144 + y * 4096 + z * 64 + w) div 64 mod 64 = z" "(x * 262144 + y * 4096 + z * 64 + w) mod 64 = w"
proof -
  have one: "(u * 64 + v) div 64 = u" "(u * 64 + v) mod 64 = v" if "v < 64" for u v :: nat using that by simp_all
  have div: "n div 4096 = n div 64 div 64" "n div 262144 = n div 64 div 64 div 64" for n :: nat
    by (simp_all flip: div_mult2_eq)
  have three: "x * 4096 + z * 64 + w = (x * 64 + z) * 64 + w" and four: "x * 262144 + y * 4096 + z * 64 + w = ((x * 64 + y) * 64 + z) * 64 + w"
    by simp_all
  show "(x * 64 + w) div 64 = x" "(x * 64 + w) mod 64 = w" by (rule one [OF assms (3)])+
  show "(x * 4096 + z * 64 + w) div 4096 = x" "(x * 4096 + z * 64 + w) div 64 mod 64 = z" "(x * 4096 + z * 64 + w) mod 64 = w"
    by (simp_all only: three div one assms)
  show "(x * 262144 + y * 4096 + z * 64 + w) div 262144 = x" "(x * 262144 + y * 4096 + z * 64 + w) div 4096 mod 64 = y"
    "(x * 262144 + y * 4096 + z * 64 + w) div 64 mod 64 = z" "(x * 262144 + y * 4096 + z * 64 + w) mod 64 = w"
    by (simp_all only: four div one assms)
qed

lemma utf8_chunk_encode:
  assumes "utf8_chunk bs = (Some c, n)" "bs \<noteq> []"
  shows "n \<le> length bs \<and> encode_char c = take n bs"
proof -
  have zero: "byte_or_zero bs i = 0" if "length bs \<le> i" for i using that by (simp add: byte_or_zero_def)
  have "\<not> continuation 0" "\<not> second_of_three a 0" "\<not> second_of_four a 0" for a
    by (simp_all add: continuation_def second_of_three_def second_of_four_def)
  then have len: "continuation (byte_or_zero bs i) \<Longrightarrow> i < length bs" "second_of_three a (byte_or_zero bs i) \<Longrightarrow> i < length bs"
    "second_of_four a (byte_or_zero bs i) \<Longrightarrow> i < length bs" for a i using zero [of i] by (metis not_le)+
  let ?a = "byte_or_zero bs 0" and ?b = "byte_or_zero bs 1" and ?c = "byte_or_zero bs 2" and ?d = "byte_or_zero bs 3"
  have nth: "byte_or_zero bs i = bs ! i" if "i < length bs" for i using that by (simp add: byte_or_zero_def)
  have prefix: "take (Suc k) bs = take k bs @ [byte_or_zero bs k]" if "k < length bs" for k
    using that by (simp add: nth take_Suc_conv_app_nth)
  have one: "take 1 bs = [?a]" using assms (2) by (cases bs) (simp_all add: byte_or_zero_def)
  consider "?a < 128" "c = ?a" "n = 1"
    | "194 \<le> ?a" "?a \<le> 223" "continuation ?b" "c = (?a - 192) * 64 + (?b - 128)" "n = 2"
    | "224 \<le> ?a" "?a \<le> 239" "second_of_three ?a ?b" "continuation ?c" "c = (?a - 224) * 4096 + (?b - 128) * 64 + (?c - 128)" "n = 3"
    | "240 \<le> ?a" "?a \<le> 244" "second_of_four ?a ?b" "continuation ?c" "continuation ?d"
        "c = (?a - 240) * 262144 + (?b - 128) * 4096 + (?c - 128) * 64 + (?d - 128)" "n = 4"
    using assms (1) by (auto simp: utf8_chunk_def Let_def split: if_splits)
  then show ?thesis
  proof cases
    case 1
    then show ?thesis using one assms (2) by (cases bs) (simp_all add: encode_char_def)
  next
    case 2
    obtain x w where xw: "?a = 192 + x" "?b = 128 + w" "w < 64" "2 \<le> x" "x < 32"
      using 2 (1-3) le_Suc_ex [of 192 ?a] le_Suc_ex [of 128 ?b] by (auto simp: continuation_def)
    have bound: "1 < length bs" using len (1) [OF 2 (3)] .
    have "take 2 bs = [?a, ?b]" using prefix [OF bound] one by (simp add: numeral_2_eq_2)
    then show ?thesis using 2 (4,5) xw bound sextets (1,2) [of 0 0 w x] by (simp add: encode_char_def)
  next
    case 3
    obtain x z w where xw: "?a = 224 + x" "?b = 128 + z" "?c = 128 + w" "z < 64" "w < 64" "x < 16" "0x800 \<le> x * 4096 + z * 64 + w"
      using 3 (1-4) le_Suc_ex [of 224 ?a] le_Suc_ex [of 128 ?b] le_Suc_ex [of 128 ?c]
      by (auto simp: second_of_three_def continuation_def)
    have bound: "2 < length bs" "1 < length bs" using len (1) [OF 3 (4)] by simp_all
    have "take 3 bs = [?a, ?b, ?c]" using prefix [OF bound (1)] prefix [OF bound (2)] one by (simp add: eval_nat_numeral)
    then show ?thesis using 3 (5,6) xw bound sextets (3-5) [of 0 z w x] by (simp add: encode_char_def)
  next
    case 4
    obtain x y z w where xw: "?a = 240 + x" "?b = 128 + y" "?c = 128 + z" "?d = 128 + w" "y < 64" "z < 64" "w < 64"
        "0x10000 \<le> x * 262144 + y * 4096 + z * 64 + w"
      using 4 (1-5) le_Suc_ex [of 240 ?a] le_Suc_ex [of 128 ?b] le_Suc_ex [of 128 ?c] le_Suc_ex [of 128 ?d]
      by (auto simp: second_of_four_def continuation_def)
    have bound: "3 < length bs" "2 < length bs" "1 < length bs" using len (1) [OF 4 (5)] by simp_all
    have "take 4 bs = [?a, ?b, ?c, ?d]" using prefix [OF bound (1)] prefix [OF bound (2)] prefix [OF bound (3)] one by (simp add: eval_nat_numeral)
    then show ?thesis using 4 (6,7) xw bound sextets (6-9) [of y z w x] by (simp add: encode_char_def)
  qed
qed

lemma utf8_chunks_encode: "None \<notin> set (utf8_chunks bs) \<Longrightarrow> as_bytes (map the (utf8_chunks bs)) = bs"
proof (induction bs rule: utf8_chunks.induct)
  case (1 bs)
  show ?case
  proof (cases "bs = []")
    case False
    obtain c where c: "utf8_chunk bs = (Some c, snd (utf8_chunk bs))"
      using "1.prems" False by (cases "utf8_chunk bs"; cases "fst (utf8_chunk bs)") (auto simp: utf8_chunks.simps [of bs])
    have "None \<notin> set (utf8_chunks (drop (snd (utf8_chunk bs)) bs))" using "1.prems" False by (simp add: utf8_chunks.simps [of bs])
    note rest = "1.IH" [OF False this]
    have "fst (utf8_chunk bs) = Some c" using c by (metis fst_conv)
    then show ?thesis using rest utf8_chunk_encode [OF c False] False by (simp add: utf8_chunks.simps [of bs] as_bytes_def)
  qed (simp add: utf8_chunks.simps as_bytes_def)
qed

text \<open>What decodes is what its encoding decodes to.\<close>

lemma from_utf8_encode: "from_utf8 bs = Some t \<Longrightarrow> as_bytes t = bs"
  by (auto simp: from_utf8_def utf8_chunks_encode split: if_splits)

section \<open>Byte offsets and characters\<close>

abbreviation offset :: "ustr \<Rightarrow> nat \<Rightarrow> nat" where
  "offset s i \<equiv> str_len (take i s)"

lemma str_len_simps [simp]:
  "str_len [] = 0" "str_len (c # s) = len_utf8 c + str_len s" "str_len (s @ t) = str_len s + str_len t" "str_len (rev s) = str_len s"
  by (simp_all add: str_len_def rev_map [symmetric] sum_list_rev)

lemma length_as_bytes: "length (as_bytes s) = str_len s"
  by (induction s) (simp_all add: as_bytes_def length_encode_char)

lemma len_utf8_pos [simp]: "0 < len_utf8 c"
  by (simp add: len_utf8_def)

lemma length_le_str_len: "length s \<le> str_len s"
proof (induction s)
  case (Cons c s)
  have "1 \<le> len_utf8 c" by (simp add: len_utf8_def)
  then show ?case using Cons by simp
qed simp

lemma str_len_zero [simp]: "str_len s = 0 \<longleftrightarrow> s = []"
  by (cases s) simp_all

lemma char_index_Some: "char_index s n = Some i \<longleftrightarrow> i \<le> length s \<and> n = offset s i"
proof (induction s arbitrary: n i)
  case (Cons c s)
  show ?case
  proof (cases i)
    case 0
    then show ?thesis by auto
  next
    case (Suc k)
    have "(\<exists>j. char_index s (n - len_utf8 c) = Some j \<and> Suc j = i) \<longleftrightarrow> k \<le> length s \<and> n - len_utf8 c = offset s k"
      using Cons [of "n - len_utf8 c" k] Suc by auto
    then show ?thesis using Suc by auto
  qed
qed auto

lemma offset_mono: "i \<le> j \<Longrightarrow> offset s i \<le> offset s j"
  by (metis le_Suc_ex str_len_simps(3) take_add le_add1)

lemma offset_split: "i \<le> j \<Longrightarrow> offset s j = offset s i + str_len (take (j - i) (drop i s))"
  by (metis le_add_diff_inverse str_len_simps(3) take_add)

lemma offset_less_iff: "i \<le> length s \<Longrightarrow> j \<le> length s \<Longrightarrow> offset s i < offset s j \<longleftrightarrow> i < j"
proof -
  assume len: "i \<le> length s" "j \<le> length s"
  have "offset s i < offset s j" if "i < j"
  proof -
    have "take (j - i) (drop i s) \<noteq> []" using that len by simp
    then have "0 < str_len (take (j - i) (drop i s))" using str_len_zero by (metis gr0I)
    then show ?thesis using offset_split [of i j s] that by simp
  qed
  then show ?thesis using offset_mono [of j i s] by (meson linorder_not_le leD)
qed

lemma offset_le_iff: "i \<le> length s \<Longrightarrow> j \<le> length s \<Longrightarrow> offset s i \<le> offset s j \<longleftrightarrow> i \<le> j"
  using offset_less_iff [of j s i] by (simp add: not_less [symmetric])

lemma offset_eq_iff:
  assumes "i \<le> length s" "j \<le> length s"
  shows "offset s i = offset s j \<longleftrightarrow> i = j"
proof
  assume "offset s i = offset s j"
  then have "\<not> i < j" "\<not> j < i"
    using offset_less_iff [OF assms] offset_less_iff [OF assms (2,1)] by linarith+
  then show "i = j" by simp
qed simp

lemma str_get_Some:
  "str_get s a b = Some t \<longleftrightarrow>
     (\<exists>i j. i \<le> j \<and> j \<le> length s \<and> a = offset s i \<and> b = offset s j \<and> t = take (j - i) (drop i s))"
proof -
  have "str_get s a b = Some t \<longleftrightarrow>
      (\<exists>i j. char_index s a = Some i \<and> char_index s b = Some j \<and> a \<le> b \<and> t = take (j - i) (drop i s))"
    unfolding str_get_def by (auto split: option.splits)
  also have "\<dots> \<longleftrightarrow> (\<exists>i j. i \<le> j \<and> j \<le> length s \<and> a = offset s i \<and> b = offset s j \<and> t = take (j - i) (drop i s))"
  proof -
    have "char_index s a = Some i \<and> char_index s b = Some j \<and> a \<le> b \<and> t = take (j - i) (drop i s) \<longleftrightarrow>
        i \<le> j \<and> j \<le> length s \<and> a = offset s i \<and> b = offset s j \<and> t = take (j - i) (drop i s)" for i j
      unfolding char_index_Some using offset_le_iff [of i s j] offset_mono [of i j s] by auto
    then show ?thesis by simp
  qed
  finally show ?thesis .
qed

lemma str_get_offsets [simp]: "i \<le> j \<Longrightarrow> j \<le> length s \<Longrightarrow> str_get s (offset s i) (offset s j) = Some (take (j - i) (drop i s))"
  by (auto simp: str_get_Some)

lemma str_get_len:
  assumes "str_get s a b = Some t"
  shows "b = a + str_len t \<and> b \<le> str_len s"
proof -
  obtain i j where "i \<le> j" "j \<le> length s" "a = offset s i" "b = offset s j" "t = take (j - i) (drop i s)"
    using assms unfolding str_get_Some by blast
  then show ?thesis using offset_split [of i j s] offset_mono [of j "length s" s] by simp
qed

section \<open>Lines\<close>

text \<open>\<open>split_inclusive('\n')\<close>.\<close>

fun split_lines :: "ustr \<Rightarrow> ustr list" where
  "split_lines [] = []"
| "split_lines (c # s) =
     (if c = 10 then [c] # split_lines s
      else case split_lines s of [] \<Rightarrow> [[c]] | l # ls \<Rightarrow> (c # l) # ls)"

lemma concat_split_lines: "concat (split_lines s) = s"
  by (induction s) (auto split: list.splits)

end
