(* ===== verification/Generation_Supervisor.thy ===== *)
theory Generation_Supervisor
  imports Operation_Lifecycle Lifecycle_Spec Unicode_Text
begin

text \<open>
  Loom's generation supervisor, \<open>products/loom/crates/loom-host/src/generation_supervisor.rs\<close>.

  The supervisor owns the operations of the writing application, each with its attempts, its
  \<open>RunControl\<close> and a bounded history of progress, and the ledger of its workers. An
  \<open>Arc<OnceLock<GenerationOperationSnapshot>>\<close> is an address into \<open>gs_slots\<close>. A lease may be cloned
  and kept for ever, so every call of the run relation takes any lease; only reading a released
  snapshot depends on the address in it. \<open>InstanceId\<close> is compared by identity and is a number
  given to the supervisor when it is created. Every method takes the one mutex, so a call is one
  step. Two panics can happen under the lock: the \<open>unreachable!\<close> of \<open>claim_terminal\<close>, and the
  capacity overflow of \<open>VecDeque::with_capacity\<close> in \<open>reserve\<close>. The calls that contain them return
  \<open>None\<close> for the panic and leave the mutex poisoned.
\<close>

section \<open>State\<close>

definition COMPLETED_WORKER_HISTORY :: nat where "COMPLETED_WORKER_HISTORY = 256"

datatype gs_supervisor_phase = Gen_Running | Gen_Quiescing | Gen_Closed

record gs_identity =
  gi_owner :: nat
  gi_operation_id :: ustr
  gi_attempt_id :: ustr
  gi_sequence :: nat

record gs_terminal_record =
  gt_identity :: gs_identity
  gt_class :: terminal_class

record gs_snapshot =
  gn_identity :: gs_identity
  gn_phase :: operation_phase
  gn_cancellation_requested :: bool
  gn_authoritative_terminal :: "gs_terminal_record option"
  gn_final_projection :: "gs_terminal_record option"
  gn_progress_projection :: "nat list"

record gs_closed_facts =
  cf_lifecycle :: gs_supervisor_phase
  cf_active_operations :: nat
  cf_retained_tasks :: nat
  cf_expected_workers :: "nat set"
  cf_joined_workers :: "nat set"

record gs_lease =
  gl_identity :: gs_identity
  gl_released :: nat

record gs_ticket =
  gk_identity :: gs_identity
  gk_armed :: bool

record gs_attempt =
  ga_identity :: gs_identity
  ga_control :: cell

record gs_operation =
  go_released :: nat
  go_current :: gs_identity
  go_phase :: operation_phase
  go_control :: cell
  go_terminal :: "gs_terminal_record option"
  go_progress :: "nat list"
  go_attempts :: "nat \<rightharpoonup> gs_attempt"

record gs_state =
  gs_owner :: nat
  gs_phase :: gs_supervisor_phase
  gs_next_sequence :: nat
  gs_operations :: "ustr \<rightharpoonup> gs_operation"
  gs_workers :: "nat worker_ledger"
  gs_canonical_close :: "gs_closed_facts option"
  gs_progress_capacity :: nat
  gs_slots :: "gs_snapshot option list"
  gs_poisoned :: bool

datatype gs_error =
    InvalidProgressCapacity
  | EmptyOperationId
  | NotAccepting
  | DuplicateOperation ustr
  | SequenceExhausted
  | InvalidTransition
  | StaleLease
  | AttemptsActive
  | NotDrained
  | DuplicateWorker nat
  | UnknownWorker nat
  | Supervisor_Closed
  | Poisoned

type_synonym 'a gs_result = "gs_state \<times> ('a, gs_error) result"
type_synonym 'a gs_panicky = "gs_state \<times> ('a, gs_error) result option"

section \<open>Free functions of the file\<close>

definition gs_identity_of :: "nat \<Rightarrow> ustr \<Rightarrow> nat \<Rightarrow> gs_identity" where
  "gs_identity_of owner oid sequence =
     \<lparr>gi_owner = owner, gi_operation_id = oid, gi_attempt_id = oid @ ascii '':'' @ ascii (show_nat sequence),
      gi_sequence = sequence\<rparr>"

definition allocate_identity :: "ustr \<Rightarrow> gs_state \<Rightarrow> gs_identity gs_result" where
  "allocate_identity oid s =
     (case checked_add U64_MAX (gs_next_sequence s) 1 of
        None \<Rightarrow> (s, Err SequenceExhausted)
      | Some following \<Rightarrow>
          (s\<lparr>gs_next_sequence := following\<rparr>, Ok (gs_identity_of (gs_owner s) oid (gs_next_sequence s))))"

definition current_operation :: "gs_state \<Rightarrow> gs_identity \<Rightarrow> (gs_operation, gs_error) result" where
  "current_operation s identity =
     (case gs_operations s (gi_operation_id identity) of
        None \<Rightarrow> Err StaleLease
      | Some operation \<Rightarrow> if go_current operation \<noteq> identity then Err StaleLease else Ok operation)"

definition snapshot_for :: "gs_operation \<Rightarrow> operation_phase \<Rightarrow> gs_snapshot" where
  "snapshot_for operation phase =
     \<lparr>gn_identity = go_current operation, gn_phase = phase,
      gn_cancellation_requested = cancellation_requested (go_control operation),
      gn_authoritative_terminal = go_terminal operation, gn_final_projection = go_terminal operation,
      gn_progress_projection = go_progress operation\<rparr>"

text \<open>The control after the claim and the class to record; the outer option is the panic.\<close>

definition claim_terminal_class :: "cell \<Rightarrow> terminal_class \<Rightarrow> (cell \<times> (terminal_class, gs_error) result) option" where
  "claim_terminal_class control class =
     (case claim_terminal control of
        None \<Rightarrow> None
      | Some (control', None) \<Rightarrow> Some (control', Err InvalidTransition)
      | Some (control', Some claim) \<Rightarrow>
          Some (control', Ok (if cancellation_requested_claim claim \<and> class = Completed then Cancelled else class)))"

definition closed_facts :: "gs_state \<Rightarrow> gs_closed_facts" where
  "closed_facts s =
     \<lparr>cf_lifecycle = gs_phase s, cf_active_operations = card (dom (gs_operations s)),
      cf_retained_tasks = outstanding_count (gs_workers s), cf_expected_workers = expected (gs_workers s),
      cf_joined_workers = joined (gs_workers s)\<rparr>"

text \<open>\<open>OnceLock::set\<close> keeps a value that is already there.\<close>

definition once_set :: "nat \<Rightarrow> gs_snapshot \<Rightarrow> gs_state \<Rightarrow> gs_state" where
  "once_set a snapshot s =
     (if gs_slots s ! a = None then s\<lparr>gs_slots := (gs_slots s)[a := Some snapshot]\<rparr> else s)"

definition gs_put :: "gs_operation \<Rightarrow> gs_state \<Rightarrow> gs_state" where
  "gs_put operation s =
     s\<lparr>gs_operations := (gs_operations s)(gi_operation_id (go_current operation) \<mapsto> operation)\<rparr>"

text \<open>The operation under this identity leaves the map and its final snapshot is published.\<close>

definition gs_remove :: "gs_operation \<Rightarrow> gs_state \<Rightarrow> gs_state" where
  "gs_remove operation s =
     once_set (go_released operation) (snapshot_for operation Released)
       (s\<lparr>gs_operations := (gs_operations s)(gi_operation_id (go_current operation) := None)\<rparr>)"

text \<open>Selecting the terminal class of an operation; \<open>f\<close> is what happens to the settled operation.\<close>

definition gs_settle ::
    "gs_identity \<Rightarrow> terminal_class \<Rightarrow> gs_operation \<Rightarrow> (gs_operation \<Rightarrow> gs_state \<Rightarrow> gs_state) \<Rightarrow> gs_state \<Rightarrow> unit gs_panicky" where
  "gs_settle identity class operation f s =
     (case claim_terminal_class (go_control operation) class of
        None \<Rightarrow> (s\<lparr>gs_poisoned := True\<rparr>, None)
      | Some (control, Err e) \<Rightarrow> (gs_put (operation\<lparr>go_control := control\<rparr>) s, Some (Err e))
      | Some (control, Ok class) \<Rightarrow>
          (f (operation\<lparr>go_control := control, go_terminal := Some \<lparr>gt_identity = identity, gt_class = class\<rparr>,
                        go_phase := Terminal\<rparr>) s, Some (Ok ())))"

definition terminal_and_release_locked :: "gs_lease \<Rightarrow> terminal_class \<Rightarrow> gs_state \<Rightarrow> unit gs_panicky" where
  "terminal_and_release_locked lease class s =
     (case current_operation s (gl_identity lease) of
        Err e \<Rightarrow> (s, Some (Err e))
      | Ok operation \<Rightarrow> gs_settle (gl_identity lease) class operation gs_remove s)"

section \<open>The supervisor\<close>

definition gs_with_next_sequence :: "nat \<Rightarrow> nat \<Rightarrow> nat \<Rightarrow> (gs_state, gs_error) result" where
  "gs_with_next_sequence owner progress_capacity next_sequence =
     (if progress_capacity = 0 then Err InvalidProgressCapacity
      else Ok \<lparr>gs_owner = owner, gs_phase = Gen_Running, gs_next_sequence = next_sequence,
               gs_operations = Map.empty, gs_workers = worker_ledger_new COMPLETED_WORKER_HISTORY,
               gs_canonical_close = None, gs_progress_capacity = progress_capacity, gs_slots = [],
               gs_poisoned = False\<rparr>)"

definition gs_new :: "nat \<Rightarrow> nat \<Rightarrow> (gs_state, gs_error) result" where
  "gs_new owner progress_capacity = gs_with_next_sequence owner progress_capacity 1"

text \<open>\<open>VecDeque::with_capacity\<close> panics where the bytes of so many \<open>u64\<close> exceed \<open>isize::MAX\<close>.\<close>

definition capacity_overflows :: "nat \<Rightarrow> bool" where
  "capacity_overflows capacity \<longleftrightarrow> 9223372036854775807 < 8 * capacity"

definition gs_reserve :: "ustr \<Rightarrow> gs_state \<Rightarrow> (gs_ticket \<times> gs_lease) gs_panicky" where
  "gs_reserve oid s =
     (if blank oid then (s, Some (Err EmptyOperationId))
      else if gs_poisoned s then (s, Some (Err Poisoned))
      else if gs_phase s \<noteq> Gen_Running then (s, Some (Err NotAccepting))
      else if gs_operations s oid \<noteq> None then (s, Some (Err (DuplicateOperation oid)))
      else
        (case allocate_identity oid s of
           (s, Err e) \<Rightarrow> (s, Some (Err e))
         | (s, Ok identity) \<Rightarrow>
             let released = length (gs_slots s);
                 s = s\<lparr>gs_slots := gs_slots s @ [None]\<rparr>
             in if capacity_overflows (gs_progress_capacity s) then (s\<lparr>gs_poisoned := True\<rparr>, None)
                else
                  (s\<lparr>gs_operations := (gs_operations s)(oid \<mapsto>
                       \<lparr>go_released = released, go_current = identity, go_phase = Reserved,
                        go_control = run_control_new False, go_terminal = None, go_progress = [],
                        go_attempts = Map.empty\<rparr>)\<rparr>,
                   Some (Ok (\<lparr>gk_identity = identity, gk_armed = True\<rparr>,
                             \<lparr>gl_identity = identity, gl_released = released\<rparr>)))))"

text \<open>\<open>lock\<close> followed by \<open>current_operation\<close> or \<open>current_operation_mut\<close>, the opening of most methods.\<close>

definition gs_current :: "gs_identity \<Rightarrow> gs_state \<Rightarrow> (gs_operation \<Rightarrow> 'a gs_result) \<Rightarrow> 'a gs_result" where
  "gs_current identity s f =
     (if gs_poisoned s then (s, Err Poisoned)
      else case current_operation s identity of Err e \<Rightarrow> (s, Err e) | Ok operation \<Rightarrow> f operation)"

definition gs_current_panicky :: "gs_identity \<Rightarrow> gs_state \<Rightarrow> (gs_operation \<Rightarrow> 'a gs_panicky) \<Rightarrow> 'a gs_panicky" where
  "gs_current_panicky identity s f =
     (if gs_poisoned s then (s, Some (Err Poisoned))
      else case current_operation s identity of Err e \<Rightarrow> (s, Some (Err e)) | Ok operation \<Rightarrow> f operation)"

definition gs_transition :: "operation_phase \<Rightarrow> operation_phase \<Rightarrow> gs_lease \<Rightarrow> gs_state \<Rightarrow> unit gs_result" where
  "gs_transition from to lease s = gs_current (gl_identity lease) s (\<lambda>operation.
     if go_phase operation \<noteq> from then (s, Err InvalidTransition)
     else (gs_put (operation\<lparr>go_phase := to\<rparr>) s, Ok ()))"

definition gs_queue :: "gs_lease \<Rightarrow> gs_state \<Rightarrow> unit gs_result" where
  "gs_queue = gs_transition Reserved Queued"

definition gs_start :: "gs_lease \<Rightarrow> gs_state \<Rightarrow> unit gs_result" where
  "gs_start = gs_transition Queued Running"

definition gs_terminal :: "gs_lease \<Rightarrow> terminal_class \<Rightarrow> gs_state \<Rightarrow> unit gs_panicky" where
  "gs_terminal lease class s = gs_current_panicky (gl_identity lease) s (\<lambda>operation.
     if go_phase operation \<noteq> Running \<or> go_terminal operation \<noteq> None then (s, Some (Err InvalidTransition))
     else if go_attempts operation \<noteq> Map.empty then (s, Some (Err AttemptsActive))
     else gs_settle (gl_identity lease) class operation gs_put s)"

definition gs_release :: "gs_lease \<Rightarrow> gs_state \<Rightarrow> unit gs_result" where
  "gs_release lease s = gs_current (gl_identity lease) s (\<lambda>operation.
     if go_phase operation \<noteq> Terminal then (s, Err InvalidTransition)
     else if go_attempts operation \<noteq> Map.empty then (s, Err AttemptsActive)
     else (gs_remove operation s, Ok ()))"

definition gs_terminal_and_release :: "gs_lease \<Rightarrow> terminal_class \<Rightarrow> gs_state \<Rightarrow> unit gs_panicky" where
  "gs_terminal_and_release lease class s = gs_current_panicky (gl_identity lease) s (\<lambda>operation.
     if go_phase operation \<noteq> Running \<or> go_terminal operation \<noteq> None then (s, Some (Err InvalidTransition))
     else if go_attempts operation \<noteq> Map.empty then (s, Some (Err AttemptsActive))
     else terminal_and_release_locked lease class s)"

definition gs_fail_and_release :: "gs_lease \<Rightarrow> gs_state \<Rightarrow> unit gs_panicky" where
  "gs_fail_and_release lease s = gs_current_panicky (gl_identity lease) s (\<lambda>operation.
     if \<not> (go_phase operation = Reserved \<or> go_phase operation = Queued \<or> go_phase operation = Running) \<or>
        go_terminal operation \<noteq> None then (s, Some (Err InvalidTransition))
     else if go_attempts operation \<noteq> Map.empty then (s, Some (Err AttemptsActive))
     else terminal_and_release_locked lease Failed s)"

text \<open>Cancelling the control of an operation and of every attempt of it.\<close>

definition go_cancel :: "gs_operation \<Rightarrow> gs_operation" where
  "go_cancel operation = operation\<lparr>go_control := fst (request_cancel (go_control operation)),
     go_attempts := (\<lambda>k. map_option (\<lambda>a. a\<lparr>ga_control := fst (request_cancel (ga_control a))\<rparr>)
                          (go_attempts operation k))\<rparr>"

definition gs_request_cancel :: "gs_identity \<Rightarrow> gs_state \<Rightarrow> unit gs_result" where
  "gs_request_cancel identity s = gs_current identity s (\<lambda>operation. (gs_put (go_cancel operation) s, Ok ()))"

definition gs_publish_progress :: "gs_lease \<Rightarrow> nat \<Rightarrow> gs_state \<Rightarrow> unit gs_result" where
  "gs_publish_progress lease sequence s = gs_current (gl_identity lease) s (\<lambda>operation.
     if go_phase operation \<noteq> Running then (s, Err InvalidTransition)
     else
       let progress = (if length (go_progress operation) = gs_progress_capacity s then tl (go_progress operation)
                       else go_progress operation)
       in (gs_put (operation\<lparr>go_progress := progress @ [sequence]\<rparr>) s, Ok ()))"

definition gs_lease_snapshot :: "gs_lease \<Rightarrow> gs_state \<Rightarrow> (gs_snapshot option, gs_error) result" where
  "gs_lease_snapshot lease s =
     (if gs_poisoned s then Err Poisoned
      else case current_operation s (gl_identity lease) of
             Ok operation \<Rightarrow> Ok (Some (snapshot_for operation (go_phase operation)))
           | Err e \<Rightarrow> Ok (gs_slots s ! gl_released lease))"

definition gs_current_snapshot :: "ustr \<Rightarrow> gs_state \<Rightarrow> (gs_snapshot option, gs_error) result" where
  "gs_current_snapshot oid s =
     (if gs_poisoned s then Err Poisoned
      else Ok (map_option (\<lambda>operation. snapshot_for operation (go_phase operation)) (gs_operations s oid)))"

definition gs_current_lease :: "ustr \<Rightarrow> gs_state \<Rightarrow> (gs_lease option, gs_error) result" where
  "gs_current_lease oid s =
     (if gs_poisoned s then Err Poisoned
      else Ok (map_option (\<lambda>operation. \<lparr>gl_identity = go_current operation, gl_released = go_released operation\<rparr>)
                 (gs_operations s oid)))"

definition gs_cancellation_requested :: "gs_lease \<Rightarrow> gs_state \<Rightarrow> (bool, gs_error) result" where
  "gs_cancellation_requested lease s =
     res_bind (gs_lease_snapshot lease s) (\<lambda>snapshot. Ok (is_some_and gn_cancellation_requested snapshot))"

text \<open>
  \<open>wait_released\<close>. A wake-up of the condition variable is the state found there, whether the wait
  had timed out, and whether the deadline has passed at the next look at the clock; the loop
  consumes the wake-ups in turn and is \<open>None\<close> while it has to wait for another. The mutex is
  locked at the start, and acquiring it again after a wait fails if it was poisoned meanwhile.
\<close>

fun gs_wait_loop :: "gs_lease \<Rightarrow> bool \<Rightarrow> gs_state \<Rightarrow> (gs_state \<times> bool \<times> bool) list \<Rightarrow>
    (gs_snapshot option, gs_error) result option" where
  "gs_wait_loop lease expired s wakes =
     (case gs_slots s ! gl_released lease of
        Some snapshot \<Rightarrow> Some (Ok (Some snapshot))
      | None \<Rightarrow>
          (case current_operation s (gl_identity lease) of
             Err e \<Rightarrow> Some (Err e)
           | Ok operation \<Rightarrow>
               if expired then Some (Ok None)
               else
                 (case wakes of
                    [] \<Rightarrow> None
                  | (t, timed_out, expired') # later \<Rightarrow>
                      if gs_poisoned t then Some (Err Poisoned)
                      else if timed_out \<and> gs_slots t ! gl_released lease = None then Some (Ok None)
                      else gs_wait_loop lease expired' t later)))"

definition gs_wait_released :: "gs_lease \<Rightarrow> bool \<Rightarrow> gs_state \<Rightarrow> (gs_state \<times> bool \<times> bool) list \<Rightarrow>
    (gs_snapshot option, gs_error) result option" where
  "gs_wait_released lease expired s wakes =
     (if gs_poisoned s then Some (Err Poisoned) else gs_wait_loop lease expired s wakes)"

definition gs_active_count :: "gs_state \<Rightarrow> (nat, gs_error) result" where
  "gs_active_count s = (if gs_poisoned s then Err Poisoned else Ok (card (dom (gs_operations s))))"

definition gs_phase_of :: "gs_state \<Rightarrow> (gs_supervisor_phase, gs_error) result" where
  "gs_phase_of s = (if gs_poisoned s then Err Poisoned else Ok (gs_phase s))"

definition gs_quiesce :: "gs_state \<Rightarrow> unit gs_result" where
  "gs_quiesce s =
     (if gs_poisoned s then (s, Err Poisoned)
      else
        (s\<lparr>gs_phase := (if gs_phase s = Gen_Running then Gen_Quiescing else gs_phase s),
           gs_operations := (\<lambda>oid. map_option go_cancel (gs_operations s oid))\<rparr>, Ok ()))"

definition gs_resume :: "gs_state \<Rightarrow> unit gs_result" where
  "gs_resume s =
     (if gs_poisoned s then (s, Err Poisoned)
      else if gs_phase s = Gen_Closed then (s, Err Supervisor_Closed)
      else (s\<lparr>gs_phase := Gen_Running, gs_canonical_close := None\<rparr>, Ok ()))"

definition gs_close :: "gs_state \<Rightarrow> gs_closed_facts gs_result" where
  "gs_close s =
     (if gs_poisoned s then (s, Err Poisoned)
      else case gs_canonical_close s of
             Some closed \<Rightarrow> (s, Ok closed)
           | None \<Rightarrow>
               if gs_operations s \<noteq> Map.empty \<or> outstanding_count (gs_workers s) \<noteq> 0 then (s, Err NotDrained)
               else
                 let s = s\<lparr>gs_phase := Gen_Closed\<rparr>; closed = closed_facts s
                 in (s\<lparr>gs_canonical_close := Some closed\<rparr>, Ok closed))"

definition gs_note_worker_started :: "nat \<Rightarrow> gs_state \<Rightarrow> unit gs_result" where
  "gs_note_worker_started worker s =
     (if gs_poisoned s then (s, Err Poisoned)
      else if gs_canonical_close s \<noteq> None then (s, Err (DuplicateWorker worker))
      else
        (case note_started worker (gs_workers s) of
           (workers, fresh) \<Rightarrow>
             (s\<lparr>gs_workers := workers\<rparr>, if fresh then Ok () else Err (DuplicateWorker worker))))"

definition gs_note_worker_joined :: "nat \<Rightarrow> gs_state \<Rightarrow> unit gs_result" where
  "gs_note_worker_joined worker s =
     (if gs_poisoned s then (s, Err Poisoned)
      else
        (case note_joined worker (gs_workers s) of
           (workers, known) \<Rightarrow>
             (s\<lparr>gs_workers := workers\<rparr>, if known then Ok () else Err (UnknownWorker worker))))"

definition gs_retained_task_count :: "gs_state \<Rightarrow> (nat, gs_error) result" where
  "gs_retained_task_count s = (if gs_poisoned s then Err Poisoned else Ok (outstanding_count (gs_workers s)))"

definition gs_closed_facts_of :: "gs_state \<Rightarrow> (gs_closed_facts, gs_error) result" where
  "gs_closed_facts_of s =
     (if gs_poisoned s then Err Poisoned
      else Ok (case gs_canonical_close s of Some closed \<Rightarrow> closed | None \<Rightarrow> closed_facts s))"

section \<open>Tickets and attempts\<close>

text \<open>\<open>alive\<close> tells whether the supervisor behind the weak reference still exists.\<close>

definition gs_ticket_request_cancel :: "bool \<Rightarrow> gs_ticket \<Rightarrow> gs_state \<Rightarrow> unit gs_result" where
  "gs_ticket_request_cancel alive ticket s =
     (if alive then gs_request_cancel (gk_identity ticket) s else (s, Err Supervisor_Closed))"

definition gs_ticket_drop :: "bool \<Rightarrow> gs_ticket \<Rightarrow> gs_state \<Rightarrow> gs_state" where
  "gs_ticket_drop alive ticket s = (if gk_armed ticket then fst (gs_ticket_request_cancel alive ticket s) else s)"

text \<open>Both consume the ticket, which is dropped at the end; a failed \<open>cancel\<close> leaves it armed.\<close>

definition gs_ticket_cancel :: "bool \<Rightarrow> gs_ticket \<Rightarrow> gs_state \<Rightarrow> unit gs_result" where
  "gs_ticket_cancel alive ticket s =
     (case gs_ticket_request_cancel alive ticket s of
        (s, Err e) \<Rightarrow> (gs_ticket_drop alive ticket s, Err e)
      | (s, Ok u) \<Rightarrow> (gs_ticket_drop alive (ticket\<lparr>gk_armed := False\<rparr>) s, Ok ()))"

definition gs_ticket_detach :: "bool \<Rightarrow> gs_ticket \<Rightarrow> gs_state \<Rightarrow> gs_state" where
  "gs_ticket_detach alive ticket s = gs_ticket_drop alive (ticket\<lparr>gk_armed := False\<rparr>) s"

definition gs_create_operation :: "ustr \<Rightarrow> gs_state \<Rightarrow> gs_lease gs_panicky" where
  "gs_create_operation oid s =
     (case gs_reserve oid s of
        (s, None) \<Rightarrow> (s, None)
      | (s, Some (Err e)) \<Rightarrow> (s, Some (Err e))
      | (s, Some (Ok (ticket, lease))) \<Rightarrow> (gs_ticket_detach True ticket s, Some (Ok lease)))"

definition gs_start_attempt :: "gs_lease \<Rightarrow> gs_state \<Rightarrow> gs_lease gs_result" where
  "gs_start_attempt lease s = gs_current (gl_identity lease) s (\<lambda>_.
     case allocate_identity (gi_operation_id (gl_identity lease)) s of
       (s, Err e) \<Rightarrow> (s, Err e)
     | (s, Ok identity) \<Rightarrow>
         (case gs_operations s (gi_operation_id (gl_identity lease)) of
            None \<Rightarrow> (s, Err StaleLease)
          | Some operation \<Rightarrow>
              (gs_put (operation\<lparr>go_attempts := (go_attempts operation)(gi_sequence identity \<mapsto>
                         \<lparr>ga_identity = identity,
                          ga_control = run_control_new (cancellation_requested (go_control operation))\<rparr>)\<rparr>)
                 (s\<lparr>gs_slots := gs_slots s @ [None]\<rparr>),
               Ok \<lparr>gl_identity = identity, gl_released = length (gs_slots s)\<rparr>)))"

definition gs_active_attempts :: "gs_lease \<Rightarrow> gs_state \<Rightarrow> (gs_identity list, gs_error) result" where
  "gs_active_attempts lease s =
     (if gs_poisoned s then Err Poisoned
      else Ok (case gs_operations s (gi_operation_id (gl_identity lease)) of
                 None \<Rightarrow> []
               | Some candidate \<Rightarrow>
                   if go_current candidate = gl_identity lease
                   then map (\<lambda>k. ga_identity (the (go_attempts candidate k)))
                          (sorted_list_of_set (dom (go_attempts candidate)))
                   else []))"

definition gs_attempt_cancelled :: "gs_lease \<Rightarrow> gs_state \<Rightarrow> (bool, gs_error) result" where
  "gs_attempt_cancelled attempt s =
     (if gs_poisoned s then Err Poisoned
      else Ok (is_some_and
                 (\<lambda>candidate. ga_identity candidate = gl_identity attempt \<and>
                    cancellation_requested (ga_control candidate))
                 (Option.bind (gs_operations s (gi_operation_id (gl_identity attempt)))
                    (\<lambda>operation. go_attempts operation (gi_sequence (gl_identity attempt))))))"

definition gs_finish_attempt :: "gs_lease \<Rightarrow> gs_state \<Rightarrow> unit gs_result" where
  "gs_finish_attempt attempt s =
     (if gs_poisoned s then (s, Err Poisoned)
      else case gs_operations s (gi_operation_id (gl_identity attempt)) of
             None \<Rightarrow> (s, Err StaleLease)
           | Some operation \<Rightarrow>
               (case go_attempts operation (gi_sequence (gl_identity attempt)) of
                  None \<Rightarrow> (s, Err StaleLease)
                | Some removed \<Rightarrow>
                    if ga_identity removed \<noteq> gl_identity attempt then (s, Err StaleLease)
                    else
                      (s\<lparr>gs_operations := (gs_operations s)(gi_operation_id (gl_identity attempt) \<mapsto>
                           operation\<lparr>go_attempts := (go_attempts operation)(gi_sequence (gl_identity attempt) := None)\<rparr>)\<rparr>,
                       Ok ())))"

definition gs_finish_operation :: "gs_lease \<Rightarrow> gs_state \<Rightarrow> unit gs_panicky" where
  "gs_finish_operation lease s = gs_current_panicky (gl_identity lease) s (\<lambda>candidate.
     if go_attempts candidate \<noteq> Map.empty then (s, Some (Err AttemptsActive))
     else if go_terminal candidate \<noteq> None then (s, Some (Err InvalidTransition))
     else terminal_and_release_locked lease Cancelled s)"

section \<open>Runs\<close>

text \<open>A step is any call that can write, by any holder of any lease, ticket or identity, or a panic
  elsewhere that poisons the mutex.\<close>

datatype gs_call =
    GC_Reserve ustr
  | GC_Create ustr
  | GC_Queue gs_lease
  | GC_Start gs_lease
  | GC_Terminal gs_lease terminal_class
  | GC_Release gs_lease
  | GC_Terminal_And_Release gs_lease terminal_class
  | GC_Fail_And_Release gs_lease
  | GC_Request_Cancel gs_identity
  | GC_Publish gs_lease nat
  | GC_Quiesce
  | GC_Resume
  | GC_Close
  | GC_Worker_Started nat
  | GC_Worker_Joined nat
  | GC_Start_Attempt gs_lease
  | GC_Finish_Attempt gs_lease
  | GC_Finish_Operation gs_lease
  | GC_Ticket_Cancel bool gs_ticket
  | GC_Ticket_Drop bool gs_ticket
  | GC_Poison

fun gs_exec :: "gs_call \<Rightarrow> gs_state \<Rightarrow> gs_state" where
  "gs_exec (GC_Reserve oid) s = fst (gs_reserve oid s)"
| "gs_exec (GC_Create oid) s = fst (gs_create_operation oid s)"
| "gs_exec (GC_Queue l) s = fst (gs_queue l s)"
| "gs_exec (GC_Start l) s = fst (gs_start l s)"
| "gs_exec (GC_Terminal l c) s = fst (gs_terminal l c s)"
| "gs_exec (GC_Release l) s = fst (gs_release l s)"
| "gs_exec (GC_Terminal_And_Release l c) s = fst (gs_terminal_and_release l c s)"
| "gs_exec (GC_Fail_And_Release l) s = fst (gs_fail_and_release l s)"
| "gs_exec (GC_Request_Cancel i) s = fst (gs_request_cancel i s)"
| "gs_exec (GC_Publish l n) s = fst (gs_publish_progress l n s)"
| "gs_exec GC_Quiesce s = fst (gs_quiesce s)"
| "gs_exec GC_Resume s = fst (gs_resume s)"
| "gs_exec GC_Close s = fst (gs_close s)"
| "gs_exec (GC_Worker_Started w) s = fst (gs_note_worker_started w s)"
| "gs_exec (GC_Worker_Joined w) s = fst (gs_note_worker_joined w s)"
| "gs_exec (GC_Start_Attempt l) s = fst (gs_start_attempt l s)"
| "gs_exec (GC_Finish_Attempt l) s = fst (gs_finish_attempt l s)"
| "gs_exec (GC_Finish_Operation l) s = fst (gs_finish_operation l s)"
| "gs_exec (GC_Ticket_Cancel alive k) s = fst (gs_ticket_cancel alive k s)"
| "gs_exec (GC_Ticket_Drop alive k) s = gs_ticket_drop alive k s"
| "gs_exec GC_Poison s = s\<lparr>gs_poisoned := True\<rparr>"

inductive gs_step :: "gs_state \<Rightarrow> gs_state \<Rightarrow> bool" where
  gs_step: "gs_step s (gs_exec c s)"

section \<open>What a step can do\<close>

text \<open>Settling an operation: cancellation turns completion into cancellation, and only a running
  operation completes.\<close>

definition go_settles :: "gs_operation \<Rightarrow> gs_operation \<Rightarrow> bool" where
  "go_settles r r' \<longleftrightarrow>
     go_phase r \<noteq> Terminal \<and> go_attempts r = Map.empty \<and>
     (\<exists>c. (c = Completed \<longrightarrow> go_phase r = Running \<and> \<not> cancellation_requested (go_control r)) \<and>
          r' = r\<lparr>go_control := (if cancellation_requested (go_control r) then TERMINAL_CANCELLED else TERMINAL),
                 go_terminal := Some \<lparr>gt_identity = go_current r, gt_class = c\<rparr>, go_phase := Terminal\<rparr>)"

text \<open>The changes of an operation that stays.\<close>

inductive go_evolves :: "nat \<Rightarrow> gs_operation \<Rightarrow> gs_operation \<Rightarrow> bool" for cap where
  ge_same: "go_evolves cap r r"
| ge_queue: "go_phase r = Reserved \<Longrightarrow> go_evolves cap r (r\<lparr>go_phase := Queued\<rparr>)"
| ge_start: "go_phase r = Queued \<Longrightarrow> go_evolves cap r (r\<lparr>go_phase := Running\<rparr>)"
| ge_settle: "go_settles r r' \<Longrightarrow> go_evolves cap r r'"
| ge_cancel: "go_evolves cap r (go_cancel r)"
| ge_progress: "length p \<le> cap \<Longrightarrow> go_evolves cap r (r\<lparr>go_progress := p\<rparr>)"
| ge_finish: "go_evolves cap r (r\<lparr>go_attempts := (go_attempts r)(k := None)\<rparr>)"

definition go_new :: "nat \<Rightarrow> ustr \<Rightarrow> nat \<Rightarrow> nat \<Rightarrow> gs_operation" where
  "go_new owner oid sequence slot =
     \<lparr>go_released = slot, go_current = gs_identity_of owner oid sequence, go_phase = Reserved,
      go_control = run_control_new False, go_terminal = None, go_progress = [], go_attempts = Map.empty\<rparr>"

definition go_add_attempt :: "nat \<Rightarrow> ustr \<Rightarrow> nat \<Rightarrow> gs_operation \<Rightarrow> gs_operation" where
  "go_add_attempt owner oid k r = r\<lparr>go_attempts := (go_attempts r)(k \<mapsto>
     \<lparr>ga_identity = gs_identity_of owner oid k, ga_control = run_control_new (cancellation_requested (go_control r))\<rparr>)\<rparr>"

definition gs_frame :: "gs_state \<Rightarrow> gs_state \<Rightarrow> bool" where
  "gs_frame s t \<longleftrightarrow> gs_owner t = gs_owner s \<and> gs_progress_capacity t = gs_progress_capacity s"

inductive gs_move :: "gs_state \<Rightarrow> gs_state \<Rightarrow> bool" where
  gm_stay: "gs_frame s t \<Longrightarrow> gs_operations t = gs_operations s \<Longrightarrow> gs_next_sequence t = gs_next_sequence s \<Longrightarrow>
    gs_slots t = gs_slots s \<Longrightarrow> gs_move s t"
| gm_put: "gs_frame s t \<Longrightarrow> gs_operations s oid = Some r \<Longrightarrow> go_evolves (gs_progress_capacity s) r r' \<Longrightarrow>
    gs_operations t = (gs_operations s)(oid \<mapsto> r') \<Longrightarrow> gs_next_sequence t = gs_next_sequence s \<Longrightarrow>
    gs_slots t = gs_slots s \<Longrightarrow> gs_move s t"
| gm_cancel_all: "gs_frame s t \<Longrightarrow> gs_operations t = (\<lambda>oid. map_option go_cancel (gs_operations s oid)) \<Longrightarrow>
    gs_next_sequence t = gs_next_sequence s \<Longrightarrow> gs_slots t = gs_slots s \<Longrightarrow> gs_move s t"
| gm_admit: "gs_frame s t \<Longrightarrow> gs_operations s oid = None \<Longrightarrow> gs_next_sequence s < U64_MAX \<Longrightarrow>
    gs_operations t = (gs_operations s)(oid \<mapsto> go_new (gs_owner s) oid (gs_next_sequence s) (length (gs_slots s))) \<Longrightarrow>
    gs_next_sequence t = Suc (gs_next_sequence s) \<Longrightarrow> gs_slots t = gs_slots s @ [None] \<Longrightarrow> gs_move s t"
| gm_attempt: "gs_frame s t \<Longrightarrow> gs_operations s oid = Some r \<Longrightarrow> gs_next_sequence s < U64_MAX \<Longrightarrow>
    gs_operations t = (gs_operations s)(oid \<mapsto> go_add_attempt (gs_owner s) oid (gs_next_sequence s) r) \<Longrightarrow>
    gs_next_sequence t = Suc (gs_next_sequence s) \<Longrightarrow> gs_slots t = gs_slots s @ [None] \<Longrightarrow> gs_move s t"
| gm_spend: "gs_frame s t \<Longrightarrow> gs_operations t = gs_operations s \<Longrightarrow> gs_next_sequence s < U64_MAX \<Longrightarrow>
    gs_next_sequence t = Suc (gs_next_sequence s) \<Longrightarrow> gs_slots t = gs_slots s @ [None] \<Longrightarrow> gs_move s t"
| gm_leave: "gs_frame s t \<Longrightarrow> gs_operations s oid = Some r \<Longrightarrow> r' = r \<and> go_phase r = Terminal \<or> go_settles r r' \<Longrightarrow>
    go_attempts r = Map.empty \<Longrightarrow> gs_operations t = (gs_operations s)(oid := None) \<Longrightarrow>
    gs_next_sequence t = gs_next_sequence s \<Longrightarrow>
    gs_slots t = (gs_slots s)[go_released r := Some (snapshot_for r' Released)] \<Longrightarrow> gs_move s t"

section \<open>Invariant\<close>

definition ga_ok :: "gs_operation \<Rightarrow> nat \<Rightarrow> ustr \<Rightarrow> nat \<Rightarrow> nat \<Rightarrow> gs_attempt \<Rightarrow> bool" where
  "ga_ok r owner oid following k a \<longleftrightarrow>
     ga_identity a = gs_identity_of owner oid k \<and> gi_sequence (go_current r) < k \<and> k < following \<and>
     (ga_control a = RUNNING \<or> ga_control a = CANCEL_REQUESTED) \<and>
     (cancellation_requested (go_control r) \<longrightarrow> cancellation_requested (ga_control a))"

definition go_life_ok :: "gs_operation \<Rightarrow> bool" where
  "go_life_ok r \<longleftrightarrow>
     valid_cell (go_control r) \<and> (is_terminal (go_control r) \<longleftrightarrow> go_phase r = Terminal) \<and>
     (\<forall>t. go_terminal r = Some t \<longrightarrow> gt_identity t = go_current r \<and>
        (gt_class t = Completed \<longrightarrow> \<not> cancellation_requested (go_control r)))"

definition gi_ok :: "nat \<Rightarrow> ustr \<Rightarrow> gs_identity \<Rightarrow> bool" where
  "gi_ok owner oid i \<longleftrightarrow> i = gs_identity_of owner oid (gi_sequence i)"

definition go_ok :: "gs_state \<Rightarrow> ustr \<Rightarrow> gs_operation \<Rightarrow> bool" where
  "go_ok s oid r \<longleftrightarrow>
     gi_ok (gs_owner s) oid (go_current r) \<and>
     go_life_ok r \<and> length (go_progress r) \<le> gs_progress_capacity s \<and> finite (dom (go_attempts r)) \<and>
     go_released r < length (gs_slots s) \<and> gs_slots s ! go_released r = None \<and>
     (\<forall>k a. go_attempts r k = Some a \<longrightarrow> ga_ok r (gs_owner s) oid (gs_next_sequence s) k a)"

definition go_abs :: "gs_operation \<Rightarrow> live_op" where
  "go_abs r = \<lparr>lo_sequence = gi_sequence (go_current r), lo_phase = go_phase r,
     lo_terminal = map_option gt_class (go_terminal r)\<rparr>"

definition gs_abs :: "gs_state \<Rightarrow> ustr lifecycle" where
  "gs_abs s = \<lparr>lc_next = gs_next_sequence s, lc_live = (\<lambda>oid. map_option go_abs (gs_operations s oid))\<rparr>"

text \<open>A closed supervisor is empty, and the facts it recorded are still the facts.\<close>

definition gs_drain_ok :: "gs_state \<Rightarrow> bool" where
  "gs_drain_ok s \<longleftrightarrow>
     ledger_inv (gs_workers s) \<and> history_capacity (gs_workers s) = COMPLETED_WORKER_HISTORY \<and>
     (gs_phase s = Gen_Closed \<longleftrightarrow> gs_canonical_close s \<noteq> None) \<and>
     (\<forall>f. gs_canonical_close s = Some f \<longrightarrow>
        gs_operations s = Map.empty \<and> outstanding (gs_workers s) = {} \<and> f = closed_facts s)"

definition gs_inv :: "gs_state \<Rightarrow> bool" where
  "gs_inv s \<longleftrightarrow>
     lc_inv (gs_abs s) \<and> gs_next_sequence s \<le> U64_MAX \<and> 0 < gs_progress_capacity s \<and> finite (dom (gs_operations s)) \<and>
     (\<forall>oid r. gs_operations s oid = Some r \<longrightarrow> go_ok s oid r) \<and>
     (\<forall>i j r r'. gs_operations s i = Some r \<longrightarrow> gs_operations s j = Some r' \<longrightarrow>
        go_released r = go_released r' \<longrightarrow> i = j) \<and>
     gs_drain_ok s"

lemma gi_identity_of [simp]:
  "gi_owner (gs_identity_of owner oid n) = owner" "gi_operation_id (gs_identity_of owner oid n) = oid"
  "gi_sequence (gs_identity_of owner oid n) = n"
  by (simp_all add: gs_identity_of_def)

lemma current_operation_Ok [result_simps]:
  "current_operation s i = Ok r \<longleftrightarrow> gs_operations s (gi_operation_id i) = Some r \<and> go_current r = i"
  by (auto simp: current_operation_def split: option.splits)

lemma current_operation_Err [result_simps]:
  "current_operation s i = Err e \<longleftrightarrow>
     e = StaleLease \<and> (\<forall>r. gs_operations s (gi_operation_id i) = Some r \<longrightarrow> go_current r \<noteq> i)"
  by (auto simp: current_operation_def split: option.splits)

lemma gs_invD:
  assumes "gs_inv s"
  shows "lc_inv (gs_abs s)" "gs_next_sequence s \<le> U64_MAX" "0 < gs_progress_capacity s"
    "finite (dom (gs_operations s))" "gs_operations s oid = Some r \<Longrightarrow> go_ok s oid r" "gs_drain_ok s"
    "gs_operations s i = Some r \<Longrightarrow> gs_operations s j = Some r' \<Longrightarrow> go_released r = go_released r' \<Longrightarrow> i = j"
  using assms unfolding gs_inv_def by blast+

lemma go_ok_id: "go_ok s oid r \<Longrightarrow> gi_operation_id (go_current r) = oid \<and> gi_owner (go_current r) = gs_owner s"
  unfolding go_ok_def gi_ok_def by (metis gi_identity_of(1,2))

text \<open>The abstract invariant, read for one operation.\<close>

lemma gs_inv_life:
  assumes "gs_inv s" and "gs_operations s oid = Some r"
  shows "gi_sequence (go_current r) < gs_next_sequence s" "go_phase r \<noteq> Released"
    "go_terminal r = None \<longleftrightarrow> go_phase r \<noteq> Terminal"
proof -
  have "lc_live (gs_abs s) oid = Some (go_abs r)" using assms(2) by (simp add: gs_abs_def)
  with gs_invD(1) [OF assms(1)] have "lo_sequence (go_abs r) < lc_next (gs_abs s) \<and> lo_phase (go_abs r) \<noteq> Released \<and>
      (lo_terminal (go_abs r) = None \<longleftrightarrow> phase_rank (lo_phase (go_abs r)) < phase_rank Terminal)"
    unfolding lc_inv_def by blast
  then show "gi_sequence (go_current r) < gs_next_sequence s" "go_phase r \<noteq> Released"
    "go_terminal r = None \<longleftrightarrow> go_phase r \<noteq> Terminal"
    by (cases "go_phase r"; simp add: go_abs_def gs_abs_def)+
qed

section \<open>Every call is a move\<close>

lemma gs_current_move: "(\<And>r. gs_operations s (gi_operation_id i) = Some r \<Longrightarrow> go_current r = i \<Longrightarrow> \<not> gs_poisoned s \<Longrightarrow> gs_move s (fst (f r))) \<Longrightarrow>
    gs_move s (fst (gs_current i s f))"
  by (auto simp: gs_current_def gs_frame_def result_simps intro!: gm_stay split: result.split)

lemma gs_current_panicky_move: "(\<And>r. gs_operations s (gi_operation_id i) = Some r \<Longrightarrow> go_current r = i \<Longrightarrow> \<not> gs_poisoned s \<Longrightarrow> gs_move s (fst (f r))) \<Longrightarrow>
    gs_move s (fst (gs_current_panicky i s f))"
  by (auto simp: gs_current_panicky_def gs_frame_def result_simps intro!: gm_stay split: result.split)

lemma gs_move_refl [simp]: "gs_move s s"
  by (rule gm_stay) (simp_all add: gs_frame_def)

lemma gs_put_move:
  assumes "gs_operations s (gi_operation_id (go_current r)) = Some r" and "go_evolves (gs_progress_capacity s) r r'"
    and "go_current r' = go_current r"
  shows "gs_move s (gs_put r' s)"
  by (rule gm_put [OF _ assms(1,2)]) (simp_all add: gs_frame_def gs_put_def assms(3))

text \<open>What the claim does to an operation of a good state.\<close>

lemma claim_terminal_class_live:
  assumes "valid_cell c" and "\<not> is_terminal c"
  shows "claim_terminal_class c class =
    Some (if cancellation_requested c then TERMINAL_CANCELLED else TERMINAL,
          Ok (if cancellation_requested c \<and> class = Completed then Cancelled else class))"
  using assms by (auto simp: claim_terminal_class_def claim_terminal_def claim_decide_def valid_cell_def
      is_terminal_def cancellation_requested_def)

lemma gs_settle_live:
  assumes "go_life_ok r" and "go_phase r \<noteq> Terminal"
  shows "gs_settle i class r f s =
    (f (r\<lparr>go_control := (if cancellation_requested (go_control r) then TERMINAL_CANCELLED else TERMINAL),
          go_terminal := Some \<lparr>gt_identity = i,
            gt_class = (if cancellation_requested (go_control r) \<and> class = Completed then Cancelled else class)\<rparr>,
          go_phase := Terminal\<rparr>) s, Some (Ok ()))"
proof -
  have "valid_cell (go_control r)" "\<not> is_terminal (go_control r)"
    using assms by (auto simp: go_life_ok_def)
  note claim_terminal_class_live [OF this]
  then show ?thesis by (simp add: gs_settle_def)
qed

lemma go_settles_class:
  assumes "go_phase r \<noteq> Terminal" and "go_attempts r = Map.empty" and "class = Completed \<longrightarrow> go_phase r = Running"
  shows "go_settles r (r\<lparr>go_control := (if cancellation_requested (go_control r) then TERMINAL_CANCELLED else TERMINAL),
    go_terminal := Some \<lparr>gt_identity = go_current r,
      gt_class = (if cancellation_requested (go_control r) \<and> class = Completed then Cancelled else class)\<rparr>,
    go_phase := Terminal\<rparr>)"
  unfolding go_settles_def
  by (intro conjI exI [of _ "if cancellation_requested (go_control r) \<and> class = Completed then Cancelled else class"])
    (use assms in auto)

lemma gs_remove_move:
  assumes inv: "gs_inv s" and live: "gs_operations s (gi_operation_id (go_current r)) = Some r"
    and leaves: "r' = r \<and> go_phase r = Terminal \<or> go_settles r r'" and none: "go_attempts r = Map.empty"
  shows "gs_move s (gs_remove r' s)"
proof -
  have same: "go_released r' = go_released r" "go_current r' = go_current r"
    using leaves by (auto simp: go_settles_def)
  have "gs_slots s ! go_released r = None" using gs_invD(5) [OF inv live] by (simp add: go_ok_def)
  with same show ?thesis
    by (intro gm_leave [OF _ live leaves none]) (simp_all add: gs_remove_def once_set_def gs_frame_def)
qed

lemma terminal_and_release_locked_move:
  assumes inv: "gs_inv s" and live: "gs_operations s (gi_operation_id (gl_identity l)) = Some r" "go_current r = gl_identity l"
    and "go_phase r \<noteq> Terminal" "go_attempts r = Map.empty" "class = Completed \<longrightarrow> go_phase r = Running"
  shows "gs_move s (fst (terminal_and_release_locked l class s))"
proof -
  have cur: "current_operation s (gl_identity l) = Ok r" using live by (simp add: current_operation_Ok)
  have "go_life_ok r" using gs_invD(5) [OF inv live(1)] by (simp add: go_ok_def)
  note settle = gs_settle_live [OF this assms(4)]
  have "gs_operations s (gi_operation_id (go_current r)) = Some r" using live by simp
  from gs_remove_move [OF inv this disjI2 [OF go_settles_class [OF assms(4-6)]] assms(5)]
  show ?thesis
    unfolding terminal_and_release_locked_def cur result.case settle fst_conv using live(2) by simp
qed

lemma gs_terminal_move: "gs_inv s \<Longrightarrow> gs_move s (fst (gs_terminal l c s))"
  unfolding gs_terminal_def
proof (rule gs_current_panicky_move)
  fix r assume inv: "gs_inv s" and live: "gs_operations s (gi_operation_id (gl_identity l)) = Some r" "go_current r = gl_identity l"
  have life: "go_life_ok r" using gs_invD(5) [OF inv live(1)] by (simp add: go_ok_def)
  show "gs_move s (fst (if go_phase r \<noteq> Running \<or> go_terminal r \<noteq> None then (s, Some (Err InvalidTransition))
    else if go_attempts r \<noteq> Map.empty then (s, Some (Err AttemptsActive)) else gs_settle (gl_identity l) c r gs_put s))"
  proof (cases "go_phase r = Running \<and> go_terminal r = None \<and> go_attempts r = Map.empty")
    case True
    then have "go_phase r \<noteq> Terminal" by simp
    from True gs_settle_live [OF life this] live go_settles_class [of r c] show ?thesis
      by (auto intro!: gs_put_move [where r = r] ge_settle)
  qed auto
qed

lemma gs_release_move: "gs_inv s \<Longrightarrow> gs_move s (fst (gs_release l s))"
  unfolding gs_release_def by (rule gs_current_move) (auto intro!: gs_remove_move [where r' = r and r = r for r])

lemma gs_terminal_and_release_move: "gs_inv s \<Longrightarrow> gs_move s (fst (gs_terminal_and_release l c s))"
  unfolding gs_terminal_and_release_def
  by (rule gs_current_panicky_move) (auto intro!: terminal_and_release_locked_move)

lemma gs_fail_and_release_move: "gs_inv s \<Longrightarrow> gs_move s (fst (gs_fail_and_release l s))"
  unfolding gs_fail_and_release_def
  by (rule gs_current_panicky_move) (auto intro!: terminal_and_release_locked_move)

lemma gs_finish_operation_move: "gs_inv s \<Longrightarrow> gs_move s (fst (gs_finish_operation l s))"
  unfolding gs_finish_operation_def
  by (rule gs_current_panicky_move) (auto intro!: terminal_and_release_locked_move dest: gs_inv_life)

lemma gs_request_cancel_move: "gs_move s (fst (gs_request_cancel i s))"
  unfolding gs_request_cancel_def
  proof (rule gs_current_move)
  fix r assume "gs_operations s (gi_operation_id i) = Some r" "go_current r = i"
  then show "gs_move s (fst (gs_put (go_cancel r) s, Ok ()))"
    using gs_put_move [OF _ ge_cancel, of s r] by (simp add: go_cancel_def)
qed

lemma gs_ticket_drop_move: "gs_move s (gs_ticket_drop alive k s)"
  by (simp add: gs_ticket_drop_def gs_ticket_request_cancel_def gs_request_cancel_move)

text \<open>A failed cancellation changes nothing, so the drop after it repeats the failure.\<close>

lemma gs_request_cancel_Err: "gs_request_cancel i s = (t, Err e) \<Longrightarrow> t = s"
  by (auto simp: gs_request_cancel_def gs_current_def split: if_splits result.splits)

lemma gs_ticket_cancel_fst: "fst (gs_ticket_cancel alive k s) = (if alive then fst (gs_request_cancel (gk_identity k) s) else s)"
proof (cases "gs_request_cancel (gk_identity k) s")
  case (Pair t res)
  then show ?thesis using gs_request_cancel_Err [of "gk_identity k" s t]
    by (cases res) (auto simp: gs_ticket_cancel_def gs_ticket_request_cancel_def gs_ticket_drop_def)
qed

lemma gs_transition_move: "from = Reserved \<and> to = Queued \<or> from = Queued \<and> to = Running \<Longrightarrow> gs_move s (fst (gs_transition from to l s))"
  unfolding gs_transition_def
  by (rule gs_current_move) (auto intro!: gs_put_move intro: ge_queue ge_start)

lemma gs_publish_progress_move: "gs_inv s \<Longrightarrow> gs_move s (fst (gs_publish_progress l n s))"
  unfolding gs_publish_progress_def
proof (rule gs_current_move)
  fix r assume inv: "gs_inv s" and live: "gs_operations s (gi_operation_id (gl_identity l)) = Some r" "go_current r = gl_identity l"
  have "length (go_progress r) \<le> gs_progress_capacity s" "0 < gs_progress_capacity s"
    using gs_invD(5) [OF inv live(1)] gs_invD(3) [OF inv] by (simp_all add: go_ok_def)
  then show "gs_move s (fst (if go_phase r \<noteq> Running then (s, Err InvalidTransition)
    else let progress = if length (go_progress r) = gs_progress_capacity s then tl (go_progress r) else go_progress r
      in (gs_put (r\<lparr>go_progress := progress @ [n]\<rparr>) s, Ok ())))"
    using live by (auto simp: Let_def intro!: gs_put_move [where r = r] ge_progress)
qed

lemma gs_reserve_move: "gs_move s (fst (gs_reserve oid s))"
proof -
  have "gs_move s (fst (gs_reserve oid s))" if "\<not> capacity_overflows (gs_progress_capacity s)"
    using that by (auto simp: gs_reserve_def allocate_identity_def result_simps go_new_def gs_frame_def Let_def
        split: option.split intro!: gm_admit)
  moreover have "gs_move s (fst (gs_reserve oid s))" if "capacity_overflows (gs_progress_capacity s)"
    using that by (auto simp: gs_reserve_def allocate_identity_def result_simps gs_frame_def Let_def
        split: option.split intro!: gm_spend)
  ultimately show ?thesis by blast
qed

lemma gs_create_operation_fst: "fst (gs_create_operation oid s) = fst (gs_reserve oid s)"
  by (auto simp: gs_create_operation_def gs_ticket_detach_def gs_ticket_drop_def
      split: prod.split option.split result.split)

lemma gs_start_attempt_move: "gs_move s (fst (gs_start_attempt l s))"
  unfolding gs_start_attempt_def
proof (rule gs_current_move)
  fix r assume live: "gs_operations s (gi_operation_id (gl_identity l)) = Some r" "go_current r = gl_identity l"
  show "gs_move s (fst (case allocate_identity (gi_operation_id (gl_identity l)) s of
        (s, Ok identity) \<Rightarrow> (case gs_operations s (gi_operation_id (gl_identity l)) of None \<Rightarrow> (s, Err StaleLease)
          | Some operation \<Rightarrow> (gs_put (operation\<lparr>go_attempts := (go_attempts operation)(gi_sequence identity \<mapsto>
               \<lparr>ga_identity = identity, ga_control = run_control_new (cancellation_requested (go_control operation))\<rparr>)\<rparr>)
               (s\<lparr>gs_slots := gs_slots s @ [None]\<rparr>), Ok \<lparr>gl_identity = identity, gl_released = length (gs_slots s)\<rparr>))
      | (s, Err e) \<Rightarrow> (s, Err e)))"
    using live by (auto simp: allocate_identity_def result_simps gs_frame_def go_add_attempt_def gs_put_def
        split: option.split intro!: gm_attempt)
qed

lemma gs_finish_attempt_move: "gs_move s (fst (gs_finish_attempt l s))"
  by (auto simp: gs_finish_attempt_def gs_frame_def split: option.split intro: gm_put [OF _ _ ge_finish])

lemma gs_exec_move:
  assumes inv: "gs_inv s"
  shows "gs_move s (gs_exec c s)"
proof (cases c)
  case GC_Quiesce
  then show ?thesis by (auto simp: gs_quiesce_def gs_frame_def intro!: gm_cancel_all)
next
  case GC_Resume
  then show ?thesis by (auto simp: gs_resume_def gs_frame_def intro!: gm_stay)
next
  case GC_Close
  then show ?thesis by (auto simp: gs_close_def gs_frame_def Let_def intro!: gm_stay split: option.split)
next
  case (GC_Worker_Started w)
  then show ?thesis by (auto simp: gs_note_worker_started_def gs_frame_def intro!: gm_stay split: prod.split)
next
  case (GC_Worker_Joined w)
  then show ?thesis by (auto simp: gs_note_worker_joined_def gs_frame_def intro!: gm_stay split: prod.split)
next
  case GC_Poison
  then show ?thesis by (auto simp: gs_frame_def intro!: gm_stay)
qed (use inv in \<open>simp_all add: gs_reserve_move gs_create_operation_fst gs_queue_def gs_start_def gs_transition_move
    gs_terminal_move gs_release_move gs_terminal_and_release_move gs_fail_and_release_move gs_request_cancel_move
    gs_publish_progress_move gs_start_attempt_move gs_finish_attempt_move gs_finish_operation_move
    gs_ticket_cancel_fst gs_ticket_drop_move\<close>)

section \<open>Simulation of the abstract lifecycle\<close>

lemma go_abs_cancel [simp]: "go_abs (go_cancel r) = go_abs r"
  by (simp add: go_abs_def go_cancel_def)

lemma go_settles_abs:
  assumes live: "lc_live a oid = Some (go_abs r)" and settles: "go_settles r r'" and "go_phase r \<noteq> Released"
  shows "lc_step a (a\<lparr>lc_live := (lc_live a)(oid \<mapsto> go_abs r')\<rparr>)"
proof -
  obtain c where c: "c = Completed \<longrightarrow> go_phase r = Running"
    and "r' = r\<lparr>go_control := (if cancellation_requested (go_control r) then TERMINAL_CANCELLED else TERMINAL),
      go_terminal := Some \<lparr>gt_identity = go_current r, gt_class = c\<rparr>, go_phase := Terminal\<rparr>"
    using settles unfolding go_settles_def by blast
  then have r': "go_abs r' = (go_abs r)\<lparr>lo_phase := Terminal, lo_terminal := Some c\<rparr>" by (simp add: go_abs_def)
  have "phase_rank (lo_phase (go_abs r)) < phase_rank Terminal"
    using settles assms(3) by (cases "go_phase r") (auto simp: go_settles_def go_abs_def)
  moreover have "c = Completed \<Longrightarrow> lo_phase (go_abs r) = Running" using c by (simp add: go_abs_def)
  ultimately show ?thesis unfolding r' by (rule lc_settle [OF live])
qed

lemma go_evolves_sim:
  assumes live: "lc_live a oid = Some (go_abs r)" and "go_evolves cap r r'" and "go_phase r \<noteq> Released"
  shows "lc_step\<^sup>*\<^sup>* a (a\<lparr>lc_live := (lc_live a)(oid \<mapsto> go_abs r')\<rparr>)"
  using assms(2,1,3)
proof (cases rule: go_evolves.cases)
  case ge_queue
  with lc_queue [OF live] show ?thesis by (simp add: go_abs_def r_into_rtranclp)
next
  case ge_start
  with lc_start [OF live] show ?thesis by (simp add: go_abs_def r_into_rtranclp)
next
  case ge_settle
  then show ?thesis using go_settles_abs [OF live _ assms(3)] by (simp add: r_into_rtranclp)
next
  case (ge_progress p)
  then have "go_abs r' = go_abs r" by (simp add: go_abs_def)
  with live show ?thesis by (simp add: map_upd_triv)
next
  case (ge_finish k)
  then have "go_abs r' = go_abs r" by (simp add: go_abs_def)
  with live show ?thesis by (simp add: map_upd_triv)
qed (use live in \<open>simp_all add: map_upd_triv\<close>)

lemma gs_abs_upd:
  assumes "gs_operations t = (gs_operations s)(oid := x)" and "gs_next_sequence t = gs_next_sequence s"
  shows "gs_abs t = (gs_abs s)\<lparr>lc_live := (lc_live (gs_abs s))(oid := map_option go_abs x)\<rparr>"
  using assms by (auto simp: gs_abs_def)

lemma gs_move_sim:
  assumes "gs_move s t" and inv: "gs_inv s"
  shows "lc_step\<^sup>*\<^sup>* (gs_abs s) (gs_abs t)"
  using assms(1)
proof (cases rule: gs_move.cases)
  case gm_stay
  then show ?thesis by (simp add: gs_abs_def)
next
  case (gm_put oid r r')
  have "lc_live (gs_abs s) oid = Some (go_abs r)" using gm_put(2) by (simp add: gs_abs_def)
  with go_evolves_sim gm_put(3) gs_abs_upd [OF gm_put(4,5)] gs_inv_life(2) [OF inv gm_put(2)] show ?thesis by simp
next
  case gm_cancel_all
  then have "gs_abs t = gs_abs s" by (simp add: gs_abs_def option.map_comp comp_def)
  then show ?thesis by simp
next
  case (gm_admit oid)
  then have "gs_abs t = \<lparr>lc_next = Suc (lc_next (gs_abs s)), lc_live = (lc_live (gs_abs s))(oid \<mapsto>
      \<lparr>lo_sequence = lc_next (gs_abs s), lo_phase = Reserved, lo_terminal = None\<rparr>)\<rparr>"
    by (auto simp: gs_abs_def go_abs_def go_new_def)
  with lc_reserve [of "gs_abs s" oid] gm_admit(2) show ?thesis by (simp add: gs_abs_def r_into_rtranclp)
next
  case (gm_attempt oid r)
  then have "gs_abs t = (gs_abs s)\<lparr>lc_next := Suc (lc_next (gs_abs s))\<rparr>"
    by (auto simp: gs_abs_def go_abs_def go_add_attempt_def)
  with lc_spend [of "gs_abs s"] show ?thesis by (simp add: r_into_rtranclp)
next
  case gm_spend
  then have "gs_abs t = (gs_abs s)\<lparr>lc_next := Suc (lc_next (gs_abs s))\<rparr>" by (auto simp: gs_abs_def)
  with lc_spend [of "gs_abs s"] show ?thesis by (simp add: r_into_rtranclp)
next
  case (gm_leave oid r r')
  have "lc_live (gs_abs s) oid = Some (go_abs r)" using gm_leave(2) by (simp add: gs_abs_def)
  with lc_leave [OF gs_invD(1) [OF inv] this] gs_abs_upd [OF gm_leave(5,6)] show ?thesis by simp
qed

section \<open>Preservation of the invariant\<close>

lemma request_cancel_cell:
  "cancellation_requested (fst (request_cancel c)) \<longleftrightarrow> c = RUNNING \<or> cancellation_requested c"
  "is_terminal (fst (request_cancel c)) \<longleftrightarrow> is_terminal c"
  "valid_cell c \<Longrightarrow> valid_cell (fst (request_cancel c))"
  "c = RUNNING \<or> c = CANCEL_REQUESTED \<Longrightarrow> fst (request_cancel c) = CANCEL_REQUESTED"
  by (auto simp: race_defs valid_cell_def)

lemma request_cancel_terminal: "is_terminal c \<Longrightarrow> fst (request_cancel c) = c"
  by (auto simp: race_defs)

lemma valid_cell_cases: "valid_cell c \<Longrightarrow> \<not> is_terminal c \<Longrightarrow> c = RUNNING \<or> c = CANCEL_REQUESTED"
  by (auto simp: valid_cell_def is_terminal_def)

lemma go_cancel_simps [simp]:
  "go_control (go_cancel r) = fst (request_cancel (go_control r))" "go_current (go_cancel r) = go_current r"
  "go_phase (go_cancel r) = go_phase r" "go_terminal (go_cancel r) = go_terminal r"
  "go_progress (go_cancel r) = go_progress r" "go_released (go_cancel r) = go_released r"
  by (simp_all add: go_cancel_def)

lemma go_life_okD:
  assumes "go_life_ok r"
  shows "valid_cell (go_control r)" "is_terminal (go_control r) \<longleftrightarrow> go_phase r = Terminal"
    "go_terminal r = Some t \<Longrightarrow> gt_identity t = go_current r"
    "go_terminal r = Some t \<Longrightarrow> gt_class t = Completed \<Longrightarrow> \<not> cancellation_requested (go_control r)"
  using assms unfolding go_life_ok_def by blast+

lemma go_life_okI:
  assumes "valid_cell (go_control r)" and "is_terminal (go_control r) \<longleftrightarrow> go_phase r = Terminal"
    and "\<And>t. go_terminal r = Some t \<Longrightarrow> gt_identity t = go_current r"
    and "\<And>t. go_terminal r = Some t \<Longrightarrow> gt_class t = Completed \<Longrightarrow> \<not> cancellation_requested (go_control r)"
  shows "go_life_ok r"
  using assms unfolding go_life_ok_def by blast

lemma go_life_ok_cancel:
  assumes ok: "go_life_ok r" and none: "go_terminal r = None \<longleftrightarrow> go_phase r \<noteq> Terminal"
  shows "go_life_ok (go_cancel r)"
proof (rule go_life_okI; unfold go_cancel_simps)
  let ?c = "fst (request_cancel (go_control r))"
  show "valid_cell ?c" by (rule request_cancel_cell(3) [OF go_life_okD(1) [OF ok]])
  show "is_terminal ?c \<longleftrightarrow> go_phase r = Terminal" unfolding request_cancel_cell(2) by (rule go_life_okD(2) [OF ok])
  fix t assume t: "go_terminal r = Some t"
  then show "gt_identity t = go_current r" by (rule go_life_okD(3) [OF ok])
  have "is_terminal (go_control r)" unfolding go_life_okD(2) [OF ok] using t none by simp
  then have "?c = go_control r" by (rule request_cancel_terminal)
  then show "\<not> cancellation_requested ?c" if "gt_class t = Completed" using go_life_okD(4) [OF ok t that] by simp
qed

lemma settled_cell:
  "valid_cell (if b then TERMINAL_CANCELLED else TERMINAL)" "is_terminal (if b then TERMINAL_CANCELLED else TERMINAL)"
  "cancellation_requested (if b then TERMINAL_CANCELLED else TERMINAL) \<longleftrightarrow> b"
  by (simp_all add: valid_cell_def is_terminal_def cancellation_requested_def)

lemma go_life_ok_settles: "go_settles r r' \<Longrightarrow> go_life_ok r'"
  unfolding go_settles_def by (elim conjE exE) (simp add: go_life_ok_def settled_cell)

lemma ga_ok_cancel:
  "ga_ok r owner oid following k a \<Longrightarrow> ga_ok (go_cancel r) owner oid following k (a\<lparr>ga_control := fst (request_cancel (ga_control a))\<rparr>)"
  by (auto simp: ga_ok_def go_cancel_def request_cancel_cell cancellation_requested_def)

lemma go_cancel_attempts:
  "go_attempts (go_cancel r) k = Some a \<longleftrightarrow> (\<exists>b. go_attempts r k = Some b \<and> a = b\<lparr>ga_control := fst (request_cancel (ga_control b))\<rparr>)"
  by (auto simp: go_cancel_def)

lemma go_ok_cancel: "go_ok s oid r \<Longrightarrow> (go_terminal r = None \<longleftrightarrow> go_phase r \<noteq> Terminal) \<Longrightarrow> go_ok s oid (go_cancel r)"
proof -
  assume ok: "go_ok s oid r" and none: "go_terminal r = None \<longleftrightarrow> go_phase r \<noteq> Terminal"
  have "dom (go_attempts (go_cancel r)) = dom (go_attempts r)" by (auto simp: go_cancel_def)
  moreover have "go_life_ok (go_cancel r)" using ok none by (simp add: go_ok_def go_life_ok_cancel)
  moreover have "ga_ok (go_cancel r) (gs_owner s) oid (gs_next_sequence s) k a" if "go_attempts (go_cancel r) k = Some a" for k a
    using that ok by (auto simp: go_cancel_attempts go_ok_def intro: ga_ok_cancel)
  ultimately show ?thesis using ok unfolding go_ok_def by simp
qed

lemma go_evolves_static: "go_evolves cap r r' \<Longrightarrow> go_current r' = go_current r \<and> go_released r' = go_released r"
  by (induction rule: go_evolves.induct) (auto simp: go_settles_def go_cancel_def)

lemma go_ok_keep:
  assumes ok: "go_ok s oid r" and same: "go_current r' = go_current r" "go_released r' = go_released r"
    "go_control r' = go_control r" and life: "go_life_ok r'" and "length (go_progress r') \<le> gs_progress_capacity s"
    and sub: "go_attempts r' \<subseteq>\<^sub>m go_attempts r"
  shows "go_ok s oid r'"
proof -
  have "ga_ok r' (gs_owner s) oid (gs_next_sequence s) k a" if "go_attempts r' k = Some a" for k a
  proof -
    have "go_attempts r k = Some a" using that sub by (force simp: map_le_def)
    with ok have "ga_ok r (gs_owner s) oid (gs_next_sequence s) k a" unfolding go_ok_def by blast
    with same show ?thesis unfolding ga_ok_def by simp
  qed
  moreover have "finite (dom (go_attempts r'))"
    using ok map_le_implies_dom_le [OF sub] unfolding go_ok_def by (blast intro: finite_subset)
  ultimately show ?thesis using ok same life assms(6) unfolding go_ok_def by metis
qed

text \<open>A phase other than the terminal one is as good as another.\<close>

lemma go_life_ok_phase:
  assumes ok: "go_life_ok r" and "go_phase r \<noteq> Terminal" "p \<noteq> Terminal"
  shows "go_life_ok (r\<lparr>go_phase := p\<rparr>)"
  using go_life_okD [OF ok] assms(2,3) by (intro go_life_okI) simp_all

lemma go_evolves_ok:
  assumes "go_evolves (gs_progress_capacity s) r r'" and ok: "go_ok s oid r"
    and none: "go_terminal r = None \<longleftrightarrow> go_phase r \<noteq> Terminal"
  shows "go_ok s oid r'"
proof -
  have life: "go_life_ok r" and len: "length (go_progress r) \<le> gs_progress_capacity s"
    using ok unfolding go_ok_def by blast+
  note keep = go_ok_keep [OF ok]
  from assms(1) show ?thesis
  proof (cases rule: go_evolves.cases)
    case ge_same
    with ok show ?thesis by simp
  next
    case ge_queue
    with len go_life_ok_phase [OF life] show ?thesis by (intro keep) simp_all
  next
    case ge_start
    with len go_life_ok_phase [OF life] show ?thesis by (intro keep) simp_all
  next
    case ge_settle
    moreover from this have "go_attempts r' = Map.empty" "go_current r' = go_current r" "go_released r' = go_released r"
        "go_progress r' = go_progress r" by (auto simp: go_settles_def)
    ultimately show ?thesis using ok go_life_ok_settles [OF ge_settle] by (simp add: go_ok_def)
  next
    case ge_cancel
    with ok none show ?thesis by (simp add: go_ok_cancel)
  next
    case (ge_progress p)
    moreover have "go_life_ok (r\<lparr>go_progress := p\<rparr>)" using go_life_okD [OF life] by (intro go_life_okI) simp_all
    ultimately show ?thesis by (intro keep) simp_all
  next
    case (ge_finish k)
    moreover have "go_life_ok r'" unfolding ge_finish using go_life_okD [OF life] by (intro go_life_okI) simp_all
    ultimately show ?thesis using len by (intro keep) (simp_all add: map_le_def)
  qed
qed

text \<open>An operation that a move does not touch keeps what the invariant says of it.\<close>

lemma go_ok_mono:
  assumes "go_ok s oid r" and "gs_frame s t" and "gs_next_sequence s \<le> gs_next_sequence t"
    and "length (gs_slots s) \<le> length (gs_slots t)" and "gs_slots t ! go_released r = gs_slots s ! go_released r"
  shows "go_ok t oid r"
proof -
  have "ga_ok r (gs_owner t) oid (gs_next_sequence t) k a" if "go_attempts r k = Some a" for k a
    using that assms(1-3) unfolding go_ok_def gs_frame_def ga_ok_def by fastforce
  with assms show ?thesis unfolding go_ok_def gs_frame_def by simp
qed

lemma go_ok_new: "gs_frame s t \<Longrightarrow> gs_next_sequence t = Suc (gs_next_sequence s) \<Longrightarrow> gs_slots t = gs_slots s @ [None] \<Longrightarrow>
    go_ok t oid (go_new (gs_owner s) oid (gs_next_sequence s) (length (gs_slots s)))"
  by (simp add: go_ok_def gi_ok_def go_new_def go_life_ok_def gs_frame_def valid_cell_def race_defs run_control_new_def)

lemma go_ok_attempt:
  assumes ok: "go_ok s oid r" and seq: "gi_sequence (go_current r) < gs_next_sequence s"
    and t: "gs_frame s t" "gs_next_sequence t = Suc (gs_next_sequence s)" "gs_slots t = gs_slots s @ [None]"
  shows "go_ok t oid (go_add_attempt (gs_owner s) oid (gs_next_sequence s) r)"
proof -
  let ?r = "go_add_attempt (gs_owner s) oid (gs_next_sequence s) r"
  have "ga_ok ?r (gs_owner t) oid (gs_next_sequence t) k a" if "go_attempts ?r k = Some a" for k a
  proof (cases "k = gs_next_sequence s")
    case True
    with that t seq show ?thesis
      by (auto simp: go_add_attempt_def ga_ok_def gs_frame_def run_control_new_def race_defs)
  next
    case False
    with that ok have "ga_ok r (gs_owner s) oid (gs_next_sequence s) k a" by (auto simp: go_add_attempt_def go_ok_def)
    with t show ?thesis by (auto simp: ga_ok_def go_add_attempt_def gs_frame_def)
  qed
  moreover have "gs_slots t ! go_released r = gs_slots s ! go_released r" "go_released r < length (gs_slots t)"
    using ok t(3) by (simp_all add: go_ok_def nth_append)
  moreover have "go_current ?r = go_current r" "go_life_ok ?r = go_life_ok r" "go_progress ?r = go_progress r"
      "go_released ?r = go_released r" "finite (dom (go_attempts ?r)) = finite (dom (go_attempts r))"
    by (simp_all add: go_add_attempt_def go_life_ok_def)
  ultimately show ?thesis using ok t(1) unfolding go_ok_def gs_frame_def by simp
qed

text \<open>The part of the invariant about operations and their slots.\<close>

definition gs_heap_ok :: "gs_state \<Rightarrow> bool" where
  "gs_heap_ok s \<longleftrightarrow>
     gs_next_sequence s \<le> U64_MAX \<and> 0 < gs_progress_capacity s \<and> finite (dom (gs_operations s)) \<and>
     (\<forall>oid r. gs_operations s oid = Some r \<longrightarrow> go_ok s oid r) \<and>
     (\<forall>i j r r'. gs_operations s i = Some r \<longrightarrow> gs_operations s j = Some r' \<longrightarrow>
        go_released r = go_released r' \<longrightarrow> i = j)"

lemma gs_inv_alt: "gs_inv s \<longleftrightarrow> lc_inv (gs_abs s) \<and> gs_heap_ok s \<and> gs_drain_ok s"
  by (auto simp: gs_inv_def gs_heap_ok_def)

lemma gs_heap_okI:
  assumes "gs_next_sequence s \<le> U64_MAX" "0 < gs_progress_capacity s" "finite (dom (gs_operations s))"
    and "\<And>oid r. gs_operations s oid = Some r \<Longrightarrow> go_ok s oid r"
    and "\<And>i j r r'. gs_operations s i = Some r \<Longrightarrow> gs_operations s j = Some r' \<Longrightarrow> go_released r = go_released r' \<Longrightarrow> i = j"
  shows "gs_heap_ok s"
  using assms unfolding gs_heap_ok_def by blast

text \<open>One operation is replaced, in its old slot; the slots in use are the same.\<close>

lemma gs_heap_replace:
  assumes inv: "gs_inv s" and frame: "gs_frame s t" and live: "gs_operations s oid = Some r"
    and ops: "gs_operations t = (gs_operations s)(oid \<mapsto> r')" and ok: "go_ok t oid r'"
    and slot: "go_released r' = go_released r" and "gs_next_sequence t \<le> U64_MAX" "gs_next_sequence s \<le> gs_next_sequence t"
    and more: "gs_slots t = gs_slots s \<or> gs_slots t = gs_slots s @ [None]"
  shows "gs_heap_ok t"
proof (rule gs_heap_okI)
  show "0 < gs_progress_capacity t" using gs_invD(3) [OF inv] frame by (simp add: gs_frame_def)
  show "finite (dom (gs_operations t))" using gs_invD(4) [OF inv] ops by simp
  show "go_ok t i q" if "gs_operations t i = Some q" for i q
  proof (cases "i = oid")
    case False
    with that ops have "go_ok s i q" using gs_invD(5) [OF inv] by simp
    with more show ?thesis by (intro go_ok_mono [OF _ frame assms(8)]) (auto simp: go_ok_def nth_append)
  qed (use that ops ok in simp)
  have old: "\<exists>p. gs_operations s i = Some p \<and> go_released p = go_released q" if "gs_operations t i = Some q" for i q
    using that ops slot live by (cases "i = oid") auto
  show "i = j" if "gs_operations t i = Some q" "gs_operations t j = Some q'" "go_released q = go_released q'" for i j q q'
    using old [OF that(1)] old [OF that(2)] that(3) gs_invD(7) [OF inv] by metis
qed (rule assms(7))

lemma gs_heap_admit:
  assumes inv: "gs_inv s" and frame: "gs_frame s t"
    and ops: "gs_operations t = (gs_operations s)(oid \<mapsto> go_new (gs_owner s) oid (gs_next_sequence s) (length (gs_slots s)))"
    and t: "gs_next_sequence t = Suc (gs_next_sequence s)" "gs_slots t = gs_slots s @ [None]" "gs_next_sequence s < U64_MAX"
  shows "gs_heap_ok t"
proof (rule gs_heap_okI)
  show "0 < gs_progress_capacity t" using gs_invD(3) [OF inv] frame by (simp add: gs_frame_def)
  show "finite (dom (gs_operations t))" using gs_invD(4) [OF inv] ops by simp
  show "gs_next_sequence t \<le> U64_MAX" using t by simp
  have old: "go_ok s i q" if "gs_operations t i = Some q" "i \<noteq> oid" for i q
    using that ops gs_invD(5) [OF inv] by simp
  show "go_ok t i q" if "gs_operations t i = Some q" for i q
  proof (cases "i = oid")
    case True
    with that ops have "q = go_new (gs_owner s) oid (gs_next_sequence s) (length (gs_slots s))" by simp
    with True show ?thesis by (simp only: go_ok_new [OF frame t(1,2)])
  next
    case False
    with old [OF that] t show ?thesis by (intro go_ok_mono [OF _ frame]) (auto simp: go_ok_def nth_append)
  qed
  have slot: "go_released q < length (gs_slots s) \<longleftrightarrow> i \<noteq> oid" if "gs_operations t i = Some q" for i q
    using that ops old [OF that] by (cases "i = oid") (auto simp: go_new_def go_ok_def)
  show "i = j" if "gs_operations t i = Some q" "gs_operations t j = Some q'" "go_released q = go_released q'" for i j q q'
  proof (cases "i = oid")
    case True
    with slot [OF that(1)] slot [OF that(2)] that(3) show ?thesis by simp
  next
    case False
    moreover from this have "j \<noteq> oid" using slot [OF that(1)] slot [OF that(2)] that(3) by simp
    ultimately show ?thesis using that ops gs_invD(7) [OF inv] by simp
  qed
qed

lemma gs_heap_leave:
  assumes inv: "gs_inv s" and frame: "gs_frame s t" and live: "gs_operations s oid = Some r"
    and ops: "gs_operations t = (gs_operations s)(oid := None)"
    and t: "gs_next_sequence t = gs_next_sequence s" "gs_slots t = (gs_slots s)[go_released r := x]"
  shows "gs_heap_ok t"
proof (rule gs_heap_okI)
  show "0 < gs_progress_capacity t" using gs_invD(3) [OF inv] frame by (simp add: gs_frame_def)
  show "finite (dom (gs_operations t))" using gs_invD(4) [OF inv] ops by simp
  show "gs_next_sequence t \<le> U64_MAX" using gs_invD(2) [OF inv] t by simp
  have old: "gs_operations s i = Some q \<and> i \<noteq> oid" if "gs_operations t i = Some q" for i q
    using that ops by (cases "i = oid") auto
  show "go_ok t i q" if "gs_operations t i = Some q" for i q
  proof -
    have ok: "go_ok s i q" and "go_released q \<noteq> go_released r"
      using old [OF that] gs_invD(5,7) [OF inv] live by blast+
    with t show ?thesis by (intro go_ok_mono [OF ok frame]) simp_all
  qed
  show "i = j" if "gs_operations t i = Some q" "gs_operations t j = Some q'" "go_released q = go_released q'" for i j q q'
    using old [OF that(1)] old [OF that(2)] that(3) gs_invD(7) [OF inv] by blast
qed

lemma gs_heap_same:
  assumes inv: "gs_inv s" and frame: "gs_frame s t" and ops: "gs_operations t = gs_operations s"
    and "gs_next_sequence t \<le> U64_MAX" "gs_next_sequence s \<le> gs_next_sequence t"
    and more: "gs_slots t = gs_slots s \<or> gs_slots t = gs_slots s @ [None]"
  shows "gs_heap_ok t"
proof (rule gs_heap_okI)
  show "0 < gs_progress_capacity t" using gs_invD(3) [OF inv] frame by (simp add: gs_frame_def)
  show "go_ok t i q" if "gs_operations t i = Some q" for i q
    using that ops more gs_invD(5) [OF inv, of i q]
    by (intro go_ok_mono [OF _ frame assms(5)]) (auto simp: go_ok_def nth_append)
qed (use assms(4) ops gs_invD(4,7) [OF inv] in auto)

lemma gs_move_heap:
  assumes "gs_move s t" and inv: "gs_inv s"
  shows "gs_heap_ok t"
  using assms(1)
proof (cases rule: gs_move.cases)
  case gm_stay
  then show ?thesis using gs_invD(2) [OF inv] by (intro gs_heap_same [OF inv]) simp_all
next
  case (gm_put oid r r')
  have "go_ok s oid r'"
    using go_evolves_ok [OF gm_put(3) gs_invD(5) [OF inv gm_put(2)]] gs_inv_life(3) [OF inv gm_put(2)] by blast
  then have "go_ok t oid r'" using gm_put(5,6) by (intro go_ok_mono [OF _ gm_put(1)]) simp_all
  then show ?thesis
    using gs_invD(2) [OF inv] gm_put go_evolves_static [OF gm_put(3)]
    by (intro gs_heap_replace [OF inv gm_put(1,2,4)]) simp_all
next
  case gm_cancel_all
  have ok: "\<exists>q. gs_operations s i = Some q \<and> r = go_cancel q \<and> go_ok s i r" if "gs_operations t i = Some r" for i r
    using that gm_cancel_all(2) gs_invD(5) [OF inv] go_ok_cancel gs_inv_life(3) [OF inv] by auto
  show ?thesis
  proof (rule gs_heap_okI)
    show "0 < gs_progress_capacity t" using gs_invD(3) [OF inv] gm_cancel_all(1) by (simp add: gs_frame_def)
    have "dom (gs_operations t) = dom (gs_operations s)" using gm_cancel_all(2) by auto
    then show "finite (dom (gs_operations t))" using gs_invD(4) [OF inv] by simp
    show "gs_next_sequence t \<le> U64_MAX" using gs_invD(2) [OF inv] gm_cancel_all(3) by simp
    show "go_ok t i q" if "gs_operations t i = Some q" for i q
      using ok [OF that] gm_cancel_all(3,4) by (auto intro!: go_ok_mono [OF _ gm_cancel_all(1)])
    show "i = j" if "gs_operations t i = Some q" "gs_operations t j = Some q'" "go_released q = go_released q'" for i j q q'
      using ok [OF that(1)] ok [OF that(2)] that(3) gs_invD(7) [OF inv] by (metis go_cancel_simps(6))
  qed
next
  case (gm_admit oid)
  show ?thesis by (rule gs_heap_admit [OF inv gm_admit(1,4,5,6,3)])
next
  case (gm_attempt oid r)
  note ok = go_ok_attempt [OF gs_invD(5) [OF inv gm_attempt(2)] gs_inv_life(1) [OF inv gm_attempt(2)] gm_attempt(1,5,6)]
  show ?thesis
    by (rule gs_heap_replace [OF inv gm_attempt(1,2,4) ok]) (use gm_attempt in \<open>simp_all add: go_add_attempt_def\<close>)
next
  case gm_spend
  then show ?thesis by (intro gs_heap_same [OF inv]) simp_all
next
  case (gm_leave oid r r')
  show ?thesis by (rule gs_heap_leave [OF inv gm_leave(1,2,5,6,7)])
qed

text \<open>The calls that leave the phase, the ledger and the recorded close alone.\<close>

definition gs_admin_same :: "gs_state \<Rightarrow> gs_state \<Rightarrow> bool" where
  "gs_admin_same s t \<longleftrightarrow> gs_phase t = gs_phase s \<and> gs_workers t = gs_workers s \<and>
     gs_canonical_close t = gs_canonical_close s \<and>
     (gs_phase s \<noteq> Gen_Running \<longrightarrow> dom (gs_operations t) \<subseteq> dom (gs_operations s))"

lemma gs_admin_refl [simp]: "gs_admin_same s s" "gs_admin_same s (s\<lparr>gs_poisoned := b\<rparr>)"
  by (simp_all add: gs_admin_same_def)

lemma gs_admin_put: "gs_operations s (gi_operation_id (go_current r)) \<noteq> None \<Longrightarrow> gs_admin_same s (gs_put r s)"
  by (auto simp: gs_admin_same_def gs_put_def split: if_splits)

lemma gs_admin_remove: "gs_admin_same s (gs_remove r s)"
  by (auto simp: gs_admin_same_def gs_remove_def once_set_def split: if_splits)

lemma gs_admin_current:
  "(\<And>r. gs_operations s (gi_operation_id i) = Some r \<Longrightarrow> go_current r = i \<Longrightarrow> gs_admin_same s (fst (f r))) \<Longrightarrow>
   gs_admin_same s (fst (gs_current i s f))"
  "(\<And>r. gs_operations s (gi_operation_id i) = Some r \<Longrightarrow> go_current r = i \<Longrightarrow> gs_admin_same s (fst (g r))) \<Longrightarrow>
   gs_admin_same s (fst (gs_current_panicky i s g))"
  by (auto simp: gs_current_def gs_current_panicky_def result_simps split: result.split)

lemma gs_admin_settle:
  assumes "\<And>q. go_current q = go_current r \<Longrightarrow> gs_admin_same s (f q s)"
    and "gs_operations s (gi_operation_id (go_current r)) \<noteq> None"
  shows "gs_admin_same s (fst (gs_settle i c r f s))"
  unfolding gs_settle_def using assms(2)
  by (auto split: option.split prod.split result.split intro!: assms(1) gs_admin_put)

lemma gs_admin_locked: "gs_admin_same s (fst (terminal_and_release_locked l c s))"
  by (auto simp: terminal_and_release_locked_def result_simps split: result.split
      intro!: gs_admin_settle gs_admin_remove)

lemma gs_admin_request_cancel: "gs_admin_same s (fst (gs_request_cancel i s))"
  unfolding gs_request_cancel_def by (rule gs_admin_current) (auto intro!: gs_admin_put)

lemma gs_admin_reserve: "gs_admin_same s (fst (gs_reserve oid s))"
  by (auto simp: gs_reserve_def allocate_identity_def gs_admin_same_def Let_def split: option.split)

lemma gs_admin_start_attempt: "gs_admin_same s (fst (gs_start_attempt l s))"
  unfolding gs_start_attempt_def
  by (rule gs_admin_current) (auto simp: allocate_identity_def gs_admin_same_def gs_put_def split: option.split)

lemma gs_admin_finish_attempt: "gs_admin_same s (fst (gs_finish_attempt l s))"
  by (auto simp: gs_finish_attempt_def gs_admin_same_def split: option.split)

lemma gs_admin_lease_calls:
  "gs_admin_same s (fst (gs_transition from to l s))" "gs_admin_same s (fst (gs_terminal l c s))"
  "gs_admin_same s (fst (gs_release l s))" "gs_admin_same s (fst (gs_terminal_and_release l c s))"
  "gs_admin_same s (fst (gs_fail_and_release l s))" "gs_admin_same s (fst (gs_publish_progress l n s))"
  "gs_admin_same s (fst (gs_finish_operation l s))"
proof -
  show "gs_admin_same s (fst (gs_transition from to l s))"
    unfolding gs_transition_def by (rule gs_admin_current) (auto intro!: gs_admin_put)
  show "gs_admin_same s (fst (gs_terminal l c s))"
    unfolding gs_terminal_def by (rule gs_admin_current) (auto intro!: gs_admin_settle gs_admin_put)
  show "gs_admin_same s (fst (gs_release l s))"
    unfolding gs_release_def by (rule gs_admin_current) (auto intro!: gs_admin_remove)
  show "gs_admin_same s (fst (gs_terminal_and_release l c s))"
    unfolding gs_terminal_and_release_def by (rule gs_admin_current) (auto intro!: gs_admin_locked)
  show "gs_admin_same s (fst (gs_fail_and_release l s))"
    unfolding gs_fail_and_release_def by (rule gs_admin_current) (auto intro!: gs_admin_locked)
  show "gs_admin_same s (fst (gs_publish_progress l n s))"
    unfolding gs_publish_progress_def by (rule gs_admin_current) (auto simp: Let_def intro!: gs_admin_put)
  show "gs_admin_same s (fst (gs_finish_operation l s))"
    unfolding gs_finish_operation_def by (rule gs_admin_current) (auto intro!: gs_admin_locked)
qed

lemma gs_drain_admin:
  assumes same: "gs_admin_same s t" and ok: "gs_drain_ok s"
  shows "gs_drain_ok t"
proof -
  have "gs_operations t = Map.empty \<and> f = closed_facts t" if "gs_canonical_close s = Some f" for f
  proof -
    have none: "gs_operations s = Map.empty" and f: "f = closed_facts s" and "gs_phase s = Gen_Closed"
      using ok that unfolding gs_drain_ok_def by auto
    with same have "gs_operations t = Map.empty" by (simp add: gs_admin_same_def)
    with none f same show ?thesis by (simp add: closed_facts_def gs_admin_same_def)
  qed
  with ok same show ?thesis unfolding gs_drain_ok_def gs_admin_same_def by auto
qed

lemma gs_drain_worker_started: "gs_drain_ok s \<Longrightarrow> gs_drain_ok (fst (gs_note_worker_started w s))"
  using note_started_inv [of "gs_workers s" w]
  by (auto simp: gs_drain_ok_def gs_note_worker_started_def note_started_def split: prod.split)

lemma gs_drain_worker_joined:
  assumes ok: "gs_drain_ok s"
  shows "gs_drain_ok (fst (gs_note_worker_joined w s))"
proof (cases "w \<in> outstanding (gs_workers s)")
  case True
  with ok have none: "gs_canonical_close s = None" by (auto simp: gs_drain_ok_def)
  have led: "ledger_inv (fst (note_joined w (gs_workers s)))" "history_capacity (fst (note_joined w (gs_workers s))) = COMPLETED_WORKER_HISTORY"
    using ok ledger_step_capacity [of "Joined w" "gs_workers s"] by (simp_all add: gs_drain_ok_def note_joined_inv)
  have "fst (gs_note_worker_joined w s) = (if gs_poisoned s then s else s\<lparr>gs_workers := fst (note_joined w (gs_workers s))\<rparr>)"
    by (simp add: gs_note_worker_joined_def split: prod.split)
  with none led ok show ?thesis by (simp add: gs_drain_ok_def)
next
  case False
  then have "fst (gs_note_worker_joined w s) = s" by (simp add: gs_note_worker_joined_def note_joined_def)
  with ok show ?thesis by simp
qed

lemma gs_drain_exec:
  assumes ok: "gs_drain_ok s"
  shows "gs_drain_ok (gs_exec c s)"
proof (cases c)
  case GC_Quiesce
  have "(\<lambda>oid. map_option go_cancel (gs_operations s oid)) = Map.empty" if "gs_operations s = Map.empty" using that by simp
  moreover have "dom (\<lambda>oid. map_option go_cancel (gs_operations s oid)) = dom (gs_operations s)" by auto
  ultimately show ?thesis using ok unfolding GC_Quiesce by (auto simp: gs_quiesce_def gs_drain_ok_def closed_facts_def)
next
  case GC_Resume
  with ok show ?thesis by (auto simp: gs_resume_def gs_drain_ok_def)
next
  case GC_Close
  with ok show ?thesis
    by (auto simp: gs_close_def gs_drain_ok_def closed_facts_def outstanding_count_def ledger_inv_def Let_def
        split: option.split)
qed (use ok in \<open>auto simp: gs_queue_def gs_start_def gs_create_operation_fst gs_ticket_cancel_fst gs_ticket_drop_def
    gs_ticket_request_cancel_def
    intro: gs_drain_admin gs_admin_refl(2) gs_admin_lease_calls gs_admin_reserve gs_admin_request_cancel gs_admin_start_attempt
    gs_admin_finish_attempt gs_drain_worker_started gs_drain_worker_joined\<close>)

lemma gs_exec_inv: "gs_inv s \<Longrightarrow> gs_inv (gs_exec c s)"
proof -
  assume inv: "gs_inv s"
  note mv = gs_exec_move [OF inv, of c]
  have "lc_inv (gs_abs (gs_exec c s))" using lc_steps_inv [OF gs_move_sim [OF mv inv]] gs_invD(1) [OF inv] by blast
  with gs_move_heap [OF mv inv] gs_drain_exec [OF gs_invD(6) [OF inv]] show ?thesis by (simp only: gs_inv_alt)
qed

inductive_cases gs_stepE: "gs_step s t"

interpretation gs: lifecycle_impl gs_step gs_inv gs_abs
  by unfold_locales (auto elim!: gs_stepE intro: gs_exec_inv gs_move_sim gs_exec_move dest: gs_invD(1))

lemma gs_inv_new:
  "gs_with_next_sequence owner cap n = Ok s \<Longrightarrow> n \<le> U64_MAX \<Longrightarrow> gs_inv s"
  by (auto simp: gs_with_next_sequence_def gs_inv_def gs_abs_def lc_inv_def gs_drain_ok_def worker_ledger_new_def
      ledger_inv_def split: if_splits)

end
