(* ===== verification/Supervisor_Guarantees.thy ===== *)
theory Supervisor_Guarantees
  imports Generation_Supervisor
begin

text \<open>
  What clients of the generation supervisor rely on: a lease is live or its released snapshot is
  final, cancellation wins over completion and reaches every attempt, and the supervisor can always
  be drained and closed. The proofs follow one lease along a run of the supervisor.
\<close>

section \<open>One lease along a run\<close>

definition gs_live :: "gs_state \<Rightarrow> gs_lease \<Rightarrow> gs_operation \<Rightarrow> bool" where
  "gs_live s l r \<longleftrightarrow> gs_operations s (gi_operation_id (gl_identity l)) = Some r \<and> go_current r = gl_identity l \<and>
     go_released r = gl_released l"

text \<open>A final snapshot: released, with one terminal record of the lease's own identity, which reports
  completion only if no cancellation was requested before it was selected.\<close>

definition gs_final :: "gs_identity \<Rightarrow> gs_snapshot \<Rightarrow> bool" where
  "gs_final i snap \<longleftrightarrow> gn_identity snap = i \<and> gn_phase snap = Released \<and>
     gn_final_projection snap = gn_authoritative_terminal snap \<and>
     (\<exists>c. gn_authoritative_terminal snap = Some \<lparr>gt_identity = i, gt_class = c\<rparr> \<and>
          (c = Completed \<longrightarrow> \<not> gn_cancellation_requested snap))"

definition gs_gone :: "gs_state \<Rightarrow> gs_lease \<Rightarrow> gs_snapshot \<Rightarrow> bool" where
  "gs_gone s l snap \<longleftrightarrow> gi_sequence (gl_identity l) < gs_next_sequence s \<and>
     (\<forall>r. gs_operations s (gi_operation_id (gl_identity l)) = Some r \<longrightarrow>
        gi_sequence (gl_identity l) < gi_sequence (go_current r)) \<and>
     gl_released l < length (gs_slots s) \<and> gs_slots s ! gl_released l = Some snap \<and> gs_final (gl_identity l) snap"

text \<open>What a step makes of a live operation while it stays.\<close>

definition go_next :: "gs_state \<Rightarrow> gs_operation \<Rightarrow> gs_operation \<Rightarrow> bool" where
  "go_next s r r' \<longleftrightarrow> go_evolves (gs_progress_capacity s) r r' \<or>
     r' = go_add_attempt (gs_owner s) (gi_operation_id (go_current r)) (gs_next_sequence s) r"

lemma go_next_same: "go_next s r r"
  by (simp add: go_next_def ge_same)

lemma go_settles_final:
  assumes "go_settles r r'" and "go_current r = i"
  shows "gs_final i (snapshot_for r' Released) \<and> cancellation_requested (go_control r') = cancellation_requested (go_control r)"
  using assms(1) unfolding go_settles_def
  by (elim conjE exE) (auto simp: gs_final_def snapshot_for_def settled_cell assms(2))

lemma go_terminal_final:
  assumes life: "go_life_ok r" and "go_phase r = Terminal" and some: "go_terminal r = None \<longleftrightarrow> go_phase r \<noteq> Terminal"
  shows "gs_final (go_current r) (snapshot_for r Released)"
proof -
  obtain t where t: "go_terminal r = Some t" using assms(2,3) by auto
  have "t = \<lparr>gt_identity = go_current r, gt_class = gt_class t\<rparr>"
    using go_life_okD(3) [OF life t] by (cases t) simp
  moreover have "gt_class t = Completed \<longrightarrow> \<not> cancellation_requested (go_control r)" using go_life_okD(4) [OF life t] by blast
  ultimately show ?thesis unfolding gs_final_def snapshot_for_def using t by auto
qed

lemma gs_move_live:
  assumes "gs_move s t" and inv: "gs_inv s" and live: "gs_live s l r"
  shows "(\<exists>r'. gs_live t l r' \<and> go_next s r r') \<or>
    (\<exists>r'. gs_gone t l (snapshot_for r' Released) \<and> cancellation_requested (go_control r') = cancellation_requested (go_control r))"
  using assms(1)
proof (cases rule: gs_move.cases)
  case gm_stay
  then have "gs_live t l r" using live by (simp add: gs_live_def)
  then show ?thesis using go_next_same by blast
next
  case (gm_put oid q q')
  show ?thesis
  proof (cases "oid = gi_operation_id (gl_identity l)")
    case True
    then have "q = r" using live gm_put(2) by (simp add: gs_live_def)
    then have "gs_live t l q'" using live gm_put(4) go_evolves_static [OF gm_put(3)] True by (simp add: gs_live_def)
    then show ?thesis using gm_put(3) \<open>q = r\<close> by (auto simp: go_next_def)
  next
    case False
    then have "gs_live t l r" using live gm_put(4) by (simp add: gs_live_def)
    then show ?thesis using go_next_same by blast
  qed
next
  case gm_cancel_all
  then have "gs_live t l (go_cancel r)" using live by (simp add: gs_live_def)
  then show ?thesis by (auto simp: go_next_def intro: ge_cancel)
next
  case (gm_admit oid)
  then have "gs_live t l r" using live by (auto simp: gs_live_def)
  then show ?thesis using go_next_same by blast
next
  case (gm_attempt oid q)
  show ?thesis
  proof (cases "oid = gi_operation_id (gl_identity l)")
    case True
    then have "q = r" using live gm_attempt(2) by (simp add: gs_live_def)
    then have "gs_live t l (go_add_attempt (gs_owner s) oid (gs_next_sequence s) r)"
      using live gm_attempt(4) True by (simp add: gs_live_def go_add_attempt_def)
    moreover have "oid = gi_operation_id (go_current r)" using True live by (simp add: gs_live_def)
    ultimately show ?thesis unfolding go_next_def by blast
  next
    case False
    then have "gs_live t l r" using live gm_attempt(4) by (simp add: gs_live_def)
    then show ?thesis using go_next_same by blast
  qed
next
  case gm_spend
  then have "gs_live t l r" using live by (simp add: gs_live_def)
  then show ?thesis using go_next_same by blast
next
  case (gm_leave oid q q')
  show ?thesis
  proof (cases "oid = gi_operation_id (gl_identity l)")
    case True
    then have q: "q = r" using live gm_leave(2) by (simp add: gs_live_def)
    have cur: "go_current r = gl_identity l" "go_released r = gl_released l" using live by (simp_all add: gs_live_def)
    have ok: "go_ok s oid r" by (rule gs_invD(5) [OF inv]) (use gm_leave(2) q in simp)
    have life: "go_life_ok r" using ok unfolding go_ok_def by blast
    have "gs_final (gl_identity l) (snapshot_for q' Released) \<and> cancellation_requested (go_control q') = cancellation_requested (go_control r)"
      using gm_leave(3) q go_settles_final [of r q' "gl_identity l"] go_terminal_final [OF life _ gs_inv_life(3) [OF inv gm_leave(2) [unfolded q]]]
        cur by auto
    moreover have "gl_released l < length (gs_slots s)" using ok cur by (simp add: go_ok_def)
    ultimately have "gs_gone t l (snapshot_for q' Released)"
      using gm_leave(5-7) q cur True gs_inv_life(1) [OF inv gm_leave(2)] by (simp add: gs_gone_def)
    with \<open>_ \<and> _\<close> show ?thesis by blast
  next
    case False
    then have "gs_live t l r" using live gm_leave(5) by (simp add: gs_live_def)
    then show ?thesis using go_next_same by blast
  qed
qed

lemma gs_move_gone:
  assumes mv: "gs_move s t" and inv: "gs_inv s" and gone: "gs_gone s l snap"
  shows "gs_gone t l snap"
proof -
  have seq: "gi_sequence (gl_identity l) < gs_next_sequence s" and slot: "gl_released l < length (gs_slots s)"
      "gs_slots s ! gl_released l = Some snap"
    and new: "\<And>r. gs_operations s (gi_operation_id (gl_identity l)) = Some r \<Longrightarrow> gi_sequence (gl_identity l) < gi_sequence (go_current r)"
    using gone by (auto simp: gs_gone_def)
  have other: "go_released r \<noteq> gl_released l" if "gs_operations s oid = Some r" for oid r
    using gs_invD(5) [OF inv that] slot by (auto simp: go_ok_def)
  from mv have "gs_next_sequence s \<le> gs_next_sequence t \<and> gl_released l < length (gs_slots t) \<and>
      gs_slots t ! gl_released l = Some snap \<and>
      (\<forall>r. gs_operations t (gi_operation_id (gl_identity l)) = Some r \<longrightarrow> gi_sequence (gl_identity l) < gi_sequence (go_current r))"
  proof (cases rule: gs_move.cases)
    case (gm_put oid q q')
    then show ?thesis using slot new go_evolves_static [OF gm_put(3)] by (cases "oid = gi_operation_id (gl_identity l)") auto
  next
    case gm_cancel_all
    then show ?thesis using slot new by auto
  next
    case (gm_admit oid)
    then show ?thesis using slot new seq
      by (cases "oid = gi_operation_id (gl_identity l)") (auto simp: nth_append go_new_def)
  next
    case (gm_attempt oid q)
    then show ?thesis using slot new
      by (cases "oid = gi_operation_id (gl_identity l)") (auto simp: nth_append go_add_attempt_def)
  next
    case (gm_leave oid q q')
    then show ?thesis using slot new other [OF gm_leave(2)]
      by (cases "oid = gi_operation_id (gl_identity l)") auto
  qed (use slot new in \<open>auto simp: nth_append\<close>)
  with seq gone show ?thesis by (auto simp: gs_gone_def)
qed

definition gs_lease_ok :: "gs_state \<Rightarrow> gs_lease \<Rightarrow> bool" where
  "gs_lease_ok s l \<longleftrightarrow> (\<exists>r. gs_live s l r) \<or> (\<exists>snap. gs_gone s l snap)"

lemma gs_step_inv: "gs_step s t \<Longrightarrow> gs_inv s \<Longrightarrow> gs_inv t \<and> gs_move s t"
  by (auto elim!: gs_stepE intro: gs_exec_inv gs_exec_move)

lemma gs_steps_lease_ok: "gs_step\<^sup>*\<^sup>* s t \<Longrightarrow> gs_inv s \<Longrightarrow> gs_lease_ok s l \<Longrightarrow> gs_lease_ok t l"
proof (induction rule: rtranclp_induct)
  case (step u v)
  then have "gs_inv u" by (auto intro: gs.steps_inv)
  with step gs_step_inv [of u v] show ?case
    using gs_move_live [of u v l] gs_move_gone [of u v l] unfolding gs_lease_ok_def by blast
qed simp

lemma gs_steps_gone: "gs_step\<^sup>*\<^sup>* s t \<Longrightarrow> gs_inv s \<Longrightarrow> gs_gone s l snap \<Longrightarrow> gs_gone t l snap"
proof (induction rule: rtranclp_induct)
  case (step u v)
  then have "gs_inv u" by (auto intro: gs.steps_inv)
  with step gs_step_inv [of u v] show ?case using gs_move_gone [of u v l] by blast
qed simp

lemma gs_reserve_live:
  assumes "gs_reserve oid s = (t, Some (Ok (ticket, l)))"
  shows "gs_live t l (go_new (gs_owner s) oid (gs_next_sequence s) (length (gs_slots s)))"
    "gi_operation_id (gl_identity l) = oid" "gk_identity ticket = gl_identity l" "t = gs_exec (GC_Reserve oid) s"
proof -
  have t: "t = fst (gs_reserve oid s)" using assms by simp
  show "t = gs_exec (GC_Reserve oid) s" using t by simp
  show "gs_live t l (go_new (gs_owner s) oid (gs_next_sequence s) (length (gs_slots s)))"
    "gi_operation_id (gl_identity l) = oid" "gk_identity ticket = gl_identity l"
    using assms by (auto simp: gs_reserve_def allocate_identity_def gs_live_def go_new_def Let_def result_simps
        split: if_splits option.splits)
qed

text \<open>The lease a call is made through, if it is made through one.\<close>

fun gs_call_lease :: "gs_call \<Rightarrow> gs_lease option" where
  "gs_call_lease (GC_Queue l) = Some l"
| "gs_call_lease (GC_Start l) = Some l"
| "gs_call_lease (GC_Terminal l c) = Some l"
| "gs_call_lease (GC_Release l) = Some l"
| "gs_call_lease (GC_Terminal_And_Release l c) = Some l"
| "gs_call_lease (GC_Fail_And_Release l) = Some l"
| "gs_call_lease (GC_Publish l n) = Some l"
| "gs_call_lease (GC_Start_Attempt l) = Some l"
| "gs_call_lease (GC_Finish_Attempt l) = Some l"
| "gs_call_lease (GC_Finish_Operation l) = Some l"
| "gs_call_lease _ = None"

lemma gs_gone_stale: "gs_gone s l snap \<Longrightarrow> current_operation s (gl_identity l) = Err StaleLease"
  by (auto simp: gs_gone_def result_simps)

lemma gs_gone_inert:
  assumes inv: "gs_inv s" and gone: "gs_gone s l snap" and "gs_call_lease c = Some l"
  shows "gs_exec c s = s"
proof -
  note stale = gs_gone_stale [OF gone]
  have none: "go_attempts r (gi_sequence (gl_identity l)) = None"
    if "gs_operations s (gi_operation_id (gl_identity l)) = Some r" for r
  proof (rule ccontr)
    assume "go_attempts r (gi_sequence (gl_identity l)) \<noteq> None"
    then obtain a where "go_attempts r (gi_sequence (gl_identity l)) = Some a" by blast
    with gs_invD(5) [OF inv that] have "ga_ok r (gs_owner s) (gi_operation_id (gl_identity l)) (gs_next_sequence s) (gi_sequence (gl_identity l)) a"
      unfolding go_ok_def by blast
    then have "gi_sequence (go_current r) < gi_sequence (gl_identity l)" by (simp add: ga_ok_def)
    moreover have "gi_sequence (gl_identity l) < gi_sequence (go_current r)" using gone that by (simp add: gs_gone_def)
    ultimately show False by simp
  qed
  show ?thesis using assms(3) none
    by (cases c) (auto simp: gs_current_def gs_current_panicky_def stale gs_queue_def gs_start_def gs_transition_def gs_terminal_def gs_release_def
        gs_terminal_and_release_def gs_fail_and_release_def gs_publish_progress_def gs_start_attempt_def gs_finish_attempt_def
        gs_finish_operation_def split: option.split)
qed

section \<open>Guarantees\<close>

text \<open>A lease taken in a good state is, in every later state, either live or gone.\<close>

lemma gs_lease_dichotomy:
  assumes new: "gs_with_next_sequence owner cap n = Ok s0" "n \<le> U64_MAX" "gs_step\<^sup>*\<^sup>* s0 s"
    and res: "gs_reserve oid s = (s1, Some (Ok (ticket, l)))" and run: "gs_step\<^sup>*\<^sup>* s1 t"
  shows "gs_inv t" "gs_lease_ok t l"
proof -
  have inv: "gs_inv s" using new by (blast intro: gs.steps_inv gs_inv_new)
  then have inv1: "gs_inv s1" unfolding gs_reserve_live(4) [OF res] by (rule gs_exec_inv)
  show "gs_inv t" using run inv1 by (rule gs.steps_inv)
  show "gs_lease_ok t l" using gs_steps_lease_ok [OF run inv1] gs_reserve_live(1) [OF res] unfolding gs_lease_ok_def by blast
qed

lemma gs_live_slot: "gs_inv s \<Longrightarrow> gs_live s l r \<Longrightarrow> gs_slots s ! gl_released l = None"
  using gs_invD(5) [of s "gi_operation_id (gl_identity l)" r] by (auto simp: gs_live_def go_ok_def)

text \<open>
  C32. A released snapshot is final. From the moment an operation is reserved until it is released,
  its lease finds it in the supervisor and its slot is empty. Once the slot is filled, it holds for
  ever the one snapshot with phase Released and the terminal record of that very reservation,
  whatever any client does and even if the id is reserved anew; every later call through the lease
  leaves the supervisor as it is; and as long as the mutex is intact, \<open>snapshot\<close> and
  \<open>wait_released\<close> return that snapshot.
\<close>

theorem gs_released_is_final:
  assumes new: "gs_with_next_sequence owner cap n = Ok s0" "n \<le> U64_MAX" "gs_step\<^sup>*\<^sup>* s0 s"
    and res: "gs_reserve oid s = (s1, Some (Ok (ticket, l)))" and run: "gs_step\<^sup>*\<^sup>* s1 t"
  shows "(gs_slots t ! gl_released l = None \<longleftrightarrow>
            (\<exists>r. gs_operations t oid = Some r \<and> go_current r = gl_identity l)) \<and>
    (\<forall>snap u expired wakes. gs_slots t ! gl_released l = Some snap \<longrightarrow> gs_step\<^sup>*\<^sup>* t u \<longrightarrow>
       gs_final (gl_identity l) snap \<and> gs_slots u ! gl_released l = Some snap \<and>
       (\<forall>c. gs_call_lease c = Some l \<longrightarrow> gs_exec c u = u) \<and>
       (\<not> gs_poisoned u \<longrightarrow> gs_lease_snapshot l u = Ok (Some snap) \<and>
          gs_wait_released l expired u wakes = Some (Ok (Some snap))))"
proof -
  note inv = gs_lease_dichotomy(1) [OF assms] and ok = gs_lease_dichotomy(2) [OF assms]
  note oid = gs_reserve_live(2) [OF res]
  show ?thesis
  proof (cases "\<exists>r. gs_live t l r")
    case True
    then obtain r where live: "gs_live t l r" by blast
    then show ?thesis using gs_live_slot [OF inv live] oid by (auto simp: gs_live_def)
  next
    case False
    then obtain snap where gone: "gs_gone t l snap" using ok unfolding gs_lease_ok_def by blast
    then have slot: "gs_slots t ! gl_released l = Some snap" and final: "gs_final (gl_identity l) snap"
      by (simp_all add: gs_gone_def)
    have "\<not> (\<exists>r. gs_operations t oid = Some r \<and> go_current r = gl_identity l)"
      using gone oid by (auto simp: gs_gone_def)
    moreover have "gs_slots u ! gl_released l = Some snap \<and> (\<forall>c. gs_call_lease c = Some l \<longrightarrow> gs_exec c u = u) \<and>
        (\<not> gs_poisoned u \<longrightarrow> gs_lease_snapshot l u = Ok (Some snap) \<and>
          gs_wait_released l expired u wakes = Some (Ok (Some snap)))"
      if steps: "gs_step\<^sup>*\<^sup>* t u" for u expired wakes
    proof -
      have goneu: "gs_gone u l snap" by (rule gs_steps_gone [OF steps inv gone])
      have invu: "gs_inv u" using steps inv by (rule gs.steps_inv)
      have slotu: "gs_slots u ! gl_released l = Some snap" using goneu by (simp add: gs_gone_def)
      with gs_gone_inert [OF invu goneu] gs_gone_stale [OF goneu] show ?thesis
        by (simp add: gs_lease_snapshot_def gs_wait_released_def)
    qed
    ultimately show ?thesis using slot final by auto
  qed
qed

text \<open>Cancellation sticks to an operation, through the terminal claim and the release.\<close>

definition gs_cancelled :: "gs_state \<Rightarrow> gs_lease \<Rightarrow> bool" where
  "gs_cancelled s l \<longleftrightarrow> (\<exists>r. gs_live s l r \<and> cancellation_requested (go_control r)) \<or>
     (\<exists>snap. gs_gone s l snap \<and> gn_cancellation_requested snap)"

lemma go_evolves_cancelled:
  "go_evolves cap r r' \<Longrightarrow> cancellation_requested (go_control r) \<Longrightarrow> cancellation_requested (go_control r')"
proof (induction rule: go_evolves.induct)
  case (ge_settle r r')
  then show ?case using go_settles_final by blast
qed (simp_all add: request_cancel_cell)

lemma gs_move_cancelled:
  assumes mv: "gs_move s t" and inv: "gs_inv s" and "gs_cancelled s l"
  shows "gs_cancelled t l"
  using assms(3) unfolding gs_cancelled_def
proof (elim disjE exE conjE)
  fix r assume live: "gs_live s l r" and c: "cancellation_requested (go_control r)"
  have "cancellation_requested (go_control r')" if "go_next s r r'" for r'
    using that c by (auto simp: go_next_def go_add_attempt_def intro: go_evolves_cancelled)
  with gs_move_live [OF mv inv live] c
  show "(\<exists>r. gs_live t l r \<and> cancellation_requested (go_control r)) \<or> (\<exists>snap. gs_gone t l snap \<and> gn_cancellation_requested snap)"
    by (auto simp: snapshot_for_def)
next
  fix snap assume "gs_gone s l snap" "gn_cancellation_requested snap"
  with gs_move_gone [OF mv inv] 
  show "(\<exists>r. gs_live t l r \<and> cancellation_requested (go_control r)) \<or> (\<exists>snap. gs_gone t l snap \<and> gn_cancellation_requested snap)"
    by blast
qed

lemma gs_steps_cancelled: "gs_step\<^sup>*\<^sup>* s t \<Longrightarrow> gs_inv s \<Longrightarrow> gs_cancelled s l \<Longrightarrow> gs_cancelled t l"
proof (induction rule: rtranclp_induct)
  case (step u v)
  then have "gs_inv u" by (auto intro: gs.steps_inv)
  with step gs_step_inv [of u v] show ?case using gs_move_cancelled by blast
qed simp

text \<open>What the lease's snapshot and the attempts of a cancelled operation say.\<close>

lemma gs_cancelled_snapshot:
  assumes inv: "gs_inv s" and c: "gs_cancelled s l" and snap: "gs_lease_snapshot l s = Ok (Some b)"
  shows "gn_cancellation_requested b \<and> (\<forall>t. gn_authoritative_terminal b = Some t \<longrightarrow> gt_class t \<noteq> Completed)"
  using c unfolding gs_cancelled_def
proof (elim disjE exE conjE)
  fix r assume live: "gs_live s l r" and c: "cancellation_requested (go_control r)"
  have "go_life_ok r" using gs_invD(5) [OF inv] live unfolding gs_live_def go_ok_def by blast
  note life = go_life_okD(4) [OF this]
  have "current_operation s (gl_identity l) = Ok r" using live by (simp add: gs_live_def current_operation_Ok)
  with snap have "b = snapshot_for r (go_phase r)" by (simp add: gs_lease_snapshot_def split: if_splits)
  with c life show ?thesis by (auto simp: snapshot_for_def)
next
  fix q assume gone: "gs_gone s l q" and c: "gn_cancellation_requested q"
  with snap gs_gone_stale [OF gone] have "b = q" by (simp add: gs_lease_snapshot_def gs_gone_def split: if_splits)
  with gone c show ?thesis by (auto simp: gs_gone_def gs_final_def)
qed

lemma gs_cancelled_attempts:
  assumes inv: "gs_inv s" and c: "gs_cancelled s l" and ids: "gs_active_attempts l s = Ok ids" and "i \<in> set ids"
  shows "gs_attempt_cancelled \<lparr>gl_identity = i, gl_released = a\<rparr> s = Ok True"
proof -
  have "ids \<noteq> []" using assms(4) by auto
  with ids obtain r where r: "gs_operations s (gi_operation_id (gl_identity l)) = Some r" "go_current r = gl_identity l"
    and ids': "ids = map (\<lambda>k. ga_identity (the (go_attempts r k))) (sorted_list_of_set (dom (go_attempts r)))"
    and np: "\<not> gs_poisoned s"
    by (auto simp: gs_active_attempts_def split: if_splits option.splits)
  have "finite (dom (go_attempts r))" using gs_invD(5) [OF inv r(1)] unfolding go_ok_def by blast
  then obtain k where k: "k \<in> dom (go_attempts r)" "i = ga_identity (the (go_attempts r k))"
    using assms(4) unfolding ids' by auto
  obtain a where a: "go_attempts r k = Some a" using k(1) by blast
  have ok: "ga_ok r (gs_owner s) (gi_operation_id (gl_identity l)) (gs_next_sequence s) k a"
    using gs_invD(5) [OF inv r(1)] a unfolding go_ok_def by blast
  have "cancellation_requested (go_control r)"
    using c r unfolding gs_cancelled_def gs_live_def gs_gone_def by auto
  with ok have "cancellation_requested (ga_control a)" "ga_identity a = gs_identity_of (gs_owner s) (gi_operation_id (gl_identity l)) k"
    by (simp_all add: ga_ok_def)
  with k(2) a r(1) np show ?thesis by (simp add: gs_attempt_cancelled_def)
qed

text \<open>
  C33. Cancellation wins. Once \<open>request_cancel\<close> of an operation has returned \<open>Ok\<close> while the operation
  had no terminal record yet, every later snapshot of its lease, before and after its release,
  reports the request, no snapshot ever reports \<open>Completed\<close>, whatever class its executor claims,
  and every attempt of the operation, those started later included, is told that it is cancelled.
\<close>

theorem gs_cancellation_wins:
  assumes new: "gs_with_next_sequence owner cap n = Ok s0" "n \<le> U64_MAX" "gs_step\<^sup>*\<^sup>* s0 s"
    and res: "gs_reserve oid s = (s1, Some (Ok (ticket, l)))" and run: "gs_step\<^sup>*\<^sup>* s1 s2"
    and early: "gs_lease_snapshot l s2 = Ok (Some a)" "gn_authoritative_terminal a = None"
    and cancel: "gs_request_cancel (gl_identity l) s2 = (s3, Ok ())" and later: "gs_step\<^sup>*\<^sup>* s3 t"
    and snap: "gs_lease_snapshot l t = Ok (Some b)" and ids: "gs_active_attempts l t = Ok ids"
  shows "gn_cancellation_requested b \<and>
    (\<forall>rec. gn_authoritative_terminal b = Some rec \<longrightarrow> gt_class rec \<noteq> Completed) \<and>
    (\<forall>i \<in> set ids. gs_attempt_cancelled \<lparr>gl_identity = i, gl_released = slot\<rparr> t = Ok True)"
proof -
  note inv = gs_lease_dichotomy(1) [OF new res run] and ok = gs_lease_dichotomy(2) [OF new res run]
  obtain r where cur: "gs_operations s2 (gi_operation_id (gl_identity l)) = Some r" "go_current r = gl_identity l"
    and s3: "s3 = gs_put (go_cancel r) s2" and np: "\<not> gs_poisoned s2"
    using cancel by (auto simp: gs_request_cancel_def gs_current_def result_simps split: if_splits result.splits)
  have live: "gs_live s2 l r" using ok cur unfolding gs_lease_ok_def gs_live_def gs_gone_def by auto
  have "current_operation s2 (gl_identity l) = Ok r" using cur by (simp add: current_operation_Ok)
  then have "a = snapshot_for r (go_phase r)" using early(1) np by (simp add: gs_lease_snapshot_def)
  then have "go_phase r \<noteq> Terminal" using early(2) gs_inv_life(3) [OF inv cur(1)] by (simp add: snapshot_for_def)
  moreover have life: "go_life_ok r" using gs_invD(5) [OF inv cur(1)] unfolding go_ok_def by blast
  ultimately have "\<not> is_terminal (go_control r)" using go_life_okD(2) [OF life] by simp
  then have "cancellation_requested (go_control (go_cancel r))"
    using valid_cell_cases [OF go_life_okD(1) [OF life]] by (auto simp: request_cancel_cell cancellation_requested_def)
  moreover have "gs_live s3 l (go_cancel r)" using live cur by (simp add: s3 gs_live_def gs_put_def)
  ultimately have c3: "gs_cancelled s3 l" unfolding gs_cancelled_def by blast
  have "gs_exec (GC_Request_Cancel (gl_identity l)) s2 = s3" using cancel by simp
  then have inv3: "gs_inv s3" using gs_exec_inv [OF inv] by metis
  have invt: "gs_inv t" using later inv3 by (rule gs.steps_inv)
  have ct: "gs_cancelled t l" by (rule gs_steps_cancelled [OF later inv3 c3])
  show ?thesis using gs_cancelled_snapshot [OF invt ct snap] gs_cancelled_attempts [OF invt ct ids] by blast
qed

text \<open>The calls that finish work and admit none.\<close>

fun drain_call :: "gs_call \<Rightarrow> bool" where
  "drain_call (GC_Finish_Attempt l) = True"
| "drain_call (GC_Release l) = True"
| "drain_call (GC_Finish_Operation l) = True"
| "drain_call (GC_Worker_Joined w) = True"
| "drain_call _ = False"

definition gs_drains_to :: "gs_state \<Rightarrow> gs_state \<Rightarrow> bool" where
  "gs_drains_to s t \<longleftrightarrow> (\<exists>cs. list_all drain_call cs \<and> fold gs_exec cs s = t)"

lemma gs_drains_refl: "gs_drains_to s s"
  unfolding gs_drains_to_def by (intro exI [of _ "[]"]) simp

lemma gs_drains_trans: "gs_drains_to s t \<Longrightarrow> gs_drains_to t u \<Longrightarrow> gs_drains_to s u"
  unfolding gs_drains_to_def
proof (elim exE conjE)
  fix cs ds assume "list_all drain_call cs" "fold gs_exec cs s = t" "list_all drain_call ds" "fold gs_exec ds t = u"
  then show "\<exists>cs. list_all drain_call cs \<and> fold gs_exec cs s = u" by (intro exI [of _ "cs @ ds"]) simp
qed

lemma gs_drains_call: "drain_call c \<Longrightarrow> gs_drains_to s (gs_exec c s)"
  unfolding gs_drains_to_def by (intro exI [of _ "[c]"]) simp

lemma gs_drains_inv: "gs_drains_to s t \<Longrightarrow> gs_inv s \<Longrightarrow> gs_inv t"
proof -
  assume "gs_inv s"
  then have "gs_inv (fold gs_exec cs s)" for cs by (induction cs arbitrary: s) (auto intro: gs_exec_inv)
  then show "gs_drains_to s t \<Longrightarrow> gs_inv t" by (auto simp: gs_drains_to_def)
qed

lemma gs_finish_attempt_exec:
  assumes inv: "gs_inv s" and np: "\<not> gs_poisoned s" and r: "gs_operations s oid = Some r" and a: "go_attempts r k = Some a"
  shows "gs_exec (GC_Finish_Attempt \<lparr>gl_identity = ga_identity a, gl_released = 0\<rparr>) s =
    s\<lparr>gs_operations := (gs_operations s)(oid \<mapsto> r\<lparr>go_attempts := (go_attempts r)(k := None)\<rparr>)\<rparr>"
proof -
  have "ga_ok r (gs_owner s) oid (gs_next_sequence s) k a" using gs_invD(5) [OF inv r] a unfolding go_ok_def by blast
  then have "ga_identity a = gs_identity_of (gs_owner s) oid k" by (simp add: ga_ok_def)
  with np r a show ?thesis by (simp add: gs_finish_attempt_def)
qed

lemma gs_drain_attempts:
  assumes "gs_inv s" and "\<not> gs_poisoned s" and "gs_operations s oid = Some r"
  shows "gs_drains_to s (s\<lparr>gs_operations := (gs_operations s)(oid \<mapsto> r\<lparr>go_attempts := Map.empty\<rparr>)\<rparr>)"
  using assms
proof (induction "card (dom (go_attempts r))" arbitrary: s r rule: less_induct)
  case less
  have fin: "finite (dom (go_attempts r))" using gs_invD(5) [OF less.prems(1,3)] unfolding go_ok_def by blast
  show ?case
  proof (cases "go_attempts r = Map.empty")
    case True
    then have "r\<lparr>go_attempts := Map.empty\<rparr> = r" by simp
    then show ?thesis using less.prems(3) gs_drains_refl by (simp add: map_upd_triv)
  next
    case False
    then obtain k a where a: "go_attempts r k = Some a" by (meson not_None_eq ext)
    define r' where "r' = r\<lparr>go_attempts := (go_attempts r)(k := None)\<rparr>"
    define c where "c = GC_Finish_Attempt \<lparr>gl_identity = ga_identity a, gl_released = 0\<rparr>"
    have s': "gs_exec c s = s\<lparr>gs_operations := (gs_operations s)(oid \<mapsto> r')\<rparr>"
      unfolding c_def r'_def by (rule gs_finish_attempt_exec [OF less.prems a])
    have "dom (go_attempts r') = dom (go_attempts r) - {k}" by (auto simp: r'_def)
    moreover have "k \<in> dom (go_attempts r)" using a by blast
    ultimately have "card (dom (go_attempts r')) < card (dom (go_attempts r))" using fin by (metis card_Diff1_less)
    from less.hyps [OF this gs_exec_inv [OF less.prems(1), of c]] less.prems(2) s'
    have "gs_drains_to (gs_exec c s) (s\<lparr>gs_operations := (gs_operations s)(oid \<mapsto> r\<lparr>go_attempts := Map.empty\<rparr>)\<rparr>)"
      by (simp add: r'_def)
    then show ?thesis using gs_drains_call [of c s] unfolding c_def by (auto intro: gs_drains_trans)
  qed
qed

text \<open>An operation without attempts leaves by one call: released if it is terminal, finished otherwise.\<close>

lemma gs_drain_bare:
  assumes inv: "gs_inv s" and np: "\<not> gs_poisoned s" and r: "gs_operations s oid = Some r" "go_attempts r = Map.empty"
  obtains t where "gs_drains_to s t" "gs_operations t = (gs_operations s)(oid := None)" "\<not> gs_poisoned t" "gs_workers t = gs_workers s"
proof -
  define l where "l = \<lparr>gl_identity = go_current r, gl_released = go_released r\<rparr>"
  have id: "gi_operation_id (go_current r) = oid" using go_ok_id [OF gs_invD(5) [OF inv r(1)]] by blast
  then have cur: "current_operation s (gl_identity l) = Ok r" using r by (simp add: l_def current_operation_Ok)
  have life: "go_life_ok r" using gs_invD(5) [OF inv r(1)] unfolding go_ok_def by blast
  have remove: "gs_operations (gs_remove q s) = (gs_operations s)(oid := None) \<and> \<not> gs_poisoned (gs_remove q s) \<and>
      gs_workers (gs_remove q s) = gs_workers s" if "go_current q = go_current r" for q
    using that id np by (simp add: gs_remove_def once_set_def)
  show thesis
  proof (cases "go_phase r = Terminal")
    case True
    then have "gs_exec (GC_Release l) s = gs_remove r s"
      using np cur r(2) by (simp add: gs_release_def gs_current_def)
    then show thesis using that [of "gs_remove r s"] gs_drains_call [of "GC_Release l" s] remove [of r] by simp
  next
    case False
    then have none: "go_terminal r = None" using gs_inv_life(3) [OF inv r(1)] by simp
    define q where "q = r\<lparr>go_control := (if cancellation_requested (go_control r) then TERMINAL_CANCELLED else TERMINAL),
      go_terminal := Some \<lparr>gt_identity = gl_identity l, gt_class = Cancelled\<rparr>, go_phase := Terminal\<rparr>"
    have q: "go_current q = go_current r" by (simp add: q_def)
    have "gs_exec (GC_Finish_Operation l) s = gs_remove q s"
      using np cur r(2) none gs_settle_live [OF life False, of "gl_identity l" Cancelled gs_remove s]
      by (simp add: gs_finish_operation_def gs_current_panicky_def terminal_and_release_locked_def q_def)
    then show thesis
      using that [of "gs_remove q s"] gs_drains_call [of "GC_Finish_Operation l" s] remove [OF q] by simp
  qed
qed

lemma gs_drain_operation:
  assumes inv: "gs_inv s" and np: "\<not> gs_poisoned s" and r: "gs_operations s oid = Some r"
  obtains t where "gs_drains_to s t" "gs_operations t = (gs_operations s)(oid := None)" "\<not> gs_poisoned t" "gs_workers t = gs_workers s"
proof -
  define s' where "s' = s\<lparr>gs_operations := (gs_operations s)(oid \<mapsto> r\<lparr>go_attempts := Map.empty\<rparr>)\<rparr>"
  have d: "gs_drains_to s s'" unfolding s'_def by (rule gs_drain_attempts [OF assms])
  obtain t where "gs_drains_to s' t" "gs_operations t = (gs_operations s')(oid := None)" "\<not> gs_poisoned t" "gs_workers t = gs_workers s'"
    by (rule gs_drain_bare [OF gs_drains_inv [OF d inv], of oid "r\<lparr>go_attempts := Map.empty\<rparr>"]) (use np in \<open>simp_all add: s'_def\<close>)
  with gs_drains_trans [OF d] that [of t] show thesis by (simp add: s'_def)
qed

lemma gs_drain_operations:
  assumes "gs_inv s" and "\<not> gs_poisoned s"
  shows "\<exists>t. gs_drains_to s t \<and> gs_operations t = Map.empty \<and> \<not> gs_poisoned t \<and> gs_workers t = gs_workers s"
  using assms
proof (induction "card (dom (gs_operations s))" arbitrary: s rule: less_induct)
  case less
  show ?case
  proof (cases "gs_operations s = Map.empty")
    case True
    with less.prems(2) gs_drains_refl show ?thesis by blast
  next
    case False
    then obtain oid r where r: "gs_operations s oid = Some r" by (meson not_None_eq ext)
    obtain u where u: "gs_drains_to s u" "gs_operations u = (gs_operations s)(oid := None)" "\<not> gs_poisoned u" "gs_workers u = gs_workers s"
      by (rule gs_drain_operation [OF less.prems r])
    have "dom (gs_operations u) = dom (gs_operations s) - {oid}" using u(2) by auto
    moreover have "oid \<in> dom (gs_operations s)" using r by blast
    ultimately have "card (dom (gs_operations u)) < card (dom (gs_operations s))"
      using gs_invD(4) [OF less.prems(1)] by (metis card_Diff1_less)
    from less.hyps [OF this gs_drains_inv [OF u(1) less.prems(1)] u(3)] u(4) gs_drains_trans [OF u(1)]
    show ?thesis by auto
  qed
qed

lemma gs_drain_workers:
  assumes "gs_inv s" and "\<not> gs_poisoned s" and "gs_operations s = Map.empty"
  shows "\<exists>t. gs_drains_to s t \<and> gs_operations t = Map.empty \<and> \<not> gs_poisoned t \<and> outstanding (gs_workers t) = {}"
  using assms
proof (induction "card (outstanding (gs_workers s))" arbitrary: s rule: less_induct)
  case less
  have led: "ledger_inv (gs_workers s)" using gs_invD(6) [OF less.prems(1)] by (simp add: gs_drain_ok_def)
  show ?case
  proof (cases "outstanding (gs_workers s) = {}")
    case True
    with less.prems gs_drains_refl show ?thesis by blast
  next
    case False
    then obtain w where w: "w \<in> outstanding (gs_workers s)" by blast
    define u where "u = gs_exec (GC_Worker_Joined w) s"
    have u: "gs_operations u = Map.empty" "\<not> gs_poisoned u" "outstanding (gs_workers u) = outstanding (gs_workers s) - {w}"
      using less.prems(2,3) note_joined_eq [OF led w] by (simp_all add: u_def gs_note_worker_joined_def)
    have "card (outstanding (gs_workers u)) < card (outstanding (gs_workers s))"
      unfolding u(3) using w led by (intro card_Diff1_less) (simp_all add: ledger_inv_def)
    from less.hyps [OF this _ u(2,1)] gs_exec_inv [OF less.prems(1), of "GC_Worker_Joined w"]
    obtain t where "gs_drains_to u t" "gs_operations t = Map.empty" "\<not> gs_poisoned t" "outstanding (gs_workers t) = {}"
      by (auto simp: u_def)
    then show ?thesis using gs_drains_call [of "GC_Worker_Joined w" s] gs_drains_trans unfolding u_def by (metis drain_call.simps(4))
  qed
qed

text \<open>A recorded close is permanent.\<close>

lemma gs_closed_exec:
  assumes inv: "gs_inv s" and closed: "gs_canonical_close s = Some f"
  shows "gs_canonical_close (gs_exec c s) = Some f"
proof -
  have ph: "gs_phase s = Gen_Closed" using gs_invD(6) [OF inv] closed by (auto simp: gs_drain_ok_def)
  have admin: "gs_admin_same s t \<Longrightarrow> gs_canonical_close t = Some f" for t using closed by (simp add: gs_admin_same_def)
  show ?thesis
  proof (cases c)
    case GC_Quiesce
    then show ?thesis using closed by (simp add: gs_quiesce_def)
  next
    case GC_Resume
    then show ?thesis using closed ph by (simp add: gs_resume_def)
  next
    case GC_Close
    then show ?thesis using closed by (simp add: gs_close_def)
  next
    case (GC_Worker_Started w)
    then show ?thesis using closed by (simp add: gs_note_worker_started_def)
  next
    case (GC_Worker_Joined w)
    then show ?thesis using closed by (auto simp: gs_note_worker_joined_def split: prod.split)
  qed (use closed in \<open>auto simp: gs_queue_def gs_start_def gs_create_operation_fst gs_ticket_cancel_fst gs_ticket_drop_def
      gs_ticket_request_cancel_def
      intro!: admin gs_admin_lease_calls gs_admin_reserve gs_admin_request_cancel gs_admin_start_attempt
      gs_admin_finish_attempt\<close>)
qed

lemma gs_closed_steps:
  "gs_step\<^sup>*\<^sup>* s t \<Longrightarrow> gs_inv s \<Longrightarrow> gs_canonical_close s = Some f \<Longrightarrow> gs_canonical_close t = Some f"
proof (induction rule: rtranclp_induct)
  case (step u v)
  then have "gs_inv u" by (auto intro: gs.steps_inv)
  with step gs_closed_exec show ?case by (auto elim!: gs_stepE)
qed simp

lemma gs_close_Ok_iff:
  assumes inv: "gs_inv s" and np: "\<not> gs_poisoned s"
  shows "(\<exists>f. snd (gs_close s) = Ok f) \<longleftrightarrow> gs_operations s = Map.empty \<and> outstanding (gs_workers s) = {}"
proof -
  have "finite (outstanding (gs_workers s))" using gs_invD(6) [OF inv] by (simp add: gs_drain_ok_def ledger_inv_def)
  then have zero: "outstanding_count (gs_workers s) = 0 \<longleftrightarrow> outstanding (gs_workers s) = {}"
    by (simp add: outstanding_count_def)
  have closed: "gs_canonical_close s = Some f \<Longrightarrow> gs_operations s = Map.empty \<and> outstanding (gs_workers s) = {}" for f
    using gs_invD(6) [OF inv] unfolding gs_drain_ok_def by blast
  show ?thesis
  proof (cases "gs_canonical_close s")
    case None
    with np zero show ?thesis by (auto simp: gs_close_def Let_def)
  next
    case (Some f)
    with np closed show ?thesis by (simp add: gs_close_def)
  qed
qed

text \<open>
  C34. Draining and closing. In every state a supervisor with an intact mutex can reach: \<open>close\<close>
  succeeds exactly if no operation and no worker is left; whatever is left can be finished, by
  finishing attempts, releasing or finishing operations and joining workers, so that \<open>close\<close>
  succeeds; and once it has succeeded, the supervisor is empty for ever, admits nothing, cannot be
  resumed, and every later \<open>close\<close> returns the facts of the first, with no operation, no task and
  exactly the joined workers expected.
\<close>

theorem gs_close_drains:
  assumes new: "gs_with_next_sequence owner cap n = Ok s0" "n \<le> U64_MAX" "gs_step\<^sup>*\<^sup>* s0 s" and np: "\<not> gs_poisoned s"
  shows "((\<exists>f. snd (gs_close s) = Ok f) \<longleftrightarrow> gs_operations s = Map.empty \<and> outstanding (gs_workers s) = {}) \<and>
    (\<exists>cs f. list_all drain_call cs \<and> snd (gs_close (fold gs_exec cs s)) = Ok f) \<and>
    (\<forall>t u f oid. gs_close s = (t, Ok f) \<longrightarrow> gs_step\<^sup>*\<^sup>* t u \<longrightarrow>
       cf_lifecycle f = Gen_Closed \<and> cf_active_operations f = 0 \<and> cf_retained_tasks f = 0 \<and>
       cf_expected_workers f = cf_joined_workers f \<and>
       gs_phase u = Gen_Closed \<and> gs_operations u = Map.empty \<and> outstanding (gs_workers u) = {} \<and>
       (\<not> gs_poisoned u \<longrightarrow> gs_close u = (u, Ok f) \<and> gs_resume u = (u, Err Supervisor_Closed) \<and>
          (\<not> blank oid \<longrightarrow> gs_reserve oid u = (u, Some (Err NotAccepting)))))"
proof -
  have inv: "gs_inv s" using new by (blast intro: gs.steps_inv gs_inv_new)
  obtain t1 where t1: "gs_drains_to s t1" "gs_operations t1 = Map.empty" "\<not> gs_poisoned t1"
    using gs_drain_operations [OF inv np] by blast
  obtain t2 where t2: "gs_drains_to t1 t2" "gs_operations t2 = Map.empty" "\<not> gs_poisoned t2" "outstanding (gs_workers t2) = {}"
    using gs_drain_workers [OF gs_drains_inv [OF t1(1) inv] t1(3,2)] by blast
  have d: "gs_drains_to s t2" by (rule gs_drains_trans [OF t1(1) t2(1)])
  have "\<exists>f. snd (gs_close t2) = Ok f" using gs_close_Ok_iff [OF gs_drains_inv [OF d inv] t2(3)] t2(2,4) by blast
  with d have drain: "\<exists>cs f. list_all drain_call cs \<and> snd (gs_close (fold gs_exec cs s)) = Ok f"
    unfolding gs_drains_to_def by blast
  have closed: "cf_lifecycle f = Gen_Closed \<and> cf_active_operations f = 0 \<and> cf_retained_tasks f = 0 \<and>
       cf_expected_workers f = cf_joined_workers f \<and>
       gs_phase u = Gen_Closed \<and> gs_operations u = Map.empty \<and> outstanding (gs_workers u) = {} \<and>
       (\<not> gs_poisoned u \<longrightarrow> gs_close u = (u, Ok f) \<and> gs_resume u = (u, Err Supervisor_Closed) \<and>
          (\<not> blank oid \<longrightarrow> gs_reserve oid u = (u, Some (Err NotAccepting))))"
    if close: "gs_close s = (t, Ok f)" and steps: "gs_step\<^sup>*\<^sup>* t u" for t u f oid
  proof -
    have "gs_exec GC_Close s = t" using close by simp
    then have invt: "gs_inv t" using gs_exec_inv [OF inv] by metis
    have "gs_canonical_close t = Some f" using close np by (auto simp: gs_close_def Let_def split: option.splits if_splits)
    then have u: "gs_canonical_close u = Some f" using gs_closed_steps [OF steps invt] by blast
    have invu: "gs_inv u" using steps invt by (rule gs.steps_inv)
    have facts: "gs_phase u = Gen_Closed" "gs_operations u = Map.empty" "outstanding (gs_workers u) = {}" "f = closed_facts u"
      using gs_invD(6) [OF invu] u by (auto simp: gs_drain_ok_def)
    then show ?thesis using u
      by (simp add: closed_facts_def outstanding_count_def expected_def gs_close_def gs_resume_def gs_reserve_def)
  qed
  show ?thesis using gs_close_Ok_iff [OF inv np] drain closed by blast
qed

section \<open>A run\<close>

text \<open>One operation is reserved, queued and started, is cancelled while it runs, is claimed as
  completed and released, and its id is reserved anew.\<close>

definition gs_demo_oid :: ustr where "gs_demo_oid = [97]"

definition gs_demo_new :: gs_state where
  "gs_demo_new = \<lparr>gs_owner = 7, gs_phase = Gen_Running, gs_next_sequence = 1, gs_operations = Map.empty,
     gs_workers = worker_ledger_new COMPLETED_WORKER_HISTORY, gs_canonical_close = None, gs_progress_capacity = 2,
     gs_slots = [], gs_poisoned = False\<rparr>"

definition gs_demo_lease :: gs_lease where
  "gs_demo_lease = \<lparr>gl_identity = gs_identity_of 7 gs_demo_oid 1, gl_released = 0\<rparr>"

definition gs_demo_op :: "operation_phase \<Rightarrow> cell \<Rightarrow> gs_operation" where
  "gs_demo_op ph c = \<lparr>go_released = 0, go_current = gs_identity_of 7 gs_demo_oid 1, go_phase = ph, go_control = c,
     go_terminal = None, go_progress = [], go_attempts = Map.empty\<rparr>"

definition gs_demo_state :: "operation_phase \<Rightarrow> cell \<Rightarrow> gs_state" where
  "gs_demo_state ph c = gs_demo_new\<lparr>gs_next_sequence := 2, gs_operations := [gs_demo_oid \<mapsto> gs_demo_op ph c],
     gs_slots := [None]\<rparr>"

definition gs_demo_snap :: gs_snapshot where
  "gs_demo_snap = \<lparr>gn_identity = gs_identity_of 7 gs_demo_oid 1, gn_phase = Released, gn_cancellation_requested = True,
     gn_authoritative_terminal = Some \<lparr>gt_identity = gs_identity_of 7 gs_demo_oid 1, gt_class = Cancelled\<rparr>,
     gn_final_projection = Some \<lparr>gt_identity = gs_identity_of 7 gs_demo_oid 1, gt_class = Cancelled\<rparr>,
     gn_progress_projection = []\<rparr>"

definition gs_demo_released :: gs_state where
  "gs_demo_released = gs_demo_new\<lparr>gs_next_sequence := 2, gs_slots := [Some gs_demo_snap]\<rparr>"

lemmas gs_demo_defs = gs_demo_new_def gs_demo_lease_def gs_demo_op_def gs_demo_state_def gs_demo_snap_def
  gs_demo_released_def gs_demo_oid_def

lemma gs_demo_new_Ok: "gs_with_next_sequence 7 2 1 = Ok gs_demo_new"
  by (simp add: gs_with_next_sequence_def gs_demo_new_def)

lemma gs_demo_reserve:
  "gs_reserve gs_demo_oid gs_demo_new =
    (gs_demo_state Reserved RUNNING, Some (Ok (\<lparr>gk_identity = gl_identity gs_demo_lease, gk_armed = True\<rparr>, gs_demo_lease)))"
  by (simp add: gs_reserve_def gs_demo_defs blank_def is_whitespace_def allocate_identity_def checked_add_def U64_MAX_def
      capacity_overflows_def run_control_new_def Let_def)

lemma gs_demo_current [simp]: "current_operation (gs_demo_state ph c) (gl_identity gs_demo_lease) = Ok (gs_demo_op ph c)"
  "\<not> gs_poisoned (gs_demo_state ph c)" "go_phase (gs_demo_op ph c) = ph" "go_attempts (gs_demo_op ph c) = Map.empty"
  "go_terminal (gs_demo_op ph c) = None" "go_control (gs_demo_op ph c) = c"
  by (simp_all add: current_operation_Ok gs_demo_defs)

lemma gs_demo_put: "gs_put (gs_demo_op ph c) (gs_demo_state ph' c') = gs_demo_state ph c"
  by (simp add: gs_put_def gs_demo_defs)

lemma gs_demo_moves:
  "gs_exec (GC_Queue gs_demo_lease) (gs_demo_state Reserved c) = gs_demo_state Queued c"
  "gs_exec (GC_Start gs_demo_lease) (gs_demo_state Queued c) = gs_demo_state Running c"
  "gs_request_cancel (gl_identity gs_demo_lease) (gs_demo_state Running RUNNING) = (gs_demo_state Running CANCEL_REQUESTED, Ok ())"
  "gs_exec (GC_Terminal_And_Release gs_demo_lease Completed) (gs_demo_state Running CANCEL_REQUESTED) = gs_demo_released"
proof -
  have up: "(gs_demo_op ph c)\<lparr>go_phase := ph'\<rparr> = gs_demo_op ph' c" for ph ph' by (simp add: gs_demo_op_def)
  show "gs_exec (GC_Queue gs_demo_lease) (gs_demo_state Reserved c) = gs_demo_state Queued c"
    "gs_exec (GC_Start gs_demo_lease) (gs_demo_state Queued c) = gs_demo_state Running c"
    by (simp_all add: gs_queue_def gs_start_def gs_transition_def gs_current_def up gs_demo_put)
  have "go_cancel (gs_demo_op Running RUNNING) = gs_demo_op Running CANCEL_REQUESTED"
    by (simp add: go_cancel_def gs_demo_op_def request_cancel_def compare_exchange_def)
  then show "gs_request_cancel (gl_identity gs_demo_lease) (gs_demo_state Running RUNNING) = (gs_demo_state Running CANCEL_REQUESTED, Ok ())"
    by (simp add: gs_request_cancel_def gs_current_def gs_demo_put)
  show "gs_exec (GC_Terminal_And_Release gs_demo_lease Completed) (gs_demo_state Running CANCEL_REQUESTED) = gs_demo_released"
    by (simp add: gs_terminal_and_release_def gs_current_panicky_def terminal_and_release_locked_def gs_settle_def
        claim_terminal_class_def claim_terminal_def claim_decide_def)
      (simp add: gs_remove_def once_set_def gs_demo_defs snapshot_for_def cancellation_requested_def)
qed

lemma gs_exec_steps: "gs_step\<^sup>*\<^sup>* s t \<Longrightarrow> gs_exec c t = u \<Longrightarrow> gs_step\<^sup>*\<^sup>* s u"
  using gs_step [of t c] by (auto intro: rtranclp.rtrancl_into_rtrancl)

lemma gs_demo_running: "gs_step\<^sup>*\<^sup>* (gs_demo_state Reserved RUNNING) (gs_demo_state Running RUNNING)"
  by (rule gs_exec_steps [OF gs_exec_steps [OF rtranclp.rtrancl_refl gs_demo_moves(1)] gs_demo_moves(2)])

lemma gs_demo_release: "gs_step\<^sup>*\<^sup>* (gs_demo_state Running CANCEL_REQUESTED) gs_demo_released"
  by (rule gs_exec_steps [OF rtranclp.rtrancl_refl gs_demo_moves(4)])

lemma gs_demo_run: "gs_step\<^sup>*\<^sup>* (gs_demo_state Reserved RUNNING) gs_demo_released"
  using gs_exec_steps [OF gs_demo_running, of "GC_Request_Cancel (gl_identity gs_demo_lease)"] gs_demo_moves(3) gs_demo_release
  by (simp add: rtranclp_trans)

theorem gs_released_is_final_witness:
  "gs_final (gl_identity gs_demo_lease) gs_demo_snap \<and>
   gs_exec (GC_Start gs_demo_lease) (gs_exec (GC_Reserve gs_demo_oid) gs_demo_released) =
     gs_exec (GC_Reserve gs_demo_oid) gs_demo_released \<and>
   gs_operations (gs_exec (GC_Reserve gs_demo_oid) gs_demo_released) gs_demo_oid \<noteq> None"
proof -
  let ?u = "gs_exec (GC_Reserve gs_demo_oid) gs_demo_released"
  have slot: "gs_slots gs_demo_released ! gl_released gs_demo_lease = Some gs_demo_snap"
    by (simp add: gs_demo_released_def gs_demo_lease_def)
  have step: "gs_step\<^sup>*\<^sup>* gs_demo_released ?u" by (rule r_into_rtranclp) (rule gs_step)
  have "(1::nat) \<le> U64_MAX" by (simp add: U64_MAX_def)
  from gs_released_is_final [OF gs_demo_new_Ok this rtranclp.rtrancl_refl gs_demo_reserve gs_demo_run] slot step
  have final: "gs_final (gl_identity gs_demo_lease) gs_demo_snap"
    and inert: "\<forall>c. gs_call_lease c = Some gs_demo_lease \<longrightarrow> gs_exec c ?u = ?u" by blast+
  have "gs_exec (GC_Start gs_demo_lease) ?u = ?u" using inert [THEN spec, of "GC_Start gs_demo_lease"] by simp
  moreover
  have "gs_operations ?u gs_demo_oid \<noteq> None"
    by (simp add: gs_reserve_def gs_demo_defs blank_def is_whitespace_def allocate_identity_def checked_add_def U64_MAX_def
        capacity_overflows_def Let_def)
  ultimately show ?thesis using final by blast
qed

theorem gs_cancellation_wins_witness:
  "gs_lease_snapshot gs_demo_lease gs_demo_released = Ok (Some gs_demo_snap) \<and> gn_cancellation_requested gs_demo_snap"
proof -
  have early: "gs_lease_snapshot gs_demo_lease (gs_demo_state Running RUNNING) = Ok (Some (snapshot_for (gs_demo_op Running RUNNING) Running))"
    by (simp add: gs_lease_snapshot_def)
  have none: "gn_authoritative_terminal (snapshot_for (gs_demo_op Running RUNNING) Running) = None"
    by (simp add: snapshot_for_def)
  have snap: "gs_lease_snapshot gs_demo_lease gs_demo_released = Ok (Some gs_demo_snap)"
    by (simp add: gs_lease_snapshot_def current_operation_def gs_demo_released_def gs_demo_lease_def gs_demo_new_def)
  have ids: "gs_active_attempts gs_demo_lease gs_demo_released = Ok []"
    by (simp add: gs_active_attempts_def gs_demo_released_def gs_demo_new_def)
  have "(1::nat) \<le> U64_MAX" by (simp add: U64_MAX_def)
  from gs_cancellation_wins [OF gs_demo_new_Ok this rtranclp.rtrancl_refl gs_demo_reserve gs_demo_running early none
      gs_demo_moves(3) gs_demo_release snap ids] snap
  show ?thesis by blast
qed

theorem gs_close_drains_witness:
  "\<exists>cs f. list_all drain_call cs \<and> snd (gs_close (fold gs_exec cs (gs_demo_state Running RUNNING))) = Ok f"
proof -
  have "gs_step gs_demo_new (gs_demo_state Reserved RUNNING)"
    using gs_step [of gs_demo_new "GC_Reserve gs_demo_oid"] gs_demo_reserve by simp
  then have steps: "gs_step\<^sup>*\<^sup>* gs_demo_new (gs_demo_state Running RUNNING)" using gs_demo_running by simp
  have "(1::nat) \<le> U64_MAX" by (simp add: U64_MAX_def)
  from gs_close_drains [OF gs_demo_new_Ok this steps] show ?thesis by simp
qed

end
