(* ===== verification/Resource_Ledger.thy ===== *)
theory Resource_Ledger
  imports Prelude
begin

text \<open>
  The contract of a resource ledger: a state changed by charges, an order on the recorded usage
  that no charge decreases, and limits that no charge leaves. A client that drives a ledger
  through any sequence of admissible charges relies on the three lemmas of the locale.
\<close>

locale resource_ledger =
  fixes charge :: "'c \<Rightarrow> 's \<Rightarrow> 's"
    and admissible :: "'s \<Rightarrow> 'c \<Rightarrow> bool"
    and within :: "'s \<Rightarrow> bool"
    and dominated :: "'s \<Rightarrow> 's \<Rightarrow> bool"
  assumes dominated_refl: "dominated s s"
    and dominated_trans: "dominated s t \<Longrightarrow> dominated t u \<Longrightarrow> dominated s u"
    and charge_within: "within s \<Longrightarrow> admissible s c \<Longrightarrow> within (charge c s)"
    and charge_dominated: "within s \<Longrightarrow> admissible s c \<Longrightarrow> dominated s (charge c s)"
begin

fun admissible_run :: "'s \<Rightarrow> 'c list \<Rightarrow> bool" where
  "admissible_run s [] = True"
| "admissible_run s (c # cs) = (admissible s c \<and> admissible_run (charge c s) cs)"

lemma run_within: "within s \<Longrightarrow> admissible_run s cs \<Longrightarrow> within (fold charge cs s)"
  by (induction cs arbitrary: s) (auto intro: charge_within)

lemma run_dominated: "within s \<Longrightarrow> admissible_run s cs \<Longrightarrow> dominated s (fold charge cs s)"
proof (induction cs arbitrary: s)
  case Nil
  then show ?case by (simp add: dominated_refl)
next
  case (Cons c cs)
  then have "dominated s (charge c s)" "dominated (charge c s) (fold charge cs (charge c s))"
    by (auto intro: charge_dominated charge_within)
  then show ?case by (auto intro: dominated_trans)
qed

lemma run_append:
  "admissible_run s (cs @ ds) \<longleftrightarrow> admissible_run s cs \<and> admissible_run (fold charge cs s) ds"
  by (induction cs arbitrary: s) auto

end

end
