(* ===== verification/Attachment_Budget.thy ===== *)
theory Attachment_Budget
  imports Resource_Ledger
begin

text \<open>
  The budget ledger of attachment inspection,
  \<open>crates/services/attachment/crates/attachment-native-inspect/src/budget.rs\<close>, with the limit and
  usage types and their checks from \<open>attachment-native-types/src/lib.rs\<close>.

  The elapsed time the deadline is compared with is read from the clock at each call, so every
  operation that checks the deadline takes it, in nanoseconds, as its first argument. Errors are the
  constructors of \<open>budget_error\<close>, one per code, with the numbers their messages show.
\<close>

section \<open>Limits and usage\<close>

record budget_limits =
  max_root_bytes :: nat
  max_object_bytes :: nat
  max_total_derived_bytes :: nat
  max_retained_bytes :: nat
  max_objects :: nat
  max_edges :: nat
  max_entries :: nat
  max_depth :: nat
  max_name_bytes :: nat
  max_parser_input_bytes :: nat
  max_container_metadata_bytes :: nat
  max_decoder_window_bytes :: nat
  max_declared_to_actual_ratio :: nat
  max_text_bytes :: nat
  max_media_objects :: nat
  max_media_bytes :: nat
  max_image_pixels :: nat
  max_transform_requests :: nat
  deadline_ms :: nat

record budget_usage =
  root_bytes :: nat
  total_derived_bytes :: nat
  retained_bytes :: nat
  objects :: nat
  edges :: nat
  entries :: nat
  deepest_object :: nat
  text_bytes :: nat
  media_objects :: nat
  media_bytes :: nat
  transform_requests :: nat

definition default_limits :: budget_limits where
  "default_limits =
     \<lparr>max_root_bytes = 256 * 1024 * 1024, max_object_bytes = 128 * 1024 * 1024,
      max_total_derived_bytes = 1024 * 1024 * 1024, max_retained_bytes = 512 * 1024 * 1024,
      max_objects = 4096, max_edges = 8192, max_entries = 8192, max_depth = 8, max_name_bytes = 4096,
      max_parser_input_bytes = 64 * 1024 * 1024, max_container_metadata_bytes = 64 * 1024 * 1024,
      max_decoder_window_bytes = 64 * 1024 * 1024, max_declared_to_actual_ratio = 200,
      max_text_bytes = 32 * 1024 * 1024, max_media_objects = 128, max_media_bytes = 256 * 1024 * 1024,
      max_image_pixels = 40000000, max_transform_requests = 256, deadline_ms = 30000\<rparr>"

definition default_usage :: budget_usage where
  "default_usage =
     \<lparr>root_bytes = 0, total_derived_bytes = 0, retained_bytes = 0, objects = 0, edges = 0, entries = 0,
      deepest_object = 0, text_bytes = 0, media_objects = 0, media_bytes = 0, transform_requests = 0\<rparr>"

datatype contract_error = InvalidBudget string | InvalidGraph string

definition limits_validate :: "budget_limits \<Rightarrow> (unit, contract_error) result" where
  "limits_validate l =
     (let positive = list_all (\<lambda>value. 0 < value)
            [max_root_bytes l, max_object_bytes l, max_total_derived_bytes l, max_retained_bytes l,
             max_text_bytes l, max_media_bytes l, max_image_pixels l, max_parser_input_bytes l,
             max_container_metadata_bytes l, max_decoder_window_bytes l, deadline_ms l]
      in if \<not> positive \<or> max_objects l = 0 \<or> max_edges l = 0 \<or> max_entries l = 0 \<or> max_name_bytes l = 0 \<or>
            max_declared_to_actual_ratio l = 0 \<or> max_media_objects l = 0 \<or> max_transform_requests l = 0
         then Err (InvalidBudget ''all attachment limits except max_depth must be greater than zero'')
         else if max_total_derived_bytes l < max_object_bytes l
         then Err (InvalidBudget ''max_object_bytes cannot exceed max_total_derived_bytes'')
         else if max_retained_bytes l < max_root_bytes l
         then Err (InvalidBudget ''max_root_bytes cannot exceed max_retained_bytes'')
         else Ok ())"

definition dominates :: "budget_usage \<Rightarrow> budget_usage \<Rightarrow> bool" where
  "dominates u earlier \<longleftrightarrow>
     root_bytes earlier \<le> root_bytes u \<and> total_derived_bytes earlier \<le> total_derived_bytes u \<and>
     retained_bytes earlier \<le> retained_bytes u \<and> objects earlier \<le> objects u \<and> edges earlier \<le> edges u \<and>
     entries earlier \<le> entries u \<and> deepest_object earlier \<le> deepest_object u \<and>
     text_bytes earlier \<le> text_bytes u \<and> media_objects earlier \<le> media_objects u \<and>
     media_bytes earlier \<le> media_bytes u \<and> transform_requests earlier \<le> transform_requests u"

definition validate_usage :: "budget_usage \<Rightarrow> budget_limits \<Rightarrow> (unit, contract_error) result" where
  "validate_usage u l =
     (if root_bytes u \<le> max_root_bytes l \<and> total_derived_bytes u \<le> max_total_derived_bytes l \<and>
         retained_bytes u \<le> max_retained_bytes l \<and> objects u \<le> max_objects l \<and> edges u \<le> max_edges l \<and>
         entries u \<le> max_entries l \<and> deepest_object u \<le> saturating_add U16_MAX (max_depth l) 1 \<and>
         text_bytes u \<le> max_text_bytes l \<and> media_objects u \<le> max_media_objects l \<and>
         media_bytes u \<le> max_media_bytes l \<and> transform_requests u \<le> max_transform_requests l
      then Ok ()
      else Err (InvalidGraph ''recorded usage exceeds the graph's declared limits''))"

section \<open>The ledger\<close>

record budget_ledger =
  bl_limits :: budget_limits
  bl_usage :: budget_usage

datatype budget_error =
    Deadline_Exceeded
  | Root_Bytes_Exceeded nat nat
  | Entry_Limit_Exceeded nat
  | Edge_Limit_Exceeded nat
  | Name_Limit_Exceeded nat nat
  | Object_Bytes_Exceeded nat nat
  | Compression_Ratio_Exceeded nat
  | Total_Derived_Bytes_Exceeded nat
  | Retained_Bytes_Exceeded nat
  | Object_Count_Exceeded nat
  | Integer_Overflow

type_synonym 'a ledger_result = "budget_ledger \<times> ('a, budget_error) result"

definition ledger_new :: "budget_limits \<Rightarrow> budget_ledger" where
  "ledger_new limits = \<lparr>bl_limits = limits, bl_usage = default_usage\<rparr>"

definition ledger_finish :: "budget_ledger \<Rightarrow> budget_usage" where
  "ledger_finish b = bl_usage b"

definition check_deadline :: "nat \<Rightarrow> budget_ledger \<Rightarrow> (unit, budget_error) result" where
  "check_deadline elapsed b =
     (if deadline_ms (bl_limits b) * 10 ^ 6 < elapsed then Err Deadline_Exceeded else Ok ())"

definition budget_checked_add :: "nat \<Rightarrow> nat \<Rightarrow> (nat, budget_error) result" where
  "budget_checked_add left right = ok_or Integer_Overflow (checked_add U64_MAX left right)"

definition next_retained_bytes :: "nat \<Rightarrow> budget_ledger \<Rightarrow> (nat, budget_error) result" where
  "next_retained_bytes bytes b =
     res_bind (budget_checked_add (retained_bytes (bl_usage b)) bytes) (\<lambda>nxt.
       if max_retained_bytes (bl_limits b) < nxt then Err (Retained_Bytes_Exceeded (max_retained_bytes (bl_limits b)))
       else Ok nxt)"

definition next_object_count :: "budget_ledger \<Rightarrow> (nat, budget_error) result" where
  "next_object_count b =
     res_bind (ok_or Integer_Overflow (checked_add U32_MAX (objects (bl_usage b)) 1)) (\<lambda>nxt.
       if max_objects (bl_limits b) < nxt then Err (Object_Count_Exceeded (max_objects (bl_limits b)))
       else Ok nxt)"

text \<open>An operation whose checks come before its writes: the usage changes only if all checks pass.\<close>

definition commit :: "('a \<Rightarrow> budget_usage \<Rightarrow> budget_usage) \<Rightarrow> budget_ledger \<Rightarrow> ('a, budget_error) result \<Rightarrow> unit ledger_result" where
  "commit f b r =
     (case r of Err e \<Rightarrow> (b, Err e) | Ok x \<Rightarrow> (b\<lparr>bl_usage := f x (bl_usage b)\<rparr>, Ok ()))"

definition charge_root :: "nat \<Rightarrow> nat \<Rightarrow> budget_ledger \<Rightarrow> unit ledger_result" where
  "charge_root elapsed bytes b =
     commit (\<lambda>(root, retained, objs) u. u\<lparr>root_bytes := root, retained_bytes := retained, objects := objs\<rparr>) b
       (res_bind (check_deadline elapsed b) (\<lambda>_.
        if max_root_bytes (bl_limits b) < bytes then Err (Root_Bytes_Exceeded bytes (max_root_bytes (bl_limits b)))
        else
          res_bind (budget_checked_add (root_bytes (bl_usage b)) bytes) (\<lambda>root.
          res_bind (next_retained_bytes bytes b) (\<lambda>retained.
          res_bind (next_object_count b) (\<lambda>objs. Ok (root, retained, objs))))))"

definition charge_entry :: "nat \<Rightarrow> budget_ledger \<Rightarrow> unit ledger_result" where
  "charge_entry elapsed b =
     commit (\<lambda>nxt u. u\<lparr>entries := nxt\<rparr>) b
       (res_bind (check_deadline elapsed b) (\<lambda>_.
        res_bind (ok_or Integer_Overflow (checked_add U32_MAX (entries (bl_usage b)) 1)) (\<lambda>nxt.
        if max_entries (bl_limits b) < nxt then Err (Entry_Limit_Exceeded (max_entries (bl_limits b))) else Ok nxt)))"

definition remaining_entries :: "budget_ledger \<Rightarrow> nat" where
  "remaining_entries b = saturating_sub (max_entries (bl_limits b)) (entries (bl_usage b))"

definition remaining_objects :: "budget_ledger \<Rightarrow> nat" where
  "remaining_objects b = saturating_sub (max_objects (bl_limits b)) (objects (bl_usage b))"

definition remaining_edges :: "budget_ledger \<Rightarrow> nat" where
  "remaining_edges b = saturating_sub (max_edges (bl_limits b)) (edges (bl_usage b))"

definition remaining_derived_bytes :: "budget_ledger \<Rightarrow> nat" where
  "remaining_derived_bytes b =
     saturating_sub (max_total_derived_bytes (bl_limits b)) (total_derived_bytes (bl_usage b))"

definition derived_budget_exhausted :: "budget_ledger \<Rightarrow> bool" where
  "derived_budget_exhausted b \<longleftrightarrow> remaining_derived_bytes b = 0"

definition charge_edge :: "nat \<Rightarrow> nat \<Rightarrow> budget_ledger \<Rightarrow> unit ledger_result" where
  "charge_edge elapsed depth b =
     commit (\<lambda>nxt u. u\<lparr>edges := nxt, deepest_object := max (deepest_object u) depth\<rparr>) b
       (res_bind (check_deadline elapsed b) (\<lambda>_.
        res_bind (ok_or Integer_Overflow (checked_add U32_MAX (edges (bl_usage b)) 1)) (\<lambda>nxt.
        if max_edges (bl_limits b) < nxt then Err (Edge_Limit_Exceeded (max_edges (bl_limits b))) else Ok nxt)))"

definition depth_allows_derivation :: "nat \<Rightarrow> budget_ledger \<Rightarrow> bool" where
  "depth_allows_derivation child_depth b \<longleftrightarrow> child_depth \<le> max_depth (bl_limits b)"

definition check_name_len :: "nat \<Rightarrow> budget_ledger \<Rightarrow> (unit, budget_error) result" where
  "check_name_len bytes b =
     res_bind (ok_or Integer_Overflow (try_from U32_MAX bytes)) (\<lambda>bytes.
       if max_name_bytes (bl_limits b) < bytes then Err (Name_Limit_Exceeded bytes (max_name_bytes (bl_limits b)))
       else Ok ())"

definition check_declared_member :: "nat \<Rightarrow> nat option \<Rightarrow> budget_ledger \<Rightarrow> (unit, budget_error) result" where
  "check_declared_member declared compressed b =
     (let l = bl_limits b in
      if max_object_bytes l < declared then Err (Object_Bytes_Exceeded declared (max_object_bytes l))
      else
        (case compressed of
           None \<Rightarrow> Ok ()
         | Some compressed \<Rightarrow>
             if 0 < declared then
               let base = max compressed 1 in
               res_bind (ok_or Integer_Overflow (checked_mul U64_MAX base (max_declared_to_actual_ratio l))) (\<lambda>allowed.
                 if allowed < declared then Err (Compression_Ratio_Exceeded (max_declared_to_actual_ratio l))
                 else Ok ())
             else Ok ()))"

definition max_stream_output :: "nat option \<Rightarrow> budget_ledger \<Rightarrow> nat" where
  "max_stream_output compressed b =
     (let l = bl_limits b;
          ratio_bound = Option.bind compressed (\<lambda>bytes.
            checked_mul U64_MAX (max bytes 1) (max_declared_to_actual_ratio l));
          remaining = saturating_sub (max_total_derived_bytes l) (total_derived_bytes (bl_usage b))
      in min (min (max_object_bytes l) remaining) (case ratio_bound of None \<Rightarrow> U64_MAX | Some n \<Rightarrow> n))"

text \<open>This charge writes on its failing path too: the caller already has the decoded bytes.\<close>

definition charge_derived_chunk :: "nat \<Rightarrow> nat \<Rightarrow> budget_ledger \<Rightarrow> unit ledger_result" where
  "charge_derived_chunk elapsed bytes b =
     (case check_deadline elapsed b of
        Err e \<Rightarrow> (b, Err e)
      | Ok _ \<Rightarrow>
        (case ok_or Integer_Overflow (try_from U64_MAX bytes) of
           Err e \<Rightarrow> (b, Err e)
         | Ok bytes \<Rightarrow>
           (case budget_checked_add (total_derived_bytes (bl_usage b)) bytes of
              Err e \<Rightarrow> (b, Err e)
            | Ok nxt \<Rightarrow>
                let limit = max_total_derived_bytes (bl_limits b) in
                if limit < nxt
                then (b\<lparr>bl_usage := (bl_usage b)\<lparr>total_derived_bytes := limit\<rparr>\<rparr>,
                      Err (Total_Derived_Bytes_Exceeded limit))
                else (b\<lparr>bl_usage := (bl_usage b)\<lparr>total_derived_bytes := nxt\<rparr>\<rparr>, Ok ()))))"

definition charge_rejected_stream_attempt :: "nat \<Rightarrow> budget_ledger \<Rightarrow> budget_ledger" where
  "charge_rejected_stream_attempt attempted b =
     (let charge = min attempted (remaining_derived_bytes b)
      in b\<lparr>bl_usage := (bl_usage b)\<lparr>total_derived_bytes :=
            saturating_add U64_MAX (total_derived_bytes (bl_usage b)) charge\<rparr>\<rparr>)"

definition charge_unique_object :: "nat \<Rightarrow> nat \<Rightarrow> nat \<Rightarrow> budget_ledger \<Rightarrow> unit ledger_result" where
  "charge_unique_object elapsed bytes depth b =
     commit (\<lambda>(retained, objs) u. u\<lparr>retained_bytes := retained, objects := objs,
                                     deepest_object := max (deepest_object u) depth\<rparr>) b
       (res_bind (check_deadline elapsed b) (\<lambda>_.
        res_bind (next_retained_bytes bytes b) (\<lambda>retained.
        res_bind (next_object_count b) (\<lambda>objs. Ok (retained, objs)))))"

section \<open>Runs\<close>

datatype ledger_call =
    LC_Root nat nat
  | LC_Entry nat
  | LC_Edge nat nat
  | LC_Chunk nat nat
  | LC_Rejected_Attempt nat
  | LC_Object nat nat nat

fun ledger_exec :: "ledger_call \<Rightarrow> budget_ledger \<Rightarrow> budget_ledger" where
  "ledger_exec (LC_Root t n) b = fst (charge_root t n b)"
| "ledger_exec (LC_Entry t) b = fst (charge_entry t b)"
| "ledger_exec (LC_Edge t d) b = fst (charge_edge t d b)"
| "ledger_exec (LC_Chunk t n) b = fst (charge_derived_chunk t n b)"
| "ledger_exec (LC_Rejected_Attempt n) b = charge_rejected_stream_attempt n b"
| "ledger_exec (LC_Object t n d) b = fst (charge_unique_object t n d b)"

text \<open>How the inspector drives its ledger: one root per job, and an edge or object at most one level
  below the deepest derivation the limits allow.\<close>

fun call_ok :: "budget_ledger \<Rightarrow> ledger_call \<Rightarrow> bool" where
  "call_ok b (LC_Root t n) \<longleftrightarrow> root_bytes (bl_usage b) = 0"
| "call_ok b (LC_Edge t d) \<longleftrightarrow> d \<le> saturating_add U16_MAX (max_depth (bl_limits b)) 1"
| "call_ok b (LC_Object t n d) \<longleftrightarrow> d \<le> saturating_add U16_MAX (max_depth (bl_limits b)) 1"
| "call_ok b _ \<longleftrightarrow> True"

text \<open>The derived limit is a 64-bit value.\<close>

definition ledger_within :: "budget_ledger \<Rightarrow> bool" where
  "ledger_within b \<longleftrightarrow> max_total_derived_bytes (bl_limits b) \<le> U64_MAX \<and> validate_usage (bl_usage b) (bl_limits b) = Ok ()"

definition ledger_le :: "budget_ledger \<Rightarrow> budget_ledger \<Rightarrow> bool" where
  "ledger_le b b' \<longleftrightarrow> bl_limits b' = bl_limits b \<and> dominates (bl_usage b') (bl_usage b)"

lemma validate_usage_Ok [result_simps]:
  "validate_usage u l = Ok x \<longleftrightarrow>
     root_bytes u \<le> max_root_bytes l \<and> total_derived_bytes u \<le> max_total_derived_bytes l \<and>
     retained_bytes u \<le> max_retained_bytes l \<and> objects u \<le> max_objects l \<and> edges u \<le> max_edges l \<and>
     entries u \<le> max_entries l \<and> deepest_object u \<le> saturating_add U16_MAX (max_depth l) 1 \<and>
     text_bytes u \<le> max_text_bytes l \<and> media_objects u \<le> max_media_objects l \<and>
     media_bytes u \<le> max_media_bytes l \<and> transform_requests u \<le> max_transform_requests l"
  by (simp add: validate_usage_def)

lemma commit_cases:
  obtains e where "r = Err e" "commit f b r = (b, Err e)"
  | x where "r = Ok x" "commit f b r = (b\<lparr>bl_usage := f x (bl_usage b)\<rparr>, Ok ())"
  by (cases r) (auto simp: commit_def)

lemma next_retained_Ok [result_simps]:
  "next_retained_bytes n b = Ok x \<longleftrightarrow>
     x = retained_bytes (bl_usage b) + n \<and> x \<le> U64_MAX \<and> x \<le> max_retained_bytes (bl_limits b)"
  by (auto simp: next_retained_bytes_def budget_checked_add_def result_simps split: if_splits)

lemma next_object_Ok [result_simps]:
  "next_object_count b = Ok x \<longleftrightarrow>
     x = objects (bl_usage b) + 1 \<and> x \<le> U32_MAX \<and> x \<le> max_objects (bl_limits b)"
  by (auto simp: next_object_count_def result_simps split: if_splits)

lemma check_deadline_Ok [result_simps]:
  "check_deadline t b = Ok u \<longleftrightarrow> t \<le> deadline_ms (bl_limits b) * 10 ^ 6"
  by (auto simp: check_deadline_def)

definition ledger_good :: "budget_ledger \<Rightarrow> budget_ledger \<Rightarrow> bool" where
  "ledger_good b b' \<longleftrightarrow> ledger_le b b' \<and> ledger_within b'"

lemma ledger_good_refl: "ledger_within b \<Longrightarrow> ledger_good b b"
  by (simp add: ledger_good_def ledger_le_def dominates_def)

lemma commit_good:
  assumes "ledger_within b"
    and "\<And>x. r = Ok x \<Longrightarrow> ledger_good b (b\<lparr>bl_usage := f x (bl_usage b)\<rparr>)"
  shows "ledger_good b (fst (commit f b r))"
  using assms by (cases r) (simp_all add: commit_def ledger_good_refl)

lemma charge_root_good:
  assumes "ledger_within b" and "root_bytes (bl_usage b) = 0"
  shows "ledger_good b (fst (charge_root t n b))"
  unfolding charge_root_def
  by (rule commit_good [OF assms(1)])
     (use assms in \<open>auto simp: result_simps budget_checked_add_def ledger_good_def ledger_le_def
        ledger_within_def dominates_def split: if_splits\<close>)

lemma charge_entry_good: "ledger_within b \<Longrightarrow> ledger_good b (fst (charge_entry t b))"
  unfolding charge_entry_def
  by (rule commit_good)
     (auto simp: result_simps ledger_good_def ledger_le_def ledger_within_def dominates_def split: if_splits)

lemma charge_edge_good:
  assumes "ledger_within b" and "d \<le> saturating_add U16_MAX (max_depth (bl_limits b)) 1"
  shows "ledger_good b (fst (charge_edge t d b))"
  unfolding charge_edge_def
  by (rule commit_good [OF assms(1)])
     (use assms in \<open>auto simp: result_simps ledger_good_def ledger_le_def ledger_within_def dominates_def
        split: if_splits\<close>)

lemma charge_unique_object_good:
  assumes "ledger_within b" and "d \<le> saturating_add U16_MAX (max_depth (bl_limits b)) 1"
  shows "ledger_good b (fst (charge_unique_object t n d b))"
  unfolding charge_unique_object_def
  by (rule commit_good [OF assms(1)])
     (use assms in \<open>auto simp: result_simps ledger_good_def ledger_le_def ledger_within_def dominates_def
        split: if_splits\<close>)

lemma charge_derived_chunk_good:
  assumes "ledger_within b"
  shows "ledger_good b (fst (charge_derived_chunk t n b))"
  using assms
  by (auto simp: charge_derived_chunk_def budget_checked_add_def result_simps Let_def ledger_good_def ledger_le_def
      ledger_within_def dominates_def split: result.split)

lemma charge_rejected_good:
  assumes "ledger_within b"
  shows "ledger_good b (charge_rejected_stream_attempt n b)"
  using assms
  by (auto simp: charge_rejected_stream_attempt_def remaining_derived_bytes_def saturating_sub_def saturating_add_def
      result_simps Let_def ledger_good_def ledger_le_def ledger_within_def dominates_def)

lemma ledger_exec_good: "ledger_within b \<Longrightarrow> call_ok b c \<Longrightarrow> ledger_good b (ledger_exec c b)"
  by (cases c) (simp_all add: charge_root_good charge_entry_good charge_edge_good charge_unique_object_good
      charge_derived_chunk_good charge_rejected_good)

interpretation ledger: resource_ledger ledger_exec call_ok ledger_within ledger_le
proof
  show "ledger_le s s" for s by (simp add: ledger_le_def dominates_def)
  show "ledger_le s u" if "ledger_le s t" "ledger_le t u" for s t u
    using that by (auto simp: ledger_le_def dominates_def)
  show "ledger_within (ledger_exec c s)" "ledger_le s (ledger_exec c s)" if "ledger_within s" "call_ok s c" for s c
    using ledger_exec_good [OF that] by (simp_all add: ledger_good_def)
qed

section \<open>Guarantees\<close>

lemma ledger_new_within: "max_total_derived_bytes limits \<le> U64_MAX \<Longrightarrow> ledger_within (ledger_new limits)"
  by (simp add: ledger_within_def ledger_new_def default_usage_def result_simps)

text \<open>
  C11. Whatever an inspection charges, in any order and however many of the charges fail, the usage
  it reports at the end passes the check the attachment graph makes of it against the same limits,
  and every later usage dominates every earlier one.
\<close>

theorem budget_usage_validates:
  assumes "max_total_derived_bytes limits \<le> U64_MAX" and "ledger.admissible_run (ledger_new limits) (cs @ ds)"
  shows "validate_usage (ledger_finish (fold ledger_exec (cs @ ds) (ledger_new limits))) limits = Ok () \<and>
    dominates (bl_usage (fold ledger_exec (cs @ ds) (ledger_new limits)))
      (bl_usage (fold ledger_exec cs (ledger_new limits)))"
proof -
  let ?b = "fold ledger_exec cs (ledger_new limits)"
  have new: "ledger_within (ledger_new limits)" by (rule ledger_new_within [OF assms(1)])
  have run: "ledger.admissible_run (ledger_new limits) cs" "ledger.admissible_run ?b ds"
    using assms(2) by (simp_all add: ledger.run_append)
  have mid: "ledger_within ?b" by (rule ledger.run_within [OF new run(1)])
  have "bl_limits ?b = limits"
    using ledger.run_dominated [OF new run(1)] by (simp add: ledger_le_def ledger_new_def)
  with ledger.run_within [OF mid run(2)] ledger.run_dominated [OF mid run(2)] show ?thesis
    by (simp add: ledger_within_def ledger_le_def ledger_finish_def)
qed

definition demo_charges :: "ledger_call list" where
  "demo_charges = [LC_Root 5 7, LC_Entry 6, LC_Edge 7 1, LC_Chunk 8 (2 * 10 ^ 9), LC_Object 9 100 1]"

lemmas demo_charge_defs = demo_charges_def default_limits_def default_usage_def ledger_new_def charge_root_def
  charge_entry_def charge_edge_def charge_derived_chunk_def charge_unique_object_def commit_def check_deadline_def
  budget_checked_add_def next_retained_bytes_def next_object_count_def checked_add_def try_from_def saturating_add_def
  U64_MAX_def U32_MAX_def U16_MAX_def Let_def

theorem budget_usage_validates_witness:
  "validate_usage (ledger_finish (fold ledger_exec demo_charges (ledger_new default_limits))) default_limits = Ok () \<and>
   total_derived_bytes (bl_usage (fold ledger_exec demo_charges (ledger_new default_limits))) = 1024 * 1024 * 1024"
proof -
  have "max_total_derived_bytes default_limits \<le> U64_MAX" by (simp add: default_limits_def U64_MAX_def)
  moreover have "ledger.admissible_run (ledger_new default_limits) (demo_charges @ [])"
    by (simp add: demo_charge_defs)
  ultimately have "validate_usage (ledger_finish (fold ledger_exec demo_charges (ledger_new default_limits))) default_limits = Ok ()"
    using budget_usage_validates [of default_limits demo_charges "[]"] by simp
  moreover have "total_derived_bytes (bl_usage (fold ledger_exec demo_charges (ledger_new default_limits))) = 1024 * 1024 * 1024"
    by (simp add: demo_charge_defs)
  ultimately show ?thesis by blast
qed

text \<open>
  The output bound given to a decoder is exactly what the ledger will accept: output within the
  bound respects the object limit, the declared expansion ratio and the cumulative limit, and its
  charge succeeds before the deadline; output beyond the cumulative limit is refused, and the
  refusal exhausts the budget, so that no decoder can cross the limit twice for free.
\<close>

theorem stream_output_is_accepted:
  assumes "ledger_within b" and "elapsed \<le> deadline_ms (bl_limits b) * 10 ^ 6"
  shows "(n \<le> max_stream_output compressed b \<longrightarrow>
      n \<le> max_object_bytes (bl_limits b) \<and> n \<le> remaining_derived_bytes b \<and>
      (\<forall>c. compressed = Some c \<longrightarrow> max c 1 * max_declared_to_actual_ratio (bl_limits b) \<le> U64_MAX \<longrightarrow>
         n \<le> max c 1 * max_declared_to_actual_ratio (bl_limits b)) \<and>
      charge_derived_chunk elapsed n b =
        (b\<lparr>bl_usage := (bl_usage b)\<lparr>total_derived_bytes := total_derived_bytes (bl_usage b) + n\<rparr>\<rparr>, Ok ())) \<and>
    (remaining_derived_bytes b < n \<longrightarrow> total_derived_bytes (bl_usage b) + n \<le> U64_MAX \<longrightarrow>
      derived_budget_exhausted (fst (charge_derived_chunk elapsed n b)) \<and>
      snd (charge_derived_chunk elapsed n b) = Err (Total_Derived_Bytes_Exceeded (max_total_derived_bytes (bl_limits b))))"
proof (intro conjI impI)
  have w: "total_derived_bytes (bl_usage b) \<le> max_total_derived_bytes (bl_limits b)"
    "max_total_derived_bytes (bl_limits b) \<le> U64_MAX"
    using assms(1) by (simp_all add: ledger_within_def result_simps)
  have dl: "check_deadline elapsed b = Ok ()" using assms(2) by (simp add: check_deadline_def)
  assume n: "n \<le> max_stream_output compressed b"
  show "n \<le> max_object_bytes (bl_limits b)" using n by (simp add: max_stream_output_def Let_def)
  show rest: "n \<le> remaining_derived_bytes b" using n by (simp add: max_stream_output_def remaining_derived_bytes_def Let_def)
  show "\<forall>c. compressed = Some c \<longrightarrow> max c 1 * max_declared_to_actual_ratio (bl_limits b) \<le> U64_MAX \<longrightarrow>
      n \<le> max c 1 * max_declared_to_actual_ratio (bl_limits b)"
    using n by (auto simp: max_stream_output_def Let_def checked_mul_def)
  have "total_derived_bytes (bl_usage b) + n \<le> max_total_derived_bytes (bl_limits b)"
    using rest w by (simp add: remaining_derived_bytes_def saturating_sub_def)
  with w show "charge_derived_chunk elapsed n b =
      (b\<lparr>bl_usage := (bl_usage b)\<lparr>total_derived_bytes := total_derived_bytes (bl_usage b) + n\<rparr>\<rparr>, Ok ())"
    by (simp add: charge_derived_chunk_def dl budget_checked_add_def checked_add_def try_from_def Let_def)
next
  assume n: "remaining_derived_bytes b < n" "total_derived_bytes (bl_usage b) + n \<le> U64_MAX"
  have dl: "check_deadline elapsed b = Ok ()" using assms(2) by (simp add: check_deadline_def)
  have over: "max_total_derived_bytes (bl_limits b) < total_derived_bytes (bl_usage b) + n"
    using n(1) by (simp add: remaining_derived_bytes_def saturating_sub_def)
  show "derived_budget_exhausted (fst (charge_derived_chunk elapsed n b))"
    using n(2) over by (simp add: charge_derived_chunk_def dl budget_checked_add_def checked_add_def try_from_def
        Let_def derived_budget_exhausted_def remaining_derived_bytes_def saturating_sub_def)
  show "snd (charge_derived_chunk elapsed n b) = Err (Total_Derived_Bytes_Exceeded (max_total_derived_bytes (bl_limits b)))"
    using n(2) over by (simp add: charge_derived_chunk_def dl budget_checked_add_def checked_add_def try_from_def Let_def)
qed

theorem stream_output_is_accepted_witness:
  "snd (charge_derived_chunk 5 1000 (ledger_new default_limits)) = Ok () \<and>
   max_stream_output (Some 10) (ledger_new default_limits) = 2000"
proof -
  have "ledger_within (ledger_new default_limits)"
    by (rule ledger_new_within) (simp add: default_limits_def U64_MAX_def)
  moreover have "5 \<le> deadline_ms (bl_limits (ledger_new default_limits)) * 10 ^ 6"
    by (simp add: ledger_new_def default_limits_def)
  moreover have bound: "max_stream_output (Some 10) (ledger_new default_limits) = 2000"
    by (simp add: max_stream_output_def ledger_new_def default_limits_def default_usage_def checked_mul_def
        saturating_sub_def U64_MAX_def Let_def)
  ultimately show ?thesis using stream_output_is_accepted [of "ledger_new default_limits" 5 1000 "Some 10"] by simp
qed

end
