(* ===== verification/Archive_Path.thy ===== *)
theory Archive_Path
  imports Unicode_Text
begin

text \<open>
  The naming policy for archive members,
  \<open>crates/services/attachment/crates/attachment-native-inspect/src/path.rs\<close>.

  Strings and their decoding are those of \<open>Unicode_Text\<close>; a raw name is a list of bytes. The hex encoder is a
  library's: an argument.
\<close>

section \<open>String operations\<close>

fun split_on :: "nat \<Rightarrow> codepoints \<Rightarrow> codepoints list" where
  "split_on d [] = [[]]"
| "split_on d (x # xs) =
     (if x = d then [] # split_on d xs
      else (case split_on d xs of [] \<Rightarrow> [[x]] | c # cs \<Rightarrow> (x # c) # cs))"

fun join_with :: "nat \<Rightarrow> codepoints list \<Rightarrow> codepoints" where
  "join_with d [] = []"
| "join_with d [c] = c"
| "join_with d (c # cs) = c @ d # join_with d cs"

definition is_ascii_alphabetic :: "nat \<Rightarrow> bool" where
  "is_ascii_alphabetic b \<longleftrightarrow> 65 \<le> b \<and> b \<le> 90 \<or> 97 \<le> b \<and> b \<le> 122"

definition to_ascii_lowercase :: "nat \<Rightarrow> nat" where
  "to_ascii_lowercase b = (if 65 \<le> b \<and> b \<le> 90 then b + 32 else b)"

definition eq_ignore_ascii_case :: "bytes \<Rightarrow> bytes \<Rightarrow> bool" where
  "eq_ignore_ascii_case a b \<longleftrightarrow> map to_ascii_lowercase a = map to_ascii_lowercase b"

definition trim_end_matches :: "nat set \<Rightarrow> codepoints \<Rightarrow> codepoints" where
  "trim_end_matches cs t = rev (dropWhile (\<lambda>p. p \<in> cs) (rev t))"

section \<open>The policy\<close>

datatype archive_path_policy = RejectEntry | SanitizeAndScan

record logical_name =
  ln_display :: codepoints
  ln_raw_name_hex :: "codepoints option"
  ln_sanitized :: bool

record name_decision =
  nd_logical :: logical_name
  nd_accepted :: bool
  nd_reason :: "string option"

datatype name_error = Archive_Name_Limit_Exceeded

definition is_windows_device_name :: "codepoints \<Rightarrow> bool" where
  "is_windows_device_name component =
     (let stem = trim_end_matches {32, 46} (hd (split_on 46 component));
          bs = as_bytes stem
      in list_ex (\<lambda>name. eq_ignore_ascii_case bs (ascii name)) [''CON'', ''PRN'', ''AUX'', ''NUL''] \<or>
         length bs = 4 \<and> 49 \<le> bs ! 3 \<and> bs ! 3 \<le> 57 \<and>
         (eq_ignore_ascii_case (take 3 bs) (ascii ''COM'') \<or> eq_ignore_ascii_case (take 3 bs) (ascii ''LPT'')))"

definition sanitize_display_component :: "codepoints \<Rightarrow> codepoints" where
  "sanitize_display_component component = map (\<lambda>p. if is_control p then 65533 else p) component"

definition rejected_or_sanitized ::
  "(bytes \<Rightarrow> codepoints) \<Rightarrow> bytes \<Rightarrow> nat \<Rightarrow> archive_path_policy \<Rightarrow> string \<Rightarrow> name_decision" where
  "rejected_or_sanitized hex raw entry_index policy reason =
     \<lparr>nd_logical = \<lparr>ln_display = ascii (''unsafe-member-'' @ show_nat entry_index),
                    ln_raw_name_hex = Some (hex raw), ln_sanitized = True\<rparr>,
      nd_accepted = (policy = SanitizeAndScan), nd_reason = Some reason\<rparr>"

definition path_is_absolute :: "codepoints \<Rightarrow> bool" where
  "path_is_absolute portable =
     (take 1 portable = [47] \<or> take 2 portable = [47, 47] \<or>
      (let bs = as_bytes portable in
       1 < length bs \<and> bs ! 1 = 58 \<and> (0 < length bs \<and> is_ascii_alphabetic (bs ! 0))))"

definition logical_member_name ::
  "(bytes \<Rightarrow> codepoints) \<Rightarrow> bytes \<Rightarrow> nat \<Rightarrow> nat \<Rightarrow> archive_path_policy \<Rightarrow> (name_decision, name_error) result" where
  "logical_member_name hex raw entry_index max_bytes policy =
     (case try_from U32_MAX (length raw) of
        None \<Rightarrow> Err Archive_Name_Limit_Exceeded
      | Some raw_len \<Rightarrow>
          if max_bytes < raw_len then Ok (rejected_or_sanitized hex raw entry_index policy ''name_too_long'')
          else
            let decoded = fst (from_utf8_lossy raw);
                owned = snd (from_utf8_lossy raw);
                portable = map (\<lambda>p. if p = 92 then 47 else p) decoded;
                absolute = path_is_absolute portable;
                has_nul = (0 \<in> set raw);
                has_parent = list_ex (\<lambda>component. component = [46, 46]) (split_on 47 portable);
                has_control = list_ex is_control decoded;
                has_windows_device = list_ex is_windows_device_name (filter (\<lambda>c. c \<noteq> []) (split_on 47 portable))
            in
              if absolute \<or> has_nul \<or> has_parent \<or> has_windows_device then
                Ok (rejected_or_sanitized hex raw entry_index policy
                  (if absolute then ''absolute_path''
                   else if has_nul then ''nul_in_name''
                   else if has_parent then ''parent_traversal''
                   else ''windows_device_name''))
              else
                let components = map sanitize_display_component
                      (filter (\<lambda>c. c \<noteq> [] \<and> c \<noteq> [46]) (split_on 47 portable))
                in
                  if components = [] then Ok (rejected_or_sanitized hex raw entry_index policy ''empty_name'')
                  else
                    let sanitized = has_control \<or> \<not> list_all (\<lambda>p. p < 128) decoded \<and> owned in
                    Ok \<lparr>nd_logical = \<lparr>ln_display = join_with 47 components,
                                      ln_raw_name_hex = (if sanitized then Some (hex raw) else None),
                                      ln_sanitized = sanitized\<rparr>,
                        nd_accepted = True,
                        nd_reason = (if sanitized then Some ''display_name_sanitized'' else None)\<rparr>)"

section \<open>Splitting and joining\<close>

lemma split_on_nonempty: "split_on d t \<noteq> []"
  by (induction t) (auto split: list.split)

lemma split_on_single: "d \<notin> set t \<Longrightarrow> split_on d t = [t]"
  by (induction t) auto

lemma split_on_append: "d \<notin> set c \<Longrightarrow> split_on d (c @ d # t) = c # split_on d t"
  by (induction c) auto

lemma split_on_join:
  "cs \<noteq> [] \<Longrightarrow> (\<And>c. c \<in> set cs \<Longrightarrow> d \<notin> set c) \<Longrightarrow> split_on d (join_with d cs) = cs"
  by (induction d cs rule: join_with.induct) (simp_all add: split_on_single split_on_append)

lemma trim_end_none: "(\<And>p. p \<in> set t \<Longrightarrow> p \<notin> A) \<Longrightarrow> trim_end_matches A t = t"
  by (cases t rule: rev_cases) (auto simp: trim_end_matches_def)

section \<open>What a name is\<close>

text \<open>
  The reading of a member name that the policy is judged by, stated without its string operations. Both separators
  divide a name, and empty and dot components say nothing. A device name is a reserved word in either case, then
  spaces, then nothing or anything after a dot. A rooted name starts with a separator or a drive.
\<close>

definition separator :: "nat \<Rightarrow> bool" where
  "separator p \<longleftrightarrow> p = 47 \<or> p = 92"

definition path_components :: "codepoints \<Rightarrow> codepoints list" where
  "path_components t = filter (\<lambda>c. c \<noteq> [46]) (maximal_runs (\<lambda>p. \<not> separator p) t)"

definition reserved_words :: "string list" where
  "reserved_words = [''CON'', ''PRN'', ''AUX'', ''NUL'',
     ''COM1'', ''COM2'', ''COM3'', ''COM4'', ''COM5'', ''COM6'', ''COM7'', ''COM8'', ''COM9'',
     ''LPT1'', ''LPT2'', ''LPT3'', ''LPT4'', ''LPT5'', ''LPT6'', ''LPT7'', ''LPT8'', ''LPT9'']"

definition same_letter :: "nat \<Rightarrow> nat \<Rightarrow> bool" where
  "same_letter p q \<longleftrightarrow> p = q \<or> 65 \<le> q \<and> q \<le> 90 \<and> p = q + 32"

definition device_name :: "codepoints \<Rightarrow> bool" where
  "device_name c \<longleftrightarrow>
     (\<exists>word \<in> set reserved_words. \<exists>stem k rest. c = stem @ replicate k 32 @ rest \<and> (rest = [] \<or> hd rest = 46) \<and>
        list_all2 same_letter stem (ascii word))"

definition drive_prefix :: "codepoints \<Rightarrow> bool" where
  "drive_prefix t \<longleftrightarrow> (\<exists>l rest. t = l # 58 # rest \<and> (65 \<le> l \<and> l \<le> 90 \<or> 97 \<le> l \<and> l \<le> 122))"

definition absolute_name :: "codepoints \<Rightarrow> bool" where
  "absolute_name t \<longleftrightarrow> (\<exists>p rest. t = p # rest \<and> separator p) \<or> drive_prefix t"

definition refusal :: "nat \<Rightarrow> bytes \<Rightarrow> codepoints \<Rightarrow> string option" where
  "refusal max_bytes raw t =
     (if max_bytes < length raw then Some ''name_too_long''
      else if absolute_name t then Some ''absolute_path''
      else if 0 \<in> set raw then Some ''nul_in_name''
      else if [46, 46] \<in> set (path_components t) then Some ''parent_traversal''
      else if \<exists>c \<in> set (path_components t). device_name c then Some ''windows_device_name''
      else if path_components t = [] then Some ''empty_name''
      else None)"

definition shown :: "nat \<Rightarrow> nat" where
  "shown p = (if p < 32 \<or> 127 \<le> p \<and> p < 160 then 0xFFFD else p)"

text \<open>A path component that names a plain file or directory on every platform, a drive prefix apart.\<close>

definition safe_component :: "codepoints \<Rightarrow> bool" where
  "safe_component c \<longleftrightarrow> c \<noteq> [] \<and> c \<noteq> [46] \<and> c \<noteq> [46, 46] \<and> 47 \<notin> set c \<and> 92 \<notin> set c \<and>
     (\<forall>p \<in> set c. shown p = p) \<and> \<not> device_name c"

section \<open>The code's tests say this\<close>

lemma split_on_runs: "filter (\<lambda>c. c \<noteq> []) (split_on d t) = maximal_runs (\<lambda>p. p \<noteq> d) t"
proof (induction "\<lambda>p. p \<noteq> d" t rule: maximal_runs.induct)
  case (2 x xs)
  show ?case
  proof (cases "x = d")
    case True
    then show ?thesis using 2 (2) by simp
  next
    case False
    let ?r = "x # takeWhile (\<lambda>p. p \<noteq> d) xs"
    have r: "d \<notin> set ?r" using False by (auto dest: set_takeWhileD)
    have xs: "x # xs = ?r @ dropWhile (\<lambda>p. p \<noteq> d) xs" by simp
    show ?thesis
    proof (cases "dropWhile (\<lambda>p. p \<noteq> d) xs")
      case Nil
      then have r': "takeWhile (\<lambda>p. p \<noteq> d) xs = xs" by (metis append_Nil2 takeWhile_dropWhile_id)
      then have "split_on d (x # xs) = [x # xs]" using split_on_single [OF r] by metis
      moreover have "maximal_runs (\<lambda>p. p \<noteq> d) (x # xs) = [x # xs]" by (simp only: maximal_runs.simps False r' Nil not_False_eq_True if_True)
      ultimately show ?thesis by (simp del: split_on.simps maximal_runs.simps)
    next
      case (Cons y ys)
      then have "y = d" using hd_dropWhile [of "\<lambda>p. p \<noteq> d" xs] by (metis list.distinct (1) list.sel (1))
      then have "split_on d (x # xs) = ?r # split_on d ys" using split_on_append [OF r, of ys] xs Cons by metis
      moreover have "filter (\<lambda>c. c \<noteq> []) (split_on d ys) = maximal_runs (\<lambda>p. p \<noteq> d) (y # ys)"
        using 2 (1) [OF False] Cons \<open>y = d\<close> by simp
      ultimately show ?thesis using False Cons by (simp del: split_on.simps)
    qed
  qed
qed simp

lemma portable_components:
  "filter (\<lambda>c. c \<noteq> []) (split_on 47 (map (\<lambda>p. if p = 92 then 47 else p) t)) = maximal_runs (\<lambda>p. \<not> separator p) t"
proof -
  let ?f = "\<lambda>p. if p = 92 then 47 else p"
  have "(\<lambda>p. p \<noteq> 47) \<circ> ?f = (\<lambda>p. \<not> separator p)" by (auto simp: separator_def fun_eq_iff)
  then have "filter (\<lambda>c. c \<noteq> []) (split_on 47 (map ?f t)) = map (map ?f) (maximal_runs (\<lambda>p. \<not> separator p) t)"
    by (simp only: split_on_runs maximal_runs_map)
  also have "\<dots> = maximal_runs (\<lambda>p. \<not> separator p) t"
  proof (rule map_idI)
    fix r assume "r \<in> set (maximal_runs (\<lambda>p. \<not> separator p) t)"
    then have "\<forall>p \<in> set r. \<not> separator p" using maximal_runs_in by blast
    then show "map ?f r = r" by (intro map_idI) (auto simp: separator_def)
  qed
  finally show ?thesis .
qed

lemma portable_filter:
  "filter (\<lambda>c. c \<noteq> [] \<and> c \<noteq> [46]) (split_on 47 (map (\<lambda>p. if p = 92 then 47 else p) t)) = path_components t"
  by (simp add: path_components_def flip: portable_components)

lemma portable_parent:
  "list_ex (\<lambda>component. component = [46, 46]) (split_on 47 (map (\<lambda>p. if p = 92 then 47 else p) t)) \<longleftrightarrow>
     [46, 46] \<in> set (path_components t)"
  by (auto simp: list_ex_iff simp flip: portable_filter)

lemma drive_prefix_bytes:
  "(let bs = as_bytes t in 1 < length bs \<and> bs ! 1 = 58 \<and> (0 < length bs \<and> is_ascii_alphabetic (bs ! 0))) \<longleftrightarrow> drive_prefix t"
proof (cases t)
  case Nil
  then show ?thesis by (simp add: as_bytes_def drive_prefix_def)
next
  case (Cons p u)
  obtain b bs where b: "encode_char p = b # bs" "p < 128 \<and> b = p \<and> bs = [] \<or> 128 \<le> p \<and> 192 \<le> b" using encode_char_head [of p] by blast
  show ?thesis
  proof (cases "128 \<le> p")
    case True
    then show ?thesis using b Cons by (auto simp: as_bytes_def drive_prefix_def is_ascii_alphabetic_def Let_def)
  next
    case False
    then have t: "as_bytes t = p # as_bytes u" using b Cons by (simp add: as_bytes_def)
    show ?thesis
    proof (cases u)
      case Nil
      then show ?thesis using t Cons by (simp add: as_bytes_def drive_prefix_def)
    next
      case (Cons q v)
      obtain d ds where "encode_char q = d # ds" "q < 128 \<and> d = q \<and> ds = [] \<or> 128 \<le> q \<and> 192 \<le> d" using encode_char_head [of q] by blast
      then have "as_bytes u \<noteq> []" "as_bytes u ! 0 = 58 \<longleftrightarrow> q = 58" using Cons by (auto simp: as_bytes_def)
      then show ?thesis using t Cons \<open>t = p # u\<close> by (auto simp: drive_prefix_def is_ascii_alphabetic_def Let_def)
    qed
  qed
qed

lemma portable_absolute: "path_is_absolute (map (\<lambda>p. if p = 92 then 47 else p) t) \<longleftrightarrow> absolute_name t"
proof -
  let ?f = "\<lambda>p. if p = 92 then 47 else p"
  have "take 1 (map ?f t) = [47] \<or> take 2 (map ?f t) = [47, 47] \<longleftrightarrow> (\<exists>p rest. t = p # rest \<and> separator p)"
    by (cases t; cases "tl t") (auto simp: separator_def)
  moreover have "drive_prefix (map ?f t) \<longleftrightarrow> drive_prefix t"
  proof -
    have "(\<exists>l rest. map ?f t = l # 58 # rest \<and> (65 \<le> l \<and> l \<le> 90 \<or> 97 \<le> l \<and> l \<le> 122)) \<longleftrightarrow>
        (\<exists>l rest. t = l # 58 # rest \<and> (65 \<le> l \<and> l \<le> 90 \<or> 97 \<le> l \<and> l \<le> 122))"
      by (cases t; cases "tl t") auto
    then show ?thesis by (simp only: drive_prefix_def)
  qed
  ultimately show ?thesis unfolding path_is_absolute_def drive_prefix_bytes absolute_name_def by blast
qed

lemma same_letter_iff:
  assumes "q < 97"
  shows "to_ascii_lowercase p = to_ascii_lowercase q \<longleftrightarrow> same_letter p q"
  using assms by (auto simp: to_ascii_lowercase_def same_letter_def)

lemma same_letters_iff:
  assumes "list_all (\<lambda>c. of_char c < (97::nat)) word"
  shows "eq_ignore_ascii_case bs (ascii word) \<longleftrightarrow> list_all2 same_letter bs (ascii word)"
  using assms unfolding eq_ignore_ascii_case_def ascii_def
proof (induction word arbitrary: bs)
  case (Cons c word)
  then show ?case by (cases bs) (auto simp: same_letter_iff)
qed simp

lemma reserved_bytes:
  "list_ex (\<lambda>name. eq_ignore_ascii_case bs (ascii name)) [''CON'', ''PRN'', ''AUX'', ''NUL''] \<or>
     length bs = 4 \<and> 49 \<le> bs ! 3 \<and> bs ! 3 \<le> 57 \<and>
     (eq_ignore_ascii_case (take 3 bs) (ascii ''COM'') \<or> eq_ignore_ascii_case (take 3 bs) (ascii ''LPT'')) \<longleftrightarrow>
   (\<exists>word \<in> set reserved_words. list_all2 same_letter bs (ascii word))"
proof -
  have three: "eq_ignore_ascii_case us (ascii word) \<longleftrightarrow> list_all2 same_letter us (ascii word)"
    if "word \<in> {''CON'', ''PRN'', ''AUX'', ''NUL'', ''COM'', ''LPT''}" for us word
    using that by (intro same_letters_iff) auto
  have digit: "same_letter d (49 + k) \<longleftrightarrow> d = 49 + k" if "k \<le> 8" for d k using that by (auto simp: same_letter_def)
  have port: "length bs = 4 \<and> 49 \<le> bs ! 3 \<and> bs ! 3 \<le> 57 \<and> list_all2 same_letter (take 3 bs) (ascii w) \<longleftrightarrow>
      (\<exists>k \<le> 8. list_all2 same_letter bs (ascii w @ [49 + k]))" if "length w = 3" for w
  proof
    assume l: "length bs = 4 \<and> 49 \<le> bs ! 3 \<and> bs ! 3 \<le> 57 \<and> list_all2 same_letter (take 3 bs) (ascii w)"
    then have "bs = take 3 bs @ [bs ! 3]" using take_Suc_conv_app_nth [of 3 bs] by simp
    moreover obtain k where k: "bs ! 3 = 49 + k" using l le_Suc_ex by blast
    ultimately have "list_all2 same_letter bs (ascii w @ [49 + k])"
      using l by (metis list_all2_appendI list_all2_Cons list_all2_Nil same_letter_def)
    then show "\<exists>k \<le> 8. list_all2 same_letter bs (ascii w @ [49 + k])" using k l by (intro exI [of _ k]) simp
  next
    assume "\<exists>k \<le> 8. list_all2 same_letter bs (ascii w @ [49 + k])"
    then obtain k us d where k: "k \<le> 8" "bs = us @ [d]" "list_all2 same_letter us (ascii w)" "same_letter d (49 + k)"
      by (auto simp: list_all2_append2 list_all2_Cons2)
    then have "length us = 3" using that by (simp add: list_all2_lengthD ascii_def)
    then show "length bs = 4 \<and> 49 \<le> bs ! 3 \<and> bs ! 3 \<le> 57 \<and> list_all2 same_letter (take 3 bs) (ascii w)"
      using k digit [of k d] by (simp add: nth_append)
  qed
  have words: "reserved_words = [''CON'', ''PRN'', ''AUX'', ''NUL''] @
      map (\<lambda>k. ''COM'' @ [digit_char (Suc k)]) [0..<9] @ map (\<lambda>k. ''LPT'' @ [digit_char (Suc k)]) [0..<9]" by code_simp
  have ascii: "ascii (w @ [digit_char (Suc k)]) = ascii w @ [49 + k]" if "k \<le> 8" for w k
    using that by (simp add: ascii_def of_char_digit_char)
  have "(\<exists>word \<in> set (map (\<lambda>k. w @ [digit_char (Suc k)]) [0..<9]). list_all2 same_letter bs (ascii word)) \<longleftrightarrow>
      (\<exists>k \<le> 8. list_all2 same_letter bs (ascii w @ [49 + k]))" for w
  proof -
    have "set [0..<9] = {k :: nat. k \<le> 8}" by auto
    then show ?thesis using ascii [of _ w] by (simp only: set_map bex_simps Bex_def mem_Collect_eq image_iff) metis
  qed
  then have "(\<exists>word \<in> set reserved_words. list_all2 same_letter bs (ascii word)) \<longleftrightarrow>
      (\<exists>word \<in> {''CON'', ''PRN'', ''AUX'', ''NUL''}. list_all2 same_letter bs (ascii word)) \<or>
      (\<exists>w \<in> {''COM'', ''LPT''}. \<exists>k \<le> 8. list_all2 same_letter bs (ascii w @ [49 + k]))"
    by (simp only: words set_append bex_Un list.set (1,2) bex_simps (5,7) bex_empty HOL.simp_thms HOL.disj_assoc)
  also have "\<dots> \<longleftrightarrow> (\<exists>word \<in> {''CON'', ''PRN'', ''AUX'', ''NUL''}. eq_ignore_ascii_case bs (ascii word)) \<or>
      (\<exists>w \<in> {''COM'', ''LPT''}. length bs = 4 \<and> 49 \<le> bs ! 3 \<and> bs ! 3 \<le> 57 \<and> eq_ignore_ascii_case (take 3 bs) (ascii w))"
    using port [of "''COM''"] port [of "''LPT''"] by (simp add: three) blast
  finally show ?thesis by auto
qed

lemma hd_split_on: "hd (split_on d t) = takeWhile (\<lambda>p. p \<noteq> d) t"
proof (induction t)
  case (Cons x xs)
  obtain c cs where "split_on d xs = c # cs" by (metis list.exhaust split_on_nonempty)
  with Cons show ?case by simp
qed simp

lemma trim_end_split: "\<exists>blanks. t = trim_end_matches A t @ blanks \<and> set blanks \<subseteq> A"
proof (intro exI conjI)
  show "t = trim_end_matches A t @ rev (takeWhile (\<lambda>p. p \<in> A) (rev t))"
    by (simp add: trim_end_matches_def flip: rev_append)
qed (auto dest: set_takeWhileD)

lemma reserved_ascii: "word \<in> set reserved_words \<Longrightarrow> list_all2 same_letter stem (ascii word) \<Longrightarrow> p \<in> set stem \<Longrightarrow> 48 < p \<and> p < 128"
proof -
  assume word: "word \<in> set reserved_words" "list_all2 same_letter stem (ascii word)" "p \<in> set stem"
  then obtain q where "q \<in> set (ascii word)" "same_letter p q" by (metis list_all2_conv_all_nth in_set_conv_nth)
  moreover have "\<forall>word \<in> set reserved_words. \<forall>q \<in> set (ascii word). 48 < q \<and> q \<le> 90" by code_simp
  ultimately have "48 < q \<and> q \<le> 90" "same_letter p q" using word (1) by blast+
  then show ?thesis by (auto simp: same_letter_def)
qed

lemma device_name_iff: "is_windows_device_name c \<longleftrightarrow> device_name c"
proof -
  define st where "st = trim_end_matches {32, 46} (takeWhile (\<lambda>p. p \<noteq> 46) c)"
  have code: "is_windows_device_name c \<longleftrightarrow> (\<exists>word \<in> set reserved_words. list_all2 same_letter (as_bytes st) (ascii word))"
    unfolding is_windows_device_name_def Let_def hd_split_on st_def [symmetric] by (rule reserved_bytes)
  obtain blanks where blanks: "takeWhile (\<lambda>p. p \<noteq> 46) c = st @ blanks" "set blanks \<subseteq> {32, 46}"
    using trim_end_split [of "takeWhile (\<lambda>p. p \<noteq> 46) c" "{32, 46}"] by (auto simp: st_def)
  have "46 \<notin> set blanks" using blanks (1) set_takeWhileD [of 46 "\<lambda>p. p \<noteq> 46" c] by auto
  then have "blanks = replicate (length blanks) 32" using blanks (2) by (metis replicate_eqI empty_iff insertE subsetD)
  then have c: "c = st @ replicate (length blanks) 32 @ dropWhile (\<lambda>p. p \<noteq> 46) c"
    using blanks (1) takeWhile_dropWhile_id [of "\<lambda>p. p \<noteq> 46" c] by (metis append.assoc)
  have rest: "dropWhile (\<lambda>p. p \<noteq> 46) c = [] \<or> hd (dropWhile (\<lambda>p. p \<noteq> 46) c) = 46"
    using hd_dropWhile [of "\<lambda>p. p \<noteq> 46" c] by blast
  show ?thesis
  proof
    assume "is_windows_device_name c"
    then obtain word where word: "word \<in> set reserved_words" "list_all2 same_letter (as_bytes st) (ascii word)" using code by blast
    then have "as_bytes st = st" using reserved_ascii by (intro as_bytes_ascii) blast
    then show "device_name c" using word c rest unfolding device_name_def by metis
  next
    assume "device_name c"
    then obtain word stem k rest where word: "word \<in> set reserved_words" "list_all2 same_letter stem (ascii word)"
      and parts: "c = stem @ replicate k 32 @ rest" "rest = [] \<or> hd rest = 46" unfolding device_name_def by blast
    note stem = reserved_ascii [OF word]
    have "takeWhile (\<lambda>p. p \<noteq> 46) c = (stem @ replicate k 32) @ takeWhile (\<lambda>p. p \<noteq> 46) rest"
      using stem unfolding parts (1) append.assoc [symmetric] by (intro takeWhile_append2) fastforce
    also have "takeWhile (\<lambda>p. p \<noteq> 46) rest = []" using parts (2) by (cases rest) auto
    finally have "st = trim_end_matches {32, 46} (stem @ replicate k 32)" by (simp add: st_def)
    also have "\<dots> = trim_end_matches {32, 46} stem" by (simp add: trim_end_matches_def dropWhile_append)
    also have "\<dots> = stem" using stem by (intro trim_end_none) fastforce
    finally have "as_bytes st = stem" using stem by (simp add: ascii_as_bytes)
    then show "is_windows_device_name c" using code word by blast
  qed
qed

section \<open>Decisions\<close>

lemma sanitize_shown: "sanitize_display_component c = map shown c"
  by (simp add: sanitize_display_component_def is_control_def shown_def)

lemma shown_plain [simp]:
  "shown p = 46 \<longleftrightarrow> p = 46" "shown p = 47 \<longleftrightarrow> p = 47" "shown p = 92 \<longleftrightarrow> p = 92" "shown p = 58 \<longleftrightarrow> p = 58" "shown p = 32 \<longleftrightarrow> p = 32"
  "shown (shown p) = shown p"
  by (auto simp: shown_def)

lemma shown_below: "shown p < 127 \<Longrightarrow> shown p = p"
  by (simp add: shown_def split: if_splits)

lemma device_name_shown:
  assumes "device_name (map shown c)"
  shows "device_name c"
proof -
  obtain word stem k rest where word: "word \<in> set reserved_words" "list_all2 same_letter stem (ascii word)"
    and parts: "map shown c = stem @ replicate k 32 @ rest" "rest = [] \<or> hd rest = 46"
    using assms unfolding device_name_def by blast
  obtain s b r where c: "c = s @ b @ r" "stem = map shown s" "replicate k 32 = map shown b" "rest = map shown r"
    using parts (1) by (auto simp: map_eq_append_conv append_eq_map_conv)
  have "p < 127" if "p \<in> set stem" for p
  proof -
    obtain q where "q \<in> set (ascii word)" "same_letter p q" using word (2) \<open>p \<in> set stem\<close> by (metis list_all2_conv_all_nth in_set_conv_nth)
    moreover have "\<forall>word \<in> set reserved_words. \<forall>q \<in> set (ascii word). q \<le> 90" by code_simp
    ultimately have "q \<le> 90" "same_letter p q" using word (1) by blast+
    then show ?thesis by (auto simp: same_letter_def)
  qed
  then have "stem = s" unfolding c (2) by (intro map_idI shown_below) simp
  moreover have "b = replicate k 32"
  proof (rule replicate_eqI)
    show "length b = k" using arg_cong [OF c (3), of length] by simp
    show "y = 32" if "y \<in> set b" for y
    proof -
      have "shown y \<in> set (map shown b)" using that by simp
      then have "shown y \<in> set (replicate k 32)" by (simp only: c (3))
      then show ?thesis by auto
    qed
  qed
  moreover have "r = [] \<or> hd r = 46" using parts (2) unfolding c (4) by (cases r) auto
  ultimately show ?thesis unfolding device_name_def c (1) using word by blast
qed

lemma components_plain:
  assumes "c \<in> set (path_components t)"
  shows "c \<noteq> []" "c \<noteq> [46]" "47 \<notin> set c" "92 \<notin> set c" "set c \<subseteq> set t"
  using assms maximal_runs_in [of c "\<lambda>p. \<not> separator p" t] by (auto simp: path_components_def separator_def)

lemma shown_safe:
  assumes "c \<in> set (path_components t)" "c \<noteq> [46, 46]" "\<not> device_name c"
  shows "safe_component (map shown c)"
proof -
  have "map shown c \<noteq> [46]" "map shown c \<noteq> [46, 46]" using components_plain (2) [OF assms (1)] assms (2) by (auto simp: map_eq_Cons_conv)
  moreover have "47 \<notin> set (map shown c)" "92 \<notin> set (map shown c)"
    using components_plain (3,4) [OF assms (1)] shown_plain (2,3) by (metis (no_types, lifting) imageE set_map)+
  ultimately show ?thesis using components_plain (1) [OF assms (1)] device_name_shown [of c] assms (3) by (auto simp: safe_component_def)
qed

lemma placeholder_safe:
  "safe_component (ascii (''unsafe-member-'' @ show_nat n)) \<and> \<not> drive_prefix (ascii (''unsafe-member-'' @ show_nat n))"
proof -
  let ?t = "ascii (''unsafe-member-'' @ show_nat n)"
  have "of_char c \<in> {48..57::nat}" if "c \<in> set (show_nat n)" for c
    using show_nat_digits [OF that] by (auto simp: is_digit_def)
  then have plain: "45 \<le> p \<and> p < 127 \<and> p \<notin> {46, 47, 92}" if "p \<in> set ?t" for p using that by (fastforce simp: ascii_def)
  have "\<not> device_name ?t"
  proof
    assume "device_name ?t"
    then obtain word stem k rest where word: "word \<in> set reserved_words" "list_all2 same_letter stem (ascii word)"
      and parts: "?t = stem @ replicate k 32 @ rest" "rest = [] \<or> hd rest = 46" unfolding device_name_def by blast
    have "32 \<notin> set ?t" "46 \<notin> set ?t" using plain by fastforce+
    then have "k = 0" "rest = []" using parts by (cases k; cases rest; auto)+
    then have "length ?t = length word" using parts (1) list_all2_lengthD [OF word (2)] by (simp add: ascii_def)
    moreover have "\<forall>word \<in> set reserved_words. length word \<le> 4" by code_simp
    ultimately have "length ?t \<le> 4" using word (1) by simp
    then show False by (simp add: ascii_def)
  qed
  moreover have "shown p = p" if "p \<in> set ?t" for p using plain [OF that] by (simp add: shown_def)
  moreover have "47 \<notin> set ?t" "92 \<notin> set ?t" using plain by blast+
  ultimately have "safe_component ?t" by (simp add: safe_component_def ascii_def)
  then show ?thesis by (simp add: drive_prefix_def ascii_def)
qed

text \<open>Ill-formed bytes leave a replacement character, so the code's test for them is the decoder's verdict.\<close>

lemma lossy_owned: "\<not> list_all (\<lambda>p. p < 128) (fst (from_utf8_lossy raw)) \<and> snd (from_utf8_lossy raw) \<longleftrightarrow> from_utf8 raw = None"
  by (force simp: from_utf8_lossy_def from_utf8_def Let_def list_all_iff)

definition marked :: "bytes \<Rightarrow> codepoints \<Rightarrow> bool" where
  "marked raw t \<longleftrightarrow> from_utf8 raw = None \<or> (\<exists>p \<in> set t. shown p \<noteq> p)"

lemma control_shown: "is_control p \<longleftrightarrow> shown p \<noteq> p"
  by (auto simp: is_control_def shown_def)

lemma logical_member_name_decision:
  "logical_member_name hex raw i mb policy =
     (let t = fst (from_utf8_lossy raw) in
      if U32_MAX < length raw then Err Archive_Name_Limit_Exceeded
      else case refusal mb raw t of
        Some reason \<Rightarrow> Ok (rejected_or_sanitized hex raw i policy reason)
      | None \<Rightarrow> Ok \<lparr>nd_logical = \<lparr>ln_display = join_with 47 (map (map shown) (path_components t)),
                                   ln_raw_name_hex = (if marked raw t then Some (hex raw) else None), ln_sanitized = marked raw t\<rparr>,
                     nd_accepted = True, nd_reason = (if marked raw t then Some ''display_name_sanitized'' else None)\<rparr>)"
proof -
  let ?t = "fst (from_utf8_lossy raw)"
  have devices: "list_ex is_windows_device_name (maximal_runs (\<lambda>p. \<not> separator p) ?t) \<longleftrightarrow> (\<exists>c \<in> set (path_components ?t). device_name c)"
  proof -
    have "\<not> is_windows_device_name [46]" by code_simp
    then have "\<not> device_name [46]" unfolding device_name_iff .
    then show ?thesis by (auto simp: list_ex_iff path_components_def device_name_iff)
  qed
  have sanitized: "list_ex is_control ?t \<or> \<not> list_all (\<lambda>p. p < 128) ?t \<and> snd (from_utf8_lossy raw) \<longleftrightarrow> marked raw ?t"
    unfolding lossy_owned marked_def by (auto simp: list_ex_iff control_shown)
  show ?thesis
    unfolding logical_member_name_def Let_def portable_absolute portable_components portable_filter portable_parent devices sanitized
      try_from_def sanitize_shown [abs_def] refusal_def
    by (cases "U32_MAX < length raw"; cases "mb < length raw"; cases "absolute_name ?t"; cases "0 \<in> set raw";
        cases "[46, 46] \<in> set (path_components ?t)"; cases "\<exists>c \<in> set (path_components ?t). device_name c"; cases "path_components ?t = []")
      (simp_all only: if_True if_False option.case simp_thms not_less [symmetric] list.map_disc_iff)
qed

lemma components_drive:
  assumes "\<not> absolute_name t" "path_components t \<noteq> []" "drive_prefix (join_with 47 (map (map shown) (path_components t)))"
  shows "\<exists>p rest. t = 46 # p # rest \<and> separator p"
proof -
  obtain c cs where c: "path_components t = c # cs" using assms (2) by (cases "path_components t") auto
  obtain x xs where t: "t = x # xs" "\<not> separator x"
    using assms (1) c by (cases t) (auto simp: absolute_name_def path_components_def)
  let ?r = "x # takeWhile (\<lambda>p. \<not> separator p) xs"
  have runs: "maximal_runs (\<lambda>p. \<not> separator p) t = ?r # maximal_runs (\<lambda>p. \<not> separator p) (dropWhile (\<lambda>p. \<not> separator p) xs)"
    using t by simp
  have "\<exists>l u. map shown c = l # 58 # u \<and> (65 \<le> l \<and> l \<le> 90 \<or> 97 \<le> l \<and> l \<le> 122)"
  proof -
    obtain l u where l: "join_with 47 (map (map shown) (c # cs)) = l # 58 # u" "65 \<le> l \<and> l \<le> 90 \<or> 97 \<le> l \<and> l \<le> 122"
      using assms (3) unfolding c drive_prefix_def by blast
    moreover obtain y ys where "c = y # ys" using components_plain (1) [of c t] c by (cases c) auto
    ultimately show ?thesis by (cases cs; cases ys) auto
  qed
  then obtain l u where l: "map shown c = l # 58 # u" "65 \<le> l \<and> l \<le> 90 \<or> 97 \<le> l \<and> l \<le> 122" by (elim exE conjE) (rule that)
  then obtain y z v where y: "c = y # z # v" "shown y = l" "shown z = 58" by (auto simp: map_eq_Cons_conv)
  then have "y = l" "z = 58" using l (2) shown_below [of y] by auto
  show ?thesis
  proof (cases "?r = [46]")
    case True
    then have "x = 46" "takeWhile (\<lambda>p. \<not> separator p) xs = []" by simp_all
    moreover have "xs \<noteq> []" using c runs True by (auto simp: path_components_def)
    ultimately show ?thesis using t by (cases xs) (auto split: if_splits)
  next
    case False
    then have "c = ?r" using c runs by (simp add: path_components_def)
    then have "takeWhile (\<lambda>p. \<not> separator p) xs = 58 # v" "x = l" using y \<open>y = l\<close> \<open>z = 58\<close> by simp_all
    then have "drive_prefix t" using l (2) t (1) by (cases xs) (auto simp: drive_prefix_def split: if_splits)
    then show ?thesis using assms (1) by (simp add: absolute_name_def)
  qed
qed

abbreviation decoded :: "bytes \<Rightarrow> codepoints" where
  "decoded raw \<equiv> fst (from_utf8_lossy raw)"

text \<open>
  C12. Archive member names stay inert, and the decision on each is exact. Let \<open>t\<close> be the decoded name.
  The only error is a length beyond 32 bits. Where one of the six grounds for refusal holds, checked in order (too long;
  rooted; a zero byte; a parent component; a device name; nothing left), the display name is the placeholder with the entry's
  index, marked as sanitized, with the raw bytes in hex and that ground as the reason, and the member is accepted exactly under the
  sanitizing policy. Otherwise it is accepted and its display name, split at slashes, is the list of the components of \<open>t\<close>
  with control characters replaced; it is marked, with the raw bytes in hex and a reason, exactly when the bytes
  are ill-formed or hold a control character. Turning backslashes into slashes and dropping empty and dot components is not
  marked. In either case every component of an accepted display name is non-empty, is no dot or double dot, holds no slash, backslash or
  control character and is no device name; and a display name that starts with a drive, which these conditions do not exclude,
  comes only from a name with a leading dot component.
\<close>

theorem accepted_names_are_safe:
  "case logical_member_name hex raw i mb policy of
      Err e \<Rightarrow> U32_MAX < length raw
    | Ok d \<Rightarrow> length raw \<le> U32_MAX \<and>
        (case refusal mb raw (decoded raw) of
           Some reason \<Rightarrow> ln_display (nd_logical d) = ascii (''unsafe-member-'' @ show_nat i) \<and> ln_sanitized (nd_logical d) \<and>
             ln_raw_name_hex (nd_logical d) = Some (hex raw) \<and> nd_reason d = Some reason \<and>
             (nd_accepted d \<longleftrightarrow> policy = SanitizeAndScan)
         | None \<Rightarrow> nd_accepted d \<and> split_on 47 (ln_display (nd_logical d)) = map (map shown) (path_components (decoded raw)) \<and>
             (ln_sanitized (nd_logical d) \<longleftrightarrow> marked raw (decoded raw)) \<and>
             ln_raw_name_hex (nd_logical d) = (if marked raw (decoded raw) then Some (hex raw) else None) \<and>
             nd_reason d = (if marked raw (decoded raw) then Some ''display_name_sanitized'' else None)) \<and>
        (nd_accepted d \<longrightarrow> (\<forall>c \<in> set (split_on 47 (ln_display (nd_logical d))). safe_component c) \<and>
           (drive_prefix (ln_display (nd_logical d)) \<longrightarrow> (\<exists>p rest. decoded raw = 46 # p # rest \<and> separator p)))"
proof (cases "U32_MAX < length raw")
  case True
  then show ?thesis by (simp add: logical_member_name_decision)
next
  case False
  show ?thesis
  proof (cases "refusal mb raw (decoded raw)")
    case (Some reason)
    let ?p = "ascii (''unsafe-member-'' @ show_nat i)"
    have "split_on 47 ?p = [?p]" using placeholder_safe [of i] by (intro split_on_single) (simp add: safe_component_def)
    then show ?thesis
      using False Some placeholder_safe [of i]
      by (simp add: logical_member_name_decision rejected_or_sanitized_def)
  next
    case None
    let ?cs = "map (map shown) (path_components (decoded raw))"
    from None have ok: "\<not> absolute_name (decoded raw)" "[46, 46] \<notin> set (path_components (decoded raw))" "\<not> (\<exists>c \<in> set (path_components (decoded raw)). device_name c)"
      "path_components (decoded raw) \<noteq> []" by (auto simp: refusal_def split: if_splits)
    have safe: "safe_component c" if "c \<in> set ?cs" for c using that ok (2,3) by (auto intro: shown_safe)
    have "split_on 47 (join_with 47 ?cs) = ?cs"
      using ok (4) safe by (intro split_on_join) (auto simp: safe_component_def)
    moreover note components_drive [OF ok (1,4)]
    ultimately show ?thesis using False None safe by (simp add: logical_member_name_decision)
  qed
qed

theorem accepted_names_are_safe_witness:
  "\<exists>d d'. logical_member_name id (ascii ''docs'' @ 92 # ascii ''a.txt'') 0 64 RejectEntry = Ok d \<and> nd_accepted d \<and>
     \<not> ln_sanitized (nd_logical d) \<and> split_on 47 (ln_display (nd_logical d)) = [ascii ''docs'', ascii ''a.txt''] \<and>
     safe_component (ascii ''docs'') \<and> safe_component (ascii ''a.txt'') \<and>
     logical_member_name id (ascii ''a/cOm1 .txt'') 7 64 SanitizeAndScan = Ok d' \<and> nd_accepted d' \<and> ln_sanitized (nd_logical d') \<and>
     ln_raw_name_hex (nd_logical d') = Some (ascii ''a/cOm1 .txt'') \<and> nd_reason d' = Some ''windows_device_name'' \<and>
     refusal 64 (ascii ''a/cOm1 .txt'') (decoded (ascii ''a/cOm1 .txt'')) = Some ''windows_device_name''"
proof -
  let ?d = "\<lparr>nd_logical = \<lparr>ln_display = ascii ''docs/a.txt'', ln_raw_name_hex = None, ln_sanitized = False\<rparr>,
             nd_accepted = True, nd_reason = None\<rparr>"
  let ?raw = "ascii ''a/cOm1 .txt''"
  let ?d' = "\<lparr>nd_logical = \<lparr>ln_display = ascii ''unsafe-member-7'', ln_raw_name_hex = Some ?raw, ln_sanitized = True\<rparr>,
             nd_accepted = True, nd_reason = Some ''windows_device_name''\<rparr>"
  have d: "logical_member_name id (ascii ''docs'' @ 92 # ascii ''a.txt'') 0 64 RejectEntry = Ok ?d"
    "logical_member_name id ?raw 7 64 SanitizeAndScan = Ok ?d'" by code_simp+
  have docs: "split_on 47 (ascii ''docs/a.txt'') = [ascii ''docs'', ascii ''a.txt'']" by code_simp
  have "safe_component (ascii ''docs'')" "safe_component (ascii ''a.txt'')"
    using accepted_names_are_safe [where hex = id and raw = "ascii ''docs'' @ 92 # ascii ''a.txt''" and i = 0 and mb = 64 and policy = RejectEntry] d (1) docs by simp_all
  moreover have "refusal 64 ?raw (decoded ?raw) = Some ''windows_device_name''"
  proof -
    define t where "t = decoded ?raw"
    note exact = accepted_names_are_safe [where hex = id and raw = ?raw and i = 7 and mb = 64 and policy = SanitizeAndScan,
        folded t_def, unfolded d (2) result.case name_decision.select_convs logical_name.select_convs]
    have "refusal 64 ?raw t \<noteq> None" using exact by (cases "marked ?raw t") (auto simp del: id_apply split: option.splits)
    then show ?thesis using exact by (auto simp: t_def [symmetric] simp del: id_apply split: option.splits)
  qed
  ultimately show ?thesis using d docs by simp
qed

text \<open>The absolute-path test looks at the start of the raw name, before dot components are dropped, so a
  drive-qualified path behind a leading dot component is displayed as one.\<close>

lemma drive_prefix_survives:
  "logical_member_name id (ascii ''./C:/evil'') 0 64 RejectEntry =
     Ok \<lparr>nd_logical = \<lparr>ln_display = ascii ''C:/evil'', ln_raw_name_hex = None, ln_sanitized = False\<rparr>,
         nd_accepted = True, nd_reason = None\<rparr> \<and>
   path_is_absolute (ascii ''C:/evil'')"
  by code_simp

end
