(* ===== verification/Byte_Reader.thy ===== *)
theory Byte_Reader
  imports Prelude "HOL-Library.Code_Target_Nat"
begin

text \<open>
  Byte slices and little-endian reads, shared by the archive preflights. A byte slice is a list of
  natural numbers below 256; \<open>get_range\<close> is \<open>slice.get(a..b)\<close>.
\<close>

type_synonym byte_slice = "nat list"

definition byte_slice_ok :: "byte_slice \<Rightarrow> bool" where
  "byte_slice_ok bs \<longleftrightarrow> list_all (\<lambda>b. b < 256) bs \<and> length bs \<le> USIZE_MAX"

definition get_range :: "byte_slice \<Rightarrow> nat \<Rightarrow> nat \<Rightarrow> byte_slice option" where
  "get_range bs a b = (if a \<le> b \<and> b \<le> length bs then Some (take (b - a) (drop a bs)) else None)"

definition get_byte :: "byte_slice \<Rightarrow> nat \<Rightarrow> nat option" where
  "get_byte bs i = (if i < length bs then Some (bs ! i) else None)"

fun from_le_bytes :: "byte_slice \<Rightarrow> nat" where
  "from_le_bytes [] = 0"
| "from_le_bytes (b # bs) = b + 256 * from_le_bytes bs"

definition read_le :: "nat \<Rightarrow> byte_slice \<Rightarrow> nat \<Rightarrow> nat option" where
  "read_le width bs offset =
     (case checked_add USIZE_MAX offset width of
        None \<Rightarrow> None
      | Some e \<Rightarrow> map_option from_le_bytes (get_range bs offset e))"

definition read_u16_le :: "byte_slice \<Rightarrow> nat \<Rightarrow> nat option" where
  "read_u16_le = read_le 2"

definition read_u32_le :: "byte_slice \<Rightarrow> nat \<Rightarrow> nat option" where
  "read_u32_le = read_le 4"

definition read_u64_le :: "byte_slice \<Rightarrow> nat \<Rightarrow> nat option" where
  "read_u64_le = read_le 8"

lemma from_le_bytes_bound: "list_all (\<lambda>b. b < 256) bs \<Longrightarrow> from_le_bytes bs < 256 ^ length bs"
proof (induction bs)
  case Nil
  then show ?case by simp
next
  case (Cons b bs)
  then have b: "b \<le> 255" and ih: "from_le_bytes bs + 1 \<le> 256 ^ length bs" by simp_all
  have "b + 256 * from_le_bytes bs < 256 * (from_le_bytes bs + 1)" using b by simp
  also have "\<dots> \<le> 256 * 256 ^ length bs" using ih by (rule mult_le_mono2)
  finally show ?case by simp
qed

lemma get_range_Some: "get_range bs a b = Some s \<longleftrightarrow> a \<le> b \<and> b \<le> length bs \<and> s = take (b - a) (drop a bs)"
  by (auto simp: get_range_def)

lemma get_range_bytes: "list_all P bs \<Longrightarrow> get_range bs a b = Some s \<Longrightarrow> list_all P s \<and> length s = b - a"
  by (auto simp: get_range_Some list_all_iff dest: in_set_takeD in_set_dropD)

lemma read_le_Some: "read_le w bs i = Some n \<Longrightarrow> i + w \<le> length bs"
  by (auto simp: read_le_def get_range_def checked_add_def split: if_splits)

lemma read_le_total: "i + w \<le> length bs \<Longrightarrow> length bs \<le> USIZE_MAX \<Longrightarrow> read_le w bs i \<noteq> None"
  by (simp add: read_le_def get_range_def checked_add_def)

lemma read_le_bound: "list_all (\<lambda>b. b < 256) bs \<Longrightarrow> read_le w bs i = Some n \<Longrightarrow> n < 256 ^ w"
  using get_range_bytes [of "\<lambda>b. b < 256" bs i "i + w"] from_le_bytes_bound
  by (fastforce simp: read_le_def checked_add_def split: if_splits)

lemma read_u16_bound: "byte_slice_ok bs \<Longrightarrow> read_u16_le bs i = Some n \<Longrightarrow> n \<le> U16_MAX"
  using read_le_bound [of bs 2 i n] by (simp add: byte_slice_ok_def read_u16_le_def U16_MAX_def)

lemma read_u32_bound: "byte_slice_ok bs \<Longrightarrow> read_u32_le bs i = Some n \<Longrightarrow> n \<le> U32_MAX"
  using read_le_bound [of bs 4 i n] by (simp add: byte_slice_ok_def read_u32_le_def U32_MAX_def)

lemma read_u64_bound: "byte_slice_ok bs \<Longrightarrow> read_u64_le bs i = Some n \<Longrightarrow> n \<le> U64_MAX"
  using read_le_bound [of bs 8 i n] by (simp add: byte_slice_ok_def read_u64_le_def U64_MAX_def)

end
