(* ===== verification/Zip_Preflight.thy ===== *)
theory Zip_Preflight
  imports Byte_Reader
begin

text \<open>
  The ZIP end-record preflight and the cursor it admits,
  \<open>crates/services/attachment/crates/attachment-native-inspect/src/zip_preflight.rs\<close>.

  Offsets that the code adds without a check are in range of the slice they were read from, so their
  sums do not overflow. The loop of \<open>validate_directory\<close> is a recursion that advances by at least 46
  bytes a round. \<open>AdmittedZipCursor\<close> wraps \<open>std::io::Cursor\<close>, whose reading and seeking are modelled;
  the shared \<open>Cell\<close> with the permission to read members is part of its state.
\<close>

section \<open>End records\<close>

definition EOCD_SIGNATURE :: byte_slice where "EOCD_SIGNATURE = [80, 75, 5, 6]"
definition ZIP64_EOCD_SIGNATURE :: byte_slice where "ZIP64_EOCD_SIGNATURE = [80, 75, 6, 6]"
definition ZIP64_LOCATOR_SIGNATURE :: byte_slice where "ZIP64_LOCATOR_SIGNATURE = [80, 75, 6, 7]"
definition EOCD_MIN_BYTES :: nat where "EOCD_MIN_BYTES = 22"
definition MAX_ZIP_COMMENT_BYTES :: nat where "MAX_ZIP_COMMENT_BYTES = U16_MAX"

record zip_summary =
  zs_entries :: nat
  zs_metadata_bytes :: nat
  zs_directory_end :: nat
  zs_relative_directory_start :: nat
  zs_eocd :: nat
  zs_extensible_bytes :: nat

datatype zip_error =
    EndRecordMissing
  | EndRecordAmbiguous
  | EndRecordTruncated
  | MultiDiskUnsupported
  | Zip64LocatorMissing
  | Zip64RecordInvalid
  | DirectoryOutOfBounds
  | DirectoryEntryCountMismatch

definition eocd_at :: "byte_slice \<Rightarrow> nat \<Rightarrow> bool" where
  "eocd_at bytes offset \<longleftrightarrow>
     get_range bytes offset (saturating_add USIZE_MAX offset 4) = Some EOCD_SIGNATURE \<and>
     (case read_u16_le bytes (saturating_add USIZE_MAX offset 20) of
        None \<Rightarrow> False
      | Some comment_bytes \<Rightarrow>
          Option.bind (checked_add USIZE_MAX offset EOCD_MIN_BYTES)
            (\<lambda>e. checked_add USIZE_MAX e comment_bytes) = Some (length bytes))"

definition find_eocd :: "byte_slice \<Rightarrow> (nat, zip_error) result" where
  "find_eocd bytes =
     (if length bytes < EOCD_MIN_BYTES then Err EndRecordMissing
      else
        let earliest = saturating_sub (length bytes) (saturating_add USIZE_MAX EOCD_MIN_BYTES MAX_ZIP_COMMENT_BYTES);
            latest = saturating_sub (length bytes) EOCD_MIN_BYTES
        in (case filter (eocd_at bytes) (rev [earliest ..< Suc latest]) of
              [] \<Rightarrow> Err EndRecordMissing
            | [candidate] \<Rightarrow> Ok candidate
            | candidate # others \<Rightarrow> Err EndRecordAmbiguous))"

definition zs_start :: "zip_summary \<Rightarrow> (nat, zip_error) result" where
  "zs_start s =
     res_bind (ok_or DirectoryOutOfBounds (try_from USIZE_MAX (zs_metadata_bytes s))) (\<lambda>m.
       ok_or DirectoryOutOfBounds (checked_sub (zs_directory_end s) m))"

definition zs_archive_offset :: "zip_summary \<Rightarrow> (nat, zip_error) result" where
  "zs_archive_offset s =
     res_bind (zs_start s) (\<lambda>start.
     res_bind (ok_or DirectoryOutOfBounds (try_from U64_MAX start)) (\<lambda>start.
       ok_or DirectoryOutOfBounds (checked_sub start (zs_relative_directory_start s))))"

definition allocation_metadata_bytes :: "zip_summary \<Rightarrow> nat" where
  "allocation_metadata_bytes s = saturating_add U64_MAX (zs_metadata_bytes s) (zs_extensible_bytes s)"

text \<open>The record the ZIP64 locator at \<open>locator\<close> may refer to, at \<open>position\<close>.\<close>

definition zip64_record_at :: "byte_slice \<Rightarrow> nat \<Rightarrow> nat \<Rightarrow> nat \<Rightarrow> bool" where
  "zip64_record_at bytes locator eocd_disk position \<longleftrightarrow>
     get_range bytes position (saturating_add USIZE_MAX position 4) = Some ZIP64_EOCD_SIGNATURE \<and>
     Option.bind (read_u64_le bytes (saturating_add USIZE_MAX position 4)) (\<lambda>size.
       if 44 \<le> size then
         Option.bind (try_from USIZE_MAX size) (\<lambda>size.
         Option.bind (checked_add USIZE_MAX position size) (\<lambda>e. checked_add USIZE_MAX e 12))
       else None) = Some locator \<and>
     read_u32_le bytes (saturating_add USIZE_MAX position 20) = Some eocd_disk \<and>
     (case (read_u64_le bytes (saturating_add USIZE_MAX position 32), read_u64_le bytes (saturating_add USIZE_MAX position 48)) of
        (Some entries, Some offset) \<Rightarrow>
          saturating_add U64_MAX (saturating_mul U64_MAX entries 46) offset \<le> position
      | _ \<Rightarrow> False)"

definition zip64_summary :: "byte_slice \<Rightarrow> nat \<Rightarrow> (zip_summary, zip_error) result" where
  "zip64_summary bytes eocd_offset =
     res_bind (ok_or Zip64LocatorMissing (checked_sub eocd_offset 20)) (\<lambda>locator.
     if get_range bytes locator (locator + 4) \<noteq> Some ZIP64_LOCATOR_SIGNATURE then Err Zip64LocatorMissing else
     res_bind (ok_or Zip64LocatorMissing (read_u32_le bytes (locator + 4))) (\<lambda>eocd_disk.
     res_bind (ok_or Zip64LocatorMissing (read_u64_le bytes (locator + 8))) (\<lambda>relative_record_offset.
     res_bind (ok_or Zip64LocatorMissing (read_u32_le bytes (locator + 16))) (\<lambda>disks.
     if eocd_disk \<noteq> 0 \<or> disks \<noteq> 1 then Err MultiDiskUnsupported else
     res_bind (ok_or Zip64RecordInvalid (try_from USIZE_MAX relative_record_offset)) (\<lambda>earliest.
     res_bind (ok_or Zip64RecordInvalid (find (zip64_record_at bytes locator eocd_disk) [earliest ..< locator])) (\<lambda>zip64_offset.
     res_bind (ok_or Zip64RecordInvalid (read_u64_le bytes (zip64_offset + 4))) (\<lambda>record_payload.
     if record_payload < 44 then Err Zip64RecordInvalid else
     res_bind (ok_or Zip64RecordInvalid (read_u32_le bytes (zip64_offset + 16))) (\<lambda>disk.
     res_bind (ok_or Zip64RecordInvalid (read_u32_le bytes (zip64_offset + 20))) (\<lambda>directory_disk.
     res_bind (ok_or Zip64RecordInvalid (read_u64_le bytes (zip64_offset + 24))) (\<lambda>entries_on_disk.
     res_bind (ok_or Zip64RecordInvalid (read_u64_le bytes (zip64_offset + 32))) (\<lambda>entries.
     res_bind (ok_or Zip64RecordInvalid (read_u64_le bytes (zip64_offset + 40))) (\<lambda>metadata_bytes.
     res_bind (ok_or Zip64RecordInvalid (read_u64_le bytes (zip64_offset + 48))) (\<lambda>directory_offset.
     if disk \<noteq> 0 \<or> directory_disk \<noteq> 0 \<or> entries_on_disk \<noteq> entries then Err MultiDiskUnsupported else
     let summary = \<lparr>zs_entries = entries, zs_metadata_bytes = metadata_bytes, zs_directory_end = zip64_offset,
                    zs_relative_directory_start = directory_offset, zs_eocd = eocd_offset,
                    zs_extensible_bytes = record_payload - 44\<rparr>
     in res_bind (ok_or DirectoryOutOfBounds (try_from U64_MAX zip64_offset)) (\<lambda>z.
        res_bind (ok_or DirectoryOutOfBounds (checked_sub z relative_record_offset)) (\<lambda>archive_offset.
        res_bind (zs_archive_offset summary) (\<lambda>summary_offset.
          if summary_offset \<noteq> archive_offset then Err Zip64RecordInvalid else Ok summary))))))))))))))))"

definition preflight :: "byte_slice \<Rightarrow> (zip_summary, zip_error) result" where
  "preflight bytes =
     res_bind (find_eocd bytes) (\<lambda>eocd.
     res_bind (ok_or EndRecordTruncated (read_u16_le bytes (eocd + 4))) (\<lambda>disk.
     res_bind (ok_or EndRecordTruncated (read_u16_le bytes (eocd + 6))) (\<lambda>directory_disk.
     res_bind (ok_or EndRecordTruncated (read_u16_le bytes (eocd + 8))) (\<lambda>entries_on_disk.
     res_bind (ok_or EndRecordTruncated (read_u16_le bytes (eocd + 10))) (\<lambda>entries.
     res_bind (ok_or EndRecordTruncated (read_u32_le bytes (eocd + 12))) (\<lambda>directory_bytes.
     res_bind (ok_or EndRecordTruncated (read_u32_le bytes (eocd + 16))) (\<lambda>directory_offset.
     if disk \<noteq> 0 \<or> directory_disk \<noteq> 0 \<or> entries_on_disk \<noteq> entries then Err MultiDiskUnsupported else
     res_bind
       (if entries = U16_MAX \<or> directory_bytes = U32_MAX \<or> directory_offset = U32_MAX then zip64_summary bytes eocd
        else Ok \<lparr>zs_entries = entries, zs_metadata_bytes = directory_bytes, zs_directory_end = eocd,
                 zs_relative_directory_start = directory_offset, zs_eocd = eocd, zs_extensible_bytes = 0\<rparr>) (\<lambda>summary.
     res_bind (ok_or DirectoryOutOfBounds (try_from USIZE_MAX (zs_metadata_bytes summary))) (\<lambda>directory_bytes.
       if zs_directory_end summary < directory_bytes then Err DirectoryOutOfBounds else Ok summary)))))))))"

section \<open>The central directory\<close>

definition HEADER_SIGNATURE :: byte_slice where "HEADER_SIGNATURE = [80, 75, 1, 2]"
definition DIGITAL_SIGNATURE :: byte_slice where "DIGITAL_SIGNATURE = [80, 75, 5, 5]"

text \<open>One round of the loop: the end of the directory, the position after the next file header, or an
  error.\<close>

datatype directory_item = Directory_Done | Directory_Next nat

definition directory_round :: "byte_slice \<Rightarrow> nat \<Rightarrow> nat \<Rightarrow> (directory_item, zip_error) result" where
  "directory_round bytes directory_end position =
     (if get_range bytes position (saturating_add USIZE_MAX position 4) = Some DIGITAL_SIGNATURE then
        res_bind (ok_or DirectoryOutOfBounds (read_u16_le bytes (position + 4))) (\<lambda>len.
        res_bind (ok_or DirectoryOutOfBounds (checked_add USIZE_MAX position (6 + len))) (\<lambda>e.
          if e \<noteq> directory_end then Err DirectoryOutOfBounds else Ok Directory_Done))
      else if get_range bytes position (saturating_add USIZE_MAX position 4) \<noteq> Some HEADER_SIGNATURE \<or>
              directory_end < saturating_add USIZE_MAX position 46
      then Err DirectoryOutOfBounds
      else
        res_bind (ok_or DirectoryOutOfBounds (read_u16_le bytes (position + 28))) (\<lambda>name.
        res_bind (ok_or DirectoryOutOfBounds (read_u16_le bytes (position + 30))) (\<lambda>extra.
        res_bind (ok_or DirectoryOutOfBounds (read_u16_le bytes (position + 32))) (\<lambda>comment.
        res_bind (ok_or DirectoryOutOfBounds
           (Option.bind (checked_add USIZE_MAX position (46 + name + extra + comment))
              (\<lambda>e. if e \<le> directory_end then Some e else None))) (\<lambda>e.
          Ok (Directory_Next e))))))"

lemma directory_round_progress: "directory_round bytes de p = Ok (Directory_Next e) \<Longrightarrow> p + 46 \<le> e \<and> e \<le> de"
  by (auto simp: directory_round_def result_simps bind_eq_Some_conv split: if_splits)

function validate_loop :: "byte_slice \<Rightarrow> zip_summary \<Rightarrow> nat \<Rightarrow> nat \<Rightarrow> (nat, zip_error) result" where
  "validate_loop bytes s position count =
     (if position < zs_directory_end s then
        (case directory_round bytes (zs_directory_end s) position of
           Err e \<Rightarrow> Err e
         | Ok Directory_Done \<Rightarrow> Ok count
         | Ok (Directory_Next e) \<Rightarrow>
             if zs_entries s < count + 1 then Err DirectoryEntryCountMismatch
             else validate_loop bytes s e (count + 1))
      else Ok count)"
  by pat_completeness auto
termination
  by (relation "measure (\<lambda>(bytes, s, position, count). zs_directory_end s - position)")
     (auto dest!: directory_round_progress)

declare validate_loop.simps [simp del]

definition validate_directory :: "byte_slice \<Rightarrow> zip_summary \<Rightarrow> (unit, zip_error) result" where
  "validate_directory bytes s =
     res_bind (zs_start s) (\<lambda>position.
     res_bind (zs_archive_offset s) (\<lambda>_.
     res_bind (validate_loop bytes s position 0) (\<lambda>count.
       if count \<noteq> zs_entries s then Err DirectoryEntryCountMismatch else Ok ())))"

section \<open>AdmittedZipCursor\<close>

datatype io_error = InvalidData | InvalidInput

datatype seek_from = SeekStart nat | SeekEnd int | SeekCurrent int

record zip_cursor =
  zc_bytes :: byte_slice
  zc_position :: nat
  zc_start :: nat
  zc_end :: nat
  zc_eocd :: nat
  zc_parsing :: bool
  zc_signature_probed :: bool
  zc_header_armed :: bool
  zc_members_enabled :: bool

definition zc_new :: "byte_slice \<Rightarrow> zip_summary \<Rightarrow> (zip_cursor, zip_error) result" where
  "zc_new bytes s =
     res_bind (zs_start s) (\<lambda>start.
       Ok \<lparr>zc_bytes = bytes, zc_position = 0, zc_start = start, zc_end = zs_directory_end s, zc_eocd = zs_eocd s,
           zc_parsing = False, zc_signature_probed = False, zc_header_armed = False, zc_members_enabled = False\<rparr>)"

text \<open>\<open>Cursor::read\<close>: the bytes from the position on, at most \<open>n\<close>.\<close>

definition cursor_read :: "nat \<Rightarrow> byte_slice \<Rightarrow> nat \<Rightarrow> byte_slice" where
  "cursor_read n bytes position = take n (drop position bytes)"

definition cursor_seek :: "seek_from \<Rightarrow> byte_slice \<Rightarrow> nat \<Rightarrow> (nat, io_error) result" where
  "cursor_seek target bytes position =
     (case target of
        SeekStart n \<Rightarrow> Ok n
      | SeekEnd d \<Rightarrow>
          let n = int (length bytes) + d in if 0 \<le> n \<and> n \<le> int U64_MAX then Ok (nat n) else Err InvalidInput
      | SeekCurrent d \<Rightarrow>
          let n = int position + d in if 0 \<le> n \<and> n \<le> int U64_MAX then Ok (nat n) else Err InvalidInput)"

text \<open>Clearing the comment length of the end record in what a read returned.\<close>

definition zero_at :: "nat \<Rightarrow> nat \<Rightarrow> byte_slice \<Rightarrow> byte_slice" where
  "zero_at byte position out =
     (if position \<le> byte \<and> byte - position < length out then out[byte - position := 0] else out)"

definition zc_read :: "nat \<Rightarrow> zip_cursor \<Rightarrow> zip_cursor \<times> (byte_slice, io_error) result" where
  "zc_read n c =
     (let position = zc_position c;
          c = (if \<not> zc_members_enabled c \<and>
                  (zc_header_armed c \<or> (zc_signature_probed c \<and> zc_position c = saturating_add U64_MAX (zc_start c) 4))
               then c\<lparr>zc_parsing := True\<rparr> else c)
      in
        if \<not> zc_members_enabled c \<and> zc_parsing c \<and>
           (zc_position c < zc_start c \<or> zc_end c < saturating_add U64_MAX (zc_position c) n)
        then (c, Err InvalidData)
        else
          let probing = (\<not> zc_members_enabled c \<and> \<not> zc_parsing c \<and> zc_position c = zc_start c \<and> n = 4);
              len = (if zc_members_enabled c then n
                     else min n (saturating_sub (saturating_add U64_MAX (zc_eocd c) 22) position));
              out = cursor_read len (zc_bytes c) position;
              c = c\<lparr>zc_position := position + length out\<rparr>;
              out = (if zc_members_enabled c then out
                     else zero_at (zc_eocd c + 21) position (zero_at (zc_eocd c + 20) position out));
              c = (if probing \<and> length out = 4 \<and> out = HEADER_SIGNATURE then c\<lparr>zc_signature_probed := True\<rparr> else c)
          in (c, Ok out))"

definition zc_seek :: "seek_from \<Rightarrow> zip_cursor \<Rightarrow> zip_cursor \<times> (nat, io_error) result" where
  "zc_seek target c =
     (let redirected =
            (case target of
               SeekEnd delta \<Rightarrow>
                 if zc_members_enabled c then Ok target
                 else
                   let n = int (zc_eocd c + 22) + delta
                   in if 0 \<le> n \<and> n \<le> int U64_MAX then Ok (SeekStart (nat n)) else Err InvalidInput
             | _ \<Rightarrow> Ok target)
      in
        (case redirected of
           Err e \<Rightarrow> (c, Err e)
         | Ok target \<Rightarrow>
             if zc_parsing c \<and> \<not> zc_members_enabled c \<and>
                \<not> (case target of SeekStart v \<Rightarrow> v = zc_position c | SeekCurrent v \<Rightarrow> v = 0 | SeekEnd v \<Rightarrow> False)
             then (c, Err InvalidData)
             else
               let c = (if zc_signature_probed c \<and> \<not> zc_parsing c \<and> target = SeekStart (zc_start c)
                        then c\<lparr>zc_header_armed := True\<rparr> else c)
               in (case cursor_seek target (zc_bytes c) (zc_position c) of
                     Err e \<Rightarrow> (c, Err e)
                   | Ok p \<Rightarrow> (c\<lparr>zc_position := p\<rparr>, Ok p))))"

section \<open>The end record is unambiguous\<close>

lemma eocd_at_ends:
  assumes "eocd_at bytes p"
  shows "\<exists>comment. read_u16_le bytes (p + 20) = Some comment \<and> p + 22 + comment = length bytes"
proof -
  from assms obtain c where c: "read_u16_le bytes (saturating_add USIZE_MAX p 20) = Some c"
    and e: "p + 22 + c = length bytes" "p + 22 + c \<le> USIZE_MAX"
    by (auto simp: eocd_at_def EOCD_MIN_BYTES_def bind_eq_Some_conv result_simps split: option.splits)
  from e have "saturating_add USIZE_MAX p 20 = p + 20" by (simp add: saturating_add_exact)
  with c e show ?thesis by auto
qed

lemma eocd_window:
  assumes ok: "byte_slice_ok bytes" and at: "eocd_at bytes p"
  shows "length bytes - (22 + 65535) \<le> p" "p \<le> length bytes - 22" "22 \<le> length bytes"
proof -
  obtain c where c: "read_u16_le bytes (p + 20) = Some c" and e: "p + 22 + c = length bytes"
    using eocd_at_ends [OF at] by blast
  have "c \<le> 65535" using read_u16_bound [OF ok c] by (simp add: U16_MAX_def)
  with e show "length bytes - (22 + 65535) \<le> p" "p \<le> length bytes - 22" "22 \<le> length bytes" by simp_all
qed

lemma eocd_candidates:
  assumes ok: "byte_slice_ok bytes"
  shows "find_eocd bytes =
     (case filter (eocd_at bytes) (rev [length bytes - 65557 ..< Suc (length bytes - 22)]) of
        [] \<Rightarrow> Err EndRecordMissing | [p] \<Rightarrow> Ok p | p # others \<Rightarrow> Err EndRecordAmbiguous)"
proof (cases "length bytes < 22")
  case True
  then have "\<not> eocd_at bytes p" for p using eocd_window (3) [OF ok] by fastforce
  then have "eocd_at bytes = (\<lambda>_. False)" by auto
  with True show ?thesis by (simp add: find_eocd_def EOCD_MIN_BYTES_def)
next
  case False
  then show ?thesis
    by (simp add: find_eocd_def EOCD_MIN_BYTES_def MAX_ZIP_COMMENT_BYTES_def U16_MAX_def saturating_add_def
        saturating_sub_def USIZE_MAX_def U64_MAX_def Let_def del: upt_Suc)
qed

lemma set_eocd_candidates:
  "byte_slice_ok bytes \<Longrightarrow>
     set (filter (eocd_at bytes) (rev [length bytes - 65557 ..< Suc (length bytes - 22)])) = Collect (eocd_at bytes)"
  using eocd_window [of bytes] by (auto simp: less_Suc_eq_le simp del: upt_Suc)

lemma find_eocd_cases:
  assumes ok: "byte_slice_ok bytes"
  shows "find_eocd bytes = Ok p \<longleftrightarrow> Collect (eocd_at bytes) = {p}"
    and "find_eocd bytes = Err e \<longleftrightarrow>
           (Collect (eocd_at bytes) = {} \<and> e = EndRecordMissing) \<or>
           (\<exists>p q. p \<noteq> q \<and> eocd_at bytes p \<and> eocd_at bytes q) \<and> e = EndRecordAmbiguous"
proof -
  define xs where "xs = filter (eocd_at bytes) (rev [length bytes - 65557 ..< Suc (length bytes - 22)])"
  have set: "Collect (eocd_at bytes) = set xs" using set_eocd_candidates [OF ok] by (simp add: xs_def)
  have dist: "distinct xs" by (simp add: xs_def del: upt_Suc)
  have eq: "find_eocd bytes = (case xs of [] \<Rightarrow> Err EndRecordMissing | [p] \<Rightarrow> Ok p | p # others \<Rightarrow> Err EndRecordAmbiguous)"
    using eocd_candidates [OF ok] by (simp add: xs_def)
  have at: "eocd_at bytes p \<longleftrightarrow> p \<in> set xs" for p using set by blast
  consider "xs = []" | q where "xs = [q]" | q r zs where "xs = q # r # zs" by (metis remdups_adj.cases)
  then have "(find_eocd bytes = Ok p \<longleftrightarrow> set xs = {p}) \<and>
      (find_eocd bytes = Err e \<longleftrightarrow>
           (set xs = {} \<and> e = EndRecordMissing) \<or>
           (\<exists>p q. p \<noteq> q \<and> p \<in> set xs \<and> q \<in> set xs) \<and> e = EndRecordAmbiguous)"
  proof cases
    case 3
    then have "q \<noteq> r" using dist by simp
    then have "set xs \<noteq> {p}" "\<exists>p q. p \<noteq> q \<and> p \<in> set xs \<and> q \<in> set xs" using 3 by auto
    then show ?thesis using 3 eq by auto
  qed (use eq in auto)
  then show "find_eocd bytes = Ok p \<longleftrightarrow> Collect (eocd_at bytes) = {p}"
    and "find_eocd bytes = Err e \<longleftrightarrow>
           (Collect (eocd_at bytes) = {} \<and> e = EndRecordMissing) \<or>
           (\<exists>p q. p \<noteq> q \<and> eocd_at bytes p \<and> eocd_at bytes q) \<and> e = EndRecordAmbiguous"
    by (simp_all add: set at)
qed

text \<open>What the ZIP64 record adds: it sits directly before its locator, which sits directly before the
  end record, and the directory it describes ends where it starts.\<close>

lemma zip64_record_extent:
  assumes "zip64_record_at bytes locator disk p"
  shows "\<exists>size. read_u64_le bytes (p + 4) = Some size \<and> 44 \<le> size \<and> p + 12 + size = locator"
proof -
  from assms obtain size where "read_u64_le bytes (saturating_add USIZE_MAX p 4) = Some size"
    and s: "44 \<le> size" "p + size + 12 = locator" "p + size + 12 \<le> USIZE_MAX"
    by (auto simp: zip64_record_at_def bind_eq_Some_conv result_simps split: if_splits)
  then show ?thesis by (auto simp: saturating_add_exact)
qed

lemma zip64_summary_layout:
  assumes "zip64_summary bytes eocd = Ok s"
  shows "zs_eocd s = eocd" "zs_directory_end s + 76 + zs_extensible_bytes s = eocd"
    "\<exists>off. zs_archive_offset s = Ok off"
proof -
  from assms obtain locator earliest payload where l: "20 \<le> eocd" "locator = eocd - 20"
    and f: "find (zip64_record_at bytes locator 0) [earliest ..< locator] = Some (zs_directory_end s)"
    and pl: "read_u64_le bytes (zs_directory_end s + 4) = Some payload" "zs_extensible_bytes s = payload - 44"
    and eo: "zs_eocd s = eocd" and off: "\<exists>off. zs_archive_offset s = Ok off"
    by (auto simp: zip64_summary_def result_simps Let_def split: if_splits)
  have "zip64_record_at bytes locator 0 (zs_directory_end s)"
    using f by (auto simp: find_Some_iff)
  then obtain size where size: "read_u64_le bytes (zs_directory_end s + 4) = Some size" "44 \<le> size"
      "zs_directory_end s + 12 + size = locator"
    using zip64_record_extent by blast
  then have "size = payload" using pl by simp
  with size pl l show "zs_directory_end s + 76 + zs_extensible_bytes s = eocd" by simp
  show "zs_eocd s = eocd" by (rule eo)
  show "\<exists>off. zs_archive_offset s = Ok off" by (rule off)
qed

text \<open>
  C13. Preflight admits one archive framing and bounds it by the file: it answers with an end record
  exactly when the file has a single position whose signature and comment length reach exactly to the end
  of the file, and then the end record it reports is that position; with none it answers
  \<open>EndRecordMissing\<close>, with two \<open>EndRecordAmbiguous\<close>. The directory it reports lies inside the file before the
  end record, and behind a ZIP64 record it is followed without a gap by that record, its extensible data,
  the locator and the end record.
\<close>

theorem preflight_admits_one_framing:
  assumes ok: "byte_slice_ok bytes"
  shows "(Collect (eocd_at bytes) = {} \<longrightarrow> preflight bytes = Err EndRecordMissing) \<and>
    ((\<exists>p q. p \<noteq> q \<and> eocd_at bytes p \<and> eocd_at bytes q) \<longrightarrow> preflight bytes = Err EndRecordAmbiguous) \<and>
    (\<forall>s. preflight bytes = Ok s \<longrightarrow>
       Collect (eocd_at bytes) = {zs_eocd s} \<and>
       (\<exists>comment \<le> 65535. zs_eocd s + 22 + comment = length bytes) \<and>
       zs_metadata_bytes s \<le> zs_directory_end s \<and>
       (zs_directory_end s = zs_eocd s \<and> zs_extensible_bytes s = 0 \<or>
        zs_directory_end s + 76 + zs_extensible_bytes s = zs_eocd s))"
proof (intro conjI impI allI)
  assume "Collect (eocd_at bytes) = {}"
  then show "preflight bytes = Err EndRecordMissing"
    using find_eocd_cases (2) [OF ok, of EndRecordMissing] by (simp add: preflight_def)
next
  assume "\<exists>p q. p \<noteq> q \<and> eocd_at bytes p \<and> eocd_at bytes q"
  then show "preflight bytes = Err EndRecordAmbiguous"
    using find_eocd_cases (2) [OF ok, of EndRecordAmbiguous] by (simp add: preflight_def)
next
  fix s assume "preflight bytes = Ok s"
  then obtain eocd where eocd: "find_eocd bytes = Ok eocd"
    and s: "zip64_summary bytes eocd = Ok s \<or>
            zs_directory_end s = eocd \<and> zs_eocd s = eocd \<and> zs_extensible_bytes s = 0"
    and m: "zs_metadata_bytes s \<le> zs_directory_end s"
    by (auto simp: preflight_def result_simps split: if_splits)
  from s have at: "zs_eocd s = eocd" and lay: "zs_directory_end s = zs_eocd s \<and> zs_extensible_bytes s = 0 \<or>
      zs_directory_end s + 76 + zs_extensible_bytes s = zs_eocd s"
    using zip64_summary_layout by metis+
  show one: "Collect (eocd_at bytes) = {zs_eocd s}" using find_eocd_cases (1) [OF ok, of eocd] eocd at by simp
  then have "eocd_at bytes (zs_eocd s)" by blast
  then obtain c where "read_u16_le bytes (zs_eocd s + 20) = Some c" "zs_eocd s + 22 + c = length bytes"
    using eocd_at_ends by blast
  then show "\<exists>comment \<le> 65535. zs_eocd s + 22 + comment = length bytes"
    using read_u16_bound [OF ok] by (fastforce simp: U16_MAX_def)
  show "zs_metadata_bytes s \<le> zs_directory_end s" by (rule m)
  show "zs_directory_end s = zs_eocd s \<and> zs_extensible_bytes s = 0 \<or>
      zs_directory_end s + 76 + zs_extensible_bytes s = zs_eocd s" by (rule lay)
qed

text \<open>An archive with one directory header and no member name.\<close>

definition sample_zip :: byte_slice where
  "sample_zip = [80, 75, 1, 2] @ replicate 42 0 @
     [80, 75, 5, 6, 0, 0, 0, 0, 1, 0, 1, 0, 46, 0, 0, 0, 0, 0, 0, 0, 0, 0]"

definition sample_summary :: zip_summary where
  "sample_summary = \<lparr>zs_entries = 1, zs_metadata_bytes = 46, zs_directory_end = 46,
     zs_relative_directory_start = 0, zs_eocd = 46, zs_extensible_bytes = 0\<rparr>"

lemma sample_zip_ok: "byte_slice_ok sample_zip"
  by (simp add: sample_zip_def byte_slice_ok_def list_all_iff USIZE_MAX_def U64_MAX_def)

lemma sample_zip_preflight: "preflight sample_zip = Ok sample_summary"
  by code_simp

theorem preflight_admits_one_framing_witness:
  "preflight sample_zip = Ok sample_summary \<and> Collect (eocd_at sample_zip) = {46}"
proof -
  have "Collect (eocd_at sample_zip) = {zs_eocd sample_summary}"
    using preflight_admits_one_framing [OF sample_zip_ok] sample_zip_preflight by blast
  then show ?thesis using sample_zip_preflight by (simp add: sample_summary_def)
qed

section \<open>The directory is tiled exactly\<close>

text \<open>A directory of \<open>n\<close> file headers from \<open>p\<close> to \<open>de\<close>: headers that follow each other without a gap, with an
  optional digital signature that ends at \<open>de\<close>.\<close>

inductive directory_chain :: "byte_slice \<Rightarrow> nat \<Rightarrow> nat \<Rightarrow> nat \<Rightarrow> bool" for bytes de where
  chain_end: "directory_chain bytes de de 0"
| chain_signature:
    "p < de \<Longrightarrow> get_range bytes p (p + 4) = Some DIGITAL_SIGNATURE \<Longrightarrow>
     read_u16_le bytes (p + 4) = Some len \<Longrightarrow> p + 6 + len = de \<Longrightarrow> directory_chain bytes de p 0"
| chain_header:
    "p < de \<Longrightarrow> get_range bytes p (p + 4) = Some HEADER_SIGNATURE \<Longrightarrow>
     read_u16_le bytes (p + 28) = Some name \<Longrightarrow> read_u16_le bytes (p + 30) = Some extra \<Longrightarrow>
     read_u16_le bytes (p + 32) = Some comment \<Longrightarrow> e = p + 46 + name + extra + comment \<Longrightarrow> e \<le> de \<Longrightarrow>
     directory_chain bytes de e n \<Longrightarrow> directory_chain bytes de p (Suc n)"

inductive_simps chain_at_iff: "directory_chain bytes de p n"

lemma chain_size: "directory_chain bytes de p n \<Longrightarrow> p \<le> de \<and> p + 46 * n \<le> de"
  by (induction rule: directory_chain.induct) auto

lemma signature_at:
  assumes "length bytes \<le> USIZE_MAX" "length sig = 4"
  shows "get_range bytes p (saturating_add USIZE_MAX p 4) = Some sig \<longleftrightarrow> get_range bytes p (p + 4) = Some sig"
proof (cases "p + 4 \<le> USIZE_MAX")
  case False
  then have "get_range bytes p (saturating_add USIZE_MAX p 4) \<noteq> Some sig"
    using assms by (auto simp: get_range_Some saturating_add_def)
  moreover have "get_range bytes p (p + 4) = None" using False assms by (simp add: get_range_def)
  ultimately show ?thesis by simp
qed (simp add: saturating_add_exact)

lemma signature_lengths:
  assumes "length bytes \<le> USIZE_MAX"
  shows "get_range bytes p (saturating_add USIZE_MAX p 4) = Some DIGITAL_SIGNATURE \<longleftrightarrow>
           get_range bytes p (p + 4) = Some DIGITAL_SIGNATURE"
    and "get_range bytes p (saturating_add USIZE_MAX p 4) = Some HEADER_SIGNATURE \<longleftrightarrow>
           get_range bytes p (p + 4) = Some HEADER_SIGNATURE"
  by (rule signature_at [OF assms], simp add: DIGITAL_SIGNATURE_def HEADER_SIGNATURE_def)+

lemma signatures_differ: "DIGITAL_SIGNATURE \<noteq> HEADER_SIGNATURE"
  by (simp add: DIGITAL_SIGNATURE_def HEADER_SIGNATURE_def)

lemma directory_round_done:
  assumes "length bytes \<le> USIZE_MAX" "de \<le> USIZE_MAX"
  shows "directory_round bytes de p = Ok Directory_Done \<longleftrightarrow>
    get_range bytes p (p + 4) = Some DIGITAL_SIGNATURE \<and> (\<exists>len. read_u16_le bytes (p + 4) = Some len \<and> p + 6 + len = de)"
  using assms by (auto simp: directory_round_def signature_lengths result_simps bind_eq_Some_conv split: if_splits)

lemma directory_round_next:
  assumes "length bytes \<le> USIZE_MAX" "de \<le> USIZE_MAX"
  shows "directory_round bytes de p = Ok (Directory_Next e) \<longleftrightarrow>
    get_range bytes p (p + 4) = Some HEADER_SIGNATURE \<and> e \<le> de \<and>
    (\<exists>name extra comment. read_u16_le bytes (p + 28) = Some name \<and> read_u16_le bytes (p + 30) = Some extra \<and>
       read_u16_le bytes (p + 32) = Some comment \<and> e = p + 46 + name + extra + comment)"
proof
  assume "directory_round bytes de p = Ok (Directory_Next e)"
  then show "get_range bytes p (p + 4) = Some HEADER_SIGNATURE \<and> e \<le> de \<and>
    (\<exists>name extra comment. read_u16_le bytes (p + 28) = Some name \<and> read_u16_le bytes (p + 30) = Some extra \<and>
       read_u16_le bytes (p + 32) = Some comment \<and> e = p + 46 + name + extra + comment)"
    using assms
    by (auto simp: directory_round_def signature_lengths result_simps bind_eq_Some_conv split: if_splits)
next
  assume "get_range bytes p (p + 4) = Some HEADER_SIGNATURE \<and> e \<le> de \<and>
    (\<exists>name extra comment. read_u16_le bytes (p + 28) = Some name \<and> read_u16_le bytes (p + 30) = Some extra \<and>
       read_u16_le bytes (p + 32) = Some comment \<and> e = p + 46 + name + extra + comment)"
  then show "directory_round bytes de p = Ok (Directory_Next e)"
    using assms signatures_differ
    by (auto simp: directory_round_def signature_lengths saturating_add_def checked_add_def add.assoc)
qed

lemma chain_unfold:
  assumes "length bytes \<le> USIZE_MAX" "de \<le> USIZE_MAX" "p < de"
  shows "directory_chain bytes de p n \<longleftrightarrow>
    directory_round bytes de p = Ok Directory_Done \<and> n = 0 \<or>
    (\<exists>e k. directory_round bytes de p = Ok (Directory_Next e) \<and> n = Suc k \<and> directory_chain bytes de e k)"
  unfolding directory_round_done [OF assms (1,2)] directory_round_next [OF assms (1,2)]
  by (subst chain_at_iff) (use assms (3) in blast)

lemma chain_stop: "directory_chain bytes de de n \<longleftrightarrow> n = 0"
  by (subst chain_at_iff) simp

lemma validate_loop_iff:
  assumes "length bytes \<le> USIZE_MAX" "zs_directory_end s \<le> USIZE_MAX" "p \<le> zs_directory_end s"
  shows "validate_loop bytes s p count = Ok c \<longleftrightarrow>
    (\<exists>n. directory_chain bytes (zs_directory_end s) p n \<and> c = count + n \<and> (n = 0 \<or> c \<le> zs_entries s))"
  using assms
proof (induction bytes s p count rule: validate_loop.induct)
  case (1 bytes s p count)
  let ?de = "zs_directory_end s"
  note loop = validate_loop.simps [of bytes s p count]
  show ?case
  proof (cases "p < ?de")
    case False
    then have "p = ?de" using 1 by simp
    then have "directory_chain bytes ?de p n \<longleftrightarrow> n = 0" for n by (simp add: chain_stop)
    moreover have "validate_loop bytes s p count = Ok count" using False by (simp add: loop)
    ultimately show ?thesis by auto
  next
    case True
    note chain = chain_unfold [OF 1 (2,3) True]
    consider e where "directory_round bytes ?de p = Err e" | "directory_round bytes ?de p = Ok Directory_Done"
      | e where "directory_round bytes ?de p = Ok (Directory_Next e)"
      by (metis result.exhaust directory_item.exhaust)
    then show ?thesis
    proof cases
      case (3 e)
      have e: "e \<le> ?de" using directory_round_progress [OF 3] by simp
      show ?thesis
      proof (cases "zs_entries s < count + 1")
        case over: True
        have "validate_loop bytes s p count = Err DirectoryEntryCountMismatch" using True 3 over by (simp add: loop)
        then show ?thesis using 3 over by (auto simp: chain)
      next
        case False
        have "validate_loop bytes s p count = validate_loop bytes s e (count + 1)"
          using True 3 False by (simp add: loop)
        then show ?thesis
          using False 3 1 (1) [OF True 3 refl False 1 (2,3) e] by (auto simp: chain)
      qed
    qed (use True in \<open>auto simp: loop chain\<close>)
  qed
qed

text \<open>
  C14. The directory walk accepts exactly the directories that are what the end record says: \<open>validate_directory\<close>
  returns on every directory, and it succeeds if and only if the directory starts at or after the declared
  offset and is tiled, without a gap and up to its declared end, by as many file headers as declared, with an
  optional digital signature last. An accepted entry count is therefore at most a 46th of the directory's
  bytes, so it bounds what a parser of the directory allocates.
\<close>

theorem validate_directory_exact:
  assumes ok: "byte_slice_ok bytes" and pre: "preflight bytes = Ok s"
  shows "(validate_directory bytes s = Ok () \<longleftrightarrow>
      (\<exists>start. start + zs_metadata_bytes s = zs_directory_end s \<and> zs_relative_directory_start s \<le> start \<and>
         directory_chain bytes (zs_directory_end s) start (zs_entries s))) \<and>
    (validate_directory bytes s = Ok () \<longrightarrow> 46 * zs_entries s \<le> zs_metadata_bytes s)"
proof -
  have len: "length bytes \<le> USIZE_MAX" using ok by (simp add: byte_slice_ok_def)
  obtain eocd where eocd: "find_eocd bytes = Ok eocd"
    and de: "zs_directory_end s \<le> eocd" and m: "zs_metadata_bytes s \<le> zs_directory_end s"
    using pre zip64_summary_layout (2) by (fastforce simp: preflight_def result_simps split: if_splits)
  have "eocd_at bytes eocd" using find_eocd_cases (1) [OF ok, of eocd] eocd by blast
  then have de_len: "zs_directory_end s \<le> USIZE_MAX" using eocd_window (2) [OF ok] de len by fastforce
  define start where "start = zs_directory_end s - zs_metadata_bytes s"
  have st: "start + zs_metadata_bytes s = zs_directory_end s" "start \<le> zs_directory_end s" using m by (simp_all add: start_def)
  have start: "zs_start s = Ok start" using m de_len by (simp add: zs_start_def start_def arith_defs)
  have off: "zs_archive_offset s = (if zs_relative_directory_start s \<le> start
      then Ok (start - zs_relative_directory_start s) else Err DirectoryOutOfBounds)"
    using st de_len by (simp add: zs_archive_offset_def start arith_defs USIZE_MAX_def)
  have "validate_directory bytes s = Ok () \<longleftrightarrow>
      zs_relative_directory_start s \<le> start \<and> directory_chain bytes (zs_directory_end s) start (zs_entries s)"
    using validate_loop_iff [OF len de_len st (2), of 0]
    by (auto simp: validate_directory_def start off result_simps split: if_splits)
  moreover have "(\<exists>k. k + zs_metadata_bytes s = zs_directory_end s \<and> P k) \<longleftrightarrow> P start" for P
    using st (1) by (metis add_right_cancel)
  moreover have "46 * zs_entries s \<le> zs_metadata_bytes s"
    if "directory_chain bytes (zs_directory_end s) start (zs_entries s)"
    using chain_size [OF that] st (1) by linarith
  ultimately show ?thesis by simp
qed

theorem validate_directory_exact_witness:
  "validate_directory sample_zip sample_summary = Ok () \<and>
   directory_chain sample_zip 46 0 1"
proof -
  have v: "validate_directory sample_zip sample_summary = Ok ()" by code_simp
  then have "directory_chain sample_zip 46 0 1"
    using validate_directory_exact [OF sample_zip_ok sample_zip_preflight] by (auto simp: sample_summary_def)
  with v show ?thesis by simp
qed

section \<open>What the metadata reader can see\<close>

definition zc_ok :: "zip_cursor \<Rightarrow> bool" where
  "zc_ok c \<longleftrightarrow> zc_end c \<le> zc_eocd c \<and> zc_eocd c + 22 \<le> length (zc_bytes c) \<and> length (zc_bytes c) \<le> USIZE_MAX"

text \<open>The archive without its comment.\<close>

definition metadata_view :: "zip_cursor \<Rightarrow> byte_slice" where
  "metadata_view c = (take (zc_eocd c + 22) (zc_bytes c))[zc_eocd c + 20 := 0, zc_eocd c + 21 := 0]"

lemma zero_at_cursor_read:
  assumes "e < length bytes"
  shows "zero_at e pos (cursor_read n bytes pos) = cursor_read n (bytes[e := 0]) pos"
  using assms by (intro nth_equalityI) (auto simp: zero_at_def cursor_read_def nth_list_update)

lemma cursor_read_take: "cursor_read (min n (k - pos)) bytes pos = cursor_read n (take k bytes) pos"
  by (simp add: cursor_read_def drop_take)

lemma zc_read_frame:
  "zc_read n c = (c', r) \<Longrightarrow> zc_bytes c' = zc_bytes c \<and> zc_start c' = zc_start c \<and> zc_end c' = zc_end c \<and>
     zc_eocd c' = zc_eocd c \<and> zc_members_enabled c' = zc_members_enabled c \<and> (zc_parsing c \<longrightarrow> zc_parsing c')"
  by (auto simp: zc_read_def Let_def split: if_splits)

lemma zc_seek_frame:
  "zc_seek t c = (c', r) \<Longrightarrow> zc_bytes c' = zc_bytes c \<and> zc_start c' = zc_start c \<and> zc_end c' = zc_end c \<and>
     zc_eocd c' = zc_eocd c \<and> zc_members_enabled c' = zc_members_enabled c \<and> zc_parsing c' = zc_parsing c"
  by (auto simp: zc_seek_def Let_def split: if_splits result.splits seek_from.splits)

lemma zc_read_metadata:
  assumes "zc_ok c" "\<not> zc_members_enabled c" "zc_read n c = (c', Ok out)"
  shows "out = cursor_read n (metadata_view c) (zc_position c) \<and> zc_position c' = zc_position c + length out"
proof -
  have e: "saturating_add U64_MAX (zc_eocd c) 22 = zc_eocd c + 22"
    using assms (1) by (simp add: zc_ok_def saturating_add_def USIZE_MAX_def)
  have view: "zero_at (zc_eocd c + 21) pos (zero_at (zc_eocd c + 20) pos
      (cursor_read (min k (zc_eocd c + 22 - pos)) (zc_bytes c) pos)) = cursor_read k (metadata_view c) pos" for k pos
    using assms (1) by (simp add: cursor_read_take zero_at_cursor_read metadata_view_def zc_ok_def)
  have len: "length (zero_at j pos xs) = length xs" for j pos xs by (simp add: zero_at_def)
  have lenv: "length (cursor_read (min k (zc_eocd c + 22 - pos)) (zc_bytes c) pos) =
      length (cursor_read k (metadata_view c) pos)" for k pos
    unfolding view [symmetric] len ..
  show ?thesis using assms (2,3) by (auto simp: zc_read_def Let_def e saturating_sub_def view lenv split: if_splits)
qed

text \<open>Any sequence of reads and seeks a parser may issue, with the bytes the successful reads returned.\<close>

datatype zc_op = Zc_Read nat | Zc_Seek seek_from

fun zc_run :: "zc_op list \<Rightarrow> zip_cursor \<Rightarrow> zip_cursor \<times> byte_slice" where
  "zc_run [] c = (c, [])"
| "zc_run (Zc_Read n # ops) c =
     (case zc_read n c of
        (c', Ok out) \<Rightarrow> map_prod id ((@) out) (zc_run ops c')
      | (c', Err e) \<Rightarrow> zc_run ops c')"
| "zc_run (Zc_Seek t # ops) c = zc_run ops (fst (zc_seek t c))"

definition zc_confined :: "zip_cursor \<Rightarrow> bool" where
  "zc_confined c \<longleftrightarrow> zc_ok c \<and> zc_parsing c \<and> \<not> zc_members_enabled c"

lemma zc_read_confined_err: "zc_confined c \<Longrightarrow> zc_read n c = (c', Err e) \<Longrightarrow> c' = c"
  by (auto simp: zc_confined_def zc_read_def Let_def split: if_splits)

lemma zc_seek_confined:
  assumes "zc_confined c"
  shows "zc_position (fst (zc_seek t c)) = zc_position c \<and> fst (zc_seek t c) = c"
  using assms
  by (auto simp: zc_confined_def zc_seek_def cursor_seek_def Let_def split: if_splits result.splits seek_from.splits)

lemma metadata_view_directory:
  "zc_ok c \<Longrightarrow> p + n \<le> zc_end c \<Longrightarrow> cursor_read n (metadata_view c) p = cursor_read n (zc_bytes c) p"
  by (intro nth_equalityI) (auto simp: zc_ok_def cursor_read_def metadata_view_def nth_list_update)

lemma zc_read_confined:
  assumes c: "zc_confined c" and r: "zc_read n c = (c', Ok out)"
  shows "zc_confined c' \<and> zc_start c \<le> zc_position c \<and> zc_position c' = zc_position c + n \<and>
    zc_position c' \<le> zc_end c \<and> out = take n (drop (zc_position c) (zc_bytes c))"
proof -
  have in_range: "zc_start c \<le> zc_position c" "saturating_add U64_MAX (zc_position c) n \<le> zc_end c"
    using c r by (auto simp: zc_confined_def zc_read_def Let_def split: if_splits)
  have e: "zc_end c + 22 \<le> length (zc_bytes c)" "zc_end c + 22 \<le> U64_MAX"
    using c by (auto simp: zc_confined_def zc_ok_def USIZE_MAX_def)
  then have n: "zc_position c + n \<le> zc_end c" using in_range by (auto simp: saturating_add_def min_def split: if_splits)
  have m: "out = cursor_read n (metadata_view c) (zc_position c)" "zc_position c' = zc_position c + length out"
    using zc_read_metadata [of c n c' out] c r by (auto simp: zc_confined_def)
  have out: "out = take n (drop (zc_position c) (zc_bytes c))"
    using m (1) metadata_view_directory [OF _ n] c by (simp add: zc_confined_def cursor_read_def)
  then have "length out = n" using n e by simp
  moreover have "zc_confined c'" using c zc_read_frame [OF r] by (auto simp: zc_confined_def zc_ok_def)
  ultimately show ?thesis using m (2) out n in_range by simp
qed

lemma take_drop_glue: "take n (drop p bs) @ take m (drop (p + n) bs) = take (n + m) (drop p bs)"
  by (simp add: take_add add.commute [of p n])

lemma zc_run_sequential:
  assumes "zc_confined c" "zc_run ops c = (c', outs)"
  shows "zc_confined c' \<and> zc_bytes c' = zc_bytes c \<and> zc_start c' = zc_start c \<and> zc_end c' = zc_end c \<and>
    zc_position c \<le> zc_position c' \<and>
    outs = take (zc_position c' - zc_position c) (drop (zc_position c) (zc_bytes c)) \<and>
    (zc_position c' \<noteq> zc_position c \<longrightarrow> zc_start c \<le> zc_position c \<and> zc_position c' \<le> zc_end c)"
  using assms
proof (induction ops arbitrary: c outs)
  case Nil
  then show ?case by simp
next
  case (Cons op ops)
  show ?case
  proof (cases op)
    case (Zc_Seek t)
    then show ?thesis using Cons zc_seek_confined [OF Cons (2), of t] by simp
  next
    case (Zc_Read n)
    obtain d r where d: "zc_read n c = (d, r)" by fastforce
    show ?thesis
    proof (cases r)
      case (Err e)
      have "d = c" by (rule zc_read_confined_err [OF Cons (2) d [unfolded Err]])
      then have "zc_run ops c = (c', outs)" using Cons (3) d Err Zc_Read by simp
      then show ?thesis by (rule Cons.IH [OF Cons (2)])
    next
      case (Ok out)
      obtain outs' where run: "zc_run ops d = (c', outs')" "outs = out @ outs'"
        using Cons (3) d Ok Zc_Read by (auto simp: map_prod_def split: prod.splits)
      note step = zc_read_confined [OF Cons (2) d [unfolded Ok]] and frame = zc_read_frame [OF d]
      have conf: "zc_confined d" using step by simp
      show ?thesis
        using Cons.IH [OF conf run (1)] step frame run (2)
          take_drop_glue [of n "zc_position c" "zc_bytes c" "zc_position c' - (zc_position c + n)"]
        by auto
    qed
  qed
qed

lemma zc_run_frame:
  "zc_run ops c = (c', outs) \<Longrightarrow> zc_bytes c' = zc_bytes c \<and> zc_start c' = zc_start c \<and> zc_end c' = zc_end c \<and>
     zc_eocd c' = zc_eocd c \<and> zc_members_enabled c' = zc_members_enabled c"
proof (induction ops arbitrary: c outs)
  case Nil
  then show ?case by simp
next
  case (Cons op ops)
  show ?case
  proof (cases op)
    case (Zc_Read n)
    obtain d r where d: "zc_read n c = (d, r)" by fastforce
    then obtain outs' where "zc_run ops d = (c', outs')"
      using Cons (2) Zc_Read by (auto simp: map_prod_def split: prod.splits result.splits)
    then show ?thesis using Cons.IH zc_read_frame [OF d] by auto
  next
    case (Zc_Seek t)
    obtain d r where d: "zc_seek t c = (d, r)" by fastforce
    then have "zc_run ops d = (c', outs)" using Cons (2) Zc_Seek by simp
    then show ?thesis using Cons.IH zc_seek_frame [OF d] by auto
  qed
qed

text \<open>
  C15. The admitted cursor confines the archive parser. While members are not enabled, a read returns the
  bytes of the archive without its comment (cut after the end record, whose comment length reads as zero), so
  a second end record hidden in the comment is never seen. Once the parser has begun its first directory
  header, no sequence of reads and seeks takes it anywhere else: the bytes all its successful reads return are,
  in order, one contiguous piece of the admitted directory.
\<close>

theorem admitted_cursor_confines:
  assumes ok: "byte_slice_ok bytes" and pre: "preflight bytes = Ok s" and new: "zc_new bytes s = Ok c\<^sub>0"
    and run: "zc_run ops c\<^sub>0 = (c, outs)"
  shows "(\<forall>n c' out. zc_read n c = (c', Ok out) \<longrightarrow>
            out = take n (drop (zc_position c) ((take (zs_eocd s + 22) bytes)[zs_eocd s + 20 := 0, zs_eocd s + 21 := 0]))) \<and>
    (zc_parsing c \<longrightarrow> (\<forall>ops' c' outs'. zc_run ops' c = (c', outs') \<longrightarrow>
       zc_parsing c' \<and> outs' = take (zc_position c' - zc_position c) (drop (zc_position c) bytes) \<and>
       (outs' \<noteq> [] \<longrightarrow> zs_directory_end s - zs_metadata_bytes s \<le> zc_position c \<and> zc_position c' \<le> zs_directory_end s)))"
proof -
  obtain eocd where eocd: "find_eocd bytes = Ok eocd" and e: "zs_eocd s = eocd" "zs_directory_end s \<le> eocd"
    using pre zip64_summary_layout (1,2) by (fastforce simp: preflight_def result_simps split: if_splits)
  have "eocd_at bytes eocd" using find_eocd_cases (1) [OF ok, of eocd] eocd by blast
  then have "zc_ok c\<^sub>0 \<and> \<not> zc_members_enabled c\<^sub>0" and f0: "zc_bytes c\<^sub>0 = bytes" "zc_eocd c\<^sub>0 = zs_eocd s"
    "zc_start c\<^sub>0 = zs_directory_end s - zs_metadata_bytes s" "zc_end c\<^sub>0 = zs_directory_end s"
    using new e ok eocd_window (2,3) [OF ok]
    by (fastforce simp: zc_new_def zs_start_def zc_ok_def byte_slice_ok_def result_simps)+
  then have c: "zc_ok c" "\<not> zc_members_enabled c" "zc_bytes c = bytes" "zc_eocd c = zs_eocd s"
    "zc_start c = zs_directory_end s - zs_metadata_bytes s" "zc_end c = zs_directory_end s"
    using zc_run_frame [OF run] by (simp_all add: zc_ok_def)
  show ?thesis
  proof (intro conjI impI allI)
    fix n c' out assume "zc_read n c = (c', Ok out)"
    then show "out = take n (drop (zc_position c) ((take (zs_eocd s + 22) bytes)[zs_eocd s + 20 := 0, zs_eocd s + 21 := 0]))"
      using zc_read_metadata [OF c (1,2)] c (3,4) by (auto simp: cursor_read_def metadata_view_def)
  next
    fix ops' c' outs' assume "zc_parsing c" and "zc_run ops' c = (c', outs')"
    then show "zc_parsing c'" "outs' = take (zc_position c' - zc_position c) (drop (zc_position c) bytes)"
      "outs' \<noteq> [] \<Longrightarrow> zs_directory_end s - zs_metadata_bytes s \<le> zc_position c"
      "outs' \<noteq> [] \<Longrightarrow> zc_position c' \<le> zs_directory_end s"
      using zc_run_sequential [of c ops' c' outs'] c by (auto simp: zc_confined_def)
  qed
qed

definition sample_cursor :: zip_cursor where
  "sample_cursor = \<lparr>zc_bytes = sample_zip, zc_position = 0, zc_start = 0, zc_end = 46, zc_eocd = 46,
     zc_parsing = False, zc_signature_probed = False, zc_header_armed = False, zc_members_enabled = False\<rparr>"

definition sample_probe :: "zc_op list" where
  "sample_probe = [Zc_Read 4, Zc_Seek (SeekStart 0), Zc_Read 4]"

theorem admitted_cursor_confines_witness:
  "zc_parsing (fst (zc_run sample_probe sample_cursor)) \<and>
   (\<forall>ops. snd (zc_run ops (fst (zc_run sample_probe sample_cursor))) = take
      (zc_position (fst (zc_run ops (fst (zc_run sample_probe sample_cursor)))) - 4) (drop 4 sample_zip))"
proof -
  have new: "zc_new sample_zip sample_summary = Ok sample_cursor" by code_simp
  have st: "zc_parsing (fst (zc_run sample_probe sample_cursor))" "zc_position (fst (zc_run sample_probe sample_cursor)) = 4"
    by code_simp+
  note main = admitted_cursor_confines [OF sample_zip_ok sample_zip_preflight new surjective_pairing]
  show ?thesis
    using conjunct2 [OF main, rule_format, OF st (1) surjective_pairing] st by simp
qed

end
