(* ===== verification/Xz_Encoding.thy ===== *)
theory Xz_Encoding
  imports Byte_Reader
begin

unbundle bit_operations_syntax

text \<open>
  The primitive encodings of the XZ metadata preflight: errors, CRC-32, variable-length integers, the LZMA2
  dictionary property and the bounded cursor reads of
  \<open>crates/services/attachment/crates/attachment-native-inspect/src/xz_preflight.rs\<close>.

  A byte is a natural number below 256 and offsets are naturals; the CRC is computed on 32-bit words. The
  source indexes slices in several places, which panics out of range: those are explicit here, as the failure
  \<open>Panicked\<close>, and the development proves that no input reaches one. A function that advances a cursor returns the
  new cursor with its result; every error leaves the whole preflight, so the cursor of a failed call is not
  observable.
\<close>

section \<open>Errors\<close>

datatype xz_class = Malformed | Unsupported | Limit

record xz_error =
  xe_code :: string
  xe_class :: xz_class
  xe_message :: string

datatype xz_failure = Preflight_Error xz_error | Panicked

type_synonym 'a xz_result = "('a, xz_failure) result"

definition xz_malformed :: "string \<Rightarrow> string \<Rightarrow> xz_failure" where
  "xz_malformed code message = Preflight_Error \<lparr>xe_code = code, xe_class = Malformed, xe_message = message\<rparr>"

definition xz_unsupported :: "string \<Rightarrow> string \<Rightarrow> xz_failure" where
  "xz_unsupported code message = Preflight_Error \<lparr>xe_code = code, xe_class = Unsupported, xe_message = message\<rparr>"

definition xz_limit :: "string \<Rightarrow> nat \<Rightarrow> nat \<Rightarrow> string \<Rightarrow> xz_failure" where
  "xz_limit code requested maximum label = Preflight_Error \<lparr>xe_code = code, xe_class = Limit,
     xe_message = label @ '' requested '' @ show_nat requested @ '' bytes/items; the limit is '' @ show_nat maximum @ ''.''\<rparr>"

text \<open>Indexing, \<open>bytes[i]\<close> and \<open>bytes[a..b]\<close>.\<close>

definition index_byte :: "byte_slice \<Rightarrow> nat \<Rightarrow> nat xz_result" where
  "index_byte bytes i = ok_or Panicked (get_byte bytes i)"

definition index_range :: "byte_slice \<Rightarrow> nat \<Rightarrow> nat \<Rightarrow> byte_slice xz_result" where
  "index_range bytes a b = ok_or Panicked (get_range bytes a b)"

section \<open>Primitive encodings\<close>

definition STREAM_HEADER_BYTES :: nat where "STREAM_HEADER_BYTES = 12"
definition STREAM_FOOTER_BYTES :: nat where "STREAM_FOOTER_BYTES = 12"
definition LZMA2_FILTER_ID :: nat where "LZMA2_FILTER_ID = 0x21"
definition XZ_MAGIC :: byte_slice where "XZ_MAGIC = [0xFD, 55, 122, 88, 90, 0]"

definition crc_bit :: "32 word \<Rightarrow> 32 word" where
  "crc_bit v = (let mask = 0 - (v AND 1) in drop_bit 1 v XOR (0xedb88320 AND mask))"

definition crc_byte :: "32 word \<Rightarrow> nat \<Rightarrow> 32 word" where
  "crc_byte v b = (crc_bit ^^ 8) (v XOR of_nat b)"

definition crc32 :: "byte_slice \<Rightarrow> 32 word" where
  "crc32 bytes = NOT (foldl crc_byte (- 1) bytes)"

definition validate_crc32 :: "byte_slice \<Rightarrow> byte_slice \<Rightarrow> string \<Rightarrow> string \<Rightarrow> unit xz_result" where
  "validate_crc32 bytes encoded code message =
     (if length encoded \<noteq> 4 then Err (xz_malformed code message)
      else if unat (crc32 bytes) \<noteq> from_le_bytes encoded then Err (xz_malformed code message)
      else Ok ())"

text \<open>The loop of \<open>parse_vli\<close>: \<open>k\<close> rounds are left, the next one has index \<open>9 - k\<close>.\<close>

primrec parse_vli_loop :: "nat \<Rightarrow> byte_slice \<Rightarrow> nat \<Rightarrow> nat \<Rightarrow> nat \<Rightarrow> (nat \<times> nat) xz_result" where
  "parse_vli_loop 0 bytes e v cursor =
     Err (xz_malformed ''xz_vli_overflow'' ''An XZ variable-length integer exceeds nine bytes.'')"
| "parse_vli_loop (Suc k) bytes e v cursor =
     (let index = 8 - k in
      if e \<le> cursor then Err (xz_malformed ''xz_vli_truncated'' ''An XZ variable-length integer is truncated.'')
      else res_bind (index_byte bytes cursor) (\<lambda>byte.
        if index = 8 \<and> 0x7f < byte then
          Err (xz_malformed ''xz_vli_overflow'' ''An XZ variable-length integer overflows 63 bits.'')
        else
          let v = v OR push_bit (index * 7) (byte AND 0x7f) in
          if byte AND 0x80 = 0 then
            (if 0 < index \<and> byte = 0 then
               Err (xz_malformed ''xz_vli_noncanonical'' ''An XZ variable-length integer is not minimally encoded.'')
             else Ok (v, cursor + 1))
          else parse_vli_loop k bytes e v (cursor + 1)))"

definition parse_vli :: "byte_slice \<Rightarrow> nat \<Rightarrow> nat \<Rightarrow> (nat \<times> nat) xz_result" where
  "parse_vli bytes cursor e = parse_vli_loop 9 bytes e 0 cursor"

definition decode_lzma2_dictionary :: "nat \<Rightarrow> nat xz_result" where
  "decode_lzma2_dictionary property =
     (if 40 < property then
        Err (xz_malformed ''xz_lzma2_property_invalid'' ''The XZ LZMA2 dictionary property is invalid.'')
      else if property = 40 then Ok U32_MAX
      else
        let base = 2 OR (property AND 1); shift = property div 2 + 11 in
        if shift < 64 then Ok (take_bit 64 (push_bit shift base))
        else Err (xz_malformed ''xz_lzma2_property_invalid'' ''The XZ LZMA2 dictionary size overflows.''))"

definition take_byte :: "byte_slice \<Rightarrow> nat \<Rightarrow> nat \<Rightarrow> string \<Rightarrow> (nat \<times> nat) xz_result" where
  "take_byte bytes cursor e label =
     (if e \<le> cursor then Err (xz_malformed ''xz_lzma2_truncated'' (''The '' @ label @ '' is truncated.''))
      else res_bind (index_byte bytes cursor) (\<lambda>byte. Ok (byte, cursor + 1)))"

definition take_u16_be :: "byte_slice \<Rightarrow> nat \<Rightarrow> nat \<Rightarrow> (nat \<times> nat) xz_result" where
  "take_u16_be bytes cursor e =
     res_bind (take_byte bytes cursor e ''XZ LZMA2 chunk size'') (\<lambda>(high, cursor).
     res_bind (take_byte bytes cursor e ''XZ LZMA2 chunk size'') (\<lambda>(low, cursor).
       Ok (256 * high + low, cursor)))"

definition skip_bytes :: "byte_slice \<Rightarrow> nat \<Rightarrow> nat \<Rightarrow> nat \<Rightarrow> string \<Rightarrow> nat xz_result" where
  "skip_bytes bytes cursor e count label =
     res_bind (ok_or (xz_malformed ''xz_lzma2_size_overflow'' (''The '' @ label @ '' is too large for this platform.''))
       (try_from USIZE_MAX count)) (\<lambda>count.
     res_bind (ok_or (xz_malformed ''xz_lzma2_size_overflow'' (''The '' @ label @ '' size overflows.''))
       (checked_add USIZE_MAX cursor count)) (\<lambda>next_cursor.
       if e < next_cursor \<or> get_range bytes cursor next_cursor = None
       then Err (xz_malformed ''xz_lzma2_truncated'' (''The '' @ label @ '' is truncated.''))
       else Ok next_cursor))"

lemma take_byte_Ok:
  "take_byte bytes cursor e label = Ok (b, c) \<longleftrightarrow> cursor < e \<and> cursor < length bytes \<and> b = bytes ! cursor \<and> c = cursor + 1"
  by (auto simp: take_byte_def index_byte_def get_byte_def result_simps split: if_splits)

lemma take_u16_be_Ok:
  "take_u16_be bytes cursor e = Ok (v, c) \<longleftrightarrow> cursor + 1 < e \<and> cursor + 1 < length bytes \<and>
     v = 256 * bytes ! cursor + bytes ! (cursor + 1) \<and> c = cursor + 2"
  by (auto simp: take_u16_be_def take_byte_Ok result_simps)

lemma skip_bytes_Ok:
  "skip_bytes bytes cursor e n label = Ok c \<longleftrightarrow>
     c = cursor + n \<and> n \<le> USIZE_MAX \<and> c \<le> USIZE_MAX \<and> c \<le> e \<and> c \<le> length bytes"
  by (auto simp: skip_bytes_def get_range_def result_simps split: if_splits)

section \<open>Evaluating the CRC\<close>

lemma funpow8: "(f ^^ 8) x = f (f (f (f (f (f (f (f x)))))))" by (simp add: numeral_eq_Suc)

lemma crc_bit_even_odd:
  assumes "m < 2147483648"
  shows "crc_bit (of_nat (2 * m)) = of_nat m" "crc_bit (of_nat (2 * m + 1)) = of_nat m XOR 0xedb88320"
proof -
  have u: "unat (of_nat (2 * m) :: 32 word) = 2 * m" "unat (of_nat (2 * m + 1) :: 32 word) = 2 * m + 1"
     "unat (of_nat m :: 32 word) = m"
    using assms by (simp_all only: unat_of_nat) simp_all
  have d: "drop_bit 1 (of_nat (2 * m) :: 32 word) = of_nat m" "drop_bit 1 (of_nat (2 * m + 1) :: 32 word) = of_nat m"
    by (rule word_unat_eq_iff [THEN iffD2], simp only: unat_drop_bit_eq u, simp add: drop_bit_Suc)+
  have a: "(of_nat (2 * m) :: 32 word) AND 1 = 0" "(of_nat (2 * m + 1) :: 32 word) AND 1 = 1"
    by (simp_all add: and_one_eq mod_2_eq_odd)
  show "crc_bit (of_nat (2 * m)) = of_nat m" "crc_bit (of_nat (2 * m + 1)) = of_nat m XOR 0xedb88320"
    unfolding crc_bit_def Let_def d a by simp_all
qed

lemma crc_bit_numeral:
  "numeral k < (2147483648::nat) \<Longrightarrow> crc_bit (numeral (Num.Bit0 k)) = numeral k"
  "numeral k < (2147483648::nat) \<Longrightarrow> crc_bit (numeral (Num.Bit1 k)) = numeral k XOR 0xedb88320"
proof -
  have n: "(numeral (Num.Bit0 k) :: 32 word) = of_nat (2 * numeral k)" "(numeral (Num.Bit1 k) :: 32 word) = of_nat (2 * numeral k + 1)"
    by simp_all
  show "numeral k < (2147483648::nat) \<Longrightarrow> crc_bit (numeral (Num.Bit0 k)) = numeral k"
   "numeral k < (2147483648::nat) \<Longrightarrow> crc_bit (numeral (Num.Bit1 k)) = numeral k XOR 0xedb88320"
    unfolding n using crc_bit_even_odd [of "numeral k"] by (simp_all only: of_nat_numeral)
qed

lemma crc_bit_const: "crc_bit 1 = 0xedb88320" "crc_bit 0 = 0" by (simp_all add: crc_bit_def)

lemma all_ones_numeral: "(- 1 :: 32 word) = 0xffffffff" by simp

lemma crc32_eval: "crc32 bytes = NOT (foldl crc_byte 0xffffffff bytes)" unfolding crc32_def all_ones_numeral ..

lemmas crc_eval = crc32_eval crc_byte_def funpow8 crc_bit_numeral crc_bit_const

section \<open>The CRC detects burst errors\<close>

lemma crc_bit_parity: "crc_bit v = drop_bit 1 v XOR (if even v then 0 else 0xedb88320)"
proof -
  have "0 - (v AND 1) = (if even v then 0 else - 1)" by (simp add: and_one_eq mod_2_eq_odd)
  then show ?thesis unfolding crc_bit_def Let_def by simp
qed

lemma crc_bit_linear: "crc_bit (a XOR b) = crc_bit a XOR crc_bit b"
  unfolding crc_bit_parity drop_bit_xor even_xor_iff
  by (cases "even a"; cases "even b") (simp_all only: if_True if_False not_True_eq_False simp_thms xor.right_neutral xor.assoc
      xor.left_commute xor.commute xor_self_eq xor.left_neutral)

lemma crc_bit_zero: "crc_bit v = 0 \<Longrightarrow> v = 0"
proof -
  assume z: "crc_bit v = 0"
  have "bit (crc_bit v) 31 \<longleftrightarrow> odd v"
    unfolding crc_bit_parity using bit_imp_le_length [of v 32] by (auto simp: bit_simps)
  then have even: "even v" using z by simp
  then have d: "drop_bit 1 v = 0" using z by (simp add: crc_bit_parity)
  show "v = 0"
  proof (rule bit_eqI)
    fix n show "bit v n \<longleftrightarrow> bit (0 :: 32 word) n"
    proof (cases n)
      case 0
      then show ?thesis using even by (simp add: bit_0)
    next
      case (Suc k)
      have "bit (drop_bit 1 v) k \<longleftrightarrow> bit v n" using Suc by (simp only: bit_drop_bit_eq o_def) simp
      then show ?thesis using d by simp
    qed
  qed
qed

lemma xor_cancel_iff: "(a :: 32 word) XOR c = b XOR c \<longleftrightarrow> a = b"
proof
  assume "a XOR c = b XOR c"
  then have "(a XOR c) XOR c = (b XOR c) XOR c" by simp
  then show "a = b" by (simp only: xor.assoc xor_self_eq xor.right_neutral)
qed simp

lemma crc_bits_linear: "(crc_bit ^^ n) (a XOR b) = (crc_bit ^^ n) a XOR (crc_bit ^^ n) b"
  by (induction n) (simp_all add: crc_bit_linear)

lemma crc_bits_inj:
  assumes "(crc_bit ^^ n) a = (crc_bit ^^ n) b"
  shows "a = b"
proof -
  have "(crc_bit ^^ n) v = 0 \<Longrightarrow> v = 0" for v
    by (induction n) (auto dest: crc_bit_zero)
  moreover have "(crc_bit ^^ n) (a XOR b) = 0" by (simp add: crc_bits_linear assms)
  ultimately have "a XOR b = 0" by blast
  then show ?thesis by (simp add: xor_cancel_iff [of a b b, symmetric])
qed

lemma crc_bits_shift: "2 ^ n * m < 4294967296 \<Longrightarrow> (crc_bit ^^ n) (of_nat (2 ^ n * m)) = of_nat m"
proof (induction n)
  case (Suc n)
  have "2 ^ n * m < 2147483648" using Suc (2) by (simp add: mult.commute)
  then have "crc_bit (of_nat (2 * (2 ^ n * m))) = of_nat (2 ^ n * m)" by (rule crc_bit_even_odd)
  moreover have "2 ^ n * m < 4294967296" using Suc (2) by (simp add: mult.commute)
  ultimately show ?case using Suc.IH by (simp add: funpow_swap1 mult.assoc)
qed simp

lemma and_push_bit:
  assumes "(w :: nat) < 2 ^ n"
  shows "w AND push_bit n b = 0"
proof (rule bit_eqI)
  fix m
  have "take_bit n w = w" using assms by (simp add: take_bit_nat_eq_self)
  then have "bit w m \<longleftrightarrow> m < n \<and> bit w m" by (metis bit_take_bit_iff)
  then show "bit (w AND push_bit n b) m \<longleftrightarrow> bit (0 :: nat) m" by (auto simp: bit_simps)
qed

lemma or_push_bit: "(w :: nat) < 2 ^ n \<Longrightarrow> w OR push_bit n b = w + 2 ^ n * b"
  using disjunctive_add_eq_or [OF and_push_bit] by (simp add: push_bit_eq_mult mult.commute)

lemma xor_push_bit:
  assumes "(w :: nat) < 2 ^ n"
  shows "of_nat w XOR of_nat (2 ^ n * b) = (of_nat (w + 2 ^ n * b) :: 32 word)"
proof -
  have "w XOR (2 ^ n * b) = w + 2 ^ n * b"
    using disjunctive_add_eq_xor [OF and_push_bit [OF assms, of b]] by (simp add: push_bit_eq_mult mult.commute)
  then show ?thesis by (metis of_nat_xor_eq)
qed

lemma from_le_bytes_append: "from_le_bytes (xs @ ys) = from_le_bytes xs + 256 ^ length xs * from_le_bytes ys"
  by (induction xs) (simp_all add: algebra_simps)

lemma from_le_bytes_inj:
  "length xs = length ys \<Longrightarrow> list_all (\<lambda>b. b < 256) xs \<Longrightarrow> list_all (\<lambda>b. b < 256) ys \<Longrightarrow>
   from_le_bytes xs = from_le_bytes ys \<Longrightarrow> xs = ys"
proof (induction xs ys rule: list_induct2)
  case (Cons x xs y ys)
  have "x mod 256 = (x + 256 * from_le_bytes xs) mod 256" "y mod 256 = (y + 256 * from_le_bytes ys) mod 256" by simp_all
  then have "x = y" using Cons by simp
  then show ?case using Cons by simp
qed simp

lemma crc_fold_word:
  "length bs \<le> 4 \<Longrightarrow> list_all (\<lambda>b. b < 256) bs \<Longrightarrow>
   foldl crc_byte v bs = (crc_bit ^^ (8 * length bs)) (v XOR of_nat (from_le_bytes bs))"
proof (induction bs rule: rev_induct)
  case (snoc b bs)
  let ?n = "8 * length bs"
  have w: "from_le_bytes bs < 2 ^ ?n" using from_le_bytes_bound [of bs] snoc by (simp add: power_mult)
  have "2 ^ ?n * b < 2 ^ ?n * 2 ^ 8" using snoc by simp
  also have "\<dots> \<le> (2 :: nat) ^ 32" unfolding power_add [symmetric] using snoc by (intro power_increasing) auto
  finally have b: "(of_nat b :: 32 word) = (crc_bit ^^ ?n) (of_nat (2 ^ ?n * b))" by (subst crc_bits_shift) simp_all
  have "foldl crc_byte v (bs @ [b]) = (crc_bit ^^ 8) ((crc_bit ^^ ?n) (v XOR of_nat (from_le_bytes bs)) XOR of_nat b)"
    using snoc by (simp add: crc_byte_def [of _ b])
  also have "\<dots> = (crc_bit ^^ (8 + ?n)) (v XOR (of_nat (from_le_bytes bs) XOR of_nat (2 ^ ?n * b)))"
    by (subst b) (simp add: crc_bits_linear funpow_add xor.assoc del: of_nat_mult)
  also have "\<dots> = (crc_bit ^^ (8 + ?n)) (v XOR of_nat (from_le_bytes (bs @ [b])))"
    unfolding xor_push_bit [OF w] from_le_bytes_append by (simp add: power_mult)
  finally show ?case by simp
qed simp

lemma crc_fold_inj: "foldl crc_byte v bs = foldl crc_byte w bs \<Longrightarrow> v = w"
proof (induction bs arbitrary: v w)
  case (Cons b bs)
  then have "crc_byte v b = crc_byte w b" by simp
  then have "v XOR of_nat b = w XOR of_nat b" unfolding crc_byte_def by (rule crc_bits_inj)
  then show ?case by (simp only: xor_cancel_iff)
qed simp

text \<open>
  C16. The checksum of the XZ metadata detects every burst error of up to 32 bits: byte strings that differ
  only inside four adjacent bytes never have the same CRC-32, whatever surrounds them.
\<close>

theorem crc32_detects_bursts:
  assumes "length old = length new" "length old \<le> 4" "old \<noteq> new"
    and "list_all (\<lambda>b. b < 256) old" "list_all (\<lambda>b. b < 256) new"
  shows "crc32 (before @ old @ after) \<noteq> crc32 (before @ new @ after)"
proof
  assume "crc32 (before @ old @ after) = crc32 (before @ new @ after)"
  then have "foldl crc_byte (foldl crc_byte (foldl crc_byte (- 1) before) old) after =
      foldl crc_byte (foldl crc_byte (foldl crc_byte (- 1) before) new) after"
    by (metis crc32_def foldl_append bit.double_compl)
  then have "foldl crc_byte (foldl crc_byte (- 1) before) old = foldl crc_byte (foldl crc_byte (- 1) before) new"
    by (rule crc_fold_inj)
  then have "foldl crc_byte (- 1) before XOR of_nat (from_le_bytes old) = foldl crc_byte (- 1) before XOR of_nat (from_le_bytes new)"
    using crc_bits_inj assms by (simp add: crc_fold_word)
  then have "(of_nat (from_le_bytes old) :: 32 word) = of_nat (from_le_bytes new)"
    by (simp only: xor.commute [of "foldl crc_byte (- 1) before"] xor_cancel_iff)
  moreover have "from_le_bytes bs < 2 ^ 32" if "length bs \<le> 4" "list_all (\<lambda>b. b < 256) bs" for bs
  proof -
    have "from_le_bytes bs < 256 ^ length bs" using that from_le_bytes_bound by blast
    also have "\<dots> \<le> 256 ^ 4" using that by (intro power_increasing) auto
    finally show ?thesis by simp
  qed
  then have "unat (of_nat (from_le_bytes bs) :: 32 word) = from_le_bytes bs"
    if "length bs \<le> 4" "list_all (\<lambda>b. b < 256) bs" for bs
    using that by (simp add: unat_of_nat)
  ultimately have "from_le_bytes old = from_le_bytes new" using assms by metis
  then show False using from_le_bytes_inj assms by blast
qed

theorem crc32_detects_bursts_witness: "crc32 [1, 2, 3, 4, 5, 6] \<noteq> crc32 [1, 2, 9, 255, 0, 6]"
  using crc32_detects_bursts [of "[3, 4, 5]" "[9, 255, 0]" "[1, 2]" "[6]"] by simp

section \<open>Variable-length integers are canonical\<close>

text \<open>The encoding of the XZ format: seven bits a byte, least significant first, with the top bit set on every
  byte but the last.\<close>

fun encode_vli :: "nat \<Rightarrow> byte_slice" where
  "encode_vli v = (if v < 128 then [v] else (v mod 128 + 128) # encode_vli (v div 128))"

declare encode_vli.simps [simp del]

lemma encode_vli_Cons:
  "encode_vli v = b # bs \<longleftrightarrow> (v < 128 \<and> b = v \<and> bs = []) \<or> (128 \<le> v \<and> b = v mod 128 + 128 \<and> bs = encode_vli (v div 128))"
  by (subst encode_vli.simps) auto

lemma encode_vli_not_Nil [simp]: "encode_vli v \<noteq> []"
  by (subst encode_vli.simps) auto

lemma byte_masks:
  fixes b :: nat
  shows "b < 256 \<Longrightarrow> b AND 0x7f = b mod 128" and "b < 256 \<Longrightarrow> b AND 0x80 = 0 \<longleftrightarrow> b < 128"
proof -
  show "b AND 0x7f = b mod 128" using take_bit_eq_mask [of 7 b] by (simp add: mask_eq_exp_minus_1 take_bit_eq_mod)
  assume b: "b < 256"
  have "b AND 0x80 = 0 \<longleftrightarrow> \<not> bit b 7"
    using and_exp_eq_0_iff_not_bit [of b 7] by simp
  also have "\<dots> \<longleftrightarrow> even (b div 128)" by (simp add: bit_iff_odd)
  also have "\<dots> \<longleftrightarrow> b < 128"
  proof (cases "b < 128")
    case False
    then have "b div 128 = 1" using b by simp
    then show ?thesis using False by simp
  qed simp
  finally show "b AND 0x80 = 0 \<longleftrightarrow> b < 128" .
qed

text \<open>The canonical encoding of \<open>w\<close> stands at positions \<open>c\<close> to \<open>c'\<close>.\<close>

definition vli_at :: "byte_slice \<Rightarrow> nat \<Rightarrow> nat \<Rightarrow> nat \<Rightarrow> nat \<Rightarrow> bool" where
  "vli_at bytes e c c' w \<longleftrightarrow> c' = c + length (encode_vli w) \<and> c' \<le> e \<and> c' \<le> length bytes \<and>
     take (c' - c) (drop c bytes) = encode_vli w"

lemma vli_at_in_range: "vli_at bytes e c c' w \<Longrightarrow> c < c' \<and> c' \<le> e \<and> c' \<le> length bytes"
  by (simp add: vli_at_def)

lemma vli_at_last:
  assumes "c < e" "c < length bytes" "bytes ! c < 128"
  shows "vli_at bytes e c c' w \<longleftrightarrow> w = bytes ! c \<and> c' = c + 1"
proof -
  have d: "drop c bytes = bytes ! c # drop (Suc c) bytes" using assms by (simp add: Cons_nth_drop_Suc)
  obtain b bs where w: "encode_vli w = b # bs" using encode_vli_not_Nil list.exhaust by blast
  show ?thesis
  proof
    assume at: "vli_at bytes e c c' w"
    then have "b = bytes ! c" using w d by (auto simp: vli_at_def)
    then have "w = bytes ! c" "bs = []" using w assms (3) by (auto simp: encode_vli_Cons)
    then show "w = bytes ! c \<and> c' = c + 1" using w at by (simp add: vli_at_def)
  next
    assume "w = bytes ! c \<and> c' = c + 1"
    then show "vli_at bytes e c c' w" using assms d by (simp add: vli_at_def encode_vli.simps [of "bytes ! c"])
  qed
qed

lemma high_byte: "128 \<le> (b :: nat) \<Longrightarrow> b < 256 \<Longrightarrow> b mod 128 + 128 = b"
  by (auto simp: mod_if)

lemma vli_at_more:
  assumes "c < e" "c < length bytes" "128 \<le> bytes ! c" "bytes ! c < 256"
  shows "vli_at bytes e c c' w \<longleftrightarrow> (\<exists>w'. w = bytes ! c mod 128 + 128 * w' \<and> 0 < w' \<and> vli_at bytes e (c + 1) c' w')"
proof -
  have d: "drop c bytes = bytes ! c # drop (Suc c) bytes" using assms by (simp add: Cons_nth_drop_Suc)
  show ?thesis
  proof
    assume at: "vli_at bytes e c c' w"
    obtain b bs where w: "encode_vli w = b # bs" using encode_vli_not_Nil list.exhaust by blast
    then have b: "b = bytes ! c" using at d by (auto simp: vli_at_def)
    then have big: "128 \<le> w" "b = w mod 128 + 128" and bs: "bs = encode_vli (w div 128)"
      using w assms (3) by (auto simp: encode_vli_Cons)
    then have "vli_at bytes e (c + 1) c' (w div 128)" using at w d by (auto simp: vli_at_def)
    moreover have "w = bytes ! c mod 128 + 128 * (w div 128)" "0 < w div 128" using big b by auto
    ultimately show "\<exists>w'. w = bytes ! c mod 128 + 128 * w' \<and> 0 < w' \<and> vli_at bytes e (c + 1) c' w'" by blast
  next
    assume "\<exists>w'. w = bytes ! c mod 128 + 128 * w' \<and> 0 < w' \<and> vli_at bytes e (c + 1) c' w'"
    then obtain w' where w': "w = bytes ! c mod 128 + 128 * w'" "0 < w'" "vli_at bytes e (c + 1) c' w'" by blast
    have "bytes ! c mod 128 + 128 = bytes ! c" using assms (3,4) by (rule high_byte)
    then have "encode_vli w = bytes ! c # encode_vli w'"
      using w' (1,2) by (subst encode_vli.simps) simp
    then show "vli_at bytes e c c' w" using w' (3) d by (auto simp: vli_at_def Suc_diff_Suc)
  qed
qed

lemma vli_digit_bound: "d < 128 \<Longrightarrow> d + 128 * w < 2 ^ (7 * Suc k) \<longleftrightarrow> w < (2 ^ (7 * k) :: nat)"
proof
  assume d: "d < 128" and w: "w < (2 ^ (7 * k) :: nat)"
  have "d + 128 * w < 128 * (w + 1)" using d by simp
  also have "\<dots> \<le> 128 * 2 ^ (7 * k)" using w by (intro mult_le_mono2) simp
  finally show "d + 128 * w < 2 ^ (7 * Suc k)" by (simp add: power_add)
next
  assume "d + 128 * w < 2 ^ (7 * Suc k)"
  then have "128 * w < 128 * 2 ^ (7 * k)" by (simp add: power_add)
  then show "w < 2 ^ (7 * k)" by simp
qed

text \<open>Splitting off the lowest digit of the number that is read.\<close>

lemma vli_reindex:
  assumes at: "\<And>w. P w \<longleftrightarrow> (\<exists>w'. w = d + 128 * w' \<and> 0 < w' \<and> Q w')" and d: "d < 128" and r: "r = 128 * q"
  shows "(\<exists>w'. w' < 2 ^ (7 * k) \<and> v = acc + q * d + r * w' \<and> 0 < w' \<and> Q w') \<longleftrightarrow>
    (\<exists>w :: nat. w < 2 ^ (7 * Suc k) \<and> v = acc + q * w \<and> (B \<longrightarrow> 0 < w) \<and> P w)"
proof -
  have val: "acc + q * (d + 128 * w') = acc + q * d + r * w'" for w' by (simp add: r algebra_simps)
  show ?thesis
  proof
    assume "\<exists>w'. w' < 2 ^ (7 * k) \<and> v = acc + q * d + r * w' \<and> 0 < w' \<and> Q w'"
    then obtain w' where w': "w' < 2 ^ (7 * k)" "v = acc + q * d + r * w'" "0 < w'" "Q w'" by blast
    have "d + 128 * w' < 2 ^ (7 * Suc k)" using vli_digit_bound [OF d] w' (1) by blast
    moreover have "v = acc + q * (d + 128 * w')" unfolding val by (rule w' (2))
    moreover have "P (d + 128 * w')" unfolding at using w' (3,4) by blast
    moreover have "0 < d + 128 * w'" using w' (3) by simp
    ultimately show "\<exists>w. w < 2 ^ (7 * Suc k) \<and> v = acc + q * w \<and> (B \<longrightarrow> 0 < w) \<and> P w" by blast
  next
    assume "\<exists>w. w < 2 ^ (7 * Suc k) \<and> v = acc + q * w \<and> (B \<longrightarrow> 0 < w) \<and> P w"
    then obtain w w' where w: "w < 2 ^ (7 * Suc k)" "v = acc + q * w" and w': "w = d + 128 * w'" "0 < w'" "Q w'"
      using at by blast
    have "w' < 2 ^ (7 * k)" using w (1) vli_digit_bound [OF d] unfolding w' (1) by blast
    moreover have "v = acc + q * d + r * w'" using w (2) unfolding w' (1) val .
    ultimately show "\<exists>w'. w' < 2 ^ (7 * k) \<and> v = acc + q * d + r * w' \<and> 0 < w' \<and> Q w'" using w' by blast
  qed
qed

lemma parse_vli_loop_iff:
  assumes bytes: "list_all (\<lambda>b. b < 256) bytes"
  shows "k \<le> 9 \<Longrightarrow> acc < 2 ^ (7 * (9 - k)) \<Longrightarrow> parse_vli_loop k bytes e acc c = Ok (v, c') \<longleftrightarrow>
    (\<exists>w. w < 2 ^ (7 * k) \<and> v = acc + 2 ^ (7 * (9 - k)) * w \<and> (k < 9 \<longrightarrow> 0 < w) \<and> vli_at bytes e c c' w)"
proof (induction k arbitrary: acc c)
  case 0
  then show ?case by simp
next
  case (Suc k)
  show ?case
  proof (cases "c < e \<and> c < length bytes")
    case False
    then have "\<not> vli_at bytes e c c' w" for w using vli_at_in_range [of bytes e c c' w] by auto
    moreover have "parse_vli_loop (Suc k) bytes e acc c \<noteq> Ok (v, c')"
      using False by (simp add: index_byte_def get_byte_def Let_def)
    ultimately show ?thesis by blast
  next
    case True
    define b where "b = bytes ! c"
    have b: "b < 256" using bytes True by (simp add: b_def list_all_length)
    have idx: "9 - Suc k = 8 - k" "8 - k = 8 \<longleftrightarrow> k = 0" "k < 9" using Suc (2) by auto
    have acc: "acc OR push_bit (7 * (8 - k)) (b mod 128) = acc + 2 ^ (7 * (8 - k)) * (b mod 128)"
      using Suc (3) by (intro or_push_bit) (simp add: idx)
    note step = b_def [symmetric] byte_masks [OF b] acc idx
    show ?thesis
    proof (cases "b < 128")
      case last: True
      have "b < 2 ^ (7 * Suc k)" using last by (rule less_le_trans) (simp add: power_add)
      then show ?thesis
        using True last Suc (2) vli_at_last [of c e bytes c'] step
        by (auto simp: index_byte_def get_byte_def Let_def mult.commute [of _ 7])
    next
      case more: False
      show ?thesis
      proof (cases "k = 0")
        case True
        then show ?thesis
          using more \<open>c < e \<and> c < length bytes\<close> vli_at_more [of c e bytes c'] b step
          by (auto simp: index_byte_def get_byte_def Let_def)
      next
        case False
        let ?acc = "acc + 2 ^ (7 * (8 - k)) * (b mod 128)"
        have p: "7 * (9 - k) = 7 * (8 - k) + 7" using idx by simp
        have "?acc < 2 ^ (7 * (8 - k)) + 2 ^ (7 * (8 - k)) * (b mod 128)" using Suc (3) idx by simp
        also have "\<dots> = 2 ^ (7 * (8 - k)) * (b mod 128 + 1)" by simp
        also have "\<dots> \<le> 2 ^ (7 * (8 - k)) * 128" by (intro mult_le_mono2) simp
        finally have acc_bound: "?acc < 2 ^ (7 * (9 - k))" by (simp add: p power_add)
        have loop: "parse_vli_loop (Suc k) bytes e acc c = parse_vli_loop k bytes e ?acc (c + 1)"
          using True more False step by (auto simp: index_byte_def get_byte_def Let_def mult.commute [of _ 7])
        have ih: "parse_vli_loop k bytes e ?acc (c + 1) = Ok (v, c') \<longleftrightarrow>
            (\<exists>w'. w' < 2 ^ (7 * k) \<and> v = ?acc + 2 ^ (7 * (9 - k)) * w' \<and> 0 < w' \<and> vli_at bytes e (c + 1) c' w')"
          using Suc.IH [OF _ acc_bound] idx by simp
        have at: "vli_at bytes e c c' w \<longleftrightarrow> (\<exists>w'. w = b mod 128 + 128 * w' \<and> 0 < w' \<and> vli_at bytes e (c + 1) c' w')" for w
          using vli_at_more [of c e bytes c' w] True more b by (simp add: b_def)
        show ?thesis unfolding loop ih idx (1)
          by (rule vli_reindex [OF at]) (simp_all add: p power_add)
      qed
    qed
  qed
qed

text \<open>
  C17. Reading a variable-length integer inverts writing it, in both directions: \<open>parse_vli\<close> succeeds exactly
  when the canonical encoding of some number below \<open>2 ^ 63\<close> stands at the cursor and ends inside the limit; it
  then returns that number and moves the cursor past it. No other byte sequence, in particular no longer
  encoding of the same number, is accepted.
\<close>

theorem parse_vli_roundtrip:
  assumes "list_all (\<lambda>b. b < 256) bytes"
  shows "(parse_vli bytes c e = Ok (v, c') \<longleftrightarrow>
      v < 2 ^ 63 \<and> c' = c + length (encode_vli v) \<and> c' \<le> e \<and> c' \<le> length bytes \<and>
      take (c' - c) (drop c bytes) = encode_vli v) \<and>
    (w < 2 ^ 63 \<and> list_all (\<lambda>b. b < 256) before \<and> list_all (\<lambda>b. b < 256) after \<longrightarrow>
      parse_vli (before @ encode_vli w @ after) (length before) (length before + length (encode_vli w)) =
        Ok (w, length before + length (encode_vli w)))"
proof -
  have iff: "parse_vli bs c e = Ok (v, c') \<longleftrightarrow> v < 2 ^ 63 \<and> vli_at bs e c c' v"
    if "list_all (\<lambda>b. b < 256) bs" for bs c e v c'
    using parse_vli_loop_iff [OF that, of 9 0 e c v c'] by (auto simp: parse_vli_def)
  have enc: "list_all (\<lambda>b. b < 256) (encode_vli w)" for w
  proof (induction w rule: encode_vli.induct)
    case (1 w)
    have "w mod 128 < 128" by simp
    then have "w mod 128 + 128 < 256" by linarith
    then show ?case using 1 by (subst encode_vli.simps) simp
  qed
  show ?thesis
    unfolding iff [OF assms] using enc by (auto simp: vli_at_def intro!: iff [THEN iffD2])
qed

theorem parse_vli_roundtrip_witness:
  "parse_vli [7, 172, 2, 9] 1 4 = Ok (300, 3) \<and> parse_vli [7, 172, 130, 0] 1 4 \<noteq> Ok (300, 4)"
proof -
  have e: "encode_vli 300 = [172, 2]" by code_simp
  show ?thesis
    using parse_vli_roundtrip [of "[7, 172, 2, 9]" 1 4 300 3] parse_vli_roundtrip [of "[7, 172, 130, 0]" 1 4 300 4] e
    by simp
qed

section \<open>Freedom from panics\<close>

named_theorems panic_free \<open>operations that cannot index out of range\<close>

definition never_panics :: "'a xz_result \<Rightarrow> bool" where
  "never_panics r \<longleftrightarrow> r \<noteq> Err Panicked"

lemma never_panics_Ok [panic_free]: "never_panics (Ok x)"
  by (simp add: never_panics_def)

lemma never_panics_Err [panic_free]:
  "never_panics (Err (xz_malformed c m))" "never_panics (Err (xz_unsupported c m))" "never_panics (Err (xz_limit c r l b))"
  by (simp_all add: never_panics_def xz_malformed_def xz_unsupported_def xz_limit_def)

lemma never_panics_ok_or [panic_free]:
  "never_panics (ok_or (xz_malformed c m) x)" "never_panics (ok_or (xz_unsupported c m) x)"
  by (cases x; simp add: never_panics_Ok never_panics_Err)+

lemma never_panics_bind:
  "never_panics m \<Longrightarrow> (\<And>x. m = Ok x \<Longrightarrow> never_panics (f x)) \<Longrightarrow> never_panics (res_bind m f)"
  by (cases m) (auto simp: never_panics_def)

lemma never_panics_pair: "(\<And>a b. m = Ok (a, b) \<Longrightarrow> never_panics (f a b)) \<Longrightarrow> m = Ok x \<Longrightarrow> never_panics (case x of (a, b) \<Rightarrow> f a b)"
  by (cases x) simp

lemma never_panics_if: "(c \<Longrightarrow> never_panics a) \<Longrightarrow> (\<not> c \<Longrightarrow> never_panics b) \<Longrightarrow> never_panics (if c then a else b)"
  by simp

lemma never_panics_index [panic_free]:
  "i < length bytes \<Longrightarrow> never_panics (index_byte bytes i)"
  "a \<le> b \<Longrightarrow> b \<le> length bytes \<Longrightarrow> never_panics (index_range bytes a b)"
  by (simp_all add: never_panics_def index_byte_def index_range_def get_byte_def get_range_def)

lemmas panic_steps = never_panics_bind never_panics_if never_panics_pair

lemma index_byte_Ok: "index_byte bytes i = Ok b \<longleftrightarrow> i < length bytes \<and> b = bytes ! i"
  by (auto simp: index_byte_def get_byte_def result_simps split: if_splits)

lemma index_range_Ok: "index_range bytes a b = Ok s \<longleftrightarrow> a \<le> b \<and> b \<le> length bytes \<and> s = take (b - a) (drop a bytes)"
  by (auto simp: index_range_def get_range_Some result_simps)

lemma validate_crc32_panics [panic_free]: "never_panics (validate_crc32 d e c m)"
  by (simp add: validate_crc32_def panic_free)

lemma decode_lzma2_panics [panic_free]: "never_panics (decode_lzma2_dictionary p)"
  by (simp add: decode_lzma2_dictionary_def Let_def panic_free)

lemma parse_vli_loop_panics: "e \<le> length bytes \<Longrightarrow> never_panics (parse_vli_loop k bytes e v c)"
proof (induction k arbitrary: v c)
  case (Suc k)
  then show ?case by (auto simp: Let_def panic_free intro!: panic_steps)
qed (simp add: panic_free)

lemma parse_vli_panics [panic_free]: "e \<le> length bytes \<Longrightarrow> never_panics (parse_vli bytes c e)"
  by (simp add: parse_vli_def parse_vli_loop_panics)

lemma parse_vli_loop_cursor: "parse_vli_loop k bytes e v c = Ok (w, c') \<Longrightarrow> c < c' \<and> c' \<le> e"
  by (induction k arbitrary: v c) (fastforce simp: Let_def result_simps split: if_splits)+

lemma parse_vli_cursor: "parse_vli bytes c e = Ok (w, c') \<Longrightarrow> c < c' \<and> c' \<le> e"
  unfolding parse_vli_def by (rule parse_vli_loop_cursor)

lemma take_byte_panics [panic_free]: "e \<le> length bytes \<Longrightarrow> never_panics (take_byte bytes c e l)"
  by (auto simp: take_byte_def panic_free intro!: panic_steps)

lemma take_u16_be_panics [panic_free]: "e \<le> length bytes \<Longrightarrow> never_panics (take_u16_be bytes c e)"
  by (auto simp: take_u16_be_def panic_free intro!: panic_steps)

lemma skip_bytes_panics [panic_free]: "never_panics (skip_bytes bytes c e n l)"
  by (auto simp: skip_bytes_def panic_free intro!: panic_steps)

end
