(* ===== verification/Xz_Preflight.thy ===== *)
theory Xz_Preflight
  imports Xz_Encoding
begin

unbundle bit_operations_syntax

text \<open>
  The XZ metadata preflight of
  \<open>crates/services/attachment/crates/attachment-native-inspect/src/xz_preflight.rs\<close>: the stream header, the
  block headers, the LZMA2 chunk framing, and the walk over the real blocks that is compared with the index.
\<close>

section \<open>The stream header\<close>

definition layout_mismatch :: "byte_slice \<Rightarrow> nat \<Rightarrow> nat \<Rightarrow> xz_failure" where
  "layout_mismatch bytes actual_start expected_index =
     (let remaining = (case get_range bytes (min actual_start (length bytes)) (min expected_index (length bytes)) of
                         None \<Rightarrow> [] | Some r \<Rightarrow> r)
      in if list_ex (\<lambda>i. take (length XZ_MAGIC) (drop i remaining) = XZ_MAGIC) [0 ..< length remaining + 1 - length XZ_MAGIC]
         then xz_unsupported ''xz_multiple_streams_unsupported''
                ''Only one XZ stream is decoded in process; concatenated streams are rejected.''
         else xz_malformed ''xz_block_layout_mismatch''
                ''The real XZ block sequence does not end at its declared index.'')"

definition validate_stream_header :: "byte_slice \<Rightarrow> nat xz_result" where
  "validate_stream_header bytes =
     (if get_range bytes 0 (length XZ_MAGIC) \<noteq> Some XZ_MAGIC then
        Err (xz_malformed ''xz_magic_invalid'' ''The XZ stream header magic is invalid.'')
      else
        res_bind (ok_or (xz_malformed ''xz_stream_flags_truncated'' ''The XZ stream flags are truncated.'')
          (get_range bytes 6 8)) (\<lambda>flags.
        res_bind (index_byte flags 0) (\<lambda>flags0.
        res_bind (index_byte flags 1) (\<lambda>flags1.
        if flags0 \<noteq> 0 \<or> flags1 AND 0xf0 \<noteq> 0 then
          Err (xz_malformed ''xz_stream_flags_invalid'' ''The XZ stream header sets reserved flag bits.'')
        else
          res_bind (ok_or (xz_malformed ''xz_stream_header_truncated'' ''The XZ stream header is truncated.'')
            (get_range bytes 8 12)) (\<lambda>encoded.
          res_bind (validate_crc32 flags encoded ''xz_stream_header_crc_invalid'' ''The XZ stream header CRC is invalid.'') (\<lambda>_.
            let check = flags1 AND 0x0f in
            if check = 0 then Ok 0
            else if check = 1 then Ok 4
            else if check = 4 then Ok 8
            else if check = 10 then Ok 32
            else Err (xz_unsupported ''xz_check_unsupported''
                   ''The XZ stream uses a reserved or unsupported integrity check.'')))))))"

section \<open>Block headers\<close>

record block_header =
  bh_bytes :: nat
  bh_dictionary_bytes :: nat
  bh_declared_compressed_bytes :: "nat option"
  bh_declared_uncompressed_bytes :: "nat option"

definition parse_optional_vli :: "bool \<Rightarrow> byte_slice \<Rightarrow> nat \<Rightarrow> nat \<Rightarrow> (nat option \<times> nat) xz_result" where
  "parse_optional_vli present header cursor data_end =
     (if present then res_bind (parse_vli header cursor data_end) (\<lambda>(v, cursor). Ok (Some v, cursor))
      else Ok (None, cursor))"

text \<open>The filters from \<open>filter_index\<close> on; \<open>k\<close> of them are left.\<close>

primrec parse_filters ::
  "nat \<Rightarrow> byte_slice \<Rightarrow> nat \<Rightarrow> nat \<Rightarrow> nat \<Rightarrow> nat option \<Rightarrow> (nat option \<times> nat) xz_result" where
  "parse_filters 0 header data_end filter_count cursor dictionary_bytes = Ok (dictionary_bytes, cursor)"
| "parse_filters (Suc k) header data_end filter_count cursor dictionary_bytes =
     (let filter_index = filter_count - Suc k in
      res_bind (parse_vli header cursor data_end) (\<lambda>(filter_id, cursor).
      res_bind (parse_vli header cursor data_end) (\<lambda>(properties_size, cursor).
      res_bind (ok_or (xz_malformed ''xz_filter_properties_overflow'' ''XZ filter properties are too large.'')
        (try_from USIZE_MAX properties_size)) (\<lambda>properties_size.
      res_bind (ok_or (xz_malformed ''xz_filter_properties_overflow'' ''XZ filter properties overflow the block header.'')
        (checked_add USIZE_MAX cursor properties_size)) (\<lambda>properties_end.
      res_bind (index_range header 0 data_end) (\<lambda>header_data.
      res_bind (ok_or (xz_malformed ''xz_filter_properties_truncated'' ''XZ filter properties are truncated.'')
        (get_range header_data cursor properties_end)) (\<lambda>properties.
      if filter_id = LZMA2_FILTER_ID then
        if filter_index + 1 \<noteq> filter_count \<or> length properties \<noteq> 1 then
          Err (xz_malformed ''xz_lzma2_filter_invalid'' ''The terminating XZ LZMA2 filter is malformed.'')
        else
          res_bind (index_byte properties 0) (\<lambda>property.
          res_bind (decode_lzma2_dictionary property) (\<lambda>d.
            parse_filters k header data_end filter_count properties_end (Some d)))
      else parse_filters k header data_end filter_count properties_end dictionary_bytes)))))))"

declare parse_filters.simps [simp del]

definition inspect_block_header :: "byte_slice \<Rightarrow> nat \<Rightarrow> nat \<Rightarrow> block_header xz_result" where
  "inspect_block_header bytes block_start block_limit =
     res_bind (ok_or (xz_malformed ''xz_block_header_truncated'' ''An XZ block header is truncated.'')
       (get_byte bytes block_start)) (\<lambda>size_byte.
     if size_byte = 0 then
       Err (xz_malformed ''xz_block_header_invalid'' ''An XZ block header has an invalid size byte.'')
     else
     res_bind (ok_or (xz_malformed ''xz_block_header_size_overflow'' ''An XZ block header size overflows.'')
       (Option.bind (checked_add USIZE_MAX size_byte 1) (\<lambda>v. checked_mul USIZE_MAX v 4))) (\<lambda>header_size.
     res_bind (ok_or (xz_malformed ''xz_block_header_size_overflow'' ''An XZ block header size overflows.'')
       (checked_add USIZE_MAX block_start header_size)) (\<lambda>header_end.
     if block_limit < header_end then
       Err (xz_malformed ''xz_block_header_out_of_bounds'' ''An XZ block header overlaps the index.'')
     else
     res_bind (ok_or (xz_malformed ''xz_block_header_truncated'' ''An XZ block header is truncated.'')
       (get_range bytes block_start header_end)) (\<lambda>header.
     let data_end = header_size - 4 in
     res_bind (index_range header 0 data_end) (\<lambda>header_data.
     res_bind (index_range header data_end (length header)) (\<lambda>encoded.
     res_bind (validate_crc32 header_data encoded ''xz_block_header_crc_invalid'' ''An XZ block header CRC is invalid.'') (\<lambda>_.
     res_bind (index_byte header 1) (\<lambda>flags.
     if flags AND 0x3c \<noteq> 0 then
       Err (xz_malformed ''xz_block_flags_invalid'' ''An XZ block sets reserved flag bits.'')
     else
     let filter_count = (flags AND 0x03) + 1 in
     res_bind (parse_optional_vli (flags AND 0x40 \<noteq> 0) header 2 data_end) (\<lambda>(declared_compressed_bytes, cursor).
     res_bind (parse_optional_vli (flags AND 0x80 \<noteq> 0) header cursor data_end) (\<lambda>(declared_uncompressed_bytes, cursor).
     res_bind (parse_filters filter_count header data_end filter_count cursor None) (\<lambda>(dictionary_bytes, cursor).
     res_bind (index_range header cursor data_end) (\<lambda>padding.
     if list_ex (\<lambda>byte. byte \<noteq> 0) padding then
       Err (xz_malformed ''xz_block_padding_invalid'' ''An XZ block header contains non-zero padding.'')
     else
     res_bind (ok_or (xz_unsupported ''xz_filter_unsupported'' ''The XZ block does not terminate in an LZMA2 filter.'')
       dictionary_bytes) (\<lambda>dictionary_bytes.
       Ok \<lparr>bh_bytes = header_size, bh_dictionary_bytes = dictionary_bytes,
           bh_declared_compressed_bytes = declared_compressed_bytes,
           bh_declared_uncompressed_bytes = declared_uncompressed_bytes\<rparr>)))))))))))))"

section \<open>LZMA2 chunks\<close>

record lzma2_scan =
  ls_cursor :: nat
  ls_uncompressed_bytes :: nat
  ls_dictionary_initialized :: bool
  ls_properties_initialized :: bool

datatype lzma2_item = Lzma2_End nat nat | Lzma2_Continue lzma2_scan

text \<open>One round of the chunk loop: the end of the chunks with the cursor and the uncompressed size, or the
  state after the next chunk.\<close>

definition lzma2_round :: "byte_slice \<Rightarrow> nat \<Rightarrow> lzma2_scan \<Rightarrow> lzma2_item xz_result" where
  "lzma2_round bytes e s =
     res_bind (take_byte bytes (ls_cursor s) e ''XZ LZMA2 control byte'') (\<lambda>(control, cursor).
     if control = 0 then Ok (Lzma2_End cursor (ls_uncompressed_bytes s))
     else if control = 1 \<or> control = 2 then
       if control \<noteq> 1 \<and> \<not> ls_dictionary_initialized s then
         Err (xz_malformed ''xz_lzma2_state_invalid'' ''An XZ LZMA2 stream uses an uninitialized dictionary.'')
       else
         res_bind (take_u16_be bytes cursor e) (\<lambda>(size, cursor).
         let chunk_bytes = size + 1 in
         res_bind (skip_bytes bytes cursor e chunk_bytes ''XZ LZMA2 raw chunk'') (\<lambda>cursor.
         res_bind (ok_or (xz_malformed ''xz_uncompressed_size_overflow'' ''The XZ uncompressed size overflows.'')
           (checked_add U64_MAX (ls_uncompressed_bytes s) chunk_bytes)) (\<lambda>uncompressed.
           Ok (Lzma2_Continue (s\<lparr>ls_cursor := cursor, ls_uncompressed_bytes := uncompressed,
                 ls_dictionary_initialized := True\<rparr>)))))
     else if 0x80 \<le> control \<and> control \<le> 0xff then
       if \<not> 0xe0 \<le> control \<and> \<not> ls_dictionary_initialized s then
         Err (xz_malformed ''xz_lzma2_state_invalid'' ''An XZ LZMA2 stream uses an uninitialized dictionary.'')
       else
         let size_high = push_bit 16 (control AND 0x1f) in
         res_bind (take_u16_be bytes cursor e) (\<lambda>(size_low, cursor).
         let chunk_uncompressed = (size_high OR size_low) + 1 in
         res_bind (take_u16_be bytes cursor e) (\<lambda>(size, cursor).
         let chunk_compressed = size + 1 in
         res_bind
           (if 0xc0 \<le> control then
              res_bind (take_byte bytes cursor e ''XZ LZMA properties'') (\<lambda>(property, cursor).
                if 224 < property then
                  Err (xz_malformed ''xz_lzma_property_invalid'' ''An XZ LZMA chunk has invalid lc/lp/pb properties.'')
                else Ok cursor)
            else if \<not> ls_properties_initialized s then
              Err (xz_malformed ''xz_lzma2_state_invalid'' ''An XZ LZMA2 stream uses uninitialized LZMA properties.'')
            else Ok cursor) (\<lambda>cursor.
         res_bind (skip_bytes bytes cursor e chunk_compressed ''XZ LZMA2 compressed chunk'') (\<lambda>cursor.
         res_bind (ok_or (xz_malformed ''xz_uncompressed_size_overflow'' ''The XZ uncompressed size overflows.'')
           (checked_add U64_MAX (ls_uncompressed_bytes s) chunk_uncompressed)) (\<lambda>uncompressed.
           Ok (Lzma2_Continue \<lparr>ls_cursor = cursor, ls_uncompressed_bytes = uncompressed,
                 ls_dictionary_initialized = True, ls_properties_initialized = True\<rparr>))))))
     else Err (xz_malformed ''xz_lzma2_control_invalid'' ''An XZ LZMA2 stream contains an invalid control byte.''))"

lemma lzma2_round_end:
  "lzma2_round bytes e s = Ok (Lzma2_End c u) \<longleftrightarrow>
     ls_cursor s < e \<and> ls_cursor s < length bytes \<and> bytes ! ls_cursor s = 0 \<and> c = ls_cursor s + 1 \<and> u = ls_uncompressed_bytes s"
  by (auto simp: lzma2_round_def take_byte_Ok result_simps Let_def split: if_splits)

lemma lzma2_round_progress:
  "lzma2_round bytes e s = Ok (Lzma2_Continue s') \<Longrightarrow> ls_cursor s < ls_cursor s' \<and> ls_cursor s' \<le> e"
  by (auto simp: lzma2_round_def take_byte_Ok take_u16_be_Ok skip_bytes_Ok result_simps Let_def split: if_splits)

function scan_lzma2_loop :: "byte_slice \<Rightarrow> nat \<Rightarrow> lzma2_scan \<Rightarrow> (nat \<times> nat) xz_result" where
  "scan_lzma2_loop bytes e s =
     (case lzma2_round bytes e s of
        Err failure \<Rightarrow> Err failure
      | Ok (Lzma2_End cursor uncompressed) \<Rightarrow> Ok (cursor, uncompressed)
      | Ok (Lzma2_Continue s') \<Rightarrow> scan_lzma2_loop bytes e s')"
  by pat_completeness auto
termination
  by (relation "measure (\<lambda>(bytes, e, s). e - ls_cursor s)") (auto dest!: lzma2_round_progress)

declare scan_lzma2_loop.simps [simp del]

definition scan_lzma2_chunks :: "byte_slice \<Rightarrow> nat \<Rightarrow> nat \<Rightarrow> (nat \<times> nat) xz_result" where
  "scan_lzma2_chunks bytes start e =
     scan_lzma2_loop bytes e \<lparr>ls_cursor = start, ls_uncompressed_bytes = 0,
       ls_dictionary_initialized = False, ls_properties_initialized = False\<rparr>"

section \<open>Blocks and the stream\<close>

record block_summary =
  bs_next :: nat
  bs_unpadded_bytes :: nat
  bs_uncompressed_bytes :: nat

record xz_summary =
  xs_blocks :: nat
  xs_largest_dictionary_bytes :: nat
  xs_index_bytes :: nat

definition padding_width :: "nat \<Rightarrow> nat" where
  "padding_width unpadded_bytes = (4 - (unpadded_bytes AND 3)) AND 3"

definition inspect_actual_block :: "byte_slice \<Rightarrow> nat \<Rightarrow> nat \<Rightarrow> nat \<Rightarrow> (block_summary \<times> nat) xz_result" where
  "inspect_actual_block bytes block_start index_start check_bytes =
     res_bind (inspect_block_header bytes block_start index_start) (\<lambda>header.
     res_bind (ok_or (xz_malformed ''xz_block_size_overflow'' ''An XZ block offset overflows its container.'')
       (checked_add USIZE_MAX block_start (bh_bytes header))) (\<lambda>compressed_start.
     res_bind (scan_lzma2_chunks bytes compressed_start index_start) (\<lambda>(compressed_end, uncompressed_bytes).
     res_bind (ok_or Panicked (checked_sub compressed_end compressed_start)) (\<lambda>compressed_bytes.
     res_bind (ok_or (xz_malformed ''xz_block_size_overflow'' ''An XZ compressed block is too large for this platform.'')
       (try_from U64_MAX compressed_bytes)) (\<lambda>compressed_bytes.
     if is_some_and (\<lambda>declared. declared \<noteq> compressed_bytes) (bh_declared_compressed_bytes header) then
       Err (xz_malformed ''xz_block_compressed_size_mismatch'' ''An XZ block header declares the wrong compressed size.'')
     else if is_some_and (\<lambda>declared. declared \<noteq> uncompressed_bytes) (bh_declared_uncompressed_bytes header) then
       Err (xz_malformed ''xz_block_uncompressed_size_mismatch'' ''An XZ block header declares the wrong uncompressed size.'')
     else
     res_bind (ok_or (xz_malformed ''xz_block_size_overflow'' ''An XZ block size overflows its container.'')
       (Option.bind (try_from U64_MAX (bh_bytes header)) (\<lambda>v.
        Option.bind (checked_add U64_MAX v compressed_bytes) (\<lambda>v.
        Option.bind (try_from U64_MAX check_bytes) (\<lambda>check. checked_add U64_MAX v check))))) (\<lambda>unpadded_bytes.
     res_bind (ok_or (xz_malformed ''xz_block_padding_overflow'' ''An XZ block padding width cannot be represented safely.'')
       (try_from USIZE_MAX (padding_width unpadded_bytes))) (\<lambda>padding_bytes.
     res_bind (ok_or (xz_malformed ''xz_block_size_overflow'' ''XZ block padding overflows.'')
       (checked_add USIZE_MAX compressed_end padding_bytes)) (\<lambda>check_start.
     res_bind (ok_or (xz_malformed ''xz_block_size_overflow'' ''XZ block check overflows.'')
       (checked_add USIZE_MAX check_start check_bytes)) (\<lambda>next_start.
     if index_start < next_start then
       Err (xz_malformed ''xz_block_out_of_bounds'' ''An XZ block overlaps its index.'')
     else
     res_bind (index_range bytes compressed_end check_start) (\<lambda>padding.
     if list_ex (\<lambda>byte. byte \<noteq> 0) padding then
       Err (xz_malformed ''xz_block_padding_invalid'' ''An XZ block contains non-zero padding.'')
     else
       Ok (\<lparr>bs_next = next_start, bs_unpadded_bytes = unpadded_bytes, bs_uncompressed_bytes = uncompressed_bytes\<rparr>,
           bh_dictionary_bytes header)))))))))))"

lemma scan_lzma2_loop_bounds:
  "scan_lzma2_loop bytes e s = Ok (c, u) \<Longrightarrow> ls_cursor s < c \<and> c \<le> e \<and> c \<le> length bytes"
proof (induction bytes e s rule: scan_lzma2_loop.induct)
  case (1 bytes e s)
  note loop = scan_lzma2_loop.simps [of bytes e s]
  consider f where "lzma2_round bytes e s = Err f" | c' u' where "lzma2_round bytes e s = Ok (Lzma2_End c' u')"
    | s' where "lzma2_round bytes e s = Ok (Lzma2_Continue s')"
    by (metis result.exhaust lzma2_item.exhaust)
  then show ?case
  proof cases
    case (3 s')
    then have "scan_lzma2_loop bytes e s' = Ok (c, u)" using 1 (2) by (simp add: loop)
    then show ?thesis using 1 (1) [OF 3 refl] lzma2_round_progress [OF 3] by simp
  next
    case (2 c' u')
    then have "c = c'" using 1 (2) by (simp add: loop)
    then show ?thesis using 2 by (auto simp: lzma2_round_end)
  qed (use 1 (2) in \<open>simp add: loop\<close>)
qed

lemma inspect_block_header_bounds:
  "inspect_block_header bytes p e = Ok h \<Longrightarrow> 8 \<le> bh_bytes h \<and> p + bh_bytes h \<le> e \<and> p + bh_bytes h \<le> length bytes"
  by (auto simp: inspect_block_header_def get_range_def result_simps bind_eq_Some_conv Let_def split: if_splits prod.splits)

lemma inspect_actual_block_progress:
  "inspect_actual_block bytes p e check = Ok (b, d) \<Longrightarrow> p + 8 < bs_next b \<and> bs_next b \<le> e"
  using inspect_block_header_bounds
  by (fastforce simp: inspect_actual_block_def scan_lzma2_chunks_def result_simps dest!: scan_lzma2_loop_bounds
      split: if_splits prod.splits)

text \<open>The walk over the real blocks: the number of blocks, the largest dictionary and the position at which it
  stops.\<close>

function walk_blocks ::
  "byte_slice \<Rightarrow> nat \<Rightarrow> nat \<Rightarrow> nat \<Rightarrow> nat \<Rightarrow> nat \<Rightarrow> nat \<Rightarrow> nat \<Rightarrow> (nat \<times> nat \<times> nat) xz_result" where
  "walk_blocks bytes index_start check_bytes max_blocks max_dictionary_bytes actual_start actual_blocks largest =
     (if actual_start < index_start then
        if get_byte bytes actual_start = Some 0 then Err (layout_mismatch bytes actual_start index_start)
        else
          (case checked_add U64_MAX actual_blocks 1 of
             None \<Rightarrow> Err (xz_malformed ''xz_block_count_overflow'' ''The XZ block count overflows.'')
           | Some actual_blocks \<Rightarrow>
               if max_blocks < actual_blocks then
                 Err (xz_limit ''xz_block_limit_exceeded'' actual_blocks max_blocks ''XZ blocks'')
               else
                 (case inspect_actual_block bytes actual_start index_start check_bytes of
                    Err failure \<Rightarrow> Err failure
                  | Ok (block, dictionary_bytes) \<Rightarrow>
                      if max_dictionary_bytes < dictionary_bytes then
                        Err (xz_limit ''xz_dictionary_limit_exceeded'' dictionary_bytes max_dictionary_bytes
                               ''XZ dictionary bytes'')
                      else
                        walk_blocks bytes index_start check_bytes max_blocks max_dictionary_bytes
                          (bs_next block) actual_blocks (max largest dictionary_bytes)))
      else Ok (actual_blocks, largest, actual_start))"
  by pat_completeness auto
termination
  by (relation "measure (\<lambda>(bytes, index_start, check, mb, md, start, n, l). index_start - start)")
     (auto dest!: inspect_actual_block_progress)

declare walk_blocks.simps [simp del]

text \<open>The index records; \<open>k\<close> of them are left. The result is the index cursor and the position after the last
  block.\<close>

primrec match_records ::
  "nat \<Rightarrow> byte_slice \<Rightarrow> nat \<Rightarrow> nat \<Rightarrow> nat \<Rightarrow> nat \<Rightarrow> nat \<Rightarrow> (nat \<times> nat) xz_result" where
  "match_records 0 bytes index_start index_crc_start check_bytes cursor block_start = Ok (cursor, block_start)"
| "match_records (Suc k) bytes index_start index_crc_start check_bytes cursor block_start =
     res_bind (parse_vli bytes cursor index_crc_start) (\<lambda>(unpadded_size, cursor).
     res_bind (parse_vli bytes cursor index_crc_start) (\<lambda>(uncompressed_size, cursor).
     if unpadded_size = 0 then
       Err (xz_malformed ''xz_block_size_invalid'' ''An XZ index record declares an empty block.'')
     else
     res_bind (inspect_actual_block bytes block_start index_start check_bytes) (\<lambda>(actual, _).
     if unpadded_size \<noteq> bs_unpadded_bytes actual \<or> uncompressed_size \<noteq> bs_uncompressed_bytes actual then
       Err (xz_malformed ''xz_index_record_mismatch'' ''An XZ index record disagrees with the corresponding real block.'')
     else match_records k bytes index_start index_crc_start check_bytes cursor (bs_next actual))))"

text \<open>The first part of \<open>preflight_xz\<close>: the stream header and footer, and the extent of the index they give. The
  result is the width of the integrity check, the size of the index and its start.\<close>

definition locate_index :: "byte_slice \<Rightarrow> nat \<Rightarrow> (nat \<times> nat \<times> nat) xz_result" where
  "locate_index bytes max_index_bytes =
     (if length bytes < STREAM_HEADER_BYTES + STREAM_FOOTER_BYTES then
        Err (xz_malformed ''xz_truncated'' ''The XZ stream is truncated.'')
      else
     res_bind (validate_stream_header bytes) (\<lambda>check_bytes.
     let footer_start = length bytes - STREAM_FOOTER_BYTES in
     res_bind (index_range bytes footer_start (length bytes)) (\<lambda>footer.
     if get_range footer 10 12 \<noteq> Some [89, 90] then
       Err (xz_unsupported ''xz_multiple_streams_unsupported'' ''Concatenated XZ streams are not decoded in process.'')
     else
     res_bind (index_range footer 4 10) (\<lambda>protected.
     res_bind (index_range footer 0 4) (\<lambda>encoded.
     res_bind (validate_crc32 protected encoded ''xz_footer_crc_invalid'' ''The XZ stream footer CRC is invalid.'') (\<lambda>_.
     if get_range bytes 6 8 \<noteq> get_range footer 8 10 then
       Err (xz_malformed ''xz_stream_flags_mismatch'' ''The XZ stream header and footer flags disagree.'')
     else
     res_bind (index_range footer 4 8) (\<lambda>size_bytes.
     let backward_size = from_le_bytes size_bytes in
     res_bind (ok_or (xz_malformed ''xz_index_size_overflow'' ''The XZ index size overflows.'')
       (Option.bind (checked_add U64_MAX backward_size 1) (\<lambda>v. checked_mul U64_MAX v 4))) (\<lambda>index_size.
     if max_index_bytes < index_size then
       Err (xz_limit ''xz_index_limit_exceeded'' index_size max_index_bytes ''XZ index bytes'')
     else
     res_bind (ok_or (xz_malformed ''xz_index_size_overflow'' ''The XZ index is too large.'')
       (try_from USIZE_MAX index_size)) (\<lambda>index_size_usize.
     res_bind (ok_or (xz_malformed ''xz_index_out_of_bounds'' ''The XZ footer points outside the attachment.'')
       (checked_sub footer_start index_size_usize)) (\<lambda>index_start.
     if index_start < STREAM_HEADER_BYTES \<or> index_size_usize < 8 then
       Err (xz_malformed ''xz_index_out_of_bounds'' ''The XZ index overlaps the stream header.'')
     else
     let index_crc_start = footer_start - 4 in
     res_bind (index_range bytes index_start index_crc_start) (\<lambda>index_data.
     res_bind (index_range bytes index_crc_start footer_start) (\<lambda>encoded.
     res_bind (validate_crc32 index_data encoded ''xz_index_crc_invalid'' ''The XZ index CRC is invalid.'') (\<lambda>_.
       Ok (check_bytes, index_size, index_start))))))))))))))"

definition preflight_xz :: "byte_slice \<Rightarrow> nat \<Rightarrow> nat \<Rightarrow> nat \<Rightarrow> xz_summary xz_result" where
  "preflight_xz bytes max_blocks max_index_bytes max_dictionary_bytes =
     res_bind (locate_index bytes max_index_bytes) (\<lambda>(check_bytes, index_size, index_start).
     let index_crc_start = length bytes - STREAM_FOOTER_BYTES - 4 in
     res_bind (walk_blocks bytes index_start check_bytes max_blocks max_dictionary_bytes STREAM_HEADER_BYTES 0 0)
       (\<lambda>(actual_blocks, largest_dictionary_bytes, actual_start).
     if actual_start \<noteq> index_start then Err (layout_mismatch bytes actual_start index_start)
     else if get_byte bytes index_start \<noteq> Some 0 then
       Err (xz_malformed ''xz_index_marker_invalid'' ''The XZ index marker is invalid.'')
     else
     res_bind (parse_vli bytes (index_start + 1) index_crc_start) (\<lambda>(record_count, cursor).
     if max_blocks < record_count then
       Err (xz_limit ''xz_block_limit_exceeded'' record_count max_blocks ''XZ blocks'')
     else if record_count \<noteq> actual_blocks then
       Err (xz_malformed ''xz_index_record_count_mismatch''
              (''The XZ index declares '' @ show_nat record_count @ '' blocks, but the stream contains '' @
               show_nat actual_blocks @ ''.''))
     else
     res_bind (match_records record_count bytes index_start index_crc_start check_bytes cursor STREAM_HEADER_BYTES)
       (\<lambda>(cursor, block_start).
     if block_start \<noteq> index_start then Err (layout_mismatch bytes block_start index_start)
     else
     res_bind (index_range bytes cursor index_crc_start) (\<lambda>padding.
     if list_ex (\<lambda>byte. byte \<noteq> 0) padding then
       Err (xz_malformed ''xz_index_padding_invalid'' ''The XZ index contains non-zero padding.'')
     else
       Ok \<lparr>xs_blocks = record_count, xs_largest_dictionary_bytes = largest_dictionary_bytes,
           xs_index_bytes = index_size\<rparr>)))))"

section \<open>No input panics\<close>

lemma layout_mismatch_panics [panic_free]: "never_panics (Err (layout_mismatch bytes a b))"
  by (simp add: layout_mismatch_def Let_def panic_free)

lemma validate_stream_header_panics [panic_free]: "never_panics (validate_stream_header bytes)"
  unfolding validate_stream_header_def Let_def
  by (intro panic_steps panic_free) (auto simp: result_simps get_range_Some)

lemma parse_optional_vli_panics [panic_free]:
  "e \<le> length bytes \<Longrightarrow> never_panics (parse_optional_vli b bytes c e)"
  by (auto simp: parse_optional_vli_def panic_free intro!: panic_steps)

lemma parse_optional_vli_cursor: "parse_optional_vli b bytes c e = Ok (w, c') \<Longrightarrow> c \<le> e \<Longrightarrow> c' \<le> e"
  by (auto simp: parse_optional_vli_def result_simps dest!: parse_vli_cursor split: if_splits)

lemma parse_filters_panics: "data_end \<le> length header \<Longrightarrow> never_panics (parse_filters k header data_end n c d)"
proof (induction k arbitrary: c d)
  case (Suc k)
  show ?case unfolding parse_filters.simps Let_def
    by (intro panic_steps panic_free Suc) (use Suc in \<open>auto simp: result_simps\<close>)
qed (simp add: parse_filters.simps panic_free)

lemma parse_filters_cursor:
  "parse_filters k header data_end n c d = Ok (d', c') \<Longrightarrow> c \<le> data_end \<Longrightarrow> c' \<le> data_end"
proof (induction k arbitrary: c d)
  case (Suc k)
  then show ?case
    by (fastforce simp: parse_filters.simps Let_def result_simps index_range_Ok get_range_Some split: if_splits prod.splits)
qed (simp add: parse_filters.simps)

lemma inspect_block_header_panics [panic_free]: "never_panics (inspect_block_header bytes p e)"
  unfolding inspect_block_header_def Let_def
  by (intro panic_steps panic_free parse_filters_panics)
     (auto simp: result_simps get_range_Some bind_eq_Some_conv dest!: parse_optional_vli_cursor parse_filters_cursor)

lemma lzma2_round_panics [panic_free]: "e \<le> length bytes \<Longrightarrow> never_panics (lzma2_round bytes e s)"
  unfolding lzma2_round_def Let_def by (intro panic_steps panic_free)

lemma scan_lzma2_loop_panics: "e \<le> length bytes \<Longrightarrow> never_panics (scan_lzma2_loop bytes e s)"
proof (induction bytes e s rule: scan_lzma2_loop.induct)
  case (1 bytes e s)
  have "never_panics (lzma2_round bytes e s)" using 1 by (simp add: panic_free)
  then show ?case using 1
    by (subst scan_lzma2_loop.simps) (auto simp: panic_free never_panics_def split: result.splits lzma2_item.splits)
qed

lemma scan_lzma2_chunks_panics [panic_free]: "e \<le> length bytes \<Longrightarrow> never_panics (scan_lzma2_chunks bytes start e)"
  by (simp add: scan_lzma2_chunks_def scan_lzma2_loop_panics)

lemma scan_lzma2_chunks_bounds:
  "scan_lzma2_chunks bytes start e = Ok (c, u) \<Longrightarrow> start < c \<and> c \<le> e \<and> c \<le> length bytes"
  by (auto simp: scan_lzma2_chunks_def dest: scan_lzma2_loop_bounds)

lemma never_panics_checked_sub [panic_free]: "b \<le> a \<Longrightarrow> never_panics (ok_or Panicked (checked_sub a b))"
  by (simp add: checked_sub_def panic_free)

lemma inspect_actual_block_panics [panic_free]:
  "index_start \<le> length bytes \<Longrightarrow> never_panics (inspect_actual_block bytes p index_start check)"
  unfolding inspect_actual_block_def Let_def
  by (intro panic_steps panic_free)
     (auto simp: result_simps dest!: scan_lzma2_chunks_bounds)

lemma walk_blocks_panics:
  "index_start \<le> length bytes \<Longrightarrow> never_panics (walk_blocks bytes index_start check mb md p n l)"
proof (induction bytes index_start check mb md p n l rule: walk_blocks.induct)
  case (1 bytes index_start check mb md p n l)
  have np: "never_panics (Err f)" if "inspect_actual_block bytes p index_start check = Err f" for f
    using inspect_actual_block_panics [OF 1 (2), of p check] that by (simp add: never_panics_def)
  show ?case using 1
    by (subst walk_blocks.simps)
       (auto simp: panic_free intro: np split: result.splits option.splits)
qed

lemma match_records_panics:
  "index_start \<le> length bytes \<Longrightarrow> e \<le> length bytes \<Longrightarrow> never_panics (match_records k bytes index_start e check c p)"
proof (induction k arbitrary: c p)
  case (Suc k)
  show ?case unfolding match_records.simps by (intro panic_steps panic_free Suc)
qed (simp add: panic_free)

lemma match_records_cursor:
  "match_records k bytes index_start e check c p = Ok (c', p') \<Longrightarrow> c \<le> e \<Longrightarrow> c' \<le> e"
  by (induction k arbitrary: c p) (fastforce simp: result_simps dest: parse_vli_cursor split: if_splits prod.splits)+

lemma match_records_within:
  "parse_vli bytes i e = Ok (n, c) \<Longrightarrow> match_records n bytes index_start e check c p = Ok (c', p') \<Longrightarrow> c' \<le> e"
  using parse_vli_cursor match_records_cursor by blast

lemma guard_Ok_iff: "(if c then Err e else m) = Ok x \<longleftrightarrow> \<not> c \<and> m = Ok x"
  by simp

lemma locate_index_panics [panic_free]: "never_panics (locate_index bytes mi)"
  unfolding locate_index_def Let_def STREAM_FOOTER_BYTES_def STREAM_HEADER_BYTES_def
  apply (intro panic_steps panic_free)
            apply (simp_all only: result_simps index_range_Ok result.inject)
       apply simp_all
  apply linarith
  done

lemma locate_index_guards:
  assumes "locate_index bytes mi = Ok (check, len, i)"
  shows "validate_stream_header bytes = Ok check \<and> 24 \<le> length bytes \<and> len \<le> mi \<and> len \<le> length bytes - 12 \<and>
    i = length bytes - 12 - len \<and> 12 \<le> i \<and> 8 \<le> len \<and>
    unat (crc32 (take (length bytes - 12 - 4 - i) (drop i bytes))) =
      from_le_bytes (take (length bytes - 12 - (length bytes - 12 - 4)) (drop (length bytes - 12 - 4) bytes))"
  using assms unfolding locate_index_def Let_def STREAM_FOOTER_BYTES_def STREAM_HEADER_BYTES_def
  apply (simp only: result_simps guard_Ok_iff index_range_Ok validate_crc32_def)
  apply (elim exE conjE)
  apply (simp only: not_less not_not de_Morgan_disj result.inject prod.inject)
  apply (elim conjE)
  apply hypsubst
  apply (intro conjI; (assumption | simp only: numeral_plus_numeral add_num_simps))
  done

lemma locate_index_extent:
  assumes "locate_index bytes mi = Ok (check, len, i)"
  shows "i + len + 12 = length bytes \<and> 12 \<le> i \<and> 8 \<le> len \<and> len \<le> mi"
proof -
  note g = locate_index_guards [OF assms]
  have "24 \<le> length bytes" "len \<le> mi" "len \<le> length bytes - 12" "i = length bytes - 12 - len" "12 \<le> i" "8 \<le> len"
    using g by - (elim conjE, assumption)+
  then show ?thesis by simp
qed

text \<open>
  C18. No byte sequence makes the XZ preflight panic: every index and slice it takes is in range, for every
  input and every limit, and since its loops advance, it returns a summary or an error.
\<close>

theorem preflight_xz_never_panics: "preflight_xz bytes max_blocks max_index_bytes max_dictionary_bytes \<noteq> Err Panicked"
proof -
  have "never_panics (preflight_xz bytes max_blocks max_index_bytes max_dictionary_bytes)"
    unfolding preflight_xz_def Let_def STREAM_FOOTER_BYTES_def STREAM_HEADER_BYTES_def
    by (intro panic_steps panic_free walk_blocks_panics match_records_panics)
       (auto dest!: locate_index_extent intro: match_records_within)
  then show ?thesis by (simp add: never_panics_def)
qed

section \<open>What an accepted stream guarantees\<close>

text \<open>The real blocks from \<open>p\<close> up to the index, each with its start, its summary and its dictionary size.\<close>

inductive xz_blocks :: "byte_slice \<Rightarrow> nat \<Rightarrow> nat \<Rightarrow> nat \<Rightarrow> (nat \<times> block_summary \<times> nat) list \<Rightarrow> bool"
  for bytes index_start check where
  no_blocks: "xz_blocks bytes index_start check index_start []"
| next_block:
    "p < index_start \<Longrightarrow> inspect_actual_block bytes p index_start check = Ok (b, d) \<Longrightarrow>
     xz_blocks bytes index_start check (bs_next b) bs \<Longrightarrow> xz_blocks bytes index_start check p ((p, b, d) # bs)"

inductive_cases no_blocksE: "xz_blocks bytes index_start check p []"
inductive_cases next_blockE: "xz_blocks bytes index_start check p (x # bs)"

lemma xz_blocks_at: "xz_blocks bytes i check p bs \<Longrightarrow> (q, b, d) \<in> set bs \<Longrightarrow> inspect_actual_block bytes q i check = Ok (b, d)"
  by (induction rule: xz_blocks.induct) auto

definition largest_dictionary :: "nat \<Rightarrow> (nat \<times> block_summary \<times> nat) list \<Rightarrow> nat" where
  "largest_dictionary = foldl (\<lambda>l (p, b, d). max l d)"

lemma largest_dictionary_simps [simp]:
  "largest_dictionary l [] = l" "largest_dictionary l ((p, b, d) # bs) = largest_dictionary (max l d) bs"
  by (simp_all add: largest_dictionary_def)

lemma largest_dictionary_bounds:
  "l \<le> largest_dictionary l bs \<and> (\<forall>(p, b, d) \<in> set bs. d \<le> largest_dictionary l bs)"
proof (induction bs arbitrary: l)
  case (Cons x bs)
  obtain p b d where x: "x = (p, b, d)" using prod_cases3 .
  show ?case using Cons [of "max l d"] by (auto simp: x)
qed simp

lemma largest_dictionary_attained: "largest_dictionary l bs \<in> insert l ((\<lambda>(p, b, d). d) ` set bs)"
proof (induction bs arbitrary: l)
  case (Cons x bs)
  obtain p b d where x: "x = (p, b, d)" using prod_cases3 .
  show ?case using Cons [of "max l d"] by (auto simp: x max_def split: if_splits)
qed simp

lemma walk_blocks_sound:
  "walk_blocks bytes i check mb md p n l = Ok (n', l', q) \<Longrightarrow> p \<le> i \<Longrightarrow>
   q = i \<and> (\<exists>bs. xz_blocks bytes i check p bs \<and> n' = n + length bs \<and> (bs \<noteq> [] \<longrightarrow> n' \<le> mb) \<and>
     l' = largest_dictionary l bs \<and> list_all (\<lambda>(p, b, d). d \<le> md) bs)"
proof (induction bytes i check mb md p n l rule: walk_blocks.induct)
  case (1 bytes i check mb md p n l)
  note walk = walk_blocks.simps [of bytes i check mb md p n l]
  show ?case
  proof (cases "p < i")
    case False
    have "walk_blocks bytes i check mb md p n l = Ok (n, l, p)" using False by (simp add: walk)
    then have "p = i" "n' = n" "l' = l" "q = i" using False 1 (2,3) by simp_all
    then show ?thesis by (auto intro!: exI [of _ "[]"] intro: no_blocks)
  next
    case True
    then obtain b d where g: "get_byte bytes p \<noteq> Some 0" "checked_add U64_MAX n 1 = Some (n + 1)" "\<not> mb < n + 1"
        "inspect_actual_block bytes p i check = Ok (b, d)" "\<not> md < d"
        "walk_blocks bytes i check mb md (bs_next b) (n + 1) (max l d) = Ok (n', l', q)"
      using 1 (2) by (auto simp: walk result_simps split: if_splits option.splits result.splits)
    have "bs_next b \<le> i" using inspect_actual_block_progress [OF g (4)] by simp
    then obtain bs where "q = i" "xz_blocks bytes i check (bs_next b) bs" "n' = n + 1 + length bs"
        "bs \<noteq> [] \<longrightarrow> n' \<le> mb" "l' = largest_dictionary (max l d) bs" "list_all (\<lambda>(p, b, d). d \<le> md) bs"
      using 1 (1) [OF True g (1,2,3,4) refl g (5) g (6)] by blast
    then show ?thesis using True g (3,4,5)
      by (intro conjI exI [of _ "(p, b, d) # bs"]) (auto intro: next_block)
  qed
qed

text \<open>The bytes of the index records of a list of blocks.\<close>

definition index_records :: "(nat \<times> block_summary \<times> nat) list \<Rightarrow> byte_slice" where
  "index_records bs =
     concat (map (\<lambda>(p, b, d). encode_vli (bs_unpadded_bytes b) @ encode_vli (bs_uncompressed_bytes b)) bs)"

lemma parse_vli_bytes:
  assumes "list_all (\<lambda>b. b < 256) bytes" "parse_vli bytes c e = Ok (v, c')"
  shows "take (c' - c) (drop c bytes) = encode_vli v" "c \<le> c'"
  using assms parse_vli_loop_iff [OF assms (1), of 9 0 e c v c'] by (auto simp: parse_vli_def vli_at_def)

lemma take_drop_append:
  "a \<le> b \<Longrightarrow> b \<le> c \<Longrightarrow> take (c - a) (drop a xs) = take (b - a) (drop a xs) @ take (c - b) (drop b xs)"
  using take_add [of "b - a" "c - b" "drop a xs"] by simp

lemma match_records_sound:
  assumes bytes: "list_all (\<lambda>b. b < 256) bytes"
  shows "xz_blocks bytes i check p bs \<Longrightarrow> match_records (length bs) bytes i e check c p = Ok (c', p') \<Longrightarrow>
    p' = i \<and> c \<le> c' \<and> take (c' - c) (drop c bytes) = index_records bs"
proof (induction bs arbitrary: p c)
  case Nil
  then show ?case by (auto simp: index_records_def elim: no_blocksE)
next
  case (Cons x bs)
  obtain b d where x: "x = (p, b, d)" "inspect_actual_block bytes p i check = Ok (b, d)"
      "xz_blocks bytes i check (bs_next b) bs"
    using Cons (2) by (auto elim: next_blockE)
  obtain c\<^sub>1 c\<^sub>2 where v: "parse_vli bytes c e = Ok (bs_unpadded_bytes b, c\<^sub>1)"
      "parse_vli bytes c\<^sub>1 e = Ok (bs_uncompressed_bytes b, c\<^sub>2)"
      "match_records (length bs) bytes i e check c\<^sub>2 (bs_next b) = Ok (c', p')"
    using Cons (3) x by (auto simp: result_simps split: if_splits)
  note ih = Cons.IH [OF x (3) v (3)] and v1 = parse_vli_bytes [OF bytes v (1)] and v2 = parse_vli_bytes [OF bytes v (2)]
  have "take (c' - c) (drop c bytes) =
      take (c\<^sub>1 - c) (drop c bytes) @ take (c\<^sub>2 - c\<^sub>1) (drop c\<^sub>1 bytes) @ take (c' - c\<^sub>2) (drop c\<^sub>2 bytes)"
    using take_drop_append [of c c\<^sub>1 c' bytes] take_drop_append [of c\<^sub>1 c\<^sub>2 c' bytes] v1 (2) v2 (2) ih by simp
  then show ?case using ih v1 v2 by (simp add: x index_records_def)
qed

text \<open>A block is padded to a multiple of four bytes.\<close>

lemma padding_width_mod: "padding_width n = (4 - n mod 4) mod 4"
proof -
  have "m AND 3 = m mod 4" for m :: nat
    using take_bit_eq_mask [of 2 m] by (simp add: mask_eq_exp_minus_1 take_bit_eq_mod)
  then show ?thesis by (simp add: padding_width_def)
qed

lemma padded_to_four: "4 dvd (n + (4 - n mod 4) mod 4)" for n :: nat
proof -
  define q r where "q = n div 4" and "r = n mod 4"
  have n: "n = 4 * q + r" "r < 4" by (simp_all add: q_def r_def)
  show ?thesis
  proof (cases "r = 0")
    case False
    have "n + (4 - r) mod 4 = 4 * (q + 1)" using n False by simp
    then show ?thesis unfolding r_def by (metis dvd_triv_left)
  qed (simp add: n r_def [symmetric])
qed

lemma inspect_actual_block_layout:
  assumes "inspect_actual_block bytes p i check = Ok (b, d)"
  shows "bs_next b = p + bs_unpadded_bytes b + (4 - bs_unpadded_bytes b mod 4) mod 4"
proof -
  obtain h ce u where h: "inspect_block_header bytes p i = Ok h" "scan_lzma2_chunks bytes (p + bh_bytes h) i = Ok (ce, u)"
    and un: "bs_unpadded_bytes b = bh_bytes h + (ce - (p + bh_bytes h)) + check"
    and nx: "bs_next b = ce + padding_width (bs_unpadded_bytes b) + check"
    using assms by (auto simp: inspect_actual_block_def result_simps bind_eq_Some_conv guard_Ok_iff)
  have "p + bh_bytes h < ce" using scan_lzma2_chunks_bounds [OF h (2)] by simp
  then have "ce + check = p + bs_unpadded_bytes b" unfolding un by simp
  then show ?thesis unfolding nx padding_width_mod by (simp add: add.assoc add.left_commute)
qed

lemma xz_blocks_aligned: "xz_blocks bytes i check p bs \<Longrightarrow> 4 dvd p \<Longrightarrow> 4 dvd i \<and> list_all (\<lambda>(p, b, d). 4 dvd p) bs"
proof (induction rule: xz_blocks.induct)
  case (next_block p b d bs)
  have "bs_next b = p + (bs_unpadded_bytes b + (4 - bs_unpadded_bytes b mod 4) mod 4)"
    using inspect_actual_block_layout [OF next_block (2)] by simp
  then have "4 dvd bs_next b" using next_block (5) padded_to_four by (metis dvd_add)
  then show ?case using next_block by simp
qed simp

lemma largest_dictionary_le:
  "l \<le> m \<Longrightarrow> list_all (\<lambda>(p, b, d). d \<le> m) bs \<Longrightarrow> largest_dictionary l bs \<le> m"
proof (induction bs arbitrary: l)
  case (Cons x bs)
  obtain p b d where x: "x = (p, b, d)" using prod_cases3 .
  show ?case using Cons by (simp add: x)
qed simp

text \<open>The guards an accepted stream has passed after its index was located.\<close>

lemma preflight_xz_guards:
  assumes "preflight_xz bytes mb mi md = Ok s"
  obtains check i cursor cursor' where
    "locate_index bytes mi = Ok (check, xs_index_bytes s, i)"
    "walk_blocks bytes i check mb md 12 0 0 = Ok (xs_blocks s, xs_largest_dictionary_bytes s, i)"
    "get_byte bytes i = Some 0" "parse_vli bytes (i + 1) (length bytes - 12 - 4) = Ok (xs_blocks s, cursor)" "xs_blocks s \<le> mb"
    "match_records (xs_blocks s) bytes i (length bytes - 12 - 4) check cursor 12 = Ok (cursor', i)"
    "cursor' \<le> length bytes - 12 - 4"
    "list_all (\<lambda>b. b = 0) (take (length bytes - 12 - 4 - cursor') (drop cursor' bytes))"
proof -
  show thesis
    using assms unfolding preflight_xz_def Let_def STREAM_FOOTER_BYTES_def STREAM_HEADER_BYTES_def
    apply (simp only: result_simps guard_Ok_iff index_range_Ok split_paired_Ex prod.case)
    apply (elim exE conjE)
    apply (simp only: not_less not_not result.inject)
    apply hypsubst
    apply (rule that)
           apply (simp_all only: xz_summary.simps list_all_iff list_ex_iff Ball_def Bex_def not_ex simp_thms de_Morgan_conj imp_conv_disj)
    done
qed

text \<open>The index of a stream: a marker, the number of blocks, one record a block, and zero padding.\<close>

lemma index_bytes:
  assumes bytes: "list_all (\<lambda>b. b < 256) bytes" and len: "i < length bytes" and marker: "get_byte bytes i = Some 0"
    and count: "parse_vli bytes (i + 1) e = Ok (n, c)" and records: "take (c' - c) (drop c bytes) = rs" "c \<le> c'"
    and padding: "c' \<le> e" "list_all (\<lambda>b. b = 0) (take (e - c') (drop c' bytes))"
  shows "\<exists>k. take (e - i) (drop i bytes) = 0 # encode_vli n @ rs @ replicate k 0"
proof -
  have v: "take (c - (i + 1)) (drop (i + 1) bytes) = encode_vli n" "i + 1 \<le> c" by (rule parse_vli_bytes [OF bytes count])+
  have "replicate (length xs) 0 = xs" if "list_all (\<lambda>b. b = 0) xs" for xs :: byte_slice
    using that by (induction xs) simp_all
  from this [OF padding (2)] obtain k where z: "take (e - c') (drop c' bytes) = replicate k 0" by metis
  have "take (e - (i + 1)) (drop (i + 1) bytes) = encode_vli n @ rs @ replicate k 0"
    using take_drop_append [of "i + 1" c e bytes] take_drop_append [of c c' e bytes] v records padding (1) z by simp
  moreover have "drop i bytes = 0 # drop (i + 1) bytes"
    using marker len by (simp add: get_byte_def Cons_nth_drop_Suc [symmetric])
  moreover have "e - i = Suc (e - (i + 1))" using v (2) records (2) padding (1) by simp
  ultimately show ?thesis by (auto simp: take_Suc_Cons)
qed

text \<open>
  C19. An accepted XZ stream is what it declares. The real blocks, each found by inspecting the bytes where
  the previous one ends, tile the stream from its header to its index, at offsets that are multiples of four;
  their number and every dictionary size are within the limits given, and the summary reports the number and
  an upper bound of the sizes that one of them attains. The checksummed index is the encoding of exactly these
  blocks: it can neither hide a block nor describe one that is not there.
\<close>

theorem preflight_xz_sound:
  assumes ok: "byte_slice_ok bytes" and pre: "preflight_xz bytes max_blocks max_index_bytes max_dictionary_bytes = Ok s"
  shows "\<exists>check i blocks padding. validate_stream_header bytes = Ok check \<and>
    i + xs_index_bytes s + 12 = length bytes \<and> xs_index_bytes s \<le> max_index_bytes \<and>
    xz_blocks bytes i check 12 blocks \<and> 4 dvd i \<and>
    xs_blocks s = length blocks \<and> length blocks \<le> max_blocks \<and>
    list_all (\<lambda>(p, b, d). 4 dvd p \<and> d \<le> xs_largest_dictionary_bytes s) blocks \<and>
    xs_largest_dictionary_bytes s \<le> max_dictionary_bytes \<and>
    xs_largest_dictionary_bytes s \<in> insert 0 ((\<lambda>(p, b, d). d) ` set blocks) \<and>
    take (xs_index_bytes s - 4) (drop i bytes) =
      0 # encode_vli (length blocks) @ index_records blocks @ replicate padding 0 \<and>
    unat (crc32 (take (xs_index_bytes s - 4) (drop i bytes))) = from_le_bytes (take 4 (drop (length bytes - 16) bytes))"
proof -
  obtain check i c c' where loc: "locate_index bytes max_index_bytes = Ok (check, xs_index_bytes s, i)"
    and walk: "walk_blocks bytes i check max_blocks max_dictionary_bytes 12 0 0 =
        Ok (xs_blocks s, xs_largest_dictionary_bytes s, i)"
    and index: "get_byte bytes i = Some 0" "parse_vli bytes (i + 1) (length bytes - 12 - 4) = Ok (xs_blocks s, c)"
    and le: "xs_blocks s \<le> max_blocks"
    and match: "match_records (xs_blocks s) bytes i (length bytes - 12 - 4) check c 12 = Ok (c', i)"
    and pad: "c' \<le> length bytes - 12 - 4" "list_all (\<lambda>b. b = 0) (take (length bytes - 12 - 4 - c') (drop c' bytes))"
    using pre by (rule preflight_xz_guards)
  have bytes: "list_all (\<lambda>b. b < 256) bytes" using ok by (simp add: byte_slice_ok_def)
  note ext = locate_index_extent [OF loc]
  have hdr: "validate_stream_header bytes = Ok check" and crc: "unat (crc32 (take (length bytes - 12 - 4 - i) (drop i bytes))) =
      from_le_bytes (take (length bytes - 12 - (length bytes - 12 - 4)) (drop (length bytes - 12 - 4) bytes))"
    using locate_index_guards [OF loc] by - (elim conjE, assumption)+
  have "12 \<le> i" using ext by blast
  then obtain blocks where bs: "xz_blocks bytes i check 12 blocks" "xs_blocks s = length blocks"
      "xs_largest_dictionary_bytes s = largest_dictionary 0 blocks" "list_all (\<lambda>(p, b, d). d \<le> max_dictionary_bytes) blocks"
    using walk_blocks_sound [OF walk] by auto
  have rec: "c \<le> c'" "take (c' - c) (drop c bytes) = index_records blocks"
    using match_records_sound [OF bytes bs (1), of _ c c' i] match unfolding bs (2) by blast+
  have al: "4 dvd i" "list_all (\<lambda>(p, b, d). 4 dvd p) blocks" using xz_blocks_aligned [OF bs (1)] by simp_all
  have e: "length bytes - 16 - i = xs_index_bytes s - 4" "length bytes - 12 - (length bytes - 16) = 4"
      "length bytes - 12 - 4 = length bytes - 16" "i < length bytes" using ext by linarith+
  obtain k where idx: "take (xs_index_bytes s - 4) (drop i bytes) = 0 # encode_vli (length blocks) @ index_records blocks @ replicate k 0"
    using index_bytes [OF bytes e (4) index rec (2,1) pad] unfolding e bs (2) by blast
  have "list_all (\<lambda>(p, b, d). 4 dvd p \<and> d \<le> xs_largest_dictionary_bytes s) blocks"
    using al (2) largest_dictionary_bounds [of 0 blocks] by (auto simp: list_all_iff bs (3))
  moreover have "xs_largest_dictionary_bytes s \<le> max_dictionary_bytes"
    using largest_dictionary_le [OF _ bs (4), of 0] by (simp add: bs (3))
  moreover have "xs_largest_dictionary_bytes s \<in> insert 0 ((\<lambda>(p, b, d). d) ` set blocks)"
    unfolding bs (3) by (rule largest_dictionary_attained)
  moreover have "length blocks \<le> max_blocks" using le bs (2) by simp
  ultimately show ?thesis
    using hdr ext bs (1,2) al (1) idx crc unfolding e by blast
qed

text \<open>A stream with one block of one byte.\<close>

definition sample_xz :: byte_slice where
  "sample_xz = [253, 55, 122, 88, 90, 0, 0, 0, 255, 18, 217, 65, 2, 0, 33, 1, 0, 0, 0, 0, 55, 39, 151, 214,
     1, 0, 0, 97, 0, 0, 0, 0, 0, 1, 17, 1, 173, 166, 88, 4, 6, 114, 158, 122, 1, 0, 0, 0, 0, 0, 89, 90]"

lemma sample_crcs:
  "unat (crc32 [0, 0]) = 1104745215" "unat (crc32 [2, 0, 33, 1, 0, 0, 0, 0]) = 3600230199"
  "unat (crc32 [0, 1, 17, 1]) = 72918701" "unat (crc32 [1, 0, 0, 0, 0, 0]) = 2057204230"
  by (simp_all add: crc_eval)

lemma sample_xz_ok: "byte_slice_ok sample_xz"
  by (simp add: sample_xz_def byte_slice_ok_def USIZE_MAX_def U64_MAX_def)

lemma sample_length: "length sample_xz = 52"
  by (simp add: sample_xz_def)

lemma sample_header: "validate_stream_header sample_xz = Ok 0"
  by (simp add: validate_stream_header_def sample_xz_def get_range_def XZ_MAGIC_def index_byte_def get_byte_def
      validate_crc32_def sample_crcs Let_def)

lemma sample_locate: "locate_index sample_xz 64 = Ok (0, 8, 32)"
  by (simp add: locate_index_def sample_header sample_length STREAM_HEADER_BYTES_def STREAM_FOOTER_BYTES_def Let_def
        get_range_def index_range_def del: One_nat_def)
     (simp add: sample_xz_def get_range_def index_range_def validate_crc32_def sample_crcs arith_defs USIZE_MAX_def U64_MAX_def
        STREAM_HEADER_BYTES_def del: One_nat_def)

lemma sample_filters: "parse_filters 1 [2, 0, 33, 1, 0, 0, 0, 0, 55, 39, 151, 214] 8 1 2 None = Ok (Some 4096, 5)"
  by code_simp

lemma sample_block_header:
  "inspect_block_header sample_xz 12 32 = Ok \<lparr>bh_bytes = 12, bh_dictionary_bytes = 4096,
     bh_declared_compressed_bytes = None, bh_declared_uncompressed_bytes = None\<rparr>"
  using sample_filters
  by (simp add: inspect_block_header_def Let_def sample_xz_def get_range_def get_byte_def index_byte_def index_range_def
      validate_crc32_def sample_crcs arith_defs USIZE_MAX_def U64_MAX_def parse_optional_vli_def
      del: One_nat_def)

lemma sample_chunks: "scan_lzma2_chunks sample_xz 24 32 = Ok (29, 1)"
  by code_simp

definition sample_block :: block_summary where
  "sample_block = \<lparr>bs_next = 32, bs_unpadded_bytes = 17, bs_uncompressed_bytes = 1\<rparr>"

lemma sample_actual_block: "inspect_actual_block sample_xz 12 32 0 = Ok (sample_block, 4096)"
  by (simp add: inspect_actual_block_def sample_block_header sample_chunks arith_defs USIZE_MAX_def U64_MAX_def padding_width_mod
      sample_block_def index_range_def get_range_def) (simp add: sample_xz_def)

lemma sample_walk: "walk_blocks sample_xz 32 0 4 8192 12 0 0 = Ok (1, 4096, 32)"
  by (simp add: walk_blocks.simps sample_actual_block arith_defs U64_MAX_def sample_block_def get_byte_def)
     (simp add: sample_xz_def)

lemma sample_records:
  "parse_vli sample_xz 33 36 = Ok (1, 34)" "parse_vli sample_xz 34 36 = Ok (17, 35)" "parse_vli sample_xz 35 36 = Ok (1, 36)"
  by code_simp+

definition sample_xz_summary :: xz_summary where
  "sample_xz_summary = \<lparr>xs_blocks = 1, xs_largest_dictionary_bytes = 4096, xs_index_bytes = 8\<rparr>"

lemma sample_match: "match_records 1 sample_xz 32 36 0 34 12 = Ok (36, 32)"
  by (simp add: sample_records sample_actual_block sample_block_def)

lemma sample_marker: "get_byte sample_xz 32 = Some 0"
  by (simp add: get_byte_def sample_xz_def)

lemma sample_preflight: "preflight_xz sample_xz 4 64 8192 = Ok sample_xz_summary"
  using sample_match
  by (simp add: preflight_xz_def STREAM_HEADER_BYTES_def STREAM_FOOTER_BYTES_def Let_def sample_locate sample_walk sample_length
      sample_marker sample_records sample_xz_summary_def index_range_def get_range_def del: match_records.simps)

theorem preflight_xz_sound_witness:
  "preflight_xz sample_xz 4 64 8192 = Ok sample_xz_summary \<and>
   (\<exists>blocks. xz_blocks sample_xz 32 0 12 blocks \<and> length blocks = 1)"
proof -
  obtain check i blocks where "validate_stream_header sample_xz = Ok check" "i + 8 + 12 = length sample_xz"
      "xz_blocks sample_xz i check 12 blocks" "length blocks = 1"
    using preflight_xz_sound [OF sample_xz_ok sample_preflight] by (auto simp: sample_xz_summary_def)
  then show ?thesis using sample_preflight by (auto simp: sample_header sample_length)
qed

end
