(* ===== verification/Pdf_Preflight.thy ===== *)
theory Pdf_Preflight
  imports Byte_Reader
begin

text \<open>
  The structural preflight of PDF files, \<open>attachment-native-inspect/src/pdf_preflight.rs\<close>: before a file is handed to
  the PDF library, the objects it declares, the entries of its cross-reference tables and streams and its
  potential embedded files are counted and compared with the remaining budgets. A byte slice is a list of numbers
  below 256 and a cursor an index; every \<open>while\<close> loop is a function of its cursor. An index or slice of the source
  lies behind a comparison with the length, so no access is out of range. An error is its code; the
  message that goes with it carries no information.

  The reference definitions of the second half say what is counted without cursors and without the code's number parser:
  tokens of the text without its comments, declarations among them, words of the lines of the cross-reference sections,
  occurrences of names.
\<close>

section \<open>Bytes\<close>

datatype pdf_error =
    Pdf_Object_Count_Overflow
  | Pdf_Object_Limit_Exceeded
  | Pdf_Metadata_Length_Overflow
  | Pdf_Metadata_Limit_Exceeded
  | Pdf_Xref_Count_Overflow
  | Pdf_Xref_Object_Limit_Exceeded
  | Pdf_Entry_Limit_Exceeded

record pdf_preflight =
  pp_object_declarations :: nat
  pp_xref_entries :: nat
  pp_potential_embedded_files :: nat
  pp_metadata_bytes :: nat

definition byte_string :: "string \<Rightarrow> byte_slice" where
  "byte_string s = map of_char s"

text \<open>\<open>u8::is_ascii_whitespace\<close>: tab, line feed, form feed, carriage return and space.\<close>

definition is_ascii_whitespace :: "nat \<Rightarrow> bool" where
  "is_ascii_whitespace b \<longleftrightarrow> b = 9 \<or> b = 10 \<or> b = 12 \<or> b = 13 \<or> b = 32"

definition is_digit_byte :: "nat \<Rightarrow> bool" where
  "is_digit_byte b \<longleftrightarrow> 48 \<le> b \<and> b \<le> 57"

definition is_line_end :: "nat \<Rightarrow> bool" where
  "is_line_end b \<longleftrightarrow> b = 10 \<or> b = 13"

definition is_pdf_delimiter :: "nat \<Rightarrow> bool" where
  "is_pdf_delimiter b \<longleftrightarrow> b \<in> set (byte_string ''/<>[](){}'')"

definition is_pdf_separator :: "nat \<Rightarrow> bool" where
  "is_pdf_separator b \<longleftrightarrow> is_ascii_whitespace b \<or> is_pdf_delimiter b"

definition trim_ascii :: "byte_slice \<Rightarrow> byte_slice" where
  "trim_ascii s = rev (dropWhile is_ascii_whitespace (rev (dropWhile is_ascii_whitespace s)))"

fun parse_u64_fold :: "nat \<Rightarrow> byte_slice \<Rightarrow> nat option" where
  "parse_u64_fold n [] = Some n"
| "parse_u64_fold n (b # bs) =
     Option.bind (checked_mul U64_MAX n 10) (\<lambda>m.
     Option.bind (checked_sub b 48) (\<lambda>d.
     Option.bind (checked_add U64_MAX m d) (\<lambda>n'. parse_u64_fold n' bs)))"

definition parse_u64 :: "byte_slice \<Rightarrow> nat option" where
  "parse_u64 bs = (if bs = [] then None else parse_u64_fold 0 bs)"

definition checked_metadata :: "nat \<Rightarrow> nat \<Rightarrow> nat \<Rightarrow> (nat, pdf_error) result" where
  "checked_metadata current additional limit =
     res_bind (ok_or Pdf_Metadata_Length_Overflow (try_from U64_MAX additional)) (\<lambda>additional.
     res_bind (ok_or Pdf_Metadata_Length_Overflow (checked_add U64_MAX current additional)) (\<lambda>following.
     if limit < following then Err Pdf_Metadata_Limit_Exceeded else Ok following))"

section \<open>Tokens\<close>

text \<open>\<open>while bytes.get(cursor).is_some_and(p) \<dots> cursor += 1\<close>.\<close>

function scan_while :: "(nat \<Rightarrow> bool) \<Rightarrow> byte_slice \<Rightarrow> nat \<Rightarrow> nat" where
  "scan_while p bytes cursor = (if is_some_and p (get_byte bytes cursor) then scan_while p bytes (cursor + 1) else cursor)"
  by pat_completeness auto

termination
  by (relation "measure (\<lambda>(p, bytes, cursor). length bytes - cursor)") (auto simp: get_byte_def split: if_splits)

declare scan_while.simps [simp del]

lemma scan_while_eq: "scan_while p bytes c = c + length (takeWhile p (drop c bytes))"
proof (induction p bytes c rule: scan_while.induct)
  case (1 p bytes c)
  show ?case
  proof (cases "c < length bytes \<and> p (bytes ! c)")
    case True
    then have "scan_while p bytes c = scan_while p bytes (c + 1)" by (simp add: scan_while.simps [of p bytes c] get_byte_def)
    also have "\<dots> = c + 1 + length (takeWhile p (drop (c + 1) bytes))" using 1 True by (simp add: get_byte_def)
    also have "\<dots> = c + length (takeWhile p (drop c bytes))" using True by (simp add: Cons_nth_drop_Suc [symmetric])
    finally show ?thesis .
  next
    case False
    then have "scan_while p bytes c = c" by (subst scan_while.simps) (auto simp: get_byte_def)
    moreover have "takeWhile p (drop c bytes) = []"
      using False by (cases "c < length bytes") (auto simp: Cons_nth_drop_Suc [symmetric])
    ultimately show ?thesis by simp
  qed
qed

lemma drop_scan_while: "drop (scan_while p bytes c) bytes = dropWhile p (drop c bytes)"
  unfolding scan_while_eq by (simp add: dropWhile_eq_drop add.commute)

lemma scan_while_ge: "c \<le> scan_while p bytes c"
  by (simp add: scan_while_eq)

lemma scan_while_le: "c \<le> length bytes \<Longrightarrow> scan_while p bytes c \<le> length bytes"
proof -
  have "length (takeWhile p (drop c bytes)) \<le> length (drop c bytes)" by (rule length_takeWhile_le)
  then show "c \<le> length bytes \<Longrightarrow> scan_while p bytes c \<le> length bytes" by (simp add: scan_while_eq)
qed

lemma scan_while_progress: "get_byte bytes c = Some b \<Longrightarrow> p b \<Longrightarrow> c < scan_while p bytes c \<and> scan_while p bytes c \<le> length bytes"
  using scan_while_ge [of "c + 1" p bytes] scan_while_le [of "c + 1" bytes p]
  by (simp add: scan_while.simps [of p bytes c] get_byte_def split: if_splits)

text \<open>The outer loop of \<open>next_pdf_token\<close>: skip whitespace and comments.\<close>

function skip_gap :: "byte_slice \<Rightarrow> nat \<Rightarrow> nat" where
  "skip_gap bytes cursor =
     (let cursor' = scan_while is_ascii_whitespace bytes cursor in
      if get_byte bytes cursor' \<noteq> Some 37 then cursor'
      else skip_gap bytes (scan_while (\<lambda>b. \<not> is_line_end b) bytes cursor'))"
  by pat_completeness auto

termination
proof (relation "measure (\<lambda>(bytes, cursor). length bytes - cursor)")
  fix bytes cursor x
  assume x: "x = scan_while is_ascii_whitespace bytes cursor" and "\<not> get_byte bytes x \<noteq> Some 37"
  then have "x < scan_while (\<lambda>b. \<not> is_line_end b) bytes x \<and> scan_while (\<lambda>b. \<not> is_line_end b) bytes x \<le> length bytes"
    by (intro scan_while_progress [of _ _ 37]) (simp_all add: is_line_end_def)
  moreover have "cursor \<le> x" using x scan_while_ge by simp
  ultimately have "length bytes - scan_while (\<lambda>b. \<not> is_line_end b) bytes x < length bytes - cursor" by arith
  then show "((bytes, scan_while (\<lambda>b. \<not> is_line_end b) bytes x), bytes, cursor) \<in> measure (\<lambda>(bytes, cursor). length bytes - cursor)"
    by simp
qed simp

declare skip_gap.simps [simp del]

definition is_regular :: "nat \<Rightarrow> bool" where
  "is_regular b \<longleftrightarrow> \<not> is_ascii_whitespace b \<and> \<not> is_pdf_delimiter b \<and> b \<noteq> 37"

definition next_pdf_token :: "byte_slice \<Rightarrow> nat \<Rightarrow> byte_slice option \<times> nat" where
  "next_pdf_token bytes cursor =
     (let start = skip_gap bytes cursor in
      case get_byte bytes start of
        None \<Rightarrow> (None, start)
      | Some first \<Rightarrow>
          if is_pdf_delimiter first then (get_range bytes start (start + 1), start + 1)
          else
            let cursor' = scan_while is_regular bytes start in
            (if start < cursor' then get_range bytes start cursor' else None, cursor'))"

lemma skip_gap_unfold:
  "skip_gap bytes c =
     (if get_byte bytes (scan_while is_ascii_whitespace bytes c) \<noteq> Some 37 then scan_while is_ascii_whitespace bytes c
      else skip_gap bytes (scan_while (\<lambda>b. \<not> is_line_end b) bytes (scan_while is_ascii_whitespace bytes c)))"
  by (subst skip_gap.simps) (simp only: Let_def)

lemma skip_gap_ge: "c \<le> skip_gap bytes c"
proof (induction bytes c rule: skip_gap.induct)
  case (1 bytes c)
  define x where "x = scan_while is_ascii_whitespace bytes c"
  define y where "y = scan_while (\<lambda>b. \<not> is_line_end b) bytes x"
  have le: "c \<le> x" "x \<le> y" unfolding x_def y_def by (rule scan_while_ge)+
  show ?case
  proof (cases "get_byte bytes x = Some 37")
    case True
    then have "y \<le> skip_gap bytes y" using 1 [OF x_def] by (simp add: y_def)
    moreover have "skip_gap bytes c = skip_gap bytes y"
      using True skip_gap_unfold [of bytes c] unfolding x_def [symmetric] y_def [symmetric] by simp
    ultimately show ?thesis using le by simp
  next
    case False
    then have "skip_gap bytes c = x" using skip_gap_unfold [of bytes c] unfolding x_def [symmetric] by simp
    then show ?thesis using le by simp
  qed
qed

lemma next_pdf_token_progress:
  "next_pdf_token bytes c = (Some t, c') \<Longrightarrow> c < c' \<and> c' \<le> length bytes"
  using skip_gap_ge [of c bytes] scan_while_le [of "skip_gap bytes c" bytes is_regular]
  by (auto simp: next_pdf_token_def Let_def get_byte_def split: option.splits if_splits)

section \<open>Counting\<close>

function count_object_loop :: "byte_slice \<Rightarrow> nat \<Rightarrow> nat \<Rightarrow> bool \<Rightarrow> bool \<Rightarrow> nat \<Rightarrow> (nat, pdf_error) result" where
  "count_object_loop bytes limit count previous_number two_numbers cursor =
     (case next_pdf_token bytes cursor of
        (None, _) \<Rightarrow> Ok count
      | (Some token, cursor') \<Rightarrow>
          if token = byte_string ''obj'' \<and> two_numbers then
            (case checked_add U32_MAX count 1 of
               None \<Rightarrow> Err Pdf_Object_Count_Overflow
             | Some count' \<Rightarrow>
                 if limit < count' then Err Pdf_Object_Limit_Exceeded
                 else count_object_loop bytes limit count' False False cursor')
          else
            (let number = parse_u64 token \<noteq> None
             in count_object_loop bytes limit count number (previous_number \<and> number) cursor'))"
  by pat_completeness auto

termination
  by (relation "measure (\<lambda>(bytes, limit, count, previous, two, cursor). length bytes - cursor)")
    (auto dest!: next_pdf_token_progress [OF sym])

declare count_object_loop.simps [simp del]

definition count_object_declarations :: "byte_slice \<Rightarrow> nat \<Rightarrow> (nat, pdf_error) result" where
  "count_object_declarations bytes limit = count_object_loop bytes limit 0 False False 0"

definition contains_object_header :: "byte_slice \<Rightarrow> bool" where
  "contains_object_header line =
     (case count_object_declarations line U32_MAX of Ok count \<Rightarrow> 0 < count | Err e \<Rightarrow> False)"

text \<open>\<open>slice::split\<close> with a predicate.\<close>

fun split_where :: "(nat \<Rightarrow> bool) \<Rightarrow> byte_slice \<Rightarrow> byte_slice list" where
  "split_where p [] = [[]]"
| "split_where p (b # bs) =
     (if p b then [] # split_where p bs
      else case split_where p bs of [] \<Rightarrow> [[b]] | w # ws \<Rightarrow> (b # w) # ws)"

definition xref_subsection_count :: "byte_slice \<Rightarrow> nat option" where
  "xref_subsection_count line =
     (case filter (\<lambda>part. part \<noteq> []) (split_where is_ascii_whitespace line) of
        [start, count] \<Rightarrow> if parse_u64 start = None then None else parse_u64 count
      | _ \<Rightarrow> None)"

definition name_at :: "byte_slice \<Rightarrow> byte_slice \<Rightarrow> nat \<Rightarrow> bool" where
  "name_at bytes name cursor \<longleftrightarrow> get_range bytes cursor (cursor + length name) = Some name"

lemma cursor_progress:
  assumes "name \<noteq> []" and "c + length name \<le> n" and "c + length name \<le> x"
  shows "n - x < n - (c::nat)"
proof -
  have "0 < length name" using assms(1) by blast
  with assms(2,3) show ?thesis by arith
qed

text \<open>The names are the literals \<open>preflight\<close> passes, none of which is empty; an empty one would not advance the loops.\<close>

function maximum_name_loop :: "byte_slice \<Rightarrow> byte_slice \<Rightarrow> nat \<Rightarrow> nat \<Rightarrow> (nat, pdf_error) result" where
  "maximum_name_loop bytes name maximum cursor =
     (if \<not> cursor + length name \<le> length bytes \<or> name = [] then Ok maximum
      else if \<not> name_at bytes name cursor \<or>
              is_some_and (\<lambda>b. \<not> is_pdf_separator b) (get_byte bytes (cursor + length name)) then
        maximum_name_loop bytes name maximum (cursor + 1)
      else
        let start = scan_while is_ascii_whitespace bytes (cursor + length name);
            cursor' = scan_while is_digit_byte bytes start
        in if start < cursor' then
             (case Option.bind (get_range bytes start cursor') parse_u64 of
                None \<Rightarrow> Err Pdf_Xref_Count_Overflow
              | Some v \<Rightarrow> maximum_name_loop bytes name (max maximum v) cursor')
           else maximum_name_loop bytes name maximum cursor')"
  by pat_completeness auto


termination
proof (relation "measure (\<lambda>(bytes, name, maximum, cursor). length bytes - cursor)", goal_cases)
  case (3 bytes name maximum cursor x y v)
  have "cursor + length name \<le> x" "x \<le> y" unfolding 3(3,4) by (rule scan_while_ge)+
  then show ?case using cursor_progress [of name cursor "length bytes" y] 3(1) by simp
next
  case (4 bytes name maximum cursor x y)
  have "cursor + length name \<le> x" "x \<le> y" unfolding 4(3,4) by (rule scan_while_ge)+
  then show ?case using cursor_progress [of name cursor "length bytes" y] 4(1) by simp
next
  case (2 bytes name maximum cursor)
  then show ?case using cursor_progress [of "[0]" cursor "length bytes" "cursor + 1"] by (cases name) simp_all
qed simp

declare maximum_name_loop.simps [simp del]

definition maximum_name_integer :: "byte_slice \<Rightarrow> byte_slice \<Rightarrow> (nat, pdf_error) result" where
  "maximum_name_integer bytes name = maximum_name_loop bytes name 0 0"

function count_name_loop :: "byte_slice \<Rightarrow> byte_slice \<Rightarrow> nat \<Rightarrow> nat \<Rightarrow> nat" where
  "count_name_loop bytes name count cursor =
     (if \<not> cursor + length name \<le> length bytes \<or> name = [] then count
      else if name_at bytes name cursor \<and> \<not> is_some_and (\<lambda>b. \<not> is_pdf_separator b) (get_byte bytes (cursor + length name)) then
        count_name_loop bytes name (saturating_add U32_MAX count 1) (cursor + length name)
      else count_name_loop bytes name count (cursor + 1))"
  by pat_completeness auto

termination
proof (relation "measure (\<lambda>(bytes, name, count, cursor). length bytes - cursor)", goal_cases)
  case (2 bytes name count cursor)
  then show ?case using cursor_progress [of name cursor "length bytes" "cursor + length name"] by simp
next
  case (3 bytes name count cursor)
  then show ?case using cursor_progress [of "[0]" cursor "length bytes" "cursor + 1"] by (cases name) simp_all
qed simp

declare count_name_loop.simps [simp del]

definition count_name :: "byte_slice \<Rightarrow> byte_slice \<Rightarrow> nat" where
  "count_name bytes name = count_name_loop bytes name 0 0"

function name_pair_loop :: "byte_slice \<Rightarrow> byte_slice \<Rightarrow> byte_slice \<Rightarrow> nat \<Rightarrow> bool" where
  "name_pair_loop bytes first second cursor =
     (if \<not> cursor + length first \<le> length bytes \<or> first = [] then False
      else if \<not> name_at bytes first cursor then name_pair_loop bytes first second (cursor + 1)
      else
        let cursor' = scan_while is_ascii_whitespace bytes (cursor + length first) in
        if get_range bytes cursor' (saturating_add USIZE_MAX cursor' (length second)) = Some second then True
        else name_pair_loop bytes first second cursor')"
  by pat_completeness auto

termination
proof (relation "measure (\<lambda>(bytes, first, second, cursor). length bytes - cursor)", goal_cases)
  case (3 bytes first second cursor x)
  have "cursor + length first \<le> x" unfolding 3(3) by (rule scan_while_ge)
  then show ?case using cursor_progress [of first cursor "length bytes" x] 3(1) by simp
next
  case (2 bytes first second cursor)
  then show ?case using cursor_progress [of "[0]" cursor "length bytes" "cursor + 1"] by (cases first) simp_all
qed simp

declare name_pair_loop.simps [simp del]

definition has_name_pair :: "byte_slice \<Rightarrow> byte_slice \<Rightarrow> byte_slice \<Rightarrow> bool" where
  "has_name_pair bytes first second = name_pair_loop bytes first second 0"

section \<open>The preflight\<close>

record pdf_walk =
  pw_xref_entries :: nat
  pw_metadata_bytes :: nat
  pw_in_xref :: bool

definition starts_with_bytes :: "byte_slice \<Rightarrow> byte_slice \<Rightarrow> bool" where
  "starts_with_bytes s pre \<longleftrightarrow> take (length pre) s = pre"

text \<open>The body of the loop over lines, at one raw line.\<close>

definition pdf_line :: "nat \<Rightarrow> nat \<Rightarrow> byte_slice \<Rightarrow> pdf_walk \<Rightarrow> (pdf_walk, pdf_error) result" where
  "pdf_line max_objects max_metadata_bytes raw w =
     (let line = trim_ascii raw;
          in_xref = (if line = byte_string ''xref'' then True
                     else if pw_in_xref w \<and> (starts_with_bytes line (byte_string ''trailer'') \<or>
                                           starts_with_bytes line (byte_string ''startxref'')) then False
                     else pw_in_xref w)
      in
      res_bind (if contains_object_header line then checked_metadata (pw_metadata_bytes w) (length raw) max_metadata_bytes
                else Ok (pw_metadata_bytes w)) (\<lambda>metadata.
      if \<not> in_xref then Ok (w\<lparr>pw_metadata_bytes := metadata, pw_in_xref := in_xref\<rparr>)
      else
        res_bind (checked_metadata metadata (length raw) max_metadata_bytes) (\<lambda>metadata.
        case xref_subsection_count line of
          None \<Rightarrow> Ok (w\<lparr>pw_metadata_bytes := metadata, pw_in_xref := in_xref\<rparr>)
        | Some count \<Rightarrow>
            res_bind (ok_or Pdf_Xref_Count_Overflow (checked_add U64_MAX (pw_xref_entries w) count)) (\<lambda>entries.
            if max_objects < entries then Err Pdf_Xref_Object_Limit_Exceeded
            else Ok (w\<lparr>pw_xref_entries := entries, pw_metadata_bytes := metadata, pw_in_xref := in_xref\<rparr>)))))"

lemma pdf_line_progress:
  assumes "c < length bytes"
  shows "c < scan_while is_line_end bytes (scan_while (\<lambda>b. \<not> is_line_end b) bytes c) \<and>
    scan_while is_line_end bytes (scan_while (\<lambda>b. \<not> is_line_end b) bytes c) \<le> length bytes"
proof -
  define x where "x = scan_while (\<lambda>b. \<not> is_line_end b) bytes c"
  have x: "c \<le> x" "x \<le> length bytes" unfolding x_def using assms by (simp_all add: scan_while_ge scan_while_le)
  have b: "get_byte bytes c = Some (bytes ! c)" using assms by (simp add: get_byte_def)
  show ?thesis
  proof (cases "is_line_end (bytes ! c)")
    case True
    then have "x = c" unfolding x_def by (subst scan_while.simps) (simp add: b)
    then show ?thesis using scan_while_progress [OF b, of is_line_end] True x_def by simp
  next
    case False
    then have "c < x" using scan_while_progress [OF b, of "\<lambda>b. \<not> is_line_end b"] x_def by simp
    moreover have "x \<le> scan_while is_line_end bytes x" "scan_while is_line_end bytes x \<le> length bytes"
      using x by (simp_all add: scan_while_ge scan_while_le)
    ultimately show ?thesis unfolding x_def by simp
  qed
qed

function pdf_lines :: "nat \<Rightarrow> nat \<Rightarrow> byte_slice \<Rightarrow> nat \<Rightarrow> pdf_walk \<Rightarrow> (pdf_walk, pdf_error) result" where
  "pdf_lines max_objects max_metadata_bytes bytes cursor w =
     (if \<not> cursor < length bytes then Ok w
      else
        let cursor' = scan_while is_line_end bytes (scan_while (\<lambda>b. \<not> is_line_end b) bytes cursor) in
        case pdf_line max_objects max_metadata_bytes (take (cursor' - cursor) (drop cursor bytes)) w of
          Err e \<Rightarrow> Err e
        | Ok w' \<Rightarrow> pdf_lines max_objects max_metadata_bytes bytes cursor' w')"
  by pat_completeness auto

termination
  by (relation "measure (\<lambda>(mo, mm, bytes, cursor, w). length bytes - cursor)")
    (use pdf_line_progress in \<open>fastforce+\<close>)

declare pdf_lines.simps [simp del]

definition preflight_pdf :: "byte_slice \<Rightarrow> nat \<Rightarrow> nat \<Rightarrow> nat \<Rightarrow> (pdf_preflight, pdf_error) result" where
  "preflight_pdf bytes max_objects max_entries max_metadata_bytes =
     res_bind (count_object_declarations bytes max_objects) (\<lambda>object_declarations.
     res_bind (pdf_lines max_objects max_metadata_bytes bytes 0
                 \<lparr>pw_xref_entries = 0, pw_metadata_bytes = 0, pw_in_xref = False\<rparr>) (\<lambda>w.
     res_bind (if has_name_pair bytes (byte_string ''/Type'') (byte_string ''/XRef'')
               then maximum_name_integer bytes (byte_string ''/Size'') else Ok 0) (\<lambda>xref_size.
     if max_objects < xref_size then Err Pdf_Xref_Object_Limit_Exceeded
     else
       let xref_entries = max (pw_xref_entries w) xref_size;
           potential = max (count_name bytes (byte_string ''/Filespec'')) (count_name bytes (byte_string ''/EmbeddedFile''))
       in if max_entries < potential then Err Pdf_Entry_Limit_Exceeded
          else Ok \<lparr>pp_object_declarations = object_declarations, pp_xref_entries = xref_entries,
                   pp_potential_embedded_files = potential, pp_metadata_bytes = pw_metadata_bytes w\<rparr>)))"

section \<open>What is counted\<close>

subsection \<open>Tokens and declarations\<close>

text \<open>The text without its comments: from a percent sign to the end of its line.\<close>

fun strip_comments :: "bool \<Rightarrow> byte_slice \<Rightarrow> byte_slice" where
  "strip_comments comment [] = []"
| "strip_comments comment (b # bs) =
     (if is_line_end b then b # strip_comments False bs
      else if comment \<or> b = 37 then strip_comments True bs
      else b # strip_comments False bs)"

text \<open>Tokens are delimiters and maximal words between whitespace and delimiters; \<open>w\<close> is the word read so far.\<close>

fun pdf_lex :: "byte_slice \<Rightarrow> byte_slice \<Rightarrow> byte_slice list" where
  "pdf_lex w [] = (if w = [] then [] else [w])"
| "pdf_lex w (b # bs) =
     (if is_ascii_whitespace b then (if w = [] then [] else [w]) @ pdf_lex [] bs
      else if is_pdf_delimiter b then (if w = [] then [] else [w]) @ [b] # pdf_lex [] bs
      else pdf_lex (w @ [b]) bs)"

definition pdf_tokens :: "byte_slice \<Rightarrow> byte_slice list" where
  "pdf_tokens bytes = pdf_lex [] (strip_comments False bytes)"

text \<open>A number is a word of bytes that are not below the digit zero and whose value by position fits in 64 bits. Decimal
  numbers are numbers with their decimal value; so are words of letters, each of which counts its distance from zero.\<close>

fun positional :: "byte_slice \<Rightarrow> nat" where
  "positional [] = 0"
| "positional (b # bs) = (b - 48) * 10 ^ length bs + positional bs"

definition is_number :: "byte_slice \<Rightarrow> bool" where
  "is_number t \<longleftrightarrow> t \<noteq> [] \<and> (\<forall>b \<in> set t. 48 \<le> b) \<and> positional t \<le> U64_MAX"

lemma parse_u64_fold_positional:
  "n \<le> U64_MAX \<Longrightarrow> parse_u64_fold n bs =
     (if (\<forall>b \<in> set bs. 48 \<le> b) \<and> n * 10 ^ length bs + positional bs \<le> U64_MAX then Some (n * 10 ^ length bs + positional bs) else None)"
proof (induction bs arbitrary: n)
  case (Cons b bs)
  define p where "p = (10 :: nat) ^ length bs"
  have p: "1 \<le> p" by (simp add: p_def)
  define n' where "n' = n * 10 + (b - 48)"
  have sum: "n * 10 ^ length (b # bs) + positional (b # bs) = n' * p + positional bs"
    by (simp add: n'_def p_def algebra_simps)
  have le: "n' \<le> n' * p + positional bs" using mult_le_mono2 [OF p, of n'] by (simp only: mult_1_right trans_le_add1)
  show ?case
  proof (cases "48 \<le> b \<and> n' \<le> U64_MAX")
    case True
    then have "n * 10 \<le> U64_MAX" unfolding n'_def by linarith
    then have "checked_mul U64_MAX n 10 = Some (n * 10)" "checked_sub b 48 = Some (b - 48)" "checked_add U64_MAX (n * 10) (b - 48) = Some n'"
      using True by (simp_all only: checked_mul_def checked_sub_def checked_add_def n'_def if_True)
    then have "parse_u64_fold n (b # bs) = parse_u64_fold n' bs" by simp
    then show ?thesis using Cons.IH [of n'] True unfolding sum by (simp add: p_def)
  next
    case False
    then have "parse_u64_fold n (b # bs) = None"
      by (auto simp: checked_mul_def checked_sub_def checked_add_def n'_def)
    moreover have "\<not> (48 \<le> b \<and> n' * p + positional bs \<le> U64_MAX)" using False le by linarith
    ultimately show ?thesis unfolding sum by simp
  qed
qed simp

lemma parse_u64_iff: "parse_u64 t = (if is_number t then Some (positional t) else None)"
  using parse_u64_fold_positional [of 0 t] by (auto simp: parse_u64_def is_number_def)

lemma is_number_parse: "is_number t \<longleftrightarrow> parse_u64 t \<noteq> None"
  by (simp add: parse_u64_iff)

text \<open>A declaration is two numbers and the word \<open>obj\<close>; declarations do not overlap.\<close>

fun declarations :: "byte_slice list \<Rightarrow> nat" where
  "declarations (a # b # c # ts) =
     (if is_number a \<and> is_number b \<and> c = byte_string ''obj'' then Suc (declarations ts) else declarations (b # c # ts))"
| "declarations ts = 0"

lemma line_end_whitespace: "is_line_end b \<Longrightarrow> is_ascii_whitespace b"
  by (auto simp: is_line_end_def is_ascii_whitespace_def)

lemma percent_plain: "\<not> is_line_end 37" "\<not> is_ascii_whitespace 37" "\<not> is_pdf_delimiter 37"
  by (simp_all add: is_line_end_def is_ascii_whitespace_def is_pdf_delimiter_def byte_string_def)

lemma strip_comments_in: "strip_comments True bs = strip_comments False (dropWhile (\<lambda>b. \<not> is_line_end b) bs)"
  by (induction bs) auto

lemma tokens_whitespace: "pdf_tokens bs = pdf_tokens (dropWhile is_ascii_whitespace bs)"
  by (induction bs) (auto simp: pdf_tokens_def percent_plain)

lemma tokens_comment: "pdf_tokens (37 # bs) = pdf_tokens (dropWhile (\<lambda>b. \<not> is_line_end b) (37 # bs))"
  by (simp add: pdf_tokens_def percent_plain strip_comments_in)

lemma delimiter_plain: "is_pdf_delimiter b \<Longrightarrow> \<not> is_ascii_whitespace b \<and> \<not> is_line_end b \<and> b \<noteq> 37"
  by (auto simp: is_line_end_def is_ascii_whitespace_def is_pdf_delimiter_def byte_string_def)

lemma tokens_delimiter: "is_pdf_delimiter b \<Longrightarrow> pdf_tokens (b # bs) = [b] # pdf_tokens bs"
  using delimiter_plain by (simp add: pdf_tokens_def)

lemma lex_end:
  assumes "w \<noteq> []" and "rest = [] \<or> \<not> is_regular (hd rest)"
  shows "pdf_lex w (strip_comments False rest) = w # pdf_tokens rest"
proof (cases rest)
  case (Cons b bs)
  consider "is_ascii_whitespace b" | "is_pdf_delimiter b" | "b = 37" using assms(2) Cons by (auto simp: is_regular_def)
  then show ?thesis
  proof cases
    case 1
    then have "b \<noteq> 37" using percent_plain by auto
    with 1 Cons assms(1) show ?thesis by (auto simp: pdf_tokens_def)
  next
    case 2
    with Cons assms(1) delimiter_plain [OF 2] show ?thesis by (simp add: pdf_tokens_def)
  next
    case 3
    define r where "r = dropWhile (\<lambda>b. \<not> is_line_end b) bs"
    have r: "r = [] \<or> is_line_end (hd r)" unfolding r_def using hd_dropWhile by blast
    have "pdf_lex w (strip_comments False r) = w # pdf_lex [] (strip_comments False r)"
      using r assms(1) line_end_whitespace by (cases r) auto
    then show ?thesis using Cons 3 by (simp add: pdf_tokens_def percent_plain strip_comments_in r_def)
  qed
qed (use assms(1) in \<open>simp add: pdf_tokens_def\<close>)

lemma lex_word:
  assumes "list_all is_regular rs" and "rest = [] \<or> \<not> is_regular (hd rest)" and "w @ rs \<noteq> []"
  shows "pdf_lex w (strip_comments False (rs @ rest)) = (w @ rs) # pdf_tokens rest"
  using assms
proof (induction rs arbitrary: w)
  case Nil
  then show ?case using lex_end by simp
next
  case (Cons r rs)
  then have "\<not> is_line_end r" "r \<noteq> 37" "\<not> is_ascii_whitespace r" "\<not> is_pdf_delimiter r"
    using line_end_whitespace by (auto simp: is_regular_def)
  with Cons show ?case by simp
qed

lemma tokens_word:
  assumes "is_regular b"
  shows "pdf_tokens (b # bs) = takeWhile is_regular (b # bs) # pdf_tokens (dropWhile is_regular (b # bs))"
proof -
  let ?rest = "dropWhile is_regular (b # bs)"
  have "list_all is_regular (takeWhile is_regular (b # bs))" by (auto simp: list_all_iff dest: set_takeWhileD)
  moreover have "?rest = [] \<or> \<not> is_regular (hd ?rest)" using hd_dropWhile by blast
  moreover have "[] @ takeWhile is_regular (b # bs) \<noteq> []" using assms by simp
  ultimately show ?thesis using lex_word [of "takeWhile is_regular (b # bs)" ?rest "[]"]
    unfolding pdf_tokens_def takeWhile_dropWhile_id by simp
qed

lemma drop_nth: "get_byte bytes c = Some b \<Longrightarrow> drop c bytes = b # drop (c + 1) bytes"
  by (auto simp: get_byte_def Cons_nth_drop_Suc split: if_splits)

lemma get_byte_None: "get_byte bytes c = None \<Longrightarrow> drop c bytes = []"
  by (auto simp: get_byte_def split: if_splits)

lemma scan_while_stop: "get_byte bytes (scan_while p bytes c) = Some b \<Longrightarrow> \<not> p b"
proof -
  assume "get_byte bytes (scan_while p bytes c) = Some b"
  then have "dropWhile p (drop c bytes) = b # drop (scan_while p bytes c + 1) bytes"
    by (simp only: drop_scan_while [symmetric] drop_nth)
  then show "\<not> p b" using hd_dropWhile [of p "drop c bytes"] by simp
qed

lemma skip_gap_tokens:
  "pdf_tokens (drop (skip_gap bytes c) bytes) = pdf_tokens (drop c bytes) \<and>
   (\<forall>b. get_byte bytes (skip_gap bytes c) = Some b \<longrightarrow> \<not> is_ascii_whitespace b \<and> b \<noteq> 37)"
proof (induction bytes c rule: skip_gap.induct)
  case (1 bytes c)
  define x where "x = scan_while is_ascii_whitespace bytes c"
  define y where "y = scan_while (\<lambda>b. \<not> is_line_end b) bytes x"
  have x: "pdf_tokens (drop x bytes) = pdf_tokens (drop c bytes)"
    unfolding x_def drop_scan_while by (rule tokens_whitespace [symmetric])
  show ?case
  proof (cases "get_byte bytes x = Some 37")
    case True
    then have ih: "pdf_tokens (drop (skip_gap bytes y) bytes) = pdf_tokens (drop y bytes) \<and>
        (\<forall>b. get_byte bytes (skip_gap bytes y) = Some b \<longrightarrow> \<not> is_ascii_whitespace b \<and> b \<noteq> 37)"
      using 1 [OF x_def] by (simp add: y_def)
    have "pdf_tokens (drop y bytes) = pdf_tokens (drop x bytes)"
      unfolding y_def drop_scan_while drop_nth [OF True] by (rule tokens_comment [symmetric])
    moreover have "skip_gap bytes c = skip_gap bytes y"
      using True skip_gap_unfold [of bytes c] unfolding x_def [symmetric] y_def [symmetric] by simp
    ultimately show ?thesis using ih x by simp
  next
    case False
    then have "skip_gap bytes c = x" using skip_gap_unfold [of bytes c] unfolding x_def [symmetric] by simp
    moreover have "\<not> is_ascii_whitespace b \<and> b \<noteq> 37" if "get_byte bytes x = Some b" for b
      using that False scan_while_stop [of bytes is_ascii_whitespace c b] unfolding x_def by blast
    ultimately show ?thesis using x by simp
  qed
qed

lemma take_scan_while: "take (scan_while p bytes c - c) (drop c bytes) = takeWhile p (drop c bytes)"
  by (simp only: scan_while_eq diff_add_inverse takeWhile_eq_take [symmetric])

lemma next_pdf_token_tokens:
  "case next_pdf_token bytes c of
     (None, c') \<Rightarrow> pdf_tokens (drop c bytes) = []
   | (Some t, c') \<Rightarrow> pdf_tokens (drop c bytes) = t # pdf_tokens (drop c' bytes)"
proof -
  define s where "s = skip_gap bytes c"
  have tok: "pdf_tokens (drop s bytes) = pdf_tokens (drop c bytes)"
    and plain: "get_byte bytes s = Some b \<Longrightarrow> \<not> is_ascii_whitespace b \<and> b \<noteq> 37" for b
    using skip_gap_tokens [of bytes c] unfolding s_def by blast+
  show ?thesis
  proof (cases "get_byte bytes s")
    case None
    then show ?thesis using tok get_byte_None [OF None] unfolding next_pdf_token_def s_def [symmetric]
      by (simp add: pdf_tokens_def)
  next
    case (Some b)
    then have len: "s < length bytes" by (simp add: get_byte_def split: if_splits)
    show ?thesis
    proof (cases "is_pdf_delimiter b")
      case True
      have "get_range bytes s (s + 1) = Some [b]" using len drop_nth [OF Some] by (simp add: get_range_def)
      then show ?thesis using True Some tok tokens_delimiter [OF True] drop_nth [OF Some]
        unfolding next_pdf_token_def s_def [symmetric] by simp
    next
      case False
      with plain [OF Some] have reg: "is_regular b" by (simp add: is_regular_def)
      define e where "e = scan_while is_regular bytes s"
      have e: "s < e" "e \<le> length bytes" using scan_while_progress [OF Some, of is_regular] reg by (simp_all add: e_def)
      have "get_range bytes s e = Some (takeWhile is_regular (drop s bytes))"
        using e take_scan_while [of is_regular bytes s] by (simp add: get_range_def e_def)
      moreover have "pdf_tokens (drop s bytes) = takeWhile is_regular (drop s bytes) # pdf_tokens (drop e bytes)"
        using tokens_word [OF reg] drop_nth [OF Some] drop_scan_while [of is_regular bytes s] by (simp add: e_def)
      ultimately show ?thesis using False Some tok e(1)
        unfolding next_pdf_token_def s_def [symmetric] by (simp add: e_def [symmetric])
    qed
  qed
qed

text \<open>The counting loop, on tokens.\<close>

fun count_tokens :: "nat \<Rightarrow> nat \<Rightarrow> bool \<Rightarrow> bool \<Rightarrow> byte_slice list \<Rightarrow> (nat, pdf_error) result" where
  "count_tokens limit n p two [] = Ok n"
| "count_tokens limit n p two (t # ts) =
     (if t = byte_string ''obj'' \<and> two then
        (case checked_add U32_MAX n 1 of
           None \<Rightarrow> Err Pdf_Object_Count_Overflow
         | Some n' \<Rightarrow> if limit < n' then Err Pdf_Object_Limit_Exceeded else count_tokens limit n' False False ts)
      else count_tokens limit n (is_number t) (p \<and> is_number t) ts)"

lemma count_object_loop_tokens:
  "count_object_loop bytes limit n p two c = count_tokens limit n p two (pdf_tokens (drop c bytes))"
proof (induction bytes limit n p two c rule: count_object_loop.induct)
  case (1 bytes limit n p two c)
  obtain mt c' where nt: "next_pdf_token bytes c = (mt, c')" by fastforce
  show ?case
  proof (cases mt)
    case None
    then show ?thesis using next_pdf_token_tokens [where bytes = bytes and c = c] nt by (subst count_object_loop.simps) simp
  next
    case (Some t)
    have tok: "pdf_tokens (drop c bytes) = t # pdf_tokens (drop c' bytes)"
      using next_pdf_token_tokens [where bytes = bytes and c = c] nt Some by simp
    note nt' = nt [symmetric, unfolded Some]
    note ih1 = 1(1) [OF nt' refl] and ih2 = 1(2) [OF nt' refl]
    show ?thesis
    proof (cases "t = byte_string ''obj'' \<and> two")
      case True
      then show ?thesis using ih1 tok by (subst count_object_loop.simps) (auto simp: nt Some split: option.split)
    next
      case False
      then have "count_object_loop bytes limit n p two c = count_object_loop bytes limit n (is_number t) (p \<and> is_number t) c'"
        by (subst count_object_loop.simps) (simp only: nt Some prod.case option.case if_False Let_def is_number_parse)
      moreover have "count_tokens limit n p two (t # ts) = count_tokens limit n (is_number t) (p \<and> is_number t) ts" for ts
        using False by (simp only: count_tokens.simps if_False)
      ultimately show ?thesis using ih2 [OF False refl] tok by (simp only: is_number_parse)
    qed
  qed
qed

lemma declarations_head: "is_number a = is_number b \<Longrightarrow> declarations (a # ts) = declarations (b # ts)"
  by (cases ts rule: remdups_adj.cases) auto

lemma declarations_skip: "\<not> is_number a \<Longrightarrow> declarations (a # ts) = declarations ts"
  by (cases ts rule: remdups_adj.cases) auto

lemma declarations_obj: "is_number (byte_string ''0'')"
  by (simp add: is_number_def byte_string_def)

text \<open>The numbers seen last, as tokens.\<close>

definition pending :: "bool \<Rightarrow> bool \<Rightarrow> byte_slice list" where
  "pending p two = (if two then [byte_string ''0'', byte_string ''0''] else if p then [byte_string ''0''] else [])"

lemma declarations_pending_more:
  assumes "\<not> (t = byte_string ''obj'' \<and> two)" and "two \<longrightarrow> p"
  shows "declarations (pending p two @ t # ts) = declarations (pending (is_number t) (p \<and> is_number t) @ ts)"
proof -
  let ?z = "byte_string ''0''"
  note z = declarations_obj
  have "declarations (pending p two @ t # ts) = declarations (pending p False @ t # ts)"
    using assms by (cases two) (auto simp: pending_def)
  also have "\<dots> = declarations (pending (is_number t) (p \<and> is_number t) @ ts)"
  proof (cases "is_number t")
    case True
    show ?thesis
    proof (cases p)
      case False
      then show ?thesis using True declarations_head [of t ?z ts] z by (simp add: pending_def)
    next
      case p: True
      have "declarations (?z # t # ts) = declarations (?z # ?z # ts)"
        using True z declarations_head [of t ?z ts] by (cases ts) auto
      with p True show ?thesis by (simp add: pending_def)
    qed
  next
    case False
    then have "declarations (?z # t # ts) = declarations (t # ts)" by (cases ts) auto
    with False declarations_skip [OF False] show ?thesis by (simp add: pending_def)
  qed
  finally show ?thesis .
qed

lemma count_tokens_declarations:
  assumes "two \<longrightarrow> p" and "n \<le> limit" and "limit \<le> U32_MAX"
  shows "count_tokens limit n p two ts = Ok m \<longleftrightarrow> m = n + declarations (pending p two @ ts) \<and> m \<le> limit"
  using assms
proof (induction ts arbitrary: n p two)
  case Nil
  have "declarations (pending p two) = 0" by (simp add: pending_def)
  with Nil show ?case by auto
next
  case (Cons t ts)
  show ?case
  proof (cases "t = byte_string ''obj'' \<and> two")
    case True
    then have "declarations (pending p two @ t # ts) = Suc (declarations ts)"
      using declarations_obj by (simp add: pending_def)
    moreover have "count_tokens limit n p two (t # ts) = Ok m \<longleftrightarrow> n < limit \<and> count_tokens limit (Suc n) False False ts = Ok m"
      using True Cons.prems by (auto simp: checked_add_def)
    moreover have "count_tokens limit (Suc n) False False ts = Ok m \<longleftrightarrow> m = Suc n + declarations ts \<and> m \<le> limit" if "n < limit"
      using Cons.IH [of False False "Suc n"] that Cons.prems by (simp add: pending_def)
    ultimately show ?thesis by auto
  next
    case False
    have "count_tokens limit n p two (t # ts) = count_tokens limit n (is_number t) (p \<and> is_number t) ts"
      using False by (simp only: count_tokens.simps if_False)
    moreover have "declarations (pending p two @ t # ts) = declarations (pending (is_number t) (p \<and> is_number t) @ ts)"
      by (rule declarations_pending_more [OF False Cons.prems(1)])
    ultimately show ?thesis using Cons.IH [of "p \<and> is_number t" "is_number t" n] Cons.prems by simp
  qed
qed

lemma count_object_declarations_Ok:
  assumes "limit \<le> U32_MAX"
  shows "count_object_declarations bytes limit = Ok m \<longleftrightarrow> m = declarations (pdf_tokens bytes) \<and> m \<le> limit"
  unfolding count_object_declarations_def count_object_loop_tokens
  using count_tokens_declarations [of False False 0 limit "pdf_tokens bytes" m] assms by (simp add: pending_def)

subsection \<open>Lines\<close>

lemma line_rest_shorter: "length (dropWhile is_line_end (dropWhile (\<lambda>b. \<not> is_line_end b) (b # bs))) < length (b # bs)"
  using length_dropWhile_le [of "\<lambda>b. \<not> is_line_end b" bs] length_dropWhile_le [of is_line_end bs]
    length_dropWhile_le [of is_line_end "dropWhile (\<lambda>b. \<not> is_line_end b) bs"]
  by (cases "is_line_end b") simp_all

text \<open>Raw lines: each with the run of line ends that closes it.\<close>

function raw_lines :: "byte_slice \<Rightarrow> byte_slice list" where
  "raw_lines [] = []"
| "raw_lines (b # bs) =
     (let rest = dropWhile (\<lambda>b. \<not> is_line_end b) (b # bs) in
      (takeWhile (\<lambda>b. \<not> is_line_end b) (b # bs) @ takeWhile is_line_end rest) # raw_lines (dropWhile is_line_end rest))"
  by pat_completeness auto

termination
  by (relation "measure length") (use line_rest_shorter in \<open>simp_all del: dropWhile.simps\<close>)

declare raw_lines.simps(2) [simp del]

lemma concat_raw_lines: "concat (raw_lines bs) = bs"
  by (induction bs rule: raw_lines.induct) (simp_all add: raw_lines.simps(2) Let_def)

text \<open>Whether a line is inside a cross-reference section, after a line of it has been looked at.\<close>

definition xref_state :: "bool \<Rightarrow> byte_slice \<Rightarrow> bool" where
  "xref_state inside raw \<longleftrightarrow>
     (let line = trim_ascii raw in
      line = byte_string ''xref'' \<or>
      inside \<and> \<not> starts_with_bytes line (byte_string ''trailer'') \<and> \<not> starts_with_bytes line (byte_string ''startxref''))"

fun xref_lines :: "bool \<Rightarrow> byte_slice list \<Rightarrow> byte_slice list" where
  "xref_lines inside [] = []"
| "xref_lines inside (raw # raws) =
     (if xref_state inside raw then raw # xref_lines True raws else xref_lines False raws)"

text \<open>A line of a table declares entries when it consists of exactly two words that are numbers: the second one says
  how many. A line has an object header when there is a declaration among its own tokens (and not more of them than a
  counter of 32 bits can hold).\<close>

definition xref_count :: "byte_slice \<Rightarrow> nat" where
  "xref_count raw =
     (case maximal_runs (\<lambda>b. \<not> is_ascii_whitespace b) raw of
        [start, count] \<Rightarrow> if is_number start \<and> is_number count then positional count else 0
      | _ \<Rightarrow> 0)"

definition header_line :: "byte_slice \<Rightarrow> bool" where
  "header_line raw \<longleftrightarrow> 0 < declarations (pdf_tokens raw) \<and> declarations (pdf_tokens raw) \<le> U32_MAX"

lemma split_where_runs: "filter (\<lambda>part. part \<noteq> []) (split_where p t) = maximal_runs (\<lambda>b. \<not> p b) t"
proof (induction "\<lambda>b. \<not> p b" t rule: maximal_runs.induct)
  case (2 x xs)
  have ne: "split_where p ys \<noteq> []" for ys by (induction ys) (auto split: list.split)
  have run: "split_where p (us @ ys) = (us @ hd (split_where p ys)) # tl (split_where p ys)" if "\<forall>b \<in> set us. \<not> p b" for us ys
    using that ne by (induction us) (auto split: list.split)
  have start: "hd (split_where p ys) = []" if "ys = [] \<or> p (hd ys)" for ys using that by (cases ys) auto
  let ?r = "x # takeWhile (\<lambda>b. \<not> p b) xs" and ?rest = "dropWhile (\<lambda>b. \<not> p b) xs"
  show ?case
  proof (cases "p x")
    case True
    then show ?thesis using 2 (2) by simp
  next
    case False
    have "\<forall>b \<in> set ?r. \<not> p b" using False by (auto dest: set_takeWhileD)
    from run [OF this, of ?rest] have "split_where p (x # xs) = (?r @ hd (split_where p ?rest)) # tl (split_where p ?rest)"
      by (simp only: append_Cons takeWhile_dropWhile_id)
    moreover have "hd (split_where p ?rest) = []" using hd_dropWhile [of "\<lambda>b. \<not> p b" xs] by (intro start) blast
    moreover have "filter (\<lambda>part. part \<noteq> []) (tl (split_where p ?rest)) = filter (\<lambda>part. part \<noteq> []) (split_where p ?rest)"
      using \<open>hd (split_where p ?rest) = []\<close> ne [of ?rest] by (cases "split_where p ?rest") simp_all
    ultimately show ?thesis using 2 (1) [OF False] False by (simp del: split_where.simps)
  qed
qed simp

lemma maximal_runs_trailing: "(\<forall>b \<in> set ys. \<not> P b) \<Longrightarrow> maximal_runs P (xs @ ys) = maximal_runs P xs"
proof (induction P xs rule: maximal_runs.induct)
  case (1 P)
  then show ?case by (simp add: maximal_runs_none)
next
  case (2 P x xs)
  show ?case
  proof (cases "P x")
    case True
    have "takeWhile P (xs @ ys) = takeWhile P xs \<and> maximal_runs P (dropWhile P (xs @ ys)) = maximal_runs P (dropWhile P xs)"
    proof (cases "\<forall>b \<in> set xs. P b")
      case True
      moreover have "takeWhile P ys = []" "dropWhile P ys = ys" using "2.prems" by (cases ys; simp)+
      ultimately have eqs: "takeWhile P (xs @ ys) = xs" "takeWhile P xs = xs" "dropWhile P (xs @ ys) = ys" "dropWhile P xs = []"
        by (simp_all add: takeWhile_append2 dropWhile_append2)
      have "maximal_runs P ys = []" using "2.prems" by (simp add: maximal_runs_none)
      then show ?thesis by (simp only: eqs maximal_runs.simps (1) simp_thms)
    next
      case False
      then obtain b where "b \<in> set xs" "\<not> P b" by blast
      then show ?thesis using "2.IH" (1) [OF \<open>P x\<close> "2.prems"] by (simp add: takeWhile_append1 dropWhile_append1)
    qed
    then show ?thesis using True by simp
  next
    case False
    then show ?thesis using "2.IH" (2) "2.prems" by simp
  qed
qed

lemma trim_ascii_split: "\<exists>before after. raw = before @ trim_ascii raw @ after \<and> (\<forall>b \<in> set before \<union> set after. is_ascii_whitespace b)"
proof -
  let ?t = "dropWhile is_ascii_whitespace raw"
  have "?t = trim_ascii raw @ rev (takeWhile is_ascii_whitespace (rev ?t))"
    unfolding trim_ascii_def by (metis rev_append rev_rev_ident takeWhile_dropWhile_id)
  then have "raw = takeWhile is_ascii_whitespace raw @ trim_ascii raw @ rev (takeWhile is_ascii_whitespace (rev ?t))"
    by (metis takeWhile_dropWhile_id)
  then show ?thesis by (intro exI conjI) (auto dest: set_takeWhileD)
qed

lemma maximal_runs_leading: "(\<forall>b \<in> set ys. \<not> P b) \<Longrightarrow> maximal_runs P (ys @ xs) = maximal_runs P xs"
  by (induction ys) simp_all

lemma xref_count_eq: "xref_count raw = (case xref_subsection_count (trim_ascii raw) of None \<Rightarrow> 0 | Some n \<Rightarrow> n)"
proof -
  obtain before after where "raw = before @ trim_ascii raw @ after" "\<forall>b \<in> set before \<union> set after. is_ascii_whitespace b"
    using trim_ascii_split by blast
  then have "maximal_runs (\<lambda>b. \<not> is_ascii_whitespace b) raw = maximal_runs (\<lambda>b. \<not> is_ascii_whitespace b) (trim_ascii raw)"
    by (metis (no_types, lifting) UnCI maximal_runs_leading maximal_runs_trailing)
  then show ?thesis
    unfolding xref_count_def xref_subsection_count_def split_where_runs by (simp add: parse_u64_iff split: list.split)
qed

lemma strip_trailing: "\<forall>b \<in> set ws. is_ascii_whitespace b \<Longrightarrow>
    \<exists>ws'. strip_comments c (xs @ ws) = strip_comments c xs @ ws' \<and> (\<forall>b \<in> set ws'. is_ascii_whitespace b)"
proof (induction c xs rule: strip_comments.induct)
  case (1 c)
  then show ?case
  proof (induction ws arbitrary: c)
    case (Cons b ws)
    then show ?case by (fastforce simp: percent_plain)
  qed simp
next
  case (2 c b xs)
  then show ?case by auto
qed

lemma lex_trailing: "\<forall>b \<in> set ws. is_ascii_whitespace b \<Longrightarrow> pdf_lex w (xs @ ws) = pdf_lex w xs"
proof (induction w xs rule: pdf_lex.induct)
  case (1 w)
  then show ?case
  proof (induction ws arbitrary: w)
    case (Cons b ws)
    then show ?case by (cases "w = []") simp_all
  qed simp
next
  case (2 w b xs)
  then show ?case by simp
qed

lemma tokens_trim: "pdf_tokens (trim_ascii raw) = pdf_tokens raw"
proof -
  obtain before after where raw: "raw = before @ trim_ascii raw @ after" "\<forall>b \<in> set before \<union> set after. is_ascii_whitespace b"
    using trim_ascii_split by blast
  have "pdf_tokens (us @ t) = pdf_tokens t" if "\<forall>b \<in> set us. is_ascii_whitespace b" for us t
    using that tokens_whitespace [of "us @ t"] tokens_whitespace [of t] by (simp add: dropWhile_append2)
  then have "pdf_tokens raw = pdf_tokens (trim_ascii raw @ after)" using raw by (metis UnI1)
  also have "\<dots> = pdf_tokens (trim_ascii raw)"
    using strip_trailing [of after False "trim_ascii raw"] raw (2) lex_trailing unfolding pdf_tokens_def by (metis UnI2)
  finally show ?thesis by simp
qed

lemma header_line_eq: "header_line raw \<longleftrightarrow> contains_object_header (trim_ascii raw)"
proof -
  let ?d = "declarations (pdf_tokens raw)"
  have count: "count_object_declarations (trim_ascii raw) U32_MAX = Ok m \<longleftrightarrow> m = ?d \<and> m \<le> U32_MAX" for m
    using count_object_declarations_Ok [of U32_MAX "trim_ascii raw" m] by (simp add: tokens_trim)
  show ?thesis
  proof (cases "count_object_declarations (trim_ascii raw) U32_MAX")
    case (Ok m)
    then have "m = ?d" "?d \<le> U32_MAX" using count [of m] by simp_all
    then show ?thesis using Ok by (simp add: header_line_def contains_object_header_def)
  next
    case (Err e)
    then have "\<not> ?d \<le> U32_MAX" using count [of ?d] by simp
    then show ?thesis using Err by (simp add: header_line_def contains_object_header_def)
  qed
qed

text \<open>The entries the tables declare, and the bytes of the lines that count as metadata: lines with an
  object header, lines of a table, and both if a line is both.\<close>

definition table_entries :: "bool \<Rightarrow> byte_slice list \<Rightarrow> nat" where
  "table_entries inside raws = sum_list (map xref_count (xref_lines inside raws))"

definition metadata_size :: "bool \<Rightarrow> byte_slice list \<Rightarrow> nat" where
  "metadata_size inside raws =
     sum_list (map length (filter header_line raws)) + sum_list (map length (xref_lines inside raws))"

fun walk_lines :: "nat \<Rightarrow> nat \<Rightarrow> byte_slice list \<Rightarrow> pdf_walk \<Rightarrow> (pdf_walk, pdf_error) result" where
  "walk_lines mo mm [] w = Ok w"
| "walk_lines mo mm (raw # raws) w = (case pdf_line mo mm raw w of Err e \<Rightarrow> Err e | Ok w' \<Rightarrow> walk_lines mo mm raws w')"

lemma pdf_lines_walk: "pdf_lines mo mm bytes c w = walk_lines mo mm (raw_lines (drop c bytes)) w"
proof (induction mo mm bytes c w rule: pdf_lines.induct)
  case (1 mo mm bytes c w)
  show ?case
  proof (cases "c < length bytes")
    case False
    then show ?thesis by (subst pdf_lines.simps) simp
  next
    case True
    define x where "x = scan_while (\<lambda>b. \<not> is_line_end b) bytes c"
    define y where "y = scan_while is_line_end bytes x"
    define raw where "raw = take (y - c) (drop c bytes)"
    have dx: "drop x bytes = dropWhile (\<lambda>b. \<not> is_line_end b) (drop c bytes)" unfolding x_def by (rule drop_scan_while)
    have dy: "drop y bytes = dropWhile is_line_end (drop x bytes)" unfolding y_def by (rule drop_scan_while)
    have le: "c \<le> x" "x \<le> y" unfolding x_def y_def by (rule scan_while_ge)+
    have "raw = take (x - c) (drop c bytes) @ take (y - x) (drop x bytes)"
      using le take_add [of "x - c" "y - x" "drop c bytes"] by (simp add: raw_def)
    then have raw: "raw = takeWhile (\<lambda>b. \<not> is_line_end b) (drop c bytes) @ takeWhile is_line_end (drop x bytes)"
      unfolding x_def y_def take_scan_while .
    obtain b bs where d: "drop c bytes = b # bs" using True Cons_nth_drop_Suc [OF True] by metis
    have lines: "raw_lines (drop c bytes) = raw # raw_lines (drop y bytes)"
      unfolding raw dy dx unfolding d by (simp only: raw_lines.simps(2) Let_def)
    have "pdf_lines mo mm bytes c w = (case pdf_line mo mm raw w of Err e \<Rightarrow> Err e | Ok w' \<Rightarrow> pdf_lines mo mm bytes y w')"
      unfolding raw_def y_def x_def using True by (subst pdf_lines.simps) (simp add: Let_def)
    moreover have "pdf_lines mo mm bytes y w' = walk_lines mo mm (raw_lines (drop y bytes)) w'" if "pdf_line mo mm raw w = Ok w'" for w'
      using 1 [of y w'] True that by (simp add: x_def y_def raw_def)
    ultimately show ?thesis using lines by (simp split: result.split)
  qed
qed

lemma checked_metadata_Ok:
  assumes "limit \<le> U64_MAX" and "additional \<le> U64_MAX"
  shows "checked_metadata current additional limit = Ok n \<longleftrightarrow> n = current + additional \<and> n \<le> limit"
  using assms by (auto simp: checked_metadata_def res_bind_Ok_iff ok_or_Ok_iff try_from_def checked_add_def split: if_splits)

lemma pdf_line_Ok:
  assumes "mm \<le> U64_MAX" and "mo \<le> U64_MAX" and "length raw \<le> U64_MAX" and "pw_xref_entries w \<le> mo" "pw_metadata_bytes w \<le> mm"
  defines "sz \<equiv> (if header_line raw then length raw else 0) + (if xref_state (pw_in_xref w) raw then length raw else 0)"
    and "entries \<equiv> if xref_state (pw_in_xref w) raw then xref_count raw else 0"
  shows "pdf_line mo mm raw w = Ok w' \<longleftrightarrow> pw_metadata_bytes w + sz \<le> mm \<and> pw_xref_entries w + entries \<le> mo \<and>
    w' = \<lparr>pw_xref_entries = pw_xref_entries w + entries, pw_metadata_bytes = pw_metadata_bytes w + sz,
          pw_in_xref = xref_state (pw_in_xref w) raw\<rparr>"
proof -
  define inside where "inside = xref_state (pw_in_xref w) raw"
  have flag: "(if trim_ascii raw = byte_string ''xref'' then True
      else if pw_in_xref w \<and> (starts_with_bytes (trim_ascii raw) (byte_string ''trailer'') \<or>
                             starts_with_bytes (trim_ascii raw) (byte_string ''startxref'')) then False
      else pw_in_xref w) = inside" by (auto simp: inside_def xref_state_def Let_def)
  note meta = checked_metadata_Ok [OF assms(1,3)]
  have first: "(if contains_object_header (trim_ascii raw) then checked_metadata (pw_metadata_bytes w) (length raw) mm
      else Ok (pw_metadata_bytes w)) = Ok m \<longleftrightarrow> m = pw_metadata_bytes w + (if header_line raw then length raw else 0) \<and> m \<le> mm" for m
    using assms(5) by (auto simp: meta header_line_eq)
  show ?thesis
  proof (cases inside)
    case False
    then show ?thesis using assms(4) unfolding pdf_line_def Let_def flag sz_def entries_def inside_def [symmetric]
      by (cases w) (auto simp: res_bind_Ok_iff first)
  next
    case True
    show ?thesis
    proof (cases "xref_subsection_count (trim_ascii raw)")
      case None
      with True show ?thesis using assms(4) unfolding pdf_line_def Let_def flag sz_def entries_def inside_def [symmetric]
        by (cases w) (auto simp: res_bind_Ok_iff first meta xref_count_eq)
    next
      case (Some n)
      with True show ?thesis using assms(2) unfolding pdf_line_def Let_def flag sz_def entries_def inside_def [symmetric]
        by (cases w) (auto simp: res_bind_Ok_iff first meta xref_count_eq ok_or_Ok_iff checked_add_def)
    qed
  qed
qed

lemma walk_lines_Ok:
  assumes "mm \<le> U64_MAX" and "mo \<le> U64_MAX" and "\<forall>raw \<in> set raws. length raw \<le> U64_MAX"
    and "pw_xref_entries w \<le> mo" "pw_metadata_bytes w \<le> mm"
  shows "(\<exists>inside. walk_lines mo mm raws w = Ok \<lparr>pw_xref_entries = e, pw_metadata_bytes = m, pw_in_xref = inside\<rparr>) \<longleftrightarrow>
    e = pw_xref_entries w + table_entries (pw_in_xref w) raws \<and> m = pw_metadata_bytes w + metadata_size (pw_in_xref w) raws \<and>
    e \<le> mo \<and> m \<le> mm"
  using assms(3-5)
proof (induction raws arbitrary: w)
  case Nil
  then show ?case by (cases w) (auto simp: table_entries_def metadata_size_def)
next
  case (Cons raw raws)
  define sz where "sz = (if header_line raw then length raw else 0) + (if xref_state (pw_in_xref w) raw then length raw else 0)"
  define entries where "entries = (if xref_state (pw_in_xref w) raw then xref_count raw else 0)"
  define w1 where "w1 = \<lparr>pw_xref_entries = pw_xref_entries w + entries, pw_metadata_bytes = pw_metadata_bytes w + sz,
    pw_in_xref = xref_state (pw_in_xref w) raw\<rparr>"
  have line: "pdf_line mo mm raw w = Ok w' \<longleftrightarrow> pw_metadata_bytes w + sz \<le> mm \<and> pw_xref_entries w + entries \<le> mo \<and> w' = w1" for w'
    using pdf_line_Ok [OF assms(1,2), of raw w w'] Cons.prems unfolding sz_def entries_def w1_def by simp
  have te: "table_entries (pw_in_xref w) (raw # raws) = entries + table_entries (pw_in_xref w1) raws"
    by (simp add: table_entries_def entries_def w1_def)
  have ms: "metadata_size (pw_in_xref w) (raw # raws) = sz + metadata_size (pw_in_xref w1) raws"
    by (simp add: metadata_size_def sz_def w1_def)
  show ?case
  proof (cases "pw_metadata_bytes w + sz \<le> mm \<and> pw_xref_entries w + entries \<le> mo")
    case True
    then have "pdf_line mo mm raw w = Ok w1" using line by blast
    then have "walk_lines mo mm (raw # raws) w = walk_lines mo mm raws w1" by simp
    moreover note Cons.IH [of w1]
    ultimately show ?thesis using True Cons.prems(1) te ms by (simp add: w1_def add.assoc)
  next
    case False
    then obtain err where "pdf_line mo mm raw w = Err err" using line by (cases "pdf_line mo mm raw w") auto
    then show ?thesis using False te ms by auto
  qed
qed

subsection \<open>Names\<close>

text \<open>The names searched for start with the only slash they contain, so occurrences do not overlap.\<close>

definition slash_name :: "byte_slice \<Rightarrow> bool" where
  "slash_name name \<longleftrightarrow> name \<noteq> [] \<and> hd name = 47 \<and> 47 \<notin> set (tl name)"

text \<open>Where a name occurs as a whole: at the end of the file or before whitespace or a delimiter.\<close>

definition name_sites :: "byte_slice \<Rightarrow> byte_slice \<Rightarrow> nat set" where
  "name_sites bytes name =
     {length before | before rest. bytes = before @ name @ rest \<and> (rest = [] \<or> is_pdf_separator (hd rest))}"

definition site_digits :: "byte_slice \<Rightarrow> byte_slice \<Rightarrow> nat \<Rightarrow> byte_slice" where
  "site_digits bytes name i = takeWhile is_digit_byte (dropWhile is_ascii_whitespace (drop (i + length name) bytes))"

definition site_values :: "byte_slice \<Rightarrow> byte_slice \<Rightarrow> nat set" where
  "site_values bytes name =
     {positional (site_digits bytes name i) | i. i \<in> name_sites bytes name \<and> site_digits bytes name i \<noteq> []}"

definition sites_fit :: "byte_slice \<Rightarrow> byte_slice \<Rightarrow> bool" where
  "sites_fit bytes name \<longleftrightarrow> (\<forall>i \<in> name_sites bytes name. positional (site_digits bytes name i) \<le> U64_MAX)"

definition pair_sites :: "byte_slice \<Rightarrow> byte_slice \<Rightarrow> byte_slice \<Rightarrow> nat set" where
  "pair_sites bytes first second =
     {length before | before gap rest. bytes = before @ first @ gap @ second @ rest \<and> (\<forall>b \<in> set gap. is_ascii_whitespace b)}"

lemma name_at_iff: "name_at bytes name i \<longleftrightarrow> (\<exists>before rest. bytes = before @ name @ rest \<and> length before = i)"
proof
  assume "name_at bytes name i"
  then have at: "take (length name) (drop i bytes) = name" "i + length name \<le> length bytes"
    by (auto simp: name_at_def get_range_def split: if_splits)
  then have "bytes = take i bytes @ name @ drop (length name) (drop i bytes)" by (metis append_take_drop_id)
  moreover have "length (take i bytes) = i" using at (2) by simp
  ultimately show "\<exists>before rest. bytes = before @ name @ rest \<and> length before = i" by blast
qed (auto simp: name_at_def get_range_def)

lemma name_sites_iff:
  "i \<in> name_sites bytes name \<longleftrightarrow>
     name_at bytes name i \<and> \<not> is_some_and (\<lambda>b. \<not> is_pdf_separator b) (get_byte bytes (i + length name))"
proof -
  have follows: "\<not> is_some_and (\<lambda>b. \<not> is_pdf_separator b) (get_byte (before @ name @ rest) (length before + length name)) \<longleftrightarrow>
      rest = [] \<or> is_pdf_separator (hd rest)" for before rest
    by (cases rest) (simp_all add: get_byte_def nth_append)
  have "i \<in> name_sites bytes name \<longleftrightarrow>
      (\<exists>before rest. bytes = before @ name @ rest \<and> length before = i \<and> (rest = [] \<or> is_pdf_separator (hd rest)))"
    by (auto simp: name_sites_def)
  also have "\<dots> \<longleftrightarrow> (\<exists>before rest. bytes = before @ name @ rest \<and> length before = i \<and>
      \<not> is_some_and (\<lambda>b. \<not> is_pdf_separator b) (get_byte bytes (i + length name)))"
    using follows by blast
  finally show ?thesis unfolding name_at_iff by blast
qed

lemma pair_sites_iff:
  assumes "slash_name second"
  shows "i \<in> pair_sites bytes first second \<longleftrightarrow>
    name_at bytes first i \<and> name_at bytes second (scan_while is_ascii_whitespace bytes (i + length first))"
proof
  assume "i \<in> pair_sites bytes first second"
  then obtain before gap rest where parts: "bytes = before @ first @ gap @ second @ rest" "i = length before"
      "\<forall>b \<in> set gap. is_ascii_whitespace b" by (auto simp: pair_sites_def)
  have "takeWhile is_ascii_whitespace (second @ rest) = []"
    using assms by (cases second) (simp_all add: slash_name_def is_ascii_whitespace_def)
  then have "takeWhile is_ascii_whitespace (drop (i + length first) bytes) = gap" using parts by (simp add: takeWhile_append2)
  then have "scan_while is_ascii_whitespace bytes (i + length first) = length (before @ first @ gap)"
    using parts (2) by (simp add: scan_while_eq)
  moreover have "bytes = (before @ first @ gap) @ second @ rest" "bytes = before @ first @ (gap @ second @ rest)" using parts (1) by simp_all
  ultimately show "name_at bytes first i \<and> name_at bytes second (scan_while is_ascii_whitespace bytes (i + length first))"
    using parts (2) unfolding name_at_iff by metis
next
  let ?x = "scan_while is_ascii_whitespace bytes (i + length first)"
  assume at: "name_at bytes first i \<and> name_at bytes second ?x"
  then obtain before tail where b: "bytes = before @ first @ tail" "length before = i" by (auto simp: name_at_iff)
  define gap where "gap = takeWhile is_ascii_whitespace tail"
  have x: "?x = i + length first + length gap" using b by (simp add: scan_while_eq gap_def)
  have "drop ?x bytes = dropWhile is_ascii_whitespace tail" unfolding drop_scan_while using b by simp
  moreover obtain rest where "drop ?x bytes = second @ rest" using at by (auto simp: name_at_iff)
  ultimately have "tail = gap @ second @ rest" unfolding gap_def by (metis takeWhile_dropWhile_id)
  moreover have "\<forall>b \<in> set gap. is_ascii_whitespace b" unfolding gap_def by (auto dest: set_takeWhileD)
  ultimately show "i \<in> pair_sites bytes first second" using b unfolding pair_sites_def by blast
qed

lemma site_digits_parse:
  "parse_u64 (site_digits bytes name i) =
     (if site_digits bytes name i \<noteq> [] \<and> positional (site_digits bytes name i) \<le> U64_MAX then Some (positional (site_digits bytes name i)) else None)"
proof -
  have "\<forall>b \<in> set (site_digits bytes name i). 48 \<le> b" unfolding site_digits_def by (auto simp: is_digit_byte_def dest: set_takeWhileD)
  then show ?thesis by (simp add: parse_u64_iff is_number_def)
qed

lemma name_at_le: "name_at bytes name i \<Longrightarrow> i + length name \<le> length bytes"
  by (auto simp: name_at_def get_range_def split: if_splits)

lemma name_at_nth: "name_at bytes name i \<Longrightarrow> k < length name \<Longrightarrow> bytes ! (i + k) = name ! k"
proof -
  assume at: "name_at bytes name i" and k: "k < length name"
  then have "name = take (length name) (drop i bytes)" by (simp add: name_at_def get_range_def split: if_splits)
  then have "name ! k = take (length name) (drop i bytes) ! k" by (rule arg_cong)
  with k name_at_le [OF at] show ?thesis by simp
qed

lemma name_at_slash: "slash_name name \<Longrightarrow> name_at bytes name i \<Longrightarrow> i < length bytes \<and> bytes ! i = 47"
  using name_at_nth [of bytes name i 0] name_at_le [of bytes name i]
  by (cases name) (auto simp: slash_name_def)

lemma name_at_tail:
  assumes "slash_name name" and at: "name_at bytes name i" and "i < j" "j < i + length name"
  shows "bytes ! j \<noteq> 47"
proof -
  have "bytes ! j = name ! (j - i)" using name_at_nth [OF at, of "j - i"] assms(3,4) by simp
  moreover have "name ! (j - i) \<in> set (tl name)"
    using assms(3,4) by (cases name) (auto simp: nth_Cons')
  ultimately show ?thesis using assms(1) by (auto simp: slash_name_def)
qed

lemma scan_while_run: "k \<le> j \<Longrightarrow> j < scan_while p bytes k \<Longrightarrow> p (bytes ! j)"
proof -
  assume j: "k \<le> j" "j < scan_while p bytes k"
  then have n: "j - k < length (takeWhile p (drop k bytes))" by (simp add: scan_while_eq)
  then have "p (takeWhile p (drop k bytes) ! (j - k))" using nth_mem set_takeWhileD by metis
  moreover have "j - k < length (drop k bytes)" using n length_takeWhile_le less_le_trans by blast
  ultimately show ?thesis using n j(1) by (simp add: takeWhile_nth)
qed

lemma not_slash: "\<not> is_ascii_whitespace 47" "\<not> is_digit_byte 47"
  by (simp_all add: is_ascii_whitespace_def is_digit_byte_def)

text \<open>No occurrence starts between an occurrence and what follows it.\<close>

lemma no_site_skipped:
  assumes name: "slash_name name" and at: "name_at bytes name c"
    and x: "x = scan_while is_ascii_whitespace bytes (c + length name)" and y: "y = x \<or> y = scan_while is_digit_byte bytes x"
    and other: "slash_name name'" "name_at bytes name' j" and "c < j" "j < y"
  shows False
proof -
  have "bytes ! j = 47" using name_at_slash [OF other] by blast
  moreover have "bytes ! j \<noteq> 47"
  proof (cases "j < c + length name")
    case True
    then show ?thesis by (rule name_at_tail [OF name at assms(7)])
  next
    case ge: False
    show ?thesis
    proof (cases "j < x")
      case True
      with ge x scan_while_run [of "c + length name" j is_ascii_whitespace bytes] not_slash show ?thesis by auto
    next
      case False
      with y assms(8) scan_while_run [of x j is_digit_byte bytes] not_slash show ?thesis by auto
    qed
  qed
  ultimately show False by simp
qed

lemma name_sites_finite: "finite (name_sites bytes name)"
  by (rule finite_subset [of _ "{.. length bytes}"]) (auto simp: name_sites_iff dest!: name_at_le)

lemma sites_from_end: "\<not> c + length name \<le> length bytes \<Longrightarrow> {i \<in> name_sites bytes name. c \<le> i} = {}"
  by (auto simp: name_sites_iff dest: name_at_le)

lemma sites_from_next: "c \<notin> name_sites bytes name \<Longrightarrow> {i \<in> name_sites bytes name. c \<le> i} = {i \<in> name_sites bytes name. c + 1 \<le> i}"
  by (auto simp: Suc_le_eq) (metis le_neq_implies_less)

lemma sites_from_hit:
  assumes "slash_name name" and "c \<in> name_sites bytes name" and "c < y"
    and "y = c + length name \<or> y = scan_while is_digit_byte bytes (scan_while is_ascii_whitespace bytes (c + length name))"
  shows "{i \<in> name_sites bytes name. c \<le> i} = insert c {i \<in> name_sites bytes name. y \<le> i}"
proof -
  have at: "name_at bytes name c" using assms(2) by (simp add: name_sites_iff)
  have "y \<le> i" if "i \<in> name_sites bytes name" "c < i" for i
  proof (rule ccontr)
    assume "\<not> y \<le> i"
    moreover have "name_at bytes name i" using that(1) by (simp add: name_sites_iff)
    moreover have "y \<le> scan_while is_digit_byte bytes (scan_while is_ascii_whitespace bytes (c + length name))"
      using assms(4) scan_while_ge order_trans by blast
    ultimately show False using no_site_skipped [OF assms(1) at refl disjI2 [OF refl] assms(1), of i] that(2) by simp
  qed
  with assms(2,3) show ?thesis by (auto simp: le_less)
qed

lemma count_name_loop_card:
  assumes name: "slash_name name" and "n \<le> U32_MAX"
  shows "count_name_loop bytes name n c = min U32_MAX (n + card {i \<in> name_sites bytes name. c \<le> i})"
  using assms
proof (induction bytes name n c rule: count_name_loop.induct)
  case (1 bytes name n c)
  have ne: "name \<noteq> []" using 1(3) by (simp add: slash_name_def)
  show ?case
  proof (cases "c + length name \<le> length bytes")
    case False
    then have "count_name_loop bytes name n c = n" by (subst count_name_loop.simps) simp
    then show ?thesis unfolding sites_from_end [OF False] using 1(4) by simp
  next
    case le: True
    show ?thesis
    proof (cases "c \<in> name_sites bytes name")
      case True
      have "c < c + length name" using ne by simp
      note hit = sites_from_hit [OF 1(3) True this disjI1 [OF refl]]
      have "c \<notin> {i \<in> name_sites bytes name. c + length name \<le> i}" using ne by simp
      then have card: "card {i \<in> name_sites bytes name. c \<le> i} = Suc (card {i \<in> name_sites bytes name. c + length name \<le> i})"
        unfolding hit using name_sites_finite [of bytes name] by simp
      have cond: "name_at bytes name c \<and> \<not> is_some_and (\<lambda>b. \<not> is_pdf_separator b) (get_byte bytes (c + length name))"
        using True by (simp add: name_sites_iff)
      have "saturating_add U32_MAX n 1 \<le> U32_MAX" by (rule saturating_add_bound)
      with 1(1) [OF _ cond] le ne 1(3) have "count_name_loop bytes name (saturating_add U32_MAX n 1) (c + length name) =
          min U32_MAX (saturating_add U32_MAX n 1 + card {i \<in> name_sites bytes name. c + length name \<le> i})" by simp
      moreover have "count_name_loop bytes name n c = count_name_loop bytes name (saturating_add U32_MAX n 1) (c + length name)"
        using le ne cond by (subst count_name_loop.simps) simp
      ultimately show ?thesis using card by (simp add: saturating_add_def)
    next
      case False
      then have cond: "\<not> (name_at bytes name c \<and> \<not> is_some_and (\<lambda>b. \<not> is_pdf_separator b) (get_byte bytes (c + length name)))"
        by (simp add: name_sites_iff)
      have "count_name_loop bytes name n c = count_name_loop bytes name n (c + 1)"
        using le ne cond by (subst count_name_loop.simps) (simp only: if_False simp_thms not_False_eq_True)
      with 1(2) [OF _ cond] le ne 1(3,4) show ?thesis using sites_from_next [OF False] by simp
    qed
  qed
qed

lemma count_name_card: "slash_name name \<Longrightarrow> count_name bytes name = min U32_MAX (card (name_sites bytes name))"
  using count_name_loop_card [of name 0 bytes 0] by (simp add: count_name_def)

lemma name_pair_loop_iff:
  assumes "slash_name first" and "length bytes \<le> USIZE_MAX" and second: "slash_name second"
  shows "name_pair_loop bytes first second c \<longleftrightarrow> (\<exists>i \<in> pair_sites bytes first second. c \<le> i)"
  using assms
proof (induction bytes first second c rule: name_pair_loop.induct)
  case (1 bytes first second c)
  have ne: "first \<noteq> []" using 1(3) by (simp add: slash_name_def)
  define x where "x = scan_while is_ascii_whitespace bytes (c + length first)"
  have range: "get_range bytes x (saturating_add USIZE_MAX x (length second)) = Some second \<longleftrightarrow> name_at bytes second x"
    using 1(4) by (auto simp: name_at_def get_range_def saturating_add_def min_def split: if_splits)
  show ?case
  proof (cases "c + length first \<le> length bytes")
    case False
    then show ?thesis by (subst name_pair_loop.simps) (auto simp: pair_sites_iff [OF 1 (5)] dest!: name_at_le)
  next
    case le: True
    show ?thesis
    proof (cases "name_at bytes first c")
      case False
      have "name_pair_loop bytes first second c = name_pair_loop bytes first second (c + 1)"
        using le ne False by (subst name_pair_loop.simps) simp
      moreover have "(\<exists>i \<in> pair_sites bytes first second. c \<le> i) \<longleftrightarrow> (\<exists>i \<in> pair_sites bytes first second. c + 1 \<le> i)"
      proof -
        have "c \<notin> pair_sites bytes first second" using False by (simp add: pair_sites_iff [OF 1 (5)])
        then have "c \<le> i \<longleftrightarrow> c + 1 \<le> i" if "i \<in> pair_sites bytes first second" for i
          using that by (cases "c = i") auto
        then show ?thesis by blast
      qed
      ultimately show ?thesis using 1(1) [OF _ False] le ne 1(3-5) by simp
    next
      case at: True
      have cx: "c < x" unfolding x_def using scan_while_ge [of "c + length first" is_ascii_whitespace bytes] ne by (cases first) auto
      show ?thesis
      proof (cases "name_at bytes second x")
        case True
        then have "c \<in> pair_sites bytes first second" using at by (simp add: pair_sites_iff [OF 1 (5)] x_def)
        moreover have "name_pair_loop bytes first second c"
          using le ne at True range by (subst name_pair_loop.simps) (simp add: Let_def x_def [symmetric])
        ultimately show ?thesis by blast
      next
        case False
        have "x \<le> i" if "i \<in> pair_sites bytes first second" "c \<le> i" for i
        proof (rule ccontr)
          assume "\<not> x \<le> i"
          moreover have "i \<noteq> c" using that(1) False by (auto simp: pair_sites_iff [OF 1 (5)] x_def)
          ultimately show False
            using no_site_skipped [OF 1(3) at x_def disjI1 [OF refl] 1(3), of i] that by (simp add: pair_sites_iff [OF 1 (5)])
        qed
        then have "(\<exists>i \<in> pair_sites bytes first second. c \<le> i) \<longleftrightarrow> (\<exists>i \<in> pair_sites bytes first second. x \<le> i)"
          using cx by (meson less_imp_le order_trans)
        moreover have "name_pair_loop bytes first second c = name_pair_loop bytes first second x"
          using le ne at False range by (subst name_pair_loop.simps) (simp add: Let_def x_def [symmetric])
        moreover have "name_pair_loop bytes first second x = (\<exists>i \<in> pair_sites bytes first second. x \<le> i)"
          using 1(2) [OF _ _ x_def] le ne at False range 1(3-5) by simp
        ultimately show ?thesis by simp
      qed
    qed
  qed
qed

text \<open>The largest number behind a name, or the failure of one that does not fit.\<close>

lemma maximum_name_loop_Ok:
  assumes "slash_name name"
  shows "maximum_name_loop bytes name m c = Ok v \<longleftrightarrow>
    (\<forall>i \<in> name_sites bytes name. c \<le> i \<longrightarrow> site_digits bytes name i \<noteq> [] \<longrightarrow> parse_u64 (site_digits bytes name i) \<noteq> None) \<and>
    v = Max (insert m {n. \<exists>i \<in> name_sites bytes name. c \<le> i \<and> site_digits bytes name i \<noteq> [] \<and>
                           parse_u64 (site_digits bytes name i) = Some n})"
  using assms
proof (induction bytes name m c rule: maximum_name_loop.induct)
  case (1 bytes name m c)
  define S where "S k = {i \<in> name_sites bytes name. k \<le> i}" for k
  define D where "D i = site_digits bytes name i" for i
  define V where "V k = {n. \<exists>i \<in> S k. D i \<noteq> [] \<and> parse_u64 (D i) = Some n}" for k
  define fit where "fit k \<longleftrightarrow> (\<forall>i \<in> S k. D i \<noteq> [] \<longrightarrow> parse_u64 (D i) \<noteq> None)" for k
  have form: "((\<forall>i \<in> name_sites bytes name. k \<le> i \<longrightarrow> site_digits bytes name i \<noteq> [] \<longrightarrow> parse_u64 (site_digits bytes name i) \<noteq> None) \<and>
      v = Max (insert m' {n. \<exists>i \<in> name_sites bytes name. k \<le> i \<and> site_digits bytes name i \<noteq> [] \<and>
                           parse_u64 (site_digits bytes name i) = Some n})) \<longleftrightarrow> fit k \<and> v = Max (insert m' (V k))" for k m'
  proof -
    have "{n. \<exists>i \<in> name_sites bytes name. k \<le> i \<and> site_digits bytes name i \<noteq> [] \<and> parse_u64 (site_digits bytes name i) = Some n} = V k"
      by (auto simp: V_def S_def D_def)
    moreover have "fit k \<longleftrightarrow> (\<forall>i \<in> name_sites bytes name. k \<le> i \<longrightarrow> site_digits bytes name i \<noteq> [] \<longrightarrow> parse_u64 (site_digits bytes name i) \<noteq> None)"
      by (auto simp: fit_def S_def D_def)
    ultimately show ?thesis by (simp only:)
  qed
  have finS: "finite (S k)" for k unfolding S_def using name_sites_finite by simp
  have fin: "finite (V k)" for k
    by (rule finite_surj [OF finS [of k], of _ "\<lambda>i. the (parse_u64 (D i))"]) (force simp: V_def)
  have ne: "name \<noteq> []" using 1(4) by (simp add: slash_name_def)
  note IH = 1(1-3) [unfolded form]
  show ?case unfolding form
  proof (cases "c + length name \<le> length bytes")
    case False
    then have "S c = {}" unfolding S_def by (rule sites_from_end)
    with False show "maximum_name_loop bytes name m c = Ok v \<longleftrightarrow> fit c \<and> v = Max (insert m (V c))"
      by (subst maximum_name_loop.simps) (auto simp: fit_def V_def)
  next
    case le: True
    then have go: "\<not> (\<not> c + length name \<le> length bytes \<or> name = [])" using ne by simp
    show "maximum_name_loop bytes name m c = Ok v \<longleftrightarrow> fit c \<and> v = Max (insert m (V c))"
    proof (cases "c \<in> name_sites bytes name")
      case False
      then have cond: "\<not> name_at bytes name c \<or> is_some_and (\<lambda>b. \<not> is_pdf_separator b) (get_byte bytes (c + length name))"
        by (simp add: name_sites_iff)
      have "maximum_name_loop bytes name m c = maximum_name_loop bytes name m (c + 1)"
        using go cond by (subst maximum_name_loop.simps) (simp only: if_False if_True)
      moreover have "S c = S (c + 1)" unfolding S_def by (rule sites_from_next [OF False])
      then have "fit c = fit (c + 1)" "V c = V (c + 1)" by (simp_all add: fit_def V_def)
      ultimately show ?thesis using IH(1) [OF go cond 1(4)] by simp
    next
      case True
      then have cond: "\<not> (\<not> name_at bytes name c \<or> is_some_and (\<lambda>b. \<not> is_pdf_separator b) (get_byte bytes (c + length name)))"
        by (simp add: name_sites_iff)
      define x where "x = scan_while is_ascii_whitespace bytes (c + length name)"
      define y where "y = scan_while is_digit_byte bytes x"
      have cy: "c < y" "x \<le> y"
        using ne scan_while_ge [of "c + length name" is_ascii_whitespace bytes] scan_while_ge [of x is_digit_byte bytes]
        unfolding x_def [symmetric] y_def [symmetric] by (cases name; simp)+
      have x: "x \<le> length bytes" unfolding x_def using le by (rule scan_while_le)
      have Sc: "S c = insert c (S y)" unfolding S_def
        by (rule sites_from_hit [OF 1(4) True cy(1)]) (simp add: y_def x_def)
      have digits: "D c = takeWhile is_digit_byte (drop x bytes)"
        unfolding D_def site_digits_def x_def drop_scan_while by simp
      have empty: "D c = [] \<longleftrightarrow> \<not> x < y" unfolding digits y_def scan_while_eq by simp
      have range: "get_range bytes x y = Some (D c)"
        using cy(2) scan_while_le [OF x, of is_digit_byte] take_scan_while [of is_digit_byte bytes x]
        by (simp add: get_range_def digits y_def)
      have loop: "maximum_name_loop bytes name m c =
          (if x < y then (case parse_u64 (D c) of None \<Rightarrow> Err Pdf_Xref_Count_Overflow | Some k \<Rightarrow> maximum_name_loop bytes name (max m k) y)
           else maximum_name_loop bytes name m y)"
        using go cond range by (subst maximum_name_loop.simps) (simp add: Let_def x_def [symmetric] y_def [symmetric] split: option.split)
      show ?thesis
      proof (cases "x < y")
        case False
        then have "V c = V y" "fit c = fit y" using empty by (auto simp: V_def fit_def Sc)
        moreover have "maximum_name_loop bytes name m y = Ok v \<longleftrightarrow> fit y \<and> v = Max (insert m (V y))"
          by (rule IH(3) [OF go cond x_def y_def False 1(4)])
        ultimately show ?thesis using loop False by simp
      next
        case lt: True
        show ?thesis
        proof (cases "parse_u64 (D c)")
          case None
          then have "\<not> fit c" using empty lt by (auto simp: fit_def Sc)
          then show ?thesis using loop lt None by simp
        next
          case (Some k)
          then have "V c = insert k (V y)" "fit c = fit y" using empty lt by (auto simp: V_def fit_def Sc)
          moreover have "Max (insert m (insert k (V y))) = Max (insert (max m k) (V y))"
            using fin [of y] by (cases "V y = {}") (simp_all add: ac_simps)
          moreover have "maximum_name_loop bytes name (max m k) y = Ok v \<longleftrightarrow> fit y \<and> v = Max (insert (max m k) (V y))"
            by (rule IH(2) [OF go cond x_def y_def lt _ 1(4)]) (simp add: range Some)
          ultimately show ?thesis using loop lt Some by simp
        qed
      qed
    qed
  qed
qed

lemma maximum_name_integer_Ok:
  assumes "slash_name name"
  shows "maximum_name_integer bytes name = Ok v \<longleftrightarrow> sites_fit bytes name \<and> v = Max (insert 0 (site_values bytes name))"
proof -
  have fit: "(\<forall>i \<in> name_sites bytes name. 0 \<le> i \<longrightarrow> site_digits bytes name i \<noteq> [] \<longrightarrow> parse_u64 (site_digits bytes name i) \<noteq> None) \<longleftrightarrow>
      sites_fit bytes name" (is "?fit \<longleftrightarrow> _")
    unfolding sites_fit_def site_digits_parse by (auto simp: U64_MAX_def)
  have "{n. \<exists>i \<in> name_sites bytes name. 0 \<le> i \<and> site_digits bytes name i \<noteq> [] \<and> parse_u64 (site_digits bytes name i) = Some n} =
      site_values bytes name" if "sites_fit bytes name"
    using that unfolding site_values_def sites_fit_def site_digits_parse by auto
  then show ?thesis unfolding maximum_name_integer_def maximum_name_loop_Ok [OF assms] fit by auto
qed

section \<open>Guarantees\<close>

lemma pdf_names:
  "slash_name (byte_string ''/Type'')" "slash_name (byte_string ''/Size'')" "slash_name (byte_string ''/Filespec'')"
  "slash_name (byte_string ''/EmbeddedFile'')" "slash_name (byte_string ''/XRef'')"
  by (simp_all add: slash_name_def byte_string_def)

text \<open>The objects and entries a file declares, the size of a cross-reference stream, and the names of embedded files.\<close>

definition declared_objects :: "byte_slice \<Rightarrow> nat" where
  "declared_objects bytes = declarations (pdf_tokens bytes)"

definition has_xref_stream :: "byte_slice \<Rightarrow> bool" where
  "has_xref_stream bytes \<longleftrightarrow> pair_sites bytes (byte_string ''/Type'') (byte_string ''/XRef'') \<noteq> {}"

definition stream_entries :: "byte_slice \<Rightarrow> nat" where
  "stream_entries bytes = (if has_xref_stream bytes then Max (insert 0 (site_values bytes (byte_string ''/Size''))) else 0)"

definition embedded_names :: "byte_slice \<Rightarrow> nat" where
  "embedded_names bytes = min U32_MAX (max (card (name_sites bytes (byte_string ''/Filespec'')))
     (card (name_sites bytes (byte_string ''/EmbeddedFile''))))"

lemma raw_line_length: "raw \<in> set (raw_lines bytes) \<Longrightarrow> length raw \<le> length bytes"
proof -
  assume "raw \<in> set (raw_lines bytes)"
  then have "length raw \<le> length (concat (raw_lines bytes))"
    by (induction "raw_lines bytes" arbitrary: bytes) (auto simp: length_concat member_le_sum_list)
  then show ?thesis by (simp add: concat_raw_lines)
qed

lemma preflight_pdf_parts:
  assumes mo: "mo \<le> U32_MAX" and mm: "mm \<le> U64_MAX" and len: "length bytes \<le> USIZE_MAX"
  shows "count_object_declarations bytes mo = Ok n \<longleftrightarrow> n = declared_objects bytes \<and> n \<le> mo"
    and "(\<exists>inside. pdf_lines mo mm bytes 0 \<lparr>pw_xref_entries = 0, pw_metadata_bytes = 0, pw_in_xref = False\<rparr> =
           Ok \<lparr>pw_xref_entries = e, pw_metadata_bytes = m, pw_in_xref = inside\<rparr>) \<longleftrightarrow>
         e = table_entries False (raw_lines bytes) \<and> m = metadata_size False (raw_lines bytes) \<and> e \<le> mo \<and> m \<le> mm"
    and "(if has_name_pair bytes (byte_string ''/Type'') (byte_string ''/XRef'')
          then maximum_name_integer bytes (byte_string ''/Size'') else Ok 0) = Ok v \<longleftrightarrow>
         v = stream_entries bytes \<and> (has_xref_stream bytes \<longrightarrow> sites_fit bytes (byte_string ''/Size''))"
    and "max (count_name bytes (byte_string ''/Filespec'')) (count_name bytes (byte_string ''/EmbeddedFile'')) = embedded_names bytes"
proof -
  show "count_object_declarations bytes mo = Ok n \<longleftrightarrow> n = declared_objects bytes \<and> n \<le> mo"
    unfolding count_object_declarations_Ok [OF mo] declared_objects_def ..
  have raws: "\<forall>raw \<in> set (raw_lines bytes). length raw \<le> U64_MAX"
    using raw_line_length [of _ bytes] len by (fastforce simp: USIZE_MAX_def)
  have "mo \<le> U64_MAX" using mo by (simp add: U32_MAX_def U64_MAX_def)
  from walk_lines_Ok [OF mm this raws, of "\<lparr>pw_xref_entries = 0, pw_metadata_bytes = 0, pw_in_xref = False\<rparr>" e m]
  show "(\<exists>inside. pdf_lines mo mm bytes 0 \<lparr>pw_xref_entries = 0, pw_metadata_bytes = 0, pw_in_xref = False\<rparr> =
           Ok \<lparr>pw_xref_entries = e, pw_metadata_bytes = m, pw_in_xref = inside\<rparr>) \<longleftrightarrow>
         e = table_entries False (raw_lines bytes) \<and> m = metadata_size False (raw_lines bytes) \<and> e \<le> mo \<and> m \<le> mm"
    by (simp add: pdf_lines_walk)
  have "has_name_pair bytes (byte_string ''/Type'') (byte_string ''/XRef'') \<longleftrightarrow> has_xref_stream bytes"
    unfolding has_name_pair_def has_xref_stream_def name_pair_loop_iff [OF pdf_names(1) len pdf_names(5)] by auto
  then show "(if has_name_pair bytes (byte_string ''/Type'') (byte_string ''/XRef'')
          then maximum_name_integer bytes (byte_string ''/Size'') else Ok 0) = Ok v \<longleftrightarrow>
         v = stream_entries bytes \<and> (has_xref_stream bytes \<longrightarrow> sites_fit bytes (byte_string ''/Size''))"
    by (auto simp: maximum_name_integer_Ok [OF pdf_names(2)] stream_entries_def)
  show "max (count_name bytes (byte_string ''/Filespec'')) (count_name bytes (byte_string ''/EmbeddedFile'')) = embedded_names bytes"
    unfolding count_name_card [OF pdf_names(3)] count_name_card [OF pdf_names(4)] embedded_names_def by (simp add: max_def min_def)
qed

text \<open>
  C35. The preflight of a PDF file is exact. A number is a non-empty word of bytes not below the digit zero whose
  value by position fits in 64 bits: a decimal number, but also a word of letters. The preflight accepts a file
  exactly if what it declares fits the budgets, and reports exactly these quantities: the declarations among its tokens
  outside comments, each two numbers followed by the word \<open>obj\<close>; the entries of its cross-reference tables, the
  second number of every line that is exactly two numbers between a line \<open>xref\<close> and the next line that starts with
  \<open>trailer\<close> or \<open>startxref\<close>; if the names \<open>/Type\<close> and \<open>/XRef\<close> stand together somewhere, the largest digits after a name \<open>/Size\<close>, all of
  which must fit in 64 bits; the bytes of the lines with a declaration and of the lines of tables; and the larger of the
  numbers of names \<open>/Filespec\<close> and \<open>/EmbeddedFile\<close>, up to the largest 32-bit number. These definitions have no
  cursors, share no scan with the code, and do not use its number parser.
\<close>

theorem preflight_pdf_exact:
  assumes "max_objects \<le> U32_MAX" and "max_entries \<le> U32_MAX" and "max_metadata \<le> U64_MAX" and "length bytes \<le> USIZE_MAX"
  shows "preflight_pdf bytes max_objects max_entries max_metadata = Ok r \<longleftrightarrow>
    declared_objects bytes \<le> max_objects \<and> table_entries False (raw_lines bytes) \<le> max_objects \<and>
    metadata_size False (raw_lines bytes) \<le> max_metadata \<and>
    (has_xref_stream bytes \<longrightarrow> sites_fit bytes (byte_string ''/Size'')) \<and> stream_entries bytes \<le> max_objects \<and>
    embedded_names bytes \<le> max_entries \<and>
    r = \<lparr>pp_object_declarations = declared_objects bytes,
         pp_xref_entries = max (table_entries False (raw_lines bytes)) (stream_entries bytes),
         pp_potential_embedded_files = embedded_names bytes, pp_metadata_bytes = metadata_size False (raw_lines bytes)\<rparr>"
proof -
  note parts = preflight_pdf_parts [OF assms(1,3,4)]
  define w0 where "w0 = \<lparr>pw_xref_entries = 0, pw_metadata_bytes = 0, pw_in_xref = False\<rparr>"
  have lines: "(\<exists>w. pdf_lines max_objects max_metadata bytes 0 w0 = Ok w \<and> P (pw_xref_entries w) (pw_metadata_bytes w)) \<longleftrightarrow>
      table_entries False (raw_lines bytes) \<le> max_objects \<and> metadata_size False (raw_lines bytes) \<le> max_metadata \<and>
      P (table_entries False (raw_lines bytes)) (metadata_size False (raw_lines bytes))" for P
  proof -
    have "(\<exists>w. pdf_lines max_objects max_metadata bytes 0 w0 = Ok w \<and> P (pw_xref_entries w) (pw_metadata_bytes w)) \<longleftrightarrow>
        (\<exists>e m. (\<exists>inside. pdf_lines max_objects max_metadata bytes 0 w0 =
           Ok \<lparr>pw_xref_entries = e, pw_metadata_bytes = m, pw_in_xref = inside\<rparr>) \<and> P e m)"
      by (metis pdf_walk.cases pdf_walk.select_convs(1,2))
    then show ?thesis unfolding w0_def parts(2) by auto
  qed
  show ?thesis
    unfolding preflight_pdf_def w0_def [symmetric] res_bind_Ok_iff parts(1,3,4) Let_def
    using lines [of "\<lambda>e m. \<not> max_objects < stream_entries bytes \<and> \<not> max_entries < embedded_names bytes \<and>
        r = \<lparr>pp_object_declarations = declared_objects bytes, pp_xref_entries = max e (stream_entries bytes),
             pp_potential_embedded_files = embedded_names bytes, pp_metadata_bytes = m\<rparr>"]
    by (auto split: if_splits)
qed

text \<open>A file with one object, another one in a comment, and a cross-reference table of two entries with one row.\<close>

definition pdf_demo :: byte_slice where
  "pdf_demo = byte_string ''1 0 obj%2 0 obj'' @ [10] @ byte_string ''xref'' @ [10] @ byte_string ''0 2'' @ [10] @
     byte_string ''0000000000 65535 f''"

lemmas pdf_eval = declared_objects_def pdf_tokens_def byte_string_def is_line_end_def is_ascii_whitespace_def
  is_pdf_delimiter_def is_number_def parse_u64_def checked_mul_def checked_sub_def checked_add_def U64_MAX_def

lemma pdf_demo_accepted:
  "preflight_pdf pdf_demo 9 9 99 = Ok \<lparr>pp_object_declarations = 1, pp_xref_entries = 2, pp_potential_embedded_files = 0,
     pp_metadata_bytes = 43\<rparr>"
  by code_simp

theorem preflight_pdf_exact_witness:
  "declared_objects pdf_demo = 1 \<and> table_entries False (raw_lines pdf_demo) = 2 \<and> embedded_names pdf_demo = 0 \<and>
   metadata_size False (raw_lines pdf_demo) = 43 \<and> (\<forall>r. preflight_pdf pdf_demo 0 9 99 \<noteq> Ok r)"
proof -
  have len: "length pdf_demo \<le> USIZE_MAX" by (simp add: pdf_demo_def byte_string_def USIZE_MAX_def U64_MAX_def)
  have sz: "(9::nat) \<le> U32_MAX" "(0::nat) \<le> U32_MAX" "(99::nat) \<le> U64_MAX" by (simp_all add: U32_MAX_def U64_MAX_def)
  note ok = preflight_pdf_exact [OF sz(1,1,3) len, THEN iffD1, OF pdf_demo_accepted]
  have stream: "stream_entries pdf_demo = 0"
  proof -
    have "has_name_pair pdf_demo (byte_string ''/Type'') (byte_string ''/XRef'') = False" by code_simp
    with preflight_pdf_parts(3) [OF sz(2,3) len, of 0] show ?thesis by simp
  qed
  have one: "declared_objects pdf_demo = 1" and rest: "table_entries False (raw_lines pdf_demo) = 2" "embedded_names pdf_demo = 0"
      "metadata_size False (raw_lines pdf_demo) = 43"
    using ok stream by simp_all
  have "preflight_pdf pdf_demo 0 9 99 \<noteq> Ok r" for r
    using preflight_pdf_exact [OF sz(2,1,3) len, of r] one by simp
  with one rest show ?thesis by blast
qed

text \<open>
  \<open>parse_u64\<close> on decimal digits is decimal value, but it only asks of a byte that it is not below
  the digit zero: letters pass too, so that a word can be taken for a number and prose for a
  declaration.
\<close>

theorem parse_u64_takes_letters:
  "parse_u64 (byte_string ''obj'') = Some 6858 \<and>
   (\<forall>r. preflight_pdf (byte_string ''(see the obj)'') 0 9 99 \<noteq> Ok r)"
proof -
  have one: "declared_objects (byte_string ''(see the obj)'') = 1" by (simp add: pdf_eval)
  have "preflight_pdf (byte_string ''(see the obj)'') 0 9 99 \<noteq> Ok r" for r
    using preflight_pdf_parts(1) [of 0 99 "byte_string ''(see the obj)''"] one
    by (auto simp: preflight_pdf_def res_bind_Ok_iff U32_MAX_def U64_MAX_def USIZE_MAX_def byte_string_def)
  then show ?thesis by (simp add: pdf_eval)
qed
end
