(* ===== verification/Mime_Preflight.thy ===== *)
theory Mime_Preflight
  imports Byte_Reader
begin

text \<open>
  The admission of MIME messages, \<open>attachment-native-inspect/src/mime_preflight.rs\<close>: a walk over headers and
  multipart boundaries, which bounds the parts, the depth of nested messages and the bytes of headers before a
  message is parsed.

  Headers and delimiters are found by the \<open>mail-parser\<close> crate. What the walk uses of it is the record
  \<open>mail_parser\<close>, a parameter: a stream is the slice it was created on and its offset. \<open>mail_parser_ok\<close> states that a
  stream does not run past its slice; the bound on the number of rounds does not need it. A slice that starts behind
  the end of the bytes is a panic. Text is its UTF-8 bytes. An error is its code.
\<close>

section \<open>The mail parser\<close>

record mail_content_type =
  ct_ctype :: byte_slice
  ct_subtype :: "byte_slice option"
  ct_boundary :: "byte_slice option"

record 'h mail_parser =
  mp_parse_headers :: "byte_slice \<Rightarrow> 'h \<times> nat \<times> bool"
  mp_content_type :: "'h \<Rightarrow> mail_content_type option"
  mp_transfer_encoding :: "'h \<Rightarrow> byte_slice option"
  mp_seek_next_part :: "byte_slice \<Rightarrow> byte_slice \<Rightarrow> bool \<times> nat"
  mp_skip_crlf :: "byte_slice \<Rightarrow> nat \<Rightarrow> nat"
  mp_is_multipart_end :: "byte_slice \<Rightarrow> nat \<Rightarrow> bool \<times> nat"

definition mail_parser_ok :: "'h mail_parser \<Rightarrow> bool" where
  "mail_parser_ok P \<longleftrightarrow>
     (\<forall>s. fst (snd (mp_parse_headers P s)) \<le> length s) \<and>
     (\<forall>b s. snd (mp_seek_next_part P b s) \<le> length s) \<and>
     (\<forall>s n. n \<le> length s \<longrightarrow> mp_skip_crlf P s n \<le> length s \<and> snd (mp_is_multipart_end P s n) \<le> length s)"

section \<open>State\<close>

datatype mime_error =
    Mime_Encoded_Message_Unsupported
  | Mime_Message_Depth_Exceeded
  | Mime_Metadata_Length_Overflow
  | Mime_Metadata_Limit_Exceeded
  | Mime_Part_Count_Overflow
  | Mime_Part_Limit_Exceeded
  | Mime_Derived_Length_Overflow
  | Mime_Derived_Budget_Exceeded

record mime_preflight =
  mi_parts :: nat
  mi_metadata_bytes :: nat
  mi_potential_derived_bytes :: nat

record mime_boundary =
  mb_value :: byte_slice
  mb_digest :: bool
  mb_message_depth :: nat

text \<open>The limits passed to \<open>preflight\<close>, and the variables of its loop.\<close>

record mime_limits =
  ml_max_parts :: nat
  ml_max_message_depth :: nat
  ml_max_metadata_bytes :: nat
  ml_max_potential_derived_bytes :: nat

record mime_state =
  ms_boundaries :: "mime_boundary list"
  ms_parts :: nat
  ms_metadata_bytes :: nat
  ms_cursor :: nat
  ms_in_nested_message :: bool
  ms_header_charged_by_delimiter :: bool
  ms_message_depth :: nat

text \<open>How a round of the loop ends.\<close>

datatype mime_next = Continue mime_state | Return "(mime_preflight, mime_error) result" | Mime_Panic

definition mime_text :: "string \<Rightarrow> byte_slice" where
  "mime_text s = map of_char s"

definition ascii_lower :: "nat \<Rightarrow> nat" where
  "ascii_lower b = (if 65 \<le> b \<and> b \<le> 90 then b + 32 else b)"

definition text_eq_ignore_case :: "byte_slice \<Rightarrow> byte_slice \<Rightarrow> bool" where
  "text_eq_ignore_case a b \<longleftrightarrow> map ascii_lower a = map ascii_lower b"

section \<open>Operations\<close>

definition charge_part :: "nat \<Rightarrow> nat \<Rightarrow> (nat, mime_error) result" where
  "charge_part max_parts parts =
     res_bind (ok_or Mime_Part_Count_Overflow (checked_add U32_MAX parts 1)) (\<lambda>parts.
     if max_parts < parts then Err Mime_Part_Limit_Exceeded else Ok parts)"

definition finish_mime :: "byte_slice \<Rightarrow> mime_limits \<Rightarrow> mime_state \<Rightarrow> (mime_preflight, mime_error) result" where
  "finish_mime bytes lim st =
     res_bind (ok_or Mime_Derived_Length_Overflow
                 (Option.bind (try_from U64_MAX (length bytes)) (\<lambda>raw. checked_mul U64_MAX raw (max (ms_parts st) 1)))) (\<lambda>derived.
     if ml_max_potential_derived_bytes lim < derived then Err Mime_Derived_Budget_Exceeded
     else Ok \<lparr>mi_parts = ms_parts st, mi_metadata_bytes = ms_metadata_bytes st, mi_potential_derived_bytes = derived\<rparr>)"

text \<open>The bounded slice the header parser receives.\<close>

definition header_window :: "byte_slice \<Rightarrow> mime_limits \<Rightarrow> mime_state \<Rightarrow> byte_slice" where
  "header_window bytes lim st =
     (let remaining = saturating_sub (ml_max_metadata_bytes lim) (ms_metadata_bytes st);
          input = drop (ms_cursor st) bytes;
          window_len = min (saturating_add USIZE_MAX (case try_from USIZE_MAX remaining of Some n \<Rightarrow> n | None \<Rightarrow> USIZE_MAX) 1) (length input)
      in take window_len input)"

text \<open>\<open>None\<close> is the panic of the slice; otherwise the new state and the headers, if they are complete.\<close>

definition read_headers :: "'h mail_parser \<Rightarrow> byte_slice \<Rightarrow> mime_limits \<Rightarrow> mime_state \<Rightarrow>
    (mime_state \<times> 'h option, mime_error) result option" where
  "read_headers P bytes lim st =
     (if length bytes < ms_cursor st then None
      else
        let window = header_window bytes lim st in
        case mp_parse_headers P window of
          (headers, offset, complete) \<Rightarrow>
            Some (
              res_bind (ok_or Mime_Metadata_Length_Overflow (try_from U64_MAX offset)) (\<lambda>consumed.
              res_bind (ok_or Mime_Metadata_Length_Overflow (checked_add U64_MAX (ms_metadata_bytes st) consumed)) (\<lambda>metadata.
              if ml_max_metadata_bytes lim < metadata \<or> \<not> complete \<and> length window < length (drop (ms_cursor st) bytes)
              then Err Mime_Metadata_Limit_Exceeded
              else Ok (st\<lparr>ms_metadata_bytes := metadata, ms_cursor := ms_cursor st + offset\<rparr>,
                       if complete then Some headers else None)))))"

text \<open>\<open>next_boundary\<close>: the panic, no delimiter, or whether it closes and the cursor behind it.\<close>

definition next_boundary :: "'h mail_parser \<Rightarrow> byte_slice \<Rightarrow> nat \<Rightarrow> byte_slice \<Rightarrow> (bool \<times> nat) option option" where
  "next_boundary P bytes cursor boundary =
     (if length bytes < cursor then None
      else
        let stream = drop cursor bytes in
        case mp_seek_next_part P boundary stream of
          (False, _) \<Rightarrow> Some None
        | (True, offset) \<Rightarrow>
            (case mp_is_multipart_end P stream offset of
               (closing, offset') \<Rightarrow> Some (Some (closing, cursor + offset'))))"

text \<open>The inner loop over the open boundaries, innermost first.\<close>

fun unwind :: "'h mail_parser \<Rightarrow> byte_slice \<Rightarrow> mime_limits \<Rightarrow> mime_boundary list \<Rightarrow> mime_state \<Rightarrow> mime_next" where
  "unwind P bytes lim [] st = Return (finish_mime bytes lim st)"
| "unwind P bytes lim (boundary # outer) st =
     (case next_boundary P bytes (ms_cursor st) (mb_value boundary) of
        None \<Rightarrow> Mime_Panic
      | Some None \<Rightarrow> Return (finish_mime bytes lim st)
      | Some (Some (True, cursor)) \<Rightarrow> unwind P bytes lim outer (st\<lparr>ms_cursor := cursor, ms_boundaries := rev outer\<rparr>)
      | Some (Some (False, cursor)) \<Rightarrow>
          (case charge_part (ml_max_parts lim) (ms_parts st) of
             Err e \<Rightarrow> Return (Err e)
           | Ok parts \<Rightarrow>
               Continue (st\<lparr>ms_cursor := cursor, ms_message_depth := mb_message_depth boundary, ms_parts := parts,
                            ms_header_charged_by_delimiter := True, ms_in_nested_message := False\<rparr>)))"

text \<open>Charging a part for a header that no delimiter has charged.\<close>

definition charge_header :: "mime_limits \<Rightarrow> mime_state \<Rightarrow> (mime_state, mime_error) result" where
  "charge_header lim st =
     (if ms_header_charged_by_delimiter st then Ok st
      else res_bind (charge_part (ml_max_parts lim) (ms_parts st)) (\<lambda>parts. Ok (st\<lparr>ms_parts := parts\<rparr>)))"

text \<open>Entering a nested message, after the check of its transfer encoding.\<close>

definition enter_message :: "'h mail_parser \<Rightarrow> mime_limits \<Rightarrow> 'h \<Rightarrow> mime_state \<Rightarrow> mime_next" where
  "enter_message P lim headers st =
     (if is_some_and (\<lambda>encoding. text_eq_ignore_case encoding (mime_text ''base64'') \<or>
                                 text_eq_ignore_case encoding (mime_text ''quoted-printable''))
           (mp_transfer_encoding P headers)
      then Return (Err Mime_Encoded_Message_Unsupported)
      else
        (case charge_header lim st of
           Err e \<Rightarrow> Return (Err e)
         | Ok st \<Rightarrow>
             (case checked_add U16_MAX (ms_message_depth st) 1 of
                None \<Rightarrow> Return (Err Mime_Message_Depth_Exceeded)
              | Some depth \<Rightarrow>
                  if \<not> depth \<le> ml_max_message_depth lim then Return (Err Mime_Message_Depth_Exceeded)
                  else Continue (st\<lparr>ms_message_depth := depth, ms_in_nested_message := True,
                                    ms_header_charged_by_delimiter := False\<rparr>))))"

text \<open>A part that is no multipart or whose delimiter is not found: a nested message, or a leaf.\<close>

definition mime_leaf :: "'h mail_parser \<Rightarrow> byte_slice \<Rightarrow> mime_limits \<Rightarrow> 'h \<Rightarrow> mime_state \<Rightarrow> mime_next" where
  "mime_leaf P bytes lim headers st =
     (if is_some_and (\<lambda>v. ct_ctype v = mime_text ''message'' \<and>
           (ct_subtype v = Some (mime_text ''rfc822'') \<or> ct_subtype v = Some (mime_text ''global'')))
           (mp_content_type P headers) \<or>
         mp_content_type P headers = None \<and> \<not> ms_in_nested_message st \<and>
           ms_boundaries st \<noteq> [] \<and> mb_digest (last (ms_boundaries st))
      then enter_message P lim headers st
      else unwind P bytes lim (rev (ms_boundaries st)) st)"

text \<open>The multipart branch: a state to continue with, if the first delimiter is found.\<close>

definition enter_multipart :: "'h mail_parser \<Rightarrow> byte_slice \<Rightarrow> mime_limits \<Rightarrow> mail_content_type \<Rightarrow> mime_state \<Rightarrow> mime_next option" where
  "enter_multipart P bytes lim v st =
     (case ct_boundary v of
        None \<Rightarrow> None
      | Some boundary \<Rightarrow>
          if boundary = [] then None
          else if length bytes < ms_cursor st then Some Mime_Panic
          else
            let stream = drop (ms_cursor st) bytes in
            case mp_seek_next_part P boundary stream of
              (False, _) \<Rightarrow> None
            | (True, offset) \<Rightarrow>
                Some (case charge_part (ml_max_parts lim) (ms_parts st) of
                        Err e \<Rightarrow> Return (Err e)
                      | Ok parts \<Rightarrow>
                          Continue (st\<lparr>ms_cursor := ms_cursor st + mp_skip_crlf P stream offset, ms_parts := parts,
                            ms_boundaries := ms_boundaries st @
                              [\<lparr>mb_value = boundary, mb_digest = (ct_subtype v = Some (mime_text ''digest'')),
                                mb_message_depth = ms_message_depth st\<rparr>],
                            ms_in_nested_message := False, ms_header_charged_by_delimiter := True\<rparr>)))"

text \<open>One round of the outer loop.\<close>

definition mime_round :: "'h mail_parser \<Rightarrow> byte_slice \<Rightarrow> mime_limits \<Rightarrow> mime_state \<Rightarrow> mime_next" where
  "mime_round P bytes lim st =
     (case read_headers P bytes lim st of
        None \<Rightarrow> Mime_Panic
      | Some (Err e) \<Rightarrow> Return (Err e)
      | Some (Ok (st, None)) \<Rightarrow> Return (finish_mime bytes lim st)
      | Some (Ok (st, Some headers)) \<Rightarrow>
          (case mp_content_type P headers of
             None \<Rightarrow> mime_leaf P bytes lim headers st
           | Some v \<Rightarrow>
               if ct_ctype v \<noteq> mime_text ''multipart'' then mime_leaf P bytes lim headers st
               else
                 (case enter_multipart P bytes lim v st of
                    Some following \<Rightarrow> following
                  | None \<Rightarrow>
                      (case charge_header lim st of
                         Err e \<Rightarrow> Return (Err e)
                       | Ok st \<Rightarrow> mime_leaf P bytes lim headers st))))"

definition mime_init :: mime_state where
  "mime_init = \<lparr>ms_boundaries = [], ms_parts = 0, ms_metadata_bytes = 0, ms_cursor = 0, ms_in_nested_message = False,
     ms_header_charged_by_delimiter = False, ms_message_depth = 0\<rparr>"

section \<open>Every round spends a part or a level\<close>

definition mime_rank :: "mime_limits \<Rightarrow> mime_state \<Rightarrow> nat \<times> nat" where
  "mime_rank lim st = (ml_max_parts lim - ms_parts st, ml_max_message_depth lim - ms_message_depth st)"

text \<open>What a round that continues has done.\<close>

definition mime_spends :: "mime_limits \<Rightarrow> mime_state \<Rightarrow> mime_state \<Rightarrow> bool" where
  "mime_spends lim st st' \<longleftrightarrow>
     ms_parts st < ms_parts st' \<and> ms_parts st' \<le> ml_max_parts lim \<or>
     ms_parts st' = ms_parts st \<and> ms_message_depth st' = Suc (ms_message_depth st) \<and>
       ms_message_depth st' \<le> ml_max_message_depth lim"

lemma charge_part_Ok: "charge_part max_parts parts = Ok n \<Longrightarrow> n = Suc parts \<and> n \<le> max_parts"
  by (auto simp: charge_part_def res_bind_Ok_iff ok_or_Ok_iff checked_add_Some_iff split: if_splits)

lemma unwind_spends: "unwind P bytes lim bs st = Continue st' \<Longrightarrow> ms_parts st' = Suc (ms_parts st) \<and> ms_parts st' \<le> ml_max_parts lim"
proof (induction bs arbitrary: st)
  case (Cons b bs)
  from Cons.prems consider
    (closes) cursor where "unwind P bytes lim bs (st\<lparr>ms_cursor := cursor, ms_boundaries := rev bs\<rparr>) = Continue st'"
  | (opens) parts where "charge_part (ml_max_parts lim) (ms_parts st) = Ok parts" "ms_parts st' = parts"
    by (auto split: option.splits prod.splits bool.splits result.splits)
  then show ?case
  proof cases
    case closes
    from Cons.IH [OF this] show ?thesis by simp
  next
    case opens
    with charge_part_Ok [OF opens(1)] show ?thesis by simp
  qed
qed simp

lemma read_headers_keeps:
  "read_headers P bytes lim st = Some (Ok (st', h)) \<Longrightarrow>
   ms_parts st' = ms_parts st \<and> ms_message_depth st' = ms_message_depth st \<and> ms_boundaries st' = ms_boundaries st \<and>
   ms_metadata_bytes st' \<le> ml_max_metadata_bytes lim"
  by (auto simp: read_headers_def Let_def res_bind_Ok_iff split: if_splits prod.splits)

lemma charge_header_Ok:
  "charge_header lim st = Ok st' \<Longrightarrow>
   (st' = st \<or> st' = st\<lparr>ms_parts := Suc (ms_parts st)\<rparr> \<and> Suc (ms_parts st) \<le> ml_max_parts lim)"
  by (auto simp: charge_header_def res_bind_Ok_iff dest: charge_part_Ok split: if_splits)

lemma mime_leaf_spends:
  assumes "mime_leaf P bytes lim h st = Continue st'"
  shows "mime_spends lim st st'"
proof (cases "unwind P bytes lim (rev (ms_boundaries st)) st = Continue st'")
  case True
  from unwind_spends [OF this] show ?thesis by (simp add: mime_spends_def)
next
  case False
  then have "enter_message P lim h st = Continue st'" using assms by (auto simp: mime_leaf_def split: if_splits)
  then obtain st1 where "charge_header lim st = Ok st1" "ms_parts st' = ms_parts st1"
      "ms_message_depth st' = Suc (ms_message_depth st1)" "ms_message_depth st' \<le> ml_max_message_depth lim"
    by (auto simp: enter_message_def checked_add_def split: if_splits result.splits)
  with charge_header_Ok [of lim st st1] show ?thesis by (auto simp: mime_spends_def)
qed

lemma enter_multipart_spends:
  assumes "enter_multipart P bytes lim v st = Some (Continue st')"
  shows "mime_spends lim st st'"
proof -
  obtain parts where "charge_part (ml_max_parts lim) (ms_parts st) = Ok parts" "ms_parts st' = parts"
    using assms by (auto simp: enter_multipart_def Let_def split: option.splits if_splits prod.splits bool.splits result.splits)
  with charge_part_Ok [OF this(1)] show ?thesis by (simp add: mime_spends_def)
qed

lemma mime_spends_mono: "mime_spends lim st1 st' \<Longrightarrow> ms_message_depth st1 = ms_message_depth st \<Longrightarrow>
    ms_parts st1 = ms_parts st \<or> ms_parts st1 = Suc (ms_parts st) \<and> ms_parts st1 \<le> ml_max_parts lim \<Longrightarrow> mime_spends lim st st'"
  by (auto simp: mime_spends_def)

lemma mime_round_cases:
  assumes "mime_round P bytes lim st = Continue st'"
  obtains (leaf) st1 st2 h where "read_headers P bytes lim st = Some (Ok (st1, Some h))" "st2 = st1 \<or> charge_header lim st1 = Ok st2"
      "mime_leaf P bytes lim h st2 = Continue st'"
  | (multipart) st1 h v where "read_headers P bytes lim st = Some (Ok (st1, Some h))"
      "enter_multipart P bytes lim v st1 = Some (Continue st')"
proof -
  obtain st1 h where rh: "read_headers P bytes lim st = Some (Ok (st1, Some h))"
    using assms unfolding mime_round_def by (auto split: option.splits result.splits)
  have round: "mime_round P bytes lim st =
      (case mp_content_type P h of
         None \<Rightarrow> mime_leaf P bytes lim h st1
       | Some v \<Rightarrow>
           if ct_ctype v \<noteq> mime_text ''multipart'' then mime_leaf P bytes lim h st1
           else (case enter_multipart P bytes lim v st1 of
                   Some following \<Rightarrow> following
                 | None \<Rightarrow> (case charge_header lim st1 of Err e \<Rightarrow> Return (Err e) | Ok st2 \<Rightarrow> mime_leaf P bytes lim h st2)))"
    by (simp add: mime_round_def rh)
  show thesis
  proof (cases "mime_leaf P bytes lim h st1 = Continue st'")
    case True
    then show thesis using leaf [OF rh] by blast
  next
    case False
    then obtain v where v: "(case enter_multipart P bytes lim v st1 of Some following \<Rightarrow> following
        | None \<Rightarrow> (case charge_header lim st1 of Err e \<Rightarrow> Return (Err e) | Ok st2 \<Rightarrow> mime_leaf P bytes lim h st2)) = Continue st'"
      using assms unfolding round by (cases "mp_content_type P h") (simp_all split: if_splits)
    show thesis
    proof (cases "enter_multipart P bytes lim v st1")
      case None
      with v obtain st2 where "charge_header lim st1 = Ok st2" "mime_leaf P bytes lim h st2 = Continue st'"
        by (auto split: result.splits)
      then show thesis using leaf [OF rh] by blast
    next
      case (Some following)
      with v show thesis using multipart [OF rh, of v] by simp
    qed
  qed
qed

lemma mime_round_spends:
  assumes "mime_round P bytes lim st = Continue st'"
  shows "mime_spends lim st st'"
  using assms
proof (cases rule: mime_round_cases)
  case (leaf st1 st2 h)
  have keep: "ms_parts st1 = ms_parts st" "ms_message_depth st1 = ms_message_depth st" using read_headers_keeps [OF leaf(1)] by simp_all
  have "ms_message_depth st2 = ms_message_depth st1 \<and> (ms_parts st2 = ms_parts st1 \<or> ms_parts st2 = Suc (ms_parts st1) \<and> ms_parts st2 \<le> ml_max_parts lim)"
    using leaf(2) charge_header_Ok [of lim st1 st2] by auto
  then show ?thesis unfolding keep by (elim conjE) (rule mime_spends_mono [OF mime_leaf_spends [OF leaf(3)]])
next
  case (multipart st1 h v)
  from enter_multipart_spends [OF multipart(2)] read_headers_keeps [OF multipart(1)] show ?thesis
    by (simp add: mime_spends_def)
qed

lemma mime_rank_less: "mime_spends lim st st' \<Longrightarrow> (mime_rank lim st', mime_rank lim st) \<in> less_than <*lex*> less_than"
  by (auto simp: mime_spends_def mime_rank_def)

section \<open>The walk\<close>

text \<open>The outer loop; \<open>None\<close> is a panic. It ends whatever the mail parser does.\<close>

function mime_walk :: "'h mail_parser \<Rightarrow> byte_slice \<Rightarrow> mime_limits \<Rightarrow> mime_state \<Rightarrow> (mime_preflight, mime_error) result option" where
  "mime_walk P bytes lim st =
     (case mime_round P bytes lim st of
        Mime_Panic \<Rightarrow> None
      | Return r \<Rightarrow> Some r
      | Continue st' \<Rightarrow> mime_walk P bytes lim st')"
  by pat_completeness auto

termination
  by (relation "inv_image (less_than <*lex*> less_than) (\<lambda>(P, bytes, lim, st). mime_rank lim st)")
    (auto dest!: mime_round_spends mime_rank_less)

declare mime_walk.simps [simp del]

definition preflight_mime :: "'h mail_parser \<Rightarrow> byte_slice \<Rightarrow> mime_limits \<Rightarrow> (mime_preflight, mime_error) result option" where
  "preflight_mime P bytes lim = mime_walk P bytes lim mime_init"

text \<open>The state after a number of rounds, if the walk gets that far.\<close>

fun mime_after :: "'h mail_parser \<Rightarrow> byte_slice \<Rightarrow> mime_limits \<Rightarrow> nat \<Rightarrow> mime_state option" where
  "mime_after P bytes lim 0 = Some mime_init"
| "mime_after P bytes lim (Suc k) =
     (case mime_after P bytes lim k of
        None \<Rightarrow> None
      | Some st \<Rightarrow> (case mime_round P bytes lim st of Continue st' \<Rightarrow> Some st' | _ \<Rightarrow> None))"

section \<open>Invariant\<close>

definition mime_inv :: "byte_slice \<Rightarrow> mime_limits \<Rightarrow> mime_state \<Rightarrow> bool" where
  "mime_inv bytes lim st \<longleftrightarrow>
     ms_parts st \<le> ml_max_parts lim \<and> ms_message_depth st \<le> ml_max_message_depth lim \<and>
     ms_metadata_bytes st \<le> ml_max_metadata_bytes lim \<and>
     (\<forall>b \<in> set (ms_boundaries st). mb_message_depth b \<le> ml_max_message_depth lim) \<and>
     length (ms_boundaries st) \<le> ms_parts st"

lemma mime_init_inv: "mime_inv bytes lim mime_init"
  by (simp add: mime_inv_def mime_init_def)

lemma charge_header_inv: "charge_header lim st = Ok st' \<Longrightarrow> mime_inv bytes lim st \<Longrightarrow> mime_inv bytes lim st'"
  using charge_header_Ok [of lim st st'] by (auto simp: mime_inv_def)

lemma read_headers_inv: "read_headers P bytes lim st = Some (Ok (st', h)) \<Longrightarrow> mime_inv bytes lim st \<Longrightarrow> mime_inv bytes lim st'"
  using read_headers_keeps [of P bytes lim st st' h] by (auto simp: mime_inv_def)

lemma unwind_inv:
  "unwind P bytes lim bs st = Continue st' \<Longrightarrow> ms_boundaries st = rev bs \<Longrightarrow> mime_inv bytes lim st \<Longrightarrow> mime_inv bytes lim st'"
proof (induction bs arbitrary: st)
  case (Cons b bs)
  from Cons.prems(1) consider
    (closes) cursor where "unwind P bytes lim bs (st\<lparr>ms_cursor := cursor, ms_boundaries := rev bs\<rparr>) = Continue st'"
  | (opens) cursor parts where "charge_part (ml_max_parts lim) (ms_parts st) = Ok parts"
      "st' = st\<lparr>ms_cursor := cursor, ms_message_depth := mb_message_depth b, ms_parts := parts,
                ms_header_charged_by_delimiter := True, ms_in_nested_message := False\<rparr>"
    by (auto split: option.splits prod.splits bool.splits result.splits)
  then show ?case
  proof cases
    case closes
    from Cons.IH [OF this] Cons.prems(2,3) show ?thesis by (simp add: mime_inv_def)
  next
    case opens
    with charge_part_Ok [OF opens(1)] Cons.prems(2,3) show ?thesis by (auto simp: mime_inv_def)
  qed
qed simp

lemma enter_message_cases:
  assumes "enter_message P lim h st = Continue st'"
  obtains st1 depth where "charge_header lim st = Ok st1" "depth \<le> ml_max_message_depth lim"
    "st' = st1\<lparr>ms_message_depth := depth, ms_in_nested_message := True, ms_header_charged_by_delimiter := False\<rparr>"
  using assms by (auto simp: enter_message_def split: if_splits result.splits option.splits)

lemma enter_message_inv: "enter_message P lim h st = Continue st' \<Longrightarrow> mime_inv bytes lim st \<Longrightarrow> mime_inv bytes lim st'"
proof -
  assume "enter_message P lim h st = Continue st'" and inv: "mime_inv bytes lim st"
  then obtain st1 depth where st1: "charge_header lim st = Ok st1" and depth: "depth \<le> ml_max_message_depth lim"
    and st': "st' = st1\<lparr>ms_message_depth := depth, ms_in_nested_message := True, ms_header_charged_by_delimiter := False\<rparr>"
    by (elim enter_message_cases)
  from charge_header_inv [OF st1 inv] depth show ?thesis by (simp add: st' mime_inv_def)
qed

lemma mime_leaf_inv: "mime_leaf P bytes lim h st = Continue st' \<Longrightarrow> mime_inv bytes lim st \<Longrightarrow> mime_inv bytes lim st'"
  using enter_message_inv [of P lim h st st' bytes] unwind_inv [of P bytes lim "rev (ms_boundaries st)" st st']
  by (simp add: mime_leaf_def split: if_splits)

lemma enter_multipart_cases:
  assumes "enter_multipart P bytes lim v st = Some (Continue st')"
  obtains boundary offset parts where "mp_seek_next_part P boundary (drop (ms_cursor st) bytes) = (True, offset)"
    "charge_part (ml_max_parts lim) (ms_parts st) = Ok parts"
    "st' = st\<lparr>ms_cursor := ms_cursor st + mp_skip_crlf P (drop (ms_cursor st) bytes) offset, ms_parts := parts,
       ms_boundaries := ms_boundaries st @ [\<lparr>mb_value = boundary, mb_digest = (ct_subtype v = Some (mime_text ''digest'')),
         mb_message_depth = ms_message_depth st\<rparr>],
       ms_in_nested_message := False, ms_header_charged_by_delimiter := True\<rparr>"
  using assms by (auto simp: enter_multipart_def Let_def split: option.splits if_splits prod.splits bool.splits result.splits)

lemma enter_multipart_inv:
  assumes "enter_multipart P bytes lim v st = Some (Continue st')" and inv: "mime_inv bytes lim st"
  shows "mime_inv bytes lim st'"
  using assms(1)
proof (cases rule: enter_multipart_cases)
  case (1 boundary offset parts)
  from charge_part_Ok [OF 1(2)] inv show ?thesis unfolding 1(3) by (simp add: mime_inv_def)
qed

lemma mime_round_inv:
  assumes "mime_round P bytes lim st = Continue st'" and inv: "mime_inv bytes lim st"
  shows "mime_inv bytes lim st'"
  using assms(1)
proof (cases rule: mime_round_cases)
  case (leaf st1 st2 h)
  have "mime_inv bytes lim st2" using leaf(2) charge_header_inv read_headers_inv [OF leaf(1) inv] by blast
  with mime_leaf_inv [OF leaf(3)] show ?thesis .
next
  case (multipart st1 h v)
  from enter_multipart_inv [OF multipart(2)] read_headers_inv [OF multipart(1) inv] show ?thesis .
qed

lemma mime_after_inv: "mime_after P bytes lim k = Some st \<Longrightarrow> mime_inv bytes lim st"
proof (induction k arbitrary: st)
  case (Suc k)
  then obtain s where "mime_after P bytes lim k = Some s" "mime_round P bytes lim s = Continue st"
    by (auto split: option.splits mime_next.splits)
  with Suc.IH mime_round_inv show ?case by blast
qed (simp add: mime_init_inv)

text \<open>The rounds that are left at most.\<close>

definition mime_potential :: "mime_limits \<Rightarrow> mime_state \<Rightarrow> nat" where
  "mime_potential lim st = (ml_max_parts lim - ms_parts st) * Suc (ml_max_message_depth lim) +
     (ml_max_message_depth lim - ms_message_depth st)"

lemma mime_potential_less:
  assumes "mime_spends lim st st'"
  shows "mime_potential lim st' < mime_potential lim st"
  using assms unfolding mime_spends_def
proof (elim disjE conjE)
  assume "ms_parts st < ms_parts st'" "ms_parts st' \<le> ml_max_parts lim"
  then have "Suc (ml_max_parts lim - ms_parts st') \<le> ml_max_parts lim - ms_parts st" by arith
  then have "Suc (ml_max_parts lim - ms_parts st') * Suc (ml_max_message_depth lim) \<le>
      (ml_max_parts lim - ms_parts st) * Suc (ml_max_message_depth lim)" by (rule mult_le_mono1)
  then have "(ml_max_parts lim - ms_parts st') * Suc (ml_max_message_depth lim) + Suc (ml_max_message_depth lim) \<le>
      (ml_max_parts lim - ms_parts st) * Suc (ml_max_message_depth lim)" by (simp only: mult_Suc add.commute)
  then show ?thesis unfolding mime_potential_def by linarith
next
  assume "ms_parts st' = ms_parts st" "ms_message_depth st' = Suc (ms_message_depth st)"
    "ms_message_depth st' \<le> ml_max_message_depth lim"
  then show ?thesis by (simp add: mime_potential_def)
qed

lemma mime_after_potential:
  "mime_after P bytes lim k = Some st \<Longrightarrow> k + mime_potential lim st \<le> mime_potential lim mime_init"
proof (induction k arbitrary: st)
  case (Suc k)
  then obtain s where s: "mime_after P bytes lim k = Some s" and "mime_round P bytes lim s = Continue st"
    by (auto split: option.splits mime_next.splits)
  then have "mime_potential lim st < mime_potential lim s" by (blast intro: mime_potential_less mime_round_spends)
  with Suc.IH [OF s] show ?case by simp
qed simp

lemma header_window_bound:
  "ms_metadata_bytes st \<le> ml_max_metadata_bytes lim \<Longrightarrow>
   length (header_window bytes lim st) + ms_metadata_bytes st \<le> Suc (ml_max_metadata_bytes lim)"
  by (auto simp: header_window_def Let_def saturating_add_def saturating_sub_def try_from_def min_def)

text \<open>
  C37. The MIME walk is bounded whatever the mail parser does. It begins at most
  \<open>(max_parts + 1) * (max_message_depth + 1)\<close> rounds, and so always ends; in every round the parts, the depth and the
  header bytes are within their limits, the slice the header parser receives reaches at most one
  byte beyond the header budget that is left, and no more boundaries are open than parts were charged.
\<close>

theorem mime_walk_bounded:
  assumes "mime_after P bytes lim k = Some st"
  shows "k < Suc (ml_max_parts lim) * Suc (ml_max_message_depth lim) \<and>
    ms_parts st \<le> ml_max_parts lim \<and> ms_message_depth st \<le> ml_max_message_depth lim \<and>
    length (header_window bytes lim st) + ms_metadata_bytes st \<le> ml_max_metadata_bytes lim + 1 \<and>
    length (ms_boundaries st) \<le> ms_parts st"
proof -
  have "k \<le> ml_max_parts lim * Suc (ml_max_message_depth lim) + ml_max_message_depth lim"
    using mime_after_potential [OF assms] by (simp add: mime_potential_def mime_init_def)
  with mime_after_inv [OF assms] header_window_bound [of st lim bytes] show ?thesis by (simp add: mime_inv_def)
qed

section \<open>No panic\<close>

definition cursor_ok :: "byte_slice \<Rightarrow> mime_state \<Rightarrow> bool" where
  "cursor_ok bytes st \<longleftrightarrow> ms_metadata_bytes st \<le> ms_cursor st \<and> ms_cursor st \<le> length bytes"

lemma mail_parser_okD:
  assumes "mail_parser_ok P"
  shows "mp_parse_headers P s = (h, n, c) \<Longrightarrow> n \<le> length s" "mp_seek_next_part P b s = (f, n) \<Longrightarrow> n \<le> length s"
    "n \<le> length s \<Longrightarrow> mp_skip_crlf P s n \<le> length s" "n \<le> length s \<Longrightarrow> mp_is_multipart_end P s n = (f, m) \<Longrightarrow> m \<le> length s"
  using assms unfolding mail_parser_ok_def by (metis fst_conv snd_conv)+

lemma charge_header_cursor: "charge_header lim st = Ok st' \<Longrightarrow> cursor_ok bytes st \<Longrightarrow> cursor_ok bytes st'"
  using charge_header_Ok [of lim st st'] by (auto simp: cursor_ok_def)

lemma read_headers_cursor:
  assumes P: "mail_parser_ok P" and ok: "cursor_ok bytes st"
  shows "read_headers P bytes lim st \<noteq> None"
    "read_headers P bytes lim st = Some (Ok (st', h)) \<Longrightarrow> cursor_ok bytes st'"
proof -
  obtain hs n c where parse: "mp_parse_headers P (header_window bytes lim st) = (hs, n, c)" by (metis prod_cases3)
  have "n \<le> length (header_window bytes lim st)" by (rule mail_parser_okD(1) [OF P parse])
  also have "\<dots> \<le> length (drop (ms_cursor st) bytes)" by (simp add: header_window_def Let_def)
  finally have n: "n \<le> length bytes - ms_cursor st" by simp
  show "read_headers P bytes lim st \<noteq> None" using ok parse by (simp add: read_headers_def cursor_ok_def)
  show "cursor_ok bytes st'" if "read_headers P bytes lim st = Some (Ok (st', h))"
    using that ok n parse
    by (auto simp: read_headers_def cursor_ok_def res_bind_Ok_iff ok_or_Ok_iff try_from_Some_iff checked_add_Some_iff split: if_splits)
qed

lemma next_boundary_cursor:
  assumes P: "mail_parser_ok P" and "c \<le> length bytes"
  shows "next_boundary P bytes c b \<noteq> None" "next_boundary P bytes c b = Some (Some (closing, c')) \<Longrightarrow> c \<le> c' \<and> c' \<le> length bytes"
proof -
  obtain f n where seek: "mp_seek_next_part P b (drop c bytes) = (f, n)" by fastforce
  obtain g m where e: "mp_is_multipart_end P (drop c bytes) n = (g, m)" by fastforce
  have "m \<le> length (drop c bytes)" using mail_parser_okD(4) [OF P mail_parser_okD(2) [OF P seek] e] .
  then show "next_boundary P bytes c b \<noteq> None"
    "next_boundary P bytes c b = Some (Some (closing, c')) \<Longrightarrow> c \<le> c' \<and> c' \<le> length bytes"
    using assms(2) seek e by (cases f; simp add: next_boundary_def; auto)+
qed

lemma unwind_cursor:
  assumes P: "mail_parser_ok P"
  shows "cursor_ok bytes st \<Longrightarrow> unwind P bytes lim bs st \<noteq> Mime_Panic \<and>
    (\<forall>st'. unwind P bytes lim bs st = Continue st' \<longrightarrow> cursor_ok bytes st')"
proof (induction bs arbitrary: st)
  case (Cons b bs)
  have c: "ms_cursor st \<le> length bytes" using Cons.prems by (simp add: cursor_ok_def)
  note nb = next_boundary_cursor [OF P c, of "mb_value b"]
  show ?case
  proof (cases "next_boundary P bytes (ms_cursor st) (mb_value b)")
    case (Some found)
    show ?thesis
    proof (cases found)
      case None
      with Some show ?thesis by simp
    next
      case f: (Some hit)
      obtain closing cursor where hit: "hit = (closing, cursor)" by fastforce
      have "ms_cursor st \<le> cursor \<and> cursor \<le> length bytes" using nb(2) Some f hit by simp
      then have ok: "cursor_ok bytes (st\<lparr>ms_cursor := cursor, ms_boundaries := rev bs\<rparr>)" using Cons.prems by (simp add: cursor_ok_def)
      show ?thesis
      proof (cases closing)
        case True
        with Some f hit Cons.IH [OF ok] show ?thesis by simp
      next
        case False
        with Some f hit ok show ?thesis by (auto simp: cursor_ok_def split: result.split)
      qed
    qed
  qed (use nb(1) in simp)
qed simp

lemma mime_leaf_cursor:
  assumes P: "mail_parser_ok P" and ok: "cursor_ok bytes st"
  shows "mime_leaf P bytes lim h st \<noteq> Mime_Panic \<and> (\<forall>st'. mime_leaf P bytes lim h st = Continue st' \<longrightarrow> cursor_ok bytes st')"
proof -
  have "enter_message P lim h st \<noteq> Mime_Panic"
    by (auto simp: enter_message_def split: result.split option.split)
  moreover have "cursor_ok bytes st'" if m: "enter_message P lim h st = Continue st'" for st'
  proof -
    obtain st1 depth where "charge_header lim st = Ok st1"
        "st' = st1\<lparr>ms_message_depth := depth, ms_in_nested_message := True, ms_header_charged_by_delimiter := False\<rparr>"
      using m by (elim enter_message_cases)
    with charge_header_cursor [OF _ ok] show ?thesis by (simp add: cursor_ok_def)
  qed
  ultimately show ?thesis using unwind_cursor [OF P ok] unfolding mime_leaf_def by simp
qed

lemma enter_multipart_cursor:
  assumes P: "mail_parser_ok P" and ok: "cursor_ok bytes st"
  shows "enter_multipart P bytes lim v st \<noteq> Some Mime_Panic"
    "enter_multipart P bytes lim v st = Some (Continue st') \<Longrightarrow> cursor_ok bytes st'"
proof -
  show "enter_multipart P bytes lim v st \<noteq> Some Mime_Panic"
    using ok by (auto simp: enter_multipart_def cursor_ok_def Let_def split: option.split prod.split bool.split result.split)
  show "cursor_ok bytes st'" if "enter_multipart P bytes lim v st = Some (Continue st')"
    using that
  proof (cases rule: enter_multipart_cases)
    case (1 boundary offset parts)
    have "mp_skip_crlf P (drop (ms_cursor st) bytes) offset \<le> length (drop (ms_cursor st) bytes)"
      by (rule mail_parser_okD(3) [OF P mail_parser_okD(2) [OF P 1(1)]])
    then have "ms_cursor st + mp_skip_crlf P (drop (ms_cursor st) bytes) offset \<le> length bytes"
      using ok unfolding cursor_ok_def length_drop by linarith
    with ok show ?thesis unfolding 1(3) by (simp add: cursor_ok_def)
  qed
qed

lemma mime_round_cursor:
  assumes P: "mail_parser_ok P" and ok: "cursor_ok bytes st"
  shows "mime_round P bytes lim st \<noteq> Mime_Panic" "mime_round P bytes lim st = Continue st' \<Longrightarrow> cursor_ok bytes st'"
proof -
  note rh = read_headers_cursor [OF P ok, of lim]
  show "mime_round P bytes lim st \<noteq> Mime_Panic"
  proof (cases "read_headers P bytes lim st")
    case (Some res)
    show ?thesis
    proof (cases "\<exists>st1 h. res = Ok (st1, Some h)")
      case True
      then obtain st1 h where res: "res = Ok (st1, Some h)" by blast
      have ok1: "cursor_ok bytes st1" using rh(2) Some res by simp
      have "charge_header lim st1 = Ok st2 \<Longrightarrow> cursor_ok bytes st2" for st2 using charge_header_cursor ok1 by blast
      then have "mime_leaf P bytes lim h st2 \<noteq> Mime_Panic" if "charge_header lim st1 = Ok st2" for st2
        using mime_leaf_cursor [OF P] that by blast
      moreover have "mime_leaf P bytes lim h st1 \<noteq> Mime_Panic" using mime_leaf_cursor [OF P ok1] by blast
      ultimately show ?thesis using Some res enter_multipart_cursor(1) [OF P ok1]
        unfolding mime_round_def by (auto split: option.split result.split)
    next
      case False
      with Some show ?thesis unfolding mime_round_def by (auto split: result.split option.split prod.split)
    qed
  qed (use rh(1) in simp)
  show "cursor_ok bytes st'" if "mime_round P bytes lim st = Continue st'"
    using that
  proof (cases rule: mime_round_cases)
    case (leaf st1 st2 h)
    have "cursor_ok bytes st2" using leaf(2) charge_header_cursor rh(2) [OF leaf(1)] by blast
    with mime_leaf_cursor [OF P] leaf(3) show ?thesis by blast
  next
    case (multipart st1 h v)
    from enter_multipart_cursor(2) [OF P rh(2) [OF multipart(1)] multipart(2)] show ?thesis .
  qed
qed

lemma finish_mime_Ok:
  "finish_mime bytes lim st = Ok r \<Longrightarrow> mi_parts r = ms_parts st \<and> mi_metadata_bytes r = ms_metadata_bytes st \<and>
   mi_potential_derived_bytes r = length bytes * max (ms_parts st) 1 \<and>
   mi_potential_derived_bytes r \<le> ml_max_potential_derived_bytes lim"
  by (auto simp: finish_mime_def res_bind_Ok_iff ok_or_Ok_iff bind_eq_Some_conv try_from_Some_iff checked_mul_Some_iff
      split: if_splits)

text \<open>A round that returns a result returns that of \<open>finish\<close> in a good state.\<close>

lemma unwind_Return_Ok:
  "unwind P bytes lim bs st = Return (Ok r) \<Longrightarrow> mail_parser_ok P \<Longrightarrow> cursor_ok bytes st \<Longrightarrow>
   \<exists>st'. finish_mime bytes lim st' = Ok r \<and> ms_parts st' = ms_parts st \<and> ms_metadata_bytes st' = ms_metadata_bytes st"
proof (induction bs arbitrary: st)
  case (Cons b bs)
  from Cons.prems(1) consider
    (stops) "finish_mime bytes lim st = Ok r"
  | (closes) cursor where "next_boundary P bytes (ms_cursor st) (mb_value b) = Some (Some (True, cursor))"
      "unwind P bytes lim bs (st\<lparr>ms_cursor := cursor, ms_boundaries := rev bs\<rparr>) = Return (Ok r)"
    by (auto split: option.splits prod.splits bool.splits result.splits)
  then show ?case
  proof cases
    case closes
    have "ms_cursor st \<le> length bytes" using Cons.prems(3) by (simp add: cursor_ok_def)
    from next_boundary_cursor(2) [OF Cons.prems(2) this closes(1)] Cons.prems(3)
    have "cursor_ok bytes (st\<lparr>ms_cursor := cursor, ms_boundaries := rev bs\<rparr>)" by (simp add: cursor_ok_def)
    from Cons.IH [OF closes(2) Cons.prems(2) this] show ?thesis by simp
  qed blast
qed auto

lemma mime_leaf_Return_Ok:
  assumes "mime_leaf P bytes lim h st = Return (Ok r)" and "mail_parser_ok P" "cursor_ok bytes st"
  shows "\<exists>st'. finish_mime bytes lim st' = Ok r \<and> ms_parts st' = ms_parts st \<and> ms_metadata_bytes st' = ms_metadata_bytes st"
proof -
  have "enter_message P lim h st \<noteq> Return (Ok r)"
    by (auto simp: enter_message_def split: result.split option.split)
  then have "unwind P bytes lim (rev (ms_boundaries st)) st = Return (Ok r)"
    using assms(1) by (auto simp: mime_leaf_def split: if_splits)
  from unwind_Return_Ok [OF this assms(2,3)] show ?thesis .
qed

lemma mime_round_Return_cases:
  assumes "mime_round P bytes lim st = Return (Ok r)"
  obtains (stop) st1 where "read_headers P bytes lim st = Some (Ok (st1, None))" "finish_mime bytes lim st1 = Ok r"
  | (leaf) st1 st2 h where "read_headers P bytes lim st = Some (Ok (st1, Some h))" "st2 = st1 \<or> charge_header lim st1 = Ok st2"
      "mime_leaf P bytes lim h st2 = Return (Ok r)"
proof (cases "\<exists>st1. read_headers P bytes lim st = Some (Ok (st1, None))")
  case True
  then show thesis using assms stop by (auto simp: mime_round_def)
next
  case False
  then obtain st1 h where rh: "read_headers P bytes lim st = Some (Ok (st1, Some h))"
    using assms unfolding mime_round_def by (auto split: option.splits result.splits)
  have multi: "enter_multipart P bytes lim v st1 \<noteq> Some (Return (Ok r))" for v
    by (auto simp: enter_multipart_def Let_def split: option.split prod.split bool.split result.split)
  show thesis
  proof (cases "mime_leaf P bytes lim h st1 = Return (Ok r)")
    case True
    then show thesis using leaf [OF rh] by blast
  next
    case not_leaf: False
    obtain v where "(case enter_multipart P bytes lim v st1 of Some following \<Rightarrow> following
        | None \<Rightarrow> (case charge_header lim st1 of Err e \<Rightarrow> Return (Err e) | Ok st2 \<Rightarrow> mime_leaf P bytes lim h st2)) = Return (Ok r)"
      using assms not_leaf by (cases "mp_content_type P h") (simp_all add: mime_round_def rh split: if_splits)
    with multi [of v] obtain st2 where "charge_header lim st1 = Ok st2" "mime_leaf P bytes lim h st2 = Return (Ok r)"
      by (auto split: result.splits option.splits)
    then show thesis using leaf [OF rh] by blast
  qed
qed

text \<open>What an accepted message is known to satisfy.\<close>

definition mime_admitted :: "byte_slice \<Rightarrow> mime_limits \<Rightarrow> mime_preflight \<Rightarrow> bool" where
  "mime_admitted bytes lim r \<longleftrightarrow>
     mi_parts r \<le> ml_max_parts lim \<and> mi_metadata_bytes r \<le> ml_max_metadata_bytes lim \<and>
     mi_metadata_bytes r \<le> length bytes \<and>
     mi_potential_derived_bytes r = length bytes * max (mi_parts r) 1 \<and>
     mi_potential_derived_bytes r \<le> ml_max_potential_derived_bytes lim"

lemma finish_admitted:
  assumes "finish_mime bytes lim st' = Ok r" "ms_parts st' = ms_parts st" "ms_metadata_bytes st' = ms_metadata_bytes st"
    and "mime_inv bytes lim st" "cursor_ok bytes st"
  shows "mime_admitted bytes lim r"
  using finish_mime_Ok [OF assms(1)] assms(2-5) by (auto simp: mime_admitted_def mime_inv_def cursor_ok_def)

lemma mime_round_admitted:
  assumes "mime_round P bytes lim st = Return (Ok r)" and P: "mail_parser_ok P" and inv: "mime_inv bytes lim st"
    and ok: "cursor_ok bytes st"
  shows "mime_admitted bytes lim r"
  using assms(1)
proof (cases rule: mime_round_Return_cases)
  case (stop st1)
  from finish_admitted [OF stop(2) refl refl read_headers_inv [OF stop(1) inv] read_headers_cursor(2) [OF P ok stop(1)]]
  show ?thesis .
next
  case (leaf st1 st2 h)
  have inv2: "mime_inv bytes lim st2" using leaf(2) charge_header_inv read_headers_inv [OF leaf(1) inv] by blast
  have ok2: "cursor_ok bytes st2" using leaf(2) charge_header_cursor read_headers_cursor(2) [OF P ok leaf(1)] by blast
  obtain st' where "finish_mime bytes lim st' = Ok r" "ms_parts st' = ms_parts st2" "ms_metadata_bytes st' = ms_metadata_bytes st2"
    using mime_leaf_Return_Ok [OF leaf(3) P ok2] by blast
  from finish_admitted [OF this inv2 ok2] show ?thesis .
qed

lemma mime_walk_admitted:
  assumes "mail_parser_ok P" and "mime_inv bytes lim st" and "cursor_ok bytes st"
  shows "\<exists>res. mime_walk P bytes lim st = Some res \<and> (\<forall>r. res = Ok r \<longrightarrow> mime_admitted bytes lim r)"
  using assms
proof (induction P bytes lim st rule: mime_walk.induct)
  case (1 P bytes lim st)
  show ?case
  proof (cases "mime_round P bytes lim st")
    case (Continue st')
    then have "\<exists>res. mime_walk P bytes lim st' = Some res \<and> (\<forall>r. res = Ok r \<longrightarrow> mime_admitted bytes lim r)"
      using 1(1) [OF Continue 1(2)] mime_round_inv [OF Continue 1(3)] mime_round_cursor(2) [OF 1(2,4) Continue] by blast
    with Continue show ?thesis by (subst mime_walk.simps) simp
  next
    case (Return res)
    then show ?thesis using mime_round_admitted [OF _ 1(2-4)] by (subst mime_walk.simps) simp
  next
    case Mime_Panic
    with mime_round_cursor(1) [OF 1(2,4)] show ?thesis by simp
  qed
qed

text \<open>
  C36. Admission of MIME messages. If the streams of the mail parser stay inside their slices, the preflight
  returns, without a panic, on all bytes; and what it accepts has at most the allowed parts and header bytes, no more
  header bytes than the message has, and a work allowance (the bytes times the parts, at least one) within the
  remaining budget.
\<close>

theorem preflight_mime_admits:
  assumes "mail_parser_ok P"
  shows "\<exists>res. preflight_mime P bytes lim = Some res \<and>
    (\<forall>r. res = Ok r \<longrightarrow>
       mi_parts r \<le> ml_max_parts lim \<and> mi_metadata_bytes r \<le> ml_max_metadata_bytes lim \<and>
       mi_metadata_bytes r \<le> length bytes \<and>
       mi_potential_derived_bytes r = length bytes * max (mi_parts r) 1 \<and>
       mi_potential_derived_bytes r \<le> ml_max_potential_derived_bytes lim)"
proof -
  have "cursor_ok bytes mime_init" by (simp add: cursor_ok_def mime_init_def)
  from mime_walk_admitted [OF assms mime_init_inv this, of lim] show ?thesis
    by (auto simp: preflight_mime_def mime_admitted_def)
qed

section \<open>A message\<close>

text \<open>A small mail parser: a header is one line; \<open>m\<close> is a multipart with boundary \<open>b\<close>, \<open>d\<close> a digest, \<open>r\<close> a nested message,
  and everything else has no content type. A delimiter is a \<open>b\<close>, which closes if an exclamation mark follows.\<close>

definition mail_demo :: "byte_slice mail_parser" where
  "mail_demo =
     \<lparr>mp_parse_headers = (\<lambda>s. let h = takeWhile (\<lambda>b. b \<noteq> 10) s in (h, min (length s) (length h + 1), s \<noteq> [])),
      mp_content_type = (\<lambda>h.
        if h = [109] then Some \<lparr>ct_ctype = mime_text ''multipart'', ct_subtype = None, ct_boundary = Some [98]\<rparr>
        else if h = [100] then Some \<lparr>ct_ctype = mime_text ''multipart'', ct_subtype = Some (mime_text ''digest''), ct_boundary = Some [98]\<rparr>
        else if h = [114] then Some \<lparr>ct_ctype = mime_text ''message'', ct_subtype = Some (mime_text ''rfc822''), ct_boundary = None\<rparr>
        else None),
      mp_transfer_encoding = (\<lambda>h. None),
      mp_seek_next_part = (\<lambda>b s. (98 \<in> set s, if 98 \<in> set s then length (takeWhile (\<lambda>c. c \<noteq> 98) s) + 1 else 0)),
      mp_skip_crlf = (\<lambda>s n. n),
      mp_is_multipart_end = (\<lambda>s n. if take 1 (drop n s) = [33] then (True, n + 1) else (False, n))\<rparr>"

lemma mail_demo_ok: "mail_parser_ok mail_demo"
proof -
  have "length (takeWhile (\<lambda>c. c \<noteq> 98) s) < length s" if "(98::nat) \<in> set s" for s
    using that by (induction s) auto
  then have seek: "length (takeWhile (\<lambda>c. c \<noteq> 98) s) + 1 \<le> length s" if "(98::nat) \<in> set s" for s
    using that by (simp add: Suc_le_eq)
  have "n + 1 \<le> length s" if "take 1 (drop n s) = [33::nat]" for n s
  proof (rule ccontr)
    assume "\<not> n + 1 \<le> length s"
    then have "drop n s = []" by simp
    with that show False by simp
  qed
  with seek show ?thesis by (auto simp: mail_parser_ok_def mail_demo_def Let_def)
qed

text \<open>A digest whose one part is a nested message.\<close>

definition mime_demo :: byte_slice where
  "mime_demo = [100, 10, 98, 10, 120, 10, 98, 33]"

definition mime_demo_limits :: mime_limits where
  "mime_demo_limits = \<lparr>ml_max_parts = 3, ml_max_message_depth = 1, ml_max_metadata_bytes = 9, ml_max_potential_derived_bytes = 99\<rparr>"

lemma mime_demo_round: "\<exists>st. mime_after mail_demo mime_demo mime_demo_limits 1 = Some st \<and> ms_parts st = 1"
  by (simp add: mime_round_def read_headers_def header_window_def enter_multipart_def charge_part_def mime_init_def mail_demo_def
      mime_demo_def mime_demo_limits_def mime_text_def saturating_sub_def saturating_add_def try_from_def checked_add_def
      USIZE_MAX_def U64_MAX_def U32_MAX_def Let_def)

theorem mime_walk_bounded_witness:
  "\<exists>st. mime_after mail_demo mime_demo mime_demo_limits 1 = Some st \<and> length (ms_boundaries st) \<le> 1"
proof -
  obtain st where st: "mime_after mail_demo mime_demo mime_demo_limits 1 = Some st" "ms_parts st = 1" using mime_demo_round by blast
  from mime_walk_bounded [OF st(1)] st show ?thesis by auto
qed

lemma mime_demo_accepted:
  "preflight_mime mail_demo mime_demo mime_demo_limits =
     Some (Ok \<lparr>mi_parts = 1, mi_metadata_bytes = 5, mi_potential_derived_bytes = 8\<rparr>)"
  by code_simp

theorem preflight_mime_admits_witness:
  "\<exists>r. preflight_mime mail_demo mime_demo mime_demo_limits = Some (Ok r) \<and> mi_metadata_bytes r \<le> 8"
proof -
  have "length mime_demo = 8" by (simp add: mime_demo_def)
  with preflight_mime_admits [OF mail_demo_ok, of mime_demo mime_demo_limits] mime_demo_accepted show ?thesis by auto
qed
end
