(* ===== verification/Exact_Token_Budget.thy ===== *)
theory Exact_Token_Budget
  imports Prelude "HOL-Library.Code_Target_Nat"
begin

text \<open>
  Exact KV-cell accounting of token batches,
  \<open>crates/native/crates/llama-native-types/src/exact_token_budget.rs\<close>.

  Of a request the accounting reads the cases, of a case its input, the token limit of its sampling
  configuration and its cached prefix, and of a cached prefix the token count and the token ids; these are the
  fields of the records below. What a chat or fill-in-the-middle input carries is the type parameter \<open>'x\<close>. Token
  ids are integers (the source's \<open>i32\<close>), counts are naturals with the widths of the source.
\<close>

section \<open>Requests\<close>

datatype 'x completion_prompt = Prompt_Text 'x | Prompt_Tokens "int list"

datatype 'x generation_input = Chat 'x | Completion "'x completion_prompt list" | Fill_In_Middle 'x

record sequence_state =
  ss_token_count :: nat
  ss_token_ids :: "int list"

record 'x generation_case =
  gc_input :: "'x generation_input"
  gc_max_tokens :: nat
  gc_cached_prefix :: "sequence_state option"

datatype token_budget_error =
    EmptyBatch
  | NonExactTokenCase nat
  | EmptyPrompt nat
  | NegativeTokenId nat
  | ZeroCompletionBudget nat
  | InvalidCachedPrefix nat
  | ArithmeticOverflow

record case_budget =
  cb_input_index :: nat
  cb_prompt_tokens :: nat
  cb_reused_prefix_tokens :: nat
  cb_cached_prefix_tokens :: nat
  cb_unshared_prompt_tokens :: nat
  cb_maximum_sampled_tokens :: nat
  cb_maximum_resident_completion_tokens :: nat
  cb_required_suffix_and_completion_cells :: nat

record batch_budget =
  bb_shared_uncached_prefix_tokens :: nat
  bb_cached_prefix_tokens :: nat
  bb_cases :: "case_budget list"
  bb_required_cells :: nat

definition bb_fits :: "batch_budget \<Rightarrow> nat \<Rightarrow> bool" where
  "bb_fits b available \<longleftrightarrow> bb_required_cells b \<le> available"

section \<open>The accounting\<close>

definition tb_usize_to_u64 :: "nat \<Rightarrow> (nat, token_budget_error) result" where
  "tb_usize_to_u64 n = ok_or ArithmeticOverflow (try_from U64_MAX n)"

definition tb_checked_add :: "nat \<Rightarrow> nat \<Rightarrow> (nat, token_budget_error) result" where
  "tb_checked_add a b = ok_or ArithmeticOverflow (checked_add U64_MAX a b)"

text \<open>The body of the first loop: the exact prompt of a case and the length of its cached prefix.\<close>

definition exact_case :: "nat \<Rightarrow> 'x generation_case \<Rightarrow> (int list \<times> nat option, token_budget_error) result" where
  "exact_case index c =
     res_bind (case gc_input c of
                 Completion [Prompt_Tokens token_ids] \<Rightarrow> Ok token_ids
               | _ \<Rightarrow> Err (NonExactTokenCase index)) (\<lambda>token_ids.
     if token_ids = [] then Err (EmptyPrompt index)
     else if list_ex (\<lambda>t. t < 0) token_ids then Err (NegativeTokenId index)
     else if gc_max_tokens c = 0 then Err (ZeroCompletionBudget index)
     else
       (case gc_cached_prefix c of
          None \<Rightarrow> Ok (token_ids, None)
        | Some cached \<Rightarrow>
            if 0 < ss_token_count cached \<and> ss_token_count cached = length (ss_token_ids cached) \<and>
               ss_token_count cached < length token_ids \<and>
               take (ss_token_count cached) token_ids = ss_token_ids cached
            then Ok (token_ids, Some (ss_token_count cached))
            else Err (InvalidCachedPrefix index)))"

fun exact_cases :: "nat \<Rightarrow> 'x generation_case list \<Rightarrow> ((int list \<times> nat option) list, token_budget_error) result" where
  "exact_cases index [] = Ok []"
| "exact_cases index (c # cs) =
     res_bind (exact_case index c) (\<lambda>p. res_bind (exact_cases (index + 1) cs) (\<lambda>ps. Ok (p # ps)))"

definition shared_uncached_prefix :: "(int list \<times> nat option) list \<Rightarrow> nat" where
  "shared_uncached_prefix ps =
     (case map fst (filter (\<lambda>(p, cached). cached = None) ps) of
        first # second # others \<Rightarrow>
          let minimum = foldl min (length first) (map length (second # others));
              common = length (takeWhile (\<lambda>position. list_all (\<lambda>p. p ! position = first ! position) (second # others))
                         [0 ..< minimum])
          in min common (saturating_sub minimum 1)
      | _ \<Rightarrow> 0)"

text \<open>The second loop: the cells of the cases from \<open>index\<close> on, given the cached tokens and the cells counted so
  far.\<close>

fun account_cases ::
  "nat \<Rightarrow> nat \<Rightarrow> (nat \<times> int list \<times> nat option) list \<Rightarrow> nat \<Rightarrow> nat \<Rightarrow> (case_budget list \<times> nat \<times> nat, token_budget_error) result" where
  "account_cases shared index [] cached required = Ok ([], cached, required)"
| "account_cases shared index ((max_tokens, prompt, cached_prefix) # cs) cached required =
     res_bind (tb_usize_to_u64 (length prompt)) (\<lambda>prompt_tokens.
     res_bind (tb_usize_to_u64 (case cached_prefix of None \<Rightarrow> 0 | Some n \<Rightarrow> n)) (\<lambda>cached_for_case.
     res_bind (tb_checked_add cached cached_for_case) (\<lambda>cached.
     res_bind (if cached_prefix \<noteq> None then Ok cached_for_case else tb_usize_to_u64 shared) (\<lambda>reused.
     res_bind (ok_or ArithmeticOverflow (checked_sub prompt_tokens reused)) (\<lambda>unshared.
     res_bind (ok_or ArithmeticOverflow (checked_sub max_tokens 1)) (\<lambda>resident.
     res_bind (tb_checked_add unshared resident) (\<lambda>own.
     res_bind (tb_checked_add required own) (\<lambda>required.
     res_bind (account_cases shared (index + 1) cs cached required) (\<lambda>(budgets, cached, required).
       Ok (\<lparr>cb_input_index = index, cb_prompt_tokens = prompt_tokens, cb_reused_prefix_tokens = reused,
            cb_cached_prefix_tokens = cached_for_case, cb_unshared_prompt_tokens = unshared,
            cb_maximum_sampled_tokens = max_tokens, cb_maximum_resident_completion_tokens = resident,
            cb_required_suffix_and_completion_cells = own\<rparr> # budgets, cached, required))))))))))"

definition exact_token_batch_cell_budget :: "'x generation_case list \<Rightarrow> (batch_budget, token_budget_error) result" where
  "exact_token_batch_cell_budget cs =
     (if cs = [] then Err EmptyBatch
      else
        res_bind (exact_cases 0 cs) (\<lambda>ps.
        let shared = shared_uncached_prefix ps in
        res_bind (tb_usize_to_u64 shared) (\<lambda>shared_u64.
        res_bind (account_cases shared 0 (zip (map gc_max_tokens cs) ps) 0 shared_u64) (\<lambda>(budgets, cached, required).
        res_bind (tb_checked_add required cached) (\<lambda>required.
          Ok \<lparr>bb_shared_uncached_prefix_tokens = shared_u64, bb_cached_prefix_tokens = cached, bb_cases = budgets,
              bb_required_cells = required\<rparr>)))))"

section \<open>The shared prefix\<close>

definition uncached_prompts :: "(int list \<times> nat option) list \<Rightarrow> int list list" where
  "uncached_prompts ps = map fst (filter (\<lambda>(p, cached). cached = None) ps)"

lemma foldl_min_le: "foldl min (n :: nat) ns \<le> n \<and> (\<forall>m \<in> set ns. foldl min n ns \<le> m)"
proof (induction ns arbitrary: n)
  case (Cons m ns)
  have "foldl min n (m # ns) \<le> min n m" using Cons [of "min n m"] by simp
  then show ?case using Cons [of "min n m"] by auto
qed simp

lemma foldl_min_in: "foldl min (n :: nat) ns \<in> insert n (set ns)"
proof (induction ns arbitrary: n)
  case (Cons m ns)
  show ?case using Cons [of "min n m"] by (auto simp: min_def split: if_splits)
qed simp

lemma takeWhile_upt_prefix:
  "length (takeWhile P [0 ..< n]) = k \<Longrightarrow> k \<le> n \<and> (\<forall>i < k. P i) \<and> (k < n \<longrightarrow> \<not> P k)"
proof -
  assume k: "length (takeWhile P [0 ..< n]) = k"
  have le: "k \<le> n" using length_takeWhile_le [of P "[0 ..< n]"] k by simp
  have "P i" if "i < k" for i
    using nth_mem [of i "takeWhile P [0 ..< n]"] takeWhile_nth [of i P "[0 ..< n]"] that k le
      set_takeWhileD [of "takeWhile P [0 ..< n] ! i" P "[0 ..< n]"] by simp
  moreover have "\<not> P k" if "k < n"
    using nth_length_takeWhile [of P "[0 ..< n]"] k that by simp
  ultimately show ?thesis using le by blast
qed

text \<open>The shared prefix is common to all uncached prompts, leaves each of them a last token of its own, and
  cannot be longer.\<close>

lemma shared_prefix_of_many:
  assumes ps: "uncached_prompts ps = first # second # others" and ne: "\<forall>p \<in> set (uncached_prompts ps). p \<noteq> []"
  defines "n \<equiv> shared_uncached_prefix ps"
  shows "(\<forall>p \<in> set (uncached_prompts ps). n < length p \<and> take n p = take n first) \<and>
    ((\<exists>p \<in> set (uncached_prompts ps). length p = n + 1) \<or> (\<exists>p \<in> set (uncached_prompts ps). p ! n \<noteq> first ! n))"
proof -
  define qs where "qs = second # others"
  define m where "m = foldl min (length first) (map length qs)"
  define k where "k = length (takeWhile (\<lambda>i. list_all (\<lambda>p. p ! i = first ! i) qs) [0 ..< m])"
  have n: "n = min k (m - 1)"
    using ps by (simp add: n_def shared_uncached_prefix_def uncached_prompts_def m_def k_def qs_def Let_def saturating_sub_def)
  have set: "set (uncached_prompts ps) = insert first (set qs)" by (simp add: ps qs_def)
  have m: "\<forall>p \<in> set (uncached_prompts ps). m \<le> length p" "\<exists>p \<in> set (uncached_prompts ps). length p = m"
    using foldl_min_le [of "length first" "map length qs"] foldl_min_in [of "length first" "map length qs"]
    by (auto simp: m_def set)
  have pos: "0 < m" using m (2) ne by auto
  note k = takeWhile_upt_prefix [OF k_def [symmetric]]
  have common: "p ! i = first ! i" if "p \<in> set (uncached_prompts ps)" "i < k" for p i
    using k that by (auto simp: set list_all_iff)
  have pre: "n < length p \<and> take n p = take n first" if p: "p \<in> set (uncached_prompts ps)" for p
  proof -
    have "n < m" using n pos by simp
    moreover have "m \<le> length p" "m \<le> length first" using m (1) p set by blast+
    ultimately have "n < length p" "n < length first" by simp_all
    then show ?thesis using common [OF p] n by (auto intro!: nth_equalityI)
  qed
  show ?thesis
  proof (cases "k < m - 1")
    case True
    then have "k < m" by simp
    then have "\<not> list_all (\<lambda>p. p ! k = first ! k) qs" using k by blast
    then obtain p where "p \<in> set qs" "p ! k \<noteq> first ! k" by (auto simp: list_all_iff)
    moreover have "n = k" using n True by simp
    ultimately have "\<exists>p \<in> set (uncached_prompts ps). p ! n \<noteq> first ! n" using set by blast
    then show ?thesis using pre by blast
  next
    case False
    then have "n + 1 = m" using n pos by simp
    then show ?thesis using pre m (2) by metis
  qed
qed

section \<open>The cells a batch occupies\<close>

text \<open>The reference: the cells of a batch. A position of the shared prefix is one cell for all uncached
  sequences; every other position of a prompt, a cached one too, and every completion token that is decoded
  is a cell of its own sequence. The last sampled token is not decoded.\<close>

datatype kv_cell = Shared_Cell nat | Sequence_Cell nat nat

definition case_cells :: "nat \<Rightarrow> nat \<Rightarrow> nat \<times> int list \<times> nat option \<Rightarrow> kv_cell set" where
  "case_cells shared i c =
     (case c of (max_tokens, prompt, cached) \<Rightarrow>
        (\<lambda>p. if cached = None \<and> p < shared then Shared_Cell p else Sequence_Cell i p) `
          {..< length prompt + (max_tokens - 1)})"

definition batch_cells :: "nat \<Rightarrow> (nat \<times> int list \<times> nat option) list \<Rightarrow> kv_cell set" where
  "batch_cells shared cs = (\<Union>i < length cs. case_cells shared i (cs ! i))"

text \<open>The length of the part of a prompt that is not shared.\<close>

definition own_from :: "nat \<Rightarrow> nat \<times> int list \<times> nat option \<Rightarrow> nat" where
  "own_from shared c = (case c of (max_tokens, prompt, cached) \<Rightarrow> if cached = None then shared else 0)"

definition own_cells :: "nat \<Rightarrow> nat \<times> int list \<times> nat option \<Rightarrow> nat" where
  "own_cells shared c = (case c of (max_tokens, prompt, cached) \<Rightarrow> length prompt + (max_tokens - 1) - own_from shared c)"

definition case_ok :: "nat \<Rightarrow> nat \<times> int list \<times> nat option \<Rightarrow> bool" where
  "case_ok shared c =
     (case c of (max_tokens, prompt, cached) \<Rightarrow> 0 < max_tokens \<and>
        (case cached of None \<Rightarrow> shared \<le> length prompt | Some n \<Rightarrow> n \<le> length prompt))"

lemma case_cells_split:
  "case_ok shared c \<Longrightarrow> case_cells shared i c =
     Shared_Cell ` {..< own_from shared c} \<union> Sequence_Cell i ` {own_from shared c ..< own_from shared c + own_cells shared c}"
  by (cases c) (auto simp: case_ok_def case_cells_def own_from_def own_cells_def split: if_splits option.splits)

lemma batch_cells_card:
  assumes ok: "list_all (case_ok shared) cs" and used: "shared = 0 \<or> (\<exists>c \<in> set cs. own_from shared c = shared)"
  shows "card (batch_cells shared cs) = shared + sum_list (map (own_cells shared) cs)"
proof -
  let ?own = "\<lambda>i. Sequence_Cell i ` {own_from shared (cs ! i) ..< own_from shared (cs ! i) + own_cells shared (cs ! i)}"
  have le: "own_from shared c \<le> shared" for c by (cases c) (simp add: own_from_def)
  have cells: "case_cells shared i (cs ! i) = Shared_Cell ` {..< own_from shared (cs ! i)} \<union> ?own i" if "i < length cs" for i
    using case_cells_split ok that by (simp add: list_all_length)
  have "(\<Union>i < length cs. {..< own_from shared (cs ! i)}) = {..< shared}"
  proof
    show "(\<Union>i < length cs. {..< own_from shared (cs ! i)}) \<subseteq> {..< shared}" by (meson UN_least lessThan_subset_iff le)
    show "{..< shared} \<subseteq> (\<Union>i < length cs. {..< own_from shared (cs ! i)})"
      using used by (force simp: in_set_conv_nth)
  qed
  moreover have "batch_cells shared cs = (\<Union>i < length cs. Shared_Cell ` {..< own_from shared (cs ! i)} \<union> ?own i)"
    unfolding batch_cells_def by (rule SUP_cong) (simp_all add: cells)
  ultimately have "batch_cells shared cs = Shared_Cell ` {..< shared} \<union> (\<Union>i < length cs. ?own i)"
    by (simp only: UN_Un_distrib image_UN [symmetric])
  moreover have "card (\<Union>i < length cs. ?own i) = (\<Sum>i < length cs. card (?own i))"
    by (intro card_UN_disjoint) auto
  moreover have "card (?own i) = own_cells shared (cs ! i)" for i
    by (subst card_image) (auto intro: inj_onI)
  moreover have "card (Shared_Cell ` {..< shared}) = shared" by (subst card_image) (auto intro: inj_onI)
  moreover have "(\<Sum>i < length cs. own_cells shared (cs ! i)) = sum_list (map (own_cells shared) cs)"
    by (simp add: sum_list_sum_nth atLeast0LessThan)
  moreover have "card (Shared_Cell ` {..< shared} \<union> (\<Union>i < length cs. ?own i)) =
      card (Shared_Cell ` {..< shared}) + card (\<Union>i < length cs. ?own i)"
    by (rule card_Un_disjoint) auto
  ultimately show ?thesis by simp
qed

section \<open>The accounting counts the cells\<close>

definition cached_count :: "nat \<times> int list \<times> nat option \<Rightarrow> nat" where
  "cached_count c = (case c of (max_tokens, prompt, cached) \<Rightarrow> case cached of None \<Rightarrow> 0 | Some n \<Rightarrow> n)"

lemma tb_Ok [result_simps]:
  "tb_usize_to_u64 n = Ok m \<longleftrightarrow> m = n \<and> n \<le> U64_MAX" "tb_checked_add a b = Ok c \<longleftrightarrow> c = a + b \<and> a + b \<le> U64_MAX"
  by (auto simp: tb_usize_to_u64_def tb_checked_add_def result_simps)

lemma tb_Err [result_simps]:
  "tb_usize_to_u64 n = Err e \<longleftrightarrow> e = ArithmeticOverflow \<and> U64_MAX < n"
  "tb_checked_add a b = Err e \<longleftrightarrow> e = ArithmeticOverflow \<and> U64_MAX < a + b"
  by (auto simp: tb_usize_to_u64_def tb_checked_add_def result_simps try_from_def checked_add_def)

definition case_budget_of :: "nat \<Rightarrow> nat \<Rightarrow> nat \<times> int list \<times> nat option \<Rightarrow> case_budget" where
  "case_budget_of shared index c =
     (case c of (max_tokens, prompt, cached) \<Rightarrow>
        let reused = (case cached of None \<Rightarrow> shared | Some n \<Rightarrow> n) in
        \<lparr>cb_input_index = index, cb_prompt_tokens = length prompt, cb_reused_prefix_tokens = reused,
         cb_cached_prefix_tokens = cached_count c, cb_unshared_prompt_tokens = length prompt - reused,
         cb_maximum_sampled_tokens = max_tokens, cb_maximum_resident_completion_tokens = max_tokens - 1,
         cb_required_suffix_and_completion_cells = length prompt - reused + (max_tokens - 1)\<rparr>)"

lemma own_cells_split:
  "case_ok shared c \<Longrightarrow>
   own_cells shared c = cb_required_suffix_and_completion_cells (case_budget_of shared i c) + cached_count c"
  by (cases c) (auto simp: case_ok_def own_cells_def own_from_def case_budget_of_def cached_count_def split: option.splits)

abbreviation suffix_cells :: "nat \<Rightarrow> nat \<times> int list \<times> nat option \<Rightarrow> nat" where
  "suffix_cells shared c \<equiv> cb_required_suffix_and_completion_cells (case_budget_of shared 0 c)"

abbreviation prompt_length :: "nat \<times> int list \<times> nat option \<Rightarrow> nat" where
  "prompt_length c \<equiv> length (fst (snd c))"

fun case_budgets :: "nat \<Rightarrow> nat \<Rightarrow> (nat \<times> int list \<times> nat option) list \<Rightarrow> case_budget list" where
  "case_budgets shared index [] = []"
| "case_budgets shared index (c # cs) = case_budget_of shared index c # case_budgets shared (index + 1) cs"

lemma account_case:
  assumes "case_ok shared c" "shared \<le> U64_MAX"
  shows "account_cases shared index (c # cs) cached required =
    (if prompt_length c \<le> U64_MAX \<and> cached + cached_count c \<le> U64_MAX \<and> required + suffix_cells shared c \<le> U64_MAX
     then res_bind (account_cases shared (index + 1) cs (cached + cached_count c) (required + suffix_cells shared c))
            (\<lambda>(bs, ca, re). Ok (case_budget_of shared index c # bs, ca, re))
     else Err ArithmeticOverflow)"
proof -
  obtain mt prompt cp where c: "c = (mt, prompt, cp)" using prod_cases3 .
  show ?thesis
    using assms
    by (cases cp) (auto simp: c case_ok_def case_budget_of_def cached_count_def tb_usize_to_u64_def tb_checked_add_def
        arith_defs Let_def case_prod_beta)
qed

lemma account_cases_eq:
  assumes "shared \<le> U64_MAX"
  shows "list_all (case_ok shared) cs \<Longrightarrow> cached \<le> U64_MAX \<Longrightarrow> required \<le> U64_MAX \<Longrightarrow>
    account_cases shared index cs cached required =
      (if list_all (\<lambda>c. prompt_length c \<le> U64_MAX) cs \<and> cached + sum_list (map cached_count cs) \<le> U64_MAX \<and>
          required + sum_list (map (suffix_cells shared) cs) \<le> U64_MAX
       then Ok (case_budgets shared index cs, cached + sum_list (map cached_count cs),
              required + sum_list (map (suffix_cells shared) cs))
       else Err ArithmeticOverflow)"
proof (induction cs arbitrary: index cached required)
  case (Cons c cs)
  have c: "case_ok shared c" and cs: "list_all (case_ok shared) cs" using Cons (2) by simp_all
  show ?case
  proof (cases "cached + cached_count c \<le> U64_MAX \<and> required + suffix_cells shared c \<le> U64_MAX")
    case True
    then show ?thesis using account_case [OF c assms, of index cs] Cons.IH [OF cs, of "cached + cached_count c" "required + suffix_cells shared c"]
      by (simp add: add.assoc)
  next
    case False
    then show ?thesis using account_case [OF c assms, of index cs cached required] by auto
  qed
qed simp

lemma exact_cases_Ok:
  "exact_cases k cs = Ok ps \<longleftrightarrow> length ps = length cs \<and> (\<forall>i < length cs. exact_case (k + i) (cs ! i) = Ok (ps ! i))"
proof (induction cs arbitrary: k ps)
  case (Cons c cs)
  show ?case
    by (cases ps) (auto simp: result_simps Cons All_less_Suc2)
qed auto

lemma exact_cases_Err:
  "exact_cases k cs = Err e \<longleftrightarrow>
     (\<exists>i < length cs. exact_case (k + i) (cs ! i) = Err e \<and> (\<forall>j < i. is_ok (exact_case (k + j) (cs ! j))))"
proof (induction cs arbitrary: k)
  case (Cons c cs)
  show ?case
  proof (cases "exact_case k c")
    case (Ok x)
    then show ?thesis using Cons [of "Suc k"] by (simp add: result_simps Ex_less_Suc2 All_less_Suc2)
  next
    case (Err e')
    then show ?thesis by (simp add: Ex_less_Suc2 All_less_Suc2)
  qed
qed simp

lemma exact_case_Ok:
  "exact_case i c = Ok (p, cached) \<Longrightarrow> p \<noteq> [] \<and> 0 < gc_max_tokens c \<and> (\<forall>n. cached = Some n \<longrightarrow> 0 < n \<and> n < length p)"
  by (auto simp: exact_case_def result_simps split: if_splits option.splits)

lemma shared_prefix_usable:
  assumes ne: "\<forall>(p, c) \<in> set ps. p \<noteq> []"
  shows "(\<forall>(p, c) \<in> set ps. c = None \<longrightarrow> shared_uncached_prefix ps \<le> length p) \<and>
    (shared_uncached_prefix ps = 0 \<or> (\<exists>(p, c) \<in> set ps. c = None))"
proof -
  consider "uncached_prompts ps = []" | q where "uncached_prompts ps = [q]" | q r rs where "uncached_prompts ps = q # r # rs"
    by (metis remdups_adj.cases)
  then show ?thesis
  proof cases
    case (3 q r rs)
    have in_un: "p \<in> set (uncached_prompts ps) \<longleftrightarrow> (p, None) \<in> set ps" for p
      by (force simp: uncached_prompts_def)
    have "\<forall>p \<in> set (uncached_prompts ps). p \<noteq> []" using ne in_un by fastforce
    note shared = shared_prefix_of_many [OF 3 this]
    have "(q, None) \<in> set ps" using 3 in_un [of q] by simp
    moreover have "shared_uncached_prefix ps \<le> length p" if "(p, None) \<in> set ps" for p
      using shared in_un that by (meson less_imp_le)
    ultimately show ?thesis by fastforce
  qed (simp_all add: shared_uncached_prefix_def uncached_prompts_def)
qed

text \<open>The cases of a request with their token limits, once all of them are exact.\<close>

definition entries_of :: "'x generation_case list \<Rightarrow> (int list \<times> nat option) list \<Rightarrow> (nat \<times> int list \<times> nat option) list" where
  "entries_of cs ps = zip (map gc_max_tokens cs) ps"

lemma entries_ok:
  assumes "exact_cases 0 cs = Ok ps"
  defines "n \<equiv> shared_uncached_prefix ps"
  shows "list_all (case_ok n) (entries_of cs ps)"
    and "n = 0 \<or> (\<exists>c \<in> set (entries_of cs ps). own_from n c = n)"
proof -
  have len: "length ps = length cs" and ex: "exact_case i (cs ! i) = Ok (ps ! i)" if "i < length cs" for i
    using assms (1) that by (simp_all add: exact_cases_Ok)
  have len': "length ps = length cs" using assms (1) by (simp add: exact_cases_Ok)
  have ok: "fst (ps ! i) \<noteq> [] \<and> 0 < gc_max_tokens (cs ! i) \<and> (\<forall>n. snd (ps ! i) = Some n \<longrightarrow> n < length (fst (ps ! i)))"
    if "i < length cs" for i
    using exact_case_Ok [of i "cs ! i" "fst (ps ! i)" "snd (ps ! i)"] ex [OF that] by simp
  have "\<forall>(p, c) \<in> set ps. p \<noteq> []" using ok len' by (fastforce simp: in_set_conv_nth)
  note usable = shared_prefix_usable [OF this, folded n_def]
  have nth: "entries_of cs ps ! i = (gc_max_tokens (cs ! i), ps ! i)" if "i < length cs" for i
    using that len' by (simp add: entries_of_def)
  have lene: "length (entries_of cs ps) = length cs" using len' by (simp add: entries_of_def)
  show "list_all (case_ok n) (entries_of cs ps)"
    unfolding list_all_length lene
  proof (intro allI impI)
    fix i assume i: "i < length cs"
    obtain p c where pc: "ps ! i = (p, c)" by fastforce
    then have "(p, c) \<in> set ps" using i len' by (metis nth_mem)
    then show "case_ok n (entries_of cs ps ! i)"
      using ok [OF i] usable by (auto simp: nth [OF i] pc case_ok_def split: option.splits)
  qed
  show "n = 0 \<or> (\<exists>c \<in> set (entries_of cs ps). own_from n c = n)"
  proof (cases "n = 0")
    case False
    then obtain p where "(p, None) \<in> set ps" using usable by blast
    then obtain i where i: "i < length cs" "ps ! i = (p, None)" using len' by (auto simp: in_set_conv_nth)
    then have "own_from n (entries_of cs ps ! i) = n" by (simp add: nth own_from_def)
    then show ?thesis using i (1) lene by (metis nth_mem)
  qed simp
qed

lemma total_split:
  "list_all (case_ok n) cs \<Longrightarrow>
   sum_list (map (own_cells n) cs) = sum_list (map (suffix_cells n) cs) + sum_list (map cached_count cs)"
  by (induction cs) (simp_all add: own_cells_split [of _ _ 0])

lemma prompt_length_bound:
  assumes "list_all (case_ok n) cs" "n + sum_list (map (own_cells n) cs) \<le> m"
  shows "list_all (\<lambda>c. prompt_length c \<le> m) cs"
proof -
  have "prompt_length c \<le> n + own_cells n c" if "case_ok n c" for c
    using that by (cases c) (auto simp: case_ok_def own_cells_def own_from_def)
  moreover have "own_cells n c \<le> sum_list (map (own_cells n) cs)" if "c \<in> set cs" for c
    using that by (simp add: member_le_sum_list)
  ultimately show ?thesis using assms by (fastforce simp: list_all_iff)
qed

text \<open>Once every case is exact, the accounting fails only if the number of cells does not fit 64 bits.\<close>

lemma budget_value:
  assumes "cs \<noteq> []" and ps: "exact_cases 0 cs = Ok ps"
  defines "n \<equiv> shared_uncached_prefix ps" and "es \<equiv> entries_of cs ps"
  shows "exact_token_batch_cell_budget cs =
    (if card (batch_cells n es) \<le> U64_MAX
     then Ok \<lparr>bb_shared_uncached_prefix_tokens = n, bb_cached_prefix_tokens = sum_list (map cached_count es),
              bb_cases = case_budgets n 0 es, bb_required_cells = card (batch_cells n es)\<rparr>
     else Err ArithmeticOverflow)"
proof -
  have ok: "list_all (case_ok n) es" and used: "n = 0 \<or> (\<exists>c \<in> set es. own_from n c = n)"
    using entries_ok [OF ps] by (simp_all add: n_def es_def)
  let ?s = "sum_list (map (suffix_cells n) es)" and ?c = "sum_list (map cached_count es)"
  have card: "card (batch_cells n es) = n + ?s + ?c"
    using batch_cells_card [OF ok used] total_split [OF ok] by simp
  have len: "list_all (\<lambda>c. prompt_length c \<le> U64_MAX) es" if "card (batch_cells n es) \<le> U64_MAX"
    using prompt_length_bound [OF ok] that batch_cells_card [OF ok used] by simp
  show ?thesis
  proof (cases "n \<le> U64_MAX")
    case True
    have "account_cases n 0 es 0 n =
      (if list_all (\<lambda>c. prompt_length c \<le> U64_MAX) es \<and> ?c \<le> U64_MAX \<and> n + ?s \<le> U64_MAX
       then Ok (case_budgets n 0 es, ?c, n + ?s) else Err ArithmeticOverflow)"
      using account_cases_eq [OF True ok, of 0 n 0] True by simp
    then show ?thesis
      using assms (1) ps True len card
      by (auto simp: exact_token_batch_cell_budget_def tb_usize_to_u64_def tb_checked_add_def arith_defs Let_def
          n_def [symmetric] es_def [symmetric] entries_of_def [symmetric])
  next
    case False
    then show ?thesis
      using assms (1) ps card
      by (auto simp: exact_token_batch_cell_budget_def tb_usize_to_u64_def arith_defs Let_def n_def [symmetric])
  qed
qed

text \<open>
  C20. The batch accounting is exact. On success \<open>required_cells\<close> is the number of distinct KV cells the batch
  occupies: one per position of the shared prefix, and one per other prompt position and per decoded completion
  token of each sequence, cached prefixes counted per sequence. The prefix that is shared is a common prefix of
  all uncached prompts, leaves each of them a last token of its own, and no longer prefix has both properties;
  with fewer than two uncached prompts nothing is shared. The report of each case adds up.
\<close>

theorem token_budget_counts_cells:
  assumes "exact_token_batch_cell_budget cs = Ok b"
  shows "\<exists>ps. exact_cases 0 cs = Ok ps \<and>
    bb_required_cells b = card (batch_cells (bb_shared_uncached_prefix_tokens b) (entries_of cs ps)) \<and>
    bb_required_cells b \<le> U64_MAX \<and>
    bb_cases b = case_budgets (bb_shared_uncached_prefix_tokens b) 0 (entries_of cs ps) \<and>
    bb_required_cells b = bb_shared_uncached_prefix_tokens b + bb_cached_prefix_tokens b +
      sum_list (map cb_required_suffix_and_completion_cells (bb_cases b)) \<and>
    (length (uncached_prompts ps) \<le> 1 \<longrightarrow> bb_shared_uncached_prefix_tokens b = 0) \<and>
    (2 \<le> length (uncached_prompts ps) \<longrightarrow>
      (\<forall>p \<in> set (uncached_prompts ps). bb_shared_uncached_prefix_tokens b < length p \<and>
         take (bb_shared_uncached_prefix_tokens b) p = take (bb_shared_uncached_prefix_tokens b) (hd (uncached_prompts ps))) \<and>
      ((\<exists>p \<in> set (uncached_prompts ps). length p = bb_shared_uncached_prefix_tokens b + 1) \<or>
       (\<exists>p \<in> set (uncached_prompts ps). p ! bb_shared_uncached_prefix_tokens b \<noteq>
          hd (uncached_prompts ps) ! bb_shared_uncached_prefix_tokens b)))"
proof -
  obtain ps where ps: "exact_cases 0 cs = Ok ps" and ne: "cs \<noteq> []"
    using assms by (auto simp: exact_token_batch_cell_budget_def result_simps split: if_splits)
  let ?n = "shared_uncached_prefix ps" and ?es = "entries_of cs ps"
  have ok: "list_all (case_ok ?n) ?es" and used: "?n = 0 \<or> (\<exists>c \<in> set ?es. own_from ?n c = ?n)"
    by (rule entries_ok [OF ps])+
  have b: "card (batch_cells ?n ?es) \<le> U64_MAX" "b = \<lparr>bb_shared_uncached_prefix_tokens = ?n,
      bb_cached_prefix_tokens = sum_list (map cached_count ?es),
      bb_cases = case_budgets ?n 0 ?es, bb_required_cells = card (batch_cells ?n ?es)\<rparr>"
    using budget_value [OF ne ps] assms by (simp_all split: if_splits)
  have suffix: "sum_list (map cb_required_suffix_and_completion_cells (case_budgets n i es)) =
      sum_list (map (suffix_cells n) es)" for n i es
    by (induction es arbitrary: i) (simp_all add: case_budget_of_def case_prod_beta Let_def)
  have sum: "card (batch_cells ?n ?es) = ?n + sum_list (map cached_count ?es) + sum_list (map (suffix_cells ?n) ?es)"
    using batch_cells_card [OF ok used] total_split [OF ok] by simp
  have few: "?n = 0" if "length (uncached_prompts ps) \<le> 1"
    using that by (auto simp: shared_uncached_prefix_def uncached_prompts_def split: list.splits)
  have many: "(\<forall>p \<in> set (uncached_prompts ps). ?n < length p \<and> take ?n p = take ?n (hd (uncached_prompts ps))) \<and>
      ((\<exists>p \<in> set (uncached_prompts ps). length p = ?n + 1) \<or>
       (\<exists>p \<in> set (uncached_prompts ps). p ! ?n \<noteq> hd (uncached_prompts ps) ! ?n))"
    if two: "2 \<le> length (uncached_prompts ps)"
  proof -
    obtain q r rs where q: "uncached_prompts ps = q # r # rs" using two by (metis Suc_le_length_iff numeral_2_eq_2)
    have "\<forall>p \<in> set (uncached_prompts ps). p \<noteq> []"
      using ps exact_case_Ok by (fastforce simp: uncached_prompts_def exact_cases_Ok in_set_conv_nth)
    from shared_prefix_of_many [OF q this] show ?thesis by (simp add: q)
  qed
  show ?thesis
    by (intro exI [of _ ps] conjI) (use ps b sum suffix few many in simp_all)
qed

definition sample_batch :: "unit generation_case list" where
  "sample_batch =
     [\<lparr>gc_input = Completion [Prompt_Tokens [1, 2, 3]], gc_max_tokens = 5, gc_cached_prefix = None\<rparr>,
      \<lparr>gc_input = Completion [Prompt_Tokens [1, 2, 4, 8]], gc_max_tokens = 2, gc_cached_prefix = None\<rparr>,
      \<lparr>gc_input = Completion [Prompt_Tokens [1, 9]], gc_max_tokens = 1,
       gc_cached_prefix = Some \<lparr>ss_token_count = 1, ss_token_ids = [1]\<rparr>\<rparr>]"

definition sample_prompts :: "(int list \<times> nat option) list" where
  "sample_prompts = [([1, 2, 3], None), ([1, 2, 4, 8], None), ([1, 9], Some 1)]"

lemma sample_budget:
  "\<exists>b. exact_token_batch_cell_budget sample_batch = Ok b \<and> bb_required_cells b = 12 \<and> bb_shared_uncached_prefix_tokens b = 2"
proof -
  have "(case exact_token_batch_cell_budget sample_batch of
      Ok b \<Rightarrow> bb_required_cells b = 12 \<and> bb_shared_uncached_prefix_tokens b = 2 | Err e \<Rightarrow> False)" by code_simp
  then show ?thesis by (auto split: result.splits)
qed

theorem token_budget_counts_cells_witness:
  "card (batch_cells 2 (entries_of sample_batch sample_prompts)) = 12"
proof -
  obtain b where b: "exact_token_batch_cell_budget sample_batch = Ok b" "bb_required_cells b = 12"
      "bb_shared_uncached_prefix_tokens b = 2" using sample_budget by blast
  have "exact_cases 0 sample_batch = Ok sample_prompts" by code_simp
  then show ?thesis using token_budget_counts_cells [OF b (1)] b by auto
qed

lemma cached_prefix_iff:
  "0 < ss_token_count s \<and> ss_token_count s = length (ss_token_ids s) \<and> ss_token_count s < length ids \<and>
     take (ss_token_count s) ids = ss_token_ids s \<longleftrightarrow>
   ss_token_ids s \<noteq> [] \<and> ss_token_count s = length (ss_token_ids s) \<and> (\<exists>rest. rest \<noteq> [] \<and> ids = ss_token_ids s @ rest)"
proof
  assume l: "0 < ss_token_count s \<and> ss_token_count s = length (ss_token_ids s) \<and> ss_token_count s < length ids \<and>
     take (ss_token_count s) ids = ss_token_ids s"
  then have "ids = ss_token_ids s @ drop (ss_token_count s) ids" "drop (ss_token_count s) ids \<noteq> []"
    by (metis append_take_drop_id) (use l in simp)
  then have "\<exists>rest. rest \<noteq> [] \<and> ids = ss_token_ids s @ rest" by blast
  with l show "ss_token_ids s \<noteq> [] \<and> ss_token_count s = length (ss_token_ids s) \<and>
      (\<exists>rest. rest \<noteq> [] \<and> ids = ss_token_ids s @ rest)" by auto
qed auto

lemma exact_case_ok_iff:
  "is_ok (exact_case i c) \<longleftrightarrow>
    (\<exists>ids. gc_input c = Completion [Prompt_Tokens ids] \<and> ids \<noteq> [] \<and> (\<forall>t \<in> set ids. 0 \<le> t) \<and> 0 < gc_max_tokens c \<and>
      (\<forall>s. gc_cached_prefix c = Some s \<longrightarrow> ss_token_ids s \<noteq> [] \<and> ss_token_count s = length (ss_token_ids s) \<and>
         (\<exists>rest. rest \<noteq> [] \<and> ids = ss_token_ids s @ rest)))"
proof (cases "\<exists>ids. gc_input c = Completion [Prompt_Tokens ids]")
  case True
  then obtain ids where "gc_input c = Completion [Prompt_Tokens ids]" by blast
  moreover have "list_ex (\<lambda>t. t < 0) ids \<longleftrightarrow> \<not> (\<forall>t \<in> set ids. 0 \<le> t)"
    by (auto simp: list_ex_iff not_le)
  ultimately show ?thesis
    unfolding exact_case_def cached_prefix_iff by (cases "gc_cached_prefix c") simp_all
next
  case False
  then have "exact_case i c = Err (NonExactTokenCase i)"
    by (auto simp: exact_case_def split: generation_input.splits list.splits completion_prompt.splits)
  then show ?thesis using False by auto
qed

text \<open>
  The batch accounting refuses exactly what it must, with the error of the first problem: an empty batch;
  else the first case, in order, that is not one non-empty prompt of non-negative token ids with a positive token
  limit and a cached prefix that is a proper prefix of it; else a cell count above 64 bits. In every other
  batch it succeeds.
\<close>

theorem token_budget_errors:
  "(exact_token_batch_cell_budget cs = Err e \<longleftrightarrow>
      cs = [] \<and> e = EmptyBatch \<or>
      (\<exists>i < length cs. exact_case i (cs ! i) = Err e \<and> (\<forall>j < i. is_ok (exact_case j (cs ! j)))) \<or>
      (\<exists>ps. cs \<noteq> [] \<and> exact_cases 0 cs = Ok ps \<and> e = ArithmeticOverflow \<and>
         U64_MAX < card (batch_cells (shared_uncached_prefix ps) (entries_of cs ps)))) \<and>
   (is_ok (exact_case i c) \<longleftrightarrow>
      (\<exists>ids. gc_input c = Completion [Prompt_Tokens ids] \<and> ids \<noteq> [] \<and> (\<forall>t \<in> set ids. 0 \<le> t) \<and> 0 < gc_max_tokens c \<and>
        (\<forall>s. gc_cached_prefix c = Some s \<longrightarrow> ss_token_ids s \<noteq> [] \<and> ss_token_count s = length (ss_token_ids s) \<and>
           (\<exists>rest. rest \<noteq> [] \<and> ids = ss_token_ids s @ rest))))"
proof (intro conjI)
  show "exact_token_batch_cell_budget cs = Err e \<longleftrightarrow>
      cs = [] \<and> e = EmptyBatch \<or>
      (\<exists>i < length cs. exact_case i (cs ! i) = Err e \<and> (\<forall>j < i. is_ok (exact_case j (cs ! j)))) \<or>
      (\<exists>ps. cs \<noteq> [] \<and> exact_cases 0 cs = Ok ps \<and> e = ArithmeticOverflow \<and>
         U64_MAX < card (batch_cells (shared_uncached_prefix ps) (entries_of cs ps)))"
  proof (cases "cs = []")
    case True
    then show ?thesis by (auto simp: exact_token_batch_cell_budget_def)
  next
    case False
    show ?thesis
    proof (cases "exact_cases 0 cs")
      case (Err e')
      then show ?thesis using False exact_cases_Err [of 0 cs e] by (auto simp: exact_token_batch_cell_budget_def)
    next
      case (Ok ps)
      then show ?thesis using False budget_value [OF False Ok] exact_cases_Err [of 0 cs e] by (auto split: if_splits)
    qed
  qed
qed (rule exact_case_ok_iff)

theorem token_budget_errors_witness:
  "exact_token_batch_cell_budget (sample_batch @ [\<lparr>gc_input = Chat (), gc_max_tokens = 1, gc_cached_prefix = None\<rparr>]) =
     Err (NonExactTokenCase 3)"
proof -
  let ?cs = "sample_batch @ [\<lparr>gc_input = Chat (), gc_max_tokens = 1, gc_cached_prefix = None\<rparr>]"
  have "3 < length ?cs \<and> exact_case 3 (?cs ! 3) = Err (NonExactTokenCase 3)" by code_simp
  moreover have "\<forall>j < 3. is_ok (exact_case j (?cs ! j))" by code_simp
  ultimately show ?thesis using token_budget_errors [of ?cs "NonExactTokenCase 3"] by blast
qed

end
