(* ===== verification/Cache_Fingerprint.thy ===== *)
theory Cache_Fingerprint
  imports Byte_Reader
begin

text \<open>
  The identity of a prefix-cache configuration: \<open>CacheFingerprint\<close> of
  \<open>crates/native/crates/llama-native-cache/src/lib.rs\<close> and its canonical encoding in \<open>fingerprint.rs\<close>.

  A string is the list of its UTF-8 bytes. The encoding is the byte stream fed to the hasher; the digest function of
  the \<open>sha2\<close> crate and the hexadecimal formatting of its output are arguments. The theorem shows that the framing is
  unambiguous, so that two different fingerprints share an identifier only through a collision of the digest.
\<close>

section \<open>Data\<close>

datatype prompt_form = Chat | Completion | FillInMiddle

datatype prompt_token_policy =
    ChatTemplate
  | NoBosParseSpecial
  | AddBosParseSpecial
  | ExactTokenIds
  | FillInMiddleModelTokens

record cache_fingerprint =
  fp_prompt_form :: prompt_form
  fp_prompt_token_policy :: prompt_token_policy
  fp_model_sha256 :: byte_slice
  fp_binding_version :: byte_slice
  fp_build_id :: byte_slice
  fp_tokenizer_sha256 :: byte_slice
  fp_chat_template_sha256 :: byte_slice
  fp_multimodal_projector_sha256 :: "byte_slice option"
  fp_lora_adapters_sha256 :: "byte_slice list"
  fp_context_tokens :: nat
  fp_batch_tokens :: nat
  fp_max_sequences :: nat
  fp_device :: byte_slice
  fp_rope_config_sha256 :: byte_slice
  fp_kv_layout_sha256 :: byte_slice

section \<open>The encoding\<close>

text \<open>\<open>to_le_bytes\<close> of an unsigned integer of \<open>w\<close> bytes.\<close>

fun to_le_bytes :: "nat \<Rightarrow> nat \<Rightarrow> byte_slice" where
  "to_le_bytes 0 n = []"
| "to_le_bytes (Suc w) n = n mod 256 # to_le_bytes w (n div 256)"

definition frame :: "byte_slice \<Rightarrow> byte_slice" where
  "frame value = to_le_bytes 8 (length value) @ value"

text \<open>\<open>b"llama-native.cache-fingerprint.v2\0"\<close>\<close>

definition FINGERPRINT_DOMAIN :: byte_slice where
  "FINGERPRINT_DOMAIN = map of_char ''llama-native.cache-fingerprint.v2'' @ [0]"

definition prompt_form_tag :: "prompt_form \<Rightarrow> nat" where
  "prompt_form_tag f = (case f of Chat \<Rightarrow> 0 | Completion \<Rightarrow> 1 | FillInMiddle \<Rightarrow> 2)"

definition token_policy_tag :: "prompt_token_policy \<Rightarrow> nat" where
  "token_policy_tag p =
     (case p of ChatTemplate \<Rightarrow> 0 | NoBosParseSpecial \<Rightarrow> 1 | AddBosParseSpecial \<Rightarrow> 2 | ExactTokenIds \<Rightarrow> 3
      | FillInMiddleModelTokens \<Rightarrow> 4)"

definition projector_encoding :: "byte_slice option \<Rightarrow> byte_slice" where
  "projector_encoding projector = (case projector of None \<Rightarrow> [0] | Some p \<Rightarrow> [1] @ frame p)"

definition adapters_encoding :: "byte_slice list \<Rightarrow> byte_slice" where
  "adapters_encoding adapters = to_le_bytes 8 (length adapters) @ concat (map frame adapters)"

definition fingerprint_encoding :: "cache_fingerprint \<Rightarrow> byte_slice" where
  "fingerprint_encoding f =
     FINGERPRINT_DOMAIN @
     [prompt_form_tag (fp_prompt_form f)] @
     [token_policy_tag (fp_prompt_token_policy f)] @
     concat (map frame [fp_model_sha256 f, fp_binding_version f, fp_build_id f, fp_tokenizer_sha256 f, fp_chat_template_sha256 f]) @
     projector_encoding (fp_multimodal_projector_sha256 f) @
     adapters_encoding (fp_lora_adapters_sha256 f) @
     to_le_bytes 4 (fp_context_tokens f) @
     to_le_bytes 4 (fp_batch_tokens f) @
     to_le_bytes 4 (fp_max_sequences f) @
     concat (map frame [fp_device f, fp_rope_config_sha256 f, fp_kv_layout_sha256 f])"

definition stable_id :: "(byte_slice \<Rightarrow> byte_slice) \<Rightarrow> (byte_slice \<Rightarrow> byte_slice) \<Rightarrow> cache_fingerprint \<Rightarrow> byte_slice" where
  "stable_id sha256 lower_hex f = lower_hex (sha256 (fingerprint_encoding f))"

text \<open>What the types of the fields guarantee.\<close>

definition fingerprint_ok :: "cache_fingerprint \<Rightarrow> bool" where
  "fingerprint_ok f \<longleftrightarrow>
     list_all (\<lambda>s. length s \<le> USIZE_MAX)
       ([fp_model_sha256 f, fp_binding_version f, fp_build_id f, fp_tokenizer_sha256 f, fp_chat_template_sha256 f,
         fp_device f, fp_rope_config_sha256 f, fp_kv_layout_sha256 f] @ fp_lora_adapters_sha256 f) \<and>
     (case fp_multimodal_projector_sha256 f of None \<Rightarrow> True | Some p \<Rightarrow> length p \<le> USIZE_MAX) \<and>
     length (fp_lora_adapters_sha256 f) \<le> USIZE_MAX \<and>
     fp_context_tokens f \<le> U32_MAX \<and> fp_batch_tokens f \<le> U32_MAX \<and> fp_max_sequences f \<le> U32_MAX"

section \<open>Unambiguous framing\<close>

lemma length_to_le_bytes [simp]: "length (to_le_bytes w n) = w"
  by (induction w arbitrary: n) simp_all

lemma from_to_le_bytes: "from_le_bytes (to_le_bytes w n) = n mod 256 ^ w"
proof (induction w arbitrary: n)
  case (Suc w)
  have "n mod 256 ^ Suc w = n mod 256 + 256 * (n div 256 mod 256 ^ w)" by (simp add: mod_mult2_eq mult.commute)
  then show ?case using Suc by simp
qed simp

lemma to_le_bytes_inject: "n < 256 ^ w \<Longrightarrow> m < 256 ^ w \<Longrightarrow> to_le_bytes w n = to_le_bytes w m \<longleftrightarrow> n = m"
  by (metis from_to_le_bytes mod_less)

text \<open>An encoder is prefix free on \<open>S\<close> when what follows an encoding does not matter to reading it back.\<close>

definition prefix_free :: "('a \<Rightarrow> byte_slice) \<Rightarrow> 'a set \<Rightarrow> bool" where
  "prefix_free enc S \<longleftrightarrow> (\<forall>x \<in> S. \<forall>y \<in> S. \<forall>r q. enc x @ r = enc y @ q \<longleftrightarrow> x = y \<and> r = q)"

lemma prefix_free_le: "256 ^ w = Suc m \<Longrightarrow> prefix_free (to_le_bytes w) {..m}"
  unfolding prefix_free_def by (metis append_eq_append_conv atMost_iff le_imp_less_Suc length_to_le_bytes to_le_bytes_inject)

lemma prefix_free_frame: "prefix_free frame {s. length s \<le> USIZE_MAX}"
proof -
  have le: "prefix_free (to_le_bytes 8) {..USIZE_MAX}" by (rule prefix_free_le) (simp add: USIZE_MAX_def U64_MAX_def)
  have "frame x @ r = frame y @ q \<longleftrightarrow> x = y \<and> r = q" if "length x \<le> USIZE_MAX" "length y \<le> USIZE_MAX" for x y r q
    using le that unfolding prefix_free_def frame_def append_assoc by (metis append_eq_append_conv atMost_iff)
  then show ?thesis by (simp add: prefix_free_def)
qed

lemma prefix_free_concat:
  assumes "prefix_free enc S"
  shows "set xs \<subseteq> S \<Longrightarrow> set ys \<subseteq> S \<Longrightarrow> length xs = length ys \<Longrightarrow>
    concat (map enc xs) @ r = concat (map enc ys) @ q \<longleftrightarrow> xs = ys \<and> r = q"
proof (induction xs arbitrary: ys)
  case (Cons x xs)
  then obtain y ys' where "ys = y # ys'" by (cases ys) auto
  then show ?case using Cons assms by (auto simp: prefix_free_def)
qed simp

lemma prefix_free_adapters: "prefix_free adapters_encoding {xs. length xs \<le> USIZE_MAX \<and> list_all (\<lambda>s. length s \<le> USIZE_MAX) xs}"
proof -
  have le: "prefix_free (to_le_bytes 8) {..USIZE_MAX}" by (rule prefix_free_le) (simp add: USIZE_MAX_def U64_MAX_def)
  have "adapters_encoding xs @ r = adapters_encoding ys @ q \<longleftrightarrow> xs = ys \<and> r = q"
    if "length xs \<le> USIZE_MAX" "length ys \<le> USIZE_MAX" "list_all (\<lambda>s. length s \<le> USIZE_MAX) xs" "list_all (\<lambda>s. length s \<le> USIZE_MAX) ys" for xs ys r q
  proof -
    have "adapters_encoding xs @ r = adapters_encoding ys @ q \<longleftrightarrow>
        length xs = length ys \<and> concat (map frame xs) @ r = concat (map frame ys) @ q"
      using le that (1,2) by (simp add: adapters_encoding_def prefix_free_def)
    also have "\<dots> \<longleftrightarrow> xs = ys \<and> r = q"
      using prefix_free_concat [OF prefix_free_frame, of xs ys r q] that (3,4) by (auto simp: list_all_iff)
    finally show ?thesis .
  qed
  then show ?thesis by (simp add: prefix_free_def)
qed

lemma prefix_free_projector: "prefix_free projector_encoding {p. case p of None \<Rightarrow> True | Some s \<Rightarrow> length s \<le> USIZE_MAX}"
  using prefix_free_frame by (auto simp: prefix_free_def projector_encoding_def split: option.splits)

lemma tags_inject:
  "prompt_form_tag a = prompt_form_tag b \<longleftrightarrow> a = b" "token_policy_tag p = token_policy_tag q \<longleftrightarrow> p = q"
  by (cases a; cases b; simp add: prompt_form_tag_def) (cases p; cases q; simp add: token_policy_tag_def)

lemma fingerprint_encoding_inject:
  assumes a: "fingerprint_ok a" and b: "fingerprint_ok b"
  shows "fingerprint_encoding a = fingerprint_encoding b \<longleftrightarrow> a = b"
proof -
  have frame: "frame x @ r = frame y @ q \<longleftrightarrow> x = y \<and> r = q" if "length x \<le> USIZE_MAX" "length y \<le> USIZE_MAX" for x y r q
    using prefix_free_frame that by (simp add: prefix_free_def)
  have last: "frame x = frame y \<longleftrightarrow> x = y" if "length x \<le> USIZE_MAX" "length y \<le> USIZE_MAX" for x y
    using frame [OF that, of "[]" "[]"] by simp
  have u32: "to_le_bytes 4 x = to_le_bytes 4 y \<longleftrightarrow> x = y" if "x \<le> U32_MAX" "y \<le> U32_MAX" for x y
    using to_le_bytes_inject [of x 4 y] that by (simp add: U32_MAX_def)
  have projector: "projector_encoding (fp_multimodal_projector_sha256 a) @ r = projector_encoding (fp_multimodal_projector_sha256 b) @ q \<longleftrightarrow>
      fp_multimodal_projector_sha256 a = fp_multimodal_projector_sha256 b \<and> r = q" for r q
    using prefix_free_projector a b by (simp add: prefix_free_def fingerprint_ok_def)
  have adapters: "adapters_encoding (fp_lora_adapters_sha256 a) @ r = adapters_encoding (fp_lora_adapters_sha256 b) @ q \<longleftrightarrow>
      fp_lora_adapters_sha256 a = fp_lora_adapters_sha256 b \<and> r = q" for r q
    using prefix_free_adapters a b by (simp add: prefix_free_def fingerprint_ok_def)
  have lens: "length (fp_model_sha256 f) \<le> USIZE_MAX" "length (fp_binding_version f) \<le> USIZE_MAX" "length (fp_build_id f) \<le> USIZE_MAX"
      "length (fp_tokenizer_sha256 f) \<le> USIZE_MAX" "length (fp_chat_template_sha256 f) \<le> USIZE_MAX" "length (fp_device f) \<le> USIZE_MAX"
      "length (fp_rope_config_sha256 f) \<le> USIZE_MAX" "length (fp_kv_layout_sha256 f) \<le> USIZE_MAX"
      "fp_context_tokens f \<le> U32_MAX" "fp_batch_tokens f \<le> U32_MAX" "fp_max_sequences f \<le> U32_MAX" if "fingerprint_ok f" for f
    using that by (simp_all add: fingerprint_ok_def)
  show ?thesis
    unfolding fingerprint_encoding_def
    by (simp add: frame last u32 projector adapters lens [OF a] lens [OF b] tags_inject)
       (auto intro: cache_fingerprint.equality)
qed

section \<open>Properties\<close>

text \<open>C25. The canonical encoding of a fingerprint is unambiguous: different fingerprints have different encodings,
  whatever their strings contain. So two fingerprints with the same identifier are equal, or the digest function
  collides on their two different encodings.\<close>

theorem fingerprint_identity:
  assumes "fingerprint_ok a" "fingerprint_ok b" "inj lower_hex"
  shows "(fingerprint_encoding a = fingerprint_encoding b \<longleftrightarrow> a = b) \<and>
    (stable_id sha256 lower_hex a = stable_id sha256 lower_hex b \<longrightarrow>
       a = b \<or> (fingerprint_encoding a \<noteq> fingerprint_encoding b \<and> sha256 (fingerprint_encoding a) = sha256 (fingerprint_encoding b)))"
  using fingerprint_encoding_inject [OF assms (1,2)] assms (3) by (auto simp: stable_id_def inj_eq)

theorem fingerprint_identity_witness:
  "\<exists>a b. a \<noteq> b \<and> fp_device a @ fp_rope_config_sha256 a = fp_device b @ fp_rope_config_sha256 b \<and>
     fingerprint_encoding a \<noteq> fingerprint_encoding b"
proof -
  let ?f = "\<lambda>device rope. \<lparr>fp_prompt_form = Chat, fp_prompt_token_policy = ChatTemplate, fp_model_sha256 = [109], fp_binding_version = [],
     fp_build_id = [], fp_tokenizer_sha256 = [], fp_chat_template_sha256 = [], fp_multimodal_projector_sha256 = None,
     fp_lora_adapters_sha256 = [], fp_context_tokens = 8192, fp_batch_tokens = 512, fp_max_sequences = 4,
     fp_device = device, fp_rope_config_sha256 = rope, fp_kv_layout_sha256 = []\<rparr>"
  let ?a = "?f [99] [114, 111]" and ?b = "?f [99, 114] [111]"
  have ok: "fingerprint_ok ?a" "fingerprint_ok ?b" by (simp_all add: fingerprint_ok_def USIZE_MAX_def U64_MAX_def U32_MAX_def)
  have "fingerprint_encoding ?a \<noteq> fingerprint_encoding ?b"
    using fingerprint_identity [OF ok inj_on_id, of id] by simp
  then show ?thesis by (intro exI [of _ ?a] exI [of _ ?b]) simp
qed

end
