(* ===== verification/Iterators.thy ===== *)
theory Iterators
  imports Prelude "HOL-Library.Product_Lexorder" "HOL-Library.List_Lexorder"
begin

text \<open>
  The parts of \<open>std::cmp\<close> and \<open>std::iter\<close> that several components use: \<open>Ordering\<close> with \<open>then_with\<close>, \<open>Ord::cmp\<close>
  of a linear order, and \<open>Iterator::max_by\<close>.
\<close>

datatype ordering = Less | Equal | Greater

definition cmp :: "'a :: linorder \<Rightarrow> 'a \<Rightarrow> ordering" where
  "cmp a b = (if a < b then Less else if a = b then Equal else Greater)"

definition then_with :: "ordering \<Rightarrow> ordering \<Rightarrow> ordering" where
  "then_with o1 o2 = (case o1 of Equal \<Rightarrow> o2 | _ \<Rightarrow> o1)"

text \<open>\<open>Iterator::max_by\<close> keeps the later of two elements unless the earlier compares greater.\<close>

fun max_by_from :: "('a \<Rightarrow> 'a \<Rightarrow> ordering) \<Rightarrow> 'a \<Rightarrow> 'a list \<Rightarrow> 'a" where
  "max_by_from compare best [] = best"
| "max_by_from compare best (x # xs) = max_by_from compare (if compare best x = Greater then best else x) xs"

definition max_by :: "('a \<Rightarrow> 'a \<Rightarrow> ordering) \<Rightarrow> 'a list \<Rightarrow> 'a option" where
  "max_by compare xs = (case xs of [] \<Rightarrow> None | x # rest \<Rightarrow> Some (max_by_from compare x rest))"

lemma then_with_cmp: "then_with (cmp a b) (cmp c d) = cmp (a, c) (b, d)"
  by (auto simp: then_with_def cmp_def less_prod_def)

lemma max_by_map: "map_option f (max_by (\<lambda>l r. compare (f l) (f r)) xs) = max_by compare (map f xs)"
proof -
  have "f (max_by_from (\<lambda>l r. compare (f l) (f r)) b ys) = max_by_from compare (f b) (map f ys)" for b ys
    by (induction ys arbitrary: b) simp_all
  then show ?thesis by (cases xs) (simp_all add: max_by_def)
qed

lemma max_by_None_iff: "max_by compare xs = None \<longleftrightarrow> xs = []"
  by (simp add: max_by_def split: list.split)

lemma max_by_in: "max_by compare xs = Some x \<Longrightarrow> x \<in> set xs"
proof -
  have "max_by_from compare b ys \<in> insert b (set ys)" for b ys
    by (induction ys arbitrary: b) (simp, fastforce)
  then show "max_by compare xs = Some x \<Longrightarrow> x \<in> set xs" by (fastforce simp: max_by_def split: list.splits)
qed

lemma max_by_greatest:
  assumes "max_by (\<lambda>a b. cmp (key a) (key b)) xs = Some x"
  shows "x \<in> set xs \<and> (\<forall>y \<in> set xs. key y \<le> key x)"
proof -
  have "key b \<le> key (max_by_from (\<lambda>a b. cmp (key a) (key b)) b ys) \<and>
      (\<forall>y \<in> set ys. key y \<le> key (max_by_from (\<lambda>a b. cmp (key a) (key b)) b ys))" for b ys
  proof (induction ys arbitrary: b)
    case (Cons y ys)
    let ?b = "if cmp (key b) (key y) = Greater then b else y"
    have "key b \<le> key ?b" "key y \<le> key ?b" by (auto simp: cmp_def)
    then show ?case using Cons [of ?b] by fastforce
  qed simp
  then show ?thesis using max_by_in [OF assms] assms by (fastforce simp: max_by_def split: list.splits)
qed

end
