(* ===== verification/Lru_Spec.thy ===== *)
theory Lru_Spec
  imports Prelude
begin

text \<open>
  The specification of a least-recently-used store with a budget: its entries as a list of keys and values, the least
  recently used first. The locale states what an implementation promises of its three operations through a relation
  between its states and such lists, and derives what a client may rely on.
\<close>

definition total_charge :: "('e \<Rightarrow> nat) \<Rightarrow> ('k \<times> 'e) list \<Rightarrow> nat" where
  "total_charge charge l = sum_list (map (\<lambda>x. charge (snd x)) l)"

definition without :: "'k \<Rightarrow> ('k \<times> 'e) list \<Rightarrow> ('k \<times> 'e) list" where
  "without k l = filter (\<lambda>x. fst x \<noteq> k) l"

fun drop_until_fits :: "('e \<Rightarrow> nat) \<Rightarrow> nat \<Rightarrow> ('k \<times> 'e) list \<Rightarrow> ('k \<times> 'e) list" where
  "drop_until_fits charge limit [] = []"
| "drop_until_fits charge limit (x # l) =
     (if limit < total_charge charge (x # l) then drop_until_fits charge limit l else x # l)"

definition lru_put :: "('e \<Rightarrow> nat) \<Rightarrow> nat \<Rightarrow> 'k \<Rightarrow> 'e \<Rightarrow> ('k \<times> 'e) list \<Rightarrow> ('k \<times> 'e) list" where
  "lru_put charge capacity k e l = drop_until_fits charge (capacity - charge e) (without k l) @ [(k, e)]"

definition lru_evicted :: "('e \<Rightarrow> nat) \<Rightarrow> nat \<Rightarrow> 'k \<Rightarrow> 'e \<Rightarrow> ('k \<times> 'e) list \<Rightarrow> 'k list" where
  "lru_evicted charge capacity k e l =
     map fst (take (length (without k l) - length (drop_until_fits charge (capacity - charge e) (without k l))) (without k l))"

definition lru_touch :: "'k \<Rightarrow> ('e \<Rightarrow> 'e) \<Rightarrow> ('k \<times> 'e) list \<Rightarrow> ('k \<times> 'e) list" where
  "lru_touch k f l = (case map_of l k of None \<Rightarrow> l | Some e \<Rightarrow> without k l @ [(k, f e)])"

section \<open>Lemmas on the lists\<close>

lemma total_charge_simps [simp]:
  "total_charge charge [] = 0" "total_charge charge (x # l) = charge (snd x) + total_charge charge l"
  "total_charge charge (l @ m) = total_charge charge l + total_charge charge m"
  by (simp_all add: total_charge_def)

lemma without_simps [simp]:
  "without k [] = []" "without k (x # l) = (if fst x = k then without k l else x # without k l)"
  by (simp_all add: without_def)

lemma set_without [simp]: "set (without k l) = {x \<in> set l. fst x \<noteq> k}"
  by (auto simp: without_def)

lemma without_absent: "k \<notin> fst ` set l \<Longrightarrow> without k l = l"
  by (auto simp: without_def intro: filter_True)

lemma map_fst_without: "map fst (without k l) = filter (\<lambda>c. c \<noteq> k) (map fst l)"
  by (induction l) auto

lemma distinct_without: "distinct (map fst l) \<Longrightarrow> distinct (map fst (without k l))"
  by (simp add: map_fst_without)

lemma map_of_without: "map_of (without k l) = (map_of l)(k := None)"
  by (induction l) auto

lemma total_charge_without:
  "distinct (map fst l) \<Longrightarrow> map_of l k = Some e \<Longrightarrow> total_charge charge l = charge e + total_charge charge (without k l)"
proof (induction l)
  case (Cons x l)
  then show ?case by (cases "fst x = k") (auto simp: without_absent)
qed simp

lemma drop_until_fits_suffix: "\<exists>d. l = d @ drop_until_fits charge limit l"
proof (induction l)
  case (Cons x l)
  then obtain d where "l = d @ drop_until_fits charge limit l" by blast
  then have "x # l = (x # d) @ drop_until_fits charge limit l" by simp
  then show ?case by (metis append_Nil drop_until_fits.simps (2))
qed simp

lemma drop_until_fits_bound: "total_charge charge (drop_until_fits charge limit l) \<le> limit"
  by (induction l) auto

text \<open>Nothing is dropped beyond what has to be: the last dropped entry would not have fitted.\<close>

lemma drop_until_fits_least:
  "l = d @ x # drop_until_fits charge limit l \<Longrightarrow> limit < total_charge charge (x # drop_until_fits charge limit l)"
proof (induction l arbitrary: d)
  case (Cons y l)
  show ?case
  proof (cases "limit < total_charge charge (y # l)")
    case True
    then have d: "y # l = d @ x # drop_until_fits charge limit l" using Cons.prems by simp
    show ?thesis
    proof (cases d)
      case Nil
      then show ?thesis using d True by (metis append_Nil drop_until_fits.simps (2) list.inject)
    next
      case (Cons z d')
      then show ?thesis using Cons.IH [of d'] d True by simp
    qed
  next
    case False
    then show ?thesis using Cons.prems by simp
  qed
qed simp

lemma distinct_drop_until_fits: "distinct (map fst l) \<Longrightarrow> distinct (map fst (drop_until_fits charge limit l))"
  using drop_until_fits_suffix [of l charge limit] by (metis distinct_append map_append)

lemma set_drop_until_fits: "set (drop_until_fits charge limit l) \<subseteq> set l"
  using drop_until_fits_suffix [of l charge limit] by (metis Un_upper2 set_append)

section \<open>The contract\<close>

locale lru_store =
  fixes represents :: "'s \<Rightarrow> ('k \<times> 'e) list \<Rightarrow> bool"
    and capacity :: "'s \<Rightarrow> nat"
    and charge :: "'e \<Rightarrow> nat"
    and key_of :: "'v \<Rightarrow> 'k"
    and entry_of :: "'v \<Rightarrow> 'e"
    and admissible :: "'v \<Rightarrow> bool"
    and put :: "'v \<Rightarrow> 's \<Rightarrow> ('s \<times> 'k list) option"
    and touched :: "nat \<Rightarrow> 'e \<Rightarrow> 'e"
    and touch :: "'k \<Rightarrow> nat \<Rightarrow> 's \<Rightarrow> 's"
    and discard :: "'k \<Rightarrow> 's \<Rightarrow> 's option"
  assumes budget: "represents s l \<Longrightarrow> total_charge charge l \<le> capacity s"
    and keys: "represents s l \<Longrightarrow> distinct (map fst l)"
    and put_refines: "represents s l \<Longrightarrow> admissible v \<Longrightarrow> charge (entry_of v) \<le> capacity s \<Longrightarrow>
      \<exists>s'. put v s = Some (s', lru_evicted charge (capacity s) (key_of v) (entry_of v) l) \<and> capacity s' = capacity s \<and>
        represents s' (lru_put charge (capacity s) (key_of v) (entry_of v) l)"
    and touch_refines: "represents s l \<Longrightarrow>
      capacity (touch k now s) = capacity s \<and> represents (touch k now s) (lru_touch k (touched now) l)"
    and discard_refines: "represents s l \<Longrightarrow>
      \<exists>s'. discard k s = Some s' \<and> capacity s' = capacity s \<and> represents s' (without k l)"
begin

text \<open>What was put is there, under its key, as the most recent entry.\<close>

lemma put_found:
  assumes "represents s l" "admissible v" "charge (entry_of v) \<le> capacity s"
  shows "\<exists>s' evicted l'. put v s = Some (s', evicted) \<and> represents s' l' \<and> last l' = (key_of v, entry_of v) \<and>
    map_of l' (key_of v) = Some (entry_of v)"
proof -
  let ?kept = "drop_until_fits charge (capacity s - charge (entry_of v)) (without (key_of v) l)"
  have "key_of v \<notin> fst ` set ?kept"
    using set_drop_until_fits [of charge "capacity s - charge (entry_of v)" "without (key_of v) l"] by auto
  then have "map_of ?kept (key_of v) = None" by (simp add: map_of_eq_None_iff)
  moreover obtain s' where "put v s = Some (s', lru_evicted charge (capacity s) (key_of v) (entry_of v) l)"
      "represents s' (?kept @ [(key_of v, entry_of v)])" using put_refines [OF assms] by (auto simp: lru_put_def)
  ultimately show ?thesis by (intro exI [of _ s'] exI conjI) (auto simp: map_add_def)
qed

text \<open>A put keeps the other entries in order, drops only from the least recently used end, and only what is needed.\<close>

lemma put_evicts_least:
  assumes "represents s l" "admissible v" "charge (entry_of v) \<le> capacity s"
  shows "\<exists>s' dropped kept. put v s = Some (s', map fst dropped) \<and> represents s' (kept @ [(key_of v, entry_of v)]) \<and>
    without (key_of v) l = dropped @ kept \<and>
    (dropped \<noteq> [] \<longrightarrow> capacity s < charge (snd (last dropped)) + total_charge charge kept + charge (entry_of v))"
proof -
  let ?l = "without (key_of v) l" and ?limit = "capacity s - charge (entry_of v)"
  let ?kept = "drop_until_fits charge ?limit ?l"
  obtain d where d: "?l = d @ ?kept" using drop_until_fits_suffix [of ?l charge ?limit] by blast
  have "?limit < charge (snd (last d)) + total_charge charge ?kept" if "d \<noteq> []"
  proof -
    have "?l = butlast d @ last d # ?kept" using d that by (metis append.assoc append_Cons append_Nil append_butlast_last_id)
    then show ?thesis using drop_until_fits_least [of ?l "butlast d" "last d" charge ?limit] by simp
  qed
  moreover have "lru_evicted charge (capacity s) (key_of v) (entry_of v) l = map fst d"
    using d unfolding lru_evicted_def by (metis append_eq_conv_conj diff_add_inverse2 length_append)
  ultimately show ?thesis
    using put_refines [OF assms] d assms (3) unfolding lru_put_def by fastforce
qed

end

end
