(* ===== verification/Prefix_Cache.thy ===== *)
theory Prefix_Cache
  imports Cache_Fingerprint Iterators Lru_Spec
begin

text \<open>
  The prefix cache, \<open>crates/native/crates/llama-native-cache/src/lib.rs\<close>, with the sequence snapshots of
  \<open>llama-native-types\<close> that it keeps: validity of entries, selection of the longest compatible prefix, and the
  in-memory tier, a least-recently-used cache with a budget in bytes.

  A hash map is a partial map. The order in which a hash map is iterated is not specified, so it is an argument
  \<open>keys\<close>: \<open>keys m\<close> are the keys of \<open>m\<close> in that order. What an allocation's capacity is, is an argument too
  (\<open>allocation\<close>), as are the sizes of the three types whose layout Rust does not fix (\<open>layout\<close>). An operation that
  panics, by \<open>expect\<close> or by arithmetic, gives \<open>None\<close>. Of the proof of authenticated storage in a snapshot only the
  copies that its size counts are kept.
\<close>

section \<open>Sequence snapshots\<close>

datatype sequence_cell =
    Text_Cell int
  | Media_Cell byte_slice nat nat
  | Audio_Frame_Cell byte_slice

record sequence_blob =
  sb_sequence_id :: int
  sb_token_count :: nat
  sb_bytes :: byte_slice
  sb_token_ids :: "int list"
  sb_cells :: "sequence_cell list"
  sb_storage_proof :: "(int list \<times> sequence_cell list) option"

record sequence_reconstruction =
  rc_sequence_id :: int
  rc_header :: byte_slice
  rc_token_replay_allowed :: bool

definition SEQUENCE_STATE_HEADER_BYTES :: nat where "SEQUENCE_STATE_HEADER_BYTES = 48"

definition blob_reconstruction :: "sequence_blob \<Rightarrow> sequence_reconstruction" where
  "blob_reconstruction self =
     \<lparr>rc_sequence_id = sb_sequence_id self,
      rc_header = take (min (length (sb_bytes self)) SEQUENCE_STATE_HEADER_BYTES) (sb_bytes self),
      rc_token_replay_allowed = (sb_cells self = [])\<rparr>"

definition reconstruction_sequence :: "sequence_reconstruction \<Rightarrow> int list \<Rightarrow> sequence_blob option" where
  "reconstruction_sequence self token_ids =
     (if \<not> rc_token_replay_allowed self \<or> rc_header self = [] \<or> SEQUENCE_STATE_HEADER_BYTES < length (rc_header self) then None
      else Some \<lparr>sb_sequence_id = rc_sequence_id self, sb_token_count = length token_ids, sb_bytes = rc_header self,
             sb_token_ids = token_ids, sb_cells = [], sb_storage_proof = None\<rparr>)"

section \<open>Entries\<close>

datatype cache_tier = MemoryLru | SessionPersistent | PersonaPack

definition lookup_priority :: "cache_tier \<Rightarrow> nat" where
  "lookup_priority t = (case t of MemoryLru \<Rightarrow> 3 | PersonaPack \<Rightarrow> 2 | SessionPersistent \<Rightarrow> 1)"

datatype cache_entry_state = Ready | Invalidated

record cache_metadata =
  cm_id :: byte_slice
  cm_tier :: cache_tier
  cm_owner_id :: "byte_slice option"
  cm_label :: byte_slice
  cm_fingerprint :: cache_fingerprint
  cm_token_ids :: "int list"
  cm_state_bytes :: nat
  cm_created_at_ms :: nat
  cm_last_used_at_ms :: nat
  cm_state :: cache_entry_state
  cm_reconstruction :: "sequence_reconstruction option"
  cm_cells :: "sequence_cell list"

record cache_value =
  cv_metadata :: cache_metadata
  cv_sequence :: sequence_blob

definition metadata_new ::
  "byte_slice \<Rightarrow> cache_tier \<Rightarrow> cache_fingerprint \<Rightarrow> int list \<Rightarrow> nat \<Rightarrow> nat \<Rightarrow> cache_metadata" where
  "metadata_new i tier fingerprint token_ids state_bytes now_ms =
     \<lparr>cm_id = i, cm_tier = tier, cm_owner_id = None, cm_label = i, cm_fingerprint = fingerprint, cm_token_ids = token_ids,
      cm_state_bytes = state_bytes, cm_created_at_ms = now_ms, cm_last_used_at_ms = now_ms, cm_state = Ready,
      cm_reconstruction = None, cm_cells = []\<rparr>"

definition with_owner :: "byte_slice \<Rightarrow> cache_metadata \<Rightarrow> cache_metadata" where
  "with_owner owner_id self = self\<lparr>cm_owner_id := Some owner_id\<rparr>"

definition with_label :: "byte_slice \<Rightarrow> cache_metadata \<Rightarrow> cache_metadata" where
  "with_label label self = self\<lparr>cm_label := label\<rparr>"

definition metadata_is_valid :: "cache_metadata \<Rightarrow> bool" where
  "metadata_is_valid self \<longleftrightarrow>
     cm_state self = Ready \<and> (cm_token_ids self \<noteq> [] \<or> cm_cells self \<noteq> []) \<and> 0 < cm_state_bytes self"

definition replay_value :: "cache_metadata \<Rightarrow> cache_value option" where
  "replay_value self =
     (if \<not> metadata_is_valid self \<or> cm_cells self \<noteq> [] then None
      else case cm_reconstruction self of
        None \<Rightarrow> None
      | Some r \<Rightarrow>
          (case reconstruction_sequence r (cm_token_ids self) of
             None \<Rightarrow> None
           | Some s \<Rightarrow> Some \<lparr>cv_metadata = self\<lparr>cm_state_bytes := length (sb_bytes s)\<rparr>, cv_sequence = s\<rparr>))"

definition bind_reconstruction :: "cache_value \<Rightarrow> cache_value" where
  "bind_reconstruction self =
     self\<lparr>cv_metadata := (cv_metadata self)\<lparr>cm_cells := sb_cells (cv_sequence self),
                                        cm_reconstruction := Some (blob_reconstruction (cv_sequence self))\<rparr>\<rparr>"

fun leading_text :: "sequence_cell list \<Rightarrow> int list" where
  "leading_text (Text_Cell token # cells) = token # leading_text cells"
| "leading_text cells = []"

definition value_is_valid :: "cache_value \<Rightarrow> bool" where
  "value_is_valid self =
     (let m = cv_metadata self; s = cv_sequence self in
      metadata_is_valid m \<and>
      sb_token_count s = (if sb_cells s = [] then length (cm_token_ids m) else length (sb_cells s)) \<and>
      sb_token_ids s = cm_token_ids m \<and>
      sb_cells s = cm_cells m \<and>
      (sb_cells s = [] \<or> sb_token_ids s = leading_text (sb_cells s)) \<and>
      (case cm_reconstruction m of None \<Rightarrow> True | Some r \<Rightarrow> rc_token_replay_allowed r \<longleftrightarrow> sb_cells s = []) \<and>
      length (sb_bytes s) = cm_state_bytes m)"

section \<open>Selecting a prefix\<close>

record cache_match =
  ma_id :: byte_slice
  ma_tier :: cache_tier
  ma_matched_tokens :: nat
  ma_exact :: bool

datatype owner_scope = Unowned | Exact byte_slice

definition scope_matches :: "owner_scope \<Rightarrow> byte_slice option \<Rightarrow> bool" where
  "scope_matches self owner_id = (case self of Unowned \<Rightarrow> owner_id = None | Exact expected \<Rightarrow> owner_id = Some expected)"

definition common_prefix_tokens :: "int list \<Rightarrow> int list \<Rightarrow> nat" where
  "common_prefix_tokens cached prompt =
     length (takeWhile (\<lambda>(a, b). a = b) (take (saturating_sub (length prompt) 1) (zip cached prompt)))"

definition longest_compatible_prefix_for_scope ::
  "cache_metadata list \<Rightarrow> cache_fingerprint \<Rightarrow> int list \<Rightarrow> owner_scope \<Rightarrow> cache_match option" where
  "longest_compatible_prefix_for_scope entries fingerprint prompt owner_scope =
     map_option (\<lambda>(entry, matched). \<lparr>ma_id = cm_id entry, ma_tier = cm_tier entry, ma_matched_tokens = matched,
                                   ma_exact = (matched + 1 = length prompt)\<rparr>)
       (max_by (\<lambda>(left, l) (right, r).
            then_with (cmp l r)
           (then_with (cmp (lookup_priority (cm_tier left)) (lookup_priority (cm_tier right)))
           (then_with (cmp (cm_last_used_at_ms left) (cm_last_used_at_ms right)) (cmp (cm_id left) (cm_id right)))))
         (filter (\<lambda>(_, matched). 0 < matched)
           (map (\<lambda>entry. (entry, common_prefix_tokens (cm_token_ids entry) prompt))
             (filter (\<lambda>entry. metadata_is_valid entry \<and> cm_fingerprint entry = fingerprint \<and>
                              scope_matches owner_scope (cm_owner_id entry)) entries))))"

definition longest_compatible_prefix ::
  "cache_metadata list \<Rightarrow> cache_fingerprint \<Rightarrow> int list \<Rightarrow> cache_match option" where
  "longest_compatible_prefix entries fingerprint prompt =
     longest_compatible_prefix_for_scope entries fingerprint prompt Unowned"

definition longest_compatible_prefix_for_owner ::
  "cache_metadata list \<Rightarrow> cache_fingerprint \<Rightarrow> int list \<Rightarrow> byte_slice \<Rightarrow> cache_match option" where
  "longest_compatible_prefix_for_owner entries fingerprint prompt owner_id =
     longest_compatible_prefix_for_scope entries fingerprint prompt (Exact owner_id)"

section \<open>The charge of an entry\<close>

record layout =
  sz_prefix_cache_value :: nat
  sz_cached_prefix :: nat
  sz_sequence_cell :: nat

record allocation =
  al_id :: nat
  al_owner_id :: nat
  al_label :: nat
  al_token_ids :: nat
  al_sequence_tokens :: nat
  al_cells :: nat
  al_metadata_cells :: nat
  al_bytes :: nat
  al_header :: nat
  al_lora_adapters :: nat
  al_projector :: nat
  al_texts :: "nat list"
  al_lora_texts :: "nat list"

fun checked_sum :: "nat option list \<Rightarrow> nat \<Rightarrow> nat option" where
  "checked_sum [] acc = Some acc"
| "checked_sum (n # ns) acc = Option.bind n (\<lambda>n. Option.bind (checked_add USIZE_MAX acc n) (checked_sum ns))"

definition storage_proof_metadata_bytes :: "layout \<Rightarrow> sequence_blob \<Rightarrow> nat" where
  "storage_proof_metadata_bytes sizes s =
     (case sb_storage_proof s of
        None \<Rightarrow> 0
      | Some (token_ids, cells) \<Rightarrow> 4 * length token_ids + sz_sequence_cell sizes * length cells + 4 * 8)"

text \<open>The capacities are read off \<open>al\<close>; the sizes of \<open>Box<str>\<close>, \<open>Vec<u8>\<close>, \<open>usize\<close>, \<open>i32\<close> and \<open>String\<close> are 16, 24, 8, 4
  and 24. Every product is checked before the sum starts.\<close>

definition retained_memory_bytes :: "layout \<Rightarrow> allocation \<Rightarrow> cache_value \<Rightarrow> nat option" where
  "retained_memory_bytes sizes al value =
     (let products = [checked_mul USIZE_MAX (length (cm_id (cv_metadata value))) 2,
                      checked_mul USIZE_MAX (al_token_ids al) 4,
                      checked_mul USIZE_MAX (al_sequence_tokens al) 4,
                      checked_mul USIZE_MAX (al_cells al) (sz_sequence_cell sizes),
                      checked_mul USIZE_MAX (al_metadata_cells al) (sz_sequence_cell sizes),
                      checked_mul USIZE_MAX (al_lora_adapters al) 24]
      in if None \<in> set products then None
         else checked_sum
           ([Some (sz_prefix_cache_value sizes), Some (sz_cached_prefix sizes), Some (2 * 16), Some 24, Some (4 * 8),
             products ! 0, Some (al_id al),
             Some (case cm_owner_id (cv_metadata value) of None \<Rightarrow> 0 | Some _ \<Rightarrow> al_owner_id al),
             Some (al_label al), products ! 1, products ! 2, products ! 3, products ! 4, Some (al_bytes al),
             Some (case cm_reconstruction (cv_metadata value) of None \<Rightarrow> 0 | Some _ \<Rightarrow> al_header al),
             Some (storage_proof_metadata_bytes sizes (cv_sequence value)), products ! 5,
             Some (case fp_multimodal_projector_sha256 (cm_fingerprint (cv_metadata value)) of
                     None \<Rightarrow> 0 | Some _ \<Rightarrow> al_projector al)] @
            map Some (al_texts al) @ map Some (al_lora_texts al)) 0)"

record validated_value =
  vv_value :: cache_value
  vv_memory_bytes :: nat

definition validated_new :: "layout \<Rightarrow> allocation \<Rightarrow> cache_value \<Rightarrow> validated_value option" where
  "validated_new sizes al value =
     (if \<not> value_is_valid value then None
      else map_option (\<lambda>memory_bytes. \<lparr>vv_value = value, vv_memory_bytes = memory_bytes\<rparr>)
             (retained_memory_bytes sizes al value))"

section \<open>The in-memory tier\<close>

datatype insert_outcome =
    Disabled
  | InvalidRejected
  | OwnerRejected
  | Stored bool bool "byte_slice list"

record cached_prefix =
  cp_value :: cache_value
  cp_last_used_at_ms :: nat
  cp_memory_bytes :: nat

record memory_cache =
  mc_capacity_bytes :: nat
  mc_used_bytes :: nat
  mc_values :: "byte_slice \<rightharpoonup> cached_prefix"
  mc_order :: "byte_slice list"

definition memory_cache_new :: "nat \<Rightarrow> memory_cache" where
  "memory_cache_new capacity_bytes =
     \<lparr>mc_capacity_bytes = capacity_bytes, mc_used_bytes = 0, mc_values = Map.empty, mc_order = []\<rparr>"

definition contains_id :: "memory_cache \<Rightarrow> byte_slice \<Rightarrow> bool" where
  "contains_id self i \<longleftrightarrow> mc_values self i \<noteq> None"

definition remove_from_order :: "byte_slice \<Rightarrow> memory_cache \<Rightarrow> memory_cache" where
  "remove_from_order i self = self\<lparr>mc_order := filter (\<lambda>candidate. candidate \<noteq> i) (mc_order self)\<rparr>"

text \<open>\<open>values.remove\<close> with \<open>used_bytes -= \<dots>\<close>.\<close>

definition take_value :: "byte_slice \<Rightarrow> cached_prefix \<Rightarrow> memory_cache \<Rightarrow> memory_cache option" where
  "take_value i removed self =
     map_option (\<lambda>used. self\<lparr>mc_used_bytes := used, mc_values := (mc_values self)(i := None)\<rparr>)
       (checked_sub (mc_used_bytes self) (cp_memory_bytes removed))"

text \<open>The eviction loop, with the queue as the argument that shrinks.\<close>

fun make_room :: "nat \<Rightarrow> byte_slice list \<Rightarrow> memory_cache \<Rightarrow> byte_slice list \<Rightarrow> (memory_cache \<times> byte_slice list) option" where
  "make_room memory_bytes queue self evicted =
     (if mc_capacity_bytes self - memory_bytes < mc_used_bytes self then
        (case queue of
           [] \<Rightarrow> None
         | oldest # queue \<Rightarrow>
             (case mc_values self oldest of
                None \<Rightarrow> make_room memory_bytes queue (self\<lparr>mc_order := queue\<rparr>) evicted
              | Some removed \<Rightarrow>
                  Option.bind (take_value oldest removed self) (\<lambda>self.
                    make_room memory_bytes queue (self\<lparr>mc_order := queue\<rparr>) (evicted @ [oldest]))))
      else Some (self, evicted))"

definition insert_validated :: "validated_value \<Rightarrow> memory_cache \<Rightarrow> (memory_cache \<times> insert_outcome) option" where
  "insert_validated vv self =
     (let memory_bytes = vv_memory_bytes vv in
      if mc_capacity_bytes self < memory_bytes then Some (self, InvalidRejected)
      else
        let value = (vv_value vv)\<lparr>cv_metadata := (cv_metadata (vv_value vv))\<lparr>cm_tier := MemoryLru\<rparr>\<rparr>;
            i = cm_id (cv_metadata value) in
        Option.bind (case mc_values self i of
            None \<Rightarrow> Some self
          | Some previous \<Rightarrow> map_option (remove_from_order i) (take_value i previous self)) (\<lambda>self.
        Option.bind (make_room memory_bytes (mc_order self) self []) (\<lambda>(self, evicted).
        Option.bind (checked_add USIZE_MAX (mc_used_bytes self) memory_bytes) (\<lambda>used.
          Some (self\<lparr>mc_used_bytes := used,
                     mc_values := (mc_values self)(i \<mapsto> \<lparr>cp_value = value, cp_last_used_at_ms = cm_last_used_at_ms (cv_metadata value),
                                                       cp_memory_bytes = memory_bytes\<rparr>),
                     mc_order := mc_order self @ [i]\<rparr>,
                Stored True False evicted)))))"

definition cache_insert :: "layout \<Rightarrow> allocation \<Rightarrow> cache_value \<Rightarrow> memory_cache \<Rightarrow> (memory_cache \<times> insert_outcome) option" where
  "cache_insert sizes al value self =
     (case validated_new sizes al value of
        None \<Rightarrow> Some (self, InvalidRejected)
      | Some vv \<Rightarrow> insert_validated vv self)"

definition get_shared :: "byte_slice \<Rightarrow> nat \<Rightarrow> memory_cache \<Rightarrow> memory_cache \<times> cache_value option" where
  "get_shared i now_ms self =
     (case mc_values self i of
        None \<Rightarrow> (self, None)
      | Some stored \<Rightarrow>
          let self = remove_from_order i (self\<lparr>mc_values := (mc_values self)(i \<mapsto> stored\<lparr>cp_last_used_at_ms := now_ms\<rparr>)\<rparr>) in
          (self\<lparr>mc_order := mc_order self @ [i]\<rparr>, Some (cp_value stored)))"

definition cache_get :: "byte_slice \<Rightarrow> nat \<Rightarrow> memory_cache \<Rightarrow> memory_cache \<times> cache_value option" where
  "cache_get i now_ms self =
     (case get_shared i now_ms self of
        (self, None) \<Rightarrow> (self, None)
      | (self, Some value) \<Rightarrow> (self, Some (value\<lparr>cv_metadata := (cv_metadata value)\<lparr>cm_last_used_at_ms := now_ms\<rparr>\<rparr>)))"

definition select_match :: "cache_fingerprint \<Rightarrow> int list \<Rightarrow> owner_scope \<Rightarrow> cached_prefix list \<Rightarrow> cache_match option" where
  "select_match fingerprint prompt owner_scope cacheds =
     map_option (\<lambda>(cached, matched). \<lparr>ma_id = cm_id (cv_metadata (cp_value cached)), ma_tier = cm_tier (cv_metadata (cp_value cached)),
                                    ma_matched_tokens = matched, ma_exact = (matched + 1 = length prompt)\<rparr>)
       (max_by (\<lambda>(left, l) (right, r).
            then_with (cmp l r)
           (then_with (cmp (cp_last_used_at_ms left) (cp_last_used_at_ms right))
                      (cmp (cm_id (cv_metadata (cp_value left))) (cm_id (cv_metadata (cp_value right))))))
         (filter (\<lambda>(_, matched). 0 < matched)
           (map (\<lambda>cached. (cached, common_prefix_tokens (cm_token_ids (cv_metadata (cp_value cached))) prompt))
             (filter (\<lambda>cached. cm_fingerprint (cv_metadata (cp_value cached)) = fingerprint \<and>
                               scope_matches owner_scope (cm_owner_id (cv_metadata (cp_value cached)))) cacheds))))"

definition best_match_in_scope ::
  "((byte_slice \<rightharpoonup> cached_prefix) \<Rightarrow> byte_slice list) \<Rightarrow> memory_cache \<Rightarrow> cache_fingerprint \<Rightarrow> int list \<Rightarrow> owner_scope \<Rightarrow>
     cache_match option" where
  "best_match_in_scope keys self fingerprint prompt owner_scope =
     select_match fingerprint prompt owner_scope (map (\<lambda>i. the (mc_values self i)) (keys (mc_values self)))"

definition best_match ::
  "((byte_slice \<rightharpoonup> cached_prefix) \<Rightarrow> byte_slice list) \<Rightarrow> memory_cache \<Rightarrow> cache_fingerprint \<Rightarrow> int list \<Rightarrow> cache_match option" where
  "best_match keys self fingerprint prompt = best_match_in_scope keys self fingerprint prompt Unowned"

definition best_match_for_owner ::
  "((byte_slice \<rightharpoonup> cached_prefix) \<Rightarrow> byte_slice list) \<Rightarrow> memory_cache \<Rightarrow> cache_fingerprint \<Rightarrow> int list \<Rightarrow> byte_slice \<Rightarrow>
     cache_match option" where
  "best_match_for_owner keys self fingerprint prompt owner_id = best_match_in_scope keys self fingerprint prompt (Exact owner_id)"

definition lookup_shared_in_scope ::
  "((byte_slice \<rightharpoonup> cached_prefix) \<Rightarrow> byte_slice list) \<Rightarrow> cache_fingerprint \<Rightarrow> int list \<Rightarrow> owner_scope \<Rightarrow> nat \<Rightarrow> memory_cache \<Rightarrow>
     memory_cache \<times> cache_value option" where
  "lookup_shared_in_scope keys fingerprint prompt owner_scope now_ms self =
     (case best_match_in_scope keys self fingerprint prompt owner_scope of
        None \<Rightarrow> (self, None)
      | Some matched \<Rightarrow> get_shared (ma_id matched) now_ms self)"

definition lookup_in_scope ::
  "((byte_slice \<rightharpoonup> cached_prefix) \<Rightarrow> byte_slice list) \<Rightarrow> cache_fingerprint \<Rightarrow> int list \<Rightarrow> owner_scope \<Rightarrow> nat \<Rightarrow> memory_cache \<Rightarrow>
     memory_cache \<times> cache_value option" where
  "lookup_in_scope keys fingerprint prompt owner_scope now_ms self =
     (case best_match_in_scope keys self fingerprint prompt owner_scope of
        None \<Rightarrow> (self, None)
      | Some matched \<Rightarrow> cache_get (ma_id matched) now_ms self)"

definition cache_lookup ::
  "((byte_slice \<rightharpoonup> cached_prefix) \<Rightarrow> byte_slice list) \<Rightarrow> cache_fingerprint \<Rightarrow> int list \<Rightarrow> nat \<Rightarrow> memory_cache \<Rightarrow>
     memory_cache \<times> cache_value option" where
  "cache_lookup keys fingerprint prompt now_ms self = lookup_in_scope keys fingerprint prompt Unowned now_ms self"

definition invalidate :: "byte_slice \<Rightarrow> memory_cache \<Rightarrow> (memory_cache \<times> bool) option" where
  "invalidate i self =
     (case mc_values self i of
        None \<Rightarrow> Some (self, False)
      | Some value \<Rightarrow> map_option (\<lambda>self. (remove_from_order i self, True)) (take_value i value self))"

fun invalidate_each :: "byte_slice list \<Rightarrow> memory_cache \<Rightarrow> memory_cache option" where
  "invalidate_each [] self = Some self"
| "invalidate_each (i # ids) self = Option.bind (invalidate i self) (\<lambda>(self, _). invalidate_each ids self)"

definition invalidate_owner ::
  "((byte_slice \<rightharpoonup> cached_prefix) \<Rightarrow> byte_slice list) \<Rightarrow> byte_slice \<Rightarrow> memory_cache \<Rightarrow> (memory_cache \<times> byte_slice list) option" where
  "invalidate_owner keys owner_id self =
     (let ids = map (\<lambda>value. cm_id (cv_metadata (cp_value value)))
                  (filter (\<lambda>value. cm_owner_id (cv_metadata (cp_value value)) = Some owner_id)
                    (map (\<lambda>i. the (mc_values self i)) (keys (mc_values self))))
      in map_option (\<lambda>self. (self, ids)) (invalidate_each ids self))"

definition cache_clear :: "memory_cache \<Rightarrow> memory_cache" where
  "cache_clear self = self\<lparr>mc_used_bytes := 0, mc_values := Map.empty, mc_order := []\<rparr>"

declare make_room.simps [simp del]

section \<open>The in-memory tier refines the list\<close>

definition cache_represents :: "memory_cache \<Rightarrow> (byte_slice \<times> cached_prefix) list \<Rightarrow> bool" where
  "cache_represents c l \<longleftrightarrow>
     mc_order c = map fst l \<and> mc_values c = map_of l \<and> mc_used_bytes c = total_charge cp_memory_bytes l \<and>
     distinct (map fst l) \<and> total_charge cp_memory_bytes l \<le> mc_capacity_bytes c \<and> mc_capacity_bytes c \<le> USIZE_MAX \<and>
     (\<forall>(i, e) \<in> set l. cm_id (cv_metadata (cp_value e)) = i \<and> cm_tier (cv_metadata (cp_value e)) = MemoryLru \<and> value_is_valid (cp_value e))"

lemma new_represents: "capacity \<le> USIZE_MAX \<Longrightarrow> cache_represents (memory_cache_new capacity) []"
  by (simp add: cache_represents_def memory_cache_new_def)

lemma take_value_represents:
  assumes "cache_represents c l" "mc_values c i = Some e"
  shows "\<exists>c'. take_value i e c = Some c' \<and> mc_capacity_bytes c' = mc_capacity_bytes c \<and> mc_order c' = mc_order c \<and>
    cache_represents (remove_from_order i c') (without i l)"
proof -
  have "total_charge cp_memory_bytes l = cp_memory_bytes e + total_charge cp_memory_bytes (without i l)"
    using assms by (intro total_charge_without) (simp_all add: cache_represents_def)
  then show ?thesis
    using assms
    by (auto simp: take_value_def checked_sub_def cache_represents_def remove_from_order_def map_fst_without map_of_without)
qed

lemma invalidate_represents:
  assumes "cache_represents c l"
  shows "\<exists>c'. invalidate i c = Some (c', i \<in> fst ` set l) \<and> mc_capacity_bytes c' = mc_capacity_bytes c \<and> cache_represents c' (without i l)"
proof (cases "mc_values c i")
  case None
  then have "i \<notin> fst ` set l" using assms by (simp add: cache_represents_def map_of_eq_None_iff)
  then show ?thesis using None assms by (simp add: invalidate_def without_absent)
next
  case (Some e)
  then have "i \<in> fst ` set l" using assms by (force simp: cache_represents_def dest: map_of_SomeD)
  then show ?thesis
    using take_value_represents [OF assms Some] Some by (auto simp: invalidate_def remove_from_order_def image_iff)
qed

lemma make_room_represents:
  "cache_represents c l \<Longrightarrow>
   \<exists>c'. make_room memory_bytes (mc_order c) c evicted =
     Some (c', evicted @ map fst (take (length l - length (drop_until_fits cp_memory_bytes (mc_capacity_bytes c - memory_bytes) l)) l)) \<and>
     mc_capacity_bytes c' = mc_capacity_bytes c \<and>
     cache_represents c' (drop_until_fits cp_memory_bytes (mc_capacity_bytes c - memory_bytes) l)"
proof (induction l arbitrary: c evicted)
  case Nil
  then show ?case by (simp add: make_room.simps cache_represents_def)
next
  case (Cons x l)
  let ?limit = "mc_capacity_bytes c - memory_bytes"
  have used: "mc_used_bytes c = total_charge cp_memory_bytes (x # l)" "mc_order c = fst x # map fst l" "mc_values c (fst x) = Some (snd x)"
    using Cons.prems by (simp_all add: cache_represents_def)
  show ?case
  proof (cases "?limit < total_charge cp_memory_bytes (x # l)")
    case True
    obtain c1 where c1: "take_value (fst x) (snd x) c = Some c1" "mc_capacity_bytes c1 = mc_capacity_bytes c"
        "cache_represents (remove_from_order (fst x) c1) (without (fst x) (x # l))" "mc_order c1 = mc_order c"
      using take_value_represents [OF Cons.prems used (3)] by blast
    have fresh: "fst x \<notin> fst ` set l" using Cons.prems by (simp add: cache_represents_def)
    then have "filter (\<lambda>c. c \<noteq> fst x) (map fst l) = map fst l" by (auto intro: filter_True)
    then have queue: "remove_from_order (fst x) c1 = c1\<lparr>mc_order := map fst l\<rparr>"
      using c1 (4) used (2) by (simp add: remove_from_order_def)
    have rep: "cache_represents (c1\<lparr>mc_order := map fst l\<rparr>) l" using c1 (3) fresh by (simp add: queue without_absent)
    have "length (drop_until_fits cp_memory_bytes ?limit l) \<le> length l"
      using drop_until_fits_suffix [of l cp_memory_bytes ?limit] by (metis le_add2 length_append)
    then show ?thesis
      using Cons.IH [OF rep, of "evicted @ [fst x]"] True used c1 (1,2)
      by (simp add: make_room.simps [of memory_bytes "fst x # map fst l"] Suc_diff_le)
  next
    case False
    then show ?thesis using Cons.prems used by (simp add: make_room.simps)
  qed
qed

definition stored_entry :: "validated_value \<Rightarrow> cached_prefix" where
  "stored_entry vv =
     \<lparr>cp_value = (vv_value vv)\<lparr>cv_metadata := (cv_metadata (vv_value vv))\<lparr>cm_tier := MemoryLru\<rparr>\<rparr>,
      cp_last_used_at_ms = cm_last_used_at_ms (cv_metadata (vv_value vv)), cp_memory_bytes = vv_memory_bytes vv\<rparr>"

definition stored_key :: "validated_value \<Rightarrow> byte_slice" where
  "stored_key vv = cm_id (cv_metadata (vv_value vv))"

lemma stored_entry_charge [simp]: "cp_memory_bytes (stored_entry vv) = vv_memory_bytes vv"
  by (simp add: stored_entry_def)

lemma push_represents:
  assumes "cache_represents c l" "total_charge cp_memory_bytes l + cp_memory_bytes e \<le> mc_capacity_bytes c" "k \<notin> fst ` set l"
    and "cm_id (cv_metadata (cp_value e)) = k" "cm_tier (cv_metadata (cp_value e)) = MemoryLru" "value_is_valid (cp_value e)"
  shows "cache_represents (c\<lparr>mc_used_bytes := mc_used_bytes c + cp_memory_bytes e, mc_values := (mc_values c)(k \<mapsto> e), mc_order := mc_order c @ [k]\<rparr>)
    (l @ [(k, e)])"
proof -
  have "map_of l k = None" using assms (3) by (simp add: map_of_eq_None_iff)
  then have "map_of (l @ [(k, e)]) = (map_of l)(k \<mapsto> e)" by (auto simp: fun_eq_iff map_add_def split: option.split)
  then show ?thesis using assms by (auto simp: cache_represents_def)
qed

lemma value_is_valid_tier: "value_is_valid (v\<lparr>cv_metadata := (cv_metadata v)\<lparr>cm_tier := t\<rparr>\<rparr>) = value_is_valid v"
  by (simp add: value_is_valid_def metadata_is_valid_def Let_def)

lemma insert_validated_unfold:
  "vv_memory_bytes vv \<le> mc_capacity_bytes c \<Longrightarrow> insert_validated vv c =
     Option.bind (case mc_values c (stored_key vv) of None \<Rightarrow> Some c
       | Some previous \<Rightarrow> map_option (remove_from_order (stored_key vv)) (take_value (stored_key vv) previous c)) (\<lambda>self.
     Option.bind (make_room (vv_memory_bytes vv) (mc_order self) self []) (\<lambda>(self, evicted).
     Option.bind (checked_add USIZE_MAX (mc_used_bytes self) (vv_memory_bytes vv)) (\<lambda>used.
       Some (self\<lparr>mc_used_bytes := used, mc_values := (mc_values self)(stored_key vv \<mapsto> stored_entry vv),
                  mc_order := mc_order self @ [stored_key vv]\<rparr>, Stored True False evicted))))"
  by (simp add: insert_validated_def stored_key_def stored_entry_def Let_def cong: option.case_cong)

lemma insert_represents:
  assumes rep: "cache_represents c l" and valid: "value_is_valid (vv_value vv)" and fits: "vv_memory_bytes vv \<le> mc_capacity_bytes c"
  shows "\<exists>c'. insert_validated vv c =
      Some (c', Stored True False (lru_evicted cp_memory_bytes (mc_capacity_bytes c) (stored_key vv) (stored_entry vv) l)) \<and>
    mc_capacity_bytes c' = mc_capacity_bytes c \<and>
    cache_represents c' (lru_put cp_memory_bytes (mc_capacity_bytes c) (stored_key vv) (stored_entry vv) l)"
proof -
  let ?k = "stored_key vv" and ?limit = "mc_capacity_bytes c - vv_memory_bytes vv"
  obtain c1 where c1: "(case mc_values c ?k of None \<Rightarrow> Some c | Some previous \<Rightarrow> map_option (remove_from_order ?k) (take_value ?k previous c)) = Some c1"
      "mc_capacity_bytes c1 = mc_capacity_bytes c" "cache_represents c1 (without ?k l)"
  proof (cases "mc_values c ?k")
    case None
    then have "without ?k l = l" using rep by (intro without_absent) (simp add: cache_represents_def map_of_eq_None_iff)
    then show ?thesis using that [of c] None rep by simp
  next
    case (Some e)
    then show ?thesis using that take_value_represents [OF rep Some] by (auto simp: remove_from_order_def)
  qed
  obtain c2 where c2: "make_room (vv_memory_bytes vv) (mc_order c1) c1 [] =
        Some (c2, lru_evicted cp_memory_bytes (mc_capacity_bytes c) ?k (stored_entry vv) l)"
      "mc_capacity_bytes c2 = mc_capacity_bytes c" "cache_represents c2 (drop_until_fits cp_memory_bytes ?limit (without ?k l))"
    using make_room_represents [OF c1 (3), of "vv_memory_bytes vv" "[]"] c1 (2) by (auto simp: lru_evicted_def stored_entry_def)
  have kept: "total_charge cp_memory_bytes (drop_until_fits cp_memory_bytes ?limit (without ?k l)) \<le> ?limit" by (rule drop_until_fits_bound)
  have fresh: "?k \<notin> fst ` set (drop_until_fits cp_memory_bytes ?limit (without ?k l))"
    using set_drop_until_fits [of cp_memory_bytes ?limit "without ?k l"] by auto
  have entry: "value_is_valid (cp_value (stored_entry vv))" using valid by (simp add: stored_entry_def value_is_valid_tier)
  let ?c = "c2\<lparr>mc_used_bytes := mc_used_bytes c2 + vv_memory_bytes vv, mc_values := (mc_values c2)(?k \<mapsto> stored_entry vv),
      mc_order := mc_order c2 @ [?k]\<rparr>"
  have used: "mc_used_bytes c2 = total_charge cp_memory_bytes (drop_until_fits cp_memory_bytes ?limit (without ?k l))" "mc_capacity_bytes c \<le> USIZE_MAX"
    using c2 (3) rep by (simp_all add: cache_represents_def)
  then have sum: "mc_used_bytes c2 + vv_memory_bytes vv \<le> USIZE_MAX" "mc_used_bytes c2 + vv_memory_bytes vv \<le> mc_capacity_bytes c"
    using kept fits by linarith+
  have "cache_represents ?c (lru_put cp_memory_bytes (mc_capacity_bytes c) ?k (stored_entry vv) l)"
    using push_represents [OF c2 (3), of "stored_entry vv" ?k] sum (2) used (1) c2 (2) fresh entry
    by (simp add: lru_put_def stored_entry_def stored_key_def)
  moreover have "insert_validated vv c = Some (?c, Stored True False (lru_evicted cp_memory_bytes (mc_capacity_bytes c) ?k (stored_entry vv) l))"
    unfolding insert_validated_unfold [OF fits] c1 (1) bind.bind_lunit c2 (1) using sum (1) by (simp add: checked_add_def)
  ultimately show ?thesis using c2 (2) by auto
qed

definition used_at :: "nat \<Rightarrow> cached_prefix \<Rightarrow> cached_prefix" where
  "used_at now_ms e = e\<lparr>cp_last_used_at_ms := now_ms\<rparr>"

lemma get_shared_represents:
  assumes "cache_represents c l"
  shows "snd (get_shared i now_ms c) = map_option cp_value (map_of l i) \<and>
    mc_capacity_bytes (fst (get_shared i now_ms c)) = mc_capacity_bytes c \<and>
    cache_represents (fst (get_shared i now_ms c)) (lru_touch i (used_at now_ms) l)"
proof (cases "map_of l i")
  case None
  then show ?thesis using assms by (simp add: get_shared_def lru_touch_def cache_represents_def)
next
  case (Some e)
  have "map_of (without i l) i = None" by (simp add: map_of_without)
  then have maps: "[i \<mapsto> e\<lparr>cp_last_used_at_ms := now_ms\<rparr>] ++ map_of (without i l) = (map_of l)(i \<mapsto> e\<lparr>cp_last_used_at_ms := now_ms\<rparr>)"
    by (auto simp: fun_eq_iff map_add_def map_of_without split: option.split)
  have "(i, e) \<in> set l" using Some by (rule map_of_SomeD)
  then have entry: "cm_id (cv_metadata (cp_value e)) = i" "cm_tier (cv_metadata (cp_value e)) = MemoryLru" "value_is_valid (cp_value e)"
    using assms by (auto simp: cache_represents_def)
  have total: "total_charge cp_memory_bytes l = cp_memory_bytes e + total_charge cp_memory_bytes (without i l)"
    using assms Some by (intro total_charge_without) (simp_all add: cache_represents_def)
  show ?thesis
    using assms Some entry total
    by (auto simp: get_shared_def lru_touch_def cache_represents_def remove_from_order_def maps map_fst_without used_at_def Let_def)
qed

text \<open>The contract of the specification, for the model.\<close>

definition put_value :: "validated_value \<Rightarrow> memory_cache \<Rightarrow> (memory_cache \<times> byte_slice list) option" where
  "put_value vv c =
     map_option (\<lambda>(c, outcome). (c, case outcome of Stored _ _ evicted \<Rightarrow> evicted | _ \<Rightarrow> [])) (insert_validated vv c)"

interpretation memory_lru: lru_store cache_represents mc_capacity_bytes cp_memory_bytes stored_key stored_entry
  "\<lambda>vv. value_is_valid (vv_value vv)" put_value used_at "\<lambda>i now_ms c. fst (get_shared i now_ms c)" "\<lambda>i c. map_option fst (invalidate i c)"
proof
  fix s l v k now
  assume rep: "cache_represents s l"
  show "total_charge cp_memory_bytes l \<le> mc_capacity_bytes s" "distinct (map fst l)" using rep by (simp_all add: cache_represents_def)
  show "mc_capacity_bytes (fst (get_shared k now s)) = mc_capacity_bytes s \<and>
      cache_represents (fst (get_shared k now s)) (lru_touch k (used_at now) l)"
    using get_shared_represents [OF rep] by simp
  show "\<exists>s'. map_option fst (invalidate k s) = Some s' \<and> mc_capacity_bytes s' = mc_capacity_bytes s \<and> cache_represents s' (without k l)"
    using invalidate_represents [OF rep, of k] by auto
  show "value_is_valid (vv_value v) \<Longrightarrow> cp_memory_bytes (stored_entry v) \<le> mc_capacity_bytes s \<Longrightarrow>
      \<exists>s'. put_value v s = Some (s', lru_evicted cp_memory_bytes (mc_capacity_bytes s) (stored_key v) (stored_entry v) l) \<and>
        mc_capacity_bytes s' = mc_capacity_bytes s \<and>
        cache_represents s' (lru_put cp_memory_bytes (mc_capacity_bytes s) (stored_key v) (stored_entry v) l)"
    using insert_represents [OF rep, of v] by (auto simp: put_value_def)
qed

section \<open>Selection\<close>

text \<open>Iterating a hash map visits every key once.\<close>

definition map_iteration :: "((byte_slice \<rightharpoonup> cached_prefix) \<Rightarrow> byte_slice list) \<Rightarrow> bool" where
  "map_iteration keys \<longleftrightarrow> (\<forall>m. finite (dom m) \<longrightarrow> distinct (keys m) \<and> set (keys m) = dom m)"

lemma common_prefix_tokens_spec:
  "take (common_prefix_tokens cached prompt) cached = take (common_prefix_tokens cached prompt) prompt"
  "common_prefix_tokens cached prompt \<le> length prompt - 1" "common_prefix_tokens cached prompt \<le> length cached"
  "common_prefix_tokens cached prompt < length cached \<Longrightarrow> common_prefix_tokens cached prompt + 1 < length prompt \<Longrightarrow>
     cached ! common_prefix_tokens cached prompt \<noteq> prompt ! common_prefix_tokens cached prompt"
proof -
  let ?zs = "take (length prompt - 1) (zip cached prompt)"
  let ?n = "common_prefix_tokens cached prompt"
  have n: "?n = length (takeWhile (\<lambda>(a, b). a = b) ?zs)" by (simp add: common_prefix_tokens_def saturating_sub_def)
  have le: "?n \<le> length ?zs" unfolding n by (rule length_takeWhile_le)
  then show "?n \<le> length prompt - 1" "?n \<le> length cached" by simp_all
  have "cached ! i = prompt ! i" if "i < ?n" for i
  proof -
    have "takeWhile (\<lambda>(a, b). a = b) ?zs ! i \<in> set (takeWhile (\<lambda>(a, b). a = b) ?zs)" using that n by simp
    then have "case takeWhile (\<lambda>(a, b). a = b) ?zs ! i of (a, b) \<Rightarrow> a = b" by (meson set_takeWhileD)
    moreover have "takeWhile (\<lambda>(a, b). a = b) ?zs ! i = (cached ! i, prompt ! i)" using that n le by (simp add: takeWhile_nth)
    ultimately show ?thesis by simp
  qed
  then show "take ?n cached = take ?n prompt" using le by (intro nth_equalityI) simp_all
  show "cached ! ?n \<noteq> prompt ! ?n" if "?n < length cached" "?n + 1 < length prompt"
  proof -
    have "?n < length ?zs" using that by simp
    then have "\<not> (case ?zs ! ?n of (a, b) \<Rightarrow> a = b)" unfolding n by (rule nth_length_takeWhile)
    then show ?thesis using \<open>?n < length ?zs\<close> by simp
  qed
qed

definition usable :: "cache_fingerprint \<Rightarrow> int list \<Rightarrow> owner_scope \<Rightarrow> cached_prefix \<Rightarrow> bool" where
  "usable fingerprint prompt owner_scope e \<longleftrightarrow>
     cm_fingerprint (cv_metadata (cp_value e)) = fingerprint \<and> scope_matches owner_scope (cm_owner_id (cv_metadata (cp_value e))) \<and>
     0 < common_prefix_tokens (cm_token_ids (cv_metadata (cp_value e))) prompt"

text \<open>What a caller may be given, without the code's own tests: an entry of the requested owner, or of no owner when
  none is named; and a number of tokens that is the length of the longest common prefix of the entry and the prompt,
  the prompt's last token apart.\<close>

definition owned_by :: "owner_scope \<Rightarrow> byte_slice option \<Rightarrow> bool" where
  "owned_by scope owner \<longleftrightarrow> (scope = Unowned \<and> owner = None) \<or> (\<exists>name. scope = Exact name \<and> owner = Some name)"

definition common_to :: "int list \<Rightarrow> int list \<Rightarrow> nat \<Rightarrow> bool" where
  "common_to cached prompt n \<longleftrightarrow> n \<le> length cached \<and> n < length prompt \<and> take n cached = take n prompt"

definition longest_common :: "int list \<Rightarrow> int list \<Rightarrow> nat \<Rightarrow> bool" where
  "longest_common cached prompt n \<longleftrightarrow> common_to cached prompt n \<and> (\<forall>k. common_to cached prompt k \<longrightarrow> k \<le> n)"

definition reusable :: "cache_fingerprint \<Rightarrow> int list \<Rightarrow> owner_scope \<Rightarrow> cached_prefix \<Rightarrow> nat \<Rightarrow> bool" where
  "reusable fingerprint prompt owner_scope e n \<longleftrightarrow>
     cm_fingerprint (cv_metadata (cp_value e)) = fingerprint \<and> owned_by owner_scope (cm_owner_id (cv_metadata (cp_value e))) \<and>
     0 < n \<and> longest_common (cm_token_ids (cv_metadata (cp_value e))) prompt n"

lemma scope_matches_owned: "scope_matches scope owner \<longleftrightarrow> owned_by scope owner"
  by (cases scope) (auto simp: scope_matches_def owned_by_def)

lemma common_prefix_tokens_longest:
  assumes "prompt \<noteq> []"
  shows "longest_common cached prompt (common_prefix_tokens cached prompt)"
proof -
  let ?n = "common_prefix_tokens cached prompt"
  have "?n < length prompt" using common_prefix_tokens_spec (2) [of cached prompt] assms by (cases prompt) simp_all
  moreover have "k \<le> ?n" if k: "common_to cached prompt k" for k
  proof (rule ccontr)
    assume "\<not> k \<le> ?n"
    then have n: "?n < k" by simp
    then have "?n < length cached" "?n + 1 < length prompt" using k by (auto simp: common_to_def)
    then have "cached ! ?n \<noteq> prompt ! ?n" by (rule common_prefix_tokens_spec (4))
    moreover have "take k cached ! ?n = take k prompt ! ?n" using k by (simp add: common_to_def)
    ultimately show False using n by simp
  qed
  ultimately show ?thesis using common_prefix_tokens_spec [of cached prompt] by (simp add: longest_common_def common_to_def)
qed

lemma longest_common_unique: "longest_common cached prompt n \<Longrightarrow> longest_common cached prompt k \<Longrightarrow> n = k"
  by (auto simp: longest_common_def intro: le_antisym)

lemma reusable_iff_usable:
  "reusable fingerprint prompt owner_scope e n \<longleftrightarrow>
     usable fingerprint prompt owner_scope e \<and> n = common_prefix_tokens (cm_token_ids (cv_metadata (cp_value e))) prompt"
proof (cases prompt)
  case Nil
  then show ?thesis by (simp add: reusable_def longest_common_def common_to_def usable_def common_prefix_tokens_def)
next
  case (Cons t ts)
  then have "longest_common (cm_token_ids (cv_metadata (cp_value e))) prompt (common_prefix_tokens (cm_token_ids (cv_metadata (cp_value e))) prompt)"
    by (simp add: common_prefix_tokens_longest)
  then show ?thesis by (auto simp: reusable_def usable_def scope_matches_owned dest: longest_common_unique)
qed

definition match_key :: "int list \<Rightarrow> cached_prefix \<Rightarrow> nat \<times> nat \<times> byte_slice" where
  "match_key prompt e = (common_prefix_tokens (cm_token_ids (cv_metadata (cp_value e))) prompt, cp_last_used_at_ms e, cm_id (cv_metadata (cp_value e)))"

definition match_of :: "int list \<Rightarrow> cached_prefix \<Rightarrow> cache_match" where
  "match_of prompt e =
     (let matched = common_prefix_tokens (cm_token_ids (cv_metadata (cp_value e))) prompt in
      \<lparr>ma_id = cm_id (cv_metadata (cp_value e)), ma_tier = cm_tier (cv_metadata (cp_value e)), ma_matched_tokens = matched,
       ma_exact = (matched + 1 = length prompt)\<rparr>)"

lemma select_match_key:
  "select_match fingerprint prompt owner_scope cacheds =
     map_option (match_of prompt) (max_by (\<lambda>a b. cmp (match_key prompt a) (match_key prompt b)) (filter (usable fingerprint prompt owner_scope) cacheds))"
proof -
  let ?n = "\<lambda>e. common_prefix_tokens (cm_token_ids (cv_metadata (cp_value e))) prompt"
  have pairs: "filter (\<lambda>(_, matched). 0 < matched) (map (\<lambda>cached. (cached, ?n cached))
      (filter (\<lambda>cached. cm_fingerprint (cv_metadata (cp_value cached)) = fingerprint \<and>
         scope_matches owner_scope (cm_owner_id (cv_metadata (cp_value cached)))) cacheds)) =
      map (\<lambda>e. (e, ?n e)) (filter (usable fingerprint prompt owner_scope) cacheds)"
    by (induction cacheds) (auto simp: usable_def)
  show ?thesis
    unfolding select_match_def pairs max_by_map [symmetric] option.map_comp
    by (simp add: then_with_cmp match_key_def match_of_def [abs_def] comp_def Let_def)
qed

lemma max_by_set_eq:
  assumes "set xs = set ys" "inj_on key (set xs)"
  shows "max_by (\<lambda>a b. cmp (key a) (key b)) xs = max_by (\<lambda>a b. cmp (key a) (key b)) ys"
proof (cases "max_by (\<lambda>a b. cmp (key a) (key b)) xs")
  case None
  then show ?thesis using assms (1) by (simp add: max_by_None_iff)
next
  case (Some x)
  then have "ys \<noteq> []" using assms (1) max_by_in by fastforce
  then obtain y where y: "max_by (\<lambda>a b. cmp (key a) (key b)) ys = Some y" using max_by_None_iff by (metis option.exhaust)
  have "key x = key y" using max_by_greatest [OF Some] max_by_greatest [OF y] assms (1) by (metis order.antisym)
  then have "x = y" using max_by_greatest [OF Some] max_by_greatest [OF y] assms by (metis inj_onD)
  then show ?thesis using Some y by simp
qed

lemma iteration_values:
  assumes "map_iteration keys" "cache_represents c l"
  shows "set (map (\<lambda>i. the (mc_values c i)) (keys (mc_values c))) = snd ` set l"
proof -
  have c: "mc_values c = map_of l" "distinct (map fst l)" using assms (2) by (simp_all add: cache_represents_def)
  have "set (keys (mc_values c)) = fst ` set l" using assms (1) by (simp add: map_iteration_def c (1) finite_dom_map_of dom_map_of_conv_image_fst)
  moreover have "the (map_of l (fst x)) = snd x" if "x \<in> set l" for x
    using map_of_is_SomeI [OF c (2), of "fst x" "snd x"] that by simp
  ultimately show ?thesis by (simp add: c (1) image_image)
qed

lemma match_key_inj:
  assumes "cache_represents c l"
  shows "inj_on (match_key prompt) (snd ` set l)"
proof (rule inj_onI)
  fix e e' assume e: "e \<in> snd ` set l" "e' \<in> snd ` set l" "match_key prompt e = match_key prompt e'"
  have "(cm_id (cv_metadata (cp_value x)), x) \<in> set l" if "x \<in> snd ` set l" for x
    using that assms by (auto simp: cache_represents_def)
  then have "(cm_id (cv_metadata (cp_value e)), e) \<in> set l" "(cm_id (cv_metadata (cp_value e)), e') \<in> set l"
    using e by (force simp: match_key_def)+
  moreover have "distinct (map fst l)" using assms by (simp add: cache_represents_def)
  ultimately show "e = e'" by (simp add: eq_key_imp_eq_value)
qed

text \<open>The order of iteration does not matter.\<close>

lemma best_match_of_list:
  assumes "map_iteration keys" "cache_represents c l"
  shows "best_match_in_scope keys c fingerprint prompt owner_scope = select_match fingerprint prompt owner_scope (map snd l)"
proof -
  define xs where "xs = filter (usable fingerprint prompt owner_scope) (map (\<lambda>i. the (mc_values c i)) (keys (mc_values c)))"
  define ys where "ys = filter (usable fingerprint prompt owner_scope) (map snd l)"
  have xs: "set xs = {e \<in> snd ` set l. usable fingerprint prompt owner_scope e}"
    unfolding xs_def set_filter iteration_values [OF assms] ..
  have "set xs = set ys" unfolding xs ys_def by simp
  moreover have "inj_on (match_key prompt) (set xs)" unfolding xs by (rule inj_on_subset [OF match_key_inj [OF assms (2)]]) blast
  ultimately have "max_by (\<lambda>a b. cmp (match_key prompt a) (match_key prompt b)) xs = max_by (\<lambda>a b. cmp (match_key prompt a) (match_key prompt b)) ys"
    by (rule max_by_set_eq)
  then show ?thesis unfolding best_match_in_scope_def select_match_key xs_def ys_def by (rule arg_cong)
qed

text \<open>The selection over the entries of an index, valid or not, of any tier.\<close>

lemma longest_compatible_prefix_sound:
  assumes "longest_compatible_prefix_for_scope entries fingerprint prompt owner_scope = Some m"
  shows "\<exists>entry \<in> set entries. metadata_is_valid entry \<and> cm_fingerprint entry = fingerprint \<and>
    scope_matches owner_scope (cm_owner_id entry) \<and> ma_id m = cm_id entry \<and> ma_tier m = cm_tier entry \<and>
    0 < ma_matched_tokens m \<and> ma_matched_tokens m = common_prefix_tokens (cm_token_ids entry) prompt \<and>
    (\<forall>other \<in> set entries. metadata_is_valid other \<and> cm_fingerprint other = fingerprint \<and> scope_matches owner_scope (cm_owner_id other) \<longrightarrow>
       common_prefix_tokens (cm_token_ids other) prompt \<le> ma_matched_tokens m)"
proof -
  let ?n = "\<lambda>entry. common_prefix_tokens (cm_token_ids entry) prompt"
  let ?ok = "\<lambda>entry. metadata_is_valid entry \<and> cm_fingerprint entry = fingerprint \<and> scope_matches owner_scope (cm_owner_id entry)"
  let ?key = "\<lambda>(entry, n). (n, lookup_priority (cm_tier entry), cm_last_used_at_ms entry, cm_id entry)"
  define xs where "xs = filter (\<lambda>(_, matched). 0 < matched) (map (\<lambda>entry. (entry, ?n entry)) (filter ?ok entries))"
  have key: "(\<lambda>(left, l) (right, r). then_with (cmp l r) (then_with (cmp (lookup_priority (cm_tier left)) (lookup_priority (cm_tier right)))
      (then_with (cmp (cm_last_used_at_ms left) (cm_last_used_at_ms right)) (cmp (cm_id left) (cm_id right))))) = (\<lambda>a b. cmp (?key a) (?key b))"
    by (auto simp: fun_eq_iff then_with_cmp)
  obtain entry n where e: "max_by (\<lambda>a b. cmp (?key a) (?key b)) xs = Some (entry, n)" and
      m: "m = \<lparr>ma_id = cm_id entry, ma_tier = cm_tier entry, ma_matched_tokens = n, ma_exact = (n + 1 = length prompt)\<rparr>"
    using assms unfolding longest_compatible_prefix_for_scope_def xs_def [symmetric] key by auto
  note greatest = max_by_greatest [OF e]
  have "?n other \<le> n" if "other \<in> set entries" "?ok other" for other
  proof (cases "?n other = 0")
    case False
    then have "(other, ?n other) \<in> set xs" using that by (auto simp: xs_def)
    then show ?thesis using greatest by (auto simp: less_eq_prod_def)
  qed simp
  then show ?thesis using greatest unfolding m by (auto simp: xs_def)
qed

text \<open>An entry that is bound to its snapshot can be replayed, without native state, as a valid entry for the same
  tokens.\<close>

lemma bind_then_replay:
  assumes "value_is_valid v" "sb_cells (cv_sequence v) = []"
  shows "\<exists>r. replay_value (cv_metadata (bind_reconstruction v)) = Some r \<and> value_is_valid r \<and>
    cm_token_ids (cv_metadata r) = cm_token_ids (cv_metadata v)"
  using assms
  by (auto simp: value_is_valid_def metadata_is_valid_def replay_value_def bind_reconstruction_def blob_reconstruction_def
      reconstruction_sequence_def SEQUENCE_STATE_HEADER_BYTES_def Let_def split: option.splits)

section \<open>Runs\<close>

datatype cache_call =
    Call_Insert layout allocation cache_value
  | Call_Get byte_slice nat
  | Call_Lookup cache_fingerprint "int list" owner_scope nat
  | Call_Invalidate byte_slice
  | Call_Invalidate_Owner byte_slice
  | Call_Clear

fun cache_step :: "((byte_slice \<rightharpoonup> cached_prefix) \<Rightarrow> byte_slice list) \<Rightarrow> cache_call \<Rightarrow> memory_cache \<Rightarrow> memory_cache option" where
  "cache_step keys (Call_Insert sizes al v) c = map_option fst (cache_insert sizes al v c)"
| "cache_step keys (Call_Get i now_ms) c = Some (fst (cache_get i now_ms c))"
| "cache_step keys (Call_Lookup fingerprint prompt owner_scope now_ms) c =
     Some (fst (lookup_in_scope keys fingerprint prompt owner_scope now_ms c))"
| "cache_step keys (Call_Invalidate i) c = map_option fst (invalidate i c)"
| "cache_step keys (Call_Invalidate_Owner owner) c = map_option fst (invalidate_owner keys owner c)"
| "cache_step keys Call_Clear c = Some (cache_clear c)"

fun cache_run :: "((byte_slice \<rightharpoonup> cached_prefix) \<Rightarrow> byte_slice list) \<Rightarrow> cache_call list \<Rightarrow> memory_cache \<Rightarrow> memory_cache option" where
  "cache_run keys [] c = Some c"
| "cache_run keys (call # calls) c = Option.bind (cache_step keys call c) (cache_run keys calls)"

text \<open>The same calls on the specification.\<close>

fun lru_step :: "nat \<Rightarrow> cache_call \<Rightarrow> (byte_slice \<times> cached_prefix) list \<Rightarrow> (byte_slice \<times> cached_prefix) list" where
  "lru_step capacity (Call_Insert sizes al v) l =
     (case validated_new sizes al v of
        None \<Rightarrow> l
      | Some vv \<Rightarrow> if capacity < vv_memory_bytes vv then l else lru_put cp_memory_bytes capacity (stored_key vv) (stored_entry vv) l)"
| "lru_step capacity (Call_Get i now_ms) l = lru_touch i (used_at now_ms) l"
| "lru_step capacity (Call_Lookup fingerprint prompt owner_scope now_ms) l =
     (case select_match fingerprint prompt owner_scope (map snd l) of
        None \<Rightarrow> l
      | Some m \<Rightarrow> lru_touch (ma_id m) (used_at now_ms) l)"
| "lru_step capacity (Call_Invalidate i) l = without i l"
| "lru_step capacity (Call_Invalidate_Owner owner) l = filter (\<lambda>x. cm_owner_id (cv_metadata (cp_value (snd x))) \<noteq> Some owner) l"
| "lru_step capacity Call_Clear l = []"

definition lru_run :: "nat \<Rightarrow> cache_call list \<Rightarrow> (byte_slice \<times> cached_prefix) list" where
  "lru_run capacity calls = foldl (\<lambda>l call. lru_step capacity call l) [] calls"

lemma cache_get_state: "fst (cache_get i now_ms c) = fst (get_shared i now_ms c)"
  by (simp add: cache_get_def split: prod.split option.split)

lemma invalidate_each_represents:
  "cache_represents c l \<Longrightarrow> \<exists>c'. invalidate_each ids c = Some c' \<and> mc_capacity_bytes c' = mc_capacity_bytes c \<and>
     cache_represents c' (filter (\<lambda>x. fst x \<notin> set ids) l)"
proof (induction ids arbitrary: c l)
  case (Cons i ids)
  obtain c1 where c1: "invalidate i c = Some (c1, i \<in> fst ` set l)" "mc_capacity_bytes c1 = mc_capacity_bytes c" "cache_represents c1 (without i l)"
    using invalidate_represents [OF Cons.prems] by blast
  have "filter (\<lambda>x. fst x \<notin> set ids) (without i l) = filter (\<lambda>x. fst x \<notin> set (i # ids)) l" by (auto simp: without_def intro: filter_cong)
  then show ?case using Cons.IH [OF c1 (3)] c1 (1,2) by auto
qed simp

lemma invalidate_owner_represents:
  assumes "map_iteration keys" "cache_represents c l"
  shows "\<exists>c'. map_option fst (invalidate_owner keys owner c) = Some c' \<and> mc_capacity_bytes c' = mc_capacity_bytes c \<and>
    cache_represents c' (filter (\<lambda>x. cm_owner_id (cv_metadata (cp_value (snd x))) \<noteq> Some owner) l)"
proof -
  let ?owned = "\<lambda>e. cm_owner_id (cv_metadata (cp_value e)) = Some owner"
  define ids where "ids = map (\<lambda>e. cm_id (cv_metadata (cp_value e))) (filter ?owned (map (\<lambda>i. the (mc_values c i)) (keys (mc_values c))))"
  have ids: "set ids = (\<lambda>e. cm_id (cv_metadata (cp_value e))) ` {e \<in> snd ` set l. ?owned e}"
    unfolding ids_def list.set_map(1) [of _ "filter _ _"] set_filter iteration_values [OF assms] by simp
  have entry: "cm_id (cv_metadata (cp_value (snd x))) = fst x" if "x \<in> set l" for x
    using that assms (2) by (auto simp: cache_represents_def)
  have "fst x \<in> set ids \<longleftrightarrow> ?owned (snd x)" if x: "x \<in> set l" for x
  proof
    assume "fst x \<in> set ids"
    then obtain y where y: "y \<in> set l" "?owned (snd y)" "fst x = fst y" using ids entry by auto
    have "distinct (map fst l)" using assms (2) by (simp add: cache_represents_def)
    then have "y = x" using x y (1,3) by (simp add: distinct_map inj_on_def)
    then show "?owned (snd x)" using y (2) by simp
  next
    assume "?owned (snd x)"
    then show "fst x \<in> set ids" using ids entry [OF x] x by force
  qed
  then have "filter (\<lambda>x. fst x \<notin> set ids) l = filter (\<lambda>x. \<not> ?owned (snd x)) l" by (auto intro: filter_cong)
  then show ?thesis
    using invalidate_each_represents [OF assms (2), of ids] by (auto simp: invalidate_owner_def ids_def [symmetric])
qed

lemma insert_step_represents:
  assumes "cache_represents c l"
  shows "\<exists>c'. map_option fst (cache_insert sizes al v c) = Some c' \<and> mc_capacity_bytes c' = mc_capacity_bytes c \<and>
    cache_represents c' (lru_step (mc_capacity_bytes c) (Call_Insert sizes al v) l)"
proof (cases "validated_new sizes al v")
  case None
  then show ?thesis using assms by (simp add: cache_insert_def)
next
  case (Some vv)
  then have "value_is_valid (vv_value vv)" by (auto simp: validated_new_def split: if_splits)
  then show ?thesis
    using Some assms insert_represents [OF assms, of vv]
    by (cases "mc_capacity_bytes c < vv_memory_bytes vv") (auto simp: cache_insert_def insert_validated_def Let_def)
qed

lemma step_represents:
  assumes "map_iteration keys" "cache_represents c l"
  shows "\<exists>c'. cache_step keys call c = Some c' \<and> mc_capacity_bytes c' = mc_capacity_bytes c \<and>
    cache_represents c' (lru_step (mc_capacity_bytes c) call l)"
proof (cases call)
  case (Call_Insert sizes al v)
  then show ?thesis using insert_step_represents [OF assms (2)] by simp
next
  case (Call_Lookup fingerprint prompt owner_scope now_ms)
  then show ?thesis
    using assms (2) get_shared_represents [OF assms (2)]
    by (auto simp: lookup_in_scope_def best_match_of_list [OF assms] cache_get_state split: option.split)
next
  case Call_Clear
  then show ?thesis using assms (2) by (simp add: cache_clear_def cache_represents_def)
next
  case (Call_Get i now_ms)
  then show ?thesis using get_shared_represents [OF assms (2), of i now_ms] by (simp add: cache_get_state)
next
  case (Call_Invalidate i)
  then show ?thesis using invalidate_represents [OF assms (2), of i] by auto
next
  case (Call_Invalidate_Owner owner)
  then show ?thesis using invalidate_owner_represents [OF assms, of owner] by simp
qed

lemma run_represents:
  assumes "map_iteration keys"
  shows "cache_represents c l \<Longrightarrow> \<exists>c'. cache_run keys calls c = Some c' \<and> mc_capacity_bytes c' = mc_capacity_bytes c \<and>
    cache_represents c' (foldl (\<lambda>l call. lru_step (mc_capacity_bytes c) call l) l calls)"
proof (induction calls arbitrary: c l)
  case (Cons call calls)
  obtain c1 where c1: "cache_step keys call c = Some c1" "mc_capacity_bytes c1 = mc_capacity_bytes c"
      "cache_represents c1 (lru_step (mc_capacity_bytes c) call l)" using step_represents [OF assms Cons.prems] by blast
  then show ?case using Cons.IH [OF c1 (3)] by simp
qed simp

lemma reachable_represents:
  assumes "map_iteration keys" "capacity \<le> USIZE_MAX"
  obtains c where "cache_run keys calls (memory_cache_new capacity) = Some c" "mc_capacity_bytes c = capacity"
    "cache_represents c (lru_run capacity calls)"
proof -
  have "mc_capacity_bytes (memory_cache_new capacity) = capacity" by (simp add: memory_cache_new_def)
  then show thesis using run_represents [OF assms (1) new_represents [OF assms (2)], of calls] that by (auto simp: lru_run_def)
qed

lemma represents_lookup: "cache_represents c l \<Longrightarrow> x \<in> set l \<Longrightarrow> mc_values c (fst x) = Some (snd x)"
  by (simp add: cache_represents_def)

lemma insert_evicts_least:
  assumes c: "cache_represents c l" and vv: "validated_new sizes al v = Some vv" "vv_memory_bytes vv \<le> mc_capacity_bytes c"
  shows "\<exists>c' dropped kept. cache_insert sizes al v c = Some (c', Stored True False dropped) \<and>
    mc_order c' = kept @ [stored_key vv] \<and> mc_values c' (stored_key vv) = Some (stored_entry vv) \<and>
    filter (\<lambda>i. i \<noteq> stored_key vv) (mc_order c) = dropped @ kept \<and>
    (\<forall>i \<in> set kept. mc_values c' i = mc_values c i) \<and>
    (dropped \<noteq> [] \<longrightarrow> mc_capacity_bytes c < cp_memory_bytes (the (mc_values c (last dropped))) + mc_used_bytes c')"
proof -
  have valid: "value_is_valid (vv_value vv)" using vv (1) by (auto simp: validated_new_def split: if_splits)
  let ?entry = "(stored_key vv, stored_entry vv)"
  obtain c' dropped kept where put: "put_value vv c = Some (c', map fst dropped)" "cache_represents c' (kept @ [?entry])"
      "without (stored_key vv) l = dropped @ kept"
      "dropped \<noteq> [] \<longrightarrow> mc_capacity_bytes c < cp_memory_bytes (snd (last dropped)) + total_charge cp_memory_bytes kept + cp_memory_bytes (stored_entry vv)"
    using memory_lru.put_evicts_least [OF c valid] vv (2) by auto
  have stored: "cache_insert sizes al v c = Some (c', Stored True False (map fst dropped))"
    using put (1) insert_represents [OF c valid vv (2)] vv (1) by (auto simp: put_value_def cache_insert_def)
  have order: "mc_order c = map fst l" "mc_order c' = map fst kept @ [stored_key vv]" and
      used: "mc_used_bytes c' = total_charge cp_memory_bytes kept + cp_memory_bytes (stored_entry vv)"
    using c put (2) by (simp_all add: cache_represents_def)
  have sub: "set (dropped @ kept) \<subseteq> set l" unfolding put (3) [symmetric] by auto
  note old = represents_lookup [OF c] and new = represents_lookup [OF put (2)]
  show ?thesis
  proof (intro exI conjI)
    show "cache_insert sizes al v c = Some (c', Stored True False (map fst dropped))" by (rule stored)
    show "mc_order c' = map fst kept @ [stored_key vv]" by (rule order (2))
    show "mc_values c' (stored_key vv) = Some (stored_entry vv)" using new [of ?entry] by simp
    show "filter (\<lambda>i. i \<noteq> stored_key vv) (mc_order c) = map fst dropped @ map fst kept"
      using put (3) by (simp add: order (1) map_fst_without [symmetric])
    show "\<forall>i \<in> set (map fst kept). mc_values c' i = mc_values c i" using new old sub by auto
    have "mc_values c (last (map fst dropped)) = Some (snd (last dropped))" if "dropped \<noteq> []"
    proof -
      have "last dropped \<in> set l" using sub last_in_set [OF that] by (simp only: set_append) blast
      then show ?thesis using old that by (simp add: last_map)
    qed
    then show "map fst dropped \<noteq> [] \<longrightarrow> mc_capacity_bytes c < cp_memory_bytes (the (mc_values c (last (map fst dropped)))) + mc_used_bytes c'"
      using put (4) used by (simp add: add.assoc)
  qed
qed

lemma lookup_of_list:
  assumes "map_iteration keys" and c: "cache_represents c l"
  shows "case best_match_in_scope keys c fingerprint prompt owner_scope of
      None \<Rightarrow> (\<forall>e \<in> ran (mc_values c). \<forall>n. \<not> reusable fingerprint prompt owner_scope e n) \<and>
        lookup_in_scope keys fingerprint prompt owner_scope now_ms c = (c, None) \<and>
        lookup_shared_in_scope keys fingerprint prompt owner_scope now_ms c = (c, None)
    | Some m \<Rightarrow> \<exists>e. mc_values c (ma_id m) = Some e \<and> value_is_valid (cp_value e) \<and>
        reusable fingerprint prompt owner_scope e (ma_matched_tokens m) \<and>
        ma_id m = cm_id (cv_metadata (cp_value e)) \<and> ma_tier m = cm_tier (cv_metadata (cp_value e)) \<and>
        (ma_exact m \<longleftrightarrow> ma_matched_tokens m + 1 = length prompt) \<and>
        (\<forall>e' \<in> ran (mc_values c). \<forall>n. reusable fingerprint prompt owner_scope e' n \<longrightarrow>
           (n, cp_last_used_at_ms e', cm_id (cv_metadata (cp_value e'))) \<le> (ma_matched_tokens m, cp_last_used_at_ms e, ma_id m)) \<and>
        snd (lookup_shared_in_scope keys fingerprint prompt owner_scope now_ms c) = Some (cp_value e) \<and>
        snd (lookup_in_scope keys fingerprint prompt owner_scope now_ms c) =
          Some ((cp_value e)\<lparr>cv_metadata := (cv_metadata (cp_value e))\<lparr>cm_last_used_at_ms := now_ms\<rparr>\<rparr>)"
proof -
  define xs where "xs = filter (usable fingerprint prompt owner_scope) (map snd l)"
  let ?max = "max_by (\<lambda>a b. cmp (match_key prompt a) (match_key prompt b)) xs"
  have best: "best_match_in_scope keys c fingerprint prompt owner_scope = map_option (match_of prompt) ?max"
    by (simp only: best_match_of_list [OF assms] select_match_key xs_def)
  have ran: "ran (mc_values c) = snd ` set l" using c by (simp add: cache_represents_def ran_distinct)
  show ?thesis
  proof (cases ?max)
    case None
    then have "xs = []" by (simp add: max_by_None_iff)
    then have "\<forall>e \<in> snd ` set l. \<not> usable fingerprint prompt owner_scope e" by (simp add: xs_def filter_empty_conv)
    then show ?thesis using None by (simp add: best ran lookup_in_scope_def lookup_shared_in_scope_def reusable_iff_usable)
  next
    case (Some e)
    have e: "e \<in> snd ` set l" "usable fingerprint prompt owner_scope e" and most: "\<forall>e' \<in> set xs. match_key prompt e' \<le> match_key prompt e"
      using max_by_greatest [OF Some] by (simp_all add: xs_def)
    then obtain i where "(i, e) \<in> set l" by auto
    then have i: "mc_values c i = Some e" "cm_id (cv_metadata (cp_value e)) = i" "value_is_valid (cp_value e)"
      using represents_lookup [OF c, of "(i, e)"] c by (auto simp: cache_represents_def)
    define m where "m = match_of prompt e"
    have m: "ma_id m = i" "ma_tier m = cm_tier (cv_metadata (cp_value e))" "ma_exact m \<longleftrightarrow> ma_matched_tokens m + 1 = length prompt"
      and matched: "ma_matched_tokens m = common_prefix_tokens (cm_token_ids (cv_metadata (cp_value e))) prompt"
      by (simp_all add: m_def match_of_def Let_def i (2))
    have "\<forall>e' \<in> ran (mc_values c). \<forall>n. reusable fingerprint prompt owner_scope e' n \<longrightarrow>
        (n, cp_last_used_at_ms e', cm_id (cv_metadata (cp_value e'))) \<le> (ma_matched_tokens m, cp_last_used_at_ms e, ma_id m)"
      using most by (auto simp: ran xs_def reusable_iff_usable match_key_def matched m (1) i (2))
    moreover have "reusable fingerprint prompt owner_scope e (ma_matched_tokens m)" using e (2) by (simp add: reusable_iff_usable matched)
    moreover have "snd (get_shared i now_ms c) = Some (cp_value e)" using i (1) by (simp add: get_shared_def Let_def)
    moreover have "snd (cache_get i now_ms c) = Some ((cp_value e)\<lparr>cv_metadata := (cv_metadata (cp_value e))\<lparr>cm_last_used_at_ms := now_ms\<rparr>\<rparr>)"
      using i (1) by (simp add: cache_get_def get_shared_def Let_def)
    moreover have "best_match_in_scope keys c fingerprint prompt owner_scope = Some m" using Some by (simp add: best m_def)
    ultimately show ?thesis using i m (2,3) by (simp add: lookup_in_scope_def lookup_shared_in_scope_def m (1))
  qed
qed

section \<open>Properties\<close>

text \<open>Values to evaluate the properties on: entries of 200 bytes, and iteration in the order of the keys.\<close>

definition ordered_keys :: "(byte_slice \<rightharpoonup> cached_prefix) \<Rightarrow> byte_slice list" where
  "ordered_keys m = sorted_list_of_set (dom m)"

lemma ordered_keys_iteration: "map_iteration ordered_keys"
  by (simp add: map_iteration_def ordered_keys_def)

definition sample_fingerprint :: cache_fingerprint where
  "sample_fingerprint = \<lparr>fp_prompt_form = Chat, fp_prompt_token_policy = ChatTemplate, fp_model_sha256 = [109], fp_binding_version = [],
     fp_build_id = [], fp_tokenizer_sha256 = [], fp_chat_template_sha256 = [], fp_multimodal_projector_sha256 = None,
     fp_lora_adapters_sha256 = [], fp_context_tokens = 8192, fp_batch_tokens = 512, fp_max_sequences = 4,
     fp_device = [99], fp_rope_config_sha256 = [], fp_kv_layout_sha256 = []\<rparr>"

definition sample_value :: "byte_slice \<Rightarrow> int list \<Rightarrow> cache_value" where
  "sample_value i tokens =
     \<lparr>cv_metadata = metadata_new i SessionPersistent sample_fingerprint tokens 1 5,
      cv_sequence = \<lparr>sb_sequence_id = 0, sb_token_count = length tokens, sb_bytes = [7], sb_token_ids = tokens, sb_cells = [],
        sb_storage_proof = None\<rparr>\<rparr>"

definition sample_layout :: layout where
  "sample_layout = \<lparr>sz_prefix_cache_value = 40, sz_cached_prefix = 40, sz_sequence_cell = 40\<rparr>"

definition sample_allocation :: allocation where
  "sample_allocation = \<lparr>al_id = 1, al_owner_id = 0, al_label = 1, al_token_ids = 2, al_sequence_tokens = 2, al_cells = 0, al_metadata_cells = 0,
     al_bytes = 10, al_header = 0, al_lora_adapters = 0, al_projector = 0, al_texts = [1, 0, 0, 0, 0, 1, 0, 0], al_lora_texts = []\<rparr>"

text \<open>C26. The in-memory tier is a least-recently-used cache: after any sequence of calls on a new cache it holds
  exactly the entries of the list that the calls give on the specification, in its order, and is charged exactly the
  sum of their sizes, which never exceeds the capacity. No call panics, whatever the order in which hash maps are
  iterated.\<close>

theorem memory_cache_refines_lru:
  assumes "map_iteration keys" "capacity \<le> USIZE_MAX"
  shows "\<exists>c. cache_run keys calls (memory_cache_new capacity) = Some c \<and> distinct (mc_order c) \<and>
    mc_order c = map fst (lru_run capacity calls) \<and> mc_values c = map_of (lru_run capacity calls) \<and>
    mc_used_bytes c = total_charge cp_memory_bytes (lru_run capacity calls) \<and> mc_used_bytes c \<le> capacity"
proof -
  obtain c where c: "cache_run keys calls (memory_cache_new capacity) = Some c" "mc_capacity_bytes c = capacity"
      "cache_represents c (lru_run capacity calls)" using reachable_represents [OF assms] .
  then show ?thesis using memory_lru.budget [OF c (3)] memory_lru.keys [OF c (3)] by (auto simp: cache_represents_def)
qed

theorem memory_cache_refines_lru_witness:
  "\<exists>c. cache_run ordered_keys [Call_Insert sample_layout sample_allocation (sample_value [65] [1, 2]),
      Call_Insert sample_layout sample_allocation (sample_value [66] [1, 3]), Call_Get [65] 9,
      Call_Insert sample_layout sample_allocation (sample_value [67] [4])] (memory_cache_new 450) = Some c \<and>
    mc_order c = [[65], [67]] \<and> mc_used_bytes c \<le> 450"
proof -
  let ?calls = "[Call_Insert sample_layout sample_allocation (sample_value [65] [1, 2]),
      Call_Insert sample_layout sample_allocation (sample_value [66] [1, 3]), Call_Get [65] 9,
      Call_Insert sample_layout sample_allocation (sample_value [67] [4])]"
  have "map fst (lru_run 450 ?calls) = [[65], [67]]" by code_simp
  then show ?thesis
    using memory_cache_refines_lru [OF ordered_keys_iteration, of 450 ?calls] by (auto simp: USIZE_MAX_def U64_MAX_def)
qed

text \<open>An insertion that is admitted stores the entry as the most recent one under its identity, keeps the
  other entries in their order, and evicts from the least recently used end only, and only while the rest does not fit;
  the outcome names exactly the evicted entries. A replaced entry of the same identity is not counted as evicted.\<close>

theorem cache_insert_evicts_least:
  assumes "map_iteration keys" "capacity \<le> USIZE_MAX" "cache_run keys calls (memory_cache_new capacity) = Some c"
    and "validated_new sizes al v = Some vv" "vv_memory_bytes vv \<le> capacity"
  shows "\<exists>c' dropped kept. cache_insert sizes al v c = Some (c', Stored True False dropped) \<and>
    mc_order c' = kept @ [stored_key vv] \<and> mc_values c' (stored_key vv) = Some (stored_entry vv) \<and>
    filter (\<lambda>i. i \<noteq> stored_key vv) (mc_order c) = dropped @ kept \<and>
    (\<forall>i \<in> set kept. mc_values c' i = mc_values c i) \<and>
    (dropped \<noteq> [] \<longrightarrow> capacity < cp_memory_bytes (the (mc_values c (last dropped))) + mc_used_bytes c')"
proof -
  obtain c0 where "cache_run keys calls (memory_cache_new capacity) = Some c0" "mc_capacity_bytes c0 = capacity"
      "cache_represents c0 (lru_run capacity calls)" using reachable_represents [OF assms (1,2)] .
  then have c: "mc_capacity_bytes c = capacity" "cache_represents c (lru_run capacity calls)" using assms (3) by simp_all
  show ?thesis using insert_evicts_least [OF c (2) assms (4)] assms (5) unfolding c (1) by blast
qed

theorem cache_insert_evicts_least_witness:
  "\<exists>c c' vv. cache_run ordered_keys [Call_Insert sample_layout sample_allocation (sample_value [65] [1, 2]),
      Call_Insert sample_layout sample_allocation (sample_value [66] [1, 3])] (memory_cache_new 450) = Some c \<and>
    validated_new sample_layout sample_allocation (sample_value [67] [4]) = Some vv \<and>
    (\<exists>dropped. cache_insert sample_layout sample_allocation (sample_value [67] [4]) c = Some (c', Stored True False dropped)) \<and>
    mc_values c' [67] = Some (stored_entry vv)"
proof -
  let ?calls = "[Call_Insert sample_layout sample_allocation (sample_value [65] [1, 2]),
      Call_Insert sample_layout sample_allocation (sample_value [66] [1, 3])]"
  let ?v = "sample_value [67] [4]"
  have cap: "(450 :: nat) \<le> USIZE_MAX" by (simp add: USIZE_MAX_def U64_MAX_def)
  obtain c where c: "cache_run ordered_keys ?calls (memory_cache_new 450) = Some c" using reachable_represents [OF ordered_keys_iteration cap] .
  have "case validated_new sample_layout sample_allocation ?v of None \<Rightarrow> False | Some vv \<Rightarrow> vv_memory_bytes vv \<le> 450 \<and> stored_key vv = [67]"
    by code_simp
  then obtain vv where vv: "validated_new sample_layout sample_allocation ?v = Some vv" "vv_memory_bytes vv \<le> 450" "stored_key vv = [67]"
    by (auto split: option.splits)
  from cache_insert_evicts_least [OF ordered_keys_iteration cap c vv (1,2)] show ?thesis using c vv (1,3) by auto
qed

text \<open>C27. Selecting a prefix never crosses a configuration or an owner, and finds the best one. An entry can be reused
  for \<open>n\<close> tokens when it has the requested fingerprint, belongs to exactly the requested owner (to no owner when the
  request names none), and \<open>n\<close> is positive and the greatest number of tokens on which the entry and the prompt agree
  from the start, short of the prompt's last token. When nothing is found, no stored entry can be reused and a lookup
  changes nothing. What is found is a stored, valid entry that can be reused for the reported number of tokens, flagged
  exact when only the last token of the prompt is left; every entry that can be reused comes at or below it in the order
  of matched tokens, then last use, then identifier; and both lookups return that entry's value.\<close>

theorem cache_lookup_exact:
  assumes "map_iteration keys" "capacity \<le> USIZE_MAX" "cache_run keys calls (memory_cache_new capacity) = Some c"
  shows "case best_match_in_scope keys c fingerprint prompt owner_scope of
      None \<Rightarrow> (\<forall>e \<in> ran (mc_values c). \<forall>n. \<not> reusable fingerprint prompt owner_scope e n) \<and>
        lookup_in_scope keys fingerprint prompt owner_scope now_ms c = (c, None) \<and>
        lookup_shared_in_scope keys fingerprint prompt owner_scope now_ms c = (c, None)
    | Some m \<Rightarrow> \<exists>e. mc_values c (ma_id m) = Some e \<and> value_is_valid (cp_value e) \<and>
        reusable fingerprint prompt owner_scope e (ma_matched_tokens m) \<and>
        ma_id m = cm_id (cv_metadata (cp_value e)) \<and> ma_tier m = cm_tier (cv_metadata (cp_value e)) \<and>
        (ma_exact m \<longleftrightarrow> ma_matched_tokens m + 1 = length prompt) \<and>
        (\<forall>e' \<in> ran (mc_values c). \<forall>n. reusable fingerprint prompt owner_scope e' n \<longrightarrow>
           (n, cp_last_used_at_ms e', cm_id (cv_metadata (cp_value e'))) \<le> (ma_matched_tokens m, cp_last_used_at_ms e, ma_id m)) \<and>
        snd (lookup_shared_in_scope keys fingerprint prompt owner_scope now_ms c) = Some (cp_value e) \<and>
        snd (lookup_in_scope keys fingerprint prompt owner_scope now_ms c) =
          Some ((cp_value e)\<lparr>cv_metadata := (cv_metadata (cp_value e))\<lparr>cm_last_used_at_ms := now_ms\<rparr>\<rparr>)"
proof -
  obtain c0 where "cache_run keys calls (memory_cache_new capacity) = Some c0"
      "cache_represents c0 (lru_run capacity calls)" using reachable_represents [OF assms (1,2)] .
  then have c: "cache_represents c (lru_run capacity calls)" using assms (3) by simp
  show ?thesis using lookup_of_list [OF assms (1) c] .
qed

theorem cache_lookup_exact_witness:
  "\<exists>c m e. cache_run ordered_keys [Call_Insert sample_layout sample_allocation (sample_value [65] [1, 2, 3]),
      Call_Insert sample_layout sample_allocation (sample_value [66] [1, 7])] (memory_cache_new 1000) = Some c \<and>
    best_match_in_scope ordered_keys c sample_fingerprint [1, 2, 3] Unowned = Some m \<and>
    ma_id m = [65] \<and> ma_matched_tokens m = 2 \<and> ma_exact m \<and> mc_values c [65] = Some e \<and>
    reusable sample_fingerprint [1, 2, 3] Unowned e 2 \<and>
    snd (lookup_shared_in_scope ordered_keys sample_fingerprint [1, 2, 3] Unowned 0 c) = Some (cp_value e) \<and>
    best_match_in_scope ordered_keys c sample_fingerprint [1, 2, 3] (Exact [79]) = None \<and>
    lookup_in_scope ordered_keys sample_fingerprint [1, 2, 3] (Exact [79]) 0 c = (c, None)"
proof -
  let ?calls = "[Call_Insert sample_layout sample_allocation (sample_value [65] [1, 2, 3]),
      Call_Insert sample_layout sample_allocation (sample_value [66] [1, 7])]"
  have cap: "(1000 :: nat) \<le> USIZE_MAX" by (simp add: USIZE_MAX_def U64_MAX_def)
  obtain c where c: "cache_run ordered_keys ?calls (memory_cache_new 1000) = Some c" "cache_represents c (lru_run 1000 ?calls)"
    using reachable_represents [OF ordered_keys_iteration cap] .
  have "select_match sample_fingerprint [1, 2, 3] Unowned (map snd (lru_run 1000 ?calls)) =
      Some \<lparr>ma_id = [65], ma_tier = MemoryLru, ma_matched_tokens = 2, ma_exact = True\<rparr>"
    "select_match sample_fingerprint [1, 2, 3] (Exact [79]) (map snd (lru_run 1000 ?calls)) = None" by code_simp+
  then have m: "best_match_in_scope ordered_keys c sample_fingerprint [1, 2, 3] Unowned =
      Some \<lparr>ma_id = [65], ma_tier = MemoryLru, ma_matched_tokens = 2, ma_exact = True\<rparr>"
    "best_match_in_scope ordered_keys c sample_fingerprint [1, 2, 3] (Exact [79]) = None"
    by (simp_all add: best_match_of_list [OF ordered_keys_iteration c (2)])
  note found = cache_lookup_exact [OF ordered_keys_iteration cap c (1), of sample_fingerprint "[1, 2, 3]"]
  from found [of Unowned 0] m (1) found [of "Exact [79]" 0] m (2) show ?thesis using c (1) by auto
qed

end
