(* ===== verification/Text_Merge.thy ===== *)
theory Text_Merge
  imports Unicode_Text "HOL-Library.Product_Lexorder" "HOL-Library.List_Lexorder"
begin

text \<open>
  The three-way merge of visible document text, \<open>products/loom/crates/loom-document/src/merge.rs\<close>.

  Strings are those of \<open>Unicode_Text\<close>. The order of strings, which Rust takes on
  the bytes, is the lexicographic order of the scalars (UTF-8 preserves it). The diff engine of the \<open>similar\<close>
  crate is the parameter \<open>capture\<close>; what is relied on of it is \<open>diff_engine\<close> below, its documented contract that
  the operations it returns transform the old sequence into the new one.
\<close>

section \<open>Data\<close>

record merge_budget =
  mb_max_input_bytes :: nat
  mb_max_changed_scalars :: nat
  mb_max_diff_work :: nat
  mb_max_changes :: nat
  mb_max_output_bytes :: nat

definition DEFAULT_MERGE_BUDGET :: merge_budget where
  "DEFAULT_MERGE_BUDGET = \<lparr>mb_max_input_bytes = 16 * 1024 * 1024, mb_max_changed_scalars = 64 * 1024,
     mb_max_diff_work = 64 * 1024 * 1024, mb_max_changes = 16 * 1024, mb_max_output_bytes = 48 * 1024 * 1024\<rparr>"

datatype merge_metric = InputBytes | ChangedScalars | DiffWork | ConflictComparisons | Changes | OutputBytes

datatype merge_conflict_kind = CompetingInsertions | OverlappingEdits

record byte_range =
  br_start :: nat
  br_end :: nat

record conflict_span =
  cs_range :: byte_range
  cs_text :: ustr

record merge_conflict =
  mc_kind :: merge_conflict_kind
  mc_base :: conflict_span
  mc_app_base_range :: byte_range
  mc_app :: conflict_span
  mc_external_base_range :: byte_range
  mc_external :: conflict_span

datatype merge_outcome = Merged ustr | Conflict "merge_conflict list"

datatype merge_error =
    HybridMetadataRequired
  | BudgetExceeded merge_metric nat nat
  | RangeTooLarge
  | InvalidEditScript

datatype document_kind = Hybrid | Prose | Verse

text \<open>\<open>Range<usize>\<close> is the pair of its ends.\<close>

type_synonym span = "nat \<times> nat"

definition span_empty :: "span \<Rightarrow> bool" where
  "span_empty r \<longleftrightarrow> \<not> fst r < snd r"

definition span_len :: "span \<Rightarrow> nat" where
  "span_len r = snd r - fst r"

record change =
  ch_base :: span
  ch_side :: span
  ch_replacement :: ustr

datatype diff_tag = Tag_Equal | Tag_Delete | Tag_Insert | Tag_Replace

record diff_op =
  op_tag :: diff_tag
  op_old :: span
  op_new :: span

section \<open>Budgets and ranges\<close>

definition mg_usize_to_u64 :: "nat \<Rightarrow> (nat, merge_error) result" where
  "mg_usize_to_u64 n = ok_or RangeTooLarge (try_from U64_MAX n)"

definition ensure_budget :: "merge_metric \<Rightarrow> nat \<Rightarrow> nat \<Rightarrow> (unit, merge_error) result" where
  "ensure_budget metric actual limit = (if limit < actual then Err (BudgetExceeded metric actual limit) else Ok ())"

definition ensure_input_budget :: "ustr \<Rightarrow> ustr \<Rightarrow> ustr \<Rightarrow> merge_budget \<Rightarrow> (unit, merge_error) result" where
  "ensure_input_budget base app external budget =
     (let actual = max (max (str_len base) (str_len app)) (str_len external) in
      res_bind (mg_usize_to_u64 actual) (\<lambda>actual. ensure_budget InputBytes actual (mb_max_input_bytes budget)))"

definition ensure_output_budget :: "nat \<Rightarrow> merge_budget \<Rightarrow> (unit, merge_error) result" where
  "ensure_output_budget actual budget =
     res_bind (mg_usize_to_u64 actual) (\<lambda>actual. ensure_budget OutputBytes actual (mb_max_output_bytes budget))"

definition public_range :: "span \<Rightarrow> (byte_range, merge_error) result" where
  "public_range r =
     res_bind (mg_usize_to_u64 (fst r)) (\<lambda>a. res_bind (mg_usize_to_u64 (snd r)) (\<lambda>b. Ok \<lparr>br_start = a, br_end = b\<rparr>))"

definition conflict_span_of :: "ustr \<Rightarrow> span \<Rightarrow> (conflict_span, merge_error) result" where
  "conflict_span_of s r =
     res_bind (public_range r) (\<lambda>range.
     res_bind (ok_or InvalidEditScript (str_get s (fst r) (snd r))) (\<lambda>t. Ok \<lparr>cs_range = range, cs_text = t\<rparr>))"

section \<open>The changes of one side\<close>

text \<open>The common prefix and suffix. Slicing at \<open>prefix_bytes\<close> drops the characters of the prefix.\<close>

definition common_edge :: "'a list \<Rightarrow> 'a list \<Rightarrow> 'a list" where
  "common_edge left right = map fst (takeWhile (\<lambda>(l, r). l = r) (zip left right))"

definition common_utf8_edges :: "ustr \<Rightarrow> ustr \<Rightarrow> nat \<times> nat" where
  "common_utf8_edges left right =
     (let prefix = common_edge left right;
          left_remaining = drop (length prefix) left;
          right_remaining = drop (length prefix) right
      in (str_len prefix, str_len (common_edge (rev left_remaining) (rev right_remaining))))"

definition utf8_offsets :: "ustr \<Rightarrow> nat list" where
  "utf8_offsets s = map (\<lambda>i. str_len (take i s)) [0 ..< length s] @ [str_len s]"

definition offset_at :: "nat \<Rightarrow> nat list \<Rightarrow> nat \<Rightarrow> (nat, merge_error) result" where
  "offset_at prefix_bytes offsets i =
     ok_or InvalidEditScript
       (Option.bind (if i < length offsets then Some (offsets ! i) else None) (checked_add USIZE_MAX prefix_bytes))"

definition offset_range :: "nat \<Rightarrow> nat list \<Rightarrow> span \<Rightarrow> (span, merge_error) result" where
  "offset_range prefix_bytes offsets r =
     res_bind (offset_at prefix_bytes offsets (fst r)) (\<lambda>a.
     res_bind (offset_at prefix_bytes offsets (snd r)) (\<lambda>b. Ok (a, b)))"

text \<open>The loop over the operations. The changes found so far are kept with the last one first.\<close>

fun collect_changes ::
  "ustr \<Rightarrow> nat \<Rightarrow> nat list \<Rightarrow> nat list \<Rightarrow> diff_op list \<Rightarrow> change list \<Rightarrow> (change list, merge_error) result" where
  "collect_changes side prefix_bytes base_offsets side_offsets [] changes = Ok (rev changes)"
| "collect_changes side prefix_bytes base_offsets side_offsets (op # ops) changes =
     (if op_tag op = Tag_Equal then collect_changes side prefix_bytes base_offsets side_offsets ops changes
      else
        res_bind (offset_range prefix_bytes base_offsets (op_old op)) (\<lambda>base_range.
        res_bind (offset_range prefix_bytes side_offsets (op_new op)) (\<lambda>side_range.
        res_bind (ok_or InvalidEditScript (str_get side (fst side_range) (snd side_range))) (\<lambda>replacement.
          (case changes of
             previous # before \<Rightarrow>
               if snd (ch_base previous) = fst base_range \<and> snd (ch_side previous) = fst side_range
               then collect_changes side prefix_bytes base_offsets side_offsets ops
                      (\<lparr>ch_base = (fst (ch_base previous), snd base_range),
                        ch_side = (fst (ch_side previous), snd side_range),
                        ch_replacement = ch_replacement previous @ replacement\<rparr> # before)
               else collect_changes side prefix_bytes base_offsets side_offsets ops
                      (\<lparr>ch_base = base_range, ch_side = side_range, ch_replacement = replacement\<rparr> # changes)
           | [] \<Rightarrow> collect_changes side prefix_bytes base_offsets side_offsets ops
                      [\<lparr>ch_base = base_range, ch_side = side_range, ch_replacement = replacement\<rparr>])))))"

definition diff_changes ::
  "(ustr \<Rightarrow> ustr \<Rightarrow> diff_op list) \<Rightarrow> ustr \<Rightarrow> ustr \<Rightarrow> merge_budget \<Rightarrow> (change list, merge_error) result" where
  "diff_changes capture base side budget =
     (if base = side then Ok []
      else case common_utf8_edges base side of (prefix_bytes, suffix_bytes) \<Rightarrow>
        res_bind (ok_or InvalidEditScript (checked_sub (str_len base) suffix_bytes)) (\<lambda>base_middle_end.
        res_bind (ok_or InvalidEditScript (checked_sub (str_len side) suffix_bytes)) (\<lambda>side_middle_end.
        res_bind (ok_or InvalidEditScript (str_get base prefix_bytes base_middle_end)) (\<lambda>base_middle.
        res_bind (ok_or InvalidEditScript (str_get side prefix_bytes side_middle_end)) (\<lambda>side_middle.
        res_bind (mg_usize_to_u64 (length base_middle)) (\<lambda>base_scalar_count.
        res_bind (mg_usize_to_u64 (length side_middle)) (\<lambda>side_scalar_count.
        res_bind (ensure_budget ChangedScalars (saturating_add U64_MAX base_scalar_count side_scalar_count)
                    (mb_max_changed_scalars budget)) (\<lambda>_.
        res_bind (ensure_budget DiffWork (saturating_mul U64_MAX base_scalar_count side_scalar_count)
                    (mb_max_diff_work budget)) (\<lambda>_.
        res_bind (collect_changes side prefix_bytes (utf8_offsets base_middle) (utf8_offsets side_middle)
                    (capture base_middle side_middle) []) (\<lambda>changes.
        res_bind (mg_usize_to_u64 (length changes)) (\<lambda>count.
        res_bind (ensure_budget Changes count (mb_max_changes budget)) (\<lambda>_. Ok changes))))))))))))"

section \<open>Conflicts\<close>

definition changes_overlap :: "change \<Rightarrow> change \<Rightarrow> bool" where
  "changes_overlap left right =
     (case (span_empty (ch_base left), span_empty (ch_base right)) of
        (True, True) \<Rightarrow> fst (ch_base left) = fst (ch_base right)
      | (True, False) \<Rightarrow> fst (ch_base right) < fst (ch_base left) \<and> fst (ch_base left) < snd (ch_base right)
      | (False, True) \<Rightarrow> fst (ch_base left) < fst (ch_base right) \<and> fst (ch_base right) < snd (ch_base left)
      | (False, False) \<Rightarrow> fst (ch_base left) < snd (ch_base right) \<and> fst (ch_base right) < snd (ch_base left))"

definition equivalent_change :: "change \<Rightarrow> change \<Rightarrow> bool" where
  "equivalent_change left right \<longleftrightarrow> ch_base left = ch_base right \<and> ch_replacement left = ch_replacement right"

fun conflict_loop ::
  "ustr \<Rightarrow> ustr \<Rightarrow> ustr \<Rightarrow> merge_budget \<Rightarrow> (change \<times> change) list \<Rightarrow> merge_conflict list \<Rightarrow> nat \<Rightarrow>
     (merge_conflict list, merge_error) result" where
  "conflict_loop base app external budget [] conflicts payload = Ok conflicts"
| "conflict_loop base app external budget ((a, e) # pairs) conflicts payload =
     (if \<not> changes_overlap a e \<or> equivalent_change a e then conflict_loop base app external budget pairs conflicts payload
      else
        let base_range = (min (fst (ch_base a)) (fst (ch_base e)), max (snd (ch_base a)) (snd (ch_base e))) in
        res_bind (mg_usize_to_u64 (length conflicts)) (\<lambda>count.
        res_bind (ensure_budget Changes (saturating_add U64_MAX count 1) (mb_max_changes budget)) (\<lambda>_.
        res_bind (mg_usize_to_u64 (span_len base_range)) (\<lambda>base_len.
        res_bind (mg_usize_to_u64 (span_len (ch_side a))) (\<lambda>app_len.
        res_bind (mg_usize_to_u64 (span_len (ch_side e))) (\<lambda>external_len.
        let payload = saturating_add U64_MAX (saturating_add U64_MAX (saturating_add U64_MAX payload base_len) app_len) external_len in
        res_bind (ensure_budget OutputBytes payload (mb_max_output_bytes budget)) (\<lambda>_.
        res_bind (conflict_span_of base base_range) (\<lambda>base_span.
        res_bind (public_range (ch_base a)) (\<lambda>app_base_range.
        res_bind (conflict_span_of app (ch_side a)) (\<lambda>app_span.
        res_bind (public_range (ch_base e)) (\<lambda>external_base_range.
        res_bind (conflict_span_of external (ch_side e)) (\<lambda>external_span.
          conflict_loop base app external budget pairs
            (conflicts @ [\<lparr>mc_kind = (if span_empty (ch_base a) \<and> span_empty (ch_base e) then CompetingInsertions
                                      else OverlappingEdits),
               mc_base = base_span, mc_app_base_range = app_base_range, mc_app = app_span,
               mc_external_base_range = external_base_range, mc_external = external_span\<rparr>]) payload))))))))))))"

definition find_conflicts ::
  "ustr \<Rightarrow> ustr \<Rightarrow> ustr \<Rightarrow> change list \<Rightarrow> change list \<Rightarrow> merge_budget \<Rightarrow> (merge_conflict list, merge_error) result" where
  "find_conflicts base app external app_changes external_changes budget =
     res_bind (mg_usize_to_u64 (length app_changes)) (\<lambda>n.
     res_bind (mg_usize_to_u64 (length external_changes)) (\<lambda>m.
     res_bind (ensure_budget ConflictComparisons (saturating_mul U64_MAX n m) (mb_max_diff_work budget)) (\<lambda>_.
       conflict_loop base app external budget (List.product app_changes external_changes) [] 0)))"

section \<open>Applying changes\<close>

fun output_length_after :: "nat \<Rightarrow> change list \<Rightarrow> nat \<Rightarrow> nat \<Rightarrow> (nat, merge_error) result" where
  "output_length_after base_len [] cursor output_length = Ok output_length"
| "output_length_after base_len (c # cs) cursor output_length =
     (if fst (ch_base c) < cursor \<or> base_len < snd (ch_base c) then Err InvalidEditScript
      else
        res_bind (ok_or RangeTooLarge
          (Option.bind (checked_sub output_length (span_len (ch_base c)))
             (\<lambda>n. checked_add USIZE_MAX n (str_len (ch_replacement c))))) (\<lambda>output_length.
          output_length_after base_len cs (snd (ch_base c)) output_length))"

fun splice :: "ustr \<Rightarrow> change list \<Rightarrow> nat \<Rightarrow> (ustr, merge_error) result" where
  "splice base [] cursor = ok_or InvalidEditScript (str_get base cursor (str_len base))"
| "splice base (c # cs) cursor =
     res_bind (ok_or InvalidEditScript (str_get base cursor (fst (ch_base c)))) (\<lambda>kept.
     res_bind (splice base cs (snd (ch_base c))) (\<lambda>rest. Ok (kept @ ch_replacement c @ rest)))"

definition apply_changes :: "ustr \<Rightarrow> change list \<Rightarrow> merge_budget \<Rightarrow> (merge_outcome, merge_error) result" where
  "apply_changes base changes budget =
     res_bind (output_length_after (str_len base) changes 0 (str_len base)) (\<lambda>output_length.
     res_bind (ensure_output_budget output_length budget) (\<lambda>_.
     res_bind (splice base changes 0) (\<lambda>content.
       if str_len content \<noteq> output_length then Err InvalidEditScript else Ok (Merged content))))"

section \<open>The merge\<close>

definition change_key :: "change \<Rightarrow> nat \<times> nat \<times> ustr" where
  "change_key c = (fst (ch_base c), snd (ch_base c), ch_replacement c)"

definition combine_changes :: "change list \<Rightarrow> change list \<Rightarrow> change list" where
  "combine_changes app_changes external_changes =
     sort_key change_key
       (foldl (\<lambda>changes e. if list_ex (\<lambda>a. equivalent_change a e) changes then changes else changes @ [e])
          app_changes external_changes)"

definition three_way_merge_with_budget ::
  "(ustr \<Rightarrow> ustr \<Rightarrow> diff_op list) \<Rightarrow> document_kind \<Rightarrow> ustr \<Rightarrow> ustr \<Rightarrow> ustr \<Rightarrow> merge_budget \<Rightarrow>
     (merge_outcome, merge_error) result" where
  "three_way_merge_with_budget capture kind base app external budget =
     (if kind = Hybrid then Err HybridMetadataRequired
      else
        res_bind (ensure_input_budget base app external budget) (\<lambda>_.
        if app = external then res_bind (ensure_output_budget (str_len app) budget) (\<lambda>_. Ok (Merged app))
        else if app = base then res_bind (ensure_output_budget (str_len external) budget) (\<lambda>_. Ok (Merged external))
        else if external = base then res_bind (ensure_output_budget (str_len app) budget) (\<lambda>_. Ok (Merged app))
        else
          res_bind (diff_changes capture base app budget) (\<lambda>app_changes.
          res_bind (diff_changes capture base external budget) (\<lambda>external_changes.
          res_bind (find_conflicts base app external app_changes external_changes budget) (\<lambda>conflicts.
            if conflicts \<noteq> [] then Ok (Conflict conflicts)
            else apply_changes base (combine_changes app_changes external_changes) budget)))))"

definition three_way_merge ::
  "(ustr \<Rightarrow> ustr \<Rightarrow> diff_op list) \<Rightarrow> document_kind \<Rightarrow> ustr \<Rightarrow> ustr \<Rightarrow> ustr \<Rightarrow> (merge_outcome, merge_error) result" where
  "three_way_merge capture kind base app external =
     three_way_merge_with_budget capture kind base app external DEFAULT_MERGE_BUDGET"

section \<open>The diff engine\<close>

text \<open>Operations that transform \<open>old\<close> from \<open>i\<close> into \<open>new\<close> from \<open>j\<close>: their ranges follow each other without a gap
  up to the ends, and an equal operation covers equal elements.\<close>

fun edit_script :: "'a list \<Rightarrow> 'a list \<Rightarrow> nat \<Rightarrow> nat \<Rightarrow> diff_op list \<Rightarrow> bool" where
  "edit_script old new i j [] \<longleftrightarrow> i = length old \<and> j = length new"
| "edit_script old new i j (op # ops) \<longleftrightarrow>
     fst (op_old op) = i \<and> fst (op_new op) = j \<and> i \<le> snd (op_old op) \<and> j \<le> snd (op_new op) \<and>
     snd (op_old op) \<le> length old \<and> snd (op_new op) \<le> length new \<and>
     (op_tag op = Tag_Equal \<longrightarrow> take (snd (op_old op) - i) (drop i old) = take (snd (op_new op) - j) (drop j new)) \<and>
     edit_script old new (snd (op_old op)) (snd (op_new op)) ops"

definition diff_engine :: "(ustr \<Rightarrow> ustr \<Rightarrow> diff_op list) \<Rightarrow> bool" where
  "diff_engine capture \<longleftrightarrow> (\<forall>old new. edit_script old new 0 0 (capture old new))"

section \<open>The changes transform the base into the side\<close>

lemma common_edge_simps [simp]:
  "common_edge [] r = []" "common_edge l [] = []"
  "common_edge (a # l) (b # r) = (if a = b then a # common_edge l r else [])"
  by (simp_all add: common_edge_def)

lemma common_edge_prefix: "\<exists>l' r'. l = common_edge l r @ l' \<and> r = common_edge l r @ r'"
  by (induction l r rule: list_induct2') auto

lemma common_edges_split:
  obtains p bm sm q where "base = p @ bm @ q" "side = p @ sm @ q" "common_utf8_edges base side = (str_len p, str_len q)"
    "p = common_edge base side" "rev q = common_edge (rev (drop (length p) base)) (rev (drop (length p) side))"
proof -
  define p where "p = common_edge base side"
  obtain b' s' where b: "base = p @ b'" "side = p @ s'" using common_edge_prefix [of base side] p_def by blast
  define q where "q = common_edge (rev b') (rev s')"
  obtain x y where xy: "rev b' = q @ x" "rev s' = q @ y" using common_edge_prefix [of "rev b'" "rev s'"] q_def by blast
  then have "b' = rev x @ rev q" "s' = rev y @ rev q" by (metis rev_append rev_rev_ident)+
  moreover have "common_utf8_edges base side = (str_len p, str_len q)"
    by (simp add: common_utf8_edges_def p_def [symmetric] Let_def) (simp add: b q_def)
  moreover have "drop (length p) base = b'" "drop (length p) side = s'" by (simp_all add: b)
  ultimately show ?thesis using that [of p "rev x" "rev q" "rev y"] b (1,2) p_def q_def by (metis rev_rev_ident str_len_simps (4))
qed

text \<open>Changes, the last one first, with the text they produce and the position in the base they reach.
  Consecutive changes are separated by text that both keep.\<close>

inductive applied :: "ustr \<Rightarrow> change list \<Rightarrow> ustr \<Rightarrow> nat \<Rightarrow> bool" for base where
  applied_none: "applied base [] [] 0"
| applied_change:
    "applied base cs out i \<Longrightarrow> i \<le> j \<Longrightarrow> j \<le> k \<Longrightarrow> k \<le> length base \<Longrightarrow> (cs \<noteq> [] \<longrightarrow> i < j) \<Longrightarrow>
     ch_base c = (offset base j, offset base k) \<Longrightarrow>
     ch_side c = (str_len (out @ take (j - i) (drop i base)), str_len (out @ take (j - i) (drop i base) @ ch_replacement c)) \<Longrightarrow>
     applied base (c # cs) (out @ take (j - i) (drop i base) @ ch_replacement c) k"

inductive_cases applied_ConsE: "applied base (c # cs) out k"

lemma applied_bound: "applied base cs out k \<Longrightarrow> k \<le> length base"
  by (induction rule: applied.induct) simp_all

lemma applied_last:
  "applied base (c # cs) out k \<Longrightarrow> snd (ch_base c) = offset base k \<and> snd (ch_side c) = str_len out"
  by (auto elim: applied_ConsE)

lemma applied_extend:
  assumes "applied base (c # cs) out k" "k \<le> m" "m \<le> length base"
  shows "applied base (\<lparr>ch_base = (fst (ch_base c), offset base m), ch_side = (fst (ch_side c), str_len (out @ r)),
    ch_replacement = ch_replacement c @ r\<rparr> # cs) (out @ r) m"
proof -
  obtain out' i j where o: "applied base cs out' i" "i \<le> j" "j \<le> k" "cs \<noteq> [] \<longrightarrow> i < j"
      "ch_base c = (offset base j, offset base k)" "out = out' @ take (j - i) (drop i base) @ ch_replacement c"
      "fst (ch_side c) = str_len (out' @ take (j - i) (drop i base))"
    using assms (1) by (rule applied_ConsE) simp
  show ?thesis
    using applied_change [OF o (1,2), of m "\<lparr>ch_base = (fst (ch_base c), offset base m),
        ch_side = (fst (ch_side c), str_len (out @ r)), ch_replacement = ch_replacement c @ r\<rparr>"] o assms (2,3)
    by simp
qed

lemma utf8_offsets_nth: "i \<le> length m \<Longrightarrow> i < length (utf8_offsets m) \<and> utf8_offsets m ! i = offset m i"
  by (auto simp: utf8_offsets_def nth_append)

lemma offset_range_Ok:
  assumes "r = (i, j)" "i \<le> j" "j \<le> length m" "s = p @ m @ q" "str_len s \<le> USIZE_MAX"
  shows "offset_range (str_len p) (utf8_offsets m) r = Ok (offset s (length p + i), offset s (length p + j))"
proof -
  have o: "offset s (length p + k) = str_len p + offset m k" if "k \<le> length m" for k
    using that by (simp add: assms (4))
  have "str_len p + offset m k \<le> USIZE_MAX" if "k \<le> length m" for k
    using o [OF that] offset_mono [of "length p + k" "length s" s] that assms (4,5) by simp
  then show ?thesis
    using utf8_offsets_nth [of i m] utf8_offsets_nth [of j m] assms (1,2,3) o
    by (simp add: offset_range_def offset_at_def checked_add_def)
qed

text \<open>The loop keeps: what the changes so far produce, continued by unchanged base text, is the side so far.\<close>

definition collected :: "ustr \<Rightarrow> ustr \<Rightarrow> change list \<Rightarrow> nat \<Rightarrow> nat \<Rightarrow> bool" where
  "collected base side cs b t \<longleftrightarrow>
     (\<exists>out k. applied base cs out k \<and> k \<le> b \<and> b \<le> length base \<and> out @ take (b - k) (drop k base) = take t side)"

lemma collectedI: "applied base cs (take t side) b \<Longrightarrow> b \<le> length base \<Longrightarrow> collected base side cs b t"
  unfolding collected_def by (intro exI [of _ "take t side"] exI [of _ b]) simp

lemma take_drop_extend: "k \<le> b \<Longrightarrow> b \<le> d \<Longrightarrow> take (d - k) (drop k xs) = take (b - k) (drop k xs) @ take (d - b) (drop b xs)"
  using take_add [of "b - k" "d - b" "drop k xs"] by simp

lemma take_extend: "t \<le> u \<Longrightarrow> take u xs = take t xs @ take (u - t) (drop t xs)"
  using take_add [of t "u - t" xs] by simp

lemma collected_equal:
  assumes "collected base side cs b t" "b \<le> b'" "t \<le> t'" "b' \<le> length base"
    and "take (b' - b) (drop b base) = take (t' - t) (drop t side)"
  shows "collected base side cs b' t'"
proof -
  obtain out k where o: "applied base cs out k" "k \<le> b" "out @ take (b - k) (drop k base) = take t side"
    using assms (1) by (auto simp: collected_def)
  have "out @ take (b' - k) (drop k base) = take t' side"
    using o (3) take_drop_extend [OF o (2) assms (2), of base] take_extend [OF assms (3), of side] assms (5) by simp
  then show ?thesis using o assms (2,4) unfolding collected_def by (meson le_trans)
qed

lemma collected_change:
  assumes col: "collected base side cs b t" and b: "b \<le> b'" "b' \<le> length base" and t: "t \<le> t'" "t' \<le> length side"
  defines "r \<equiv> take (t' - t) (drop t side)"
  shows "collected base side
    (case cs of
       p # ps \<Rightarrow> if snd (ch_base p) = offset base b \<and> snd (ch_side p) = offset side t
         then \<lparr>ch_base = (fst (ch_base p), offset base b'), ch_side = (fst (ch_side p), offset side t'),
                ch_replacement = ch_replacement p @ r\<rparr> # ps
         else \<lparr>ch_base = (offset base b, offset base b'), ch_side = (offset side t, offset side t'), ch_replacement = r\<rparr> # cs
     | [] \<Rightarrow> [\<lparr>ch_base = (offset base b, offset base b'), ch_side = (offset side t, offset side t'), ch_replacement = r\<rparr>]) b' t'"
proof -
  obtain out k where o: "applied base cs out k" "k \<le> b" "out @ take (b - k) (drop k base) = take t side"
    using col by (auto simp: collected_def)
  have r: "take t' side = take t side @ r" unfolding r_def by (rule take_extend [OF t (1)])
  have len: "offset side t = str_len (out @ take (b - k) (drop k base))" unfolding o (3) ..
  have len': "offset side t' = str_len (out @ take (b - k) (drop k base) @ r)" unfolding r o (3) [symmetric] by simp
  let ?c = "\<lparr>ch_base = (offset base b, offset base b'), ch_side = (offset side t, offset side t'), ch_replacement = r\<rparr>"
  have push: "collected base side (?c # cs) b' t'" if "cs \<noteq> [] \<longrightarrow> k < b"
  proof -
    have "applied base (?c # cs) (out @ take (b - k) (drop k base) @ ch_replacement ?c) b'"
      by (rule applied_change [OF o (1,2) b that]) (simp_all only: change.simps len len')
    moreover have "out @ take (b - k) (drop k base) @ r = take t' side" using o (3) r by (metis append_assoc)
    ultimately have "applied base (?c # cs) (take t' side) b'" by (simp only: change.simps)
    then show ?thesis using b (2) by (rule collectedI)
  qed
  show ?thesis
  proof (cases cs)
    case Nil
    then show ?thesis using push by simp
  next
    case (Cons p ps)
    have last: "snd (ch_base p) = offset base k" "snd (ch_side p) = str_len out" using applied_last o (1) Cons by blast+
    show ?thesis
    proof (cases "k = b")
      case True
      then have "snd (ch_base p) = offset base b \<and> snd (ch_side p) = offset side t" using last len by simp
      moreover have "applied base (\<lparr>ch_base = (fst (ch_base p), offset base b'), ch_side = (fst (ch_side p), str_len (out @ r)),
          ch_replacement = ch_replacement p @ r\<rparr> # ps) (out @ r) b'"
        using applied_extend [of base p ps out k b' r] o (1) b True Cons by simp
      moreover have "offset side t' = str_len (out @ r)" "take t' side = out @ r" using len' True o (3) r by simp_all
      ultimately show ?thesis using Cons b (2) by (auto intro!: collectedI)
    next
      case False
      then have "k < b" using o (2) by simp
      moreover have "snd (ch_base p) \<noteq> offset base b"
        using last offset_eq_iff [of k base b] b False o (2) by auto
      ultimately show ?thesis using push Cons by simp
    qed
  qed
qed

section \<open>Patches\<close>

text \<open>A patch is a change with its place in the base counted in characters. The patches of a script are its operations
  that change something, with the text of the new sequence; patches that touch are fused.\<close>

type_synonym patch = "nat \<times> nat \<times> ustr"

definition patch_key :: "ustr \<Rightarrow> patch \<Rightarrow> nat \<times> nat \<times> ustr" where
  "patch_key base p = (case p of (j, k, r) \<Rightarrow> (offset base j, offset base k, r))"

definition patch_ok :: "ustr \<Rightarrow> patch \<Rightarrow> bool" where
  "patch_ok base p \<longleftrightarrow> fst p \<le> fst (snd p) \<and> fst (snd p) \<le> length base"

definition patches_of :: "ustr \<Rightarrow> change list \<Rightarrow> patch list \<Rightarrow> bool" where
  "patches_of base cs ps \<longleftrightarrow> map change_key cs = map (patch_key base) ps \<and> list_all (patch_ok base) ps"

lemma patches_of_Cons:
  "patches_of base (c # cs) ps \<longleftrightarrow>
     (\<exists>j k r qs. ps = (j, k, r) # qs \<and> ch_base c = (offset base j, offset base k) \<and> ch_replacement c = r \<and>
        j \<le> k \<and> k \<le> length base \<and> patches_of base cs qs)"
proof (cases ps)
  case (Cons p qs)
  obtain j k r where p: "p = (j, k, r)" using prod_cases3 .
  show ?thesis unfolding Cons p
    by (auto simp: patches_of_def change_key_def patch_key_def patch_ok_def prod_eq_iff)
qed (simp add: patches_of_def)

lemma patch_key_eq:
  "patch_ok base p \<Longrightarrow> patch_ok base q \<Longrightarrow> patch_key base p = patch_key base q \<longleftrightarrow> p = q"
  by (cases p; cases q) (auto simp: patch_key_def patch_ok_def offset_eq_iff)

lemma patches_of_unique: "patches_of base cs A \<Longrightarrow> patches_of base cs B \<Longrightarrow> A = B"
proof (rule map_inj_on)
  assume ps: "patches_of base cs A" "patches_of base cs B"
  then show "map (patch_key base) A = map (patch_key base) B" by (simp add: patches_of_def)
  have ok: "patch_ok base p" if "p \<in> set A \<union> set B" for p using that ps by (auto simp: patches_of_def list_all_iff)
  show "inj_on (patch_key base) (set A \<union> set B)"
    by (rule inj_onI) (simp only: patch_key_eq [OF ok ok])
qed

lemma patches_of_Nil: "patches_of base [] ps \<longleftrightarrow> ps = []"
  by (auto simp: patches_of_def)

definition op_patches :: "nat \<Rightarrow> ustr \<Rightarrow> diff_op list \<Rightarrow> patch list" where
  "op_patches n new ops =
     map (\<lambda>op. (n + fst (op_old op), n + snd (op_old op), take (snd (op_new op) - fst (op_new op)) (drop (fst (op_new op)) new)))
       (filter (\<lambda>op. op_tag op \<noteq> Tag_Equal) ops)"

fun fused :: "patch list \<Rightarrow> patch list" where
  "fused ((j, k, r) # (j', k', r') # ps) =
     (if k = j' then fused ((j, k', r @ r') # ps) else (j, k, r) # fused ((j', k', r') # ps))"
| "fused ps = ps"

fun add_patch :: "patch list \<Rightarrow> patch \<Rightarrow> patch list" where
  "add_patch ((j, k, r) # P) (j', k', r') = (if k = j' then (j, k', r @ r') # P else (j', k', r') # (j, k, r) # P)"
| "add_patch [] q = [q]"

lemma fold_add_patch: "rev (foldl add_patch (q # P) ps) = rev P @ fused (q # ps)"
proof (induction ps arbitrary: q P)
  case (Cons q' ps)
  obtain j k r j' k' r' where "q = (j, k, r)" "q' = (j', k', r')" using prod_cases3 by metis
  then show ?case using Cons by simp
qed simp

lemma fold_add_patch_fused: "rev (foldl add_patch [] ps) = fused ps"
proof (cases ps)
  case (Cons q qs)
  then show ?thesis using fold_add_patch [of q "[]" qs] by simp
qed simp

lemma collected_touch:
  assumes "collected base side (c # cs) b t" "snd (ch_base c) = offset base b"
  shows "snd (ch_side c) = offset side t"
proof -
  obtain out k where o: "applied base (c # cs) out k" "k \<le> b" "b \<le> length base" "out @ take (b - k) (drop k base) = take t side"
    using assms (1) by (auto simp: collected_def)
  then have "offset base k = offset base b" using assms (2) applied_last [OF o (1)] by simp
  then have "k = b" using offset_eq_iff [of k base b] o (2,3) by simp
  then show ?thesis using o (4) applied_last [OF o (1)] by simp
qed

lemma tracked_change:
  assumes col: "collected base side cs b t" and P: "patches_of base (rev cs) (rev P)" and b: "b \<le> b'" "b' \<le> length base"
  shows "patches_of base (rev (case cs of
       p # ps \<Rightarrow> if snd (ch_base p) = offset base b \<and> snd (ch_side p) = offset side t
         then \<lparr>ch_base = (fst (ch_base p), offset base b'), ch_side = (fst (ch_side p), offset side t'),
                ch_replacement = ch_replacement p @ r\<rparr> # ps
         else \<lparr>ch_base = (offset base b, offset base b'), ch_side = (offset side t, offset side t'), ch_replacement = r\<rparr> # cs
     | [] \<Rightarrow> [\<lparr>ch_base = (offset base b, offset base b'), ch_side = (offset side t, offset side t'), ch_replacement = r\<rparr>]))
    (rev (add_patch P (b, b', r)))"
proof (cases cs)
  case Nil
  then show ?thesis using P b by (simp add: patches_of_def change_key_def patch_key_def patch_ok_def)
next
  case (Cons c cs0)
  then obtain j k r0 P0 where P0: "P = (j, k, r0) # P0" using P by (cases P) (auto simp: patches_of_def)
  have c: "ch_base c = (offset base j, offset base k)" "ch_replacement c = r0" "j \<le> k" "k \<le> length base"
    "patches_of base (rev cs0) (rev P0)"
    using P by (auto simp: Cons P0 patches_of_def change_key_def patch_key_def patch_ok_def prod_eq_iff)
  have "k = b \<longleftrightarrow> snd (ch_base c) = offset base b \<and> snd (ch_side c) = offset side t"
    using collected_touch [OF col [unfolded Cons]] offset_eq_iff [of k base b] c (1,4) b by auto
  then show ?thesis
    using c b by (auto simp: Cons P0 patches_of_def change_key_def patch_key_def patch_ok_def)
qed

lemma collect_changes_collected:
  assumes base: "base = p @ bm @ q" "str_len base \<le> USIZE_MAX" and side: "side = p @ sm @ q" "str_len side \<le> USIZE_MAX"
  shows "edit_script bm sm i j ops \<Longrightarrow> collected base side cs (length p + i) (length p + j) \<Longrightarrow> patches_of base (rev cs) (rev P) \<Longrightarrow>
    \<exists>cs'. collect_changes side (str_len p) (utf8_offsets bm) (utf8_offsets sm) ops cs = Ok (rev cs') \<and>
      collected base side cs' (length p + length bm) (length p + length sm) \<and>
      patches_of base (rev cs') (rev (foldl add_patch P (op_patches (length p) sm ops)))"
proof (induction ops arbitrary: i j cs P)
  case Nil
  then show ?case by (auto simp: op_patches_def)
next
  case (Cons op ops)
  obtain i' j' where op: "op_old op = (i, i')" "op_new op = (j, j')" "i \<le> i'" "j \<le> j'" "i' \<le> length bm" "j' \<le> length sm"
    and eq: "op_tag op = Tag_Equal \<longrightarrow> take (i' - i) (drop i bm) = take (j' - j) (drop j sm)"
    and ops: "edit_script bm sm i' j' ops"
    using Cons (2) by (cases "op_old op"; cases "op_new op") auto
  have mid: "take (i' - i) (drop (length p + i) base) = take (i' - i) (drop i bm)"
    "take (j' - j) (drop (length p + j) side) = take (j' - j) (drop j sm)"
    using op by (simp_all add: base (1) side (1))
  show ?case
  proof (cases "op_tag op = Tag_Equal")
    case True
    then have "collected base side cs (length p + i') (length p + j')"
      using collected_equal [OF Cons (3), of "length p + i'" "length p + j'"] op eq mid by (simp add: base (1) side (1))
    then show ?thesis using Cons.IH [OF ops _ Cons (4)] True by (simp add: op_patches_def)
  next
    case False
    let ?b = "length p + i" and ?b' = "length p + i'" and ?t = "length p + j" and ?t' = "length p + j'"
    have ranges: "offset_range (str_len p) (utf8_offsets bm) (op_old op) = Ok (offset base ?b, offset base ?b')"
      "offset_range (str_len p) (utf8_offsets sm) (op_new op) = Ok (offset side ?t, offset side ?t')"
      using offset_range_Ok [OF op (1,3,5) base] offset_range_Ok [OF op (2,4,6) side] by simp_all
    have get: "str_get side (offset side ?t) (offset side ?t') = Some (take (?t' - ?t) (drop ?t side))"
      by (rule str_get_offsets) (use op side (1) in simp_all)
    have len: "?b \<le> ?b'" "?b' \<le> length base" "?t \<le> ?t'" "?t' \<le> length side" using op by (simp_all add: base (1) side (1))
    have r: "take (?t' - ?t) (drop ?t side) = take (j' - j) (drop j sm)" using mid (2) by simp
    define cs2 where "cs2 = (case cs of
        c # cs0 \<Rightarrow> if snd (ch_base c) = offset base ?b \<and> snd (ch_side c) = offset side ?t
          then \<lparr>ch_base = (fst (ch_base c), offset base ?b'), ch_side = (fst (ch_side c), offset side ?t'),
                 ch_replacement = ch_replacement c @ take (?t' - ?t) (drop ?t side)\<rparr> # cs0
          else \<lparr>ch_base = (offset base ?b, offset base ?b'), ch_side = (offset side ?t, offset side ?t'),
                 ch_replacement = take (?t' - ?t) (drop ?t side)\<rparr> # cs
      | [] \<Rightarrow> [\<lparr>ch_base = (offset base ?b, offset base ?b'), ch_side = (offset side ?t, offset side ?t'),
                 ch_replacement = take (?t' - ?t) (drop ?t side)\<rparr>])"
    have "collected base side cs2 ?b' ?t'" unfolding cs2_def by (rule collected_change [OF Cons (3) len])
    moreover have "collect_changes side (str_len p) (utf8_offsets bm) (utf8_offsets sm) (op # ops) cs =
        collect_changes side (str_len p) (utf8_offsets bm) (utf8_offsets sm) ops cs2"
      using False ranges get by (auto simp: cs2_def split: list.split)
    moreover have "patches_of base (rev cs2) (rev (add_patch P (?b, ?b', take (j' - j) (drop j sm))))"
      unfolding cs2_def by (simp only: r) (rule tracked_change [OF Cons (3,4) len (1,2)])
    moreover have "op_patches (length p) sm (op # ops) = (?b, ?b', take (j' - j) (drop j sm)) # op_patches (length p) sm ops"
      using False op by (simp add: op_patches_def)
    ultimately show ?thesis using Cons.IH [OF ops] by simp
  qed
qed

section \<open>Weaving patches\<close>

text \<open>Weaving patches into the base is the specification of applying changes.\<close>

fun weave :: "ustr \<Rightarrow> patch list \<Rightarrow> nat \<Rightarrow> ustr" where
  "weave base [] i = drop i base"
| "weave base ((j, k, r) # ps) i = take (j - i) (drop i base) @ r @ weave base ps k"

definition precedes :: "patch \<Rightarrow> patch \<Rightarrow> bool" where
  "precedes p q \<longleftrightarrow> fst (snd p) \<le> fst q"

definition apart :: "patch \<Rightarrow> patch \<Rightarrow> bool" where
  "apart p q \<longleftrightarrow> fst (snd p) < fst q"

lemma applied_patches:
  "applied base cs out k \<Longrightarrow>
   \<exists>ps. patches_of base (rev cs) ps \<and> sorted_wrt apart ps \<and> (\<forall>p \<in> set ps. fst (snd p) \<le> k) \<and>
     (\<forall>qs. weave base (ps @ qs) 0 = out @ weave base qs k)"
proof (induction rule: applied.induct)
  case applied_none
  show ?case by (intro exI [of _ "[]"]) (simp add: patches_of_Nil)
next
  case (applied_change cs out i j k c)
  then obtain ps where ps: "patches_of base (rev cs) ps" "sorted_wrt apart ps" "\<forall>p \<in> set ps. fst (snd p) \<le> i"
      "\<And>qs. weave base (ps @ qs) 0 = out @ weave base qs i" by blast
  let ?p = "(j, k, ch_replacement c)"
  have "cs = [] \<longleftrightarrow> ps = []" using ps (1) by (auto simp: patches_of_def)
  then have "sorted_wrt apart (ps @ [?p])" using ps (2,3) applied_change (5) by (auto simp: sorted_wrt_append apart_def)
  moreover have "patches_of base (rev (c # cs)) (ps @ [?p])"
    using ps (1) applied_change (3,4,6) by (simp add: patches_of_def change_key_def patch_key_def patch_ok_def)
  moreover have "\<forall>p \<in> set (ps @ [?p]). fst (snd p) \<le> k" using ps (3) applied_change (2,3) by auto
  ultimately show ?case using ps (4) by (intro exI [of _ "ps @ [?p]"]) simp
qed

lemma splice_weave:
  "patches_of base cs ps \<Longrightarrow> sorted_wrt precedes ps \<Longrightarrow> (\<forall>p \<in> set ps. i \<le> fst p) \<Longrightarrow> i \<le> length base \<Longrightarrow>
   splice base cs (offset base i) = Ok (weave base ps i)"
proof (induction cs arbitrary: ps i)
  case Nil
  then show ?case using str_get_offsets [of i "length base" base] by (simp add: patches_of_Nil)
next
  case (Cons c cs)
  obtain j k r qs where ps: "ps = (j, k, r) # qs" "ch_base c = (offset base j, offset base k)" "ch_replacement c = r"
      "j \<le> k" "k \<le> length base" "patches_of base cs qs"
    using Cons (2) by (auto simp: patches_of_Cons)
  have "splice base cs (offset base k) = Ok (weave base qs k)"
    using Cons.IH [OF ps (6), of k] Cons (3) ps (1,5) by (auto simp: precedes_def)
  then show ?case using Cons (4) ps str_get_offsets [of i j base] by simp
qed

lemma str_len_drop_split: "i \<le> j \<Longrightarrow> str_len (drop i s) = str_len (take (j - i) (drop i s)) + str_len (drop j s)"
  using append_take_drop_id [of "j - i" "drop i s"] by (metis drop_drop le_add_diff_inverse2 str_len_simps (3))

lemma output_length_weave:
  "patches_of base cs ps \<Longrightarrow> sorted_wrt precedes ps \<Longrightarrow> (\<forall>p \<in> set ps. i \<le> fst p) \<Longrightarrow> i \<le> length base \<Longrightarrow>
   output_length_after (str_len base) cs (offset base i) (m + str_len (drop i base)) \<in>
     (if m + str_len (drop i base) + sum_list (map (\<lambda>c. str_len (ch_replacement c)) cs) \<le> USIZE_MAX then {} else {Err RangeTooLarge}) \<union>
     {Ok (m + str_len (weave base ps i))}"
proof (induction cs arbitrary: ps i m)
  case Nil
  then show ?case by (simp add: patches_of_Nil)
next
  case (Cons c cs)
  obtain j k r qs where ps: "ps = (j, k, r) # qs" "ch_base c = (offset base j, offset base k)" "ch_replacement c = r"
      "j \<le> k" "k \<le> length base" "patches_of base cs qs"
    using Cons (2) by (auto simp: patches_of_Cons)
  have ij: "i \<le> j" using Cons (4) ps (1) by simp
  let ?kept = "str_len (take (j - i) (drop i base))"
  have k: "span_len (ch_base c) = str_len (take (k - j) (drop j base))"
    using offset_split [OF ps (4), of base] by (simp add: span_len_def ps (2))
  have n: "m + str_len (drop i base) - span_len (ch_base c) = m + ?kept + str_len (drop k base)"
    "span_len (ch_base c) \<le> m + str_len (drop i base)"
    using str_len_drop_split [OF ij, of base] str_len_drop_split [OF ps (4), of base] k by simp_all
  have guard: "\<not> (fst (ch_base c) < offset base i \<or> str_len base < snd (ch_base c))"
    using offset_mono [OF ij, of base] offset_mono [OF ps (5), of base] by (simp add: ps (2))
  have "output_length_after (str_len base) cs (offset base k) (m + ?kept + str_len r + str_len (drop k base)) \<in>
     (if m + ?kept + str_len r + str_len (drop k base) + sum_list (map (\<lambda>c. str_len (ch_replacement c)) cs) \<le> USIZE_MAX then {}
      else {Err RangeTooLarge}) \<union> {Ok (m + ?kept + str_len r + str_len (weave base qs k))}"
    using Cons.IH [OF ps (6), of k "m + ?kept + str_len r"] Cons (3) ps (1,5) by (auto simp: precedes_def)
  then show ?case
    using guard n ps (1,2,3) str_len_drop_split [OF ij, of base] str_len_drop_split [OF ps (4), of base]
    by (auto simp: checked_sub_def checked_add_def add_ac split: if_splits)
qed

lemma apply_changes_weave:
  assumes "patches_of base cs ps" "sorted_wrt precedes ps"
  shows "apply_changes base cs budget \<in>
    (if str_len base + sum_list (map (\<lambda>c. str_len (ch_replacement c)) cs) \<le> USIZE_MAX then {} else {Err RangeTooLarge}) \<union>
    {if str_len (weave base ps 0) \<le> U64_MAX then
       if str_len (weave base ps 0) \<le> mb_max_output_bytes budget then Ok (Merged (weave base ps 0))
       else Err (BudgetExceeded OutputBytes (str_len (weave base ps 0)) (mb_max_output_bytes budget))
     else Err RangeTooLarge}"
proof -
  have "splice base cs 0 = Ok (weave base ps 0)" using splice_weave [OF assms, of 0] by simp
  then show ?thesis
    using output_length_weave [OF assms, of 0 0]
    by (auto simp: apply_changes_def ensure_output_budget_def ensure_budget_def mg_usize_to_u64_def try_from_def split: if_splits)
qed

text \<open>What the changes of one side are: separate patches that, woven into the base, give the side. The only
  failure is a budget. No Rust string is longer than \<open>isize::MAX\<close> bytes.\<close>

definition ISIZE_MAX :: nat where "ISIZE_MAX = 9223372036854775807"

definition budget_error :: "merge_error \<Rightarrow> bool" where
  "budget_error e \<longleftrightarrow> (\<exists>metric actual limit. e = BudgetExceeded metric actual limit)"

lemma ensure_budget_Err: "ensure_budget x a l = Err e \<Longrightarrow> budget_error e"
  by (auto simp: ensure_budget_def budget_error_def split: if_splits)

lemma diff_changes_body:
  assumes "base = p @ bm @ q" "side = p @ sm @ q" "common_utf8_edges base side = (str_len p, str_len q)" "base \<noteq> side"
    and "str_len base \<le> USIZE_MAX" "str_len side \<le> USIZE_MAX"
  shows "diff_changes capture base side budget =
    res_bind (ensure_budget ChangedScalars (saturating_add U64_MAX (length bm) (length sm)) (mb_max_changed_scalars budget)) (\<lambda>_.
    res_bind (ensure_budget DiffWork (saturating_mul U64_MAX (length bm) (length sm)) (mb_max_diff_work budget)) (\<lambda>_.
    res_bind (collect_changes side (str_len p) (utf8_offsets bm) (utf8_offsets sm) (capture bm sm) []) (\<lambda>changes.
    res_bind (mg_usize_to_u64 (length changes)) (\<lambda>count.
    res_bind (ensure_budget Changes count (mb_max_changes budget)) (\<lambda>_. Ok changes)))))"
proof -
  have mid: "str_get s (str_len p) (str_len s - str_len q) = Some m" if "s = p @ m @ q" for s m
    using that str_get_offsets [of "length p" "length p + length m" s] by simp
  have count: "mg_usize_to_u64 (length m) = Ok (length m)" if "s = p @ m @ q" "str_len s \<le> USIZE_MAX" for s m
    using that length_le_str_len [of m] by (simp add: mg_usize_to_u64_def try_from_def USIZE_MAX_def)
  have sub: "checked_sub (str_len s) (str_len q) = Some (str_len s - str_len q)" if "s = p @ m @ q" for s m
    using that by (simp add: checked_sub_def)
  show ?thesis
    using assms (4) unfolding diff_changes_def assms (3)
    by (simp add: sub [OF assms (1)] sub [OF assms (2)] mid [OF assms (1)] mid [OF assms (2)]
        count [OF assms (1,5)] count [OF assms (2,6)])
qed

lemma patches_fit:
  "patches_of base cs ps \<Longrightarrow> sorted_wrt apart ps \<Longrightarrow> length cs \<le> length base + 1"
proof -
  assume ps: "patches_of base cs ps" "sorted_wrt apart ps"
  have ok: "fst p \<le> fst (snd p) \<and> fst (snd p) \<le> length base" if "p \<in> set ps" for p
    using ps (1) that by (auto simp: patches_of_def patch_ok_def list_all_iff)
  then have "sorted_wrt (\<lambda>p q. fst p < fst q) ps"
    using sorted_wrt_mono_rel [of ps apart "\<lambda>p q. fst p < fst q"] ps (2) by (force simp: apart_def)
  then have "sorted_wrt (<) (map fst ps)" by (simp add: sorted_wrt_map)
  then have "distinct (map fst ps)" by (simp only: strict_sorted_iff)
  then have "card (set (map fst ps)) = length ps" by (metis distinct_card length_map)
  moreover have "set (map fst ps) \<subseteq> {..length base}" using ok by force
  ultimately have "length ps \<le> length base + 1" by (metis Suc_eq_plus1 card_atMost card_mono finite_atMost)
  then show ?thesis using ps (1) by (metis length_map patches_of_def)
qed

definition script_patches :: "(ustr \<Rightarrow> ustr \<Rightarrow> diff_op list) \<Rightarrow> ustr \<Rightarrow> ustr \<Rightarrow> patch list \<Rightarrow> bool" where
  "script_patches capture base side ps \<longleftrightarrow>
     (if base = side then ps = []
      else \<exists>p bm sm q. base = p @ bm @ q \<and> side = p @ sm @ q \<and> p = common_edge base side \<and>
        rev q = common_edge (rev (drop (length p) base)) (rev (drop (length p) side)) \<and>
        ps = fused (op_patches (length p) sm (capture bm sm)))"

lemma collected_patches:
  assumes engine: "diff_engine capture" and len: "str_len base \<le> ISIZE_MAX" "str_len side \<le> ISIZE_MAX" and False: "base \<noteq> side"
  obtains p bm sm q cs ps where "base = p @ bm @ q" "side = p @ sm @ q" "common_utf8_edges base side = (str_len p, str_len q)"
    "collect_changes side (str_len p) (utf8_offsets bm) (utf8_offsets sm) (capture bm sm) [] = Ok (rev cs)"
    "patches_of base (rev cs) ps" "sorted_wrt apart ps" "weave base ps 0 = side" "script_patches capture base side ps"
proof -
  have len': "str_len base \<le> USIZE_MAX" "str_len side \<le> USIZE_MAX"
    using len by (simp_all add: ISIZE_MAX_def USIZE_MAX_def U64_MAX_def)
  obtain p bm sm q where sp: "base = p @ bm @ q" "side = p @ sm @ q" "common_utf8_edges base side = (str_len p, str_len q)"
      and edges: "p = common_edge base side" "rev q = common_edge (rev (drop (length p) base)) (rev (drop (length p) side))"
    by (rule common_edges_split)
  have "collected base side [] (length p) (length p)"
    unfolding collected_def by (intro exI [of _ "[]"] exI [of _ 0]) (simp add: applied_none sp)
  then obtain cs where cs: "collect_changes side (str_len p) (utf8_offsets bm) (utf8_offsets sm) (capture bm sm) [] = Ok (rev cs)"
      "collected base side cs (length p + length bm) (length p + length sm)"
      "patches_of base (rev cs) (fused (op_patches (length p) sm (capture bm sm)))"
    using collect_changes_collected [OF sp (1) len' (1) sp (2) len' (2), of 0 0 "capture bm sm" "[]" "[]"] engine
    by (auto simp: diff_engine_def patches_of_Nil fold_add_patch_fused)
  obtain out k where o: "applied base cs out k" "k \<le> length p + length bm"
      "out @ take (length p + length bm - k) (drop k base) = take (length p + length sm) side"
    using cs (2) by (auto simp: collected_def)
  obtain ps where ps: "patches_of base (rev cs) ps" "sorted_wrt apart ps" "weave base ps 0 = out @ drop k base"
    using applied_patches [OF o (1)] by (metis append_Nil2 weave.simps (1))
  have "drop k base = take (length p + length bm - k) (drop k base) @ q"
    using o (2) by (simp add: sp (1))
  then have "weave base ps 0 = take (length p + length sm) side @ q" using ps (3) o (3) by (metis append_assoc)
  then have weave: "weave base ps 0 = side" by (simp add: sp (2))
  have script: "script_patches capture base side ps"
    unfolding script_patches_def if_not_P [OF False] using sp (1,2) edges patches_of_unique [OF ps (1) cs (3)] by blast
  show ?thesis using that [OF sp cs (1) ps (1,2) weave script] .
qed

lemma diff_changes_patches:
  assumes engine: "diff_engine capture" and len: "str_len base \<le> ISIZE_MAX" "str_len side \<le> ISIZE_MAX"
  shows "(\<exists>cs ps. diff_changes capture base side budget = Ok cs \<and> patches_of base cs ps \<and> sorted_wrt apart ps \<and>
      weave base ps 0 = side \<and> script_patches capture base side ps) \<or>
    (\<exists>e. diff_changes capture base side budget = Err e \<and> budget_error e)"
proof (cases "base = side")
  case True
  then show ?thesis by (simp add: diff_changes_def patches_of_Nil script_patches_def)
next
  case False
  have len': "str_len base \<le> USIZE_MAX" "str_len side \<le> USIZE_MAX"
    using len by (simp_all add: ISIZE_MAX_def USIZE_MAX_def U64_MAX_def)
  obtain p bm sm q cs ps where sp: "base = p @ bm @ q" "side = p @ sm @ q" "common_utf8_edges base side = (str_len p, str_len q)"
    and cs: "collect_changes side (str_len p) (utf8_offsets bm) (utf8_offsets sm) (capture bm sm) [] = Ok (rev cs)"
    and ps: "patches_of base (rev cs) ps" "sorted_wrt apart ps" "weave base ps 0 = side" "script_patches capture base side ps"
    by (rule collected_patches [OF engine len False])
  note body = diff_changes_body [OF sp False len', of capture budget]
  have "length (rev cs) \<le> U64_MAX"
    using patches_fit [OF ps (1,2)] length_le_str_len [of base] len (1) by (simp add: U64_MAX_def ISIZE_MAX_def)
  then have count: "mg_usize_to_u64 (length (rev cs)) = Ok (length (rev cs))" by (simp add: mg_usize_to_u64_def try_from_def)
  show ?thesis
  proof (cases "diff_changes capture base side budget")
    case (Ok cs')
    then have "cs' = rev cs" using body cs by (auto simp: result_simps)
    then show ?thesis using Ok ps by blast
  next
    case (Err e)
    then have "budget_error e" using body cs count by (auto simp: result_simps dest: ensure_budget_Err)
    then show ?thesis using Err by blast
  qed
qed

end
