(* ===== verification/Merge_Law.thy ===== *)
theory Merge_Law
  imports Text_Merge "HOL-Library.Sublist"
begin

text \<open>
  What \<open>three_way_merge\<close> promises, over the model of \<open>loom-document/src/merge.rs\<close> in \<open>Text_Merge\<close>. The changes of
  both sides are read as patches of the base (\<open>side_patches\<close>), which the script of the diff engine determines; a merge
  without conflict is the base with the sorted union of the patches of both sides woven in, and a conflict means that
  two of them clash.
\<close>

section \<open>The order of patches\<close>

lemma patch_key_less:
  "patch_ok base p \<Longrightarrow> patch_ok base q \<Longrightarrow> patch_key base p < patch_key base q \<longleftrightarrow> p < q"
  by (cases p; cases q) (auto simp: patch_key_def patch_ok_def less_prod_def offset_less_iff offset_le_iff offset_eq_iff)

lemma apart_less: "patch_ok base p \<Longrightarrow> apart p q \<Longrightarrow> p < q"
  by (cases p; cases q) (simp add: patch_ok_def apart_def less_prod_def)

lemma apart_strict_sorted:
  assumes "list_all (patch_ok base) ps" "sorted_wrt apart ps"
  shows "sorted_wrt (<) ps"
proof (rule sorted_wrt_mono_rel [OF _ assms (2)])
  fix p q assume "p \<in> set ps" "apart p q"
  then show "p < q" using assms (1) apart_less [of base p q] by (simp only: list_all_iff)
qed

lemma strict_sorted_apart:
  "\<lbrakk>list_all (patch_ok base) ps; sorted_wrt apart ps; p \<in> set ps; q \<in> set ps; p < q\<rbrakk> \<Longrightarrow> apart p q"
proof (induction ps)
  case (Cons x ps)
  have ok: "patch_ok base x" "list_all (patch_ok base) ps" and x: "\<forall>y \<in> set ps. apart x y" "sorted_wrt apart ps"
    using Cons.prems (1,2) by simp_all
  consider "p = x" | "p \<noteq> x" "q = x" | "p \<noteq> x" "q \<noteq> x" by blast
  then show ?case
  proof cases
    case 1
    then show ?thesis using x (1) Cons.prems (4,5) by force
  next
    case 2
    then have "x < p" using x (1) Cons.prems (3) by (auto intro: apart_less [OF ok (1)])
    then show ?thesis using 2 Cons.prems (5) by (simp only: order.asym)
  next
    case 3
    then show ?thesis using Cons.IH [OF ok (2) x (2)] Cons.prems by simp
  qed
qed simp

section \<open>Combining the changes of both sides\<close>

lemma equivalent_change_key: "equivalent_change a b \<longleftrightarrow> change_key a = change_key b"
  by (auto simp: equivalent_change_def change_key_def prod_eq_iff)

lemma add_new_changes:
  fixes xs ys :: "change list"
  defines "R \<equiv> foldl (\<lambda>changes e. if list_ex (\<lambda>a. equivalent_change a e) changes then changes else changes @ [e]) xs ys"
  assumes "distinct (map change_key xs)"
  shows "distinct (map change_key R) \<and> set (map change_key R) = set (map change_key xs) \<union> set (map change_key ys)"
  using assms (2) unfolding R_def
proof (induction ys arbitrary: xs)
  case (Cons y ys)
  show ?case
  proof (cases "list_ex (\<lambda>a. equivalent_change a y) xs")
    case True
    then obtain a where "a \<in> set xs" "change_key y = change_key a" by (auto simp: list_ex_iff equivalent_change_key)
    then have "change_key y \<in> change_key ` set xs" by blast
    then show ?thesis using True Cons by auto
  next
    case False
    then have "change_key y \<notin> change_key ` set xs" by (auto simp: list_ex_iff equivalent_change_key)
    then show ?thesis using False Cons.IH [of "xs @ [y]"] Cons.prems by auto
  qed
qed simp

definition union_patches :: "patch list \<Rightarrow> patch list \<Rightarrow> patch list" where
  "union_patches A E = sorted_list_of_set (set A \<union> set E)"

lemma union_patches_set [simp]: "set (union_patches A E) = set A \<union> set E"
  by (simp add: union_patches_def)

lemma union_patches_sorted: "sorted_wrt (<) (union_patches A E)"
  by (simp add: union_patches_def)

lemma union_patches_commute: "union_patches A E = union_patches E A"
  by (simp add: union_patches_def Un_commute)

lemma patches_of_keys:
  "patches_of base cs ps \<Longrightarrow> set (map change_key cs) = patch_key base ` set ps \<and> (\<forall>p \<in> set ps. patch_ok base p)"
  by (simp add: patches_of_def list_all_iff)

lemma patches_of_strict:
  assumes "patches_of base cs ps" "sorted_wrt apart ps"
  shows "sorted_wrt (<) ps" "distinct (map change_key cs)"
proof -
  show "sorted_wrt (<) ps" using assms apart_strict_sorted by (auto simp: patches_of_def)
  then have "distinct ps" by (simp add: strict_sorted_iff)
  moreover have "inj_on (patch_key base) (set ps)"
    using patches_of_keys [OF assms (1)] patch_key_eq by (auto intro!: inj_onI)
  ultimately show "distinct (map change_key cs)" using assms (1) by (simp add: patches_of_def distinct_map)
qed

lemma combine_changes_patches:
  assumes A: "patches_of base cs A" "sorted_wrt apart A" and E: "patches_of base ds E"
  shows "patches_of base (combine_changes cs ds) (union_patches A E)"
proof -
  let ?R = "foldl (\<lambda>changes e. if list_ex (\<lambda>a. equivalent_change a e) changes then changes else changes @ [e]) cs ds"
  let ?U = "union_patches A E"
  have ok: "\<forall>p \<in> set ?U. patch_ok base p" using patches_of_keys [OF A (1)] patches_of_keys [OF E] by auto
  have "sorted_wrt (\<lambda>p q. patch_key base p < patch_key base q) ?U"
    by (rule sorted_wrt_mono_rel [OF _ union_patches_sorted]) (simp only: ok [rule_format] patch_key_less)
  then have U: "sorted_wrt (<) (map (patch_key base) ?U)" by (simp add: sorted_wrt_map)
  have R: "distinct (map change_key ?R)" "set (map change_key ?R) = set (map change_key cs) \<union> set (map change_key ds)"
    using add_new_changes [OF patches_of_strict (2) [OF A]] by simp_all
  have "distinct (map change_key (combine_changes cs ds))"
    using R (1) unfolding combine_changes_def by (simp add: distinct_map)
  then have "sorted_wrt (<) (map change_key (combine_changes cs ds))"
    unfolding strict_sorted_iff by (simp add: combine_changes_def)
  moreover have "set (map change_key (combine_changes cs ds)) = set (map (patch_key base) ?U)"
    using R (2) patches_of_keys [OF A (1)] patches_of_keys [OF E] by (simp add: combine_changes_def image_Un)
  ultimately have "map change_key (combine_changes cs ds) = map (patch_key base) ?U"
    using U strict_sorted_equal by blast
  then show ?thesis using ok by (simp add: patches_of_def list_all_iff)
qed

section \<open>Patches without conflict\<close>

definition patch_overlap :: "patch \<Rightarrow> patch \<Rightarrow> bool" where
  "patch_overlap p q =
     (case (fst p = fst (snd p), fst q = fst (snd q)) of
        (True, True) \<Rightarrow> fst p = fst q
      | (True, False) \<Rightarrow> fst q < fst p \<and> fst p < fst (snd q)
      | (False, True) \<Rightarrow> fst p < fst q \<and> fst q < fst (snd p)
      | (False, False) \<Rightarrow> fst p < fst (snd q) \<and> fst q < fst (snd p))"

definition compatible :: "patch list \<Rightarrow> patch list \<Rightarrow> bool" where
  "compatible A E \<longleftrightarrow> (\<forall>p \<in> set A. \<forall>q \<in> set E. p = q \<or> \<not> patch_overlap p q)"

lemma compatible_commute: "compatible A E \<longleftrightarrow> compatible E A"
proof -
  have "patch_overlap p q \<longleftrightarrow> patch_overlap q p" for p q by (auto simp: patch_overlap_def split: bool.splits)
  then show ?thesis unfolding compatible_def by metis
qed

lemma changes_overlap_patch:
  assumes "change_key c = patch_key base p" "patch_ok base p" "change_key d = patch_key base q" "patch_ok base q"
  shows "changes_overlap c d \<longleftrightarrow> patch_overlap p q" "equivalent_change c d \<longleftrightarrow> p = q"
proof -
  obtain j k r j' k' r' where pq: "p = (j, k, r)" "q = (j', k', r')" using prod_cases3 by metis
  have "ch_base c = (offset base j, offset base k)" "ch_base d = (offset base j', offset base k')"
    using assms (1,3) by (simp_all add: pq change_key_def patch_key_def prod_eq_iff)
  then show "changes_overlap c d \<longleftrightarrow> patch_overlap p q"
    using assms (2,4)
    by (simp add: pq changes_overlap_def patch_overlap_def span_empty_def patch_ok_def offset_less_iff offset_eq_iff
        split: bool.split)
  show "equivalent_change c d \<longleftrightarrow> p = q"
    using assms patch_key_eq by (simp add: equivalent_change_key)
qed

lemma patches_of_member:
  "patches_of base cs ps \<Longrightarrow> c \<in> set cs \<Longrightarrow> \<exists>p \<in> set ps. change_key c = patch_key base p \<and> patch_ok base p"
  "patches_of base cs ps \<Longrightarrow> p \<in> set ps \<Longrightarrow> \<exists>c \<in> set cs. change_key c = patch_key base p \<and> patch_ok base p"
  using patches_of_keys [of base cs ps] by (auto, (metis image_iff)+)

lemma union_precedes:
  assumes ok: "list_all (patch_ok base) A" "list_all (patch_ok base) E"
    and A: "sorted_wrt apart A" and E: "sorted_wrt apart E" and "compatible A E"
  shows "sorted_wrt precedes (union_patches A E)"
proof (rule sorted_wrt_mono_rel [OF _ union_patches_sorted])
  fix p q assume pq: "p \<in> set (union_patches A E)" "q \<in> set (union_patches A E)" "p < q"
  have okp: "patch_ok base p" "patch_ok base q" using pq ok by (auto simp: list_all_iff)
  show "precedes p q"
  proof (cases "(p \<in> set A \<and> q \<in> set A) \<or> (p \<in> set E \<and> q \<in> set E)")
    case True
    then have "apart p q" using strict_sorted_apart ok A E pq (3) by blast
    then show ?thesis by (simp add: apart_def precedes_def)
  next
    case False
    then have "\<not> patch_overlap p q" using pq assms (5) compatible_commute [of A E] by (auto simp: compatible_def)
    then show ?thesis
      using okp pq (3) by (cases p; cases q) (auto simp: patch_overlap_def patch_ok_def precedes_def less_prod_def split: bool.splits)
  qed
qed

section \<open>Reported conflicts\<close>

text \<open>What a conflict reports of a pair of changes: the range of each text, and the text at that range.\<close>

definition span_reports :: "ustr \<Rightarrow> span \<Rightarrow> conflict_span \<Rightarrow> bool" where
  "span_reports s r sp \<longleftrightarrow> cs_range sp = \<lparr>br_start = fst r, br_end = snd r\<rparr> \<and> str_get s (fst r) (snd r) = Some (cs_text sp)"

definition union_span :: "span \<Rightarrow> span \<Rightarrow> span" where
  "union_span r r' = (min (fst r) (fst r'), max (snd r) (snd r'))"

definition conflict_reports :: "ustr \<Rightarrow> ustr \<Rightarrow> ustr \<Rightarrow> change \<times> change \<Rightarrow> merge_conflict \<Rightarrow> bool" where
  "conflict_reports base app external ae c \<longleftrightarrow>
     mc_kind c = (if span_empty (ch_base (fst ae)) \<and> span_empty (ch_base (snd ae)) then CompetingInsertions else OverlappingEdits) \<and>
     span_reports base (union_span (ch_base (fst ae)) (ch_base (snd ae))) (mc_base c) \<and>
     mc_app_base_range c = \<lparr>br_start = fst (ch_base (fst ae)), br_end = snd (ch_base (fst ae))\<rparr> \<and>
     span_reports app (ch_side (fst ae)) (mc_app c) \<and>
     mc_external_base_range c = \<lparr>br_start = fst (ch_base (snd ae)), br_end = snd (ch_base (snd ae))\<rparr> \<and>
     span_reports external (ch_side (snd ae)) (mc_external c)"

definition clash :: "change \<times> change \<Rightarrow> bool" where
  "clash ae \<longleftrightarrow> changes_overlap (fst ae) (snd ae) \<and> \<not> equivalent_change (fst ae) (snd ae)"

lemma public_range_Ok: "public_range r = Ok b \<Longrightarrow> b = \<lparr>br_start = fst r, br_end = snd r\<rparr>"
  by (auto simp: public_range_def mg_usize_to_u64_def try_from_def result_simps split: if_splits)

lemma conflict_span_Ok: "conflict_span_of s r = Ok sp \<Longrightarrow> span_reports s r sp"
  by (auto simp: conflict_span_of_def span_reports_def result_simps dest: public_range_Ok)

text \<open>One round of the loop, for a pair that clashes.\<close>

definition conflict_step ::
  "ustr \<Rightarrow> ustr \<Rightarrow> ustr \<Rightarrow> merge_budget \<Rightarrow> change \<times> change \<Rightarrow> nat \<Rightarrow> nat \<Rightarrow> (merge_conflict \<times> nat, merge_error) result" where
  "conflict_step base app external budget ae n payload =
     res_bind (mg_usize_to_u64 n) (\<lambda>count.
     res_bind (ensure_budget Changes (saturating_add U64_MAX count 1) (mb_max_changes budget)) (\<lambda>_.
     res_bind (mg_usize_to_u64 (span_len (union_span (ch_base (fst ae)) (ch_base (snd ae))))) (\<lambda>base_len.
     res_bind (mg_usize_to_u64 (span_len (ch_side (fst ae)))) (\<lambda>app_len.
     res_bind (mg_usize_to_u64 (span_len (ch_side (snd ae)))) (\<lambda>external_len.
     let payload = saturating_add U64_MAX (saturating_add U64_MAX (saturating_add U64_MAX payload base_len) app_len) external_len in
     res_bind (ensure_budget OutputBytes payload (mb_max_output_bytes budget)) (\<lambda>_.
     res_bind (conflict_span_of base (union_span (ch_base (fst ae)) (ch_base (snd ae)))) (\<lambda>base_span.
     res_bind (public_range (ch_base (fst ae))) (\<lambda>app_base_range.
     res_bind (conflict_span_of app (ch_side (fst ae))) (\<lambda>app_span.
     res_bind (public_range (ch_base (snd ae))) (\<lambda>external_base_range.
     res_bind (conflict_span_of external (ch_side (snd ae))) (\<lambda>external_span.
       Ok (\<lparr>mc_kind = (if span_empty (ch_base (fst ae)) \<and> span_empty (ch_base (snd ae)) then CompetingInsertions
                        else OverlappingEdits),
             mc_base = base_span, mc_app_base_range = app_base_range, mc_app = app_span,
             mc_external_base_range = external_base_range, mc_external = external_span\<rparr>, payload))))))))))))"

lemma res_bind_assoc: "res_bind (res_bind m f) g = res_bind m (\<lambda>x. res_bind (f x) g)"
  by (cases m) simp_all

lemma conflict_loop_step:
  "conflict_loop base app external budget (ae # pairs) conflicts payload =
     (if clash ae then
        res_bind (conflict_step base app external budget ae (length conflicts) payload)
          (\<lambda>(c, payload). conflict_loop base app external budget pairs (conflicts @ [c]) payload)
      else conflict_loop base app external budget pairs conflicts payload)"
  by (cases ae) (simp add: clash_def conflict_step_def union_span_def Let_def res_bind_assoc)

lemma conflict_step_Ok:
  "conflict_step base app external budget ae n payload = Ok (c, payload') \<Longrightarrow> conflict_reports base app external ae c"
  by (auto simp: conflict_step_def conflict_reports_def result_simps Let_def dest!: public_range_Ok conflict_span_Ok)

lemma conflict_loop_Ok:
  "conflict_loop base app external budget pairs conflicts payload = Ok res \<Longrightarrow>
   \<exists>found. res = conflicts @ found \<and> list_all2 (conflict_reports base app external) (filter clash pairs) found"
proof (induction pairs arbitrary: conflicts payload)
  case (Cons ae pairs)
  show ?case
  proof (cases "clash ae")
    case True
    then obtain c payload' where step: "conflict_step base app external budget ae (length conflicts) payload = Ok (c, payload')"
        "conflict_loop base app external budget pairs (conflicts @ [c]) payload' = Ok res"
      using Cons.prems unfolding conflict_loop_step by (auto simp: result_simps)
    show ?thesis using Cons.IH [OF step (2)] conflict_step_Ok [OF step (1)] True by auto
  next
    case False
    then show ?thesis using Cons unfolding conflict_loop_step by simp
  qed
qed simp

lemma find_conflicts_Ok:
  "find_conflicts base app external cs ds budget = Ok conflicts \<Longrightarrow>
   list_all2 (conflict_reports base app external) (filter clash (List.product cs ds)) conflicts"
  unfolding find_conflicts_def by (auto simp: result_simps dest: conflict_loop_Ok)

lemma no_conflicts_compatible:
  assumes "find_conflicts base app external cs ds budget = Ok []" "patches_of base cs A" "patches_of base ds E"
  shows "compatible A E"
proof -
  have none: "filter clash (List.product cs ds) = []" using find_conflicts_Ok [OF assms (1)] by simp
  have "p = q \<or> \<not> patch_overlap p q" if pq: "p \<in> set A" "q \<in> set E" for p q
  proof -
    obtain c d where c: "c \<in> set cs" "change_key c = patch_key base p" "patch_ok base p"
      and d: "d \<in> set ds" "change_key d = patch_key base q" "patch_ok base q"
      using patches_of_member (2) [OF assms (2) pq (1)] patches_of_member (2) [OF assms (3) pq (2)] by blast
    have "\<not> clash (c, d)" using none c (1) d (1) by (auto simp: filter_empty_conv)
    then show ?thesis using changes_overlap_patch [OF c (2,3) d (2,3)] by (auto simp: clash_def)
  qed
  then show ?thesis unfolding compatible_def by blast
qed

lemma conflicts_incompatible:
  assumes "find_conflicts base app external cs ds budget = Ok conflicts" "conflicts \<noteq> []" "patches_of base cs A" "patches_of base ds E"
  shows "\<not> compatible A E"
proof -
  have "filter clash (List.product cs ds) \<noteq> []" using find_conflicts_Ok [OF assms (1)] assms (2) by auto
  then obtain c d where cd: "c \<in> set cs" "d \<in> set ds" "clash (c, d)" by (auto simp: filter_empty_conv)
  obtain p where p: "p \<in> set A" "change_key c = patch_key base p" "patch_ok base p" using patches_of_member (1) [OF assms (3) cd (1)] by blast
  obtain q where q: "q \<in> set E" "change_key d = patch_key base q" "patch_ok base q" using patches_of_member (1) [OF assms (4) cd (2)] by blast
  have "patch_overlap p q" "p \<noteq> q" using changes_overlap_patch [OF p (2,3) q (2,3)] cd (3) by (auto simp: clash_def)
  then show ?thesis using p (1) q (1) by (auto simp: compatible_def)
qed

section \<open>The changes of a side\<close>

text \<open>
  What a side changed, independent of the code's bookkeeping in bytes: after the longest common prefix of the
  base and the side, and before the longest common suffix of what is left, the operations of the diff engine that change
  something, as patches of the base; patches that touch are one patch.
\<close>

definition side_patches :: "(ustr \<Rightarrow> ustr \<Rightarrow> diff_op list) \<Rightarrow> ustr \<Rightarrow> ustr \<Rightarrow> patch list" where
  "side_patches capture base side =
     (if base = side then []
      else
        let n = length (longest_common_prefix base side);
            b = drop n base;
            s = drop n side;
            m = length (longest_common_prefix (rev b) (rev s));
            new = take (length s - m) s
        in fused (op_patches n new (capture (take (length b - m) b) new)))"

lemma common_edge_longest: "common_edge l r = longest_common_prefix l r"
  by (induction l r rule: longest_common_prefix.induct) simp_all

lemma script_patches_side:
  assumes "script_patches capture base side ps"
  shows "ps = side_patches capture base side"
proof (cases "base = side")
  case True
  then show ?thesis using assms by (simp add: script_patches_def side_patches_def)
next
  case False
  then obtain p bm sm q where s: "base = p @ bm @ q" "side = p @ sm @ q" "p = common_edge base side"
      "rev q = common_edge (rev (drop (length p) base)) (rev (drop (length p) side))"
      "ps = fused (op_patches (length p) sm (capture bm sm))"
    using assms unfolding script_patches_def if_not_P [OF False] by blast
  define n m where "n = length (longest_common_prefix base side)"
    and "m = length (longest_common_prefix (rev (drop n base)) (rev (drop n side)))"
  have n: "n = length p" unfolding n_def using s (3) by (simp only: common_edge_longest)
  have m: "m = length q" unfolding m_def n using arg_cong [OF s (4), of length] by (simp only: common_edge_longest length_rev)
  have "drop n base = bm @ q" "drop n side = sm @ q" unfolding n by (simp_all add: s (1,2))
  then have "side_patches capture base side = fused (op_patches n sm (capture bm sm))"
    using False unfolding side_patches_def Let_def n_def [symmetric] m_def [symmetric] by (simp add: m)
  then show ?thesis using s (5) n by simp
qed

lemma diff_changes_Ok_patches:
  assumes "diff_engine capture" "str_len base \<le> ISIZE_MAX" "str_len side \<le> ISIZE_MAX"
    and "diff_changes capture base side budget = Ok cs"
  obtains ps where "patches_of base cs ps" "sorted_wrt apart ps" "weave base ps 0 = side" "ps = side_patches capture base side"
  using diff_changes_patches [OF assms (1-3), of budget] assms (4) script_patches_side by auto

lemma side_patches_weave:
  assumes "diff_engine capture" "str_len base \<le> ISIZE_MAX" "str_len side \<le> ISIZE_MAX"
  shows "sorted_wrt apart (side_patches capture base side)" "weave base (side_patches capture base side) 0 = side"
    "list_all (patch_ok base) (side_patches capture base side)"
proof -
  have "\<exists>cs ps. patches_of base cs ps \<and> sorted_wrt apart ps \<and> weave base ps 0 = side \<and> script_patches capture base side ps"
  proof (cases "base = side")
    case True
    then show ?thesis by (intro exI [of _ "[]"]) (simp add: patches_of_Nil script_patches_def)
  next
    case False
    show ?thesis by (rule collected_patches [OF assms False]) blast
  qed
  then show "sorted_wrt apart (side_patches capture base side)" "weave base (side_patches capture base side) 0 = side"
    "list_all (patch_ok base) (side_patches capture base side)" using script_patches_side by (auto simp: patches_of_def)
qed

lemma apart_compatible: "sorted_wrt apart A \<Longrightarrow> list_all (patch_ok base) A \<Longrightarrow> compatible A A"
proof -
  assume A: "sorted_wrt apart A" "list_all (patch_ok base) A"
  have "\<not> patch_overlap p q" if "p \<in> set A" "q \<in> set A" "p \<noteq> q" for p q
  proof -
    have ok: "patch_ok base p" "patch_ok base q" using that A (2) by (simp_all add: list_all_iff)
    have "apart p q \<or> apart q p" using strict_sorted_apart [OF A (2,1)] that by (metis linorder_neqE)
    then show ?thesis using ok by (auto simp: patch_overlap_def apart_def patch_ok_def split: bool.splits)
  qed
  then show ?thesis unfolding compatible_def by blast
qed

lemma union_patches_simps:
  "sorted_wrt (<) A \<Longrightarrow> union_patches A A = A" "sorted_wrt (<) A \<Longrightarrow> union_patches [] A = A" "sorted_wrt (<) A \<Longrightarrow> union_patches A [] = A"
  by (simp_all add: union_patches_def strict_sorted_equal)

section \<open>The merge obeys its law\<close>

lemma combined_union:
  assumes A: "patches_of base cs A" "sorted_wrt apart A" and E: "patches_of base ds E" "sorted_wrt apart E"
    and none: "find_conflicts base app external cs ds budget = Ok []"
    and merged: "apply_changes base (combine_changes cs ds) budget = Ok (Merged content)"
  shows "compatible A E" "content = weave base (union_patches A E) 0"
proof -
  have ok: "list_all (patch_ok base) A" "list_all (patch_ok base) E" using A (1) E (1) by (simp_all add: patches_of_def)
  show compat: "compatible A E" by (rule no_conflicts_compatible [OF none A (1) E (1)])
  show "content = weave base (union_patches A E) 0"
    using apply_changes_weave [OF combine_changes_patches [OF A E (1)] union_precedes [OF ok A (2) E (2) compat], of budget] merged
    by (auto split: if_splits)
qed

lemma compatible_Nil [simp]: "compatible [] E" "compatible A []"
  by (simp_all add: compatible_def)

lemma merge_shortcut:
  assumes "diff_engine capture" "str_len base \<le> ISIZE_MAX" "str_len app \<le> ISIZE_MAX" "str_len external \<le> ISIZE_MAX"
    and same: "app = external \<or> app = base \<or> external = base"
    and run: "three_way_merge_with_budget capture kind base app external budget = Ok outcome"
  shows "\<exists>content. outcome = Merged content \<and> compatible (side_patches capture base app) (side_patches capture base external) \<and>
    content = weave base (union_patches (side_patches capture base app) (side_patches capture base external)) 0 \<and>
    str_len content \<le> mb_max_output_bytes budget"
proof -
  let ?A = "side_patches capture base app" and ?E = "side_patches capture base external"
  note A = side_patches_weave [OF assms (1-3)] and E = side_patches_weave [OF assms (1,2,4)]
  note strict = apart_strict_sorted [OF A (3,1)] apart_strict_sorted [OF E (3,1)]
  have none: "side_patches capture base base = []" by (simp add: side_patches_def)
  define content where "content = (if app = base then external else app)"
  have out: "outcome = Merged content" "str_len content \<le> mb_max_output_bytes budget"
    using run same unfolding three_way_merge_with_budget_def content_def
    by (auto simp: result_simps ensure_output_budget_def ensure_budget_def mg_usize_to_u64_def split: if_splits)
  have "compatible ?A ?E \<and> content = weave base (union_patches ?A ?E) 0"
  proof (cases "app = base")
    case True
    then have "?A = []" using none by simp
    then show ?thesis using True strict (2) E (2) by (simp add: union_patches_simps content_def)
  next
    case False
    then consider "?E = ?A" | "?E = []" using same none by auto
    then show ?thesis using False strict (1) A apart_compatible [OF A (1,3)] by cases (simp_all add: union_patches_simps content_def)
  qed
  then show ?thesis using out by blast
qed

lemma merge_changed:
  assumes "diff_engine capture" "str_len base \<le> ISIZE_MAX" "str_len app \<le> ISIZE_MAX" "str_len external \<le> ISIZE_MAX"
    and "\<not> (app = external \<or> app = base \<or> external = base)"
    and run: "three_way_merge_with_budget capture kind base app external budget = Ok outcome"
  shows "case outcome of
      Merged content \<Rightarrow> compatible (side_patches capture base app) (side_patches capture base external) \<and>
        content = weave base (union_patches (side_patches capture base app) (side_patches capture base external)) 0 \<and>
        str_len content \<le> mb_max_output_bytes budget
    | Conflict conflicts \<Rightarrow> \<not> compatible (side_patches capture base app) (side_patches capture base external)"
proof -
  obtain cs ds conflicts where steps: "diff_changes capture base app budget = Ok cs" "diff_changes capture base external budget = Ok ds"
      "find_conflicts base app external cs ds budget = Ok conflicts"
      "(if conflicts \<noteq> [] then Ok (Conflict conflicts) else apply_changes base (combine_changes cs ds) budget) = Ok outcome"
    using run assms (5) unfolding three_way_merge_with_budget_def by (auto simp: result_simps split: if_splits)
  obtain A where A: "patches_of base cs A" "sorted_wrt apart A" "A = side_patches capture base app"
    using diff_changes_Ok_patches [OF assms (1-3) steps (1)] by metis
  obtain E where E: "patches_of base ds E" "sorted_wrt apart E" "E = side_patches capture base external"
    using diff_changes_Ok_patches [OF assms (1,2,4) steps (2)] by metis
  show ?thesis
  proof (cases "conflicts = []")
    case True
    then have merged: "apply_changes base (combine_changes cs ds) budget = Ok outcome" using steps (4) by simp
    then obtain content where out: "outcome = Merged content" "str_len content \<le> mb_max_output_bytes budget"
      by (auto simp: apply_changes_def ensure_output_budget_def ensure_budget_def mg_usize_to_u64_def result_simps split: if_splits)
    show ?thesis
      using combined_union [OF A (1,2) E (1,2) steps (3) [unfolded True] merged [unfolded out (1)]] out by (simp add: A (3) E (3))
  next
    case False
    then have out: "outcome = Conflict conflicts" using steps (4) by simp
    have "\<not> compatible A E" using conflicts_incompatible [OF steps (3) False A (1) E (1)] .
    then show ?thesis by (simp add: out A (3) E (3))
  qed
qed

text \<open>Swapping the sides. Applying changes reads only their keys, and the keys applied are those of the union.\<close>

lemma apply_changes_keys:
  assumes "map change_key cs = map change_key ds"
  shows "apply_changes base cs budget = apply_changes base ds budget"
proof -
  have keys: "list_all2 (\<lambda>c d. ch_base c = ch_base d \<and> ch_replacement c = ch_replacement d) cs ds"
    using assms by (induction cs ds rule: list_induct2') (simp_all add: change_key_def prod_eq_iff)
  have "output_length_after n cs = output_length_after n ds" for n
    using keys by (induction rule: list_all2_induct) (rule refl, intro ext, simp)
  moreover have "splice base cs cursor = splice base ds cursor" for cursor
    using keys by (induction arbitrary: cursor rule: list_all2_induct) simp_all
  ultimately show ?thesis by (simp add: apply_changes_def)
qed

lemma conflict_loop_none:
  "filter clash pairs = [] \<Longrightarrow> conflict_loop base app external budget pairs conflicts payload = Ok conflicts"
proof (induction pairs)
  case (Cons ae pairs)
  then show ?case unfolding conflict_loop_step by (auto split: if_splits)
qed simp

lemma clash_swap: "clash (a, e) \<longleftrightarrow> clash (e, a)"
  by (auto simp: clash_def changes_overlap_def equivalent_change_def split: bool.splits)

lemma find_conflicts_swap:
  assumes "find_conflicts base app external cs ds budget = Ok []"
  shows "find_conflicts base external app ds cs budget = Ok []"
proof -
  have "filter clash (List.product cs ds) = []" using find_conflicts_Ok [OF assms] by simp
  then have "filter clash (List.product ds cs) = []" using clash_swap by (auto simp: filter_empty_conv)
  then show ?thesis
    using assms by (auto simp: find_conflicts_def conflict_loop_none result_simps saturating_mul_def mult.commute)
qed

lemma ensure_input_budget_swap: "ensure_input_budget base app external budget = ensure_input_budget base external app budget"
  by (simp add: ensure_input_budget_def max.assoc max.commute [of "str_len app"])

section \<open>Only budgets fail\<close>

lemma str_get_extend:
  assumes "str_get s a b = Some x" "str_get s b c = Some y"
  shows "str_get s a c = Some (x @ y)"
proof -
  obtain i j where ij: "i \<le> j" "j \<le> length s" "a = offset s i" "b = offset s j" "x = take (j - i) (drop i s)"
    using assms (1) unfolding str_get_Some by blast
  obtain j' k where jk: "j' \<le> k" "k \<le> length s" "b = offset s j'" "c = offset s k" "y = take (k - j') (drop j' s)"
    using assms (2) unfolding str_get_Some by blast
  have "j' = j" using offset_eq_iff [of j s j'] ij (2,4) jk (1-3) by simp
  then show ?thesis unfolding str_get_Some using ij jk take_drop_extend [of i j k s] by (intro exI [of _ i] exI [of _ k]) simp
qed

definition side_text :: "ustr \<Rightarrow> change \<Rightarrow> bool" where
  "side_text side c \<longleftrightarrow> str_get side (fst (ch_side c)) (snd (ch_side c)) = Some (ch_replacement c)"

lemma collect_changes_side:
  "collect_changes side n bo so ops cs = Ok ds \<Longrightarrow> list_all (side_text side) cs \<Longrightarrow> list_all (side_text side) ds"
proof (induction ops arbitrary: cs)
  case (Cons op ops)
  show ?case
  proof (cases "op_tag op = Tag_Equal")
    case False
    define grow where "grow = (\<lambda>br sr r. case cs of
          c # cs0 \<Rightarrow> if snd (ch_base c) = fst br \<and> snd (ch_side c) = fst sr
            then \<lparr>ch_base = (fst (ch_base c), snd br), ch_side = (fst (ch_side c), snd sr), ch_replacement = ch_replacement c @ r\<rparr> # cs0
            else \<lparr>ch_base = br, ch_side = sr, ch_replacement = r\<rparr> # cs
        | [] \<Rightarrow> [\<lparr>ch_base = br, ch_side = sr, ch_replacement = r\<rparr>])"
    have step: "collect_changes side n bo so (op # ops) cs =
        res_bind (offset_range n bo (op_old op)) (\<lambda>br. res_bind (offset_range n so (op_new op)) (\<lambda>sr.
        res_bind (ok_or InvalidEditScript (str_get side (fst sr) (snd sr))) (\<lambda>r. collect_changes side n bo so ops (grow br sr r))))"
      using False by (cases cs) (simp_all add: grow_def if_distrib cong: if_cong)
    obtain br sr r where r: "str_get side (fst sr) (snd sr) = Some r"
      and rest: "collect_changes side n bo so ops (grow br sr r) = Ok ds"
      using Cons.prems (1) unfolding step by (simp only: result_simps) blast
    show ?thesis
      by (rule Cons.IH [OF rest])
        (use Cons.prems (2) r in \<open>auto simp: grow_def side_text_def intro: str_get_extend split: list.split\<close>)
  qed (use Cons in simp)
qed (auto simp: list_all_iff)

lemma diff_changes_side: "diff_changes capture base side budget = Ok cs \<Longrightarrow> list_all (side_text side) cs"
  unfolding diff_changes_def by (auto simp: result_simps Let_def split: if_splits prod.splits dest: collect_changes_side)

lemma usize_to_u64_small: "n \<le> U64_MAX \<Longrightarrow> mg_usize_to_u64 n = Ok n"
  by (simp add: mg_usize_to_u64_def try_from_def)

text \<open>A pair whose ranges lie on characters of documents that fit in memory.\<close>

definition pair_valid :: "ustr \<Rightarrow> ustr \<Rightarrow> ustr \<Rightarrow> change \<times> change \<Rightarrow> bool" where
  "pair_valid base app external ae \<longleftrightarrow>
     fst (ch_base (fst ae)) \<le> snd (ch_base (fst ae)) \<and> fst (ch_base (snd ae)) \<le> snd (ch_base (snd ae)) \<and>
     (\<exists>t. str_get base (fst (union_span (ch_base (fst ae)) (ch_base (snd ae)))) (snd (union_span (ch_base (fst ae)) (ch_base (snd ae)))) = Some t) \<and>
     side_text app (fst ae) \<and> side_text external (snd ae)"

lemma conflict_span_of_Ok:
  "str_get s (fst r) (snd r) = Some t \<Longrightarrow> str_len s \<le> U64_MAX \<Longrightarrow>
   conflict_span_of s r = Ok \<lparr>cs_range = \<lparr>br_start = fst r, br_end = snd r\<rparr>, cs_text = t\<rparr>"
  using str_get_len [of s "fst r" "snd r" t] by (simp add: conflict_span_of_def public_range_def usize_to_u64_small)

lemma conflict_step_Err:
  assumes len: "str_len base \<le> U64_MAX" "str_len app \<le> U64_MAX" "str_len external \<le> U64_MAX" and "n \<le> U64_MAX"
    and valid: "pair_valid base app external ae"
    and err: "conflict_step base app external budget ae n payload = Err e"
  shows "budget_error e"
proof -
  let ?u = "union_span (ch_base (fst ae)) (ch_base (snd ae))"
  obtain t where u: "str_get base (fst ?u) (snd ?u) = Some t" using valid by (auto simp: pair_valid_def)
  have sides: "str_get app (fst (ch_side (fst ae))) (snd (ch_side (fst ae))) = Some (ch_replacement (fst ae))"
    "str_get external (fst (ch_side (snd ae))) (snd (ch_side (snd ae))) = Some (ch_replacement (snd ae))"
    using valid by (simp_all add: pair_valid_def side_text_def)
  have "snd ?u \<le> U64_MAX" using str_get_len [OF u] len (1) by simp
  then have "public_range (ch_base c) = Ok \<lparr>br_start = fst (ch_base c), br_end = snd (ch_base c)\<rparr>" if "c \<in> {fst ae, snd ae}" for c
    using that valid by (auto simp: pair_valid_def union_span_def public_range_def usize_to_u64_small)
  moreover have "mg_usize_to_u64 (span_len ?u) = Ok (span_len ?u)" "mg_usize_to_u64 (span_len (ch_side (fst ae))) = Ok (span_len (ch_side (fst ae)))"
    "mg_usize_to_u64 (span_len (ch_side (snd ae))) = Ok (span_len (ch_side (snd ae)))"
    using str_get_len [OF u] str_get_len [OF sides (1)] str_get_len [OF sides (2)] len by (simp_all add: span_len_def usize_to_u64_small)
  ultimately show ?thesis
    using err conflict_span_of_Ok [OF u len (1)] conflict_span_of_Ok [OF sides (1) len (2)] conflict_span_of_Ok [OF sides (2) len (3)] assms (4)
    by (auto simp: conflict_step_def usize_to_u64_small result_simps Let_def dest: ensure_budget_Err)
qed

lemma conflict_loop_Err:
  assumes len: "str_len base \<le> U64_MAX" "str_len app \<le> U64_MAX" "str_len external \<le> U64_MAX" and "mb_max_changes budget < U64_MAX"
  shows "list_all (pair_valid base app external) pairs \<Longrightarrow> length conflicts \<le> mb_max_changes budget \<Longrightarrow>
    conflict_loop base app external budget pairs conflicts payload = Err e \<Longrightarrow> budget_error e"
proof (induction pairs arbitrary: conflicts payload)
  case (Cons ae pairs)
  note IH = Cons.IH and valid = Cons.prems (1) and n = Cons.prems (2)
  show ?case
  proof (cases "clash ae \<and> (\<exists>c payload'. conflict_step base app external budget ae (length conflicts) payload = Ok (c, payload') \<and>
      conflict_loop base app external budget pairs (conflicts @ [c]) payload' = Err e)")
    case True
    then obtain c payload' where step: "conflict_step base app external budget ae (length conflicts) payload = Ok (c, payload')"
        "conflict_loop base app external budget pairs (conflicts @ [c]) payload' = Err e" by blast
    have "length conflicts + 1 \<le> mb_max_changes budget"
      using step (1) n assms (4)
      by (auto simp: conflict_step_def result_simps ensure_budget_def mg_usize_to_u64_def saturating_add_def Let_def split: if_splits)
    then show ?thesis using IH [OF _ _ step (2)] valid by simp
  next
    case False
    have "conflict_step base app external budget ae (length conflicts) payload = Err e \<or>
        conflict_loop base app external budget pairs conflicts payload = Err e"
      using Cons.prems (3) False unfolding conflict_loop_step by (auto simp: result_simps split: if_splits)
    then show ?thesis
    proof
      assume "conflict_step base app external budget ae (length conflicts) payload = Err e"
      then show ?thesis by (rule conflict_step_Err [OF len, rotated 2]) (use valid n assms (4) in simp_all)
    next
      assume "conflict_loop base app external budget pairs conflicts payload = Err e"
      then show ?thesis using IH valid n by simp
    qed
  qed
qed simp

lemma pairs_valid:
  assumes "patches_of base cs A" "patches_of base ds E" "list_all (side_text app) cs" "list_all (side_text external) ds"
  shows "list_all (pair_valid base app external) (List.product cs ds)"
proof -
  have "pair_valid base app external (c, d)" if cd: "c \<in> set cs" "d \<in> set ds" for c d
  proof -
    obtain j k r where p: "change_key c = patch_key base (j, k, r)" "patch_ok base (j, k, r)"
      using patches_of_member (1) [OF assms (1) cd (1)] by (metis prod_cases3)
    obtain j' k' r' where q: "change_key d = patch_key base (j', k', r')" "patch_ok base (j', k', r')"
      using patches_of_member (1) [OF assms (2) cd (2)] by (metis prod_cases3)
    have base: "ch_base c = (offset base j, offset base k)" "ch_base d = (offset base j', offset base k')"
      using p (1) q (1) by (simp_all add: change_key_def patch_key_def prod_eq_iff)
    have le: "j \<le> k" "k \<le> length base" "j' \<le> k'" "k' \<le> length base" using p (2) q (2) by (simp_all add: patch_ok_def)
    have "union_span (ch_base c) (ch_base d) = (offset base (min j j'), offset base (max k k'))"
      using offset_le_iff [of j base j'] offset_le_iff [of k base k'] le unfolding union_span_def base by (simp add: min_def max_def)
    then show ?thesis
      using le base assms (3,4) cd offset_mono [of j k base] offset_mono [of j' k' base] str_get_offsets [of "min j j'" "max k k'" base]
      by (auto simp: pair_valid_def list_all_iff)
  qed
  then show ?thesis by (auto simp: list_all_iff)
qed

lemma find_conflicts_Err:
  assumes len: "str_len base \<le> U64_MAX" "str_len app \<le> U64_MAX" "str_len external \<le> U64_MAX" and "mb_max_changes budget < U64_MAX"
    and valid: "list_all (pair_valid base app external) (List.product cs ds)" and count: "length cs \<le> U64_MAX" "length ds \<le> U64_MAX"
    and err: "find_conflicts base app external cs ds budget = Err e"
  shows "budget_error e"
proof -
  have "ensure_budget ConflictComparisons (saturating_mul U64_MAX (length cs) (length ds)) (mb_max_diff_work budget) = Err e \<or>
      conflict_loop base app external budget (List.product cs ds) [] 0 = Err e"
    using err count unfolding find_conflicts_def by (simp add: usize_to_u64_small result_simps) blast
  then show ?thesis using ensure_budget_Err conflict_loop_Err [OF assms (1-5), of "[]" 0 e] by auto
qed

definition inserted :: "patch list \<Rightarrow> nat" where
  "inserted ps = sum_list (map (\<lambda>p. str_len (snd (snd p))) ps)"

lemma inserted_weave: "inserted ps \<le> str_len (weave base ps i)"
  by (induction base ps i rule: weave.induct) (simp_all add: inserted_def)

lemma inserted_changes:
  "patches_of base cs ps \<Longrightarrow> sum_list (map (\<lambda>c. str_len (ch_replacement c)) cs) = inserted ps"
proof (induction cs arbitrary: ps)
  case (Cons c cs)
  then show ?case by (auto simp: patches_of_Cons inserted_def)
qed (simp add: patches_of_Nil inserted_def)

lemma inserted_union:
  assumes "distinct A" "distinct E"
  shows "inserted (union_patches A E) \<le> inserted A + inserted E"
proof -
  let ?f = "\<lambda>p :: patch. str_len (snd (snd p))"
  have d: "inserted ps = sum ?f (set ps)" if "distinct ps" for ps
    using that by (simp add: inserted_def sum_list_distinct_conv_sum_set)
  have "distinct (union_patches A E)" by (simp add: union_patches_def)
  then have "inserted (union_patches A E) = sum ?f (set A \<union> set E)" by (simp add: d)
  also have "\<dots> \<le> sum ?f (set A) + sum ?f (set E)" by (simp add: sum_Un_nat)
  finally show ?thesis by (simp add: d [OF assms (1)] d [OF assms (2)])
qed

lemma apply_changes_Err:
  assumes "patches_of base cs ps" "sorted_wrt precedes ps" "str_len base + inserted ps \<le> USIZE_MAX"
    and "apply_changes base cs budget = Err e"
  shows "budget_error e"
proof -
  have "str_len (weave base ps i) \<le> str_len (drop i base) + inserted ps" if "sorted_wrt precedes ps" "list_all (patch_ok base) ps" "\<forall>p \<in> set ps. i \<le> fst p" for i
    using that
  proof (induction base ps i rule: weave.induct)
    case (2 base j k r ps i)
    then have "str_len (weave base ps k) \<le> str_len (drop k base) + inserted ps" by (auto simp: precedes_def)
    moreover have "j \<le> k" "i \<le> j" using 2 (3,4) by (simp_all add: patch_ok_def)
    ultimately show ?case using str_len_drop_split [of i j base] str_len_drop_split [of j k base] by (simp add: inserted_def)
  qed (simp add: inserted_def)
  then have "str_len (weave base ps 0) \<le> U64_MAX" using assms (1-3) by (simp add: patches_of_def USIZE_MAX_def) (metis drop0 le_trans zero_le)
  then show ?thesis
    using apply_changes_weave [OF assms (1,2), of budget] assms (3,4)
    by (auto simp: inserted_changes [OF assms (1)] budget_error_def split: if_splits)
qed

lemma ensure_output_Err: "ensure_output_budget n budget = Err e \<Longrightarrow> n \<le> U64_MAX \<Longrightarrow> budget_error e"
  by (auto simp: ensure_output_budget_def usize_to_u64_small dest: ensure_budget_Err)

lemma combined_errors:
  assumes A: "patches_of base cs A" "sorted_wrt apart A" and E: "patches_of base ds E" "sorted_wrt apart E"
    and none: "find_conflicts base app external cs ds budget = Ok []"
    and fits: "str_len base + str_len (weave base A 0) + str_len (weave base E 0) \<le> USIZE_MAX"
    and err: "apply_changes base (combine_changes cs ds) budget = Err e"
  shows "budget_error e"
proof (rule apply_changes_Err [OF combine_changes_patches [OF A E (1)] _ _ err])
  have ok: "list_all (patch_ok base) A" "list_all (patch_ok base) E" using A (1) E (1) by (simp_all add: patches_of_def)
  then show "sorted_wrt precedes (union_patches A E)"
    using union_precedes [OF ok A (2) E (2) no_conflicts_compatible [OF none A (1) E (1)]] by simp
  have "distinct A" "distinct E"
    using patches_of_strict (1) [OF A] patches_of_strict (1) [OF E] by (simp_all only: strict_sorted_iff)
  then have "inserted (union_patches A E) \<le> inserted A + inserted E" by (rule inserted_union)
  then show "str_len base + inserted (union_patches A E) \<le> USIZE_MAX"
    using fits inserted_weave [of A base 0] inserted_weave [of E base 0] by linarith
qed

lemma merge_budget_errors:
  assumes "diff_engine capture" "str_len base \<le> ISIZE_MAX" "str_len app \<le> ISIZE_MAX" "str_len external \<le> ISIZE_MAX"
    and "kind \<noteq> Hybrid" "mb_max_changes budget < U64_MAX" "3 * mb_max_input_bytes budget \<le> USIZE_MAX"
    and err: "three_way_merge_with_budget capture kind base app external budget = Err e"
  shows "budget_error e"
proof -
  have len: "str_len base \<le> U64_MAX" "str_len app \<le> U64_MAX" "str_len external \<le> U64_MAX"
    using assms (2-4) by (simp_all add: ISIZE_MAX_def U64_MAX_def)
  consider "ensure_input_budget base app external budget = Err e"
    | s where "s \<in> {app, external}" "ensure_output_budget (str_len s) budget = Err e"
    | s where "s \<in> {app, external}" "diff_changes capture base s budget = Err e"
    | cs ds where "diff_changes capture base app budget = Ok cs" "diff_changes capture base external budget = Ok ds"
        "find_conflicts base app external cs ds budget = Err e"
    | cs ds where "ensure_input_budget base app external budget = Ok ()"
        "diff_changes capture base app budget = Ok cs" "diff_changes capture base external budget = Ok ds"
        "find_conflicts base app external cs ds budget = Ok []" "apply_changes base (combine_changes cs ds) budget = Err e"
    using err assms (5) unfolding three_way_merge_with_budget_def by (auto simp: result_simps split: if_splits)
  then show ?thesis
  proof cases
    case 1
    then show ?thesis using len by (auto simp: ensure_input_budget_def usize_to_u64_small Let_def dest: ensure_budget_Err)
  next
    case 2
    then show ?thesis using len ensure_output_Err by auto
  next
    case 3
    then show ?thesis using diff_changes_patches [OF assms (1,2), of s budget] assms (3,4) by auto
  next
    case (4 cs ds)
    obtain A where A: "patches_of base cs A" "sorted_wrt apart A" using diff_changes_Ok_patches [OF assms (1-3) 4 (1)] .
    obtain E where E: "patches_of base ds E" "sorted_wrt apart E" using diff_changes_Ok_patches [OF assms (1,2,4) 4 (2)] .
    have "length cs \<le> U64_MAX" "length ds \<le> U64_MAX"
      using patches_fit [OF A] patches_fit [OF E] length_le_str_len [of base] assms (2) by (simp_all add: ISIZE_MAX_def U64_MAX_def)
    then show ?thesis
      using find_conflicts_Err [OF len assms (6) pairs_valid [OF A (1) E (1) diff_changes_side diff_changes_side] _ _ 4 (3)] 4 (1,2) by blast
  next
    case (5 cs ds)
    obtain A where A: "patches_of base cs A" "sorted_wrt apart A" "weave base A 0 = app" using diff_changes_Ok_patches [OF assms (1-3) 5 (2)] .
    obtain E where E: "patches_of base ds E" "sorted_wrt apart E" "weave base E 0 = external" using diff_changes_Ok_patches [OF assms (1,2,4) 5 (3)] .
    have "max (max (str_len base) (str_len app)) (str_len external) \<le> mb_max_input_bytes budget"
      using 5 (1) by (auto simp: ensure_input_budget_def ensure_budget_def mg_usize_to_u64_def result_simps Let_def split: if_splits)
    then have "str_len base + str_len app + str_len external \<le> USIZE_MAX" using assms (7) by simp
    then show ?thesis using combined_errors [OF A (1,2) E (1,2) 5 (4) _ 5 (5)] A (3) E (3) by simp
  qed
qed

section \<open>Properties\<close>

text \<open>A diff engine that replaces everything, for evaluating the properties.\<close>

definition replace_all :: "ustr \<Rightarrow> ustr \<Rightarrow> diff_op list" where
  "replace_all old new = [\<lparr>op_tag = Tag_Replace, op_old = (0, length old), op_new = (0, length new)\<rparr>]"

lemma replace_all_engine: "diff_engine replace_all"
  by (simp add: diff_engine_def replace_all_def)

text \<open>C21. The law of three-way merging. The patches of a side are the changes of the diff engine's script between the
  longest common prefix and suffix of base and side, fused where they touch; woven into the base they give the side, and
  no two of them touch. Patches of the two sides are compatible when each pair is the same patch or does not overlap: two
  insertions are not at the same place, an insertion is not strictly inside a replaced range, and two replaced ranges are
  disjoint. A merge that succeeds has compatible patches and its content is the base with the union of both sets
  woven in, in the order of their places, within the output budget; a merge that reports conflicts has patches that are not
  compatible. The document is not hybrid. This covers the shortcuts for equal sides and for a side that equals the base.\<close>

theorem three_way_merge_law:
  assumes "diff_engine capture" "str_len base \<le> ISIZE_MAX" "str_len app \<le> ISIZE_MAX" "str_len external \<le> ISIZE_MAX"
    and "three_way_merge_with_budget capture kind base app external budget = Ok outcome"
  shows "kind \<noteq> Hybrid \<and>
    (let A = side_patches capture base app; E = side_patches capture base external in
     weave base A 0 = app \<and> weave base E 0 = external \<and> sorted_wrt apart A \<and> sorted_wrt apart E \<and>
     (case outcome of
        Merged content \<Rightarrow> compatible A E \<and> content = weave base (union_patches A E) 0 \<and> str_len content \<le> mb_max_output_bytes budget
      | Conflict conflicts \<Rightarrow> \<not> compatible A E))"
proof -
  let ?A = "side_patches capture base app" and ?E = "side_patches capture base external"
  note A = side_patches_weave [OF assms (1-3)] and E = side_patches_weave [OF assms (1,2,4)]
  have "kind \<noteq> Hybrid" using assms (5) by (auto simp: three_way_merge_with_budget_def)
  moreover have "case outcome of
      Merged content \<Rightarrow> compatible ?A ?E \<and> content = weave base (union_patches ?A ?E) 0 \<and> str_len content \<le> mb_max_output_bytes budget
    | Conflict conflicts \<Rightarrow> \<not> compatible ?A ?E"
  proof (cases "app = external \<or> app = base \<or> external = base")
    case True
    then show ?thesis using merge_shortcut [OF assms (1-4) _ assms (5)] by simp
  next
    case False
    then show ?thesis using merge_changed [OF assms (1-4) _ assms (5)] by simp
  qed
  ultimately show ?thesis using A (1,2) E (1,2) by (simp only: Let_def simp_thms)
qed

theorem three_way_merge_law_witness:
  "three_way_merge_with_budget replace_all Verse [97, 98, 99, 233] [120, 98, 99, 233] [97, 98, 99, 121] DEFAULT_MERGE_BUDGET =
     Ok (Merged [120, 98, 99, 121]) \<and>
   side_patches replace_all [97, 98, 99, 233] [120, 98, 99, 233] = [(0, 1, [120])] \<and>
   side_patches replace_all [97, 98, 99, 233] [97, 98, 99, 121] = [(3, 4, [121])] \<and>
   compatible [(0, 1, [120])] [(3, 4, [121])] \<and>
   [120, 98, 99, 121] = weave [97, 98, 99, 233] (union_patches [(0, 1, [120])] [(3, 4, [121])]) 0"
proof -
  have run: "three_way_merge_with_budget replace_all Verse [97, 98, 99, 233] [120, 98, 99, 233] [97, 98, 99, 121] DEFAULT_MERGE_BUDGET =
     Ok (Merged [120, 98, 99, 121])" by code_simp
  have sides: "side_patches replace_all [97, 98, 99, 233] [120, 98, 99, 233] = [(0, 1, [120])]"
    "side_patches replace_all [97, 98, 99, 233] [97, 98, 99, 121] = [(3, 4, [121])]" by code_simp+
  have len: "str_len [97, 98, 99, 233] \<le> ISIZE_MAX" "str_len [120, 98, 99, 233] \<le> ISIZE_MAX" "str_len [97, 98, 99, 121] \<le> ISIZE_MAX"
    by (simp_all add: len_utf8_def ISIZE_MAX_def)
  show ?thesis
    using three_way_merge_law [OF replace_all_engine len run, unfolded sides Let_def merge_outcome.case] run sides by blast
qed

text \<open>C22. Merging does not depend on which side is which: with the sides swapped, a merge that succeeds gives the
  same content.\<close>

theorem three_way_merge_symmetric:
  assumes "diff_engine capture" "str_len base \<le> ISIZE_MAX" "str_len app \<le> ISIZE_MAX" "str_len external \<le> ISIZE_MAX"
    and "three_way_merge_with_budget capture kind base app external budget = Ok (Merged content)"
  shows "three_way_merge_with_budget capture kind base external app budget = Ok (Merged content)"
proof -
  consider "app = external \<or> app = base \<or> external = base" | "app \<noteq> external" "app \<noteq> base" "external \<noteq> base" by blast
  then show ?thesis
  proof cases
    case 1
    then show ?thesis
      using assms (5) unfolding three_way_merge_with_budget_def ensure_input_budget_swap [of base external app]
      by (auto simp: result_simps split: if_splits)
  next
    case 2
    then obtain cs ds where steps: "diff_changes capture base app budget = Ok cs" "diff_changes capture base external budget = Ok ds"
        "find_conflicts base app external cs ds budget = Ok []" "apply_changes base (combine_changes cs ds) budget = Ok (Merged content)"
      and start: "kind \<noteq> Hybrid" "ensure_input_budget base app external budget = Ok ()"
      using assms (5) unfolding three_way_merge_with_budget_def by (auto simp: result_simps split: if_splits)
    obtain A where A: "patches_of base cs A" "sorted_wrt apart A" using diff_changes_Ok_patches [OF assms (1-3) steps (1)] .
    obtain E where E: "patches_of base ds E" "sorted_wrt apart E" using diff_changes_Ok_patches [OF assms (1,2,4) steps (2)] .
    have "map change_key (combine_changes cs ds) = map change_key (combine_changes ds cs)"
      using combine_changes_patches [OF A E (1)] combine_changes_patches [OF E A (1)]
      by (simp add: patches_of_def union_patches_commute [of E A])
    from apply_changes_keys [OF this] have "apply_changes base (combine_changes ds cs) budget = Ok (Merged content)"
      using steps (4) by simp
    then show ?thesis
      using 2 start steps (1,2) find_conflicts_swap [OF steps (3)] ensure_input_budget_swap [of base app external budget]
      by (simp add: three_way_merge_with_budget_def)
  qed
qed

theorem three_way_merge_symmetric_witness:
  "three_way_merge_with_budget replace_all Prose [97, 98] [97, 120, 98] [97, 98, 121] DEFAULT_MERGE_BUDGET =
     Ok (Merged [97, 120, 98, 121]) \<and>
   three_way_merge_with_budget replace_all Prose [97, 98] [97, 98, 121] [97, 120, 98] DEFAULT_MERGE_BUDGET =
     Ok (Merged [97, 120, 98, 121])"
proof
  show run: "three_way_merge_with_budget replace_all Prose [97, 98] [97, 120, 98] [97, 98, 121] DEFAULT_MERGE_BUDGET =
     Ok (Merged [97, 120, 98, 121])" by code_simp
  show "three_way_merge_with_budget replace_all Prose [97, 98] [97, 98, 121] [97, 120, 98] DEFAULT_MERGE_BUDGET =
     Ok (Merged [97, 120, 98, 121])"
    using three_way_merge_symmetric [OF replace_all_engine _ _ _ run] by (simp add: len_utf8_def ISIZE_MAX_def)
qed

text \<open>The changes of a side, applied to the base alone, give the side back, for every budget of the output that
  admits it; a smaller one is reported with the size of the side.\<close>

theorem diff_apply_roundtrip:
  assumes "diff_engine capture" "str_len base \<le> ISIZE_MAX" "str_len side \<le> ISIZE_MAX"
    and "diff_changes capture base side budget = Ok cs"
  shows "apply_changes base cs budget' =
    (if str_len side \<le> mb_max_output_bytes budget' then Ok (Merged side)
     else Err (BudgetExceeded OutputBytes (str_len side) (mb_max_output_bytes budget')))"
proof -
  obtain ps where ps: "patches_of base cs ps" "sorted_wrt apart ps" "weave base ps 0 = side"
    by (rule diff_changes_Ok_patches [OF assms])
  have "sorted_wrt precedes ps" by (rule sorted_wrt_mono_rel [OF _ ps (2)]) (simp add: apart_def precedes_def)
  moreover have "str_len base + inserted ps \<le> USIZE_MAX"
    using inserted_weave [of ps base 0] assms (2,3) by (simp add: ps (3) ISIZE_MAX_def USIZE_MAX_def U64_MAX_def)
  moreover have "str_len side \<le> U64_MAX" using assms (3) by (simp add: ISIZE_MAX_def U64_MAX_def)
  ultimately show ?thesis
    using apply_changes_weave [OF ps (1), of budget'] by (simp add: inserted_changes [OF ps (1)] ps (3))
qed

theorem diff_apply_roundtrip_witness:
  "\<exists>cs. diff_changes replace_all [97, 98, 99] [97, 128512, 99] DEFAULT_MERGE_BUDGET = Ok cs \<and>
     apply_changes [97, 98, 99] cs DEFAULT_MERGE_BUDGET = Ok (Merged [97, 128512, 99])"
proof -
  let ?cs = "[\<lparr>ch_base = (1, 2), ch_side = (1, 5), ch_replacement = [128512]\<rparr>]"
  have run: "diff_changes replace_all [97, 98, 99] [97, 128512, 99] DEFAULT_MERGE_BUDGET = Ok ?cs" by code_simp
  then show ?thesis
    using diff_apply_roundtrip [OF replace_all_engine _ _ run, of DEFAULT_MERGE_BUDGET]
    by (simp add: len_utf8_def ISIZE_MAX_def DEFAULT_MERGE_BUDGET_def)
qed

text \<open>A merge that reports conflicts reports every pair of changes of the two sides that overlap in the base
  and differ, in order, and nothing else; each conflict gives the ranges of its pair and the text of the base, of the app
  and of the external side at these ranges. A conflict is reported only when both sides differ from the base and from
  each other.\<close>

theorem three_way_merge_conflicts:
  assumes "three_way_merge_with_budget capture kind base app external budget = Ok (Conflict conflicts)"
  shows "conflicts \<noteq> [] \<and> app \<noteq> base \<and> external \<noteq> base \<and> app \<noteq> external \<and>
    (\<exists>cs ds. diff_changes capture base app budget = Ok cs \<and> diff_changes capture base external budget = Ok ds \<and>
       list_all2 (conflict_reports base app external) (filter clash (List.product cs ds)) conflicts)"
proof -
  have merged: "apply_changes base cs budget \<noteq> Ok (Conflict conflicts)" for cs
    by (auto simp: apply_changes_def result_simps split: if_splits)
  obtain cs ds where "diff_changes capture base app budget = Ok cs" "diff_changes capture base external budget = Ok ds"
      "find_conflicts base app external cs ds budget = Ok conflicts" "conflicts \<noteq> []" "app \<noteq> base" "external \<noteq> base" "app \<noteq> external"
    using assms merged unfolding three_way_merge_with_budget_def by (auto simp: result_simps split: if_splits)
  then show ?thesis using find_conflicts_Ok by blast
qed

theorem three_way_merge_conflicts_witness:
  "\<exists>conflicts. three_way_merge_with_budget replace_all Prose [99, 97, 116] [100, 111, 103] [102, 111, 120] DEFAULT_MERGE_BUDGET =
     Ok (Conflict conflicts) \<and> conflicts \<noteq> []"
proof -
  let ?r = "\<lparr>br_start = 0, br_end = 3\<rparr>"
  have run: "three_way_merge_with_budget replace_all Prose [99, 97, 116] [100, 111, 103] [102, 111, 120] DEFAULT_MERGE_BUDGET =
     Ok (Conflict [\<lparr>mc_kind = OverlappingEdits, mc_base = \<lparr>cs_range = ?r, cs_text = [99, 97, 116]\<rparr>, mc_app_base_range = ?r,
       mc_app = \<lparr>cs_range = ?r, cs_text = [100, 111, 103]\<rparr>, mc_external_base_range = ?r,
       mc_external = \<lparr>cs_range = ?r, cs_text = [102, 111, 120]\<rparr>\<rparr>])" by code_simp
  show ?thesis using three_way_merge_conflicts [OF run] run by blast
qed

text \<open>The merge of documents that are not hybrid gives a merge or conflicts, or says which budget was
  exceeded: the internal errors for a bad edit script and for ranges that do not fit cannot occur when three inputs of
  the admitted size fit in memory together, as with the default budget. A hybrid document is always refused.\<close>

theorem three_way_merge_errors:
  assumes "diff_engine capture" "str_len base \<le> ISIZE_MAX" "str_len app \<le> ISIZE_MAX" "str_len external \<le> ISIZE_MAX"
    and "mb_max_changes budget < U64_MAX" "3 * mb_max_input_bytes budget \<le> USIZE_MAX"
    and "three_way_merge_with_budget capture kind base app external budget = Err e"
  shows "if kind = Hybrid then e = HybridMetadataRequired else budget_error e"
proof (cases "kind = Hybrid")
  case True
  then show ?thesis using assms (7) by (simp add: three_way_merge_with_budget_def)
next
  case False
  then show ?thesis using merge_budget_errors [OF assms (1-4) False assms (5-7)] by simp
qed

theorem three_way_merge_errors_witness:
  "three_way_merge replace_all Hybrid [97] [98] [99] = Err HybridMetadataRequired \<and>
   budget_error (BudgetExceeded OutputBytes 4 3)"
proof
  show "three_way_merge replace_all Hybrid [97] [98] [99] = Err HybridMetadataRequired" by code_simp
  let ?budget = "\<lparr>mb_max_input_bytes = 3, mb_max_changed_scalars = 9, mb_max_diff_work = 9, mb_max_changes = 9, mb_max_output_bytes = 3\<rparr>"
  have "three_way_merge_with_budget replace_all Prose [97, 98] [97, 120, 98] [97, 98, 121] ?budget = Err (BudgetExceeded OutputBytes 4 3)"
    by code_simp
  from three_way_merge_errors [OF replace_all_engine _ _ _ _ _ this] show "budget_error (BudgetExceeded OutputBytes 4 3)"
    by (simp add: len_utf8_def ISIZE_MAX_def U64_MAX_def USIZE_MAX_def)
qed

end
