(* ===== verification/Revision_Diff.thy ===== *)
theory Revision_Diff
  imports Text_Merge
begin

text \<open>
  The presentation diff of two revisions, \<open>products/loom/crates/loom-document/src/revision_diff.rs\<close>: lines are
  aligned first, then words within replaced blocks, within a budget of work.

  Strings and byte offsets are those of \<open>Text_Merge\<close>. The diff engine of the \<open>similar\<close> crate (on token lists) and
  \<open>split_word_bounds\<close> of the \<open>unicode-segmentation\<close> crate are arguments; what is relied on is \<open>token_diff_engine\<close> and
  \<open>word_segmentation\<close>, the documented contracts that the operations transform one list into the other and that the
  words of a text, put together, are the text. An index or a slice out of range, which panics, is \<open>None\<close>.
\<close>

section \<open>Data\<close>

definition RD_MAX_INPUT_BYTES :: nat where "RD_MAX_INPUT_BYTES = 2 * 1024 * 1024"
definition MAX_TOKENS :: nat where "MAX_TOKENS = 64 * 1024"
definition MAX_DIFF_WORK :: nat where "MAX_DIFF_WORK = 4 * 1024 * 1024"

datatype granularity = Words | Lines

datatype change_kind = Kind_Equal | Kind_Insert | Kind_Delete | Kind_Replace

record diff_span =
  ds_kind :: change_kind
  ds_before :: span
  ds_after :: span

record revision_diff =
  rd_granularity :: granularity
  rd_coarse_blocks :: nat
  rd_spans :: "diff_span list"

datatype diff_error = InputLimit

record alignment =
  ag_coarse :: bool
  ag_spans :: "diff_span list"

section \<open>Tokens and spans\<close>

definition diff_tokens :: "(ustr \<Rightarrow> ustr list) \<Rightarrow> ustr \<Rightarrow> granularity \<Rightarrow> ustr list option" where
  "diff_tokens word_bounds s g =
     (let parts = (case g of Words \<Rightarrow> take (MAX_TOKENS + 1) (word_bounds s) | Lines \<Rightarrow> take (MAX_TOKENS + 1) (split_lines s))
      in if length parts \<le> MAX_TOKENS then Some parts else None)"

fun offsets_from :: "nat \<Rightarrow> ustr list \<Rightarrow> nat list" where
  "offsets_from start [] = [start]"
| "offsets_from start (t # ts) = start # offsets_from (start + str_len t) ts"

definition token_offsets :: "ustr list \<Rightarrow> nat list" where
  "token_offsets ts = offsets_from 0 ts"

definition push_span :: "diff_span list \<Rightarrow> diff_span \<Rightarrow> diff_span list" where
  "push_span spans span =
     (if span_empty (ds_before span) \<and> span_empty (ds_after span) then spans
      else if spans \<noteq> [] \<and> ds_kind (last spans) = ds_kind span \<and> snd (ds_before (last spans)) = fst (ds_before span) \<and>
              snd (ds_after (last spans)) = fst (ds_after span)
      then butlast spans @ [(last spans)\<lparr>ds_before := (fst (ds_before (last spans)), snd (ds_before span)),
                                        ds_after := (fst (ds_after (last spans)), snd (ds_after span))\<rparr>]
      else spans @ [span])"

definition single :: "ustr \<Rightarrow> ustr \<Rightarrow> bool \<Rightarrow> alignment" where
  "single before after coarse =
     (let kind = (if before = after then Kind_Equal else if before = [] then Kind_Insert
                  else if after = [] then Kind_Delete else Kind_Replace)
      in \<lparr>ag_coarse = coarse,
          ag_spans = push_span [] \<lparr>ds_kind = kind, ds_before = (0, str_len before), ds_after = (0, str_len after)\<rparr>\<rparr>)"

definition kind_of_tag :: "diff_tag \<Rightarrow> change_kind" where
  "kind_of_tag t =
     (case t of Tag_Equal \<Rightarrow> Kind_Equal | Tag_Insert \<Rightarrow> Kind_Insert | Tag_Delete \<Rightarrow> Kind_Delete | Tag_Replace \<Rightarrow> Kind_Replace)"

section \<open>Alignment\<close>

definition nth_opt :: "'a list \<Rightarrow> nat \<Rightarrow> 'a option" where
  "nth_opt xs i = (if i < length xs then Some (xs ! i) else None)"

fun push_operations :: "nat list \<Rightarrow> nat list \<Rightarrow> nat \<Rightarrow> diff_op list \<Rightarrow> diff_span list \<Rightarrow> diff_span list option" where
  "push_operations old_offsets new_offsets prefix [] spans = Some spans"
| "push_operations old_offsets new_offsets prefix (op # ops) spans =
     Option.bind (nth_opt old_offsets (prefix + fst (op_old op))) (\<lambda>b.
     Option.bind (nth_opt old_offsets (prefix + snd (op_old op))) (\<lambda>b'.
     Option.bind (nth_opt new_offsets (prefix + fst (op_new op))) (\<lambda>a.
     Option.bind (nth_opt new_offsets (prefix + snd (op_new op))) (\<lambda>a'.
       push_operations old_offsets new_offsets prefix ops
         (push_span spans \<lparr>ds_kind = kind_of_tag (op_tag op), ds_before = (b, b'), ds_after = (a, a')\<rparr>)))))"

definition align ::
  "(ustr list \<Rightarrow> ustr list \<Rightarrow> diff_op list) \<Rightarrow> (ustr \<Rightarrow> ustr list) \<Rightarrow> ustr \<Rightarrow> ustr \<Rightarrow> granularity \<Rightarrow> nat \<Rightarrow> (alignment \<times> nat) option" where
  "align capture word_bounds before after g work =
     (if before = after \<or> before = [] \<or> after = [] then Some (single before after False, work)
      else case (diff_tokens word_bounds before g, diff_tokens word_bounds after g) of
        (Some old, Some new) \<Rightarrow>
          let prefix = length (common_edge old new);
              suffix = length (common_edge (rev (drop prefix old)) (rev (drop prefix new)));
              old_end = length old - suffix;
              new_end = length new - suffix;
              cost = min USIZE_MAX ((saturating_add USIZE_MAX (old_end - prefix) (new_end - prefix)) ^ 2)
          in if work < cost then Some (single before after True, work)
             else
               let old_offsets = token_offsets old; new_offsets = token_offsets new in
               Option.bind (nth_opt old_offsets prefix) (\<lambda>b.
               Option.bind (nth_opt new_offsets prefix) (\<lambda>a.
               Option.bind (push_operations old_offsets new_offsets prefix
                   (capture (take (old_end - prefix) (drop prefix old)) (take (new_end - prefix) (drop prefix new)))
                   (push_span [] \<lparr>ds_kind = Kind_Equal, ds_before = (0, b), ds_after = (0, a)\<rparr>)) (\<lambda>spans.
               Option.bind (nth_opt old_offsets old_end) (\<lambda>b'.
               Option.bind (nth_opt new_offsets new_end) (\<lambda>a'.
                 Some (\<lparr>ag_coarse = False,
                        ag_spans = push_span spans \<lparr>ds_kind = Kind_Equal, ds_before = (b', str_len before), ds_after = (a', str_len after)\<rparr>\<rparr>,
                       work - cost))))))
      | _ \<Rightarrow> Some (single before after True, work))"

section \<open>Comparison\<close>

definition shift_span :: "diff_span \<Rightarrow> diff_span \<Rightarrow> diff_span" where
  "shift_span block word =
     word\<lparr>ds_before := (fst (ds_before word) + fst (ds_before block), snd (ds_before word) + fst (ds_before block)),
         ds_after := (fst (ds_after word) + fst (ds_after block), snd (ds_after word) + fst (ds_after block))\<rparr>"

fun compare_blocks ::
  "(ustr list \<Rightarrow> ustr list \<Rightarrow> diff_op list) \<Rightarrow> (ustr \<Rightarrow> ustr list) \<Rightarrow> ustr \<Rightarrow> ustr \<Rightarrow> granularity \<Rightarrow> bool \<Rightarrow> diff_span list \<Rightarrow>
     nat \<Rightarrow> revision_diff \<Rightarrow> revision_diff option" where
  "compare_blocks capture word_bounds before after g coarse [] work result = Some result"
| "compare_blocks capture word_bounds before after g coarse (block # blocks) work result =
     (if g = Words \<and> ds_kind block = Kind_Replace then
        Option.bind (str_get before (fst (ds_before block)) (snd (ds_before block))) (\<lambda>b.
        Option.bind (str_get after (fst (ds_after block)) (snd (ds_after block))) (\<lambda>a.
        Option.bind (align capture word_bounds b a Words work) (\<lambda>(words, work).
          compare_blocks capture word_bounds before after g coarse blocks work
            (result\<lparr>rd_coarse_blocks := rd_coarse_blocks result + (if ag_coarse words then 1 else 0),
                    rd_spans := foldl (\<lambda>spans word. push_span spans (shift_span block word)) (rd_spans result) (ag_spans words)\<rparr>))))
      else compare_blocks capture word_bounds before after g coarse blocks work
             (result\<lparr>rd_coarse_blocks := rd_coarse_blocks result + (if coarse then 1 else 0),
                     rd_spans := push_span (rd_spans result) block\<rparr>))"

definition compare_revisions ::
  "(ustr list \<Rightarrow> ustr list \<Rightarrow> diff_op list) \<Rightarrow> (ustr \<Rightarrow> ustr list) \<Rightarrow> ustr \<Rightarrow> ustr \<Rightarrow> granularity \<Rightarrow>
     (revision_diff, diff_error) result option" where
  "compare_revisions capture word_bounds before after g =
     (if RD_MAX_INPUT_BYTES < saturating_add USIZE_MAX (str_len before) (str_len after) then Some (Err InputLimit)
      else
        Option.bind (align capture word_bounds before after Lines MAX_DIFF_WORK) (\<lambda>(blocks, work).
        map_option Ok
          (compare_blocks capture word_bounds before after g (ag_coarse blocks) (ag_spans blocks) work
             \<lparr>rd_granularity = g, rd_coarse_blocks = 0, rd_spans = []\<rparr>)))"

section \<open>Contracts of the libraries\<close>

text \<open>Beside transforming one list into the other, an operation tagged as an insertion covers nothing of the old list
  and a deletion nothing of the new one.\<close>

definition tag_ok :: "diff_op \<Rightarrow> bool" where
  "tag_ok op \<longleftrightarrow> (op_tag op = Tag_Insert \<longrightarrow> fst (op_old op) = snd (op_old op)) \<and> (op_tag op = Tag_Delete \<longrightarrow> fst (op_new op) = snd (op_new op))"

definition token_diff_engine :: "(ustr list \<Rightarrow> ustr list \<Rightarrow> diff_op list) \<Rightarrow> bool" where
  "token_diff_engine capture \<longleftrightarrow> (\<forall>old new. edit_script old new 0 0 (capture old new) \<and> list_all tag_ok (capture old new))"

definition word_segmentation :: "(ustr \<Rightarrow> ustr list) \<Rightarrow> bool" where
  "word_segmentation word_bounds \<longleftrightarrow> (\<forall>s. concat (word_bounds s) = s)"

section \<open>Spans that partition both texts\<close>

text \<open>What a kind says of the texts from \<open>i\<close> to \<open>i'\<close> and from \<open>j\<close> to \<open>j'\<close>, in characters.\<close>

definition kind_ok :: "ustr \<Rightarrow> ustr \<Rightarrow> change_kind \<Rightarrow> nat \<Rightarrow> nat \<Rightarrow> nat \<Rightarrow> nat \<Rightarrow> bool" where
  "kind_ok before after k i i' j j' =
     (case k of
        Kind_Equal \<Rightarrow> take (i' - i) (drop i before) = take (j' - j) (drop j after)
      | Kind_Insert \<Rightarrow> i = i'
      | Kind_Delete \<Rightarrow> j = j'
      | Kind_Replace \<Rightarrow> True)"

inductive spans_to :: "ustr \<Rightarrow> ustr \<Rightarrow> diff_span list \<Rightarrow> nat \<Rightarrow> nat \<Rightarrow> bool" for before after where
  spans_none: "spans_to before after [] 0 0"
| spans_span: "\<lbrakk>spans_to before after spans i j; i \<le> i'; i' \<le> length before; j \<le> j'; j' \<le> length after; i < i' \<or> j < j';
    kind_ok before after k i i' j j'; spans = [] \<or> ds_kind (last spans) \<noteq> k\<rbrakk> \<Longrightarrow>
    spans_to before after (spans @ [\<lparr>ds_kind = k, ds_before = (offset before i, offset before i'), ds_after = (offset after j, offset after j')\<rparr>]) i' j'"

lemma spans_to_bound: "spans_to before after spans i j \<Longrightarrow> i \<le> length before \<and> j \<le> length after"
  by (induction rule: spans_to.induct) simp_all

lemma kind_ok_join:
  assumes "kind_ok before after k i i' j j'" "kind_ok before after k i' i'' j' j''" "i \<le> i'" "i' \<le> i''" "j \<le> j'" "j' \<le> j''"
  shows "kind_ok before after k i i'' j j''"
proof (cases k)
  case Kind_Equal
  then show ?thesis
    using assms take_drop_extend [of i i' i'' before] take_drop_extend [of j j' j'' after] by (simp add: kind_ok_def)
qed (use assms in \<open>simp_all add: kind_ok_def\<close>)

lemma push_span_to:
  assumes spans: "spans_to before after spans i j" and i: "i \<le> i'" "i' \<le> length before" and j: "j \<le> j'" "j' \<le> length after"
    and kind: "kind_ok before after k i i' j j'"
  shows "spans_to before after
    (push_span spans \<lparr>ds_kind = k, ds_before = (offset before i, offset before i'), ds_after = (offset after j, offset after j')\<rparr>) i' j'"
proof -
  have empty: "span_empty (offset s x, offset s y) \<longleftrightarrow> x = y" if "x \<le> y" "y \<le> length s" for s x y
    using that offset_less_iff [of x s y] by (auto simp: span_empty_def)
  have e: "span_empty (offset before i, offset before i') \<longleftrightarrow> i = i'" "span_empty (offset after j, offset after j') \<longleftrightarrow> j = j'"
    using empty i j by blast+
  let ?span = "\<lparr>ds_kind = k, ds_before = (offset before i, offset before i'), ds_after = (offset after j, offset after j')\<rparr>"
  consider "i = i'" "j = j'" | "i < i' \<or> j < j'" "spans \<noteq> []" "ds_kind (last spans) = k" | "i < i' \<or> j < j'" "spans = [] \<or> ds_kind (last spans) \<noteq> k"
    using i j by force
  then show ?thesis
  proof cases
    case 1
    then show ?thesis using spans e by (simp add: push_span_def)
  next
    case 2
    from spans show ?thesis
    proof cases
      case spans_none
      then show ?thesis using 2 by simp
    next
      case (spans_span before_spans i0 j0 kind)
      then have k: "kind = k" using 2 by simp
      have "push_span spans ?span = before_spans @ [\<lparr>ds_kind = k, ds_before = (offset before i0, offset before i'), ds_after = (offset after j0, offset after j')\<rparr>]"
        using 2 e unfolding spans_span (1) k by (auto simp: push_span_def)
      moreover have "kind_ok before after k i0 i' j0 j'"
        using kind_ok_join [OF _ kind] spans_span i j k by simp
      ultimately show ?thesis using spans_to.spans_span [of before after before_spans i0 j0 i' j' k] spans_span i j 2 k by auto
    qed
  next
    case 3
    then have "push_span spans ?span = spans @ [?span]" using e by (auto simp: push_span_def)
    then show ?thesis using spans_to.spans_span [OF spans i j 3 (1) kind 3 (2)] by simp
  qed
qed

section \<open>Tokens put together are the text\<close>

lemma diff_tokens_concat:
  assumes "word_segmentation word_bounds" "diff_tokens word_bounds s g = Some ts"
  shows "concat ts = s"
proof -
  have whole: "take (Suc n) xs = xs" if "length (take (Suc n) xs) \<le> n" for n and xs :: "ustr list" using that by (simp add: min_def split: if_splits)
  have "ts = (case g of Words \<Rightarrow> word_bounds s | Lines \<Rightarrow> split_lines s)"
    using assms (2) whole by (cases g) (auto simp: diff_tokens_def Let_def split: if_splits)
  then show ?thesis using assms (1) concat_split_lines by (cases g) (simp_all add: word_segmentation_def)
qed

text \<open>Where the token with index \<open>t\<close> starts, in characters.\<close>

definition token_start :: "ustr list \<Rightarrow> nat \<Rightarrow> nat" where
  "token_start ts t = length (concat (take t ts))"

lemma concat_take_drop: "concat ts = concat (take t ts) @ concat (drop t ts)"
  by (metis append_take_drop_id concat_append)

lemma take_token_start: "take (token_start ts t) (concat ts) = concat (take t ts)"
  using concat_take_drop [of ts t] by (simp add: token_start_def)

lemma drop_token_start: "drop (token_start ts t) (concat ts) = concat (drop t ts)"
  using concat_take_drop [of ts t] by (simp add: token_start_def)

lemma token_start_split:
  assumes "t \<le> t'"
  shows "token_start ts t' = token_start ts t + length (concat (take (t' - t) (drop t ts)))"
proof -
  have "take t' ts = take t ts @ take (t' - t) (drop t ts)" using assms by (metis le_add_diff_inverse take_add)
  then show ?thesis by (simp add: token_start_def)
qed

lemma token_start_mono: "t \<le> t' \<Longrightarrow> token_start ts t \<le> token_start ts t'"
  using token_start_split [of t t' ts] by simp

lemma token_start_bound: "token_start ts t \<le> length (concat ts)"
  using concat_take_drop [of ts t] by (simp add: token_start_def)

lemma token_text:
  assumes "t \<le> t'"
  shows "take (token_start ts t' - token_start ts t) (drop (token_start ts t) (concat ts)) = concat (take (t' - t) (drop t ts))"
proof -
  have "concat (drop t ts) = concat (take (t' - t) (drop t ts)) @ concat (drop (t' - t) (drop t ts))" by (rule concat_take_drop)
  then show ?thesis by (simp add: drop_token_start token_start_split [OF assms])
qed

lemma offsets_from_nth:
  "length (offsets_from start ts) = Suc (length ts) \<and> (\<forall>t \<le> length ts. offsets_from start ts ! t = start + str_len (concat (take t ts)))"
proof (induction ts arbitrary: start)
  case (Cons x ts)
  have "offsets_from start (x # ts) ! t = start + str_len (concat (take t (x # ts)))" if "t \<le> length (x # ts)" for t
    using that Cons [of "start + str_len x"] by (cases t) simp_all
  then show ?case using Cons by simp
qed simp

lemma nth_token_offsets: "t \<le> length ts \<Longrightarrow> nth_opt (token_offsets ts) t = Some (offset (concat ts) (token_start ts t))"
  using offsets_from_nth [of 0 ts] by (simp add: nth_opt_def token_offsets_def take_token_start)

section \<open>Alignment partitions both texts\<close>

lemma push_operations_to:
  assumes old: "old = p @ om @ q" "before = concat old" and new: "new = p' @ nm @ q'" "after = concat new" and len: "length p' = length p"
  shows "\<lbrakk>edit_script om nm x y ops; list_all tag_ok ops; x \<le> length om; y \<le> length nm;
      spans_to before after spans (token_start old (length p + x)) (token_start new (length p + y))\<rbrakk> \<Longrightarrow>
    \<exists>spans'. push_operations (token_offsets old) (token_offsets new) (length p) ops spans = Some spans' \<and>
      spans_to before after spans' (token_start old (length p + length om)) (token_start new (length p + length nm))"
proof (induction ops arbitrary: x y spans)
  case Nil
  then show ?case by simp
next
  case (Cons op ops)
  let ?x = "snd (op_old op)" and ?y = "snd (op_new op)"
  have op: "fst (op_old op) = x" "fst (op_new op) = y" "x \<le> ?x" "y \<le> ?y" "?x \<le> length om" "?y \<le> length nm" "edit_script om nm ?x ?y ops"
    "op_tag op = Tag_Equal \<longrightarrow> take (?x - x) (drop x om) = take (?y - y) (drop y nm)" "tag_ok op" "list_all tag_ok ops"
    using Cons.prems (1,2) by simp_all
  have texts: "take (?x - x) (drop (length p + x) old) = take (?x - x) (drop x om)" "take (?y - y) (drop (length p + y) new) = take (?y - y) (drop y nm)"
    using op (3-6) len by (simp_all add: old (1) new (1))
  have "kind_ok before after (kind_of_tag (op_tag op)) (token_start old (length p + x)) (token_start old (length p + ?x))
      (token_start new (length p + y)) (token_start new (length p + ?y))"
    using op (1-4,8,9) token_text [of "length p + x" "length p + ?x" old] token_text [of "length p + y" "length p + ?y" new] texts
    by (cases "op_tag op") (simp_all add: kind_ok_def kind_of_tag_def old (2) new (2) tag_ok_def)
  then have pushed: "spans_to before after (push_span spans \<lparr>ds_kind = kind_of_tag (op_tag op),
      ds_before = (offset before (token_start old (length p + x)), offset before (token_start old (length p + ?x))),
      ds_after = (offset after (token_start new (length p + y)), offset after (token_start new (length p + ?y)))\<rparr>)
      (token_start old (length p + ?x)) (token_start new (length p + ?y))"
    using op (3,4) by (intro push_span_to [OF Cons.prems (5)]) (simp_all add: old (2) new (2) token_start_mono token_start_bound)
  have idx: "nth_opt (token_offsets old) (length p + z) = Some (offset before (token_start old (length p + z)))" if "z \<le> length om" for z
    unfolding old (2) by (rule nth_token_offsets) (use that in \<open>simp add: old (1)\<close>)
  have idx': "nth_opt (token_offsets new) (length p + z) = Some (offset after (token_start new (length p + z)))" if "z \<le> length nm" for z
    unfolding new (2) by (rule nth_token_offsets) (use that len in \<open>simp add: new (1)\<close>)
  show ?case using Cons.IH [OF op (7,10,5,6) pushed] idx idx' op Cons.prems (3,4) by simp
qed

lemma edges_split:
  obtains p om nm q where "old = p @ om @ q" "new = p @ nm @ q" "length (common_edge old new) = length p"
    "length (common_edge (rev (drop (length p) old)) (rev (drop (length p) new))) = length q"
proof -
  obtain l r where lr: "old = common_edge old new @ l" "new = common_edge old new @ r" using common_edge_prefix by metis
  obtain l' r' where rev: "rev l = common_edge (rev l) (rev r) @ l'" "rev r = common_edge (rev l) (rev r) @ r'" using common_edge_prefix by metis
  have l: "l = rev l' @ rev (common_edge (rev l) (rev r))" "r = rev r' @ rev (common_edge (rev l) (rev r))"
    using rev by (metis rev_append rev_rev_ident)+
  have d: "drop (length (common_edge old new)) old = l" "drop (length (common_edge old new)) new = r"
    using lr by (metis append_eq_conv_conj)+
  show thesis
    by (rule that [of "common_edge old new" "rev l'" "rev (common_edge (rev l) (rev r))" "rev r'"]) (use lr l d in \<open>simp_all flip: append_assoc\<close>)
qed

lemma single_to: "spans_to before after (ag_spans (single before after coarse)) (length before) (length after)"
proof -
  let ?k = "if before = after then Kind_Equal else if before = [] then Kind_Insert else if after = [] then Kind_Delete else Kind_Replace"
  have "kind_ok before after ?k 0 (length before) 0 (length after)" by (simp add: kind_ok_def)
  then show ?thesis using push_span_to [OF spans_none, of "length before" before "length after" after ?k] by (simp add: single_def Let_def)
qed

lemma aligned_tokens_to:
  assumes engine: "token_diff_engine capture" and old: "old = p @ om @ q" "before = concat old" and new: "new = p @ nm @ q" "after = concat new"
  shows "\<exists>spans. push_operations (token_offsets old) (token_offsets new) (length p) (capture om nm)
      (push_span [] \<lparr>ds_kind = Kind_Equal, ds_before = (0, offset before (token_start old (length p))),
         ds_after = (0, offset after (token_start new (length p)))\<rparr>) = Some spans \<and>
    spans_to before after (push_span spans \<lparr>ds_kind = Kind_Equal,
         ds_before = (offset before (token_start old (length p + length om)), str_len before),
         ds_after = (offset after (token_start new (length p + length nm)), str_len after)\<rparr>) (length before) (length after)"
proof -
  have "kind_ok before after Kind_Equal 0 (token_start old (length p)) 0 (token_start new (length p))"
    by (simp add: kind_ok_def old (2) new (2) take_token_start) (simp add: old (1) new (1))
  then have first: "spans_to before after (push_span [] \<lparr>ds_kind = Kind_Equal, ds_before = (0, offset before (token_start old (length p))),
      ds_after = (0, offset after (token_start new (length p)))\<rparr>) (token_start old (length p + 0)) (token_start new (length p + 0))"
    using push_span_to [OF spans_none, of "token_start old (length p)" before "token_start new (length p)" after Kind_Equal]
    by (simp add: old (2) new (2) token_start_bound)
  obtain spans where spans: "push_operations (token_offsets old) (token_offsets new) (length p) (capture om nm)
      (push_span [] \<lparr>ds_kind = Kind_Equal, ds_before = (0, offset before (token_start old (length p))),
         ds_after = (0, offset after (token_start new (length p)))\<rparr>) = Some spans"
      "spans_to before after spans (token_start old (length p + length om)) (token_start new (length p + length nm))"
    using push_operations_to [OF old new refl _ _ _ _ first, of "capture om nm"] engine by (auto simp: token_diff_engine_def)
  have tails: "drop (token_start old (length p + length om)) before = concat q" "drop (token_start new (length p + length nm)) after = concat q"
    unfolding old (2) new (2) drop_token_start by (simp_all add: old (1) new (1))
  have "kind_ok before after Kind_Equal (token_start old (length p + length om)) (length before) (token_start new (length p + length nm)) (length after)"
    by (simp add: kind_ok_def) (metis tails length_drop order.refl take_all)
  then show ?thesis
    using spans push_span_to [OF spans (2), of "length before" "length after" Kind_Equal] by (simp add: old (2) new (2) token_start_bound)
qed

lemma align_to:
  assumes "token_diff_engine capture" "word_segmentation word_bounds"
  shows "\<exists>ag work'. align capture word_bounds before after g work = Some (ag, work') \<and>
    spans_to before after (ag_spans ag) (length before) (length after)"
proof (cases "before = after \<or> before = [] \<or> after = [] \<or> diff_tokens word_bounds before g = None \<or> diff_tokens word_bounds after g = None")
  case True
  then show ?thesis using single_to by (auto simp: align_def split: option.split)
next
  case False
  then obtain old new where t: "diff_tokens word_bounds before g = Some old" "diff_tokens word_bounds after g = Some new" by auto
  obtain p om nm q where s: "old = p @ om @ q" "new = p @ nm @ q" "length (common_edge old new) = length p"
      "length (common_edge (rev (drop (length p) old)) (rev (drop (length p) new))) = length q" by (rule edges_split)
  have texts: "before = concat old" "after = concat new" using diff_tokens_concat [OF assms (2)] t by blast+
  obtain spans where spans: "push_operations (token_offsets old) (token_offsets new) (length p) (capture om nm)
      (push_span [] \<lparr>ds_kind = Kind_Equal, ds_before = (0, offset before (token_start old (length p))),
         ds_after = (0, offset after (token_start new (length p)))\<rparr>) = Some spans"
      "spans_to before after (push_span spans \<lparr>ds_kind = Kind_Equal,
         ds_before = (offset before (token_start old (length p + length om)), str_len before),
         ds_after = (offset after (token_start new (length p + length nm)), str_len after)\<rparr>) (length before) (length after)"
    using aligned_tokens_to [OF assms (1) s (1) texts (1) s (2) texts (2)] by blast
  have ends: "length old - length q = length p + length om" "length new - length q = length p + length nm" by (simp_all add: s (1,2))
  have idx: "nth_opt (token_offsets old) z = Some (offset before (token_start old z))" if "z \<le> length old" for z
    unfolding texts (1) using that by (rule nth_token_offsets)
  have idx': "nth_opt (token_offsets new) z = Some (offset after (token_start new z))" if "z \<le> length new" for z
    unfolding texts (2) using that by (rule nth_token_offsets)
  have mids: "length p + length om - length p = length om" "length p + length nm - length p = length nm" by simp_all
  define cost where "cost = min USIZE_MAX ((saturating_add USIZE_MAX (length om) (length nm)) ^ 2)"
  have mid: "take (length om) (drop (length p) old) = om" "take (length nm) (drop (length p) new) = nm" by (simp_all add: s (1,2))
  have le: "length p \<le> length old" "length p \<le> length new" "length p + length om \<le> length old" "length p + length nm \<le> length new" by (simp_all add: s (1,2))
  show ?thesis
  proof (cases "work < cost")
    case True
    then have "align capture word_bounds before after g work = Some (single before after True, work)"
      using False t by (simp only: align_def s (3,4) ends mids Let_def cost_def [symmetric] option.case prod.case de_Morgan_disj simp_thms if_False if_True)
    then show ?thesis using single_to by simp
  next
    case cheap: False
    then have "align capture word_bounds before after g work = Some (\<lparr>ag_coarse = False, ag_spans = push_span spans \<lparr>ds_kind = Kind_Equal,
         ds_before = (offset before (token_start old (length p + length om)), str_len before),
         ds_after = (offset after (token_start new (length p + length nm)), str_len after)\<rparr>\<rparr>, work - cost)"
      using False t by (simp only: align_def s (3,4) ends mids Let_def cost_def [symmetric] option.case prod.case de_Morgan_disj simp_thms if_False if_True
          idx [OF le (1)] idx [OF le (3)] idx' [OF le (2)] idx' [OF le (4)] mid spans (1) Option.bind.bind_lunit)
    then show ?thesis using spans (2) by simp
  qed
qed

section \<open>Comparison partitions both texts\<close>

fun span_chain :: "ustr \<Rightarrow> ustr \<Rightarrow> nat \<Rightarrow> nat \<Rightarrow> diff_span list \<Rightarrow> nat \<Rightarrow> nat \<Rightarrow> bool" where
  "span_chain before after i j [] i' j' \<longleftrightarrow> i = i' \<and> j = j'"
| "span_chain before after i j (s # spans) i' j' \<longleftrightarrow>
     (\<exists>x y. i \<le> x \<and> x \<le> length before \<and> j \<le> y \<and> y \<le> length after \<and>
        ds_before s = (offset before i, offset before x) \<and> ds_after s = (offset after j, offset after y) \<and>
        kind_ok before after (ds_kind s) i x j y \<and> span_chain before after x y spans i' j')"

lemma span_chain_append: "span_chain before after i j (xs @ ys) i' j' \<longleftrightarrow> (\<exists>x y. span_chain before after i j xs x y \<and> span_chain before after x y ys i' j')"
proof (induction xs arbitrary: i j)
  case (Cons s xs)
  show ?case unfolding append_Cons span_chain.simps Cons.IH by blast
qed simp

lemma spans_to_chain: "spans_to before after spans i j \<Longrightarrow> span_chain before after 0 0 spans i j"
  by (induction rule: spans_to.induct) (auto simp: span_chain_append)

lemma span_chain_le: "span_chain before after i j spans i' j' \<Longrightarrow> i \<le> i' \<and> j \<le> j'"
  by (induction spans arbitrary: i j) force+

lemma offset_drop: "offset (drop i s) x + offset s i = offset s (i + x)"
  using offset_split [of i "i + x" s] by simp

lemma sub_text:
  assumes "x \<le> x'" "x' \<le> m"
  shows "take (x' - x) (drop x (take m (drop i s))) = take ((i + x') - (i + x)) (drop (i + x) s)"
proof -
  have "min (x' - x) (m - x) = x' - x" using assms by simp
  then show ?thesis by (simp add: drop_take add.commute)
qed

lemma kind_ok_shift:
  assumes "kind_ok (take (i' - i) (drop i before)) (take (j' - j) (drop j after)) k x x' y y'" "x \<le> x'" "x' \<le> i' - i" "y \<le> y'" "y' \<le> j' - j"
  shows "kind_ok before after k (i + x) (i + x') (j + y) (j + y')"
  using assms sub_text [of x x' "i' - i" i before] sub_text [of y y' "j' - j" j after] by (cases k) (simp_all add: kind_ok_def)

lemma push_words_to:
  assumes i: "i \<le> i'" "i' \<le> length before" and j: "j \<le> j'" "j' \<le> length after"
    and block: "fst (ds_before block) = offset before i" "fst (ds_after block) = offset after j"
  shows "\<lbrakk>span_chain (take (i' - i) (drop i before)) (take (j' - j) (drop j after)) x y ws x' y';
      spans_to before after acc (i + x) (j + y)\<rbrakk> \<Longrightarrow>
    spans_to before after (foldl (\<lambda>spans w. push_span spans (shift_span block w)) acc ws) (i + x') (j + y')"
proof (induction ws arbitrary: x y acc)
  case (Cons w ws)
  obtain u v where w: "x \<le> u" "u \<le> i' - i" "y \<le> v" "v \<le> j' - j"
      "ds_before w = (offset (take (i' - i) (drop i before)) x, offset (take (i' - i) (drop i before)) u)"
      "ds_after w = (offset (take (j' - j) (drop j after)) y, offset (take (j' - j) (drop j after)) v)"
      "kind_ok (take (i' - i) (drop i before)) (take (j' - j) (drop j after)) (ds_kind w) x u y v"
      "span_chain (take (i' - i) (drop i before)) (take (j' - j) (drop j after)) u v ws x' y'"
    using Cons.prems (1) i j by auto
  have "shift_span block w = \<lparr>ds_kind = ds_kind w, ds_before = (offset before (i + x), offset before (i + u)),
      ds_after = (offset after (j + y), offset after (j + v))\<rparr>"
    using w (1-6) block by (cases w) (simp add: shift_span_def offset_drop)
  moreover have "spans_to before after (push_span acc \<lparr>ds_kind = ds_kind w, ds_before = (offset before (i + x), offset before (i + u)),
      ds_after = (offset after (j + y), offset after (j + v))\<rparr>) (i + u) (j + v)"
    by (rule push_span_to [OF Cons.prems (2)]) (use w (1-4,7) i j kind_ok_shift in \<open>simp_all add: kind_ok_shift\<close>)
  ultimately show ?case using Cons.IH [OF w (8)] by simp
qed simp

lemma compare_blocks_to:
  assumes libs: "token_diff_engine capture" "word_segmentation word_bounds"
  shows "\<lbrakk>span_chain before after i j blocks (length before) (length after); spans_to before after (rd_spans result) i j\<rbrakk> \<Longrightarrow>
    \<exists>d. compare_blocks capture word_bounds before after g coarse blocks work result = Some d \<and> rd_granularity d = rd_granularity result \<and>
      rd_coarse_blocks d \<le> rd_coarse_blocks result + length blocks \<and>
      spans_to before after (rd_spans d) (length before) (length after)"
proof (induction blocks arbitrary: i j work result)
  case (Cons block blocks)
  obtain x y where b: "i \<le> x" "x \<le> length before" "j \<le> y" "y \<le> length after"
      "ds_before block = (offset before i, offset before x)" "ds_after block = (offset after j, offset after y)"
      "kind_ok before after (ds_kind block) i x j y" "span_chain before after x y blocks (length before) (length after)"
    using Cons.prems (1) by auto
  show ?case
  proof (cases "g = Words \<and> ds_kind block = Kind_Replace")
    case True
    let ?b = "take (x - i) (drop i before)" and ?a = "take (y - j) (drop j after)"
    obtain ag work' where ag: "align capture word_bounds ?b ?a Words work = Some (ag, work')"
        "spans_to ?b ?a (ag_spans ag) (length ?b) (length ?a)" using align_to [OF libs] by blast
    define result' where "result' = result\<lparr>rd_coarse_blocks := rd_coarse_blocks result + (if ag_coarse ag then 1 else 0),
        rd_spans := foldl (\<lambda>spans w. push_span spans (shift_span block w)) (rd_spans result) (ag_spans ag)\<rparr>"
    have "spans_to before after (rd_spans result') (i + length ?b) (j + length ?a)"
      unfolding result'_def
      using push_words_to [OF b (1-4) _ _ spans_to_chain [OF ag (2)], of block "rd_spans result"] b (5,6) Cons.prems (2) by simp
    moreover have "i + length ?b = x" "j + length ?a = y" using b (1-4) by simp_all
    ultimately have "spans_to before after (rd_spans result') x y" by simp
    from Cons.IH [OF b (8) this, of work'] obtain d where d: "compare_blocks capture word_bounds before after g coarse blocks work' result' = Some d"
        "rd_granularity d = rd_granularity result'" "rd_coarse_blocks d \<le> rd_coarse_blocks result' + length blocks"
        "spans_to before after (rd_spans d) (length before) (length after)" by blast
    have "compare_blocks capture word_bounds before after g coarse (block # blocks) work result = Some d"
      using True b (1-6) ag (1) d (1) by (simp add: result'_def)
    moreover have "rd_granularity result' = rd_granularity result" "rd_coarse_blocks result' \<le> Suc (rd_coarse_blocks result)"
      by (simp_all add: result'_def)
    ultimately show ?thesis using d (2-4) by (intro exI [of _ d]) (simp del: compare_blocks.simps)
  next
    case False
    have "block = \<lparr>ds_kind = ds_kind block, ds_before = (offset before i, offset before x), ds_after = (offset after j, offset after y)\<rparr>"
      using b (5,6) by (cases block) simp
    then have "spans_to before after (push_span (rd_spans result) block) x y"
      using push_span_to [OF Cons.prems (2) b (1-4,7)] by simp
    from Cons.IH [OF b (8), of "result\<lparr>rd_coarse_blocks := rd_coarse_blocks result + (if coarse then 1 else 0), rd_spans := push_span (rd_spans result) block\<rparr>" work] this
    show ?thesis using False by (auto split: if_splits)
  qed
qed simp

text \<open>What partitioning means for the texts of the spans.\<close>

definition span_text :: "ustr \<Rightarrow> span \<Rightarrow> ustr" where
  "span_text s r = (case str_get s (fst r) (snd r) of None \<Rightarrow> [] | Some t \<Rightarrow> t)"

definition span_faithful :: "ustr \<Rightarrow> ustr \<Rightarrow> diff_span \<Rightarrow> bool" where
  "span_faithful before after s \<longleftrightarrow>
     str_get before (fst (ds_before s)) (snd (ds_before s)) \<noteq> None \<and> str_get after (fst (ds_after s)) (snd (ds_after s)) \<noteq> None \<and>
     (span_text before (ds_before s) \<noteq> [] \<or> span_text after (ds_after s) \<noteq> []) \<and>
     (ds_kind s = Kind_Equal \<longrightarrow> span_text before (ds_before s) = span_text after (ds_after s)) \<and>
     (ds_kind s = Kind_Insert \<longrightarrow> span_text before (ds_before s) = []) \<and>
     (ds_kind s = Kind_Delete \<longrightarrow> span_text after (ds_after s) = [])"

lemma span_text_offsets: "i \<le> j \<Longrightarrow> j \<le> length s \<Longrightarrow> span_text s (offset s i, offset s j) = take (j - i) (drop i s)"
  by (simp add: span_text_def)

lemma spans_to_texts:
  "spans_to before after spans i j \<Longrightarrow>
   concat (map (\<lambda>s. span_text before (ds_before s)) spans) = take i before \<and>
   concat (map (\<lambda>s. span_text after (ds_after s)) spans) = take j after \<and>
   list_all (span_faithful before after) spans \<and> (\<forall>k. Suc k < length spans \<longrightarrow> ds_kind (spans ! k) \<noteq> ds_kind (spans ! Suc k))"
proof (induction rule: spans_to.induct)
  case (spans_span spans i j i' j' k)
  let ?s = "\<lparr>ds_kind = k, ds_before = (offset before i, offset before i'), ds_after = (offset after j, offset after j')\<rparr>"
  have texts: "span_text before (ds_before ?s) = take (i' - i) (drop i before)" "span_text after (ds_after ?s) = take (j' - j) (drop j after)"
    using spans_span (2-5) by (simp_all add: span_text_offsets)
  have "span_faithful before after ?s"
    using spans_span (2-7) unfolding span_faithful_def texts by (cases k) (auto simp: kind_ok_def)
  moreover have "ds_kind ((spans @ [?s]) ! n) \<noteq> ds_kind ((spans @ [?s]) ! Suc n)" if "Suc n < length (spans @ [?s])" for n
  proof (cases "Suc n < length spans")
    case True
    then show ?thesis using spans_span.IH by (simp add: nth_append)
  next
    case False
    then have n: "Suc n = length spans" using that by simp
    then have "last spans = spans ! n" by (metis diff_Suc_1 last_conv_nth length_0_conv nat.distinct(1))
    then show ?thesis using spans_span (8) n by (auto simp: nth_append)
  qed
  ultimately show ?case
    using spans_span.IH spans_span (2,4) take_extend [of i i' before] take_extend [of j j' after] texts by auto
qed simp

section \<open>Properties\<close>

text \<open>C28. The comparison of two revisions never panics, and is refused exactly when their combined size exceeds
  two mebibytes. Its spans partition both texts: the texts of the spans, put together in order, are the two revisions
  without loss; every range lies on character boundaries; spans marked equal have the same text, insertions cover
  nothing of the old text and deletions nothing of the new one; no span is empty on both sides, and neighbouring spans
  differ in kind. This holds whatever the work budget left coarse.\<close>

theorem compare_partitions:
  assumes "token_diff_engine capture" "word_segmentation word_bounds"
  shows "if RD_MAX_INPUT_BYTES < str_len before + str_len after then compare_revisions capture word_bounds before after g = Some (Err InputLimit)
    else \<exists>d. compare_revisions capture word_bounds before after g = Some (Ok d) \<and> rd_granularity d = g \<and>
      concat (map (\<lambda>s. span_text before (ds_before s)) (rd_spans d)) = before \<and>
      concat (map (\<lambda>s. span_text after (ds_after s)) (rd_spans d)) = after \<and>
      list_all (span_faithful before after) (rd_spans d) \<and>
      (\<forall>k. Suc k < length (rd_spans d) \<longrightarrow> ds_kind (rd_spans d ! k) \<noteq> ds_kind (rd_spans d ! Suc k))"
proof -
  have limit: "RD_MAX_INPUT_BYTES < saturating_add USIZE_MAX n m \<longleftrightarrow> RD_MAX_INPUT_BYTES < n + m" for n m
    by (simp add: saturating_add_def USIZE_MAX_def U64_MAX_def RD_MAX_INPUT_BYTES_def)
  obtain ag work where ag: "align capture word_bounds before after Lines MAX_DIFF_WORK = Some (ag, work)"
      "spans_to before after (ag_spans ag) (length before) (length after)" using align_to [OF assms] by blast
  obtain d where d: "compare_blocks capture word_bounds before after g (ag_coarse ag) (ag_spans ag) work
        \<lparr>rd_granularity = g, rd_coarse_blocks = 0, rd_spans = []\<rparr> = Some d" "rd_granularity d = g"
      "spans_to before after (rd_spans d) (length before) (length after)"
    using compare_blocks_to [OF assms spans_to_chain [OF ag (2)], of "\<lparr>rd_granularity = g, rd_coarse_blocks = 0, rd_spans = []\<rparr>" g "ag_coarse ag" work] spans_none
    by (auto simp del: compare_blocks.simps)
  show ?thesis using spans_to_texts [OF d (3)] d (1,2) ag (1) by (simp add: compare_revisions_def limit)
qed

definition replace_tokens :: "ustr list \<Rightarrow> ustr list \<Rightarrow> diff_op list" where
  "replace_tokens old new = [\<lparr>op_tag = Tag_Replace, op_old = (0, length old), op_new = (0, length new)\<rparr>]"

theorem compare_partitions_witness:
  "\<exists>d. compare_revisions replace_tokens (map (\<lambda>c. [c])) [97, 10, 98, 99, 10] [97, 10, 98, 233, 10] Words = Some (Ok d) \<and>
     concat (map (\<lambda>s. span_text [97, 10, 98, 233, 10] (ds_after s)) (rd_spans d)) = [97, 10, 98, 233, 10]"
proof -
  have engine: "token_diff_engine replace_tokens" by (simp add: token_diff_engine_def replace_tokens_def tag_ok_def)
  have words: "word_segmentation (map (\<lambda>c. [c]))" by (simp add: word_segmentation_def)
  have "\<not> RD_MAX_INPUT_BYTES < str_len [97, 10, 98, 99, 10] + str_len [97, 10, 98, 233, 10]" by (simp add: RD_MAX_INPUT_BYTES_def len_utf8_def)
  then show ?thesis using compare_partitions [OF engine words, of "[97, 10, 98, 99, 10]" "[97, 10, 98, 233, 10]" Words] by auto
qed

end
