(* ===== verification/Branch_History.thy ===== *)
theory Branch_History
  imports Iterators "HOL-Library.Code_Target_Nat"
begin

text \<open>
  The branch index of a document history, \<open>crates/workspace-document/src/history.rs\<close>: nodes that name their parents
  are validated into a forest, and paths, siblings, preferred leaves and descendants are read off it.

  A node is a record with at least an identity and the identity of its parent (the trait \<open>HistoryNode\<close>); the fields
  a caller adds are the record's extension. A hash map is a partial map, a vector a list, and an index out of range,
  which panics, is the failure \<open>Out_Of_Range\<close>. The walks over a finished index are \<open>while\<close> loops that the source
  does not bound, so they are partial functions here: \<open>None\<close> is a loop that never ends, and the properties show that
  no index built by \<open>BranchIndex::new\<close> has one.
\<close>

section \<open>Data\<close>

record 'id hnode =
  hn_id :: 'id
  hn_parent :: "'id option"

datatype history_error =
    InvalidIdentity
  | OwnershipMismatch
  | ByteBudget
  | NodeBudget
  | DuplicateId
  | MissingParent
  | Cycle
  | MissingHead

datatype history_failure = History history_error | Out_Of_Range

type_synonym 'a hist = "('a, history_failure) result"

record ('id, 'm) branch_index =
  bi_nodes :: "('id, 'm) hnode_scheme list"
  bi_by_id :: "'id \<rightharpoonup> nat"
  bi_children :: "nat list list"
  bi_roots :: "nat list"

definition MAX_DOCUMENT_PARTS :: nat where "MAX_DOCUMENT_PARTS = 65536"

definition index_at :: "'a list \<Rightarrow> nat \<Rightarrow> 'a hist" where
  "index_at xs i = (if i < length xs then Ok (xs ! i) else Err Out_Of_Range)"

definition put_at :: "'a list \<Rightarrow> nat \<Rightarrow> 'a \<Rightarrow> 'a list hist" where
  "put_at xs i x = (if i < length xs then Ok (xs[i := x]) else Err Out_Of_Range)"

section \<open>Building the index\<close>

fun index_ids :: "('id, 'm) hnode_scheme list \<Rightarrow> nat \<Rightarrow> ('id \<rightharpoonup> nat) \<Rightarrow> ('id \<rightharpoonup> nat) hist" where
  "index_ids [] index by_id = Ok by_id"
| "index_ids (node # nodes) index by_id =
     (if by_id (hn_id node) \<noteq> None then Err (History DuplicateId)
      else index_ids nodes (Suc index) (by_id(hn_id node \<mapsto> index)))"

fun link_parents ::
  "('id \<rightharpoonup> nat) \<Rightarrow> ('id, 'm) hnode_scheme list \<Rightarrow> nat \<Rightarrow> nat list list \<Rightarrow> nat option list \<Rightarrow> nat list \<Rightarrow>
     (nat list list \<times> nat option list \<times> nat list) hist" where
  "link_parents by_id [] index children parents roots = Ok (children, parents, roots)"
| "link_parents by_id (node # nodes) index children parents roots =
     (case hn_parent node of
        Some parent \<Rightarrow>
          res_bind (ok_or (History MissingParent) (by_id parent)) (\<lambda>parent.
          res_bind (put_at parents index (Some parent)) (\<lambda>parents.
          res_bind (index_at children parent) (\<lambda>siblings.
          res_bind (put_at children parent (siblings @ [index])) (\<lambda>children.
            link_parents by_id nodes (Suc index) children parents roots))))
      | None \<Rightarrow> link_parents by_id nodes (Suc index) children parents (roots @ [index]))"

lemma fewer_unmarked:
  assumes "index < length marks" "marks ! index \<noteq> 1" "marks ! index \<noteq> (2 :: nat)"
  shows "length (filter (\<lambda>m. m \<noteq> 1 \<and> m \<noteq> 2) (marks[index := 1])) < length (filter (\<lambda>m. m \<noteq> 1 \<and> m \<noteq> 2) marks)"
proof -
  have "filter Q (marks[index := 1]) = filter Q (take index marks) @ filter Q [1] @ filter Q (drop (Suc index) marks)" for Q
    using assms (1) by (simp add: upd_conv_take_nth_drop)
  moreover have "filter Q marks = filter Q (take index marks) @ filter Q [marks ! index] @ filter Q (drop (Suc index) marks)" for Q
    using assms (1) by (metis append.left_neutral append_Cons filter_append id_take_nth_drop)
  ultimately show ?thesis using assms (2,3) by simp
qed

text \<open>The walk towards the root: 0 is unseen, 1 on the current walk, 2 validated.\<close>

function walk :: "nat option list \<Rightarrow> nat list \<Rightarrow> nat option \<Rightarrow> nat list \<Rightarrow> (nat list \<times> nat list) hist" where
  "walk parents marks None path = Ok (marks, path)"
| "walk parents marks (Some index) path =
     (if length marks \<le> index then Err Out_Of_Range
      else if marks ! index = 1 then Err (History Cycle)
      else if marks ! index = 2 then Ok (marks, path)
      else if length parents \<le> index then Err Out_Of_Range
      else walk parents (marks[index := 1]) (parents ! index) (path @ [index]))"
  by pat_completeness auto

termination
  by (relation "measure (\<lambda>(parents, marks, current, path). length (filter (\<lambda>m. m \<noteq> 1 \<and> m \<noteq> 2) marks))")
    (simp_all add: fewer_unmarked [simplified])

fun mark_path :: "nat list \<Rightarrow> nat list \<Rightarrow> nat list hist" where
  "mark_path marks [] = Ok marks"
| "mark_path marks (index # path) = res_bind (put_at marks index 2) (\<lambda>marks. mark_path marks path)"

fun validate_from :: "nat option list \<Rightarrow> nat list \<Rightarrow> nat list \<Rightarrow> unit hist" where
  "validate_from parents marks [] = Ok ()"
| "validate_from parents marks (start # starts) =
     res_bind (walk parents marks (Some start) []) (\<lambda>(marks, path).
     res_bind (mark_path marks path) (\<lambda>marks. validate_from parents marks starts))"

definition branch_index_new :: "('id, 'm) hnode_scheme list \<Rightarrow> ('id, 'm) branch_index hist" where
  "branch_index_new nodes =
     (if MAX_DOCUMENT_PARTS < length nodes then Err (History NodeBudget)
      else
        res_bind (index_ids nodes 0 Map.empty) (\<lambda>by_id.
        res_bind (link_parents by_id nodes 0 (replicate (length nodes) []) (replicate (length nodes) None) [])
          (\<lambda>(children, parents, roots).
        res_bind (validate_from parents (replicate (length nodes) 0) [0..<length nodes]) (\<lambda>_.
          Ok \<lparr>bi_nodes = nodes, bi_by_id = by_id, bi_children = children, bi_roots = roots\<rparr>))))"

section \<open>Reading the index\<close>

definition bi_node :: "('id, 'm) branch_index \<Rightarrow> 'id \<Rightarrow> ('id, 'm) hnode_scheme hist" where
  "bi_node self i = res_bind (ok_or (History MissingHead) (bi_by_id self i)) (index_at (bi_nodes self))"

partial_function (option) path_loop ::
  "('id, 'm) branch_index \<Rightarrow> 'id option \<Rightarrow> ('id, 'm) hnode_scheme list \<Rightarrow> ('id, 'm) hnode_scheme list hist option" where
  "path_loop self current path =
     (case current of
        None \<Rightarrow> Some (Ok (rev path))
      | Some i \<Rightarrow>
          (case bi_node self i of
             Err e \<Rightarrow> Some (Err e)
           | Ok node \<Rightarrow> path_loop self (hn_parent node) (path @ [node])))"

definition bi_path :: "('id, 'm) branch_index \<Rightarrow> 'id option \<Rightarrow> ('id, 'm) hnode_scheme list hist option" where
  "bi_path self head = path_loop self head []"

fun nodes_at :: "('id, 'm) hnode_scheme list \<Rightarrow> nat list \<Rightarrow> ('id, 'm) hnode_scheme list hist" where
  "nodes_at nodes [] = Ok []"
| "nodes_at nodes (index # positions) =
     res_bind (index_at nodes index) (\<lambda>node. res_bind (nodes_at nodes positions) (\<lambda>rest. Ok (node # rest)))"

definition bi_siblings :: "('id, 'm) branch_index \<Rightarrow> 'id \<Rightarrow> ('id, 'm) hnode_scheme list hist" where
  "bi_siblings self i =
     res_bind (bi_node self i) (\<lambda>node.
     res_bind (case hn_parent node of
         Some parent \<Rightarrow> res_bind (ok_or (History MissingParent) (bi_by_id self parent)) (index_at (bi_children self))
       | None \<Rightarrow> Ok (bi_roots self)) (\<lambda>positions.
       nodes_at (bi_nodes self) positions))"

partial_function (option) leaf_loop ::
  "('id, 'm) branch_index \<Rightarrow> (('id, 'm) hnode_scheme \<Rightarrow> ('id, 'm) hnode_scheme \<Rightarrow> ordering) \<Rightarrow> nat \<Rightarrow>
     ('id, 'm) hnode_scheme hist option" where
  "leaf_loop self compare index =
     (case index_at (bi_children self) index of
        Err e \<Rightarrow> Some (Err e)
      | Ok children \<Rightarrow>
          if list_ex (\<lambda>child. length (bi_nodes self) \<le> child) children \<and> 1 < length children then Some (Err Out_Of_Range)
          else (case max_by (\<lambda>left right. compare (bi_nodes self ! left) (bi_nodes self ! right)) children of
                  None \<Rightarrow> Some (index_at (bi_nodes self) index)
                | Some child \<Rightarrow> leaf_loop self compare child))"

definition bi_preferred_leaf ::
  "('id, 'm) branch_index \<Rightarrow> 'id \<Rightarrow> (('id, 'm) hnode_scheme \<Rightarrow> ('id, 'm) hnode_scheme \<Rightarrow> ordering) \<Rightarrow>
     ('id, 'm) hnode_scheme hist option" where
  "bi_preferred_leaf self start compare =
     (case bi_by_id self start of None \<Rightarrow> Some (Err (History MissingHead)) | Some index \<Rightarrow> leaf_loop self compare index)"

text \<open>The stack of pending indices is kept with its top first: the source pops from the end of the vector it extends.\<close>

partial_function (option) descendants_loop ::
  "('id, 'm) branch_index \<Rightarrow> nat list \<Rightarrow> 'id set \<Rightarrow> 'id set hist option" where
  "descendants_loop self pending result =
     (case pending of
        [] \<Rightarrow> Some (Ok result)
      | index # pending \<Rightarrow>
          (case index_at (bi_nodes self) index of
             Err e \<Rightarrow> Some (Err e)
           | Ok node \<Rightarrow>
               (case index_at (bi_children self) index of
                  Err e \<Rightarrow> Some (Err e)
                | Ok children \<Rightarrow> descendants_loop self (rev children @ pending) (insert (hn_id node) result))))"

definition bi_descendants :: "('id, 'm) branch_index \<Rightarrow> 'id \<Rightarrow> 'id set hist option" where
  "bi_descendants self start =
     (case bi_by_id self start of
        None \<Rightarrow> Some (Err (History MissingHead))
      | Some start \<Rightarrow> descendants_loop self [start] {})"

section \<open>The tables\<close>

lemma index_ids_result:
  "if distinct (map hn_id nodes) \<and> (\<forall>n \<in> set nodes. by_id (hn_id n) = None)
   then \<exists>m. index_ids nodes k by_id = Ok m \<and>
     (\<forall>x i. m x = Some i \<longleftrightarrow> by_id x = Some i \<or> (\<exists>j < length nodes. hn_id (nodes ! j) = x \<and> i = k + j))
   else index_ids nodes k by_id = Err (History DuplicateId)"
proof (induction nodes arbitrary: k by_id)
  case (Cons n nodes)
  show ?case
  proof (cases "by_id (hn_id n) = None \<and> hn_id n \<notin> hn_id ` set nodes")
    case True
    have split: "(\<exists>j < length (n # nodes). P j) \<longleftrightarrow> P 0 \<or> (\<exists>j < length nodes. P (Suc j))" for P
      using less_Suc_eq_0_disj by auto
    define by_id' where "by_id' = by_id(hn_id n \<mapsto> k)"
    have cond: "(\<forall>x \<in> set nodes. by_id' (hn_id x) = None) \<longleftrightarrow> (\<forall>x \<in> set nodes. by_id (hn_id x) = None)"
      using True by (auto simp: by_id'_def image_iff)
    have upd: "by_id' x = Some i \<longleftrightarrow> by_id x = Some i \<or> (hn_id n = x \<and> i = k)" for x i
      using True by (auto simp: by_id'_def)
    have step: "index_ids (n # nodes) k by_id = index_ids nodes (Suc k) by_id'" using True by (simp add: by_id'_def)
    show ?thesis
      using Cons.IH [of by_id' "Suc k"] True unfolding cond upd split step by (auto split: if_splits)
  next
    case False
    then consider "by_id (hn_id n) \<noteq> None" | "by_id (hn_id n) = None" "hn_id n \<in> hn_id ` set nodes" by (cases "by_id (hn_id n)") auto
    then show ?thesis
    proof cases
      case 2
      then have "\<not> (\<forall>x \<in> set nodes. (by_id(hn_id n \<mapsto> k)) (hn_id x) = None)" by auto
      then show ?thesis using Cons.IH [of "by_id(hn_id n \<mapsto> k)" "Suc k"] 2 by simp
    qed auto
  qed
qed simp

text \<open>The index of a node's parent, and the tables that link nodes with an index below \<open>k\<close>.\<close>

definition parent_index :: "('id \<rightharpoonup> nat) \<Rightarrow> ('id, 'm) hnode_scheme list \<Rightarrow> nat \<Rightarrow> nat option" where
  "parent_index by_id nodes i = Option.bind (hn_parent (nodes ! i)) by_id"

definition children_below :: "('id \<rightharpoonup> nat) \<Rightarrow> ('id, 'm) hnode_scheme list \<Rightarrow> nat \<Rightarrow> nat list list" where
  "children_below by_id nodes k =
     map (\<lambda>j. filter (\<lambda>i. parent_index by_id nodes i = Some j) [0..<k]) [0..<length nodes]"

definition parents_below :: "('id \<rightharpoonup> nat) \<Rightarrow> ('id, 'm) hnode_scheme list \<Rightarrow> nat \<Rightarrow> nat option list" where
  "parents_below by_id nodes k = map (\<lambda>i. if i < k then parent_index by_id nodes i else None) [0..<length nodes]"

definition roots_below :: "('id, 'm) hnode_scheme list \<Rightarrow> nat \<Rightarrow> nat list" where
  "roots_below nodes k = filter (\<lambda>i. hn_parent (nodes ! i) = None) [0..<k]"

lemma children_below_step:
  assumes "q < length nodes" "parent_index by_id nodes k = Some q"
  shows "(children_below by_id nodes k)[q := children_below by_id nodes k ! q @ [k]] = children_below by_id nodes (Suc k)"
  using assms by (intro nth_equalityI) (simp_all add: children_below_def nth_list_update)

lemma children_below_root: "parent_index by_id nodes k = None \<Longrightarrow> children_below by_id nodes (Suc k) = children_below by_id nodes k"
  by (simp add: children_below_def)

lemma parents_below_step: "k < length nodes \<Longrightarrow> parents_below by_id nodes (Suc k) = (parents_below by_id nodes k)[k := parent_index by_id nodes k]"
  by (rule nth_equalityI) (auto simp: parents_below_def nth_list_update less_Suc_eq)

lemma link_parents_result:
  assumes "\<And>x i. by_id x = Some i \<Longrightarrow> i < length nodes"
  shows "nodes = pre @ rest \<Longrightarrow> k = length pre \<Longrightarrow>
    link_parents by_id rest k (children_below by_id nodes k) (parents_below by_id nodes k) (roots_below nodes k) =
      (if \<exists>m \<in> set rest. \<exists>p. hn_parent m = Some p \<and> by_id p = None then Err (History MissingParent)
       else Ok (children_below by_id nodes (length nodes), parents_below by_id nodes (length nodes), roots_below nodes (length nodes)))"
proof (induction rest arbitrary: pre k)
  case (Cons m rest)
  have k: "nodes ! k = m" "k < length nodes" using Cons.prems by simp_all
  have IH: "link_parents by_id rest (Suc k) (children_below by_id nodes (Suc k)) (parents_below by_id nodes (Suc k)) (roots_below nodes (Suc k)) =
      (if \<exists>m \<in> set rest. \<exists>p. hn_parent m = Some p \<and> by_id p = None then Err (History MissingParent)
       else Ok (children_below by_id nodes (length nodes), parents_below by_id nodes (length nodes), roots_below nodes (length nodes)))"
    by (rule Cons.IH [of "pre @ [m]"]) (use Cons.prems in simp_all)
  show ?case
  proof (cases "hn_parent m")
    case None
    then have "parent_index by_id nodes k = None" by (simp add: parent_index_def k (1))
    moreover have "(parents_below by_id nodes k)[k := None] = parents_below by_id nodes k"
      using k (2) by (intro nth_equalityI) (simp_all add: parents_below_def nth_list_update)
    moreover have "roots_below nodes (Suc k) = roots_below nodes k @ [k]" using None by (simp add: roots_below_def k (1))
    ultimately show ?thesis
      using IH None k (2) by (simp add: children_below_root parents_below_step)
  next
    case (Some p)
    show ?thesis
    proof (cases "by_id p")
      case None
      then show ?thesis using Some by auto
    next
      case (Some q)
      then have pi: "parent_index by_id nodes k = Some q" using \<open>hn_parent m = Some p\<close> by (simp add: parent_index_def k (1))
      have q: "q < length nodes" using assms Some by blast
      have len: "length (children_below by_id nodes k) = length nodes" "length (parents_below by_id nodes k) = length nodes"
        by (simp_all add: children_below_def parents_below_def)
      have roots: "roots_below nodes (Suc k) = roots_below nodes k"
        using \<open>hn_parent m = Some p\<close> k (1) by (simp add: roots_below_def)
      show ?thesis
        using IH Some \<open>hn_parent m = Some p\<close> k (2) q pi
        by (simp add: index_at_def put_at_def len children_below_step [OF q pi] parents_below_step roots)
    qed
  qed
qed (simp)

section \<open>Validation\<close>

inductive rooted :: "nat option list \<Rightarrow> nat \<Rightarrow> bool" for parents :: "nat option list" where
  rooted_root: "i < length parents \<Longrightarrow> parents ! i = None \<Longrightarrow> rooted parents i"
| rooted_child: "i < length parents \<Longrightarrow> parents ! i = Some j \<Longrightarrow> rooted parents j \<Longrightarrow> rooted parents i"

definition parent_step :: "nat option list \<Rightarrow> (nat \<times> nat) set" where
  "parent_step parents = {(i, j). i < length parents \<and> parents ! i = Some j}"

lemma rooted_no_cycle: "rooted parents i \<Longrightarrow> (i, i) \<notin> (parent_step parents)\<^sup>+"
proof (induction rule: rooted.induct)
  case (rooted_root i)
  then show ?case by (auto simp: parent_step_def dest: tranclD)
next
  case (rooted_child i j)
  show ?case
  proof
    assume "(i, i) \<in> (parent_step parents)\<^sup>+"
    then obtain j' where "(i, j') \<in> parent_step parents" "(j', i) \<in> (parent_step parents)\<^sup>*" by (blast dest: tranclD)
    then have "(j, i) \<in> (parent_step parents)\<^sup>*" "(i, j) \<in> parent_step parents" using rooted_child by (auto simp: parent_step_def)
    then show False using rooted_child.IH by (meson rtrancl_into_trancl1)
  qed
qed

definition rooted_opt :: "nat option list \<Rightarrow> nat option \<Rightarrow> bool" where
  "rooted_opt parents current = (case current of None \<Rightarrow> True | Some i \<Rightarrow> rooted parents i)"

text \<open>During a walk the ones are the path, every node of the path leads to the current node, and the twos are
  rooted.\<close>

definition walking :: "nat option list \<Rightarrow> nat list \<Rightarrow> nat option \<Rightarrow> nat list \<Rightarrow> bool" where
  "walking parents marks current path \<longleftrightarrow>
     length marks = length parents \<and> (\<forall>i < length marks. marks ! i = 1 \<longleftrightarrow> i \<in> set path) \<and> set path \<subseteq> {..<length parents} \<and>
     (\<forall>i < length marks. marks ! i = 2 \<longrightarrow> rooted parents i) \<and>
     (\<forall>x \<in> set path. (rooted_opt parents current \<longrightarrow> rooted parents x) \<and>
        (\<forall>i. current = Some i \<longrightarrow> (x, i) \<in> (parent_step parents)\<^sup>+)) \<and>
     (\<forall>i. current = Some i \<longrightarrow> i < length parents)"

lemma walking_step:
  assumes "walking parents marks (Some i) path" "marks ! i \<noteq> 1" "marks ! i \<noteq> 2"
    and valid: "\<And>i j. i < length parents \<Longrightarrow> parents ! i = Some j \<Longrightarrow> j < length parents"
  shows "walking parents (marks[i := 1]) (parents ! i) (path @ [i])"
proof -
  have i: "i < length parents" "length marks = length parents" using assms (1) by (simp_all add: walking_def)
  have root: "rooted_opt parents (parents ! i) \<Longrightarrow> rooted parents i"
    using i by (auto simp: rooted_opt_def intro: rooted_root rooted_child split: option.splits)
  have step: "(i, j) \<in> parent_step parents" if "parents ! i = Some j" for j using that i by (simp add: parent_step_def)
  have path: "rooted parents i \<longrightarrow> rooted parents x" "(x, i) \<in> (parent_step parents)\<^sup>+" if "x \<in> set path" for x
    using assms (1) that by (auto simp: walking_def rooted_opt_def)
  have "(rooted_opt parents (parents ! i) \<longrightarrow> rooted parents x) \<and> (\<forall>j. parents ! i = Some j \<longrightarrow> (x, j) \<in> (parent_step parents)\<^sup>+)"
    if "x \<in> set (path @ [i])" for x
    using that root step path by (auto intro: trancl_into_trancl)
  moreover have "\<forall>k < length marks. (marks[i := 1]) ! k = 1 \<longleftrightarrow> k \<in> set (path @ [i])"
    using assms (1) i by (auto simp: walking_def nth_list_update)
  moreover have "\<forall>k < length marks. (marks[i := 1]) ! k = 2 \<longrightarrow> rooted parents k"
    using assms (1) i by (auto simp: walking_def nth_list_update)
  ultimately show ?thesis using assms (1) valid [OF i (1)] i unfolding walking_def by auto
qed

definition links_valid :: "nat option list \<Rightarrow> bool" where
  "links_valid parents \<longleftrightarrow> (\<forall>i j. i < length parents \<longrightarrow> parents ! i = Some j \<longrightarrow> j < length parents)"

lemma walk_result:
  "links_valid parents \<Longrightarrow> walking parents marks current path \<Longrightarrow>
    (walk parents marks current path = Err (History Cycle) \<and> \<not> acyclic (parent_step parents)) \<or>
    (\<exists>marks' path'. walk parents marks current path = Ok (marks', path') \<and> walking parents marks' None path' \<and>
       rooted_opt parents current)"
proof (induction parents marks current path rule: walk.induct)
  case (1 parents marks path)
  then show ?case by (simp add: rooted_opt_def)
next
  case (2 parents marks i path)
  have i: "i < length marks" "i < length parents" using 2 (3) by (simp_all add: walking_def)
  consider "marks ! i = 1" | "marks ! i = 2" | "marks ! i \<noteq> 1" "marks ! i \<noteq> 2" by blast
  then show ?case
  proof cases
    case 1
    then have "(i, i) \<in> (parent_step parents)\<^sup>+" using 2 (3) i by (auto simp: walking_def)
    then show ?thesis using 1 i by (auto simp: acyclic_def)
  next
    case 2
    then have "rooted parents i" "walking parents marks None path" using "2" \<open>walking parents marks (Some i) path\<close> i
      by (auto simp: walking_def rooted_opt_def)
    then show ?thesis using 2 i by (simp add: rooted_opt_def)
  next
    case 3
    note next_walk = walking_step [OF 2 (3) 3]
    have "walking parents (marks[i := 1]) (parents ! i) (path @ [i])" using next_walk 2 (2) by (simp add: links_valid_def)
    moreover have "rooted_opt parents (parents ! i) \<Longrightarrow> rooted parents i"
      using i by (auto simp: rooted_opt_def intro: rooted_root rooted_child split: option.splits)
    ultimately show ?thesis using 2 (1) [OF _ 3] 2 (2) 3 i by (auto simp: rooted_opt_def)
  qed
qed

lemma mark_path_Ok:
  "set path \<subseteq> {..<length marks} \<Longrightarrow>
   \<exists>marks'. mark_path marks path = Ok marks' \<and> length marks' = length marks \<and>
     (\<forall>i < length marks. marks' ! i = (if i \<in> set path then 2 else marks ! i))"
proof (induction path arbitrary: marks)
  case (Cons i path)
  then obtain marks' where "mark_path (marks[i := 2]) path = Ok marks'" "length marks' = length marks"
      "\<forall>k < length marks. marks' ! k = (if k \<in> set path then 2 else (marks[i := 2]) ! k)"
    using Cons.IH [of "marks[i := 2]"] by auto
  then show ?case using Cons.prems by (auto simp: put_at_def nth_list_update)
qed simp

lemma walking_start:
  "length marks = length parents \<Longrightarrow> (\<forall>i < length marks. marks ! i \<noteq> 1 \<and> (marks ! i = 2 \<longrightarrow> rooted parents i)) \<Longrightarrow>
   start < length parents \<Longrightarrow> walking parents marks (Some start) []"
  by (auto simp: walking_def)

lemma validate_result:
  assumes "links_valid parents"
  shows "length marks = length parents \<Longrightarrow> (\<forall>i < length marks. marks ! i \<noteq> 1 \<and> (marks ! i = 2 \<longrightarrow> rooted parents i)) \<Longrightarrow>
    set starts \<subseteq> {..<length parents} \<Longrightarrow>
    (validate_from parents marks starts = Err (History Cycle) \<and> \<not> acyclic (parent_step parents)) \<or>
    (validate_from parents marks starts = Ok () \<and> (\<forall>i \<in> set starts. rooted parents i))"
proof (induction starts arbitrary: marks)
  case (Cons start starts)
  have "walking parents marks (Some start) []" using Cons.prems by (intro walking_start) auto
  from walk_result [OF assms this] show ?case
  proof (elim disjE exE conjE)
    fix marks' path'
    assume w: "walk parents marks (Some start) [] = Ok (marks', path')" "walking parents marks' None path'" "rooted_opt parents (Some start)"
    then obtain marks'' where m: "mark_path marks' path' = Ok marks''" "length marks'' = length parents"
        "\<forall>i < length parents. marks'' ! i = (if i \<in> set path' then 2 else marks' ! i)"
      using mark_path_Ok [of path' marks'] by (auto simp: walking_def)
    have "\<forall>i < length marks''. marks'' ! i \<noteq> 1 \<and> (marks'' ! i = 2 \<longrightarrow> rooted parents i)"
      using w (2) m (2,3) by (auto simp: walking_def rooted_opt_def)
    then show ?thesis using Cons.IH [of marks''] Cons.prems (3) m (1,2) w (1,3) by (auto simp: rooted_opt_def)
  qed simp
qed simp

section \<open>What an index is\<close>

definition parent_rel :: "('id, 'm) hnode_scheme list \<Rightarrow> ('id \<times> 'id) set" where
  "parent_rel nodes = {(hn_id n, p) | n p. n \<in> set nodes \<and> hn_parent n = Some p}"

definition index_exact :: "('id, 'm) hnode_scheme list \<Rightarrow> ('id, 'm) branch_index \<Rightarrow> bool" where
  "index_exact nodes index \<longleftrightarrow>
     bi_nodes index = nodes \<and>
     (\<forall>x i. bi_by_id index x = Some i \<longleftrightarrow> i < length nodes \<and> hn_id (nodes ! i) = x) \<and>
     bi_children index =
       map (\<lambda>i. filter (\<lambda>j. hn_parent (nodes ! j) = Some (hn_id (nodes ! i))) [0..<length nodes]) [0..<length nodes] \<and>
     bi_roots index = filter (\<lambda>j. hn_parent (nodes ! j) = None) [0..<length nodes]"

lemma parent_rel_step:
  assumes by_id: "\<And>x i. by_id x = Some i \<longleftrightarrow> i < length nodes \<and> hn_id (nodes ! i) = x"
    and known: "\<forall>m \<in> set nodes. \<forall>p. hn_parent m = Some p \<longrightarrow> by_id p \<noteq> None"
  shows "(i, j) \<in> parent_step (parents_below by_id nodes (length nodes)) \<longleftrightarrow>
    i < length nodes \<and> j < length nodes \<and> hn_parent (nodes ! i) = Some (hn_id (nodes ! j))"
    "(x, y) \<in> parent_rel nodes \<longleftrightarrow>
    (\<exists>i j. hn_id (nodes ! i) = x \<and> hn_id (nodes ! j) = y \<and> (i, j) \<in> parent_step (parents_below by_id nodes (length nodes)))"
proof -
  show step: "(i, j) \<in> parent_step (parents_below by_id nodes (length nodes)) \<longleftrightarrow>
      i < length nodes \<and> j < length nodes \<and> hn_parent (nodes ! i) = Some (hn_id (nodes ! j))" for i j
    using by_id by (auto simp: parent_step_def parents_below_def parent_index_def bind_eq_Some_conv)
  show "(x, y) \<in> parent_rel nodes \<longleftrightarrow>
      (\<exists>i j. hn_id (nodes ! i) = x \<and> hn_id (nodes ! j) = y \<and> (i, j) \<in> parent_step (parents_below by_id nodes (length nodes)))"
  proof
    assume "(x, y) \<in> parent_rel nodes"
    then obtain n where n: "n \<in> set nodes" "hn_id n = x" "hn_parent n = Some y" by (auto simp: parent_rel_def)
    then obtain j where "by_id y = Some j" using known by blast
    then have j: "j < length nodes" "hn_id (nodes ! j) = y" by (simp_all add: by_id)
    obtain i where "i < length nodes" "nodes ! i = n" using n (1) by (auto simp: in_set_conv_nth)
    then show "\<exists>i j. hn_id (nodes ! i) = x \<and> hn_id (nodes ! j) = y \<and> (i, j) \<in> parent_step (parents_below by_id nodes (length nodes))"
      using j n (2,3) by (intro exI [of _ i] exI [of _ j]) (simp add: step)
  next
    assume "\<exists>i j. hn_id (nodes ! i) = x \<and> hn_id (nodes ! j) = y \<and> (i, j) \<in> parent_step (parents_below by_id nodes (length nodes))"
    then show "(x, y) \<in> parent_rel nodes" unfolding step parent_rel_def by (auto intro: nth_mem)
  qed
qed

lemma trancl_image:
  assumes rel: "\<And>x y. (x, y) \<in> Q \<longleftrightarrow> (\<exists>i j. f i = x \<and> f j = y \<and> (i, j) \<in> R)"
    and inj: "\<And>i j. i \<in> Field R \<Longrightarrow> j \<in> Field R \<Longrightarrow> f i = f j \<Longrightarrow> i = j"
  shows "acyclic Q \<longleftrightarrow> acyclic R"
proof -
  have up: "(f i, f j) \<in> Q\<^sup>+" if "(i, j) \<in> R\<^sup>+" for i j
    using that
  proof (induction rule: trancl_induct)
    case (base j)
    then show ?case using rel [of "f i" "f j"] by blast
  next
    case (step j k)
    then have "(f j, f k) \<in> Q" using rel [of "f j" "f k"] by blast
    then show ?case by (rule trancl_into_trancl [OF step.IH])
  qed
  have down: "\<exists>i j. f i = x \<and> f j = y \<and> (i, j) \<in> R\<^sup>+" if "(x, y) \<in> Q\<^sup>+" for x y
    using that
  proof (induction rule: trancl_induct)
    case (base y)
    then show ?case using rel by blast
  next
    case (step y z)
    obtain i j where ij: "f i = x" "f j = y" "(i, j) \<in> R\<^sup>+" using step.IH by blast
    obtain j' k where jk: "f j' = y" "f k = z" "(j', k) \<in> R" using rel [of y z] step.hyps (2) by blast
    have "j \<in> Field R" "j' \<in> Field R" using ij (3) jk (3) by (auto simp: Field_def dest: tranclD2)
    then have "j' = j" using inj ij (2) jk (1) by metis
    then show ?case using ij jk by (blast intro: trancl_into_trancl)
  qed
  show ?thesis
  proof
    assume "acyclic Q"
    then show "acyclic R" using up unfolding acyclic_def by blast
  next
    assume R: "acyclic R"
    have False if x: "(x, x) \<in> Q\<^sup>+" for x
    proof -
      obtain i j where ij: "f i = x" "f j = x" "(i, j) \<in> R\<^sup>+" using down [OF x] by blast
      then have "i \<in> Field R" "j \<in> Field R" by (auto simp: Field_def dest: tranclD tranclD2)
      then show False using inj ij R unfolding acyclic_def by metis
    qed
    then show "acyclic Q" unfolding acyclic_def by blast
  qed
qed

lemma validate_exact:
  fixes nodes :: "('id, 'm) hnode_scheme list"
  assumes by_id: "\<And>x i. by_id x = Some i \<longleftrightarrow> i < length nodes \<and> hn_id (nodes ! i) = x"
    and distinct: "distinct (map hn_id nodes)"
    and known: "\<forall>m \<in> set nodes. \<forall>p. hn_parent m = Some p \<longrightarrow> by_id p \<noteq> None"
  defines "parents \<equiv> parents_below by_id nodes (length nodes)"
  shows "validate_from parents (replicate (length nodes) 0) [0..<length nodes] =
    (if acyclic (parent_rel nodes) then Ok () else Err (History Cycle))"
proof -
  have len: "length parents = length nodes" by (simp add: parents_def parents_below_def)
  have valid: "links_valid parents"
    using parent_rel_step (1) [OF by_id known] len by (auto simp: links_valid_def parent_step_def parents_def)
  have "acyclic (parent_rel nodes) \<longleftrightarrow> acyclic (parent_step parents)"
  proof (rule trancl_image)
    show "(x, y) \<in> parent_rel nodes \<longleftrightarrow> (\<exists>i j. hn_id (nodes ! i) = x \<and> hn_id (nodes ! j) = y \<and> (i, j) \<in> parent_step parents)" for x y
      unfolding parents_def by (rule parent_rel_step (2) [OF by_id known])
    show "i = j" if "i \<in> Field (parent_step parents)" "j \<in> Field (parent_step parents)" "hn_id (nodes ! i) = hn_id (nodes ! j)" for i j
    proof -
      have "i < length nodes" "j < length nodes"
        using that (1,2) parent_rel_step (1) [OF by_id known] by (auto simp: Field_def parents_def)
      then show ?thesis using by_id that (3) by (metis option.inject)
    qed
  qed
  moreover have "acyclic (parent_step parents)" if "\<forall>i \<in> set [0..<length nodes]. rooted parents i"
  proof -
    have "(i, i) \<notin> (parent_step parents)\<^sup>+" for i
    proof
      assume c: "(i, i) \<in> (parent_step parents)\<^sup>+"
      then have "i < length nodes" by (auto simp: parent_step_def len dest: tranclD)
      then show False using c that rooted_no_cycle by auto
    qed
    then show ?thesis by (simp add: acyclic_def)
  qed
  moreover have "(validate_from parents (replicate (length nodes) 0) [0..<length nodes] = Err (History Cycle) \<and> \<not> acyclic (parent_step parents)) \<or>
    (validate_from parents (replicate (length nodes) 0) [0..<length nodes] = Ok () \<and> (\<forall>i \<in> set [0..<length nodes]. rooted parents i))"
    by (rule validate_result [OF valid]) (auto simp: len)
  ultimately show ?thesis by auto
qed

lemma tables_exact:
  assumes by_id: "\<And>x i. by_id x = Some i \<longleftrightarrow> i < length nodes \<and> hn_id (nodes ! i) = x"
  shows "index_exact nodes \<lparr>bi_nodes = nodes, bi_by_id = by_id, bi_children = children_below by_id nodes (length nodes),
    bi_roots = roots_below nodes (length nodes)\<rparr>"
proof -
  have "parent_index by_id nodes j = Some i \<longleftrightarrow> hn_parent (nodes ! j) = Some (hn_id (nodes ! i))" if "i < length nodes" for i j
    using that by_id by (auto simp: parent_index_def bind_eq_Some_conv)
  then have "children_below by_id nodes (length nodes) =
      map (\<lambda>i. filter (\<lambda>j. hn_parent (nodes ! j) = Some (hn_id (nodes ! i))) [0..<length nodes]) [0..<length nodes]"
    by (simp add: children_below_def)
  then show ?thesis using by_id by (simp add: index_exact_def roots_below_def)
qed

section \<open>Walks over an index\<close>

lemma index_at_Ok: "i < length xs \<Longrightarrow> index_at xs i = Ok (xs ! i)"
  by (simp add: index_at_def)

lemma nodes_at_Ok: "set positions \<subseteq> {..<length nodes} \<Longrightarrow> nodes_at nodes positions = Ok (map ((!) nodes) positions)"
  by (induction positions) (simp_all add: index_at_Ok)

lemma map_filter_nth: "map ((!) xs) (filter (\<lambda>j. P (xs ! j)) [0..<length xs]) = filter P xs"
  using filter_map [of P "(!) xs" "[0..<length xs]"] by (simp add: map_nth comp_def)

definition children_of :: "('id, 'm) hnode_scheme list \<Rightarrow> 'id \<Rightarrow> ('id, 'm) hnode_scheme list" where
  "children_of nodes x = filter (\<lambda>m. hn_parent m = Some x) nodes"

lemma children_rel: "c \<in> set (children_of nodes x) \<Longrightarrow> (hn_id c, x) \<in> parent_rel nodes"
  by (auto simp: children_of_def parent_rel_def)

text \<open>The chain of parents from a root to a node.\<close>

definition ancestry :: "('id, 'm) hnode_scheme list \<Rightarrow> ('id, 'm) hnode_scheme \<Rightarrow> ('id, 'm) hnode_scheme list \<Rightarrow> bool" where
  "ancestry nodes head p \<longleftrightarrow> p \<noteq> [] \<and> set p \<subseteq> set nodes \<and> last p = head \<and> hn_parent (hd p) = None \<and>
     (\<forall>k. Suc k < length p \<longrightarrow> hn_parent (p ! Suc k) = Some (hn_id (p ! k)))"

lemma ancestry_child:
  assumes "ancestry nodes m p" "n \<in> set nodes" "hn_parent n = Some (hn_id m)"
  shows "ancestry nodes n (p @ [n])"
proof -
  have "hn_parent ((p @ [n]) ! Suc k) = Some (hn_id ((p @ [n]) ! k))" if "Suc k < length (p @ [n])" for k
  proof (cases "Suc k < length p")
    case True
    then show ?thesis using assms (1) by (simp add: ancestry_def nth_append)
  next
    case False
    then have "Suc k = length p" using that by simp
    moreover have "p ! k = m" using calculation assms (1) by (metis ancestry_def diff_Suc_1 last_conv_nth)
    ultimately show ?thesis using assms (3) by (simp add: nth_append)
  qed
  then show ?thesis using assms (1,2) by (simp add: ancestry_def)
qed

text \<open>The leaf reached by always taking the greatest child.\<close>

inductive prefers :: "('id, 'm) hnode_scheme list \<Rightarrow> (('id, 'm) hnode_scheme \<Rightarrow> ('id, 'm) hnode_scheme \<Rightarrow> ordering) \<Rightarrow>
    ('id, 'm) hnode_scheme \<Rightarrow> ('id, 'm) hnode_scheme \<Rightarrow> bool" for nodes compare where
  prefers_leaf: "children_of nodes (hn_id n) = [] \<Longrightarrow> prefers nodes compare n n"
| prefers_child: "max_by compare (children_of nodes (hn_id n)) = Some c \<Longrightarrow> prefers nodes compare c leaf \<Longrightarrow>
    prefers nodes compare n leaf"

definition forest :: "('id, 'm) hnode_scheme list \<Rightarrow> ('id, 'm) branch_index \<Rightarrow> bool" where
  "forest nodes index \<longleftrightarrow> index_exact nodes index \<and> acyclic (parent_rel nodes) \<and> snd ` parent_rel nodes \<subseteq> hn_id ` set nodes"

lemma forest_wf:
  assumes "forest nodes index"
  shows "wf (parent_rel nodes)" "wf ((parent_rel nodes)\<inverse>)"
proof -
  have "parent_rel nodes \<subseteq> (\<lambda>n. (hn_id n, the (hn_parent n))) ` set nodes" by (force simp: parent_rel_def)
  then have "finite (parent_rel nodes)" by (rule finite_subset) simp
  then show "wf (parent_rel nodes)" "wf ((parent_rel nodes)\<inverse>)"
    using assms finite_acyclic_wf finite_acyclic_wf_converse by (auto simp: forest_def)
qed

lemma forest_lookup:
  assumes "forest nodes index" "i < length nodes"
  shows "bi_node index (hn_id (nodes ! i)) = Ok (nodes ! i)" "bi_by_id index (hn_id (nodes ! i)) = Some i"
    "bi_nodes index = nodes" "i < length (bi_children index)"
    "bi_children index ! i = filter (\<lambda>j. hn_parent (nodes ! j) = Some (hn_id (nodes ! i))) [0..<length nodes]"
    "map ((!) nodes) (bi_children index ! i) = children_of nodes (hn_id (nodes ! i))"
proof -
  have index: "index_exact nodes index" using assms (1) by (simp add: forest_def)
  then show n: "bi_nodes index = nodes" and id: "bi_by_id index (hn_id (nodes ! i)) = Some i"
    using assms (2) by (simp_all add: index_exact_def)
  show "bi_node index (hn_id (nodes ! i)) = Ok (nodes ! i)" using assms (2) by (simp add: bi_node_def id n index_at_Ok)
  show "i < length (bi_children index)"
    and c: "bi_children index ! i = filter (\<lambda>j. hn_parent (nodes ! j) = Some (hn_id (nodes ! i))) [0..<length nodes]"
    using index assms (2) by (simp_all add: index_exact_def)
  show "map ((!) nodes) (bi_children index ! i) = children_of nodes (hn_id (nodes ! i))"
    unfolding c children_of_def by (rule map_filter_nth)
qed

lemma path_loop_ancestry:
  assumes "forest nodes index"
  shows "n \<in> set nodes \<Longrightarrow> \<exists>p. ancestry nodes n p \<and> (\<forall>acc. path_loop index (Some (hn_id n)) acc = Some (Ok (p @ rev acc)))"
proof (induction "hn_id n" arbitrary: n rule: wf_induct_rule [OF forest_wf (2) [OF assms]])
  case (1 n)
  obtain i where "i < length nodes" "nodes ! i = n" using "1.prems" by (auto simp: in_set_conv_nth)
  then have node: "bi_node index (hn_id n) = Ok n" using forest_lookup (1) [OF assms] by metis
  show ?case
  proof (cases "hn_parent n")
    case None
    then have "path_loop index (Some (hn_id n)) acc = Some (Ok ([n] @ rev acc))" for acc
      using node by (simp add: path_loop.simps)
    then show ?thesis using None "1.prems" by (intro exI [of _ "[n]"]) (simp add: ancestry_def)
  next
    case (Some y)
    then have rel: "(hn_id n, y) \<in> parent_rel nodes" using "1.prems" by (auto simp: parent_rel_def)
    then obtain m where m: "m \<in> set nodes" "hn_id m = y" using assms by (force simp: forest_def)
    then obtain p where p: "ancestry nodes m p" "\<And>acc. path_loop index (Some (hn_id m)) acc = Some (Ok (p @ rev acc))"
      using "1.hyps" [of m] rel by auto
    have "path_loop index (Some (hn_id n)) acc = Some (Ok ((p @ [n]) @ rev acc))" for acc
      using node Some p (2) [of "acc @ [n]"] m (2) by (simp add: path_loop.simps [of index "Some (hn_id n)"])
    moreover have "ancestry nodes n (p @ [n])" using ancestry_child [OF p (1) "1.prems"] Some m (2) by simp
    ultimately show ?thesis by blast
  qed
qed

lemma descend_children:
  "{y. (y, x) \<in> (parent_rel nodes)\<^sup>*} =
     insert x (\<Union>c \<in> set (children_of nodes x). {y. (y, hn_id c) \<in> (parent_rel nodes)\<^sup>*})"
proof -
  have "(\<exists>c \<in> set (children_of nodes x). hn_id c = z) \<longleftrightarrow> (z, x) \<in> parent_rel nodes" for z
    by (auto simp: children_of_def parent_rel_def)
  then have "(\<exists>c \<in> set (children_of nodes x). (y, hn_id c) \<in> (parent_rel nodes)\<^sup>*) \<longleftrightarrow>
      (\<exists>z. (y, z) \<in> (parent_rel nodes)\<^sup>* \<and> (z, x) \<in> parent_rel nodes)" for y by metis
  moreover have "(y, x) \<in> (parent_rel nodes)\<^sup>* \<longleftrightarrow> y = x \<or> (\<exists>z. (y, z) \<in> (parent_rel nodes)\<^sup>* \<and> (z, x) \<in> parent_rel nodes)" for y
    by (metis rtrancl.simps)
  ultimately show ?thesis by auto
qed

lemma descendants_loop_node:
  assumes "forest nodes index"
  shows "i < length nodes \<Longrightarrow> descendants_loop index (i # pending) result =
    descendants_loop index pending (result \<union> {y. (y, hn_id (nodes ! i)) \<in> (parent_rel nodes)\<^sup>*})"
proof (induction "hn_id (nodes ! i)" arbitrary: i pending result rule: wf_induct_rule [OF forest_wf (1) [OF assms]])
  case (1 i)
  note look = forest_lookup [OF assms "1.prems"]
  let ?D = "\<lambda>j. {y. (y, hn_id (nodes ! j)) \<in> (parent_rel nodes)\<^sup>*}"
  have "descendants_loop index (js @ pending) result = descendants_loop index pending (result \<union> (\<Union>j \<in> set js. ?D j))"
    if "set js \<subseteq> set (bi_children index ! i)" for js pending result
    using that
  proof (induction js arbitrary: result)
    case (Cons j js)
    then have j: "j < length nodes" "hn_parent (nodes ! j) = Some (hn_id (nodes ! i))" by (simp_all add: look (5))
    then have "(hn_id (nodes ! j), hn_id (nodes ! i)) \<in> parent_rel nodes" by (auto simp: parent_rel_def)
    then show ?case using "1.hyps" [OF _ j (1), of "js @ pending" result] Cons by (simp add: Un_assoc)
  qed simp
  note kids = this [of "rev (bi_children index ! i)"]
  have "(\<Union>c \<in> set (children_of nodes (hn_id (nodes ! i))). {y. (y, hn_id c) \<in> (parent_rel nodes)\<^sup>*}) = (\<Union>j \<in> set (bi_children index ! i). ?D j)"
    unfolding look (6) [symmetric] by simp
  then have "?D i = insert (hn_id (nodes ! i)) (\<Union>j \<in> set (bi_children index ! i). ?D j)"
    using descend_children [of "hn_id (nodes ! i)" nodes] by simp
  then show ?case
    using kids [of pending "insert (hn_id (nodes ! i)) result"] "1.prems" look (3,4)
    by (simp add: descendants_loop.simps [of index "i # pending"] index_at_Ok)
qed

lemma leaf_loop_prefers:
  assumes "forest nodes index"
  shows "i < length nodes \<Longrightarrow> \<exists>leaf. leaf_loop index compare i = Some (Ok leaf) \<and> prefers nodes compare (nodes ! i) leaf"
proof (induction "hn_id (nodes ! i)" arbitrary: i rule: wf_induct_rule [OF forest_wf (1) [OF assms]])
  case (1 i)
  note look = forest_lookup [OF assms "1.prems"]
  let ?pick = "max_by (\<lambda>l r. compare (nodes ! l) (nodes ! r)) (bi_children index ! i)"
  have range: "\<not> list_ex (\<lambda>child. length nodes \<le> child) (bi_children index ! i)" by (auto simp: look (5) list_ex_iff)
  have loop: "leaf_loop index compare i = (case ?pick of None \<Rightarrow> Some (Ok (nodes ! i)) | Some c \<Rightarrow> leaf_loop index compare c)"
    using range "1.prems" look (3,4) by (simp add: leaf_loop.simps [of index compare i] index_at_Ok split: option.split)
  have pick: "map_option ((!) nodes) ?pick = max_by compare (children_of nodes (hn_id (nodes ! i)))"
    by (simp only: max_by_map look (6))
  show ?case
  proof (cases ?pick)
    case None
    then have "bi_children index ! i = []" by (simp add: max_by_def split: list.splits)
    then have "children_of nodes (hn_id (nodes ! i)) = []" by (simp add: look (6) [symmetric])
    then show ?thesis using loop None by (auto intro: prefers_leaf)
  next
    case (Some c)
    then have c: "c < length nodes" "hn_parent (nodes ! c) = Some (hn_id (nodes ! i))"
      using max_by_in [OF Some] by (simp_all add: look (5))
    then have "(hn_id (nodes ! c), hn_id (nodes ! i)) \<in> parent_rel nodes" by (auto simp: parent_rel_def)
    then show ?thesis using "1.hyps" [OF _ c (1)] loop pick [symmetric] Some by (auto intro: prefers_child)
  qed
qed

lemma siblings_filter:
  assumes "forest nodes index" "n \<in> set nodes"
  shows "bi_siblings index (hn_id n) = Ok (filter (\<lambda>m. hn_parent m = hn_parent n) nodes)"
proof -
  obtain i where i: "i < length nodes" "nodes ! i = n" using assms (2) by (auto simp: in_set_conv_nth)
  note look = forest_lookup [OF assms (1) i (1), unfolded i (2)]
  show ?thesis
  proof (cases "hn_parent n")
    case None
    have "bi_roots index = filter (\<lambda>j. hn_parent (nodes ! j) = None) [0..<length nodes]"
      using assms (1) by (simp add: forest_def index_exact_def)
    then show ?thesis
      using None look (1,3) nodes_at_Ok [of "bi_roots index" nodes] map_filter_nth [of nodes "\<lambda>m. hn_parent m = None"]
      by (auto simp: bi_siblings_def)
  next
    case (Some y)
    then have "y \<in> snd ` parent_rel nodes" using assms (2) by (force simp: parent_rel_def)
    then obtain j where j: "j < length nodes" "hn_id (nodes ! j) = y" using assms (1) by (force simp: forest_def in_set_conv_nth)
    note parent = forest_lookup [OF assms (1) j (1), unfolded j (2)]
    have "set (bi_children index ! j) \<subseteq> {..<length nodes}" by (auto simp: parent (5))
    then show ?thesis
      using Some look (1,3) parent (2,4,6) nodes_at_Ok [of "bi_children index ! j" nodes]
      by (simp add: bi_siblings_def index_at_Ok children_of_def)
  qed
qed

lemma branch_index_new_cases:
  "if MAX_DOCUMENT_PARTS < length nodes then branch_index_new nodes = Err (History NodeBudget)
   else if \<not> distinct (map hn_id nodes) then branch_index_new nodes = Err (History DuplicateId)
   else if \<not> snd ` parent_rel nodes \<subseteq> hn_id ` set nodes then branch_index_new nodes = Err (History MissingParent)
   else if \<not> acyclic (parent_rel nodes) then branch_index_new nodes = Err (History Cycle)
   else \<exists>index. branch_index_new nodes = Ok index \<and> index_exact nodes index"
proof -
  let ?n = "length nodes"
  have start: "children_below by_id nodes 0 = replicate ?n []" "parents_below by_id nodes 0 = replicate ?n None" "roots_below nodes 0 = []" for by_id
    by (simp_all add: children_below_def parents_below_def roots_below_def map_replicate_const)
  show ?thesis
  proof (cases "?n \<le> MAX_DOCUMENT_PARTS \<and> distinct (map hn_id nodes)")
    case True
    then obtain by_id where ids: "index_ids nodes 0 Map.empty = Ok by_id"
        and by_id: "\<And>x i. by_id x = Some i \<longleftrightarrow> i < ?n \<and> hn_id (nodes ! i) = x"
      using index_ids_result [of nodes Map.empty 0] by auto
    have dom: "by_id p = None \<longleftrightarrow> p \<notin> hn_id ` set nodes" for p
    proof (cases "by_id p")
      case None
      then have "\<not> (i < ?n \<and> hn_id (nodes ! i) = p)" for i using by_id [of p i] by simp
      then show ?thesis using None by (metis image_iff in_set_conv_nth)
    next
      case (Some i)
      then show ?thesis using by_id [of p i] by auto
    qed
    have missing: "(\<exists>m \<in> set nodes. \<exists>p. hn_parent m = Some p \<and> by_id p = None) \<longleftrightarrow> \<not> snd ` parent_rel nodes \<subseteq> hn_id ` set nodes"
      unfolding dom by (force simp: parent_rel_def)
    have link: "link_parents by_id nodes 0 (replicate ?n []) (replicate ?n None) [] =
        (if \<not> snd ` parent_rel nodes \<subseteq> hn_id ` set nodes then Err (History MissingParent)
         else Ok (children_below by_id nodes ?n, parents_below by_id nodes ?n, roots_below nodes ?n))"
      using link_parents_result [of by_id nodes "[]" nodes 0] by_id by (simp add: start missing)
    have "branch_index_new nodes = res_bind (link_parents by_id nodes 0 (replicate ?n []) (replicate ?n None) []) (\<lambda>(children, parents, roots).
        res_bind (validate_from parents (replicate ?n 0) [0..<?n]) (\<lambda>_.
          Ok \<lparr>bi_nodes = nodes, bi_by_id = by_id, bi_children = children, bi_roots = roots\<rparr>))"
      using True ids by (simp add: branch_index_new_def)
    note new = this [unfolded link]
    show ?thesis
    proof (cases "snd ` parent_rel nodes \<subseteq> hn_id ` set nodes")
      case known: True
      then have "\<not> (\<exists>m \<in> set nodes. \<exists>p. hn_parent m = Some p \<and> by_id p = None)" by (simp only: missing not_not)
      then have "\<forall>m \<in> set nodes. \<forall>p. hn_parent m = Some p \<longrightarrow> by_id p \<noteq> None" by (simp only: bex_simps not_ex de_Morgan_conj) blast
      from validate_exact [OF by_id _ this] show ?thesis using True new known tables_exact [OF by_id] by simp
    qed (use True new in simp)
  next
    case False
    then show ?thesis using index_ids_result [of nodes Map.empty 0] by (auto simp: branch_index_new_def)
  qed
qed

lemma built_exact:
  "branch_index_new nodes = Ok index \<Longrightarrow>
   index_exact nodes index \<and> acyclic (parent_rel nodes) \<and> snd ` parent_rel nodes \<subseteq> hn_id ` set nodes"
  using branch_index_new_cases [of nodes] by (simp split: if_splits)

lemma built_forest: "branch_index_new nodes = Ok index \<Longrightarrow> forest nodes index"
  unfolding forest_def by (rule built_exact)

lemma bi_path_ancestry:
  assumes "branch_index_new nodes = Ok index" "n \<in> set nodes"
  shows "\<exists>p. bi_path index (Some (hn_id n)) = Some (Ok p) \<and> ancestry nodes n p"
  using path_loop_ancestry [OF built_forest [OF assms (1)] assms (2)] by (auto simp: bi_path_def)

lemma bi_path_missing:
  assumes "branch_index_new nodes = Ok index" "x \<notin> hn_id ` set nodes"
  shows "bi_path index (Some x) = Some (Err (History MissingHead))"
proof -
  have "bi_by_id index x \<noteq> Some i" for i using built_exact [OF assms (1)] assms (2) by (auto simp: index_exact_def)
  then have "bi_by_id index x = None" by (cases "bi_by_id index x") auto
  then show ?thesis by (simp add: bi_path_def path_loop.simps bi_node_def)
qed

section \<open>Properties\<close>

text \<open>C23. \<open>BranchIndex::new\<close> accepts exactly the histories of at most 65536 nodes in which identities are
  distinct, every parent is present and no node is its own ancestor, and reports the first of these that fails; it never
  indexes out of range. The index it builds finds each node under its identity and lists the children of each node and
  the roots in order.\<close>

theorem branch_index_new_exact:
  "if MAX_DOCUMENT_PARTS < length nodes then branch_index_new nodes = Err (History NodeBudget)
   else if \<not> distinct (map hn_id nodes) then branch_index_new nodes = Err (History DuplicateId)
   else if \<not> snd ` parent_rel nodes \<subseteq> hn_id ` set nodes then branch_index_new nodes = Err (History MissingParent)
   else if \<not> acyclic (parent_rel nodes) then branch_index_new nodes = Err (History Cycle)
   else \<exists>index. branch_index_new nodes = Ok index \<and> index_exact nodes index"
  by (rule branch_index_new_cases)

theorem branch_index_new_exact_witness:
  "branch_index_new [\<lparr>hn_id = 5 :: nat, hn_parent = Some 7\<rparr>, \<lparr>hn_id = 7, hn_parent = Some 5\<rparr>] = Err (History Cycle)"
proof -
  let ?nodes = "[\<lparr>hn_id = 5 :: nat, hn_parent = Some 7\<rparr>, \<lparr>hn_id = 7, hn_parent = Some 5\<rparr>]"
  have "parent_rel ?nodes = (\<lambda>n. (hn_id n, the (hn_parent n))) ` set ?nodes" by (force simp: parent_rel_def)
  then have rel: "parent_rel ?nodes = {(5, 7), (7, 5)}" by simp
  have "(5, 5) \<in> (parent_rel ?nodes)\<^sup>+" unfolding rel by (meson insertI1 insertI2 trancl.simps)
  then have "\<not> acyclic (parent_rel ?nodes)" by (auto simp: acyclic_def)
  then show ?thesis using branch_index_new_exact [of ?nodes] by (simp add: MAX_DOCUMENT_PARTS_def rel)
qed

text \<open>C24. On an index that was built, every walk ends, without indexing out of range. The path of a node is its
  chain of ancestors from a root; its siblings are the nodes with the same parent, in order; its descendants are
  exactly the nodes it is an ancestor of, with itself; its preferred leaf is reached by always taking the greatest
  child, the last one among equals. An unknown identity gives \<open>MissingHead\<close>, and no head gives the empty path.\<close>

theorem branch_walks_exact:
  assumes "branch_index_new nodes = Ok index"
  shows "bi_path index None = Some (Ok []) \<and>
    (\<forall>n \<in> set nodes.
       (\<exists>p. bi_path index (Some (hn_id n)) = Some (Ok p) \<and> ancestry nodes n p) \<and>
       bi_siblings index (hn_id n) = Ok (filter (\<lambda>m. hn_parent m = hn_parent n) nodes) \<and>
       bi_descendants index (hn_id n) = Some (Ok {y. (y, hn_id n) \<in> (parent_rel nodes)\<^sup>*}) \<and>
       (\<exists>leaf. bi_preferred_leaf index (hn_id n) compare = Some (Ok leaf) \<and> prefers nodes compare n leaf)) \<and>
    (\<forall>x. x \<notin> hn_id ` set nodes \<longrightarrow>
       bi_path index (Some x) = Some (Err (History MissingHead)) \<and> bi_siblings index x = Err (History MissingHead) \<and>
       bi_descendants index x = Some (Err (History MissingHead)) \<and>
       bi_preferred_leaf index x compare = Some (Err (History MissingHead)))"
proof (intro conjI ballI allI impI)
  note forest = built_forest [OF assms]
  show "bi_path index None = Some (Ok [])" by (simp add: bi_path_def path_loop.simps)
  fix n assume n: "n \<in> set nodes"
  then obtain i where i: "i < length nodes" "nodes ! i = n" by (auto simp: in_set_conv_nth)
  note by_id = forest_lookup (2) [OF forest i (1), unfolded i (2)]
  show "\<exists>p. bi_path index (Some (hn_id n)) = Some (Ok p) \<and> ancestry nodes n p"
    by (rule bi_path_ancestry [OF assms n])
  show "bi_siblings index (hn_id n) = Ok (filter (\<lambda>m. hn_parent m = hn_parent n) nodes)"
    by (rule siblings_filter [OF forest n])
  show "bi_descendants index (hn_id n) = Some (Ok {y. (y, hn_id n) \<in> (parent_rel nodes)\<^sup>*})"
    using descendants_loop_node [OF forest i (1), of "[]" "{}"] i (2)
    by (simp add: bi_descendants_def by_id descendants_loop.simps [of index "[]"])
  show "\<exists>leaf. bi_preferred_leaf index (hn_id n) compare = Some (Ok leaf) \<and> prefers nodes compare n leaf"
    using leaf_loop_prefers [OF forest i (1), of compare] i (2) by (simp add: bi_preferred_leaf_def by_id)
next
  fix x assume x: "x \<notin> hn_id ` set nodes"
  then have "bi_by_id index x \<noteq> Some i" for i using built_exact [OF assms] by (auto simp: index_exact_def)
  then have none: "bi_by_id index x = None" by (cases "bi_by_id index x") auto
  then have node: "bi_node index x = Err (History MissingHead)" by (simp add: bi_node_def)
  show "bi_path index (Some x) = Some (Err (History MissingHead))" by (rule bi_path_missing [OF assms x])
  show "bi_siblings index x = Err (History MissingHead)" by (simp add: bi_siblings_def node)
  show "bi_descendants index x = Some (Err (History MissingHead))" by (simp add: bi_descendants_def none)
  show "bi_preferred_leaf index x compare = Some (Err (History MissingHead))" by (simp add: bi_preferred_leaf_def none)
qed

theorem branch_walks_exact_witness:
  "\<exists>index. branch_index_new [\<lparr>hn_id = 1 :: nat, hn_parent = None\<rparr>, \<lparr>hn_id = 2, hn_parent = Some 1\<rparr>, \<lparr>hn_id = 3, hn_parent = Some 1\<rparr>] = Ok index \<and>
     bi_siblings index 2 = Ok [\<lparr>hn_id = 2, hn_parent = Some 1\<rparr>, \<lparr>hn_id = 3, hn_parent = Some 1\<rparr>]"
proof -
  let ?nodes = "[\<lparr>hn_id = 1 :: nat, hn_parent = None\<rparr>, \<lparr>hn_id = 2, hn_parent = Some 1\<rparr>, \<lparr>hn_id = 3, hn_parent = Some 1\<rparr>]"
  have "is_ok (branch_index_new ?nodes)" by code_simp
  then obtain index where index: "branch_index_new ?nodes = Ok index" by (auto simp: is_ok_iff)
  have "bi_siblings index (hn_id (?nodes ! 1)) = Ok (filter (\<lambda>m. hn_parent m = hn_parent (?nodes ! 1)) ?nodes)"
    using branch_walks_exact [OF index] by simp
  then show ?thesis using index by simp
qed

end
