(* ===== verification/Reference_Grammar.thy ===== *)
theory Reference_Grammar
  imports Unicode_Text
begin

text \<open>
  The expression language over documents, \<open>crates/workspace-document/src/reference_grammar.rs\<close>: the command parser
  with its limits on bytes, nodes and nesting.

  The parser's cursor is a byte offset into the source. A slice at an offset that is not a character boundary panics
  in Rust; here it is the failure \<open>Slice_Panic\<close>. The loops over arguments and over pipeline stages run the parser of
  the next nesting level, so they are partial functions whose value \<open>None\<close> means that they do not return; recursion
  is over the levels that are left, \<open>MAX_NEURAL_DEPTH\<close> less the source's \<open>depth\<close>. Rust's Unicode table
  \<open>char::is_alphanumeric\<close> is the argument \<open>alnum\<close>.
\<close>

section \<open>Data\<close>

definition MAX_NEURAL_COMMAND_BYTES :: nat where "MAX_NEURAL_COMMAND_BYTES = 65536"
definition MAX_NEURAL_DOCUMENT_BYTES :: nat where "MAX_NEURAL_DOCUMENT_BYTES = 1048576"
definition MAX_NEURAL_NODES :: nat where "MAX_NEURAL_NODES = 256"
definition MAX_NEURAL_DEPTH :: nat where "MAX_NEURAL_DEPTH = 16"

datatype neural_expression =
    Reference ustr
  | Literal ustr
  | Call ustr "neural_expression list"
  | Find neural_expression neural_expression
  | Count neural_expression

datatype neural_command = Prompt ustr | Expression neural_expression

datatype neural_failure = Syntax_Error nat string | Slice_Panic

record parser =
  ps_offset :: nat
  ps_nodes :: nat

type_synonym 'a parsed = "('a, neural_failure) result"

section \<open>Characters and slices\<close>

definition trim_start :: "ustr \<Rightarrow> ustr" where
  "trim_start s = dropWhile is_whitespace s"

definition starts_with :: "ustr \<Rightarrow> ustr \<Rightarrow> bool" where
  "starts_with s token \<longleftrightarrow> take (length token) s = token"

definition str_from :: "ustr \<Rightarrow> nat \<Rightarrow> ustr option" where
  "str_from s n = map_option (\<lambda>i. drop i s) (char_index s n)"

definition byte_at :: "ustr \<Rightarrow> nat \<Rightarrow> nat option" where
  "byte_at s n = (if n < length (as_bytes s) then Some (as_bytes s ! n) else None)"

section \<open>Tokens\<close>

definition parser_error :: "parser \<Rightarrow> string \<Rightarrow> 'a parsed" where
  "parser_error self message = Err (Syntax_Error (ps_offset self) message)"

definition advance :: "nat \<Rightarrow> parser \<Rightarrow> parser" where
  "advance n self = self\<lparr>ps_offset := ps_offset self + n\<rparr>"

definition remaining :: "ustr \<Rightarrow> parser \<Rightarrow> ustr parsed" where
  "remaining source self = ok_or Slice_Panic (str_from source (ps_offset self))"

definition whitespace :: "ustr \<Rightarrow> parser \<Rightarrow> parser parsed" where
  "whitespace source self =
     res_bind (remaining source self) (\<lambda>rest. Ok (advance (str_len rest - str_len (trim_start rest)) self))"

definition take_token :: "ustr \<Rightarrow> ustr \<Rightarrow> parser \<Rightarrow> (bool \<times> parser) parsed" where
  "take_token source token self =
     res_bind (remaining source self) (\<lambda>rest.
       if starts_with rest token then Ok (True, advance (str_len token) self) else Ok (False, self))"

definition count_node :: "parser \<Rightarrow> parser parsed" where
  "count_node self =
     (let self = self\<lparr>ps_nodes := ps_nodes self + 1\<rparr>
      in if MAX_NEURAL_NODES < ps_nodes self then parser_error self ''too many expression nodes'' else Ok self)"

definition unescape :: "nat \<Rightarrow> nat option" where
  "unescape c =
     (if c = of_char (CHR 0x22) \<or> c = of_char (CHR 0x5C) then Some c
      else if c = of_char (CHR ''n'') then Some 10
      else if c = of_char (CHR ''r'') then Some 13
      else if c = of_char (CHR ''t'') then Some 9
      else None)"

lemma remaining_measure: "remaining source self = Ok (c # rest) \<Longrightarrow> str_len source - (ps_offset self + (len_utf8 c + n)) < str_len source - ps_offset self"
proof -
  assume "remaining source self = Ok (c # rest)"
  then obtain i where "char_index source (ps_offset self) = Some i" "drop i source = c # rest"
    by (auto simp: remaining_def str_from_def result_simps)
  then have "ps_offset self = offset source i" "str_len (drop i source) = len_utf8 c + str_len rest" by (simp_all add: char_index_Some)
  then have "ps_offset self < str_len source"
    using str_len_simps (3) [of "take i source" "drop i source"] len_utf8_pos [of c] by simp
  then show ?thesis using len_utf8_pos [of c] by linarith
qed

function quoted_loop :: "ustr \<Rightarrow> nat \<Rightarrow> ustr \<Rightarrow> parser \<Rightarrow> (ustr \<times> parser) parsed" where
  "quoted_loop source closing text self =
     (case remaining source self of
        Err e \<Rightarrow> Err e
      | Ok [] \<Rightarrow> parser_error self ''unclosed quote''
      | Ok (c # _) \<Rightarrow>
          (let self' = advance (len_utf8 c) self in
           if c = closing then Ok (text, self')
           else if c = of_char (CHR 0x5C) then
             (case remaining source self' of
                Err e \<Rightarrow> Err e
              | Ok [] \<Rightarrow> parser_error self' ''unfinished escape''
              | Ok (escaped # _) \<Rightarrow>
                  (case unescape escaped of
                     None \<Rightarrow> parser_error (advance (len_utf8 escaped) self') ''unknown escape; use quote, backslash, n, r, or t''
                   | Some c' \<Rightarrow> quoted_loop source closing (text @ [c']) (advance (len_utf8 escaped) self')))
           else if c = 10 \<or> c = 13 then parser_error self' ''use an escaped newline inside quoted text''
           else quoted_loop source closing (text @ [c]) self'))"
  by pat_completeness auto
termination
  by (relation "measure (\<lambda>(source, closing, text, self). str_len source - ps_offset self)")
    (auto simp: advance_def dest: remaining_measure [where n = 0] intro: remaining_measure simp: add.assoc)

declare quoted_loop.simps [simp del]

definition quoted :: "ustr \<Rightarrow> parser \<Rightarrow> (ustr \<times> parser) parsed" where
  "quoted source self =
     res_bind (take_token source [0x201C] self) (\<lambda>(curly, self).
       if curly then quoted_loop source 0x201D [] self
       else res_bind (take_token source [0x22] self) (\<lambda>(_, self). quoted_loop source 0x22 [] self))"

definition name_char :: "(nat \<Rightarrow> bool) \<Rightarrow> nat \<Rightarrow> bool" where
  "name_char alnum c \<longleftrightarrow>
     alnum c \<or> c \<in> set (ascii ''_-/.#'') \<or>
     0x0300 \<le> c \<and> c \<le> 0x036F \<or> 0x1AB0 \<le> c \<and> c \<le> 0x1AFF \<or> 0x1DC0 \<le> c \<and> c \<le> 0x1DFF \<or>
     0x20D0 \<le> c \<and> c \<le> 0x20FF \<or> 0xFE20 \<le> c \<and> c \<le> 0xFE2F"

function name_loop :: "(nat \<Rightarrow> bool) \<Rightarrow> ustr \<Rightarrow> parser \<Rightarrow> parser parsed" where
  "name_loop alnum source self =
     (case remaining source self of
        Err e \<Rightarrow> Err e
      | Ok [] \<Rightarrow> Ok self
      | Ok (c # rest) \<Rightarrow>
          if starts_with (c # rest) (ascii ''::'') then name_loop alnum source (advance 2 self)
          else if name_char alnum c then name_loop alnum source (advance (len_utf8 c) self)
          else Ok self)"
  by pat_completeness auto
termination
  by (relation "measure (\<lambda>(alnum, source, self). str_len source - ps_offset self)")
    (auto simp: advance_def starts_with_def ascii_def len_utf8_def dest: remaining_measure [where n = 0] remaining_measure [where n = 1])

declare name_loop.simps [simp del]

definition document_name :: "(nat \<Rightarrow> bool) \<Rightarrow> ustr \<Rightarrow> parser \<Rightarrow> (ustr \<times> parser) parsed" where
  "document_name alnum source self =
     res_bind (remaining source self) (\<lambda>rest.
       if starts_with rest [0x22] \<or> starts_with rest [0x201C] then
         res_bind (quoted source self) (\<lambda>(name, self).
           if blank name then parser_error self ''document name is empty'' else Ok (name, self))
       else
         res_bind (name_loop alnum source self) (\<lambda>self'.
           if ps_offset self = ps_offset self' then parser_error self' ''expected a document name''
           else res_bind (ok_or Slice_Panic (str_get source (ps_offset self) (ps_offset self'))) (\<lambda>name. Ok (name, self'))))"

section \<open>Expressions\<close>

definition run_bind :: "'a parsed option \<Rightarrow> ('a \<Rightarrow> 'b parsed option) \<Rightarrow> 'b parsed option" where
  "run_bind m f = Option.bind m (\<lambda>r. case r of Err e \<Rightarrow> Some (Err e) | Ok x \<Rightarrow> f x)"

lemma run_bind_simps [simp]:
  "run_bind None f = None" "run_bind (Some (Err e)) f = Some (Err e)" "run_bind (Some (Ok x)) f = f x"
  by (simp_all add: run_bind_def)

lemma run_bind_mono [partial_function_mono]:
  assumes "mono_option m" "\<And>x. mono_option (\<lambda>f. g x f)"
  shows "mono_option (\<lambda>f. run_bind (m f) (\<lambda>x. g x f))"
proof -
  have "mono_option (\<lambda>f. case r of Err e \<Rightarrow> Some (Err e) | Ok x \<Rightarrow> g x f)" for r
    using assms (2) by (cases r) (simp_all add: option.const_mono)
  then show ?thesis unfolding run_bind_def by (intro bind_mono assms (1))
qed

fun expression_depth :: "neural_expression \<Rightarrow> nat" where
  "expression_depth (Call f arguments) = 1 + foldr max (map expression_depth arguments) 0"
| "expression_depth (Find s q) = 1 + max (expression_depth s) (expression_depth q)"
| "expression_depth (Count s) = 1 + expression_depth s"
| "expression_depth (Reference n) = 1"
| "expression_depth (Literal t) = 1"

partial_function (option) arguments_loop ::
  "ustr \<Rightarrow> (parser \<Rightarrow> (neural_expression \<times> parser) parsed option) \<Rightarrow> neural_expression list \<Rightarrow> parser \<Rightarrow>
     (neural_expression list \<times> parser) parsed option" where
  [code]: "arguments_loop source expression arguments self =
     run_bind (expression self) (\<lambda>(argument, self).
     run_bind (Some (whitespace source self)) (\<lambda>self.
     run_bind (Some (take_token source (ascii '')'') self)) (\<lambda>(closed, self).
       if closed then Some (Ok (arguments @ [argument], self))
       else run_bind (Some (take_token source (ascii '','') self)) (\<lambda>(comma, self).
         if \<not> comma then Some (parser_error self ''expected , or )'')
         else arguments_loop source expression (arguments @ [argument]) self))))"

definition parse_arguments ::
  "ustr \<Rightarrow> (parser \<Rightarrow> (neural_expression \<times> parser) parsed option) \<Rightarrow> parser \<Rightarrow> (neural_expression list \<times> parser) parsed option" where
  "parse_arguments source expression self =
     run_bind (Some (whitespace source self)) (\<lambda>self.
     run_bind (Some (take_token source (ascii '')'') self)) (\<lambda>(closed, self).
       if closed then Some (Ok ([], self)) else arguments_loop source expression [] self))"

definition parse_atom ::
  "(nat \<Rightarrow> bool) \<Rightarrow> ustr \<Rightarrow> (parser \<Rightarrow> (neural_expression \<times> parser) parsed option) \<Rightarrow> parser \<Rightarrow> (neural_expression \<times> parser) parsed option" where
  "parse_atom alnum source expression self =
     run_bind (Some (whitespace source self)) (\<lambda>self.
     run_bind (Some (count_node self)) (\<lambda>self.
     run_bind (Some (take_token source (ascii ''@'') self)) (\<lambda>(at, self).
       if at then
         run_bind (Some (document_name alnum source self)) (\<lambda>(name, self).
         run_bind (Some (whitespace source self)) (\<lambda>self.
         run_bind (Some (take_token source (ascii ''('') self)) (\<lambda>(opened, self).
           if opened then run_bind (parse_arguments source expression self) (\<lambda>(arguments, self). Some (Ok (Call name arguments, self)))
           else Some (Ok (Reference name, self)))))
       else run_bind (Some (remaining source self)) (\<lambda>rest.
         if starts_with rest [0x22] then run_bind (Some (quoted source self)) (\<lambda>(text, self). Some (Ok (Literal text, self)))
         else run_bind (Some (take_token source (ascii ''find'') self)) (\<lambda>(found, self).
           if found then
             run_bind (Some (whitespace source self)) (\<lambda>self.
             run_bind (Some (take_token source (ascii ''('') self)) (\<lambda>(opened, self).
               if \<not> opened then Some (parser_error self ''expected ( after find'')
               else run_bind (parse_arguments source expression self) (\<lambda>(arguments, self).
                 case arguments of
                   [s, q] \<Rightarrow> Some (Ok (Find s q, self))
                 | _ \<Rightarrow> Some (parser_error self ''find requires a source and a query''))))
           else run_bind (Some (take_token source (ascii ''count'') self)) (\<lambda>(counted, self).
             if counted then
               run_bind (Some (whitespace source self)) (\<lambda>self.
               run_bind (Some (take_token source (ascii ''('') self)) (\<lambda>(opened, self).
                 if \<not> opened then Some (parser_error self ''expected ( after count'')
                 else run_bind (parse_arguments source expression self) (\<lambda>(arguments, self).
                   case arguments of
                     [s] \<Rightarrow> Some (Ok (Count s, self))
                   | _ \<Rightarrow> Some (parser_error self ''count requires exactly one library source''))))
             else Some (parser_error self ''expected @document, @function(...), find(...), count(...), or quoted text'')))))))"

partial_function (option) pipeline_loop ::
  "(nat \<Rightarrow> bool) \<Rightarrow> ustr \<Rightarrow> (parser \<Rightarrow> (neural_expression \<times> parser) parsed option) \<Rightarrow> neural_expression \<Rightarrow> parser \<Rightarrow>
     (neural_expression \<times> parser) parsed option" where
  [code]: "pipeline_loop alnum source expression e self =
     run_bind (Some (take_token source (ascii ''|>'') self)) (\<lambda>(piped, self).
       if \<not> piped then Some (Ok (e, self))
       else run_bind (Some (whitespace source self)) (\<lambda>self.
         run_bind (Some (take_token source (ascii ''@'') self)) (\<lambda>(at, self).
         if \<not> at then Some (parser_error self ''expected a document function after |>'')
         else run_bind (Some (document_name alnum source self)) (\<lambda>(function_name, self).
           run_bind (Some (count_node self)) (\<lambda>self.
           run_bind (Some (whitespace source self)) (\<lambda>self.
           run_bind (Some (take_token source (ascii ''('') self)) (\<lambda>(opened, self).
           run_bind (if opened then parse_arguments source expression self else Some (Ok ([], self))) (\<lambda>(arguments, self).
             let e = Call function_name (e # arguments) in
             if MAX_NEURAL_DEPTH < expression_depth e then Some (parser_error self ''expression nesting exceeds the limit'')
             else run_bind (Some (whitespace source self)) (\<lambda>self. pipeline_loop alnum source expression e self))))))))) "

primrec parse_expression :: "(nat \<Rightarrow> bool) \<Rightarrow> ustr \<Rightarrow> nat \<Rightarrow> parser \<Rightarrow> (neural_expression \<times> parser) parsed option" where
  "parse_expression alnum source 0 self = Some (parser_error self ''expression nesting exceeds the limit'')"
| "parse_expression alnum source (Suc levels) self =
     run_bind (parse_atom alnum source (parse_expression alnum source levels) self) (\<lambda>(e, self).
     run_bind (Some (whitespace source self)) (\<lambda>self.
       pipeline_loop alnum source (parse_expression alnum source levels) e self))"

section \<open>Commands\<close>

definition check_size :: "ustr \<Rightarrow> nat \<Rightarrow> unit parsed" where
  "check_size source limit =
     (if limit < str_len source then Err (Syntax_Error limit ''input exceeds the byte limit'') else Ok ())"

definition parse_neural_command :: "(nat \<Rightarrow> bool) \<Rightarrow> ustr \<Rightarrow> neural_command parsed option" where
  "parse_neural_command alnum source =
     run_bind (Some (check_size source MAX_NEURAL_COMMAND_BYTES)) (\<lambda>_.
       let start = str_len source - str_len (trim_start source) in
       if byte_at source start \<noteq> Some (of_char (CHR ''='')) then Some (Ok (Prompt source))
       else run_bind (parse_expression alnum source MAX_NEURAL_DEPTH \<lparr>ps_offset = start + 1, ps_nodes = 0\<rparr>) (\<lambda>(e, self).
         run_bind (Some (whitespace source self)) (\<lambda>self.
           if ps_offset self \<noteq> str_len source then Some (parser_error self ''expected the end of the expression'')
           else if MAX_NEURAL_DEPTH < expression_depth e then Some (parser_error self ''expression nesting exceeds the limit'')
           else Some (Ok (Expression e)))))"


section \<open>Positions in the source\<close>

definition at :: "ustr \<Rightarrow> parser \<Rightarrow> ustr \<Rightarrow> bool" where
  "at source self rest \<longleftrightarrow> (\<exists>before. source = before @ rest \<and> ps_offset self = str_len before)"

lemma remaining_at: "remaining source self = Ok rest \<longleftrightarrow> at source self rest"
proof -
  have "remaining source self = Ok rest \<longleftrightarrow> (\<exists>i \<le> length source. ps_offset self = offset source i \<and> rest = drop i source)"
    by (auto simp: remaining_def str_from_def result_simps char_index_Some)
  also have "\<dots> \<longleftrightarrow> at source self rest"
    unfolding at_def by (metis append_eq_conv_conj append_take_drop_id le_add1 length_append)
  finally show ?thesis .
qed

lemma at_remaining [simp]: "at source self rest \<Longrightarrow> remaining source self = Ok rest"
  by (simp add: remaining_at)

lemma at_advance: "at source self (cs @ rest) \<Longrightarrow> at source (advance (str_len cs) self) rest"
  by (auto simp: at_def advance_def intro: exI [of _ "_ @ cs"])

lemma at_char: "at source self (c # rest) \<Longrightarrow> at source (advance (len_utf8 c) self) rest"
  using at_advance [of source self "[c]" rest] by simp

lemma at_bound: "at source self rest \<Longrightarrow> ps_offset self + str_len rest = str_len source"
  by (auto simp: at_def)

lemma at_nodes [simp]: "at source (self\<lparr>ps_nodes := n\<rparr>) rest \<longleftrightarrow> at source self rest"
  by (simp add: at_def)

lemma at_slice:
  assumes "at source self (cs @ rest)"
  shows "str_get source (ps_offset self) (ps_offset self + str_len cs) = Some cs"
proof -
  obtain before where "source = before @ cs @ rest" "ps_offset self = str_len before" using assms unfolding at_def by blast
  then show ?thesis using str_get_offsets [of "length before" "length before + length cs" source] by simp
qed

lemma starts_with_iff: "starts_with s token \<longleftrightarrow> (\<exists>rest. s = token @ rest)"
  unfolding starts_with_def by (metis append_eq_conv_conj append_take_drop_id)

lemma trim_start_split: "\<exists>ws. s = ws @ trim_start s \<and> list_all is_whitespace ws"
  by (metis takeWhile_dropWhile_id trim_start_def list_all_iff set_takeWhileD)

section \<open>Outcomes of parsers\<close>

text \<open>The contract that every parsing operation keeps: it returns, never panics, reports errors inside the source,
  and a result satisfies \<open>P\<close>. A state is ready when it is on a character boundary and within the node limit;
  \<open>moved\<close> relates the states before and after by the bytes and nodes consumed.\<close>

definition safe :: "ustr \<Rightarrow> ('a \<Rightarrow> bool) \<Rightarrow> 'a parsed option \<Rightarrow> bool" where
  "safe source P out \<longleftrightarrow>
     (\<exists>x. out = Some (Ok x) \<and> P x) \<or> (\<exists>n message. out = Some (Err (Syntax_Error n message)) \<and> n \<le> str_len source)"

definition ready :: "ustr \<Rightarrow> parser \<Rightarrow> bool" where
  "ready source self \<longleftrightarrow> (\<exists>rest. at source self rest) \<and> ps_nodes self \<le> MAX_NEURAL_NODES"

definition moved :: "ustr \<Rightarrow> parser \<Rightarrow> nat \<Rightarrow> nat \<Rightarrow> parser \<Rightarrow> bool" where
  "moved source self k n self' \<longleftrightarrow> ready source self' \<and> ps_offset self + k \<le> ps_offset self' \<and> ps_nodes self' = ps_nodes self + n"

lemma moved_ready: "moved source self k n self' \<Longrightarrow> ready source self'"
  by (simp add: moved_def)

lemma safe_Ok [simp]: "safe source P (Some (Ok x)) \<longleftrightarrow> P x"
  by (simp add: safe_def)

lemma safe_error [simp]: "ready source self \<Longrightarrow> safe source P (Some (parser_error self message))"
  by (auto simp: safe_def parser_error_def ready_def dest: at_bound)

lemma safe_bind: "safe source P m \<Longrightarrow> (\<And>x. P x \<Longrightarrow> safe source Q (f x)) \<Longrightarrow> safe source Q (run_bind m f)"
  unfolding safe_def by fastforce

lemma safe_mono: "safe source P m \<Longrightarrow> (\<And>x. P x \<Longrightarrow> Q x) \<Longrightarrow> safe source Q m"
  unfolding safe_def by blast

lemma advance_moved:
  assumes "ready source self" "at source self (cs @ rest)"
  shows "moved source self (str_len cs) 0 (advance (str_len cs) self)"
  using assms at_advance [OF assms (2)] by (auto simp: moved_def ready_def advance_def)

lemma whitespace_at:
  assumes "at source self rest"
  obtains ws where "rest = ws @ trim_start rest" "whitespace source self = Ok (advance (str_len ws) self)"
proof -
  obtain ws where ws: "rest = ws @ trim_start rest" using trim_start_split by blast
  then have "str_len rest = str_len ws + str_len (trim_start rest)" by (metis str_len_simps (3))
  then show thesis using that [OF ws] assms by (simp add: whitespace_def)
qed

lemma whitespace_bind:
  assumes "ready source self" "\<And>self'. moved source self 0 0 self' \<Longrightarrow> safe source Q (f self')"
  shows "safe source Q (run_bind (Some (whitespace source self)) f)"
proof -
  obtain rest where rest: "at source self rest" using assms (1) unfolding ready_def by blast
  obtain ws where ws: "rest = ws @ trim_start rest" "whitespace source self = Ok (advance (str_len ws) self)" using whitespace_at [OF rest] .
  have "moved source self (str_len ws) 0 (advance (str_len ws) self)"
    using advance_moved [OF assms (1)] rest ws (1) by metis
  then have "moved source self 0 0 (advance (str_len ws) self)" by (simp add: moved_def)
  then show ?thesis using assms (2) ws (2) by simp
qed

lemma take_bind:
  assumes "ready source self" "\<And>self'. moved source self (str_len token) 0 self' \<Longrightarrow> safe source Q (f (True, self'))"
    and "safe source Q (f (False, self))"
  shows "safe source Q (run_bind (Some (take_token source token self)) f)"
proof -
  obtain rest where rest: "at source self rest" using assms (1) unfolding ready_def by blast
  show ?thesis
  proof (cases "starts_with rest token")
    case True
    then obtain tail where "rest = token @ tail" unfolding starts_with_iff by blast
    then show ?thesis using True rest assms (2) advance_moved [OF assms (1), of token tail] by (simp add: take_token_def)
  next
    case False
    then show ?thesis using rest assms (3) by (simp add: take_token_def)
  qed
qed

lemma count_bind:
  assumes "ready source self" "\<And>self'. moved source self 0 1 self' \<Longrightarrow> safe source Q (f self')"
  shows "safe source Q (run_bind (Some (count_node self)) f)"
proof (cases "ps_nodes self < MAX_NEURAL_NODES")
  case True
  then have "moved source self 0 1 (self\<lparr>ps_nodes := ps_nodes self + 1\<rparr>)"
    using assms (1) by (simp add: moved_def ready_def)
  then show ?thesis using True assms (2) by (simp add: count_node_def)
next
  case False
  then show ?thesis using assms (1) by (auto simp: count_node_def safe_def parser_error_def ready_def dest: at_bound)
qed

lemma remaining_bind:
  assumes "ready source self" "\<And>rest. at source self rest \<Longrightarrow> safe source Q (f rest)"
  shows "safe source Q (run_bind (Some (remaining source self)) f)"
proof -
  obtain rest where "at source self rest" using assms (1) unfolding ready_def by blast
  then show ?thesis using assms (2) by simp
qed

lemma moved_trans: "moved source a k n b \<Longrightarrow> moved source b k' n' c \<Longrightarrow> moved source a (k + k') (n + n') c"
  by (auto simp: moved_def)

lemma char_moved:
  assumes "ready source self" "at source self (c # rest)"
  shows "moved source self 0 0 (advance (len_utf8 c) self)"
  using advance_moved [OF assms (1), of "[c]" rest] assms (2) by (simp add: moved_def)

lemma quoted_loop_safe:
  "\<lbrakk>ready source self; at source self rest\<rbrakk> \<Longrightarrow>
   safe source (\<lambda>(t, self'). moved source self 0 0 self') (Some (quoted_loop source closing t0 self))"
proof (induction rest arbitrary: t0 self rule: length_induct)
  case (1 rest)
  show ?case
  proof (cases rest)
    case Nil
    then show ?thesis using 1 (2,3) by (simp add: quoted_loop.simps [of _ _ _ self])
  next
    case (Cons c tail)
    define self' where "self' = advance (len_utf8 c) self"
    have c: "moved source self 0 0 self'" "at source self' tail" using char_moved 1 (2,3) at_char Cons by (auto simp: self'_def)
    have rest: "remaining source self = Ok (c # tail)" "remaining source self' = Ok tail" using 1 (3) Cons c (2) by simp_all
    have later: "safe source (\<lambda>(t, self'). moved source self 0 0 self') (Some (quoted_loop source closing t1 self1))"
      if "moved source self 0 0 self1" "at source self1 tail1" "length tail1 < length rest" for t1 self1 tail1
    proof -
      have "safe source (\<lambda>(t, self'). moved source self1 0 0 self') (Some (quoted_loop source closing t1 self1))"
        using 1 (1) that (2,3) moved_ready [OF that (1)] by blast
      then show ?thesis by (rule safe_mono) (use moved_trans [OF that (1), of 0 0] in auto)
    qed
    note step = quoted_loop.simps [of source closing t0 self, unfolded rest (1) Let_def, simplified, folded self'_def, unfolded rest (2)]
    show ?thesis
    proof (cases tail)
      case Nil
      then show ?thesis
        using Cons c (1) moved_ready [OF c (1)] later [OF c] by (simp add: step)
    next
      case tail: (Cons e tail')
      have "moved source self' 0 0 (advance (len_utf8 e) self')" "at source (advance (len_utf8 e) self') tail'"
        using char_moved [OF moved_ready [OF c (1)]] c (2) at_char tail by auto
      then have e: "moved source self 0 0 (advance (len_utf8 e) self')" "at source (advance (len_utf8 e) self') tail'"
        using moved_trans [OF c (1)] by auto
      show ?thesis
        using Cons tail c (1) moved_ready [OF c (1)] moved_ready [OF e (1)] later [OF c] later [OF e]
        by (simp add: step split: option.splits)
    qed
  qed
qed

lemma run_lift: "Some (res_bind m f) = run_bind (Some m) (\<lambda>x. Some (f x))"
  by (cases m) simp_all

lemma run_if: "Some (if b then x else y) = (if b then Some x else Some y)"
  by simp

lemma quoted_safe:
  assumes "ready source self"
  shows "safe source (\<lambda>(t, self'). moved source self 0 0 self') (Some (quoted source self))"
proof -
  have loop: "safe source (\<lambda>p. moved source self 0 0 (snd p)) (Some (quoted_loop source closing [] self1))"
    if m: "moved source self k 0 self1" for closing k self1
  proof -
    obtain rest where "at source self1 rest" using moved_ready [OF m] unfolding ready_def by blast
    from quoted_loop_safe [OF moved_ready [OF m] this] show ?thesis
      by (rule safe_mono) (use m in \<open>auto simp: moved_def\<close>)
  qed
  have "moved source self 0 0 self" using assms by (simp add: moved_def)
  note here = loop [OF this]
  show ?thesis unfolding quoted_def run_lift case_prod_beta run_if
    by (rule take_bind [OF assms]) (simp_all add: loop run_lift, rule take_bind [OF assms], simp_all add: loop here)
qed

lemma quoted_bind:
  assumes "ready source self" "\<And>t self'. moved source self 0 0 self' \<Longrightarrow> safe source Q (f (t, self'))"
  shows "safe source Q (run_bind (Some (quoted source self)) f)"
  by (rule safe_bind [OF quoted_safe [OF assms (1)]]) (use assms (2) in auto)

definition name_ok :: "(nat \<Rightarrow> bool) \<Rightarrow> ustr \<Rightarrow> bool" where
  "name_ok alnum n \<longleftrightarrow> n \<noteq> [] \<and> (blank n \<longrightarrow> list_all (\<lambda>c. name_char alnum c \<or> c = of_char (CHR '':'')) n)"

lemma name_loop_at:
  "at source self rest \<Longrightarrow> \<exists>cs tail. rest = cs @ tail \<and> name_loop alnum source self = Ok (advance (str_len cs) self) \<and>
     list_all (\<lambda>c. name_char alnum c \<or> c = of_char (CHR '':'')) cs"
proof (induction rest arbitrary: self rule: length_induct)
  case (1 rest)
  have stop: ?case if "name_loop alnum source self = Ok self"
    using that by (intro exI [of _ "[]"] exI [of _ rest]) (simp add: advance_def)
  have go: ?case if eq: "rest = cs @ tail" "cs \<noteq> []" "list_all (\<lambda>c. name_char alnum c \<or> c = of_char (CHR '':'')) cs"
      "name_loop alnum source self = name_loop alnum source (advance (str_len cs) self)" for cs tail
  proof -
    have "at source (advance (str_len cs) self) tail" using at_advance 1 (2) eq (1) by simp
    moreover have "length tail < length rest" using eq (1,2) by simp
    ultimately obtain cs' tail' where "tail = cs' @ tail'"
        "name_loop alnum source (advance (str_len cs) self) = Ok (advance (str_len cs') (advance (str_len cs) self))"
        "list_all (\<lambda>c. name_char alnum c \<or> c = of_char (CHR '':'')) cs'" using 1 (1) by blast
    then show ?thesis using eq by (intro exI [of _ "cs @ cs'"] exI [of _ tail']) (simp add: advance_def add.assoc)
  qed
  show ?case
  proof (cases rest)
    case Nil
    then show ?thesis using stop 1 (2) by (simp add: name_loop.simps [of _ _ self])
  next
    case (Cons c tail)
    consider "starts_with rest (ascii ''::'')" | "\<not> starts_with rest (ascii ''::'')" "name_char alnum c"
      | "\<not> starts_with rest (ascii ''::'')" "\<not> name_char alnum c" by blast
    then show ?thesis
    proof cases
      case 1
      then obtain tail' where "rest = ascii ''::'' @ tail'" unfolding starts_with_iff by blast
      then show ?thesis using go [of "ascii ''::''" tail'] 1 \<open>at source self rest\<close> Cons
        by (simp add: name_loop.simps [of _ _ self] ascii_def len_utf8_def numeral_2_eq_2)
    next
      case 2
      then show ?thesis using go [of "[c]" tail] \<open>at source self rest\<close> Cons by (simp add: name_loop.simps [of _ _ self])
    next
      case 3
      then show ?thesis using stop \<open>at source self rest\<close> Cons by (simp add: name_loop.simps [of _ _ self])
    qed
  qed
qed

lemma name_safe:
  assumes "ready source self"
  shows "safe source (\<lambda>(n, self'). moved source self 0 0 self' \<and> name_ok alnum n) (Some (document_name alnum source self))"
proof -
  obtain rest where rest: "at source self rest" using assms unfolding ready_def by blast
  obtain cs tail where cs: "rest = cs @ tail" "name_loop alnum source self = Ok (advance (str_len cs) self)"
      "list_all (\<lambda>c. name_char alnum c \<or> c = of_char (CHR '':'')) cs" using name_loop_at [OF rest] by blast
  have bare: "safe source (\<lambda>(n, self'). moved source self 0 0 self' \<and> name_ok alnum n)
      (Some (if ps_offset self = ps_offset (advance (str_len cs) self) then parser_error (advance (str_len cs) self) ''expected a document name''
        else res_bind (ok_or Slice_Panic (str_get source (ps_offset self) (ps_offset (advance (str_len cs) self)))) (\<lambda>name. Ok (name, advance (str_len cs) self))))"
    using advance_moved [OF assms, of cs tail] at_slice [of source self cs tail] rest cs (1,3)
    by (auto simp: advance_def name_ok_def moved_def)
  show ?thesis
  proof (cases "starts_with rest [0x22] \<or> starts_with rest [0x201C]")
    case True
    then have "Some (document_name alnum source self) = run_bind (Some (quoted source self)) (\<lambda>p. Some (case p of (name, self) \<Rightarrow>
        if blank name then parser_error self ''document name is empty'' else Ok (name, self)))"
      using rest by (simp add: document_name_def run_lift)
    also have "safe source (\<lambda>(n, self'). moved source self 0 0 self' \<and> name_ok alnum n) \<dots>"
      by (rule quoted_bind [OF assms]) (auto simp: name_ok_def blank_def moved_ready)
    finally show ?thesis .
  next
    case False
    then show ?thesis using bare rest cs (2) by (simp add: document_name_def)
  qed
qed

lemma name_bind:
  assumes "ready source self" "\<And>n self'. moved source self 0 0 self' \<Longrightarrow> name_ok alnum n \<Longrightarrow> safe source Q (f (n, self'))"
  shows "safe source Q (run_bind (Some (document_name alnum source self)) f)"
  by (rule safe_bind [OF name_safe [OF assms (1)]]) (use assms (2) in auto)

section \<open>Parsers over a parser of the next level\<close>

fun expression_nodes :: "neural_expression \<Rightarrow> nat" where
  "expression_nodes (Call f arguments) = 1 + sum_list (map expression_nodes arguments)"
| "expression_nodes (Find s q) = 1 + expression_nodes s + expression_nodes q"
| "expression_nodes (Count s) = 1 + expression_nodes s"
| "expression_nodes (Reference n) = 1"
| "expression_nodes (Literal t) = 1"

fun names_ok :: "(nat \<Rightarrow> bool) \<Rightarrow> neural_expression \<Rightarrow> bool" where
  "names_ok alnum (Call f arguments) \<longleftrightarrow> name_ok alnum f \<and> list_all (names_ok alnum) arguments"
| "names_ok alnum (Find s q) \<longleftrightarrow> names_ok alnum s \<and> names_ok alnum q"
| "names_ok alnum (Count s) \<longleftrightarrow> names_ok alnum s"
| "names_ok alnum (Reference n) \<longleftrightarrow> name_ok alnum n"
| "names_ok alnum (Literal t) \<longleftrightarrow> True"

text \<open>What the parsers of one level rely on of the next: it counts the nodes of what it returns.\<close>

definition counts :: "(nat \<Rightarrow> bool) \<Rightarrow> ustr \<Rightarrow> parser \<Rightarrow> neural_expression \<times> parser \<Rightarrow> bool" where
  "counts alnum source self = (\<lambda>(e, self'). moved source self 0 (expression_nodes e) self' \<and> names_ok alnum e)"

definition counts_all :: "(nat \<Rightarrow> bool) \<Rightarrow> ustr \<Rightarrow> parser \<Rightarrow> neural_expression list \<times> parser \<Rightarrow> bool" where
  "counts_all alnum source self =
     (\<lambda>(es, self'). moved source self 0 (sum_list (map expression_nodes es)) self' \<and> list_all (names_ok alnum) es)"

locale level_parser =
  fixes alnum :: "nat \<Rightarrow> bool" and source :: ustr
    and expression :: "parser \<Rightarrow> (neural_expression \<times> parser) parsed option"
  assumes expression_safe: "ready source self \<Longrightarrow> safe source (counts alnum source self) (expression self)"
begin

lemma arguments_loop_safe:
  assumes "ready source self" "list_all (names_ok alnum) arguments"
  shows "safe source (\<lambda>(es, self'). moved source self 0 (sum_list (map expression_nodes es) - sum_list (map expression_nodes arguments)) self' \<and>
      sum_list (map expression_nodes arguments) \<le> sum_list (map expression_nodes es) \<and> list_all (names_ok alnum) es)
    (arguments_loop source expression arguments self)"
  using assms
proof (induction "str_len source - ps_offset self" arbitrary: self arguments rule: less_induct)
  case less
  show ?case
    unfolding arguments_loop.simps [of source expression arguments]
  proof (rule safe_bind [OF expression_safe [OF less (2)]], clarify)
    fix e self1
    assume "counts alnum source self (e, self1)"
    then have e: "moved source self 0 (expression_nodes e) self1" "names_ok alnum e" by (simp_all add: counts_def)
    let ?Q = "\<lambda>(es, self'). moved source self 0 (sum_list (map expression_nodes es) - sum_list (map expression_nodes arguments)) self' \<and>
      sum_list (map expression_nodes arguments) \<le> sum_list (map expression_nodes es) \<and> list_all (names_ok alnum) es"
    have rest: "safe source ?Q (arguments_loop source expression (arguments @ [e]) self4)"
      if m: "moved source self 1 (expression_nodes e) self4" for self4
    proof -
      have "ps_offset self4 \<le> str_len source" using moved_ready [OF m] by (auto simp: ready_def dest: at_bound)
      then have "str_len source - ps_offset self4 < str_len source - ps_offset self" using m unfolding moved_def by linarith
      moreover have "list_all (names_ok alnum) (arguments @ [e])" using less (3) e (2) by simp
      ultimately show ?thesis
        by (rule safe_mono [OF less (1) [OF _ moved_ready [OF m]]]) (use m in \<open>auto simp: moved_def\<close>)
    qed
    show "safe source ?Q (run_bind (Some (whitespace source self1)) (\<lambda>self.
        run_bind (Some (take_token source (ascii '')'') self)) (\<lambda>(closed, self).
          if closed then Some (Ok (arguments @ [e], self))
          else run_bind (Some (take_token source (ascii '','') self)) (\<lambda>(comma, self).
            if \<not> comma then Some (parser_error self ''expected , or )'')
            else arguments_loop source expression (arguments @ [e]) self))))"
      apply (rule whitespace_bind [OF moved_ready [OF e (1)]])
      apply (rule take_bind, erule moved_ready)
      subgoal using e less (3) by (auto simp: moved_def)
      apply (simp, rule take_bind, erule moved_ready)
      subgoal using e rest by (auto simp: moved_def ascii_def len_utf8_def)
      by (simp add: moved_ready)
  qed
qed

lemma parse_arguments_safe:
  assumes "ready source self"
  shows "safe source (counts_all alnum source self) (parse_arguments source expression self)"
  unfolding parse_arguments_def
  apply (rule whitespace_bind [OF assms])
  apply (rule take_bind, erule moved_ready)
  subgoal by (auto simp: counts_all_def moved_def)
  subgoal for self1
    using arguments_loop_safe [OF moved_ready, of self 0 0 self1 "[]"] by (auto elim!: safe_mono simp: counts_all_def moved_def)
  done

lemma arguments_bind:
  assumes "ready source self"
    and "\<And>es self'. moved source self 0 (sum_list (map expression_nodes es)) self' \<Longrightarrow> list_all (names_ok alnum) es \<Longrightarrow> safe source Q (f (es, self'))"
  shows "safe source Q (run_bind (parse_arguments source expression self) f)"
  by (rule safe_bind [OF parse_arguments_safe [OF assms (1)]]) (use assms (2) in \<open>auto simp: counts_all_def\<close>)

lemma keyword_safe:
  assumes "ready source self" "\<And>es self'. moved source self 0 (sum_list (map expression_nodes es)) self' \<Longrightarrow> list_all (names_ok alnum) es \<Longrightarrow>
      safe source Q (f (es, self'))"
  shows "safe source Q (run_bind (Some (whitespace source self)) (\<lambda>self.
    run_bind (Some (take_token source (ascii ''('') self)) (\<lambda>(opened, self).
      if \<not> opened then Some (parser_error self message) else run_bind (parse_arguments source expression self) f)))"
  apply (rule whitespace_bind [OF assms (1)])
  apply (rule take_bind, erule moved_ready)
  subgoal for self1 self2
    by (simp, rule arguments_bind, erule moved_ready, rule assms (2)) (auto simp: moved_def)
  by (simp add: moved_ready)

lemma parse_atom_safe:
  assumes "ready source self"
  shows "safe source (counts alnum source self) (parse_atom alnum source expression self)"
  unfolding parse_atom_def
  apply (rule whitespace_bind [OF assms])
  apply (rule count_bind, erule moved_ready)
  apply (rule take_bind, erule moved_ready)
  subgoal
    apply simp
    apply (rule name_bind [where alnum = alnum], erule moved_ready)
    apply simp
    apply (rule whitespace_bind, erule moved_ready)
    apply (rule take_bind, erule moved_ready)
     apply (simp, rule arguments_bind, erule moved_ready)
    by (auto simp: counts_def moved_def)
  apply simp
  apply (rule remaining_bind, erule moved_ready)
  apply (rule if_split [THEN iffD2], intro conjI impI)
   apply (rule quoted_bind, erule moved_ready)
  subgoal by (auto simp: counts_def moved_def)
  apply (rule take_bind, erule moved_ready)
  subgoal
    apply (simp, rule keyword_safe, erule moved_ready)
    by (auto simp: counts_def moved_def split: list.splits)
  apply simp
  apply (rule take_bind, erule moved_ready)
  subgoal
    apply (simp, rule keyword_safe, erule moved_ready)
    by (auto simp: counts_def moved_def split: list.splits)
  by (simp add: moved_ready)

lemma pipeline_loop_safe:
  assumes "ready source self" "names_ok alnum e"
  shows "safe source (\<lambda>(e', self'). moved source self 0 (expression_nodes e' - expression_nodes e) self' \<and>
      expression_nodes e \<le> expression_nodes e' \<and> names_ok alnum e') (pipeline_loop alnum source expression e self)"
  using assms
proof (induction "str_len source - ps_offset self" arbitrary: self e rule: less_induct)
  case less
  let ?Q = "\<lambda>(e', self'). moved source self 0 (expression_nodes e' - expression_nodes e) self' \<and>
      expression_nodes e \<le> expression_nodes e' \<and> names_ok alnum e'"
  have again: "safe source ?Q (pipeline_loop alnum source expression (Call f (e # es)) self1)"
    if m: "moved source self 2 (1 + sum_list (map expression_nodes es)) self1" and ok: "name_ok alnum f" "list_all (names_ok alnum) es" for f es self1
  proof -
    have "ps_offset self1 \<le> str_len source" using moved_ready [OF m] by (auto simp: ready_def dest: at_bound)
    then have "str_len source - ps_offset self1 < str_len source - ps_offset self" using m unfolding moved_def by linarith
    moreover have "names_ok alnum (Call f (e # es))" using less (3) ok by simp
    ultimately show ?thesis
      by (rule safe_mono [OF less (1) [OF _ moved_ready [OF m]]]) (use m in \<open>auto simp: moved_def\<close>)
  qed
  show ?case
    unfolding pipeline_loop.simps [of alnum source expression e]
    apply (rule take_bind [OF less (2)])
    subgoal for self1
      apply simp
      apply (rule whitespace_bind, erule moved_ready)
      apply (rule take_bind, erule moved_ready)
       apply simp
       apply (rule name_bind [where alnum = alnum], erule moved_ready)
       apply simp
       apply (rule count_bind, erule moved_ready)
       apply (rule whitespace_bind, erule moved_ready)
       apply (rule take_bind, erule moved_ready)
      subgoal
        apply (simp, rule arguments_bind, erule moved_ready)
        apply (simp add: Let_def moved_ready del: expression_depth.simps, rule impI)
        apply (rule whitespace_bind, erule moved_ready)
        by (rule again) (auto simp: moved_def ascii_def len_utf8_def)
      subgoal
        apply (simp add: Let_def moved_ready del: expression_depth.simps, rule impI)
        apply (rule whitespace_bind, erule moved_ready)
        by (rule again) (auto simp: moved_def ascii_def len_utf8_def)
      by (simp add: moved_ready)
    using less (2,3) by (simp add: moved_def)
qed

end

lemma parse_expression_safe: "ready source self \<Longrightarrow> safe source (counts alnum source self) (parse_expression alnum source levels self)"
proof (induction levels arbitrary: self)
  case (Suc levels)
  have level: "level_parser alnum source (parse_expression alnum source levels)"
    by unfold_locales (rule Suc.IH)
  show ?case
    unfolding parse_expression.simps
  proof (rule safe_bind [OF level_parser.parse_atom_safe [OF level Suc.prems]], clarify)
    fix e self1
    assume "counts alnum source self (e, self1)"
    then have e: "moved source self 0 (expression_nodes e) self1" "names_ok alnum e" by (simp_all add: counts_def)
    show "safe source (counts alnum source self) (run_bind (Some (whitespace source self1))
        (pipeline_loop alnum source (parse_expression alnum source levels) e))"
    proof (rule whitespace_bind [OF moved_ready [OF e (1)]])
      fix self2
      assume m: "moved source self1 0 0 self2"
      show "safe source (counts alnum source self) (pipeline_loop alnum source (parse_expression alnum source levels) e self2)"
        by (rule safe_mono [OF level_parser.pipeline_loop_safe [OF level moved_ready [OF m] e (2)]])
          (use e m in \<open>auto simp: counts_def moved_def\<close>)
    qed
  qed
qed simp

interpretation expression_level: level_parser alnum source "parse_expression alnum source levels" for alnum source levels
  by unfold_locales (rule parse_expression_safe)

section \<open>Printing\<close>

text \<open>A canonical notation for expressions, which quotes every name.\<close>

definition escape_char :: "nat \<Rightarrow> ustr" where
  "escape_char c =
     (if c = 0x22 \<or> c = 0x5C then [0x5C, c] else if c = 10 then ascii [CHR 0x5C, CHR ''n'']
      else if c = 13 then ascii [CHR 0x5C, CHR ''r''] else [c])"

definition quote_text :: "ustr \<Rightarrow> ustr" where
  "quote_text t = [0x22] @ concat (map escape_char t) @ [0x22]"

fun commas :: "ustr list \<Rightarrow> ustr" where
  "commas [] = []"
| "commas [a] = a"
| "commas (a # as) = a @ ascii '','' @ commas as"

fun print_expression :: "neural_expression \<Rightarrow> ustr" where
  "print_expression (Reference n) = ascii ''@'' @ quote_text n"
| "print_expression (Literal t) = quote_text t"
| "print_expression (Call f es) = ascii ''@'' @ quote_text f @ ascii ''('' @ commas (map print_expression es) @ ascii '')''"
| "print_expression (Find s q) = ascii ''find('' @ commas [print_expression s, print_expression q] @ ascii '')''"
| "print_expression (Count s) = ascii ''count('' @ commas [print_expression s] @ ascii '')''"

fun names_printable :: "neural_expression \<Rightarrow> bool" where
  "names_printable (Call f es) \<longleftrightarrow> \<not> blank f \<and> list_all names_printable es"
| "names_printable (Find s q) \<longleftrightarrow> names_printable s \<and> names_printable q"
| "names_printable (Count s) \<longleftrightarrow> names_printable s"
| "names_printable (Reference n) \<longleftrightarrow> \<not> blank n"
| "names_printable (Literal t) \<longleftrightarrow> True"

definition shift :: "nat \<Rightarrow> nat \<Rightarrow> parser \<Rightarrow> parser" where
  "shift k n self = self\<lparr>ps_offset := ps_offset self + k, ps_nodes := ps_nodes self + n\<rparr>"

lemma shift_simps [simp]:
  "shift k n (shift k' n' self) = shift (k' + k) (n' + n) self" "advance k self = shift k 0 self"
  "ps_nodes (shift k n self) = ps_nodes self + n" "ps_offset (shift k n self) = ps_offset self + k"
  by (simp_all add: shift_def advance_def)

lemma at_shift: "at source self (cs @ rest) \<Longrightarrow> at source (shift (str_len cs) n self) rest"
  using at_advance [of source self cs rest] by (simp add: shift_def advance_def at_def)

definition plain_start :: "ustr \<Rightarrow> bool" where
  "plain_start rest \<longleftrightarrow> rest = [] \<or> \<not> is_whitespace (hd rest)"

lemma whitespace_plain: "at source self rest \<Longrightarrow> plain_start rest \<Longrightarrow> whitespace source self = Ok self"
  by (cases rest) (auto simp: whitespace_def plain_start_def trim_start_def shift_def)

lemma take_token_at:
  "at source self rest \<Longrightarrow>
   take_token source token self = Ok (if starts_with rest token then (True, shift (str_len token) 0 self) else (False, self))"
  by (simp add: take_token_def)

lemma count_node_Ok: "ps_nodes self < MAX_NEURAL_NODES \<Longrightarrow> count_node self = Ok (shift 0 1 self)"
  by (simp add: count_node_def shift_def)

lemma quoted_loop_print:
  "at source self (concat (map escape_char t) @ 0x22 # rest) \<Longrightarrow>
   quoted_loop source 0x22 t0 self = Ok (t0 @ t, shift (str_len (concat (map escape_char t)) + 1) 0 self)"
proof (induction t arbitrary: t0 self)
  case Nil
  then show ?case by (simp add: quoted_loop.simps [of _ _ _ self] len_utf8_def)
next
  case (Cons c t)
  let ?more = "concat (map escape_char t) @ 0x22 # rest"
  have "at source self (escape_char c @ ?more)" using Cons.prems by simp
  then have "at source (shift (str_len (escape_char c)) 0 self) ?more" by (rule at_shift)
  note IH = Cons.IH [OF this]
  show ?case
  proof (cases "escape_char c = [c]")
    case True
    then have "c \<noteq> 0x22" "c \<noteq> 0x5C" "c \<noteq> 10" "c \<noteq> 13" by (auto simp: escape_char_def ascii_def split: if_splits)
    then show ?thesis using Cons.prems IH [of "t0 @ [c]"] True by (simp add: quoted_loop.simps [of _ _ _ self] Let_def add.assoc)
  next
    case False
    then obtain d where d: "escape_char c = [0x5C, d]" "unescape d = Some c"
      by (auto simp: escape_char_def ascii_def unescape_def split: if_splits)
    have r: "remaining source self = Ok (0x5C # d # ?more)" using Cons.prems d by simp
    have r': "remaining source (shift 1 0 self) = Ok (d # ?more)"
      using at_shift [of source self "[0x5C]" "d # ?more" 0] Cons.prems d by (simp add: len_utf8_def)
    show ?thesis using IH [of "t0 @ [c]"] d r r'
      by (simp add: quoted_loop.simps [of _ _ _ self] Let_def len_utf8_def add.assoc)
  qed
qed

lemma quoted_print:
  assumes "at source self (quote_text t @ rest)"
  shows "quoted source self = Ok (t, shift (str_len (quote_text t)) 0 self)"
proof -
  have q: "at source self (0x22 # concat (map escape_char t) @ 0x22 # rest)" using assms by (simp add: quote_text_def)
  then have "at source (shift 1 0 self) (concat (map escape_char t) @ 0x22 # rest)"
    using at_shift [of source self "[0x22]" _ 0] by (simp add: len_utf8_def)
  from quoted_loop_print [OF this, of "[]"] show ?thesis
    by (simp add: quoted_def take_token_at [OF q] starts_with_def len_utf8_def quote_text_def add.assoc)
qed

lemma document_name_print:
  assumes "at source self (quote_text n @ rest)" "\<not> blank n"
  shows "document_name alnum source self = Ok (n, shift (str_len (quote_text n)) 0 self)"
proof -
  have "starts_with (quote_text n @ rest) [0x22]" by (simp add: starts_with_def quote_text_def)
  then show ?thesis using assms quoted_print [OF assms (1)] by (simp add: document_name_def)
qed

text \<open>What may follow an expression without becoming part of it.\<close>

definition follows :: "ustr \<Rightarrow> bool" where
  "follows rest \<longleftrightarrow> rest = [] \<or> hd rest \<in> set (ascii '',)'')"

lemma follows_plain: "follows rest \<Longrightarrow> plain_start rest"
  by (auto simp: follows_def plain_start_def ascii_def is_whitespace_def)

lemma follows_not:
  "follows rest \<Longrightarrow> \<not> starts_with rest (ascii ''('')" "follows rest \<Longrightarrow> \<not> starts_with rest (ascii ''|>'')"
  by (cases rest; auto simp: follows_def starts_with_def ascii_def)+

lemma print_first: "\<exists>c cs. print_expression e = c # cs \<and> c \<in> set (ascii ''@fc'') \<union> {0x22}"
  by (cases e) (auto simp: ascii_def quote_text_def)

lemma print_plain: "plain_start (print_expression e @ rest)"
  using print_first [of e] by (auto simp: plain_start_def ascii_def is_whitespace_def)

definition prints_back :: "ustr \<Rightarrow> (parser \<Rightarrow> (neural_expression \<times> parser) parsed option) \<Rightarrow> neural_expression \<Rightarrow> bool" where
  "prints_back source expression e \<longleftrightarrow>
     (\<forall>self rest. at source self (print_expression e @ rest) \<longrightarrow> follows rest \<longrightarrow> ps_nodes self + expression_nodes e \<le> MAX_NEURAL_NODES \<longrightarrow>
        expression self = Some (Ok (e, shift (str_len (print_expression e)) (expression_nodes e) self)))"

lemma arguments_loop_print:
  assumes "\<forall>e \<in> set es. prints_back source expression e" "es \<noteq> []"
    and "at source self (commas (map print_expression es) @ ascii '')'' @ rest)"
    and "ps_nodes self + sum_list (map expression_nodes es) \<le> MAX_NEURAL_NODES"
  shows "arguments_loop source expression acc self =
    Some (Ok (acc @ es, shift (str_len (commas (map print_expression es)) + 1) (sum_list (map expression_nodes es)) self))"
  using assms
proof (induction es arbitrary: acc self)
  case (Cons e es)
  define tail where "tail = (if es = [] then ascii '')'' @ rest else ascii '','' @ commas (map print_expression es) @ ascii '')'' @ rest)"
  have "commas (map print_expression (e # es)) @ ascii '')'' @ rest = print_expression e @ tail"
    by (cases es) (simp_all add: tail_def)
  then have here: "at source self (print_expression e @ tail)" using Cons.prems (3) by simp
  define self1 where "self1 = shift (str_len (print_expression e)) (expression_nodes e) self"
  have tail: "at source self1 tail" unfolding self1_def using at_shift [OF here] .
  have follow: "follows tail" by (simp add: tail_def follows_def ascii_def)
  have step: "expression self = Some (Ok (e, self1))"
    using Cons.prems (1,4) here follow unfolding prints_back_def self1_def by simp
  note ws = whitespace_plain [OF tail follows_plain [OF follow]]
  show ?case
  proof (cases "es = []")
    case True
    then show ?thesis
      using step ws take_token_at [OF tail]
      by (simp add: arguments_loop.simps [of _ _ _ self] tail_def starts_with_def ascii_def self1_def len_utf8_def)
  next
    case False
    define self2 where "self2 = shift 1 0 self1"
    have "at source self2 (commas (map print_expression es) @ ascii '')'' @ rest)"
      using at_shift [of source self1 "ascii '',''" _ 0] tail False by (simp add: tail_def self2_def ascii_def len_utf8_def)
    from Cons.IH [OF _ False this, of "acc @ [e]"] have "arguments_loop source expression (acc @ [e]) self2 =
        Some (Ok (acc @ e # es, shift (str_len (commas (map print_expression es)) + 1) (sum_list (map expression_nodes es)) self2))"
      using Cons.prems (1,4) by (simp add: self2_def self1_def)
    moreover have "commas (map print_expression (e # es)) = print_expression e @ ascii '','' @ commas (map print_expression es)"
      using False by (cases es) simp_all
    ultimately show ?thesis
      using step ws take_token_at [OF tail] False
      by (simp add: arguments_loop.simps [of _ _ _ self] tail_def starts_with_def ascii_def self1_def self2_def len_utf8_def add.assoc)
  qed
qed simp

lemma parse_arguments_print:
  assumes "\<forall>e \<in> set es. prints_back source expression e"
    and "at source self (commas (map print_expression es) @ ascii '')'' @ rest)"
    and "ps_nodes self + sum_list (map expression_nodes es) \<le> MAX_NEURAL_NODES"
  shows "parse_arguments source expression self =
    Some (Ok (es, shift (str_len (commas (map print_expression es)) + 1) (sum_list (map expression_nodes es)) self))"
proof (cases es)
  case Nil
  have "plain_start (ascii '')'' @ rest)" by (simp add: plain_start_def ascii_def is_whitespace_def)
  then show ?thesis
    using assms (2) whitespace_plain take_token_at Nil by (simp add: parse_arguments_def starts_with_def ascii_def len_utf8_def)
next
  case (Cons e es')
  then obtain more where more: "commas (map print_expression es) @ ascii '')'' @ rest = print_expression e @ more"
    by (cases es') simp_all
  then have "\<not> starts_with (commas (map print_expression es) @ ascii '')'' @ rest) (ascii '')'')"
    using print_first [of e] by (auto simp: starts_with_def ascii_def)
  then show ?thesis
    using whitespace_plain [OF assms (2)] print_plain [of e more] more take_token_at [OF assms (2)] arguments_loop_print [OF assms (1) _ assms (2,3), of "[]"] Cons
    by (simp add: parse_arguments_def)
qed

text \<open>An atom parses back, given that the parser of the next level does so on its parts.\<close>

fun parts :: "neural_expression \<Rightarrow> neural_expression list" where
  "parts (Call f es) = es"
| "parts (Find s q) = [s, q]"
| "parts (Count s) = [s]"
| "parts _ = []"

lemma parse_atom_named:
  assumes "at source self (ascii ''@'' @ quote_text n @ rest)" "\<not> blank n" "ps_nodes self < MAX_NEURAL_NODES" "plain_start rest"
  shows "parse_atom alnum source expression self =
    (let self = shift (str_len (quote_text n) + 1) 1 self in
     if starts_with rest (ascii ''('') then
       run_bind (parse_arguments source expression (shift 1 0 self)) (\<lambda>(arguments, self). Some (Ok (Call n arguments, self)))
     else Some (Ok (Reference n, self)))"
proof -
  let ?self = "shift 0 1 self"
  have "plain_start (ascii ''@'' @ quote_text n @ rest)" by (simp add: plain_start_def ascii_def is_whitespace_def)
  note ws = whitespace_plain [OF assms (1) this]
  have a: "at source ?self (ascii ''@'' @ quote_text n @ rest)" using assms (1) by (simp add: at_def)
  have b: "at source (shift 1 1 self) (quote_text n @ rest)" using at_shift [OF assms (1), of 1] by (simp add: ascii_def len_utf8_def)
  have c: "at source (shift (1 + str_len (quote_text n)) 1 self) rest" using at_shift [OF b, of 0] by simp
  show ?thesis
    using ws count_node_Ok [OF assms (3)] take_token_at [OF a] document_name_print [OF b assms (2)] whitespace_plain [OF c assms (4)] take_token_at [OF c]
    by (simp add: parse_atom_def starts_with_def ascii_def len_utf8_def Let_def)
qed

lemma parse_atom_keyword:
  assumes "at source self (ascii (w @ ''('') @ rest)" "w = ''find'' \<or> w = ''count''" "ps_nodes self < MAX_NEURAL_NODES"
  shows "parse_atom alnum source expression self =
    run_bind (parse_arguments source expression (shift (length w + 1) 1 self)) (\<lambda>(es, self).
      if w = ''find'' then (case es of [s, q] \<Rightarrow> Some (Ok (Find s q, self)) | _ \<Rightarrow> Some (parser_error self ''find requires a source and a query''))
      else (case es of [s] \<Rightarrow> Some (Ok (Count s, self)) | _ \<Rightarrow> Some (parser_error self ''count requires exactly one library source'')))"
proof -
  let ?self = "shift 0 1 self"
  have "plain_start (ascii (w @ ''('') @ rest)" using assms (2) by (auto simp: plain_start_def ascii_def is_whitespace_def)
  note ws = whitespace_plain [OF assms (1) this]
  have a: "at source ?self (ascii (w @ ''('') @ rest)" using assms (1) by (simp add: at_def)
  have b: "at source (shift (length w) 1 self) (ascii ''('' @ rest)"
    using at_shift [of source self "ascii w" "ascii ''('' @ rest" 1] assms (1,2) by (auto simp: ascii_def len_utf8_def)
  have "plain_start (ascii ''('' @ rest)" by (simp add: plain_start_def ascii_def is_whitespace_def)
  note ws' = whitespace_plain [OF b this]
  show ?thesis
    using assms (2) ws count_node_Ok [OF assms (3)] a take_token_at [OF a] ws' take_token_at [OF b]
    by (auto simp: parse_atom_def starts_with_def ascii_def len_utf8_def)
qed

lemma parse_atom_print:
  assumes parts: "\<forall>e' \<in> set (parts e). prints_back source expression e'"
    and e: "names_printable e" "at source self (print_expression e @ rest)" "follows rest" "ps_nodes self + expression_nodes e \<le> MAX_NEURAL_NODES"
  shows "parse_atom alnum source expression self = Some (Ok (e, shift (str_len (print_expression e)) (expression_nodes e) self))"
proof -
  have nodes: "ps_nodes self < MAX_NEURAL_NODES" using e (4) by (cases e) simp_all
  have paren: "plain_start (ascii ''('' @ r)" for r by (simp add: plain_start_def ascii_def is_whitespace_def)
  note args = parse_arguments_print [OF parts]
  show ?thesis
  proof (cases e)
    case (Reference n)
    then show ?thesis
      using parse_atom_named [OF _ _ nodes follows_plain [OF e (3)], of source n] e follows_not (1) [OF e (3)]
      by (simp add: ascii_def len_utf8_def)
  next
    case (Literal t)
    have "plain_start (quote_text t @ rest)" "starts_with (quote_text t @ rest) [0x22]" "\<not> starts_with (quote_text t @ rest) (ascii ''@'')"
      by (simp_all add: plain_start_def quote_text_def is_whitespace_def starts_with_def ascii_def)
    moreover have "at source self (quote_text t @ rest)" "at source (shift 0 1 self) (quote_text t @ rest)"
      using e (2) Literal by (simp_all add: at_def)
    ultimately show ?thesis
      using Literal whitespace_plain [of source self] count_node_Ok [OF nodes] take_token_at [of source "shift 0 1 self"] quoted_print [of source "shift 0 1 self"]
      by (simp add: parse_atom_def)
  next
    case (Call f es)
    let ?rest = "commas (map print_expression es) @ ascii '')'' @ rest"
    have a: "at source self (ascii ''@'' @ quote_text f @ ascii ''('' @ ?rest)" using e (2) Call by simp
    have "at source (shift (str_len (ascii ''@'' @ quote_text f @ ascii ''('')) 1 self) ?rest"
      using at_shift [of source self "ascii ''@'' @ quote_text f @ ascii ''(''" ?rest 1] a by simp
    then have b: "at source (shift (str_len (quote_text f) + 2) 1 self) ?rest" by (simp add: ascii_def len_utf8_def)
    show ?thesis
      using parse_atom_named [OF a _ nodes paren] args [of _ rest] b e (1,4) Call
      by (simp add: Let_def starts_with_def ascii_def len_utf8_def)
  next
    case (Find s q)
    let ?rest = "commas (map print_expression [s, q]) @ ascii '')'' @ rest"
    have a: "at source self (ascii (''find'' @ ''('') @ ?rest)" using e (2) Find by simp
    then have "at source (shift (length ''find'' + 1) 1 self) ?rest"
      using at_shift [of source self "ascii (''find'' @ ''('')" ?rest 1] by (simp add: ascii_def len_utf8_def)
    then show ?thesis
      using parse_atom_keyword [OF a _ nodes] args [of "shift (length ''find'' + 1) 1 self" rest] e (4) Find
      by (simp add: ascii_def len_utf8_def)
  next
    case (Count s)
    let ?rest = "commas (map print_expression [s]) @ ascii '')'' @ rest"
    have a: "at source self (ascii (''count'' @ ''('') @ ?rest)" using e (2) Count by simp
    then have "at source (shift (length ''count'' + 1) 1 self) ?rest"
      using at_shift [of source self "ascii (''count'' @ ''('')" ?rest 1] by (simp add: ascii_def len_utf8_def)
    then show ?thesis
      using parse_atom_keyword [OF a _ nodes] args [of "shift (length ''count'' + 1) 1 self" rest] e (4) Count
      by (simp add: ascii_def len_utf8_def)
  qed
qed

lemma depth_parts: "e' \<in> set (parts e) \<Longrightarrow> expression_depth e' < expression_depth e"
proof (cases e)
  case (Call f es)
  have "x \<in> set es \<Longrightarrow> expression_depth x \<le> foldr max (map expression_depth es) 0" for x
    by (induction es) auto
  then show "e' \<in> set (parts e) \<Longrightarrow> expression_depth e' < expression_depth e" using Call by (simp add: le_imp_less_Suc)
qed auto

lemma printable_parts: "names_printable e \<Longrightarrow> e' \<in> set (parts e) \<Longrightarrow> names_printable e'"
  by (cases e) (auto simp: list_all_iff)

lemma parse_expression_print:
  "expression_depth e \<le> levels \<Longrightarrow> names_printable e \<Longrightarrow> prints_back source (parse_expression alnum source levels) e"
proof (induction levels arbitrary: e)
  case 0
  then show ?case by (cases e) simp_all
next
  case (Suc levels)
  have parts: "\<forall>e' \<in> set (parts e). prints_back source (parse_expression alnum source levels) e'"
    using Suc.IH depth_parts printable_parts Suc.prems by (metis le_trans less_Suc_eq_le Suc_leI Suc_le_mono)
  show ?case
    unfolding prints_back_def
  proof (intro allI impI)
    fix self rest
    assume a: "at source self (print_expression e @ rest)" and f: "follows rest" and n: "ps_nodes self + expression_nodes e \<le> MAX_NEURAL_NODES"
    let ?self = "shift (str_len (print_expression e)) (expression_nodes e) self"
    have rest: "at source ?self rest" using at_shift [OF a] .
    show "parse_expression alnum source (Suc levels) self = Some (Ok (e, ?self))"
      using parse_atom_print [OF parts Suc.prems (2) a f n] whitespace_plain [OF rest follows_plain [OF f]] take_token_at [OF rest] follows_not (2) [OF f]
      by (simp add: pipeline_loop.simps [of _ _ _ _ ?self])
  qed
qed

section \<open>The first byte of a command\<close>

lemma ascii_byte: "b < 128 \<Longrightarrow> encode_char c ! 0 = b \<longleftrightarrow> c = b"
  by (auto simp: encode_char_def)

lemma byte_at_boundary:
  assumes "b < 128"
  shows "byte_at (before @ rest) (str_len before) = Some b \<longleftrightarrow> starts_with rest [b]"
proof (cases rest)
  case (Cons c tail)
  have "as_bytes (before @ rest) ! str_len before = encode_char c ! 0"
    using Cons length_encode_char [of c] len_utf8_pos [of c] by (simp add: as_bytes_def nth_append length_as_bytes [unfolded as_bytes_def])
  moreover have "str_len before < length (as_bytes (before @ rest))"
    using Cons len_utf8_pos [of c] by (simp add: length_as_bytes)
  ultimately show ?thesis using ascii_byte [OF assms, of c] Cons by (auto simp: byte_at_def starts_with_def)
qed (simp add: byte_at_def length_as_bytes starts_with_def)

lemma command_start:
  obtains ws where "source = ws @ trim_start source" "str_len source - str_len (trim_start source) = str_len ws"
    and "byte_at source (str_len ws) = Some (of_char (CHR ''='')) \<longleftrightarrow> starts_with (trim_start source) (ascii ''='')"
proof -
  obtain ws where ws: "source = ws @ trim_start source" using trim_start_split by blast
  then have "str_len source = str_len ws + str_len (trim_start source)" by (metis str_len_simps (3))
  then show thesis using that [OF ws] byte_at_boundary [of "of_char (CHR ''='')" ws "trim_start source"] ws by (simp add: ascii_def)
qed

section \<open>Properties\<close>

text \<open>C29. The command parser is total and bounded: for every input it returns, without slicing inside a character.
  An input above the byte limit is refused; otherwise it is an ordinary prompt, kept unchanged, exactly when its first
  character after white space is not an equals sign. An error points into the input. An accepted expression nests at
  most sixteen levels, has at most 256 nodes counted over the whole tree, pipelines included, and no empty name.\<close>

theorem parse_command_sound:
  "\<exists>r. parse_neural_command alnum source = Some r \<and>
     (case r of
        Err Slice_Panic \<Rightarrow> False
      | Err (Syntax_Error n message) \<Rightarrow> n \<le> str_len source \<and> (MAX_NEURAL_COMMAND_BYTES < str_len source \<or> starts_with (trim_start source) (ascii ''=''))
      | Ok (Prompt t) \<Rightarrow> t = source \<and> str_len source \<le> MAX_NEURAL_COMMAND_BYTES \<and> \<not> starts_with (trim_start source) (ascii ''='')
      | Ok (Expression e) \<Rightarrow> str_len source \<le> MAX_NEURAL_COMMAND_BYTES \<and> starts_with (trim_start source) (ascii ''='') \<and>
          expression_depth e \<le> MAX_NEURAL_DEPTH \<and> expression_nodes e \<le> MAX_NEURAL_NODES \<and> names_ok alnum e)"
proof -
  obtain ws where ws: "source = ws @ trim_start source" "str_len source - str_len (trim_start source) = str_len ws"
      "byte_at source (str_len ws) = Some (of_char (CHR ''='')) \<longleftrightarrow> starts_with (trim_start source) (ascii ''='')" using command_start .
  let ?start = "\<lparr>ps_offset = str_len ws + 1, ps_nodes = 0\<rparr>"
  let ?Q = "\<lambda>c. \<exists>e. c = Expression e \<and> expression_depth e \<le> MAX_NEURAL_DEPTH \<and> expression_nodes e \<le> MAX_NEURAL_NODES \<and> names_ok alnum e"
  show ?thesis
  proof (cases "str_len source \<le> MAX_NEURAL_COMMAND_BYTES \<and> starts_with (trim_start source) (ascii ''='')")
    case True
    then obtain rest where "trim_start source = ascii ''='' @ rest" unfolding starts_with_iff by blast
    then have "source = (ws @ ascii ''='') @ rest" using ws (1) by simp
    then have "ready source ?start" unfolding ready_def at_def
      by (intro conjI exI [of _ rest] exI [of _ "ws @ ascii ''=''"]) (simp_all add: ascii_def len_utf8_def)
    note parse = safe_bind [OF expression_level.expression_safe [OF this]]
    have "safe source ?Q (run_bind (parse_expression alnum source MAX_NEURAL_DEPTH ?start) (\<lambda>(e, self).
        run_bind (Some (whitespace source self)) (\<lambda>self.
          if ps_offset self \<noteq> str_len source then Some (parser_error self ''expected the end of the expression'')
          else if MAX_NEURAL_DEPTH < expression_depth e then Some (parser_error self ''expression nesting exceeds the limit'')
          else Some (Ok (Expression e)))))"
      by (rule parse, clarsimp simp: counts_def, rule whitespace_bind, erule moved_ready) (auto simp: moved_def ready_def)
    then have "safe source ?Q (parse_neural_command alnum source)"
      using True ws (2,3) by (simp add: parse_neural_command_def check_size_def Let_def)
    then show ?thesis using True unfolding safe_def by fastforce
  next
    case False
    then show ?thesis using ws (2,3) by (auto simp: parse_neural_command_def check_size_def Let_def)
  qed
qed

text \<open>C30. Every expression within the limits has a notation that the parser reads back: printing an expression with
  all names quoted and all special characters escaped, and parsing the result, gives the expression again.\<close>

theorem parse_print_roundtrip:
  assumes "names_printable e" "expression_depth e \<le> MAX_NEURAL_DEPTH" "expression_nodes e \<le> MAX_NEURAL_NODES"
    and "str_len (print_expression e) < MAX_NEURAL_COMMAND_BYTES"
  shows "parse_neural_command alnum (ascii ''='' @ print_expression e) = Some (Ok (Expression e))"
proof -
  let ?source = "ascii ''='' @ print_expression e" and ?start = "\<lparr>ps_offset = 1, ps_nodes = 0\<rparr>"
  have trim: "trim_start ?source = ?source" by (simp add: trim_start_def ascii_def is_whitespace_def)
  have eq: "byte_at ?source 0 = Some (of_char (CHR ''=''))"
    using byte_at_boundary [of "of_char (CHR ''='')" "[]" ?source] by (simp add: starts_with_def ascii_def)
  have size: "check_size ?source MAX_NEURAL_COMMAND_BYTES = Ok ()" using assms (4) by (simp add: check_size_def ascii_def len_utf8_def)
  have a: "at ?source ?start (print_expression e @ [])" unfolding at_def by (intro exI [of _ "ascii ''=''"]) (simp add: ascii_def len_utf8_def)
  have "follows []" by (simp add: follows_def)
  then have e: "parse_expression alnum ?source MAX_NEURAL_DEPTH ?start = Some (Ok (e, shift (str_len (print_expression e)) (expression_nodes e) ?start))"
    using parse_expression_print [OF assms (2,1), of ?source alnum, unfolded prints_back_def, rule_format, OF a] assms (3) by simp
  have "whitespace ?source (shift (str_len (print_expression e)) (expression_nodes e) ?start) = Ok (shift (str_len (print_expression e)) (expression_nodes e) ?start)"
    using whitespace_plain [OF at_shift [OF a]] by (simp add: plain_start_def)
  then show ?thesis
    using e size eq assms (2) unfolding parse_neural_command_def trim by (simp add: ascii_def len_utf8_def)
qed

theorem parse_print_roundtrip_witness:
  "parse_neural_command (\<lambda>c. False) (ascii ''='' @ print_expression (Call (ascii ''edit it'') [Find (Reference [233]) (Literal [34, 10, 92]), Count (Reference (ascii ''b''))])) =
     Some (Ok (Expression (Call (ascii ''edit it'') [Find (Reference [233]) (Literal [34, 10, 92]), Count (Reference (ascii ''b''))])))"
  by (rule parse_print_roundtrip) code_simp+

end
