(* ===== verification/Document_References.thy ===== *)
theory Document_References
  imports Reference_Grammar
begin

text \<open>
  Finding document references in Markdown prose, the other half of
  \<open>crates/workspace-document/src/reference_grammar.rs\<close>: mentions and retained-identity links outside of code, quotes and
  escapes, and the rendering of a document function as a prompt.

  The grammar of what a reference is stands on its own, in inductive definitions; the proofs relate the scanner to it.
  Bytes are those of the UTF-8 encoding. Hash maps are partial maps. A slice off a character boundary is again the
  failure \<open>Slice_Panic\<close>, and so is an \<open>expect\<close> that fails; a loop that does not return is \<open>None\<close>.
\<close>

section \<open>Data\<close>

record document_reference =
  dr_name :: ustr
  dr_range :: "nat \<times> nat"

section \<open>Delimiters\<close>

fun delimiters_from :: "nat \<Rightarrow> ustr \<Rightarrow> nat list \<Rightarrow> nat list \<Rightarrow> (nat \<rightharpoonup> nat) \<Rightarrow> (nat \<rightharpoonup> nat)" where
  "delimiters_from n [] brackets parentheses found = found"
| "delimiters_from n (c # s) brackets parentheses found =
     (let next = n + len_utf8 c in
      if c = of_char (CHR 0x5C) then
        (case s of [] \<Rightarrow> found | d # s' \<Rightarrow> delimiters_from (next + len_utf8 d) s' brackets parentheses found)
      else if c = of_char (CHR ''['') then delimiters_from next s (n # brackets) parentheses found
      else if c = of_char (CHR ''('') then delimiters_from next s brackets (n # parentheses) found
      else if c = of_char (CHR '']'') then
        (case brackets of
           [] \<Rightarrow> delimiters_from next s brackets parentheses found
         | start # brackets \<Rightarrow> delimiters_from next s brackets parentheses (found(start \<mapsto> n)))
      else if c = of_char (CHR '')'') then
        (case parentheses of
           [] \<Rightarrow> delimiters_from next s brackets parentheses found
         | start # parentheses \<Rightarrow> delimiters_from next s brackets parentheses (found(start \<mapsto> n)))
      else delimiters_from next s brackets parentheses found)"

definition matching_link_delimiters :: "ustr \<Rightarrow> (nat \<rightharpoonup> nat)" where
  "matching_link_delimiters line = delimiters_from 0 line [] [] Map.empty"

text \<open>The start of the last run of backticks of every length.\<close>

function tick_runs_from :: "bytes \<Rightarrow> nat \<Rightarrow> (nat \<rightharpoonup> nat) \<Rightarrow> (nat \<rightharpoonup> nat)" where
  "tick_runs_from [] n runs = runs"
| "tick_runs_from (b # bs) n runs =
     (if b \<noteq> of_char (CHR 0x60) then tick_runs_from bs (n + 1) runs
      else let count = length (takeWhile (\<lambda>x. x = of_char (CHR 0x60)) (b # bs))
           in tick_runs_from (drop count (b # bs)) (n + count) (runs(count \<mapsto> n)))"
  by pat_completeness auto
termination
  by (relation "measure (\<lambda>(bs, n, runs). length bs)") auto

definition last_tick_runs :: "ustr \<Rightarrow> (nat \<rightharpoonup> nat)" where
  "last_tick_runs source = tick_runs_from (as_bytes source) 0 Map.empty"

section \<open>Links\<close>

definition is_ascii_digit :: "nat \<Rightarrow> bool" where
  "is_ascii_digit c \<longleftrightarrow> of_char (CHR ''0'') \<le> c \<and> c \<le> of_char (CHR ''9'')"

text \<open>\<open>u8::from_str_radix(_, 16)\<close>, which takes digits of either case and a leading plus sign.\<close>

definition hex_digit :: "nat \<Rightarrow> nat option" where
  "hex_digit c =
     (if is_ascii_digit c then Some (c - of_char (CHR ''0''))
      else if of_char (CHR ''a'') \<le> c \<and> c \<le> of_char (CHR ''f'') then Some (c - of_char (CHR ''a'') + 10)
      else if of_char (CHR ''A'') \<le> c \<and> c \<le> of_char (CHR ''F'') then Some (c - of_char (CHR ''A'') + 10)
      else None)"

fun hex_value :: "ustr \<Rightarrow> nat \<Rightarrow> nat option" where
  "hex_value [] acc = (if acc \<le> U8_MAX then Some acc else None)"
| "hex_value (c # cs) acc =
     (case hex_digit c of None \<Rightarrow> None | Some d \<Rightarrow> if U8_MAX < acc * 16 + d then None else hex_value cs (acc * 16 + d))"

definition u8_from_hex :: "ustr \<Rightarrow> nat option" where
  "u8_from_hex s =
     (case s of
        [] \<Rightarrow> None
      | c # cs \<Rightarrow> if c = of_char (CHR ''+'') \<and> cs \<noteq> [] then hex_value cs 0 else hex_value s 0)"

fun hex_bytes :: "ustr \<Rightarrow> bytes option" where
  "hex_bytes [] = Some []"
| "hex_bytes [c] = None"
| "hex_bytes (c # d # s) = Option.bind (u8_from_hex [c, d]) (\<lambda>b. Option.bind (hex_bytes s) (\<lambda>bs. Some (b # bs)))"

definition contains :: "ustr \<Rightarrow> ustr \<Rightarrow> bool" where
  "contains s token \<longleftrightarrow> list_ex (\<lambda>i. starts_with (drop i s) token) [0..<Suc (length s)]"

definition document_link_name :: "ustr \<Rightarrow> ustr option" where
  "document_link_name hex =
     Option.bind (hex_bytes hex) (\<lambda>bs. Option.bind (from_utf8 bs) (\<lambda>name.
       if contains name (ascii ''::'') \<and> \<not> list_ex is_control name then Some name else None))"

definition strip_prefix :: "ustr \<Rightarrow> ustr \<Rightarrow> ustr option" where
  "strip_prefix s token = (if starts_with s token then Some (drop (length token) s) else None)"

definition link_target :: "bool \<Rightarrow> bool \<Rightarrow> ustr \<Rightarrow> ustr option" where
  "link_target closed mention target =
     (case strip_prefix target (ascii ''loom-document:'') of
        Some hex \<Rightarrow>
          if closed \<and> mention \<and> str_len hex \<le> 8192 \<and> even (str_len hex) \<and> list_all (\<lambda>c. c < 128) hex
          then document_link_name hex else None
      | None \<Rightarrow>
          (case (case strip_prefix target (ascii ''loom-material:'') of
                   Some v \<Rightarrow> Some (case strip_prefix v (ascii ''material-'') of None \<Rightarrow> [] | Some h \<Rightarrow> h, ascii ''material-'')
                 | None \<Rightarrow> map_option (\<lambda>v. (v, ascii ''evidence/'')) (strip_prefix target (ascii ''loom-evidence:''))) of
             None \<Rightarrow> None
           | Some (hash, prefix) \<Rightarrow>
               if closed \<and> mention \<and> str_len hash = 64 \<and>
                  list_all (\<lambda>b. is_ascii_digit b \<or> of_char (CHR ''a'') \<le> b \<and> b \<le> of_char (CHR ''f'')) (as_bytes hash)
               then Some (prefix @ hash) else None))"

definition reference_link_at :: "ustr \<Rightarrow> nat \<Rightarrow> (nat \<rightharpoonup> nat) \<Rightarrow> (nat \<times> ustr option) option parsed" where
  "reference_link_at line start delimiters =
     (let image = (byte_at line start = Some (of_char (CHR ''!'')));
          label_start = start + (if image then 1 else 0)
      in if byte_at line label_start \<noteq> Some (of_char (CHR ''['')) then Ok None
         else case delimiters label_start of
           None \<Rightarrow> Ok None
         | Some label_end \<Rightarrow>
             (let target_start = label_end + 1 in
              if byte_at line target_start \<noteq> Some (of_char (CHR ''('')) then Ok None
              else
                let target_end = delimiters target_start;
                    link_end = (case target_end of None \<Rightarrow> str_len line | Some e \<Rightarrow> e + 1)
                in if image then Ok (Some (link_end, None))
                   else res_bind (ok_or Slice_Panic (str_get line (target_start + 1) (case target_end of None \<Rightarrow> str_len line | Some e \<Rightarrow> e))) (\<lambda>target.
                     Ok (Some (link_end, link_target (target_end \<noteq> None) (byte_at line (label_start + 1) = Some (of_char (CHR ''@''))) target)))))"

section \<open>Mentions\<close>

definition starts_reference :: "(nat \<Rightarrow> bool) \<Rightarrow> nat \<Rightarrow> nat option \<Rightarrow> bool" where
  "starts_reference alnum c previous \<longleftrightarrow>
     c = of_char (CHR ''@'') \<and> \<not> is_some_and (\<lambda>p. alnum p \<or> p \<in> set (ascii ''_./@-'')) previous"

definition push_reference :: "document_reference list \<Rightarrow> document_reference \<Rightarrow> document_reference list parsed" where
  "push_reference references reference =
     (if length references = MAX_NEURAL_NODES then Err (Syntax_Error (fst (dr_range reference)) ''too many document references'')
      else Ok (references @ [reference]))"

definition trim_end_dots :: "ustr \<Rightarrow> ustr" where
  "trim_end_dots s = rev (dropWhile (\<lambda>c. c = of_char (CHR ''.'')) (rev s))"

definition reference_at :: "(nat \<Rightarrow> bool) \<Rightarrow> ustr \<Rightarrow> nat \<Rightarrow> document_reference option parsed" where
  "reference_at alnum source start =
     (case document_name alnum source \<lparr>ps_offset = start + 1, ps_nodes = 0\<rparr> of
        Err Slice_Panic \<Rightarrow> Err Slice_Panic
      | Err (Syntax_Error n message) \<Rightarrow> Ok None
      | Ok (name, parser) \<Rightarrow>
          res_bind (ok_or Slice_Panic (str_from source (start + 1))) (\<lambda>rest.
            let quoted_name = starts_with rest [0x22] \<or> starts_with rest [0x201C];
                name' = (if quoted_name then name else trim_end_dots name);
                stop = (if quoted_name then ps_offset parser else ps_offset parser - (str_len name - str_len (trim_end_dots name)))
            in Ok (if name' = [] then None else Some \<lparr>dr_name = name', dr_range = (start, stop)\<rparr>)))"

text \<open>One round of the loop over a line: the next offset, the length of the open run of backticks, and the references.
  The source computes the delimiters once per line; they depend on the line only.\<close>

definition scan_step ::
  "(nat \<Rightarrow> bool) \<Rightarrow> ustr \<Rightarrow> (nat \<rightharpoonup> nat) \<Rightarrow> ustr \<Rightarrow> nat \<Rightarrow> nat \<Rightarrow> nat \<Rightarrow> document_reference list \<Rightarrow>
     (nat \<times> nat \<times> document_reference list) parsed" where
  "scan_step alnum source closing_ticks line line_start n inline_ticks references =
     res_bind (ok_or Slice_Panic (str_from line n)) (\<lambda>rest.
     res_bind (case rest of [] \<Rightarrow> Err Slice_Panic | c # _ \<Rightarrow> Ok c) (\<lambda>character.
     if character = of_char (CHR 0x60) then
       (let count = length (takeWhile (\<lambda>b. b = of_char (CHR 0x60)) (as_bytes rest))
        in Ok (n + count,
               if inline_ticks = count then 0
               else if inline_ticks = 0 \<and> is_some_and (\<lambda>last_run. line_start + n < last_run) (closing_ticks count) then count
               else inline_ticks, references))
     else if inline_ticks \<noteq> 0 then Ok (n + len_utf8 character, inline_ticks, references)
     else if character = of_char (CHR 0x5C) then Ok (n + str_len (take 2 rest), inline_ticks, references)
     else res_bind (if character = of_char (CHR ''['') \<or> character = of_char (CHR ''!'')
                    then reference_link_at line n (matching_link_delimiters line) else Ok None) (\<lambda>link.
       case link of
         Some (link_end, name) \<Rightarrow>
           (case name of
              None \<Rightarrow> Ok (link_end, inline_ticks, references)
            | Some name \<Rightarrow>
                res_bind (push_reference references \<lparr>dr_name = name, dr_range = (line_start + n, line_start + link_end)\<rparr>) (\<lambda>references.
                  Ok (link_end, inline_ticks, references)))
       | None \<Rightarrow>
           res_bind (ok_or Slice_Panic (str_get line 0 n)) (\<lambda>earlier.
             if \<not> starts_reference alnum character (if earlier = [] then None else Some (last earlier))
             then Ok (n + len_utf8 character, inline_ticks, references)
             else res_bind (reference_at alnum source (line_start + n)) (\<lambda>found.
               case found of
                 Some reference \<Rightarrow>
                   res_bind (push_reference references reference) (\<lambda>references.
                     Ok (snd (dr_range reference) - line_start, inline_ticks, references))
               | None \<Rightarrow> Ok (n + len_utf8 character, inline_ticks, references))))))"

partial_function (option) scan_line ::
  "(nat \<Rightarrow> bool) \<Rightarrow> ustr \<Rightarrow> (nat \<rightharpoonup> nat) \<Rightarrow> ustr \<Rightarrow> nat \<Rightarrow> nat \<Rightarrow> nat \<Rightarrow> document_reference list \<Rightarrow> (nat \<times> document_reference list) parsed option" where
  [code]: "scan_line alnum source closing_ticks line line_start n inline_ticks references =
     (if \<not> n < str_len line then Some (Ok (inline_ticks, references))
      else run_bind (Some (scan_step alnum source closing_ticks line line_start n inline_ticks references)) (\<lambda>(n, inline_ticks, references).
        scan_line alnum source closing_ticks line line_start n inline_ticks references))"

section \<open>Documents\<close>

fun scan_lines ::
  "(nat \<Rightarrow> bool) \<Rightarrow> ustr \<Rightarrow> (nat \<rightharpoonup> nat) \<Rightarrow> ustr list \<Rightarrow> (nat \<times> nat) option \<Rightarrow> nat \<Rightarrow> nat \<Rightarrow> document_reference list \<Rightarrow> document_reference list parsed option" where
  "scan_lines alnum source closing_ticks [] fence inline_ticks line_start references = Some (Ok references)"
| "scan_lines alnum source closing_ticks (line # lines) fence inline_ticks line_start references =
     (let trimmed = dropWhile (\<lambda>c. c = of_char (CHR '' '')) line;
          indent = str_len line - str_len trimmed;
          marker = byte_at trimmed 0;
          run = (case marker of None \<Rightarrow> 0 | Some byte \<Rightarrow> length (takeWhile (\<lambda>b. b = byte) (as_bytes trimmed)));
          after_line = line_start + str_len line
      in case fence of
        Some (byte, count) \<Rightarrow>
          if indent \<le> 3 \<and> marker = Some byte \<and> count \<le> run then
            run_bind (Some (ok_or Slice_Panic (str_from trimmed run))) (\<lambda>rest.
              scan_lines alnum source closing_ticks lines (if blank rest then None else fence) inline_ticks after_line references)
          else scan_lines alnum source closing_ticks lines fence inline_ticks after_line references
      | None \<Rightarrow>
          run_bind (if inline_ticks = 0 \<and> indent \<le> 3 \<and> (marker = Some (of_char (CHR 0x60)) \<or> marker = Some (of_char (CHR ''~''))) \<and> 3 \<le> run then
              (if marker \<noteq> Some (of_char (CHR 0x60)) then Some (Ok True)
               else run_bind (Some (ok_or Slice_Panic (str_from trimmed run))) (\<lambda>rest. Some (Ok (of_char (CHR 0x60) \<notin> set rest))))
            else Some (Ok False)) (\<lambda>opens.
            if opens then scan_lines alnum source closing_ticks lines (map_option (\<lambda>byte. (byte, run)) marker) inline_ticks after_line references
            else if inline_ticks = 0 \<and> (4 \<le> indent \<or> starts_with line [9] \<or> starts_with trimmed (ascii ''>'')) then
              scan_lines alnum source closing_ticks lines None inline_ticks after_line references
            else run_bind (scan_line alnum source closing_ticks line line_start 0 inline_ticks references) (\<lambda>(inline_ticks, references).
              scan_lines alnum source closing_ticks lines None inline_ticks after_line references)))"

definition document_references :: "(nat \<Rightarrow> bool) \<Rightarrow> ustr \<Rightarrow> document_reference list parsed option" where
  "document_references alnum source =
     run_bind (Some (check_size source MAX_NEURAL_DOCUMENT_BYTES)) (\<lambda>_.
       scan_lines alnum source (last_tick_runs source) (split_lines source) None 0 0 [])"

section \<open>Prompts\<close>

fun checked_total :: "nat \<Rightarrow> ustr list \<Rightarrow> nat option" where
  "checked_total n [] = Some n"
| "checked_total n (s # ss) = Option.bind (checked_add USIZE_MAX n (str_len s)) (\<lambda>n. checked_total n ss)"

fun render_inputs :: "bool \<Rightarrow> nat \<Rightarrow> ustr list \<Rightarrow> ustr" where
  "render_inputs numbered n [] = []"
| "render_inputs numbered n (s # ss) =
     (if numbered then [10] @ ascii ''Input '' @ ascii (show_nat (n + 1)) @ ascii '':'' @ [10] else []) @ s @ [10] @ render_inputs numbered (n + 1) ss"

definition render_base_function_prompt :: "ustr \<Rightarrow> ustr list \<Rightarrow> ustr parsed" where
  "render_base_function_prompt function_text inputs =
     (if (case checked_total (str_len function_text) inputs of None \<Rightarrow> True | Some n \<Rightarrow> MAX_NEURAL_DOCUMENT_BYTES < n) \<or> MAX_NEURAL_NODES < length inputs
      then Err (Syntax_Error 0 ''function inputs exceed the limit'')
      else Ok (function_text @
        (if inputs = [] then [] else [10, 10] @ ascii ''Inputs:'' @ [10] @ render_inputs (1 < length inputs) 0 inputs) @
        [10] @ ascii ''Output:'' @ [10]))"

section \<open>What a reference is\<close>

text \<open>
  The grammar of references, stated without the parser and its offsets. A mention is an at sign that nothing name-like
  precedes, followed by the longest run of name characters and double colons, whose final full stops belong to the
  sentence, or by a name in straight or curly quotes. A link is a label in brackets that starts with an at sign and a target in
  parentheses, both balanced up to escapes; the target says the name.
\<close>

inductive named :: "(nat \<Rightarrow> bool) \<Rightarrow> ustr \<Rightarrow> bool" for alnum where
  named_nil: "named alnum []"
| named_char: "name_char alnum c \<Longrightarrow> named alnum s \<Longrightarrow> named alnum (c # s)"
| named_colons: "named alnum s \<Longrightarrow> named alnum (ascii ''::'' @ s)"

definition name_continues :: "(nat \<Rightarrow> bool) \<Rightarrow> ustr \<Rightarrow> bool" where
  "name_continues alnum s \<longleftrightarrow> (\<exists>c t. s = c # t \<and> name_char alnum c) \<or> (\<exists>t. s = ascii ''::'' @ t)"

definition escapes :: "(nat \<times> nat) set" where
  "escapes = {(0x22, 0x22), (0x5C, 0x5C), (of_char (CHR ''n''), 10), (of_char (CHR ''r''), 13), (of_char (CHR ''t''), 9)}"

inductive spells :: "nat \<Rightarrow> ustr \<Rightarrow> ustr \<Rightarrow> bool" for closing where
  spells_nil: "spells closing [] []"
| spells_char: "c \<notin> {closing, 0x5C, 10, 13} \<Longrightarrow> spells closing s t \<Longrightarrow> spells closing (c # s) (c # t)"
| spells_escape: "(d, c) \<in> escapes \<Longrightarrow> spells closing s t \<Longrightarrow> spells closing (0x5C # d # s) (c # t)"

inductive mention_text :: "(nat \<Rightarrow> bool) \<Rightarrow> ustr \<Rightarrow> ustr \<Rightarrow> ustr \<Rightarrow> bool" for alnum where
  mention_plain:
    "named alnum (name @ replicate k (of_char (CHR ''.''))) \<Longrightarrow> \<not> name_continues alnum rest \<Longrightarrow> name \<noteq> [] \<Longrightarrow>
     hd name \<notin> {0x22, 0x201C} \<Longrightarrow> last name \<noteq> of_char (CHR ''.'') \<Longrightarrow>
     mention_text alnum (name @ replicate k (of_char (CHR ''.'')) @ rest) name name"
| mention_quoted:
    "(opening, closing) \<in> {(0x22, 0x22), (0x201C, 0x201D)} \<Longrightarrow> spells closing body name \<Longrightarrow> \<not> blank name \<Longrightarrow>
     mention_text alnum (opening # body @ closing # rest) (opening # body @ [closing]) name"

definition mention_at :: "(nat \<Rightarrow> bool) \<Rightarrow> ustr \<Rightarrow> document_reference \<Rightarrow> bool" where
  "mention_at alnum source r \<longleftrightarrow>
     (\<exists>before after t. source = before @ of_char (CHR ''@'') # after \<and>
        (before = [] \<or> \<not> alnum (last before) \<and> last before \<notin> set (ascii ''_./@-'')) \<and>
        mention_text alnum after t (dr_name r) \<and> dr_range r = (str_len before, str_len (before @ of_char (CHR ''@'') # t)))"

inductive balanced :: "nat \<Rightarrow> nat \<Rightarrow> ustr \<Rightarrow> bool" for left right where
  balanced_nil: "balanced left right []"
| balanced_char: "c \<notin> {left, right, 0x5C} \<Longrightarrow> balanced left right s \<Longrightarrow> balanced left right (c # s)"
| balanced_escape: "balanced left right s \<Longrightarrow> balanced left right (0x5C # c # s)"
| balanced_nest:
    "balanced left right s \<Longrightarrow> balanced left right t \<Longrightarrow> balanced left right (left # s @ right # t)"

definition nibble :: "nat \<Rightarrow> nat \<Rightarrow> bool" where
  "nibble c x \<longleftrightarrow> x < 16 \<and> (c = of_char (''0123456789abcdef'' ! x) \<or> c = of_char (''0123456789ABCDEF'' ! x))"

inductive hex_spells :: "ustr \<Rightarrow> bytes \<Rightarrow> bool" where
  hex_nil: "hex_spells [] []"
| hex_pair: "nibble c x \<Longrightarrow> nibble d y \<Longrightarrow> hex_spells s bs \<Longrightarrow> hex_spells (c # d # s) ((16 * x + y) # bs)"
| hex_plus: "nibble d y \<Longrightarrow> hex_spells s bs \<Longrightarrow> hex_spells (of_char (CHR ''+'') # d # s) (y # bs)"

definition hash_text :: "ustr \<Rightarrow> bool" where
  "hash_text h \<longleftrightarrow> length h = 64 \<and> (\<forall>c \<in> set h. c \<in> set (ascii ''0123456789abcdef''))"

inductive link_names :: "ustr \<Rightarrow> ustr \<Rightarrow> bool" where
  link_material: "hash_text h \<Longrightarrow> link_names (ascii ''loom-material:material-'' @ h) (ascii ''material-'' @ h)"
| link_evidence: "hash_text h \<Longrightarrow> link_names (ascii ''loom-evidence:'' @ h) (ascii ''evidence/'' @ h)"
| link_document:
    "hex_spells hex (as_bytes name) \<Longrightarrow> length hex \<le> 8192 \<Longrightarrow> name = a @ ascii ''::'' @ b \<Longrightarrow> (\<forall>c \<in> set name. \<not> is_control c) \<Longrightarrow>
     link_names (ascii ''loom-document:'' @ hex) name"

definition link_text :: "ustr \<Rightarrow> ustr \<Rightarrow> bool" where
  "link_text t name \<longleftrightarrow>
     (\<exists>label target. t = ascii ''[@'' @ label @ ascii '']('' @ target @ ascii '')'' \<and>
        balanced (of_char (CHR ''['')) (of_char (CHR '']'')) label \<and>
        balanced (of_char (CHR ''('')) (of_char (CHR '')'')) target \<and> link_names target name)"

definition reference_ok :: "(nat \<Rightarrow> bool) \<Rightarrow> ustr \<Rightarrow> document_reference \<Rightarrow> bool" where
  "reference_ok alnum source r \<longleftrightarrow>
     mention_at alnum source r \<or>
     (\<exists>before t after. source = before @ t @ after \<and> dr_range r = (str_len before, str_len (before @ t)) \<and>
        10 \<notin> set t \<and> link_text t (dr_name r))"

section \<open>Bytes and characters\<close>

lemma str_from_Some: "str_from s n = Some rest \<longleftrightarrow> (\<exists>before. s = before @ rest \<and> n = str_len before)"
  using remaining_at [of s "\<lparr>ps_offset = n, ps_nodes = 0\<rparr>" rest] by (auto simp: remaining_def at_def result_simps)

lemma ascii_byte_boundary:
  "byte_at s n = Some b \<Longrightarrow> b < 128 \<Longrightarrow> \<exists>before rest. s = before @ b # rest \<and> n = str_len before"
proof (induction s arbitrary: n)
  case (Cons c s)
  have len: "length (encode_char c) = len_utf8 c" by (rule length_encode_char)
  show ?case
  proof (cases "n < len_utf8 c")
    case True
    then have "encode_char c ! n = b" using Cons.prems (1) len by (simp add: byte_at_def as_bytes_def nth_append split: if_splits)
    then have "n = 0 \<and> c = b" using True Cons.prems (2)
      by (auto simp: encode_char_def len_utf8_def less_Suc_eq nth_Cons' split: if_splits)
    then show ?thesis by (intro exI [of _ "[]"] exI [of _ s]) simp
  next
    case False
    then have "byte_at s (n - len_utf8 c) = Some b" using Cons.prems (1) len by (auto simp: byte_at_def as_bytes_def nth_append split: if_splits)
    from Cons.IH [OF this Cons.prems (2)] obtain before rest where "s = before @ b # rest" "n - len_utf8 c = str_len before" by blast
    then show ?thesis using False by (intro exI [of _ "c # before"] exI [of _ rest]) simp
  qed
qed (simp add: byte_at_def as_bytes_def)

section \<open>Delimiters match\<close>

lemma balanced_append: "balanced left right s \<Longrightarrow> balanced left right t \<Longrightarrow> balanced left right (s @ t)"
proof (induction rule: balanced.induct)
  case (balanced_nest s u)
  then show ?case using balanced.balanced_nest [of left right s "u @ t"] by simp
qed (simp_all add: balanced.intros)

lemma balanced_single: "c \<notin> {left, right, 0x5C} \<Longrightarrow> balanced left right [c]"
  by (rule balanced_char) (simp_all add: balanced_nil)

text \<open>Text with openings that are not closed yet, the last one first, each followed by balanced text.\<close>

inductive opened :: "nat \<Rightarrow> nat \<Rightarrow> ustr \<Rightarrow> nat list \<Rightarrow> bool" for left right where
  opened_none: "opened left right before []"
| opened_more: "opened left right before stack \<Longrightarrow> balanced left right s \<Longrightarrow> opened left right (before @ left # s) (str_len before # stack)"

inductive_cases opened_ConsE: "opened left right t (i # stack)"

lemma opened_append: "opened left right before stack \<Longrightarrow> balanced left right t \<Longrightarrow> opened left right (before @ t) stack"
proof (induction rule: opened.cases)
  case (opened_more before' stack' s)
  then show ?case using opened.opened_more [OF opened_more (3) balanced_append [of left right s t]] by simp
qed (auto intro: opened_none)

lemma opened_open: "opened left right before stack \<Longrightarrow> opened left right (before @ [left]) (str_len before # stack)"
  using opened_more [OF _ balanced_nil] .

lemma opened_close:
  assumes "opened left right t (i # stack)"
  shows "\<exists>before s. t = before @ left # s \<and> i = str_len before \<and> balanced left right s \<and> opened left right (t @ [right]) stack"
  using assms
proof (rule opened_ConsE)
  fix before s
  assume t: "t = before @ left # s" "i = str_len before" "opened left right before stack" "balanced left right s"
  have "opened left right (before @ left # s @ right # []) stack" by (rule opened_append [OF t (3) balanced_nest [OF t (4) balanced_nil]])
  then show ?thesis using t by auto
qed

definition matched :: "ustr \<Rightarrow> nat \<Rightarrow> nat \<Rightarrow> bool" where
  "matched line i j \<longleftrightarrow>
     (\<exists>left right before s after. (left, right) \<in> {(of_char (CHR ''[''), of_char (CHR '']'')), (of_char (CHR ''(''), of_char (CHR '')''))} \<and>
        line = before @ left # s @ right # after \<and> i = str_len before \<and> j = str_len (before @ left # s) \<and> balanced left right s)"

lemma delimiters_from_matched:
  fixes line :: ustr
  defines "opened_at t bs ps \<equiv> opened (of_char (CHR ''['')) (of_char (CHR '']'')) t bs \<and> opened (of_char (CHR ''('')) (of_char (CHR '')'')) t ps"
  assumes "line = before @ s" "n = str_len before" "opened_at before brackets parentheses" "\<forall>i j. found i = Some j \<longrightarrow> matched line i j"
    and "delimiters_from n s brackets parentheses found i = Some j"
  shows "matched line i j"
  using assms (2-)
proof (induction s arbitrary: n before brackets parentheses found rule: length_induct)
  case (1 s)
  note found = 1 (5)
  show ?case
  proof (cases s)
    case Nil
    then show ?thesis using 1 (5,6) by simp
  next
    case (Cons c s')
    have go: "matched line i j"
      if "delimiters_from (n + str_len cs) s'' bs ps found' i = Some j" "s = cs @ s''" "cs \<noteq> []"
        "opened_at (before @ cs) bs ps" "\<forall>i j. found' i = Some j \<longrightarrow> matched line i j" for cs s'' bs ps found'
    proof -
      have "length s'' < length s" "line = (before @ cs) @ s''" "n + str_len cs = str_len (before @ cs)" using that (2,3) 1 (2,3) by auto
      then show ?thesis using 1 (1) that (1,4,5) by blast
    qed
    note step = go [of "[c]" s', simplified, OF _ Cons]
    note result = 1 (6) [unfolded Cons delimiters_from.simps Let_def]
    have brackets: "opened (of_char (CHR ''['')) (of_char (CHR '']'')) before brackets"
      and parentheses: "opened (of_char (CHR ''('')) (of_char (CHR '')'')) before parentheses" using 1 (4) by (simp_all add: opened_at_def)
    have keep: "opened left right (before @ [c]) stack" if "opened left right before stack" "c \<notin> {left, right, 0x5C}" for left right stack
      using opened_append [OF that (1) balanced_single [OF that (2)]] .
    have close: "\<forall>i j. (found(k \<mapsto> n)) i = Some j \<longrightarrow> matched line i j"
      if opn: "opened left c before (k # stack)" and pair: "(left, c) \<in> {(of_char (CHR ''[''), of_char (CHR '']'')), (of_char (CHR ''(''), of_char (CHR '')''))}" for left k stack
    proof -
      obtain b u where "before = b @ left # u" "k = str_len b" "balanced left c u" using opened_close [OF opn] by blast
      then have "matched line k n" unfolding matched_def using pair 1 (2,3) Cons by (intro exI [of _ left] exI [of _ c] exI [of _ b] exI [of _ u] exI [of _ s']) simp
      then show ?thesis using found by simp
    qed
    consider (escape) "c = of_char (CHR 0x5C)" | (left_bracket) "c = of_char (CHR ''['')" | (left_paren) "c = of_char (CHR ''('')"
      | (right_bracket) "c = of_char (CHR '']'')" | (right_paren) "c = of_char (CHR '')'')"
      | (other) "c \<notin> {of_char (CHR 0x5C), of_char (CHR ''[''), of_char (CHR ''(''), of_char (CHR '']''), of_char (CHR '')'')}" by blast
    then show ?thesis
    proof cases
      case escape
      show ?thesis
      proof (cases s')
        case Nil
        then show ?thesis using result escape found by simp
      next
        case tail: (Cons d s'')
        have skip: "opened left right (before @ [c, d]) stack" if "opened left right before stack" for left right stack
          using opened_append [OF that balanced_escape [OF balanced_nil, of _ _ d]] escape by simp
        show ?thesis
          by (rule go [of "[c, d]" s'' brackets parentheses found])
            (use result escape Cons tail found skip [OF brackets] skip [OF parentheses] in \<open>simp_all add: add.assoc opened_at_def\<close>)
      qed
    next
      case left_bracket
      then show ?thesis using result step [of "n # brackets" parentheses found] opened_open [OF brackets] keep [OF parentheses] found 1 (3) by (simp add: opened_at_def)
    next
      case left_paren
      then show ?thesis using result step [of brackets "n # parentheses" found] opened_open [OF parentheses] keep [OF brackets] found 1 (3) by (simp add: opened_at_def)
    next
      case right_bracket
      show ?thesis
      proof (cases brackets)
        case Nil
        then show ?thesis using result right_bracket step [of brackets parentheses found] keep [OF parentheses] found by (simp add: opened_at_def opened_none)
      next
        case (Cons k stack)
        then show ?thesis
          using result right_bracket step [of stack parentheses "found(k \<mapsto> n)"] keep [OF parentheses] opened_close [OF brackets [unfolded Cons]]
            close [of "of_char (CHR ''['')" k stack] brackets by (auto simp: opened_at_def)
      qed
    next
      case right_paren
      show ?thesis
      proof (cases parentheses)
        case Nil
        then show ?thesis using result right_paren step [of brackets parentheses found] keep [OF brackets] found by (simp add: opened_at_def opened_none)
      next
        case (Cons k stack)
        then show ?thesis
          using result right_paren step [of brackets stack "found(k \<mapsto> n)"] keep [OF brackets] opened_close [OF parentheses [unfolded Cons]]
            close [of "of_char (CHR ''('')" k stack] parentheses by (auto simp: opened_at_def)
      qed
    next
      case other
      then show ?thesis using result step [of brackets parentheses found] keep [OF brackets] keep [OF parentheses] found by (simp add: opened_at_def)
    qed
  qed
qed

lemma matching_delimiters_matched: "matching_link_delimiters line i = Some j \<Longrightarrow> matched line i j"
  unfolding matching_link_delimiters_def by (rule delimiters_from_matched [of line "[]" line 0 "[]" "[]"]) (auto intro: opened_none)

section \<open>Links\<close>

definition boundary :: "ustr \<Rightarrow> nat \<Rightarrow> bool" where
  "boundary s n \<longleftrightarrow> (\<exists>before rest. s = before @ rest \<and> n = str_len before)"

lemma boundaryI: "s = before @ rest \<Longrightarrow> n = str_len before \<Longrightarrow> boundary s n"
  unfolding boundary_def by blast

lemma boundary_le: "boundary s n \<Longrightarrow> n \<le> str_len s"
  by (auto simp: boundary_def)

lemma boundary_end: "boundary s (str_len s)"
  by (rule boundaryI [of s s "[]"]) simp_all

lemma boundary_ascii: "s = before @ c # rest \<Longrightarrow> c < 128 \<Longrightarrow> boundary s (str_len before + 1)"
  by (rule boundaryI [of s "before @ [c]" rest]) (simp_all add: len_utf8_def)

lemma boundary_index: "boundary s n \<longleftrightarrow> (\<exists>i \<le> length s. n = offset s i)"
  unfolding boundary_def by (metis append_eq_conv_conj append_take_drop_id le_add1 length_append)

lemma boundary_slice:
  assumes "boundary s a" "boundary s b" "a \<le> b"
  shows "\<exists>t. str_get s a b = Some t"
proof -
  obtain i j where "i \<le> length s" "a = offset s i" "j \<le> length s" "b = offset s j" using assms (1,2) unfolding boundary_index by blast
  then have "char_index s a = Some i" "char_index s b = Some j" by (simp_all add: char_index_Some)
  then show ?thesis using assms (3) by (simp add: str_get_def)
qed

lemma delimiter_boundaries:
  assumes "matching_link_delimiters line i = Some j"
  shows "i < j" "boundary line j" "boundary line (j + 1)"
proof -
  obtain left right before s after where m: "(left, right) \<in> {(of_char (CHR ''[''), of_char (CHR '']'')), (of_char (CHR ''(''), of_char (CHR '')''))}"
      "line = (before @ left # s) @ right # after" "i = str_len before" "j = str_len (before @ left # s)"
    using matching_delimiters_matched [OF assms] unfolding matched_def append.assoc append_Cons by metis
  then have "right < 128" by auto
  then show "boundary line (j + 1)" using boundary_ascii [OF m (2)] m (4) by simp
  show "boundary line j" using m (2,4) by (rule boundaryI)
  show "i < j" using m (3,4) len_utf8_pos [of left] by simp
qed

lemma hex_digit_nibble: "hex_digit c = Some x \<Longrightarrow> nibble c x"
proof -
  assume x: "hex_digit c = Some x"
  then have "c \<in> set (map of_char ''0123456789abcdefABCDEF'')"
    by (simp add: hex_digit_def is_ascii_digit_def split: if_splits) arith+
  then show ?thesis using x by (auto simp: nibble_def hex_digit_def is_ascii_digit_def)
qed

lemma hex_bytes_spells: "hex_bytes hex = Some bs \<Longrightarrow> hex_spells hex bs"
proof (induction hex arbitrary: bs rule: hex_bytes.induct)
  case (3 c d s)
  then obtain b bs' where b: "u8_from_hex [c, d] = Some b" "hex_spells s bs'" "bs = b # bs'" by (auto split: bind_splits)
  show ?case
  proof (cases "c = of_char (CHR ''+'')")
    case True
    then have "hex_digit d = Some b" using b (1) by (auto simp: u8_from_hex_def split: option.splits if_splits)
    then show ?thesis using hex_plus [OF hex_digit_nibble b (2)] True b (3) by simp
  next
    case False
    then obtain x y where "hex_digit c = Some x" "hex_digit d = Some y" "b = 16 * x + y"
      using b (1) by (auto simp: u8_from_hex_def split: option.splits if_splits)
    then show ?thesis using hex_pair [OF hex_digit_nibble hex_digit_nibble b (2)] b (3) by simp
  qed
qed (auto intro: hex_nil)

lemma strip_prefix_Some: "strip_prefix s token = Some rest \<longleftrightarrow> s = token @ rest"
  by (auto simp: strip_prefix_def starts_with_iff)

lemma document_link_name_spells:
  assumes "document_link_name hex = Some name"
  shows "hex_spells hex (as_bytes name) \<and> (\<exists>a b. name = a @ ascii ''::'' @ b) \<and> (\<forall>c \<in> set name. \<not> is_control c)"
proof -
  obtain bs where bs: "hex_bytes hex = Some bs" "from_utf8 bs = Some name" "contains name (ascii ''::'')" "\<not> list_ex is_control name"
    using assms by (auto simp: document_link_name_def split: bind_splits if_splits)
  obtain i where "starts_with (drop i name) (ascii ''::'')" using bs (3) unfolding contains_def list_ex_iff by blast
  then obtain b where "drop i name = ascii ''::'' @ b" unfolding starts_with_iff by blast
  then have "name = take i name @ ascii ''::'' @ b" by (metis append_take_drop_id)
  then show ?thesis using hex_bytes_spells [OF bs (1)] from_utf8_encode [OF bs (2)] bs (4) by (auto simp: list_ex_iff)
qed

lemma hash_textI:
  assumes "str_len h = 64" "list_all (\<lambda>b. is_ascii_digit b \<or> of_char (CHR ''a'') \<le> b \<and> b \<le> of_char (CHR ''f'')) (as_bytes h)"
  shows "hash_text h"
proof -
  have "\<forall>b \<in> set (as_bytes h). b < 128" using assms (2) by (auto simp: list_all_iff is_ascii_digit_def)
  then have h: "as_bytes h = h" by (rule as_bytes_ascii)
  then have "length h = 64" using length_as_bytes [of h] assms (1) by simp
  moreover have "c \<in> set (ascii ''0123456789abcdef'')" if "c \<in> set h" for c
  proof -
    have "48 \<le> c \<and> c \<le> 57 \<or> 97 \<le> c \<and> c \<le> 102" using assms (2) that unfolding h by (auto simp: list_all_iff is_ascii_digit_def)
    then show ?thesis by (simp add: ascii_def) arith
  qed
  ultimately show ?thesis by (simp add: hash_text_def)
qed

lemma link_target_names:
  assumes "link_target closed mention target = Some name"
  shows "closed \<and> mention \<and> link_names target name"
proof (cases "strip_prefix target (ascii ''loom-document:'')")
  case (Some hex)
  then have hex: "closed" "mention" "str_len hex \<le> 8192" "document_link_name hex = Some name"
    using assms by (auto simp: link_target_def split: if_splits)
  have "length hex \<le> 8192" using hex (3) length_le_str_len [of hex] by simp
  then show ?thesis
    using hex document_link_name_spells [OF hex (4)] Some link_document [of hex name] by (auto simp: strip_prefix_Some)
next
  case None
  show ?thesis
  proof (cases "strip_prefix target (ascii ''loom-material:'')")
    case (Some v)
    then obtain h where h: "closed" "mention" "str_len h = 64" "name = ascii ''material-'' @ h" "hash_text h"
        "h = (case strip_prefix v (ascii ''material-'') of None \<Rightarrow> [] | Some h \<Rightarrow> h)"
      using assms None hash_textI by (auto simp: link_target_def split: if_splits)
    then have "strip_prefix v (ascii ''material-'') = Some h" by (cases "strip_prefix v (ascii ''material-'')") simp_all
    then have "target = ascii ''loom-material:material-'' @ h" using Some by (simp add: strip_prefix_Some ascii_def)
    then show ?thesis using h link_material by blast
  next
    case none: None
    then obtain h where h: "closed" "mention" "name = ascii ''evidence/'' @ h" "hash_text h" "strip_prefix target (ascii ''loom-evidence:'') = Some h"
      using assms None hash_textI by (auto simp: link_target_def split: if_splits option.splits)
    then show ?thesis using link_evidence [OF h (4)] by (simp add: strip_prefix_Some)
  qed
qed

definition link_ok :: "ustr \<Rightarrow> nat \<Rightarrow> nat \<Rightarrow> ustr option \<Rightarrow> bool" where
  "link_ok line n e name \<longleftrightarrow> n + 2 < e \<and> boundary line e \<and>
     (\<forall>nm. name = Some nm \<longrightarrow> (\<exists>before t after. line = before @ t @ after \<and> n = str_len before \<and> e = str_len (before @ t) \<and> link_text t nm))"

lemma prefix_by_len:
  assumes "x @ r = y @ r'" "str_len x \<le> str_len y"
  shows "\<exists>m. y = x @ m"
  using assms by (auto simp: append_eq_append_conv2)

lemma slice_mid: "s = b @ x @ r \<Longrightarrow> str_get s (str_len b) (str_len b + str_len x) = Some x"
  using at_slice [of s "\<lparr>ps_offset = str_len b, ps_nodes = 0\<rparr>" x r] by (auto simp: at_def)

lemma split_by_len:
  assumes "x @ r = y @ r'" "str_len x = str_len y"
  shows "x = y \<and> r = r'"
proof -
  obtain m where m: "y = x @ m" using prefix_by_len [of x r y r'] assms by auto
  then have "m = []" using assms (2) str_len_zero [of m] by simp
  then show ?thesis using m assms (1) by simp
qed

inductive_cases balanced_ConsE: "balanced left right (c # s)"

lemma balanced_tail: "balanced left right (c # s) \<Longrightarrow> c \<noteq> left \<Longrightarrow> c \<noteq> 0x5C \<Longrightarrow> balanced left right s"
  by (erule balanced_ConsE) simp_all

lemma matched_at:
  assumes "matching_link_delimiters line n = Some j" "line = before @ c # rest" "n = str_len before"
  obtains right s after where "(c, right) \<in> {(of_char (CHR ''[''), of_char (CHR '']'')), (of_char (CHR ''(''), of_char (CHR '')''))}"
    "rest = s @ right # after" "j = str_len (before @ c # s)" "balanced c right s"
proof -
  obtain left right b s after where m: "(left, right) \<in> {(of_char (CHR ''[''), of_char (CHR '']'')), (of_char (CHR ''(''), of_char (CHR '')''))}"
      "line = b @ left # s @ right # after" "n = str_len b" "j = str_len (b @ left # s)" "balanced left right s"
    using matching_delimiters_matched [OF assms (1)] unfolding matched_def by blast
  have "b = before \<and> left # s @ right # after = c # rest" using split_by_len [of b "left # s @ right # after" before "c # rest"] m (2,3) assms (2,3) by simp
  then show thesis using that [of right s after] m by auto
qed

lemma link_shape:
  assumes line: "line = before @ of_char (CHR ''['') # rest" "n = str_len before"
    and label: "matching_link_delimiters line n = Some label_end" "byte_at line (n + 1) = Some (of_char (CHR ''@''))"
    and stop: "byte_at line (label_end + 1) = Some (of_char (CHR ''(''))" "matching_link_delimiters line (label_end + 1) = Some e"
    and target: "str_get line (label_end + 2) e = Some target" "link_names target name"
  shows "\<exists>t after. line = before @ t @ after \<and> e + 1 = str_len (before @ t) \<and> link_text t name"
proof -
  obtain right s after where m: "(of_char (CHR ''['') :: nat, right) \<in> {(of_char (CHR ''[''), of_char (CHR '']'')), (of_char (CHR ''(''), of_char (CHR '')''))}"
      "rest = s @ right # after" "label_end = str_len (before @ of_char (CHR ''['') # s)" "balanced (of_char (CHR ''['')) right s"
    by (rule matched_at [OF label (1) line])
  have right: "right = of_char (CHR '']'')" using m (1) by simp
  let ?b = "before @ of_char (CHR ''['') # s @ [right]"
  have l2: "line = ?b @ after" "label_end + 1 = str_len ?b" using line (1) m (2,3) right by (simp_all add: len_utf8_def)
  then have "starts_with after [of_char (CHR ''('')]" using byte_at_boundary [of "of_char (CHR ''('')" ?b after] stop (1) by simp
  then obtain after' where after: "after = of_char (CHR ''('') # after'" unfolding starts_with_iff by auto
  obtain right' s' rest' where m2: "(of_char (CHR ''('') :: nat, right') \<in> {(of_char (CHR ''[''), of_char (CHR '']'')), (of_char (CHR ''(''), of_char (CHR '')''))}"
      "after' = s' @ right' # rest'" "e = str_len (?b @ of_char (CHR ''('') # s')" "balanced (of_char (CHR ''('')) right' s'"
    by (rule matched_at [OF stop (2) l2 (1) [unfolded after] l2 (2)])
  have right': "right' = of_char (CHR '')'')" using m2 (1) by simp
  have "label_end + 2 = str_len (?b @ [of_char (CHR ''('')])" "e = str_len (?b @ [of_char (CHR ''('')]) + str_len s'" "line = (?b @ [of_char (CHR ''('')]) @ s' @ right' # rest'"
    using l2 after m2 (2,3) by (simp_all add: len_utf8_def)
  then have s': "target = s'" using slice_mid [of line "?b @ [of_char (CHR ''('')]" s' "right' # rest'"] target (1) by simp
  have "starts_with (s @ right # after) [of_char (CHR ''@'')]"
    using byte_at_boundary [of "of_char (CHR ''@'')" "before @ [of_char (CHR ''['')]" "s @ right # after"] label (2) line m (2) by (simp add: len_utf8_def)
  then obtain lab where lab: "s = of_char (CHR ''@'') # lab" using right by (cases s) (auto simp: starts_with_def)
  have "balanced (of_char (CHR ''['')) (of_char (CHR '']'')) lab" using m (4) balanced_tail unfolding lab right by simp
  then have "link_text (ascii ''[@'' @ lab @ ascii '']('' @ s' @ ascii '')'') name"
    unfolding link_text_def using m2 (4) right' target (2) s' by blast
  moreover have "line = before @ (ascii ''[@'' @ lab @ ascii '']('' @ s' @ ascii '')'') @ rest'" using l2 (1) after m2 (2) lab right right' by (simp add: ascii_def)
  moreover have "e + 1 = str_len (before @ ascii ''[@'' @ lab @ ascii '']('' @ s' @ ascii '')'')" using m2 (3) lab right by (simp add: ascii_def len_utf8_def)
  ultimately show ?thesis by blast
qed

lemma reference_link_at_ok:
  assumes line: "line = before @ c # rest" "n = str_len before"
  shows "case reference_link_at line n (matching_link_delimiters line) of
    Err e \<Rightarrow> False | Ok None \<Rightarrow> True | Ok (Some (e, name)) \<Rightarrow> link_ok line n e name"
proof -
  define image where "image \<longleftrightarrow> byte_at line n = Some (of_char (CHR ''!''))"
  define label_start where "label_start = n + (if image then 1 else 0)"
  let ?D = "matching_link_delimiters line"
  have eq: "reference_link_at line n ?D =
      (if byte_at line label_start \<noteq> Some (of_char (CHR ''['')) then Ok None
       else case ?D label_start of
         None \<Rightarrow> Ok None
       | Some label_end \<Rightarrow>
           if byte_at line (label_end + 1) \<noteq> Some (of_char (CHR ''('')) then Ok None
           else if image then Ok (Some (case ?D (label_end + 1) of None \<Rightarrow> str_len line | Some e \<Rightarrow> e + 1, None))
           else res_bind (ok_or Slice_Panic (str_get line (label_end + 1 + 1) (case ?D (label_end + 1) of None \<Rightarrow> str_len line | Some e \<Rightarrow> e))) (\<lambda>target.
             Ok (Some (case ?D (label_end + 1) of None \<Rightarrow> str_len line | Some e \<Rightarrow> e + 1,
               link_target (?D (label_end + 1) \<noteq> None) (byte_at line (label_start + 1) = Some (of_char (CHR ''@''))) target))))"
    unfolding reference_link_at_def Let_def image_def label_start_def by (rule refl)
  show ?thesis
  proof (cases "byte_at line label_start = Some (of_char (CHR ''['')) \<and> (\<exists>label_end. matching_link_delimiters line label_start = Some label_end \<and>
      byte_at line (label_end + 1) = Some (of_char (CHR ''('')))")
    case False
    then show ?thesis unfolding eq by (auto split: option.splits)
  next
    case True
    then obtain label_end where le: "matching_link_delimiters line label_start = Some label_end" "byte_at line (label_end + 1) = Some (of_char (CHR ''(''))" by blast
    obtain b2 r2 where b2: "line = b2 @ of_char (CHR ''('') # r2" "label_end + 1 = str_len b2"
      using ascii_byte_boundary [OF le (2)] by auto
    define stop where "stop = (case matching_link_delimiters line (label_end + 1) of None \<Rightarrow> str_len line | Some e \<Rightarrow> e)"
    define link_end where "link_end = (case matching_link_delimiters line (label_end + 1) of None \<Rightarrow> str_len line | Some e \<Rightarrow> e + 1)"
    have target: "boundary line (label_end + 2)" using boundary_ascii [OF b2 (1)] b2 (2) by simp
    have stop: "label_end + 2 \<le> stop" "boundary line stop" "stop \<le> link_end" "boundary line link_end"
      using delimiter_boundaries [of line "label_end + 1"] boundary_le [OF target] boundary_end
      by (auto simp: stop_def link_end_def split: option.splits)
    obtain t where t: "str_get line (label_end + 2) stop = Some t" using boundary_slice [OF target stop (2,1)] by blast
    have le': "label_start < label_end" using delimiter_boundaries (1) [OF le (1)] .
    define name where "name = (if image then None
        else link_target (?D (label_end + 1) \<noteq> None) (byte_at line (label_start + 1) = Some (of_char (CHR ''@''))) t)"
    have "reference_link_at line n ?D = Ok (Some (link_end, name))"
      using True le t [unfolded stop_def] unfolding eq link_end_def name_def by simp
    moreover have "n + 2 < link_end" using le' stop (1,3) by (simp add: label_start_def split: if_splits)
    moreover have "\<exists>before t after. line = before @ t @ after \<and> n = str_len before \<and> link_end = str_len (before @ t) \<and> link_text t nm" if nm: "name = Some nm" for nm
    proof -
      have plain: "\<not> image" using nm by (auto simp: name_def)
      then have link: "?D (label_end + 1) \<noteq> None" "byte_at line (label_start + 1) = Some (of_char (CHR ''@''))" "link_names t nm"
        using nm link_target_names unfolding name_def by (metis if_not_P)+
      then obtain e where e: "?D (label_end + 1) = Some e" by blast
      have start: "label_start = n" using plain by (simp add: label_start_def)
      have "starts_with (c # rest) [of_char (CHR ''['')]"
        using True byte_at_boundary [of "of_char (CHR ''['')" before "c # rest"] line start by simp
      then have c: "line = before @ of_char (CHR ''['') # rest" using line (1) by (simp add: starts_with_def)
      have "str_get line (label_end + 2) e = Some t" using t e by (simp add: stop_def)
      then show ?thesis using link_shape [OF c line (2) _ _ le (2) e _ link (3)] le (1) link (2) e line (2) unfolding start by (auto simp: link_end_def)
    qed
    ultimately show ?thesis using stop (4) by (simp add: link_ok_def)
  qed
qed

section \<open>Mentions\<close>

definition alphanumeric_table :: "(nat \<Rightarrow> bool) \<Rightarrow> bool" where
  "alphanumeric_table alnum \<longleftrightarrow> (\<forall>c < 128. alnum c \<longleftrightarrow>
     is_ascii_digit c \<or> of_char (CHR ''A'') \<le> c \<and> c \<le> of_char (CHR ''Z'') \<or> of_char (CHR ''a'') \<le> c \<and> c \<le> of_char (CHR ''z''))"

lemma ascii_not_name: "alphanumeric_table alnum \<Longrightarrow> \<not> name_char alnum 10 \<and> \<not> name_char alnum (of_char (CHR '':''))"
  by (auto simp: alphanumeric_table_def name_char_def ascii_def is_ascii_digit_def)

lemma named_append: "named alnum s \<Longrightarrow> named alnum t \<Longrightarrow> named alnum (s @ t)"
  by (induction rule: named.induct) (auto intro: named.intros)

lemma named_line: "named alnum s \<Longrightarrow> alphanumeric_table alnum \<Longrightarrow> 10 \<notin> set s"
  by (induction rule: named.induct) (auto simp: ascii_def dest: ascii_not_name)

lemma spells_line: "spells closing s t \<Longrightarrow> 10 \<notin> set s"
  by (induction rule: spells.induct) (auto simp: escapes_def)

text \<open>The loop over a name reads the longest one.\<close>

lemma name_loop_named:
  "at source self rest \<Longrightarrow> \<exists>cs tail. rest = cs @ tail \<and> name_loop alnum source self = Ok (advance (str_len cs) self) \<and>
     named alnum cs \<and> \<not> name_continues alnum tail"
proof (induction rest arbitrary: self rule: length_induct)
  case (1 rest)
  have stop: ?case if "name_loop alnum source self = Ok self" "\<not> name_continues alnum rest"
    using that by (intro exI [of _ "[]"] exI [of _ rest]) (simp add: advance_def named_nil)
  have go: ?case if eq: "rest = cs @ tail" "cs \<noteq> []" "named alnum cs"
      "name_loop alnum source self = name_loop alnum source (advance (str_len cs) self)" for cs tail
  proof -
    have "at source (advance (str_len cs) self) tail" using at_advance 1 (2) eq (1) by simp
    moreover have "length tail < length rest" using eq (1,2) by simp
    ultimately obtain cs' tail' where "tail = cs' @ tail'"
        "name_loop alnum source (advance (str_len cs) self) = Ok (advance (str_len cs') (advance (str_len cs) self))"
        "named alnum cs'" "\<not> name_continues alnum tail'" using 1 (1) by blast
    then show ?thesis using eq by (intro exI [of _ "cs @ cs'"] exI [of _ tail']) (simp add: advance_def add.assoc named_append)
  qed
  show ?case
  proof (cases rest)
    case Nil
    then show ?thesis using stop 1 (2) by (simp add: name_loop.simps [of _ _ self] name_continues_def ascii_def)
  next
    case (Cons c tail)
    consider "starts_with rest (ascii ''::'')" | "\<not> starts_with rest (ascii ''::'')" "name_char alnum c"
      | "\<not> starts_with rest (ascii ''::'')" "\<not> name_char alnum c" by blast
    then show ?thesis
    proof cases
      case 1
      then obtain tail' where "rest = ascii ''::'' @ tail'" unfolding starts_with_iff by blast
      then show ?thesis using go [of "ascii ''::''" tail'] 1 \<open>at source self rest\<close> Cons named_colons [OF named_nil, of alnum]
        by (simp add: name_loop.simps [of _ _ self] ascii_def len_utf8_def numeral_2_eq_2)
    next
      case 2
      then show ?thesis using go [of "[c]" tail] \<open>at source self rest\<close> Cons named_char [OF _ named_nil]
        by (simp add: name_loop.simps [of _ _ self])
    next
      case 3
      then show ?thesis using stop \<open>at source self rest\<close> Cons
        by (simp add: name_loop.simps [of _ _ self] name_continues_def starts_with_iff)
    qed
  qed
qed

lemma name_loop_reads:
  assumes "named alnum cs" "\<not> name_continues alnum tail" "alphanumeric_table alnum" "at source self (cs @ tail)"
  shows "name_loop alnum source self = Ok (advance (str_len cs) self)"
  using assms (1,4)
proof (induction arbitrary: self rule: named.induct)
  case named_nil
  then show ?case using assms (2) by (cases tail) (auto simp: name_loop.simps [of _ _ self] name_continues_def starts_with_iff advance_def)
next
  case (named_char c s)
  have "c \<noteq> of_char (CHR '':'')" using ascii_not_name [OF assms (3)] named_char (1) by metis
  then have "\<not> starts_with (c # s @ tail) (ascii ''::'')" by (simp add: starts_with_def ascii_def)
  then have "name_loop alnum source self = name_loop alnum source (advance (len_utf8 c) self)"
    using named_char (1,4) by (simp add: name_loop.simps [of _ _ self])
  then show ?case using named_char.IH [of "advance (len_utf8 c) self"] at_char named_char.prems by (simp add: advance_def add.assoc)
next
  case (named_colons s)
  have colons: "str_len (ascii ''::'') = 2" by (simp add: ascii_def len_utf8_def)
  have "starts_with (ascii ''::'' @ s @ tail) (ascii ''::'')" by (simp add: starts_with_iff)
  then have "name_loop alnum source self = name_loop alnum source (advance 2 self)"
    using named_colons.prems by (simp add: name_loop.simps [of _ _ self] ascii_def)
  moreover have "at source (advance 2 self) (s @ tail)"
    using at_advance [of source self "ascii ''::''" "s @ tail"] named_colons.prems colons by simp
  ultimately show ?case using named_colons.IH colons by (simp add: advance_def add.assoc)
qed

text \<open>The loop over a quoted name reads exactly what spells it.\<close>

lemma unescape_escapes: "unescape d = Some c \<longleftrightarrow> (d, c) \<in> escapes"
  by (auto simp: unescape_def escapes_def split: if_splits)

lemma quoted_loop_spells:
  "\<lbrakk>at source self rest; quoted_loop source closing t0 self = Ok (t, self')\<rbrakk> \<Longrightarrow>
   \<exists>body name tail. rest = body @ closing # tail \<and> spells closing body name \<and> t = t0 @ name \<and> self' = advance (str_len (body @ [closing])) self"
proof (induction rest arbitrary: t0 self rule: length_induct)
  case (1 rest)
  have go: ?case if "quoted_loop source closing (t0 @ [c]) (advance (str_len cs) self) = Ok (t, self')" "rest = cs @ tail" "cs \<noteq> []"
      and cs: "\<And>s u. spells closing s u \<Longrightarrow> spells closing (cs @ s) (c # u)" for c cs tail
  proof -
    have less: "length tail < length rest" using that (2,3) by simp
    have "at source (advance (str_len cs) self) tail" using at_advance [of source self cs tail] that (2) 1 (2) by simp
    from 1 (1) [rule_format, OF less this that (1)] obtain body name tail' where
      "tail = body @ closing # tail'" "spells closing body name" "t = (t0 @ [c]) @ name"
      "self' = advance (str_len (body @ [closing])) (advance (str_len cs) self)" by blast
    then show ?thesis using that (2) cs by (intro exI [of _ "cs @ body"] exI [of _ "c # name"] exI [of _ tail']) (simp add: advance_def add.assoc)
  qed
  show ?case
  proof (cases rest)
    case Nil
    then show ?thesis using 1 (2,3) by (simp add: quoted_loop.simps [of _ _ _ self] parser_error_def)
  next
    case (Cons c tail)
    have r: "remaining source self = Ok (c # tail)" "remaining source (advance (len_utf8 c) self) = Ok tail"
      using 1 (2) Cons at_char by (simp_all del: shift_simps)
    note step = 1 (3) [unfolded quoted_loop.simps [of source closing t0 self] r (1) Let_def, simplified result.case list.case r (2)]
    consider "c = closing" | "c \<noteq> closing" "c = of_char (CHR 0x5C)" | "c \<noteq> closing" "c \<noteq> of_char (CHR 0x5C)" by blast
    then show ?thesis
    proof cases
      case 1
      then show ?thesis using step Cons by (intro exI [of _ "[]"] exI [of _ "[]"] exI [of _ tail]) (auto intro: spells_nil)
    next
      case 2
      then obtain d tail' c' where d: "tail = d # tail'" "unescape d = Some c'"
        using step by (auto simp: parser_error_def split: list.splits option.splits)
      have "spells closing ([c, d] @ s) (c' # u)" if "spells closing s u" for s u
        using spells_escape [OF _ that] d (2) 2 by (simp add: unescape_escapes)
      then show ?thesis using go [of c' "[c, d]" tail'] step 2 d Cons by (simp add: add.assoc)
    next
      case 3
      then have "c \<noteq> 10" "c \<noteq> 13" using step by (auto simp: parser_error_def split: if_splits)
      then have "spells closing ([c] @ s) (c # u)" if "spells closing s u" for s u
        using spells_char [OF _ that] 3 by simp
      then show ?thesis using go [of c "[c]" tail] step Cons 3 \<open>c \<noteq> 10\<close> \<open>c \<noteq> 13\<close> by simp
    qed
  qed
qed

lemma quoted_loop_reads:
  assumes "spells closing body name" "closing \<noteq> of_char (CHR 0x5C)" "at source self (body @ closing # tail)"
  shows "quoted_loop source closing t0 self = Ok (t0 @ name, advance (str_len (body @ [closing])) self)"
  using assms (1,3)
proof (induction arbitrary: self t0 rule: spells.induct)
  case spells_nil
  then show ?case by (simp add: quoted_loop.simps [of _ _ _ self])
next
  case (spells_char c s t)
  have r: "remaining source self = Ok (c # s @ closing # tail)" using spells_char.prems by simp
  have "quoted_loop source closing t0 self = quoted_loop source closing (t0 @ [c]) (advance (len_utf8 c) self)"
    using spells_char (1) by (simp add: quoted_loop.simps [of _ _ _ self] r Let_def)
  moreover have "at source (advance (len_utf8 c) self) (s @ closing # tail)" using at_char spells_char.prems by simp
  ultimately show ?case using spells_char.IH by (simp add: advance_def add.assoc)
next
  case (spells_escape d c s t)
  have r: "remaining source self = Ok (0x5C # d # s @ closing # tail)" using spells_escape.prems by simp
  have one: "at source (advance 1 self) (d # s @ closing # tail)" using at_char [OF spells_escape.prems [simplified]] by (simp add: len_utf8_def)
  have "quoted_loop source closing t0 self = quoted_loop source closing (t0 @ [c]) (advance (len_utf8 d) (advance 1 self))"
    using spells_escape (1) assms (2) at_remaining [OF one]
    by (simp add: quoted_loop.simps [of _ _ _ self] r Let_def len_utf8_def [of 92] flip: unescape_escapes)
  moreover have "at source (advance (len_utf8 d) (advance 1 self)) (s @ closing # tail)" by (rule at_char [OF one])
  ultimately show ?case using spells_escape.IH by (simp add: advance_def add.assoc len_utf8_def [of 92])
qed

lemma quoted_reads:
  assumes "at source self (q # rest)" "(q, closing) \<in> {(0x22, 0x22), (0x201C, 0x201D)}"
  shows "quoted source self = quoted_loop source closing [] (advance (len_utf8 q) self)"
  using assms (2) take_token_at [OF assms (1)] by (auto simp: quoted_def starts_with_def)

lemma trim_end_dots_append: "s \<noteq> [] \<Longrightarrow> last s \<noteq> of_char (CHR ''.'') \<Longrightarrow> trim_end_dots (s @ replicate k (of_char (CHR ''.''))) = s"
  by (cases s rule: rev_cases) (simp_all add: trim_end_dots_def dropWhile_append)

lemma trim_end_dots_split:
  "\<exists>k. s = trim_end_dots s @ replicate k (of_char (CHR ''.''))" "trim_end_dots s \<noteq> [] \<Longrightarrow> last (trim_end_dots s) \<noteq> of_char (CHR ''.'')"
proof -
  let ?p = "\<lambda>c. c = of_char (CHR ''.'')"
  have "s = trim_end_dots s @ rev (takeWhile ?p (rev s))" unfolding trim_end_dots_def by (metis rev_append rev_rev_ident takeWhile_dropWhile_id)
  moreover have "rev (takeWhile ?p (rev s)) = replicate (length (takeWhile ?p (rev s))) (of_char (CHR ''.''))"
    by (intro replicate_eqI) (auto dest: set_takeWhileD)
  ultimately show "\<exists>k. s = trim_end_dots s @ replicate k (of_char (CHR ''.''))" by metis
  show "last (trim_end_dots s) \<noteq> of_char (CHR ''.'')" if "trim_end_dots s \<noteq> []"
    using that hd_dropWhile [of ?p "rev s"] unfolding trim_end_dots_def by (simp add: last_rev)
qed

lemma mention_line: "mention_text alnum rest t name \<Longrightarrow> alphanumeric_table alnum \<Longrightarrow> (\<exists>tail. rest = t @ tail) \<and> t \<noteq> [] \<and> 10 \<notin> set t"
proof (induction rule: mention_text.cases)
  case (mention_plain name' k rest')
  then show ?case using named_line [OF mention_plain (4) \<open>alphanumeric_table alnum\<close>] by auto
next
  case (mention_quoted q closing body name' rest')
  then show ?case using spells_line [OF mention_quoted (5)] by auto
qed

text \<open>\<open>reference_at\<close> finds exactly the mention that the grammar has there.\<close>

lemma reference_at_reads:
  assumes source: "source = before @ of_char (CHR ''@'') # rest" "start = str_len before" and table: "alphanumeric_table alnum"
    and mention: "mention_text alnum rest t name"
  shows "reference_at alnum source start = Ok (Some \<lparr>dr_name = name, dr_range = (start, start + 1 + str_len t)\<rparr>)"
proof -
  let ?self = "\<lparr>ps_offset = start + 1, ps_nodes = 0\<rparr>"
  have a: "at source ?self rest"
    unfolding at_def using source by (intro exI [of _ "before @ [of_char (CHR ''@'')]"]) (simp add: len_utf8_def)
  then have slice: "str_from source (start + 1) = Some rest" using at_remaining [OF a] by (simp add: remaining_def result_simps)
  show ?thesis
    using mention
  proof cases
    case (mention_plain k tail)
    let ?cs = "t @ replicate k (of_char (CHR ''.''))"
    have rest: "rest = ?cs @ tail" using mention_plain (1) by simp
    have loop: "name_loop alnum source ?self = Ok (advance (str_len ?cs) ?self)"
      using name_loop_reads [OF mention_plain (3,4) table, of source ?self] a rest by simp
    have "str_get source (start + 1) (start + 1 + str_len ?cs) = Some ?cs" using at_slice [of source ?self ?cs tail] a rest by simp
    moreover have "\<not> (starts_with rest [0x22] \<or> starts_with rest [0x201C])"
      using mention_plain (5,6) rest by (cases t) (auto simp: starts_with_def)
    moreover have "0 < str_len ?cs" using mention_plain (5) str_len_zero [of ?cs] by (metis append_is_Nil_conv gr0I)
    ultimately have "document_name alnum source ?self = Ok (?cs, advance (str_len ?cs) ?self)"
      using loop a mention_plain (5) by (simp add: document_name_def advance_def)
    moreover have "trim_end_dots ?cs = t" by (rule trim_end_dots_append [OF mention_plain (5,7)])
    moreover have "start + 1 + str_len ?cs - (str_len ?cs - str_len t) = start + 1 + str_len t" by simp
    ultimately show ?thesis
      using slice mention_plain (2,5) \<open>\<not> (starts_with rest [0x22] \<or> starts_with rest [0x201C])\<close>
      unfolding reference_at_def by (simp only: result.case prod.case ok_or_simps res_bind.simps Let_def if_False) (simp add: advance_def)
  next
    case (mention_quoted q closing body tail)
    have q: "starts_with rest [0x22] \<or> starts_with rest [0x201C]" using mention_quoted (1,3) by (auto simp: starts_with_def)
    have closing: "closing \<noteq> of_char (CHR 0x5C)" using mention_quoted (3) by auto
    have "at source (advance (len_utf8 q) ?self) (body @ closing # tail)" using at_char a mention_quoted (1) by simp
    from quoted_loop_reads [OF mention_quoted (4) closing this, of "[]"]
    have "quoted source ?self = Ok (name, advance (str_len (body @ [closing])) (advance (len_utf8 q) ?self))"
      using quoted_reads [of source ?self q "body @ closing # tail" closing] a mention_quoted (1,3) by simp
    then have "document_name alnum source ?self = Ok (name, advance (str_len t) ?self)"
      using q a mention_quoted (2,5) by (simp add: document_name_def advance_def add.assoc)
    moreover have "name \<noteq> []" using mention_quoted (5) by (auto simp: blank_def)
    ultimately show ?thesis using slice q by (simp add: reference_at_def Let_def advance_def)
  qed
qed

lemma reference_at_finds:
  assumes source: "source = before @ of_char (CHR ''@'') # rest" "start = str_len before" and table: "alphanumeric_table alnum"
  shows "case reference_at alnum source start of
      Err e \<Rightarrow> False
    | Ok None \<Rightarrow> True
    | Ok (Some r) \<Rightarrow> \<exists>t. mention_text alnum rest t (dr_name r) \<and> dr_range r = (start, start + 1 + str_len t)"
proof -
  let ?self = "\<lparr>ps_offset = start + 1, ps_nodes = 0\<rparr>"
  have a: "at source ?self rest"
    unfolding at_def using source by (intro exI [of _ "before @ [of_char (CHR ''@'')]"]) (simp add: len_utf8_def)
  then have slice: "str_from source (start + 1) = Some rest" using at_remaining [OF a] by (simp add: remaining_def result_simps)
  have "ready source ?self" using a by (auto simp: ready_def)
  then have "safe source (\<lambda>(n, self'). moved source ?self 0 0 self' \<and> name_ok alnum n) (Some (document_name alnum source ?self))" by (rule name_safe)
  then consider n message where "document_name alnum source ?self = Err (Syntax_Error n message)"
    | name self' where "document_name alnum source ?self = Ok (name, self')"
    by (auto simp: safe_def)
  then show ?thesis
  proof cases
    case 1
    then show ?thesis by (simp add: reference_at_def)
  next
    case (2 name self')
    show ?thesis
    proof (cases "starts_with rest [0x22] \<or> starts_with rest [0x201C]")
      case True
      then obtain q rest' and closing :: nat where q: "rest = q # rest'" "(q, closing) \<in> {(0x22, 0x22), (0x201C, 0x201D)}" unfolding starts_with_iff by auto
      have doc: "quoted source ?self = Ok (name, self')" "\<not> blank name"
        using 2 a True by (auto simp: document_name_def parser_error_def result_simps split: if_splits)
      have "quoted_loop source closing [] (advance (len_utf8 q) ?self) = Ok (name, self')"
        using quoted_reads [of source ?self q rest' closing] a q doc (1) by simp
      from quoted_loop_spells [OF at_char [OF a [unfolded q (1)]] this] obtain body tail where
        body: "rest' = body @ closing # tail" "spells closing body name" "self' = advance (str_len (body @ [closing])) (advance (len_utf8 q) ?self)" by auto
      have mention: "mention_text alnum rest (q # body @ [closing]) name"
        unfolding q (1) body (1) by (rule mention_quoted [OF q (2) body (2) doc (2)])
      show ?thesis using reference_at_reads [OF source table mention] mention by auto
    next
      case False
      obtain cs tail where cs: "rest = cs @ tail" "name_loop alnum source ?self = Ok (advance (str_len cs) ?self)"
          "named alnum cs" "\<not> name_continues alnum tail" using name_loop_named [OF a] by blast
      have slice': "str_get source (start + 1) (start + 1 + str_len cs) = Some cs" using at_slice [of source ?self cs tail] a cs (1) by simp
      have name: "name = cs" "self' = advance (str_len cs) ?self"
        using 2 a False cs (2) slice' by (auto simp: document_name_def parser_error_def advance_def split: if_splits)
      obtain k where k: "cs = trim_end_dots cs @ replicate k (of_char (CHR ''.''))" using trim_end_dots_split (1) by blast
      show ?thesis
      proof (cases "trim_end_dots cs = []")
        case True
        then show ?thesis using 2 False slice name by (simp add: reference_at_def Let_def)
      next
        case ne: False
        have rest: "rest = trim_end_dots cs @ replicate k (of_char (CHR ''.'')) @ tail" using cs (1) k by (metis append.assoc)
        have "hd (trim_end_dots cs) \<notin> {0x22, 0x201C}"
          using False ne rest by (cases "trim_end_dots cs") (auto simp: starts_with_def)
        then have mention: "mention_text alnum rest (trim_end_dots cs) (trim_end_dots cs)"
          unfolding rest using mention_plain [of alnum "trim_end_dots cs" k tail] cs (3,4) k ne trim_end_dots_split (2) [OF ne] by metis
        show ?thesis using reference_at_reads [OF source table mention] mention by auto
      qed
    qed
  qed
qed

lemma mention_at_iff:
  assumes "alphanumeric_table alnum" "source = before @ of_char (CHR ''@'') # after"
  shows "mention_at alnum source r \<and> fst (dr_range r) = str_len before \<longleftrightarrow>
    starts_reference alnum (of_char (CHR ''@'')) (if before = [] then None else Some (last before)) \<and>
    reference_at alnum source (str_len before) = Ok (Some r)"
proof
  assume m: "mention_at alnum source r \<and> fst (dr_range r) = str_len before"
  then obtain b a t where b: "source = b @ of_char (CHR ''@'') # a" "b = [] \<or> \<not> alnum (last b) \<and> last b \<notin> set (ascii ''_./@-'')"
      "mention_text alnum a t (dr_name r)" "dr_range r = (str_len b, str_len (b @ of_char (CHR ''@'') # t))"
    unfolding mention_at_def by blast
  have "b = before" using split_by_len [of b "of_char (CHR ''@'') # a" before "of_char (CHR ''@'') # after"] b (1,4) assms (2) m by simp
  moreover have "reference_at alnum source (str_len b) = Ok (Some \<lparr>dr_name = dr_name r, dr_range = (str_len b, str_len b + 1 + str_len t)\<rparr>)"
    by (rule reference_at_reads [OF b (1) refl assms (1) b (3)])
  moreover have "r = \<lparr>dr_name = dr_name r, dr_range = (str_len b, str_len b + 1 + str_len t)\<rparr>"
    using b (4) by (cases r) (simp add: len_utf8_def)
  ultimately show "starts_reference alnum (of_char (CHR ''@'')) (if before = [] then None else Some (last before)) \<and>
      reference_at alnum source (str_len before) = Ok (Some r)"
    using b (2) by (auto simp: starts_reference_def)
next
  assume s: "starts_reference alnum (of_char (CHR ''@'')) (if before = [] then None else Some (last before)) \<and>
      reference_at alnum source (str_len before) = Ok (Some r)"
  then obtain t where t: "mention_text alnum after t (dr_name r)" "dr_range r = (str_len before, str_len before + 1 + str_len t)"
    using reference_at_finds [OF assms (2) refl assms (1)] by auto
  have "before = [] \<or> \<not> alnum (last before) \<and> last before \<notin> set (ascii ''_./@-'')" using s by (auto simp: starts_reference_def split: if_splits)
  moreover have "dr_range r = (str_len before, str_len (before @ of_char (CHR ''@'') # t))" using t (2) by (simp add: len_utf8_def)
  ultimately have "mention_at alnum source r" unfolding mention_at_def using assms (2) t (1) by blast
  then show "mention_at alnum source r \<and> fst (dr_range r) = str_len before" using t (2) by simp
qed

section \<open>Scanning a line\<close>

lemma ascii_run: "b < 128 \<Longrightarrow> length (takeWhile (\<lambda>x. x = b) (as_bytes s)) = str_len (takeWhile (\<lambda>c. c = b) s)"
proof (induction s)
  case (Cons c s)
  show ?case
  proof (cases "c = b")
    case True
    then have "as_bytes (c # s) = b # as_bytes s" using Cons.prems by (simp add: as_bytes_def encode_char_def)
    then show ?thesis using Cons True by (simp add: len_utf8_def)
  next
    case False
    obtain x bs where x: "encode_char c = x # bs" using length_encode_char [of c] len_utf8_pos [of c] by (cases "encode_char c") simp_all
    then have "x \<noteq> b" using ascii_byte [OF Cons.prems, of c] False by simp
    then show ?thesis using x False by (simp add: as_bytes_def)
  qed
qed (simp add: as_bytes_def)

definition refs_to :: "(nat \<Rightarrow> bool) \<Rightarrow> ustr \<Rightarrow> document_reference list \<Rightarrow> nat \<Rightarrow> bool" where
  "refs_to alnum source refs n \<longleftrightarrow> length refs \<le> MAX_NEURAL_NODES \<and> list_all (reference_ok alnum source) refs \<and>
     sorted_wrt (\<lambda>a b. snd (dr_range a) \<le> fst (dr_range b)) refs \<and> list_all (\<lambda>r. snd (dr_range r) \<le> n) refs"

lemma refs_to_mono: "refs_to alnum source refs n \<Longrightarrow> n \<le> m \<Longrightarrow> refs_to alnum source refs m"
  by (fastforce simp: refs_to_def list_all_iff)

lemma reference_ok_range: "reference_ok alnum source r \<Longrightarrow> fst (dr_range r) \<le> snd (dr_range r) \<and> snd (dr_range r) \<le> str_len source"
proof -
  assume "reference_ok alnum source r"
  moreover have "\<exists>tail. rest = t @ tail" if "mention_text alnum rest t name" for rest t name using that by cases auto
  ultimately show ?thesis unfolding reference_ok_def mention_at_def by fastforce
qed

lemma push_reference_bind:
  assumes "refs_to alnum source refs (fst (dr_range r))" "reference_ok alnum source r"
    and "\<And>refs'. refs_to alnum source refs' (snd (dr_range r)) \<Longrightarrow> P (f refs')"
  shows "safe source P (Some (res_bind (push_reference refs r) (\<lambda>refs. Ok (f refs))))"
proof (cases "length refs = MAX_NEURAL_NODES")
  case True
  have "fst (dr_range r) \<le> str_len source" using reference_ok_range [OF assms (2)] by simp
  then show ?thesis using True by (simp add: push_reference_def safe_def)
next
  case False
  have "fst (dr_range r) \<le> snd (dr_range r)" using reference_ok_range [OF assms (2)] by simp
  then have "refs_to alnum source (refs @ [r]) (snd (dr_range r))"
    using assms (1,2) False unfolding refs_to_def by (fastforce simp: sorted_wrt_append list_all_iff)
  then show ?thesis using assms (3) False by (simp add: push_reference_def)
qed

text \<open>A line of the source: it starts behind a newline, only its last character may be a newline, and it has one unless
  it is the last line.\<close>

definition line_of :: "ustr \<Rightarrow> nat \<Rightarrow> ustr \<Rightarrow> bool" where
  "line_of source line_start line \<longleftrightarrow> (\<exists>before after. source = before @ line @ after \<and> line_start = str_len before \<and>
     10 \<notin> set (butlast line) \<and> (10 \<in> set line \<or> after = []) \<and> (before = [] \<or> last before = 10))"

lemma link_reference_ok:
  assumes "line_of source line_start line" "link_ok line n e (Some name)"
  shows "reference_ok alnum source \<lparr>dr_name = name, dr_range = (line_start + n, line_start + e)\<rparr>"
proof -
  obtain before after where source: "source = before @ line @ after" "line_start = str_len before" "10 \<notin> set (butlast line)"
    using assms (1) unfolding line_of_def by blast
  obtain b t a where l: "line = b @ t @ a" "n = str_len b" "e = str_len (b @ t)" "link_text t name" using assms (2) unfolding link_ok_def by blast
  obtain u where u: "t = u @ [of_char (CHR '')'')]" using l (4) unfolding link_text_def by (auto simp: ascii_def)
  have "set (b @ u) \<subseteq> set (butlast line)" using l (1) u by (cases a rule: rev_cases) (auto simp: butlast_append)
  then have "10 \<notin> set t" using source (3) u by auto
  moreover have "source = (before @ b) @ t @ a @ after" "line_start + n = str_len (before @ b)" "line_start + e = str_len ((before @ b) @ t)"
    using source (1,2) l (1-3) by simp_all
  ultimately show ?thesis unfolding reference_ok_def using l (4) by (metis document_reference.select_convs)
qed

definition previous_char :: "ustr \<Rightarrow> nat option" where
  "previous_char before = (if before = [] then None else Some (last before))"

text \<open>At the start of a line, the newline before it lets a mention start like the start of the document does.\<close>

lemma previous_in_line:
  assumes "before = [] \<or> last before = 10" "alphanumeric_table alnum"
  shows "starts_reference alnum c (previous_char (before @ pre)) \<longleftrightarrow> starts_reference alnum c (previous_char pre)"
  using assms by (cases "pre = []") (auto simp: previous_char_def starts_reference_def alphanumeric_table_def ascii_def is_ascii_digit_def)

lemma mention_in_line:
  assumes "line_of source line_start line" "line = pre @ of_char (CHR ''@'') # rest" "n = str_len pre" "alphanumeric_table alnum"
    and "starts_reference alnum (of_char (CHR ''@'')) (previous_char pre)"
  shows "case reference_at alnum source (line_start + n) of
      Err e \<Rightarrow> False
    | Ok None \<Rightarrow> True
    | Ok (Some r) \<Rightarrow> reference_ok alnum source r \<and> fst (dr_range r) = line_start + n \<and> n < snd (dr_range r) - line_start \<and>
        line_start \<le> snd (dr_range r) \<and> boundary line (snd (dr_range r) - line_start)"
proof -
  obtain before after where source: "source = before @ line @ after" "line_start = str_len before"
      "10 \<notin> set (butlast line)" "10 \<in> set line \<or> after = []" "before = [] \<or> last before = 10" using assms (1) unfolding line_of_def by blast
  have s: "source = (before @ pre) @ of_char (CHR ''@'') # rest @ after" "line_start + n = str_len (before @ pre)" using source assms (2,3) by simp_all
  have inside: "\<exists>m. rest = cs @ m" if "rest @ after = cs @ tail" "10 \<notin> set cs" for cs tail
  proof (cases "after = []")
    case False
    then have "10 \<in> set line" using source (4) by simp
    then have "10 \<in> set rest" using source (3) assms (2) by (cases rest rule: rev_cases) (auto simp: butlast_append split: if_splits)
    then show ?thesis using that by (auto simp: append_eq_append_conv2)
  qed (use that in simp)
  show ?thesis
  proof (cases "\<exists>r. reference_at alnum source (line_start + n) = Ok (Some r)")
    case False
    then show ?thesis using reference_at_finds [OF s assms (4)] by (auto split: result.splits option.splits)
  next
    case True
    then obtain r where r: "reference_at alnum source (line_start + n) = Ok (Some r)" by blast
    then obtain t where t: "mention_text alnum (rest @ after) t (dr_name r)" "dr_range r = (line_start + n, line_start + n + 1 + str_len t)"
      using reference_at_finds [OF s assms (4)] by auto
    then obtain m where m: "rest = t @ m" using inside mention_line [OF t (1) assms (4)] by blast
    have "boundary line (n + 1 + str_len t)"
      by (rule boundaryI [of _ "pre @ of_char (CHR ''@'') # t" m]) (simp_all add: assms (2,3) m len_utf8_def)
    moreover have "mention_at alnum source r"
      using mention_at_iff [OF assms (4) s (1), of r] r previous_in_line [OF source (5) assms (4)] assms (5) s (2) unfolding previous_char_def by metis
    ultimately show ?thesis unfolding r using t (2) by (simp add: reference_ok_def add.assoc)
  qed
qed

lemma scan_step_safe:
  assumes line: "line_of source line_start line" "line = pre @ c # rest" "n = str_len pre" and table: "alphanumeric_table alnum"
    and refs: "refs_to alnum source references (line_start + n)"
  shows "safe source (\<lambda>(n', ticks, refs'). n < n' \<and> boundary line n' \<and> refs_to alnum source refs' (line_start + n'))
    (Some (scan_step alnum source closing_ticks line line_start n inline_ticks references))"
proof -
  let ?P = "\<lambda>(n', ticks, refs'). n < n' \<and> boundary line n' \<and> refs_to alnum source refs' (line_start + n')"
  have slice: "str_from line n = Some (c # rest)" using line (2,3) str_from_Some by blast
  have before: "str_get line 0 n = Some pre" using slice_mid [of line "[]" pre "c # rest"] line (2,3) by simp
  have go: "?P (n + str_len cs, ticks, references)" if "c # rest = cs @ tail" "cs \<noteq> []" for cs tail ticks
  proof -
    have "0 < str_len cs" using that (2) str_len_zero by (metis gr0I)
    moreover have "boundary line (n + str_len cs)" by (rule boundaryI [of _ "pre @ cs" tail]) (simp_all add: line (2,3) that (1))
    ultimately show ?thesis using refs_to_mono [OF refs] by simp
  qed
  have char: "?P (n + len_utf8 c, ticks, references)" for ticks using go [of "[c]" rest] by simp
  have ticks: "?P (n + length (takeWhile (\<lambda>x. x = of_char (CHR 0x60)) (as_bytes (c # rest))), t, references)" if "c = of_char (CHR 0x60)" for t
  proof -
    have "takeWhile (\<lambda>x. x = of_char (CHR 0x60)) (c # rest) \<noteq> []" using that by simp
    note run = go [OF takeWhile_dropWhile_id [symmetric] this]
    have "length (takeWhile (\<lambda>x. x = of_char (CHR 0x60)) (as_bytes (c # rest))) = str_len (takeWhile (\<lambda>x. x = of_char (CHR 0x60)) (c # rest))"
      by (rule ascii_run) simp
    then show ?thesis using run by simp
  qed
  have two: "?P (n + str_len (take 2 (c # rest)), t, references)" for t using go [of "take 2 (c # rest)" "drop 2 (c # rest)"] by simp
  show ?thesis
  proof (cases "c = of_char (CHR 0x60) \<or> inline_ticks \<noteq> 0 \<or> c = of_char (CHR 0x5C)")
    case True
    then show ?thesis using slice ticks char two by (auto simp: scan_step_def Let_def)
  next
    case False
    define link where "link = (if c = of_char (CHR ''['') \<or> c = of_char (CHR ''!'') then reference_link_at line n (matching_link_delimiters line) else Ok None)"
    have eq: "scan_step alnum source closing_ticks line line_start n inline_ticks references = res_bind link (\<lambda>link. case link of
        Some (e, name) \<Rightarrow> (case name of None \<Rightarrow> Ok (e, inline_ticks, references) | Some name \<Rightarrow>
          res_bind (push_reference references \<lparr>dr_name = name, dr_range = (line_start + n, line_start + e)\<rparr>) (\<lambda>references. Ok (e, inline_ticks, references)))
      | None \<Rightarrow> if \<not> starts_reference alnum c (if pre = [] then None else Some (last pre)) then Ok (n + len_utf8 c, inline_ticks, references)
          else res_bind (reference_at alnum source (line_start + n)) (\<lambda>found. case found of
            Some reference \<Rightarrow> res_bind (push_reference references reference) (\<lambda>references. Ok (snd (dr_range reference) - line_start, inline_ticks, references))
          | None \<Rightarrow> Ok (n + len_utf8 c, inline_ticks, references)))"
    proof -
      have "inline_ticks = 0" "c \<noteq> of_char (CHR 0x60)" "c \<noteq> of_char (CHR 0x5C)" using False by simp_all
      then show ?thesis unfolding scan_step_def slice link_def before by (simp split del: if_split cong: option.case_cong)
    qed
    have "case link of Err e \<Rightarrow> False | Ok None \<Rightarrow> True | Ok (Some (e, name)) \<Rightarrow> link_ok line n e name"
      using reference_link_at_ok [OF line (2,3)] by (simp add: link_def)
    then have "link = Ok None \<or> (\<exists>e name. link = Ok (Some (e, name)) \<and> link_ok line n e name)" by (cases link) (auto split: option.splits)
    then consider e where "link = Ok (Some (e, None))" "link_ok line n e None" | e name where "link = Ok (Some (e, Some name))" "link_ok line n e (Some name)"
      | "link = Ok None" by (metis option.exhaust)
    then show ?thesis
    proof cases
      case 1
      then show ?thesis using refs_to_mono [OF refs] by (simp add: eq link_ok_def)
    next
      case (2 e name)
      have "safe source ?P (Some (res_bind (push_reference references \<lparr>dr_name = name, dr_range = (line_start + n, line_start + e)\<rparr>) (\<lambda>refs. Ok (e, inline_ticks, refs))))"
        by (rule push_reference_bind) (use refs link_reference_ok [OF line (1) 2 (2)] 2 (2) in \<open>auto simp: link_ok_def\<close>)
      then show ?thesis using 2 (1) by (simp add: eq)
    next
      case 3
      show ?thesis
      proof (cases "starts_reference alnum c (if pre = [] then None else Some (last pre)) \<and>
          (\<exists>r. reference_at alnum source (line_start + n) = Ok (Some r))")
        case True
        then obtain r where r: "reference_at alnum source (line_start + n) = Ok (Some r)" by blast
        have "c = of_char (CHR ''@'')" using True by (simp add: starts_reference_def)
        then have ok: "reference_ok alnum source r" "fst (dr_range r) = line_start + n" "n < snd (dr_range r) - line_start"
            "line_start \<le> snd (dr_range r)" "boundary line (snd (dr_range r) - line_start)"
          using mention_in_line [OF line (1) _ line (3) table] line (2) r True by (auto simp: previous_char_def)
        have "safe source ?P (Some (res_bind (push_reference references r) (\<lambda>refs. Ok (snd (dr_range r) - line_start, inline_ticks, refs))))"
          by (rule push_reference_bind) (use refs ok in auto)
        then show ?thesis using 3 True r by (simp add: eq)
      next
        case no: False
        have "reference_at alnum source (line_start + n) = Ok None" if "starts_reference alnum c (if pre = [] then None else Some (last pre))"
        proof -
          have "c = of_char (CHR ''@'')" using that by (simp add: starts_reference_def)
          then show ?thesis
            using no that mention_in_line [OF line (1) _ line (3) table] line (2)
            unfolding previous_char_def by (auto split: result.splits option.splits)
        qed
        then show ?thesis using 3 no char by (simp add: eq)
      qed
    qed
  qed
qed

section \<open>No mention is missed in prose\<close>

definition covered :: "(nat \<Rightarrow> bool) \<Rightarrow> ustr \<Rightarrow> document_reference list \<Rightarrow> nat \<Rightarrow> bool" where
  "covered alnum source refs n \<longleftrightarrow> (\<forall>r. mention_at alnum source r \<longrightarrow> fst (dr_range r) < n \<longrightarrow>
     r \<in> set refs \<or> (\<exists>r' \<in> set refs. fst (dr_range r') < fst (dr_range r) \<and> fst (dr_range r) < snd (dr_range r')))"

text \<open>A line of prose: no code, escape, link, quotation or fence.\<close>

definition prose_line :: "ustr \<Rightarrow> bool" where
  "prose_line line \<longleftrightarrow>
     (let trimmed = dropWhile (\<lambda>c. c = of_char (CHR '' '')) line in
      set line \<inter> {of_char (CHR 0x60), of_char (CHR 0x5C), of_char (CHR ''[''), of_char (CHR ''!'')} = {} \<and>
      str_len line - str_len trimmed \<le> 3 \<and> \<not> starts_with line [9] \<and> \<not> starts_with trimmed (ascii ''>'') \<and> \<not> starts_with trimmed (ascii ''~''))"

lemma covered_step:
  assumes "covered alnum source refs n" "set refs \<subseteq> set refs'"
    and "\<And>r. n \<le> fst (dr_range r) \<Longrightarrow> fst (dr_range r) < n' \<Longrightarrow> mention_at alnum source r \<Longrightarrow>
      r \<in> set refs' \<or> (\<exists>r' \<in> set refs'. fst (dr_range r') < fst (dr_range r) \<and> fst (dr_range r) < snd (dr_range r'))"
  shows "covered alnum source refs' n'"
  unfolding covered_def
proof (intro allI impI)
  fix r
  assume r: "mention_at alnum source r" "fst (dr_range r) < n'"
  show "r \<in> set refs' \<or> (\<exists>r' \<in> set refs'. fst (dr_range r') < fst (dr_range r) \<and> fst (dr_range r) < snd (dr_range r'))"
  proof (cases "fst (dr_range r) < n")
    case True
    then show ?thesis using assms (1,2) r (1) unfolding covered_def by blast
  next
    case False
    then show ?thesis using assms (3) [of r] r by simp
  qed
qed

lemma mention_here:
  assumes line: "line_of source line_start line" "line = pre @ c # rest" "n = str_len pre" and table: "alphanumeric_table alnum"
    and m: "mention_at alnum source r" "line_start + n \<le> fst (dr_range r)" "fst (dr_range r) < line_start + n + len_utf8 c"
  shows "fst (dr_range r) = line_start + n \<and> starts_reference alnum c (previous_char pre) \<and> reference_at alnum source (line_start + n) = Ok (Some r)"
proof -
  obtain before after where source: "source = before @ line @ after" "line_start = str_len before" "before = [] \<or> last before = 10"
    using line (1) unfolding line_of_def by blast
  obtain b r2 where b: "source = b @ of_char (CHR ''@'') # r2" "fst (dr_range r) = str_len b" using m (1) unfolding mention_at_def by (metis fst_conv)
  have at: "starts_reference alnum (of_char (CHR ''@'')) (previous_char b)" "reference_at alnum source (str_len b) = Ok (Some r)"
    using mention_at_iff [OF table b (1), of r] m (1) b (2) unfolding previous_char_def by blast+
  have s: "source = (before @ pre) @ c # rest @ after" using source (1) line (2) by simp
  have "(before @ pre) @ c # rest @ after = b @ of_char (CHR ''@'') # r2" using s b (1) by simp
  moreover have "str_len (before @ pre) \<le> str_len b" using b (2) m (2) source (2) line (3) by simp
  ultimately obtain k where k: "b = (before @ pre) @ k" using prefix_by_len by blast
  then have "k @ of_char (CHR ''@'') # r2 = c # rest @ after" using s b (1) by simp
  moreover have "str_len k < len_utf8 c" using k b (2) m (3) source (2) line (3) by simp
  ultimately have "k = [] \<and> c = of_char (CHR ''@'')" by (cases k) auto
  then show ?thesis using at b (2) k source (2) line (3) previous_in_line [OF source (3) table] by auto
qed

lemma scan_step_covers:
  assumes line: "line_of source line_start line" "line = pre @ c # rest" "n = str_len pre" "prose_line line" and table: "alphanumeric_table alnum"
    and covered: "covered alnum source references (line_start + n)"
    and step: "scan_step alnum source closing_ticks line line_start n 0 references = Ok (n', ticks, refs')"
  shows "ticks = 0 \<and> covered alnum source refs' (line_start + n')"
proof -
  have c: "c \<notin> {of_char (CHR 0x60), of_char (CHR 0x5C), of_char (CHR ''[''), of_char (CHR ''!'')}" using line (2,4) by (auto simp: prose_line_def Let_def)
  have slice: "str_from line n = Some (c # rest)" using line (2,3) str_from_Some by blast
  have before: "str_get line 0 n = Some pre" using slice_mid [of line "[]" pre "c # rest"] line (2,3) by simp
  have plain: "n' = n + len_utf8 c \<and> ticks = 0 \<and> refs' = references \<and> (starts_reference alnum c (previous_char pre) \<longrightarrow> reference_at alnum source (line_start + n) = Ok None) \<or>
      (\<exists>r. reference_at alnum source (line_start + n) = Ok (Some r) \<and> starts_reference alnum c (previous_char pre) \<and>
        n' = snd (dr_range r) - line_start \<and> ticks = 0 \<and> refs' = references @ [r])"
    using step c unfolding scan_step_def slice before
    by (auto simp: result_simps previous_char_def push_reference_def split: if_splits option.splits)
  then show ?thesis
  proof (elim disjE exE conjE)
    assume p: "n' = n + len_utf8 c" "ticks = 0" "refs' = references"
      and none: "starts_reference alnum c (previous_char pre) \<longrightarrow> reference_at alnum source (line_start + n) = Ok None"
    have "\<not> mention_at alnum source r" if "line_start + n \<le> fst (dr_range r)" "fst (dr_range r) < line_start + n'" for r
      using mention_here [OF line (1-3) table _ that (1)] that (2) none p (1) by auto
    then have "covered alnum source refs' (line_start + n')"
      unfolding p (3) by (intro covered_step [OF covered]) simp_all
    then show ?thesis using p (2) by simp
  next
    fix r
    assume r: "reference_at alnum source (line_start + n) = Ok (Some r)" "starts_reference alnum c (previous_char pre)"
      "n' = snd (dr_range r) - line_start" "ticks = 0" "refs' = references @ [r]"
    have "c = of_char (CHR ''@'')" using r (2) by (simp add: starts_reference_def)
    then have ok: "fst (dr_range r) = line_start + n" "line_start \<le> snd (dr_range r)"
      using mention_in_line [OF line (1) _ line (3) table] line (2) r (1,2) by auto
    have "covered alnum source refs' (line_start + n')"
    proof (rule covered_step [OF covered])
      fix r'
      assume m: "line_start + n \<le> fst (dr_range r')" "fst (dr_range r') < line_start + n'" "mention_at alnum source r'"
      show "r' \<in> set refs' \<or> (\<exists>r'' \<in> set refs'. fst (dr_range r'') < fst (dr_range r') \<and> fst (dr_range r') < snd (dr_range r''))"
      proof (cases "fst (dr_range r') = line_start + n")
        case True
        then have "r' = r" using mention_here [OF line (1-3) table m (3)] r (1) len_utf8_pos [of c] by auto
        then show ?thesis using r (5) by simp
      next
        case False
        then show ?thesis using m r (3,5) ok by auto
      qed
    qed (use r (5) in auto)
    then show ?thesis using r (4) by simp
  qed
qed

section \<open>Scanning a document\<close>

text \<open>What the loops keep: references in order up to an offset, complete as long as every line was prose.\<close>

definition scanned :: "(nat \<Rightarrow> bool) \<Rightarrow> ustr \<Rightarrow> bool \<Rightarrow> nat \<Rightarrow> document_reference list \<Rightarrow> nat \<Rightarrow> bool" where
  "scanned alnum source prose ticks refs n \<longleftrightarrow> refs_to alnum source refs n \<and> (prose \<longrightarrow> ticks = 0 \<and> covered alnum source refs n)"

lemma safe_conj: "safe source P out \<Longrightarrow> (\<And>x. out = Some (Ok x) \<Longrightarrow> P x \<Longrightarrow> Q x) \<Longrightarrow> safe source Q out"
  unfolding safe_def by auto

lemma scan_line_safe:
  assumes line: "line_of source line_start line" "prose \<longrightarrow> prose_line line" and table: "alphanumeric_table alnum"
    and "boundary line n" "scanned alnum source prose inline_ticks references (line_start + n)"
  shows "safe source (\<lambda>(ticks, refs). scanned alnum source prose ticks refs (line_start + str_len line))
    (scan_line alnum source closing_ticks line line_start n inline_ticks references)"
  using assms (4,5)
proof (induction "str_len line - n" arbitrary: n inline_ticks references rule: less_induct)
  case less
  show ?case
  proof (cases "n < str_len line")
    case False
    then have "n = str_len line" using boundary_le [OF less (2)] by simp
    then show ?thesis using less (3) unfolding scan_line.simps [of _ _ _ _ _ n] by simp
  next
    case True
    then obtain pre c rest where pre: "line = pre @ c # rest" "n = str_len pre"
      using less (2) unfolding boundary_def by (metis append_Nil2 less_irrefl neq_Nil_conv)
    have refs: "refs_to alnum source references (line_start + n)" using less (3) by (simp add: scanned_def)
    have step: "safe source (\<lambda>(n', ticks, refs'). n < n' \<and> boundary line n' \<and> scanned alnum source prose ticks refs' (line_start + n'))
        (Some (scan_step alnum source closing_ticks line line_start n inline_ticks references))"
    proof (rule safe_conj [OF scan_step_safe [OF line (1) pre table refs]])
      fix x
      assume x: "Some (scan_step alnum source closing_ticks line line_start n inline_ticks references) = Some (Ok x)"
        "case x of (n', ticks, refs') \<Rightarrow> n < n' \<and> boundary line n' \<and> refs_to alnum source refs' (line_start + n')"
      obtain n' ticks refs' where n': "x = (n', ticks, refs')" by (cases x)
      with x have r: "scan_step alnum source closing_ticks line line_start n inline_ticks references = Ok (n', ticks, refs')"
        "n < n'" "boundary line n'" "refs_to alnum source refs' (line_start + n')" by simp_all
      have "ticks = 0 \<and> covered alnum source refs' (line_start + n')" if prose
        using scan_step_covers [OF line (1) pre _ table] line (2) less (3) r (1) that by (auto simp: scanned_def)
      then show "case x of (n', ticks, refs') \<Rightarrow> n < n' \<and> boundary line n' \<and> scanned alnum source prose ticks refs' (line_start + n')"
        using r n' by (simp add: scanned_def)
    qed
    have eq: "scan_line alnum source closing_ticks line line_start n inline_ticks references =
        run_bind (Some (scan_step alnum source closing_ticks line line_start n inline_ticks references)) (\<lambda>(n, inline_ticks, references).
          scan_line alnum source closing_ticks line line_start n inline_ticks references)"
      using True by (subst scan_line.simps) simp
    show ?thesis
      unfolding eq
    proof (rule safe_bind [OF step], clarify)
      fix n' ticks refs'
      assume "n < n'" "boundary line n'" "scanned alnum source prose ticks refs' (line_start + n')"
      then show "safe source (\<lambda>(ticks, refs). scanned alnum source prose ticks refs (line_start + str_len line))
          (scan_line alnum source closing_ticks line line_start n' ticks refs')"
        using less (1) [of n'] True by simp
    qed
  qed
qed

lemma split_lines_Cons:
  "split_lines s = line # lines \<Longrightarrow> \<exists>after. s = line @ after \<and> lines = split_lines after \<and> line \<noteq> [] \<and> 10 \<notin> set (butlast line) \<and> (10 \<in> set line \<or> after = [])"
proof (induction s arbitrary: line lines)
  case (Cons c s)
  show ?case
  proof (cases "c = 10")
    case True
    then show ?thesis using Cons.prems by auto
  next
    case False
    show ?thesis
    proof (cases "split_lines s")
      case Nil
      then have "s = []" using concat_split_lines [of s] by simp
      then show ?thesis using Cons.prems False by auto
    next
      case (Cons l ls)
      from Cons.IH [OF this] obtain after where "s = l @ after" "ls = split_lines after" "l \<noteq> []" "10 \<notin> set (butlast l)" "10 \<in> set l \<or> after = []" by blast
      then show ?thesis using Cons.prems False Cons by (intro exI [of _ after]) auto
    qed
  qed
qed simp

lemma run_slice: "b < 128 \<Longrightarrow> str_from s (length (takeWhile (\<lambda>x. x = b) (as_bytes s))) = Some (dropWhile (\<lambda>c. c = b) s)"
  using ascii_run [of b s] str_from_Some takeWhile_dropWhile_id by metis

text \<open>How a line outside of a fence is treated: it opens a fence, is skipped, or is scanned.\<close>

lemma scan_lines_open:
  assumes marker: "trimmed = dropWhile (\<lambda>c. c = of_char (CHR '' '')) line" "marker = byte_at trimmed 0"
    "run = (case marker of None \<Rightarrow> 0 | Some byte \<Rightarrow> length (takeWhile (\<lambda>b. b = byte) (as_bytes trimmed)))"
  shows "\<exists>opens. (opens \<longrightarrow> marker = Some (of_char (CHR 0x60)) \<or> marker = Some (of_char (CHR ''~''))) \<and>
    scan_lines alnum source closing_ticks (line # lines) None inline_ticks line_start references =
      (if opens then scan_lines alnum source closing_ticks lines (map_option (\<lambda>byte. (byte, run)) marker) inline_ticks (line_start + str_len line) references
       else if inline_ticks = 0 \<and> (4 \<le> str_len line - str_len trimmed \<or> starts_with line [9] \<or> starts_with trimmed (ascii ''>'')) then
         scan_lines alnum source closing_ticks lines None inline_ticks (line_start + str_len line) references
       else run_bind (scan_line alnum source closing_ticks line line_start 0 inline_ticks references) (\<lambda>(inline_ticks, references).
         scan_lines alnum source closing_ticks lines None inline_ticks (line_start + str_len line) references))"
proof -
  define may where "may \<longleftrightarrow> inline_ticks = 0 \<and> str_len line - str_len trimmed \<le> 3 \<and>
      (marker = Some (of_char (CHR 0x60)) \<or> marker = Some (of_char (CHR ''~''))) \<and> 3 \<le> run"
  define opens where "opens \<longleftrightarrow> may \<and> (marker = Some (of_char (CHR 0x60)) \<longrightarrow> of_char (CHR 0x60) \<notin> set (dropWhile (\<lambda>c. c = of_char (CHR 0x60)) trimmed))"
  have slice: "str_from trimmed run = Some (dropWhile (\<lambda>c. c = of_char (CHR 0x60)) trimmed)" if "marker = Some (of_char (CHR 0x60))"
    using run_slice [of "of_char (CHR 0x60)" trimmed] that marker (3) by simp
  have test: "(if may then (if marker \<noteq> Some (of_char (CHR 0x60)) then Some (Ok True)
      else run_bind (Some (ok_or Slice_Panic (str_from trimmed run))) (\<lambda>rest. Some (Ok (of_char (CHR 0x60) \<notin> set rest)))) else Some (Ok False)) = Some (Ok opens)"
    using slice by (auto simp: opens_def)
  have "opens \<longrightarrow> marker = Some (of_char (CHR 0x60)) \<or> marker = Some (of_char (CHR ''~''))" by (auto simp: opens_def may_def)
  then show ?thesis
    unfolding scan_lines.simps (2) Let_def option.case marker (1) [symmetric] marker (2) [symmetric] marker (3) [symmetric] may_def [symmetric] test run_bind_simps (3)
    by blast
qed

lemma prose_not_fenced:
  assumes "prose_line line" "trimmed = dropWhile (\<lambda>c. c = of_char (CHR '' '')) line"
  shows "byte_at trimmed 0 \<noteq> Some (of_char (CHR 0x60))" "byte_at trimmed 0 \<noteq> Some (of_char (CHR ''~''))"
    "\<not> (4 \<le> str_len line - str_len trimmed \<or> starts_with line [9] \<or> starts_with trimmed (ascii ''>''))"
proof -
  have sub: "set trimmed \<subseteq> set line" using assms (2) set_dropWhileD by fastforce
  have "\<not> starts_with trimmed [of_char (CHR 0x60)]" using assms (1) sub by (cases trimmed) (auto simp: prose_line_def Let_def starts_with_def)
  then show "byte_at trimmed 0 \<noteq> Some (of_char (CHR 0x60))" using byte_at_boundary [of "of_char (CHR 0x60)" "[]" trimmed] by simp
  have "\<not> starts_with trimmed [of_char (CHR ''~'')]" using assms by (simp add: prose_line_def Let_def ascii_def)
  then show "byte_at trimmed 0 \<noteq> Some (of_char (CHR ''~''))" using byte_at_boundary [of "of_char (CHR ''~'')" "[]" trimmed] by simp
  show "\<not> (4 \<le> str_len line - str_len trimmed \<or> starts_with line [9] \<or> starts_with trimmed (ascii ''>''))"
    using assms by (simp add: prose_line_def Let_def)
qed

definition fence_ok :: "(nat \<times> nat) option \<Rightarrow> bool" where
  "fence_ok fence \<longleftrightarrow> (\<forall>byte count. fence = Some (byte, count) \<longrightarrow> byte < 128)"

lemma scan_lines_safe:
  assumes "alphanumeric_table alnum" "source = before @ rest" "before = [] \<or> last before = 10 \<or> rest = []" "fence_ok fence"
    and "prose \<longrightarrow> fence = None \<and> list_all prose_line (split_lines rest)" "scanned alnum source prose inline_ticks references (str_len before)"
  shows "safe source (\<lambda>refs. refs_to alnum source refs (str_len source) \<and> (prose \<longrightarrow> covered alnum source refs (str_len source)))
    (scan_lines alnum source closing_ticks (split_lines rest) fence inline_ticks (str_len before) references)"
  using assms (2-6)
proof (induction "split_lines rest" arbitrary: rest before fence inline_ticks references)
  case Nil
  then have "rest = []" using concat_split_lines [of rest] by simp
  then show ?case using Nil by (simp add: scanned_def)
next
  case (Cons line lines)
  let ?Q = "\<lambda>refs. refs_to alnum source refs (str_len source) \<and> (prose \<longrightarrow> covered alnum source refs (str_len source))"
  obtain after where after: "rest = line @ after" "lines = split_lines after" "line \<noteq> []" "10 \<notin> set (butlast line)" "10 \<in> set line \<or> after = []"
    using split_lines_Cons [OF Cons (2) [symmetric]] by blast
  have lines: "split_lines rest = line # split_lines after" using Cons (2) after (2) by simp
  define trimmed where "trimmed = dropWhile (\<lambda>c. c = of_char (CHR '' '')) line"
  define marker where "marker = byte_at trimmed 0"
  define run where "run = (case marker of None \<Rightarrow> 0 | Some byte \<Rightarrow> length (takeWhile (\<lambda>b. b = byte) (as_bytes trimmed)))"
  have line: "line_of source (str_len before) line"
    unfolding line_of_def using Cons.prems (1,2) after by (intro exI [of _ before] exI [of _ after]) auto
  have next_before: "before @ line = [] \<or> last (before @ line) = 10 \<or> after = []"
    using after (3-5) by (cases line rule: rev_cases) auto
  have go: "safe source ?Q (scan_lines alnum source closing_ticks (split_lines after) fence' ticks (str_len before + str_len line) refs)"
    if "fence_ok fence'" "prose \<longrightarrow> fence' = None" "scanned alnum source prose ticks refs (str_len before + str_len line)" for fence' ticks refs
    using Cons (1) [OF after (2), of "before @ line" fence' ticks refs] Cons.prems (1,4) after (1) next_before that lines by simp
  have skip: "scanned alnum source prose inline_ticks references (str_len before + str_len line)" if "\<not> prose"
    using Cons.prems (5) that refs_to_mono [of alnum source references "str_len before" "str_len before + str_len line"] by (simp add: scanned_def)
  have prose: "prose_line line" if prose using Cons.prems (4) that lines by simp
  show ?case
  proof (cases fence)
    case (Some p)
    obtain byte count where p: "p = (byte, count)" by (cases p)
    have ascii: "byte < 128" "\<not> prose" using Cons.prems (3,4) Some p by (auto simp: fence_ok_def)
    then show ?thesis
      using go [of fence inline_ticks references] go [of None inline_ticks references] skip Cons.prems (3) ascii (2) Some p
      by (simp add: lines Let_def run_slice [OF ascii (1)] fence_ok_def)
  next
    case None
    obtain opens where opens: "opens \<longrightarrow> marker = Some (of_char (CHR 0x60)) \<or> marker = Some (of_char (CHR ''~''))"
      and eq: "scan_lines alnum source closing_ticks (line # split_lines after) None inline_ticks (str_len before) references =
        (if opens then scan_lines alnum source closing_ticks (split_lines after) (map_option (\<lambda>byte. (byte, run)) marker) inline_ticks (str_len before + str_len line) references
         else if inline_ticks = 0 \<and> (4 \<le> str_len line - str_len trimmed \<or> starts_with line [9] \<or> starts_with trimmed (ascii ''>'')) then
           scan_lines alnum source closing_ticks (split_lines after) None inline_ticks (str_len before + str_len line) references
         else run_bind (scan_line alnum source closing_ticks line (str_len before) 0 inline_ticks references) (\<lambda>(inline_ticks, references).
           scan_lines alnum source closing_ticks (split_lines after) None inline_ticks (str_len before + str_len line) references))"
      using scan_lines_open [OF trimmed_def marker_def run_def] by blast
    have fence: "fence_ok (map_option (\<lambda>byte. (byte, run)) marker)" if opens using opens that by (auto simp: fence_ok_def)
    note fenced = prose_not_fenced [OF _ trimmed_def]
    have scan: "safe source ?Q (run_bind (scan_line alnum source closing_ticks line (str_len before) 0 inline_ticks references) (\<lambda>(inline_ticks, references).
        scan_lines alnum source closing_ticks (split_lines after) None inline_ticks (str_len before + str_len line) references))"
      by (rule safe_bind [OF scan_line_safe [OF line _ assms (1)]])
        (use prose Cons.prems (5) go [of None] boundaryI [of line "[]" line 0] in \<open>auto simp: fence_ok_def\<close>)
    define skips where "skips \<longleftrightarrow> inline_ticks = 0 \<and> (4 \<le> str_len line - str_len trimmed \<or> starts_with line [9] \<or> starts_with trimmed (ascii ''>''))"
    have other: "\<not> prose" if "opens \<or> inline_ticks = 0 \<and> (4 \<le> str_len line - str_len trimmed \<or> starts_with line [9] \<or> starts_with trimmed (ascii ''>''))"
      using that opens fenced [OF prose] unfolding marker_def by blast
    have "safe source ?Q (scan_lines alnum source closing_ticks (split_lines after) (map_option (\<lambda>byte. (byte, run)) marker) inline_ticks (str_len before + str_len line) references)"
      if opens using go [OF fence [OF that]] other skip that by blast
    moreover have "safe source ?Q (scan_lines alnum source closing_ticks (split_lines after) None inline_ticks (str_len before + str_len line) references)"
      if skips using go [of None] other skip that unfolding skips_def by (simp add: fence_ok_def)
    ultimately show ?thesis
      unfolding None lines eq skips_def [symmetric] using scan by simp
  qed
qed

section \<open>Properties\<close>

text \<open>C31. Scanning a document for references returns for every input, without slicing inside a character or past the
  end, provided only that the Unicode table agrees with ASCII. The references are at most 256, in order and disjoint, and
  each is exactly a phrase of the reference grammar with the name it spells. It is a mention: an at sign that no letter,
  digit or one of \<open>_./@-\<close> precedes, and either the longest run of name characters and double colons that follows, less its final
  full stops, as the name itself, or a quoted name, spelled between straight or curly quotes with the five escapes and not
  blank. Or it is a link on one line: a label in balanced brackets that starts with an at sign, directly followed by a target
  in balanced parentheses, which is a material or an evidence identity of 64 lowercase hexadecimal digits, or a document name
  spelled in at most 8192 hexadecimal digits that has a double colon and no control character. In a document of plain
  prose nothing is missed: every mention of the grammar is reported, or starts inside a reported one.\<close>

theorem document_references_sound:
  assumes "alphanumeric_table alnum"
  shows "case document_references alnum source of
      Some (Ok refs) \<Rightarrow> refs_to alnum source refs (str_len source) \<and>
        (list_all prose_line (split_lines source) \<longrightarrow> covered alnum source refs (str_len source))
    | Some (Err (Syntax_Error n message)) \<Rightarrow> n \<le> str_len source
    | Some (Err Slice_Panic) \<Rightarrow> False
    | None \<Rightarrow> False"
proof -
  have start: "scanned alnum source prose 0 [] (str_len [])" for prose by (simp add: scanned_def refs_to_def covered_def)
  have "safe source (\<lambda>refs. refs_to alnum source refs (str_len source) \<and> (list_all prose_line (split_lines source) \<longrightarrow> covered alnum source refs (str_len source)))
      (scan_lines alnum source (last_tick_runs source) (split_lines source) None 0 (str_len []) [])"
    by (rule scan_lines_safe [OF assms]) (use start in \<open>simp_all add: fence_ok_def\<close>)
  then show ?thesis
    by (cases "MAX_NEURAL_DOCUMENT_BYTES < str_len source") (auto simp: document_references_def check_size_def safe_def)
qed

definition ascii_alphanumeric :: "nat \<Rightarrow> bool" where
  "ascii_alphanumeric c \<longleftrightarrow> is_ascii_digit c \<or> of_char (CHR ''A'') \<le> c \<and> c \<le> of_char (CHR ''Z'') \<or> of_char (CHR ''a'') \<le> c \<and> c \<le> of_char (CHR ''z'')"

definition reference_demo :: ustr where
  "reference_demo = ascii ''[@a](loom-evidence:'' @ replicate 64 48 @ ascii '') @'' @ [0x22] @ ascii ''b c'' @ [0x22]"

theorem document_references_sound_witness:
  "document_references ascii_alphanumeric (ascii ''ask @ann.b. or x@y'') = Some (Ok [\<lparr>dr_name = ascii ''ann.b'', dr_range = (4, 10)\<rparr>]) \<and>
   refs_to ascii_alphanumeric (ascii ''ask @ann.b. or x@y'') [\<lparr>dr_name = ascii ''ann.b'', dr_range = (4, 10)\<rparr>] 18 \<and>
   covered ascii_alphanumeric (ascii ''ask @ann.b. or x@y'') [\<lparr>dr_name = ascii ''ann.b'', dr_range = (4, 10)\<rparr>] 18 \<and>
   document_references ascii_alphanumeric reference_demo =
     Some (Ok [\<lparr>dr_name = ascii ''evidence/'' @ replicate 64 48, dr_range = (0, 84)\<rparr>, \<lparr>dr_name = ascii ''b c'', dr_range = (85, 91)\<rparr>]) \<and>
   refs_to ascii_alphanumeric reference_demo
     [\<lparr>dr_name = ascii ''evidence/'' @ replicate 64 48, dr_range = (0, 84)\<rparr>, \<lparr>dr_name = ascii ''b c'', dr_range = (85, 91)\<rparr>] 91"
proof -
  let ?s = "ascii ''ask @ann.b. or x@y''" and ?refs = "[\<lparr>dr_name = ascii ''ann.b'', dr_range = (4, 10)\<rparr>]"
  let ?demo = "[\<lparr>dr_name = ascii ''evidence/'' @ replicate 64 48, dr_range = (0, 84)\<rparr>, \<lparr>dr_name = ascii ''b c'', dr_range = (85, 91)\<rparr>]"
  have table: "alphanumeric_table ascii_alphanumeric" by (simp add: alphanumeric_table_def ascii_alphanumeric_def)
  have result: "document_references ascii_alphanumeric ?s = Some (Ok ?refs)" by code_simp
  have prose: "list_all prose_line (split_lines ?s)" "str_len ?s = 18" by code_simp+
  have demo: "document_references ascii_alphanumeric reference_demo = Some (Ok ?demo)" by code_simp
  have len: "str_len reference_demo = 91" by code_simp
  note sound = document_references_sound [OF table]
  have "refs_to ascii_alphanumeric ?s ?refs 18 \<and> covered ascii_alphanumeric ?s ?refs 18"
    using sound [of ?s, unfolded result option.case result.case prose (2)] prose (1) by blast
  moreover have "refs_to ascii_alphanumeric reference_demo ?demo 91"
    using sound [of reference_demo, unfolded demo option.case result.case len] by blast
  ultimately show ?thesis using result demo by blast
qed

end
