(* ===== verification/Context_Selection.thy ===== *)
theory Context_Selection
  imports Branch_History
begin

text \<open>
  The selection of context units under token budgets, \<open>crates/workspace-document/src/context.rs\<close>: the longest recent
  suffix of each history that its budget admits, then the oldest units dropped, the host's first, until the complete
  input fits.

  The measurer the caller supplies (\<open>impl FnMut\<close>, a tokenizer) is a parameter with a state of its own: it takes a request
  and its state to a result and the next state. A range is the pair of its ends. \<open>recorded\<close> is the most general measurer:
  its state is the list of the requests so far, and each answer may depend on all of them.
\<close>

section \<open>Data\<close>

definition MAX_CONTEXT_MEASUREMENTS :: nat where "MAX_CONTEXT_MEASUREMENTS = 512"

record context_budget =
  cb_source_tokens :: nat
  cb_host_tokens :: nat
  cb_context_tokens :: nat
  cb_output_tokens :: nat

datatype context_measure =
    MeasureSource "nat \<times> nat"
  | MeasureHost "nat \<times> nat"
  | MeasureComplete "nat \<times> nat" "nat \<times> nat"

record context_selection =
  cs_source :: "nat \<times> nat"
  cs_host :: "nat \<times> nat"
  cs_measured_prompt_tokens :: nat
  cs_measurements :: nat

datatype 'e context_selection_error =
    InvalidContextBudget
  | UnitLimit
  | MeasurementLimit
  | Measurement 'e
  | MandatoryInputTooLarge

type_synonym ('s, 'e) measurer = "context_measure \<Rightarrow> 's \<Rightarrow> (nat, 'e) result \<times> 's"

type_synonym ('a, 's, 'e) measuring = "('a, 'e context_selection_error) result \<times> nat \<times> 's"

definition omitted_source_units :: "context_selection \<Rightarrow> nat" where
  "omitted_source_units self = fst (cs_source self)"

definition omitted_host_units :: "context_selection \<Rightarrow> nat" where
  "omitted_host_units self = fst (cs_host self)"

section \<open>Selection\<close>

definition bounded_measure :: "('s, 'e) measurer \<Rightarrow> context_measure \<Rightarrow> nat \<Rightarrow> 's \<Rightarrow> (nat, 's, 'e) measuring" where
  "bounded_measure meter request measurements s =
     (if MAX_CONTEXT_MEASUREMENTS \<le> measurements then (Err MeasurementLimit, measurements, s)
      else (case meter request s of
              (Ok tokens, s) \<Rightarrow> (Ok tokens, measurements + 1, s)
            | (Err e, s) \<Rightarrow> (Err (Measurement e), measurements + 1, s)))"

text \<open>The loop \<open>for start in (0..units).rev()\<close> of either history: the starts below the first number are still to come,
  the second is the start chosen so far.\<close>

fun extend_suffix ::
  "('s, 'e) measurer \<Rightarrow> (nat \<Rightarrow> context_measure) \<Rightarrow> nat \<Rightarrow> nat \<Rightarrow> nat \<Rightarrow> nat \<Rightarrow> 's \<Rightarrow> (nat, 's, 'e) measuring" where
  "extend_suffix meter request limit 0 chosen measurements s = (Ok chosen, measurements, s)"
| "extend_suffix meter request limit (Suc start) chosen measurements s =
     (case bounded_measure meter (request start) measurements s of
        (Err e, measurements, s) \<Rightarrow> (Err e, measurements, s)
      | (Ok tokens, measurements, s) \<Rightarrow>
          if limit < tokens then (Ok chosen, measurements, s)
          else extend_suffix meter request limit start start measurements s)"

definition history_start ::
  "('s, 'e) measurer \<Rightarrow> (nat \<Rightarrow> context_measure) \<Rightarrow> nat \<Rightarrow> nat \<Rightarrow> nat \<Rightarrow> 's \<Rightarrow> (nat, 's, 'e) measuring" where
  "history_start meter request limit units measurements s =
     (if limit \<noteq> 0 then extend_suffix meter request limit units units measurements s else (Ok units, measurements, s))"

definition fits :: "context_budget \<Rightarrow> nat \<Rightarrow> bool" where
  "fits budget tokens = is_some_and (\<lambda>total. total \<le> cb_context_tokens budget) (checked_add USIZE_MAX tokens (cb_output_tokens budget))"

function trim_loop ::
  "('s, 'e) measurer \<Rightarrow> context_budget \<Rightarrow> nat \<Rightarrow> nat \<Rightarrow> nat \<Rightarrow> nat \<Rightarrow> nat \<Rightarrow> 's \<Rightarrow> (context_selection, 's, 'e) measuring" where
  "trim_loop meter budget source_units host_units source_start host_start measurements s =
     (case bounded_measure meter (MeasureComplete (source_start, source_units) (host_start, host_units)) measurements s of
        (Err e, measurements, s) \<Rightarrow> (Err e, measurements, s)
      | (Ok tokens, measurements, s) \<Rightarrow>
          if fits budget tokens then
            (Ok \<lparr>cs_source = (source_start, source_units), cs_host = (host_start, host_units),
                 cs_measured_prompt_tokens = tokens, cs_measurements = measurements\<rparr>, measurements, s)
          else if host_start < host_units then
            trim_loop meter budget source_units host_units source_start (host_start + 1) measurements s
          else if source_start < source_units then
            trim_loop meter budget source_units host_units (source_start + 1) host_start measurements s
          else (Err MandatoryInputTooLarge, measurements, s))"
  by pat_completeness auto

termination
  by (relation "measure (\<lambda>(meter, budget, source_units, host_units, source_start, host_start, measurements, s).
      (source_units - source_start) + (host_units - host_start))") auto

declare trim_loop.simps [simp del]

definition select_context ::
  "context_budget \<Rightarrow> nat \<Rightarrow> nat \<Rightarrow> ('s, 'e) measurer \<Rightarrow> 's \<Rightarrow> (context_selection, 'e context_selection_error) result \<times> 's" where
  "select_context budget source_units host_units meter s =
     (if cb_context_tokens budget = 0 \<or> cb_context_tokens budget \<le> cb_output_tokens budget then (Err InvalidContextBudget, s)
      else if \<not> is_some_and (\<lambda>count. count \<le> MAX_DOCUMENT_PARTS) (checked_add USIZE_MAX source_units host_units)
      then (Err UnitLimit, s)
      else
        (case history_start meter (\<lambda>start. MeasureSource (start, source_units)) (cb_source_tokens budget) source_units 0 s of
           (Err e, measurements, s) \<Rightarrow> (Err e, s)
         | (Ok source_start, measurements, s) \<Rightarrow>
             (case history_start meter (\<lambda>start. MeasureHost (start, host_units)) (cb_host_tokens budget) host_units measurements s of
                (Err e, measurements, s) \<Rightarrow> (Err e, s)
              | (Ok host_start, measurements, s) \<Rightarrow>
                  (case trim_loop meter budget source_units host_units source_start host_start measurements s of
                     (r, measurements, s) \<Rightarrow> (r, s)))))"

definition recorded :: "(context_measure list \<Rightarrow> context_measure \<Rightarrow> (nat, 'e) result) \<Rightarrow> (context_measure list, 'e) measurer" where
  "recorded cost request log = (cost log request, log @ [request])"

section \<open>What is selected\<close>

text \<open>The start of the longest suffix all of whose own suffixes stay within a budget, and the measurements that finds it:
  one for each unit taken, and one for the unit that is too many.\<close>

definition longest_suffix :: "(nat \<Rightarrow> (nat, 'e) result) \<Rightarrow> nat \<Rightarrow> nat \<Rightarrow> nat \<Rightarrow> bool" where
  "longest_suffix count limit units start \<longleftrightarrow>
     (if limit = 0 then start = units
      else start \<le> units \<and> (\<forall>k. start \<le> k \<and> k < units \<longrightarrow> (\<exists>t. count k = Ok t \<and> t \<le> limit)) \<and>
        (0 < start \<longrightarrow> (\<exists>t. count (start - 1) = Ok t \<and> limit < t)))"

definition suffix_measurements :: "nat \<Rightarrow> nat \<Rightarrow> nat \<Rightarrow> nat" where
  "suffix_measurements limit units start = (if limit = 0 then 0 else units - start + (if 0 < start then 1 else 0))"

text \<open>The pairs of starts in the order in which complete inputs are tried: the host's units are dropped first.\<close>

definition candidates :: "nat \<Rightarrow> nat \<Rightarrow> nat \<Rightarrow> nat \<Rightarrow> (nat \<times> nat) list" where
  "candidates source_start source_units host_start host_units =
     map (Pair source_start) [host_start..<host_units] @ map (\<lambda>start. (start, host_units)) [source_start..<Suc source_units]"

definition first_fit :: "context_budget \<Rightarrow> ('a \<Rightarrow> (nat, 'e) result) \<Rightarrow> 'a list \<Rightarrow> nat \<Rightarrow> nat \<Rightarrow> bool" where
  "first_fit budget count tried k tokens \<longleftrightarrow>
     k < length tried \<and> count (tried ! k) = Ok tokens \<and> fits budget tokens \<and>
     (\<forall>j < k. \<exists>t. count (tried ! j) = Ok t \<and> \<not> fits budget t)"

text \<open>A measurer that gives the same request the same answer, whatever its state.\<close>

definition answers_with :: "('s, 'e) measurer \<Rightarrow> (context_measure \<Rightarrow> (nat, 'e) result) \<Rightarrow> bool" where
  "answers_with meter cost \<longleftrightarrow> (\<forall>request s. fst (meter request s) = cost request)"

lemma bounded_measure_pure:
  assumes "answers_with meter cost"
  shows "bounded_measure meter q c s =
    (if MAX_CONTEXT_MEASUREMENTS \<le> c then (Err MeasurementLimit, c, s)
     else (case cost q of Ok t \<Rightarrow> (Ok t, c + 1, snd (meter q s)) | Err e \<Rightarrow> (Err (Measurement e), c + 1, snd (meter q s))))"
proof -
  have "fst (meter q s) = cost q" using assms by (simp add: answers_with_def)
  then show ?thesis by (cases "meter q s") (auto simp: bounded_measure_def split: result.split)
qed

lemma longest_suffix_le: "longest_suffix count limit units start \<Longrightarrow> start \<le> units"
  by (simp add: longest_suffix_def split: if_splits)

lemma longest_suffix_Suc:
  assumes "limit \<noteq> 0"
  shows "longest_suffix count limit (Suc n) start \<longleftrightarrow>
    (\<exists>t. count n = Ok t \<and> (if limit < t then start = Suc n else start \<le> n \<and> longest_suffix count limit n start))"
proof -
  let ?within = "\<lambda>k. \<exists>t. count k = Ok t \<and> t \<le> limit"
  have all: "(\<forall>k. start \<le> k \<and> k < Suc n \<longrightarrow> ?within k) \<longleftrightarrow> ?within n \<and> (\<forall>k. start \<le> k \<and> k < n \<longrightarrow> ?within k)" if "start \<le> n"
    using that by (metis less_Suc_eq)
  show ?thesis
  proof (cases "start \<le> n")
    case True
    then show ?thesis unfolding longest_suffix_def all [OF True] using assms by (cases "count n") auto
  next
    case False
    then show ?thesis using assms by (auto simp: longest_suffix_def le_Suc_eq)
  qed
qed

lemma extend_suffix_exact:
  assumes pure: "answers_with meter cost" and "limit \<noteq> 0" "c \<le> MAX_CONTEXT_MEASUREMENTS"
  shows "(\<exists>s'. extend_suffix meter request limit n n c s = (Ok start, c', s')) \<longleftrightarrow>
    longest_suffix (\<lambda>k. cost (request k)) limit n start \<and> c' = c + suffix_measurements limit n start \<and> c' \<le> MAX_CONTEXT_MEASUREMENTS"
  using assms (3)
proof (induction n arbitrary: c s)
  case 0
  then show ?case using assms (2) by (auto simp: longest_suffix_def suffix_measurements_def)
next
  case (Suc n)
  note split = longest_suffix_Suc [OF assms (2), where start = start and n = n]
  have more: "suffix_measurements limit (Suc n) start = Suc (suffix_measurements limit n start)" if "start \<le> n"
    using that assms (2) by (simp add: suffix_measurements_def)
  have last: "suffix_measurements limit (Suc n) (Suc n) = 1" using assms (2) by (simp add: suffix_measurements_def)
  show ?case
  proof (cases "MAX_CONTEXT_MEASUREMENTS \<le> c")
    case True
    moreover have "longest_suffix q limit (Suc n) start \<Longrightarrow> 0 < suffix_measurements limit (Suc n) start" for q :: "nat \<Rightarrow> (nat, 'e) result"
      using assms (2) by (auto simp: longest_suffix_def suffix_measurements_def)
    ultimately show ?thesis by (fastforce simp: bounded_measure_pure [OF pure])
  next
    case False
    show ?thesis
    proof (cases "cost (request n)")
      case (Ok t)
      then show ?thesis
        using False Suc.IH [of "c + 1"] more last longest_suffix_le [of _ limit n start]
        by (auto simp: bounded_measure_pure [OF pure] split)
    qed (use False in \<open>simp add: bounded_measure_pure [OF pure] split\<close>)
  qed
qed

lemma history_start_exact:
  assumes "answers_with meter cost" "c \<le> MAX_CONTEXT_MEASUREMENTS"
  shows "(\<exists>s'. history_start meter request limit n c s = (Ok start, c', s')) \<longleftrightarrow>
    longest_suffix (\<lambda>k. cost (request k)) limit n start \<and> c' = c + suffix_measurements limit n start \<and> c' \<le> MAX_CONTEXT_MEASUREMENTS"
proof (cases "limit = 0")
  case True
  then show ?thesis using assms (2) by (auto simp: history_start_def longest_suffix_def suffix_measurements_def)
next
  case False
  then show ?thesis using extend_suffix_exact [OF assms (1) False assms (2)] by (simp add: history_start_def)
qed

lemma candidates_step:
  assumes "source_start \<le> source_units" "host_start \<le> host_units"
  shows "candidates source_start source_units host_start host_units = (source_start, host_start) #
    (if host_start < host_units then candidates source_start source_units (Suc host_start) host_units
     else if source_start < source_units then candidates (Suc source_start) source_units host_start host_units else [])"
  using assms by (auto simp: candidates_def upt_conv_Cons simp del: upt_Suc)

lemma first_fit_Cons:
  "first_fit budget count (x # tried) k tokens \<longleftrightarrow>
     (\<exists>t. count x = Ok t \<and>
        (if fits budget t then k = 0 \<and> tokens = t else \<exists>j. k = Suc j \<and> first_fit budget count tried j tokens))"
proof (cases k)
  case (Suc j)
  then show ?thesis by (auto simp: first_fit_def All_less_Suc2)
qed (auto simp: first_fit_def)

lemma first_fit_Nil [simp]: "\<not> first_fit budget count [] k tokens"
  by (simp add: first_fit_def)

definition trimmed :: "context_budget \<Rightarrow> (nat \<times> nat \<Rightarrow> (nat, 'e) result) \<Rightarrow> (nat \<times> nat) list \<Rightarrow> nat \<Rightarrow> context_selection \<Rightarrow> bool" where
  "trimmed budget count tried c selected \<longleftrightarrow>
     (\<exists>k. first_fit budget count tried k (cs_measured_prompt_tokens selected) \<and>
        (fst (cs_source selected), fst (cs_host selected)) = tried ! k \<and>
        cs_measurements selected = c + Suc k \<and> c + Suc k \<le> MAX_CONTEXT_MEASUREMENTS)"

lemma trimmed_Nil [simp]: "\<not> trimmed budget count [] c selected"
  by (simp add: trimmed_def)

lemma trimmed_Cons:
  "trimmed budget count (x # tried) c selected \<longleftrightarrow> c < MAX_CONTEXT_MEASUREMENTS \<and>
     (\<exists>t. count x = Ok t \<and>
        (if fits budget t
         then cs_measured_prompt_tokens selected = t \<and> (fst (cs_source selected), fst (cs_host selected)) = x \<and> cs_measurements selected = Suc c
         else trimmed budget count tried (Suc c) selected))"
proof (cases "count x")
  case (Ok t)
  then show ?thesis by (cases "fits budget t") (auto simp: trimmed_def first_fit_Cons)
qed (simp add: trimmed_def first_fit_Cons)

lemma trim_loop_exact:
  assumes pure: "answers_with meter cost" and "source_start \<le> source_units" "host_start \<le> host_units"
  shows "(\<exists>s'. trim_loop meter budget source_units host_units source_start host_start c s = (Ok selected, c', s')) \<longleftrightarrow>
    trimmed budget (\<lambda>(a, b). cost (MeasureComplete (a, source_units) (b, host_units)))
      (candidates source_start source_units host_start host_units) c selected \<and>
    snd (cs_source selected) = source_units \<and> snd (cs_host selected) = host_units \<and> c' = cs_measurements selected"
  using assms (2,3)
proof (induction "source_units - source_start + (host_units - host_start)" arbitrary: source_start host_start c s rule: less_induct)
  case less
  let ?q = "MeasureComplete (source_start, source_units) (host_start, host_units)"
  note step = trim_loop.simps [of meter budget source_units host_units source_start host_start c s]
    bounded_measure_pure [OF pure] candidates_step [OF less.prems] trimmed_Cons
  have here: "selected = \<lparr>cs_source = (source_start, source_units), cs_host = (host_start, host_units), cs_measured_prompt_tokens = t, cs_measurements = d\<rparr> \<longleftrightarrow>
      cs_measured_prompt_tokens selected = t \<and> (fst (cs_source selected), fst (cs_host selected)) = (source_start, host_start) \<and>
      cs_measurements selected = d \<and> snd (cs_source selected) = source_units \<and> snd (cs_host selected) = host_units" for t d
    by (cases selected) auto
  show ?case
  proof (cases "MAX_CONTEXT_MEASUREMENTS \<le> c \<or> (\<exists>e. cost ?q = Err e)")
    case True
    then show ?thesis by (auto simp: step)
  next
    case False
    then obtain t where t: "cost ?q = Ok t" by (cases "cost ?q") auto
    consider "fits budget t" | "\<not> fits budget t" "host_start < host_units" | "\<not> fits budget t" "\<not> host_start < host_units" "source_start < source_units"
      | "\<not> fits budget t" "\<not> host_start < host_units" "\<not> source_start < source_units" by blast
    then show ?thesis
    proof cases
      case 1
      then show ?thesis using False t here [of t "Suc c"] by (auto simp: step)
    next
      case 2
      then show ?thesis using False t less.hyps [of source_start "Suc host_start" "Suc c"] less.prems by (simp add: step)
    next
      case 3
      let ?tried = "candidates (Suc source_start) source_units host_start host_units"
      have "candidates source_start source_units host_start host_units = (source_start, host_start) # ?tried"
        using 3 by (simp only: candidates_step [OF less.prems] if_True if_False)
      moreover have "trim_loop meter budget source_units host_units source_start host_start c s =
          trim_loop meter budget source_units host_units (Suc source_start) host_start (Suc c) (snd (meter ?q s))"
        using False t 3 by (simp add: step (1,2))
      ultimately show ?thesis using False t 3 (1) less.hyps [OF _ _ less.prems (2), of "Suc source_start" "Suc c"] 3 (3) by (simp add: trimmed_Cons)
    next
      case 4
      then show ?thesis using False t by (simp add: step)
    qed
  qed
qed

text \<open>The selection without loops: each history starts at its longest admissible suffix, and the first pair of starts
  that fits is taken, within the bound on measurements.\<close>

definition selects :: "context_budget \<Rightarrow> nat \<Rightarrow> nat \<Rightarrow> (context_measure \<Rightarrow> (nat, 'e) result) \<Rightarrow> context_selection \<Rightarrow> bool" where
  "selects budget source_units host_units cost selected \<longleftrightarrow>
     cb_output_tokens budget < cb_context_tokens budget \<and> source_units + host_units \<le> MAX_DOCUMENT_PARTS \<and>
     snd (cs_source selected) = source_units \<and> snd (cs_host selected) = host_units \<and>
     (\<exists>source_start host_start.
        longest_suffix (\<lambda>start. cost (MeasureSource (start, source_units))) (cb_source_tokens budget) source_units source_start \<and>
        longest_suffix (\<lambda>start. cost (MeasureHost (start, host_units))) (cb_host_tokens budget) host_units host_start \<and>
        trimmed budget (\<lambda>(a, b). cost (MeasureComplete (a, source_units) (b, host_units)))
          (candidates source_start source_units host_start host_units)
          (suffix_measurements (cb_source_tokens budget) source_units source_start +
           suffix_measurements (cb_host_tokens budget) host_units host_start) selected)"

lemma select_context_iff:
  assumes pure: "answers_with meter cost"
  shows "fst (select_context budget source_units host_units meter s) = Ok selected \<longleftrightarrow> selects budget source_units host_units cost selected"
proof -
  let ?S = "\<lambda>start. MeasureSource (start, source_units)" and ?H = "\<lambda>start. MeasureHost (start, host_units)"
  let ?admitted = "cb_output_tokens budget < cb_context_tokens budget \<and> source_units + host_units \<le> MAX_DOCUMENT_PARTS"
  let ?runs = "\<exists>a c s1 b d s2 e s3. history_start meter ?S (cb_source_tokens budget) source_units 0 s = (Ok a, c, s1) \<and>
         history_start meter ?H (cb_host_tokens budget) host_units c s1 = (Ok b, d, s2) \<and>
         trim_loop meter budget source_units host_units a b d s2 = (Ok selected, e, s3)"
  have guard: "fst (select_context budget source_units host_units meter s) = Ok selected \<longleftrightarrow> ?admitted \<and> ?runs"
    by (auto simp: select_context_def checked_add_def MAX_DOCUMENT_PARTS_def USIZE_MAX_def U64_MAX_def split: prod.splits result.splits)
  have trim: "(\<exists>e s3. trim_loop meter budget source_units host_units a b d s2 = (Ok selected, e, s3)) \<longleftrightarrow>
      trimmed budget (\<lambda>(a, b). cost (MeasureComplete (a, source_units) (b, host_units))) (candidates a source_units b host_units) d selected \<and>
      snd (cs_source selected) = source_units \<and> snd (cs_host selected) = host_units" if "a \<le> source_units" "b \<le> host_units" for a b d s2
    using trim_loop_exact [OF pure that, where budget = budget and c = d and s = s2 and selected = selected] by blast
  note first = history_start_exact [OF pure, of 0 ?S "cb_source_tokens budget" source_units s]
  note second = history_start_exact [OF pure, of _ ?H "cb_host_tokens budget" host_units]
  show ?thesis unfolding guard
  proof (rule iffI)
    assume "?admitted \<and> ?runs"
    then obtain a c s1 b d s2 e s3 where run: "history_start meter ?S (cb_source_tokens budget) source_units 0 s = (Ok a, c, s1)"
      "history_start meter ?H (cb_host_tokens budget) host_units c s1 = (Ok b, d, s2)"
      "trim_loop meter budget source_units host_units a b d s2 = (Ok selected, e, s3)"
      by blast
    from first run (1) have a: "longest_suffix (\<lambda>start. cost (?S start)) (cb_source_tokens budget) source_units a"
      "c = suffix_measurements (cb_source_tokens budget) source_units a" "c \<le> MAX_CONTEXT_MEASUREMENTS" by fastforce+
    from second [OF a (3)] run (2) have b: "longest_suffix (\<lambda>start. cost (?H start)) (cb_host_tokens budget) host_units b"
      "d = c + suffix_measurements (cb_host_tokens budget) host_units b" by blast+
    show "selects budget source_units host_units cost selected"
      unfolding selects_def
      using a b trim [OF longest_suffix_le [OF a (1)] longest_suffix_le [OF b (1)]] run (3) \<open>?admitted \<and> _\<close>
      by blast
  next
    assume "selects budget source_units host_units cost selected"
    then obtain a b where sel: ?admitted "snd (cs_source selected) = source_units" "snd (cs_host selected) = host_units"
      and ab: "longest_suffix (\<lambda>start. cost (?S start)) (cb_source_tokens budget) source_units a"
        "longest_suffix (\<lambda>start. cost (?H start)) (cb_host_tokens budget) host_units b"
      and t: "trimmed budget (\<lambda>(a, b). cost (MeasureComplete (a, source_units) (b, host_units))) (candidates a source_units b host_units)
          (suffix_measurements (cb_source_tokens budget) source_units a + suffix_measurements (cb_host_tokens budget) host_units b) selected"
      unfolding selects_def by blast
    let ?c = "suffix_measurements (cb_source_tokens budget) source_units a"
    let ?d = "?c + suffix_measurements (cb_host_tokens budget) host_units b"
    have "?d \<le> MAX_CONTEXT_MEASUREMENTS" using t by (auto simp: trimmed_def)
    then obtain s1 where "history_start meter ?S (cb_source_tokens budget) source_units 0 s = (Ok a, ?c, s1)"
      using first [of a ?c] ab (1) by auto
    moreover obtain s2 where "history_start meter ?H (cb_host_tokens budget) host_units ?c s1 = (Ok b, ?d, s2)"
      using second [of ?c s1 b ?d] ab (2) \<open>?d \<le> _\<close> by auto
    moreover obtain e s3 where "trim_loop meter budget source_units host_units a b ?d s2 = (Ok selected, e, s3)"
      using trim [OF longest_suffix_le [OF ab (1)] longest_suffix_le [OF ab (2)]] t sel by blast
    ultimately show "?admitted \<and> ?runs" using sel (1) by blast
  qed
qed

section \<open>What is measured\<close>

definition answered :: "(context_measure list \<Rightarrow> context_measure \<Rightarrow> (nat, 'e) result) \<Rightarrow> context_measure list \<Rightarrow> bool" where
  "answered cost log \<longleftrightarrow> (\<forall>i < length log. is_ok (cost (take i log) (log ! i)))"

definition last_answer :: "(context_measure list \<Rightarrow> context_measure \<Rightarrow> (nat, 'e) result) \<Rightarrow> context_measure list \<Rightarrow> (nat, 'e) result" where
  "last_answer cost log = cost (butlast log) (last log)"

text \<open>What the requests a run has made, once it is admitted, say about its outcome: only a failed measurement is reported as one, it is the
  last, and the limit is reported after exactly as many measurements as it allows.\<close>

definition accounts :: "(context_measure list \<Rightarrow> context_measure \<Rightarrow> (nat, 'e) result) \<Rightarrow>
    ('a, 'e context_selection_error) result \<Rightarrow> context_measure list \<Rightarrow> bool" where
  "accounts cost r log \<longleftrightarrow> length log \<le> MAX_CONTEXT_MEASUREMENTS \<and>
     (case r of
        Err (Measurement e) \<Rightarrow> log \<noteq> [] \<and> answered cost (butlast log) \<and> last_answer cost log = Err e
      | Err MeasurementLimit \<Rightarrow> answered cost log \<and> length log = MAX_CONTEXT_MEASUREMENTS
      | Err InvalidContextBudget \<Rightarrow> False
      | Err UnitLimit \<Rightarrow> False
      | _ \<Rightarrow> answered cost log)"

lemma answered_snoc [simp]: "answered cost (log @ [q]) \<longleftrightarrow> answered cost log \<and> is_ok (cost log q)"
  by (auto simp: answered_def less_Suc_eq nth_append)

lemma last_answer_snoc [simp]: "last_answer cost (log @ [q]) = cost log q"
  by (simp add: last_answer_def)

lemma bounded_measure_recorded:
  "bounded_measure (recorded cost) q (length log) log =
     (if MAX_CONTEXT_MEASUREMENTS \<le> length log then (Err MeasurementLimit, length log, log)
      else (case cost log q of
              Ok t \<Rightarrow> (Ok t, length (log @ [q]), log @ [q])
            | Err e \<Rightarrow> (Err (Measurement e), length (log @ [q]), log @ [q])))"
  by (simp add: bounded_measure_def recorded_def split: result.split)

lemma bounded_measure_accounts:
  assumes "bounded_measure (recorded cost) q (length log) log = (r, c, log')" "accounts cost (Ok ()) log"
  shows "c = length log'" "set log' \<subseteq> insert q (set log)" "accounts cost r log'"
    "\<And>t. r = Ok t \<Longrightarrow> log' = log @ [q] \<and> cost log q = Ok t" "\<And>e. r = Err e \<Longrightarrow> e \<noteq> MandatoryInputTooLarge"
  using assms by (auto simp: bounded_measure_recorded accounts_def split: if_splits result.splits)

lemma extend_suffix_accounts:
  assumes "extend_suffix (recorded cost) request limit n chosen (length log) log = (r, c, log')" "accounts cost (Ok ()) log"
  shows "c = length log' \<and> set log' \<subseteq> set log \<union> request ` {..<n} \<and> accounts cost r log' \<and>
    (\<forall>start. r = Ok start \<longrightarrow> start = chosen \<or> start < n) \<and> r \<noteq> Err MandatoryInputTooLarge"
  using assms
proof (induction n arbitrary: chosen log)
  case (Suc n)
  obtain r1 c1 log1 where one: "bounded_measure (recorded cost) (request n) (length log) log = (r1, c1, log1)"
    by (cases "bounded_measure (recorded cost) (request n) (length log) log") auto
  note facts = bounded_measure_accounts [OF one Suc.prems (2)]
  show ?case
  proof (cases r1)
    case (Ok t)
    then have "accounts cost (Ok ()) log1" using facts (3) by (simp add: accounts_def)
    then have rest: "extend_suffix (recorded cost) request limit n n (length log1) log1 = (r, c, log') \<Longrightarrow>
        c = length log' \<and> set log' \<subseteq> set log1 \<union> request ` {..<n} \<and> accounts cost r log' \<and>
        (\<forall>start. r = Ok start \<longrightarrow> start = n \<or> start < n) \<and> r \<noteq> Err MandatoryInputTooLarge"
      using Suc.IH by blast
    show ?thesis
    proof (cases "limit < t")
      case True
      then have "r = Ok chosen \<and> c = length log1 \<and> log' = log1" using Suc.prems (1) one Ok facts (1) by auto
      then show ?thesis using facts (2) \<open>accounts cost (Ok ()) log1\<close> by (auto simp: accounts_def)
    next
      case False
      then have "extend_suffix (recorded cost) request limit n n (length log1) log1 = (r, c, log')"
        using Suc.prems (1) one Ok facts (1) by simp
      from rest [OF this] show ?thesis using facts (2) by (auto simp: lessThan_Suc)
    qed
  next
    case (Err e)
    then have "r = Err e \<and> c = length log1 \<and> log' = log1" using Suc.prems (1) one facts (1) by auto
    then show ?thesis using facts (2,3,5) Err by (auto simp: accounts_def split: context_selection_error.splits)
  qed
qed (auto simp: accounts_def)

lemma history_start_accounts:
  assumes "history_start (recorded cost) request limit n (length log) log = (r, c, log')" "accounts cost (Ok ()) log"
  shows "c = length log'" "set log' \<subseteq> set log \<union> request ` (if limit = 0 then {} else {..<n})" "accounts cost r log'"
    "\<And>start. r = Ok start \<Longrightarrow> start \<le> n \<and> (limit = 0 \<longrightarrow> start = n)" "r \<noteq> Err MandatoryInputTooLarge"
proof -
  have "c = length log' \<and> set log' \<subseteq> set log \<union> request ` (if limit = 0 then {} else {..<n}) \<and> accounts cost r log' \<and>
      (\<forall>start. r = Ok start \<longrightarrow> start \<le> n \<and> (limit = 0 \<longrightarrow> start = n)) \<and> r \<noteq> Err MandatoryInputTooLarge"
  proof (cases "limit = 0")
    case True
    then have "r = Ok n \<and> c = length log \<and> log' = log" using assms (1) by (auto simp: history_start_def)
    then show ?thesis using assms (2) True by (simp add: accounts_def)
  next
    case False
    then have "extend_suffix (recorded cost) request limit n n (length log) log = (r, c, log')" using assms (1) by (simp add: history_start_def)
    from extend_suffix_accounts [OF this assms (2)] False show ?thesis by auto
  qed
  then show "c = length log'" "set log' \<subseteq> set log \<union> request ` (if limit = 0 then {} else {..<n})" "accounts cost r log'"
    "\<And>start. r = Ok start \<Longrightarrow> start \<le> n \<and> (limit = 0 \<longrightarrow> start = n)" "r \<noteq> Err MandatoryInputTooLarge" by blast+
qed

text \<open>How a run of the last loop ends: with the selection it has just measured, or with the mandatory input alone.\<close>

definition ends :: "(context_measure list \<Rightarrow> context_measure \<Rightarrow> (nat, 'e) result) \<Rightarrow> context_budget \<Rightarrow> nat \<Rightarrow> nat \<Rightarrow>
    (context_selection, 'e context_selection_error) result \<Rightarrow> context_measure list \<Rightarrow> bool" where
  "ends cost budget source_units host_units r log \<longleftrightarrow>
     (case r of
        Ok selected \<Rightarrow> log \<noteq> [] \<and> last log = MeasureComplete (cs_source selected) (cs_host selected) \<and>
          last_answer cost log = Ok (cs_measured_prompt_tokens selected) \<and> fits budget (cs_measured_prompt_tokens selected) \<and>
          cs_measurements selected = length log
      | Err MandatoryInputTooLarge \<Rightarrow> log \<noteq> [] \<and> last log = MeasureComplete (source_units, source_units) (host_units, host_units) \<and>
          (\<exists>tokens. last_answer cost log = Ok tokens \<and> \<not> fits budget tokens)
      | Err e \<Rightarrow> True)"

lemma trim_loop_accounts:
  assumes "trim_loop (recorded cost) budget n m a b (length log) log = (r, c, log')" "accounts cost (Ok ()) log" "a \<le> n" "b \<le> m"
  shows "set log' \<subseteq> set log \<union> {MeasureComplete (i, n) (j, m) | i j. a \<le> i \<and> i \<le> n \<and> b \<le> j \<and> j \<le> m} \<and>
    accounts cost r log' \<and> ends cost budget n m r log'"
  using assms
proof (induction "n - a + (m - b)" arbitrary: a b log rule: less_induct)
  case less
  let ?q = "MeasureComplete (a, n) (b, m)"
  let ?R = "\<lambda>a b. {MeasureComplete (i, n) (j, m) | i j. a \<le> i \<and> i \<le> n \<and> b \<le> j \<and> j \<le> m}"
  obtain r1 c1 log1 where one: "bounded_measure (recorded cost) ?q (length log) log = (r1, c1, log1)"
    by (cases "bounded_measure (recorded cost) ?q (length log) log") auto
  note facts = bounded_measure_accounts [OF one less.prems (2)]
  have here: "set log1 \<subseteq> set log \<union> ?R a b" using facts (2) less.prems (3,4) by auto
  have mono: "?R (Suc a) b \<subseteq> ?R a b" "?R a (Suc b) \<subseteq> ?R a b" by (auto intro: Suc_leD)
  note loop = less.prems (1) [unfolded trim_loop.simps [of _ _ n m a b] one]
  show ?case
  proof (cases r1)
    case (Err e)
    then have "r = Err e \<and> log' = log1" using loop by simp
    then show ?thesis using here facts (3) facts (5) [OF Err] Err
      by (auto simp: accounts_def ends_def split: context_selection_error.splits)
  next
    case (Ok t)
    have log1: "log1 = log @ [?q]" "cost log ?q = Ok t" using facts (4) [OF Ok] by simp_all
    have acc: "accounts cost (Ok ()) log1" using facts (3) Ok by (simp add: accounts_def)
    consider "fits budget t" | "\<not> fits budget t" "b < m" | "\<not> fits budget t" "\<not> b < m" "a < n" | "\<not> fits budget t" "\<not> b < m" "\<not> a < n" by blast
    then show ?thesis
    proof cases
      case 1
      then have "r = Ok \<lparr>cs_source = (a, n), cs_host = (b, m), cs_measured_prompt_tokens = t, cs_measurements = length log1\<rparr> \<and> log' = log1"
        using loop Ok facts (1) by auto
      then show ?thesis using here acc log1 1 by (simp add: ends_def accounts_def)
    next
      case 2
      then have "trim_loop (recorded cost) budget n m a (Suc b) (length log1) log1 = (r, c, log')" using loop Ok facts (1) by simp
      moreover have "n - a + (m - Suc b) < n - a + (m - b)" "Suc b \<le> m" using 2 (2) by simp_all
      ultimately have "set log' \<subseteq> set log1 \<union> ?R a (Suc b) \<and> accounts cost r log' \<and> ends cost budget n m r log'"
        using less.hyps acc less.prems (3) by blast
      then show ?thesis using here mono (2) by blast
    next
      case 3
      then have "trim_loop (recorded cost) budget n m (Suc a) b (length log1) log1 = (r, c, log')" using loop Ok facts (1) by simp
      moreover have "n - Suc a + (m - b) < n - a + (m - b)" "Suc a \<le> n" using 3 (3) by simp_all
      ultimately have "set log' \<subseteq> set log1 \<union> ?R (Suc a) b \<and> accounts cost r log' \<and> ends cost budget n m r log'"
        using less.hyps acc less.prems (4) by blast
      then show ?thesis using here mono (1) by blast
    next
      case 4
      then have "r = Err MandatoryInputTooLarge \<and> log' = log1" "a = n" "b = m" using loop Ok facts (1) less.prems (3,4) by simp_all
      then show ?thesis using here acc log1 4 (1) by (simp add: ends_def accounts_def)
    qed
  qed
qed

text \<open>The requests a selection may make: ranges that end where their history ends, of a history its budget admits.\<close>

definition permitted :: "context_budget \<Rightarrow> nat \<Rightarrow> nat \<Rightarrow> context_measure \<Rightarrow> bool" where
  "permitted budget source_units host_units request \<longleftrightarrow>
     (case request of
        MeasureSource (start, stop) \<Rightarrow> cb_source_tokens budget \<noteq> 0 \<and> start < stop \<and> stop = source_units
      | MeasureHost (start, stop) \<Rightarrow> cb_host_tokens budget \<noteq> 0 \<and> start < stop \<and> stop = host_units
      | MeasureComplete (source, source_stop) (host, host_stop) \<Rightarrow>
          source \<le> source_stop \<and> source_stop = source_units \<and> host \<le> host_stop \<and> host_stop = host_units \<and>
          (cb_source_tokens budget = 0 \<longrightarrow> source = source_units) \<and> (cb_host_tokens budget = 0 \<longrightarrow> host = host_units))"

lemma select_context_accounting:
  assumes run: "select_context budget n m (recorded cost) [] = (r, log)"
    and admitted: "cb_output_tokens budget < cb_context_tokens budget" "n + m \<le> MAX_DOCUMENT_PARTS"
  shows "(\<forall>request \<in> set log. permitted budget n m request) \<and> accounts cost r log \<and> ends cost budget n m r log"
proof -
  let ?S = "\<lambda>start. MeasureSource (start, n)" and ?H = "\<lambda>start. MeasureHost (start, m)"
  have start: "accounts cost (Ok ()) []" by (simp add: accounts_def answered_def)
  obtain r1 c1 log1 where one: "history_start (recorded cost) ?S (cb_source_tokens budget) n (length ([] :: context_measure list)) [] = (r1, c1, log1)"
    by (cases "history_start (recorded cost) ?S (cb_source_tokens budget) n (length ([] :: context_measure list)) []") auto
  note facts1 = history_start_accounts [OF one start]
  have ok1: "\<forall>request \<in> set log1. permitted budget n m request" using facts1 (2) by (auto simp: permitted_def split: if_splits)
  show ?thesis
  proof (cases r1)
    case (Err e)
    then have "r = Err e \<and> log = log1" using run admitted one
      by (auto simp: select_context_def checked_add_def MAX_DOCUMENT_PARTS_def USIZE_MAX_def U64_MAX_def)
    then show ?thesis using ok1 facts1 (3,5) Err by (auto simp: accounts_def ends_def split: context_selection_error.splits)
  next
    case (Ok a)
    then have acc1: "accounts cost (Ok ()) log1" using facts1 (3) by (simp add: accounts_def)
    obtain r2 c2 log2 where two: "history_start (recorded cost) ?H (cb_host_tokens budget) m (length log1) log1 = (r2, c2, log2)"
      by (cases "history_start (recorded cost) ?H (cb_host_tokens budget) m (length log1) log1") auto
    note facts2 = history_start_accounts [OF two acc1]
    have ok2: "\<forall>request \<in> set log2. permitted budget n m request" using ok1 facts2 (2) by (fastforce simp: permitted_def split: if_splits)
    show ?thesis
    proof (cases r2)
      case (Err e)
      then have "r = Err e \<and> log = log2" using run admitted one two Ok facts1 (1)
        by (auto simp: select_context_def checked_add_def MAX_DOCUMENT_PARTS_def USIZE_MAX_def U64_MAX_def)
      then show ?thesis using ok2 facts2 (3,5) Err by (auto simp: accounts_def ends_def split: context_selection_error.splits)
    next
      case (Ok b)
      then have acc2: "accounts cost (Ok ()) log2" using facts2 (3) by (simp add: accounts_def)
      have "fst (trim_loop (recorded cost) budget n m a b (length log2) log2) = r \<and> snd (snd (trim_loop (recorded cost) budget n m a b (length log2) log2)) = log"
        using run admitted one two \<open>r1 = Ok a\<close> Ok facts1 (1) facts2 (1)
        by (auto simp: select_context_def checked_add_def MAX_DOCUMENT_PARTS_def USIZE_MAX_def U64_MAX_def split: prod.splits)
      then obtain c where trim: "trim_loop (recorded cost) budget n m a b (length log2) log2 = (r, c, log)" by (metis prod.collapse)
      have ab: "a \<le> n" "b \<le> m" "cb_source_tokens budget = 0 \<longrightarrow> a = n" "cb_host_tokens budget = 0 \<longrightarrow> b = m"
        using facts1 (4) [OF \<open>r1 = Ok a\<close>] facts2 (4) [OF Ok] by simp_all
      note last = trim_loop_accounts [OF trim acc2 ab (1,2)]
      moreover have "permitted budget n m request" if member: "request \<in> set log" for request
      proof (cases "request \<in> set log2")
        case False
        then obtain i j where "request = MeasureComplete (i, n) (j, m)" "a \<le> i" "i \<le> n" "b \<le> j" "j \<le> m" using last member by blast
        then show ?thesis using ab by (auto simp: permitted_def)
      qed (use ok2 in blast)
      ultimately show ?thesis by blast
    qed
  qed
qed

section \<open>Properties\<close>

definition sample_budget :: context_budget where
  "sample_budget = \<lparr>cb_source_tokens = 50, cb_host_tokens = 50, cb_context_tokens = 100, cb_output_tokens = 10\<rparr>"

fun sample_cost :: "context_measure \<Rightarrow> (nat, unit) result" where
  "sample_cost (MeasureSource (a, b)) = Ok (10 * (b - a))"
| "sample_cost (MeasureHost (a, b)) = Ok (10 * (b - a))"
| "sample_cost (MeasureComplete (a, b) (c, d)) = Ok (20 + 10 * (b - a + (d - c)))"

text \<open>C38. With a measurer that answers each request alike, \<open>select_context\<close> succeeds exactly when the budget and the unit
  counts are admissible and some selection meets the description without loops, and it returns that selection: each
  history starts at the longest suffix whose every suffix stays within the history's budget, and of the inputs obtained
  by dropping units from there, the host's before the source's and the oldest first, the first that fits beside the
  reserved output is taken, with its measured size and the number of measurements, at most 512.\<close>

theorem select_context_exact:
  assumes "answers_with meter cost"
  shows "fst (select_context budget source_units host_units meter s) = Ok selected \<longleftrightarrow>
    selects budget source_units host_units cost selected"
  using assms by (rule select_context_iff)

theorem select_context_exact_witness:
  "selects sample_budget 8 7 sample_cost
     \<lparr>cs_source = (3, 8), cs_host = (5, 7), cs_measured_prompt_tokens = 90, cs_measurements = 16\<rparr>"
proof -
  have run: "fst (select_context sample_budget 8 7 (\<lambda>request s. (sample_cost request, s)) ()) =
      Ok \<lparr>cs_source = (3, 8), cs_host = (5, 7), cs_measured_prompt_tokens = 90, cs_measurements = 16\<rparr>" by code_simp
  have pure: "answers_with (\<lambda>request (s :: unit). (sample_cost request, s)) sample_cost" by (simp add: answers_with_def)
  show ?thesis using run unfolding select_context_exact [OF pure] .
qed

text \<open>C39. Whatever the measurer answers, an inadmissible budget or unit count is refused before anything is measured.
  Otherwise at most 512 measurements are made, each of a suffix, and never of a history whose budget is zero. A measurer's error
  ends the run and is the error reported; the limit is reported only once all 512 measurements are spent; a selection
  is the input measured last, with the size that was measured, and it fits; the mandatory input is refused only after it was measured
  alone and did not fit.\<close>

theorem select_context_measures:
  "let (r, log) = select_context budget source_units host_units (recorded cost) [] in
     if cb_context_tokens budget \<le> cb_output_tokens budget then r = Err InvalidContextBudget \<and> log = []
     else if MAX_DOCUMENT_PARTS < source_units + host_units then r = Err UnitLimit \<and> log = []
     else (\<forall>request \<in> set log. permitted budget source_units host_units request) \<and> accounts cost r log \<and>
       ends cost budget source_units host_units r log"
proof (cases "cb_context_tokens budget \<le> cb_output_tokens budget \<or> MAX_DOCUMENT_PARTS < source_units + host_units")
  case True
  then show ?thesis by (auto simp: select_context_def checked_add_def)
next
  case False
  then show ?thesis
    using select_context_accounting [of budget source_units host_units cost]
    by (cases "select_context budget source_units host_units (recorded cost) []") auto
qed

theorem select_context_measures_witness:
  "permitted sample_budget 1 0 (MeasureSource (0, 1)) \<and>
   accounts (\<lambda>_ _. Err ''down'') (Err (Measurement ''down'') :: (context_selection, string context_selection_error) result) [MeasureSource (0, 1)]"
proof -
  have "select_context sample_budget 1 0 (recorded (\<lambda>_ _. Err ''down'')) [] = (Err (Measurement ''down''), [MeasureSource (0, 1)])"
    by code_simp
  then show ?thesis
    using select_context_measures [of sample_budget 1 0 "\<lambda>_ _. Err ''down''"]
    by (simp add: sample_budget_def MAX_DOCUMENT_PARTS_def)
qed

end
