(* ===== verification/Document_Projection.thy ===== *)
theory Document_Projection
  imports Branch_History Unicode_Text
begin

text \<open>
  The text projection of documents, \<open>crates/workspace-document/src/projection.rs\<close>, and the stored form that resolves into
  it, \<open>crates/workspace-document/src/snapshot.rs\<close>.

  Borrowed and owned text is the same list of code points, lengths are those of its UTF-8 encoding. A method on
  \<open>&mut self\<close> returns its result and the document afterwards. A type's \<open>Serialize\<close> implementation run by \<open>serde_json\<close>
  is a parameter: the buffers it writes, in order, and whether it completes. The callback that acquires source bytes is a
  parameter with a state of its own, and so is the caller's conversion of errors. Walks of the branch index are partial (\<open>None\<close> is a
  loop that never ends), hence so are validation and resolution.
\<close>

section \<open>The projection\<close>

definition MAX_DOCUMENT_BYTES :: nat where "MAX_DOCUMENT_BYTES = 128 * 1024 * 1024"

datatype message_role = SystemRole | UserRole | AssistantRole | ToolRole

primrec role_label :: "message_role \<Rightarrow> ustr" where
  "role_label SystemRole = ascii ''System''"
| "role_label UserRole = ascii ''User''"
| "role_label AssistantRole = ascii ''Assistant''"
| "role_label ToolRole = ascii ''Tool''"

datatype part_kind = TextPart | ProsePart | VersePart | MessagePart message_role

datatype document_error = DocumentByteBudget | PartBudget | InvalidRange | InvalidUtf8

record ('s, 'm) document_part =
  dp_source :: 's
  dp_source_range :: "nat \<times> nat"
  dp_text :: ustr
  dp_kind :: part_kind
  dp_metadata :: 'm

record ('s, 'm) document =
  doc_parts :: "('s, 'm) document_part list"
  doc_byte_len :: nat

definition document_new :: "('s, 'm) document" where
  "document_new = \<lparr>doc_parts = [], doc_byte_len = 0\<rparr>"

definition document_is_empty :: "('s, 'm) document \<Rightarrow> bool" where
  "document_is_empty self \<longleftrightarrow> doc_parts self = []"

definition check_capacity :: "('s, 'm) document \<Rightarrow> nat \<Rightarrow> (nat, document_error) result" where
  "check_capacity self additional =
     (if MAX_DOCUMENT_PARTS \<le> length (doc_parts self) then Err PartBudget
      else (case checked_add USIZE_MAX (doc_byte_len self) additional of
              None \<Rightarrow> Err DocumentByteBudget
            | Some next \<Rightarrow> if next \<le> MAX_DOCUMENT_BYTES then Ok next else Err DocumentByteBudget))"

definition document_push ::
  "'s \<Rightarrow> nat \<times> nat \<Rightarrow> ustr \<Rightarrow> part_kind \<Rightarrow> 'm \<Rightarrow> ('s, 'm) document \<Rightarrow> (unit, document_error) result \<times> ('s, 'm) document" where
  "document_push source source_range text kind metadata self =
     (case check_capacity self (str_len text) of
        Err e \<Rightarrow> (Err e, self)
      | Ok next_len \<Rightarrow>
          (Ok (), self\<lparr>doc_parts := doc_parts self @ [\<lparr>dp_source = source, dp_source_range = source_range, dp_text = text,
                           dp_kind = kind, dp_metadata = metadata\<rparr>], doc_byte_len := next_len\<rparr>))"

definition push_text :: "'s \<Rightarrow> ustr \<Rightarrow> part_kind \<Rightarrow> 'm \<Rightarrow> ('s, 'm) document \<Rightarrow> (unit, document_error) result \<times> ('s, 'm) document" where
  "push_text source text kind metadata self =
     (case try_from U64_MAX (str_len text) of
        None \<Rightarrow> (Err DocumentByteBudget, self)
      | Some stop \<Rightarrow> document_push source (0, stop) text kind metadata self)"

definition get_range :: "bytes \<Rightarrow> nat \<Rightarrow> nat \<Rightarrow> bytes option" where
  "get_range bs start stop = (if start \<le> stop \<and> stop \<le> length bs then Some (take (stop - start) (drop start bs)) else None)"

definition push_slice ::
  "'s \<Rightarrow> bytes \<Rightarrow> nat \<times> nat \<Rightarrow> part_kind \<Rightarrow> 'm \<Rightarrow> ('s, 'm) document \<Rightarrow> (unit, document_error) result \<times> ('s, 'm) document" where
  "push_slice source bs source_range kind metadata self =
     (case res_bind (ok_or InvalidRange (try_from USIZE_MAX (fst source_range))) (\<lambda>start.
           res_bind (ok_or InvalidRange (try_from USIZE_MAX (snd source_range))) (\<lambda>stop.
           res_bind (ok_or InvalidRange (get_range bs start stop)) (\<lambda>selected.
           res_bind (check_capacity self (length selected)) (\<lambda>_.
             ok_or InvalidUtf8 (from_utf8 selected))))) of
        Err e \<Rightarrow> (Err e, self)
      | Ok text \<Rightarrow> document_push source source_range text kind metadata self)"

definition push_owned_part ::
  "'s \<Rightarrow> nat \<times> nat \<Rightarrow> ustr \<Rightarrow> part_kind \<Rightarrow> 'm \<Rightarrow> ('s, 'm) document \<Rightarrow> (unit, document_error) result \<times> ('s, 'm) document" where
  "push_owned_part source source_range text kind metadata self = document_push source source_range text kind metadata self"

definition document_text :: "('s, 'm) document \<Rightarrow> ustr" where
  "document_text self = foldl (\<lambda>result part. result @ dp_text part) [] (doc_parts self)"

definition label_bytes :: "part_kind \<Rightarrow> nat" where
  "label_bytes kind = (case kind of MessagePart role \<Rightarrow> str_len (role_label role) + 4 | _ \<Rightarrow> 0)"

fun transcript_length :: "nat \<Rightarrow> nat \<Rightarrow> ('s, 'm) document_part list \<Rightarrow> (nat, document_error) result" where
  "transcript_length index n [] = Ok n"
| "transcript_length index n (part # parts) =
     (case Option.bind (checked_add USIZE_MAX n (if index = 0 then 0 else 2)) (\<lambda>n.
           Option.bind (checked_add USIZE_MAX n (label_bytes (dp_kind part))) (\<lambda>n.
             checked_add USIZE_MAX n (str_len (dp_text part)))) of
        None \<Rightarrow> Err DocumentByteBudget
      | Some n \<Rightarrow> if n \<le> MAX_DOCUMENT_BYTES then transcript_length (Suc index) n parts else Err DocumentByteBudget)"

fun transcript_render :: "nat \<Rightarrow> ustr \<Rightarrow> ('s, 'm) document_part list \<Rightarrow> ustr" where
  "transcript_render index result [] = result"
| "transcript_render index result (part # parts) =
     (let result = (if index > 0 then result @ [10, 10] else result);
          result = (case dp_kind part of
                      MessagePart role \<Rightarrow> result @ ascii ''## '' @ role_label role @ [10]
                    | _ \<Rightarrow> result)
      in transcript_render (Suc index) (result @ dp_text part) parts)"

definition transcript :: "('s, 'm) document \<Rightarrow> (ustr, document_error) result" where
  "transcript self = res_bind (transcript_length 0 0 (doc_parts self)) (\<lambda>_. Ok (transcript_render 0 [] (doc_parts self)))"

section \<open>Properties of the projection\<close>

definition part_bytes :: "('s, 'm) document_part list \<Rightarrow> nat" where
  "part_bytes parts = sum_list (map (\<lambda>part. str_len (dp_text part)) parts)"

definition document_ok :: "('s, 'm) document \<Rightarrow> bool" where
  "document_ok self \<longleftrightarrow> doc_byte_len self = part_bytes (doc_parts self) \<and> doc_byte_len self \<le> MAX_DOCUMENT_BYTES \<and>
     length (doc_parts self) \<le> MAX_DOCUMENT_PARTS"

lemma part_bytes_simps [simp]:
  "part_bytes [] = 0" "part_bytes (part # parts) = str_len (dp_text part) + part_bytes parts"
  "part_bytes (parts @ parts') = part_bytes parts + part_bytes parts'"
  by (simp_all add: part_bytes_def)

lemma check_capacity_iff:
  "check_capacity self n =
     (if MAX_DOCUMENT_PARTS \<le> length (doc_parts self) then Err PartBudget
      else if MAX_DOCUMENT_BYTES < doc_byte_len self + n then Err DocumentByteBudget
      else Ok (doc_byte_len self + n))"
  by (simp add: check_capacity_def checked_add_def MAX_DOCUMENT_BYTES_def USIZE_MAX_def U64_MAX_def)

text \<open>What every way of adding a part does to a document: it appends one part, or leaves the document as it was.\<close>

definition appends :: "('s, 'm) document \<Rightarrow> (unit, document_error) result \<times> ('s, 'm) document \<Rightarrow> bool" where
  "appends self out \<longleftrightarrow>
     (case fst out of
        Ok _ \<Rightarrow> \<exists>part. doc_parts (snd out) = doc_parts self @ [part] \<and> doc_byte_len (snd out) = doc_byte_len self + str_len (dp_text part) \<and>
          doc_byte_len (snd out) \<le> MAX_DOCUMENT_BYTES \<and> length (doc_parts (snd out)) \<le> MAX_DOCUMENT_PARTS
      | Err _ \<Rightarrow> snd out = self)"

lemma document_push_appends: "appends self (document_push source source_range text kind metadata self)"
  by (auto simp: appends_def document_push_def check_capacity_iff)

lemma push_appends:
  "appends self (push_text source text kind metadata self)"
  "appends self (push_slice source bs source_range kind metadata self)"
  "appends self (push_owned_part source source_range text kind metadata self)"
proof -
  show "appends self (push_text source text kind metadata self)"
    by (cases "try_from U64_MAX (str_len text)") (simp_all add: push_text_def document_push_appends, simp add: appends_def)
  show "appends self (push_slice source bs source_range kind metadata self)"
    unfolding push_slice_def by (simp add: document_push_appends split: result.split) (simp add: appends_def)
qed (simp add: push_owned_part_def document_push_appends)

lemma appends_document_ok: "appends self out \<Longrightarrow> document_ok self \<Longrightarrow> document_ok (snd out)"
  by (auto simp: appends_def document_ok_def split: result.splits)

theorem push_keeps_document_ok:
  assumes "document_ok self"
  shows "document_ok (snd (push_text source text kind metadata self))"
    "document_ok (snd (push_slice source bs source_range kind metadata self))"
    "document_ok (snd (push_owned_part source source_range text kind metadata self))"
  using assms push_appends appends_document_ok by metis+

lemma document_text_concat: "document_text self = concat (map dp_text (doc_parts self))"
proof -
  have "foldl (\<lambda>result part. result @ dp_text part) acc parts = acc @ concat (map dp_text parts)" for acc and parts :: "('a, 'b) document_part list"
    by (induction parts arbitrary: acc) simp_all
  then show ?thesis by (simp add: document_text_def)
qed

lemma str_len_concat: "str_len (concat ts) = sum_list (map str_len ts)"
  by (induction ts) simp_all

theorem document_text_length: "document_ok self \<Longrightarrow> str_len (document_text self) = doc_byte_len self"
  by (simp add: document_text_concat str_len_concat document_ok_def part_bytes_def comp_def)

text \<open>The transcript without indices: the labelled parts with blank lines between them.\<close>

definition labelled :: "('s, 'm) document_part \<Rightarrow> ustr" where
  "labelled part = (case dp_kind part of MessagePart role \<Rightarrow> ascii ''## '' @ role_label role @ [10] | _ \<Rightarrow> []) @ dp_text part"

fun joined :: "ustr list \<Rightarrow> ustr" where
  "joined [] = []"
| "joined [t] = t"
| "joined (t # ts) = t @ [10, 10] @ joined ts"

lemma str_len_labelled: "str_len (labelled part) = label_bytes (dp_kind part) + str_len (dp_text part)"
proof (cases "dp_kind part")
  case (MessagePart role)
  then show ?thesis by (cases role) (simp_all add: labelled_def label_bytes_def ascii_def len_utf8_def)
qed (simp_all add: labelled_def label_bytes_def)

lemma joined_Cons: "joined (t # ts) = t @ concat (map (\<lambda>t. [10, 10] @ t) ts)"
  by (induction ts arbitrary: t) auto

lemma transcript_render_rest:
  "index > 0 \<Longrightarrow> transcript_render index result parts = result @ concat (map (\<lambda>part. [10, 10] @ labelled part) parts)"
  by (induction index result parts rule: transcript_render.induct) (auto simp: labelled_def Let_def split: part_kind.split)

lemma transcript_render_joined: "transcript_render 0 [] parts = joined (map labelled parts)"
proof (cases parts)
  case (Cons part parts')
  then show ?thesis
    by (simp add: joined_Cons transcript_render_rest comp_def labelled_def Let_def split: part_kind.split)
qed simp

lemma transcript_length_iff:
  "n \<le> MAX_DOCUMENT_BYTES \<Longrightarrow> transcript_length index n parts =
     (let total = n + sum_list (map (\<lambda>part. 2 + str_len (labelled part)) parts) - (if index = 0 \<and> parts \<noteq> [] then 2 else 0)
      in if total \<le> MAX_DOCUMENT_BYTES then Ok total else Err DocumentByteBudget)"
proof (induction parts arbitrary: index n)
  case (Cons part parts)
  let ?next = "n + (if index = 0 then 0 else 2) + label_bytes (dp_kind part) + str_len (dp_text part)"
  have step: "transcript_length index n (part # parts) =
      (if ?next \<le> MAX_DOCUMENT_BYTES then transcript_length (Suc index) ?next parts else Err DocumentByteBudget)"
    by (simp add: checked_add_def MAX_DOCUMENT_BYTES_def USIZE_MAX_def U64_MAX_def)
  show ?case
  proof (cases "?next \<le> MAX_DOCUMENT_BYTES")
    case True
    then show ?thesis unfolding step using Cons.IH [OF True, of "Suc index"] by (simp add: Let_def str_len_labelled)
  next
    case False
    then show ?thesis unfolding step by (cases "index = 0") (simp_all add: Let_def str_len_labelled)
  qed
qed simp

theorem transcript_exact:
  "transcript self =
     (if str_len (joined (map labelled (doc_parts self))) \<le> MAX_DOCUMENT_BYTES then Ok (joined (map labelled (doc_parts self)))
      else Err DocumentByteBudget)"
proof -
  have "str_len (joined (map labelled parts)) = sum_list (map (\<lambda>part. 2 + str_len (labelled part)) parts) - (if parts \<noteq> [] then 2 else 0)" for parts :: "('a, 'b) document_part list"
  proof (cases parts)
    case (Cons part parts')
    have "len_utf8 10 = 1" by (simp add: len_utf8_def)
    then show ?thesis using Cons by (simp add: joined_Cons str_len_concat comp_def)
  qed simp
  then show ?thesis
    by (simp add: transcript_def transcript_length_iff transcript_render_joined Let_def)
qed

end
