(* ===== verification/Document_Snapshot.thy ===== *)
theory Document_Snapshot
  imports Document_Projection
begin

text \<open>
  The stored form of a document, \<open>crates/workspace-document/src/snapshot.rs\<close>: validation, which every snapshot passes when it
  is made or read back, and resolution into a document, which acquires the bytes of its sources. The parts form a
  branch history, so both call the index of \<open>Branch_History\<close>; resolution builds a document of \<open>Document_Projection\<close>.
\<close>

section \<open>Data\<close>

definition SCHEMA_VERSION :: nat where "SCHEMA_VERSION = 1"

datatype source_kind = MessageSource | ArtifactSource

record source_reference =
  sr_kind :: source_kind
  sr_occurrence_id :: ustr
  sr_start_byte :: nat
  sr_end_byte :: nat

record revision_lineage =
  rl_revision_id :: ustr
  rl_parent_revision_id :: "ustr option"

record source_lineage =
  sl_document_id :: ustr
  sl_part_id :: "ustr option"

record document_lineage =
  dl_revision :: "revision_lineage option"
  dl_source :: "source_lineage option"

datatype part_content = InlineContent ustr | SourceContent

record 'm snapshot_part = "ustr hnode" +
  snp_kind :: part_kind
  snp_source :: source_reference
  snp_content :: part_content
  snp_metadata :: 'm

datatype document_selection = SelectSequence | SelectBranch ustr | SelectLatestBranch

record ('h, 'm) document_snapshot =
  ds_schema_version :: nat
  ds_document_id :: ustr
  ds_selection :: document_selection
  ds_lineage :: document_lineage
  ds_metadata :: 'h
  ds_parts :: "'m snapshot_part list"

text \<open>\<open>SnapshotHistory Out_Of_Range\<close> is the panic of an index out of range in the branch index.\<close>

datatype snapshot_error =
    SnapshotMetadata
  | SnapshotSchema
  | SnapshotIdentity
  | SnapshotLineage
  | SnapshotSourceRange
  | SnapshotContent document_error
  | SnapshotHistory history_failure

type_synonym 'a serializer = "'a \<Rightarrow> bytes list \<times> bool"

type_synonym ('s, 'e) resolver = "source_reference \<Rightarrow> 's \<Rightarrow> (bytes, 'e) result \<times> 's"

section \<open>Validation\<close>

definition validate_id :: "ustr \<Rightarrow> (unit, snapshot_error) result" where
  "validate_id i = (if i = [] \<or> 512 < str_len i \<or> list_ex is_control i then Err SnapshotIdentity else Ok ())"

definition metadata_write :: "nat \<Rightarrow> bytes \<Rightarrow> nat option" where
  "metadata_write written bs =
     (case checked_add USIZE_MAX written (length bs) of
        None \<Rightarrow> None
      | Some extent \<Rightarrow> if extent \<le> 16 * 1024 * 1024 then Some extent else None)"

fun write_buffers :: "nat \<Rightarrow> bytes list \<Rightarrow> nat option" where
  "write_buffers written [] = Some written"
| "write_buffers written (bs # buffers) = Option.bind (metadata_write written bs) (\<lambda>written. write_buffers written buffers)"

definition to_writer :: "'a serializer \<Rightarrow> nat \<Rightarrow> 'a \<Rightarrow> (nat, snapshot_error) result" where
  "to_writer json written x =
     (case write_buffers written (fst (json x)) of
        None \<Rightarrow> Err SnapshotMetadata
      | Some written \<Rightarrow> if snd (json x) then Ok written else Err SnapshotMetadata)"

definition validate_revision :: "revision_lineage option \<Rightarrow> (unit, snapshot_error) result" where
  "validate_revision revision =
     (case revision of
        None \<Rightarrow> Ok ()
      | Some revision \<Rightarrow>
          res_bind (validate_id (rl_revision_id revision)) (\<lambda>_.
            case rl_parent_revision_id revision of
              None \<Rightarrow> Ok ()
            | Some parent \<Rightarrow>
                res_bind (validate_id parent) (\<lambda>_.
                  if parent = rl_revision_id revision then Err SnapshotLineage else Ok ())))"

definition validate_source :: "source_lineage option \<Rightarrow> (unit, snapshot_error) result" where
  "validate_source source =
     (case source of
        None \<Rightarrow> Ok ()
      | Some source \<Rightarrow>
          res_bind (validate_id (sl_document_id source)) (\<lambda>_.
            case sl_part_id source of None \<Rightarrow> Ok () | Some part \<Rightarrow> validate_id part))"

fun validate_parts :: "'m serializer \<Rightarrow> 'm snapshot_part list \<Rightarrow> nat \<Rightarrow> nat \<Rightarrow> (unit, snapshot_error) result" where
  "validate_parts json [] written len = Ok ()"
| "validate_parts json (part # parts) written len =
     res_bind (to_writer json written (snp_metadata part)) (\<lambda>written.
     res_bind (validate_id (hn_id part)) (\<lambda>_.
     res_bind (validate_id (sr_occurrence_id (snp_source part))) (\<lambda>_.
     res_bind (ok_or SnapshotSourceRange (checked_sub (sr_end_byte (snp_source part)) (sr_start_byte (snp_source part)))) (\<lambda>n.
     res_bind (case snp_content part of
         InlineContent text \<Rightarrow> if try_from U64_MAX (str_len text) \<noteq> Some n then Err SnapshotSourceRange else Ok ()
       | SourceContent \<Rightarrow> Ok ()) (\<lambda>_.
     res_bind (case checked_add U64_MAX len n of
         None \<Rightarrow> Err (SnapshotContent DocumentByteBudget)
       | Some len \<Rightarrow> if len \<le> MAX_DOCUMENT_BYTES then Ok len else Err (SnapshotContent DocumentByteBudget)) (\<lambda>len.
       validate_parts json parts written len))))))"

definition history_result :: "'a hist \<Rightarrow> ('a, snapshot_error) result" where
  "history_result r = (case r of Ok x \<Rightarrow> Ok x | Err e \<Rightarrow> Err (SnapshotHistory e))"

definition snapshot_validate ::
  "'h serializer \<Rightarrow> 'm serializer \<Rightarrow> ('h, 'm) document_snapshot \<Rightarrow> (unit, snapshot_error) result option" where
  "snapshot_validate header_json json self =
     (case res_bind (if ds_schema_version self \<noteq> SCHEMA_VERSION then Err SnapshotSchema else Ok ()) (\<lambda>_.
           res_bind (validate_id (ds_document_id self)) (\<lambda>_.
           res_bind (validate_revision (dl_revision (ds_lineage self))) (\<lambda>_.
           res_bind (validate_source (dl_source (ds_lineage self))) (\<lambda>_.
             history_result (branch_index_new (ds_parts self)))))) of
        Err e \<Rightarrow> Some (Err e)
      | Ok index \<Rightarrow>
          (case (case ds_selection self of SelectBranch head \<Rightarrow> bi_path index (Some head) | _ \<Rightarrow> Some (Ok [])) of
             None \<Rightarrow> None
           | Some (Err e) \<Rightarrow> Some (Err (SnapshotHistory e))
           | Some (Ok _) \<Rightarrow>
               Some (res_bind (to_writer header_json 0 (ds_metadata self)) (\<lambda>written.
                 validate_parts json (ds_parts self) written 0))))"

definition snapshot_new ::
  "'h serializer \<Rightarrow> 'm serializer \<Rightarrow> ustr \<Rightarrow> document_selection \<Rightarrow> document_lineage \<Rightarrow> 'h \<Rightarrow> 'm snapshot_part list \<Rightarrow>
     (('h, 'm) document_snapshot, snapshot_error) result option" where
  "snapshot_new header_json json document_id selection lineage metadata parts =
     (let snapshot = \<lparr>ds_schema_version = SCHEMA_VERSION, ds_document_id = document_id, ds_selection = selection,
                      ds_lineage = lineage, ds_metadata = metadata, ds_parts = parts\<rparr>
      in map_option (\<lambda>r. res_bind r (\<lambda>_. Ok snapshot)) (snapshot_validate header_json json snapshot))"

text \<open>Reading back: the derived decoder gives the stored fields, and the snapshot they make is validated.\<close>

definition snapshot_deserialize ::
  "'h serializer \<Rightarrow> 'm serializer \<Rightarrow> ('h, 'm) document_snapshot \<Rightarrow> (('h, 'm) document_snapshot, snapshot_error) result option" where
  "snapshot_deserialize header_json json stored =
     (let snapshot = \<lparr>ds_schema_version = ds_schema_version stored, ds_document_id = ds_document_id stored,
                      ds_selection = ds_selection stored, ds_lineage = ds_lineage stored, ds_metadata = ds_metadata stored,
                      ds_parts = ds_parts stored\<rparr>
      in map_option (\<lambda>r. res_bind r (\<lambda>_. Ok snapshot)) (snapshot_validate header_json json snapshot))"

section \<open>Resolution\<close>

definition resolve_part ::
  "(snapshot_error \<Rightarrow> 'e) \<Rightarrow> ('s, 'e) resolver \<Rightarrow> 'm snapshot_part \<Rightarrow> (source_reference, 'm) document \<Rightarrow> 's \<Rightarrow>
     ((source_reference, 'm) document, 'e) result \<times> 's" where
  "resolve_part from_error resolve part document s =
     (case snp_content part of
        InlineContent text \<Rightarrow>
          (case push_owned_part (snp_source part) (sr_start_byte (snp_source part), sr_end_byte (snp_source part)) text
                  (snp_kind part) (snp_metadata part) document of
             (Err e, _) \<Rightarrow> (Err (from_error (SnapshotContent e)), s)
           | (Ok _, document) \<Rightarrow> (Ok document, s))
      | SourceContent \<Rightarrow>
          (case resolve (snp_source part) s of
             (Err e, s) \<Rightarrow> (Err e, s)
           | (Ok bs, s) \<Rightarrow>
               (case push_slice (snp_source part) bs (sr_start_byte (snp_source part), sr_end_byte (snp_source part))
                       (snp_kind part) (snp_metadata part) document of
                  (Err e, _) \<Rightarrow> (Err (from_error (SnapshotContent e)), s)
                | (Ok _, document) \<Rightarrow> (Ok document, s))))"

fun resolve_parts ::
  "(snapshot_error \<Rightarrow> 'e) \<Rightarrow> ('s, 'e) resolver \<Rightarrow> 'm snapshot_part list \<Rightarrow> (source_reference, 'm) document \<Rightarrow> 's \<Rightarrow>
     ((source_reference, 'm) document, 'e) result \<times> 's" where
  "resolve_parts from_error resolve [] document s = (Ok document, s)"
| "resolve_parts from_error resolve (part # parts) document s =
     (case resolve_part from_error resolve part document s of
        (Err e, s) \<Rightarrow> (Err e, s)
      | (Ok document, s) \<Rightarrow> resolve_parts from_error resolve parts document s)"

definition snapshot_resolve ::
  "(snapshot_error \<Rightarrow> 'e) \<Rightarrow> ('s, 'e) resolver \<Rightarrow> ('h, 'm) document_snapshot \<Rightarrow> 's \<Rightarrow>
     (((source_reference, 'm) document, 'e) result \<times> 's) option" where
  "snapshot_resolve from_error resolve self s =
     (case branch_index_new (ds_parts self) of
        Err e \<Rightarrow> Some (Err (from_error (SnapshotHistory e)), s)
      | Ok index \<Rightarrow>
          (case (case ds_selection self of
                   SelectSequence \<Rightarrow> Some (Ok (ds_parts self))
                 | SelectBranch head \<Rightarrow> bi_path index (Some head)
                 | SelectLatestBranch \<Rightarrow> bi_path index (if ds_parts self = [] then None else Some (hn_id (last (ds_parts self))))) of
             None \<Rightarrow> None
           | Some (Err e) \<Rightarrow> Some (Err (from_error (SnapshotHistory e)), s)
           | Some (Ok parts) \<Rightarrow> Some (resolve_parts from_error resolve parts document_new s)))"

section \<open>The specification\<close>

text \<open>The parts a snapshot selects.\<close>

definition selected :: "('h, 'm) document_snapshot \<Rightarrow> 'm snapshot_part list \<Rightarrow> bool" where
  "selected self parts \<longleftrightarrow>
     (case ds_selection self of
        SelectSequence \<Rightarrow> parts = ds_parts self
      | SelectBranch head \<Rightarrow> \<exists>n \<in> set (ds_parts self). hn_id n = head \<and> ancestry (ds_parts self) n parts
      | SelectLatestBranch \<Rightarrow> if ds_parts self = [] then parts = [] else ancestry (ds_parts self) (last (ds_parts self)) parts)"

text \<open>Reading the selected parts in order, with no budget at all: the text of a part is what it holds inline, or what
  its range of the acquired bytes decodes to; the first failure ends the reading.\<close>

definition read_part :: "(snapshot_error \<Rightarrow> 'e) \<Rightarrow> ('s, 'e) resolver \<Rightarrow> 'm snapshot_part \<Rightarrow> 's \<Rightarrow> (ustr, 'e) result \<times> 's" where
  "read_part from_error resolve part s =
     (case snp_content part of
        InlineContent text \<Rightarrow> (Ok text, s)
      | SourceContent \<Rightarrow>
          (case resolve (snp_source part) s of
             (Err e, s) \<Rightarrow> (Err e, s)
           | (Ok bs, s) \<Rightarrow>
               (if length bs < sr_end_byte (snp_source part) then Err (from_error (SnapshotContent InvalidRange))
                else (case from_utf8 (take (sr_end_byte (snp_source part) - sr_start_byte (snp_source part)) (drop (sr_start_byte (snp_source part)) bs)) of
                        None \<Rightarrow> Err (from_error (SnapshotContent InvalidUtf8))
                      | Some text \<Rightarrow> Ok text), s)))"

fun read_parts :: "(snapshot_error \<Rightarrow> 'e) \<Rightarrow> ('s, 'e) resolver \<Rightarrow> 'm snapshot_part list \<Rightarrow> 's \<Rightarrow> (ustr list, 'e) result \<times> 's" where
  "read_parts from_error resolve [] s = (Ok [], s)"
| "read_parts from_error resolve (part # parts) s =
     (case read_part from_error resolve part s of
        (Err e, s) \<Rightarrow> (Err e, s)
      | (Ok text, s) \<Rightarrow>
          (case read_parts from_error resolve parts s of
             (Err e, s) \<Rightarrow> (Err e, s)
           | (Ok texts, s) \<Rightarrow> (Ok (text # texts), s)))"

definition projected :: "'m snapshot_part \<Rightarrow> ustr \<Rightarrow> (source_reference, 'm) document_part" where
  "projected part text = \<lparr>dp_source = snp_source part,
     dp_source_range = (sr_start_byte (snp_source part), sr_end_byte (snp_source part)), dp_text = text,
     dp_kind = snp_kind part, dp_metadata = snp_metadata part\<rparr>"

definition document_of :: "(source_reference, 'm) document_part list \<Rightarrow> (source_reference, 'm) document" where
  "document_of parts = \<lparr>doc_parts = parts, doc_byte_len = part_bytes parts\<rparr>"

definition u64_ranges :: "('h, 'm) document_snapshot \<Rightarrow> bool" where
  "u64_ranges self \<longleftrightarrow> list_all (\<lambda>part. sr_end_byte (snp_source part) \<le> U64_MAX) (ds_parts self)"

section \<open>Decoding keeps lengths\<close>

lemma from_utf8_length: "from_utf8 bs = Some t \<Longrightarrow> str_len t = length bs"
  using from_utf8_encode length_as_bytes by metis

section \<open>A branch is within what its document is within\<close>

lemma ancestry_distinct:
  assumes "acyclic (parent_rel nodes)" "ancestry nodes head p"
  shows "distinct p"
proof -
  have step: "(hn_id (p ! Suc k), hn_id (p ! k)) \<in> parent_rel nodes" if "Suc k < length p" for k
  proof -
    have "p ! Suc k \<in> set nodes" "hn_parent (p ! Suc k) = Some (hn_id (p ! k))"
      using assms (2) that nth_mem [OF that] by (auto simp: ancestry_def)
    then show ?thesis unfolding parent_rel_def by blast
  qed
  have below: "(hn_id (p ! (i + Suc d)), hn_id (p ! i)) \<in> (parent_rel nodes)\<^sup>+" if "i + Suc d < length p" for i d
    using that
  proof (induction d)
    case 0
    then show ?case using step [of i] by auto
  next
    case (Suc d)
    then show ?case using step [of "i + Suc d"] by (simp add: trancl_into_trancl2)
  qed
  have "p ! i \<noteq> p ! j" if "i < j" "j < length p" for i j
    using below [of i "j - Suc i"] that assms (1) by (auto simp: acyclic_def)
  then show ?thesis unfolding distinct_conv_nth by (metis linorder_neqE_nat)
qed

lemma distinct_sum_le:
  fixes f :: "'a \<Rightarrow> nat"
  assumes "distinct p" "set p \<subseteq> set xs"
  shows "sum_list (map f p) \<le> sum_list (map f xs)" "length p \<le> length xs"
proof -
  have "sum_list (map f p) = sum f (set p)" using assms (1) by (rule sum_list_distinct_conv_sum_set)
  also have "\<dots> \<le> sum f (set xs)" using assms (2) by (intro sum_mono2) auto
  also have "\<dots> = sum_list (map f (remdups xs))" by (simp add: sum_list_distinct_conv_sum_set)
  also have "\<dots> \<le> sum_list (map f xs)" by (induction xs) (auto intro: le_SucI trans_le_add2)
  finally show "sum_list (map f p) \<le> sum_list (map f xs)" .
  show "length p \<le> length xs" using assms by (metis card_length card_mono distinct_card finite_set le_trans)
qed

section \<open>What validation establishes\<close>

definition range_bytes :: "'m snapshot_part \<Rightarrow> nat" where
  "range_bytes part = sr_end_byte (snp_source part) - sr_start_byte (snp_source part)"

definition part_ok :: "'m snapshot_part \<Rightarrow> bool" where
  "part_ok part \<longleftrightarrow> sr_start_byte (snp_source part) \<le> sr_end_byte (snp_source part) \<and>
     (case snp_content part of InlineContent text \<Rightarrow> str_len text = range_bytes part | SourceContent \<Rightarrow> True)"

lemma validate_parts_Ok:
  "validate_parts json parts written len = Ok () \<Longrightarrow> len \<le> MAX_DOCUMENT_BYTES \<Longrightarrow>
     (\<forall>part \<in> set parts. part_ok part) \<and> len + sum_list (map range_bytes parts) \<le> MAX_DOCUMENT_BYTES"
proof (induction parts arbitrary: written len)
  case (Cons part parts)
  define n where "n = range_bytes part"
  have sub: "checked_sub (sr_end_byte (snp_source part)) (sr_start_byte (snp_source part)) =
      (if sr_start_byte (snp_source part) \<le> sr_end_byte (snp_source part) then Some n else None)"
    by (simp add: checked_sub_def n_def range_bytes_def)
  obtain written' where step: "sr_start_byte (snp_source part) \<le> sr_end_byte (snp_source part)"
      "case snp_content part of InlineContent text \<Rightarrow> str_len text = n | SourceContent \<Rightarrow> True"
      "len + n \<le> MAX_DOCUMENT_BYTES" "validate_parts json parts written' (len + n) = Ok ()"
    using Cons.prems (1) unfolding validate_parts.simps sub
    by (auto simp: res_bind_Ok_iff checked_add_def try_from_def split: if_splits part_content.splits)
  have "part_ok part" using step (1,2) unfolding part_ok_def n_def by blast
  then show ?case using Cons.IH [OF step (4,3)] by (simp add: n_def)
qed simp

lemma snapshot_validate_Ok:
  assumes "snapshot_validate header_json json self = Some (Ok ())"
  obtains index where "branch_index_new (ds_parts self) = Ok index"
    "\<And>head. ds_selection self = SelectBranch head \<Longrightarrow> head \<in> hn_id ` set (ds_parts self)"
    "\<forall>part \<in> set (ds_parts self). part_ok part" "sum_list (map range_bytes (ds_parts self)) \<le> MAX_DOCUMENT_BYTES"
proof -
  obtain index path written where index: "branch_index_new (ds_parts self) = Ok index"
    and path: "(case ds_selection self of SelectBranch head \<Rightarrow> bi_path index (Some head) | _ \<Rightarrow> Some (Ok [])) = Some (Ok path)"
    and parts: "validate_parts json (ds_parts self) written 0 = Ok ()"
    using assms unfolding snapshot_validate_def history_result_def
    by (auto simp: result_simps split: result.splits option.splits if_splits)
  have head: "head \<in> hn_id ` set (ds_parts self)" if "ds_selection self = SelectBranch head" for head
  proof (rule ccontr)
    assume "head \<notin> hn_id ` set (ds_parts self)"
    then have "bi_path index (Some head) = Some (Err (History MissingHead))" by (rule bi_path_missing [OF index])
    then show False using path that by simp
  qed
  show thesis using that [OF index head] validate_parts_Ok [OF parts] by simp
qed

lemma resolve_part_reads:
  assumes "part_ok part" "sr_end_byte (snp_source part) \<le> U64_MAX"
    "part_bytes begun + range_bytes part \<le> MAX_DOCUMENT_BYTES" "length begun < MAX_DOCUMENT_PARTS"
  shows "resolve_part from_error resolve part (document_of begun) s =
      (case read_part from_error resolve part s of
         (Err e, s) \<Rightarrow> (Err e, s)
       | (Ok t, s) \<Rightarrow> (Ok (document_of (begun @ [projected part t])), s))"
    "\<And>t s'. read_part from_error resolve part s = (Ok t, s') \<Longrightarrow> str_len t = range_bytes part"
proof -
  let ?start = "sr_start_byte (snp_source part)" and ?stop = "sr_end_byte (snp_source part)"
  have range: "?start \<le> ?stop" "?stop \<le> USIZE_MAX" using assms (1,2) by (simp_all add: part_ok_def USIZE_MAX_def)
  have push: "document_push (snp_source part) (?start, ?stop) t (snp_kind part) (snp_metadata part) (document_of begun) =
      (Ok (), document_of (begun @ [projected part t]))" if "str_len t = range_bytes part" for t
    using that assms (3,4) by (simp add: document_push_def check_capacity_iff document_of_def projected_def)
  have slice: "push_slice (snp_source part) bs (?start, ?stop) (snp_kind part) (snp_metadata part) (document_of begun) =
      (if length bs < ?stop then (Err InvalidRange, document_of begun)
       else case from_utf8 (take (?stop - ?start) (drop ?start bs)) of
              None \<Rightarrow> (Err InvalidUtf8, document_of begun)
            | Some t \<Rightarrow> (Ok (), document_of (begun @ [projected part t])))" for bs
  proof (cases "length bs < ?stop")
    case True
    then show ?thesis using range by (simp add: push_slice_def try_from_def get_range_def)
  next
    case False
    let ?b = "take (?stop - ?start) (drop ?start bs)"
    have len: "length ?b = range_bytes part" using False by (simp add: range_bytes_def)
    then have fits: "check_capacity (document_of begun) (length ?b) = Ok (part_bytes begun + range_bytes part)"
      using assms (3,4) unfolding len by (simp add: check_capacity_iff document_of_def)
    have "get_range bs ?start ?stop = Some ?b" using False range (1) by (simp add: get_range_def)
    then have "push_slice (snp_source part) bs (?start, ?stop) (snp_kind part) (snp_metadata part) (document_of begun) =
        (case ok_or InvalidUtf8 (from_utf8 ?b) of
           Err e \<Rightarrow> (Err e, document_of begun)
         | Ok t \<Rightarrow> document_push (snp_source part) (?start, ?stop) t (snp_kind part) (snp_metadata part) (document_of begun))"
      using range fits by (simp add: push_slice_def try_from_def del: length_take)
    then show ?thesis using False push from_utf8_length [of ?b] len by (cases "from_utf8 ?b") simp_all
  qed
  show "resolve_part from_error resolve part (document_of begun) s =
      (case read_part from_error resolve part s of
         (Err e, s) \<Rightarrow> (Err e, s)
       | (Ok t, s) \<Rightarrow> (Ok (document_of (begun @ [projected part t])), s))"
  proof (cases "snp_content part")
    case (InlineContent t)
    then have "str_len t = range_bytes part" using assms (1) by (simp add: part_ok_def)
    then show ?thesis using InlineContent push by (simp add: resolve_part_def read_part_def push_owned_part_def)
  next
    case SourceContent
    then show ?thesis by (simp add: resolve_part_def read_part_def slice split: prod.split result.split option.split)
  qed
  show "str_len t = range_bytes part" if "read_part from_error resolve part s = (Ok t, s')" for t s'
    using that assms (1) from_utf8_length
    by (auto simp: read_part_def part_ok_def range_bytes_def split: part_content.splits prod.splits result.splits if_splits option.splits)
qed

lemma resolve_parts_reads:
  assumes "\<forall>part \<in> set parts. part_ok part \<and> sr_end_byte (snp_source part) \<le> U64_MAX"
    "part_bytes begun + sum_list (map range_bytes parts) \<le> MAX_DOCUMENT_BYTES" "length begun + length parts \<le> MAX_DOCUMENT_PARTS"
  shows "resolve_parts from_error resolve parts (document_of begun) s =
    (case read_parts from_error resolve parts s of
       (Err e, s) \<Rightarrow> (Err e, s)
     | (Ok texts, s) \<Rightarrow> (Ok (document_of (begun @ map2 projected parts texts)), s))"
  using assms
proof (induction parts arbitrary: begun s)
  case (Cons part parts)
  have part: "part_ok part" "sr_end_byte (snp_source part) \<le> U64_MAX" "part_bytes begun + range_bytes part \<le> MAX_DOCUMENT_BYTES"
    "length begun < MAX_DOCUMENT_PARTS" using Cons.prems by simp_all
  note one = resolve_part_reads [OF part, of from_error resolve s]
  obtain r s1 where read: "read_part from_error resolve part s = (r, s1)" by (cases "read_part from_error resolve part s")
  show ?case
  proof (cases r)
    case (Ok t)
    then have "str_len t = range_bytes part" using one (2) read by simp
    then have "resolve_parts from_error resolve parts (document_of (begun @ [projected part t])) s1 =
      (case read_parts from_error resolve parts s1 of
         (Err e, s) \<Rightarrow> (Err e, s)
       | (Ok texts, s) \<Rightarrow> (Ok (document_of ((begun @ [projected part t]) @ map2 projected parts texts)), s))"
      using Cons.prems by (intro Cons.IH) (simp_all add: projected_def)
    then show ?thesis using Ok read one (1) by (simp split: prod.split result.split)
  qed (use read one (1) in \<open>simp\<close>)
qed simp

lemma read_parts_lengths:
  assumes "\<forall>part \<in> set parts. part_ok part" "read_parts from_error resolve parts s = (Ok ts, s')"
  shows "part_bytes (map2 projected parts ts) = sum_list (map range_bytes parts) \<and> length ts = length parts"
  using assms
proof (induction parts arbitrary: s ts)
  case (Cons part parts)
  then obtain t s1 ts' where read: "read_part from_error resolve part s = (Ok t, s1)" "read_parts from_error resolve parts s1 = (Ok ts', s')" "ts = t # ts'"
    by (auto split: prod.splits result.splits)
  have "str_len t = range_bytes part"
    using read (1) Cons.prems (1) from_utf8_length
    by (auto simp: read_part_def part_ok_def range_bytes_def split: part_content.splits prod.splits result.splits if_splits option.splits)
  then show ?case using Cons.IH [OF _ read (2)] Cons.prems (1) read (3) by (simp add: projected_def)
qed simp

text \<open>The snapshots a program can hold: made from their parts, or read back.\<close>

definition made :: "'h serializer \<Rightarrow> 'm serializer \<Rightarrow> ('h, 'm) document_snapshot \<Rightarrow> bool" where
  "made header_json json self \<longleftrightarrow>
     (\<exists>document_id selection lineage metadata parts.
        snapshot_new header_json json document_id selection lineage metadata parts = Some (Ok self)) \<or>
     (\<exists>stored. snapshot_deserialize header_json json stored = Some (Ok self))"

lemma made_validates: "made header_json json self \<Longrightarrow> snapshot_validate header_json json self = Some (Ok ())"
  by (auto simp: made_def snapshot_new_def snapshot_deserialize_def Let_def res_bind_Ok_iff)

lemma selected_parts:
  assumes "branch_index_new (ds_parts self) = Ok index"
    and "\<And>head. ds_selection self = SelectBranch head \<Longrightarrow> head \<in> hn_id ` set (ds_parts self)"
  obtains parts where "selected self parts" "distinct parts" "set parts \<subseteq> set (ds_parts self)"
    "(case ds_selection self of
        SelectSequence \<Rightarrow> Some (Ok (ds_parts self))
      | SelectBranch head \<Rightarrow> bi_path index (Some head)
      | SelectLatestBranch \<Rightarrow> bi_path index (if ds_parts self = [] then None else Some (hn_id (last (ds_parts self))))) = Some (Ok parts)"
proof -
  have acyclic: "acyclic (parent_rel (ds_parts self))" using built_exact [OF assms (1)] by simp
  have path: "\<exists>p. bi_path index (Some (hn_id n)) = Some (Ok p) \<and> ancestry (ds_parts self) n p \<and> distinct p \<and> set p \<subseteq> set (ds_parts self)"
    if "n \<in> set (ds_parts self)" for n
    using bi_path_ancestry [OF assms (1) that] ancestry_distinct [OF acyclic] by (auto simp: ancestry_def)
  show thesis
  proof (cases "ds_selection self")
    case SelectSequence
    have "distinct (ds_parts self)" using branch_index_new_cases [of "ds_parts self"] assms (1) by (auto simp: distinct_map split: if_splits)
    then show thesis using that [of "ds_parts self"] SelectSequence by (simp add: selected_def)
  next
    case (SelectBranch head)
    then obtain n where n: "n \<in> set (ds_parts self)" "hn_id n = head" using assms (2) by blast
    obtain p where p: "bi_path index (Some head) = Some (Ok p)" "ancestry (ds_parts self) n p" "distinct p" "set p \<subseteq> set (ds_parts self)"
      using path [OF n (1)] n (2) by auto
    have "selected self p" unfolding selected_def using SelectBranch n p (2) by auto
    then show thesis using that [OF _ p (3,4)] SelectBranch p (1) by simp
  next
    case SelectLatestBranch
    show thesis
    proof (cases "ds_parts self = []")
      case True
      then show thesis using that [of "[]"] SelectLatestBranch by (simp add: selected_def bi_path_def path_loop.simps)
    next
      case False
      then obtain p where p: "bi_path index (Some (hn_id (last (ds_parts self)))) = Some (Ok p)" "ancestry (ds_parts self) (last (ds_parts self)) p"
          "distinct p" "set p \<subseteq> set (ds_parts self)" using path [of "last (ds_parts self)"] by auto
      then show thesis using that [OF _ p (3,4)] SelectLatestBranch False by (simp add: selected_def)
    qed
  qed
qed

section \<open>Properties\<close>

text \<open>C40. Resolving a snapshot that was made or read back always returns, and its outcome is that of reading the
  selected parts in order with no budgets: the whole sequence, or the chain of ancestors of the branch's head or of the
  last part. Its only errors are the resolver's, a source shorter than the part's range, and a range that does not decode; the byte and part
  budgets, the history and the identities cannot fail any more. Every part keeps its source, range, kind and metadata, and the
  document's length is that of its text and within the budgets.\<close>

theorem snapshot_resolves:
  assumes "made header_json json self" "u64_ranges self"
  shows "\<exists>parts. selected self parts \<and>
    snapshot_resolve from_error resolve self s = Some (case read_parts from_error resolve parts s of
       (Err e, s) \<Rightarrow> (Err e, s)
     | (Ok ts, s) \<Rightarrow> (Ok (document_of (map2 projected parts ts)), s)) \<and>
    (\<forall>ts s'. read_parts from_error resolve parts s = (Ok ts, s') \<longrightarrow>
       length ts = length parts \<and> document_ok (document_of (map2 projected parts ts)))"
proof -
  obtain index where index: "branch_index_new (ds_parts self) = Ok index"
    and head: "\<And>head. ds_selection self = SelectBranch head \<Longrightarrow> head \<in> hn_id ` set (ds_parts self)"
    and ok: "\<forall>part \<in> set (ds_parts self). part_ok part" and sum: "sum_list (map range_bytes (ds_parts self)) \<le> MAX_DOCUMENT_BYTES"
    using snapshot_validate_Ok [OF made_validates [OF assms (1)]] by metis
  obtain parts where parts: "selected self parts" "distinct parts" "set parts \<subseteq> set (ds_parts self)"
    and path: "(case ds_selection self of
        SelectSequence \<Rightarrow> Some (Ok (ds_parts self))
      | SelectBranch head \<Rightarrow> bi_path index (Some head)
      | SelectLatestBranch \<Rightarrow> bi_path index (if ds_parts self = [] then None else Some (hn_id (last (ds_parts self))))) = Some (Ok parts)"
    using selected_parts [OF index head] by blast
  have "length (ds_parts self) \<le> MAX_DOCUMENT_PARTS" using branch_index_new_cases [of "ds_parts self"] index by (auto split: if_splits)
  then have budgets: "sum_list (map range_bytes parts) \<le> MAX_DOCUMENT_BYTES" "length parts \<le> MAX_DOCUMENT_PARTS"
    using distinct_sum_le [OF parts (2,3)] sum le_trans by blast+
  have each: "\<forall>part \<in> set parts. part_ok part \<and> sr_end_byte (snp_source part) \<le> U64_MAX"
    using ok assms (2) parts (3) by (auto simp: u64_ranges_def list_all_iff)
  have new: "document_new = document_of []" by (simp add: document_new_def document_of_def)
  have "snapshot_resolve from_error resolve self s = Some (resolve_parts from_error resolve parts (document_of []) s)"
    by (simp add: snapshot_resolve_def index path new)
  moreover have "document_ok (document_of (map2 projected parts ts))" "length ts = length parts" if "read_parts from_error resolve parts s = (Ok ts, s')" for ts s'
    using read_parts_lengths [OF _ that] each budgets by (simp_all add: document_ok_def document_of_def)
  ultimately show ?thesis
    using parts (1) resolve_parts_reads [OF each, of "[]" from_error resolve s, unfolded append_Nil] budgets
    by (intro exI [of _ parts]) simp
qed

theorem snapshot_resolves_witness:
  "\<exists>self :: (unit, unit) document_snapshot. made (\<lambda>_. ([[123, 125]], True)) (\<lambda>_. ([[123, 125]], True)) self \<and>
     (\<exists>parts. selected self parts \<and> snapshot_resolve (\<lambda>e. e) (\<lambda>reference s. (Ok [104, 101, 121], Suc s)) self 0 =
        Some (case read_parts (\<lambda>e. e) (\<lambda>reference s. (Ok [104, 101, 121], Suc s)) parts 0 of
           (Err e, s) \<Rightarrow> (Err e, s) | (Ok ts, s) \<Rightarrow> (Ok (document_of (map2 projected parts ts)), s)))"
proof -
  let ?root = "\<lparr>hn_id = [97], hn_parent = None, snp_kind = ProsePart,
    snp_source = \<lparr>sr_kind = MessageSource, sr_occurrence_id = [97], sr_start_byte = 0, sr_end_byte = 1\<rparr>,
    snp_content = InlineContent [111], snp_metadata = ()\<rparr>"
  let ?leaf = "\<lparr>hn_id = [98], hn_parent = Some [97], snp_kind = ProsePart,
    snp_source = \<lparr>sr_kind = ArtifactSource, sr_occurrence_id = [98], sr_start_byte = 1, sr_end_byte = 3\<rparr>,
    snp_content = SourceContent, snp_metadata = ()\<rparr>"
  let ?self = "\<lparr>ds_schema_version = SCHEMA_VERSION, ds_document_id = [100], ds_selection = SelectLatestBranch,
    ds_lineage = \<lparr>dl_revision = None, dl_source = None\<rparr>, ds_metadata = (), ds_parts = [?root, ?leaf]\<rparr>"
  let ?json = "\<lambda>_. ([[123, 125]], True)"
  have "snapshot_new ?json ?json [100] SelectLatestBranch \<lparr>dl_revision = None, dl_source = None\<rparr> () [?root, ?leaf] = Some (Ok ?self)"
    by code_simp
  then have made: "made ?json ?json ?self" unfolding made_def by blast
  have "u64_ranges ?self" by (simp add: u64_ranges_def U64_MAX_def)
  from snapshot_resolves [OF made this, of "\<lambda>e. e" "\<lambda>reference s. (Ok [104, 101, 121], Suc s)" 0] made
  show ?thesis by (intro exI [of _ ?self]) blast
qed

end
