(* ===== verification/Spec2Isabelle.thy ===== *)
theory Spec2Isabelle
  imports Operation_Lifecycle Gateway_Registry Gateway_Quota Speech_Registry Generation_Admission Task_Supervisor
    Supervisor_Guarantees Attachment_Budget
    Archive_Path Zip_Preflight Xz_Preflight Pdf_Preflight Mime_Preflight Exact_Token_Budget Prefix_Cache Merge_Law Revision_Diff Branch_History
    Document_References Context_Selection Document_Snapshot
begin

text \<open>
  Verification library of the Delysis native platform.

  \<^bold>\<open>The program.\<close> The repository is a Rust monorepo: a native boundary around llama.cpp (\<open>crates/native\<close>), three
  services, attachment, information and speech (\<open>crates/services\<close>), shared crates for operations and documents
  (\<open>crates/operation-lifecycle\<close>, \<open>crates/workspace-document\<close>), and the products built on them: the gateway Free Token
  Energy (\<open>products/fte\<close>), the chat application Mom Llama (\<open>products/mom\<close>) and the writing application Loom
  (\<open>products/loom\<close>). The library covers the parts that decide something by themselves: who wins a race, what a lease may
  still do, what a quota or a budget admits, what an untrusted file may claim, what a cache returns, and what a merge,
  a diff or a history index makes of documents. How they meet: every product runs its work as operations of a registry
  and its workers under the ledgers of the first group; the gateway pairs its registry with route quotas; the engine
  pairs its request registry with speculative admission, the cell budget of a batch and the prefix cache; attachment
  inspection charges one ledger for everything that ZIP, XZ, PDF and MIME preflight have admitted; Loom merges, compares and
  indexes documents; snapshots are validated against that index and resolved into the projection that prompts are selected from.

  \<^bold>\<open>Foundations.\<close>
  \<^item> \<open>Prelude\<close>: \<open>Result\<close>, checked and saturating arithmetic at machine width, decimal printing, bounded histories.
  \<^item> \<open>Unicode_Text\<close>: strings, their UTF-8 encoding, byte offsets, slices and lines.
  \<^item> \<open>Byte_Reader\<close>: slices and little-endian reads, shared by the file formats.
  \<^item> \<open>Iterators\<close>: orderings and \<open>max_by\<close> of the standard library.
  \<^item> \<open>Lifecycle_Spec\<close>: the abstract life of an operation (reserved, queued, running, terminal, released) as a step
    relation, and a locale for registries that simulate it; interpreted on the four registries below.
  \<^item> \<open>Resource_Ledger\<close>: a locale for ledgers whose charges are monotone and stay within limits; interpreted on the
    attachment budget.
  \<^item> \<open>Lru_Spec\<close>: least-recently-used caches as lists, and a locale for stores that refine them; interpreted on the
    in-memory prefix cache.

  \<^bold>\<open>Operations and workers.\<close>
  \<^item> \<open>Operation_Lifecycle\<close> (\<open>crates/operation-lifecycle/src/lib.rs\<close>): \<open>RunControl\<close> as an atomic cell accessed by any
    number of threads, one step per atomic access, and the worker ledger. One claimant wins, cancellations are never
    lost, the compare-exchange loop ends, and the ledger is exact.
  \<^item> \<open>Gateway_Registry\<close> (\<open>fte-router/src/operation_lifecycle.rs\<close>), \<open>Speech_Registry\<close>
    (\<open>speech-native-host/src/operation_lifecycle.rs\<close>) and \<open>Native_Registry\<close> (\<open>llama-native-engine/src/operation_registry.rs\<close>): the
    three registries with their leases, guards, attempts, cancellation flags and poisoned locks. Handles of an operation
    that is gone are inert, outcomes are final, attempts settle once, cancellation wins, shutdown drains.
  \<^item> \<open>Gateway_Quota\<close> (\<open>fte-router/src/quota.rs\<close>): windows, reservations and settlement. Limits are never exceeded and
    reserved tokens are conserved, whatever the order of calls and clock readings.
  \<^item> \<open>Generation_Admission\<close> (\<open>llama-native-engine/src/generation_admission.rs\<close>): the speculative lane on top of the
    native registry. It is exclusive and yields to foreground requests.
  \<^item> \<open>Generation_Supervisor\<close>, \<open>Supervisor_Guarantees\<close> (\<open>loom-host/src/generation_supervisor.rs\<close>): Loom's supervisor of generation
    operations, the fourth registry, on top of \<open>RunControl\<close> and the worker ledger. Released snapshots are final,
    cancellation wins over completion and reaches every attempt, and the supervisor can always be drained and closed.
  \<^item> \<open>Task_Supervisor\<close> (\<open>speech-native-types/src/task_supervisor.rs\<close>): admission, completion and failure accounting of
    worker tasks, exact under every interleaving.

  \<^bold>\<open>Untrusted attachments\<close> (\<open>attachment-native-inspect/src\<close>).
  \<^item> \<open>Attachment_Budget\<close> (\<open>budget.rs\<close>): every charge of the ledger; its usage always validates.
  \<^item> \<open>Archive_Path\<close> (\<open>path.rs\<close>): member names; the decision on every name is exact, and accepted names are safe on every
    platform, up to the finding recorded for a drive prefix behind a dot component.
  \<^item> \<open>Zip_Preflight\<close> (\<open>zip_preflight.rs\<close>): end records, ZIP64, the directory and the cursor that confines the archive
    reader. Only one framing is admitted, the directory check is exact and reads are confined.
  \<^item> \<open>Xz_Encoding\<close>, \<open>Xz_Preflight\<close> (\<open>xz_preflight.rs\<close>): CRC-32, variable-length integers, block headers, LZMA2 chunks,
    the index and the footer, with every index and slice that could panic as an outcome of its own. It never panics,
    and an accepted file is tiled by the blocks its index lists.
  \<^item> \<open>Pdf_Preflight\<close> (\<open>pdf_preflight.rs\<close>): tokens, object declarations, cross-reference tables and streams, names. The
    preflight is exact: it accepts and reports what definitions without cursors and without its number parser count; its
    notion of a number, which takes letters, is spelled out and recorded as a finding.
  \<^item> \<open>Mime_Preflight\<close> (\<open>mime_preflight.rs\<close>): the walk over headers and boundaries that admits a message. It is bounded
    whatever the mail parser does, and what it admits fits the budgets.

  \<^bold>\<open>The engine's accounting and cache.\<close>
  \<^item> \<open>Exact_Token_Budget\<close> (\<open>llama-native-types/src/exact_token_budget.rs\<close>): the cells a batch needs, equal to the number of
    distinct cells it occupies.
  \<^item> \<open>Cache_Fingerprint\<close> (\<open>llama-native-cache/src/fingerprint.rs\<close>): the canonical encoding of a configuration is
    unambiguous.
  \<^item> \<open>Prefix_Cache\<close> (\<open>llama-native-cache/src/lib.rs\<close>, snapshots of \<open>llama-native-types/src/lib.rs\<close>): the in-memory tier
    refines the abstract cache, and selection never crosses a configuration or an owner and finds the longest prefix.

  \<^bold>\<open>Documents.\<close>
  \<^item> \<open>Text_Merge\<close>, \<open>Merge_Law\<close> (\<open>loom-document/src/merge.rs\<close>): the three-way merge. A merge is the base with the union
    of the changes of both sides woven in, it is symmetric, conflicts are exactly the overlapping changes, only budgets make it fail.
  \<^item> \<open>Revision_Diff\<close> (\<open>loom-document/src/revision_diff.rs\<close>): the spans of a comparison partition both revisions.
  \<^item> \<open>Branch_History\<close> (\<open>workspace-document/src/history.rs\<close>): the parent graph of a document's occurrences; it is accepted
    exactly when it is a forest, and its walks end with the exact answer.
  \<^item> \<open>Document_Projection\<close>, \<open>Document_Snapshot\<close> (\<open>workspace-document/src/projection.rs\<close>, \<open>snapshot.rs\<close>): parts and their text
    under byte and part budgets, and the stored form. The transcript is exact; a snapshot that was validated resolves
    into the text of the parts it selects, and no budget, history or identity can fail it any more.
  \<^item> \<open>Context_Selection\<close> (\<open>workspace-document/src/context.rs\<close>): which units of two histories go into a prompt. The selection is
    the one a description without loops gives, and measuring is bounded whatever the tokenizer answers.
  \<^item> \<open>Reference_Grammar\<close>, \<open>Document_References\<close> (\<open>workspace-document/src/reference_grammar.rs\<close>): the expression language over
    documents and the search for references in Markdown. The parser returns on every input, within its limits, and
    reads back what the printer writes; references are ordered, disjoint and exactly the phrases of a grammar
    that is stated without the parser, and none is missed in prose. The
    locale \<open>level_parser\<close> states what the parsers of one nesting level rely on of the next.

  \<^bold>\<open>Conventions.\<close> A struct is a record whose fields carry a prefix of its type, an enum a datatype, \<open>Result\<close> the sum
  \<open>result\<close>. Machine integers are naturals with the bound written out where the code checks, saturates or wraps, and words
  for bit operations; \<open>usize\<close> has 64 bits. State is passed explicitly; where the code shares memory (cancellation tokens,
  entries behind \<open>Arc\<close>) the model has addresses and a heap. Operations under a lock are atomic and a poisoned lock is a
  state; atomics are one step per access. A panic is an outcome of the model (\<open>None\<close>, or an error of its own), so that
  its absence is a theorem. No fuel is used: loops are structural recursions, functions with a termination proof, or
  partial functions into \<open>option\<close> whose result is proved to be \<open>Some\<close>.

  \<^bold>\<open>Parameters.\<close> Code outside the repository is an argument: the diff engine of the \<open>similar\<close> crate, Unicode word
  segmentation, Unicode character tables, SHA-256, the \<open>mail-parser\<close> crate, what \<open>serde_json\<close> writes, tokenizers, resolvers of source bytes, the iteration order of hash maps, capacities of allocations, clock readings. Where a theorem
  relies on documented behaviour of such code, the hypothesis is a named definition and the witness of the theorem
  instantiates it with a concrete function.

  \<^bold>\<open>Not modelled.\<close> The engine runtime and the bindings (foreign calls), floating-point numerics, SQLite stores,
  network providers and protocol translation, audio backends, document extractors built on third-party parsers, user
  interfaces, command lines and repository tooling: what they decide depends on code outside the repository, or they
  are input and output only.
\<close>

end
